(* ===== verification/Prelude.thy ===== *)
theory Prelude
  imports Main "HOL-Library.Word"
begin

text \<open>
  Shared vocabulary of the development: machine-integer types, C strings, the
  ``first matching slot'' scan that most kernel tables use, byte-order helpers
  and the generic lemmas the component theories rely on.
\<close>

unbundle bit_operations_syntax

subsection \<open>Collections\<close>

named_theorems kstr_simps \<open>evaluation of the C string helpers\<close>
named_theorems slot_simps \<open>facts about slot tables and first-match scans\<close>
named_theorems inv_intros \<open>an operation keeps its component's invariant\<close>
named_theorems byte_simps \<open>byte-order readers and writers\<close>

subsection \<open>Machine integers\<close>

type_synonym u8 = "8 word"
type_synonym u16 = "16 word"
type_synonym u32 = "32 word"
type_synonym u64 = "64 word"

lemma unat_less_2p: "unat (w :: 'a::len word) < 2 ^ LENGTH('a)"
  by (fact unsigned_less)

lemma unat_add_no_wrap:
  "unat (a :: 'a::len word) + unat b < 2 ^ LENGTH('a) \<Longrightarrow> unat (a + b) = unat a + unat b"
  by (simp add: unat_word_ariths(1))

text \<open>Clearing the low bits rounds down.\<close>

lemma unat_and_not_mask: "unat (w AND NOT (mask k) :: 'a::len word) = unat w div 2 ^ k * 2 ^ k"
proof -
  have "w AND NOT (mask k) = push_bit k (drop_bit k w)"
    by (rule bit_eqI) (auto simp: bit_simps)
  moreover have "unat (push_bit k (drop_bit k w)) = take_bit LENGTH('a) (unat w div 2 ^ k * 2 ^ k)"
    unfolding unsigned_push_bit_eq unsigned_drop_bit_eq
    by (simp add: push_bit_eq_mult drop_bit_eq_div take_bit_eq_mod unat_less_2p)
  moreover have "unat w div 2 ^ k * 2 ^ k < 2 ^ LENGTH('a)"
    using le_less_trans [OF div_times_less_eq_dividend unat_less_2p] by blast
  ultimately show ?thesis by (simp add: take_bit_nat_eq_self)
qed

text \<open>Values of C's 32-bit \<open>int\<close>; a computation that leaves the range is undefined in C.\<close>

definition INT_MAX :: int where "INT_MAX = 2147483647"
definition INT_MIN :: int where "INT_MIN = -2147483648"

definition in_int :: "int \<Rightarrow> bool" where
  "in_int v \<longleftrightarrow> INT_MIN \<le> v \<and> v \<le> INT_MAX"

lemmas int_range_defs = in_int_def INT_MAX_def INT_MIN_def

subsection \<open>C strings\<close>

text \<open>
  A \<open>char *\<close> is a list of characters that is followed by a terminator; a list may also
  hold a \<open>NUL\<close> inside (a fixed buffer), and then the string it denotes ends there.
  \<open>chr_at s i\<close> is the read \<open>s[i]\<close> up to and including the terminator.
\<close>

abbreviation NUL :: char where "NUL \<equiv> CHR 0x00"

definition chr_at :: "string \<Rightarrow> nat \<Rightarrow> char" where
  "chr_at s i = (if i < length s then s ! i else NUL)"

definition cstr :: "string \<Rightarrow> string" where
  "cstr s = takeWhile (\<lambda>c. c \<noteq> NUL) s"

text \<open>\<open>wf_cstr s\<close>: the list holds no terminator, so it is the string itself.\<close>

definition wf_cstr :: "string \<Rightarrow> bool" where
  "wf_cstr s \<longleftrightarrow> NUL \<notin> set s"

definition uchar :: "char \<Rightarrow> int" where
  "uchar c = int (of_char c)"

definition bytes_of :: "string \<Rightarrow> u8 list" where
  "bytes_of s = map of_char s"

lemma cstr_Nil [simp, kstr_simps]: "cstr [] = []"
  by (simp add: cstr_def)

lemma cstr_Cons [kstr_simps]: "cstr (c # s) = (if c = NUL then [] else c # cstr s)"
  by (simp add: cstr_def)

lemma wf_cstr_Nil [simp]: "wf_cstr []"
  by (simp add: wf_cstr_def)

lemma wf_cstr_Cons [simp]: "wf_cstr (c # s) \<longleftrightarrow> c \<noteq> NUL \<and> wf_cstr s"
  by (auto simp: wf_cstr_def)

lemma wf_cstr_append [simp]: "wf_cstr (s @ t) \<longleftrightarrow> wf_cstr s \<and> wf_cstr t"
  by (auto simp: wf_cstr_def)

lemma wf_cstr_take [intro]: "wf_cstr s \<Longrightarrow> wf_cstr (take n s)"
  by (auto simp: wf_cstr_def dest: in_set_takeD)

lemma wf_cstr_drop [intro]: "wf_cstr s \<Longrightarrow> wf_cstr (drop n s)"
  by (auto simp: wf_cstr_def dest: in_set_dropD)

lemma wf_cstr_cstr [simp]: "wf_cstr (cstr s)"
  by (auto simp: wf_cstr_def cstr_def dest: set_takeWhileD)

lemma cstr_id [simp]: "wf_cstr s \<Longrightarrow> cstr s = s"
  by (auto simp: wf_cstr_def cstr_def takeWhile_eq_all_conv)

lemma cstr_idem [simp]: "cstr (cstr s) = cstr s"
  by simp

lemma length_cstr_le: "length (cstr s) \<le> length s"
  by (simp add: cstr_def length_takeWhile_le)

lemma chr_at_Cons_0 [simp]: "chr_at (c # s) 0 = c"
  by (simp add: chr_at_def)

lemma chr_at_Cons_Suc [simp]: "chr_at (c # s) (Suc i) = chr_at s i"
  by (simp add: chr_at_def)

lemma chr_at_Nil [simp]: "chr_at [] i = NUL"
  by (simp add: chr_at_def)

lemma uchar_eq_iff [simp]: "uchar c = uchar d \<longleftrightarrow> c = d"
  by (simp add: uchar_def)

lemma uchar_nonneg [simp]: "0 \<le> uchar c"
  by (simp add: uchar_def)

lemma length_bytes_of [simp]: "length (bytes_of s) = length s"
  by (simp add: bytes_of_def)

subsection \<open>First-match scans over slot tables\<close>

text \<open>
  \<open>find_index P xs\<close> is the loop \<open>for (i = 0; i < N; ++i) if (P(xs[i])) return i;\<close>
  over an array held as a list; \<open>None\<close> is falling through it.
\<close>

fun find_index :: "('a \<Rightarrow> bool) \<Rightarrow> 'a list \<Rightarrow> nat option" where
  "find_index P [] = None"
| "find_index P (x # xs) = (if P x then Some 0 else map_option Suc (find_index P xs))"

lemma find_index_None [slot_simps]: "find_index P xs = None \<longleftrightarrow> (\<forall>x \<in> set xs. \<not> P x)"
  by (induction xs) auto

lemma find_index_Some [slot_simps]:
  "find_index P xs = Some i \<longleftrightarrow> i < length xs \<and> P (xs ! i) \<and> (\<forall>j < i. \<not> P (xs ! j))"
proof (induction xs arbitrary: i)
  case Nil
  then show ?case by simp
next
  case (Cons x xs)
  show ?case
  proof (cases i)
    case 0
    then show ?thesis by simp
  next
    case (Suc k)
    have "(\<forall>j < Suc k. \<not> P ((x # xs) ! j)) \<longleftrightarrow> \<not> P x \<and> (\<forall>j < k. \<not> P (xs ! j))"
      by (auto simp: nth_Cons split: nat.splits)
    with Suc Cons.IH show ?thesis by auto
  qed
qed

lemma find_indexD:
  assumes "find_index P xs = Some i"
  shows "i < length xs" and "P (xs ! i)"
  using assms by (simp_all add: find_index_Some)

lemma find_index_unique:
  assumes "i < length xs" and "P (xs ! i)"
    and "\<And>j. j < length xs \<Longrightarrow> P (xs ! j) \<Longrightarrow> j = i"
  shows "find_index P xs = Some i"
proof -
  have "\<forall>j < i. \<not> P (xs ! j)"
    using assms(1,3) by (metis less_irrefl less_trans)
  with assms(1,2) show ?thesis by (simp add: find_index_Some)
qed

lemma find_index_replicate:
  "find_index P (replicate n x) = (if P x \<and> 0 < n then Some 0 else None)"
  by (induction n) auto

lemma find_SomeD: "find P xs = Some x \<Longrightarrow> x \<in> set xs \<and> P x"
  by (induction xs) (auto split: if_splits)

lemma find_index_ex: "(\<exists>x \<in> set xs. P x) \<Longrightarrow> \<exists>i. find_index P xs = Some i"
  using find_index_None [of P xs] by (cases "find_index P xs") auto

text \<open>Number of slots that satisfy a predicate, and how one update changes it.\<close>

definition count_slots :: "('a \<Rightarrow> bool) \<Rightarrow> 'a list \<Rightarrow> nat" where
  "count_slots P xs = length (filter P xs)"

lemma count_slots_Nil [simp]: "count_slots P [] = 0"
  by (simp add: count_slots_def)

lemma count_slots_Cons [simp]:
  "count_slots P (x # xs) = (if P x then Suc (count_slots P xs) else count_slots P xs)"
  by (simp add: count_slots_def)

lemma count_slots_le: "count_slots P xs \<le> length xs"
  by (simp add: count_slots_def)

lemma count_slots_replicate: "\<not> P x \<Longrightarrow> count_slots P (replicate n x) = 0"
  by (simp add: count_slots_def)

lemma count_slots_update:
  "i < length xs \<Longrightarrow>
     count_slots P (xs[i := y]) + (if P (xs ! i) then 1 else 0)
       = count_slots P xs + (if P y then 1 else 0)"
proof (induction xs arbitrary: i)
  case Nil
  then show ?case by simp
next
  case (Cons x xs)
  show ?case
  proof (cases i)
    case 0
    then show ?thesis by simp
  next
    case (Suc k)
    with Cons.prems have "k < length xs" by simp
    from Cons.IH [OF this] Suc show ?thesis by simp
  qed
qed

lemma count_slots_same:
  "i < length xs \<Longrightarrow> P y = P (xs ! i) \<Longrightarrow> count_slots P (xs[i := y]) = count_slots P xs"
  using count_slots_update [of i xs P y] by (auto split: if_splits)

lemma count_slots_pos: "i < length xs \<Longrightarrow> P (xs ! i) \<Longrightarrow> 0 < count_slots P xs"
  by (auto simp: count_slots_def filter_empty_conv intro: nth_mem)

lemma count_slots_full:
  "count_slots P xs = length xs \<longleftrightarrow> (\<forall>x \<in> set xs. P x)"
  by (auto simp: count_slots_def filter_id_conv dest: length_filter_less)

text \<open>Keys of the used slots are pairwise different.\<close>

definition keys_distinct :: "('a \<Rightarrow> bool) \<Rightarrow> ('a \<Rightarrow> 'k) \<Rightarrow> 'a list \<Rightarrow> bool" where
  "keys_distinct U key xs \<longleftrightarrow>
     (\<forall>i < length xs. \<forall>j < length xs. U (xs ! i) \<longrightarrow> U (xs ! j) \<longrightarrow>
        key (xs ! i) = key (xs ! j) \<longrightarrow> i = j)"

lemma keys_distinctD:
  "keys_distinct U key xs \<Longrightarrow> i < length xs \<Longrightarrow> j < length xs \<Longrightarrow> U (xs ! i) \<Longrightarrow> U (xs ! j) \<Longrightarrow>
     key (xs ! i) = key (xs ! j) \<Longrightarrow> i = j"
  by (auto simp: keys_distinct_def)

lemma keys_distinct_update_same:
  "keys_distinct U key xs \<Longrightarrow> i < length xs \<Longrightarrow> (U y \<Longrightarrow> U (xs ! i) \<and> key y = key (xs ! i)) \<Longrightarrow>
     keys_distinct U key (xs[i := y])"
  by (auto simp: keys_distinct_def nth_list_update split: if_splits)

lemma keys_distinct_update_fresh:
  assumes "keys_distinct U key xs" and "i < length xs"
    and "\<And>j. j < length xs \<Longrightarrow> U (xs ! j) \<Longrightarrow> key (xs ! j) = key y \<Longrightarrow> j = i"
  shows "keys_distinct U key (xs[i := y])"
  using assms by (fastforce simp: keys_distinct_def nth_list_update split: if_splits)

lemma keys_distinct_replicate: "\<not> U x \<Longrightarrow> keys_distinct U key (replicate n x)"
  by (simp add: keys_distinct_def)

subsection \<open>Byte order\<close>

text \<open>Reads of 16- and 32-bit values at a byte offset of a list, in both byte orders.\<close>

definition byte_at :: "u8 list \<Rightarrow> nat \<Rightarrow> u8" where
  "byte_at bs i = (if i < length bs then bs ! i else 0)"

definition le16 :: "u8 list \<Rightarrow> nat \<Rightarrow> u16" where
  "le16 bs i = ucast (byte_at bs i) OR push_bit 8 (ucast (byte_at bs (i + 1)))"

definition le32 :: "u8 list \<Rightarrow> nat \<Rightarrow> u32" where
  "le32 bs i = ucast (byte_at bs i) OR push_bit 8 (ucast (byte_at bs (i + 1)))
     OR push_bit 16 (ucast (byte_at bs (i + 2))) OR push_bit 24 (ucast (byte_at bs (i + 3)))"

definition be16_bytes :: "u16 \<Rightarrow> u8 list" where
  "be16_bytes v = [ucast (drop_bit 8 v), ucast v]"

definition be32_bytes :: "u32 \<Rightarrow> u8 list" where
  "be32_bytes v = [ucast (drop_bit 24 v), ucast (drop_bit 16 v), ucast (drop_bit 8 v), ucast v]"

definition le32_bytes :: "u32 \<Rightarrow> u8 list" where
  "le32_bytes v = [ucast v, ucast (drop_bit 8 v), ucast (drop_bit 16 v), ucast (drop_bit 24 v)]"

lemma length_byte_lists [simp]:
  "length (be16_bytes v) = 2" "length (be32_bytes w) = 4" "length (le32_bytes w) = 4"
  by (simp_all add: be16_bytes_def be32_bytes_def le32_bytes_def)

lemma byte_at_append [byte_simps]:
  "byte_at (xs @ ys) i = (if i < length xs then byte_at xs i else byte_at ys (i - length xs))"
  by (auto simp: byte_at_def nth_append)

lemma byte_at_Cons [byte_simps]:
  "byte_at (x # xs) i = (if i = 0 then x else byte_at xs (i - 1))"
  by (cases i) (auto simp: byte_at_def)

lemma le32_le32_bytes: "le32 (le32_bytes v @ bs) 0 = v"
proof (rule bit_word_eqI)
  fix n assume "n < LENGTH(32)"
  then consider "n < 8" | "8 \<le> n" "n < 16" | "16 \<le> n" "n < 24" | "24 \<le> n" "n < 32"
    by fastforce
  then show "bit (le32 (le32_bytes v @ bs) 0) n = bit v n"
    by cases (auto simp: le32_def le32_bytes_def byte_simps bit_simps)
qed

text \<open>Reading past a prefix.\<close>

lemma le_skip [byte_simps]:
  "length xs \<le> i \<Longrightarrow> le16 (xs @ ys) i = le16 ys (i - length xs)"
  "length xs \<le> i \<Longrightarrow> le32 (xs @ ys) i = le32 ys (i - length xs)"
  "0 < i \<Longrightarrow> le16 (y # ys) i = le16 ys (i - 1)"
  "0 < i \<Longrightarrow> le32 (y # ys) i = le32 ys (i - 1)"
  by (auto simp: le16_def le32_def byte_simps Suc_diff_le)

end
