(* ===== verification/KString.thy ===== *)
theory KString
  imports Prelude "HOL-Library.Sublist"
begin

text \<open>
  The freestanding string and number helpers of \<^verbatim>\<open>src/kernel/core_runtime.c\<close> (the
  \<open>k_\<close> functions): comparison, bounded copy and append, decimal and hexadecimal
  printing, \<open>k_atoi\<close>, \<open>k_isqrt\<close>, the tokenizer of the shell and the octal reader of the
  tar headers.  A helper whose C code is undefined for some arguments (signed overflow,
  a shift by the width, a write past a fixed buffer) returns \<open>None\<close> there.
\<close>

subsection \<open>Length and comparison\<close>

fun k_strlen :: "string \<Rightarrow> nat" where
  "k_strlen [] = 0"
| "k_strlen (c # s) = (if c = NUL then 0 else Suc (k_strlen s))"

fun k_strcmp :: "string \<Rightarrow> string \<Rightarrow> int" where
  "k_strcmp (a # as) (b # bs) =
     (if a \<noteq> NUL \<and> b \<noteq> NUL \<and> a = b then k_strcmp as bs else uchar a - uchar b)"
| "k_strcmp [] bs = uchar NUL - uchar (chr_at bs 0)"
| "k_strcmp as [] = uchar (chr_at as 0) - uchar NUL"

fun k_strncmp :: "string \<Rightarrow> string \<Rightarrow> nat \<Rightarrow> int" where
  "k_strncmp a b 0 = 0"
| "k_strncmp a b (Suc n) =
     (let ac = uchar (chr_at a 0); bc = uchar (chr_at b 0)
      in if ac \<noteq> bc then ac - bc
         else if ac = 0 then 0
         else k_strncmp (drop 1 a) (drop 1 b) n)"

definition k_ascii_lower :: "char \<Rightarrow> char" where
  "k_ascii_lower c =
     (if uchar (CHR ''A'') \<le> uchar c \<and> uchar c \<le> uchar (CHR ''Z'')
      then char_of (nat (uchar c - uchar (CHR ''A'') + uchar (CHR ''a''))) else c)"

fun k_strcasecmp_ascii :: "string \<Rightarrow> string \<Rightarrow> int" where
  "k_strcasecmp_ascii (a # as) (b # bs) =
     (if a \<noteq> NUL \<and> b \<noteq> NUL
      then (if uchar (k_ascii_lower a) \<noteq> uchar (k_ascii_lower b)
            then uchar (k_ascii_lower a) - uchar (k_ascii_lower b)
            else k_strcasecmp_ascii as bs)
      else uchar (k_ascii_lower a) - uchar (k_ascii_lower b))"
| "k_strcasecmp_ascii [] bs = uchar NUL - uchar (k_ascii_lower (chr_at bs 0))"
| "k_strcasecmp_ascii as [] = uchar (k_ascii_lower (chr_at as 0)) - uchar NUL"

definition k_is_space :: "char \<Rightarrow> bool" where
  "k_is_space c \<longleftrightarrow> c = CHR 0x20 \<or> c = CHR 0x09 \<or> c = CHR 0x0A \<or> c = CHR 0x0D"

definition k_starts_with :: "string \<Rightarrow> string \<Rightarrow> bool" where
  "k_starts_with t p \<longleftrightarrow> k_strncmp t p (k_strlen p) = 0"

fun contains_loop :: "string \<Rightarrow> string \<Rightarrow> nat \<Rightarrow> bool" where
  "contains_loop [] needle nlen = False"
| "contains_loop (c # text) needle nlen =
     (if c = NUL then False
      else if k_strncmp (c # text) needle nlen = 0 then True
      else contains_loop text needle nlen)"

text \<open>A null pointer argument is \<open>None\<close>.\<close>

fun k_contains :: "string option \<Rightarrow> string option \<Rightarrow> bool" where
  "k_contains (Some text) (Some needle) =
     (let nlen = k_strlen needle
      in if nlen = 0 then True else contains_loop text needle nlen)"
| "k_contains _ _ = False"

lemma k_strlen_cstr [kstr_simps]: "k_strlen s = length (cstr s)"
  by (induction s) (auto simp: cstr_Cons)

lemma uchar_NUL [simp]: "uchar NUL = 0"
  by (simp add: uchar_def)

lemma uchar_0_iff [simp]: "uchar c = 0 \<longleftrightarrow> c = NUL"
  using uchar_eq_iff [of c NUL] by (simp only: uchar_NUL)

lemma k_strcmp_eq_iff [kstr_simps]: "k_strcmp a b = 0 \<longleftrightarrow> cstr a = cstr b"
proof (induction a b rule: k_strcmp.induct)
  case (2 bs)
  then show ?case by (cases bs) (auto simp: cstr_Cons)
qed (auto simp: cstr_Cons)

lemma k_strncmp_eq_iff:
  "k_strncmp a b n = 0 \<longleftrightarrow> take n (cstr a) = take n (cstr b)"
proof (induction a b n rule: k_strncmp.induct)
  case (2 a b n)
  show ?case
  proof (cases a; cases b)
    fix x a' y b' assume ab: "a = x # a'" "b = y # b'"
    show ?thesis
      using 2 ab by (cases "x = y"; cases "x = NUL") (auto simp: cstr_Cons Let_def)
  qed (auto simp: cstr_Cons Let_def)
qed simp

lemma k_starts_with_iff [kstr_simps]: "k_starts_with t p \<longleftrightarrow> prefix (cstr p) (cstr t)"
proof
  assume "k_starts_with t p"
  then have "take (length (cstr p)) (cstr t) = cstr p"
    by (simp add: k_starts_with_def k_strlen_cstr k_strncmp_eq_iff)
  then show "prefix (cstr p) (cstr t)" by (metis take_is_prefix)
next
  assume "prefix (cstr p) (cstr t)"
  then show "k_starts_with t p"
    by (auto simp: k_starts_with_def k_strlen_cstr k_strncmp_eq_iff prefix_def)
qed

lemma contains_loop_iff:
  "n \<noteq> [] \<Longrightarrow> wf_cstr n \<Longrightarrow> contains_loop t n (length n) \<longleftrightarrow> sublist n (cstr t)"
proof (induction t)
  case Nil
  then show ?case by simp
next
  case (Cons c t)
  have "k_strncmp (c # t) n (length n) = 0 \<longleftrightarrow> prefix n (cstr (c # t))"
    using k_starts_with_iff [of "c # t" n] Cons.prems
    by (simp add: k_starts_with_def k_strlen_cstr)
  then show ?case
    using Cons by (cases "c = NUL") (auto simp: cstr_Cons sublist_Cons_right)
qed

lemma k_strncmp_cstr_right: "k_strncmp t n k = 0 \<longleftrightarrow> k_strncmp t (cstr n) k = 0"
  by (simp add: k_strncmp_eq_iff)

lemma contains_loop_cstr: "contains_loop t n k = contains_loop t (cstr n) k"
  by (induction t) (simp_all add: k_strncmp_cstr_right [of _ n])

lemma k_contains_iff: "k_contains (Some t) (Some n) \<longleftrightarrow> sublist (cstr n) (cstr t)"
proof (cases "cstr n = []")
  case True
  then show ?thesis by (simp add: k_strlen_cstr)
next
  case False
  then show ?thesis
    using contains_loop_iff [of "cstr n" t]
    by (simp add: k_strlen_cstr contains_loop_cstr [of t n])
qed

subsection \<open>Bounded copy and append\<close>

text \<open>
  \<open>k_strlcpy dst src n\<close> is the string in the destination afterwards: with size 0 the
  buffer is untouched, otherwise at most \<open>n - 1\<close> characters are copied.
\<close>

fun strlcpy_loop :: "string \<Rightarrow> nat \<Rightarrow> string" where
  "strlcpy_loop [] n = []"
| "strlcpy_loop (c # s) n =
     (if 1 < n \<and> c \<noteq> NUL then c # strlcpy_loop s (n - 1) else [])"

definition k_strlcpy :: "string \<Rightarrow> string \<Rightarrow> nat \<Rightarrow> string" where
  "k_strlcpy dst src n = (if n = 0 then dst else strlcpy_loop src n)"

fun k_append_str :: "nat \<Rightarrow> string \<Rightarrow> string \<Rightarrow> string" where
  "k_append_str cap dst [] = dst"
| "k_append_str cap dst (c # s) =
     (if c \<noteq> NUL \<and> length dst + 1 < cap then k_append_str cap (dst @ [c]) s else dst)"

definition k_append_ch :: "nat \<Rightarrow> string \<Rightarrow> char \<Rightarrow> string" where
  "k_append_ch cap dst c = (if length dst + 1 < cap then dst @ [c] else dst)"

lemma strlcpy_loop_take: "strlcpy_loop s n = take (n - 1) (cstr s)"
proof (induction s n rule: strlcpy_loop.induct)
  case (2 c s n)
  then show ?case by (auto simp: cstr_Cons take_Cons')
qed simp

lemma k_strlcpy_take [kstr_simps]: "0 < n \<Longrightarrow> k_strlcpy dst src n = take (n - 1) (cstr src)"
  by (simp add: k_strlcpy_def strlcpy_loop_take)

lemma k_append_str_take:
  "k_append_str cap dst s = dst @ take (cap - 1 - length dst) (cstr s)"
proof (induction cap dst s rule: k_append_str.induct)
  case (2 cap dst c s)
  show ?case
  proof (cases "c \<noteq> NUL \<and> length dst + 1 < cap")
    case True
    then have "cap - Suc (length dst) = Suc (cap - Suc (Suc (length dst)))" by arith
    with True 2 show ?thesis by (simp add: cstr_Cons)
  qed (auto simp: cstr_Cons)
qed simp

lemma k_append_str_fits:
  "wf_cstr s \<Longrightarrow> length dst + length s < cap \<Longrightarrow> k_append_str cap dst s = dst @ s"
  by (simp add: k_append_str_take)

lemma length_k_append_ch: "length (k_append_ch cap dst c) \<le> max (length dst) (cap - 1)"
  by (auto simp: k_append_ch_def)

subsection \<open>Printing and reading numbers\<close>

definition digit_char :: "nat \<Rightarrow> char" where
  "digit_char d = char_of (48 + d)"

text \<open>The loop that fills \<open>tmp[]\<close>, least significant digit first; \<open>fuel\<close> is \<open>sizeof(tmp)\<close>.\<close>

primrec dec_loop :: "nat \<Rightarrow> nat \<Rightarrow> string" where
  "dec_loop 0 v = []"
| "dec_loop (Suc fuel) v =
     (if v = 0 then [] else digit_char (v mod 10) # dec_loop fuel (v div 10))"

fun append_chs :: "nat \<Rightarrow> string \<Rightarrow> string \<Rightarrow> string" where
  "append_chs cap dst [] = dst"
| "append_chs cap dst (c # cs) = append_chs cap (k_append_ch cap dst c) cs"

definition k_append_u32 :: "nat \<Rightarrow> string \<Rightarrow> u32 \<Rightarrow> string" where
  "k_append_u32 cap dst v =
     (if v = 0 then k_append_ch cap dst (CHR ''0'')
      else append_chs cap dst (rev (dec_loop 12 (unat v))))"

text \<open>A \<open>width\<close> above \<open>sizeof(tmp)\<close> writes past \<open>tmp\<close>.\<close>

definition k_append_u32_pad :: "nat \<Rightarrow> string \<Rightarrow> u32 \<Rightarrow> nat \<Rightarrow> char \<Rightarrow> string option" where
  "k_append_u32_pad cap dst v width fill =
     (let tmp = (if v = 0 then ''0'' else dec_loop 12 (unat v));
          tmp' = tmp @ replicate (width - length tmp) fill
      in if 12 < length tmp' then None else Some (append_chs cap dst (rev tmp')))"

text \<open>\<open>v\<close> is an \<open>int32_t\<close>; \<open>-v\<close> overflows for the least one.\<close>

definition k_append_i32 :: "nat \<Rightarrow> string \<Rightarrow> int \<Rightarrow> string option" where
  "k_append_i32 cap dst v =
     (if v < 0
      then (if in_int (- v)
            then Some (k_append_u32 cap (k_append_ch cap dst (CHR ''-'')) (word_of_int (- v)))
            else None)
      else Some (k_append_u32 cap dst (word_of_int v)))"

definition hex_digits :: string where
  "hex_digits = ''0123456789ABCDEF''"

primrec k_append_hex :: "nat \<Rightarrow> string \<Rightarrow> u32 \<Rightarrow> nat \<Rightarrow> string option" where
  "k_append_hex cap dst v 0 = Some dst"
| "k_append_hex cap dst v (Suc i) =
     (if i * 4 < 32
      then k_append_hex cap
             (k_append_ch cap dst (hex_digits ! unat (drop_bit (i * 4) v AND 15))) v i
      else None)"

primrec k_append_hex64 :: "nat \<Rightarrow> string \<Rightarrow> u64 \<Rightarrow> nat \<Rightarrow> string option" where
  "k_append_hex64 cap dst v 0 = Some dst"
| "k_append_hex64 cap dst v (Suc i) =
     (if i * 4 < 64
      then k_append_hex64 cap
             (k_append_ch cap dst (hex_digits ! unat (drop_bit (i * 4) v AND 15))) v i
      else None)"

definition is_dec_digit :: "char \<Rightarrow> bool" where
  "is_dec_digit c \<longleftrightarrow> 48 \<le> uchar c \<and> uchar c \<le> 57"

fun atoi_loop :: "int \<Rightarrow> string \<Rightarrow> int option" where
  "atoi_loop v [] = Some v"
| "atoi_loop v (c # s) =
     (if is_dec_digit c
      then (let v' = v * 10 + (uchar c - 48)
            in if in_int (v * 10) \<and> in_int v' then atoi_loop v' s else None)
      else Some v)"

definition k_atoi :: "string \<Rightarrow> int option" where
  "k_atoi s =
     (let t = dropWhile k_is_space s
      in if chr_at t 0 = CHR ''-'' then map_option (\<lambda>v. v * -1) (atoi_loop 0 (drop 1 t))
         else if chr_at t 0 = CHR ''+'' then atoi_loop 0 (drop 1 t)
         else atoi_loop 0 t)"

text \<open>The octal field reader of the tar headers, on 32 bits.\<close>

fun octal_loop :: "u32 \<Rightarrow> string \<Rightarrow> u32" where
  "octal_loop v [] = v"
| "octal_loop v (c # s) =
     (if c = NUL \<or> c = CHR '' '' then v
      else if uchar c < 48 \<or> 55 < uchar c then v
      else octal_loop (push_bit 3 v + word_of_int (uchar c - 48)) s)"

definition parse_octal :: "string \<Rightarrow> nat \<Rightarrow> u32" where
  "parse_octal buf max_len = octal_loop 0 (take max_len buf)"

text \<open>The linear congruential generator; the state is the returned value.\<close>

definition k_rand :: "u32 \<Rightarrow> u32" where
  "k_rand g_rand_state = g_rand_state * 1103515245 + 12345"

lemma uchar_digit_char: "d < 10 \<Longrightarrow> uchar (digit_char d) = 48 + int d"
  by (simp add: uchar_def digit_char_def)

lemma is_dec_digit_char: "d < 10 \<Longrightarrow> is_dec_digit (digit_char d)"
  by (simp add: is_dec_digit_def uchar_digit_char)

lemma append_chs_fits: "length dst + length cs < cap \<Longrightarrow> append_chs cap dst cs = dst @ cs"
  by (induction cap dst cs rule: append_chs.induct) (auto simp: k_append_ch_def)

lemma length_dec_loop: "length (dec_loop fuel v) \<le> fuel"
  by (induction fuel arbitrary: v) auto

lemma dec_loop_nonempty: "0 < v \<Longrightarrow> 0 < fuel \<Longrightarrow> dec_loop fuel v \<noteq> []"
  by (cases fuel) auto

lemma dec_loop_digits: "c \<in> set (dec_loop fuel v) \<Longrightarrow> is_dec_digit c"
  by (induction fuel arbitrary: v) (auto simp: is_dec_digit_char split: if_splits)

lemma length_dec_loop_10: "v < 10 ^ k \<Longrightarrow> length (dec_loop fuel v) \<le> k"
proof (induction fuel arbitrary: v k)
  case 0
  then show ?case by simp
next
  case (Suc fuel)
  show ?case
  proof (cases "v = 0")
    case False
    then obtain k' where k: "k = Suc k'"
      using Suc.prems by (cases k) auto
    then have "v div 10 < 10 ^ k'"
      using Suc.prems by auto
    from Suc.IH [OF this] False k show ?thesis by simp
  qed simp
qed

text \<open>Reading the digits back, most significant first, gives the number.\<close>

lemma atoi_loop_digit:
  assumes "d < 10" and "0 \<le> v" and "v * 10 + int d \<le> INT_MAX"
  shows "atoi_loop v (digit_char d # s) = atoi_loop (v * 10 + int d) s"
  using assms by (simp add: is_dec_digit_char uchar_digit_char int_range_defs Let_def)

lemma atoi_loop_dec_loop:
  assumes "v < 10 ^ fuel" and "int v \<le> INT_MAX" and "0 < fuel"
  shows "atoi_loop 0 (rev (dec_loop fuel v) @ s) = atoi_loop (int v) s"
  using assms
proof (induction fuel arbitrary: v s)
  case 0
  then show ?case by simp
next
  case (Suc fuel)
  show ?case
  proof (cases "v = 0")
    case True
    then show ?thesis by simp
  next
    case False
    let ?q = "v div 10" and ?d = "v mod 10"
    have vq: "int v = int ?q * 10 + int ?d"
      by presburger
    have step: "atoi_loop (int ?q) (digit_char ?d # s) = atoi_loop (int v) s"
      using Suc.prems vq by (subst atoi_loop_digit) auto
    show ?thesis
    proof (cases fuel)
      case 0
      with Suc.prems False have "?q = 0" by simp
      with 0 False step show ?thesis by simp
    next
      case (Suc f)
      have "?q < 10 ^ fuel" using Suc.prems by auto
      moreover have "int ?q \<le> INT_MAX" using Suc.prems vq by linarith
      ultimately have "atoi_loop 0 (rev (dec_loop fuel ?q) @ digit_char ?d # s)
          = atoi_loop (int ?q) (digit_char ?d # s)"
        using Suc.IH Suc by simp
      with step False show ?thesis by simp
    qed
  qed
qed

lemma k_append_u32_fits:
  assumes "length dst + 11 < cap"
  shows "k_append_u32 cap dst v =
    dst @ (if v = 0 then ''0'' else rev (dec_loop 12 (unat v)))"
proof (cases "v = 0")
  case True
  with assms show ?thesis by (simp add: k_append_u32_def k_append_ch_def)
next
  case False
  have "unat v < 10 ^ 11"
    using unat_less_2p [of v] by simp
  then have "length (dec_loop 12 (unat v)) \<le> 11"
    by (rule length_dec_loop_10)
  with False assms show ?thesis by (simp add: k_append_u32_def append_chs_fits)
qed

lemma unat_of_nonneg_int: "0 \<le> v \<Longrightarrow> v < 2 ^ 32 \<Longrightarrow> unat (word_of_int v :: u32) = nat v"
  by (simp add: unat_eq_nat_uint uint_word_of_int)

text \<open>What \<open>k_append_u32\<close> prints is a run of digits that the digit loop reads back.\<close>

lemma k_append_u32_digits:
  assumes "0 \<le> v" and "v \<le> INT_MAX" and "length dst + 11 < cap"
  obtains ds where "k_append_u32 cap dst (word_of_int v) = dst @ ds"
    and "ds \<noteq> []" and "\<forall>c \<in> set ds. is_dec_digit c" and "atoi_loop 0 ds = Some v"
proof (cases "v = 0")
  case True
  with assms show ?thesis
    by (intro that [of "''0''"])
      (auto simp: k_append_u32_fits is_dec_digit_def uchar_def int_range_defs Let_def)
next
  case False
  have u: "unat (word_of_int v :: u32) = nat v"
    using assms by (simp add: unat_of_nonneg_int int_range_defs)
  with False assms have nz: "(word_of_int v :: u32) \<noteq> 0"
    by (metis nat_0_iff order_antisym unat_0)
  have "atoi_loop 0 (rev (dec_loop 12 (nat v)) @ []) = atoi_loop (int (nat v)) []"
    using assms by (intro atoi_loop_dec_loop) (auto simp: int_range_defs)
  with nz u assms False show ?thesis
    by (intro that [of "rev (dec_loop 12 (nat v))"])
      (auto simp: k_append_u32_fits dec_loop_nonempty dest: dec_loop_digits)
qed

lemma is_dec_digit_not_sign:
  "is_dec_digit c \<Longrightarrow> \<not> k_is_space c \<and> c \<noteq> CHR ''-'' \<and> c \<noteq> CHR ''+''"
  by (auto simp: is_dec_digit_def k_is_space_def uchar_def)

text \<open>Printing a 32-bit integer and reading it back is the identity.\<close>

theorem k_atoi_append_i32:
  assumes "in_int v" and "v \<noteq> INT_MIN" and "12 < cap"
  shows "\<exists>s. k_append_i32 cap [] v = Some s \<and> k_atoi s = Some v"
proof (cases "v < 0")
  case True
  with assms have r: "0 \<le> - v" "- v \<le> INT_MAX" "in_int (- v)"
    by (auto simp: int_range_defs)
  from assms(3) have "length ''-'' + 11 < cap" by simp
  from k_append_u32_digits [OF r(1,2) this] obtain ds
    where "k_append_u32 cap ''-'' (word_of_int (- v)) = ''-'' @ ds"
      and "atoi_loop 0 ds = Some (- v)" by metis
  with True r assms(3) show ?thesis
    by (auto simp: k_append_i32_def k_append_ch_def k_atoi_def k_is_space_def)
next
  case False
  with assms have r: "0 \<le> v" "v \<le> INT_MAX"
    by (auto simp: int_range_defs)
  from assms(3) have "length [] + 11 < cap" by simp
  from k_append_u32_digits [OF r this] obtain ds
    where ds: "k_append_u32 cap [] (word_of_int v) = ds" "ds \<noteq> []"
      "\<forall>c \<in> set ds. is_dec_digit c" "atoi_loop 0 ds = Some v" by (metis append_Nil)
  then have "\<not> k_is_space (hd ds) \<and> hd ds \<noteq> CHR ''-'' \<and> hd ds \<noteq> CHR ''+''"
    by (metis is_dec_digit_not_sign list.set_sel(1))
  with ds False show ?thesis
    by (cases ds) (auto simp: k_append_i32_def k_atoi_def)
qed

theorem k_atoi_append_i32_witness:
  "in_int (-1024) \<and> (\<exists>s. k_append_i32 24 [] (-1024) = Some s \<and> k_atoi s = Some (-1024))"
  using k_atoi_append_i32 [of "-1024" 24] by (simp add: int_range_defs)

subsection \<open>Integer square root\<close>

text \<open>
  The Newton loop on \<open>uint32_t\<close>: \<open>x + y\<close> wraps.  The loop stops because the new \<open>x\<close> is
  below the old one whenever \<open>y < x\<close>, also when the sum wraps.
\<close>

function isqrt_loop :: "u32 \<Rightarrow> u32 \<Rightarrow> u32 \<Rightarrow> u32" where
  "isqrt_loop n x y =
     (if y < x
      then (let x' = (x + y) div 2 in isqrt_loop n x' (n div (if x' = 0 then 1 else x')))
      else x)"
  by pat_completeness auto
termination
proof (relation "measure (\<lambda>(n, x, y). unat x)")
  fix n x y x' :: u32
  assume "y < x" and "x' = (x + y) div 2"
  then have "unat x' = ((unat x + unat y) mod 2 ^ 32) div 2" and "unat y < unat x"
    by (simp_all add: unat_div unat_word_ariths(1) word_less_nat_alt)
  moreover have "(unat x + unat y) mod 2 ^ 32 \<le> unat x + unat y"
    by (rule mod_less_eq_dividend)
  ultimately show "((n, x', n div (if x' = 0 then 1 else x')), n, x, y)
      \<in> measure (\<lambda>(n, x, y). unat x)"
    by auto
qed simp

declare isqrt_loop.simps [simp del]

definition k_isqrt :: "u32 \<Rightarrow> u32" where
  "k_isqrt n = (if n = 0 then 0 else isqrt_loop n n 1)"

lemma newton_step_above:
  fixes n x :: nat
  assumes "0 < x"
  shows "n < ((x + n div x) div 2 + 1) * ((x + n div x) div 2 + 1)"
proof -
  let ?q = "n div x" and ?m = "(x + n div x) div 2 + 1"
  have "n < x * (?q + 1)"
    using assms by (simp add: dividend_less_times_div add.commute)
  moreover have "x + (?q + 1) \<le> 2 * ?m"
    by simp
  then have "(x + (?q + 1)) * (x + (?q + 1)) \<le> (2 * ?m) * (2 * ?m)"
    by (rule mult_le_mono) (simp_all add: \<open>x + (?q + 1) \<le> 2 * ?m\<close>)
  moreover have "4 * (x * (?q + 1)) \<le> (x + (?q + 1)) * (x + (?q + 1))"
  proof -
    have "int (4 * (x * (?q + 1))) \<le> int ((x + (?q + 1)) * (x + (?q + 1)))"
      using zero_le_square [of "int x - int (?q + 1)"]
      by (simp add: algebra_simps)
    then show ?thesis by (simp only: of_nat_le_iff)
  qed
  ultimately have "4 * n < 4 * (?m * ?m)" by (simp add: mult.assoc mult.left_commute)
  then show ?thesis by simp
qed

lemma newton_sum_bound:
  fixes n x :: nat
  assumes "0 < x" and "x \<le> n"
  shows "x + n div x \<le> n + 1"
proof -
  obtain a b where x: "x = a + 1" and n: "n = x + b"
    using assms by (metis Suc_eq_plus1 gr0_implies_Suc le_Suc_ex)
  have "n \<le> x * (b + 1)"
    using x n by (simp add: algebra_simps)
  then have "n div x \<le> b + 1"
    using assms(1) by (metis div_le_mono nonzero_mult_div_cancel_left not_gr0)
  with n show ?thesis by simp
qed

lemma isqrt_loop_correct:
  assumes "unat y = unat n div unat x" and "0 < unat x" and "unat x \<le> unat n"
    and "unat n < 2 ^ 32 - 1" and "unat n < (unat x + 1) * (unat x + 1)"
  shows "unat (isqrt_loop n x y) * unat (isqrt_loop n x y) \<le> unat n
    \<and> unat n < (unat (isqrt_loop n x y) + 1) * (unat (isqrt_loop n x y) + 1)"
  using assms
proof (induction n x y rule: isqrt_loop.induct)
  case (1 n x y)
  show ?case
  proof (cases "y < x")
    case False
    then have "unat x \<le> unat n div unat x"
      using "1.prems" by (simp add: word_less_nat_alt)
    then have "unat x * unat x \<le> unat n"
      using "1.prems"(2) by (metis less_eq_div_iff_mult_less_eq)
    with False "1.prems" show ?thesis by (simp add: isqrt_loop.simps [of n x y])
  next
    case True
    define x' where "x' = (x + y) div 2"
    have yx: "unat y < unat x" using True by (simp add: word_less_nat_alt)
    have sum: "unat x + unat n div unat x \<le> unat n + 1"
      using "1.prems" by (intro newton_sum_bound) auto
    then have ux: "unat x' = (unat x + unat n div unat x) div 2"
      using "1.prems" by (simp add: x'_def unat_div unat_add_no_wrap)
    have y1: "0 < unat n div unat x"
      using "1.prems" by (simp add: div_greater_zero_iff)
    then have "2 \<le> unat x + unat n div unat x" using "1.prems"(2) by linarith
    then have x1: "0 < unat x'" using ux by (simp add: div_greater_zero_iff)
    then have nz: "x' \<noteq> 0" by auto
    have le: "unat x' \<le> unat n" using ux yx "1.prems" by simp
    have "unat n < (unat x' + 1) * (unat x' + 1)"
      unfolding ux by (rule newton_step_above) (use "1.prems" in simp)
    then have "unat (isqrt_loop n x' (n div x')) * unat (isqrt_loop n x' (n div x')) \<le> unat n
      \<and> unat n < (unat (isqrt_loop n x' (n div x')) + 1) * (unat (isqrt_loop n x' (n div x')) + 1)"
      using "1.IH" [OF True x'_def] nz x1 le "1.prems"(4) by (simp add: unat_div)
    with True nz show ?thesis by (simp add: isqrt_loop.simps [of n x y] Let_def x'_def)
  qed
qed

text \<open>C9: \<open>k_isqrt\<close> is the integer square root of every argument below \<open>2^32 - 1\<close>.\<close>

theorem k_isqrt_correct:
  assumes "unat n < 2 ^ 32 - 1"
  shows "unat (k_isqrt n) * unat (k_isqrt n) \<le> unat n
    \<and> unat n < (unat (k_isqrt n) + 1) * (unat (k_isqrt n) + 1)"
proof (cases "n = 0")
  case True
  then show ?thesis by (simp add: k_isqrt_def)
next
  case False
  then have pos: "0 < unat n" by (simp add: unat_gt_0)
  then have "unat n < (unat n + 1) * (unat n + 1)" by simp
  with pos assms isqrt_loop_correct [of 1 n n] False show ?thesis
    by (simp add: k_isqrt_def)
qed

theorem k_isqrt_correct_witness:
  "unat (1000 :: u32) < 2 ^ 32 - 1 \<and> unat (k_isqrt 1000) * unat (k_isqrt 1000) \<le> 1000
     \<and> 1000 < (unat (k_isqrt 1000) + 1) * (unat (k_isqrt 1000) + 1)"
  using k_isqrt_correct [of 1000] by simp

text \<open>The largest argument wraps the first sum: its ``root'' is 0.\<close>

lemma k_isqrt_max: "k_isqrt 4294967295 = 0"
  by (simp add: k_isqrt_def isqrt_loop.simps Let_def)

subsection \<open>Tokenizer and octal fields\<close>

text \<open>
  \<open>k_split_tokens\<close> returns the pointers it stores in \<open>argv[]\<close> as the token strings: each
  token is cut by the terminator the loop writes after it (or by the end of the buffer).
\<close>

primrec split_loop :: "nat \<Rightarrow> string \<Rightarrow> string list" where
  "split_loop 0 p = []"
| "split_loop (Suc room) p =
     (let p1 = dropWhile k_is_space p
      in if p1 = [] then []
         else (let tok = takeWhile (\<lambda>c. \<not> k_is_space c) p1;
                   p2 = dropWhile (\<lambda>c. \<not> k_is_space c) p1
               in if p2 = [] then [tok] else tok # split_loop room (tl p2)))"

definition k_split_tokens :: "string \<Rightarrow> nat \<Rightarrow> string list" where
  "k_split_tokens buffer max_argv = split_loop max_argv (cstr buffer)"

lemma length_split_loop: "length (split_loop n p) \<le> n"
  by (induction n arbitrary: p) (auto simp: Let_def)

lemma split_loop_token:
  "t \<in> set (split_loop n p) \<Longrightarrow> t \<noteq> [] \<and> (\<forall>c \<in> set t. \<not> k_is_space c)"
proof (induction n arbitrary: p)
  case 0
  then show ?case by simp
next
  case (Suc n)
  show ?case
  proof (cases "dropWhile k_is_space p")
    case Nil
    with Suc.prems show ?thesis by simp
  next
    case (Cons c r)
    then have "\<not> k_is_space c" by (metis hd_dropWhile list.distinct(1) list.sel(1))
    with Cons Suc show ?thesis
      by (auto simp: Let_def dest: set_takeWhileD split: if_splits)
  qed
qed

lemma filter_dropWhile_space:
  "filter (\<lambda>c. \<not> k_is_space c) (dropWhile k_is_space p) = filter (\<lambda>c. \<not> k_is_space c) p"
  by (induction p) auto

lemma split_loop_concat:
  "length p \<le> n \<Longrightarrow> concat (split_loop n p) = filter (\<lambda>c. \<not> k_is_space c) p"
proof (induction n arbitrary: p)
  case 0
  then show ?case by simp
next
  case (Suc n)
  let ?ns = "\<lambda>c. \<not> k_is_space c"
  let ?p1 = "dropWhile k_is_space p"
  let ?p2 = "dropWhile ?ns ?p1"
  have fp: "filter ?ns p = filter ?ns ?p1"
    by (simp add: filter_dropWhile_space)
  have tok: "filter ?ns (takeWhile ?ns ?p1) = takeWhile ?ns ?p1"
    by (auto simp: filter_id_conv dest: set_takeWhileD)
  have split: "filter ?ns ?p1 = takeWhile ?ns ?p1 @ filter ?ns ?p2"
    by (metis tok filter_append takeWhile_dropWhile_id)
  show ?case
  proof (cases ?p2)
    case Nil
    with split fp show ?thesis by (auto simp: Let_def)
  next
    case (Cons c r)
    have c: "k_is_space c"
      using hd_dropWhile [of ?ns ?p1] Cons by simp
    have "length (c # r) \<le> length p"
      unfolding Cons [symmetric] by (meson length_dropWhile_le order_trans)
    then have "concat (split_loop n r) = filter ?ns r"
      using Suc by simp
    with Cons c split fp show ?thesis by (auto simp: Let_def)
  qed
qed

lemma octal_loop_value:
  assumes "\<forall>d \<in> set ds. d < 8"
  shows "octal_loop v (map digit_char ds) = foldl (\<lambda>a d. a * 8 + of_nat d) v ds"
  using assms
proof (induction ds arbitrary: v)
  case Nil
  then show ?case by simp
next
  case (Cons d ds)
  then have d: "uchar (digit_char d) = 48 + int d"
    by (simp add: uchar_digit_char)
  then have "digit_char d \<noteq> NUL" and "digit_char d \<noteq> CHR '' ''"
    by (auto simp: uchar_def)
  with d Cons show ?case
    by (simp add: push_bit_eq_mult mult.commute)
qed

end
