(* ===== verification/KMem.thy ===== *)
theory KMem
  imports Prelude
begin

text \<open>
  Byte memory and the \<open>k_memset\<close> / \<open>k_memcpy\<close> loops of
  \<^verbatim>\<open>src/kernel/core_runtime.c\<close>.  The memory is a total map from addresses to bytes;
  which addresses may be touched is the business of the callers' invariants.
\<close>

type_synonym mem = "nat \<Rightarrow> u8"

text \<open>The state of each loop after \<open>n\<close> rounds.\<close>

primrec k_memset :: "mem \<Rightarrow> nat \<Rightarrow> u8 \<Rightarrow> nat \<Rightarrow> mem" where
  "k_memset m dst v 0 = m"
| "k_memset m dst v (Suc n) = (k_memset m dst v n)(dst + n := v)"

primrec k_memcpy :: "mem \<Rightarrow> nat \<Rightarrow> nat \<Rightarrow> nat \<Rightarrow> mem" where
  "k_memcpy m dst src 0 = m"
| "k_memcpy m dst src (Suc n) =
     (let m' = k_memcpy m dst src n in m'(dst + n := m' (src + n)))"

text \<open>A copy whose source lies outside this memory (a literal, the initrd, a caller's buffer).\<close>

fun store_bytes :: "mem \<Rightarrow> nat \<Rightarrow> u8 list \<Rightarrow> mem" where
  "store_bytes m dst [] = m"
| "store_bytes m dst (b # bs) = store_bytes (m(dst := b)) (Suc dst) bs"

definition load_bytes :: "mem \<Rightarrow> nat \<Rightarrow> nat \<Rightarrow> u8 list" where
  "load_bytes m a n = map (\<lambda>i. m (a + i)) [0..<n]"

text \<open>The sign of the first difference of two byte runs (both at least \<open>n\<close> long).\<close>

fun k_memcmp_bytes :: "u8 list \<Rightarrow> u8 list \<Rightarrow> nat \<Rightarrow> int" where
  "k_memcmp_bytes a b 0 = 0"
| "k_memcmp_bytes a b (Suc n) =
     (let x = uint (byte_at a 0); y = uint (byte_at b 0)
      in if x \<noteq> y then x - y else k_memcmp_bytes (drop 1 a) (drop 1 b) n)"

lemma k_memset_apply [simp]:
  "k_memset m dst v n a = (if dst \<le> a \<and> a < dst + n then v else m a)"
  by (induction n) auto

lemma store_bytes_apply [simp]:
  "store_bytes m dst bs a =
     (if dst \<le> a \<and> a < dst + length bs then bs ! (a - dst) else m a)"
proof (induction m dst bs rule: store_bytes.induct)
  case (2 m dst b bs)
  show ?case
    unfolding store_bytes.simps "2.IH" by (auto simp: nth_Cons')
qed auto

lemma k_memcpy_apply:
  assumes "dst + n \<le> src \<or> src + n \<le> dst"
  shows "k_memcpy m dst src n a =
     (if dst \<le> a \<and> a < dst + n then m (src + (a - dst)) else m a)"
  using assms
proof (induction n arbitrary: a)
  case 0
  then show ?case by auto
next
  case (Suc n)
  then have "dst + n \<le> src \<or> src + n \<le> dst" by auto
  with Suc show ?case by (auto simp: Let_def less_Suc_eq)
qed

lemma k_memcpy_outside:
  "a < dst \<or> dst + n \<le> a \<Longrightarrow> k_memcpy m dst src n a = m a"
  by (induction n) (auto simp: Let_def)

lemma length_load_bytes [simp]: "length (load_bytes m a n) = n"
  by (simp add: load_bytes_def)

lemma nth_load_bytes [simp]: "i < n \<Longrightarrow> load_bytes m a n ! i = m (a + i)"
  by (simp add: load_bytes_def)

lemma load_bytes_0 [simp]: "load_bytes m a 0 = []"
  by (simp add: load_bytes_def)

lemma load_bytes_cong:
  "(\<And>i. i < n \<Longrightarrow> m (a + i) = m' (a' + i)) \<Longrightarrow> load_bytes m a n = load_bytes m' a' n"
  by (simp add: load_bytes_def)

lemma load_store_bytes [simp]: "load_bytes (store_bytes m a bs) a (length bs) = bs"
  by (rule nth_equalityI) auto

lemma load_store_bytes_other:
  "a + n \<le> d \<or> d + length bs \<le> a \<Longrightarrow> load_bytes (store_bytes m d bs) a n = load_bytes m a n"
  by (rule load_bytes_cong) auto

lemma load_upd_other:
  "a + n \<le> d \<or> d < a \<Longrightarrow> load_bytes (m(d := v)) a n = load_bytes m a n"
  by (rule load_bytes_cong) auto

lemma load_memset_other:
  "a + n \<le> d \<or> d + k \<le> a \<Longrightarrow> load_bytes (k_memset m d v k) a n = load_bytes m a n"
  by (rule load_bytes_cong) auto

lemma load_memset [simp]: "load_bytes (k_memset m a v n) a n = replicate n v"
  by (rule nth_equalityI) auto

lemma load_memcpy:
  assumes "d + n \<le> s \<or> s + n \<le> d"
  shows "load_bytes (k_memcpy m d s n) d n = load_bytes m s n"
  by (rule nth_equalityI) (simp_all add: k_memcpy_apply [OF assms])

lemma load_memcpy_other:
  "a + n \<le> d \<or> d + k \<le> a \<Longrightarrow> load_bytes (k_memcpy m d s k) a n = load_bytes m a n"
  by (rule load_bytes_cong) (auto intro: k_memcpy_outside)

lemma k_memcmp_bytes_eq_iff:
  "n \<le> length a \<Longrightarrow> n \<le> length b \<Longrightarrow> k_memcmp_bytes a b n = 0 \<longleftrightarrow> take n a = take n b"
proof (induction a b n rule: k_memcmp_bytes.induct)
  case (2 a b n)
  then show ?case by (cases a; cases b) (auto simp: byte_at_def Let_def word_uint_eq_iff)
qed simp

end
