(* ===== verification/KHeap.thy ===== *)
theory KHeap
  imports KMem
begin

text \<open>
  The kernel heap of \<^verbatim>\<open>src/kernel/core_runtime.c\<close> (\<open>heap_init\<close>, \<open>kmalloc\<close>, \<open>kfree\<close>,
  \<open>kcalloc\<close>): first fit with splitting and coalescing over a chain of block headers.  The
  chain is a list in \<open>next\<close> order; each header carries its own address, so the layout of
  the arena (where the next header lies, which payloads overlap) is a fact to prove and not
  built in.  Payload bytes are a byte memory.  \<open>sizeof(heap_block_t)\<close> is 24.
\<close>

subsection \<open>State\<close>

definition HEAP_SIZE :: nat where "HEAP_SIZE = 4 * 1024 * 1024"
definition HEAP_MAGIC :: u32 where "HEAP_MAGIC = 0xB105F00D"
definition HDR :: nat where "HDR = 24"

record heap_block =
  baddr :: nat
  bsize :: nat
  bused :: bool
  bmagic :: u32

record kheap =
  hblocks :: "heap_block list"
  hmem :: mem
  g_heap_alloc_count :: u32
  g_heap_free_count :: u32
  g_heap_used_bytes :: u32
  g_heap_peak_bytes :: u32

text \<open>
  What a call does: it returns, or it ends in \<open>panic\<close>.  \<open>WildFree\<close> is a \<open>kfree\<close> of an
  address that is no payload of the chain: what the code reads there as a header depends on
  payload bytes.
\<close>

datatype heap_panic = HeapCorruption | BadPointer | DoubleFree | WildFree

datatype 'a kresult = Ret 'a | Panic heap_panic

text \<open>Sequencing: a panic ends the computation.\<close>

fun kbind :: "'a kresult \<Rightarrow> ('a \<Rightarrow> 'b kresult) \<Rightarrow> 'b kresult" where
  "kbind (Ret x) f = f x"
| "kbind (Panic e) f = Panic e"

lemma kbind_Ret: "kbind r f = Ret y \<longleftrightarrow> (\<exists>x. r = Ret x \<and> f x = Ret y)"
  by (cases r) auto

subsection \<open>Operations\<close>

definition heap_init :: "nat \<Rightarrow> mem \<Rightarrow> kheap" where
  "heap_init arena m =
     \<lparr> hblocks = [\<lparr> baddr = arena, bsize = HEAP_SIZE - HDR, bused = False, bmagic = HEAP_MAGIC \<rparr>],
       hmem = m, g_heap_alloc_count = 0, g_heap_free_count = 0,
       g_heap_used_bytes = 0, g_heap_peak_bytes = 0 \<rparr>"

text \<open>The search: the index of the first free block that is large enough.\<close>

fun first_fit :: "nat \<Rightarrow> heap_block list \<Rightarrow> nat option kresult" where
  "first_fit sz [] = Ret None"
| "first_fit sz (b # bs) =
     (if bmagic b \<noteq> HEAP_MAGIC then Panic HeapCorruption
      else if bused b \<or> bsize b < sz
        then (case first_fit sz bs of Panic e \<Rightarrow> Panic e | Ret r \<Rightarrow> Ret (map_option Suc r))
      else Ret (Some 0))"

text \<open>Taking a block: split off the rest when it can hold a header and 16 bytes.\<close>

definition take_block :: "nat \<Rightarrow> heap_block \<Rightarrow> heap_block list" where
  "take_block sz b =
     (if sz + HDR + 16 \<le> bsize b
      then [b\<lparr> bsize := sz, bused := True \<rparr>,
            \<lparr> baddr = baddr b + HDR + sz, bsize = bsize b - sz - HDR, bused = False,
              bmagic = HEAP_MAGIC \<rparr>]
      else [b\<lparr> bused := True \<rparr>])"

text \<open>The rounding is on \<open>size_t\<close> and wraps for sizes close to \<open>2^64\<close>.\<close>

definition round8 :: "nat \<Rightarrow> nat" where
  "round8 sz = (sz + 7) mod 2 ^ 64 div 8 * 8"

definition kmalloc :: "kheap \<Rightarrow> nat \<Rightarrow> (kheap \<times> nat) kresult" where
  "kmalloc h size0 =
     (if size0 = 0 then Ret (h, 0)
      else (let sz = round8 size0
       in case first_fit sz (hblocks h) of
            Panic e \<Rightarrow> Panic e
          | Ret None \<Rightarrow> Ret (h, 0)
          | Ret (Some i) \<Rightarrow>
              (let b = hblocks h ! i;
                   new = take_block sz b;
                   used = g_heap_used_bytes h + word_of_nat (bsize (hd new))
               in Ret (h\<lparr> hblocks := take i (hblocks h) @ new @ drop (Suc i) (hblocks h),
                          g_heap_alloc_count := g_heap_alloc_count h + 1,
                          g_heap_used_bytes := used,
                          g_heap_peak_bytes :=
                            (if g_heap_peak_bytes h < used then used else g_heap_peak_bytes h) \<rparr>,
                       baddr b + HDR))))"

fun coalesce :: "heap_block list \<Rightarrow> heap_block list" where
  "coalesce (a # b # bs) =
     (if \<not> bused a \<and> \<not> bused b then coalesce (a\<lparr> bsize := bsize a + HDR + bsize b \<rparr> # bs)
      else a # coalesce (b # bs))"
| "coalesce bs = bs"

definition kfree :: "kheap \<Rightarrow> nat \<Rightarrow> kheap kresult" where
  "kfree h p =
     (if p = 0 then Ret h
      else (case find_index (\<lambda>b. baddr b + HDR = p) (hblocks h) of
          None \<Rightarrow> Panic WildFree
        | Some i \<Rightarrow>
            (let b = hblocks h ! i
             in if bmagic b \<noteq> HEAP_MAGIC then Panic BadPointer
                else if \<not> bused b then Panic DoubleFree
                else Ret (h\<lparr> hblocks := coalesce ((hblocks h)[i := b\<lparr> bused := False \<rparr>]),
                             g_heap_used_bytes :=
                               (if word_of_nat (bsize b) \<le> g_heap_used_bytes h
                                then g_heap_used_bytes h - word_of_nat (bsize b)
                                else g_heap_used_bytes h),
                             g_heap_free_count := g_heap_free_count h + 1 \<rparr>))))"

definition kcalloc :: "kheap \<Rightarrow> nat \<Rightarrow> nat \<Rightarrow> (kheap \<times> nat) kresult" where
  "kcalloc h n sz =
     (let total = n * sz mod 2 ^ 64
      in case kmalloc h total of
           Panic e \<Rightarrow> Panic e
         | Ret (h', p) \<Rightarrow>
             if p \<noteq> 0 then Ret (h'\<lparr> hmem := k_memset (hmem h') p 0 total \<rparr>, p) else Ret (h', 0))"

definition heap_stats :: "kheap \<Rightarrow> u32 \<times> u32 \<times> u32 \<times> u32" where
  "heap_stats h = (g_heap_used_bytes h, g_heap_peak_bytes h, g_heap_alloc_count h, g_heap_free_count h)"

subsection \<open>The layout of the arena\<close>

text \<open>\<open>chain s bs e\<close>: the blocks tile the addresses from \<open>s\<close> to \<open>e\<close>.\<close>

fun chain :: "nat \<Rightarrow> heap_block list \<Rightarrow> nat \<Rightarrow> bool" where
  "chain s [] e \<longleftrightarrow> s = e"
| "chain s (b # bs) e \<longleftrightarrow> baddr b = s \<and> chain (s + HDR + bsize b) bs e"

text \<open>No two neighbouring blocks are free.\<close>

fun coalesced :: "heap_block list \<Rightarrow> bool" where
  "coalesced (a # b # bs) \<longleftrightarrow> (bused a \<or> bused b) \<and> coalesced (b # bs)"
| "coalesced bs \<longleftrightarrow> True"

fun used_sum :: "heap_block list \<Rightarrow> nat" where
  "used_sum [] = 0"
| "used_sum (b # bs) = (if bused b then bsize b else 0) + used_sum bs"

definition blocks_ok :: "nat \<Rightarrow> heap_block list \<Rightarrow> bool" where
  "blocks_ok arena bs \<longleftrightarrow>
     chain arena bs (arena + HEAP_SIZE) \<and> coalesced bs
     \<and> (\<forall>b \<in> set bs. bmagic b = HEAP_MAGIC \<and> 8 dvd bsize b)"

definition heap_ok :: "nat \<Rightarrow> kheap \<Rightarrow> bool" where
  "heap_ok arena h \<longleftrightarrow>
     0 < arena \<and> blocks_ok arena (hblocks h)
     \<and> unat (g_heap_used_bytes h) = used_sum (hblocks h)
     \<and> g_heap_used_bytes h \<le> g_heap_peak_bytes h"

text \<open>The live allocations: payload address to payload size.\<close>

definition live_blocks :: "heap_block list \<Rightarrow> nat \<Rightarrow> nat option" where
  "live_blocks bs p =
     map_option bsize (find (\<lambda>b. bused b \<and> baddr b + HDR = p) bs)"

definition live :: "kheap \<Rightarrow> nat \<Rightarrow> nat option" where
  "live h = live_blocks (hblocks h)"

lemmas layout_defs = HDR_def HEAP_SIZE_def

lemma chain_append: "chain s (xs @ ys) e \<longleftrightarrow> (\<exists>m. chain s xs m \<and> chain m ys e)"
  by (induction xs arbitrary: s) auto

lemma chain_le: "chain s bs e \<Longrightarrow> s \<le> e"
  by (induction bs arbitrary: s) fastforce+

lemma chain_mem:
  "chain s bs e \<Longrightarrow> b \<in> set bs \<Longrightarrow> s \<le> baddr b \<and> baddr b + HDR + bsize b \<le> e"
proof (induction bs arbitrary: s)
  case Nil
  then show ?case by simp
next
  case (Cons c bs)
  then show ?case using chain_le [of "s + HDR + bsize c" bs e] by fastforce
qed

lemma used_sum_append [simp]: "used_sum (xs @ ys) = used_sum xs + used_sum ys"
  by (induction xs) auto

lemma used_sum_le: "chain s bs e \<Longrightarrow> s + used_sum bs \<le> e"
  by (induction bs arbitrary: s) fastforce+

lemma coalesced_Cons:
  "coalesced (b # bs) \<longleftrightarrow> coalesced bs \<and> (bs \<noteq> [] \<longrightarrow> bused b \<or> bused (hd bs))"
  by (cases bs) auto

lemma coalesced_append:
  "coalesced (xs @ ys) \<longleftrightarrow>
     coalesced xs \<and> coalesced ys \<and> (xs \<noteq> [] \<longrightarrow> ys \<noteq> [] \<longrightarrow> bused (last xs) \<or> bused (hd ys))"
  by (induction xs) (auto simp: coalesced_Cons hd_append)

lemma live_blocks_Nil [simp]: "live_blocks [] = Map.empty"
  by (simp add: live_blocks_def fun_eq_iff)

lemma live_blocks_Cons:
  "live_blocks (b # bs) p =
     (if bused b \<and> baddr b + HDR = p then Some (bsize b) else live_blocks bs p)"
  by (simp add: live_blocks_def)

lemma live_blocks_append: "live_blocks (xs @ ys) = live_blocks ys ++ live_blocks xs"
  by (induction xs) (auto simp: fun_eq_iff map_add_def live_blocks_Cons split: option.splits)

lemma live_blocks_Some:
  "live_blocks bs p = Some m \<Longrightarrow> \<exists>b \<in> set bs. bused b \<and> baddr b + HDR = p \<and> bsize b = m"
  by (induction bs) (auto simp: live_blocks_Cons split: if_splits)

lemma live_blocks_bounds:
  assumes "chain s bs e" and "live_blocks bs p = Some m"
  shows "s + HDR \<le> p" and "p + m \<le> e"
proof -
  obtain b where "b \<in> set bs" "baddr b + HDR = p" "bsize b = m"
    using live_blocks_Some [OF assms(2)] by blast
  with chain_mem [OF assms(1) this(1)] show "s + HDR \<le> p" "p + m \<le> e" by auto
qed

lemma live_blocks_outside:
  "chain s bs e \<Longrightarrow> p < s + HDR \<or> e < p \<Longrightarrow> live_blocks bs p = None"
  using live_blocks_bounds [of s bs e p] by (cases "live_blocks bs p") fastforce+

lemma live_blocks_disjoint:
  "chain s bs e \<Longrightarrow> live_blocks bs p = Some m \<Longrightarrow> live_blocks bs q = Some k \<Longrightarrow> p \<noteq> q \<Longrightarrow>
     p + m \<le> q \<or> q + k \<le> p"
proof (induction bs arbitrary: s)
  case Nil
  then show ?case by simp
next
  case (Cons b bs)
  have rest: "chain (s + HDR + bsize b) bs e" and addr: "baddr b = s"
    using Cons.prems(1) by auto
  have "p \<ge> s + HDR + bsize b" if "live_blocks bs p = Some m" for p m
    using live_blocks_bounds(1) [OF rest that] by simp
  with Cons addr rest show ?case
    by (auto simp: live_blocks_Cons split: if_splits)
qed

subsection \<open>Coalescing\<close>

lemma chain_coalesce: "chain s bs e \<Longrightarrow> chain s (coalesce bs) e"
  by (induction bs arbitrary: s rule: coalesce.induct) (auto simp: add.assoc)

lemma coalesce_neq_Nil [simp]: "coalesce bs = [] \<longleftrightarrow> bs = []"
  by (induction bs rule: coalesce.induct) auto

lemma bused_hd_coalesce: "bused (hd (coalesce (b # bs))) = bused b"
  by (induction "b # bs" arbitrary: b bs rule: coalesce.induct) auto

lemma coalesced_coalesce: "coalesced (coalesce bs)"
  by (induction bs rule: coalesce.induct) (auto simp: coalesced_Cons bused_hd_coalesce)

lemma coalesce_id: "coalesced bs \<Longrightarrow> coalesce bs = bs"
  by (induction bs rule: coalesce.induct) auto

lemma used_sum_coalesce [simp]: "used_sum (coalesce bs) = used_sum bs"
  by (induction bs rule: coalesce.induct) auto

lemma live_blocks_coalesce [simp]: "live_blocks (coalesce bs) = live_blocks bs"
  by (induction bs rule: coalesce.induct) (auto simp: fun_eq_iff live_blocks_Cons)

lemma coalesce_headers:
  "\<forall>b \<in> set bs. bmagic b = HEAP_MAGIC \<and> 8 dvd bsize b \<Longrightarrow>
   \<forall>b \<in> set (coalesce bs). bmagic b = HEAP_MAGIC \<and> 8 dvd bsize b"
  by (induction bs rule: coalesce.induct) (auto simp: HDR_def)

text \<open>Two free neighbours in an otherwise coalesced chain are merged and nothing else.\<close>

lemma coalesce_merge:
  assumes "coalesced (pre @ a\<lparr> bsize := n \<rparr> # post)" and "\<not> bused a" and "\<not> bused b"
    and "n = bsize a + HDR + bsize b"
  shows "coalesce (pre @ a # b # post) = pre @ a\<lparr> bsize := n \<rparr> # post"
  using assms
proof (induction pre)
  case Nil
  then show ?case by (simp add: coalesce_id)
next
  case (Cons x pre)
  then show ?case by (cases pre) (auto simp: coalesce_id)
qed

subsection \<open>Allocation\<close>

lemma first_fit_find:
  "\<forall>b \<in> set bs. bmagic b = HEAP_MAGIC \<Longrightarrow>
     first_fit sz bs = Ret (find_index (\<lambda>b. \<not> bused b \<and> sz \<le> bsize b) bs)"
  by (induction bs) auto

lemma round8_dvd [simp]: "8 dvd round8 n"
  by (simp add: round8_def)

lemma round8_ge: "n + 7 < 2 ^ 64 \<Longrightarrow> n \<le> round8 n"
  by (simp add: round8_def)

lemma chain_take_block:
  "sz \<le> bsize b \<Longrightarrow> chain s (take_block sz b) e \<longleftrightarrow> chain s [b] e"
  by (auto simp: take_block_def)

lemma take_block_hd:
  "sz \<le> bsize b \<Longrightarrow> sz \<le> bsize (hd (take_block sz b)) \<and> bsize (hd (take_block sz b)) \<le> bsize b"
  by (auto simp: take_block_def)

lemma used_sum_take_block: "used_sum (take_block sz b) = bsize (hd (take_block sz b))"
  by (simp add: take_block_def)

lemma take_block_headers:
  "8 dvd sz \<Longrightarrow> 8 dvd bsize b \<Longrightarrow> bmagic b = HEAP_MAGIC \<Longrightarrow>
     c \<in> set (take_block sz b) \<Longrightarrow> bmagic c = HEAP_MAGIC \<and> 8 dvd bsize c"
  by (auto simp: take_block_def HDR_def split: if_splits)

lemma live_blocks_take_block:
  "live_blocks (take_block sz b) = [baddr b + HDR \<mapsto> bsize (hd (take_block sz b))]"
  by (auto simp: take_block_def live_blocks_Cons fun_eq_iff)

lemma coalesced_take_block:
  assumes "coalesced (pre @ b # post)" and "\<not> bused b"
  shows "coalesced (pre @ take_block sz b @ post)"
  using assms by (auto simp: coalesced_append take_block_def coalesced_Cons)

definition fits :: "nat \<Rightarrow> heap_block \<Rightarrow> bool" where
  "fits sz b \<longleftrightarrow> \<not> bused b \<and> sz \<le> bsize b"

lemma heap_ok_magic: "heap_ok arena h \<Longrightarrow> \<forall>b \<in> set (hblocks h). bmagic b = HEAP_MAGIC"
  by (simp add: heap_ok_def blocks_ok_def)

lemma heap_ok_chain: "heap_ok arena h \<Longrightarrow> chain arena (hblocks h) (arena + HEAP_SIZE)"
  by (simp add: heap_ok_def blocks_ok_def)

lemma heap_ok_init: "0 < arena \<Longrightarrow> heap_ok arena (heap_init arena m)"
  by (simp add: heap_ok_def blocks_ok_def heap_init_def layout_defs)

lemma kmalloc_none:
  assumes "heap_ok arena h" and "n = 0 \<or> (\<forall>b \<in> set (hblocks h). \<not> fits (round8 n) b)"
  shows "kmalloc h n = Ret (h, 0)"
proof (cases "n = 0")
  case False
  with assms have "find_index (\<lambda>b. \<not> bused b \<and> round8 n \<le> bsize b) (hblocks h) = None"
    by (simp add: find_index_None fits_def)
  with False first_fit_find [OF heap_ok_magic [OF assms(1)]] show ?thesis
    by (simp add: kmalloc_def)
qed (simp add: kmalloc_def)

lemma kmalloc_found:
  assumes "heap_ok arena h" and "n \<noteq> 0" and "\<exists>b \<in> set (hblocks h). fits (round8 n) b"
  obtains pre b post used peak where
    "hblocks h = pre @ b # post" and "fits (round8 n) b"
    and "\<forall>c \<in> set pre. \<not> fits (round8 n) c"
    and "used = g_heap_used_bytes h + word_of_nat (bsize (hd (take_block (round8 n) b)))"
    and "used \<le> peak"
    and "kmalloc h n = Ret (h\<lparr> hblocks := pre @ take_block (round8 n) b @ post,
           g_heap_alloc_count := g_heap_alloc_count h + 1,
           g_heap_used_bytes := used, g_heap_peak_bytes := peak \<rparr>, baddr b + HDR)"
proof -
  obtain i where i: "find_index (\<lambda>b. \<not> bused b \<and> round8 n \<le> bsize b) (hblocks h) = Some i"
    using find_index_ex [of "hblocks h" "\<lambda>b. \<not> bused b \<and> round8 n \<le> bsize b"] assms(3)
    by (auto simp: fits_def)
  then have bi: "i < length (hblocks h)" "fits (round8 n) (hblocks h ! i)"
      "\<forall>j < i. \<not> fits (round8 n) (hblocks h ! j)"
    by (auto simp: find_index_Some fits_def)
  let ?pre = "take i (hblocks h)" and ?b = "hblocks h ! i" and ?post = "drop (Suc i) (hblocks h)"
  let ?used = "g_heap_used_bytes h + word_of_nat (bsize (hd (take_block (round8 n) ?b)))"
  let ?peak = "if g_heap_peak_bytes h < ?used then ?used else g_heap_peak_bytes h"
  have "kmalloc h n = Ret (h\<lparr> hblocks := ?pre @ take_block (round8 n) ?b @ ?post,
           g_heap_alloc_count := g_heap_alloc_count h + 1,
           g_heap_used_bytes := ?used, g_heap_peak_bytes := ?peak \<rparr>, baddr ?b + HDR)"
    using i first_fit_find [OF heap_ok_magic [OF assms(1)]] assms(2)
    by (simp add: kmalloc_def Let_def)
  moreover have "hblocks h = ?pre @ ?b # ?post" using bi(1) by (rule id_take_nth_drop)
  moreover have "\<forall>c \<in> set ?pre. \<not> fits (round8 n) c"
    using bi(1,3) by (auto simp: in_set_conv_nth)
  moreover have "?used \<le> ?peak" by auto
  ultimately show ?thesis using that bi(2) by blast
qed

lemma kmalloc_found_ok:
  assumes ok: "heap_ok arena h" and bs: "hblocks h = pre @ b # post"
    and fit: "fits (round8 n) b"
    and used: "used = g_heap_used_bytes h + word_of_nat (bsize (hd (take_block (round8 n) b)))"
    and peak: "used \<le> peak"
  shows "heap_ok arena (h\<lparr> hblocks := pre @ take_block (round8 n) b @ post,
           g_heap_alloc_count := a, g_heap_used_bytes := used, g_heap_peak_bytes := peak \<rparr>)"
proof -
  let ?new = "pre @ take_block (round8 n) b @ post"
  have le: "round8 n \<le> bsize b" and free: "\<not> bused b"
    using fit by (auto simp: fits_def)
  from ok bs have ch: "chain arena (pre @ [b] @ post) (arena + HEAP_SIZE)"
    by (simp add: heap_ok_def blocks_ok_def)
  then have ch': "chain arena ?new (arena + HEAP_SIZE)"
    using le by (simp only: chain_append chain_take_block)
  have hdrs: "\<forall>c \<in> set ?new. bmagic c = HEAP_MAGIC \<and> 8 dvd bsize c"
    using ok bs take_block_headers [of "round8 n" b]
    by (auto simp: heap_ok_def blocks_ok_def)
  have "coalesced ?new"
    using ok bs free by (intro coalesced_take_block) (simp_all add: heap_ok_def blocks_ok_def)
  moreover have us: "used_sum ?new = used_sum (hblocks h) + bsize (hd (take_block (round8 n) b))"
    using bs free by (simp add: used_sum_take_block)
  moreover have "used_sum ?new \<le> HEAP_SIZE"
    using used_sum_le [OF ch'] by simp
  then have "unat used = used_sum ?new"
    using ok us unfolding used heap_ok_def
    by (subst unat_add_no_wrap) (auto simp: HEAP_SIZE_def unat_of_nat)
  ultimately show ?thesis
    using ok ch' hdrs peak by (simp add: heap_ok_def blocks_ok_def)
qed

lemma kmalloc_found_live:
  assumes ok: "heap_ok arena h" and bs: "hblocks h = pre @ b # post" and fit: "fits (round8 n) b"
  shows "live_blocks (hblocks h) (baddr b + HDR) = None"
    and "live_blocks (pre @ take_block (round8 n) b @ post)
      = (live_blocks (hblocks h))(baddr b + HDR \<mapsto> bsize (hd (take_block (round8 n) b)))"
proof -
  obtain m where pre: "chain arena pre m" and b: "baddr b = m"
    and post: "chain (m + HDR + bsize b) post (arena + HEAP_SIZE)"
    using heap_ok_chain [OF ok] bs by (auto simp: chain_append)
  have out: "live_blocks pre (baddr b + HDR) = None" "live_blocks post (baddr b + HDR) = None"
    using live_blocks_outside [OF pre, of "baddr b + HDR"]
      live_blocks_outside [OF post, of "baddr b + HDR"] b by (auto simp: HDR_def)
  have free: "live_blocks (b # post) = live_blocks post"
    using fit by (auto simp: fun_eq_iff live_blocks_Cons fits_def)
  show "live_blocks (hblocks h) (baddr b + HDR) = None"
    by (simp add: bs live_blocks_append free map_add_None out)
  show "live_blocks (pre @ take_block (round8 n) b @ post)
      = (live_blocks (hblocks h))(baddr b + HDR \<mapsto> bsize (hd (take_block (round8 n) b)))"
    using out by (auto simp: bs live_blocks_append live_blocks_take_block free fun_eq_iff map_add_def
        split: option.splits)
qed

subsection \<open>The allocator contract\<close>

text \<open>
  What a client of a heap relies on: under the invariant both calls return (no panic), a
  new block is not live before and is at least as large as asked for, a release takes
  exactly its own block away, the payload memory is not touched, and live payloads do not
  overlap.
\<close>

locale allocator =
  fixes inv :: "'h \<Rightarrow> bool"
    and lv :: "'h \<Rightarrow> nat \<Rightarrow> nat option"
    and mm :: "'h \<Rightarrow> mem"
    and alloc :: "'h \<Rightarrow> nat \<Rightarrow> ('h \<times> nat) kresult"
    and free :: "'h \<Rightarrow> nat \<Rightarrow> 'h kresult"
    and limit :: nat
  assumes alloc_returns: "inv h \<Longrightarrow> \<exists>h' p. alloc h n = Ret (h', p)"
    and alloc_inv: "inv h \<Longrightarrow> alloc h n = Ret (h', p) \<Longrightarrow> inv h'"
    and alloc_mem: "inv h \<Longrightarrow> alloc h n = Ret (h', p) \<Longrightarrow> mm h' = mm h"
    and alloc_null: "inv h \<Longrightarrow> alloc h n = Ret (h', 0) \<Longrightarrow> h' = h"
    and alloc_fresh: "inv h \<Longrightarrow> alloc h n = Ret (h', p) \<Longrightarrow> p \<noteq> 0 \<Longrightarrow> lv h p = None"
    and alloc_live: "inv h \<Longrightarrow> alloc h n = Ret (h', p) \<Longrightarrow> p \<noteq> 0 \<Longrightarrow> n < limit \<Longrightarrow>
      \<exists>m \<ge> n. lv h' = (lv h)(p \<mapsto> m)"
    and free_returns: "inv h \<Longrightarrow> lv h p = Some m \<Longrightarrow>
      \<exists>h'. free h p = Ret h' \<and> inv h' \<and> mm h' = mm h \<and> lv h' = (lv h)(p := None)"
    and live_disjoint: "inv h \<Longrightarrow> lv h p = Some m \<Longrightarrow> lv h q = Some k \<Longrightarrow> p \<noteq> q \<Longrightarrow>
      p + m \<le> q \<or> q + k \<le> p"
    and live_pos: "inv h \<Longrightarrow> lv h p = Some m \<Longrightarrow> 0 < p"
begin

text \<open>A new block overlaps no block that was live before.\<close>

lemma alloc_disjoint:
  assumes "inv h" and "alloc h n = Ret (h', p)" and "p \<noteq> 0" and "n < limit"
    and "lv h q = Some k"
  shows "p + n \<le> q \<or> q + k \<le> p"
proof -
  have pq: "p \<noteq> q" using alloc_fresh [OF assms(1-3)] assms(5) by auto
  obtain m where m: "n \<le> m" "lv h' = (lv h)(p \<mapsto> m)"
    using alloc_live [OF assms(1-4)] by blast
  with pq assms(5) have "lv h' p = Some m" "lv h' q = Some k" by auto
  from live_disjoint [OF alloc_inv [OF assms(1,2)] this pq] m(1) show ?thesis by auto
qed

text \<open>Live blocks stay live, with their size, over an allocation.\<close>

lemma alloc_keeps:
  assumes "inv h" and "alloc h n = Ret (h', p)" and "n < limit" and "lv h q = Some k"
  shows "lv h' q = Some k"
proof (cases "p = 0")
  case True
  with assms alloc_null show ?thesis by blast
next
  case False
  then have "lv h p = None" using alloc_fresh assms by blast
  with alloc_live [OF assms(1,2) False assms(3)] assms(4) show ?thesis by auto
qed

text \<open>Bytes stored in one live block are not seen through another.\<close>

lemma store_in_block_local:
  assumes "inv h" and "lv h p = Some m" and "lv h q = Some k" and "p \<noteq> q"
    and "length bs \<le> m" and "j \<le> k"
  shows "load_bytes (store_bytes (mm h) p bs) q j = load_bytes (mm h) q j"
  using live_disjoint [OF assms(1-4)] assms(5,6) by (intro load_store_bytes_other) auto

text \<open>Allocate then release: the live blocks are as before.\<close>

lemma alloc_free_live:
  assumes "inv h" and "alloc h n = Ret (h', p)" and "p \<noteq> 0" and "n < limit"
  shows "\<exists>h''. free h' p = Ret h'' \<and> inv h'' \<and> mm h'' = mm h \<and> lv h'' = lv h"
proof -
  obtain m where m: "lv h' = (lv h)(p \<mapsto> m)" using alloc_live [OF assms] by blast
  have "lv h p = None" using alloc_fresh [OF assms(1-3)] .
  moreover obtain h'' where "free h' p = Ret h''" "inv h''" "mm h'' = mm h'"
      "lv h'' = (lv h')(p := None)"
    using free_returns [OF alloc_inv [OF assms(1,2)], of p m] m by auto
  ultimately show ?thesis using m alloc_mem [OF assms(1,2)] by (auto simp: fun_eq_iff)
qed

end

subsection \<open>The kernel heap meets the contract\<close>

lemma kmalloc_cases:
  assumes "heap_ok arena h"
  obtains (none) "kmalloc h n = Ret (h, 0)"
    | (some) pre b post used peak where
    "n \<noteq> 0" and "hblocks h = pre @ b # post" and "fits (round8 n) b"
    and "\<forall>c \<in> set pre. \<not> fits (round8 n) c"
    and "used = g_heap_used_bytes h + word_of_nat (bsize (hd (take_block (round8 n) b)))"
    and "used \<le> peak"
    and "kmalloc h n = Ret (h\<lparr> hblocks := pre @ take_block (round8 n) b @ post,
           g_heap_alloc_count := g_heap_alloc_count h + 1,
           g_heap_used_bytes := used, g_heap_peak_bytes := peak \<rparr>, baddr b + HDR)"
proof (cases "n = 0 \<or> (\<forall>b \<in> set (hblocks h). \<not> fits (round8 n) b)")
  case True
  with kmalloc_none [OF assms] none show ?thesis by blast
next
  case False
  then have n: "n \<noteq> 0" and ex: "\<exists>b \<in> set (hblocks h). fits (round8 n) b" by auto
  show ?thesis
    by (rule kmalloc_found [OF assms n ex], rule some [OF n])
qed

lemma kmalloc_inv [inv_intros]:
  assumes "heap_ok arena h" and "kmalloc h n = Ret (h', p)"
  shows "heap_ok arena h'"
  using assms(1)
proof (cases rule: kmalloc_cases [of arena h n])
  case none
  with assms show ?thesis by simp
next
  case (some pre b post used peak)
  from kmalloc_found_ok [OF assms(1) some(2,3,5,6)] some(7) assms(2) show ?thesis by simp
qed

lemma kmalloc_live:
  assumes "heap_ok arena h" and "kmalloc h n = Ret (h', p)" and "p \<noteq> 0"
  shows "live h p = None" and "n + 7 < 2 ^ 64 \<Longrightarrow> \<exists>m \<ge> n. live h' = (live h)(p \<mapsto> m)"
proof -
  show "live h p = None"
    using assms(1)
  proof (cases rule: kmalloc_cases [of arena h n])
    case none
    with assms show ?thesis by simp
  next
    case (some pre b post used peak)
    with kmalloc_found_live(1) [OF assms(1) some(2,3)] assms(2) show ?thesis
      by (simp add: live_def)
  qed
  show "\<exists>m \<ge> n. live h' = (live h)(p \<mapsto> m)" if n: "n + 7 < 2 ^ 64"
    using assms(1)
  proof (cases rule: kmalloc_cases [of arena h n])
    case none
    with assms show ?thesis by simp
  next
    case (some pre b post used peak)
    let ?m = "bsize (hd (take_block (round8 n) b))"
    have "n \<le> ?m"
      using take_block_hd [of "round8 n" b] some(3) round8_ge [OF n] by (auto simp: fits_def)
    moreover have "live h' = (live h)(p \<mapsto> ?m)"
      using kmalloc_found_live(2) [OF assms(1) some(2,3)] some(7) assms(2) by (simp add: live_def)
    ultimately show ?thesis by blast
  qed
qed

lemma kmalloc_null: "heap_ok arena h \<Longrightarrow> kmalloc h n = Ret (h', 0) \<Longrightarrow> h' = h"
  by (cases rule: kmalloc_cases [of arena h n]) (auto simp: HDR_def)

lemma kmalloc_mem: "heap_ok arena h \<Longrightarrow> kmalloc h n = Ret (h', p) \<Longrightarrow> hmem h' = hmem h"
  by (cases rule: kmalloc_cases [of arena h n]) auto

lemma kmalloc_returns: "heap_ok arena h \<Longrightarrow> \<exists>h' p. kmalloc h n = Ret (h', p)"
  by (cases rule: kmalloc_cases [of arena h n]) auto

lemma live_split:
  assumes ok: "heap_ok arena h" and lv: "live h p = Some m"
  obtains pre b post where "hblocks h = pre @ b # post" "bused b" "baddr b + HDR = p" "bsize b = m"
    "find_index (\<lambda>b. baddr b + HDR = p) (hblocks h) = Some (length pre)"
    "live_blocks pre p = None" "live_blocks post p = None"
proof -
  obtain b where b: "b \<in> set (hblocks h)" "bused b" "baddr b + HDR = p" "bsize b = m"
    using live_blocks_Some [of "hblocks h" p m] lv by (auto simp: live_def)
  then obtain pre post where bs: "hblocks h = pre @ b # post"
    by (meson split_list)
  obtain k where pre: "chain arena pre k" and k: "baddr b = k"
    and post: "chain (k + HDR + bsize b) post (arena + HEAP_SIZE)"
    using heap_ok_chain [OF ok] bs by (auto simp: chain_append)
  have "baddr c + HDR \<noteq> p" if "c \<in> set pre" for c
    using chain_mem [OF pre that] k b(3) by (auto simp: HDR_def)
  then have "find_index (\<lambda>b. baddr b + HDR = p) (hblocks h) = Some (length pre)"
    using bs b(3) by (auto simp: find_index_Some nth_append)
  moreover have "live_blocks pre p = None" "live_blocks post p = None"
    using live_blocks_outside [OF pre, of p] live_blocks_outside [OF post, of p] b(3) k
    by (auto simp: HDR_def)
  ultimately show ?thesis using that bs b by blast
qed

lemma kfree_live:
  assumes ok: "heap_ok arena h" and lv: "live h p = Some m"
  shows "\<exists>h'. kfree h p = Ret h' \<and> heap_ok arena h' \<and> hmem h' = hmem h \<and> live h' = (live h)(p := None)"
proof -
  obtain pre b post where s: "hblocks h = pre @ b # post" "bused b" "baddr b + HDR = p" "bsize b = m"
    "find_index (\<lambda>b. baddr b + HDR = p) (hblocks h) = Some (length pre)"
    "live_blocks pre p = None" "live_blocks post p = None"
    using live_split [OF ok lv] by metis
  let ?bs = "pre @ b\<lparr> bused := False \<rparr> # post"
  have magic: "bmagic b = HEAP_MAGIC" using heap_ok_magic [OF ok] s(1) by simp
  have sum: "used_sum (hblocks h) = used_sum ?bs + bsize b" using s(1,2) by simp
  have ch: "chain arena ?bs (arena + HEAP_SIZE)"
    using heap_ok_chain [OF ok] s(1) by (auto simp: chain_append)
  have "used_sum ?bs + bsize b \<le> HEAP_SIZE"
    using used_sum_le [OF heap_ok_chain [OF ok]] sum by simp
  then have bw: "unat (word_of_nat (bsize b) :: u32) = bsize b"
    by (simp add: unat_of_nat HEAP_SIZE_def)
  have ub: "unat (g_heap_used_bytes h) = used_sum ?bs + bsize b"
    using ok sum by (simp add: heap_ok_def)
  then have le: "(word_of_nat (bsize b) :: u32) \<le> g_heap_used_bytes h"
    using bw by (simp add: word_le_nat_alt)
  define h' where "h' = h\<lparr> hblocks := coalesce ?bs,
     g_heap_used_bytes := g_heap_used_bytes h - word_of_nat (bsize b),
     g_heap_free_count := g_heap_free_count h + 1 \<rparr>"
  have "p \<noteq> 0" using s(3) by (auto simp: HDR_def)
  then have "kfree h p = Ret h'"
    using s magic le by (auto simp: kfree_def h'_def Let_def)
  moreover have "unat (g_heap_used_bytes h - word_of_nat (bsize b)) = used_sum ?bs"
    using ub bw le by (simp add: unat_sub)
  moreover have "g_heap_used_bytes h - word_of_nat (bsize b) \<le> g_heap_peak_bytes h"
    using ok le by (auto simp: heap_ok_def word_le_nat_alt unat_sub)
  moreover have "\<forall>b \<in> set (coalesce ?bs). bmagic b = HEAP_MAGIC \<and> 8 dvd bsize b"
    by (rule coalesce_headers) (use ok s(1) in \<open>auto simp: heap_ok_def blocks_ok_def\<close>)
  moreover have "live h' = (live h)(p := None)"
    using s by (auto simp: live_def h'_def live_blocks_append live_blocks_Cons fun_eq_iff map_add_def
        split: option.splits)
  ultimately show ?thesis
    using ok chain_coalesce [OF ch] coalesced_coalesce
    by (auto simp: h'_def heap_ok_def blocks_ok_def)
qed

interpretation kh: allocator "heap_ok arena" live hmem kmalloc kfree "2 ^ 64 - 7" for arena :: nat
proof (unfold_locales, goal_cases)
  case (1 h n) then show ?case by (rule kmalloc_returns)
next
  case (2 h n h' p) then show ?case by (rule kmalloc_inv)
next
  case (3 h n h' p) then show ?case by (rule kmalloc_mem)
next
  case (4 h n h') then show ?case by (rule kmalloc_null)
next
  case (5 h n h' p) then show ?case by (rule kmalloc_live(1))
next
  case (6 h n h' p) then show ?case using kmalloc_live(2) [of arena h n h' p] by auto
next
  case (7 h p m) then show ?case by (rule kfree_live)
next
  case (8 h p m q k) then show ?case
    using live_blocks_disjoint [OF heap_ok_chain [of arena h]] by (simp add: live_def)
next
  case (9 h p m) then show ?case
    using live_blocks_bounds(1) [OF heap_ok_chain [of arena h]] by (fastforce simp: live_def HDR_def)
qed

subsection \<open>Properties\<close>



text \<open>C8: releasing the block just allocated gives back the very same chain of blocks: a
  split is undone by the coalescing pass.\<close>

theorem kmalloc_kfree_restores:
  assumes "heap_ok arena h" and "kmalloc h n = Ret (h', p)" and "p \<noteq> 0"
  shows "\<exists>h''. kfree h' p = Ret h'' \<and> hblocks h'' = hblocks h \<and> hmem h'' = hmem h"
  using assms(1)
proof (cases rule: kmalloc_cases [of arena h n])
  case none
  with assms show ?thesis by simp
next
  case (some pre b post used peak)
  let ?new = "take_block (round8 n) b"
  have h': "hblocks h' = pre @ ?new @ post" "hmem h' = hmem h" and p: "p = baddr b + HDR"
    using some(7) assms(2) by auto
  obtain k where pre: "chain arena pre k" and k: "baddr b = k"
    using heap_ok_chain [OF assms(1)] some(2) by (auto simp: chain_append)
  have not_pre: "baddr c \<noteq> baddr b" if "c \<in> set pre" for c
    using chain_mem [OF pre that] k by (auto simp: HDR_def)
  have magic: "bmagic b = HEAP_MAGIC"
    using heap_ok_magic [OF assms(1)] some(2) by simp
  have free: "\<not> bused b" and le: "round8 n \<le> bsize b" using some(3) by (auto simp: fits_def)
  have coal: "coalesced (pre @ b # post)"
    using assms(1) some(2) by (simp add: heap_ok_def blocks_ok_def)
  have idx: "find_index (\<lambda>b. baddr b + HDR = p) (hblocks h') = Some (length pre)"
    using not_pre by (auto simp: h' p find_index_Some nth_append take_block_def)
  have hd: "hblocks h' ! length pre = hd ?new" "bused (hd ?new)" "bmagic (hd ?new) = HEAP_MAGIC"
    using magic by (auto simp: h' nth_append take_block_def)
  have merged: "coalesce ((hblocks h')[length pre := (hd ?new)\<lparr> bused := False \<rparr>]) = pre @ b # post"
  proof (cases "round8 n + HDR + 16 \<le> bsize b")
    case False
    have "b\<lparr> bused := False \<rparr> = b" using free by (cases b) simp
    with False show ?thesis
      using coal by (simp add: h' take_block_def coalesce_id)
  next
    case True
    let ?a = "b\<lparr> bsize := round8 n, bused := False \<rparr>"
    let ?nb = "\<lparr> baddr = baddr b + HDR + round8 n, bsize = bsize b - round8 n - HDR,
                bused = False, bmagic = HEAP_MAGIC \<rparr>"
    have b: "?a\<lparr> bsize := bsize b \<rparr> = b" using free by simp
    have "coalesce (pre @ ?a # ?nb # post) = pre @ ?a\<lparr> bsize := bsize b \<rparr> # post"
      by (rule coalesce_merge) (use coal True in \<open>simp_all only: b, simp_all\<close>)
    with True b show ?thesis by (simp add: h' take_block_def)
  qed
  show ?thesis
    using idx hd merged some(2) h'(2) p
    by (auto simp: kfree_def Let_def HDR_def)
qed

theorem kmalloc_kfree_restores_witness:
  "\<exists>h'. heap_ok 4096 (heap_init 4096 (\<lambda>_. 0)) \<and> kmalloc (heap_init 4096 (\<lambda>_. 0)) 100 = Ret (h', 4120)
     \<and> (\<exists>h''. kfree h' 4120 = Ret h'' \<and> hblocks h'' = hblocks (heap_init 4096 (\<lambda>_. 0)))"
proof -
  have ok: "heap_ok 4096 (heap_init 4096 (\<lambda>_. 0))" by (rule heap_ok_init) simp
  obtain h' where r: "kmalloc (heap_init 4096 (\<lambda>_. 0)) 100 = Ret (h', 4120)"
    by (simp add: kmalloc_def heap_init_def take_block_def round8_def layout_defs Let_def)
  from kmalloc_kfree_restores [OF ok r] ok r show ?thesis by auto
qed

text \<open>A second release of the same pointer ends in a panic.\<close>

theorem kfree_twice_panics:
  assumes "heap_ok arena h" and "live h p = Some m" and "kfree h p = Ret h'"
  shows "kfree h' p = Panic DoubleFree \<or> kfree h' p = Panic WildFree"
proof -
  have ok: "heap_ok arena h'" and lv: "live h' p = None" and p: "p \<noteq> 0"
    using kh.free_returns [OF assms(1,2)] assms(3) kh.live_pos [OF assms(1,2)] by auto
  show ?thesis
  proof (cases "find_index (\<lambda>b. baddr b + HDR = p) (hblocks h')")
    case None
    with p show ?thesis by (simp add: kfree_def)
  next
    case (Some i)
    then have i: "i < length (hblocks h')" "baddr (hblocks h' ! i) + HDR = p"
      by (auto dest: find_indexD)
    then have "bmagic (hblocks h' ! i) = HEAP_MAGIC"
      using heap_ok_magic [OF ok] by simp
    moreover have "\<not> bused (hblocks h' ! i)"
      using lv i by (auto simp: live_def live_blocks_def find_None_iff)
    ultimately show ?thesis using Some p by (simp add: kfree_def)
  qed
qed

theorem kfree_twice_panics_witness:
  "\<exists>h1 h2. heap_ok 4096 h1 \<and> live h1 4120 = Some 104 \<and> kfree h1 4120 = Ret h2
     \<and> (kfree h2 4120 = Panic DoubleFree \<or> kfree h2 4120 = Panic WildFree)"
proof -
  have ok: "heap_ok 4096 (heap_init 4096 (\<lambda>_. 0))" by (rule heap_ok_init) simp
  obtain h1 where r: "kmalloc (heap_init 4096 (\<lambda>_. 0)) 100 = Ret (h1, 4120)"
    and lv: "live h1 4120 = Some 104"
    by (simp add: kmalloc_def heap_init_def take_block_def round8_def layout_defs Let_def live_def
        live_blocks_Cons)
  have ok1: "heap_ok 4096 h1" by (rule kmalloc_inv [OF ok r])
  obtain h2 where f: "kfree h1 4120 = Ret h2" using kfree_live [OF ok1 lv] by blast
  from kfree_twice_panics [OF ok1 lv f] ok1 lv f show ?thesis by blast
qed

text \<open>Clients as a step relation: any interleaving of allocations, releases of live blocks and
  stores inside live blocks.\<close>

inductive heap_step :: "kheap \<Rightarrow> kheap \<Rightarrow> bool" where
  malloc: "n < 2 ^ 64 \<Longrightarrow> kmalloc h n = Ret (h', p) \<Longrightarrow> heap_step h h'"
| free: "live h p \<noteq> None \<Longrightarrow> kfree h p = Ret h' \<Longrightarrow> heap_step h h'"
| store: "live h p = Some m \<Longrightarrow> i < m \<Longrightarrow> heap_step h (h\<lparr> hmem := (hmem h)(p + i := v) \<rparr>)"

inductive heap_reachable :: "nat \<Rightarrow> kheap \<Rightarrow> bool" for arena where
  init: "heap_reachable arena (heap_init arena m)"
| step: "heap_reachable arena h \<Longrightarrow> heap_step h h' \<Longrightarrow> heap_reachable arena h'"

lemma heap_step_ok: "heap_step h h' \<Longrightarrow> heap_ok arena h \<Longrightarrow> heap_ok arena h'"
proof (induction rule: heap_step.induct)
  case (malloc n h h' p)
  then show ?case by (blast intro: kmalloc_inv)
next
  case (free h p h')
  then show ?case using kfree_live [of arena h p] by fastforce
next
  case (store h p m i v)
  then show ?case by (simp add: heap_ok_def)
qed

text \<open>C7: from \<open>heap_init\<close> on, whatever the clients do, the heap stays well formed, its live
  blocks do not overlap, and \<open>kmalloc\<close> and the release of a live block never panic.\<close>

theorem heap_reachable_safe:
  assumes "heap_reachable arena h" and "0 < arena"
  shows "heap_ok arena h
    \<and> (\<forall>n. \<exists>r. kmalloc h n = Ret r)
    \<and> (\<forall>p m. live h p = Some m \<longrightarrow> (\<exists>h'. kfree h p = Ret h')
         \<and> arena + HDR \<le> p \<and> p + m \<le> arena + HEAP_SIZE
         \<and> (\<forall>q k. live h q = Some k \<longrightarrow> q \<noteq> p \<longrightarrow> p + m \<le> q \<or> q + k \<le> p))"
proof -
  have ok: "heap_ok arena h"
    using assms by (induction rule: heap_reachable.induct) (auto intro: heap_ok_init heap_step_ok)
  have "\<exists>r. kmalloc h n = Ret r" for n
    using kh.alloc_returns [OF ok, of n] by blast
  moreover have "\<exists>h'. kfree h p = Ret h'" if "live h p = Some m" for p m
    using kh.free_returns [OF ok that] by blast
  moreover have "arena + HDR \<le> p \<and> p + m \<le> arena + HEAP_SIZE" if "live h p = Some m" for p m
    using live_blocks_bounds [OF heap_ok_chain [OF ok]] that by (simp add: live_def)
  ultimately show ?thesis
    using ok kh.live_disjoint [OF ok] by (intro conjI) (assumption | blast)+
qed

theorem heap_reachable_safe_witness:
  "heap_reachable 4096 (heap_init 4096 (\<lambda>_. 0)) \<and> (0 :: nat) < 4096
   \<and> heap_ok 4096 (heap_init 4096 (\<lambda>_. 0))"
  using heap_reachable_safe [OF heap_reachable.init, of 4096 "\<lambda>_. 0"]
  by (auto intro: heap_reachable.init)

text \<open>Sizes next to \<open>2^64\<close> wrap in the rounding: the request for the largest size succeeds
  with a block of no bytes.\<close>

lemma round8_wraps: "round8 (2 ^ 64 - 1) = 0"
  by (simp add: round8_def)

end
