(* ===== verification/KVfs.thy ===== *)
theory KVfs
  imports KString KHeap
begin

text \<open>
  The kernel file table of \<^verbatim>\<open>src/kernel/vfs_sched.c\<close>: path normalisation, lookup,
  creation, growth of the writable overlay, writing, removing, renaming, reading and
  listing.  The table is the array \<open>g_vfs_files\<close> as a list; a file's overlay is a block of
  the kernel heap, so every operation threads the heap of \<open>KHeap\<close> and can run into its
  null pointer or its panics.  A pointer into the table is a slot index.
\<close>

subsection \<open>State\<close>

definition VFS_MAX_FILES :: nat where "VFS_MAX_FILES = 32768"
definition VFS_MAX_PATH :: nat where "VFS_MAX_PATH = 256"
definition VFS_RW_MAX :: nat where "VFS_RW_MAX = 65536"

lemmas vfs_limits = VFS_MAX_PATH_def VFS_RW_MAX_def

text \<open>\<open>vf_ro_data\<close> holds the bytes behind the pointer into the initrd, \<open>None\<close> for null;
  \<open>vf_rw_data\<close> is a heap address, 0 for null.\<close>

record vfs_file =
  vf_used :: bool
  vf_writable :: bool
  vf_path :: string
  vf_ro_data :: "u8 list option"
  vf_ro_size :: nat
  vf_rw_data :: nat
  vf_rw_cap :: nat
  vf_rw_size :: nat

record vfs =
  vfs_files :: "vfs_file list"
  g_vfs_count :: nat
  mount_dropped_slots :: u32
  mount_dropped_paths :: u32
  vheap :: kheap

definition empty_file :: vfs_file where
  "empty_file = \<lparr> vf_used = False, vf_writable = False, vf_path = [], vf_ro_data = None,
     vf_ro_size = 0, vf_rw_data = 0, vf_rw_cap = 0, vf_rw_size = 0 \<rparr>"

definition vfs_init :: "kheap \<Rightarrow> vfs" where
  "vfs_init h = \<lparr> vfs_files = replicate VFS_MAX_FILES empty_file, g_vfs_count = 0,
     mount_dropped_slots = 0, mount_dropped_paths = 0, vheap = h \<rparr>"

abbreviation upd_file :: "vfs \<Rightarrow> nat \<Rightarrow> (vfs_file \<Rightarrow> vfs_file) \<Rightarrow> vfs" where
  "upd_file v i f \<equiv> v\<lparr> vfs_files := (vfs_files v)[i := f (vfs_files v ! i)] \<rparr>"

abbreviation upd_mem :: "vfs \<Rightarrow> (mem \<Rightarrow> mem) \<Rightarrow> vfs" where
  "upd_mem v f \<equiv> v\<lparr> vheap := (vheap v)\<lparr> hmem := f (hmem (vheap v)) \<rparr> \<rparr>"

subsection \<open>Lookup and creation\<close>

text \<open>Both copies go through the bounded append loop; an empty result becomes the root.\<close>

definition vfs_normalize_path :: "string \<Rightarrow> nat \<Rightarrow> string" where
  "vfs_normalize_path inp out_size =
     (let t = dropWhile k_is_space (cstr inp);
          pre = (if chr_at t 0 \<noteq> CHR ''/'' then k_append_ch out_size [] (CHR ''/'') else []);
          out = k_append_str out_size pre t
      in if out = [] then ''/'' else out)"

definition norm_path :: "string \<Rightarrow> string" where
  "norm_path p = vfs_normalize_path p VFS_MAX_PATH"

definition vfs_find :: "vfs \<Rightarrow> string \<Rightarrow> nat option" where
  "vfs_find v path =
     find_index (\<lambda>f. vf_used f \<and> k_strcmp (vf_path f) (norm_path path) = 0) (vfs_files v)"

definition new_file :: "string \<Rightarrow> string \<Rightarrow> vfs_file" where
  "new_file old_path path =
     \<lparr> vf_used = True, vf_writable = True, vf_path = k_strlcpy old_path path VFS_MAX_PATH,
       vf_ro_data = None, vf_ro_size = 0, vf_rw_data = 0, vf_rw_cap = 0, vf_rw_size = 0 \<rparr>"

definition vfs_alloc :: "vfs \<Rightarrow> string \<Rightarrow> vfs \<times> nat option" where
  "vfs_alloc v path =
     (let norm = norm_path path
      in case vfs_find v norm of
           Some i \<Rightarrow> (v, Some i)
         | None \<Rightarrow>
            (case find_index (\<lambda>f. \<not> vf_used f) (vfs_files v) of
               None \<Rightarrow> (v, None)
             | Some i \<Rightarrow>
                (v\<lparr> vfs_files := (vfs_files v)[i := new_file (vf_path (vfs_files v ! i)) norm],
                    g_vfs_count := g_vfs_count v + 1 \<rparr>, Some i)))"

subsection \<open>The writable overlay\<close>

text \<open>The doubling loop; it starts at 256, so the capacity is never zero.\<close>

function grow_cap :: "nat \<Rightarrow> nat \<Rightarrow> nat" where
  "grow_cap cap need =
     (if 0 < cap \<and> cap < need \<and> cap < VFS_RW_MAX then grow_cap (cap * 2) need else cap)"
  by pat_completeness auto
termination
  by (relation "measure (\<lambda>(cap, need). VFS_RW_MAX - cap)") auto

declare grow_cap.simps [simp del]

definition vfs_ensure_rw_capacity :: "vfs \<Rightarrow> nat \<Rightarrow> nat \<Rightarrow> (vfs \<times> bool) kresult" where
  "vfs_ensure_rw_capacity v i need0 =
     (let f = vfs_files v ! i;
          need = (if need0 = 0 then 1 else need0);
          cap0 = grow_cap 256 need;
          cap = (if cap0 > VFS_RW_MAX then VFS_RW_MAX else cap0)
      in if need > VFS_RW_MAX then Ret (v, False)
         else if vf_rw_data f \<noteq> 0 \<and> vf_rw_cap f \<ge> need then Ret (v, True)
         else if cap < need then Ret (v, False)
         else kbind (kmalloc (vheap v) cap) (\<lambda>(h1, next).
           if next = 0 then Ret (v\<lparr> vheap := h1 \<rparr>, False)
           else
             (let m1 = k_memset (hmem h1) next 0 cap;
                  n = (if vf_rw_size f \<ge> cap then cap - 1 else vf_rw_size f);
                  m2 = (if vf_rw_data f \<noteq> 0 \<and> vf_rw_size f \<noteq> 0
                        then (k_memcpy m1 next (vf_rw_data f) n)(next + n := 0) else m1);
                  h2 = h1\<lparr> hmem := m2 \<rparr>
              in kbind (if vf_rw_data f \<noteq> 0 then kfree h2 (vf_rw_data f) else Ret h2) (\<lambda>h3.
                   Ret (upd_file (v\<lparr> vheap := h3 \<rparr>) i
                          (\<lambda>f. f\<lparr> vf_rw_data := next, vf_rw_cap := cap \<rparr>), True)))))"

definition vfs_promote_writable :: "vfs \<Rightarrow> nat \<Rightarrow> (vfs \<times> bool) kresult" where
  "vfs_promote_writable v i =
     (let f = vfs_files v ! i
      in if vf_writable f
         then (if vf_rw_data f \<noteq> 0 then Ret (v, True)
               else vfs_ensure_rw_capacity v i (vf_rw_size f + 1))
         else if vf_ro_size f \<ge> VFS_RW_MAX then Ret (v, False)
         else kbind (vfs_ensure_rw_capacity v i (vf_ro_size f + 1)) (\<lambda>(v1, ok).
           if \<not> ok then Ret (v1, False)
           else
             (let f1 = vfs_files v1 ! i;
                  v2 = (case vf_ro_data f1 of
                          None \<Rightarrow> v1
                        | Some d \<Rightarrow>
                            (if vf_ro_size f1 \<noteq> 0
                             then upd_mem v1 (\<lambda>m. store_bytes m (vf_rw_data f1) (take (vf_ro_size f1) d))
                             else v1));
                  v3 = upd_mem v2 (\<lambda>m. m(vf_rw_data f1 + vf_ro_size f1 := 0))
              in Ret (upd_file v3 i
                   (\<lambda>f. f\<lparr> vf_rw_size := vf_ro_size f, vf_writable := True \<rparr>), True))))"

definition vfs_touch :: "vfs \<Rightarrow> string \<Rightarrow> (vfs \<times> bool) kresult" where
  "vfs_touch v p =
     (case vfs_alloc v p of
        (v1, None) \<Rightarrow> Ret (v1, False)
      | (v1, Some i) \<Rightarrow>
          if \<not> vf_writable (vfs_files v1 ! i) then vfs_promote_writable v1 i else Ret (v1, True))"

text \<open>The tail of a write: reserve, copy, terminate, set the size.\<close>

definition put_bytes :: "vfs \<Rightarrow> nat \<Rightarrow> u8 list \<Rightarrow> (vfs \<times> bool) kresult" where
  "put_bytes v i data =
     kbind (vfs_ensure_rw_capacity v i (length data + 1)) (\<lambda>(v1, ok).
       if \<not> ok then Ret (v1, False)
       else
         (let p = vf_rw_data (vfs_files v1 ! i);
              v2 = upd_mem v1 (\<lambda>m. (store_bytes m p data)(p + length data := 0))
          in Ret (upd_file v2 i (\<lambda>f. f\<lparr> vf_rw_size := length data \<rparr>), True)))"

definition vfs_write :: "vfs \<Rightarrow> string \<Rightarrow> string \<Rightarrow> (vfs \<times> bool) kresult" where
  "vfs_write v p text =
     (case vfs_alloc v p of
        (v1, None) \<Rightarrow> Ret (v1, False)
      | (v1, Some i) \<Rightarrow>
          kbind (vfs_promote_writable v1 i) (\<lambda>(v2, ok).
            if \<not> ok then Ret (v2, False)
            else
              (let len = k_strlen text;
                   len' = (if len \<ge> VFS_RW_MAX then VFS_RW_MAX - 1 else len)
               in put_bytes v2 i (take len' (bytes_of text)))))"

text \<open>A null data pointer (\<open>None\<close>) writes zeroes.\<close>

definition vfs_write_bytes :: "vfs \<Rightarrow> string \<Rightarrow> u8 list option \<Rightarrow> nat \<Rightarrow> (vfs \<times> bool) kresult" where
  "vfs_write_bytes v p data sz =
     (case vfs_alloc v p of
        (v1, None) \<Rightarrow> Ret (v1, False)
      | (v1, Some i) \<Rightarrow>
          kbind (vfs_promote_writable v1 i) (\<lambda>(v2, ok).
            if \<not> ok then Ret (v2, False)
            else
              (let len = (if sz \<ge> VFS_RW_MAX then VFS_RW_MAX - 1 else sz)
               in put_bytes v2 i
                    (case data of Some d \<Rightarrow> take len d | None \<Rightarrow> replicate len 0))))"

definition vfs_remove :: "vfs \<Rightarrow> string \<Rightarrow> (vfs \<times> bool) kresult" where
  "vfs_remove v p =
     (case vfs_find v p of
        None \<Rightarrow> Ret (v, False)
      | Some i \<Rightarrow>
          (let f = vfs_files v ! i
           in kbind (if vf_rw_data f \<noteq> 0 then kfree (vheap v) (vf_rw_data f) else Ret (vheap v)) (\<lambda>h.
                Ret (v\<lparr> vfs_files := (vfs_files v)[i := f\<lparr> vf_used := False, vf_writable := False,
                            vf_path := [], vf_ro_data := None, vf_ro_size := 0,
                            vf_rw_data := 0, vf_rw_cap := 0, vf_rw_size := 0 \<rparr>],
                        g_vfs_count := (if g_vfs_count v > 0 then g_vfs_count v - 1 else g_vfs_count v),
                        vheap := h \<rparr>, True))))"

definition vfs_rename :: "vfs \<Rightarrow> string \<Rightarrow> string \<Rightarrow> (vfs \<times> bool) kresult" where
  "vfs_rename v src dst =
     (let src_norm = norm_path src; dst_norm = norm_path dst
      in if k_strcmp src_norm dst_norm = 0 then Ret (v, True)
         else (case vfs_find v src_norm of
             None \<Rightarrow> Ret (v, False)
           | Some from \<Rightarrow>
               (let to = vfs_find v dst_norm
                in kbind (if to \<noteq> None \<and> to \<noteq> Some from then vfs_remove v dst_norm else Ret (v, True))
                     (\<lambda>(v1, ok).
                        if \<not> ok then Ret (v1, False)
                        else Ret (upd_file v1 from
                               (\<lambda>f. f\<lparr> vf_path := k_strlcpy (vf_path f) dst_norm VFS_MAX_PATH \<rparr>), True)))))"

text \<open>The bytes behind the returned pointer and the size; an overlay that was never allocated
  reads as the empty literal.\<close>

definition file_bytes :: "mem \<Rightarrow> vfs_file \<Rightarrow> u8 list" where
  "file_bytes m f =
     (if vf_writable f
      then (if vf_rw_data f \<noteq> 0 then load_bytes m (vf_rw_data f) (vf_rw_size f) else [])
      else (case vf_ro_data f of Some d \<Rightarrow> take (vf_ro_size f) d | None \<Rightarrow> []))"

definition vfs_read :: "vfs \<Rightarrow> string \<Rightarrow> (u8 list \<times> nat) option" where
  "vfs_read v p =
     (case vfs_find v p of
        None \<Rightarrow> None
      | Some i \<Rightarrow>
          (let f = vfs_files v ! i
           in Some (file_bytes (hmem (vheap v)) f,
                    if vf_writable f then vf_rw_size f else vf_ro_size f)))"

definition kvfs_exists :: "vfs \<Rightarrow> string \<Rightarrow> bool" where
  "kvfs_exists v p \<longleftrightarrow> vfs_find v p \<noteq> None"

subsection \<open>Normalised paths\<close>

lemma norm_path_take:
  "norm_path p = (let t = dropWhile k_is_space (cstr p)
     in take 255 (if chr_at t 0 = CHR ''/'' then t else CHR ''/'' # t))"
proof -
  define t where "t = dropWhile k_is_space (cstr p)"
  have "wf_cstr t"
    using wf_cstr_cstr [of p] unfolding t_def wf_cstr_def by (meson set_dropWhileD)
  then have "norm_path p = take 255 (if chr_at t 0 = CHR ''/'' then t else CHR ''/'' # t)"
    by (cases t)
      (auto simp: norm_path_def vfs_normalize_path_def VFS_MAX_PATH_def k_append_ch_def
        k_append_str_take take_Cons' simp flip: t_def)
  then show ?thesis by (simp add: t_def)
qed

definition path_ok :: "string \<Rightarrow> bool" where
  "path_ok p \<longleftrightarrow> wf_cstr p \<and> p \<noteq> [] \<and> hd p = CHR ''/'' \<and> length p < VFS_MAX_PATH"

lemma path_ok_norm [simp]: "path_ok (norm_path p)"
proof -
  define t where "t = dropWhile k_is_space (cstr p)"
  have "wf_cstr t"
    using wf_cstr_cstr [of p] unfolding t_def wf_cstr_def by (meson set_dropWhileD)
  then show ?thesis
    by (cases t) (auto simp: path_ok_def norm_path_take Let_def VFS_MAX_PATH_def take_Cons'
        wf_cstr_take simp flip: t_def)
qed

lemma norm_path_ok [simp]: "path_ok p \<Longrightarrow> norm_path p = p"
  by (cases p) (auto simp: path_ok_def norm_path_take Let_def VFS_MAX_PATH_def k_is_space_def)

lemma norm_path_idem [simp]: "norm_path (norm_path p) = norm_path p"
  by simp

lemma path_ok_cstr [simp]: "path_ok p \<Longrightarrow> cstr p = p"
  by (simp add: path_ok_def)

lemma k_strlcpy_path [simp]: "path_ok p \<Longrightarrow> k_strlcpy d p VFS_MAX_PATH = p"
  by (simp add: k_strlcpy_take path_ok_def VFS_MAX_PATH_def)

subsection \<open>Invariant and abstraction\<close>

definition ro_ok :: "vfs_file \<Rightarrow> bool" where
  "ro_ok f \<longleftrightarrow> (case vf_ro_data f of Some d \<Rightarrow> length d = vf_ro_size f | None \<Rightarrow> vf_ro_size f = 0)"

definition rw_ok :: "kheap \<Rightarrow> vfs_file \<Rightarrow> bool" where
  "rw_ok h f \<longleftrightarrow>
     (if vf_rw_data f \<noteq> 0
      then (\<exists>m. live h (vf_rw_data f) = Some m \<and> vf_rw_cap f \<le> m)
           \<and> vf_rw_size f < vf_rw_cap f \<and> vf_rw_cap f \<le> VFS_RW_MAX
      else vf_rw_size f = 0)"

definition file_ok :: "kheap \<Rightarrow> vfs_file \<Rightarrow> bool" where
  "file_ok h f \<longleftrightarrow> ro_ok f \<and> rw_ok h f
     \<and> (vf_used f \<longrightarrow> path_ok (vf_path f)) \<and> (\<not> vf_used f \<longrightarrow> vf_rw_data f = 0)"

definition vfs_ok :: "nat \<Rightarrow> vfs \<Rightarrow> bool" where
  "vfs_ok arena v \<longleftrightarrow>
     heap_ok arena (vheap v)
     \<and> (\<forall>f \<in> set (vfs_files v). file_ok (vheap v) f)
     \<and> keys_distinct vf_used vf_path (vfs_files v)
     \<and> keys_distinct (\<lambda>f. vf_rw_data f \<noteq> 0) vf_rw_data (vfs_files v)
     \<and> g_vfs_count v = count_slots vf_used (vfs_files v)"

text \<open>What the table means: a finite map from normalised paths to contents.\<close>

definition vfs_abs :: "vfs \<Rightarrow> string \<Rightarrow> u8 list option" where
  "vfs_abs v q =
     map_option (\<lambda>i. file_bytes (hmem (vheap v)) (vfs_files v ! i))
       (find_index (\<lambda>f. vf_used f \<and> vf_path f = q) (vfs_files v))"

lemma vfs_okD:
  assumes "vfs_ok arena v"
  shows "heap_ok arena (vheap v)"
    and "\<And>i. i < length (vfs_files v) \<Longrightarrow> file_ok (vheap v) (vfs_files v ! i)"
    and "keys_distinct vf_used vf_path (vfs_files v)"
    and "keys_distinct (\<lambda>f. vf_rw_data f \<noteq> 0) vf_rw_data (vfs_files v)"
    and "g_vfs_count v = count_slots vf_used (vfs_files v)"
  using assms by (auto simp: vfs_ok_def)

lemma vfs_find_norm:
  assumes "vfs_ok arena v"
  shows "vfs_find v p = find_index (\<lambda>f. vf_used f \<and> vf_path f = norm_path p) (vfs_files v)"
proof -
  have eq: "(vf_used f \<and> k_strcmp (vf_path f) (norm_path p) = 0) = (vf_used f \<and> vf_path f = norm_path p)"
    if "f \<in> set (vfs_files v)" for f
    using assms that by (auto simp: vfs_ok_def file_ok_def k_strcmp_eq_iff)
  have "find_index P xs = find_index Q xs" if "\<And>x. x \<in> set xs \<Longrightarrow> P x = Q x" for P Q :: "vfs_file \<Rightarrow> bool" and xs
    using that by (induction xs) auto
  from this [OF eq] show ?thesis by (simp add: vfs_find_def)
qed

lemma vfs_abs_find: "vfs_ok arena v \<Longrightarrow> vfs_abs v (norm_path p) =
    map_option (\<lambda>i. file_bytes (hmem (vheap v)) (vfs_files v ! i)) (vfs_find v p)"
  by (simp add: vfs_abs_def vfs_find_norm)

lemma vfs_find_norm_path [simp]: "vfs_find v (norm_path p) = vfs_find v p"
  by (simp add: vfs_find_def)

lemma vfs_findD:
  assumes "vfs_ok arena v" and "vfs_find v p = Some i"
  shows "i < length (vfs_files v)" "vf_used (vfs_files v ! i)" "vf_path (vfs_files v ! i) = norm_path p"
  using assms by (auto simp: vfs_find_norm dest: find_indexD)

text \<open>A slot of the table is the abstract entry of its path.\<close>

lemma find_slot_of_path:
  assumes "keys_distinct vf_used vf_path fs" and "i < length fs" and "vf_used (fs ! i)"
    and "vf_path (fs ! i) = q"
  shows "find_index (\<lambda>f. vf_used f \<and> vf_path f = q) fs = Some i"
  using assms by (intro find_index_unique) (auto dest: keys_distinctD)

lemma vfs_abs_slot:
  assumes "vfs_ok arena v" and "i < length (vfs_files v)" and "vf_used (vfs_files v ! i)"
  shows "vfs_abs v (vf_path (vfs_files v ! i)) = Some (file_bytes (hmem (vheap v)) (vfs_files v ! i))"
  using find_slot_of_path [OF vfs_okD(3) [OF assms(1)] assms(2,3)] by (simp add: vfs_abs_def)

text \<open>The effect of replacing one slot on the abstract map.\<close>

lemma find_index_update_other:
  assumes "i < length xs" and "\<not> P (xs ! i)" and "\<not> P y"
  shows "find_index P (xs[i := y]) = find_index P xs"
  using assms
proof (induction xs arbitrary: i)
  case Nil
  then show ?case by simp
next
  case (Cons x xs)
  then show ?case by (cases i) auto
qed

lemma find_index_update_same:
  assumes "i < length xs" and "P (xs ! i) = P y"
  shows "find_index P (xs[i := y]) = find_index P xs"
  using assms
proof (induction xs arbitrary: i)
  case Nil
  then show ?case by simp
next
  case (Cons x xs)
  then show ?case by (cases i) auto
qed

lemma vfs_abs_update:
  assumes fs: "vfs_files v' = (vfs_files v)[i := f']" and i: "i < length (vfs_files v)"
    and d: "keys_distinct vf_used vf_path (vfs_files v)"
    and d': "keys_distinct vf_used vf_path (vfs_files v')"
    and same: "\<And>j. j < length (vfs_files v) \<Longrightarrow> j \<noteq> i \<Longrightarrow> vf_used (vfs_files v ! j) \<Longrightarrow>
      file_bytes (hmem (vheap v')) (vfs_files v ! j) = file_bytes (hmem (vheap v)) (vfs_files v ! j)"
  shows "vfs_abs v' =
    (let base = (if vf_used (vfs_files v ! i) then (vfs_abs v)(vf_path (vfs_files v ! i) := None)
                 else vfs_abs v)
     in if vf_used f' then base(vf_path f' \<mapsto> file_bytes (hmem (vheap v')) f') else base)"
proof
  fix q
  let ?P = "\<lambda>f. vf_used f \<and> vf_path f = q"
  let ?f = "vfs_files v ! i"
  have other: "vfs_abs v' q = vfs_abs v q" if "\<not> ?P ?f" "\<not> ?P f'"
  proof (cases "find_index ?P (vfs_files v)")
    case None
    with that show ?thesis by (simp add: vfs_abs_def fs find_index_update_other i)
  next
    case (Some j)
    then have j: "j < length (vfs_files v)" "?P (vfs_files v ! j)"
      by (auto dest: find_indexD)
    with that have "j \<noteq> i" by auto
    with Some j that same show ?thesis
      by (simp add: vfs_abs_def fs find_index_update_other i)
  qed
  have new: "vfs_abs v' q = Some (file_bytes (hmem (vheap v')) f')" if "?P f'"
    using find_slot_of_path [OF d', of i q] that i by (simp add: vfs_abs_def fs)
  have gone: "vfs_abs v' q = None" if "?P ?f" "\<not> ?P f'"
  proof -
    have "\<not> ?P ((vfs_files v') ! j)" if j: "j < length (vfs_files v)" for j
    proof (cases "j = i")
      case True
      with \<open>\<not> ?P f'\<close> i show ?thesis by (simp add: fs)
    next
      case False
      with j i \<open>?P ?f\<close> keys_distinctD [OF d, of j i] show ?thesis by (auto simp: fs)
    qed
    then have "find_index ?P (vfs_files v') = None"
      unfolding find_index_None by (metis fs in_set_conv_nth length_list_update)
    then show ?thesis by (simp add: vfs_abs_def)
  qed
  show "vfs_abs v' q = (let base = (if vf_used ?f then (vfs_abs v)(vf_path ?f := None) else vfs_abs v)
     in if vf_used f' then base(vf_path f' \<mapsto> file_bytes (hmem (vheap v')) f') else base) q"
    using other new gone by (auto simp: Let_def)
qed

subsection \<open>What a heap operation leaves alone\<close>

text \<open>\<open>keeps h h' p\<close>: every block live in \<open>h\<close>, except possibly the one at \<open>p\<close>, is still live
  in \<open>h'\<close> and holds the same bytes.\<close>

definition keeps :: "kheap \<Rightarrow> kheap \<Rightarrow> nat \<Rightarrow> bool" where
  "keeps h h' p \<longleftrightarrow>
     (\<forall>q m. live h q = Some m \<longrightarrow> q \<noteq> p \<longrightarrow>
        live h' q = Some m \<and> (\<forall>n \<le> m. load_bytes (hmem h') q n = load_bytes (hmem h) q n))"

lemma keeps_refl [simp]: "keeps h h p"
  by (simp add: keeps_def)

lemma keeps_trans: "keeps h h' p \<Longrightarrow> keeps h' h'' p \<Longrightarrow> keeps h h'' p"
  by (auto simp: keeps_def)

text \<open>Writing inside the block at \<open>p\<close>.\<close>

lemma keeps_store:
  assumes "heap_ok arena h" and "live h p = Some m"
    and "\<And>a. a < p \<or> p + m \<le> a \<Longrightarrow> f a = hmem h a"
  shows "keeps h (h\<lparr> hmem := f \<rparr>) p"
proof -
  have "load_bytes f q n = load_bytes (hmem h) q n"
    if "live h q = Some k" "q \<noteq> p" "n \<le> k" for q k n
    using kh.live_disjoint [OF assms(1) that(1) assms(2) that(2)] that(3)
    by (intro load_bytes_cong assms(3)) auto
  then show ?thesis by (auto simp: keeps_def live_def)
qed

lemma keeps_kfree:
  assumes "heap_ok arena h" and "live h p = Some m" and "kfree h p = Ret h'"
  shows "keeps h h' p"
  using kh.free_returns [OF assms(1,2)] assms(3) by (auto simp: keeps_def)

lemma heap_ok_mem [simp]: "heap_ok arena (h\<lparr> hmem := m \<rparr>) = heap_ok arena h"
  by (simp add: heap_ok_def)

lemma live_mem [simp]: "live (h\<lparr> hmem := m \<rparr>) = live h"
  by (simp add: live_def)

text \<open>A file whose overlay is another block is as good and reads the same afterwards.\<close>

lemma file_frame:
  assumes "keeps h h' p" and "file_ok h f" and "vf_rw_data f \<noteq> p \<or> vf_rw_data f = 0"
  shows "file_ok h' f" and "file_bytes (hmem h') f = file_bytes (hmem h) f"
proof -
  have "rw_ok h' f" if "rw_ok h f"
    using that assms(1,3) by (auto simp: rw_ok_def keeps_def)
  then show "file_ok h' f" using assms(2) by (simp add: file_ok_def)
  show "file_bytes (hmem h') f = file_bytes (hmem h) f"
  proof (cases "vf_rw_data f = 0")
    case True
    then show ?thesis by (simp add: file_bytes_def)
  next
    case False
    with assms(2) obtain m where "live h (vf_rw_data f) = Some m" "vf_rw_size f \<le> m"
      by (auto simp: file_ok_def rw_ok_def)
    with False assms(1,3) show ?thesis by (auto simp: file_bytes_def keeps_def)
  qed
qed

text \<open>One slot changes, with a block of its own, and the rest of the table is as before.\<close>

lemma slot_change:
  assumes ok: "vfs_ok arena v" and i: "i < length (vfs_files v)"
    and hok: "heap_ok arena (vheap v')"
    and keep: "keeps (vheap v) (vheap v') (vf_rw_data (vfs_files v ! i))"
    and fs: "vfs_files v' = (vfs_files v)[i := f']"
    and fok: "file_ok (vheap v') f'"
    and own: "vf_rw_data f' \<noteq> 0 \<Longrightarrow> vf_rw_data f' = vf_rw_data (vfs_files v ! i) \<or> live (vheap v) (vf_rw_data f') = None"
    and key: "vf_used f' \<Longrightarrow> find_index (\<lambda>f. vf_used f \<and> vf_path f = vf_path f') (vfs_files v) \<in> {None, Some i}"
    and cnt: "g_vfs_count v' = count_slots vf_used (vfs_files v')"
  shows "vfs_ok arena v'"
    and "vfs_abs v' =
      (let base = (if vf_used (vfs_files v ! i) then (vfs_abs v)(vf_path (vfs_files v ! i) := None)
                   else vfs_abs v)
       in if vf_used f' then base(vf_path f' \<mapsto> file_bytes (hmem (vheap v')) f') else base)"
proof -
  let ?fs = "vfs_files v" and ?f = "vfs_files v ! i"
  note okD = vfs_okD [OF ok]
  have sep: "vf_rw_data (?fs ! j) \<noteq> vf_rw_data ?f \<or> vf_rw_data (?fs ! j) = 0"
    if "j < length ?fs" "j \<noteq> i" for j
    using keys_distinctD [OF okD(4), of j i] that i by auto
  have fr: "file_ok (vheap v') (?fs ! j)"
      "file_bytes (hmem (vheap v')) (?fs ! j) = file_bytes (hmem (vheap v)) (?fs ! j)"
    if "j < length ?fs" "j \<noteq> i" for j
    using file_frame [OF keep okD(2) [OF that(1)] sep [OF that]] by auto
  have livej: "live (vheap v) (vf_rw_data (?fs ! j)) \<noteq> None"
    if "j < length ?fs" "vf_rw_data (?fs ! j) \<noteq> 0" for j
    using okD(2) [OF that(1)] that(2) by (auto simp: file_ok_def rw_ok_def)
  have d1: "keys_distinct vf_used vf_path (vfs_files v')"
    unfolding fs
  proof (cases "vf_used f'")
    case False
    then show "keys_distinct vf_used vf_path (?fs[i := f'])"
      by (intro keys_distinct_update_same okD(3) i) auto
  next
    case True
    show "keys_distinct vf_used vf_path (?fs[i := f'])"
    proof (rule keys_distinct_update_fresh [OF okD(3) i])
      fix j assume j: "j < length ?fs" "vf_used (?fs ! j)" "vf_path (?fs ! j) = vf_path f'"
      then have "find_index (\<lambda>f. vf_used f \<and> vf_path f = vf_path f') ?fs = Some j"
        by (intro find_slot_of_path okD(3)) auto
      with key [OF True] show "j = i" by auto
    qed
  qed
  have d2: "keys_distinct (\<lambda>f. vf_rw_data f \<noteq> 0) vf_rw_data (vfs_files v')"
    unfolding fs
  proof (cases "vf_rw_data f' \<noteq> 0")
    case False
    then show "keys_distinct (\<lambda>f. vf_rw_data f \<noteq> 0) vf_rw_data (?fs[i := f'])"
      by (intro keys_distinct_update_same okD(4) i) auto
  next
    case True
    show "keys_distinct (\<lambda>f. vf_rw_data f \<noteq> 0) vf_rw_data (?fs[i := f'])"
    proof (rule keys_distinct_update_fresh [OF okD(4) i])
      fix j assume j: "j < length ?fs" "vf_rw_data (?fs ! j) \<noteq> 0" "vf_rw_data (?fs ! j) = vf_rw_data f'"
      with own [OF True] livej [OF j(1,2)] have "vf_rw_data (?fs ! j) = vf_rw_data ?f" by auto
      with sep [OF j(1)] j(2) show "j = i" by auto
    qed
  qed
  have "file_ok (vheap v') f" if "f \<in> set (vfs_files v')" for f
    using that fr(1) fok i by (auto simp: fs in_set_conv_nth nth_list_update split: if_splits)
  with hok d1 d2 cnt show "vfs_ok arena v'" by (simp add: vfs_ok_def)
  show "vfs_abs v' = (let base = (if vf_used ?f then (vfs_abs v)(vf_path ?f := None) else vfs_abs v)
       in if vf_used f' then base(vf_path f' \<mapsto> file_bytes (hmem (vheap v')) f') else base)"
    by (rule vfs_abs_update [OF fs i okD(3) d1]) (use fr(2) in blast)
qed

subsection \<open>Growing the overlay\<close>

lemma grow_cap_enough: "0 < cap \<Longrightarrow> need \<le> grow_cap cap need \<or> VFS_RW_MAX \<le> grow_cap cap need"
proof (induction cap need rule: grow_cap.induct)
  case (1 cap need)
  then show ?case by (subst (1 2) grow_cap.simps) auto
qed

lemma grow_cap_ge: "cap \<le> grow_cap cap need"
proof (induction cap need rule: grow_cap.induct)
  case (1 cap need)
  then show ?case by (subst grow_cap.simps) auto
qed

text \<open>What \<open>vfs_ensure_rw_capacity\<close> guarantees to its callers.\<close>

definition grown :: "nat \<Rightarrow> vfs \<Rightarrow> nat \<Rightarrow> nat \<Rightarrow> vfs \<Rightarrow> bool" where
  "grown arena v i need v' \<longleftrightarrow>
     (let f = vfs_files v ! i; f' = vfs_files v' ! i
      in heap_ok arena (vheap v') \<and> keeps (vheap v) (vheap v') (vf_rw_data f)
         \<and> (\<exists>p c. v' = v\<lparr> vfs_files := (vfs_files v)[i := f\<lparr> vf_rw_data := p, vf_rw_cap := c \<rparr>],
                          vheap := vheap v' \<rparr>)
         \<and> vf_rw_data f' \<noteq> 0 \<and> rw_ok (vheap v') f' \<and> max 1 need \<le> vf_rw_cap f'
         \<and> (vf_rw_data f' = vf_rw_data f \<or> live (vheap v) (vf_rw_data f') = None)
         \<and> (vf_rw_data f \<noteq> 0 \<longrightarrow>
              load_bytes (hmem (vheap v')) (vf_rw_data f') (vf_rw_size f)
                = load_bytes (hmem (vheap v)) (vf_rw_data f) (vf_rw_size f)))"

text \<open>The new block: zeroed, the old contents copied in, the old block released.\<close>

lemma move_overlay:
  assumes ok: "heap_ok arena h" and ret: "kmalloc h cap = Ret (h1, p)" and p: "p \<noteq> 0"
    and cap: "cap \<le> VFS_RW_MAX" "sz < cap"
    and old: "old \<noteq> 0 \<Longrightarrow> live h old = Some m" "old \<noteq> 0 \<Longrightarrow> sz \<le> m" "old = 0 \<Longrightarrow> sz = 0"
  defines "m1 \<equiv> k_memset (hmem h1) p 0 cap"
  defines "m2 \<equiv> (if old \<noteq> 0 \<and> sz \<noteq> 0 then (k_memcpy m1 p old sz)(p + sz := 0) else m1)"
  shows "\<exists>h3. (if old \<noteq> 0 then kfree (h1\<lparr> hmem := m2 \<rparr>) old else Ret (h1\<lparr> hmem := m2 \<rparr>)) = Ret h3
     \<and> heap_ok arena h3 \<and> keeps h h3 old \<and> live h p = None
     \<and> (\<exists>k \<ge> cap. live h3 p = Some k)
     \<and> load_bytes (hmem h3) p sz = (if old \<noteq> 0 then load_bytes (hmem h) old sz else [])"
proof -
  have lim: "cap < 2 ^ 64 - 7" using cap(1) by (simp add: VFS_RW_MAX_def)
  have ok1: "heap_ok arena h1" and mem1: "hmem h1 = hmem h" and fresh: "live h p = None"
    using kh.alloc_inv [OF ok ret] kh.alloc_mem [OF ok ret] kh.alloc_fresh [OF ok ret p] by auto
  obtain k where k: "cap \<le> k" "live h1 = (live h)(p \<mapsto> k)"
    using kh.alloc_live [OF ok ret p lim] by blast
  have apart: "p + cap \<le> q \<or> q + j \<le> p" if "live h q = Some j" for q j
    using kh.alloc_disjoint [OF ok ret p lim that] .
  have m2: "m2 a = hmem h a" if "a < p \<or> p + cap \<le> a" for a
    using that cap(2) by (auto simp: m2_def m1_def mem1 k_memcpy_outside)
  have keep: "keeps h (h1\<lparr> hmem := m2 \<rparr>) old"
    unfolding keeps_def
  proof (intro allI impI conjI)
    fix q j assume q: "live h q = Some j" "q \<noteq> old"
    then show "live (h1\<lparr> hmem := m2 \<rparr>) q = Some j" using k fresh by auto
    fix n assume "n \<le> j"
    with apart [OF q(1)] show "load_bytes (hmem (h1\<lparr> hmem := m2 \<rparr>)) q n = load_bytes (hmem h) q n"
      by (auto intro!: load_bytes_cong m2)
  qed
  have data: "load_bytes m2 p sz = (if old \<noteq> 0 then load_bytes (hmem h) old sz else [])"
  proof (cases "old \<noteq> 0 \<and> sz \<noteq> 0")
    case False
    with old(3) show ?thesis by auto
  next
    case True
    then have sep: "p + cap \<le> old \<or> old + m \<le> p" using apart old(1) by blast
    then have "load_bytes m2 p sz = load_bytes (k_memcpy m1 p old sz) p sz"
      using True by (simp add: m2_def load_upd_other)
    also have "\<dots> = load_bytes m1 old sz"
      using sep cap(2) old(2) True by (intro load_memcpy) auto
    also have "\<dots> = load_bytes (hmem h) old sz"
      unfolding m1_def mem1 using sep cap(2) old(2) True by (intro load_memset_other) auto
    finally show ?thesis using True by simp
  qed
  show ?thesis
  proof (cases "old = 0")
    case True
    with ok1 keep fresh k data show ?thesis by auto
  next
    case False
    then have lold: "live (h1\<lparr> hmem := m2 \<rparr>) old = Some m" and "old \<noteq> p"
      using old(1) k fresh by auto
    have ok2: "heap_ok arena (h1\<lparr> hmem := m2 \<rparr>)" using ok1 by simp
    obtain h3 where h3: "kfree (h1\<lparr> hmem := m2 \<rparr>) old = Ret h3" "heap_ok arena h3"
        "hmem h3 = m2" "live h3 = (live h1)(old := None)"
      using kh.free_returns [OF ok2 lold] by auto
    moreover have "keeps h h3 old"
      using keeps_trans [OF keep keeps_kfree [OF ok2 lold h3(1)]] .
    ultimately show ?thesis using False k \<open>old \<noteq> p\<close> fresh data by auto
  qed
qed

lemma vfs_ensure_spec:
  assumes ok: "vfs_ok arena v" and i: "i < length (vfs_files v)"
  shows "\<exists>v' b. vfs_ensure_rw_capacity v i need = Ret (v', b)
     \<and> (if b then grown arena v i need v' else v' = v)"
proof -
  define f where "f = vfs_files v ! i"
  define need' where "need' = (if need = 0 then 1 else need)"
  define cap0 where "cap0 = grow_cap 256 need'"
  define cap where "cap = (if cap0 > VFS_RW_MAX then VFS_RW_MAX else cap0)"
  have hok: "heap_ok arena (vheap v)" and fok: "file_ok (vheap v) f"
    using vfs_okD [OF ok] i by (auto simp: f_def)
  have mx: "max 1 need = need'" and "need \<le> need'" by (auto simp: need'_def)
  note unf = vfs_ensure_rw_capacity_def Let_def f_def [symmetric] need'_def [symmetric]
    cap0_def [symmetric] cap_def [symmetric]
  consider (big) "need' > VFS_RW_MAX"
    | (have_it) "need' \<le> VFS_RW_MAX" "vf_rw_data f \<noteq> 0" "need' \<le> vf_rw_cap f"
    | (grow) "need' \<le> VFS_RW_MAX" "vf_rw_data f = 0 \<or> vf_rw_cap f < need'" by force
  then show ?thesis
  proof cases
    case big
    then show ?thesis by (intro exI [of _ v] exI [of _ False]) (simp add: unf)
  next
    case have_it
    have "v = v\<lparr> vfs_files := (vfs_files v)[i := f\<lparr> vf_rw_data := vf_rw_data f, vf_rw_cap := vf_rw_cap f \<rparr>],
        vheap := vheap v \<rparr>"
      by (simp add: f_def)
    then have "\<exists>p c. v = v\<lparr> vfs_files := (vfs_files v)[i := f\<lparr> vf_rw_data := p, vf_rw_cap := c \<rparr>],
        vheap := vheap v \<rparr>"
      by blast
    then have "grown arena v i need v"
      unfolding grown_def Let_def f_def [symmetric] mx using have_it fok hok by (simp add: file_ok_def)
    with have_it show ?thesis by (intro exI [of _ v] exI [of _ True]) (simp add: unf)
  next
    case grow
    have cap: "need' \<le> cap" "cap \<le> VFS_RW_MAX"
      using grow(1) grow_cap_enough [of 256 need'] by (auto simp: cap_def cap0_def)
    have sz: "vf_rw_size f < cap"
      using grow(2) cap fok by (auto simp: file_ok_def rw_ok_def need'_def split: if_splits)
    obtain h1 p where ret: "kmalloc (vheap v) cap = Ret (h1, p)"
      using kh.alloc_returns [OF hok] by blast
    have conds: "\<not> VFS_RW_MAX < need'" "\<not> (vf_rw_data f \<noteq> 0 \<and> need' \<le> vf_rw_cap f)"
      "\<not> cap < need'" "\<not> cap \<le> vf_rw_size f"
      using grow cap sz by auto
    show ?thesis
    proof (cases "p = 0")
      case True
      then have "h1 = vheap v" using kh.alloc_null [OF hok] ret by blast
      with True have "vfs_ensure_rw_capacity v i need = Ret (v, False)"
        by (simp only: unf conds if_False ret kbind.simps prod.case if_True) simp
      then show ?thesis by auto
    next
      case False
      have old: "vf_rw_data f \<noteq> 0 \<Longrightarrow> live (vheap v) (vf_rw_data f) = Some (the (live (vheap v) (vf_rw_data f)))"
        "vf_rw_data f \<noteq> 0 \<Longrightarrow> vf_rw_size f \<le> the (live (vheap v) (vf_rw_data f))"
        "vf_rw_data f = 0 \<Longrightarrow> vf_rw_size f = 0"
        using fok by (auto simp: file_ok_def rw_ok_def)
      define h2 where "h2 = h1\<lparr> hmem := (if vf_rw_data f \<noteq> 0 \<and> vf_rw_size f \<noteq> 0
        then (k_memcpy (k_memset (hmem h1) p 0 cap) p (vf_rw_data f) (vf_rw_size f))(p + vf_rw_size f := 0)
        else k_memset (hmem h1) p 0 cap) \<rparr>"
      from move_overlay [OF hok ret False cap(2) sz old]
      obtain h3 where h3: "(if vf_rw_data f \<noteq> 0 then kfree h2 (vf_rw_data f) else Ret h2) = Ret h3"
        and h3': "heap_ok arena h3" "keeps (vheap v) h3 (vf_rw_data f)" "live (vheap v) p = None"
          "\<exists>k \<ge> cap. live h3 p = Some k"
          "load_bytes (hmem h3) p (vf_rw_size f) = (if vf_rw_data f \<noteq> 0
             then load_bytes (hmem (vheap v)) (vf_rw_data f) (vf_rw_size f) else [])"
        unfolding h2_def by blast
      define f' where "f' = f\<lparr> vf_rw_data := p, vf_rw_cap := cap \<rparr>"
      define v' where "v' = v\<lparr> vfs_files := (vfs_files v)[i := f'], vheap := h3 \<rparr>"
      have "vfs_ensure_rw_capacity v i need = Ret (v', True)"
        using False h3
        by (simp only: unf conds if_False ret kbind.simps prod.case h2_def [symmetric])
          (simp add: v'_def f'_def f_def)
      moreover have "grown arena v i need v'"
        using h3' False cap sz i \<open>need \<le> need'\<close>
        by (auto simp: grown_def v'_def f'_def f_def [symmetric] Let_def mx rw_ok_def)
      ultimately show ?thesis by (intro exI [of _ v'] exI [of _ True]) simp
    qed
  qed
qed

subsection \<open>Promotion and writing\<close>

text \<open>The slot that was grown: still a good table with the same meaning.\<close>

lemma grown_ok:
  assumes ok: "vfs_ok arena v" and i: "i < length (vfs_files v)" and used: "vf_used (vfs_files v ! i)"
    and g: "grown arena v i need v'"
  shows "vfs_ok arena v'" and "vfs_abs v' = vfs_abs v"
proof -
  define f where "f = vfs_files v ! i"
  from g obtain p c where v': "v' = v\<lparr> vfs_files := (vfs_files v)[i := f\<lparr> vf_rw_data := p, vf_rw_cap := c \<rparr>],
      vheap := vheap v' \<rparr>"
    by (auto simp: grown_def Let_def f_def)
  then have fs: "vfs_files v' = (vfs_files v)[i := f\<lparr> vf_rw_data := p, vf_rw_cap := c \<rparr>]"
    and cnt: "g_vfs_count v' = g_vfs_count v"
    by (metis vfs.select_convs(1) vfs.surjective vfs.update_convs(1,5),
        metis vfs.select_convs(2) vfs.surjective vfs.update_convs(1,5))
  have fok: "file_ok (vheap v) f" using vfs_okD(2) [OF ok i] by (simp add: f_def)
  have f': "file_ok (vheap v') (f\<lparr> vf_rw_data := p, vf_rw_cap := c \<rparr>)"
    using g fok used i
    by (auto simp: grown_def Let_def fs file_ok_def ro_ok_def f_def split: option.splits)
  have key: "find_index (\<lambda>g. vf_used g \<and> vf_path g = vf_path f) (vfs_files v) = Some i"
    using find_slot_of_path [OF vfs_okD(3) [OF ok] i used] by (simp add: f_def)
  have "g_vfs_count v' = count_slots vf_used (vfs_files v')"
    using vfs_okD(5) [OF ok] i by (simp add: cnt fs count_slots_same f_def)
  note sc = slot_change [OF ok i _ _ fs f' _ _ this]
  have hyps: "heap_ok arena (vheap v')" "keeps (vheap v) (vheap v') (vf_rw_data (vfs_files v ! i))"
    "p = vf_rw_data (vfs_files v ! i) \<or> live (vheap v) p = None"
    using g i by (auto simp: grown_def Let_def fs)
  show "vfs_ok arena v'" by (rule sc(1)) (use hyps key in \<open>auto simp: f_def\<close>)
  have "file_bytes (hmem (vheap v')) (f\<lparr> vf_rw_data := p, vf_rw_cap := c \<rparr>) = file_bytes (hmem (vheap v)) f"
    using g fok i
    by (auto simp: grown_def Let_def fs file_bytes_def f_def file_ok_def rw_ok_def split: option.splits)
  moreover have "vfs_abs v (vf_path f) = Some (file_bytes (hmem (vheap v)) f)"
    using vfs_abs_slot [OF ok i used] by (simp add: f_def)
  moreover have "vfs_abs v' = (let base = (if vf_used (vfs_files v ! i) then (vfs_abs v)(vf_path (vfs_files v ! i) := None)
                   else vfs_abs v)
       in if vf_used (f\<lparr> vf_rw_data := p, vf_rw_cap := c \<rparr>) then base(vf_path (f\<lparr> vf_rw_data := p, vf_rw_cap := c \<rparr>) \<mapsto> file_bytes (hmem (vheap v')) (f\<lparr> vf_rw_data := p, vf_rw_cap := c \<rparr>)) else base)"
    by (rule sc(2)) (use hyps key in \<open>auto simp: f_def\<close>)
  ultimately show "vfs_abs v' = vfs_abs v"
    using used by (auto simp: f_def fun_eq_iff)
qed

text \<open>Storing into the overlay of a used slot that has room, then setting the size (and
  possibly the writable flag).\<close>

definition store_overlay :: "vfs \<Rightarrow> nat \<Rightarrow> u8 list \<Rightarrow> vfs" where
  "store_overlay v i data =
     (let p = vf_rw_data (vfs_files v ! i)
      in upd_file (upd_mem v (\<lambda>m. (store_bytes m p data)(p + length data := 0))) i
           (\<lambda>f. f\<lparr> vf_rw_size := length data, vf_writable := True \<rparr>))"

lemma store_overlay_ok:
  assumes ok: "vfs_ok arena v" and i: "i < length (vfs_files v)" and used: "vf_used (vfs_files v ! i)"
    and rw: "vf_rw_data (vfs_files v ! i) \<noteq> 0" and room: "length data < vf_rw_cap (vfs_files v ! i)"
  shows "vfs_ok arena (store_overlay v i data)"
    and "vfs_abs (store_overlay v i data) = (vfs_abs v)(vf_path (vfs_files v ! i) \<mapsto> data)"
proof -
  define f where "f = vfs_files v ! i"
  define v' where "v' = store_overlay v i data"
  define f' where "f' = f\<lparr> vf_rw_size := length data, vf_writable := True \<rparr>"
  have fok: "file_ok (vheap v) f" using vfs_okD(2) [OF ok i] by (simp add: f_def)
  then obtain m where m: "live (vheap v) (vf_rw_data f) = Some m" "vf_rw_cap f \<le> m"
    using rw by (auto simp: file_ok_def rw_ok_def f_def)
  have fs: "vfs_files v' = (vfs_files v)[i := f']"
    and cnt: "g_vfs_count v' = g_vfs_count v"
    and hp: "vheap v' = (vheap v)\<lparr> hmem := (store_bytes (hmem (vheap v)) (vf_rw_data f) data)(vf_rw_data f + length data := 0) \<rparr>"
    by (simp_all add: v'_def store_overlay_def Let_def f_def f'_def)
  have hok: "heap_ok arena (vheap v')" using vfs_okD(1) [OF ok] by (simp add: hp)
  have keep: "keeps (vheap v) (vheap v') (vf_rw_data (vfs_files v ! i))"
    unfolding hp f_def [symmetric]
    by (rule keeps_store [OF vfs_okD(1) [OF ok] m(1)]) (use m(2) room in \<open>auto simp: f_def\<close>)
  have f'ok: "file_ok (vheap v') f'"
    using fok m rw room used
    by (auto simp: file_ok_def rw_ok_def ro_ok_def f'_def f_def hp split: option.splits)
  have key: "find_index (\<lambda>g. vf_used g \<and> vf_path g = vf_path f) (vfs_files v) = Some i"
    using find_slot_of_path [OF vfs_okD(3) [OF ok] i used] by (simp add: f_def)
  have "g_vfs_count v' = count_slots vf_used (vfs_files v')"
    using vfs_okD(5) [OF ok] i by (simp add: cnt fs count_slots_same f_def f'_def)
  note sc = slot_change [OF ok i hok keep fs f'ok _ _ this]
  show "vfs_ok arena (store_overlay v i data)"
    unfolding v'_def [symmetric] by (rule sc(1)) (use key in \<open>auto simp: f_def f'_def\<close>)
  have "file_bytes (hmem (vheap v')) f' = data"
    using rw by (simp add: file_bytes_def f'_def hp f_def load_upd_other)
  moreover have "vfs_abs v' = (let base = (if vf_used (vfs_files v ! i) then (vfs_abs v)(vf_path (vfs_files v ! i) := None)
                   else vfs_abs v)
       in if vf_used f' then base(vf_path f' \<mapsto> file_bytes (hmem (vheap v')) f') else base)"
    by (rule sc(2)) (use key in \<open>auto simp: f_def f'_def\<close>)
  ultimately show "vfs_abs (store_overlay v i data) = (vfs_abs v)(vf_path (vfs_files v ! i) \<mapsto> data)"
    using used by (simp add: v'_def [symmetric] f'_def f_def)
qed

lemma grown_slot:
  assumes "grown arena v i need v'" and "i < length (vfs_files v)"
  shows "\<exists>p c. vfs_files v' ! i = (vfs_files v ! i)\<lparr> vf_rw_data := p, vf_rw_cap := c \<rparr>"
    and "length (vfs_files v') = length (vfs_files v)"
    and "vf_rw_data (vfs_files v' ! i) \<noteq> 0" and "max 1 need \<le> vf_rw_cap (vfs_files v' ! i)"
    and "\<And>j. j \<noteq> i \<Longrightarrow> vfs_files v' ! j = vfs_files v ! j"
proof -
  from assms obtain p c where "v' = v\<lparr> vfs_files := (vfs_files v)[i := (vfs_files v ! i)\<lparr> vf_rw_data := p, vf_rw_cap := c \<rparr>],
      vheap := vheap v' \<rparr>"
    by (auto simp: grown_def Let_def)
  then have "vfs_files v' = (vfs_files v)[i := (vfs_files v ! i)\<lparr> vf_rw_data := p, vf_rw_cap := c \<rparr>]"
    by (metis vfs.select_convs(1) vfs.surjective vfs.update_convs(1,5))
  then show "\<exists>p c. vfs_files v' ! i = (vfs_files v ! i)\<lparr> vf_rw_data := p, vf_rw_cap := c \<rparr>"
    "length (vfs_files v') = length (vfs_files v)" "\<And>j. j \<noteq> i \<Longrightarrow> vfs_files v' ! j = vfs_files v ! j"
    using assms(2) by auto
  show "vf_rw_data (vfs_files v' ! i) \<noteq> 0" "max 1 need \<le> vf_rw_cap (vfs_files v' ! i)"
    using assms(1) by (auto simp: grown_def Let_def)
qed

text \<open>A step on slot \<open>i\<close> that keeps the table good and the slot in place.\<close>

definition slot_step :: "nat \<Rightarrow> vfs \<Rightarrow> nat \<Rightarrow> vfs \<Rightarrow> bool" where
  "slot_step arena v i v' \<longleftrightarrow>
     vfs_ok arena v' \<and> length (vfs_files v') = length (vfs_files v)
     \<and> vf_used (vfs_files v' ! i) = vf_used (vfs_files v ! i)
     \<and> vf_path (vfs_files v' ! i) = vf_path (vfs_files v ! i)"

lemma vfs_promote_spec:
  assumes ok: "vfs_ok arena v" and i: "i < length (vfs_files v)" and used: "vf_used (vfs_files v ! i)"
  shows "\<exists>v' b. vfs_promote_writable v i = Ret (v', b)
     \<and> (if b then slot_step arena v i v' \<and> vfs_abs v' = vfs_abs v \<and> vf_writable (vfs_files v' ! i)
             \<and> vf_rw_data (vfs_files v' ! i) \<noteq> 0
        else v' = v)"
proof -
  define f where "f = vfs_files v ! i"
  show ?thesis
  proof (cases "vf_writable f")
    case True
    show ?thesis
    proof (cases "vf_rw_data f = 0")
      case False
      with True ok show ?thesis
        by (intro exI [of _ v] exI [of _ True]) (simp add: vfs_promote_writable_def f_def slot_step_def)
    next
      case rw0: True
      obtain v' b where e: "vfs_ensure_rw_capacity v i (vf_rw_size f + 1) = Ret (v', b)"
        "if b then grown arena v i (vf_rw_size f + 1) v' else v' = v"
        using vfs_ensure_spec [OF ok i] by blast
      with True rw0 have "vfs_promote_writable v i = Ret (v', b)"
        by (simp add: vfs_promote_writable_def f_def)
      moreover have "slot_step arena v i v' \<and> vfs_abs v' = vfs_abs v \<and> vf_writable (vfs_files v' ! i)
             \<and> vf_rw_data (vfs_files v' ! i) \<noteq> 0" if b
        using grown_ok [OF ok i used] grown_slot [OF _ i] e(2) that True
        by (fastforce simp: slot_step_def f_def)
      ultimately show ?thesis using e(2) by auto
    qed
  next
    case ro: False
    show ?thesis
    proof (cases "VFS_RW_MAX \<le> vf_ro_size f")
      case True
      with ro show ?thesis
        by (intro exI [of _ v] exI [of _ False]) (simp add: vfs_promote_writable_def f_def)
    next
      case small: False
      obtain v1 b where e: "vfs_ensure_rw_capacity v i (vf_ro_size f + 1) = Ret (v1, b)"
        "if b then grown arena v i (vf_ro_size f + 1) v1 else v1 = v"
        using vfs_ensure_spec [OF ok i] by blast
      show ?thesis
      proof (cases b)
        case False
        with ro small e show ?thesis
          by (intro exI [of _ v] exI [of _ False]) (simp add: vfs_promote_writable_def f_def)
      next
        case True
        then have g: "grown arena v i (vf_ro_size f + 1) v1" using e(2) by simp
        note g1 = grown_slot [OF g i]
        note ok1 = grown_ok [OF ok i used g]
        let ?f1 = "vfs_files v1 ! i"
        have i1: "i < length (vfs_files v1)" and u1: "vf_used ?f1"
          and same: "vf_path ?f1 = vf_path f" "vf_ro_data ?f1 = vf_ro_data f" "vf_ro_size ?f1 = vf_ro_size f"
            "vf_writable ?f1 = vf_writable f"
          using g1(1,2) i used by (auto simp: f_def)
        define d where "d = (case vf_ro_data f of Some d \<Rightarrow> d | None \<Rightarrow> [])"
        have len: "length d = vf_ro_size f"
          using vfs_okD(2) [OF ok i] by (auto simp: d_def f_def file_ok_def ro_ok_def split: option.splits)
        have room: "length d < vf_rw_cap ?f1" using g1(4) len by simp
        have eq: "vfs_promote_writable v i = Ret (store_overlay v1 i d, True)"
          using ro small e True len same
          by (auto simp: vfs_promote_writable_def f_def [symmetric] store_overlay_def Let_def d_def
              split: option.splits)
        have bytes: "file_bytes (hmem (vheap v1)) ?f1 = d"
          using ro same len by (auto simp: file_bytes_def d_def split: option.splits)
        have abs: "vfs_abs (store_overlay v1 i d) = vfs_abs v"
          using store_overlay_ok(2) [OF ok1(1) i1 u1 g1(3) room] vfs_abs_slot [OF ok1(1) i1 u1] bytes ok1(2)
          by (auto simp: fun_eq_iff)
        have "vfs_files (store_overlay v1 i d) = (vfs_files v1)[i := ?f1\<lparr> vf_rw_size := length d, vf_writable := True \<rparr>]"
          by (simp add: store_overlay_def Let_def)
        then show ?thesis
          using eq abs store_overlay_ok(1) [OF ok1(1) i1 u1 g1(3) room] g1(2,3) i1 used u1 same
          by (intro exI [of _ "store_overlay v1 i d"] exI [of _ True]) (simp add: slot_step_def f_def)
      qed
    qed
  qed
qed

lemma put_bytes_spec:
  assumes ok: "vfs_ok arena v" and i: "i < length (vfs_files v)" and used: "vf_used (vfs_files v ! i)"
    and wr: "vf_writable (vfs_files v ! i)"
  shows "\<exists>v' b. put_bytes v i data = Ret (v', b)
     \<and> (if b then slot_step arena v i v' \<and> vfs_abs v' = (vfs_abs v)(vf_path (vfs_files v ! i) \<mapsto> data)
        else v' = v)"
proof -
  obtain v1 b where e: "vfs_ensure_rw_capacity v i (length data + 1) = Ret (v1, b)"
    "if b then grown arena v i (length data + 1) v1 else v1 = v"
    using vfs_ensure_spec [OF ok i] by blast
  show ?thesis
  proof (cases b)
    case False
    with e show ?thesis by (auto simp: put_bytes_def)
  next
    case True
    then have g: "grown arena v i (length data + 1) v1" using e(2) by simp
    note g1 = grown_slot [OF g i] and ok1 = grown_ok [OF ok i used g]
    have i1: "i < length (vfs_files v1)" and u1: "vf_used (vfs_files v1 ! i)"
      and w1: "vf_writable (vfs_files v1 ! i)" and p1: "vf_path (vfs_files v1 ! i) = vf_path (vfs_files v ! i)"
      using g1(1,2) i used wr by auto
    have room: "length data < vf_rw_cap (vfs_files v1 ! i)" using g1(4) by simp
    have "(vfs_files v1 ! i)\<lparr> vf_rw_size := n, vf_writable := True \<rparr> = (vfs_files v1 ! i)\<lparr> vf_rw_size := n \<rparr>" for n
      using w1 by simp
    then have eq: "put_bytes v i data = Ret (store_overlay v1 i data, True)"
      using e True by (simp add: put_bytes_def store_overlay_def Let_def)
    have "vfs_files (store_overlay v1 i data) =
        (vfs_files v1)[i := (vfs_files v1 ! i)\<lparr> vf_rw_size := length data, vf_writable := True \<rparr>]"
      by (simp add: store_overlay_def Let_def)
    then show ?thesis
      using eq store_overlay_ok [OF ok1(1) i1 u1 g1(3) room] ok1(2) p1 u1 used g1(2) i1
      by (intro exI [of _ "store_overlay v1 i data"] exI [of _ True]) (simp add: slot_step_def)
  qed
qed

subsection \<open>Creation\<close>

text \<open>The meaning of the table after a path has been given a slot.\<close>

definition touched :: "(string \<Rightarrow> u8 list option) \<Rightarrow> string \<Rightarrow> string \<Rightarrow> u8 list option" where
  "touched m q = (if m q = None then m(q \<mapsto> []) else m)"

lemma vfs_alloc_spec:
  assumes ok: "vfs_ok arena v" and a: "vfs_alloc v p = (v', r)"
  shows "r = None \<Longrightarrow> v' = v \<and> vfs_abs v (norm_path p) = None \<and> (\<forall>f \<in> set (vfs_files v). vf_used f)"
    and "r = Some i \<Longrightarrow> vfs_ok arena v' \<and> i < length (vfs_files v')
      \<and> length (vfs_files v') = length (vfs_files v) \<and> vf_used (vfs_files v' ! i)
      \<and> vf_path (vfs_files v' ! i) = norm_path p \<and> vfs_abs v' = touched (vfs_abs v) (norm_path p)"
proof -
  have fs: "vfs_find v (norm_path p) = vfs_find v p" by simp
  have abs: "vfs_abs v (norm_path p) = map_option (\<lambda>i. file_bytes (hmem (vheap v)) (vfs_files v ! i)) (vfs_find v p)"
    by (rule vfs_abs_find [OF ok])
  show "v' = v \<and> vfs_abs v (norm_path p) = None \<and> (\<forall>f \<in> set (vfs_files v). vf_used f)" if "r = None"
    using a that abs by (auto simp: vfs_alloc_def find_index_None split: option.splits)
  assume r: "r = Some i"
  show "vfs_ok arena v' \<and> i < length (vfs_files v')
      \<and> length (vfs_files v') = length (vfs_files v) \<and> vf_used (vfs_files v' ! i)
      \<and> vf_path (vfs_files v' ! i) = norm_path p \<and> vfs_abs v' = touched (vfs_abs v) (norm_path p)"
  proof (cases "vfs_find v p")
    case (Some j)
    then have "v' = v" "i = j" using a r by (auto simp: vfs_alloc_def)
    with vfs_findD [OF ok Some] ok abs Some show ?thesis by (simp add: touched_def)
  next
    case None
    define f' where "f' = new_file (vf_path (vfs_files v ! i)) (norm_path p)"
    have idx: "find_index (\<lambda>f. \<not> vf_used f) (vfs_files v) = Some i"
      and v': "v' = v\<lparr> vfs_files := (vfs_files v)[i := f'], g_vfs_count := g_vfs_count v + 1 \<rparr>"
      using a r None by (auto simp: vfs_alloc_def f'_def split: option.splits)
    then have i: "i < length (vfs_files v)" and un: "\<not> vf_used (vfs_files v ! i)"
      by (auto dest: find_indexD)
    have hp: "vheap v' = vheap v" and fs': "vfs_files v' = (vfs_files v)[i := f']"
      by (simp_all add: v')
    have f': "vf_used f'" "vf_path f' = norm_path p" "vf_rw_data f' = 0" "file_ok (vheap v') f'"
        "file_bytes m f' = []" for m
      by (simp_all add: f'_def new_file_def file_ok_def ro_ok_def rw_ok_def file_bytes_def)
    have cnt: "g_vfs_count v' = count_slots vf_used (vfs_files v')"
      using count_slots_update [OF i, of vf_used f'] un f'(1) vfs_okD(5) [OF ok] by (simp add: v')
    have key: "find_index (\<lambda>f. vf_used f \<and> vf_path f = vf_path f') (vfs_files v) = None"
      using None by (simp add: f' vfs_find_norm [OF ok])
    have h: "heap_ok arena (vheap v')" "keeps (vheap v) (vheap v') (vf_rw_data (vfs_files v ! i))"
      using vfs_okD(1) [OF ok] by (simp_all add: hp)
    note sc = slot_change [OF ok i h fs' f'(4) _ _ cnt]
    have ok': "vfs_ok arena v'" by (rule sc(1)) (use f' key in auto)
    have "vfs_abs v' = (let base = (if vf_used (vfs_files v ! i) then (vfs_abs v)(vf_path (vfs_files v ! i) := None)
                   else vfs_abs v)
       in if vf_used f' then base(vf_path f' \<mapsto> file_bytes (hmem (vheap v')) f') else base)"
      by (rule sc(2)) (use f' key in auto)
    with ok' f' un i fs' abs None show ?thesis by (simp add: touched_def)
  qed
qed

subsection \<open>The writers\<close>

lemma take_cstr: "take (k_strlen s) s = cstr s"
  by (induction s) (auto simp: cstr_Cons)

lemma take_bytes_of: "take n (bytes_of s) = bytes_of (take n s)"
  by (simp add: bytes_of_def take_map)

text \<open>The common part of the two writers: find or create the file, make it writable, put the
  bytes.  A failure leaves every existing file as it was; a new name may stay behind, empty.\<close>

lemma write_body:
  assumes ok: "vfs_ok arena v" and "length data < VFS_RW_MAX"
    and w: "w = (case vfs_alloc v p of (v1, None) \<Rightarrow> Ret (v1, False)
       | (v1, Some i) \<Rightarrow> kbind (vfs_promote_writable v1 i)
           (\<lambda>(v2, ok). if \<not> ok then Ret (v2, False) else put_bytes v2 i data))"
  shows "\<exists>v' b. w = Ret (v', b) \<and> vfs_ok arena v' \<and> length (vfs_files v') = length (vfs_files v)
     \<and> (if b then vfs_abs v' = (vfs_abs v)(norm_path p \<mapsto> data)
        else vfs_abs v' \<in> {vfs_abs v, touched (vfs_abs v) (norm_path p)})"
proof -
  obtain v1 r where a: "vfs_alloc v p = (v1, r)" by fastforce
  show ?thesis
  proof (cases r)
    case None
    with vfs_alloc_spec(1) [OF ok a] a ok w show ?thesis by auto
  next
    case (Some i)
    have s: "vfs_ok arena v1" "i < length (vfs_files v1)" "length (vfs_files v1) = length (vfs_files v)"
        "vf_used (vfs_files v1 ! i)"
        "vf_path (vfs_files v1 ! i) = norm_path p" "vfs_abs v1 = touched (vfs_abs v) (norm_path p)"
      using vfs_alloc_spec(2) [OF ok a Some] by auto
    obtain v2 b where pr: "vfs_promote_writable v1 i = Ret (v2, b)"
      and pr2: "if b then slot_step arena v1 i v2 \<and> vfs_abs v2 = vfs_abs v1
          \<and> vf_writable (vfs_files v2 ! i) \<and> vf_rw_data (vfs_files v2 ! i) \<noteq> 0 else v2 = v1"
      using vfs_promote_spec [OF s(1,2,4)] by blast
    show ?thesis
    proof (cases b)
      case False
      with pr pr2 a Some w s show ?thesis by auto
    next
      case True
      then have ok2: "vfs_ok arena v2" "i < length (vfs_files v2)" "vf_used (vfs_files v2 ! i)"
          "vf_writable (vfs_files v2 ! i)" "vf_path (vfs_files v2 ! i) = norm_path p"
          "vfs_abs v2 = touched (vfs_abs v) (norm_path p)" "length (vfs_files v2) = length (vfs_files v)"
        using pr2 s by (auto simp: slot_step_def)
      obtain v3 c where pb: "put_bytes v2 i data = Ret (v3, c)"
        and pb2: "if c then slot_step arena v2 i v3
            \<and> vfs_abs v3 = (vfs_abs v2)(vf_path (vfs_files v2 ! i) \<mapsto> data) else v3 = v2"
        using put_bytes_spec [OF ok2(1-4)] by blast
      have "w = Ret (v3, c)" using w a Some pr True pb by simp
      with pb2 ok2 show ?thesis
        by (intro exI [of _ v3] exI [of _ c]) (auto simp: slot_step_def touched_def split: if_splits)
    qed
  qed
qed

lemma vfs_write_spec:
  assumes "vfs_ok arena v"
  shows "\<exists>v' b. vfs_write v p text = Ret (v', b) \<and> vfs_ok arena v'
     \<and> length (vfs_files v') = length (vfs_files v)
     \<and> (if b then vfs_abs v' = (vfs_abs v)(norm_path p \<mapsto> take 65535 (bytes_of (cstr text)))
        else vfs_abs v' \<in> {vfs_abs v, touched (vfs_abs v) (norm_path p)})"
proof -
  define len where "len = (if k_strlen text \<ge> VFS_RW_MAX then VFS_RW_MAX - 1 else k_strlen text)"
  have len: "len = min (k_strlen text) 65535" by (simp add: len_def VFS_RW_MAX_def)
  have data: "take len (bytes_of text) = take 65535 (bytes_of (cstr text))"
  proof -
    have "take len text = take 65535 (take (k_strlen text) text)"
      unfolding len take_take by (simp only: min.commute)
    then show ?thesis by (simp add: take_bytes_of take_cstr)
  qed
  have short: "length (take len (bytes_of text)) < VFS_RW_MAX" by (simp add: len VFS_RW_MAX_def)
  have w: "vfs_write v p text = (case vfs_alloc v p of (v1, None) \<Rightarrow> Ret (v1, False)
       | (v1, Some i) \<Rightarrow> kbind (vfs_promote_writable v1 i)
           (\<lambda>(v2, ok). if \<not> ok then Ret (v2, False) else put_bytes v2 i (take len (bytes_of text))))"
    by (simp only: vfs_write_def len_def [symmetric] Let_def)
  obtain v' b where "vfs_write v p text = Ret (v', b)" "vfs_ok arena v'"
      "length (vfs_files v') = length (vfs_files v)"
      "if b then vfs_abs v' = (vfs_abs v)(norm_path p \<mapsto> take len (bytes_of text))
       else vfs_abs v' \<in> {vfs_abs v, touched (vfs_abs v) (norm_path p)}"
    using write_body [OF assms short w] by blast
  then show ?thesis unfolding data by blast
qed

end
