(* ===== verification/KVfsOps.thy ===== *)
theory KVfsOps
  imports KVfs
begin

text \<open>
  The file table as a finite map from normalised paths to contents: the contract of a file
  store as a locale, the operations of \<open>KVfs\<close> as its instance, when a write succeeds, and
  what holds of every table reachable from \<open>vfs_init\<close>.
\<close>

subsection \<open>Writing bytes, touching, removing and renaming\<close>

lemma vfs_write_bytes_spec:
  assumes "vfs_ok arena v" and "\<And>d. data = Some d \<Longrightarrow> sz \<le> length d"
  shows "\<exists>v' b. vfs_write_bytes v p data sz = Ret (v', b) \<and> vfs_ok arena v'
     \<and> length (vfs_files v') = length (vfs_files v)
     \<and> (if b then vfs_abs v' = (vfs_abs v)(norm_path p \<mapsto>
              (case data of Some d \<Rightarrow> take (min sz 65535) d | None \<Rightarrow> replicate (min sz 65535) 0))
        else vfs_abs v' \<in> {vfs_abs v, touched (vfs_abs v) (norm_path p)})"
proof -
  define len where "len = (if sz \<ge> VFS_RW_MAX then VFS_RW_MAX - 1 else sz)"
  have len: "len = min sz 65535" by (simp add: len_def VFS_RW_MAX_def)
  define bs where "bs = (case data of Some d \<Rightarrow> take len d | None \<Rightarrow> replicate len 0)"
  have short: "length bs < VFS_RW_MAX"
    by (auto simp: bs_def len VFS_RW_MAX_def split: option.splits)
  have w: "vfs_write_bytes v p data sz = (case vfs_alloc v p of (v1, None) \<Rightarrow> Ret (v1, False)
       | (v1, Some i) \<Rightarrow> kbind (vfs_promote_writable v1 i)
           (\<lambda>(v2, ok). if \<not> ok then Ret (v2, False) else put_bytes v2 i bs))"
    by (simp only: vfs_write_bytes_def bs_def len_def [symmetric] Let_def)
  show ?thesis using write_body [OF assms(1) short w] by (simp only: bs_def len)
qed

lemma vfs_touch_spec:
  assumes "vfs_ok arena v"
  shows "\<exists>v' b. vfs_touch v p = Ret (v', b) \<and> vfs_ok arena v'
     \<and> length (vfs_files v') = length (vfs_files v)
     \<and> (if b then vfs_abs v' = touched (vfs_abs v) (norm_path p) else vfs_abs v' = vfs_abs v)"
proof -
  obtain v1 r where a: "vfs_alloc v p = (v1, r)" by fastforce
  show ?thesis
  proof (cases r)
    case None
    with vfs_alloc_spec(1) [OF assms a] a assms show ?thesis by (auto simp: vfs_touch_def)
  next
    case (Some i)
    have s: "vfs_ok arena v1" "i < length (vfs_files v1)" "length (vfs_files v1) = length (vfs_files v)"
        "vf_used (vfs_files v1 ! i)" "vf_path (vfs_files v1 ! i) = norm_path p"
        "vfs_abs v1 = touched (vfs_abs v) (norm_path p)"
      using vfs_alloc_spec(2) [OF assms a Some] by auto
    obtain v2 b where pr: "vfs_promote_writable v1 i = Ret (v2, b)"
      and pr2: "if b then slot_step arena v1 i v2 \<and> vfs_abs v2 = vfs_abs v1
          \<and> vf_writable (vfs_files v2 ! i) \<and> vf_rw_data (vfs_files v2 ! i) \<noteq> 0 else v2 = v1"
      using vfs_promote_spec [OF s(1,2,4)] by blast
    show ?thesis
    proof (cases "vf_writable (vfs_files v1 ! i)")
      case True
      with a Some s show ?thesis by (auto simp: vfs_touch_def)
    next
      case False
      then have old: "vfs_abs v1 = vfs_abs v"
        using a Some s(6) by (auto simp: vfs_alloc_def new_file_def touched_def vfs_abs_find [OF assms]
            dest: find_indexD split: option.splits)
      with False a Some s pr pr2 show ?thesis
        by (intro exI [of _ v2] exI [of _ b]) (auto simp: vfs_touch_def slot_step_def split: if_splits)
    qed
  qed
qed

text \<open>Releasing the overlay of a slot never panics and leaves the other blocks alone.\<close>

lemma release_overlay:
  assumes ok: "vfs_ok arena v" and i: "i < length (vfs_files v)"
  obtains h where
    "(if vf_rw_data (vfs_files v ! i) \<noteq> 0 then kfree (vheap v) (vf_rw_data (vfs_files v ! i))
      else Ret (vheap v)) = Ret h"
    and "heap_ok arena h" and "keeps (vheap v) h (vf_rw_data (vfs_files v ! i))"
proof (cases "vf_rw_data (vfs_files v ! i) = 0")
  case True
  with vfs_okD(1) [OF ok] that show ?thesis by auto
next
  case False
  have hok: "heap_ok arena (vheap v)" using vfs_okD(1) [OF ok] .
  from False vfs_okD(2) [OF ok i] obtain m where
    lv: "live (vheap v) (vf_rw_data (vfs_files v ! i)) = Some m"
    by (auto simp: file_ok_def rw_ok_def)
  obtain h where "kfree (vheap v) (vf_rw_data (vfs_files v ! i)) = Ret h" "heap_ok arena h"
    using kh.free_returns [OF hok lv] by auto
  with keeps_kfree [OF hok lv] False that show ?thesis by auto
qed

lemma vfs_remove_spec:
  assumes ok: "vfs_ok arena v"
  shows "\<exists>v'. vfs_remove v p = Ret (v', vfs_abs v (norm_path p) \<noteq> None) \<and> vfs_ok arena v'
     \<and> vfs_abs v' = (vfs_abs v)(norm_path p := None)
     \<and> length (vfs_files v') = length (vfs_files v)
     \<and> (\<forall>j < length (vfs_files v). vf_used (vfs_files v ! j) \<longrightarrow> vf_path (vfs_files v ! j) \<noteq> norm_path p
          \<longrightarrow> vfs_files v' ! j = vfs_files v ! j)"
proof (cases "vfs_find v p")
  case None
  with vfs_abs_find [OF ok, of p] ok show ?thesis by (auto simp: vfs_remove_def fun_eq_iff)
next
  case (Some i)
  note i = vfs_findD [OF ok Some]
  define f where "f = vfs_files v ! i"
  define f' where "f' = f\<lparr> vf_used := False, vf_writable := False, vf_path := [], vf_ro_data := None,
     vf_ro_size := 0, vf_rw_data := 0, vf_rw_cap := 0, vf_rw_size := 0 \<rparr>"
  obtain h where h: "(if vf_rw_data f \<noteq> 0 then kfree (vheap v) (vf_rw_data f) else Ret (vheap v)) = Ret h"
      "heap_ok arena h" "keeps (vheap v) h (vf_rw_data f)"
    using release_overlay [OF ok i(1)] unfolding f_def by blast
  define v' where "v' = v\<lparr> vfs_files := (vfs_files v)[i := f'],
     g_vfs_count := (if g_vfs_count v > 0 then g_vfs_count v - 1 else g_vfs_count v), vheap := h \<rparr>"
  have ret: "vfs_remove v p = Ret (v', True)"
    using Some h(1) by (simp add: vfs_remove_def f_def [symmetric] f'_def v'_def kbind_Ret Let_def)
  have fs: "vfs_files v' = (vfs_files v)[i := f']" and hp: "vheap v' = h" by (simp_all add: v'_def)
  have un: "\<not> vf_used f'" "vf_rw_data f' = 0" "file_ok (vheap v') f'"
    by (simp_all add: f'_def file_ok_def ro_ok_def rw_ok_def)
  have "vf_used (vfs_files v ! i)" using i(2) .
  then have cnt: "g_vfs_count v' = count_slots vf_used (vfs_files v')"
    using count_slots_update [OF i(1), of vf_used f'] un(1) vfs_okD(5) [OF ok]
    by (simp add: v'_def)
  have h': "heap_ok arena (vheap v')" "keeps (vheap v) (vheap v') (vf_rw_data (vfs_files v ! i))"
    using h by (simp_all add: hp f_def)
  note sc = slot_change [OF ok i(1) h' fs un(3) _ _ cnt]
  have "vfs_ok arena v'" by (rule sc(1)) (use un in auto)
  moreover have "vfs_abs v' = (let base = (if vf_used (vfs_files v ! i) then (vfs_abs v)(vf_path (vfs_files v ! i) := None)
                   else vfs_abs v)
       in if vf_used f' then base(vf_path f' \<mapsto> file_bytes (hmem (vheap v')) f') else base)"
    by (rule sc(2)) (use un in auto)
  then have "vfs_abs v' = (vfs_abs v)(norm_path p := None)" using un i by simp
  moreover have "vfs_abs v (norm_path p) \<noteq> None" using vfs_abs_find [OF ok] Some by simp
  moreover have "(vfs_files v)[i := f'] ! j = vfs_files v ! j"
    if "vf_path (vfs_files v ! j) \<noteq> norm_path p" for j
    using that i(3) by (cases "j = i") auto
  ultimately show ?thesis using ret fs by (intro exI [of _ v']) simp
qed

lemma vfs_rename_spec:
  fixes src dst :: string
  assumes ok: "vfs_ok arena v"
  defines "s \<equiv> norm_path src" and "d \<equiv> norm_path dst"
  shows "\<exists>v'. vfs_rename v src dst = Ret (v', s = d \<or> vfs_abs v s \<noteq> None) \<and> vfs_ok arena v'
     \<and> length (vfs_files v') = length (vfs_files v)
     \<and> vfs_abs v' = (if s = d \<or> vfs_abs v s = None then vfs_abs v
                      else (vfs_abs v)(s := None, d := vfs_abs v s))"
proof -
  have cmp: "k_strcmp s d = 0 \<longleftrightarrow> s = d" by (simp add: k_strcmp_eq_iff s_def d_def)
  have ndd: "norm_path d = d" by (simp add: d_def)
  consider "s = d" | "s \<noteq> d" "vfs_find v src = None" | i where "s \<noteq> d" "vfs_find v src = Some i"
    by (cases "vfs_find v src") auto
  then show ?thesis
  proof cases
    case 1
    with cmp ok show ?thesis by (simp add: vfs_rename_def s_def [symmetric] d_def [symmetric])
  next
    case 2
    with cmp ok vfs_abs_find [OF ok, of src] show ?thesis
      by (simp add: vfs_rename_def s_def d_def)
  next
    case 3
    note i = vfs_findD [OF ok 3(2)]
    have abs_s: "vfs_abs v s = Some (file_bytes (hmem (vheap v)) (vfs_files v ! i))"
      using vfs_abs_find [OF ok, of src] 3(2) by (simp add: s_def)
    have to_i: "vfs_find v dst \<noteq> Some i"
      using vfs_findD(3) [OF ok, of dst i] i(3) 3(1) by (auto simp: s_def d_def)
    obtain v1 where v1: "(if vfs_find v d \<noteq> None \<and> vfs_find v d \<noteq> Some i
          then vfs_remove v d else Ret (v, True)) = Ret (v1, True)"
        "vfs_ok arena v1" "vfs_abs v1 = (vfs_abs v)(d := None)"
        "length (vfs_files v1) = length (vfs_files v)" "vfs_files v1 ! i = vfs_files v ! i"
    proof (cases "vfs_find v dst")
      case None
      with vfs_abs_find [OF ok, of dst] ok that [of v] show ?thesis
        by (simp add: d_def fun_upd_idem)
    next
      case (Some t)
      with vfs_abs_find [OF ok, of dst] have ne: "vfs_abs v d \<noteq> None" by (simp add: d_def)
      obtain v1 where "vfs_remove v d = Ret (v1, True)" "vfs_ok arena v1"
          "vfs_abs v1 = (vfs_abs v)(d := None)" "length (vfs_files v1) = length (vfs_files v)"
          "vfs_files v1 ! i = vfs_files v ! i"
        using vfs_remove_spec [OF ok, of d] ne i 3(1) unfolding ndd by (auto simp: s_def)
      with Some to_i that show ?thesis by (simp add: d_def)
    qed
    define f' where "f' = (vfs_files v1 ! i)\<lparr> vf_path := d \<rparr>"
    define v2 where "v2 = v1\<lparr> vfs_files := (vfs_files v1)[i := f'] \<rparr>"
    have i1: "i < length (vfs_files v1)" "vf_used (vfs_files v1 ! i)" "vf_path (vfs_files v1 ! i) = s"
      using i v1(4,5) by (simp_all add: s_def)
    have fok: "file_ok (vheap v1) (vfs_files v1 ! i)" using vfs_okD(2) [OF v1(2) i1(1)] .
    have cp: "k_strlcpy x d VFS_MAX_PATH = d" for x by (simp add: d_def)
    have ret: "vfs_rename v src dst = Ret (v2, True)"
      using 3 cmp v1(1) cp by (simp add: vfs_rename_def s_def [symmetric] d_def [symmetric] f'_def v2_def
          kbind_Ret Let_def) (simp add: s_def kbind_Ret)
    have fs: "vfs_files v2 = (vfs_files v1)[i := f']" and hp: "vheap v2 = vheap v1"
      by (simp_all add: v2_def)
    have f': "vf_used f'" "vf_path f' = d" "file_ok (vheap v2) f'" "vf_rw_data f' = vf_rw_data (vfs_files v1 ! i)"
        "file_bytes m f' = file_bytes m (vfs_files v1 ! i)" for m
      using fok i1(2) by (auto simp: f'_def hp file_ok_def ro_ok_def rw_ok_def file_bytes_def d_def
          split: option.splits)
    have "vfs_find v1 d = None" using vfs_abs_find [OF v1(2), of d] v1(3) ndd by simp
    then have key: "find_index (\<lambda>f. vf_used f \<and> vf_path f = d) (vfs_files v1) = None"
      by (simp add: vfs_find_norm [OF v1(2)] ndd)
    have cnt: "g_vfs_count v2 = count_slots vf_used (vfs_files v2)"
      using count_slots_same [OF i1(1), of vf_used f'] f'(1) i1(2) vfs_okD(5) [OF v1(2)] by (simp add: v2_def)
    have h: "heap_ok arena (vheap v2)" "keeps (vheap v1) (vheap v2) (vf_rw_data (vfs_files v1 ! i))"
      using vfs_okD(1) [OF v1(2)] by (simp_all add: hp)
    note sc = slot_change [OF v1(2) i1(1) h fs f'(3) _ _ cnt]
    have ok2: "vfs_ok arena v2" by (rule sc(1)) (use f' key in auto)
    have "vfs_abs v2 = (let base = (if vf_used (vfs_files v1 ! i) then (vfs_abs v1)(vf_path (vfs_files v1 ! i) := None)
                   else vfs_abs v1)
       in if vf_used f' then base(vf_path f' \<mapsto> file_bytes (hmem (vheap v2)) f') else base)"
      by (rule sc(2)) (use f' key in auto)
    then have "vfs_abs v2 = (vfs_abs v1)(s := None, d \<mapsto> file_bytes (hmem (vheap v1)) (vfs_files v1 ! i))"
      using i1 f' by (simp add: hp)
    moreover have "file_bytes (hmem (vheap v1)) (vfs_files v1 ! i) = file_bytes (hmem (vheap v)) (vfs_files v ! i)"
      using vfs_abs_slot [OF v1(2) i1(1,2)] v1(3) abs_s i1(3) 3(1) by simp
    ultimately have "vfs_abs v2 = (vfs_abs v)(s := None, d := vfs_abs v s)"
      using v1(3) abs_s by (auto simp: fun_eq_iff)
    with ret ok2 abs_s 3(1) v1(4) fs show ?thesis by auto
  qed
qed

lemma vfs_read_spec:
  assumes ok: "vfs_ok arena v"
  shows "vfs_read v p = map_option (\<lambda>bs. (bs, length bs)) (vfs_abs v (norm_path p))"
proof (cases "vfs_find v p")
  case None
  with vfs_abs_find [OF ok, of p] show ?thesis by (simp add: vfs_read_def)
next
  case (Some i)
  have fok: "file_ok (vheap v) (vfs_files v ! i)"
    using vfs_okD(2) [OF ok] vfs_findD(1) [OF ok Some] by blast
  then have "length (file_bytes (hmem (vheap v)) (vfs_files v ! i))
      = (if vf_writable (vfs_files v ! i) then vf_rw_size (vfs_files v ! i) else vf_ro_size (vfs_files v ! i))"
    by (auto simp: file_ok_def ro_ok_def rw_ok_def file_bytes_def split: option.splits if_splits)
  with Some vfs_abs_find [OF ok, of p] show ?thesis by (simp add: vfs_read_def Let_def)
qed

subsection \<open>When a write succeeds\<close>

text \<open>\<open>room n h\<close>: some free block has at least \<open>n\<close> bytes.\<close>

definition room :: "nat \<Rightarrow> kheap \<Rightarrow> bool" where
  "room n h \<longleftrightarrow> (\<exists>b \<in> set (hblocks h). \<not> bused b \<and> n \<le> bsize b)"

lemma room_mono: "room n h \<Longrightarrow> m \<le> n \<Longrightarrow> room m h"
  by (auto simp: room_def)

lemma room_mem [simp]: "room n (h\<lparr> hmem := m \<rparr>) = room n h"
  by (simp add: room_def)

lemma round8_le: "round8 n \<le> n + 7"
proof -
  have "(n + 7) mod 2 ^ 64 \<le> n + 7" by (rule mod_less_eq_dividend)
  moreover have "x div 8 * 8 \<le> x" for x :: nat by simp
  ultimately show ?thesis unfolding round8_def using le_trans by blast
qed

lemma take_block_room:
  "\<not> bused b \<Longrightarrow> sz + HDR + 16 + k \<le> bsize b \<Longrightarrow> \<exists>c \<in> set (take_block sz b). \<not> bused c \<and> k \<le> bsize c"
  by (auto simp: take_block_def)

lemma room_kmalloc:
  assumes ok: "heap_ok arena h" and ret: "kmalloc h n = Ret (h', p)" and "n \<noteq> 0"
    and room: "room (n + 64 + k) h"
  shows "p \<noteq> 0" and "room k h'"
proof -
  have le: "round8 n \<le> n + 7" by (rule round8_le)
  obtain b where b: "b \<in> set (hblocks h)" "\<not> bused b" "n + 64 + k \<le> bsize b"
    using room by (auto simp: room_def)
  then have ex: "\<exists>b \<in> set (hblocks h). fits (round8 n) b" using le by (auto simp: fits_def)
  obtain pre c post used peak where s: "hblocks h = pre @ c # post"
      "kmalloc h n = Ret (h\<lparr> hblocks := pre @ take_block (round8 n) c @ post,
           g_heap_alloc_count := g_heap_alloc_count h + 1,
           g_heap_used_bytes := used, g_heap_peak_bytes := peak \<rparr>, baddr c + HDR)"
    using kmalloc_found [OF ok \<open>n \<noteq> 0\<close> ex] by metis
  from s(2) ret show "p \<noteq> 0" by (simp add: HDR_def)
  have "\<exists>d \<in> set (take_block (round8 n) c). \<not> bused d \<and> k \<le> bsize d" if "c = b"
    using take_block_room [of b "round8 n" k] b le that by (simp add: HDR_def)
  with b s ret show "room k h'" by (cases "c = b") (auto simp: room_def)
qed

lemma room_coalesce:
  "\<exists>b \<in> set bs. \<not> bused b \<and> k \<le> bsize b \<Longrightarrow> \<exists>b \<in> set (coalesce bs). \<not> bused b \<and> k \<le> bsize b"
  by (induction bs rule: coalesce.induct) (auto split: if_splits)

lemma room_kfree:
  assumes "kfree h p = Ret h'" and "room k h"
  shows "room k h'"
proof (cases "p = 0")
  case True
  with assms show ?thesis by (simp add: kfree_def)
next
  case False
  then obtain i where i: "i < length (hblocks h)" "bused (hblocks h ! i)"
      "hblocks h' = coalesce ((hblocks h)[i := (hblocks h ! i)\<lparr> bused := False \<rparr>])"
    using assms(1) by (auto simp: kfree_def Let_def dest: find_indexD split: option.splits if_splits)
  obtain j where j: "j < length (hblocks h)" "\<not> bused (hblocks h ! j)" "k \<le> bsize (hblocks h ! j)"
    using assms(2) by (auto simp: room_def in_set_conv_nth)
  with i have "(hblocks h)[i := (hblocks h ! i)\<lparr> bused := False \<rparr>] ! j = hblocks h ! j" by (cases "i = j") auto
  then have "\<exists>b \<in> set ((hblocks h)[i := (hblocks h ! i)\<lparr> bused := False \<rparr>]). \<not> bused b \<and> k \<le> bsize b"
    using j by (metis length_list_update nth_mem)
  with i(3) room_coalesce show ?thesis by (simp add: room_def)
qed

lemma grow_cap_le: "grow_cap cap need \<le> max cap (2 * VFS_RW_MAX)"
proof (induction cap need rule: grow_cap.induct)
  case (1 cap need)
  then show ?case by (subst grow_cap.simps) (auto simp: VFS_RW_MAX_def)
qed

lemma room_ensure:
  assumes ok: "vfs_ok arena v" and need: "need \<le> VFS_RW_MAX"
    and room: "room (VFS_RW_MAX + 64 + k) (vheap v)"
    and ret: "vfs_ensure_rw_capacity v i need = Ret (v', b)"
  shows "b" and "room k (vheap v')"
proof -
  define need' where "need' = (if need = 0 then 1 else need)"
  define cap0 where "cap0 = grow_cap 256 need'"
  define cap where "cap = (if cap0 > VFS_RW_MAX then VFS_RW_MAX else cap0)"
  let ?f = "vfs_files v ! i"
  have n': "need' \<le> VFS_RW_MAX" using need by (simp add: need'_def VFS_RW_MAX_def)
  have cap: "need' \<le> cap" "0 < cap" "cap \<le> VFS_RW_MAX"
    using grow_cap_enough [of 256 need'] grow_cap_ge [of 256 need'] n'
    by (auto simp: cap_def cap0_def VFS_RW_MAX_def)
  have hok: "heap_ok arena (vheap v)" using vfs_okD(1) [OF ok] .
  have low: "room k (vheap v)" using room by (rule room_mono) simp
  have roomc: "room (cap + 64 + k) (vheap v)" using room cap(3) by (elim room_mono) simp
  obtain h1 p where km: "kmalloc (vheap v) cap = Ret (h1, p)"
    using kh.alloc_returns [OF hok] by blast
  have r1: "p \<noteq> 0" "room k h1" using room_kmalloc [OF hok km _ roomc] cap(2) by auto
  have eq: "vfs_ensure_rw_capacity v i need =
     (if vf_rw_data ?f \<noteq> 0 \<and> vf_rw_cap ?f \<ge> need' then Ret (v, True)
      else kbind (kmalloc (vheap v) cap) (\<lambda>(h1, next).
           if next = 0 then Ret (v\<lparr> vheap := h1 \<rparr>, False)
           else
             (let m1 = k_memset (hmem h1) next 0 cap;
                  n = (if vf_rw_size ?f \<ge> cap then cap - 1 else vf_rw_size ?f);
                  m2 = (if vf_rw_data ?f \<noteq> 0 \<and> vf_rw_size ?f \<noteq> 0
                        then (k_memcpy m1 next (vf_rw_data ?f) n)(next + n := 0) else m1);
                  h2 = h1\<lparr> hmem := m2 \<rparr>
              in kbind (if vf_rw_data ?f \<noteq> 0 then kfree h2 (vf_rw_data ?f) else Ret h2) (\<lambda>h3.
                   Ret (upd_file (v\<lparr> vheap := h3 \<rparr>) i
                          (\<lambda>f. f\<lparr> vf_rw_data := next, vf_rw_cap := cap \<rparr>), True)))))"
    using n' cap(1)
    by (simp only: vfs_ensure_rw_capacity_def need'_def [symmetric] cap0_def [symmetric] cap_def [symmetric] Let_def)
      (simp add: not_less)
  show "b"
    using ret unfolding eq by (auto simp: km r1 kbind_Ret Let_def split: if_splits)
  show "room k (vheap v')"
    using ret low r1 unfolding eq
    by (auto simp: km kbind_Ret Let_def elim!: room_kfree split: if_splits)
qed

lemma room_promote:
  assumes ok: "vfs_ok arena v" and i: "i < length (vfs_files v)"
    and small: "vf_writable (vfs_files v ! i) \<or> vf_ro_size (vfs_files v ! i) < VFS_RW_MAX"
    and room: "room (VFS_RW_MAX + 64 + k) (vheap v)"
    and ret: "vfs_promote_writable v i = Ret (v', b)"
  shows "b" and "room k (vheap v')"
proof -
  let ?f = "vfs_files v ! i"
  have low: "room k (vheap v)" using room by (rule room_mono) simp
  have rw: "vf_rw_data ?f = 0 \<Longrightarrow> vf_rw_size ?f = 0"
    using vfs_okD(2) [OF ok i] by (simp add: file_ok_def rw_ok_def)
  consider "vf_writable ?f" "vf_rw_data ?f \<noteq> 0" | "vf_writable ?f" "vf_rw_data ?f = 0"
    | "\<not> vf_writable ?f" by blast
  then have "b \<and> room k (vheap v')"
  proof cases
    case 1
    with ret low show ?thesis by (auto simp: vfs_promote_writable_def)
  next
    case 2
    with ret have "vfs_ensure_rw_capacity v i (vf_rw_size ?f + 1) = Ret (v', b)"
      by (simp add: vfs_promote_writable_def)
    from room_ensure [OF ok _ room this] rw 2 show ?thesis by (simp add: VFS_RW_MAX_def)
  next
    case 3
    then have s: "vf_ro_size ?f + 1 \<le> VFS_RW_MAX" using small by auto
    obtain v1 c where e: "vfs_ensure_rw_capacity v i (vf_ro_size ?f + 1) = Ret (v1, c)"
      using vfs_ensure_spec [OF ok i] by blast
    note r = room_ensure [OF ok s room e]
    with 3 s ret e show ?thesis
      by (auto simp: vfs_promote_writable_def Let_def split: option.splits if_splits)
  qed
  then show "b" and "room k (vheap v')" by auto
qed

lemma vfs_alloc_room:
  assumes ok: "vfs_ok arena v"
    and slot: "vfs_find v p \<noteq> None \<or> (\<exists>f \<in> set (vfs_files v). \<not> vf_used f)"
    and small: "\<And>i. vfs_find v p = Some i \<Longrightarrow>
      vf_writable (vfs_files v ! i) \<or> vf_ro_size (vfs_files v ! i) < VFS_RW_MAX"
  shows "\<exists>v1 i. vfs_alloc v p = (v1, Some i) \<and> vheap v1 = vheap v
     \<and> (vf_writable (vfs_files v1 ! i) \<or> vf_ro_size (vfs_files v1 ! i) < VFS_RW_MAX)"
proof (cases "vfs_find v p")
  case (Some i)
  with small show ?thesis by (simp add: vfs_alloc_def)
next
  case None
  then obtain i where "find_index (\<lambda>f. \<not> vf_used f) (vfs_files v) = Some i"
    using slot find_index_ex [of "vfs_files v" "\<lambda>f. \<not> vf_used f"] by auto
  with None show ?thesis by (auto simp: vfs_alloc_def new_file_def dest: find_indexD)
qed


subsection \<open>The file store contract\<close>

text \<open>
  What the rest of the kernel relies on: a store of contents under normalised names.  A read
  is a lookup; a write either stores the first \<open>cap\<close> bytes or changes no existing file;
  a removal and a renaming do what they say and report whether the file was there.
\<close>

locale file_store =
  fixes inv :: "'v \<Rightarrow> bool"
    and abs :: "'v \<Rightarrow> string \<Rightarrow> u8 list option"
    and norm :: "string \<Rightarrow> string"
    and read :: "'v \<Rightarrow> string \<Rightarrow> (u8 list \<times> nat) option"
    and store :: "'v \<Rightarrow> string \<Rightarrow> u8 list \<Rightarrow> ('v \<times> bool) kresult"
    and touch :: "'v \<Rightarrow> string \<Rightarrow> ('v \<times> bool) kresult"
    and remove :: "'v \<Rightarrow> string \<Rightarrow> ('v \<times> bool) kresult"
    and rename :: "'v \<Rightarrow> string \<Rightarrow> string \<Rightarrow> ('v \<times> bool) kresult"
    and cap :: nat
  assumes norm_idem: "norm (norm p) = norm p"
    and read_abs: "inv v \<Longrightarrow> read v p = map_option (\<lambda>bs. (bs, length bs)) (abs v (norm p))"
    and write_abs: "inv v \<Longrightarrow> \<exists>v' b. store v p d = Ret (v', b) \<and> inv v'
      \<and> (if b then abs v' = (abs v)(norm p \<mapsto> take cap d)
         else abs v' = abs v \<or> abs v (norm p) = None \<and> abs v' = (abs v)(norm p \<mapsto> []))"
    and touch_abs: "inv v \<Longrightarrow> \<exists>v' b. touch v p = Ret (v', b) \<and> inv v'
      \<and> abs v' = (if b \<and> abs v (norm p) = None then (abs v)(norm p \<mapsto> []) else abs v)"
    and remove_abs: "inv v \<Longrightarrow> \<exists>v'. remove v p = Ret (v', abs v (norm p) \<noteq> None) \<and> inv v'
      \<and> abs v' = (abs v)(norm p := None)"
    and rename_abs: "inv v \<Longrightarrow> \<exists>v'. rename v p q = Ret (v', norm p = norm q \<or> abs v (norm p) \<noteq> None)
      \<and> inv v' \<and> abs v' = (if norm p = norm q \<or> abs v (norm p) = None then abs v
           else (abs v)(norm p := None, norm q := abs v (norm p)))"
begin

inductive step :: "'v \<Rightarrow> 'v \<Rightarrow> bool" where
  "store v p d = Ret (v', b) \<Longrightarrow> step v v'"
| "touch v p = Ret (v', b) \<Longrightarrow> step v v'"
| "remove v p = Ret (v', b) \<Longrightarrow> step v v'"
| "rename v p q = Ret (v', b) \<Longrightarrow> step v v'"

lemma step_inv: "step v v' \<Longrightarrow> inv v \<Longrightarrow> inv v'"
proof (induction rule: step.induct)
  case (1 v p d v' b)
  with write_abs [of v p d] show ?case by auto
next
  case (2 v p v' b)
  with touch_abs [of v p] show ?case by auto
next
  case (3 v p v' b)
  with remove_abs [of v p] show ?case by auto
next
  case (4 v p q v' b)
  with rename_abs [of v p q] show ?case by auto
qed

lemma steps_inv: "step\<^sup>*\<^sup>* v v' \<Longrightarrow> inv v \<Longrightarrow> inv v'"
  by (induction rule: rtranclp_induct) (auto intro: step_inv)

text \<open>A successful write is what the next read of any spelling of the path returns, and
  every other path reads as before.\<close>

lemma read_after_write:
  assumes "inv v" and "store v p d = Ret (v', True)"
  shows "read v' q = (if norm q = norm p then Some (take cap d, min (length d) cap) else read v q)"
proof -
  have "inv v'" "abs v' = (abs v)(norm p \<mapsto> take cap d)" using write_abs [OF assms(1), of p d] assms(2) by auto
  with assms(1) show ?thesis by (simp add: read_abs)
qed

text \<open>A failed write loses nothing.\<close>

lemma read_after_failed_write:
  assumes "inv v" and "store v p d = Ret (v', False)" and "read v q \<noteq> None"
  shows "read v' q = read v q"
proof -
  have "inv v'" "abs v' = abs v \<or> abs v (norm p) = None \<and> abs v' = (abs v)(norm p \<mapsto> [])"
    using write_abs [OF assms(1), of p d] assms(2) by auto
  with assms(1,3) show ?thesis by (auto simp: read_abs)
qed

lemma read_after_rename:
  assumes "inv v" and "rename v p q = Ret (v', True)" and "norm p \<noteq> norm q"
  shows "read v' q = read v p" and "read v' p = None"
    and "norm r \<noteq> norm p \<Longrightarrow> norm r \<noteq> norm q \<Longrightarrow> read v' r = read v r"
proof -
  have "inv v'" "abs v' = (abs v)(norm p := None, norm q := abs v (norm p))" "abs v (norm p) \<noteq> None"
    using rename_abs [OF assms(1), of p q] assms(2,3) by auto
  with assms(1,3) show "read v' q = read v p" "read v' p = None"
    "norm r \<noteq> norm p \<Longrightarrow> norm r \<noteq> norm q \<Longrightarrow> read v' r = read v r"
    by (auto simp: read_abs)
qed

text \<open>Writing a file and removing it again: no file that was there has changed.\<close>

lemma write_remove:
  assumes "inv v" and "read v p = None" and "store v p d = Ret (v', True)"
  shows "\<exists>v''. remove v' p = Ret (v'', True) \<and> read v'' = read v"
proof -
  have w: "inv v'" "abs v' = (abs v)(norm p \<mapsto> take cap d)" using write_abs [OF assms(1), of p d] assms(3) by auto
  then obtain v'' where v'': "remove v' p = Ret (v'', True)" "inv v''" "abs v'' = (abs v')(norm p := None)"
    using remove_abs [of v' p] by auto
  have "abs v (norm p) = None" using assms(1,2) by (simp add: read_abs)
  then have "abs v'' = abs v" using v'' w by (auto simp: fun_eq_iff)
  with v'' assms(1) show ?thesis by (auto simp: read_abs fun_eq_iff)
qed

end

subsection \<open>The kernel table meets the contract\<close>

interpretation vs: file_store "vfs_ok arena" vfs_abs norm_path vfs_read
  "\<lambda>v p d. vfs_write_bytes v p (Some d) (length d)" vfs_touch vfs_remove vfs_rename 65535
  for arena :: nat
proof (unfold_locales, goal_cases)
  case (1 p) then show ?case by simp
next
  case (2 v p) then show ?case by (rule vfs_read_spec)
next
  case (3 v p d)
  obtain v' b where "vfs_write_bytes v p (Some d) (length d) = Ret (v', b)" "vfs_ok arena v'"
      "if b then vfs_abs v' = (vfs_abs v)(norm_path p \<mapsto> take (min (length d) 65535) d)
       else vfs_abs v' \<in> {vfs_abs v, touched (vfs_abs v) (norm_path p)}"
    using vfs_write_bytes_spec [OF 3, of "Some d" "length d" p] unfolding option.case by auto
  moreover have "take (min (length d) 65535) d = take 65535 d" by (simp add: min_def)
  ultimately show ?case
    by (intro exI [of _ v'] exI [of _ b]) (auto simp: touched_def split: if_splits)
next
  case (4 v p)
  obtain v' b where "vfs_touch v p = Ret (v', b)" "vfs_ok arena v'"
      "if b then vfs_abs v' = touched (vfs_abs v) (norm_path p) else vfs_abs v' = vfs_abs v"
    using vfs_touch_spec [OF 4, of p] by blast
  then show ?case
    by (intro exI [of _ v'] exI [of _ b]) (auto simp: touched_def split: if_splits)
next
  case (5 v p) then show ?case using vfs_remove_spec [of arena v p] by blast
next
  case (6 v p q) then show ?case using vfs_rename_spec [of arena v p q] by blast
qed

subsection \<open>The first table\<close>

lemma vfs_ok_unused:
  assumes "heap_ok arena (vheap v)" and "vfs_files v = replicate n empty_file" and "g_vfs_count v = 0"
  shows "vfs_ok arena v"
  using assms by (auto simp: vfs_ok_def file_ok_def ro_ok_def rw_ok_def empty_file_def
      keys_distinct_def count_slots_def)

lemma vfs_ok_init: "heap_ok arena h \<Longrightarrow> vfs_ok arena (vfs_init h)"
  by (rule vfs_ok_unused [where n = VFS_MAX_FILES]) (simp_all add: vfs_init_def)

lemma vfs_abs_init: "vfs_abs (vfs_init h) = Map.empty"
proof -
  have "find_index (\<lambda>f. vf_used f \<and> vf_path f = q) (replicate n empty_file) = None" for q n
    by (simp add: find_index_None empty_file_def)
  then show ?thesis by (simp add: vfs_abs_def vfs_init_def fun_eq_iff)
qed

text \<open>A table of two slots over a fresh heap at address 4096, for the concrete instances.\<close>

definition small_table :: vfs where
  "small_table = (vfs_init (heap_init 4096 (\<lambda>_. 0)))\<lparr> vfs_files := [empty_file, empty_file] \<rparr>"

lemma small_table_ok: "vfs_ok 4096 small_table"
  by (rule vfs_ok_unused [where n = 2])
    (simp_all add: small_table_def vfs_init_def heap_ok_init numeral_2_eq_2)

subsection \<open>Properties\<close>

text \<open>\<open>vfs_write\<close> on a good table returns (no panic) with a good table.  When it reports
  success the file named by the normalised path holds exactly the text, cut at 65535 bytes,
  and every other path is as before; when it reports failure no existing file has changed.\<close>

theorem vfs_write_refines:
  assumes "vfs_ok arena v"
  shows "\<exists>v' b. vfs_write v p text = Ret (v', b) \<and> vfs_ok arena v'
     \<and> (if b then vfs_abs v' = (vfs_abs v)(norm_path p \<mapsto> take 65535 (bytes_of (cstr text)))
        else vfs_abs v' \<in> {vfs_abs v, touched (vfs_abs v) (norm_path p)})"
  using vfs_write_spec [OF assms] by blast

theorem vfs_write_refines_witness:
  "\<exists>v' b. vfs_write small_table ''home/a'' ''hi'' = Ret (v', b) \<and> vfs_ok 4096 v'
     \<and> (if b then vfs_abs v' = (vfs_abs small_table)(norm_path ''home/a'' \<mapsto> take 65535 (bytes_of (cstr ''hi'')))
        else vfs_abs v' \<in> {vfs_abs small_table, touched (vfs_abs small_table) (norm_path ''home/a'')})"
  by (rule vfs_write_refines [OF small_table_ok])

text \<open>C20: \<open>vfs_rename\<close> never panics and moves the contents: it reports success exactly when
  the two paths are the same or the source exists, and then the target (an old file of that
  name is released) has the contents of the source, the source is gone and every other path
  is as before.\<close>

theorem vfs_rename_refines:
  assumes "vfs_ok arena v"
  shows "\<exists>v'. vfs_rename v src dst
        = Ret (v', norm_path src = norm_path dst \<or> vfs_abs v (norm_path src) \<noteq> None)
     \<and> vfs_ok arena v'
     \<and> vfs_abs v' =
         (if norm_path src = norm_path dst \<or> vfs_abs v (norm_path src) = None then vfs_abs v
          else (vfs_abs v)(norm_path src := None, norm_path dst := vfs_abs v (norm_path src)))"
  by (rule vs.rename_abs [OF assms])

theorem vfs_rename_refines_witness:
  "\<exists>v'. vfs_rename small_table ''/a'' ''/b''
        = Ret (v', norm_path ''/a'' = norm_path ''/b'' \<or> vfs_abs small_table (norm_path ''/a'') \<noteq> None)
     \<and> vfs_ok 4096 v'
     \<and> vfs_abs v' =
         (if norm_path ''/a'' = norm_path ''/b'' \<or> vfs_abs small_table (norm_path ''/a'') = None
          then vfs_abs small_table
          else (vfs_abs small_table)(norm_path ''/a'' := None,
                  norm_path ''/b'' := vfs_abs small_table (norm_path ''/a'')))"
  by (rule vfs_rename_refines [OF small_table_ok])

text \<open>\<open>vfs_write\<close> does not fail for want of trying: when the path exists or a slot is
  free, an existing read-only file is below the overlay limit, and the heap has one free
  block of 131200 bytes, the write reports success and the file reads back as the text.\<close>

theorem vfs_write_succeeds:
  assumes ok: "vfs_ok arena v"
    and slot: "vfs_find v p \<noteq> None \<or> (\<exists>f \<in> set (vfs_files v). \<not> vf_used f)"
    and small: "\<And>i. vfs_find v p = Some i \<Longrightarrow>
      vf_writable (vfs_files v ! i) \<or> vf_ro_size (vfs_files v ! i) < VFS_RW_MAX"
    and room: "room 131200 (vheap v)"
  shows "\<exists>v'. vfs_write v p t = Ret (v', True)
     \<and> vfs_read v' p = Some (take 65535 (bytes_of (cstr t)), min 65535 (k_strlen t))"
proof -
  obtain v1 i where a: "vfs_alloc v p = (v1, Some i)" "vheap v1 = vheap v"
      "vf_writable (vfs_files v1 ! i) \<or> vf_ro_size (vfs_files v1 ! i) < VFS_RW_MAX"
    using vfs_alloc_room [OF ok slot small] by blast
  have s: "vfs_ok arena v1" "i < length (vfs_files v1)" "vf_used (vfs_files v1 ! i)"
    using vfs_alloc_spec(2) [OF ok a(1)] by auto
  have "room (VFS_RW_MAX + 64 + (VFS_RW_MAX + 64 + 0)) (vheap v1)"
    using room_mono [OF room, of 131200] a(2) by (simp add: VFS_RW_MAX_def)
  note rp = room_promote [OF s(1,2) a(3) this]
  obtain v2 b where pr: "vfs_promote_writable v1 i = Ret (v2, b)"
    and pr2: "if b then slot_step arena v1 i v2 \<and> vfs_abs v2 = vfs_abs v1
          \<and> vf_writable (vfs_files v2 ! i) \<and> vf_rw_data (vfs_files v2 ! i) \<noteq> 0 else v2 = v1"
    using vfs_promote_spec [OF s] by blast
  from rp [OF pr] pr2 have b: "b" "room (VFS_RW_MAX + 64 + 0) (vheap v2)" "vfs_ok arena v2"
    by (auto simp: slot_step_def)
  have put: "\<exists>v3. put_bytes v2 i data = Ret (v3, True)" if "length data < VFS_RW_MAX" for data
  proof -
    obtain v3 c where e: "vfs_ensure_rw_capacity v2 i (length data + 1) = Ret (v3, c)"
      using vfs_ensure_spec [OF b(3), of i] pr2 b(1) s(2) by (fastforce simp: slot_step_def)
    have c using room_ensure(1) [OF b(3) _ b(2) e] that by simp
    with e show ?thesis by (simp add: put_bytes_def Let_def)
  qed
  define len where "len = (if k_strlen t \<ge> VFS_RW_MAX then VFS_RW_MAX - 1 else k_strlen t)"
  have "length (take len (bytes_of t)) < VFS_RW_MAX" by (auto simp: len_def VFS_RW_MAX_def)
  then obtain v3 where "put_bytes v2 i (take len (bytes_of t)) = Ret (v3, True)" using put by blast
  then have w: "vfs_write v p t = Ret (v3, True)"
    using a(1) pr b(1) by (simp add: vfs_write_def Let_def len_def)
  have "vfs_ok arena v3" "vfs_abs v3 = (vfs_abs v)(norm_path p \<mapsto> take 65535 (bytes_of (cstr t)))"
    using vfs_write_spec [OF ok, of p t] w by auto
  with vfs_read_spec [of arena v3 p] w show ?thesis
    by (simp add: bytes_of_def k_strlen_cstr min.commute)
qed

theorem vfs_write_succeeds_witness:
  "\<exists>v'. vfs_write small_table ''/a'' ''hi'' = Ret (v', True)
     \<and> vfs_read v' ''/a'' = Some (take 65535 (bytes_of (cstr ''hi'')), min 65535 (k_strlen ''hi''))"
proof (rule vfs_write_succeeds [OF small_table_ok])
  show "vfs_find small_table ''/a'' \<noteq> None \<or> (\<exists>f \<in> set (vfs_files small_table). \<not> vf_used f)"
    by (simp add: small_table_def empty_file_def)
  show "vf_writable (vfs_files small_table ! i) \<or> vf_ro_size (vfs_files small_table ! i) < VFS_RW_MAX"
    if "vfs_find small_table ''/a'' = Some i" for i
    using that by (auto simp: small_table_def vfs_find_def empty_file_def)
  show "room 131200 (vheap small_table)"
    by (simp add: room_def small_table_def vfs_init_def heap_init_def HEAP_SIZE_def HDR_def)
qed



end
