(* ===== verification/KInitrd.thy ===== *)
theory KInitrd
  imports KVfsOps
begin

text \<open>
  Mounting the initial ram disk (a tar image) and listing a directory, from
  \<^verbatim>\<open>src/kernel/vfs_sched.c\<close>.  The image is its list of bytes and a pointer into it an
  offset; a read past the end yields 0.
\<close>

subsection \<open>The tar header\<close>

text \<open>Field offsets of the packed header: name 0, size 124, typeflag 156, prefx 345; the
  structure is 512 bytes.\<close>

definition tar_str :: "u8 list \<Rightarrow> nat \<Rightarrow> string" where
  "tar_str img off = map (\<lambda>b. char_of (unat b)) (drop off img)"

text \<open>The two copy loops: copy up to the terminator or until the buffer is full, and tell
  whether something is left.\<close>

fun tar_copy :: "string \<Rightarrow> string \<Rightarrow> string \<times> bool" where
  "tar_copy path [] = (path, False)"
| "tar_copy path (c # s) =
     (if c = NUL then (path, False)
      else if length path + 1 < VFS_MAX_PATH then tar_copy (path @ [c]) s
      else (path, True))"

definition tar_path :: "u8 list \<Rightarrow> nat \<Rightarrow> string \<times> bool" where
  "tar_path img ptr =
     (let prefx = tar_str img (ptr + 345);
          name0 = tar_str img ptr;
          name = (if chr_at name0 0 = CHR ''.'' \<and> chr_at name0 1 = CHR ''/'' then drop 2 name0 else name0);
          (p1, t1) =
            (if chr_at prefx 0 \<noteq> NUL
             then (let (p, t) = tar_copy ''/'' prefx
                   in if last p \<noteq> CHR ''/''
                      then (if length p + 1 < VFS_MAX_PATH then (p @ ''/'', t) else (p, True))
                      else (p, t))
             else (''/'', False));
          (p2, t2) = tar_copy p1 name
      in (p2, t1 \<or> t2))"

definition mount_file :: "vfs \<Rightarrow> string \<Rightarrow> u8 list \<Rightarrow> nat \<Rightarrow> vfs kresult" where
  "mount_file v path data sz =
     (case vfs_alloc v path of
        (v1, None) \<Rightarrow> Ret (v1\<lparr> mount_dropped_slots := mount_dropped_slots v1 + 1 \<rparr>)
      | (v1, Some i) \<Rightarrow>
          (let f = vfs_files v1 ! i
           in kbind (if vf_rw_data f \<noteq> 0 then kfree (vheap v1) (vf_rw_data f) else Ret (vheap v1)) (\<lambda>h.
                Ret (v1\<lparr> vfs_files := (vfs_files v1)[i := f\<lparr> vf_writable := False, vf_ro_data := Some data,
                             vf_ro_size := sz, vf_rw_data := 0, vf_rw_cap := 0, vf_rw_size := 0 \<rparr>],
                         vheap := h \<rparr>))))"

definition tar_entry :: "u8 list \<Rightarrow> nat \<Rightarrow> u32 \<Rightarrow> vfs \<Rightarrow> vfs kresult" where
  "tar_entry img ptr sz v =
     (let flag = chr_at (tar_str img ptr) 156
      in if (flag = CHR ''0'' \<or> flag = NUL) \<and> chr_at (tar_str img ptr) 0 \<noteq> NUL
         then (case tar_path img ptr of
                 (path, True) \<Rightarrow> Ret (v\<lparr> mount_dropped_paths := mount_dropped_paths v + 1 \<rparr>)
               | (path, False) \<Rightarrow> mount_file v path (take (unat sz) (drop (ptr + 512) img)) (unat sz))
         else Ret v)"

text \<open>Each round moves the pointer by at least one header, so the loop ends.\<close>

function mount_loop :: "u8 list \<Rightarrow> nat \<Rightarrow> vfs \<Rightarrow> vfs kresult" where
  "mount_loop img ptr v =
     (if ptr + 512 \<le> length img
      then (if \<forall>b \<in> set (take 512 (drop ptr img)). b = 0 then Ret v
            else (let sz = parse_octal (tar_str img (ptr + 124)) 12;
                      fd = ptr + 512;
                      aligned = (sz + 511) AND NOT 511
                  in kbind (tar_entry img ptr sz v) (\<lambda>v1.
                       if fd + unat aligned > length img then Ret v1
                       else mount_loop img (fd + unat aligned) v1)))
      else Ret v)"
  by pat_completeness auto
termination
  by (relation "measure (\<lambda>(img, ptr, v). length img - ptr)") auto

declare mount_loop.simps [simp del]

definition vfs_mount_initrd :: "vfs \<Rightarrow> u8 list \<Rightarrow> vfs kresult" where
  "vfs_mount_initrd v img = mount_loop img 0 v"

subsection \<open>Listing a directory\<close>

function vfs_list_has_name :: "string \<Rightarrow> string \<Rightarrow> bool" where
  "vfs_list_has_name ls name =
     (if ls = [] then False
      else if takeWhile (\<lambda>c. c \<noteq> CHR 0x0A) ls = name then True
      else vfs_list_has_name (drop 1 (dropWhile (\<lambda>c. c \<noteq> CHR 0x0A) ls)) name)"
  by pat_completeness auto
termination
proof (relation "measure (\<lambda>(ls, name). length ls)", goal_cases)
  case 1
  then show ?case by simp
next
  case (2 ls name)
  have "length (dropWhile (\<lambda>c. c \<noteq> CHR 0x0A) ls) \<le> length ls" by (rule length_dropWhile_le)
  with 2 show ?case by (cases ls) auto
qed

declare vfs_list_has_name.simps [simp del]

text \<open>The name a table entry contributes; \<open>None\<close> is a \<open>continue\<close>.\<close>

definition list_entry :: "string \<Rightarrow> string \<Rightarrow> string \<Rightarrow> string option" where
  "list_entry norm prefx path =
     (let rest =
        (if k_strcmp norm ''/'' = 0
         then (if chr_at path 0 \<noteq> CHR ''/'' then None else Some (drop 1 path))
         else if \<not> k_starts_with path prefx then None
         else Some (drop (length prefx) path))
      in case rest of
           None \<Rightarrow> None
         | Some r \<Rightarrow>
             (let name = take (VFS_MAX_PATH - 1) (takeWhile (\<lambda>c. c \<noteq> NUL \<and> c \<noteq> CHR ''/'') r)
              in if name = [] then None else Some name))"

fun list_loop :: "string \<Rightarrow> string \<Rightarrow> nat \<Rightarrow> string \<Rightarrow> vfs_file list \<Rightarrow> string" where
  "list_loop norm prefx cap out [] = out"
| "list_loop norm prefx cap out (f # fs) =
     (if \<not> vf_used f then list_loop norm prefx cap out fs
      else (case list_entry norm prefx (vf_path f) of
          None \<Rightarrow> list_loop norm prefx cap out fs
        | Some name \<Rightarrow>
            if vfs_list_has_name out name then list_loop norm prefx cap out fs
            else if length out + length name + 2 > cap then out
            else list_loop norm prefx cap
                   ((if out \<noteq> [] then out @ [CHR 0x0A] else out) @ name) fs))"

text \<open>\<open>out\<close> is not null in the calls modelled; \<open>None\<close> is the result \<open>false\<close>.\<close>

definition kvfs_listdir :: "vfs \<Rightarrow> string option \<Rightarrow> nat \<Rightarrow> string option" where
  "kvfs_listdir v dir out_cap =
     (if out_cap = 0 then None
      else (let d = (case dir of None \<Rightarrow> ''/'' | Some s \<Rightarrow> (if chr_at s 0 = NUL then ''/'' else s));
                norm = norm_path d;
                dl = k_strlen norm;
                prefx = (if k_strcmp norm ''/'' \<noteq> 0 \<and> dl + 1 < VFS_MAX_PATH \<and> chr_at norm (dl - 1) \<noteq> CHR ''/''
                          then norm @ ''/'' else norm)
            in Some (list_loop norm prefx out_cap [] (vfs_files v))))"

subsection \<open>Copying names\<close>

lemma tar_copy_eq:
  "length path \<le> 255 \<Longrightarrow>
     tar_copy path s = (path @ take (255 - length path) (cstr s), 255 - length path < length (cstr s))"
proof (induction path s rule: tar_copy.induct)
  case (1 path)
  then show ?case by simp
next
  case (2 path c s)
  then show ?case
    by (cases "length path = 255") (auto simp: cstr_Cons VFS_MAX_PATH_def Suc_diff_Suc take_Cons')
qed

subsection \<open>One entry\<close>

lemma mount_file_spec:
  assumes ok: "vfs_ok arena v" and sz: "length data = sz"
    and slot: "count_slots vf_used (vfs_files v) < length (vfs_files v)"
  shows "\<exists>v'. mount_file v p data sz = Ret v' \<and> vfs_ok arena v'
     \<and> vfs_abs v' = (vfs_abs v)(norm_path p \<mapsto> data)
     \<and> length (vfs_files v') = length (vfs_files v)
     \<and> count_slots vf_used (vfs_files v') \<le> Suc (count_slots vf_used (vfs_files v))"
proof -
  have "\<exists>f \<in> set (vfs_files v). \<not> vf_used f"
  proof (rule ccontr)
    assume "\<not> ?thesis"
    then have "filter vf_used (vfs_files v) = vfs_files v" by (simp add: filter_id_conv)
    with slot show False by (simp add: count_slots_def)
  qed
  then obtain k where "find_index (\<lambda>f. \<not> vf_used f) (vfs_files v) = Some k"
    using find_index_ex [of "vfs_files v" "\<lambda>f. \<not> vf_used f"] by auto
  then obtain v1 i where a: "vfs_alloc v p = (v1, Some i)"
    by (cases "vfs_find v p") (auto simp: vfs_alloc_def)
  have s: "vfs_ok arena v1" "i < length (vfs_files v1)" "length (vfs_files v1) = length (vfs_files v)"
      "vf_used (vfs_files v1 ! i)" "vf_path (vfs_files v1 ! i) = norm_path p"
      "vfs_abs v1 = touched (vfs_abs v) (norm_path p)"
    using vfs_alloc_spec(2) [OF ok a refl] by auto
  have g: "g_vfs_count v1 \<le> Suc (g_vfs_count v)"
    using a by (auto simp: vfs_alloc_def split: option.splits)
  define f where "f = vfs_files v1 ! i"
  obtain h where h: "(if vf_rw_data f \<noteq> 0 then kfree (vheap v1) (vf_rw_data f) else Ret (vheap v1)) = Ret h"
      "heap_ok arena h" "keeps (vheap v1) h (vf_rw_data f)"
    using release_overlay [OF s(1,2)] unfolding f_def by blast
  define f' where "f' = f\<lparr> vf_writable := False, vf_ro_data := Some data,
                             vf_ro_size := sz, vf_rw_data := 0, vf_rw_cap := 0, vf_rw_size := 0 \<rparr>"
  define v' where "v' = v1\<lparr> vfs_files := (vfs_files v1)[i := f'], vheap := h \<rparr>"
  have ret: "mount_file v p data sz = Ret v'"
    using a h(1) by (auto simp: mount_file_def f_def [symmetric] f'_def v'_def kbind_Ret Let_def
        split: if_splits)
  have fs: "vfs_files v' = (vfs_files v1)[i := f']" and hp: "vheap v' = h" by (simp_all add: v'_def)
  have "file_ok (vheap v1) f" using vfs_okD(2) [OF s(1,2)] by (simp add: f_def)
  then have f': "vf_used f'" "vf_path f' = norm_path p" "vf_rw_data f' = 0" "file_ok (vheap v') f'"
      "file_bytes m f' = data" for m
    using s(4,5) sz by (simp_all add: f'_def f_def file_ok_def ro_ok_def rw_ok_def file_bytes_def)
  have cnt: "g_vfs_count v' = count_slots vf_used (vfs_files v')"
    using count_slots_same [OF s(2), of vf_used f'] f'(1) s(4) vfs_okD(5) [OF s(1)] by (simp add: v'_def)
  have hh: "heap_ok arena (vheap v')" "keeps (vheap v1) (vheap v') (vf_rw_data (vfs_files v1 ! i))"
    using h by (simp_all add: hp f_def)
  have key: "find_index (\<lambda>f. vf_used f \<and> vf_path f = vf_path f') (vfs_files v1) = Some i"
    by (rule find_slot_of_path [OF vfs_okD(3) [OF s(1)] s(2,4)]) (simp add: s(5) f'(2))
  note sc = slot_change [OF s(1,2) hh fs f'(4) _ _ cnt]
  have ok': "vfs_ok arena v'" by (rule sc(1)) (use f' key in auto)
  have "vfs_abs v' = (let base = (if vf_used (vfs_files v1 ! i) then (vfs_abs v1)(vf_path (vfs_files v1 ! i) := None)
                   else vfs_abs v1)
       in if vf_used f' then base(vf_path f' \<mapsto> file_bytes (hmem (vheap v')) f') else base)"
    by (rule sc(2)) (use f' key in auto)
  then have "vfs_abs v' = (vfs_abs v)(norm_path p \<mapsto> data)"
    using f' s by (auto simp: touched_def fun_eq_iff)
  moreover have "g_vfs_count v' = g_vfs_count v1" by (simp add: v'_def)
  ultimately show ?thesis using ret ok' g cnt vfs_okD(5) [OF ok] s(3) fs by auto
qed

subsection \<open>An archive writer\<close>

text \<open>The reference format: a header with the name, the size in eleven octal digits and the
  type \<open>0\<close>, the contents, zeroes up to the next multiple of 512; an all-zero block ends it.\<close>

definition octal_digits :: "nat \<Rightarrow> nat \<Rightarrow> nat list" where
  "octal_digits k n = map (\<lambda>i. n div 8 ^ i mod 8) (rev [0..<k])"

definition tar_header :: "string \<Rightarrow> nat \<Rightarrow> u8 list" where
  "tar_header name n =
     bytes_of (name @ replicate (124 - length name) NUL
       @ map digit_char (octal_digits 11 n) @ replicate 21 NUL @ ''0'' @ replicate 355 NUL)"

definition tar_pad :: "nat \<Rightarrow> nat" where
  "tar_pad n = (n + 511) div 512 * 512 - n"

definition tar_member :: "string \<times> u8 list \<Rightarrow> u8 list" where
  "tar_member e = tar_header (fst e) (length (snd e)) @ snd e @ replicate (tar_pad (length (snd e))) 0"

definition tar_archive :: "(string \<times> u8 list) list \<Rightarrow> u8 list" where
  "tar_archive es = concat (map tar_member es) @ replicate 512 0"

definition member_ok :: "string \<times> u8 list \<Rightarrow> bool" where
  "member_ok e \<longleftrightarrow> wf_cstr (fst e) \<and> fst e \<noteq> [] \<and> length (fst e) < 100 \<and> length (snd e) < 2 ^ 32 - 511"

text \<open>The path a member gets.\<close>

definition member_path :: "string \<Rightarrow> string" where
  "member_path name =
     CHR ''/'' # (if take 2 name = ''./'' then drop 2 name else name)"

lemma octal_foldl:
  "foldl (\<lambda>a d. a * 8 + of_nat d) v (octal_digits k n) = v * 8 ^ k + (of_nat (n mod 8 ^ k) :: 'a::comm_semiring_1)"
proof (induction k arbitrary: v)
  case 0
  then show ?case by (simp add: octal_digits_def)
next
  case (Suc k)
  have "n mod 8 ^ Suc k = 8 ^ k * (n div 8 ^ k mod 8) + n mod 8 ^ k"
    by (simp add: mod_mult2_eq mult.commute [of 8])
  then have m: "(of_nat (n mod 8 ^ Suc k) :: 'a) = 8 ^ k * of_nat (n div 8 ^ k mod 8) + of_nat (n mod 8 ^ k)"
    by (simp only: of_nat_add of_nat_mult of_nat_power of_nat_numeral)
  have "octal_digits (Suc k) n = (n div 8 ^ k mod 8) # octal_digits k n"
    by (simp add: octal_digits_def)
  then have "foldl (\<lambda>a d. a * 8 + of_nat d) v (octal_digits (Suc k) n)
      = (v * 8 + of_nat (n div 8 ^ k mod 8)) * 8 ^ k + (of_nat (n mod 8 ^ k) :: 'a)"
    by (simp only: foldl_Cons Suc)
  then show ?case by (simp only: m) (simp add: algebra_simps)
qed

lemma parse_octal_digits:
  assumes "n < 2 ^ 32"
  shows "parse_octal (map digit_char (octal_digits 11 n) @ NUL # s) 12 = of_nat n"
proof -
  have len: "length (octal_digits 11 n) = 11" by (simp add: octal_digits_def)
  have small: "\<forall>d \<in> set (octal_digits 11 n). d < 8" by (auto simp: octal_digits_def)
  have app: "octal_loop v (map digit_char ds @ NUL # t) = octal_loop v (map digit_char ds)" for v ds t
    by (induction ds arbitrary: v) auto
  have "parse_octal (map digit_char (octal_digits 11 n) @ NUL # s) 12
      = octal_loop 0 (map digit_char (octal_digits 11 n) @ NUL # take 0 s)"
    by (simp add: parse_octal_def len)
  also have "\<dots> = foldl (\<lambda>a d. a * 8 + of_nat d) 0 (octal_digits 11 n)"
    by (simp only: app octal_loop_value [OF small])
  also have "\<dots> = of_nat n"
    using assms by (simp add: octal_foldl)
  finally show ?thesis .
qed

lemma align_up:
  assumes "n < 2 ^ 32 - 511"
  shows "unat ((of_nat n + 511 :: u32) AND NOT 511) = n + tar_pad n"
proof -
  have m: "(511 :: u32) = mask 9" by (simp add: mask_eq_exp_minus_1)
  have n: "unat (of_nat n + 511 :: u32) = n + 511"
    using assms by (subst unat_add_no_wrap) (auto simp: unat_of_nat)
  have "unat ((of_nat n + 511 :: u32) AND NOT 511) = (n + 511) div 512 * 512"
    unfolding m unat_and_not_mask by (simp add: n mask_eq_exp_minus_1)
  then show ?thesis by (simp add: tar_pad_def)
qed


subsection \<open>Mounting what the writer wrote\<close>

lemma length_tar_header [simp]: "length name < 100 \<Longrightarrow> length (tar_header name n) = 512"
  by (simp add: tar_header_def octal_digits_def)

lemma char_of_bytes: "map (\<lambda>b. char_of (unat b)) (bytes_of s) = s"
proof -
  have "char_of (unat (of_char c :: u8)) = c" for c
  proof -
    have "(of_char c :: u8) = of_nat (of_char c)" by (rule of_nat_of_char [symmetric])
    then have "unat (of_char c :: u8) = take_bit 8 (of_char c)"
      by (simp only: unat_of_nat take_bit_eq_mod) simp
    then show ?thesis by (simp add: char_of_take_bit_eq)
  qed
  then show ?thesis by (simp add: bytes_of_def o_def)
qed

text \<open>The header fields, read back from an image that has the header at \<open>length pre\<close>.\<close>

lemma tar_str_header:
  assumes "k \<le> 512" and "length name < 100"
  shows "\<exists>t. tar_str (pre @ tar_header name n @ rest) (length pre + k)
    = drop k (name @ replicate (124 - length name) NUL
       @ map digit_char (octal_digits 11 n) @ replicate 21 NUL @ ''0'' @ replicate 355 NUL) @ t"
proof -
  let ?h = "name @ replicate (124 - length name) NUL
       @ map digit_char (octal_digits 11 n) @ replicate 21 NUL @ ''0'' @ replicate 355 NUL"
  have "drop (length pre + k) (pre @ tar_header name n @ rest) = drop k (bytes_of ?h) @ rest"
    using assms by (simp add: tar_header_def octal_digits_def drop_append)
  then have "tar_str (pre @ tar_header name n @ rest) (length pre + k)
      = drop k (map (\<lambda>b. char_of (unat b)) (bytes_of ?h)) @ map (\<lambda>b. char_of (unat b)) rest"
    by (simp add: tar_str_def drop_map)
  then show ?thesis by (simp only: char_of_bytes) blast
qed

lemma cstr_pad: "wf_cstr s \<Longrightarrow> cstr (s @ replicate (Suc k) NUL @ t) = s"
  by (induction s) (auto simp: cstr_Cons)

lemma header_fields:
  fixes pre rest :: "u8 list"
  assumes "wf_cstr name" and "name \<noteq> []" and "length name < 100" and "n < 2 ^ 32"
  defines "img \<equiv> pre @ tar_header name n @ rest" and "ptr \<equiv> length pre"
  shows "cstr (tar_str img ptr) = name" and "chr_at (tar_str img ptr) 0 \<noteq> NUL"
    and "take 2 (tar_str img ptr) = take 2 (name @ [NUL])"
    and "cstr (drop 2 (tar_str img ptr)) = drop 2 name"
    and "chr_at (tar_str img ptr) 156 = CHR ''0''"
    and "chr_at (tar_str img (ptr + 345)) 0 = NUL"
    and "parse_octal (tar_str img (ptr + 124)) 12 = of_nat n"
proof -
  let ?h = "name @ replicate (124 - length name) NUL
       @ map digit_char (octal_digits 11 n) @ replicate 21 NUL @ ''0'' @ replicate 355 NUL"
  have len: "length (octal_digits 11 n) = 11" by (simp add: octal_digits_def)
  obtain t where t: "tar_str img ptr = ?h @ t"
    using tar_str_header [of 0 name pre n rest] assms(3) by (auto simp: img_def ptr_def)
  obtain j where j: "124 - length name = Suc j" using assms(3) by (cases "124 - length name") auto
  show "cstr (tar_str img ptr) = name"
    unfolding t j using cstr_pad [OF assms(1)] by simp
  show "chr_at (tar_str img ptr) 0 \<noteq> NUL"
    using assms(1,2) by (cases name) (simp_all add: t)
  show "take 2 (tar_str img ptr) = take 2 (name @ [NUL])"
  proof -
    obtain c cs where c: "name = c # cs" using assms(2) by (cases name) auto
    then show ?thesis by (cases cs) (auto simp: t j [simplified c] numeral_2_eq_2)
  qed
  show "cstr (drop 2 (tar_str img ptr)) = drop 2 name"
  proof (cases "length name \<le> 2")
    case True
    with cstr_pad [of "[]" 121] show ?thesis by (simp add: t)
  next
    case False
    with cstr_pad [of "drop 2 name" j] assms(1) show ?thesis by (simp add: t j wf_cstr_drop)
  qed
  show "chr_at (tar_str img ptr) 156 = CHR ''0''"
    using assms(3) len by (auto simp: t chr_at_def nth_append)
  obtain t where t: "tar_str img (ptr + 345) = drop 345 ?h @ t"
    using tar_str_header [of 345 name pre n rest] assms(3) by (auto simp: img_def ptr_def)
  have "drop 345 ?h = replicate 167 NUL" using assms(3) len by simp
  then have "tar_str img (ptr + 345) = replicate 167 NUL @ t" by (simp only: t)
  then show "chr_at (tar_str img (ptr + 345)) 0 = NUL" by (simp add: chr_at_def nth_append)
  obtain t where t: "tar_str img (ptr + 124) = drop 124 ?h @ t"
    using tar_str_header [of 124 name pre n rest] assms(3) by (auto simp: img_def ptr_def)
  have "drop 124 ?h = map digit_char (octal_digits 11 n) @ NUL # replicate 20 NUL @ ''0'' @ replicate 355 NUL"
    using assms(3) by (simp add: numeral_eq_Suc)
  then have "tar_str img (ptr + 124) = map digit_char (octal_digits 11 n)
      @ NUL # (replicate 20 NUL @ ''0'' @ replicate 355 NUL @ t)"
    by (simp only: t append_assoc append_Cons)
  then show "parse_octal (tar_str img (ptr + 124)) 12 = of_nat n"
    using parse_octal_digits [OF assms(4)] by simp
qed

lemma tar_path_member:
  assumes "member_ok (name, d)"
  shows "tar_path (pre @ tar_header name n @ rest) (length pre) = (member_path name, False)
    \<or> n \<ge> 2 ^ 32"
proof (cases "n < 2 ^ 32")
  case True
  let ?img = "pre @ tar_header name n @ rest"
  let ?s = "tar_str ?img (length pre)"
  have m: "wf_cstr name" "name \<noteq> []" "length name < 100"
    using assms by (simp_all add: member_ok_def)
  note hf = header_fields [OF m True, of pre rest]
  have dot: "chr_at ?s 0 = CHR ''.'' \<and> chr_at ?s 1 = CHR ''/'' \<longleftrightarrow> take 2 name = ''./''"
  proof -
    obtain c cs where c: "name = c # cs" using m(2) by (cases name) auto
    have t2: "take 2 ?s = take 2 (c # cs @ [NUL])" using hf(3) c by simp
    then obtain a b r where s: "?s = a # b # r"
      by (cases ?s; cases "tl ?s") (auto simp: numeral_2_eq_2 take_Cons' split: if_splits)
    with t2 c show ?thesis by (cases cs) (auto simp: numeral_2_eq_2)
  qed
  show ?thesis
    using hf(1,4,6) dot m(3)
    by (auto simp: tar_path_def member_path_def Let_def tar_copy_eq)
next
  case False
  then show ?thesis by simp
qed

lemma path_ok_member: "member_ok e \<Longrightarrow> path_ok (member_path (fst e))"
  by (auto simp: member_ok_def path_ok_def member_path_def VFS_MAX_PATH_def wf_cstr_drop)

lemma mount_loop_member:
  assumes e: "member_ok e" and img: "img = pre @ tar_member e @ rest"
    and ok: "vfs_ok arena v"
    and slot: "count_slots vf_used (vfs_files v) < length (vfs_files v)"
  shows "\<exists>v'. mount_loop img (length pre) v = mount_loop img (length (pre @ tar_member e)) v'
     \<and> vfs_ok arena v' \<and> vfs_abs v' = (vfs_abs v)(member_path (fst e) \<mapsto> snd e)
     \<and> length (vfs_files v') = length (vfs_files v)
     \<and> count_slots vf_used (vfs_files v') \<le> Suc (count_slots vf_used (vfs_files v))"
proof -
  obtain name d where nd: "e = (name, d)" by fastforce
  let ?n = "length d" and ?p = "length pre"
  have m: "wf_cstr name" "name \<noteq> []" "length name < 100" "?n < 2 ^ 32 - 511"
    using e by (simp_all add: member_ok_def nd)
  have n32: "?n < 2 ^ 32" using m(4) by simp
  define tl where "tl = d @ replicate (tar_pad ?n) 0 @ rest"
  have img': "img = pre @ tar_header name ?n @ tl"
    by (simp add: img tar_member_def nd tl_def)
  note hf = header_fields [OF m(1-3) n32, of pre tl, folded img']
  have path: "tar_path img ?p = (member_path name, False)"
    using tar_path_member [of name d pre ?n tl] e n32 by (simp add: nd img')
  have data: "take ?n (drop (?p + 512) img) = d"
    using m(3) by (simp add: img' tl_def)
  obtain v' where v': "mount_file v (member_path name) d ?n = Ret v'" "vfs_ok arena v'"
      "vfs_abs v' = (vfs_abs v)(norm_path (member_path name) \<mapsto> d)"
      "length (vfs_files v') = length (vfs_files v)"
      "count_slots vf_used (vfs_files v') \<le> Suc (count_slots vf_used (vfs_files v))"
    using mount_file_spec [OF ok refl slot] by blast
  have un: "unat (of_nat ?n :: u32) = ?n" using n32 by (simp add: unat_of_nat)
  have ent: "tar_entry img ?p (of_nat ?n) v = Ret v'"
    by (simp add: tar_entry_def hf(2,5) path un data v'(1))
  have nz: "\<not> (\<forall>b \<in> set (take 512 (drop ?p img)). b = 0)"
  proof
    assume "\<forall>b \<in> set (take 512 (drop ?p img)). b = 0"
    moreover have "of_char (hd name) \<in> set (tar_header name ?n)"
      using m(2) by (cases name) (simp_all add: tar_header_def bytes_of_def)
    ultimately have "(of_char (hd name) :: u8) = 0" using m(3) by (simp add: img')
    then have "unat (of_char (hd name) :: u8) = 0" by simp
    moreover have "char_of (unat (of_char (hd name) :: u8)) = hd name"
      using char_of_bytes [of "[hd name]"] by (simp add: bytes_of_def)
    ultimately have "hd name = NUL" by (simp add: char_of_def)
    with m(1,2) show False by (cases name) auto
  qed
  have al: "unat ((of_nat ?n + 511 :: u32) AND NOT 511) = ?n + tar_pad ?n" by (rule align_up [OF m(4)])
  have len: "length img = ?p + 512 + ?n + tar_pad ?n + length rest" using m(3) by (simp add: img' tl_def)
  have "mount_loop img ?p v = mount_loop img (?p + 512 + (?n + tar_pad ?n)) v'"
    using len hf(7) ent al by (subst mount_loop.simps) (simp add: nz Let_def)
  moreover have "?p + 512 + (?n + tar_pad ?n) = length (pre @ tar_member e)"
    using m(3) by (simp add: tar_member_def nd)
  ultimately show ?thesis
    using v' norm_path_ok [OF path_ok_member [OF e]] by (auto simp: nd)
qed

lemma mount_loop_archive:
  assumes "\<forall>e \<in> set es. member_ok e" and "vfs_ok arena v"
    and "count_slots vf_used (vfs_files v) + length es \<le> length (vfs_files v)"
    and "img = pre @ tar_archive es"
  shows "\<exists>v'. mount_loop img (length pre) v = Ret v' \<and> vfs_ok arena v'
     \<and> vfs_abs v' = foldl (\<lambda>m e. m(member_path (fst e) \<mapsto> snd e)) (vfs_abs v) es"
  using assms
proof (induction es arbitrary: v pre)
  case Nil
  then have "mount_loop img (length pre) v = Ret v"
    by (subst mount_loop.simps) (simp add: tar_archive_def)
  with Nil show ?case by simp
next
  case (Cons e es)
  have e: "member_ok e" and img: "img = pre @ tar_member e @ tar_archive es"
    and slot: "count_slots vf_used (vfs_files v) < length (vfs_files v)"
    using Cons.prems by (auto simp: tar_archive_def)
  obtain v1 where v1: "mount_loop img (length pre) v = mount_loop img (length (pre @ tar_member e)) v1"
      "vfs_ok arena v1" "vfs_abs v1 = (vfs_abs v)(member_path (fst e) \<mapsto> snd e)"
      "length (vfs_files v1) = length (vfs_files v)"
      "count_slots vf_used (vfs_files v1) \<le> Suc (count_slots vf_used (vfs_files v))"
    using mount_loop_member [OF e img Cons.prems(2) slot] by blast
  have img2: "img = (pre @ tar_member e) @ tar_archive es" by (simp add: img)
  have le: "count_slots vf_used (vfs_files v1) + length es \<le> length (vfs_files v1)"
    using v1(4,5) Cons.prems(3) by simp
  have es: "\<forall>e \<in> set es. member_ok e" using Cons.prems(1) by simp
  from Cons.IH [OF es v1(2) le img2] v1(1,3) show ?case by (simp del: length_append)
qed

subsection \<open>Lines\<close>

abbreviation NL :: char where "NL \<equiv> CHR 0x0A"

text \<open>The reference format of a listing: the names separated by newlines.\<close>

fun join_lines :: "string list \<Rightarrow> string" where
  "join_lines [] = []"
| "join_lines [n] = n"
| "join_lines (n # m # ns) = n @ NL # join_lines (m # ns)"

definition line_ok :: "string \<Rightarrow> bool" where
  "line_ok n \<longleftrightarrow> n \<noteq> [] \<and> NL \<notin> set n"

lemma join_lines_empty [simp]: "\<forall>n \<in> set ns. line_ok n \<Longrightarrow> join_lines ns = [] \<longleftrightarrow> ns = []"
  by (induction ns rule: join_lines.induct) (auto simp: line_ok_def)

lemma join_lines_snoc:
  "join_lines (ns @ [n]) = (if ns = [] then n else join_lines ns @ NL # n)"
  by (induction ns rule: join_lines.induct) auto

lemma has_name_Nil [simp]: "\<not> vfs_list_has_name [] name"
  by (subst vfs_list_has_name.simps) simp

lemma has_name_iff:
  assumes "\<forall>n \<in> set ns. line_ok n" and "line_ok name"
  shows "vfs_list_has_name (join_lines ns) name \<longleftrightarrow> name \<in> set ns"
  using assms
proof (induction ns rule: join_lines.induct)
  case 1
  then show ?case by simp
next
  case (2 n)
  then have n: "\<forall>c \<in> set n. c \<noteq> NL" "n \<noteq> []" by (auto simp: line_ok_def)
  have "takeWhile (\<lambda>c. c \<noteq> NL) n = n" "dropWhile (\<lambda>c. c \<noteq> NL) n = []"
    using n(1) by (simp_all add: takeWhile_eq_all_conv)
  from vfs_list_has_name.simps [of n name, unfolded this] n(2) show ?case by auto
next
  case (3 n m ns)
  let ?l = "join_lines (n # m # ns)"
  have n: "\<forall>c \<in> set n. c \<noteq> NL" using 3 by (auto simp: line_ok_def)
  then have "takeWhile (\<lambda>c. c \<noteq> NL) ?l = n" "dropWhile (\<lambda>c. c \<noteq> NL) ?l = NL # join_lines (m # ns)"
    by (simp_all add: takeWhile_append2 dropWhile_append2)
  moreover have "vfs_list_has_name (join_lines (m # ns)) name \<longleftrightarrow> name \<in> set (m # ns)"
    using 3 by simp
  ultimately show ?case
    by (subst vfs_list_has_name.simps) auto
qed

subsection \<open>The entries of a directory\<close>

definition dir_prefix :: "string \<Rightarrow> string" where
  "dir_prefix norm = (if last norm = CHR ''/'' then norm else norm @ ''/'')"

definition child_of :: "string \<Rightarrow> string \<Rightarrow> string \<Rightarrow> bool" where
  "child_of norm path n \<longleftrightarrow>
     n \<noteq> [] \<and> CHR ''/'' \<notin> set n
     \<and> (path = dir_prefix norm @ n \<or> (\<exists>t. path = dir_prefix norm @ n @ CHR ''/'' # t))"

lemma first_component:
  "takeWhile (\<lambda>c. c \<noteq> x) r = n \<longleftrightarrow> x \<notin> set n \<and> (r = n \<or> (\<exists>t. r = n @ x # t))"
proof
  assume n: "takeWhile (\<lambda>c. c \<noteq> x) r = n"
  define d where "d = dropWhile (\<lambda>c. c \<noteq> x) r"
  have r: "r = n @ d" unfolding d_def n [symmetric] by simp
  have "d = [] \<or> hd d = x" using hd_dropWhile [of "\<lambda>c. c \<noteq> x" r] unfolding d_def by blast
  moreover have "x \<notin> set n" using n by (auto dest: set_takeWhileD)
  ultimately show "x \<notin> set n \<and> (r = n \<or> (\<exists>t. r = n @ x # t))" using r by (cases d) auto
next
  assume a: "x \<notin> set n \<and> (r = n \<or> (\<exists>t. r = n @ x # t))"
  then have "\<forall>c \<in> set n. c \<noteq> x" by auto
  then have app: "takeWhile (\<lambda>c. c \<noteq> x) (n @ t) = n @ takeWhile (\<lambda>c. c \<noteq> x) t" for t
    by (simp add: takeWhile_append2)
  show "takeWhile (\<lambda>c. c \<noteq> x) r = n"
  proof (cases "r = n")
    case True
    with app [of "[]"] show ?thesis by simp
  next
    case False
    with a obtain t where "r = n @ x # t" by blast
    with app [of "x # t"] show ?thesis by simp
  qed
qed

lemma rest_component:
  assumes "wf_cstr r" and "length r < 256"
  shows "take (VFS_MAX_PATH - 1) (takeWhile (\<lambda>c. c \<noteq> NUL \<and> c \<noteq> CHR ''/'') r)
    = takeWhile (\<lambda>c. c \<noteq> CHR ''/'') r"
proof -
  have "takeWhile (\<lambda>c. c \<noteq> NUL \<and> c \<noteq> CHR ''/'') r = takeWhile (\<lambda>c. c \<noteq> CHR ''/'') r"
    using assms(1) by (intro takeWhile_cong) (auto simp: wf_cstr_def)
  moreover have "length (takeWhile (\<lambda>c. c \<noteq> CHR ''/'') r) \<le> 255"
    using le_less_trans [OF length_takeWhile_le assms(2), of "\<lambda>c. c \<noteq> CHR ''/''"] by simp
  ultimately show ?thesis by (simp add: VFS_MAX_PATH_def)
qed

lemma k_strlen_path: "path_ok p \<Longrightarrow> k_strlen p = length p"
  by (simp add: k_strlen_cstr)

text \<open>What the code computes for a path is its component under the directory.\<close>

lemma list_entry_iff:
  assumes norm: "path_ok norm" and path: "path_ok path"
    and prefx: "prefx = (if k_strcmp norm ''/'' \<noteq> 0 \<and> k_strlen norm + 1 < VFS_MAX_PATH
                  \<and> chr_at norm (k_strlen norm - 1) \<noteq> CHR ''/'' then norm @ ''/'' else norm)"
  shows "list_entry norm prefx path = Some n \<longleftrightarrow> child_of norm path n"
proof -
  note p = norm [unfolded path_ok_def] path [unfolded path_ok_def]
  have wfp: "wf_cstr norm" "wf_cstr path" "length path < 256" "norm \<noteq> []" using p by (auto simp: VFS_MAX_PATH_def)
  have root: "k_strcmp norm ''/'' = 0 \<longleftrightarrow> norm = ''/''"
    using norm by (simp add: k_strcmp_eq_iff)
  have last: "chr_at norm (k_strlen norm - 1) = last norm"
    using wfp(4) norm by (simp add: chr_at_def k_strlen_path last_conv_nth)
  define r where "r = (if norm = ''/'' then Some (drop 1 path)
     else if prefix prefx path then Some (drop (length prefx) path) else None)"
  have hd: "chr_at path 0 = CHR ''/''" using p by (cases path) auto
  have wfpre: "wf_cstr prefx" using wfp(1) by (simp add: prefx)
  have le: "list_entry norm prefx path = (case r of None \<Rightarrow> None
      | Some s \<Rightarrow> (let m = takeWhile (\<lambda>c. c \<noteq> CHR ''/'') s in if m = [] then None else Some m))"
    using wfp rest_component [of "drop 1 path"] rest_component [of "drop (length prefx) path"]
    by (auto simp: list_entry_def r_def root hd k_starts_with_iff wfpre Let_def wf_cstr_drop
        simp flip: One_nat_def)
  have comp: "list_entry norm prefx path = Some n
      \<longleftrightarrow> (\<exists>s. r = Some s \<and> n \<noteq> [] \<and> CHR ''/'' \<notin> set n \<and> (s = n \<or> (\<exists>t. s = n @ CHR ''/'' # t)))"
  proof (cases r)
    case (Some s)
    have "list_entry norm prefx path = Some n \<longleftrightarrow> n \<noteq> [] \<and> takeWhile (\<lambda>c. c \<noteq> CHR ''/'') s = n"
      unfolding le Some option.case Let_def by auto
    then show ?thesis unfolding first_component by (simp add: Some)
  qed (simp add: le)
  consider "norm = ''/''" | "norm \<noteq> ''/''" "last norm = CHR ''/''"
    | "norm \<noteq> ''/''" "last norm \<noteq> CHR ''/''" "length norm < 255"
    | "norm \<noteq> ''/''" "last norm \<noteq> CHR ''/''" "length norm = 255"
    using p(1) by (auto simp: VFS_MAX_PATH_def) linarith
  then show ?thesis
  proof cases
    case 1
    then obtain q where "path = CHR ''/'' # q" using p(2) by (cases path) auto
    with 1 show ?thesis unfolding comp by (auto simp: r_def child_of_def dir_prefix_def)
  next
    case 2
    then have "prefx = norm" using last by (simp add: prefx)
    with 2 show ?thesis unfolding comp by (auto simp: r_def child_of_def dir_prefix_def prefix_def)
  next
    case 3
    then have "prefx = norm @ ''/''" using last norm root by (simp add: prefx k_strlen_path VFS_MAX_PATH_def)
    with 3 show ?thesis unfolding comp by (auto simp: r_def child_of_def dir_prefix_def prefix_def)
  next
    case 4
    then have "prefx = norm" using norm by (simp add: prefx k_strlen_path VFS_MAX_PATH_def)
    with 4 wfp(3) show ?thesis unfolding comp by (auto simp: r_def child_of_def dir_prefix_def prefix_def)
  qed
qed

text \<open>The names of the used slots of a table segment.\<close>

definition entry_names :: "string \<Rightarrow> vfs_file list \<Rightarrow> string set" where
  "entry_names norm fs = {n. \<exists>f \<in> set fs. vf_used f \<and> child_of norm (vf_path f) n}"

lemma list_loop_spec:
  assumes "\<forall>f \<in> set fs. vf_used f \<longrightarrow> NL \<notin> set (vf_path f) \<and> length (vf_path f) < 256
      \<and> (\<forall>n. list_entry norm prefx (vf_path f) = Some n \<longleftrightarrow> child_of norm (vf_path f) n)"
    and "\<forall>n \<in> set ns. line_ok n" and "distinct ns" and "length (join_lines ns) < cap"
  shows "\<exists>ns'. list_loop norm prefx cap (join_lines ns) fs = join_lines ns' \<and> distinct ns'
     \<and> (\<forall>n \<in> set ns'. line_ok n)
     \<and> length (join_lines ns') < cap \<and> set ns' \<subseteq> set ns \<union> entry_names norm fs
     \<and> (length (join_lines ns) + 257 * length (filter vf_used fs) < cap
          \<longrightarrow> set ns' = set ns \<union> entry_names norm fs)"
  using assms
proof (induction fs arbitrary: ns)
  case Nil
  then show ?case by (intro exI [of _ ns]) (simp add: entry_names_def)
next
  case (Cons f fs)
  have rest: "\<forall>f \<in> set fs. vf_used f \<longrightarrow> NL \<notin> set (vf_path f) \<and> length (vf_path f) < 256
      \<and> (\<forall>n. list_entry norm prefx (vf_path f) = Some n \<longleftrightarrow> child_of norm (vf_path f) n)"
    using Cons.prems(1) by simp
  have skip: ?case if "list_loop norm prefx cap (join_lines ns) (f # fs) = list_loop norm prefx cap (join_lines ns) fs"
      "set ns \<union> entry_names norm (f # fs) = set ns \<union> entry_names norm fs"
    unfolding that using Cons.IH [OF rest Cons.prems(2-4)] by (auto split: if_splits)
  show ?case
  proof (cases "vf_used f \<and> list_entry norm prefx (vf_path f) \<noteq> None")
    case False
    then have "\<not> (vf_used f \<and> child_of norm (vf_path f) n)" for n using Cons.prems(1) by auto
    with False show ?thesis by (intro skip) (auto simp: entry_names_def split: option.splits)
  next
    case True
    then obtain n where u: "vf_used f" and n: "list_entry norm prefx (vf_path f) = Some n" by auto
    have "\<forall>m. list_entry norm prefx (vf_path f) = Some m \<longleftrightarrow> child_of norm (vf_path f) m"
      using Cons.prems(1) u by auto
    then have c: "child_of norm (vf_path f) m \<longleftrightarrow> m = n" for m
      using n by (metis option.inject)
    then have names: "entry_names norm (f # fs) = insert n (entry_names norm fs)"
      using u by (auto simp: entry_names_def)
    have "child_of norm (vf_path f) n" using c by simp
    moreover have "NL \<notin> set (vf_path f)" "length (vf_path f) < 256" using Cons.prems(1) u by auto
    ultimately have lok: "line_ok n" and len: "length n < 256"
      by (auto simp: child_of_def line_ok_def)
    note has = has_name_iff [OF Cons.prems(2) lok]
    show ?thesis
    proof (cases "n \<in> set ns")
      case True
      then show ?thesis using u n has by (intro skip) (auto simp: names)
    next
      case new: False
      show ?thesis
      proof (cases "length (join_lines ns) + length n + 2 > cap")
        case True
        then have "list_loop norm prefx cap (join_lines ns) (f # fs) = join_lines ns" using u n has new by simp
        with True len u Cons.prems show ?thesis by (intro exI [of _ ns]) auto
      next
        case False
        let ?ns = "ns @ [n]"
        have ok: "\<forall>m \<in> set ?ns. line_ok m" "distinct ?ns" "length (join_lines ?ns) < cap"
          using Cons.prems(2,3) lok new False by (auto simp: join_lines_snoc)
        have "list_loop norm prefx cap (join_lines ns) (f # fs) = list_loop norm prefx cap (join_lines ?ns) fs"
          using u n has new False Cons.prems(2) by (simp add: join_lines_snoc)
        moreover have "length (join_lines ?ns) \<le> length (join_lines ns) + 257"
          using len by (simp add: join_lines_snoc)
        ultimately show ?thesis
          using Cons.IH [OF rest ok] u by (fastforce simp: names)
      qed
    qed
  qed
qed

subsection \<open>Properties\<close>

text \<open>C21: mounting an archive built by the reference writer, with enough free slots, adds
  exactly its members: every member can be read under its path with its contents (a later
  member replaces an earlier one of the same name), and every other file is as before.\<close>

theorem vfs_mount_initrd_archive:
  assumes "vfs_ok arena v" and "\<forall>e \<in> set es. member_ok e"
    and "count_slots vf_used (vfs_files v) + length es \<le> length (vfs_files v)"
  shows "\<exists>v'. vfs_mount_initrd v (tar_archive es) = Ret v' \<and> vfs_ok arena v'
     \<and> vfs_abs v' = foldl (\<lambda>m e. m(member_path (fst e) \<mapsto> snd e)) (vfs_abs v) es"
  using mount_loop_archive [OF assms(2,1,3), of "tar_archive es" "[]"]
  by (simp add: vfs_mount_initrd_def)

theorem vfs_mount_initrd_archive_witness:
  "\<exists>v'. vfs_mount_initrd small_table (tar_archive [(''./bin/sh'', [1, 2]), (''etc/x'', [])]) = Ret v'
     \<and> vfs_ok 4096 v'
     \<and> vfs_abs v' = foldl (\<lambda>m e. m(member_path (fst e) \<mapsto> snd e)) (vfs_abs small_table)
         [(''./bin/sh'', [1, 2]), (''etc/x'', [])]"
  by (rule vfs_mount_initrd_archive [OF small_table_ok])
    (simp_all add: member_ok_def small_table_def count_slots_def empty_file_def)

text \<open>\<open>kvfs_listdir\<close> never writes past the buffer, lists only names that are children of
  the directory, each once, and lists all of them when the buffer has 257 bytes per file.\<close>

theorem kvfs_listdir_correct:
  assumes ok: "vfs_ok arena v" and cap: "0 < out_cap" and d: "chr_at d 0 \<noteq> NUL"
    and nl: "\<forall>q \<in> dom (vfs_abs v). NL \<notin> set q"
  shows "\<exists>ns. kvfs_listdir v (Some d) out_cap = Some (join_lines ns)
     \<and> length (join_lines ns) < out_cap \<and> distinct ns
     \<and> set ns \<subseteq> {n. \<exists>q \<in> dom (vfs_abs v). child_of (norm_path d) q n}
     \<and> (257 * g_vfs_count v < out_cap
          \<longrightarrow> set ns = {n. \<exists>q \<in> dom (vfs_abs v). child_of (norm_path d) q n})"
proof -
  have dom: "dom (vfs_abs v) = {vf_path f | f. f \<in> set (vfs_files v) \<and> vf_used f}"
    by (auto simp: vfs_abs_def find_index_None dom_def in_set_conv_nth dest!: find_indexD
        split: option.splits) (metis (mono_tags, lifting) find_index_None nth_mem option.exhaust)
  have names: "entry_names (norm_path d) (vfs_files v)
      = {n. \<exists>q \<in> dom (vfs_abs v). child_of (norm_path d) q n}"
    by (auto simp: dom entry_names_def)
  define prefx where "prefx = (if k_strcmp (norm_path d) ''/'' \<noteq> 0 \<and> k_strlen (norm_path d) + 1 < VFS_MAX_PATH
      \<and> chr_at (norm_path d) (k_strlen (norm_path d) - 1) \<noteq> CHR ''/'' then norm_path d @ ''/'' else norm_path d)"
  have l: "kvfs_listdir v (Some d) out_cap = Some (list_loop (norm_path d) prefx out_cap (join_lines []) (vfs_files v))"
    using cap d by (simp add: kvfs_listdir_def prefx_def Let_def)
  have files: "\<forall>f \<in> set (vfs_files v). vf_used f \<longrightarrow> NL \<notin> set (vf_path f) \<and> length (vf_path f) < 256
      \<and> (\<forall>n. list_entry (norm_path d) prefx (vf_path f) = Some n \<longleftrightarrow> child_of (norm_path d) (vf_path f) n)"
  proof (intro ballI impI)
    fix f assume f: "f \<in> set (vfs_files v)" "vf_used f"
    then have p: "path_ok (vf_path f)" using ok by (auto simp: vfs_ok_def file_ok_def)
    moreover have "NL \<notin> set (vf_path f)" using nl f by (auto simp: dom)
    ultimately show "NL \<notin> set (vf_path f) \<and> length (vf_path f) < 256
      \<and> (\<forall>n. list_entry (norm_path d) prefx (vf_path f) = Some n \<longleftrightarrow> child_of (norm_path d) (vf_path f) n)"
      using list_entry_iff [OF path_ok_norm p prefx_def] by (simp add: path_ok_def VFS_MAX_PATH_def)
  qed
  have cnt: "length (filter vf_used (vfs_files v)) = g_vfs_count v"
    using vfs_okD(5) [OF ok] by (simp add: count_slots_def)
  have "length (join_lines []) < out_cap" using cap by simp
  from list_loop_spec [OF files _ _ this] show ?thesis
    unfolding l names cnt by (simp; blast)
qed

theorem kvfs_listdir_correct_witness:
  "\<exists>ns. kvfs_listdir small_table (Some ''/etc'') 64 = Some (join_lines ns)
     \<and> length (join_lines ns) < 64 \<and> distinct ns
     \<and> set ns \<subseteq> {n. \<exists>q \<in> dom (vfs_abs small_table). child_of (norm_path ''/etc'') q n}
     \<and> (257 * g_vfs_count small_table < 64
          \<longrightarrow> set ns = {n. \<exists>q \<in> dom (vfs_abs small_table). child_of (norm_path ''/etc'') q n})"
  by (rule kvfs_listdir_correct [OF small_table_ok])
    (simp_all add: small_table_def vfs_abs_def empty_file_def dom_def)

text \<open>The bounds check comes after the registration, so an archive cut off in its last member
  leaves a file whose size reaches past the image: here 5 bytes are promised and none are there.\<close>

lemma mount_truncated:
  "\<exists>v'. vfs_mount_initrd small_table (tar_header ''a'' 5) = Ret v'
     \<and> vfs_read v' ''a'' = Some ([], 5)"
proof -
  let ?img = "[] @ tar_header ''a'' 5 @ []"
  have hf: "cstr (tar_str ?img 0) = ''a''" "chr_at (tar_str ?img 0) 0 \<noteq> NUL"
      "chr_at (tar_str ?img 0) 156 = CHR ''0''" "parse_octal (tar_str ?img (0 + 124)) 12 = of_nat 5"
    using header_fields [of "''a''" 5 "[]" "[]"] by simp_all
  have path: "tar_path ?img 0 = (''/a'', False)"
    using tar_path_member [of "''a''" "[]" "[]" 5 "[]"] by (simp add: member_ok_def member_path_def)
  have norm: "norm_path ''/a'' = ''/a''" "norm_path ''a'' = ''/a''"
    by (simp_all add: norm_path_take kstr_simps Let_def k_is_space_def)
  define v' where "v' = small_table\<lparr> g_vfs_count := 1,
     vfs_files := [\<lparr> vf_used = True, vf_writable = False, vf_path = ''/a'', vf_ro_data = Some [],
       vf_ro_size = 5, vf_rw_data = 0, vf_rw_cap = 0, vf_rw_size = 0 \<rparr>, empty_file] \<rparr>"
  have "mount_file small_table ''/a'' [] 5 = Ret v'"
    by (simp add: mount_file_def vfs_alloc_def vfs_find_def norm small_table_def empty_file_def
        new_file_def v'_def k_strlcpy_take vfs_init_def VFS_MAX_PATH_def kstr_simps)
  then have ent: "tar_entry ?img 0 5 small_table = Ret v'"
    using hf path by (simp add: tar_entry_def)
  have nz: "\<not> (\<forall>b \<in> set (take 512 (drop 0 ?img)). b = 0)"
    by (simp add: tar_header_def bytes_of_def)
  have "mount_loop ?img 0 small_table = Ret v'"
    using hf(4) ent by (subst mount_loop.simps) (simp only: if_not_P [OF nz], simp add: Let_def)
  then have "mount_loop (tar_header ''a'' 5) 0 small_table = Ret v'" by simp
  moreover have "vfs_read v' ''a'' = Some ([], 5)"
    by (simp add: v'_def vfs_read_def vfs_find_def norm file_bytes_def kstr_simps)
  ultimately show ?thesis by (auto simp: vfs_mount_initrd_def)
qed

end
