(* ===== verification/KElf.thy ===== *)
theory KElf
  imports KVfsOps
begin

text \<open>
  The ELF32 loader of \<^verbatim>\<open>src/kernel/vfs_sched.c\<close>: the image table, the checks on the
  headers and the copy of the segments.  A copy that would read outside the file or write
  outside the image buffer is undefined in C; it is the outcome \<open>None\<close> here.
\<close>

subsection \<open>Headers and images\<close>

definition ELF_MAX_IMAGES :: nat where "ELF_MAX_IMAGES = 12"
definition ELF_IMAGE_MEM_MAX :: nat where "ELF_IMAGE_MEM_MAX = 131072"

record elf32_ehdr =
  e_ident :: "u8 list"
  e_entry :: u32
  e_phoff :: u32
  e_phentsize :: u16
  e_phnum :: u16

record elf32_phdr =
  p_type :: u32
  p_offset :: u32
  p_vaddr :: u32
  p_filesz :: u32
  p_memsz :: u32

record elf_image =
  im_used :: bool
  im_path :: string
  base_vaddr :: u32
  entry_vaddr :: u32
  mem_size :: u32
  loaded_segments :: u32
  im_memory :: mem

datatype elf_load_result = ELF_LOAD_OK | ELF_LOAD_NOTFOUND | ELF_LOAD_BAD_FORMAT
  | ELF_LOAD_TOO_LARGE | ELF_LOAD_NO_SLOT

text \<open>The packed structures, read at their offsets; sizes 52 and 32.\<close>

definition ehdr_of :: "u8 list \<Rightarrow> elf32_ehdr" where
  "ehdr_of data = \<lparr> e_ident = take 16 data, e_entry = le32 data 24, e_phoff = le32 data 28,
     e_phentsize = le16 data 42, e_phnum = le16 data 44 \<rparr>"

definition phdr_at :: "u8 list \<Rightarrow> nat \<Rightarrow> elf32_phdr" where
  "phdr_at data off = \<lparr> p_type = le32 data off, p_offset = le32 data (off + 4),
     p_vaddr = le32 data (off + 8), p_filesz = le32 data (off + 16), p_memsz = le32 data (off + 20) \<rparr>"

definition phdrs :: "u8 list \<Rightarrow> elf32_phdr list" where
  "phdrs data = (let eh = ehdr_of data
     in map (\<lambda>i. phdr_at data (unat (e_phoff eh) + i * 32)) [0..<unat (e_phnum eh)])"

definition elf_init :: "elf_image list" where
  "elf_init = replicate ELF_MAX_IMAGES
     \<lparr> im_used = False, im_path = [], base_vaddr = 0, entry_vaddr = 0, mem_size = 0,
       loaded_segments = 0, im_memory = (\<lambda>_. 0) \<rparr>"

definition elf_find_by_path :: "elf_image list \<Rightarrow> string \<Rightarrow> nat option" where
  "elf_find_by_path imgs path =
     find_index (\<lambda>im. im_used im \<and> k_strcmp (im_path im) (norm_path path) = 0) imgs"

definition elf_alloc_slot :: "elf_image list \<Rightarrow> string \<Rightarrow> elf_image list \<times> nat option" where
  "elf_alloc_slot imgs path =
     (case elf_find_by_path imgs path of
        Some i \<Rightarrow> (imgs, Some i)
      | None \<Rightarrow>
         (case find_index (\<lambda>im. \<not> im_used im) imgs of
            None \<Rightarrow> (imgs, None)
          | Some i \<Rightarrow>
              (imgs[i := \<lparr> im_used = True,
                 im_path = k_strlcpy (im_path (imgs ! i)) (norm_path path) VFS_MAX_PATH,
                 base_vaddr = 0, entry_vaddr = 0, mem_size = 0, loaded_segments = 0,
                 im_memory = (\<lambda>_. 0) \<rparr>], Some i)))"

subsection \<open>Loading\<close>

text \<open>The first pass: checks and the address range; all sums are on 32 bits.  \<open>None\<close> is the
  early return of \<open>ELF_LOAD_BAD_FORMAT\<close>.\<close>

fun elf_scan :: "nat \<Rightarrow> elf32_phdr list \<Rightarrow> u32 \<times> u32 \<times> bool \<Rightarrow> (u32 \<times> u32 \<times> bool) option" where
  "elf_scan sz [] r = Some r"
| "elf_scan sz (ph # phs) (minv, maxv, has_load) =
     (if p_type ph \<noteq> 1 then elf_scan sz phs (minv, maxv, has_load)
      else if p_memsz ph < p_filesz ph then None
      else if unat (p_offset ph + p_filesz ph) > sz then None
      else if p_memsz ph = 0 then elf_scan sz phs (minv, maxv, has_load)
      else elf_scan sz phs
             (if p_vaddr ph < minv then p_vaddr ph else minv,
              if p_vaddr ph + p_memsz ph > maxv then p_vaddr ph + p_memsz ph else maxv,
              True))"

text \<open>The second pass: the copies, and the number of segments.\<close>

fun elf_copy :: "u8 list \<Rightarrow> u32 \<Rightarrow> elf32_phdr list \<Rightarrow> mem \<times> u32 \<Rightarrow> (mem \<times> u32) option" where
  "elf_copy data minv [] r = Some r"
| "elf_copy data minv (ph # phs) (m, n) =
     (if p_type ph = 1 \<and> p_memsz ph > 0
      then (let off = unat (p_vaddr ph - minv); src = unat (p_offset ph); len = unat (p_filesz ph)
            in if len = 0 \<or> off + len \<le> ELF_IMAGE_MEM_MAX \<and> src + len \<le> length data
               then elf_copy data minv phs (store_bytes m off (take len (drop src data)), n + 1)
               else None)
      else elf_copy data minv phs (m, n))"

definition elf_ident_ok :: "elf32_ehdr \<Rightarrow> bool" where
  "elf_ident_ok eh \<longleftrightarrow> take 6 (e_ident eh) = [0x7F, 0x45, 0x4C, 0x46, 1, 1]"

definition elf_load :: "elf_image list \<Rightarrow> u8 list \<Rightarrow> nat \<Rightarrow> string
    \<Rightarrow> (elf_image list \<times> elf_load_result \<times> nat option) option" where
  "elf_load imgs data sz path =
     (if sz < 52 then Some (imgs, ELF_LOAD_BAD_FORMAT, None)
      else (let eh = ehdr_of data
        in if \<not> elf_ident_ok eh then Some (imgs, ELF_LOAD_BAD_FORMAT, None)
           else if e_phentsize eh \<noteq> 32 \<or> e_phnum eh = 0 then Some (imgs, ELF_LOAD_BAD_FORMAT, None)
           else if unat (e_phoff eh) + unat (e_phnum eh) * 32 > sz then Some (imgs, ELF_LOAD_BAD_FORMAT, None)
           else (case elf_scan sz (phdrs data) (0xFFFFFFFF, 0, False) of
               None \<Rightarrow> Some (imgs, ELF_LOAD_BAD_FORMAT, None)
             | Some (minv, maxv, has_load) \<Rightarrow>
                 if \<not> has_load \<or> minv \<ge> maxv then Some (imgs, ELF_LOAD_BAD_FORMAT, None)
                 else if maxv - minv = 0 \<or> unat (maxv - minv) > ELF_IMAGE_MEM_MAX
                   then Some (imgs, ELF_LOAD_TOO_LARGE, None)
                 else if e_entry eh < minv \<or> e_entry eh \<ge> maxv then Some (imgs, ELF_LOAD_BAD_FORMAT, None)
                 else (case elf_alloc_slot imgs path of
                     (imgs1, None) \<Rightarrow> Some (imgs1, ELF_LOAD_NO_SLOT, None)
                   | (imgs1, Some i) \<Rightarrow>
                       map_option (\<lambda>(m, n).
                         (imgs1[i := (imgs1 ! i)\<lparr> base_vaddr := minv, entry_vaddr := e_entry eh,
                            mem_size := maxv - minv, loaded_segments := n, im_memory := m \<rparr>],
                          ELF_LOAD_OK, Some i))
                         (elf_copy data minv (phdrs data) ((\<lambda>_. 0), 0))))))"

definition elf_load_from_vfs :: "vfs \<Rightarrow> elf_image list \<Rightarrow> string
    \<Rightarrow> (elf_image list \<times> elf_load_result \<times> nat option) option" where
  "elf_load_from_vfs v imgs path =
     (case vfs_read v path of
        None \<Rightarrow> Some (imgs, ELF_LOAD_NOTFOUND, None)
      | Some (data, sz) \<Rightarrow> elf_load imgs data sz path)"

definition elf_loaded_count :: "elf_image list \<Rightarrow> nat" where
  "elf_loaded_count imgs = count_slots im_used imgs"

subsection \<open>The passes\<close>

text \<open>The segments both passes act on, and the condition under which the 32-bit sums of the
  checks mean what they say.\<close>

definition loads :: "elf32_phdr list \<Rightarrow> elf32_phdr list" where
  "loads phs = filter (\<lambda>ph. p_type ph = 1 \<and> p_memsz ph > 0) phs"

definition seg_no_wrap :: "elf32_phdr \<Rightarrow> bool" where
  "seg_no_wrap ph \<longleftrightarrow> unat (p_offset ph) + unat (p_filesz ph) < 2 ^ 32
     \<and> unat (p_vaddr ph) + unat (p_memsz ph) < 2 ^ 32"

lemma loads_simps [simp]:
  "loads [] = []"
  "loads (ph # phs) = (if p_type ph = 1 \<and> p_memsz ph > 0 then ph # loads phs else loads phs)"
  by (simp_all add: loads_def)

lemma elf_scan_spec:
  assumes "elf_scan sz phs (mn, mx, hl) = Some (mn', mx', hl')"
  shows "mn' \<le> mn \<and> mx \<le> mx'
    \<and> (\<forall>ph \<in> set (loads phs). mn' \<le> p_vaddr ph \<and> p_vaddr ph + p_memsz ph \<le> mx'
         \<and> p_filesz ph \<le> p_memsz ph \<and> unat (p_offset ph + p_filesz ph) \<le> sz)
    \<and> (hl' \<longleftrightarrow> hl \<or> loads phs \<noteq> [])"
  using assms
proof (induction phs arbitrary: mn mx hl)
  case Nil
  then show ?case by simp
next
  case (Cons ph phs)
  show ?case
  proof (cases "p_type ph = 1 \<and> p_memsz ph \<noteq> 0")
    case False
    with Cons show ?thesis by (auto split: if_splits)
  next
    case True
    let ?mn = "if p_vaddr ph < mn then p_vaddr ph else mn"
    let ?mx = "if p_vaddr ph + p_memsz ph > mx then p_vaddr ph + p_memsz ph else mx"
    from True Cons.prems have s: "elf_scan sz phs (?mn, ?mx, True) = Some (mn', mx', hl')"
      "p_filesz ph \<le> p_memsz ph" "unat (p_offset ph + p_filesz ph) \<le> sz"
      by (auto split: if_splits simp: not_less)
    from Cons.IH [OF s(1)] have "mn' \<le> ?mn" "?mx \<le> mx'" and
      ih: "\<forall>ph \<in> set (loads phs). mn' \<le> p_vaddr ph \<and> p_vaddr ph + p_memsz ph \<le> mx'
         \<and> p_filesz ph \<le> p_memsz ph \<and> unat (p_offset ph + p_filesz ph) \<le> sz" "hl'"
      by auto
    then have "mn' \<le> mn" "mn' \<le> p_vaddr ph" "mx \<le> mx'" "p_vaddr ph + p_memsz ph \<le> mx'"
      by (auto split: if_splits)
    with True ih s(2,3) show ?thesis by (auto simp: word_neq_0_conv)
  qed
qed

text \<open>The contents of the image: the last segment that covers the address decides.\<close>

definition seg_covers :: "u32 \<Rightarrow> nat \<Rightarrow> elf32_phdr \<Rightarrow> bool" where
  "seg_covers minv a ph \<longleftrightarrow>
     unat (p_vaddr ph - minv) \<le> a \<and> a < unat (p_vaddr ph - minv) + unat (p_filesz ph)"

definition image_byte :: "u8 list \<Rightarrow> u32 \<Rightarrow> elf32_phdr list \<Rightarrow> u8 \<Rightarrow> nat \<Rightarrow> u8" where
  "image_byte data minv segs d a =
     (case find (seg_covers minv a) (rev segs) of
        None \<Rightarrow> d
      | Some ph \<Rightarrow> data ! (unat (p_offset ph) + (a - unat (p_vaddr ph - minv))))"

lemma find_append:
  "find P (xs @ ys) = (case find P xs of None \<Rightarrow> find P ys | Some x \<Rightarrow> Some x)"
  by (induction xs) auto

lemma image_byte_Cons:
  "image_byte data minv (ph # segs) d a =
     image_byte data minv segs
       (if seg_covers minv a ph then data ! (unat (p_offset ph) + (a - unat (p_vaddr ph - minv))) else d) a"
  by (auto simp: image_byte_def find_append split: option.splits)

lemma elf_copy_spec:
  assumes "\<forall>ph \<in> set (loads phs). unat (p_vaddr ph - minv) + unat (p_filesz ph) \<le> ELF_IMAGE_MEM_MAX
      \<and> unat (p_offset ph) + unat (p_filesz ph) \<le> length data"
  shows "\<exists>m'. elf_copy data minv phs (m, n) = Some (m', n + of_nat (length (loads phs)))
     \<and> (\<forall>a. m' a = image_byte data minv (loads phs) (m a) a)"
  using assms
proof (induction phs arbitrary: m n)
  case Nil
  then show ?case by (simp add: image_byte_def)
next
  case (Cons ph phs)
  show ?case
  proof (cases "p_type ph = 1 \<and> p_memsz ph > 0")
    case False
    with Cons show ?thesis by auto
  next
    case True
    let ?off = "unat (p_vaddr ph - minv)" and ?src = "unat (p_offset ph)" and ?len = "unat (p_filesz ph)"
    let ?m = "store_bytes m ?off (take ?len (drop ?src data))"
    have fit: "?off + ?len \<le> ELF_IMAGE_MEM_MAX" "?src + ?len \<le> length data" using Cons.prems True by auto
    have rest: "\<forall>ph \<in> set (loads phs). unat (p_vaddr ph - minv) + unat (p_filesz ph) \<le> ELF_IMAGE_MEM_MAX
      \<and> unat (p_offset ph) + unat (p_filesz ph) \<le> length data" using Cons.prems True by simp
    obtain m' where m': "elf_copy data minv phs (?m, n + 1) = Some (m', n + 1 + of_nat (length (loads phs)))"
        "\<forall>a. m' a = image_byte data minv (loads phs) (?m a) a"
      using Cons.IH [OF rest] by blast
    have "?m a = (if seg_covers minv a ph then data ! (?src + (a - ?off)) else m a)" for a
      using fit(2) by (auto simp: seg_covers_def min_def)
    then have "\<forall>a. m' a = image_byte data minv (loads (ph # phs)) (m a) a"
      using True m'(2) by (simp add: image_byte_Cons)
    moreover have "elf_copy data minv (ph # phs) (m, n) = Some (m', n + of_nat (length (loads (ph # phs))))"
      using True fit m'(1) by (simp add: Let_def add.assoc)
    ultimately show ?thesis by blast
  qed
qed

lemma scan_bounds:
  assumes "elf_scan sz phs (0xFFFFFFFF, 0, False) = Some (minv, maxv, hl)"
    and "unat (maxv - minv) \<le> ELF_IMAGE_MEM_MAX" and "sz \<le> length data"
    and "\<forall>ph \<in> set phs. seg_no_wrap ph"
  shows "\<forall>ph \<in> set (loads phs). unat (p_vaddr ph - minv) + unat (p_filesz ph) \<le> ELF_IMAGE_MEM_MAX
      \<and> unat (p_offset ph) + unat (p_filesz ph) \<le> length data"
proof
  fix ph assume ph: "ph \<in> set (loads phs)"
  then have nw: "seg_no_wrap ph" using assms(4) by (auto simp: loads_def)
  have s: "minv \<le> p_vaddr ph" "p_vaddr ph + p_memsz ph \<le> maxv" "p_filesz ph \<le> p_memsz ph"
      "unat (p_offset ph + p_filesz ph) \<le> sz"
    using elf_scan_spec [OF assms(1)] ph by auto
  have "unat (p_vaddr ph + p_memsz ph) = unat (p_vaddr ph) + unat (p_memsz ph)"
    using nw by (intro unat_add_no_wrap) (simp add: seg_no_wrap_def)
  then have e: "unat (p_vaddr ph) + unat (p_memsz ph) \<le> unat maxv"
    using s(2) by (simp add: word_le_nat_alt)
  have lo: "unat minv \<le> unat (p_vaddr ph)" "unat (p_filesz ph) \<le> unat (p_memsz ph)"
    using s by (simp_all add: word_le_nat_alt)
  have d: "unat (p_vaddr ph - minv) = unat (p_vaddr ph) - unat minv" using s(1) by (simp add: unat_sub)
  have "minv \<le> maxv" using lo e by (simp add: word_le_nat_alt)
  then have "unat (maxv - minv) = unat maxv - unat minv" by (simp add: unat_sub)
  then have "unat (p_vaddr ph - minv) + unat (p_filesz ph) \<le> ELF_IMAGE_MEM_MAX"
    using d e lo assms(2) by simp
  moreover have "unat (p_offset ph + p_filesz ph) = unat (p_offset ph) + unat (p_filesz ph)"
    using nw by (intro unat_add_no_wrap) (simp add: seg_no_wrap_def)
  ultimately show "unat (p_vaddr ph - minv) + unat (p_filesz ph) \<le> ELF_IMAGE_MEM_MAX
      \<and> unat (p_offset ph) + unat (p_filesz ph) \<le> length data" using s(4) assms(3) by simp
qed

subsection \<open>The image table\<close>

text \<open>Every used image is within its buffer and starts inside itself.\<close>

definition image_ok :: "elf_image \<Rightarrow> bool" where
  "image_ok im \<longleftrightarrow> (im_used im \<longrightarrow>
     path_ok (im_path im) \<and> unat (mem_size im) \<le> ELF_IMAGE_MEM_MAX
     \<and> (mem_size im \<noteq> 0 \<longrightarrow> base_vaddr im \<le> entry_vaddr im
          \<and> entry_vaddr im - base_vaddr im < mem_size im))"

definition images_ok :: "elf_image list \<Rightarrow> bool" where
  "images_ok imgs \<longleftrightarrow> (\<forall>im \<in> set imgs. image_ok im) \<and> keys_distinct im_used im_path imgs"

lemma images_ok_init: "images_ok elf_init"
  by (auto simp: images_ok_def elf_init_def image_ok_def keys_distinct_def)

lemma elf_find_norm:
  assumes "images_ok imgs"
  shows "elf_find_by_path imgs p = find_index (\<lambda>im. im_used im \<and> im_path im = norm_path p) imgs"
proof -
  have eq: "(im_used f \<and> k_strcmp (im_path f) (norm_path p) = 0) = (im_used f \<and> im_path f = norm_path p)"
    if "f \<in> set imgs" for f
    using assms that by (auto simp: images_ok_def image_ok_def k_strcmp_eq_iff)
  have "find_index P xs = find_index Q xs" if "\<And>x. x \<in> set xs \<Longrightarrow> P x = Q x"
    for P Q :: "elf_image \<Rightarrow> bool" and xs
    using that by (induction xs) auto
  from this [OF eq] show ?thesis by (simp add: elf_find_by_path_def)
qed

lemma elf_alloc_spec:
  assumes ok: "images_ok imgs" and a: "elf_alloc_slot imgs p = (imgs', r)"
  shows "r = None \<Longrightarrow> imgs' = imgs"
    and "r = Some i \<Longrightarrow> images_ok imgs' \<and> i < length imgs \<and> im_used (imgs' ! i)
      \<and> im_path (imgs' ! i) = norm_path p \<and> imgs' = imgs[i := imgs' ! i]"
proof -
  show "imgs' = imgs" if "r = None" using a that by (auto simp: elf_alloc_slot_def split: option.splits)
  assume r: "r = Some i"
  show "images_ok imgs' \<and> i < length imgs \<and> im_used (imgs' ! i)
      \<and> im_path (imgs' ! i) = norm_path p \<and> imgs' = imgs[i := imgs' ! i]"
  proof (cases "elf_find_by_path imgs p")
    case (Some j)
    with a r have "imgs' = imgs" "i = j" by (auto simp: elf_alloc_slot_def)
    with Some ok show ?thesis by (auto simp: elf_find_norm [OF ok] dest: find_indexD)
  next
    case None
    define im where "im = \<lparr> im_used = True, im_path = k_strlcpy (im_path (imgs ! i)) (norm_path p) VFS_MAX_PATH,
       base_vaddr = 0, entry_vaddr = 0, mem_size = 0, loaded_segments = 0, im_memory = (\<lambda>_. 0) \<rparr>"
    have i: "find_index (\<lambda>im. \<not> im_used im) imgs = Some i" and imgs': "imgs' = imgs[i := im]"
      using a r None by (auto simp: elf_alloc_slot_def im_def split: option.splits)
    then have lt: "i < length imgs" by (auto dest: find_indexD)
    have im: "im_used im" "im_path im = norm_path p" "image_ok im"
      by (simp_all add: im_def image_ok_def)
    have fresh: "find_index (\<lambda>im. im_used im \<and> im_path im = norm_path p) imgs = None"
      using None by (simp add: elf_find_norm [OF ok])
    have "keys_distinct im_used im_path imgs'"
      unfolding imgs'
    proof (rule keys_distinct_update_fresh [OF _ lt])
      show "keys_distinct im_used im_path imgs" using ok by (simp add: images_ok_def)
      fix j assume "j < length imgs" "im_used (imgs ! j)" "im_path (imgs ! j) = im_path im"
      with fresh im(2) show "j = i" by (auto simp: find_index_None)
    qed
    moreover have "\<forall>im \<in> set imgs'. image_ok im"
      using ok im(3) set_update_subset_insert [of imgs i im] by (auto simp: imgs' images_ok_def)
    ultimately show ?thesis using lt im by (simp add: images_ok_def imgs')
  qed
qed

text \<open>The loader as a whole, on a file with no wrapping segment.\<close>

lemma elf_load_spec:
  assumes ok: "images_ok imgs" and nw: "\<forall>ph \<in> set (phdrs data). seg_no_wrap ph"
  shows "\<exists>imgs' res slot. elf_load imgs data (length data) path = Some (imgs', res, slot) \<and> images_ok imgs'
    \<and> (res \<noteq> ELF_LOAD_OK \<longrightarrow> imgs' = imgs \<and> slot = None)
    \<and> (res = ELF_LOAD_OK \<longrightarrow> (\<exists>i. slot = Some i \<and> i < length imgs \<and> imgs' = imgs[i := imgs' ! i]
         \<and> im_used (imgs' ! i) \<and> im_path (imgs' ! i) = norm_path path
         \<and> entry_vaddr (imgs' ! i) = e_entry (ehdr_of data) \<and> 0 < mem_size (imgs' ! i)
         \<and> loaded_segments (imgs' ! i) = of_nat (length (loads (phdrs data)))
         \<and> im_memory (imgs' ! i) = image_byte data (base_vaddr (imgs' ! i)) (loads (phdrs data)) 0))"
proof -
  let ?fail = "\<lambda>res. elf_load imgs data (length data) path = Some (imgs, res, None) \<and> res \<noteq> ELF_LOAD_OK"
  have fail: ?thesis if "?fail res" for res using that ok by auto
  let ?eh = "ehdr_of data" and ?sz = "length data"
  show ?thesis
  proof (cases "?sz < 52 \<or> \<not> elf_ident_ok ?eh \<or> e_phentsize ?eh \<noteq> 32 \<or> e_phnum ?eh = 0
      \<or> unat (e_phoff ?eh) + unat (e_phnum ?eh) * 32 > ?sz")
    case True
    then show ?thesis by (intro fail [of ELF_LOAD_BAD_FORMAT]) (auto simp: elf_load_def Let_def)
  next
    case hdr: False
    show ?thesis
    proof (cases "elf_scan ?sz (phdrs data) (0xFFFFFFFF, 0, False)")
      case None
      with hdr show ?thesis by (intro fail [of ELF_LOAD_BAD_FORMAT]) (auto simp: elf_load_def Let_def)
    next
      case (Some r)
      then obtain minv maxv hl where scan: "elf_scan ?sz (phdrs data) (0xFFFFFFFF, 0, False) = Some (minv, maxv, hl)"
        by (cases r) auto
      have eq: "elf_load imgs data ?sz path =
        (if \<not> hl \<or> minv \<ge> maxv then Some (imgs, ELF_LOAD_BAD_FORMAT, None)
         else if maxv - minv = 0 \<or> unat (maxv - minv) > ELF_IMAGE_MEM_MAX then Some (imgs, ELF_LOAD_TOO_LARGE, None)
         else if e_entry ?eh < minv \<or> e_entry ?eh \<ge> maxv then Some (imgs, ELF_LOAD_BAD_FORMAT, None)
         else (case elf_alloc_slot imgs path of
                     (imgs1, None) \<Rightarrow> Some (imgs1, ELF_LOAD_NO_SLOT, None)
                   | (imgs1, Some i) \<Rightarrow>
                       map_option (\<lambda>(m, n).
                         (imgs1[i := (imgs1 ! i)\<lparr> base_vaddr := minv, entry_vaddr := e_entry ?eh,
                            mem_size := maxv - minv, loaded_segments := n, im_memory := m \<rparr>],
                          ELF_LOAD_OK, Some i))
                         (elf_copy data minv (phdrs data) ((\<lambda>_. 0), 0))))"
        using hdr by (simp add: elf_load_def Let_def scan not_less)
      consider (bad) "\<not> hl \<or> minv \<ge> maxv" | (large) "hl" "minv < maxv" "unat (maxv - minv) > ELF_IMAGE_MEM_MAX"
        | (ent) "hl" "minv < maxv" "unat (maxv - minv) \<le> ELF_IMAGE_MEM_MAX" "e_entry ?eh < minv \<or> e_entry ?eh \<ge> maxv"
        | (go) "hl" "minv < maxv" "unat (maxv - minv) \<le> ELF_IMAGE_MEM_MAX" "minv \<le> e_entry ?eh" "e_entry ?eh < maxv"
        by (meson not_le)
      then show ?thesis
      proof cases
        case bad
        then show ?thesis by (intro fail [of ELF_LOAD_BAD_FORMAT]) (simp add: eq)
      next
        case large
        then show ?thesis by (intro fail [of ELF_LOAD_TOO_LARGE]) (simp add: eq)
      next
        case ent
        then show ?thesis by (intro fail [of ELF_LOAD_BAD_FORMAT]) (simp add: eq)
      next
        case go
        obtain imgs1 r where a: "elf_alloc_slot imgs path = (imgs1, r)" by fastforce
        show ?thesis
        proof (cases r)
          case None
          with elf_alloc_spec(1) [OF ok a] a go show ?thesis
            by (intro fail [of ELF_LOAD_NO_SLOT]) (auto simp: eq)
        next
          case (Some i)
          note al = elf_alloc_spec(2) [OF ok a Some]
          obtain m' where c: "elf_copy data minv (phdrs data) ((\<lambda>_. 0), 0)
              = Some (m', 0 + of_nat (length (loads (phdrs data))))"
            "\<forall>a. m' a = image_byte data minv (loads (phdrs data)) 0 a"
            using elf_copy_spec [OF scan_bounds [OF scan go(3) order_refl nw], of "\<lambda>_. 0" 0] by blast
          define im where "im = (imgs1 ! i)\<lparr> base_vaddr := minv, entry_vaddr := e_entry ?eh,
             mem_size := maxv - minv, loaded_segments := of_nat (length (loads (phdrs data))), im_memory := m' \<rparr>"
          have ret: "elf_load imgs data ?sz path = Some (imgs1[i := im], ELF_LOAD_OK, Some i)"
            using go a Some c(1) by (auto simp: eq im_def)
          have d: "unat (maxv - minv) = unat maxv - unat minv"
            using go(2) by (intro unat_sub) simp
          then have "e_entry ?eh - minv < maxv - minv"
            using go by (simp add: word_less_nat_alt word_le_nat_alt unat_sub)
          moreover have "0 < maxv - minv" using go(2) d by (simp add: word_less_nat_alt)
          ultimately have im: "im_used im" "im_path im = norm_path path" "image_ok im" "0 < mem_size im"
            using al go by (auto simp: im_def image_ok_def)
          have len1: "length imgs1 = length imgs" using al by (metis length_list_update)
          have "keys_distinct im_used im_path (imgs1[i := im])"
            using al im len1 by (intro keys_distinct_update_same) (auto simp: images_ok_def)
          then have "images_ok (imgs1[i := im])"
            using al im(3) set_update_subset_insert [of imgs1 i im] by (auto simp: images_ok_def)
          moreover have "imgs1[i := im] = imgs[i := im]"
            using al by (metis list_update_overwrite)
          moreover have "im_memory im = image_byte data minv (loads (phdrs data)) 0"
            using c(2) by (simp add: im_def fun_eq_iff)
          ultimately show ?thesis using ret im al by (auto simp: im_def)
        qed
      qed
    qed
  qed
qed

subsection \<open>Properties\<close>

text \<open>Three small files: a good one with one segment of two bytes at address 4096, one whose
  \<open>p_offset + p_filesz\<close> wraps, and the bytes of a header.\<close>

definition elf_file :: "u32 \<Rightarrow> u32 \<Rightarrow> u8 list" where
  "elf_file off filesz =
     [0x7F, 0x45, 0x4C, 0x46, 1, 1] @ replicate 18 0 @ le32_bytes 4096 @ le32_bytes 52
       @ replicate 10 0 @ [32, 0, 1, 0] @ replicate 6 0
     @ le32_bytes 1 @ le32_bytes off @ le32_bytes 4096 @ replicate 4 0 @ le32_bytes filesz
       @ le32_bytes 64 @ replicate 8 0 @ [0x90, 0xC3]"

definition elf_table :: vfs where
  "elf_table = small_table\<lparr> g_vfs_count := 1, vfs_files := [
     \<lparr> vf_used = True, vf_writable = False, vf_path = ''/e'', vf_ro_data = Some (elf_file 84 2),
       vf_ro_size = 86, vf_rw_data = 0, vf_rw_cap = 0, vf_rw_size = 0 \<rparr>, empty_file] \<rparr>"

lemma elf_table_read: "vfs_read elf_table ''/e'' = Some (elf_file 84 2, length (elf_file 84 2))"
proof -
  have "norm_path ''/e'' = ''/e''"
    by (simp add: norm_path_take kstr_simps Let_def k_is_space_def)
  moreover have "length (elf_file 84 2) = 86" by (simp add: elf_file_def)
  ultimately show ?thesis
    by (simp add: elf_table_def small_table_def vfs_read_def vfs_find_def kstr_simps file_bytes_def)
qed

lemma phdrs_elf_file:
  "phdrs (elf_file off sz) = [\<lparr> p_type = 1, p_offset = off, p_vaddr = 4096, p_filesz = sz, p_memsz = 64 \<rparr>]"
proof -
  have "e_phoff (ehdr_of (elf_file off sz)) = 52" "e_phnum (ehdr_of (elf_file off sz)) = 1"
    by (simp_all add: ehdr_of_def elf_file_def byte_simps le32_le32_bytes)
      (simp add: le16_def byte_simps)
  moreover have "phdr_at (elf_file off sz) 52
      = \<lparr> p_type = 1, p_offset = off, p_vaddr = 4096, p_filesz = sz, p_memsz = 64 \<rparr>"
    by (simp add: phdr_at_def elf_file_def byte_simps le32_le32_bytes)
  ultimately show ?thesis by (simp add: phdrs_def)
qed

lemma elf_ident_elf_file: "elf_ident_ok (ehdr_of (elf_file off n))"
  by (simp add: elf_ident_ok_def ehdr_of_def elf_file_def)

text \<open>C22: on a file whose segments do not wrap the 32-bit address and offset sums, the loader
  never touches memory outside the file or the image buffer, keeps the image table well
  formed, leaves it alone unless it reports success, and on success the image of the path
  holds at every address the byte of the last segment that covers it, and 0 elsewhere.\<close>

theorem elf_load_correct:
  assumes "images_ok imgs" and "vfs_read v path = Some (data, length data)"
    and "\<forall>ph \<in> set (phdrs data). seg_no_wrap ph"
  shows "\<exists>imgs' res slot. elf_load_from_vfs v imgs path = Some (imgs', res, slot) \<and> images_ok imgs'
    \<and> (res \<noteq> ELF_LOAD_OK \<longrightarrow> imgs' = imgs \<and> slot = None)
    \<and> (res = ELF_LOAD_OK \<longrightarrow> (\<exists>i. slot = Some i \<and> i < length imgs \<and> imgs' = imgs[i := imgs' ! i]
         \<and> im_used (imgs' ! i) \<and> im_path (imgs' ! i) = norm_path path
         \<and> entry_vaddr (imgs' ! i) = e_entry (ehdr_of data) \<and> 0 < mem_size (imgs' ! i)
         \<and> loaded_segments (imgs' ! i) = of_nat (length (loads (phdrs data)))
         \<and> im_memory (imgs' ! i) = image_byte data (base_vaddr (imgs' ! i)) (loads (phdrs data)) 0))"
  using elf_load_spec [OF assms(1,3)] assms(2) by (simp add: elf_load_from_vfs_def)

theorem elf_load_correct_witness:
  "\<exists>imgs' res slot. elf_load_from_vfs elf_table elf_init ''/e'' = Some (imgs', res, slot) \<and> images_ok imgs'
    \<and> (res \<noteq> ELF_LOAD_OK \<longrightarrow> imgs' = elf_init \<and> slot = None)
    \<and> (res = ELF_LOAD_OK \<longrightarrow> (\<exists>i. slot = Some i \<and> i < length elf_init \<and> imgs' = elf_init[i := imgs' ! i]
         \<and> im_used (imgs' ! i) \<and> im_path (imgs' ! i) = norm_path ''/e''
         \<and> entry_vaddr (imgs' ! i) = e_entry (ehdr_of (elf_file 84 2)) \<and> 0 < mem_size (imgs' ! i)
         \<and> loaded_segments (imgs' ! i) = of_nat (length (loads (phdrs (elf_file 84 2))))
         \<and> im_memory (imgs' ! i)
             = image_byte (elf_file 84 2) (base_vaddr (imgs' ! i)) (loads (phdrs (elf_file 84 2))) 0))"
  by (rule elf_load_correct [OF images_ok_init elf_table_read])
    (simp add: phdrs_elf_file seg_no_wrap_def)

text \<open>The good file is indeed loaded, and the check is needed: the file whose offset and
  length wrap to 8 passes all the tests, and the copy then reads 4 GB past the file.\<close>

lemma elf_file_header:
  "length (elf_file off n) = 86" "e_entry (ehdr_of (elf_file off n)) = 4096"
  "e_phoff (ehdr_of (elf_file off n)) = 52"
  "e_phentsize (ehdr_of (elf_file off n)) = 32" "e_phnum (ehdr_of (elf_file off n)) = 1"
  by (simp_all add: ehdr_of_def elf_file_def byte_simps le32_le32_bytes)
    (simp_all add: le16_def byte_simps)

lemma elf_slot_init: "elf_alloc_slot elf_init p = (fst (elf_alloc_slot elf_init p), Some 0)"
  by (simp add: elf_alloc_slot_def elf_find_by_path_def elf_init_def ELF_MAX_IMAGES_def
      numeral_eq_Suc)

lemma elf_load_good: "\<exists>imgs. elf_load elf_init (elf_file 84 2) 86 p = Some (imgs, ELF_LOAD_OK, Some 0)"
proof -
  obtain imgs where a: "elf_alloc_slot elf_init p = (imgs, Some 0)" using elf_slot_init by blast
  show ?thesis
    by (simp add: elf_load_def elf_file_header elf_ident_elf_file phdrs_elf_file a Let_def
        ELF_IMAGE_MEM_MAX_def)
qed

lemma elf_load_wrap_faults: "elf_load elf_init (elf_file 0xFFFFFFF8 16) 86 p = None"
proof -
  obtain imgs where a: "elf_alloc_slot elf_init p = (imgs, Some 0)" using elf_slot_init by blast
  show ?thesis
    by (simp add: elf_load_def elf_file_header elf_ident_elf_file phdrs_elf_file a Let_def
        ELF_IMAGE_MEM_MAX_def)
qed

end
