(* ===== verification/RoundRobin.thy ===== *)
theory RoundRobin
  imports Prelude
begin

text \<open>
  Cyclic scans over a table of \<open>n\<close> slots and the contract of a round-robin scheduler that is
  built on one: starting after the current position, the first runnable slot runs.
\<close>

subsection \<open>Cyclic positions\<close>

definition cyc_slot :: "nat \<Rightarrow> nat \<Rightarrow> nat \<Rightarrow> nat" where
  "cyc_slot n base k = (base + 1 + k) mod n"

definition cyc_dist :: "nat \<Rightarrow> nat \<Rightarrow> nat \<Rightarrow> nat" where
  "cyc_dist n base j = (j + n - base - 1) mod n"

lemma cyc_slot_lt [simp]: "0 < n \<Longrightarrow> cyc_slot n base k < n"
  by (simp add: cyc_slot_def)

lemma cyc_dist_lt [simp]: "0 < n \<Longrightarrow> cyc_dist n base j < n"
  by (simp add: cyc_dist_def)

lemma cyc_slot_dist:
  assumes "base < n" and "j < n"
  shows "cyc_slot n base (cyc_dist n base j) = j"
proof -
  have "cyc_slot n base (cyc_dist n base j) = (base + 1 + (j + n - base - 1)) mod n"
    unfolding cyc_slot_def cyc_dist_def by (rule mod_add_right_eq)
  also have "base + 1 + (j + n - base - 1) = j + n" using assms(1) by simp
  finally show ?thesis using assms(2) by simp
qed

lemma cyc_dist_slot:
  assumes "base < n" and "k < n"
  shows "cyc_dist n base (cyc_slot n base k) = k"
proof -
  have "cyc_dist n base (cyc_slot n base k) = ((base + 1 + k) mod n + (n - base - 1)) mod n"
    using assms(1) by (simp add: cyc_slot_def cyc_dist_def)
  also have "\<dots> = (base + 1 + k + (n - base - 1)) mod n" by (rule mod_add_left_eq)
  also have "base + 1 + k + (n - base - 1) = k + n" using assms(1) by simp
  finally show ?thesis using assms(2) by simp
qed

lemma cyc_dist_step:
  assumes "base < n" and "k < d" and "d < n"
  shows "cyc_dist n (cyc_slot n base k) (cyc_slot n base d) = d - k - 1"
proof -
  have "cyc_slot n (cyc_slot n base k) (d - k - 1) = ((base + 1 + k) mod n + (1 + (d - k - 1))) mod n"
    by (simp add: cyc_slot_def add.assoc)
  also have "\<dots> = (base + 1 + k + (1 + (d - k - 1))) mod n" by (rule mod_add_left_eq)
  also have "base + 1 + k + (1 + (d - k - 1)) = base + 1 + d" using assms(2) by simp
  finally have "cyc_slot n base d = cyc_slot n (cyc_slot n base k) (d - k - 1)" by (simp add: cyc_slot_def)
  then show ?thesis using cyc_dist_slot [of "cyc_slot n base k" n "d - k - 1"] assms by simp
qed

text \<open>The scan loop \<open>for (i = 0; i < n; ++i) idx = (base + 1 + i) % n\<close>.\<close>

lemma find_map_upt:
  "find P (map f [0..<n]) = (case find_index (\<lambda>k. P (f k)) [0..<n] of None \<Rightarrow> None | Some k \<Rightarrow> Some (f k))"
proof -
  have "find P (map f xs) = (case find_index (\<lambda>k. P (f k)) xs of None \<Rightarrow> None | Some k \<Rightarrow> Some (f (xs ! k)))" for xs
    by (induction xs) (auto split: option.splits)
  from this [of "[0..<n]"] show ?thesis
    by (auto split: option.splits dest!: find_indexD(1))
qed

subsection \<open>The scheduler contract\<close>

locale round_robin =
  fixes n :: nat
    and inv :: "'s \<Rightarrow> bool"
    and runnable :: "'s \<Rightarrow> nat \<Rightarrow> bool"
    and pos :: "'s \<Rightarrow> nat"
    and tick :: "'s \<Rightarrow> 's"
  assumes pos_lt: "inv s \<Longrightarrow> pos s < n"
    and tick_inv: "inv s \<Longrightarrow> inv (tick s)"
    and tick_runnable: "inv s \<Longrightarrow> i < n \<Longrightarrow> runnable (tick s) i = runnable s i"
    and tick_first: "inv s \<Longrightarrow> i < n \<Longrightarrow> runnable s i \<Longrightarrow>
      \<exists>k < n. runnable s (cyc_slot n (pos s) k) \<and> (\<forall>m < k. \<not> runnable s (cyc_slot n (pos s) m))
        \<and> pos (tick s) = cyc_slot n (pos s) k"
begin

text \<open>A runnable slot is chosen at once or comes strictly closer.\<close>

lemma tick_closer:
  assumes "inv s" and "j < n" and "runnable s j"
  shows "pos (tick s) = j \<or> cyc_dist n (pos (tick s)) j < cyc_dist n (pos s) j"
proof -
  define d where "d = cyc_dist n (pos s) j"
  have p: "pos s < n" using pos_lt [OF assms(1)] .
  have j: "cyc_slot n (pos s) d = j" and d: "d < n"
    using cyc_slot_dist [OF p assms(2)] assms(2) by (simp_all add: d_def)
  obtain k where k: "k < n" "\<forall>m < k. \<not> runnable s (cyc_slot n (pos s) m)" "pos (tick s) = cyc_slot n (pos s) k"
    using tick_first [OF assms] by blast
  have "k \<le> d" using k(2) j assms(3) by (metis not_le)
  then consider "k = d" | "k < d" by linarith
  then show ?thesis
  proof cases
    case 1
    with k(3) j show ?thesis by simp
  next
    case 2
    with cyc_dist_step [OF p 2 d] k(3) j show ?thesis by (simp add: d_def [symmetric])
  qed
qed

text \<open>No starvation: every runnable slot runs within \<open>n\<close> ticks.\<close>

lemma runs_soon:
  assumes "inv s" and "j < n" and "runnable s j"
  shows "\<exists>m < n. pos ((tick ^^ Suc m) s) = j"
proof -
  have "\<exists>m \<le> d. pos ((tick ^^ Suc m) s) = j" if "cyc_dist n (pos s) j \<le> d" "inv s" "runnable s j" for d s
    using that
  proof (induction d arbitrary: s)
    case 0
    with tick_closer [OF 0(2) assms(2) 0(3)] show ?case by auto
  next
    case (Suc d)
    show ?case
    proof (cases "pos (tick s) = j")
      case True
      then show ?thesis by (intro exI [of _ 0]) simp
    next
      case False
      with tick_closer [OF Suc.prems(2) assms(2) Suc.prems(3)] Suc.prems(1)
      have "cyc_dist n (pos (tick s)) j \<le> d" by auto
      moreover have "runnable (tick s) j" using tick_runnable [OF Suc.prems(2) assms(2)] Suc.prems(3) by simp
      ultimately obtain m where "m \<le> d" "pos ((tick ^^ Suc m) (tick s)) = j"
        using Suc.IH tick_inv [OF Suc.prems(2)] by blast
      then show ?thesis by (intro exI [of _ "Suc m"]) (simp add: funpow_swap1)
    qed
  qed
  from this [OF order_refl assms(1,3)] obtain m where m: "m \<le> cyc_dist n (pos s) j" "pos ((tick ^^ Suc m) s) = j"
    by blast
  have "cyc_dist n (pos s) j < n" using assms(2) by simp
  with m(1) have "m < n" by (rule le_less_trans)
  with m(2) show ?thesis by blast
qed

end

end
