(* ===== verification/KProc.thy ===== *)
theory KProc
  imports KElf RoundRobin
begin

text \<open>
  The process table and the round-robin scheduler of \<^verbatim>\<open>src/kernel/vfs_sched.c\<close>.  The
  table is a list of 32 slots; \<open>g_proc_current\<close> is -1 or a slot index.  The process counter
  is a C \<open>int\<close>; its overflow is undefined and gives \<open>None\<close>.
\<close>

subsection \<open>State\<close>

definition PROC_MAX :: nat where "PROC_MAX = 32"

datatype proc_state = PROC_UNUSED | PROC_READY | PROC_RUNNING | PROC_SLEEP

record process =
  p_used :: bool
  p_pid :: int
  p_name :: string
  p_state :: proc_state
  p_cpu_ticks :: u32
  p_work_units :: u32
  p_is_user :: bool
  p_elf_slot :: int
  p_user_pc :: u32

record sched =
  g_processes :: "process list"
  g_proc_current :: int
  g_next_pid :: int

definition zero_process :: process where
  "zero_process = \<lparr> p_used = False, p_pid = 0, p_name = [], p_state = PROC_UNUSED, p_cpu_ticks = 0,
     p_work_units = 0, p_is_user = False, p_elf_slot = 0, p_user_pc = 0 \<rparr>"

definition proc_state_name :: "proc_state \<Rightarrow> string" where
  "proc_state_name st = (case st of PROC_READY \<Rightarrow> ''READY'' | PROC_RUNNING \<Rightarrow> ''RUN''
     | PROC_SLEEP \<Rightarrow> ''SLEEP'' | PROC_UNUSED \<Rightarrow> ''UNUSED'')"

definition proc_count :: "sched \<Rightarrow> nat" where
  "proc_count s = count_slots p_used (g_processes s)"

definition proc_running_pid :: "sched \<Rightarrow> int" where
  "proc_running_pid s =
     (let c = g_proc_current s
      in if 0 \<le> c \<and> c < int PROC_MAX \<and> p_used (g_processes s ! nat c)
         then p_pid (g_processes s ! nat c) else -1)"

subsection \<open>Creation and removal\<close>

definition proc_alloc :: "sched \<Rightarrow> string \<Rightarrow> bool \<Rightarrow> int \<Rightarrow> u32 \<Rightarrow> (sched \<times> int) option" where
  "proc_alloc s name is_user elf_slot pc0 =
     (case find_index (\<lambda>p. \<not> p_used p) (g_processes s) of
        None \<Rightarrow> Some (s, -1)
      | Some i \<Rightarrow>
          if g_next_pid s = INT_MAX then None
          else Some (s\<lparr> g_processes := (g_processes s)[i :=
                 \<lparr> p_used = True, p_pid = g_next_pid s,
                   p_name = k_strlcpy (p_name (g_processes s ! i)) name 24,
                   p_state = PROC_READY, p_cpu_ticks = 0, p_work_units = 0,
                   p_is_user = is_user, p_elf_slot = elf_slot, p_user_pc = pc0 \<rparr>],
               g_next_pid := g_next_pid s + 1 \<rparr>, g_next_pid s))"

definition proc_spawn :: "sched \<Rightarrow> string \<Rightarrow> (sched \<times> int) option" where
  "proc_spawn s name = proc_alloc s name False (-1) 0"

fun elf_name_loop :: "string \<Rightarrow> string \<Rightarrow> string" where
  "elf_name_loop name [] = name"
| "elf_name_loop name (c # path) =
     (if c \<noteq> NUL \<and> length name + 1 < 24
      then elf_name_loop (name @ [if c = CHR ''/'' then CHR ''.'' else c]) path
      else name)"

definition proc_spawn_elf :: "elf_image list \<Rightarrow> sched \<Rightarrow> string \<Rightarrow> int \<Rightarrow> (sched \<times> int) option" where
  "proc_spawn_elf imgs s path slot =
     (let name = elf_name_loop (k_append_str 24 [] ''elf:'') path
      in if slot < 0 \<or> slot \<ge> int ELF_MAX_IMAGES \<or> \<not> im_used (imgs ! nat slot) then Some (s, -1)
         else proc_alloc s name True slot (entry_vaddr (imgs ! nat slot) - base_vaddr (imgs ! nat slot)))"

definition proc_kill :: "sched \<Rightarrow> int \<Rightarrow> sched \<times> bool" where
  "proc_kill s pid =
     (case find_index (\<lambda>p. p_used p \<and> p_pid p = pid) (g_processes s) of
        None \<Rightarrow> (s, False)
      | Some i \<Rightarrow>
          (s\<lparr> g_processes := (g_processes s)[i := (g_processes s ! i)\<lparr> p_used := False,
                p_state := PROC_UNUSED, p_is_user := False, p_elf_slot := -1, p_user_pc := 0 \<rparr>],
              g_proc_current := (if g_proc_current s = int i then -1 else g_proc_current s) \<rparr>, True))"

fun spawn_all :: "sched \<Rightarrow> string list \<Rightarrow> sched option" where
  "spawn_all s [] = Some s"
| "spawn_all s (n # ns) = (case proc_spawn s n of None \<Rightarrow> None | Some (s', _) \<Rightarrow> spawn_all s' ns)"

definition proc_bootstrap :: "sched option" where
  "proc_bootstrap = spawn_all
     \<lparr> g_processes = replicate PROC_MAX zero_process, g_proc_current = -1, g_next_pid = 1 \<rparr>
     [''kernel'', ''compositor'', ''ridux-shell'', ''flushd'', ''ridux-fsd'', ''ps2-inputd'',
      ''rtc-tickd'', ''pci-bus'']"

subsection \<open>The tick\<close>

text \<open>The chosen process gets one tick; a user process consumes one byte of its image.\<close>

definition run_process :: "elf_image list \<Rightarrow> nat \<Rightarrow> process \<Rightarrow> process" where
  "run_process imgs idx p0 =
     (let p = p0\<lparr> p_state := PROC_RUNNING, p_cpu_ticks := p_cpu_ticks p0 + 1 \<rparr>;
          im = imgs ! nat (p_elf_slot p)
      in if p_is_user p \<and> 0 \<le> p_elf_slot p \<and> p_elf_slot p < int ELF_MAX_IMAGES
            \<and> im_used im \<and> mem_size im > 0
         then (let pc = p_user_pc p mod mem_size im; op = im_memory im (unat pc)
               in p\<lparr> p_user_pc := (pc + 1) mod mem_size im,
                     p_work_units := p_work_units p + (ucast (op AND 0x0F) + 1) \<rparr>)
         else p\<lparr> p_work_units := p_work_units p + of_nat (idx + 3) \<rparr>)"

definition demote_current :: "sched \<Rightarrow> process list" where
  "demote_current s =
     (let c = g_proc_current s; ps = g_processes s
      in if 0 \<le> c \<and> c < int PROC_MAX \<and> p_used (ps ! nat c) \<and> p_state (ps ! nat c) = PROC_RUNNING
         then ps[nat c := (ps ! nat c)\<lparr> p_state := PROC_READY \<rparr>] else ps)"

definition scheduler_tick :: "elf_image list \<Rightarrow> sched \<Rightarrow> sched" where
  "scheduler_tick imgs s =
     (let ps = demote_current s;
          base = (if g_proc_current s < 0 then 0 else nat (g_proc_current s))
      in case find (\<lambda>idx. p_used (ps ! idx) \<and> p_state (ps ! idx) = PROC_READY)
                (map (\<lambda>i. (base + 1 + i) mod PROC_MAX) [0..<PROC_MAX]) of
           None \<Rightarrow> s\<lparr> g_processes := ps, g_proc_current := -1 \<rparr>
         | Some idx \<Rightarrow> s\<lparr> g_processes := ps[idx := run_process imgs idx (ps ! idx)],
                            g_proc_current := int idx \<rparr>)"

subsection \<open>Invariant\<close>

text \<open>Process numbers are distinct, positive and below the counter; the current slot runs, and
  every other used slot is ready.\<close>

definition sched_ok :: "sched \<Rightarrow> bool" where
  "sched_ok s \<longleftrightarrow>
     length (g_processes s) = PROC_MAX \<and> keys_distinct p_used p_pid (g_processes s)
     \<and> -1 \<le> g_proc_current s \<and> g_proc_current s < int PROC_MAX
     \<and> 0 < g_next_pid s \<and> g_next_pid s \<le> INT_MAX
     \<and> (\<forall>i < PROC_MAX. p_used (g_processes s ! i) \<longrightarrow>
          0 < p_pid (g_processes s ! i) \<and> p_pid (g_processes s ! i) < g_next_pid s
          \<and> p_state (g_processes s ! i) = (if int i = g_proc_current s then PROC_RUNNING else PROC_READY))
     \<and> (0 \<le> g_proc_current s \<longrightarrow> p_used (g_processes s ! nat (g_proc_current s)))"

lemma sched_okD:
  assumes "sched_ok s"
  shows "length (g_processes s) = PROC_MAX" and "keys_distinct p_used p_pid (g_processes s)"
    and "g_proc_current s < int PROC_MAX" and "-1 \<le> g_proc_current s"
    and "\<And>i. i < PROC_MAX \<Longrightarrow> p_used (g_processes s ! i) \<Longrightarrow>
      p_state (g_processes s ! i) = (if int i = g_proc_current s then PROC_RUNNING else PROC_READY)"
  using assms by (auto simp: sched_ok_def)

lemma run_process_fields [simp]:
  "p_used (run_process imgs i p) = p_used p" "p_pid (run_process imgs i p) = p_pid p"
  "p_state (run_process imgs i p) = PROC_RUNNING"
  "p_cpu_ticks (run_process imgs i p) = p_cpu_ticks p + 1"
  "p_name (run_process imgs i p) = p_name p"
  by (simp_all add: run_process_def Let_def)

text \<open>Under the invariant the demotion makes every used slot ready and changes nothing else.\<close>

lemma demote_spec:
  assumes ok: "sched_ok s"
  shows "length (demote_current s) = PROC_MAX"
    and "\<And>i. i < PROC_MAX \<Longrightarrow> p_used (demote_current s ! i) = p_used (g_processes s ! i)
      \<and> p_pid (demote_current s ! i) = p_pid (g_processes s ! i)
      \<and> p_cpu_ticks (demote_current s ! i) = p_cpu_ticks (g_processes s ! i)
      \<and> (p_used (g_processes s ! i) \<longrightarrow> p_state (demote_current s ! i) = PROC_READY)"
proof -
  note D = sched_okD [OF ok]
  show "length (demote_current s) = PROC_MAX" using D(1) by (simp add: demote_current_def Let_def)
  fix i assume i: "i < PROC_MAX"
  show "p_used (demote_current s ! i) = p_used (g_processes s ! i)
      \<and> p_pid (demote_current s ! i) = p_pid (g_processes s ! i)
      \<and> p_cpu_ticks (demote_current s ! i) = p_cpu_ticks (g_processes s ! i)
      \<and> (p_used (g_processes s ! i) \<longrightarrow> p_state (demote_current s ! i) = PROC_READY)"
    using D(5) [OF i] D(1,3) i by (auto simp: demote_current_def Let_def nth_list_update)
qed

text \<open>The position of a slot in the scan that starts after the current one.\<close>

definition scan_base :: "sched \<Rightarrow> nat" where
  "scan_base s = (if g_proc_current s < 0 then 0 else nat (g_proc_current s))"

lemma PROC_MAX_pos [simp]: "0 < PROC_MAX"
  by (simp add: PROC_MAX_def)

text \<open>What a tick does, in one statement: the first used slot after the current one runs.\<close>

lemma scheduler_tick_spec:
  assumes ok: "sched_ok s"
  shows "(\<forall>i < PROC_MAX. \<not> p_used (g_processes s ! i)) \<Longrightarrow>
       scheduler_tick imgs s = s\<lparr> g_proc_current := -1 \<rparr>"
    and "(\<exists>i < PROC_MAX. p_used (g_processes s ! i)) \<Longrightarrow>
       \<exists>k < PROC_MAX. let idx = cyc_slot PROC_MAX (scan_base s) k
         in p_used (g_processes s ! idx) \<and> (\<forall>j < k. \<not> p_used (g_processes s ! cyc_slot PROC_MAX (scan_base s) j))
            \<and> scheduler_tick imgs s = s\<lparr> g_processes := (demote_current s)[idx := run_process imgs idx (demote_current s ! idx)],
                 g_proc_current := int idx \<rparr>"
proof -
  let ?ps = "demote_current s" and ?f = "cyc_slot PROC_MAX (scan_base s)"
  let ?R = "\<lambda>idx. p_used (?ps ! idx) \<and> p_state (?ps ! idx) = PROC_READY"
  note D = demote_spec [OF ok]
  have R: "?R idx \<longleftrightarrow> p_used (g_processes s ! idx)" if "idx < PROC_MAX" for idx using D(2) [OF that] by blast
  have tick: "scheduler_tick imgs s = (case find ?R (map ?f [0..<PROC_MAX]) of
        None \<Rightarrow> s\<lparr> g_processes := ?ps, g_proc_current := -1 \<rparr>
      | Some idx \<Rightarrow> s\<lparr> g_processes := ?ps[idx := run_process imgs idx (?ps ! idx)], g_proc_current := int idx \<rparr>)"
    by (simp add: scheduler_tick_def scan_base_def cyc_slot_def [abs_def] Let_def)
  show "scheduler_tick imgs s = s\<lparr> g_proc_current := -1 \<rparr>" if none: "\<forall>i < PROC_MAX. \<not> p_used (g_processes s ! i)"
  proof -
    have "find ?R (map ?f [0..<PROC_MAX]) = None"
      using none R by (auto simp: find_None_iff)
    moreover have "g_proc_current s = -1"
    proof (rule ccontr)
      assume "g_proc_current s \<noteq> -1"
      then have c: "0 \<le> g_proc_current s" "nat (g_proc_current s) < PROC_MAX"
        using sched_okD(3,4) [OF ok] by auto
      with ok have "p_used (g_processes s ! nat (g_proc_current s))" by (simp add: sched_ok_def)
      with none c(2) show False by blast
    qed
    then have "?ps = g_processes s" by (simp add: demote_current_def)
    ultimately show ?thesis by (simp add: tick)
  qed
  assume "\<exists>i < PROC_MAX. p_used (g_processes s ! i)"
  then obtain i where i: "i < PROC_MAX" "p_used (g_processes s ! i)" by blast
  have b: "scan_base s < PROC_MAX" using sched_okD(3) [OF ok] by (auto simp: scan_base_def PROC_MAX_def)
  have "\<exists>k \<in> set [0..<PROC_MAX]. ?R (?f k)"
    using R cyc_slot_dist [OF b i(1)] i by (intro bexI [of _ "cyc_dist PROC_MAX (scan_base s) i"]) auto
  then obtain k where k: "find_index (\<lambda>k. ?R (?f k)) [0..<PROC_MAX] = Some k"
    using find_index_ex [of "[0..<PROC_MAX]" "\<lambda>k. ?R (?f k)"] by blast
  then have kk: "k < PROC_MAX" "?R (?f k)" "\<forall>j < k. \<not> ?R (?f j)"
    by (auto simp: find_index_Some)
  have "scheduler_tick imgs s = s\<lparr> g_processes := ?ps[?f k := run_process imgs (?f k) (?ps ! ?f k)], g_proc_current := int (?f k) \<rparr>"
    by (simp add: tick find_map_upt k)
  with kk R show "\<exists>k < PROC_MAX. let idx = ?f k
         in p_used (g_processes s ! idx) \<and> (\<forall>j < k. \<not> p_used (g_processes s ! ?f j))
            \<and> scheduler_tick imgs s = s\<lparr> g_processes := ?ps[idx := run_process imgs idx (?ps ! idx)],
                 g_proc_current := int idx \<rparr>"
    by (intro exI [of _ k]) (auto simp: Let_def)
qed

lemma scan_base_lt: "sched_ok s \<Longrightarrow> scan_base s < PROC_MAX"
  using sched_okD(3) [of s] by (auto simp: scan_base_def PROC_MAX_def)

lemma tick_keeps:
  assumes ok: "sched_ok s"
  shows "sched_ok (scheduler_tick imgs s)"
    and "\<And>i. i < PROC_MAX \<Longrightarrow>
      p_used (g_processes (scheduler_tick imgs s) ! i) = p_used (g_processes s ! i)
      \<and> p_pid (g_processes (scheduler_tick imgs s) ! i) = p_pid (g_processes s ! i)
      \<and> p_cpu_ticks (g_processes (scheduler_tick imgs s) ! i)
        = p_cpu_ticks (g_processes s ! i) + (if int i = g_proc_current (scheduler_tick imgs s) then 1 else 0)"
proof -
  let ?s = "scheduler_tick imgs s" and ?ps = "demote_current s"
  note D = demote_spec [OF ok]
  have both: "sched_ok ?s \<and> (\<forall>i < PROC_MAX.
      p_used (g_processes ?s ! i) = p_used (g_processes s ! i)
      \<and> p_pid (g_processes ?s ! i) = p_pid (g_processes s ! i)
      \<and> p_cpu_ticks (g_processes ?s ! i) = p_cpu_ticks (g_processes s ! i) + (if int i = g_proc_current ?s then 1 else 0))"
  proof (cases "\<exists>i < PROC_MAX. p_used (g_processes s ! i)")
    case False
    then have e: "?s = s\<lparr> g_proc_current := -1 \<rparr>" using scheduler_tick_spec(1) [OF ok] by blast
    have "sched_ok ?s" using ok False unfolding e by (auto simp: sched_ok_def PROC_MAX_def)
    then show ?thesis by (simp add: e)
  next
    case True
    from scheduler_tick_spec(2) [OF ok True, of imgs] obtain k where
      k: "p_used (g_processes s ! cyc_slot PROC_MAX (scan_base s) k)"
        "?s = s\<lparr> g_processes := ?ps[cyc_slot PROC_MAX (scan_base s) k :=
             run_process imgs (cyc_slot PROC_MAX (scan_base s) k) (?ps ! cyc_slot PROC_MAX (scan_base s) k)],
           g_proc_current := int (cyc_slot PROC_MAX (scan_base s) k) \<rparr>"
      unfolding Let_def by blast
    define idx where "idx = cyc_slot PROC_MAX (scan_base s) k"
    have idx: "idx < PROC_MAX" "p_used (g_processes s ! idx)"
      and e: "?s = s\<lparr> g_processes := ?ps[idx := run_process imgs idx (?ps ! idx)], g_proc_current := int idx \<rparr>"
      using k by (simp_all add: idx_def)
    have nth: "g_processes ?s ! i = (if i = idx then run_process imgs idx (?ps ! idx) else ?ps ! i)" if "i < PROC_MAX" for i
      using D(1) that by (simp add: e nth_list_update)
    have fields: "p_used (g_processes ?s ! i) = p_used (g_processes s ! i)"
        "p_pid (g_processes ?s ! i) = p_pid (g_processes s ! i)"
        "p_cpu_ticks (g_processes ?s ! i) = p_cpu_ticks (g_processes s ! i) + (if i = idx then 1 else 0)"
        "p_used (g_processes s ! i) \<Longrightarrow> p_state (g_processes ?s ! i) = (if i = idx then PROC_RUNNING else PROC_READY)"
      if "i < PROC_MAX" for i
      using D(2) [OF that] by (auto simp: nth [OF that])
    have len: "length (g_processes ?s) = PROC_MAX" by (simp add: e D(1))
    have "keys_distinct p_used p_pid (g_processes ?s)"
      using sched_okD(1,2) [OF ok] by (auto simp: keys_distinct_def len fields)
    moreover have "g_next_pid ?s = g_next_pid s" "g_proc_current ?s = int idx" by (simp_all add: e)
    ultimately have "sched_ok ?s"
      using ok idx by (auto simp: sched_ok_def len fields)
    with \<open>g_proc_current ?s = int idx\<close> show ?thesis by (auto simp: fields)
  qed
  then show "sched_ok ?s" and "\<And>i. i < PROC_MAX \<Longrightarrow>
      p_used (g_processes ?s ! i) = p_used (g_processes s ! i)
      \<and> p_pid (g_processes ?s ! i) = p_pid (g_processes s ! i)
      \<and> p_cpu_ticks (g_processes ?s ! i) = p_cpu_ticks (g_processes s ! i) + (if int i = g_proc_current ?s then 1 else 0)"
    by blast+
qed

subsection \<open>Creation and removal keep the invariant\<close>

lemma proc_alloc_spec:
  assumes ok: "sched_ok s" and a: "proc_alloc s name u e pc = Some (s', pid)"
  shows "sched_ok s'"
    and "pid = -1 \<longleftrightarrow> (\<forall>p \<in> set (g_processes s). p_used p)"
    and "pid = -1 \<Longrightarrow> s' = s"
    and "pid \<noteq> -1 \<Longrightarrow> pid = g_next_pid s \<and> g_next_pid s' = pid + 1
      \<and> (\<exists>i < PROC_MAX. \<not> p_used (g_processes s ! i) \<and> p_used (g_processes s' ! i)
           \<and> p_pid (g_processes s' ! i) = pid \<and> p_state (g_processes s' ! i) = PROC_READY
           \<and> (\<forall>j. j \<noteq> i \<longrightarrow> g_processes s' ! j = g_processes s ! j))"
proof -
  have "sched_ok s' \<and> (pid = -1 \<longleftrightarrow> (\<forall>p \<in> set (g_processes s). p_used p)) \<and> (pid = -1 \<longrightarrow> s' = s)
    \<and> (pid \<noteq> -1 \<longrightarrow> pid = g_next_pid s \<and> g_next_pid s' = pid + 1
      \<and> (\<exists>i < PROC_MAX. \<not> p_used (g_processes s ! i) \<and> p_used (g_processes s' ! i)
           \<and> p_pid (g_processes s' ! i) = pid \<and> p_state (g_processes s' ! i) = PROC_READY
           \<and> (\<forall>j. j \<noteq> i \<longrightarrow> g_processes s' ! j = g_processes s ! j)))"
  proof (cases "find_index (\<lambda>p. \<not> p_used p) (g_processes s)")
    case None
    with a ok show ?thesis by (auto simp: proc_alloc_def find_index_None)
  next
    case (Some i)
    note D = sched_okD [OF ok]
    define p where "p = \<lparr> p_used = True, p_pid = g_next_pid s,
                   p_name = k_strlcpy (p_name (g_processes s ! i)) name 24,
                   p_state = PROC_READY, p_cpu_ticks = 0, p_work_units = 0,
                   p_is_user = u, p_elf_slot = e, p_user_pc = pc \<rparr>"
    have i: "i < PROC_MAX" "\<not> p_used (g_processes s ! i)" using find_indexD [OF Some] D(1) by auto
    have np: "g_next_pid s < INT_MAX" "pid = g_next_pid s" "pid > 0"
      and s': "s' = s\<lparr> g_processes := (g_processes s)[i := p], g_next_pid := g_next_pid s + 1 \<rparr>"
      using a Some ok by (auto simp: proc_alloc_def p_def sched_ok_def split: if_splits)
    have cur: "g_proc_current s \<noteq> int i" using i ok by (auto simp: sched_ok_def)
    have "keys_distinct p_used p_pid ((g_processes s)[i := p])"
    proof (rule keys_distinct_update_fresh [OF D(2)])
      show "i < length (g_processes s)" using i D(1) by simp
      fix j assume "j < length (g_processes s)" "p_used (g_processes s ! j)" "p_pid (g_processes s ! j) = p_pid p"
      then show "j = i" using ok by (auto simp: sched_ok_def p_def)
    qed
    moreover have "p_used (g_processes s ! j) \<Longrightarrow> j < PROC_MAX \<Longrightarrow> p_pid (g_processes s ! j) < g_next_pid s + 1" for j
      using ok by (auto simp: sched_ok_def)
    ultimately have "sched_ok s'"
      using ok i np cur D(1) by (auto simp: sched_ok_def s' p_def nth_list_update)
    moreover have "\<not> (\<forall>p \<in> set (g_processes s). p_used p)" using i D(1) by (metis nth_mem)
    ultimately show ?thesis using i np D(1) by (auto simp: s' p_def)
  qed
  then show "sched_ok s'" "pid = -1 \<longleftrightarrow> (\<forall>p \<in> set (g_processes s). p_used p)" "pid = -1 \<Longrightarrow> s' = s"
    "pid \<noteq> -1 \<Longrightarrow> pid = g_next_pid s \<and> g_next_pid s' = pid + 1
      \<and> (\<exists>i < PROC_MAX. \<not> p_used (g_processes s ! i) \<and> p_used (g_processes s' ! i)
           \<and> p_pid (g_processes s' ! i) = pid \<and> p_state (g_processes s' ! i) = PROC_READY
           \<and> (\<forall>j. j \<noteq> i \<longrightarrow> g_processes s' ! j = g_processes s ! j))" by blast+
qed

lemma proc_kill_spec:
  assumes ok: "sched_ok s"
  shows "sched_ok (fst (proc_kill s pid))"
    and "snd (proc_kill s pid) \<longleftrightarrow> (\<exists>p \<in> set (g_processes s). p_used p \<and> p_pid p = pid)"
    and "\<forall>p \<in> set (g_processes (fst (proc_kill s pid))). p_used p \<longrightarrow> p_pid p \<noteq> pid"
    and "\<And>i. i < PROC_MAX \<Longrightarrow> p_pid (g_processes s ! i) \<noteq> pid \<Longrightarrow>
      g_processes (fst (proc_kill s pid)) ! i = g_processes s ! i"
proof -
  let ?s = "fst (proc_kill s pid)"
  have "sched_ok ?s \<and> (snd (proc_kill s pid) \<longleftrightarrow> (\<exists>p \<in> set (g_processes s). p_used p \<and> p_pid p = pid))
    \<and> (\<forall>p \<in> set (g_processes ?s). p_used p \<longrightarrow> p_pid p \<noteq> pid)
    \<and> (\<forall>i < PROC_MAX. p_pid (g_processes s ! i) \<noteq> pid \<longrightarrow> g_processes ?s ! i = g_processes s ! i)"
  proof (cases "find_index (\<lambda>p. p_used p \<and> p_pid p = pid) (g_processes s)")
    case None
    then have "proc_kill s pid = (s, False)" by (simp add: proc_kill_def)
    with None ok show ?thesis by (auto simp: find_index_None)
  next
    case (Some i)
    note D = sched_okD [OF ok]
    define p where "p = (g_processes s ! i)\<lparr> p_used := False,
                p_state := PROC_UNUSED, p_is_user := False, p_elf_slot := -1, p_user_pc := 0 \<rparr>"
    have i: "i < PROC_MAX" "p_used (g_processes s ! i)" "p_pid (g_processes s ! i) = pid"
      using find_indexD [OF Some] D(1) by auto
    have s': "proc_kill s pid = (s\<lparr> g_processes := (g_processes s)[i := p],
        g_proc_current := (if g_proc_current s = int i then -1 else g_proc_current s) \<rparr>, True)"
      using Some by (simp add: proc_kill_def p_def)
    have un: "\<not> p_used p" by (simp add: p_def)
    have nth: "(g_processes s)[i := p] ! j = (if j = i then p else g_processes s ! j)" if "j < PROC_MAX" for j
      using D(1) that by (simp add: nth_list_update)
    have kd: "keys_distinct p_used p_pid ((g_processes s)[i := p])"
      using D(1) i un by (intro keys_distinct_update_same D(2)) auto
    define c where "c = (if g_proc_current s = int i then -1 else g_proc_current s)"
    have c: "-1 \<le> c" "c < int PROC_MAX" using D(3,4) by (auto simp: c_def)
    have slots: "0 < p_pid ((g_processes s)[i := p] ! j) \<and> p_pid ((g_processes s)[i := p] ! j) < g_next_pid s
        \<and> p_state ((g_processes s)[i := p] ! j) = (if int j = c then PROC_RUNNING else PROC_READY)"
      if "j < PROC_MAX" "p_used ((g_processes s)[i := p] ! j)" for j
    proof -
      have "j \<noteq> i" using that un by (auto simp: nth)
      then have "(int j = c) = (int j = g_proc_current s)" by (auto simp: c_def)
      with \<open>j \<noteq> i\<close> that ok show ?thesis by (auto simp: nth sched_ok_def)
    qed
    have cur: "p_used ((g_processes s)[i := p] ! nat c)" if "0 \<le> c"
    proof -
      have c': "c = g_proc_current s" "g_proc_current s \<noteq> int i" using that by (auto simp: c_def split: if_splits)
      then have "nat c \<noteq> i" "nat c < PROC_MAX" using that c(2) by auto
      with c' that ok show ?thesis by (simp add: nth sched_ok_def)
    qed
    have "sched_ok ?s"
      using ok kd c slots cur by (simp add: sched_ok_def s' c_def [symmetric])
    moreover have "p_used ((g_processes s)[i := p] ! j) \<longrightarrow> p_pid ((g_processes s)[i := p] ! j) \<noteq> pid" if "j < PROC_MAX" for j
      using keys_distinctD [OF D(2), of j i] that i un D(1) by (auto simp: nth)
    then have "\<forall>q \<in> set ((g_processes s)[i := p]). p_used q \<longrightarrow> p_pid q \<noteq> pid"
      using D(1) by (metis in_set_conv_nth length_list_update)
    moreover have "\<exists>p \<in> set (g_processes s). p_used p \<and> p_pid p = pid"
      using i D(1) by (metis nth_mem)
    ultimately show ?thesis using i by (auto simp: s' nth)
  qed
  then show "sched_ok ?s" "snd (proc_kill s pid) \<longleftrightarrow> (\<exists>p \<in> set (g_processes s). p_used p \<and> p_pid p = pid)"
    "\<forall>p \<in> set (g_processes ?s). p_used p \<longrightarrow> p_pid p \<noteq> pid"
    "\<And>i. i < PROC_MAX \<Longrightarrow> p_pid (g_processes s ! i) \<noteq> pid \<Longrightarrow> g_processes ?s ! i = g_processes s ! i" by blast+
qed

interpretation rr: round_robin PROC_MAX sched_ok "\<lambda>s i. p_used (g_processes s ! i)" scan_base "scheduler_tick imgs"
  for imgs :: "elf_image list"
proof (unfold_locales, goal_cases)
  case (1 s) then show ?case by (rule scan_base_lt)
next
  case (2 s) then show ?case by (rule tick_keeps(1))
next
  case (3 s i) then show ?case using tick_keeps(2) [of s i imgs] by blast
next
  case (4 s i)
  then have "\<exists>i < PROC_MAX. p_used (g_processes s ! i)" by blast
  from scheduler_tick_spec(2) [OF 4(1) this, of imgs] obtain k where "k < PROC_MAX"
      "p_used (g_processes s ! cyc_slot PROC_MAX (scan_base s) k)"
      "\<forall>j < k. \<not> p_used (g_processes s ! cyc_slot PROC_MAX (scan_base s) j)"
      "g_proc_current (scheduler_tick imgs s) = int (cyc_slot PROC_MAX (scan_base s) k)"
    by (auto simp: Let_def)
  then show ?case by (intro exI [of _ k]) (simp add: scan_base_def)
qed

subsection \<open>Reachable states\<close>

inductive sched_step :: "sched \<Rightarrow> sched \<Rightarrow> bool" where
  spawn: "proc_alloc s name u e pc = Some (s', pid) \<Longrightarrow> sched_step s s'"
| kill: "proc_kill s pid = (s', b) \<Longrightarrow> sched_step s s'"
| tick: "sched_step s (scheduler_tick imgs s)"

lemma sched_step_ok [inv_intros]:
  assumes "sched_step s s'" and "sched_ok s"
  shows "sched_ok s'"
  using assms
proof (induction rule: sched_step.induct)
  case (spawn s name u e pc s' pid)
  then show ?case using proc_alloc_spec(1) by blast
next
  case (kill s pid s' b)
  then show ?case using proc_kill_spec(1) [of s pid] by simp
next
  case (tick s imgs)
  then show ?case by (simp add: tick_keeps(1))
qed

lemma sched_steps_ok: "sched_step\<^sup>*\<^sup>* s s' \<Longrightarrow> sched_ok s \<Longrightarrow> sched_ok s'"
  by (induction rule: rtranclp_induct) (auto intro: sched_step_ok)

lemma spawn_all_ok: "spawn_all s ns = Some s' \<Longrightarrow> sched_ok s \<Longrightarrow> sched_ok s'"
  by (induction ns arbitrary: s)
    (auto simp: proc_spawn_def split: option.splits prod.splits dest: proc_alloc_spec(1))

lemma bootstrap_ok: "proc_bootstrap = Some s \<Longrightarrow> sched_ok s"
  unfolding proc_bootstrap_def
  by (erule spawn_all_ok)
    (auto simp: sched_ok_def INT_MAX_def zero_process_def intro: keys_distinct_replicate)

text \<open>The boot list fits: the eight processes get the numbers 1 to 8.\<close>

lemma bootstrap_returns: "\<exists>s. proc_bootstrap = Some s \<and> map p_pid (take 8 (g_processes s)) = [1, 2, 3, 4, 5, 6, 7, 8]
    \<and> proc_count s = 8 \<and> p_used (g_processes s ! 7)"
  by (simp add: proc_bootstrap_def proc_spawn_def proc_alloc_def PROC_MAX_def zero_process_def
      numeral_eq_Suc INT_MAX_def proc_count_def)

subsection \<open>Properties\<close>

text \<open>In every state reachable from the boot list by spawns, kills and timer ticks, process
  numbers are unique, at most one process is running and it is the current one.\<close>

theorem sched_reachable_safe:
  assumes "proc_bootstrap = Some s0" and "sched_step\<^sup>*\<^sup>* s0 s"
  shows "length (g_processes s) = PROC_MAX \<and> keys_distinct p_used p_pid (g_processes s)
     \<and> (\<forall>i < PROC_MAX. p_used (g_processes s ! i) \<and> p_state (g_processes s ! i) = PROC_RUNNING
          \<longrightarrow> g_proc_current s = int i)
     \<and> (\<forall>p \<in> set (g_processes s). p_used p \<longrightarrow> p_state p = PROC_RUNNING \<or> p_state p = PROC_READY)"
proof -
  have ok: "sched_ok s" using sched_steps_ok [OF assms(2) bootstrap_ok [OF assms(1)]] .
  note D = sched_okD [OF ok]
  have "p_state p = PROC_RUNNING \<or> p_state p = PROC_READY" if "p \<in> set (g_processes s)" "p_used p" for p
    using that D(1,5) by (auto simp: in_set_conv_nth split: if_splits)
  with D show ?thesis by (auto split: if_splits)
qed

theorem sched_reachable_safe_witness:
  "\<exists>s0. proc_bootstrap = Some s0 \<and> (\<exists>s. sched_step\<^sup>*\<^sup>* s0 s \<and> s = scheduler_tick [] s0
     \<and> length (g_processes s) = PROC_MAX \<and> keys_distinct p_used p_pid (g_processes s)
     \<and> (\<forall>i < PROC_MAX. p_used (g_processes s ! i) \<and> p_state (g_processes s ! i) = PROC_RUNNING
          \<longrightarrow> g_proc_current s = int i))"
proof -
  obtain s0 where s0: "proc_bootstrap = Some s0" using bootstrap_returns by blast
  have "sched_step\<^sup>*\<^sup>* s0 (scheduler_tick [] s0)" by (intro r_into_rtranclp sched_step.tick)
  with sched_reachable_safe [OF s0 this] s0 show ?thesis by blast
qed

text \<open>No process starves: from any reachable state, every used process is the running one
  after at most 32 ticks (as long as the ticks are not interleaved with spawns and kills), and
  its tick counter has then been incremented.\<close>

theorem scheduler_no_starvation:
  assumes "sched_ok s" and "j < PROC_MAX" and "p_used (g_processes s ! j)"
  shows "\<exists>m < PROC_MAX. let s' = (scheduler_tick imgs ^^ m) s; s'' = scheduler_tick imgs s'
    in g_proc_current s'' = int j \<and> p_state (g_processes s'' ! j) = PROC_RUNNING
       \<and> p_cpu_ticks (g_processes s'' ! j) = p_cpu_ticks (g_processes s' ! j) + 1"
proof -
  obtain m where m: "m < PROC_MAX" "scan_base ((scheduler_tick imgs ^^ Suc m) s) = j"
    using rr.runs_soon [OF assms] by blast
  define s' where "s' = (scheduler_tick imgs ^^ m) s"
  define s'' where "s'' = scheduler_tick imgs s'"
  have keep: "sched_ok ((scheduler_tick imgs ^^ k) s) \<and> p_used (g_processes ((scheduler_tick imgs ^^ k) s) ! j)" for k
    using assms by (induction k) (auto simp: tick_keeps(1) tick_keeps(2) [OF _ assms(2)])
  have ok: "sched_ok s'" "sched_ok s''" and u: "p_used (g_processes s'' ! j)" "p_used (g_processes s' ! j)"
    using keep [of m] keep [of "Suc m"] by (simp_all add: s'_def s''_def)
  have "scan_base s'' = j" using m(2) by (simp add: s''_def s'_def)
  moreover have "g_proc_current s'' \<noteq> -1"
  proof
    assume "g_proc_current s'' = -1"
    have "\<exists>i < PROC_MAX. p_used (g_processes s' ! i)" using assms(2) u(2) by blast
    from scheduler_tick_spec(2) [OF ok(1) this, of imgs]
    have "0 \<le> g_proc_current s''" by (auto simp: s''_def Let_def)
    with \<open>g_proc_current s'' = -1\<close> show False by simp
  qed
  ultimately have cur: "g_proc_current s'' = int j"
    using sched_okD(4) [OF ok(2)] by (auto simp: scan_base_def split: if_splits)
  have "p_state (g_processes s'' ! j) = PROC_RUNNING"
    using sched_okD(5) [OF ok(2) assms(2) u(1)] cur by simp
  moreover have "p_cpu_ticks (g_processes s'' ! j) = p_cpu_ticks (g_processes s' ! j) + 1"
    using tick_keeps(2) [OF ok(1) assms(2), of imgs] cur by (simp add: s''_def)
  ultimately show ?thesis
    using m(1) cur unfolding s''_def s'_def Let_def by blast
qed

theorem scheduler_no_starvation_witness:
  "\<exists>s. proc_bootstrap = Some s \<and> (\<exists>m < PROC_MAX.
     let s' = (scheduler_tick [] ^^ m) s; s'' = scheduler_tick [] s'
     in g_proc_current s'' = int 7 \<and> p_state (g_processes s'' ! 7) = PROC_RUNNING
       \<and> p_cpu_ticks (g_processes s'' ! 7) = p_cpu_ticks (g_processes s' ! 7) + 1)"
proof -
  obtain s where s: "proc_bootstrap = Some s" "p_used (g_processes s ! 7)" using bootstrap_returns by blast
  have "7 < PROC_MAX" by (simp add: PROC_MAX_def)
  from scheduler_no_starvation [OF bootstrap_ok [OF s(1)] this s(2), of "[]"] s(1) show ?thesis by auto
qed

end
