(* ===== verification/KRings.thy ===== *)
theory KRings
  imports KString
begin

text \<open>
  The ring buffers of \<^verbatim>\<open>src/kernel/core_runtime.c\<close>: the keyboard and mouse byte rings
  that the interrupt handlers fill and the main loop drains, and the kernel log ring.  The
  contract is a bounded queue; the byte rings are its instance.
\<close>

subsection \<open>The byte rings\<close>

text \<open>\<open>g_kbd_ring\<close> and \<open>g_mouse_ring\<close> have the same code, once per device.\<close>

definition INPUT_RING_SIZE :: nat where "INPUT_RING_SIZE = 256"

record ring =
  ring_buf :: "u8 list"
  ring_head :: u32
  ring_tail :: u32

definition ring_init :: ring where
  "ring_init = \<lparr> ring_buf = replicate INPUT_RING_SIZE 0, ring_head = 0, ring_tail = 0 \<rparr>"

definition kbd_ring_push :: "ring \<Rightarrow> u8 \<Rightarrow> ring" where
  "kbd_ring_push r b =
     (let next = (ring_head r + 1) AND 255
      in if next = ring_tail r then r
         else r\<lparr> ring_buf := (ring_buf r)[unat (ring_head r) := b], ring_head := next \<rparr>)"

definition kbd_ring_pop :: "ring \<Rightarrow> (u8 \<times> ring) option" where
  "kbd_ring_pop r =
     (if ring_tail r = ring_head r then None
      else Some (ring_buf r ! unat (ring_tail r), r\<lparr> ring_tail := (ring_tail r + 1) AND 255 \<rparr>))"

definition mouse_ring_push :: "ring \<Rightarrow> u8 \<Rightarrow> ring" where
  "mouse_ring_push r b =
     (let next = (ring_head r + 1) AND 255
      in if next = ring_tail r then r
         else r\<lparr> ring_buf := (ring_buf r)[unat (ring_head r) := b], ring_head := next \<rparr>)"

definition mouse_ring_pop :: "ring \<Rightarrow> (u8 \<times> ring) option" where
  "mouse_ring_pop r =
     (if ring_tail r = ring_head r then None
      else Some (ring_buf r ! unat (ring_tail r), r\<lparr> ring_tail := (ring_tail r + 1) AND 255 \<rparr>))"

subsection \<open>The log ring\<close>

definition KLOG_LINES :: nat where "KLOG_LINES = 256"
definition KLOG_LINE_LEN :: nat where "KLOG_LINE_LEN = 128"

record klog =
  g_klog_buf :: "string list"
  g_klog_head :: u32
  g_klog_count :: u32

definition klog_init :: klog where
  "klog_init = \<lparr> g_klog_buf = replicate KLOG_LINES [], g_klog_head = 0, g_klog_count = 0 \<rparr>"

definition klog_ring_push :: "klog \<Rightarrow> string \<Rightarrow> klog" where
  "klog_ring_push k line =
     k\<lparr> g_klog_buf := (g_klog_buf k)[unat (g_klog_head k) :=
           k_strlcpy (g_klog_buf k ! unat (g_klog_head k)) line KLOG_LINE_LEN],
        g_klog_head := (g_klog_head k + 1) mod 256,
        g_klog_count := (if g_klog_count k < 0xFFFFFFFF then g_klog_count k + 1 else g_klog_count k) \<rparr>"

definition klog_ring_count :: "klog \<Rightarrow> u32" where
  "klog_ring_count k = (if g_klog_count k < 256 then g_klog_count k else 256)"

definition klog_ring_get :: "klog \<Rightarrow> u32 \<Rightarrow> string option" where
  "klog_ring_get k age =
     (let count = (if g_klog_count k < 256 then g_klog_count k else 256)
      in if age \<ge> count then None
         else Some (g_klog_buf k ! unat ((g_klog_head k + 256 - 1 - age) mod 256)))"

subsection \<open>The bounded queue contract\<close>

datatype 'a queue_op = Push 'a | Pop

locale bounded_queue =
  fixes inv :: "'q \<Rightarrow> bool"
    and abs :: "'q \<Rightarrow> 'a list"
    and push :: "'q \<Rightarrow> 'a \<Rightarrow> 'q"
    and pop :: "'q \<Rightarrow> ('a \<times> 'q) option"
    and cap :: nat
  assumes push_inv: "inv q \<Longrightarrow> inv (push q x)"
    and push_abs: "inv q \<Longrightarrow> abs (push q x) = (if length (abs q) < cap then abs q @ [x] else abs q)"
    and pop_Nil: "inv q \<Longrightarrow> abs q = [] \<Longrightarrow> pop q = None"
    and pop_Cons: "inv q \<Longrightarrow> abs q = x # xs \<Longrightarrow> \<exists>q'. pop q = Some (x, q') \<and> inv q' \<and> abs q' = xs"
begin

primrec run :: "'q \<Rightarrow> 'a queue_op list \<Rightarrow> 'q \<times> 'a option list" where
  "run q [] = (q, [])"
| "run q (a # as) =
     (case a of
        Push x \<Rightarrow> run (push q x) as
      | Pop \<Rightarrow> (case pop q of
            None \<Rightarrow> (let (q', out) = run q as in (q', None # out))
          | Some (x, q1) \<Rightarrow> (let (q', out) = run q1 as in (q', Some x # out))))"

end

text \<open>The specification machine: a list that drops what does not fit.\<close>

primrec run_list :: "nat \<Rightarrow> 'a list \<Rightarrow> 'a queue_op list \<Rightarrow> 'a list \<times> 'a option list" where
  "run_list cap xs [] = (xs, [])"
| "run_list cap xs (a # as) =
     (case a of
        Push x \<Rightarrow> run_list cap (if length xs < cap then xs @ [x] else xs) as
      | Pop \<Rightarrow> (case xs of
            [] \<Rightarrow> (let (ys, out) = run_list cap [] as in (ys, None # out))
          | x # xs' \<Rightarrow> (let (ys, out) = run_list cap xs' as in (ys, Some x # out))))"

context bounded_queue
begin

lemma run_refines:
  assumes "inv q" and "run q as = (q', out)"
  shows "inv q' \<and> run_list cap (abs q) as = (abs q', out)"
  using assms
proof (induction as arbitrary: q out)
  case Nil
  then show ?case by simp
next
  case (Cons a as)
  show ?case
  proof (cases a)
    case (Push x)
    with Cons.IH [OF push_inv [OF Cons.prems(1)], of x out] Cons.prems push_abs [OF Cons.prems(1), of x]
    show ?thesis by simp
  next
    case Pop
    show ?thesis
    proof (cases "abs q")
      case Nil
      with Pop Cons.prems pop_Nil obtain out' where "run q as = (q', out')" "out = None # out'"
        by (auto split: prod.splits)
      with Cons.IH [OF Cons.prems(1)] Nil Pop show ?thesis by simp
    next
      case (Cons x xs)
      obtain q1 where q1: "pop q = Some (x, q1)" "inv q1" "abs q1 = xs"
        using pop_Cons [OF Cons.prems(1) Cons] by blast
      with Pop Cons.prems obtain out' where "run q1 as = (q', out')" "out = Some x # out'"
        by (auto split: prod.splits)
      with Cons.IH [OF q1(2)] Cons Pop q1(3) show ?thesis by simp
    qed
  qed
qed

text \<open>Bytes that fit come out in the order they went in.\<close>

lemma fifo:
  assumes "inv q" and "abs q = []" and "length xs \<le> cap"
  shows "snd (run q (map Push xs @ replicate (length xs) Pop)) = map Some xs"
proof -
  have "run_list cap ys (map Push xs @ as) = run_list cap (ys @ xs) as" if "length ys + length xs \<le> cap" for ys as
    using that by (induction xs arbitrary: ys) auto
  moreover have "run_list cap xs (replicate (length xs) Pop) = ([], map Some xs)" for xs :: "'a list"
    by (induction xs) auto
  moreover obtain q' out where r: "run q (map Push xs @ replicate (length xs) Pop) = (q', out)" by fastforce
  ultimately show ?thesis using run_refines [OF assms(1) r] assms(2,3) by simp
qed

end

subsection \<open>The byte rings meet the contract\<close>

definition ring_ok :: "ring \<Rightarrow> bool" where
  "ring_ok r \<longleftrightarrow> length (ring_buf r) = 256 \<and> ring_head r < 256 \<and> ring_tail r < 256"

definition ring_len :: "ring \<Rightarrow> nat" where
  "ring_len r = (unat (ring_head r) + 256 - unat (ring_tail r)) mod 256"

definition ring_abs :: "ring \<Rightarrow> u8 list" where
  "ring_abs r = map (\<lambda>i. ring_buf r ! ((unat (ring_tail r) + i) mod 256)) [0..<ring_len r]"

lemma and_255: "(w AND 255 :: u32) = w mod 256"
proof -
  have "w AND mask 8 = take_bit 8 w" by (simp add: take_bit_eq_mask and.commute)
  moreover have "(mask 8 :: u32) = 255" by (simp add: mask_eq_exp_minus_1)
  ultimately show ?thesis by (simp add: take_bit_eq_mod)
qed

lemma next_slot:
  assumes "(h :: u32) < 256"
  shows "unat ((h + 1) AND 255) = (unat h + 1) mod 256" and "(h + 1) AND 255 < (256 :: u32)"
proof -
  have h: "unat h < 256" using assms by (simp add: word_less_nat_alt)
  then have "unat (h + 1) = unat h + 1" by (subst unat_add_no_wrap) auto
  then show "unat ((h + 1) AND 255) = (unat h + 1) mod 256"
    by (simp add: and_255 unat_mod)
  then show "(h + 1) AND 255 < (256 :: u32)" by (simp add: word_less_nat_alt)
qed

lemma ring_okD:
  "ring_ok r \<Longrightarrow> unat (ring_head r) < 256" "ring_ok r \<Longrightarrow> unat (ring_tail r) < 256"
  "ring_ok r \<Longrightarrow> length (ring_buf r) = 256"
  by (simp_all add: ring_ok_def word_less_nat_alt)

lemma ring_full: "ring_ok r \<Longrightarrow> (ring_head r + 1) AND 255 = ring_tail r \<longleftrightarrow> ring_len r = 255"
proof -
  assume ok: "ring_ok r"
  note D = ring_okD [OF ok]
  have "(ring_head r + 1) AND 255 = ring_tail r \<longleftrightarrow> (unat (ring_head r) + 1) mod 256 = unat (ring_tail r)"
    using next_slot(1) [of "ring_head r"] ok by (simp add: ring_ok_def word_unat_eq_iff)
  also have "\<dots> \<longleftrightarrow> ring_len r = 255"
    using D(1,2) unfolding ring_len_def by (cases "unat (ring_head r) = 255"; cases "unat (ring_tail r) \<le> unat (ring_head r)")
      (auto simp: mod_if)
  finally show ?thesis .
qed

lemma ring_push_spec:
  assumes ok: "ring_ok r"
  shows "ring_ok (kbd_ring_push r b)"
    and "ring_abs (kbd_ring_push r b) = (if length (ring_abs r) < 255 then ring_abs r @ [b] else ring_abs r)"
proof -
  note D = ring_okD [OF ok]
  note ns = next_slot [of "ring_head r"]
  have lt: "ring_len r < 256" by (simp add: ring_len_def)
  show "ring_ok (kbd_ring_push r b)" using ok ns by (simp add: kbd_ring_push_def ring_ok_def Let_def)
  show "ring_abs (kbd_ring_push r b) = (if length (ring_abs r) < 255 then ring_abs r @ [b] else ring_abs r)"
  proof (cases "ring_len r = 255")
    case True
    with ring_full [OF ok] show ?thesis by (simp add: kbd_ring_push_def ring_abs_def)
  next
    case False
    let ?h = "unat (ring_head r)" and ?t = "unat (ring_tail r)" and ?n = "ring_len r"
    define r' where "r' = r\<lparr> ring_buf := (ring_buf r)[?h := b], ring_head := (ring_head r + 1) AND 255 \<rparr>"
    have push: "kbd_ring_push r b = r'"
      using False ring_full [OF ok] by (simp add: kbd_ring_push_def r'_def Let_def)
    have n: "?n < 255" using lt False by simp
    have h: "(?t + ?n) mod 256 = ?h"
      using D(1,2) by (cases "?t \<le> ?h") (auto simp: ring_len_def mod_if)
    have len': "ring_len r' = Suc ?n"
    proof -
      have "ring_len r' = ((?h + 1) mod 256 + 256 - ?t) mod 256"
        using ns(1) ok by (simp add: ring_len_def r'_def ring_ok_def)
      also have "\<dots> = Suc ?n"
        using n D(1,2) unfolding ring_len_def
        by (cases "?h = 255"; cases "?t \<le> ?h") (auto simp: mod_if split: if_splits)
      finally show ?thesis .
    qed
    have other: "(?t + i) mod 256 \<noteq> ?h" if "i < ?n" for i
      using that n h D(1,2) by (cases "?t + i < 256"; cases "?t + ?n < 256") (auto simp: mod_if split: if_splits)
    have "ring_abs r' = map (\<lambda>i. (ring_buf r)[?h := b] ! ((?t + i) mod 256)) [0..<Suc ?n]"
      by (simp add: ring_abs_def len' del: upt_Suc) (simp add: r'_def)
    also have "\<dots> = map (\<lambda>i. (ring_buf r)[?h := b] ! ((?t + i) mod 256)) [0..<?n] @ [b]"
      using h D(1,3) by simp
    also have "map (\<lambda>i. (ring_buf r)[?h := b] ! ((?t + i) mod 256)) [0..<?n] = ring_abs r"
      unfolding ring_abs_def
      by (intro map_cong refl) (metis nth_list_update_neq other atLeastLessThan_iff set_upt)
    finally show ?thesis using n push by (simp add: ring_abs_def)
  qed
qed

lemma ring_pop_spec:
  assumes ok: "ring_ok r"
  shows "ring_abs r = [] \<Longrightarrow> kbd_ring_pop r = None"
    and "ring_abs r = x # xs \<Longrightarrow> \<exists>r'. kbd_ring_pop r = Some (x, r') \<and> ring_ok r' \<and> ring_abs r' = xs"
proof -
  note D = ring_okD [OF ok]
  let ?h = "unat (ring_head r)" and ?t = "unat (ring_tail r)" and ?n = "ring_len r"
  have empty: "?n = 0 \<longleftrightarrow> ring_tail r = ring_head r"
    using D(1,2) by (cases "?t \<le> ?h") (auto simp: ring_len_def mod_if word_unat_eq_iff)
  show "kbd_ring_pop r = None" if "ring_abs r = []"
    using that empty by (simp add: kbd_ring_pop_def ring_abs_def)
  assume abs: "ring_abs r = x # xs"
  then have n: "0 < ?n" by (cases "?n = 0") (simp_all add: ring_abs_def)
  define r' where "r' = r\<lparr> ring_tail := (ring_tail r + 1) AND 255 \<rparr>"
  have t': "unat (ring_tail r') = (?t + 1) mod 256" and ok': "ring_ok r'"
    using next_slot [of "ring_tail r"] ok by (simp_all add: r'_def ring_ok_def)
  have "ring_len r' = (?h + 256 - (?t + 1) mod 256) mod 256"
    unfolding ring_len_def t' by (simp add: r'_def)
  also have "\<dots> = ?n - 1"
    using n D(1,2) unfolding ring_len_def
    by (cases "?t = 255"; cases "?t \<le> ?h") (auto simp: mod_if split: if_splits)
  finally have len': "ring_len r' = ?n - 1" .
  have "[0..<?n] = 0 # map Suc [0..<?n - 1]" using n by (metis Suc_diff_1 map_Suc_upt upt_conv_Cons)
  then have "ring_abs r = ring_buf r ! ?t # map (\<lambda>i. ring_buf r ! ((?t + Suc i) mod 256)) [0..<?n - 1]"
    using D(2) by (simp add: ring_abs_def)
  moreover have "ring_abs r' = map (\<lambda>i. ring_buf r ! ((?t + Suc i) mod 256)) [0..<?n - 1]"
    unfolding ring_abs_def len' t' by (simp add: r'_def mod_simps)
  ultimately have "x = ring_buf r ! ?t" "ring_abs r' = xs" using abs by auto
  moreover have "kbd_ring_pop r = Some (ring_buf r ! ?t, r')" using n empty by (simp add: kbd_ring_pop_def r'_def)
  ultimately show "\<exists>r'. kbd_ring_pop r = Some (x, r') \<and> ring_ok r' \<and> ring_abs r' = xs" using ok' by blast
qed

interpretation kq: bounded_queue ring_ok ring_abs kbd_ring_push kbd_ring_pop 255
  by unfold_locales (fact ring_push_spec ring_pop_spec)+

lemma mouse_is_kbd: "mouse_ring_push = kbd_ring_push" "mouse_ring_pop = kbd_ring_pop"
  by (simp_all add: fun_eq_iff mouse_ring_push_def kbd_ring_push_def mouse_ring_pop_def kbd_ring_pop_def)

interpretation mq: bounded_queue ring_ok ring_abs mouse_ring_push mouse_ring_pop 255
  unfolding mouse_is_kbd by unfold_locales

lemma ring_init_ok: "ring_ok ring_init" and ring_init_abs: "ring_abs ring_init = []"
  by (simp_all add: ring_init_def ring_ok_def INPUT_RING_SIZE_def ring_abs_def ring_len_def)

subsection \<open>The log ring keeps the newest lines\<close>

text \<open>\<open>klog_abs ls k\<close>: after the lines \<open>ls\<close> (newest last) have been pushed.\<close>

definition klog_holds :: "string list \<Rightarrow> klog \<Rightarrow> bool" where
  "klog_holds ls k \<longleftrightarrow>
     length (g_klog_buf k) = 256 \<and> unat (g_klog_head k) = length ls mod 256
     \<and> unat (g_klog_count k) = min (length ls) (2 ^ 32 - 1)
     \<and> (\<forall>age < min (length ls) 256.
          g_klog_buf k ! ((length ls - 1 - age) mod 256) = take 127 (cstr (ls ! (length ls - 1 - age))))"

lemma klog_init_holds: "klog_holds [] klog_init"
  by (simp add: klog_holds_def klog_init_def KLOG_LINES_def)

lemma slots_apart:
  assumes "0 < d" and "d < (256 :: nat)"
  shows "(m + d) mod 256 \<noteq> m mod 256"
proof
  assume "(m + d) mod 256 = m mod 256"
  then have "256 dvd d" by (simp add: mod_eq_dvd_iff_nat)
  with assms show False by (auto dest: dvd_imp_le)
qed

lemma klog_push_holds:
  assumes "klog_holds ls k"
  shows "klog_holds (ls @ [l]) (klog_ring_push k l)"
proof -
  let ?k = "klog_ring_push k l" and ?n = "length ls"
  have H: "length (g_klog_buf k) = 256" "unat (g_klog_head k) = ?n mod 256"
      "unat (g_klog_count k) = min ?n (2 ^ 32 - 1)"
    using assms by (simp_all add: klog_holds_def)
  have "unat (g_klog_head k + 1) = ?n mod 256 + 1"
    using H(2) by (subst unat_add_no_wrap) auto
  then have head: "unat (g_klog_head ?k) = Suc ?n mod 256"
    by (simp add: klog_ring_push_def unat_mod mod_Suc_eq)
  have count: "unat (g_klog_count ?k) = min (Suc ?n) (2 ^ 32 - 1)"
  proof (cases "?n < 2 ^ 32 - 1")
    case True
    then have "unat (g_klog_count k + 1) = ?n + 1" using H(3) by (subst unat_add_no_wrap) auto
    with True H(3) show ?thesis by (simp add: klog_ring_push_def word_less_nat_alt)
  next
    case False
    with H(3) show ?thesis by (simp add: klog_ring_push_def word_less_nat_alt)
  qed
  have lines: "g_klog_buf ?k ! ((?n - age) mod 256) = take 127 (cstr ((ls @ [l]) ! (?n - age)))"
    if "age < min (Suc ?n) 256" for age
  proof (cases age)
    case 0
    then show ?thesis
      using H(1,2) by (simp add: klog_ring_push_def k_strlcpy_take KLOG_LINE_LEN_def)
  next
    case (Suc a)
    with that have a: "a < min ?n 256" "age = Suc a" "0 < age" "age < 256" "age \<le> ?n" by auto
    then have "(?n - age + age) mod 256 \<noteq> (?n - age) mod 256" by (intro slots_apart) auto
    then have "?n mod 256 \<noteq> (?n - age) mod 256" using a(5) by simp
    then have "g_klog_buf ?k ! ((?n - age) mod 256) = g_klog_buf k ! ((?n - 1 - a) mod 256)"
      using H(2) a(2) by (simp add: klog_ring_push_def)
    also have "\<dots> = take 127 (cstr (ls ! (?n - 1 - a)))" using assms a(1) by (simp add: klog_holds_def)
    finally show ?thesis using a by (auto simp: nth_append)
  qed
  show ?thesis
    using H(1) head count lines by (simp add: klog_holds_def) (simp add: klog_ring_push_def)
qed

lemma klog_run_holds: "klog_holds ls (foldl klog_ring_push klog_init ls)"
proof (induction ls rule: rev_induct)
  case Nil
  then show ?case by (simp add: klog_init_holds)
next
  case (snoc l ls)
  then show ?case by (simp add: klog_push_holds)
qed

subsection \<open>Properties\<close>

text \<open>For every sequence of interrupt-side pushes and main-loop pops on a fresh keyboard
  ring, the bytes handed out are those of a list queue of capacity 255 that drops what does
  not fit: no byte is lost, duplicated or reordered otherwise.\<close>

theorem kbd_ring_refines_queue:
  "snd (kq.run ring_init as) = snd (run_list 255 [] as)"
proof -
  obtain q out where r: "kq.run ring_init as = (q, out)" by fastforce
  from kq.run_refines [OF ring_init_ok r] show ?thesis by (simp add: r ring_init_abs)
qed

text \<open>After any number of pushed lines, \<open>klog_ring_get\<close> returns the line of the given age,
  cut to 127 characters, for the last 256 lines, and null for every greater age.\<close>

theorem klog_ring_get_newest:
  "klog_ring_get (foldl klog_ring_push klog_init ls) age
     = (if unat age < min (length ls) 256 then Some (take 127 (cstr (rev ls ! unat age))) else None)"
proof -
  define k where "k = foldl klog_ring_push klog_init ls"
  have H: "klog_holds ls k" unfolding k_def by (rule klog_run_holds)
  let ?n = "length ls"
  have count: "unat (if g_klog_count k < 256 then g_klog_count k else 256) = min ?n 256"
    using H by (auto simp: klog_holds_def word_less_nat_alt)
  show ?thesis
  proof (cases "unat age < min ?n 256")
    case False
    with count have "age \<ge> (if g_klog_count k < 256 then g_klog_count k else 256)"
      unfolding word_le_nat_alt by linarith
    then have "klog_ring_get k age = None" unfolding klog_ring_get_def Let_def by (rule if_P)
    with False show ?thesis by (simp add: k_def)
  next
    case True
    then have a: "unat age < 256" "unat age < ?n" by auto
    have head: "unat (g_klog_head k) = ?n mod 256" using H by (simp add: klog_holds_def)
    have "unat (g_klog_head k + 256 - 1 - age) = ?n mod 256 + 255 - unat age"
    proof -
      have h: "unat (255 + g_klog_head k) = 255 + ?n mod 256" using head by (subst unat_add_no_wrap) auto
      then have "age \<le> 255 + g_klog_head k" using a(1) by (simp add: word_le_nat_alt)
      then have "unat (255 + g_klog_head k - age) = 255 + ?n mod 256 - unat age"
        by (simp only: unat_sub h)
      then show ?thesis by (simp add: add.commute)
    qed
    then have "unat ((g_klog_head k + 256 - 1 - age) mod 256) = (?n mod 256 + 255 - unat age) mod 256"
      by (simp add: unat_mod)
    also have "\<dots> = (?n - 1 - unat age) mod 256"
    proof -
      have "?n mod 256 + 255 - unat age = ?n mod 256 + (255 - unat age)" using a(1) by simp
      then have "(?n mod 256 + 255 - unat age) mod 256 = (?n + (255 - unat age)) mod 256"
        by (simp add: mod_add_left_eq)
      also have "?n + (255 - unat age) = ?n - 1 - unat age + 256" using a by simp
      finally show ?thesis by simp
    qed
    finally have idx: "unat ((g_klog_head k + 256 - 1 - age) mod 256) = (?n - 1 - unat age) mod 256" .
    have "g_klog_buf k ! ((?n - 1 - unat age) mod 256) = take 127 (cstr (ls ! (?n - 1 - unat age)))"
      using H True by (simp add: klog_holds_def)
    moreover have "\<not> age \<ge> (if g_klog_count k < 256 then g_klog_count k else 256)"
      using count True unfolding word_le_nat_alt by linarith
    ultimately have "klog_ring_get k age = Some (take 127 (cstr (ls ! (?n - 1 - unat age))))"
      unfolding klog_ring_get_def Let_def idx by simp
    then show ?thesis using True a(2) by (simp add: k_def rev_nth)
  qed
qed

end
