(* ===== verification/Pmm.thy ===== *)
theory Pmm
  imports Prelude
begin

text \<open>
  The physical memory manager of \<^verbatim>\<open>src/compat/memory_tasks.c\<close>: one bit per 4 KiB frame
  for ``in use'', one for ``holds a page table'', a count of free frames and a search hint.
  Frame numbers are natural numbers in the loops (they stay below \<open>PMM_MAX_PAGES\<close>), the
  bitmaps are arrays of 32-bit words and addresses are 64-bit words.  The abstract view is
  the set of frames that can be handed out; the contract of a frame allocator is a locale.
\<close>

subsection \<open>Bits\<close>

type_synonym bitmap = "nat \<Rightarrow> u32"

definition bm_get :: "bitmap \<Rightarrow> nat \<Rightarrow> bool" where
  "bm_get bm i \<longleftrightarrow> bm (i div 32) AND push_bit (i mod 32) 1 \<noteq> 0"

definition bm_set :: "bitmap \<Rightarrow> nat \<Rightarrow> bitmap" where
  "bm_set bm i = bm(i div 32 := bm (i div 32) OR push_bit (i mod 32) 1)"

definition bm_clr :: "bitmap \<Rightarrow> nat \<Rightarrow> bitmap" where
  "bm_clr bm i = bm(i div 32 := bm (i div 32) AND NOT (push_bit (i mod 32) 1))"

lemma bit_single: "bit (push_bit k 1 :: u32) n \<longleftrightarrow> n = k \<and> k < 32"
  by (auto simp: bit_simps)

lemma and_bit_test: "(w :: u32) AND push_bit k 1 \<noteq> 0 \<longleftrightarrow> bit w k"
proof
  assume "w AND push_bit k 1 \<noteq> 0"
  then obtain n where "bit (w AND push_bit k 1) n" by (metis bit_eqI bit_0_eq bot_apply bot_bool_def)
  then show "bit w k" unfolding bit_and_iff bit_single by blast
next
  assume b: "bit w k"
  then have "k < 32" using bit_imp_le_length [of w k] by simp
  with b have "bit (w AND push_bit k 1) k" by (simp only: bit_and_iff bit_single)
  then show "w AND push_bit k 1 \<noteq> 0" by (metis bit_0_eq bot_apply bot_bool_def)
qed

lemma bm_get_bit: "bm_get bm i \<longleftrightarrow> bit (bm (i div 32)) (i mod 32)"
  unfolding bm_get_def and_bit_test ..

lemma div_mod_eq: "i div 32 = j div 32 \<Longrightarrow> i mod 32 = j mod (32 :: nat) \<Longrightarrow> i = j"
  by (metis div_mult_mod_eq)

lemma bm_get_set [simp]: "bm_get (bm_set bm i) j \<longleftrightarrow> j = i \<or> bm_get bm j"
proof (cases "j div 32 = i div 32")
  case True
  have "bm_get (bm_set bm i) j \<longleftrightarrow> bit (bm (i div 32) OR push_bit (i mod 32) 1) (j mod 32)"
    by (simp only: bm_get_bit bm_set_def True fun_upd_same)
  also have "\<dots> \<longleftrightarrow> bit (bm (i div 32)) (j mod 32) \<or> j mod 32 = i mod 32"
    unfolding bit_or_iff bit_single by (metis mod_less_divisor zero_less_numeral)
  also have "\<dots> \<longleftrightarrow> bm_get bm j \<or> j = i"
    using True div_mod_eq [of j i] by (metis bm_get_bit)
  finally show ?thesis by blast
next
  case False
  then have "bm_get (bm_set bm i) j \<longleftrightarrow> bm_get bm j"
    by (simp only: bm_get_bit bm_set_def fun_upd_other not_False_eq_True)
  with False show ?thesis by blast
qed

lemma bm_get_clr [simp]: "bm_get (bm_clr bm i) j \<longleftrightarrow> j \<noteq> i \<and> bm_get bm j"
proof (cases "j div 32 = i div 32")
  case True
  have "bm_get (bm_clr bm i) j \<longleftrightarrow> bit (bm (i div 32) AND NOT (push_bit (i mod 32) 1)) (j mod 32)"
    by (simp only: bm_get_bit bm_clr_def True fun_upd_same)
  also have "\<dots> \<longleftrightarrow> bit (bm (i div 32)) (j mod 32) \<and> j mod 32 \<noteq> i mod 32"
  proof -
    have "j mod 32 < LENGTH(32)" "i mod 32 < 32" by simp_all
    then show ?thesis unfolding bit_and_iff bit_not_iff bit_single possible_bit_word by blast
  qed
  also have "\<dots> \<longleftrightarrow> bm_get bm j \<and> j \<noteq> i"
    using True div_mod_eq [of j i] by (metis bm_get_bit)
  finally show ?thesis by blast
next
  case False
  then have "bm_get (bm_clr bm i) j \<longleftrightarrow> bm_get bm j"
    by (simp only: bm_get_bit bm_clr_def fun_upd_other not_False_eq_True)
  with False show ?thesis by blast
qed

lemma bm_get_const [simp]: "bm_get (\<lambda>_. 0xFFFFFFFF) i" "\<not> bm_get (\<lambda>_. 0) i"
proof -
  have m: "(0xFFFFFFFF :: u32) = mask 32" by (simp add: mask_eq_exp_minus_1)
  show "bm_get (\<lambda>_. 0xFFFFFFFF) i" unfolding bm_get_bit m by (simp only: bit_mask_iff) simp
  show "\<not> bm_get (\<lambda>_. 0) i" by (simp add: bm_get_bit)
qed

subsection \<open>State\<close>

definition PMM_MAX_PAGES :: nat where "PMM_MAX_PAGES = 2 * 1024 * 1024"
definition PMM_USABLE_RANGE_MAX :: nat where "PMM_USABLE_RANGE_MAX = 32"
definition PAGE_SIZE :: u64 where "PAGE_SIZE = 4096"

record pmm =
  g_pmm_bitmap :: bitmap
  g_pmm_pt_bitmap :: bitmap
  g_pmm_total :: u32
  g_pmm_free :: u32
  g_pmm_hint :: u32
  g_pmm_base :: u64
  g_pmm_memory_limit :: u64
  g_pmm_usable_ranges :: "(u64 \<times> u64) list"

definition pmm_boot :: pmm where
  "pmm_boot = \<lparr> g_pmm_bitmap = (\<lambda>_. 0), g_pmm_pt_bitmap = (\<lambda>_. 0), g_pmm_total = 0, g_pmm_free = 0,
     g_pmm_hint = 0, g_pmm_base = 0x200000, g_pmm_memory_limit = 0, g_pmm_usable_ranges = [] \<rparr>"

definition pmm_frame_index :: "pmm \<Rightarrow> u64 \<Rightarrow> nat option" where
  "pmm_frame_index s phys =
     (let idx = ucast ((phys AND NOT (PAGE_SIZE - 1)) div PAGE_SIZE) :: u32
      in if phys < g_pmm_base s then None else if idx \<ge> g_pmm_total s then None else Some (unat idx))"

definition pmm_mark_page_table_frame :: "pmm \<Rightarrow> u64 \<Rightarrow> pmm" where
  "pmm_mark_page_table_frame s phys =
     (case pmm_frame_index s phys of
        None \<Rightarrow> s | Some idx \<Rightarrow> s\<lparr> g_pmm_pt_bitmap := bm_set (g_pmm_pt_bitmap s) idx \<rparr>)"

definition pmm_is_page_table_frame :: "pmm \<Rightarrow> u64 \<Rightarrow> bool" where
  "pmm_is_page_table_frame s phys =
     (case pmm_frame_index s phys of None \<Rightarrow> False | Some idx \<Rightarrow> bm_get (g_pmm_pt_bitmap s) idx)"

definition pmm_set_alloc_base :: "pmm \<Rightarrow> u64 \<Rightarrow> pmm" where
  "pmm_set_alloc_base s phys_base =
     (let b = (if phys_base < 0x200000 then 0x200000 else phys_base)
      in s\<lparr> g_pmm_base := b AND NOT (PAGE_SIZE - 1) \<rparr>)"

definition pmm_set_memory_limit :: "pmm \<Rightarrow> u64 \<Rightarrow> pmm" where
  "pmm_set_memory_limit s mem_bytes =
     (if mem_bytes < PAGE_SIZE then s else s\<lparr> g_pmm_memory_limit := mem_bytes AND NOT (PAGE_SIZE - 1) \<rparr>)"

definition pmm_clear_usable_ranges :: "pmm \<Rightarrow> pmm" where
  "pmm_clear_usable_ranges s = s\<lparr> g_pmm_usable_ranges := [] \<rparr>"

text \<open>The first \<open>g_pmm_usable_range_count\<close> entries of the array; an end that wraps is the
  last address.\<close>

definition pmm_add_usable_range :: "pmm \<Rightarrow> u64 \<Rightarrow> u64 \<Rightarrow> pmm" where
  "pmm_add_usable_range s phys_base bytes =
     (if bytes = 0 \<or> length (g_pmm_usable_ranges s) \<ge> PMM_USABLE_RANGE_MAX then s
      else (let end0 = phys_base + bytes; e = (if end0 \<le> phys_base then NOT 0 else end0)
            in s\<lparr> g_pmm_usable_ranges := g_pmm_usable_ranges s @ [(phys_base, e)] \<rparr>))"

subsection \<open>Initialisation\<close>

text \<open>The two bit loops: release the frames of a range, reserve the low frames.\<close>

definition clear_bit :: "nat \<Rightarrow> bitmap \<times> u32 \<Rightarrow> bitmap \<times> u32" where
  "clear_bit i r = (if bm_get (fst r) i then (bm_clr (fst r) i, snd r + 1) else r)"

definition reserve_bit :: "nat \<Rightarrow> bitmap \<times> u32 \<Rightarrow> bitmap \<times> u32" where
  "reserve_bit i r =
     (if \<not> bm_get (fst r) i
      then (bm_set (fst r) i, if snd r \<noteq> 0 then snd r - 1 else snd r) else r)"

definition range_frames :: "u32 \<Rightarrow> u64 \<times> u64 \<Rightarrow> nat list" where
  "range_frames pages r =
     (let limit = ucast pages * PAGE_SIZE;
          s = (fst r + PAGE_SIZE - 1) AND NOT (PAGE_SIZE - 1);
          e0 = snd r AND NOT (PAGE_SIZE - 1);
          e = (if e0 > limit then limit else e0);
          first = unat (ucast (s div PAGE_SIZE) :: u32);
          last0 = ucast (e div PAGE_SIZE) :: u32;
          last = unat (if last0 > pages then pages else last0)
      in if e0 \<le> s \<or> s \<ge> limit then [] else [first..<last])"

definition pmm_init :: "pmm \<Rightarrow> u64 \<Rightarrow> pmm" where
  "pmm_init s mem_bytes0 =
     (let mem_bytes = (if g_pmm_memory_limit s \<noteq> 0 \<and> mem_bytes0 > g_pmm_memory_limit s
                       then g_pmm_memory_limit s else mem_bytes0);
          pages0 = ucast (mem_bytes div PAGE_SIZE) :: u32;
          pages = (if unat pages0 > PMM_MAX_PAGES then of_nat PMM_MAX_PAGES else pages0);
          (bm, fr) = (if g_pmm_usable_ranges s \<noteq> []
             then fold clear_bit (concat (map (range_frames pages) (g_pmm_usable_ranges s))) (\<lambda>_. 0xFFFFFFFF, 0)
             else (\<lambda>_. 0, pages));
          reserve0 = ucast (g_pmm_base s div PAGE_SIZE) :: u32;
          reserve = (if reserve0 > pages then pages else reserve0);
          (bm', fr') = fold reserve_bit [0..<unat reserve] (bm, fr)
      in s\<lparr> g_pmm_bitmap := bm', g_pmm_pt_bitmap := (\<lambda>_. 0), g_pmm_total := pages, g_pmm_free := fr',
            g_pmm_hint := (if reserve < pages then reserve else 0) \<rparr>)"

subsection \<open>Allocation and release\<close>

definition frame_taken :: "pmm \<Rightarrow> nat \<Rightarrow> bool" where
  "frame_taken s i \<longleftrightarrow> bm_get (g_pmm_bitmap s) i \<or> bm_get (g_pmm_pt_bitmap s) i"

text \<open>Two passes: from the hint to the end, then from 0 to the hint.\<close>

definition pmm_alloc_frame :: "pmm \<Rightarrow> pmm \<times> u64" where
  "pmm_alloc_frame s =
     (if g_pmm_total s = 0 then (s, 0)
      else (let start = (if g_pmm_hint s < g_pmm_total s then unat (g_pmm_hint s) else 0);
                total = unat (g_pmm_total s)
            in case find (\<lambda>i. \<not> frame_taken s i) ([start..<total] @ [0..<start]) of
                 None \<Rightarrow> (s, 0)
               | Some i \<Rightarrow>
                   (s\<lparr> g_pmm_bitmap := bm_set (g_pmm_bitmap s) i,
                       g_pmm_free := (if g_pmm_free s \<noteq> 0 then g_pmm_free s - 1 else g_pmm_free s),
                       g_pmm_hint := (if i + 1 < total then of_nat (i + 1) else 0) \<rparr>,
                    of_nat i * PAGE_SIZE)))"

text \<open>The run counter of the contiguous search.\<close>

fun find_run :: "pmm \<Rightarrow> nat \<Rightarrow> nat list \<Rightarrow> nat \<Rightarrow> nat \<Rightarrow> nat option" where
  "find_run s pages [] start run = None"
| "find_run s pages (idx # rest) start run =
     (if frame_taken s idx then find_run s pages rest start 0
      else (let start' = (if run = 0 then idx else start)
            in if run + 1 = pages then Some start' else find_run s pages rest start' (run + 1)))"

definition pmm_alloc_contiguous_frames :: "pmm \<Rightarrow> u32 \<Rightarrow> pmm \<times> u64" where
  "pmm_alloc_contiguous_frames s pages =
     (if pages = 0 \<or> pages > g_pmm_total s then (s, 0)
      else (let total = unat (g_pmm_total s); n = unat pages
            in case find_run s n [0..<total] 0 0 of
                 None \<Rightarrow> (s, 0)
               | Some start \<Rightarrow>
                   (s\<lparr> g_pmm_bitmap := fold (\<lambda>i bm. bm_set bm i) [start..<start + n] (g_pmm_bitmap s),
                       g_pmm_free := (if g_pmm_free s \<ge> pages then g_pmm_free s - pages else 0),
                       g_pmm_hint := (if start + n < total then of_nat (start + n) else 0) \<rparr>,
                    of_nat start * PAGE_SIZE)))"

definition pmm_free_frame :: "pmm \<Rightarrow> u64 \<Rightarrow> pmm" where
  "pmm_free_frame s phys0 =
     (let phys = phys0 AND NOT (PAGE_SIZE - 1)
      in case pmm_frame_index s phys of
           None \<Rightarrow> s
         | Some idx \<Rightarrow>
             if pmm_is_page_table_frame s phys then s
             else if bm_get (g_pmm_bitmap s) idx
               then s\<lparr> g_pmm_bitmap := bm_clr (g_pmm_bitmap s) idx, g_pmm_free := g_pmm_free s + 1,
                       g_pmm_hint := (if of_nat idx < g_pmm_hint s then of_nat idx else g_pmm_hint s) \<rparr>
               else s)"

definition pmm_free_count :: "pmm \<Rightarrow> u32" where "pmm_free_count s = g_pmm_free s"
definition pmm_total_count :: "pmm \<Rightarrow> u32" where "pmm_total_count s = g_pmm_total s"

subsection \<open>Invariant and abstraction\<close>

text \<open>The frames below the base are reserved, page-table frames are in use and above the base,
  and the counter is the number of frames not in use.\<close>

definition base_idx :: "pmm \<Rightarrow> nat" where
  "base_idx s = unat (g_pmm_base s) div 4096"

definition unused :: "pmm \<Rightarrow> nat set" where
  "unused s = {i. i < unat (g_pmm_total s) \<and> \<not> bm_get (g_pmm_bitmap s) i}"

definition pmm_ok :: "pmm \<Rightarrow> bool" where
  "pmm_ok s \<longleftrightarrow>
     unat (g_pmm_total s) \<le> PMM_MAX_PAGES \<and> 0x200000 \<le> g_pmm_base s \<and> 4096 dvd unat (g_pmm_base s)
     \<and> (\<forall>i. i < base_idx s \<longrightarrow> i < unat (g_pmm_total s) \<longrightarrow> bm_get (g_pmm_bitmap s) i)
     \<and> (\<forall>i. bm_get (g_pmm_pt_bitmap s) i \<longrightarrow> i < unat (g_pmm_total s) \<longrightarrow> bm_get (g_pmm_bitmap s) i)
     \<and> unat (g_pmm_free s) = card (unused s)"

definition frame_addr :: "nat \<Rightarrow> u64" where
  "frame_addr i = of_nat i * PAGE_SIZE"

text \<open>The frames that can be handed out, by address.\<close>

definition free_frames :: "pmm \<Rightarrow> u64 set" where
  "free_frames s = frame_addr ` unused s"

subsection \<open>Addresses\<close>

lemma page_mask: "PAGE_SIZE - 1 = mask 12"
  by (simp add: PAGE_SIZE_def mask_eq_exp_minus_1)

lemma unat_page_floor: "unat (w AND NOT (PAGE_SIZE - 1)) = unat w div 4096 * 4096"
  unfolding page_mask unat_and_not_mask by simp

lemma unat_div_page: "unat (w div PAGE_SIZE) = unat w div 4096"
  by (simp add: PAGE_SIZE_def unat_div)

lemma unat_frame_addr: "i < 2 ^ 52 \<Longrightarrow> unat (frame_addr i) = i * 4096"
  by (simp add: frame_addr_def PAGE_SIZE_def unat_mult_lem [THEN iffD1] unat_of_nat unat_word_ariths(2))

lemma frame_addr_inj: "i < 2 ^ 52 \<Longrightarrow> j < 2 ^ 52 \<Longrightarrow> frame_addr i = frame_addr j \<longleftrightarrow> i = j"
  using unat_frame_addr [of i] unat_frame_addr [of j] by (metis mult_cancel2 zero_neq_numeral)

lemma page_floor_frame_addr [simp]:
  assumes "i < 2 ^ 52"
  shows "frame_addr i AND NOT (PAGE_SIZE - 1) = frame_addr i"
  using unat_page_floor [of "frame_addr i"] unat_frame_addr [OF assms] by (metis nonzero_mult_div_cancel_right word_unat_eq_iff zero_neq_numeral)

lemma pmm_okD:
  assumes "pmm_ok s"
  shows "unat (g_pmm_total s) \<le> 2097152" "unat (g_pmm_base s) = base_idx s * 4096" "512 \<le> base_idx s"
    "\<And>i. i < base_idx s \<Longrightarrow> i < unat (g_pmm_total s) \<Longrightarrow> bm_get (g_pmm_bitmap s) i"
    "\<And>i. bm_get (g_pmm_pt_bitmap s) i \<Longrightarrow> i < unat (g_pmm_total s) \<Longrightarrow> bm_get (g_pmm_bitmap s) i"
    "unat (g_pmm_free s) = card (unused s)"
proof -
  show "unat (g_pmm_base s) = base_idx s * 4096" using assms by (simp add: pmm_ok_def base_idx_def)
  have "0x200000 \<le> unat (g_pmm_base s)" using assms by (simp add: pmm_ok_def word_le_nat_alt)
  then show "512 \<le> base_idx s" by (simp add: base_idx_def)
qed (use assms in \<open>auto simp: pmm_ok_def PMM_MAX_PAGES_def\<close>)

lemma finite_unused [simp]: "finite (unused s)"
  by (rule finite_subset [of _ "{..<unat (g_pmm_total s)}"]) (auto simp: unused_def)

lemma unused_bounds: "pmm_ok s \<Longrightarrow> i \<in> unused s \<Longrightarrow> base_idx s \<le> i \<and> i < unat (g_pmm_total s) \<and> i < 2097152"
  using pmm_okD(1,4) [of s] by (force simp: unused_def not_less)

lemma frame_taken_unused: "pmm_ok s \<Longrightarrow> i < unat (g_pmm_total s) \<Longrightarrow> frame_taken s i \<longleftrightarrow> i \<notin> unused s"
  using pmm_okD(5) [of s i] by (auto simp: frame_taken_def unused_def)

lemma frame_index_addr:
  assumes "pmm_ok s" and "base_idx s \<le> i" and "i < unat (g_pmm_total s)"
  shows "pmm_frame_index s (frame_addr i) = Some i"
proof -
  have i: "i < 2 ^ 52" using pmm_okD(1) [OF assms(1)] assms(3) by simp
  have d: "unat (frame_addr i div PAGE_SIZE) = i" by (simp add: unat_div_page unat_frame_addr [OF i])
  have "unat (ucast (frame_addr i div PAGE_SIZE) :: u32) = i"
    using d pmm_okD(1) [OF assms(1)] assms(3) by (simp add: unsigned_ucast_eq take_bit_nat_eq_self)
  moreover have "\<not> frame_addr i < g_pmm_base s"
    using pmm_okD(2) [OF assms(1)] assms(2) unat_frame_addr [OF i] by (simp add: word_less_nat_alt)
  ultimately show ?thesis
    using assms(3) by (simp add: pmm_frame_index_def page_floor_frame_addr [OF i] Let_def word_le_nat_alt)
qed

subsection \<open>Allocating one frame\<close>

lemma unat_pred: "unat f = Suc n \<Longrightarrow> unat (if f \<noteq> 0 then f - 1 else f :: 'a::len word) = n"
proof -
  assume a: "unat f = Suc n"
  then have "f \<noteq> 0" by auto
  moreover have "1 \<le> f" using a by (simp add: word_le_nat_alt)
  ultimately show ?thesis using a by (simp add: unat_sub)
qed

lemma pmm_alloc_spec:
  assumes ok: "pmm_ok s"
  shows "unused s = {} \<Longrightarrow> pmm_alloc_frame s = (s, 0)"
    and "unused s \<noteq> {} \<Longrightarrow> \<exists>s' i. pmm_alloc_frame s = (s', frame_addr i) \<and> i \<in> unused s \<and> pmm_ok s'
      \<and> unused s' = unused s - {i} \<and> g_pmm_total s' = g_pmm_total s \<and> g_pmm_base s' = g_pmm_base s
      \<and> g_pmm_pt_bitmap s' = g_pmm_pt_bitmap s"
proof -
  define start where "start = (if g_pmm_hint s < g_pmm_total s then unat (g_pmm_hint s) else 0)"
  let ?total = "unat (g_pmm_total s)"
  let ?xs = "[start..<?total] @ [0..<start]"
  have start: "start \<le> ?total" by (simp add: start_def word_less_nat_alt)
  then have set: "set ?xs = {..<?total}" by auto
  have alloc: "pmm_alloc_frame s = (if g_pmm_total s = 0 then (s, 0) else
      case find (\<lambda>i. \<not> frame_taken s i) ?xs of
         None \<Rightarrow> (s, 0)
       | Some i \<Rightarrow>
           (s\<lparr> g_pmm_bitmap := bm_set (g_pmm_bitmap s) i,
               g_pmm_free := (if g_pmm_free s \<noteq> 0 then g_pmm_free s - 1 else g_pmm_free s),
               g_pmm_hint := (if i + 1 < ?total then of_nat (i + 1) else 0) \<rparr>, frame_addr i))"
    by (simp only: pmm_alloc_frame_def start_def [symmetric] Let_def frame_addr_def)
  have taken: "\<not> frame_taken s i \<longleftrightarrow> i \<in> unused s" if "i \<in> set ?xs" for i
    using frame_taken_unused [OF ok, of i] that unfolding set by blast
  show "pmm_alloc_frame s = (s, 0)" if "unused s = {}"
  proof -
    have "find (\<lambda>i. \<not> frame_taken s i) ?xs = None"
      unfolding find_None_iff using taken that by blast
    then show ?thesis by (simp add: alloc)
  qed
  assume ne: "unused s \<noteq> {}"
  then obtain j where j: "j \<in> unused s" by blast
  then have "j \<in> set ?xs" unfolding set by (simp add: unused_def)
  have "find (\<lambda>i. \<not> frame_taken s i) ?xs \<noteq> None"
    unfolding find_None_iff using taken [OF \<open>j \<in> set ?xs\<close>] j \<open>j \<in> set ?xs\<close> by blast
  then obtain i where i: "find (\<lambda>i. \<not> frame_taken s i) ?xs = Some i" by blast
  then have "i \<in> set ?xs \<and> \<not> frame_taken s i" by (rule find_SomeD)
  then have iu: "i \<in> unused s" using taken by blast
  define s' where "s' = s\<lparr> g_pmm_bitmap := bm_set (g_pmm_bitmap s) i,
               g_pmm_free := (if g_pmm_free s \<noteq> 0 then g_pmm_free s - 1 else g_pmm_free s),
               g_pmm_hint := (if i + 1 < ?total then of_nat (i + 1) else 0) \<rparr>"
  have "g_pmm_total s \<noteq> 0" using iu by (auto simp: unused_def)
  then have ret: "pmm_alloc_frame s = (s', frame_addr i)" by (simp add: alloc i s'_def)
  have un: "unused s' = unused s - {i}" by (auto simp: unused_def s'_def)
  have "card (unused s) = Suc (card (unused s'))"
    unfolding un by (rule card_Suc_Diff1 [OF finite_unused iu, symmetric])
  then have "unat (g_pmm_free s) = Suc (card (unused s'))" using pmm_okD(6) [OF ok] by simp
  from unat_pred [OF this] have "unat (g_pmm_free s') = card (unused s')" by (simp add: s'_def)
  then have "pmm_ok s'" using ok by (auto simp: pmm_ok_def base_idx_def s'_def)
  then show "\<exists>s' i. pmm_alloc_frame s = (s', frame_addr i) \<and> i \<in> unused s \<and> pmm_ok s'
      \<and> unused s' = unused s - {i} \<and> g_pmm_total s' = g_pmm_total s \<and> g_pmm_base s' = g_pmm_base s
      \<and> g_pmm_pt_bitmap s' = g_pmm_pt_bitmap s"
    using ret iu un by (intro exI [of _ s'] exI [of _ i]) (simp add: s'_def)
qed

subsection \<open>Releasing a frame\<close>

lemma pmm_free_spec:
  assumes ok: "pmm_ok s" and i: "base_idx s \<le> i" "i < unat (g_pmm_total s)"
    and phys: "phys AND NOT (PAGE_SIZE - 1) = frame_addr i" and pt: "\<not> bm_get (g_pmm_pt_bitmap s) i"
  shows "pmm_ok (pmm_free_frame s phys)" and "unused (pmm_free_frame s phys) = insert i (unused s)"
    and "g_pmm_total (pmm_free_frame s phys) = g_pmm_total s"
    and "g_pmm_base (pmm_free_frame s phys) = g_pmm_base s"
    and "g_pmm_pt_bitmap (pmm_free_frame s phys) = g_pmm_pt_bitmap s"
proof -
  let ?s = "pmm_free_frame s phys"
  note idx = frame_index_addr [OF ok i]
  have eq: "?s = (if bm_get (g_pmm_bitmap s) i
               then s\<lparr> g_pmm_bitmap := bm_clr (g_pmm_bitmap s) i, g_pmm_free := g_pmm_free s + 1,
                       g_pmm_hint := (if of_nat i < g_pmm_hint s then of_nat i else g_pmm_hint s) \<rparr>
               else s)"
    by (simp add: pmm_free_frame_def phys idx pmm_is_page_table_frame_def pt)
  have "pmm_ok ?s \<and> unused ?s = insert i (unused s) \<and> g_pmm_total ?s = g_pmm_total s \<and> g_pmm_base ?s = g_pmm_base s
     \<and> g_pmm_pt_bitmap ?s = g_pmm_pt_bitmap s"
  proof (cases "bm_get (g_pmm_bitmap s) i")
    case False
    with i have "i \<in> unused s" by (simp add: unused_def)
    with False ok show ?thesis by (auto simp: eq)
  next
    case True
    then have un: "unused ?s = insert i (unused s)" and ni: "i \<notin> unused s"
      using i by (auto simp: eq unused_def)
    have "unused ?s \<subseteq> {..<2097152}"
      using pmm_okD(1) [OF ok] True by (auto simp: eq unused_def)
    then have "card (unused ?s) \<le> 2097152" using card_mono [of "{..<2097152}" "unused ?s"] by simp
    then have c: "Suc (card (unused s)) \<le> 2097152" using un ni by simp
    have "unat (g_pmm_free s + 1) = unat (g_pmm_free s) + 1"
      using pmm_okD(6) [OF ok] c by (subst unat_add_no_wrap) auto
    then have "unat (g_pmm_free ?s) = card (unused ?s)"
      using True un ni pmm_okD(6) [OF ok] by (simp add: eq)
    then have "pmm_ok ?s"
      using ok i pt True by (auto simp: pmm_ok_def base_idx_def eq)
    with un True show ?thesis by (simp add: eq)
  qed
  then show "pmm_ok ?s" "unused ?s = insert i (unused s)" "g_pmm_total ?s = g_pmm_total s"
    "g_pmm_base ?s = g_pmm_base s" "g_pmm_pt_bitmap ?s = g_pmm_pt_bitmap s" by auto
qed

text \<open>A page-table frame is never released: this is the refusal in the code.\<close>

lemma pmm_free_refused:
  assumes "pmm_is_page_table_frame s (phys AND NOT (PAGE_SIZE - 1))"
  shows "pmm_free_frame s phys = s"
  using assms by (auto simp: pmm_free_frame_def Let_def split: option.splits)

lemma pmm_mark_spec:
  assumes ok: "pmm_ok s" and i: "base_idx s \<le> i" "i < unat (g_pmm_total s)" "i \<notin> unused s"
  shows "pmm_ok (pmm_mark_page_table_frame s (frame_addr i))"
    and "unused (pmm_mark_page_table_frame s (frame_addr i)) = unused s"
    and "pmm_mark_page_table_frame s (frame_addr i) = s\<lparr> g_pmm_pt_bitmap := bm_set (g_pmm_pt_bitmap s) i \<rparr>"
proof -
  show eq: "pmm_mark_page_table_frame s (frame_addr i) = s\<lparr> g_pmm_pt_bitmap := bm_set (g_pmm_pt_bitmap s) i \<rparr>"
    by (simp add: pmm_mark_page_table_frame_def frame_index_addr [OF ok i(1,2)])
  show un: "unused (pmm_mark_page_table_frame s (frame_addr i)) = unused s" by (simp add: eq unused_def)
  have "bm_get (g_pmm_bitmap s) i" using i by (simp add: unused_def)
  then show "pmm_ok (pmm_mark_page_table_frame s (frame_addr i))"
    using ok un by (auto simp: eq pmm_ok_def base_idx_def unused_def)
qed

subsection \<open>Allocating a run of frames\<close>

text \<open>The scan keeps a run of free frames that ends at the current index.\<close>

lemma find_run_sound:
  assumes "find_run s n [k..<m] start run = Some st"
    and "run \<noteq> 0 \<longrightarrow> start + run = k" and "\<forall>i. start \<le> i \<longrightarrow> i < start + run \<longrightarrow> \<not> frame_taken s i"
    and "run < n"
  shows "st + n \<le> m \<and> (\<forall>i. st \<le> i \<longrightarrow> i < st + n \<longrightarrow> \<not> frame_taken s i)"
  using assms
proof (induction "m - k" arbitrary: k start run)
  case 0
  then show ?case by simp
next
  case (Suc d)
  then have km: "[k..<m] = k # [Suc k..<m]" and d: "d = m - Suc k" by (simp_all add: upt_conv_Cons)
  show ?case
  proof (cases "frame_taken s k")
    case True
    with Suc.prems(1) have "find_run s n [Suc k..<m] start 0 = Some st" by (simp add: km)
    with Suc.hyps(1) [OF d, of start 0] Suc.prems(4) show ?thesis by simp
  next
    case False
    define start' where "start' = (if run = 0 then k else start)"
    have st': "start' + run = k" using Suc.prems(2) by (auto simp: start'_def)
    have fr: "\<forall>i. start' \<le> i \<longrightarrow> i < start' + (run + 1) \<longrightarrow> \<not> frame_taken s i"
    proof (intro allI impI)
      fix i assume i: "start' \<le> i" "i < start' + (run + 1)"
      show "\<not> frame_taken s i"
      proof (cases "i = k")
        case True
        with False show ?thesis by simp
      next
        case ne: False
        with i st' have "i < start' + run" "run \<noteq> 0" by auto
        with i(1) Suc.prems(3) show ?thesis by (simp add: start'_def)
      qed
    qed
    show ?thesis
    proof (cases "run + 1 = n")
      case True
      with Suc.prems(1) False have "st = start'" by (simp add: km start'_def)
      with True fr st' Suc.hyps(2) show ?thesis by auto
    next
      case no: False
      with Suc.prems(1) False have "find_run s n [Suc k..<m] start' (run + 1) = Some st"
        by (simp add: km start'_def Let_def)
      with Suc.hyps(1) [OF d, of start' "run + 1"] st' fr Suc.prems(4) no show ?thesis by simp
    qed
  qed
qed

lemma find_run_complete:
  assumes "find_run s n [k..<m] start run = None" and "run < n"
    and "run \<noteq> 0 \<longrightarrow> start + run = k"
    and "q + n \<le> m" and "(if run = 0 then k else start) \<le> q"
  shows "\<exists>i. q \<le> i \<and> i < q + n \<and> frame_taken s i"
  using assms
proof (induction "m - k" arbitrary: k start run)
  case 0
  then show ?case by (auto split: if_splits)
next
  case (Suc d)
  then have km: "[k..<m] = k # [Suc k..<m]" and d: "d = m - Suc k" by (simp_all add: upt_conv_Cons)
  show ?case
  proof (cases "frame_taken s k")
    case True
    with Suc.prems(1) have r: "find_run s n [Suc k..<m] start 0 = None" by (simp add: km)
    show ?thesis
    proof (cases "Suc k \<le> q")
      case True
      with Suc.hyps(1) [OF d r] Suc.prems(2,4) show ?thesis by simp
    next
      case False
      with True Suc.prems(2,3,5) show ?thesis by (intro exI [of _ k]) (auto split: if_splits)
    qed
  next
    case False
    define start' where "start' = (if run = 0 then k else start)"
    have "run + 1 \<noteq> n" using Suc.prems(1) False by (auto simp: km split: if_splits)
    moreover have "find_run s n [Suc k..<m] start' (run + 1) = None"
      using Suc.prems(1) False \<open>run + 1 \<noteq> n\<close> by (simp add: km start'_def Let_def)
    moreover have "start' + (run + 1) = Suc k" using Suc.prems(3) by (auto simp: start'_def)
    ultimately show ?thesis
      using Suc.hyps(1) [OF d, of start' "run + 1"] Suc.prems(2,4,5) by (simp add: start'_def)
  qed
qed

lemma bm_get_fold_set: "bm_get (fold (\<lambda>i bm. bm_set bm i) xs bm) j \<longleftrightarrow> j \<in> set xs \<or> bm_get bm j"
  by (induction xs arbitrary: bm) auto

lemma pmm_contiguous_spec:
  assumes ok: "pmm_ok s" and n: "n = unat pages" "pages \<noteq> 0"
  shows "(\<exists>s' st. pmm_alloc_contiguous_frames s pages = (s', frame_addr st) \<and> {st..<st + n} \<subseteq> unused s
        \<and> pmm_ok s' \<and> unused s' = unused s - {st..<st + n})
    \<or> (pmm_alloc_contiguous_frames s pages = (s, 0) \<and> (\<nexists>st. {st..<st + n} \<subseteq> unused s))"
proof (cases "pages > g_pmm_total s")
  case True
  have "\<not> {st..<st + n} \<subseteq> unused s" for st
  proof
    assume "{st..<st + n} \<subseteq> unused s"
    then have "{st..<st + n} \<subseteq> {..<unat (g_pmm_total s)}" by (auto simp: unused_def)
    from card_mono [OF _ this] True n(1) show False by (simp add: word_less_nat_alt)
  qed
  with True show ?thesis by (simp add: pmm_alloc_contiguous_frames_def)
next
  case False
  let ?total = "unat (g_pmm_total s)"
  have n0: "0 < n" using n by (simp add: unat_gt_0)
  have taken: "frame_taken s i \<longleftrightarrow> i \<notin> unused s" if "i < ?total" for i using frame_taken_unused [OF ok that] .
  have alloc: "pmm_alloc_contiguous_frames s pages = (case find_run s n [0..<?total] 0 0 of
       None \<Rightarrow> (s, 0)
     | Some start \<Rightarrow>
         (s\<lparr> g_pmm_bitmap := fold (\<lambda>i bm. bm_set bm i) [start..<start + n] (g_pmm_bitmap s),
             g_pmm_free := (if g_pmm_free s \<ge> pages then g_pmm_free s - pages else 0),
             g_pmm_hint := (if start + n < ?total then of_nat (start + n) else 0) \<rparr>, frame_addr start))"
    using False n(2) unfolding n(1) pmm_alloc_contiguous_frames_def frame_addr_def Let_def by simp
  show ?thesis
  proof (cases "find_run s n [0..<?total] 0 0")
    case None
    have "\<not> {st..<st + n} \<subseteq> unused s" for st
    proof
      assume sub: "{st..<st + n} \<subseteq> unused s"
      have "st + n - 1 \<in> {st..<st + n}" using n0 by simp
      then have "st + n - 1 < ?total" using sub by (auto simp: unused_def)
      with find_run_complete [OF None n0, of st] sub taken show False by (force simp: unused_def)
    qed
    with None show ?thesis by (simp add: alloc)
  next
    case (Some st)
    from find_run_sound [OF Some] n0 have st: "st + n \<le> ?total" "\<forall>i. st \<le> i \<longrightarrow> i < st + n \<longrightarrow> \<not> frame_taken s i"
      by auto
    then have sub: "{st..<st + n} \<subseteq> unused s" using taken by fastforce
    define s' where "s' = s\<lparr> g_pmm_bitmap := fold (\<lambda>i bm. bm_set bm i) [st..<st + n] (g_pmm_bitmap s),
             g_pmm_free := (if g_pmm_free s \<ge> pages then g_pmm_free s - pages else 0),
             g_pmm_hint := (if st + n < ?total then of_nat (st + n) else 0) \<rparr>"
    have un: "unused s' = unused s - {st..<st + n}"
      by (auto simp: unused_def s'_def bm_get_fold_set)
    have "card (unused s') = card (unused s) - n"
      unfolding un using sub by (subst card_Diff_subset) auto
    moreover have "n \<le> card (unused s)" using card_mono [OF finite_unused sub] by simp
    then have "pages \<le> g_pmm_free s" using pmm_okD(6) [OF ok] n(1) by (simp add: word_le_nat_alt)
    ultimately have "unat (g_pmm_free s') = card (unused s')"
      using pmm_okD(6) [OF ok] n(1) by (simp add: s'_def unat_sub)
    then have "pmm_ok s'"
      using ok by (auto simp: pmm_ok_def base_idx_def s'_def bm_get_fold_set)
    moreover have "pmm_alloc_contiguous_frames s pages = (s', frame_addr st)" by (simp add: alloc Some s'_def)
    ultimately show ?thesis using sub un by blast
  qed
qed

subsection \<open>Initialisation\<close>

definition unused_below :: "nat \<Rightarrow> bitmap \<Rightarrow> nat set" where
  "unused_below n bm = {i. i < n \<and> \<not> bm_get bm i}"

lemma finite_unused_below [simp]: "finite (unused_below n bm)"
  by (rule finite_subset [of _ "{..<n}"]) (auto simp: unused_below_def)

lemma card_unused_below: "card (unused_below n bm) \<le> n"
  using card_mono [of "{..<n}" "unused_below n bm"] by (auto simp: unused_below_def)

lemma clear_bit_spec:
  assumes "unat (snd r) = card (unused_below n (fst r))" and "i < n" and "n < 2 ^ 32"
  shows "unat (snd (clear_bit i r)) = card (unused_below n (fst (clear_bit i r)))"
    and "unused_below n (fst (clear_bit i r)) = insert i (unused_below n (fst r))"
proof -
  show un: "unused_below n (fst (clear_bit i r)) = insert i (unused_below n (fst r))"
    using assms(2) by (auto simp: clear_bit_def unused_below_def)
  show "unat (snd (clear_bit i r)) = card (unused_below n (fst (clear_bit i r)))"
  proof (cases "bm_get (fst r) i")
    case False
    with assms(1) show ?thesis by (simp add: clear_bit_def)
  next
    case True
    then have ni: "i \<notin> unused_below n (fst r)" by (simp add: unused_below_def)
    have "Suc (card (unused_below n (fst r))) \<le> n"
      using card_unused_below [of n "fst (clear_bit i r)"] ni by (simp add: un)
    then have "unat (snd r + 1) = unat (snd r) + 1" using assms(1,3) by (subst unat_add_no_wrap) auto
    then show ?thesis using True assms(1) ni by (simp only: un) (simp add: clear_bit_def)
  qed
qed

lemma reserve_bit_spec:
  assumes "unat (snd r) = card (unused_below n (fst r))" and "i < n"
  shows "unat (snd (reserve_bit i r)) = card (unused_below n (fst (reserve_bit i r)))"
    and "unused_below n (fst (reserve_bit i r)) = unused_below n (fst r) - {i}"
proof -
  show un: "unused_below n (fst (reserve_bit i r)) = unused_below n (fst r) - {i}"
    by (auto simp: reserve_bit_def unused_below_def)
  show "unat (snd (reserve_bit i r)) = card (unused_below n (fst (reserve_bit i r)))"
  proof (cases "bm_get (fst r) i")
    case True
    with assms(1) show ?thesis by (simp add: reserve_bit_def)
  next
    case False
    then have i: "i \<in> unused_below n (fst r)" using assms(2) by (simp add: unused_below_def)
    then have "unat (snd r) = Suc (card (unused_below n (fst r) - {i}))"
      unfolding assms(1) by (rule card_Suc_Diff1 [OF finite_unused_below, symmetric])
    from unat_pred [OF this] show ?thesis using False by (simp only: un) (simp add: reserve_bit_def)
  qed
qed

lemma fold_clear:
  assumes "\<forall>i \<in> set xs. i < n" and "n < 2 ^ 32" and "unat (snd r) = card (unused_below n (fst r))"
  shows "unat (snd (fold clear_bit xs r)) = card (unused_below n (fst (fold clear_bit xs r)))
     \<and> unused_below n (fst (fold clear_bit xs r)) = set xs \<union> unused_below n (fst r)"
  using assms
proof (induction xs arbitrary: r)
  case (Cons i xs)
  then have i: "i < n" "\<forall>i \<in> set xs. i < n" by auto
  from Cons.IH [OF i(2) assms(2) clear_bit_spec(1) [OF Cons.prems(3) i(1) assms(2)]]
  show ?case by (auto simp: clear_bit_spec(2) [OF Cons.prems(3) i(1) assms(2)])
qed simp

lemma fold_reserve:
  assumes "\<forall>i \<in> set xs. i < n" and "unat (snd r) = card (unused_below n (fst r))"
  shows "unat (snd (fold reserve_bit xs r)) = card (unused_below n (fst (fold reserve_bit xs r)))
     \<and> unused_below n (fst (fold reserve_bit xs r)) = unused_below n (fst r) - set xs"
  using assms
proof (induction xs arbitrary: r)
  case (Cons i xs)
  then have i: "i < n" "\<forall>i \<in> set xs. i < n" by auto
  from Cons.IH [OF i(2) reserve_bit_spec(1) [OF Cons.prems(2) i(1)]]
  show ?case by (auto simp: reserve_bit_spec(2) [OF Cons.prems(2) i(1)])
qed simp

text \<open>A frame is usable when some reported range covers all of it.\<close>

definition range_covers :: "u64 \<times> u64 \<Rightarrow> nat \<Rightarrow> bool" where
  "range_covers r i \<longleftrightarrow> unat (fst r) \<le> i * 4096 \<and> (i + 1) * 4096 \<le> unat (snd r)"

lemma range_frames_spec:
  assumes "unat (fst r) + 4095 < 2 ^ 64" and pg: "unat pages \<le> 2097152"
  shows "set (range_frames pages r) = {i. i < unat pages \<and> range_covers r i}"
proof -
  define limit where "limit = (ucast pages * PAGE_SIZE :: u64)"
  define st where "st = (fst r + PAGE_SIZE - 1) AND NOT (PAGE_SIZE - 1)"
  define e0 where "e0 = snd r AND NOT (PAGE_SIZE - 1)"
  define e where "e = (if e0 > limit then limit else e0)"
  have up: "unat (ucast pages :: u64) = unat pages" by (simp add: unsigned_ucast_eq take_bit_nat_eq_self unat_less_2p less_trans [OF unat_less_2p])
  have lim: "unat limit = unat pages * 4096"
    using pg up by (simp add: limit_def PAGE_SIZE_def unat_mult_lem [THEN iffD1])
  have "unat (fst r + 4095) = unat (fst r) + 4095" using assms(1) by (subst unat_add_no_wrap) auto
  then have st: "unat st = (unat (fst r) + 4095) div 4096 * 4096"
    unfolding st_def unat_page_floor by (simp add: PAGE_SIZE_def add.commute)
  have e0: "unat e0 = unat (snd r) div 4096 * 4096" unfolding e0_def by (rule unat_page_floor)
  have ue: "unat e = min (unat e0) (unat limit)" by (auto simp: e_def word_less_nat_alt)
  have small: "unat (ucast (w div PAGE_SIZE) :: u32) = unat w div 4096" if "unat w \<le> unat limit" for w :: u64
    using that lim pg by (simp add: unsigned_ucast_eq unat_div_page take_bit_nat_eq_self)
  have rf: "range_frames pages r = (if e0 \<le> st \<or> st \<ge> limit then []
      else [unat (ucast (st div PAGE_SIZE) :: u32)..<unat (if ucast (e div PAGE_SIZE) > pages then pages else ucast (e div PAGE_SIZE))])"
    unfolding range_frames_def limit_def st_def e0_def e_def Let_def by simp
  show ?thesis
  proof (cases "e0 \<le> st \<or> st \<ge> limit")
    case True
    have "\<not> range_covers r i" if "i < unat pages" for i
    proof
      assume "range_covers r i"
      then have "unat (fst r) + 4095 < (i + 1) * 4096" "i + 1 \<le> unat (snd r) div 4096"
        by (simp_all add: range_covers_def less_eq_div_iff_mult_less_eq)
      then have "(unat (fst r) + 4095) div 4096 < i + 1" "(i + 1) * 4096 \<le> unat e0"
        unfolding e0 by (blast intro: less_mult_imp_div_less mult_le_mono1)+
      then have "unat st \<le> i * 4096" "(i + 1) * 4096 \<le> unat e0" unfolding st by simp_all
      with True that lim show False by (auto simp: word_le_nat_alt)
    qed
    with True show ?thesis by (auto simp: rf)
  next
    case False
    have s: "unat (ucast (st div PAGE_SIZE) :: u32) = unat st div 4096"
      using False by (intro small) (simp add: word_le_nat_alt)
    have l: "unat (ucast (e div PAGE_SIZE) :: u32) = unat e div 4096" by (rule small) (simp add: ue)
    have "unat e div 4096 \<le> unat pages" using ue lim by simp
    then have "unat (if ucast (e div PAGE_SIZE) > pages then pages else ucast (e div PAGE_SIZE)) = unat e div 4096"
      using l by (auto simp: word_less_nat_alt)
    then have "set (range_frames pages r) = {unat st div 4096..<unat e div 4096}" using False s by (simp add: rf)
    also have "\<dots> = {i. i < unat pages \<and> range_covers r i}"
      unfolding ue lim st e0 range_covers_def by (auto simp: min_def)
    finally show ?thesis .
  qed
qed

lemma pmm_init_spec:
  assumes base: "0x200000 \<le> g_pmm_base s" "4096 dvd unat (g_pmm_base s)" "unat (g_pmm_base s) < 2 ^ 44"
    and ranges: "\<forall>r \<in> set (g_pmm_usable_ranges s). unat (fst r) + 4095 < 2 ^ 64"
  shows "pmm_ok (pmm_init s mem)" and "g_pmm_base (pmm_init s mem) = g_pmm_base s"
    and "unused (pmm_init s mem) = {i. i < unat (g_pmm_total (pmm_init s mem)) \<and> base_idx s \<le> i
      \<and> (g_pmm_usable_ranges s = [] \<or> (\<exists>r \<in> set (g_pmm_usable_ranges s). range_covers r i))}"
proof -
  define mem' where "mem' = (if g_pmm_memory_limit s \<noteq> 0 \<and> mem > g_pmm_memory_limit s then g_pmm_memory_limit s else mem)"
  define pages0 where "pages0 = (ucast (mem' div PAGE_SIZE) :: u32)"
  define pages where "pages = (if unat pages0 > PMM_MAX_PAGES then of_nat PMM_MAX_PAGES else pages0)"
  define r1 where "r1 = (if g_pmm_usable_ranges s \<noteq> []
             then fold clear_bit (concat (map (range_frames pages) (g_pmm_usable_ranges s))) ((\<lambda>_. 0xFFFFFFFF), 0)
             else ((\<lambda>_. 0), pages))"
  define res0 where "res0 = (ucast (g_pmm_base s div PAGE_SIZE) :: u32)"
  define res where "res = (if res0 > pages then pages else res0)"
  define r2 where "r2 = fold reserve_bit [0..<unat res] r1"
  let ?n = "unat pages" and ?s = "pmm_init s mem"
  have init: "?s = s\<lparr> g_pmm_bitmap := fst r2, g_pmm_pt_bitmap := (\<lambda>_. 0), g_pmm_total := pages, g_pmm_free := snd r2,
            g_pmm_hint := (if res < pages then res else 0) \<rparr>"
    by (simp only: pmm_init_def Let_def case_prod_beta prod.collapse mem'_def [symmetric] pages0_def [symmetric]
        pages_def [symmetric] r1_def [symmetric] res0_def [symmetric] res_def [symmetric] r2_def [symmetric])
  have n: "?n \<le> 2097152"
    by (auto simp: pages_def PMM_MAX_PAGES_def)
  then have n32: "?n < 2 ^ 32" by simp
  have u1: "unat (snd r1) = card (unused_below ?n (fst r1)) \<and> unused_below ?n (fst r1) = {i. i < ?n
      \<and> (g_pmm_usable_ranges s = [] \<or> (\<exists>r \<in> set (g_pmm_usable_ranges s). range_covers r i))}"
  proof (cases "g_pmm_usable_ranges s = []")
    case True
    then have "r1 = ((\<lambda>_. 0), pages)" by (simp add: r1_def)
    moreover have "unused_below ?n (\<lambda>_. 0) = {..<?n}" by (auto simp: unused_below_def)
    ultimately show ?thesis using True by (auto simp: lessThan_def)
  next
    case False
    let ?xs = "concat (map (range_frames pages) (g_pmm_usable_ranges s))"
    have xs: "set ?xs = {i. i < ?n \<and> (\<exists>r \<in> set (g_pmm_usable_ranges s). range_covers r i)}"
      using range_frames_spec [OF _ n] ranges by auto
    have e: "unused_below ?n (\<lambda>_. 0xFFFFFFFF) = {}" by (simp add: unused_below_def)
    have "\<forall>i \<in> set ?xs. i < ?n" using xs by auto
    from fold_clear [OF this n32, of "((\<lambda>_. 0xFFFFFFFF), 0)"] False xs show ?thesis by (simp add: r1_def e)
  qed
  have res: "unat res = min ?n (base_idx s)"
  proof -
    have "unat res0 = base_idx s"
      using base(3) by (simp add: res0_def unsigned_ucast_eq unat_div_page base_idx_def take_bit_nat_eq_self)
    then show ?thesis by (auto simp: res_def word_less_nat_alt)
  qed
  have u2: "unat (snd r2) = card (unused_below ?n (fst r2))
      \<and> unused_below ?n (fst r2) = unused_below ?n (fst r1) - {..<min ?n (base_idx s)}"
    unfolding r2_def using fold_reserve [of "[0..<unat res]" ?n r1] u1 res by (simp add: atLeast0LessThan)
  have un: "unused ?s = unused_below ?n (fst r2)" by (simp add: unused_def unused_below_def init)
  show "g_pmm_base ?s = g_pmm_base s" by (simp add: init)
  have tot: "g_pmm_total ?s = pages" by (simp add: init)
  show "unused ?s = {i. i < unat (g_pmm_total ?s) \<and> base_idx s \<le> i
      \<and> (g_pmm_usable_ranges s = [] \<or> (\<exists>r \<in> set (g_pmm_usable_ranges s). range_covers r i))}"
    unfolding un conjunct2 [OF u2] conjunct2 [OF u1] tot by (auto simp: min_def)
  have "bm_get (fst r2) i" if "i < base_idx s" "i < ?n" for i
  proof -
    have "i \<notin> unused_below ?n (fst r2)" using u2 that by auto
    with that show ?thesis by (simp add: unused_below_def)
  qed
  then show "pmm_ok ?s"
    using base n u2 un by (auto simp: pmm_ok_def init base_idx_def PMM_MAX_PAGES_def)
qed

subsection \<open>The frame allocator contract\<close>

text \<open>
  What paging and the tasks rely on: \<open>managed\<close> addresses never include 0, an allocation
  takes some free frame and fails only when there is none, a release puts a frame back
  unless it is pinned, and pinning keeps the free set.
\<close>

locale frame_allocator =
  fixes inv :: "'s \<Rightarrow> bool"
    and managed free_set pinned :: "'s \<Rightarrow> u64 set"
    and alloc :: "'s \<Rightarrow> 's \<times> u64"
    and release pin :: "'s \<Rightarrow> u64 \<Rightarrow> 's"
  assumes zero_not_managed: "inv s \<Longrightarrow> 0 \<notin> managed s"
    and free_managed: "inv s \<Longrightarrow> free_set s \<subseteq> managed s"
    and free_finite: "inv s \<Longrightarrow> finite (free_set s)"
    and alloc_none: "inv s \<Longrightarrow> free_set s = {} \<Longrightarrow> alloc s = (s, 0)"
    and alloc_some: "inv s \<Longrightarrow> free_set s \<noteq> {} \<Longrightarrow> \<exists>s' a. alloc s = (s', a) \<and> a \<in> free_set s \<and> inv s'
      \<and> free_set s' = free_set s - {a} \<and> managed s' = managed s \<and> pinned s' = pinned s"
    and release_back: "inv s \<Longrightarrow> a \<in> managed s \<Longrightarrow> a \<notin> pinned s \<Longrightarrow> inv (release s a)
      \<and> free_set (release s a) = insert a (free_set s) \<and> managed (release s a) = managed s
      \<and> pinned (release s a) = pinned s"
    and release_pinned: "inv s \<Longrightarrow> a \<in> managed s \<Longrightarrow> a \<in> pinned s \<Longrightarrow> release s a = s"
    and pin_keeps: "inv s \<Longrightarrow> a \<in> managed s \<Longrightarrow> a \<notin> free_set s \<Longrightarrow> inv (pin s a)
      \<and> free_set (pin s a) = free_set s \<and> managed (pin s a) = managed s
      \<and> pinned (pin s a) = insert a (pinned s)"
begin

text \<open>Runs with a ghost set of the frames the clients hold.\<close>

inductive owns :: "'s \<Rightarrow> 's \<Rightarrow> u64 set \<Rightarrow> bool" for s0 where
  start: "owns s0 s0 {}"
| take: "owns s0 s held \<Longrightarrow> alloc s = (s', a) \<Longrightarrow> a \<noteq> 0 \<Longrightarrow> owns s0 s' (insert a held)"
| fail: "owns s0 s held \<Longrightarrow> alloc s = (s', 0) \<Longrightarrow> owns s0 s' held"
| give: "owns s0 s held \<Longrightarrow> a \<in> held \<Longrightarrow> a \<notin> pinned s \<Longrightarrow> owns s0 (release s a) (held - {a})"
| refuse: "owns s0 s held \<Longrightarrow> a \<in> held \<Longrightarrow> a \<in> pinned s \<Longrightarrow> owns s0 (release s a) held"
| pin: "owns s0 s held \<Longrightarrow> a \<in> held \<Longrightarrow> owns s0 (pin s a) held"

lemma alloc_zero_iff: "inv s \<Longrightarrow> alloc s = (s', a) \<Longrightarrow> a = 0 \<longleftrightarrow> free_set s = {}"
proof -
  assume I: "inv s" and a: "alloc s = (s', a)"
  show "a = 0 \<longleftrightarrow> free_set s = {}"
  proof (cases "free_set s = {}")
    case True
    with alloc_none [OF I] a show ?thesis by simp
  next
    case False
    then obtain s1 a1 where "alloc s = (s1, a1)" "a1 \<in> free_set s" using alloc_some [OF I] by blast
    with a have "a \<in> managed s" using free_managed [OF I] by auto
    with zero_not_managed [OF I] have "a \<noteq> 0" by blast
    with False show ?thesis by blast
  qed
qed

lemma owns_inv:
  assumes "owns s0 s held" and "inv s0"
  shows "inv s \<and> managed s = managed s0 \<and> held \<subseteq> managed s \<and> held \<inter> free_set s = {}
    \<and> held \<union> free_set s = free_set s0"
  using assms
proof (induction rule: owns.induct)
  case start
  then show ?case by simp
next
  case (take s held s' a)
  then have I: "inv s" "managed s = managed s0" "held \<subseteq> managed s" "held \<inter> free_set s = {}"
      "held \<union> free_set s = free_set s0" by auto
  have "free_set s \<noteq> {}" using alloc_zero_iff [OF I(1) take.hyps(2)] take.hyps(3) by blast
  then obtain s1 a1 where s1: "alloc s = (s1, a1)" "a1 \<in> free_set s" "inv s1" "free_set s1 = free_set s - {a1}"
      "managed s1 = managed s"
    using alloc_some [OF I(1)] by blast
  then have e: "s1 = s'" "a1 = a" using take.hyps(2) by auto
  have "insert a held \<subseteq> managed s'" "insert a held \<inter> free_set s' = {}" "insert a held \<union> free_set s' = free_set s0"
    using I s1 free_managed [OF I(1)] unfolding e by blast+
  then show ?case using s1 I(2) unfolding e by simp
next
  case (fail s held s')
  then have "free_set s = {}" using alloc_zero_iff by blast
  with fail alloc_none [of s] free_managed [of s0] show ?case by simp
next
  case (give s held a)
  then have I: "inv s" "a \<in> managed s" and D: "managed s = managed s0" "held \<subseteq> managed s"
      "held \<inter> free_set s = {}" "held \<union> free_set s = free_set s0" by blast+
  note R = release_back [OF I]
  show ?case using R D give.hyps(2,3) I by (auto simp: Int_commute)
next
  case (refuse s held a)
  then have I: "inv s" "a \<in> managed s" and D: "managed s = managed s0" "held \<subseteq> managed s"
      "held \<inter> free_set s = {}" "held \<union> free_set s = free_set s0" by blast+
  note R = release_pinned [OF I]
  show ?case using R D refuse.hyps(2,3) I by (auto simp: Int_commute)
next
  case (pin s held a)
  then have I: "inv s" "a \<in> managed s" and D: "managed s = managed s0" "held \<subseteq> managed s"
      "held \<inter> free_set s = {}" "held \<union> free_set s = free_set s0" by blast+
  have "a \<notin> free_set s" using D(3) pin.hyps(2) by blast
  note R = pin_keeps [OF I this]
  show ?case using R D pin.hyps(2) I by (auto simp: Int_commute)
qed

text \<open>A frame handed out is one nobody holds, and allocation fails only when the clients hold
  everything there was.\<close>

lemma alloc_fresh:
  assumes "owns s0 s held" and "inv s0" and "alloc s = (s', a)"
  shows "a \<notin> held" and "a = 0 \<longleftrightarrow> held = free_set s0"
proof -
  have I: "inv s" "held \<subseteq> managed s" "held \<inter> free_set s = {}" "held \<union> free_set s = free_set s0"
    using owns_inv [OF assms(1,2)] by auto
  have z: "a = 0 \<longleftrightarrow> free_set s = {}" using alloc_zero_iff [OF I(1) assms(3)] .
  show "a \<notin> held"
  proof (cases "a = 0")
    case True
    with I(1,2) zero_not_managed show ?thesis by blast
  next
    case False
    with z obtain s1 a1 where "alloc s = (s1, a1)" "a1 \<in> free_set s" using alloc_some [OF I(1)] by blast
    with assms(3) I(3) show ?thesis by auto
  qed
  show "a = 0 \<longleftrightarrow> held = free_set s0" using z I(3,4) by blast
qed

end

definition managed_frames :: "pmm \<Rightarrow> u64 set" where
  "managed_frames s = frame_addr ` {base_idx s..<unat (g_pmm_total s)}"

definition pinned_frames :: "pmm \<Rightarrow> u64 set" where
  "pinned_frames s = frame_addr ` {i. i < unat (g_pmm_total s) \<and> bm_get (g_pmm_pt_bitmap s) i}"

lemma frame_addr_inj_ok:
  "pmm_ok s \<Longrightarrow> i < unat (g_pmm_total s) \<Longrightarrow> j < unat (g_pmm_total s) \<Longrightarrow> frame_addr i = frame_addr j \<longleftrightarrow> i = j"
  using pmm_okD(1) [of s] by (intro frame_addr_inj) auto

lemma in_frames:
  assumes "pmm_ok s" and "i < unat (g_pmm_total s)"
  shows "frame_addr i \<in> free_frames s \<longleftrightarrow> i \<in> unused s"
    and "frame_addr i \<in> pinned_frames s \<longleftrightarrow> bm_get (g_pmm_pt_bitmap s) i"
proof -
  note inj = frame_addr_inj_ok [OF assms(1) assms(2)]
  show "frame_addr i \<in> free_frames s \<longleftrightarrow> i \<in> unused s"
    unfolding free_frames_def using inj by (auto simp: unused_def)
  show "frame_addr i \<in> pinned_frames s \<longleftrightarrow> bm_get (g_pmm_pt_bitmap s) i"
    unfolding pinned_frames_def using inj assms(2) by auto
qed

lemma unused_inj: "pmm_ok s \<Longrightarrow> inj_on frame_addr {..<unat (g_pmm_total s)}"
  using frame_addr_inj_ok [of s] by (auto simp: inj_on_def)

interpretation fa: frame_allocator pmm_ok managed_frames free_frames pinned_frames
  pmm_alloc_frame pmm_free_frame pmm_mark_page_table_frame
proof (unfold_locales, goal_cases)
  case (1 s)
  show ?case
  proof
    assume "0 \<in> managed_frames s"
    then obtain i where i: "base_idx s \<le> i" "i < unat (g_pmm_total s)" "frame_addr i = 0"
      by (auto simp: managed_frames_def)
    then have "unat (frame_addr i) = i * 4096" using pmm_okD(1) [OF 1] by (intro unat_frame_addr) simp
    with i pmm_okD(3) [OF 1] show False by simp
  qed
next
  case (2 s)
  then show ?case using unused_bounds [OF 2] by (auto simp: free_frames_def managed_frames_def)
next
  case (3 s)
  then show ?case by (simp add: free_frames_def)
next
  case (4 s)
  then show ?case using pmm_alloc_spec(1) [OF 4(1)] by (simp add: free_frames_def)
next
  case (5 s)
  then have "unused s \<noteq> {}" by (simp add: free_frames_def)
  then obtain s' i where a: "pmm_alloc_frame s = (s', frame_addr i)" "i \<in> unused s" "pmm_ok s'"
      "unused s' = unused s - {i}" "g_pmm_total s' = g_pmm_total s" "g_pmm_base s' = g_pmm_base s"
      "g_pmm_pt_bitmap s' = g_pmm_pt_bitmap s"
    using pmm_alloc_spec(2) [OF 5(1)] by blast
  have "inj_on frame_addr (unused s)"
    by (rule inj_on_subset [OF unused_inj [OF 5(1)]]) (auto simp: unused_def)
  then have "free_frames s' = free_frames s - {frame_addr i}"
    using a(2) unfolding free_frames_def a(4) by (simp add: inj_on_image_set_diff [of _ "unused s"])
  with a show ?case by (auto simp: free_frames_def managed_frames_def pinned_frames_def base_idx_def)
next
  case (6 s a)
  then obtain i where i: "base_idx s \<le> i" "i < unat (g_pmm_total s)" "a = frame_addr i"
    by (auto simp: managed_frames_def)
  have np: "\<not> bm_get (g_pmm_pt_bitmap s) i" using 6(3) in_frames(2) [OF 6(1) i(2)] i(3) by simp
  have fl: "a AND NOT (PAGE_SIZE - 1) = frame_addr i"
    using i(2,3) pmm_okD(1) [OF 6(1)] page_floor_frame_addr [of i] by simp
  note sp = pmm_free_spec [OF 6(1) i(1,2) fl np]
  show ?case
    using sp i(3) by (simp add: free_frames_def managed_frames_def pinned_frames_def base_idx_def)
next
  case (7 s a)
  then obtain i where i: "base_idx s \<le> i" "i < unat (g_pmm_total s)" "a = frame_addr i"
    by (auto simp: managed_frames_def)
  then have "bm_get (g_pmm_pt_bitmap s) i" using 7(3) in_frames(2) [OF 7(1) i(2)] by simp
  moreover have "a AND NOT (PAGE_SIZE - 1) = frame_addr i"
    using i(2,3) pmm_okD(1) [OF 7(1)] page_floor_frame_addr [of i] by simp
  ultimately show ?case
    using frame_index_addr [OF 7(1) i(1,2)] by (intro pmm_free_refused) (simp add: pmm_is_page_table_frame_def)
next
  case (8 s a)
  then obtain i where i: "base_idx s \<le> i" "i < unat (g_pmm_total s)" "a = frame_addr i"
    by (auto simp: managed_frames_def)
  have "i \<notin> unused s" using 8(3) in_frames(1) [OF 8(1) i(2)] i(3) by simp
  note sp = pmm_mark_spec [OF 8(1) i(1,2) this]
  have "{j. j < unat (g_pmm_total s) \<and> (j = i \<or> bm_get (g_pmm_pt_bitmap s) j)}
      = insert i {j. j < unat (g_pmm_total s) \<and> bm_get (g_pmm_pt_bitmap s) j}" using i(2) by auto
  then show ?case
    using sp i(3) by (simp add: free_frames_def managed_frames_def pinned_frames_def base_idx_def)
qed

text \<open>The base that \<open>pmm_set_alloc_base\<close> leaves is page aligned and above the first 2 MiB.\<close>

lemma set_alloc_base_ok:
  "0x200000 \<le> g_pmm_base (pmm_set_alloc_base s b)" "4096 dvd unat (g_pmm_base (pmm_set_alloc_base s b))"
proof -
  let ?b = "if b < 0x200000 then 0x200000 else b"
  have u: "unat (g_pmm_base (pmm_set_alloc_base s b)) = unat ?b div 4096 * 4096"
    unfolding unat_page_floor [symmetric] by (simp add: pmm_set_alloc_base_def)
  have "0x200000 \<le> unat ?b" by (auto simp: word_less_nat_alt not_less)
  then have "512 \<le> unat ?b div 4096" by simp
  then have "512 * 4096 \<le> unat ?b div 4096 * 4096" by (rule mult_le_mono1)
  then show "0x200000 \<le> g_pmm_base (pmm_set_alloc_base s b)"
    unfolding word_le_nat_alt u by simp
  show "4096 dvd unat (g_pmm_base (pmm_set_alloc_base s b))" by (simp only: u dvd_triv_right)
qed

text \<open>A boot-time state with one usable range of 4 MiB, for the concrete instances.\<close>

definition pmm_example :: pmm where
  "pmm_example = pmm_add_usable_range (pmm_set_alloc_base pmm_boot 0) 0 0x400000"

lemma pmm_example_simps:
  "g_pmm_base pmm_example = 0x200000" "g_pmm_usable_ranges pmm_example = [(0, 0x400000)]"
proof -
  have "(0x200000 :: u64) AND NOT (PAGE_SIZE - 1) = 0x200000"
    by (simp add: word_unat_eq_iff unat_page_floor)
  then show "g_pmm_base pmm_example = 0x200000" "g_pmm_usable_ranges pmm_example = [(0, 0x400000)]"
    by (simp_all add: pmm_example_def pmm_add_usable_range_def pmm_set_alloc_base_def pmm_boot_def
        PMM_USABLE_RANGE_MAX_def Let_def)
qed

subsection \<open>Properties\<close>

text \<open>After \<open>pmm_init\<close> the invariant holds, and the frames that can be handed out are
  exactly the whole frames above the allocation base that lie inside a reported usable range
  (or all frames above the base when no range was reported).\<close>

theorem pmm_init_correct:
  assumes "0x200000 \<le> g_pmm_base s" and "4096 dvd unat (g_pmm_base s)" and "unat (g_pmm_base s) < 2 ^ 44"
    and "\<forall>r \<in> set (g_pmm_usable_ranges s). unat (fst r) + 4095 < 2 ^ 64"
  shows "pmm_ok (pmm_init s mem) \<and> free_frames (pmm_init s mem) =
    frame_addr ` {i. i < unat (g_pmm_total (pmm_init s mem)) \<and> unat (g_pmm_base s) div 4096 \<le> i
      \<and> (g_pmm_usable_ranges s = [] \<or> (\<exists>r \<in> set (g_pmm_usable_ranges s). range_covers r i))}"
  using pmm_init_spec [OF assms, of mem] by (simp add: free_frames_def base_idx_def)

theorem pmm_init_correct_witness:
  "pmm_ok (pmm_init pmm_example 0x800000) \<and> free_frames (pmm_init pmm_example 0x800000) =
    frame_addr ` {i. i < unat (g_pmm_total (pmm_init pmm_example 0x800000)) \<and> unat (g_pmm_base pmm_example) div 4096 \<le> i
      \<and> (g_pmm_usable_ranges pmm_example = [] \<or> (\<exists>r \<in> set (g_pmm_usable_ranges pmm_example). range_covers r i))}"
  by (rule pmm_init_correct) (simp_all add: pmm_example_simps)

text \<open>C25: after initialisation, over any run of allocations, releases of held frames and
  page-table marks: an allocation never hands out a frame that somebody still holds, it fails
  exactly when the clients hold every free frame there was, the counter is the number of free
  frames, and no frame is lost: held and free frames together are the initial free frames.\<close>

theorem pmm_no_double_allocation:
  assumes "pmm_ok s0" and "fa.owns s0 s held" and "pmm_alloc_frame s = (s', a)"
  shows "a \<notin> held \<and> (a = 0 \<longleftrightarrow> held = free_frames s0) \<and> held \<inter> free_frames s = {}
    \<and> held \<union> free_frames s = free_frames s0 \<and> unat (pmm_free_count s) = card (free_frames s)"
proof -
  have I: "pmm_ok s" "held \<inter> free_frames s = {}" "held \<union> free_frames s = free_frames s0"
    using fa.owns_inv [OF assms(2,1)] by auto
  have "inj_on frame_addr (unused s)"
    by (rule inj_on_subset [OF unused_inj [OF I(1)]]) (auto simp: unused_def)
  then have "card (free_frames s) = card (unused s)" unfolding free_frames_def by (rule card_image)
  then show ?thesis
    using fa.alloc_fresh [OF assms(2,1,3)] I pmm_okD(6) [OF I(1)] by (simp add: pmm_free_count_def)
qed

theorem pmm_no_double_allocation_witness:
  "\<exists>s' a. pmm_alloc_frame (pmm_init pmm_example 0x800000) = (s', a)
    \<and> a \<notin> {} \<and> (a = 0 \<longleftrightarrow> {} = free_frames (pmm_init pmm_example 0x800000))
    \<and> unat (pmm_free_count (pmm_init pmm_example 0x800000)) = card (free_frames (pmm_init pmm_example 0x800000))"
proof -
  have ok: "pmm_ok (pmm_init pmm_example 0x800000)"
    by (rule pmm_init_spec(1)) (simp_all add: pmm_example_simps)
  obtain s' a where a: "pmm_alloc_frame (pmm_init pmm_example 0x800000) = (s', a)" by fastforce
  from pmm_no_double_allocation [OF ok fa.owns.start a] a show ?thesis by blast
qed

text \<open>A request for \<open>n\<close> contiguous frames returns \<open>n\<close> free frames that are adjacent and
  then in use, with nothing else changed, or 0, and 0 only when no run of \<open>n\<close> free frames exists.\<close>

theorem pmm_contiguous_sound_complete:
  assumes "pmm_ok s" and "pages \<noteq> 0"
  shows "(\<exists>s' st. pmm_alloc_contiguous_frames s pages = (s', frame_addr st) \<and> pmm_ok s'
        \<and> {st..<st + unat pages} \<subseteq> unused s \<and> unused s' = unused s - {st..<st + unat pages})
    \<or> (pmm_alloc_contiguous_frames s pages = (s, 0) \<and> (\<nexists>st. {st..<st + unat pages} \<subseteq> unused s))"
  using pmm_contiguous_spec [OF assms(1) refl assms(2)] by blast

theorem pmm_contiguous_sound_complete_witness:
  "(\<exists>s' st. pmm_alloc_contiguous_frames (pmm_init pmm_example 0x800000) 3 = (s', frame_addr st) \<and> pmm_ok s'
        \<and> {st..<st + unat (3 :: u32)} \<subseteq> unused (pmm_init pmm_example 0x800000)
        \<and> unused s' = unused (pmm_init pmm_example 0x800000) - {st..<st + unat (3 :: u32)})
    \<or> (pmm_alloc_contiguous_frames (pmm_init pmm_example 0x800000) 3 = (pmm_init pmm_example 0x800000, 0)
        \<and> (\<nexists>st. {st..<st + unat (3 :: u32)} \<subseteq> unused (pmm_init pmm_example 0x800000)))"
  by (rule pmm_contiguous_sound_complete [OF pmm_init_spec(1)]) (simp_all add: pmm_example_simps)

end
