(* ===== verification/Paging.thy ===== *)
theory Paging
  imports Pmm
begin

text \<open>
  Four-level paging of \<^verbatim>\<open>src/compat/memory_tasks.c\<close>.  A page table is reached through
  its address in the direct map; the memory that holds the tables is a map from that address
  and an index to a 64-bit entry.  A null table pointer is 0.  The TLB and CR3 instructions
  have no effect on the tables and are left out, as are the serial traces.
\<close>

subsection \<open>State\<close>

definition PAGE_PRESENT :: u64 where "PAGE_PRESENT = 0x001"
definition PAGE_WRITABLE :: u64 where "PAGE_WRITABLE = 0x002"
definition PAGE_USER :: u64 where "PAGE_USER = 0x004"
definition PAGE_HUGE :: u64 where "PAGE_HUGE = 0x080"
definition PAGE_NX :: u64 where "PAGE_NX = 0x8000000000000000"
definition DMAP_BASE :: u64 where "DMAP_BASE = 0xFFFF800000000000"
definition C2_PTE_ADDR_MASK :: u64 where "C2_PTE_ADDR_MASK = 0x000FFFFFFFFFF000"
definition RIDUX_USER_LOW_SAFE :: u64 where "RIDUX_USER_LOW_SAFE = 0x40000000"
definition RIDUX_USER_LOW_MAP_MIN :: u64 where "RIDUX_USER_LOW_MAP_MIN = 0x400000"
definition TASK_MAX :: nat where "TASK_MAX = 256"

lemmas page_flags = PAGE_PRESENT_def PAGE_WRITABLE_def PAGE_USER_def PAGE_HUGE_def

type_synonym ptmem = "u64 \<Rightarrow> nat \<Rightarrow> u64"

record address_space =
  as_pml4 :: u64
  as_cr3_phys :: u64

text \<open>An \<open>address_space_t *\<close>: null, the kernel's, or a slot of the static array.\<close>

datatype as_ref = NullAS | KernelAS | UserAS nat

record paging =
  pg_pmm :: pmm
  pg_mem :: ptmem
  g_kernel_as :: address_space
  g_spaces :: "nat \<Rightarrow> address_space"
  next_space :: nat
  g_paging_nx_enabled :: bool

definition get_as :: "paging \<Rightarrow> as_ref \<Rightarrow> address_space" where
  "get_as s r = (case r of KernelAS \<Rightarrow> g_kernel_as s | UserAS i \<Rightarrow> g_spaces s i
     | NullAS \<Rightarrow> \<lparr> as_pml4 = 0, as_cr3_phys = 0 \<rparr>)"

abbreviation PHYS_TO_DMAP :: "u64 \<Rightarrow> u64" where "PHYS_TO_DMAP pa \<equiv> pa + DMAP_BASE"
abbreviation DMAP_TO_PHYS :: "u64 \<Rightarrow> u64" where "DMAP_TO_PHYS va \<equiv> va - DMAP_BASE"

abbreviation set_entry :: "paging \<Rightarrow> u64 \<Rightarrow> nat \<Rightarrow> u64 \<Rightarrow> paging" where
  "set_entry s t i e \<equiv> s\<lparr> pg_mem := (pg_mem s)(t := (pg_mem s t)(i := e)) \<rparr>"

abbreviation flag_set :: "u64 \<Rightarrow> u64 \<Rightarrow> bool" where "flag_set e f \<equiv> e AND f \<noteq> 0"

text \<open>The four 9-bit indices of an address.\<close>

definition pt_index :: "u64 \<Rightarrow> nat \<Rightarrow> nat" where
  "pt_index virt sh = unat (drop_bit sh virt AND 0x1FF)"

subsection \<open>Validity of tables\<close>

definition c2_sanitize_page_flags :: "paging \<Rightarrow> u64 \<Rightarrow> u64" where
  "c2_sanitize_page_flags s flags = (if \<not> g_paging_nx_enabled s then flags AND NOT PAGE_NX else flags)"

definition alloc_page_table :: "paging \<Rightarrow> paging \<times> u64" where
  "alloc_page_table s =
     (case pmm_alloc_frame (pg_pmm s) of
        (p, f) \<Rightarrow>
          if f = 0 then (s\<lparr> pg_pmm := p \<rparr>, 0)
          else (s\<lparr> pg_pmm := pmm_mark_page_table_frame p f,
                   pg_mem := (pg_mem s)(PHYS_TO_DMAP f := (\<lambda>_. 0)) \<rparr>, PHYS_TO_DMAP f))"

definition paging_init :: "paging \<Rightarrow> u64 \<Rightarrow> paging" where
  "paging_init s cr3 =
     s\<lparr> g_kernel_as := \<lparr> as_pml4 = PHYS_TO_DMAP (cr3 AND NOT 0xFFF), as_cr3_phys = cr3 AND NOT 0xFFF \<rparr> \<rparr>"

definition c2_phys_frame_in_range :: "u32 \<Rightarrow> u64 \<Rightarrow> bool" where
  "c2_phys_frame_in_range tot phys \<longleftrightarrow> (if tot = 0 then True else phys < ucast tot * PAGE_SIZE)"

definition c2_dmap_page_table_ptr_valid :: "u32 \<Rightarrow> u64 \<Rightarrow> bool" where
  "c2_dmap_page_table_ptr_valid tot va \<longleftrightarrow>
     va \<noteq> 0 \<and> va AND (PAGE_SIZE - 1) = 0 \<and> \<not> va < DMAP_BASE
     \<and> c2_phys_frame_in_range tot (va - DMAP_BASE)"

definition c2_page_table_entry_phys_valid :: "u32 \<Rightarrow> u64 \<Rightarrow> bool" where
  "c2_page_table_entry_phys_valid tot entry \<longleftrightarrow> c2_phys_frame_in_range tot (entry AND C2_PTE_ADDR_MASK)"

text \<open>The next table of an entry; \<open>None\<close> is the null pointer.\<close>

definition c2_page_table_from_entry :: "u32 \<Rightarrow> u64 \<Rightarrow> u64 option" where
  "c2_page_table_from_entry tot entry =
     (if \<not> flag_set entry PAGE_PRESENT then None
      else if flag_set entry PAGE_HUGE then None
      else if \<not> c2_page_table_entry_phys_valid tot entry then None
      else (let pt = PHYS_TO_DMAP (entry AND C2_PTE_ADDR_MASK)
            in if \<not> c2_dmap_page_table_ptr_valid tot pt then None else Some pt))"

abbreviation ptotal :: "paging \<Rightarrow> u32" where "ptotal s \<equiv> g_pmm_total (pg_pmm s)"

abbreviation next_table :: "paging \<Rightarrow> u64 \<Rightarrow> u64 option" where
  "next_table s e \<equiv> c2_page_table_from_entry (ptotal s) e"

definition c2_address_space_ready :: "paging \<Rightarrow> as_ref \<Rightarrow> bool" where
  "c2_address_space_ready s r \<longleftrightarrow> r \<noteq> NullAS \<and> c2_dmap_page_table_ptr_valid (ptotal s) (as_pml4 (get_as s r))"

definition c2_user_paging_edit_allowed :: "as_ref \<Rightarrow> u64 \<Rightarrow> bool" where
  "c2_user_paging_edit_allowed r virt \<longleftrightarrow>
     r = NullAS \<or> r = KernelAS \<or> virt \<ge> RIDUX_USER_LOW_SAFE \<or> virt \<ge> RIDUX_USER_LOW_MAP_MIN"

subsection \<open>Address spaces\<close>

text \<open>The copies loop over the 512 entries; a failed allocation or a bad source table stops them.\<close>

fun clone_pd_loop :: "paging \<Rightarrow> u64 \<Rightarrow> u64 \<Rightarrow> nat list \<Rightarrow> paging \<times> bool" where
  "clone_pd_loop s dst src [] = (s, True)"
| "clone_pd_loop s dst src (i # rest) =
     (let entry = pg_mem s src i
      in if \<not> flag_set entry PAGE_PRESENT then clone_pd_loop (set_entry s dst i 0) dst src rest
         else if flag_set entry PAGE_HUGE then clone_pd_loop (set_entry s dst i entry) dst src rest
         else (case alloc_page_table s of
             (s1, dst_pt) \<Rightarrow>
               (case next_table s entry of
                  None \<Rightarrow> (s1, False)
                | Some src_pt \<Rightarrow>
                    if dst_pt = 0 then (s1, False)
                    else (let pte = (\<lambda>k. pg_mem s1 src_pt k);
                              s2 = s1\<lparr> pg_mem := (pg_mem s1)(dst_pt := (\<lambda>k. if k < 512
                                     then (if flag_set (pte k) PAGE_PRESENT then pte k else 0)
                                     else pg_mem s1 dst_pt k)) \<rparr>
                          in clone_pd_loop
                               (set_entry s2 dst i (DMAP_TO_PHYS dst_pt OR (entry AND 0xFFF) OR PAGE_USER))
                               dst src rest))))"

definition deep_clone_pd :: "paging \<Rightarrow> u64 \<Rightarrow> u64 \<Rightarrow> paging \<times> bool" where
  "deep_clone_pd s dst_pd src_pd =
     (if dst_pd = 0 \<or> src_pd = 0 then (s, False) else clone_pd_loop s dst_pd src_pd [0..<512])"

fun clone_pdpt_loop :: "paging \<Rightarrow> u64 \<Rightarrow> u64 \<Rightarrow> nat list \<Rightarrow> paging \<times> bool" where
  "clone_pdpt_loop s dst src [] = (s, True)"
| "clone_pdpt_loop s dst src (i # rest) =
     (let entry = pg_mem s src i
      in if \<not> flag_set entry PAGE_PRESENT then clone_pdpt_loop (set_entry s dst i 0) dst src rest
         else if flag_set entry PAGE_HUGE then clone_pdpt_loop (set_entry s dst i entry) dst src rest
         else (case alloc_page_table s of
             (s1, dst_pd) \<Rightarrow>
               (case next_table s entry of
                  None \<Rightarrow> (s1, False)
                | Some src_pd \<Rightarrow>
                    if dst_pd = 0 then (s1, False)
                    else (case deep_clone_pd s1 dst_pd src_pd of
                        (s2, ok) \<Rightarrow>
                          if \<not> ok then (s2, False)
                          else clone_pdpt_loop
                                 (set_entry s2 dst i (DMAP_TO_PHYS dst_pd OR (entry AND 0xFFF) OR PAGE_USER))
                                 dst src rest))))"

definition deep_clone_pdpt :: "paging \<Rightarrow> u64 \<Rightarrow> u64 \<Rightarrow> paging \<times> bool" where
  "deep_clone_pdpt s dst_pdpt src_pdpt =
     (if dst_pdpt = 0 \<or> src_pdpt = 0 then (s, False) else clone_pdpt_loop s dst_pdpt src_pdpt [0..<512])"

fun clone_pml4_loop :: "paging \<Rightarrow> u64 \<Rightarrow> nat list \<Rightarrow> paging \<times> bool" where
  "clone_pml4_loop s pml4 [] = (s, True)"
| "clone_pml4_loop s pml4 (i # rest) =
     (let entry = pg_mem s (as_pml4 (g_kernel_as s)) i
      in if \<not> flag_set entry PAGE_PRESENT then clone_pml4_loop (set_entry s pml4 i 0) pml4 rest
         else if i < 256
         then (case alloc_page_table s of
             (s1, dst_pdpt) \<Rightarrow>
               (case next_table s entry of
                  None \<Rightarrow> (s1, False)
                | Some src_pdpt \<Rightarrow>
                    if dst_pdpt = 0 then (s1, False)
                    else (case deep_clone_pdpt s1 dst_pdpt src_pdpt of
                        (s2, ok) \<Rightarrow>
                          if \<not> ok then (s2, False)
                          else clone_pml4_loop
                                 (set_entry s2 pml4 i (DMAP_TO_PHYS dst_pdpt OR (entry AND 0xFFF) OR PAGE_USER))
                                 pml4 rest)))
         else clone_pml4_loop (set_entry s pml4 i entry) pml4 rest)"

definition paging_create_address_space :: "paging \<Rightarrow> paging \<times> as_ref" where
  "paging_create_address_space s =
     (if next_space s \<ge> TASK_MAX then (s, NullAS)
      else if \<not> c2_address_space_ready s KernelAS then (s, NullAS)
      else (let k = next_space s; s0 = s\<lparr> next_space := k + 1 \<rparr>
            in case alloc_page_table s0 of
                 (s1, pml4) \<Rightarrow>
                   if pml4 = 0 then (s1, NullAS)
                   else (case clone_pml4_loop (s1\<lparr> pg_mem := (pg_mem s1)(pml4 := (\<lambda>_. 0)) \<rparr>) pml4 [0..<512] of
                       (s2, ok) \<Rightarrow>
                         if \<not> ok then (s2, NullAS)
                         else (s2\<lparr> g_spaces := (g_spaces s2)(k :=
                                 \<lparr> as_pml4 = pml4, as_cr3_phys = DMAP_TO_PHYS pml4 \<rparr>) \<rparr>, UserAS k))))"

definition paging_destroy_address_space :: "paging \<Rightarrow> as_ref \<Rightarrow> paging" where
  "paging_destroy_address_space s r =
     (case r of
        NullAS \<Rightarrow> s
      | KernelAS \<Rightarrow> s
      | UserAS k \<Rightarrow>
          (let a = g_spaces s k;
               s1 = (if as_pml4 a \<noteq> 0 \<and> c2_dmap_page_table_ptr_valid (ptotal s) (as_pml4 a)
                     then s\<lparr> pg_pmm := pmm_free_frame (pg_pmm s) (DMAP_TO_PHYS (as_pml4 a)) \<rparr> else s)
           in s1\<lparr> g_spaces := (g_spaces s1)(k := \<lparr> as_pml4 = 0, as_cr3_phys = 0 \<rparr>) \<rparr>))"

subsection \<open>Splitting huge pages\<close>

definition fill512 :: "ptmem \<Rightarrow> u64 \<Rightarrow> (nat \<Rightarrow> u64) \<Rightarrow> ptmem" where
  "fill512 m t f = m(t := (\<lambda>i. if i < 512 then f i else m t i))"

definition paging_split_2m_huge :: "paging \<Rightarrow> u64 \<Rightarrow> nat \<Rightarrow> bool \<Rightarrow> paging \<times> bool" where
  "paging_split_2m_huge s pd pdi user_access =
     (let old = pg_mem s pd pdi
      in if \<not> flag_set old PAGE_HUGE then (s, True)
         else if \<not> c2_page_table_entry_phys_valid (ptotal s) old then (s, False)
         else (let huge_phys = old AND C2_PTE_ADDR_MASK AND NOT PAGE_HUGE;
                   pte_flags = c2_sanitize_page_flags s ((old AND 0xFFF) AND NOT PAGE_HUGE)
               in case alloc_page_table s of
                    (s1, pt) \<Rightarrow>
                      if pt = 0 then (s1, False)
                      else (let s2 = s1\<lparr> pg_mem := fill512 (pg_mem s1) pt
                                  (\<lambda>i. (huge_phys + push_bit 12 (of_nat i)) OR pte_flags) \<rparr>
                            in (set_entry s2 pd pdi (DMAP_TO_PHYS pt OR PAGE_PRESENT OR PAGE_WRITABLE
                                  OR (if user_access then PAGE_USER else 0)), True))))"

definition paging_split_1g_huge :: "paging \<Rightarrow> u64 \<Rightarrow> nat \<Rightarrow> bool \<Rightarrow> paging \<times> bool" where
  "paging_split_1g_huge s pdpt pdpti user_access =
     (let old = pg_mem s pdpt pdpti
      in if \<not> flag_set old PAGE_HUGE then (s, True)
         else if \<not> c2_page_table_entry_phys_valid (ptotal s) old then (s, False)
         else (let huge_phys = old AND C2_PTE_ADDR_MASK AND NOT PAGE_HUGE;
                   pde_flags = old AND 0xFFF
               in case alloc_page_table s of
                    (s1, pd) \<Rightarrow>
                      if pd = 0 then (s1, False)
                      else (let s2 = s1\<lparr> pg_mem := fill512 (pg_mem s1) pd
                                  (\<lambda>i. (huge_phys + push_bit 21 (of_nat i)) OR pde_flags) \<rparr>
                            in (set_entry s2 pdpt pdpti (DMAP_TO_PHYS pd OR PAGE_PRESENT OR PAGE_WRITABLE
                                  OR (if user_access then PAGE_USER else 0)), True))))"

subsection \<open>The direct map above 4 GiB\<close>

text \<open>One 2 MiB page of the loop; the third value is the \<open>return\<close> on a failed allocation.\<close>

definition dmap_step :: "u64 \<Rightarrow> u64 \<Rightarrow> paging \<Rightarrow> paging \<times> bool" where
  "dmap_step pdpt pa s =
     (let pdpti = pt_index pa 30; pdi = pt_index pa 21;
          (s1, ok) = (if \<not> flag_set (pg_mem s pdpt pdpti) PAGE_PRESENT
             then (case alloc_page_table s of
                 (s1, pd) \<Rightarrow> if pd = 0 then (s1, False)
                   else (set_entry s1 pdpt pdpti (DMAP_TO_PHYS pd OR PAGE_PRESENT OR PAGE_WRITABLE), True))
             else (s, True))
      in if \<not> ok then (s1, False)
         else if flag_set (pg_mem s1 pdpt pdpti) PAGE_HUGE then (s1, True)
         else (case next_table s1 (pg_mem s1 pdpt pdpti) of
             None \<Rightarrow> (s1, True)
           | Some pd \<Rightarrow> (set_entry s1 pd pdi
                ((pa AND C2_PTE_ADDR_MASK) OR PAGE_PRESENT OR PAGE_WRITABLE OR PAGE_HUGE), True)))"

fun dmap_loop :: "u64 \<Rightarrow> u64 list \<Rightarrow> paging \<Rightarrow> paging \<times> bool" where
  "dmap_loop pdpt [] s = (s, True)"
| "dmap_loop pdpt (pa # pas) s =
     (case dmap_step pdpt pa s of (s1, ok) \<Rightarrow> if ok then dmap_loop pdpt pas s1 else (s1, False))"

definition dmap_pages :: "u32 \<Rightarrow> u64 \<times> u64 \<Rightarrow> u64 list" where
  "dmap_pages tot r =
     (let limit = ucast tot * PAGE_SIZE;
          st0 = fst r AND NOT 0x1FFFFF;
          e0 = (snd r + 0x1FFFFF) AND NOT 0x1FFFFF;
          st = (if st0 < 0x100000000 then 0x100000000 else st0);
          e = (if e0 > limit then limit else e0)
      in if e0 \<le> 0x100000000 \<or> st0 \<ge> limit then []
         else map (\<lambda>k. st + push_bit 21 (of_nat k)) [0..<(unat e - unat st + 0x1FFFFF) div 0x200000])"

definition paging_map_dmap_usable_ranges :: "paging \<Rightarrow> paging" where
  "paging_map_dmap_usable_ranges s =
     (let pml4i = pt_index DMAP_BASE 39; e = pg_mem s (as_pml4 (g_kernel_as s)) pml4i
      in if \<not> c2_address_space_ready s KernelAS then s
         else if \<not> flag_set e PAGE_PRESENT then s
         else (case next_table s e of
             None \<Rightarrow> s
           | Some pdpt \<Rightarrow> fst (dmap_loop pdpt
                (concat (map (dmap_pages (ptotal s)) (g_pmm_usable_ranges (pg_pmm s)))) s)))"

subsection \<open>Mapping, unmapping, lookup\<close>

text \<open>The block that appears once per level: link a new table or promote the entry, then
  follow it.\<close>

definition ensure_next :: "paging \<Rightarrow> u64 \<Rightarrow> nat \<Rightarrow> bool \<Rightarrow> paging \<times> u64 option" where
  "ensure_next s t i want_user =
     (let e = pg_mem s t i
      in if \<not> flag_set e PAGE_PRESENT
         then (case alloc_page_table s of
             (s1, nt) \<Rightarrow>
               if nt = 0 then (s1, None)
               else (let s2 = set_entry s1 t i (DMAP_TO_PHYS nt OR PAGE_PRESENT OR PAGE_WRITABLE OR PAGE_USER)
                     in (s2, next_table s2 (pg_mem s2 t i))))
         else (let s1 = (if want_user \<and> \<not> flag_set e PAGE_USER then set_entry s t i (e OR PAGE_USER) else s)
               in (s1, next_table s1 (pg_mem s1 t i))))"

definition paging_map :: "paging \<Rightarrow> as_ref \<Rightarrow> u64 \<Rightarrow> u64 \<Rightarrow> u64 \<Rightarrow> paging \<times> bool" where
  "paging_map s r virt phys flags0 =
     (let pml4i = pt_index virt 39; pdpti = pt_index virt 30; pdi = pt_index virt 21; pti = pt_index virt 12;
          want_user = flag_set flags0 PAGE_USER;
          flags = c2_sanitize_page_flags s flags0;
          pml4 = as_pml4 (get_as s r)
      in if \<not> c2_address_space_ready s r then (s, False)
         else if \<not> c2_user_paging_edit_allowed r virt then (s, False)
         else (case ensure_next s pml4 pml4i want_user of
             (s1, None) \<Rightarrow> (s1, False)
           | (s1, Some pdpt) \<Rightarrow>
         (case (if flag_set (pg_mem s1 pdpt pdpti) PAGE_HUGE
                then paging_split_1g_huge s1 pdpt pdpti want_user else (s1, True)) of
             (s2, False) \<Rightarrow> (s2, False)
           | (s2, True) \<Rightarrow>
         (case ensure_next s2 pdpt pdpti want_user of
             (s3, None) \<Rightarrow> (s3, False)
           | (s3, Some pd) \<Rightarrow>
         (case (if flag_set (pg_mem s3 pd pdi) PAGE_HUGE
                then paging_split_2m_huge s3 pd pdi want_user else (s3, True)) of
             (s4, False) \<Rightarrow> (s4, False)
           | (s4, True) \<Rightarrow>
         (case ensure_next s4 pd pdi want_user of
             (s5, None) \<Rightarrow> (s5, False)
           | (s5, Some pt) \<Rightarrow> (set_entry s5 pt pti (phys OR flags), True)))))))"

definition paging_unmap :: "paging \<Rightarrow> as_ref \<Rightarrow> u64 \<Rightarrow> paging \<times> bool" where
  "paging_unmap s r virt =
     (let pml4i = pt_index virt 39; pdpti = pt_index virt 30; pdi = pt_index virt 21; pti = pt_index virt 12;
          e4 = pg_mem s (as_pml4 (get_as s r)) pml4i
      in if \<not> c2_address_space_ready s r then (s, False)
         else if \<not> c2_user_paging_edit_allowed r virt then (s, False)
         else if \<not> flag_set e4 PAGE_PRESENT then (s, False)
         else (case next_table s e4 of None \<Rightarrow> (s, False) | Some pdpt \<Rightarrow>
           (let e3 = pg_mem s pdpt pdpti
            in if flag_set e3 PAGE_HUGE then (s, False)
               else if \<not> flag_set e3 PAGE_PRESENT then (s, False)
               else (case next_table s e3 of None \<Rightarrow> (s, False) | Some pd \<Rightarrow>
                 (let e2 = pg_mem s pd pdi
                  in if flag_set e2 PAGE_HUGE then (s, False)
                     else if \<not> flag_set e2 PAGE_PRESENT then (s, False)
                     else (case next_table s e2 of None \<Rightarrow> (s, False) | Some pt \<Rightarrow>
                       (set_entry s pt pti 0, True)))))))"

definition paging_translate :: "paging \<Rightarrow> as_ref \<Rightarrow> u64 \<Rightarrow> u64" where
  "paging_translate s r virt =
     (let pml4i = pt_index virt 39; pdpti = pt_index virt 30; pdi = pt_index virt 21; pti = pt_index virt 12;
          e4 = pg_mem s (as_pml4 (get_as s r)) pml4i
      in if \<not> c2_address_space_ready s r then 0
         else if \<not> flag_set e4 PAGE_PRESENT then 0
         else (case next_table s e4 of None \<Rightarrow> 0 | Some pdpt \<Rightarrow>
           (let e3 = pg_mem s pdpt pdpti
            in if flag_set e3 PAGE_HUGE
               then ((e3 AND C2_PTE_ADDR_MASK) AND NOT (push_bit 30 1 - 1)) OR (virt AND (push_bit 30 1 - 1))
               else if \<not> flag_set e3 PAGE_PRESENT then 0
               else (case next_table s e3 of None \<Rightarrow> 0 | Some pd \<Rightarrow>
                 (let e2 = pg_mem s pd pdi
                  in if flag_set e2 PAGE_HUGE
                     then ((e2 AND C2_PTE_ADDR_MASK) AND NOT (push_bit 21 1 - 1)) OR (virt AND (push_bit 21 1 - 1))
                     else if \<not> flag_set e2 PAGE_PRESENT then 0
                     else (case next_table s e2 of None \<Rightarrow> 0 | Some pt \<Rightarrow>
                       (let e1 = pg_mem s pt pti
                        in if \<not> flag_set e1 PAGE_PRESENT then 0
                           else (e1 AND C2_PTE_ADDR_MASK) OR (virt AND 0xFFF))))))))"

definition paging_get_entry :: "paging \<Rightarrow> as_ref \<Rightarrow> u64 \<Rightarrow> u64" where
  "paging_get_entry s r virt =
     (let pml4i = pt_index virt 39; pdpti = pt_index virt 30; pdi = pt_index virt 21; pti = pt_index virt 12;
          e4 = pg_mem s (as_pml4 (get_as s r)) pml4i
      in if \<not> c2_address_space_ready s r then 0
         else if \<not> flag_set e4 PAGE_PRESENT then 0
         else (case next_table s e4 of None \<Rightarrow> 0 | Some pdpt \<Rightarrow>
           (let e3 = pg_mem s pdpt pdpti
            in if flag_set e3 PAGE_HUGE then e3
               else if \<not> flag_set e3 PAGE_PRESENT then 0
               else (case next_table s e3 of None \<Rightarrow> 0 | Some pd \<Rightarrow>
                 (let e2 = pg_mem s pd pdi
                  in if flag_set e2 PAGE_HUGE then e2
                     else if \<not> flag_set e2 PAGE_PRESENT then 0
                     else (case next_table s e2 of None \<Rightarrow> 0 | Some pt \<Rightarrow> pg_mem s pt pti))))))"

definition paging_set_entry :: "paging \<Rightarrow> as_ref \<Rightarrow> u64 \<Rightarrow> u64 \<Rightarrow> paging \<times> bool" where
  "paging_set_entry s r virt entry0 =
     (let pml4i = pt_index virt 39; pdpti = pt_index virt 30; pdi = pt_index virt 21; pti = pt_index virt 12;
          e4 = pg_mem s (as_pml4 (get_as s r)) pml4i;
          entry = c2_sanitize_page_flags s entry0
      in if \<not> c2_address_space_ready s r then (s, False)
         else if \<not> c2_user_paging_edit_allowed r virt then (s, False)
         else if \<not> flag_set e4 PAGE_PRESENT then (s, False)
         else (case next_table s e4 of None \<Rightarrow> (s, False) | Some pdpt \<Rightarrow>
           (let e3 = pg_mem s pdpt pdpti
            in if flag_set e3 PAGE_HUGE then (s, False)
               else if \<not> flag_set e3 PAGE_PRESENT then (s, False)
               else (case next_table s e3 of None \<Rightarrow> (s, False) | Some pd \<Rightarrow>
                 (let e2 = pg_mem s pd pdi
                  in if flag_set e2 PAGE_HUGE then (s, False)
                     else if \<not> flag_set e2 PAGE_PRESENT then (s, False)
                     else (case next_table s e2 of None \<Rightarrow> (s, False) | Some pt \<Rightarrow>
                       (set_entry s pt pti entry, True)))))))"

end
