(* ===== verification/PagingBits.thy ===== *)
theory PagingBits
  imports Paging
begin

text \<open>
  Bit-level facts about page-table entries: the address and the flags of an entry do not
  overlap, and splitting a huge page computes the addresses the hardware would.
\<close>

subsection \<open>Constants as masks\<close>

lemma addr_mask: "C2_PTE_ADDR_MASK = push_bit 12 (mask 40)"
  by (simp add: C2_PTE_ADDR_MASK_def push_bit_eq_mult mask_eq_exp_minus_1)

lemma low_mask: "(0xFFF :: u64) = mask 12" and idx_mask: "(0x1FF :: u64) = mask 9"
  by (simp_all add: mask_eq_exp_minus_1)

lemma huge_masks: "(push_bit 30 1 - 1 :: u64) = mask 30" "(push_bit 21 1 - 1 :: u64) = mask 21"
  by (simp_all add: mask_eq_exp_minus_1 push_bit_eq_mult)

lemma bit_addr: "bit C2_PTE_ADDR_MASK n \<longleftrightarrow> 12 \<le> n \<and> n < 52"
  unfolding addr_mask by (auto simp: bit_simps)

lemma bit_mask64: "k \<le> 64 \<Longrightarrow> bit (mask k :: u64) n \<longleftrightarrow> n < k"
  unfolding bit_mask_iff by auto

lemma flag_bits:
  "PAGE_PRESENT = push_bit 0 1" "PAGE_WRITABLE = push_bit 1 1" "PAGE_USER = push_bit 2 1"
  "PAGE_HUGE = push_bit 7 1" "PAGE_NX = push_bit 63 1"
  by (simp_all add: page_flags PAGE_NX_def push_bit_eq_mult)

lemma bit_single64: "bit (push_bit k 1 :: u64) n \<longleftrightarrow> n = k \<and> k < 64"
  by (auto simp: bit_simps)

lemma bit_flags:
  "bit PAGE_PRESENT n \<longleftrightarrow> n = 0" "bit PAGE_WRITABLE n \<longleftrightarrow> n = 1" "bit PAGE_USER n \<longleftrightarrow> n = 2"
  "bit PAGE_HUGE n \<longleftrightarrow> n = 7" "bit PAGE_NX n \<longleftrightarrow> n = 63"
  unfolding flag_bits bit_single64 by auto

lemma and_single64: "(w :: u64) AND push_bit k 1 \<noteq> 0 \<longleftrightarrow> bit w k"
proof
  assume "w AND push_bit k 1 \<noteq> 0"
  then obtain n where "bit (w AND push_bit k 1) n" by (metis bit_eqI bit_0_eq bot_apply bot_bool_def)
  then show "bit w k" unfolding bit_and_iff bit_single64 by blast
next
  assume b: "bit w k"
  then have "k < 64" using bit_imp_le_length [of w k] by simp
  with b have "bit (w AND push_bit k 1) k" unfolding bit_and_iff bit_single64 by blast
  then show "w AND push_bit k 1 \<noteq> 0" by (metis bit_0_eq bot_apply bot_bool_def)
qed

lemma flag_set_bit:
  "flag_set e PAGE_PRESENT \<longleftrightarrow> bit e 0" "flag_set e PAGE_USER \<longleftrightarrow> bit e 2" "flag_set e PAGE_HUGE \<longleftrightarrow> bit e 7"
  unfolding flag_bits and_single64 by auto

lemmas pte_bits = bit_and_iff bit_or_iff bit_not_iff_eq bit_addr bit_flags

text \<open>Equality of 64-bit words by bits.\<close>

lemma eq_bits64: "(\<And>n. n < 64 \<Longrightarrow> bit a n \<longleftrightarrow> bit b n) \<Longrightarrow> a = (b :: u64)"
  by (rule bit_word_eqI) simp

lemma bit_not64: "n < 64 \<Longrightarrow> bit (NOT w :: u64) n \<longleftrightarrow> \<not> bit w n"
  by (simp add: bit_not_iff)

subsection \<open>Indices\<close>

lemma pt_index_lt [simp]: "pt_index v sh < 512"
proof -
  have "unat (drop_bit sh v AND mask 9) = unat (drop_bit sh v) mod 2 ^ 9"
    by (metis take_bit_eq_mask take_bit_eq_mod unsigned_take_bit_eq)
  then show ?thesis by (simp add: pt_index_def idx_mask)
qed

lemma pt_index_word: "of_nat (pt_index v sh) = drop_bit sh v AND (0x1FF :: u64)"
  by (simp add: pt_index_def)

lemma bit_pt_index: "bit (of_nat (pt_index v sh) :: u64) n \<longleftrightarrow> n < 9 \<and> bit v (sh + n)"
  unfolding pt_index_word idx_mask bit_and_iff bit_drop_bit_eq by (auto simp: bit_mask64)

text \<open>The indices of an address determine its page.\<close>

definition idx :: "u64 \<Rightarrow> nat list" where
  "idx v = [pt_index v 39, pt_index v 30, pt_index v 21, pt_index v 12]"

lemma length_idx [simp]: "length (idx v) = 4"
  by (simp add: idx_def)

lemma idx_lt: "i \<in> set (idx v) \<Longrightarrow> i < 512"
  by (auto simp: idx_def)

subsection \<open>Addresses and flags\<close>

definition page_addr :: "u64 \<Rightarrow> bool" where
  "page_addr f \<longleftrightarrow> f AND C2_PTE_ADDR_MASK = f"

lemma page_addr_bits: "page_addr f \<Longrightarrow> bit f n \<Longrightarrow> 12 \<le> n \<and> n < 52"
  unfolding page_addr_def by (metis bit_addr bit_and_iff)

lemma page_addr_unat:
  assumes "unat f < 2 ^ 52" and "4096 dvd unat f"
  shows "page_addr f"
proof -
  have b: "bit f n \<longleftrightarrow> bit (unat f) n" for n by (simp add: bit_unsigned_iff)
  have "12 \<le> n \<and> n < 52" if "bit f n" for n
  proof -
    have "odd (unat f div 2 ^ n)" using that b by (simp add: bit_iff_odd)
    then have "unat f div 2 ^ n \<noteq> 0" by (metis even_zero)
    then have "2 ^ n \<le> unat f" by (simp add: div_eq_0_iff)
    then have "(2::nat) ^ n < 2 ^ 52" using assms(1) by simp
    then have "n < 52" by (metis power_strict_increasing_iff one_less_numeral_iff semiring_norm(76))
    moreover have "12 \<le> n"
    proof (rule ccontr)
      assume "\<not> 12 \<le> n"
      then obtain d where d: "(12 :: nat) = n + Suc d" by (metis Suc_diff_Suc add.commute le_add_diff_inverse2 less_imp_le not_le)
      obtain q where "unat f = 4096 * q" using assms(2) by blast
      moreover have "(4096 :: nat) = 2 ^ n * (2 * 2 ^ d)"
      proof -
        have "(2 :: nat) ^ 12 = 2 ^ (n + Suc d)" by (simp only: d)
        then show ?thesis by (simp add: power_add)
      qed
      ultimately have "unat f div 2 ^ n = 2 * (2 ^ d * q)" by simp
      with \<open>odd (unat f div 2 ^ n)\<close> show False by simp
    qed
    ultimately show ?thesis by blast
  qed
  then show ?thesis
    unfolding page_addr_def by (intro eq_bits64) (auto simp: bit_and_iff bit_addr)
qed

text \<open>A table link: the address comes back, and the flags are those that were put in.\<close>

lemma link_entry:
  assumes "page_addr f" and "\<And>n. bit c n \<Longrightarrow> n < 12"
  shows "(f OR c) AND C2_PTE_ADDR_MASK = f" and "bit (f OR c) n \<longleftrightarrow> (if n < 12 then bit c n else bit f n)"
proof -
  show b: "bit (f OR c) n \<longleftrightarrow> (if n < 12 then bit c n else bit f n)" for n
    using page_addr_bits [OF assms(1), of n] assms(2) [of n] by (auto simp: bit_or_iff)
  show "(f OR c) AND C2_PTE_ADDR_MASK = f"
    by (intro eq_bits64) (auto simp: bit_and_iff b bit_addr dest: page_addr_bits [OF assms(1)])
qed


subsection \<open>Splitting a huge page\<close>

lemma bit_small_index: "k < 512 \<Longrightarrow> bit (of_nat k :: u64) j \<Longrightarrow> j < 9"
proof -
  assume k: "k < 512" and b: "bit (of_nat k :: u64) j"
  have "take_bit 9 k = k" using k by (simp add: take_bit_nat_eq_self)
  then have "(of_nat k :: u64) = take_bit 9 (of_nat k)" by (metis of_nat_take_bit)
  with b show "j < 9" by (metis bit_take_bit_iff)
qed

text \<open>The \<open>k\<close>-th piece of an aligned huge page: its address bits are the huge page's, with the
  index in the nine bits from \<open>sh\<close> on, and its low twelve bits are the flags.\<close>

definition split_piece :: "u64 \<Rightarrow> nat \<Rightarrow> nat \<Rightarrow> u64 \<Rightarrow> u64" where
  "split_piece old sh k c = ((old AND C2_PTE_ADDR_MASK AND NOT PAGE_HUGE) + push_bit sh (of_nat k)) OR c"

lemma bit_push64: "bit (push_bit sh w :: u64) n \<longleftrightarrow> sh \<le> n \<and> n < 64 \<and> bit w (n - sh)"
  unfolding bit_push_bit_iff by auto

lemma split_bits:
  assumes al: "old AND C2_PTE_ADDR_MASK AND mask (sh + 9) = 0" and sh: "12 \<le> sh" "sh + 9 \<le> 52" and k: "k < 512"
    and c: "\<forall>n. bit c n \<longrightarrow> n < 12"
  shows "bit (split_piece old sh k c) n \<longleftrightarrow>
    (if n < 12 then bit c n else if n < sh + 9 then sh \<le> n \<and> bit (of_nat k :: u64) (n - sh) else n < 52 \<and> bit old n)"
proof -
  let ?h = "old AND C2_PTE_ADDR_MASK AND NOT PAGE_HUGE" and ?x = "push_bit sh (of_nat k) :: u64"
  have clear: "\<not> bit old m" if "12 \<le> m" "m < sh + 9" for m
  proof
    assume "bit old m"
    then have "bit (old AND C2_PTE_ADDR_MASK AND mask (sh + 9)) m"
      using that sh unfolding bit_and_iff bit_addr by (simp add: bit_mask64)
    then show False unfolding al by simp
  qed
  have h: "bit ?h m \<longleftrightarrow> sh + 9 \<le> m \<and> m < 52 \<and> bit old m" for m
  proof (cases "m < 64")
    case True
    have "sh + 9 \<le> m \<or> m < sh + 9" by arith
    with True show ?thesis using clear [of m] sh
      unfolding bit_and_iff bit_addr bit_not64 [OF True] bit_flags by auto
  next
    case False
    then show ?thesis using bit_imp_le_length [of ?h m] by auto
  qed
  have x: "bit ?x m \<longleftrightarrow> sh \<le> m \<and> m < sh + 9 \<and> bit (of_nat k :: u64) (m - sh)" for m
    using bit_small_index [OF k, of "m - sh"] sh unfolding bit_push64 by auto
  have "\<not> (bit ?h m \<and> bit ?x m)" for m using h [of m] x [of m] by linarith
  then have "?h AND ?x = 0" unfolding bit_eq_iff bit_and_iff [of ?h ?x] bit_0_eq by simp
  then have "?h + ?x = ?h OR ?x" by (rule disjunctive_add_eq_or)
  then have "bit (split_piece old sh k c) n \<longleftrightarrow> bit ?h n \<or> bit ?x n \<or> bit c n"
    unfolding split_piece_def by (simp only: bit_or_iff disj_assoc)
  then show ?thesis using h [of n] x [of n] spec [OF c, of n] sh by auto
qed

text \<open>A page of a split huge page translates as before, at either size.\<close>

lemma split_translate:
  assumes al: "old AND C2_PTE_ADDR_MASK AND mask (sh + 9) = 0" and sh: "12 \<le> sh" "sh + 9 \<le> 52"
    and c: "\<forall>n. bit c n \<longrightarrow> n < 12"
  shows "(split_piece old sh (pt_index v sh) c AND C2_PTE_ADDR_MASK AND NOT (mask sh)) OR (v AND mask sh)
    = (old AND C2_PTE_ADDR_MASK AND NOT (mask (sh + 9))) OR (v AND mask (sh + 9))"
proof (rule eq_bits64)
  fix n :: nat assume n: "n < 64"
  note b = split_bits [OF al sh pt_index_lt c, where n = n]
  have "sh + (n - sh) = n" if "sh \<le> n" using that by simp
  then show "bit ((split_piece old sh (pt_index v sh) c AND C2_PTE_ADDR_MASK AND NOT (mask sh)) OR (v AND mask sh)) n
    \<longleftrightarrow> bit ((old AND C2_PTE_ADDR_MASK AND NOT (mask (sh + 9))) OR (v AND mask (sh + 9))) n"
    using n sh unfolding bit_or_iff bit_and_iff bit_not64 [OF n] bit_addr b bit_pt_index
    by (auto simp: bit_mask64)
qed

lemma split_aligned:
  assumes al: "old AND C2_PTE_ADDR_MASK AND mask (sh + 9) = 0" and sh: "12 \<le> sh" "sh + 9 \<le> 52" and k: "k < 512"
    and c: "\<forall>n. bit c n \<longrightarrow> n < 12"
  shows "split_piece old sh k c AND C2_PTE_ADDR_MASK AND mask sh = 0"
    and "bit (split_piece old sh k c) 0 = bit c 0" and "bit (split_piece old sh k c) 7 = bit c 7"
proof -
  show "split_piece old sh k c AND C2_PTE_ADDR_MASK AND mask sh = 0"
    using sh by (intro eq_bits64) (auto simp: bit_and_iff bit_addr bit_mask64 split_bits [OF al sh k c])
  show "bit (split_piece old sh k c) 0 = bit c 0" "bit (split_piece old sh k c) 7 = bit c 7"
    using split_bits [OF al sh k c, where n = 0] split_bits [OF al sh k c, where n = 7] by simp_all
qed

end
