(* ===== verification/PagingTree.thy ===== *)
theory PagingTree
  imports PagingBits
begin

text \<open>
  Page tables as trees: the table a path of indices leads to, the entry an address ends at,
  and the condition that no table of the lower (user) half is shared.  Two kinds of edits
  are analysed once and for all: changing one entry without changing where it leads, and
  linking a fresh table.
\<close>

subsection \<open>Walks\<close>

abbreviation nxt :: "u32 \<Rightarrow> u64 \<Rightarrow> u64 option" where
  "nxt \<equiv> c2_page_table_from_entry"

text \<open>The table at the end of a path.\<close>

fun desc :: "u32 \<Rightarrow> ptmem \<Rightarrow> u64 \<Rightarrow> nat list \<Rightarrow> u64 option" where
  "desc tot m t [] = Some t"
| "desc tot m t (i # is) = (case nxt tot (m t i) of None \<Rightarrow> None | Some t' \<Rightarrow> desc tot m t' is)"

text \<open>The entry that decides about an address, with its level (0 for a page, 1 for 2 MiB,
  2 for 1 GiB); \<open>None\<close> when the walk ends at a missing table.\<close>

fun walk :: "u32 \<Rightarrow> ptmem \<Rightarrow> u64 \<Rightarrow> nat list \<Rightarrow> (u64 \<times> nat) option" where
  "walk tot m t [] = None"
| "walk tot m t [i] = Some (m t i, 0)"
| "walk tot m t (i # j # is) =
     (if length is < 2 \<and> flag_set (m t i) PAGE_HUGE then Some (m t i, Suc (length is))
      else (case nxt tot (m t i) of None \<Rightarrow> None | Some t' \<Rightarrow> walk tot m t' (j # is)))"

lemma desc_append: "desc tot m t (p @ q) = (case desc tot m t p of None \<Rightarrow> None | Some u \<Rightarrow> desc tot m u q)"
  by (induction p arbitrary: t) (auto split: option.splits)

lemma nxt_flags: "nxt tot e = Some t \<Longrightarrow> flag_set e PAGE_PRESENT \<and> \<not> flag_set e PAGE_HUGE"
  by (auto simp: c2_page_table_from_entry_def split: if_splits)

lemma walk_Cons:
  "rest \<noteq> [] \<Longrightarrow> walk tot m t (i # rest) =
     (if length rest < 3 \<and> flag_set (m t i) PAGE_HUGE then Some (m t i, length rest)
      else (case nxt tot (m t i) of None \<Rightarrow> None | Some t' \<Rightarrow> walk tot m t' rest))"
  by (cases rest) auto

lemma walk_desc:
  "desc tot m t p = Some u \<Longrightarrow> rest \<noteq> [] \<Longrightarrow> walk tot m t (p @ rest) = walk tot m u rest"
proof (induction p arbitrary: t)
  case (Cons i p)
  then obtain t' where "nxt tot (m t i) = Some t'" "desc tot m t' p = Some u" by (auto split: option.splits)
  with Cons nxt_flags show ?case by (simp add: walk_Cons)
qed simp

subsection \<open>Trees\<close>

definition tpath_ok :: "nat list \<Rightarrow> bool" where
  "tpath_ok p \<longleftrightarrow> length p \<le> 3 \<and> (\<forall>i \<in> set p. i < 512)"

definition low_path :: "nat list \<Rightarrow> bool" where
  "low_path p \<longleftrightarrow> p = [] \<or> hd p < 256"

text \<open>A table in the lower half of a space in \<open>Us\<close> is reached by one path only, among all
  the spaces in \<open>Rs\<close>.\<close>

definition unshared :: "u32 \<Rightarrow> ptmem \<Rightarrow> u64 set \<Rightarrow> u64 set \<Rightarrow> bool" where
  "unshared tot m Us Rs \<longleftrightarrow> Us \<subseteq> Rs \<and>
     (\<forall>R \<in> Us. \<forall>R' \<in> Rs. \<forall>p q t. tpath_ok p \<longrightarrow> low_path p \<longrightarrow> tpath_ok q \<longrightarrow>
        desc tot m R p = Some t \<longrightarrow> desc tot m R' q = Some t \<longrightarrow> R' = R \<and> q = p)"

lemma unsharedD:
  "unshared tot m Us Rs \<Longrightarrow> R \<in> Us \<Longrightarrow> R' \<in> Rs \<Longrightarrow> tpath_ok p \<Longrightarrow> low_path p \<Longrightarrow> tpath_ok q \<Longrightarrow>
     desc tot m R p = Some t \<Longrightarrow> desc tot m R' q = Some t \<Longrightarrow> R' = R \<and> q = p"
  unfolding unshared_def by blast

lemma tpath_ok_snoc [simp]: "tpath_ok (p @ [i]) \<longleftrightarrow> length p < 3 \<and> tpath_ok p \<and> i < 512"
  by (auto simp: tpath_ok_def)

lemma tpath_ok_Nil [simp]: "tpath_ok []" and low_path_Nil [simp]: "low_path []"
  by (simp_all add: tpath_ok_def low_path_def)

lemma tpath_ok_prefix: "tpath_ok (p @ q) \<Longrightarrow> tpath_ok p"
  by (auto simp: tpath_ok_def)

lemma low_path_prefix: "low_path (p @ q) \<Longrightarrow> low_path p"
  by (cases p) (auto simp: low_path_def)

text \<open>One slot of a tree: the table \<open>t\<close> at the low path \<open>p\<close> of the space \<open>R\<close>, its index \<open>i\<close>.\<close>

definition slot_at :: "u32 \<Rightarrow> ptmem \<Rightarrow> u64 set \<Rightarrow> u64 \<Rightarrow> nat list \<Rightarrow> u64 \<Rightarrow> nat \<Rightarrow> bool" where
  "slot_at tot m Us R p t i \<longleftrightarrow>
     R \<in> Us \<and> tpath_ok p \<and> i < 512 \<and> low_path (p @ [i]) \<and> desc tot m R p = Some t"

definition passes :: "u64 \<Rightarrow> nat list \<Rightarrow> nat \<Rightarrow> u64 \<Rightarrow> nat list \<Rightarrow> bool" where
  "passes R p i R' q \<longleftrightarrow> R' = R \<and> (\<exists>rest. q = p @ i # rest)"

text \<open>A memory that differs from \<open>m\<close> only in that slot and in tables nobody reaches.\<close>

definition edit :: "u32 \<Rightarrow> ptmem \<Rightarrow> u64 set \<Rightarrow> u64 \<Rightarrow> nat \<Rightarrow> ptmem \<Rightarrow> bool" where
  "edit tot m Rs t i m' \<longleftrightarrow>
     (\<forall>R' \<in> Rs. \<forall>q u j. tpath_ok q \<longrightarrow> desc tot m R' q = Some u \<longrightarrow> j < 512 \<longrightarrow> (u, j) \<noteq> (t, i) \<longrightarrow>
        m' u j = m u j)"

lemma edit_frame_aux:
  assumes un: "unshared tot m Us Rs" and sl: "slot_at tot m Us R p t i" and ed: "edit tot m Rs t i m'"
    and R': "R' \<in> Rs" and a: "desc tot m R' a = Some u" and ok: "\<forall>j \<in> set (a @ q). j < 512"
    and np: "\<not> passes R p i R' (a @ q)"
  shows "length (a @ q) \<le> 3 \<Longrightarrow> desc tot m' u q = desc tot m u q"
    and "length (a @ q) \<le> 4 \<Longrightarrow> walk tot m' u q = walk tot m u q"
proof -
  have entry: "m' u j = m u j" if "desc tot m R' a = Some u" "\<forall>j \<in> set (a @ j # q). j < 512"
      "length a \<le> 3" "\<not> passes R p i R' (a @ j # q)" for a u j q
  proof -
    have ao: "tpath_ok a" using that by (simp add: tpath_ok_def)
    have "(u, j) \<noteq> (t, i)"
    proof
      assume e: "(u, j) = (t, i)"
      have lp: "low_path p" using sl low_path_prefix by (auto simp: slot_at_def)
      have "R' = R \<and> a = p"
        using unsharedD [OF un _ R' _ lp ao] sl that(1) e by (auto simp: slot_at_def)
      with e that(4) show False by (auto simp: passes_def)
    qed
    with ed R' ao that(1,2) show ?thesis unfolding edit_def by auto
  qed
  show "desc tot m' u q = desc tot m u q" if "length (a @ q) \<le> 3"
    using that a ok np
  proof (induction q arbitrary: a u)
    case (Cons j q)
    then have "m' u j = m u j" by (intro entry) auto
    moreover have "desc tot m' u' q = desc tot m u' q" if "nxt tot (m u j) = Some u'" for u'
      using Cons.IH [of "a @ [j]" u'] Cons.prems that by (simp add: desc_append)
    ultimately show ?case by (simp split: option.splits)
  qed simp
  show "walk tot m' u q = walk tot m u q" if "length (a @ q) \<le> 4"
    using that a ok np
  proof (induction q arbitrary: a u)
    case (Cons j q)
    then have e: "m' u j = m u j" by (intro entry) auto
    show ?case
    proof (cases "q = []")
      case True
      with e show ?thesis by simp
    next
      case False
      have "walk tot m' u' q = walk tot m u' q" if "nxt tot (m u j) = Some u'" for u'
        using Cons.IH [of "a @ [j]" u'] Cons.prems that by (simp add: desc_append)
      with e False show ?thesis by (simp add: walk_Cons split: option.splits)
    qed
  qed simp
qed

lemma edit_frame:
  assumes "unshared tot m Us Rs" and "slot_at tot m Us R p t i" and "edit tot m Rs t i m'"
    and "R' \<in> Rs" and "\<forall>j \<in> set q. j < 512" and "\<not> passes R p i R' q"
  shows "length q \<le> 3 \<Longrightarrow> desc tot m' R' q = desc tot m R' q"
    and "length q \<le> 4 \<Longrightarrow> walk tot m' R' q = walk tot m R' q"
  using edit_frame_aux [OF assms(1-4), of "[]" R' q] assms(5,6) by simp_all

text \<open>The path to the slot itself is not disturbed.\<close>

lemma edit_slot:
  assumes "unshared tot m Us Rs" and "slot_at tot m Us R p t i" and "edit tot m Rs t i m'"
  shows "desc tot m' R p = Some t"
proof -
  have "R \<in> Us" "tpath_ok p" "desc tot m R p = Some t" using assms(2) by (auto simp: slot_at_def)
  moreover have "R \<in> Rs" using calculation(1) assms(1) by (auto simp: unshared_def)
  ultimately show ?thesis
    using edit_frame(1) [OF assms, of R p] by (auto simp: tpath_ok_def passes_def)
qed

lemma edit_through:
  assumes "unshared tot m Us Rs" and "slot_at tot m Us R p t i" and "edit tot m Rs t i m'"
  shows "desc tot m' R (p @ i # rest) = (case nxt tot (m' t i) of None \<Rightarrow> None | Some u \<Rightarrow> desc tot m' u rest)"
    and "desc tot m R (p @ i # rest) = (case nxt tot (m t i) of None \<Rightarrow> None | Some u \<Rightarrow> desc tot m u rest)"
    and "walk tot m' R (p @ i # rest) = walk tot m' t (i # rest)"
    and "walk tot m R (p @ i # rest) = walk tot m t (i # rest)"
  using edit_slot [OF assms] assms(2) walk_desc [of tot m' R p t "i # rest"] walk_desc [of tot m R p t "i # rest"]
  by (simp_all add: desc_append slot_at_def)

subsection \<open>Changing an entry that leads to the same place\<close>

lemma same_next:
  assumes un: "unshared tot m Us Rs" and sl: "slot_at tot m Us R p t i"
    and nx: "length p \<le> 2 \<Longrightarrow> nxt tot e = nxt tot (m t i)"
  defines "m' \<equiv> m(t := (m t)(i := e))"
  shows "R' \<in> Rs \<Longrightarrow> tpath_ok q \<Longrightarrow> desc tot m' R' q = desc tot m R' q"
    and "unshared tot m' Us Rs"
    and "R' \<in> Rs \<Longrightarrow> \<forall>j \<in> set q. j < 512 \<Longrightarrow> length q \<le> 4 \<Longrightarrow> \<not> passes R p i R' q \<Longrightarrow>
      walk tot m' R' q = walk tot m R' q"
proof -
  have ed: "edit tot m Rs t i m'" by (auto simp: edit_def m'_def)
  show d: "desc tot m' R' q = desc tot m R' q" if R': "R' \<in> Rs" and q: "tpath_ok q" for R' q
  proof -
    have "desc tot m' R (p @ i # rest) = desc tot m R (p @ i # rest)" if "tpath_ok (p @ i # rest)" for rest
      using that
    proof (induction rest rule: rev_induct)
      case Nil
      then have "length p \<le> 2" by (simp add: tpath_ok_def)
      with nx show ?case by (simp add: edit_through(1,2) [OF un sl ed]) (simp add: m'_def split: option.splits)
    next
      case (snoc j rest)
      then have pre: "tpath_ok (p @ i # rest)" by (auto simp: tpath_ok_def)
      show ?case
      proof (cases "desc tot m R (p @ i # rest)")
        case None
        with snoc.IH [OF pre] desc_append [of tot m' R "p @ i # rest" "[j]"]
          desc_append [of tot m R "p @ i # rest" "[j]"] show ?thesis by simp
      next
        case (Some u)
        have "R \<in> Us" "R \<in> Rs" "tpath_ok p" "low_path p" "desc tot m R p = Some t"
          using sl un low_path_prefix by (auto simp: slot_at_def unshared_def)
        then have "u \<noteq> t" using unsharedD [OF un, of R R p "p @ i # rest" t] pre Some by auto
        then have "m' u j = m u j" by (simp add: m'_def)
        with Some snoc.IH [OF pre] desc_append [of tot m' R "p @ i # rest" "[j]"]
          desc_append [of tot m R "p @ i # rest" "[j]"] show ?thesis by (simp split: option.splits)
      qed
    qed
    then have thr: "passes R p i R' q \<Longrightarrow> ?thesis" using q by (auto simp: passes_def)
    show ?thesis
    proof (cases "passes R p i R' q")
      case True
      then show ?thesis by (rule thr)
    next
      case False
      with edit_frame(1) [OF un sl ed R', of q] q show ?thesis by (simp add: tpath_ok_def)
    qed
  qed
  show "unshared tot m' Us Rs"
    unfolding unshared_def
  proof (intro conjI ballI allI impI)
    show "Us \<subseteq> Rs" using un by (simp add: unshared_def)
    fix Ra Rb pa qa ta
    assume h: "Ra \<in> Us" "Rb \<in> Rs" "tpath_ok pa" "low_path pa" "tpath_ok qa"
      "desc tot m' Ra pa = Some ta" "desc tot m' Rb qa = Some ta"
    then have "desc tot m Ra pa = Some ta" "desc tot m Rb qa = Some ta"
      using d un by (auto simp: unshared_def)
    from unsharedD [OF un h(1-5) this] show "Rb = Ra" and "qa = pa" by auto
  qed
  show "walk tot m' R' q = walk tot m R' q"
    if "R' \<in> Rs" "\<forall>j \<in> set q. j < 512" "length q \<le> 4" "\<not> passes R p i R' q"
    using edit_frame(2) [OF un sl ed that(1,2,4,3)] .
qed

subsection \<open>Linking a fresh table\<close>

lemma link_fresh:
  assumes un: "unshared tot m Us Rs" and sl: "slot_at tot m Us R p t i" and p: "length p \<le> 2"
    and old: "nxt tot (m t i) = None" and new: "nxt tot e = Some nt"
    and fresh0: "\<forall>R' \<in> Rs. \<forall>q. tpath_ok q \<longrightarrow> desc tot m R' q \<noteq> Some nt"
    and leaf: "length p \<le> 1 \<longrightarrow> (\<forall>k < 512. nxt tot (g k) = None)"
  defines "m' \<equiv> (m(nt := g))(t := ((m(nt := g)) t)(i := e))"
  shows "desc tot m' R (p @ [i]) = Some nt"
    and "R' \<in> Rs \<Longrightarrow> tpath_ok q \<Longrightarrow> \<not> passes R p i R' q \<Longrightarrow> desc tot m' R' q = desc tot m R' q"
    and "tpath_ok (p @ i # k # rest) \<Longrightarrow> desc tot m' R (p @ i # k # rest) = None"
    and "unshared tot m' Us Rs"
    and "R' \<in> Rs \<Longrightarrow> \<forall>j \<in> set q. j < 512 \<Longrightarrow> length q \<le> 4 \<Longrightarrow> \<not> passes R p i R' q \<Longrightarrow>
      walk tot m' R' q = walk tot m R' q"
    and "rest \<noteq> [] \<Longrightarrow> walk tot m' R (p @ i # rest) = walk tot m' nt rest"
    and "m' nt = g"
proof -
  have RU: "R \<in> Us" "R \<in> Rs" "tpath_ok p" "low_path p" "desc tot m R p = Some t" "i < 512" "low_path (p @ [i])"
    using sl un low_path_prefix by (auto simp: slot_at_def unshared_def)
  have fresh: "desc tot m R' q \<noteq> Some nt" if "R' \<in> Rs" "tpath_ok q" for R' q
    using fresh0 that by blast
  have tn: "t \<noteq> nt" using fresh [OF RU(2,3)] RU(5) by auto
  have ed: "edit tot m Rs t i m'"
    using fresh by (auto simp: edit_def m'_def)
  show g: "m' nt = g" using tn by (simp add: m'_def)
  have e: "m' t i = e" by (simp add: m'_def)
  have at: "desc tot m' R (p @ [i]) = Some nt"
    using edit_through(1) [OF un sl ed, of "[]"] new by (simp add: e)
  show "desc tot m' R (p @ [i]) = Some nt" by (fact at)
  have away: "desc tot m' R' q = desc tot m R' q" if "R' \<in> Rs" "tpath_ok q" "\<not> passes R p i R' q" for R' q
    using edit_frame(1) [OF un sl ed that(1) _ that(3)] that(2) by (simp add: tpath_ok_def)
  show "R' \<in> Rs \<Longrightarrow> tpath_ok q \<Longrightarrow> \<not> passes R p i R' q \<Longrightarrow> desc tot m' R' q = desc tot m R' q"
    by (rule away)
  have below: "desc tot m' R (p @ i # k # rest) = None" if "tpath_ok (p @ i # k # rest)" for k rest
  proof -
    have "length p \<le> 1" "k < 512" using that by (auto simp: tpath_ok_def)
    with leaf have "nxt tot (g k) = None" by blast
    with edit_through(1) [OF un sl ed, of "k # rest"] new show ?thesis by (simp add: e g)
  qed
  show "tpath_ok (p @ i # k # rest) \<Longrightarrow> desc tot m' R (p @ i # k # rest) = None" by (rule below)
  have char: "desc tot m' R' q = Some u \<Longrightarrow> R' \<in> Rs \<Longrightarrow> tpath_ok q \<Longrightarrow>
      (R' = R \<and> q = p @ [i] \<and> u = nt) \<or> (\<not> passes R p i R' q \<and> desc tot m R' q = Some u)" for R' q u
  proof -
    assume h: "desc tot m' R' q = Some u" "R' \<in> Rs" "tpath_ok q"
    show ?thesis
    proof (cases "passes R p i R' q")
      case False
      with h away show ?thesis by simp
    next
      case True
      then obtain rest where r: "R' = R" "q = p @ i # rest" by (auto simp: passes_def)
      show ?thesis
      proof (cases rest)
        case Nil
        with r h(1) at show ?thesis by simp
      next
        case (Cons k rest')
        with r h below [of k rest'] show ?thesis by simp
      qed
    qed
  qed
  show "unshared tot m' Us Rs"
    unfolding unshared_def
  proof (intro conjI ballI allI impI)
    show "Us \<subseteq> Rs" using un by (simp add: unshared_def)
    fix Ra Rb pa qa ta
    assume h: "Ra \<in> Us" "Rb \<in> Rs" "tpath_ok pa" "low_path pa" "tpath_ok qa"
      "desc tot m' Ra pa = Some ta" "desc tot m' Rb qa = Some ta"
    have Ra: "Ra \<in> Rs" using h(1) un by (auto simp: unshared_def)
    from char [OF h(6) Ra h(3)] char [OF h(7) h(2) h(5)] fresh [OF Ra h(3)] fresh [OF h(2) h(5)]
      unsharedD [OF un h(1-5)]
    show "Rb = Ra" and "qa = pa" by auto
  qed
  show "walk tot m' R' q = walk tot m R' q"
    if "R' \<in> Rs" "\<forall>j \<in> set q. j < 512" "length q \<le> 4" "\<not> passes R p i R' q"
    using edit_frame(2) [OF un sl ed that(1,2,4,3)] .
  show "walk tot m' R (p @ i # rest) = walk tot m' nt rest" if "rest \<noteq> []"
    using walk_desc [OF at that] by simp
qed

end
