(* ===== verification/PagingProps.thy ===== *)
theory PagingProps
  imports PagingTree
begin

text \<open>
  What the paging operations do to address translation.  \<open>space_ok\<close> is the invariant: no
  lower-half table of a user space is shared, no table sits in a free frame, huge entries
  are aligned.  Every step of \<open>paging_map\<close> before the last keeps all translations.
\<close>

subsection \<open>Translation\<close>

definition translate_of :: "u64 \<Rightarrow> (u64 \<times> nat) option \<Rightarrow> u64" where
  "translate_of v r =
     (case r of
        None \<Rightarrow> 0
      | Some (e, l) \<Rightarrow>
          if l = 0 then (if flag_set e PAGE_PRESENT then (e AND C2_PTE_ADDR_MASK) OR (v AND 0xFFF) else 0)
          else if l = 1 then ((e AND C2_PTE_ADDR_MASK) AND NOT (mask 21)) OR (v AND mask 21)
          else ((e AND C2_PTE_ADDR_MASK) AND NOT (mask 30)) OR (v AND mask 30))"

definition xl :: "paging \<Rightarrow> u64 \<Rightarrow> u64 \<Rightarrow> u64" where
  "xl s R v = translate_of v (walk (ptotal s) (pg_mem s) R (idx v))"

lemma idx_split: "idx v = p @ i # rest \<Longrightarrow> length p + length rest = 3"
  using length_idx [of v] by (simp del: length_idx)

lemma not_present_next: "\<not> flag_set e PAGE_PRESENT \<Longrightarrow> nxt tot e = None"
  by (simp add: c2_page_table_from_entry_def)

lemma translate_walk:
  "paging_translate s r v = (if c2_address_space_ready s r then xl s (as_pml4 (get_as s r)) v else 0)"
proof -
  have "translate_of v (walk tot m R (idx v)) =
     (let e4 = m R (pt_index v 39)
      in if \<not> flag_set e4 PAGE_PRESENT then 0
         else (case nxt tot e4 of None \<Rightarrow> 0 | Some pdpt \<Rightarrow>
           (let e3 = m pdpt (pt_index v 30)
            in if flag_set e3 PAGE_HUGE then ((e3 AND C2_PTE_ADDR_MASK) AND NOT (mask 30)) OR (v AND mask 30)
               else if \<not> flag_set e3 PAGE_PRESENT then 0
               else (case nxt tot e3 of None \<Rightarrow> 0 | Some pd \<Rightarrow>
                 (let e2 = m pd (pt_index v 21)
                  in if flag_set e2 PAGE_HUGE then ((e2 AND C2_PTE_ADDR_MASK) AND NOT (mask 21)) OR (v AND mask 21)
                     else if \<not> flag_set e2 PAGE_PRESENT then 0
                     else (case nxt tot e2 of None \<Rightarrow> 0 | Some pt \<Rightarrow>
                       (let e1 = m pt (pt_index v 12)
                        in if \<not> flag_set e1 PAGE_PRESENT then 0
                           else (e1 AND C2_PTE_ADDR_MASK) OR (v AND 0xFFF))))))))" for tot m R
    by (auto simp: idx_def translate_of_def Let_def not_present_next split: option.splits)
  then show ?thesis
    unfolding paging_translate_def xl_def huge_masks Let_def by simp
qed

lemma get_entry_walk:
  "paging_get_entry s r v =
     (if c2_address_space_ready s r
      then (case walk (ptotal s) (pg_mem s) (as_pml4 (get_as s r)) (idx v) of None \<Rightarrow> 0 | Some (e, l) \<Rightarrow> e)
      else 0)"
  by (auto simp: paging_get_entry_def idx_def Let_def not_present_next split: option.splits)

subsection \<open>Entries that link a table\<close>

lemma unat_dmap: "unat DMAP_BASE = 2 ^ 64 - 2 ^ 47"
  by (simp add: DMAP_BASE_def)

lemma link_next:
  assumes f: "page_addr f" "unat f < unat tot * 4096" and tot: "unat tot \<le> 2097152" and t0: "tot \<noteq> 0"
    and c: "\<And>n. bit c n \<Longrightarrow> n < 12" "bit c 0" "\<not> bit c 7"
  shows "nxt tot (f OR c) = Some (PHYS_TO_DMAP f)" and "DMAP_TO_PHYS (PHYS_TO_DMAP f) = f"
    and "PHYS_TO_DMAP f \<noteq> 0"
proof -
  show "DMAP_TO_PHYS (PHYS_TO_DMAP f) = f" by simp
  note l = link_entry [where f = f and c = c, OF f(1) c(1)]
  have flags: "flag_set (f OR c) PAGE_PRESENT" "\<not> flag_set (f OR c) PAGE_HUGE"
    unfolding flag_set_bit using c(2,3) l(2) [where n = 0] l(2) [where n = 7] by simp_all
  have ut: "unat (ucast tot * PAGE_SIZE :: u64) = unat tot * 4096"
    using tot by (simp add: PAGE_SIZE_def unat_mult_lem [THEN iffD1] unsigned_ucast_eq take_bit_nat_eq_self
        less_trans [OF unat_less_2p])
  have range: "c2_phys_frame_in_range tot f"
    using f(2) t0 by (simp add: c2_phys_frame_in_range_def word_less_nat_alt ut)
  have uv: "unat (PHYS_TO_DMAP f) = unat f + (2 ^ 64 - 2 ^ 47)"
    using f(2) tot unat_dmap by (subst unat_add_no_wrap) auto
  then have "unat (PHYS_TO_DMAP f) \<noteq> 0" by simp
  then show nz: "PHYS_TO_DMAP f \<noteq> 0" by (metis unat_0)
  have low: "unat (x AND mask 12) = unat x mod 4096" for x :: u64
  proof -
    have "unat (x AND mask 12) = take_bit 12 (unat x)" by (metis take_bit_eq_mask unsigned_take_bit_eq)
    then show ?thesis by (simp add: take_bit_eq_mod)
  qed
  have "f AND mask 12 = 0"
    using page_addr_bits [OF f(1)] by (intro eq_bits64) (fastforce simp: bit_and_iff bit_mask64)
  then have "unat f mod 4096 = 0" using low [of f] by simp
  then have "unat (PHYS_TO_DMAP f AND mask 12) = 0" unfolding low uv by (simp add: mod_add_eq [symmetric])
  then have "PHYS_TO_DMAP f AND mask 12 = 0" by (metis unat_eq_zero)
  then have "PHYS_TO_DMAP f AND (PAGE_SIZE - 1) = 0" by (simp only: page_mask)
  moreover have "\<not> PHYS_TO_DMAP f < DMAP_BASE" using uv unat_dmap by (simp add: word_less_nat_alt)
  ultimately have "c2_dmap_page_table_ptr_valid tot (PHYS_TO_DMAP f)"
    using nz range by (simp add: c2_dmap_page_table_ptr_valid_def)
  then show "nxt tot (f OR c) = Some (PHYS_TO_DMAP f)"
    using flags range by (simp add: c2_page_table_from_entry_def l(1) c2_page_table_entry_phys_valid_def)
qed

lemma next_user: "nxt tot (e OR PAGE_USER) = nxt tot e"
proof -
  have "(e OR PAGE_USER) AND C2_PTE_ADDR_MASK = e AND C2_PTE_ADDR_MASK"
    by (intro eq_bits64) (auto simp: bit_and_iff bit_or_iff bit_addr bit_flags)
  moreover have "flag_set (e OR PAGE_USER) PAGE_PRESENT = flag_set e PAGE_PRESENT"
    "flag_set (e OR PAGE_USER) PAGE_HUGE = flag_set e PAGE_HUGE"
    unfolding flag_set_bit by (simp_all add: bit_or_iff bit_flags)
  ultimately show ?thesis by (simp add: c2_page_table_from_entry_def c2_page_table_entry_phys_valid_def)
qed

subsection \<open>Invariant\<close>

definition huge_ok :: "nat \<Rightarrow> u64 \<Rightarrow> bool" where
  "huge_ok n e \<longleftrightarrow> (flag_set e PAGE_HUGE \<longrightarrow>
     flag_set e PAGE_PRESENT \<and> e AND C2_PTE_ADDR_MASK AND mask (if n = 1 then 30 else 21) = 0)"

definition space_ok :: "paging \<Rightarrow> u64 set \<Rightarrow> u64 set \<Rightarrow> bool" where
  "space_ok s Us Rs \<longleftrightarrow>
     pmm_ok (pg_pmm s) \<and> ptotal s \<noteq> 0 \<and> unshared (ptotal s) (pg_mem s) Us Rs
     \<and> (\<forall>R \<in> Rs. \<forall>q t. tpath_ok q \<longrightarrow> desc (ptotal s) (pg_mem s) R q = Some t \<longrightarrow>
          DMAP_TO_PHYS t \<notin> free_frames (pg_pmm s))
     \<and> (\<forall>R p t i. slot_at (ptotal s) (pg_mem s) Us R p t i \<longrightarrow> 1 \<le> length p \<longrightarrow> length p \<le> 2 \<longrightarrow>
          huge_ok (length p) (pg_mem s t i))"

text \<open>A step that keeps the invariant, the spaces and every translation.\<close>

definition keeps_xl :: "paging \<Rightarrow> paging \<Rightarrow> u64 set \<Rightarrow> u64 set \<Rightarrow> bool" where
  "keeps_xl s s' Us Rs \<longleftrightarrow>
     space_ok s' Us Rs \<and> ptotal s' = ptotal s \<and> g_kernel_as s' = g_kernel_as s \<and> g_spaces s' = g_spaces s
     \<and> g_paging_nx_enabled s' = g_paging_nx_enabled s
     \<and> (\<forall>R \<in> Rs. \<forall>v. xl s' R v = xl s R v)"

lemma keeps_xl_refl: "space_ok s Us Rs \<Longrightarrow> keeps_xl s s Us Rs"
  by (simp add: keeps_xl_def)

lemma keeps_xl_trans: "keeps_xl s s1 Us Rs \<Longrightarrow> keeps_xl s1 s2 Us Rs \<Longrightarrow> keeps_xl s s2 Us Rs"
  by (auto simp: keeps_xl_def)

abbreviation slot :: "paging \<Rightarrow> u64 set \<Rightarrow> u64 \<Rightarrow> nat list \<Rightarrow> u64 \<Rightarrow> nat \<Rightarrow> bool" where
  "slot s Us R p t i \<equiv> slot_at (ptotal s) (pg_mem s) Us R p t i"

lemma space_okD:
  assumes "space_ok s Us Rs"
  shows "pmm_ok (pg_pmm s)" "ptotal s \<noteq> 0" "unshared (ptotal s) (pg_mem s) Us Rs"
    "\<And>R q t. R \<in> Rs \<Longrightarrow> tpath_ok q \<Longrightarrow> desc (ptotal s) (pg_mem s) R q = Some t \<Longrightarrow>
       DMAP_TO_PHYS t \<notin> free_frames (pg_pmm s)"
    "\<And>R p t i. slot s Us R p t i \<Longrightarrow> 1 \<le> length p \<Longrightarrow> length p \<le> 2 \<Longrightarrow> huge_ok (length p) (pg_mem s t i)"
    "Us \<subseteq> Rs"
  using assms by (auto simp: space_ok_def unshared_def)

subsection \<open>A new table\<close>

lemma alloc_page_table_spec:
  assumes ok: "pmm_ok (pg_pmm s)" and a: "alloc_page_table s = (s1, nt)"
  shows "nt = 0 \<Longrightarrow> s1 = s"
    and "nt \<noteq> 0 \<Longrightarrow> \<exists>f P. nt = PHYS_TO_DMAP f \<and> f \<in> free_frames (pg_pmm s) \<and> page_addr f
      \<and> unat f < unat (ptotal s) * 4096 \<and> s1 = s\<lparr> pg_pmm := P, pg_mem := (pg_mem s)(nt := (\<lambda>_. 0)) \<rparr>
      \<and> pmm_ok P \<and> g_pmm_total P = ptotal s \<and> free_frames P = free_frames (pg_pmm s) - {f}"
    and "free_frames (pg_pmm s) \<noteq> {} \<Longrightarrow> nt \<noteq> 0"
proof -
  let ?p = "pg_pmm s"
  have tot: "unat (ptotal s) \<le> 2097152" using pmm_okD(1) [OF ok] .
  have "(nt = 0 \<longrightarrow> s1 = s) \<and> (free_frames ?p \<noteq> {} \<longrightarrow> nt \<noteq> 0) \<and> (nt \<noteq> 0 \<longrightarrow> (\<exists>f P. nt = PHYS_TO_DMAP f \<and> f \<in> free_frames ?p \<and> page_addr f
      \<and> unat f < unat (ptotal s) * 4096 \<and> s1 = s\<lparr> pg_pmm := P, pg_mem := (pg_mem s)(nt := (\<lambda>_. 0)) \<rparr>
      \<and> pmm_ok P \<and> g_pmm_total P = ptotal s \<and> free_frames P = free_frames ?p - {f}))"
  proof (cases "unused ?p = {}")
    case True
    with pmm_alloc_spec(1) [OF ok True] a show ?thesis by (auto simp: alloc_page_table_def free_frames_def)
  next
    case False
    obtain p1 i where al: "pmm_alloc_frame ?p = (p1, frame_addr i)" "i \<in> unused ?p" "pmm_ok p1"
        "unused p1 = unused ?p - {i}" "g_pmm_total p1 = g_pmm_total ?p" "g_pmm_base p1 = g_pmm_base ?p"
      using pmm_alloc_spec(2) [OF ok False] by blast
    have ib: "base_idx ?p \<le> i" "i < unat (ptotal s)" using unused_bounds [OF ok al(2)] by auto
    have ua: "unat (frame_addr i) = i * 4096" using ib tot by (intro unat_frame_addr) simp
    have fa: "page_addr (frame_addr i)" using ua ib tot by (intro page_addr_unat) auto
    have fz: "frame_addr i \<noteq> 0" using ua ib(1) pmm_okD(3) [OF ok] by auto
    have "base_idx p1 = base_idx ?p" by (simp add: base_idx_def al(6))
    then have mk: "pmm_ok (pmm_mark_page_table_frame p1 (frame_addr i))"
        "unused (pmm_mark_page_table_frame p1 (frame_addr i)) = unused p1"
        "g_pmm_total (pmm_mark_page_table_frame p1 (frame_addr i)) = ptotal s"
      using pmm_mark_spec [OF al(3), of i] ib al by auto
    have "inj_on frame_addr (unused ?p)"
      by (rule inj_on_subset [OF unused_inj [OF ok]]) (auto simp: unused_def)
    then have fr: "free_frames (pmm_mark_page_table_frame p1 (frame_addr i)) = free_frames ?p - {frame_addr i}"
      using al(2) unfolding free_frames_def mk(2) al(4) by (simp add: inj_on_image_set_diff [of _ "unused ?p"])
    have "alloc_page_table s = (s\<lparr> pg_pmm := pmm_mark_page_table_frame p1 (frame_addr i),
        pg_mem := (pg_mem s)(PHYS_TO_DMAP (frame_addr i) := (\<lambda>_. 0)) \<rparr>, PHYS_TO_DMAP (frame_addr i))"
      using fz by (simp add: alloc_page_table_def al(1))
    then have s1: "s1 = s\<lparr> pg_pmm := pmm_mark_page_table_frame p1 (frame_addr i),
        pg_mem := (pg_mem s)(PHYS_TO_DMAP (frame_addr i) := (\<lambda>_. 0)) \<rparr>" "nt = PHYS_TO_DMAP (frame_addr i)"
      using a by (metis prod.inject)+
    have "nt \<noteq> 0"
    proof -
      have "unat (PHYS_TO_DMAP (frame_addr i)) = unat (frame_addr i) + (2 ^ 64 - 2 ^ 47)"
        using ua ib tot unat_dmap by (subst unat_add_no_wrap) auto
      then have "unat (PHYS_TO_DMAP (frame_addr i)) \<noteq> 0" by simp
      then show ?thesis unfolding s1(2) by (metis unat_0)
    qed
    moreover have "frame_addr i \<in> free_frames ?p" using al(2) by (auto simp: free_frames_def)
    moreover have "unat (frame_addr i) < unat (ptotal s) * 4096" using ua ib by simp
    moreover note s1(1) [folded s1(2)] fa mk(1,3) fr s1(2)
    ultimately show ?thesis by blast
  qed
  then show "nt = 0 \<Longrightarrow> s1 = s" and "nt \<noteq> 0 \<Longrightarrow> \<exists>f P. nt = PHYS_TO_DMAP f \<and> f \<in> free_frames (pg_pmm s) \<and> page_addr f
      \<and> unat f < unat (ptotal s) * 4096 \<and> s1 = s\<lparr> pg_pmm := P, pg_mem := (pg_mem s)(nt := (\<lambda>_. 0)) \<rparr>
      \<and> pmm_ok P \<and> g_pmm_total P = ptotal s \<and> free_frames P = free_frames (pg_pmm s) - {f}"
    and "free_frames (pg_pmm s) \<noteq> {} \<Longrightarrow> nt \<noteq> 0" by blast+
qed

subsection \<open>Linking a table\<close>

abbreviation tables :: "paging \<Rightarrow> u64 \<Rightarrow> nat list \<Rightarrow> u64 option" where
  "tables s \<equiv> desc (ptotal s) (pg_mem s)"

lemma slot_desc: "slot s Us R p t i \<Longrightarrow> tables s R p = Some t"
  by (simp add: slot_at_def)

lemma slot_next:
  "slot s Us R p t i \<Longrightarrow> length p \<le> 2 \<Longrightarrow> tables s R (p @ [i]) = Some u \<Longrightarrow> j < 512 \<Longrightarrow> slot s Us R (p @ [i]) u j"
  unfolding slot_at_def using low_path_def by (auto simp: hd_append split: if_splits)

lemma tail_same:
  fixes e :: u64
  assumes un: "unshared tot m Us Rs" and sl: "slot_at tot m Us R p t i"
  defines "m' \<equiv> m(t := (m t)(i := e))"
  shows "desc tot m R (p @ i # a) = Some u \<Longrightarrow> length (p @ i # a @ q) \<le> 4 \<Longrightarrow> \<forall>j \<in> set (a @ q). j < 512 \<Longrightarrow>
    walk tot m' u q = walk tot m u q"
proof (induction q arbitrary: a u)
  case (Cons j q)
  have R: "R \<in> Us" "R \<in> Rs" "tpath_ok p" "low_path p" "desc tot m R p = Some t" "i < 512"
    using sl un low_path_prefix by (auto simp: slot_at_def unshared_def)
  have "tpath_ok (p @ i # a)" using R(3,6) Cons.prems by (auto simp: tpath_ok_def)
  then have "u \<noteq> t" using unsharedD [OF un, of R R p "p @ i # a" t] R Cons.prems(1) by auto
  then have e: "m' u j = m u j" by (simp add: m'_def)
  have IH: "walk tot m' u' q = walk tot m u' q" if "nxt tot (m u j) = Some u'" for u'
    using Cons.IH [of "a @ [j]" u'] Cons.prems that desc_append [of tot m R "p @ i # a" "[j]"] by simp
  show ?case
  proof (cases "q = []")
    case False
    then show ?thesis unfolding walk_Cons [OF False] e using IH by (simp split: option.splits)
  qed (use e in simp)
qed simp

lemma link_step:
  fixes s1 :: paging
  assumes sp: "space_ok s Us Rs" and sl: "slot s Us R p t i" and p: "length p \<le> 2"
    and old: "next_table s (pg_mem s t i) = None"
    and a: "alloc_page_table s = (s1, nt)" and nz: "nt \<noteq> 0"
    and c: "\<forall>n. bit c n \<longrightarrow> n < 12" "bit c 0" "\<not> bit c 7"
    and leaf: "length p \<le> 1 \<longrightarrow> (\<forall>k < 512. next_table s (g k) = None)"
    and hg: "length p \<le> 1 \<longrightarrow> (\<forall>k < 512. huge_ok (Suc (length p)) (g k))"
    and tr: "\<forall>v m rest. m nt = g \<longrightarrow> idx v = p @ i # rest \<longrightarrow>
      translate_of v (walk (ptotal s) m nt rest) = translate_of v (walk (ptotal s) (pg_mem s) t (i # rest))"
    and s2: "s2 = s1\<lparr> pg_mem := ((pg_mem s)(nt := g))(t := (((pg_mem s)(nt := g)) t)(i := DMAP_TO_PHYS nt OR c)) \<rparr>"
  shows "keeps_xl s s2 Us Rs" and "tables s2 R (p @ [i]) = Some nt" and "tables s2 R p = Some t"
    and "pg_mem s2 t i = DMAP_TO_PHYS nt OR c"
    and "next_table s2 (pg_mem s2 t i) = Some nt"
proof -
  note D = space_okD [OF sp]
  obtain f P where f: "nt = PHYS_TO_DMAP f" "f \<in> free_frames (pg_pmm s)" "page_addr f"
      "unat f < unat (ptotal s) * 4096" "s1 = s\<lparr> pg_pmm := P, pg_mem := (pg_mem s)(nt := (\<lambda>_. 0)) \<rparr>"
      "pmm_ok P" "g_pmm_total P = ptotal s" "free_frames P = free_frames (pg_pmm s) - {f}"
    using alloc_page_table_spec(2) [OF D(1) a nz] by blast
  let ?m' = "((pg_mem s)(nt := g))(t := (((pg_mem s)(nt := g)) t)(i := f OR c))"
  have st: "s2 = s\<lparr> pg_pmm := P, pg_mem := ?m' \<rparr>" using s2 f(1,5) by simp
  have new: "next_table s (f OR c) = Some nt"
    using link_next(1) [OF f(3,4) pmm_okD(1) [OF D(1)] D(2), of c] c f(1) by simp
  have fresh: "desc (ptotal s) (pg_mem s) R' q \<noteq> Some nt" if "R' \<in> Rs" "tpath_ok q" for R' q
    using D(4) [OF that, of nt] f(1,2) by auto
  have fresh0: "\<forall>R' \<in> Rs. \<forall>q. tpath_ok q \<longrightarrow> tables s R' q \<noteq> Some nt" using fresh by blast
  note L = link_fresh [OF D(3) sl p old new fresh0 leaf]
  have R: "R \<in> Us" "R \<in> Rs" "tpath_ok p" "low_path p" "i < 512" "t \<noteq> nt"
    using sl D(6) low_path_prefix fresh [of R p] by (auto simp: slot_at_def)
  have tabs: "tables s2 = desc (ptotal s) ?m'" and tot: "ptotal s2 = ptotal s" by (simp_all add: st f(7))
  show "tables s2 R (p @ [i]) = Some nt" unfolding tabs by (rule L(1))
  show tp: "tables s2 R p = Some t"
    unfolding tabs using L(2) [OF R(2,3)] slot_desc [OF sl] by (simp add: passes_def)
  show e: "pg_mem s2 t i = DMAP_TO_PHYS nt OR c" using f(1) by (simp add: st)
  show "next_table s2 (pg_mem s2 t i) = Some nt" unfolding e tot using new f(1) by simp
  have char: "(R' = R \<and> q = p @ [i] \<and> u = nt) \<or> desc (ptotal s) (pg_mem s) R' q = Some u"
    if h: "desc (ptotal s) ?m' R' q = Some u" "R' \<in> Rs" "tpath_ok q" for R' q u
  proof (cases "passes R p i R' q")
    case False
    with L(2) [OF h(2,3)] h(1) show ?thesis by simp
  next
    case True
    then obtain rest where r: "R' = R" "q = p @ i # rest" by (auto simp: passes_def)
    with L(1) L(3) h show ?thesis by (cases rest) auto
  qed
  have "space_ok s2 Us Rs"
    unfolding space_ok_def tot
  proof (intro conjI allI impI ballI)
    show "pmm_ok (pg_pmm s2)" using f(6) by (simp add: st)
    show "ptotal s \<noteq> 0" by (fact D(2))
    show "unshared (ptotal s) (pg_mem s2) Us Rs" using L(4) by (simp add: st)
  next
    fix R' q u assume h: "R' \<in> Rs" "tpath_ok q" "desc (ptotal s) (pg_mem s2) R' q = Some u"
    have "free_frames (pg_pmm s2) = free_frames (pg_pmm s) - {f}" by (simp add: st f(8))
    then show "DMAP_TO_PHYS u \<notin> free_frames (pg_pmm s2)"
      using char [of R' q u] h D(4) [OF h(1,2)] f(1) by (auto simp: st)
  next
    fix R' q u k
    assume h: "slot_at (ptotal s) (pg_mem s2) Us R' q u k" "1 \<le> length q" "length q \<le> 2"
    have R': "R' \<in> Rs" "tpath_ok q" "k < 512" "R' \<in> Us" "low_path (q @ [k])" "desc (ptotal s) ?m' R' q = Some u"
      using h D(6) by (auto simp: slot_at_def st)
    from char [OF R'(6,1,2)] show "huge_ok (length q) (pg_mem s2 u k)"
    proof
      assume x: "R' = R \<and> q = p @ [i] \<and> u = nt"
      then show ?thesis using hg R'(3) h(3) R(6) by (auto simp: st)
    next
      assume x: "desc (ptotal s) (pg_mem s) R' q = Some u"
      then have "u \<noteq> nt" using fresh R' by blast
      moreover have "huge_ok (length q) (pg_mem s u k)"
        using D(5) [of R' q u k] R' x h(2,3) by (simp add: slot_at_def)
      moreover have "huge_ok (length q) (f OR c)" using nxt_flags [OF new] by (simp add: huge_ok_def)
      ultimately show ?thesis by (auto simp: st)
    qed
  qed
  moreover have "xl s2 R' v = xl s R' v" if R': "R' \<in> Rs" for R' v
  proof (cases "passes R p i R' (idx v)")
    case False
    have "walk (ptotal s) ?m' R' (idx v) = walk (ptotal s) (pg_mem s) R' (idx v)"
      by (rule L(5) [OF R' _ _ False]) (auto dest: idx_lt)
    then show ?thesis by (simp add: xl_def tot) (simp add: st)
  next
    case True
    then obtain rest where r: "R' = R" "idx v = p @ i # rest" by (auto simp: passes_def)
    have "rest \<noteq> []" using idx_split [OF r(2)] p by auto
    then have "walk (ptotal s) ?m' R (idx v) = walk (ptotal s) ?m' nt rest" unfolding r(2) by (rule L(6))
    moreover have "walk (ptotal s) (pg_mem s) R (idx v) = walk (ptotal s) (pg_mem s) t (i # rest)"
      unfolding r(2) using slot_desc [OF sl] by (intro walk_desc) auto
    ultimately show ?thesis
      unfolding xl_def tot using tr L(7) r by (simp add: st)
  qed
  ultimately show "keeps_xl s s2 Us Rs" by (simp add: keeps_xl_def tot) (simp add: st)
qed

subsection \<open>Changing a leaf or a flag\<close>

text \<open>An edit that leads to the same next table keeps the invariant.\<close>

lemma same_step:
  assumes sp: "space_ok s Us Rs" and sl: "slot s Us R p t i"
    and nx: "length p \<le> 2 \<Longrightarrow> next_table s e = next_table s (pg_mem s t i)"
    and hg: "1 \<le> length p \<Longrightarrow> length p \<le> 2 \<Longrightarrow> huge_ok (length p) e"
  defines "s' \<equiv> set_entry s t i e"
  shows "space_ok s' Us Rs" and "tables s' R p = Some t"
    and "R' \<in> Rs \<Longrightarrow> \<not> passes R p i R' (idx v) \<Longrightarrow> xl s' R' v = xl s R' v"
proof -
  note D = space_okD [OF sp]
  have d: "tables s' R' q = tables s R' q" if "R' \<in> Rs" "tpath_ok q" for R' q
    using same_next(1) [OF D(3) sl nx that] by (simp add: s'_def)
  have R: "R \<in> Rs" "tpath_ok p" "R \<in> Us" "low_path p" using sl D(6) low_path_prefix by (auto simp: slot_at_def)
  show "tables s' R p = Some t" using d [OF R(1,2)] slot_desc [OF sl] by simp
  show "xl s' R' v = xl s R' v" if "R' \<in> Rs" "\<not> passes R p i R' (idx v)"
    using same_next(3) [OF D(3) sl nx that(1) _ _ that(2)] idx_lt by (simp add: xl_def s'_def)
  have tot: "ptotal s' = ptotal s" and pm: "pg_pmm s' = pg_pmm s" by (simp_all add: s'_def)
  show "space_ok s' Us Rs"
    unfolding space_ok_def pm
  proof (intro conjI allI impI ballI)
    show "pmm_ok (pg_pmm s)" "ptotal s \<noteq> 0" by (fact D)+
    show "unshared (ptotal s) (pg_mem s') Us Rs" using same_next(2) [OF D(3) sl nx] by (simp add: s'_def)
  next
    fix R' q u assume "R' \<in> Rs" "tpath_ok q" "desc (ptotal s) (pg_mem s') R' q = Some u"
    then show "DMAP_TO_PHYS u \<notin> free_frames (pg_pmm s)" using d [of R' q] D(4) [of R' q u] pm by simp
  next
    fix R' q u k
    assume h: "slot_at (ptotal s) (pg_mem s') Us R' q u k" "1 \<le> length q" "length q \<le> 2"
    then have h': "R' \<in> Us" "R' \<in> Rs" "tpath_ok q" "k < 512" "low_path (q @ [k])" "tables s R' q = Some u"
      using D(6) d [of R' q] pm by (auto simp: slot_at_def)
    have old: "huge_ok (length q) (pg_mem s u k)" using D(5) [of R' q u k] h' h(2,3) by (simp add: slot_at_def)
    show "huge_ok (length q) (pg_mem s' u k)"
    proof (cases "u = t \<and> k = i")
      case True
      then have "q = p" using unsharedD [OF D(3) R(3) h'(2) R(2,4) h'(3)] slot_desc [OF sl] h'(6) by simp
      with hg h True show ?thesis by (simp add: s'_def)
    next
      case False
      with old show ?thesis by (auto simp: s'_def)
    qed
  qed
qed

lemma huge_user: "flag_set (e OR PAGE_USER) PAGE_HUGE \<longleftrightarrow> flag_set e PAGE_HUGE"
  unfolding flag_set_bit by (simp add: bit_or_iff bit_flags)

lemma promote_step:
  assumes sp: "space_ok s Us Rs" and sl: "slot s Us R p t i" and p: "length p \<le> 2"
    and nh: "1 \<le> length p \<Longrightarrow> \<not> flag_set (pg_mem s t i) PAGE_HUGE"
  defines "s' \<equiv> set_entry s t i (pg_mem s t i OR PAGE_USER)"
  shows "keeps_xl s s' Us Rs" and "tables s' R p = Some t"
proof -
  let ?e = "pg_mem s t i" and ?m' = "(pg_mem s)(t := (pg_mem s t)(i := pg_mem s t i OR PAGE_USER))"
  have hg: "1 \<le> length p \<Longrightarrow> length p \<le> 2 \<Longrightarrow> huge_ok (length p) (?e OR PAGE_USER)"
    using nh by (simp add: huge_ok_def huge_user)
  note S = same_step [OF sp sl next_user hg, folded s'_def]
  show "tables s' R p = Some t" by (rule S(2))
  have "xl s' R v = xl s R v" if pa: "passes R p i R (idx v)" for v
  proof -
    obtain rest where r: "idx v = p @ i # rest" using pa by (auto simp: passes_def)
    have ne: "rest \<noteq> []" and len: "length rest = 3 - length p" using idx_split [OF r] p by auto
    have "walk (ptotal s) ?m' t (i # rest) = walk (ptotal s) (pg_mem s) t (i # rest)"
    proof (cases "next_table s ?e")
      case None
      then show ?thesis using nh len by (cases "length p") (simp_all add: walk_Cons [OF ne] next_user huge_user)
    next
      case (Some u)
      have "desc (ptotal s) (pg_mem s) R (p @ i # []) = Some u"
        using slot_desc [OF sl] Some by (simp add: desc_append)
      from tail_same [OF space_okD(3) [OF sp] sl this, of rest]
      have "walk (ptotal s) ?m' u rest = walk (ptotal s) (pg_mem s) u rest"
        using r idx_lt [of _ v] len p by auto
      then show ?thesis using Some nxt_flags [OF Some] by (simp add: walk_Cons [OF ne] next_user huge_user)
    qed
    moreover have "walk (ptotal s) ?m' R (idx v) = walk (ptotal s) ?m' t (i # rest)"
      unfolding r using S(2) by (intro walk_desc) (simp_all add: s'_def)
    moreover have "walk (ptotal s) (pg_mem s) R (idx v) = walk (ptotal s) (pg_mem s) t (i # rest)"
      unfolding r using slot_desc [OF sl] by (intro walk_desc) simp_all
    ultimately show ?thesis by (simp add: xl_def s'_def)
  qed
  then have "\<forall>R' \<in> Rs. \<forall>v. xl s' R' v = xl s R' v" using S(3) by (metis passes_def)
  then show "keeps_xl s s' Us Rs" using S(1) by (simp add: keeps_xl_def) (simp add: s'_def)
qed

subsection \<open>The next level\<close>

lemma zero_table: "nxt tot 0 = None" "\<not> flag_set 0 PAGE_PRESENT" "\<not> flag_set 0 PAGE_HUGE"
  by (simp_all add: c2_page_table_from_entry_def)

lemma walk_zero: "m nt = (\<lambda>_. 0) \<Longrightarrow> translate_of v (walk tot m nt rest) = 0"
  by (cases "(tot, m, nt, rest)" rule: walk.cases) (auto simp: translate_of_def zero_table)

lemma walk_missing:
  assumes "rest \<noteq> []" and "length rest < 3 \<Longrightarrow> \<not> flag_set (m t i) PAGE_HUGE" and "nxt tot (m t i) = None"
  shows "walk tot m t (i # rest) = None"
  using assms by (simp add: walk_Cons)

lemma link_flags:
  "bit (PAGE_PRESENT OR PAGE_WRITABLE OR PAGE_USER) n \<longleftrightarrow> n < 3"
  "bit (PAGE_PRESENT OR PAGE_WRITABLE OR 0) n \<longleftrightarrow> n < 2"
  by (auto simp: bit_or_iff bit_flags)

lemma ensure_next_spec:
  assumes sp: "space_ok s Us Rs" and sl: "slot s Us R p t i" and p: "length p \<le> 2"
    and nh: "1 \<le> length p \<Longrightarrow> \<not> flag_set (pg_mem s t i) PAGE_HUGE"
    and en: "ensure_next s t i w = (s', r)"
  shows "keeps_xl s s' Us Rs" and "r = Some nt \<Longrightarrow> tables s' R (p @ [i]) = Some nt"
proof -
  let ?e = "pg_mem s t i"
  have "keeps_xl s s' Us Rs \<and> (\<forall>nt. r = Some nt \<longrightarrow> tables s' R (p @ [i]) = Some nt)"
  proof (cases "flag_set ?e PAGE_PRESENT")
    case pres: True
    let ?s1 = "if w \<and> \<not> flag_set ?e PAGE_USER then set_entry s t i (?e OR PAGE_USER) else s"
    have k: "keeps_xl s ?s1 Us Rs" "tables ?s1 R p = Some t"
      using promote_step [OF sp sl p nh] keeps_xl_refl [OF sp] slot_desc [OF sl] by auto
    have "(s', r) = (?s1, next_table ?s1 (pg_mem ?s1 t i))"
      using en pres by (auto simp: ensure_next_def Let_def split: if_splits)
    then have "s' = ?s1" "r = next_table ?s1 (pg_mem ?s1 t i)" by (simp_all only: prod.inject)
    then show ?thesis using k by (auto simp: desc_append simp del: prod.inject)
  next
    case False
    obtain s1 nt where a: "alloc_page_table s = (s1, nt)" by (meson surj_pair)
    show ?thesis
    proof (cases "nt = 0")
      case True
      then have "s' = s" "r = None"
        using en False a alloc_page_table_spec(1) [OF space_okD(1) [OF sp] a] by (auto simp: ensure_next_def)
      then show ?thesis using keeps_xl_refl [OF sp] by simp
    next
      case nz: False
      have old: "next_table s ?e = None" using False by (rule not_present_next)
      let ?c = "PAGE_PRESENT OR PAGE_WRITABLE OR PAGE_USER"
      obtain P where "s1 = s\<lparr> pg_pmm := P, pg_mem := (pg_mem s)(nt := (\<lambda>_. 0)) \<rparr>"
        using alloc_page_table_spec(2) [OF space_okD(1) [OF sp] a nz] by blast
      then have m1: "pg_mem s1 = (pg_mem s)(nt := (\<lambda>_. 0))" by simp
      have "translate_of v (walk (ptotal s) m nt rest) = translate_of v (walk (ptotal s) (pg_mem s) t (i # rest))"
        if "m nt = (\<lambda>_. 0)" "idx v = p @ i # rest" for v m rest
      proof -
        have ne: "rest \<noteq> []" and len: "length rest = 3 - length p" using idx_split [OF that(2)] p by auto
        have nh': "\<not> flag_set ?e PAGE_HUGE" if "length rest < 3" using that len p by (intro nh) simp
        have "walk (ptotal s) (pg_mem s) t (i # rest) = None" using ne nh' old by (rule walk_missing)
        then show ?thesis using walk_zero [of m nt, OF that(1)] by (simp add: translate_of_def)
      qed
      then have tr: "\<forall>v m rest. m nt = (\<lambda>_. 0) \<longrightarrow> idx v = p @ i # rest \<longrightarrow> translate_of v (walk (ptotal s) m nt rest)
          = translate_of v (walk (ptotal s) (pg_mem s) t (i # rest))" by blast
      have c: "\<forall>n. bit ?c n \<longrightarrow> n < 12" "bit ?c 0" "\<not> bit ?c 7" by (auto simp: link_flags)
      have z: "length p \<le> 1 \<longrightarrow> (\<forall>k < 512. next_table s ((\<lambda>_. 0) k) = None)"
          "length p \<le> 1 \<longrightarrow> (\<forall>k < 512. huge_ok (Suc (length p)) ((\<lambda>_. 0) k))"
        by (simp_all add: zero_table huge_ok_def)
      let ?s2 = "s1\<lparr> pg_mem := ((pg_mem s)(nt := (\<lambda>_. 0)))(t :=
          (((pg_mem s)(nt := (\<lambda>_. 0))) t)(i := DMAP_TO_PHYS nt OR ?c)) \<rparr>"
      have L: "keeps_xl s ?s2 Us Rs" "tables ?s2 R (p @ [i]) = Some nt"
          "next_table ?s2 (pg_mem ?s2 t i) = Some nt"
        by (rule link_step(1,2,5) [OF sp sl p old a nz c z tr refl])+
      have "s' = ?s2 \<and> r = next_table ?s2 (pg_mem ?s2 t i)"
        using en False a nz by (auto simp: ensure_next_def Let_def m1)
      then show ?thesis using L by auto
    qed
  qed
  then show "keeps_xl s s' Us Rs" and "r = Some nt \<Longrightarrow> tables s' R (p @ [i]) = Some nt" by auto
qed

subsection \<open>Splitting\<close>

lemma idx_rest:
  "idx v = p @ i # rest \<Longrightarrow> length p = 2 \<Longrightarrow> rest = [pt_index v 12]"
  "idx v = p @ i # rest \<Longrightarrow> length p = 1 \<Longrightarrow> rest = [pt_index v 21, pt_index v 12]"
  by (auto simp: idx_def length_Suc_conv numeral_2_eq_2)

lemma addr_no_low: "C2_PTE_ADDR_MASK AND NOT (mask 12) = C2_PTE_ADDR_MASK"
proof (rule eq_bits64)
  fix n :: nat assume "n < 64"
  then show "bit (C2_PTE_ADDR_MASK AND NOT (mask 12)) n \<longleftrightarrow> bit C2_PTE_ADDR_MASK n"
    unfolding bit_and_iff bit_not64 [OF \<open>n < 64\<close>] bit_addr by (auto simp: bit_mask64)
qed

text \<open>The shift of the pieces a huge entry at the end of \<open>p\<close> is split into.\<close>

definition piece_shift :: "nat list \<Rightarrow> nat" where
  "piece_shift p = (if length p = 2 then 12 else 21)"

lemma split_step:
  fixes s1 :: paging
  assumes sp: "space_ok s Us Rs" and sl: "slot s Us R p t i" and p: "length p = 1 \<or> length p = 2"
    and h: "flag_set (pg_mem s t i) PAGE_HUGE"
    and a: "alloc_page_table s = (s1, nt)" and nz: "nt \<noteq> 0"
    and c: "\<forall>n. bit c n \<longrightarrow> n < 12" "bit c 0" "bit c 7 \<longleftrightarrow> length p = 1"
    and lc: "\<forall>n. bit lc n \<longrightarrow> n < 12" "bit lc 0" "\<not> bit lc 7"
    and s2: "s2 = set_entry (s1\<lparr> pg_mem := fill512 (pg_mem s1) nt
        (\<lambda>k. split_piece (pg_mem s t i) (piece_shift p) k c) \<rparr>) t i (DMAP_TO_PHYS nt OR lc)"
  shows "keeps_xl s s2 Us Rs" and "tables s2 R p = Some t" and "\<not> flag_set (pg_mem s2 t i) PAGE_HUGE"
proof -
  let ?e = "pg_mem s t i" and ?sh = "piece_shift p"
  let ?g = "\<lambda>k. if k < 512 then split_piece ?e ?sh k c else 0"
  have al: "?e AND C2_PTE_ADDR_MASK AND mask (?sh + 9) = 0" and sh: "12 \<le> ?sh" "?sh + 9 \<le> 52"
    using space_okD(5) [OF sp sl] p h by (auto simp: huge_ok_def piece_shift_def)
  have pc: "split_piece ?e ?sh k c AND C2_PTE_ADDR_MASK AND mask ?sh = 0"
      "flag_set (split_piece ?e ?sh k c) PAGE_PRESENT"
      "flag_set (split_piece ?e ?sh k c) PAGE_HUGE \<longleftrightarrow> length p = 1" if "k < 512" for k
    using split_aligned [OF al sh that c(1)] c(2,3) unfolding flag_set_bit by auto
  obtain P where "s1 = s\<lparr> pg_pmm := P, pg_mem := (pg_mem s)(nt := (\<lambda>_. 0)) \<rparr>"
    using alloc_page_table_spec(2) [OF space_okD(1) [OF sp] a nz] by blast
  then have m: "s2 = s1\<lparr> pg_mem := ((pg_mem s)(nt := ?g))(t := (((pg_mem s)(nt := ?g)) t)(i := DMAP_TO_PHYS nt OR lc)) \<rparr>"
    by (simp add: s2 fill512_def fun_upd_def cong: if_cong)
  have old: "next_table s ?e = None" using h by (simp add: c2_page_table_from_entry_def)
  have "translate_of v (walk (ptotal s) m nt rest) = translate_of v (walk (ptotal s) (pg_mem s) t (i # rest))"
    if mg: "m nt = ?g" and iv: "idx v = p @ i # rest" for v m rest
  proof -
    note T = split_translate [OF al sh c(1), of v]
    from p show ?thesis
    proof
      assume l: "length p = 2"
      then have r: "rest = [pt_index v 12]" and s12: "?sh = 12" using idx_rest(1) [OF iv] by (simp_all add: piece_shift_def)
      show ?thesis
        using T pc(2) [of "pt_index v 12"] h unfolding s12
        by (simp add: r mg s12 translate_of_def and.assoc addr_no_low low_mask)
    next
      assume l: "length p = 1"
      then have r: "rest = [pt_index v 21, pt_index v 12]" and s21: "?sh = 21"
        using idx_rest(2) [OF iv] by (simp_all add: piece_shift_def)
      show ?thesis
        using T pc(3) [of "pt_index v 21"] h l unfolding s21
        by (simp add: r mg s21 translate_of_def and.assoc)
    qed
  qed
  then have tr: "\<forall>v m rest. m nt = ?g \<longrightarrow> idx v = p @ i # rest \<longrightarrow> translate_of v (walk (ptotal s) m nt rest)
      = translate_of v (walk (ptotal s) (pg_mem s) t (i # rest))" by blast
  have leaf: "length p \<le> 1 \<longrightarrow> (\<forall>k < 512. next_table s (?g k) = None)"
    using pc(3) p by (auto simp: c2_page_table_from_entry_def)
  have hg: "length p \<le> 1 \<longrightarrow> (\<forall>k < 512. huge_ok (Suc (length p)) (?g k))"
    using pc(1,2) p by (auto simp: huge_ok_def piece_shift_def)
  have p2: "length p \<le> 2" using p by auto
  note L = link_step [OF sp sl p2 old a nz lc leaf hg tr m]
  show "keeps_xl s s2 Us Rs" "tables s2 R p = Some t" by (rule L(1,3))+
  show "\<not> flag_set (pg_mem s2 t i) PAGE_HUGE" using nxt_flags [OF L(5)] by simp
qed

lemma user_flags: 
  "bit (PAGE_PRESENT OR PAGE_WRITABLE OR (if u then PAGE_USER else 0)) n \<longleftrightarrow> n < 2 \<or> u \<and> n = 2"
  by (auto simp: bit_or_iff bit_flags)

lemma split_1g_spec:
  assumes sp: "space_ok s Us Rs" and sl: "slot s Us R p t i" and p: "length p = 1"
    and h: "flag_set (pg_mem s t i) PAGE_HUGE" and r: "paging_split_1g_huge s t i u = (s', ok)"
  shows "keeps_xl s s' Us Rs" and "ok \<Longrightarrow> tables s' R p = Some t" and "ok \<Longrightarrow> \<not> flag_set (pg_mem s' t i) PAGE_HUGE"
proof -
  let ?e = "pg_mem s t i" and ?c = "pg_mem s t i AND 0xFFF"
  let ?lc = "PAGE_PRESENT OR PAGE_WRITABLE OR (if u then PAGE_USER else 0)"
  have e0: "flag_set ?e PAGE_PRESENT" using space_okD(5) [OF sp sl] p h by (simp add: huge_ok_def)
  have c: "\<forall>n. bit ?c n \<longrightarrow> n < 12" "bit ?c 0" "bit ?c 7 \<longleftrightarrow> length p = 1"
    using e0 h p unfolding low_mask flag_set_bit bit_and_iff by (auto simp: bit_mask64)
  have lc: "\<forall>n. bit ?lc n \<longrightarrow> n < 12" "bit ?lc 0" "\<not> bit ?lc 7" by (auto simp: user_flags)
  have sh: "piece_shift p = 21" using p by (simp add: piece_shift_def)
  have "keeps_xl s s' Us Rs \<and> (ok \<longrightarrow> tables s' R p = Some t \<and> \<not> flag_set (pg_mem s' t i) PAGE_HUGE)"
  proof (cases "c2_page_table_entry_phys_valid (ptotal s) ?e")
    case False
    with r h keeps_xl_refl [OF sp] show ?thesis by (simp add: paging_split_1g_huge_def)
  next
    case True
    obtain s1 nt where a: "alloc_page_table s = (s1, nt)" by (meson surj_pair)
    show ?thesis
    proof (cases "nt = 0")
      case z: True
      with r h True a alloc_page_table_spec(1) [OF space_okD(1) [OF sp] a] keeps_xl_refl [OF sp]
      show ?thesis by (auto simp: paging_split_1g_huge_def)
    next
      case nz: False
      have "s' = set_entry (s1\<lparr> pg_mem := fill512 (pg_mem s1) nt
          (\<lambda>k. split_piece ?e (piece_shift p) k ?c) \<rparr>) t i (DMAP_TO_PHYS nt OR ?lc)"
        using r h True a nz unfolding sh by (auto simp: paging_split_1g_huge_def Let_def split_piece_def)
      from split_step [OF sp sl disjI1 [OF p] h a nz c lc this] show ?thesis by blast
    qed
  qed
  then show "keeps_xl s s' Us Rs" "ok \<Longrightarrow> tables s' R p = Some t" "ok \<Longrightarrow> \<not> flag_set (pg_mem s' t i) PAGE_HUGE"
    by auto
qed

lemma bit_sanitize: "n < 12 \<Longrightarrow> bit (c2_sanitize_page_flags s w) n \<longleftrightarrow> bit w n"
  by (auto simp: c2_sanitize_page_flags_def bit_and_iff bit_not64 bit_flags)

lemma bit_sanitize_imp: "bit (c2_sanitize_page_flags s w) n \<Longrightarrow> bit w n"
  by (auto simp: c2_sanitize_page_flags_def bit_and_iff split: if_splits)

lemma split_2m_spec:
  assumes sp: "space_ok s Us Rs" and sl: "slot s Us R p t i" and p: "length p = 2"
    and h: "flag_set (pg_mem s t i) PAGE_HUGE" and r: "paging_split_2m_huge s t i u = (s', ok)"
  shows "keeps_xl s s' Us Rs" and "ok \<Longrightarrow> tables s' R p = Some t" and "ok \<Longrightarrow> \<not> flag_set (pg_mem s' t i) PAGE_HUGE"
proof -
  let ?e = "pg_mem s t i" and ?c = "c2_sanitize_page_flags s ((pg_mem s t i AND 0xFFF) AND NOT PAGE_HUGE)"
  let ?lc = "PAGE_PRESENT OR PAGE_WRITABLE OR (if u then PAGE_USER else 0)"
  have e0: "flag_set ?e PAGE_PRESENT" using space_okD(5) [OF sp sl] p h by (simp add: huge_ok_def)
  have c1: "\<forall>n. bit ?c n \<longrightarrow> n < 12"
    unfolding low_mask by (auto simp: bit_and_iff bit_mask64 dest!: bit_sanitize_imp)
  have c23: "bit ?c 0" "bit ?c 7 \<longleftrightarrow> length p = 1"
    using e0 p unfolding low_mask flag_set_bit
    by (simp_all add: bit_sanitize bit_and_iff bit_mask64 bit_not64 bit_flags)
  have lc: "\<forall>n. bit ?lc n \<longrightarrow> n < 12" "bit ?lc 0" "\<not> bit ?lc 7" by (auto simp: user_flags)
  have sh: "piece_shift p = 12" using p by (simp add: piece_shift_def)
  have "keeps_xl s s' Us Rs \<and> (ok \<longrightarrow> tables s' R p = Some t \<and> \<not> flag_set (pg_mem s' t i) PAGE_HUGE)"
  proof (cases "c2_page_table_entry_phys_valid (ptotal s) ?e")
    case False
    with r h keeps_xl_refl [OF sp] show ?thesis by (simp add: paging_split_2m_huge_def)
  next
    case True
    obtain s1 nt where a: "alloc_page_table s = (s1, nt)" by (meson surj_pair)
    show ?thesis
    proof (cases "nt = 0")
      case z: True
      with r h True a alloc_page_table_spec(1) [OF space_okD(1) [OF sp] a] keeps_xl_refl [OF sp]
      show ?thesis by (auto simp: paging_split_2m_huge_def)
    next
      case nz: False
      have "s' = set_entry (s1\<lparr> pg_mem := fill512 (pg_mem s1) nt
          (\<lambda>k. split_piece ?e (piece_shift p) k ?c) \<rparr>) t i (DMAP_TO_PHYS nt OR ?lc)"
        using r h True a nz unfolding sh by (auto simp: paging_split_2m_huge_def Let_def split_piece_def)
      from split_step [OF sp sl disjI2 [OF p] h a nz c1 c23 lc this] show ?thesis by blast
    qed
  qed
  then show "keeps_xl s s' Us Rs" "ok \<Longrightarrow> tables s' R p = Some t" "ok \<Longrightarrow> \<not> flag_set (pg_mem s' t i) PAGE_HUGE"
    by auto
qed

subsection \<open>\<open>paging_map\<close>\<close>

text \<open>One level of \<open>paging_map\<close>: split if huge, then make sure of the next table.\<close>

definition level_step :: "(paging \<Rightarrow> u64 \<Rightarrow> nat \<Rightarrow> bool \<Rightarrow> paging \<times> bool) \<Rightarrow> paging \<Rightarrow> u64 \<Rightarrow> nat \<Rightarrow> bool
    \<Rightarrow> paging \<times> u64 option" where
  "level_step split s t i w =
     (case (if flag_set (pg_mem s t i) PAGE_HUGE then split s t i w else (s, True)) of
        (s1, False) \<Rightarrow> (s1, None)
      | (s1, True) \<Rightarrow> ensure_next s1 t i w)"

lemma level_case:
  "(case (case x of (s1, False) \<Rightarrow> (s1, None) | (s1, True) \<Rightarrow> f s1) of (s2, None) \<Rightarrow> A s2 | (s2, Some y) \<Rightarrow> B s2 y)
    = (case x of (s1, False) \<Rightarrow> A s1
       | (s1, True) \<Rightarrow> (case f s1 of (s2, None) \<Rightarrow> A s2 | (s2, Some y) \<Rightarrow> B s2 y))"
  by (cases x) (simp split: bool.split)

lemma paging_map_levels:
  "paging_map s r virt phys flags =
     (if \<not> c2_address_space_ready s r then (s, False)
      else if \<not> c2_user_paging_edit_allowed r virt then (s, False)
      else (case ensure_next s (as_pml4 (get_as s r)) (pt_index virt 39) (flag_set flags PAGE_USER) of
          (s1, None) \<Rightarrow> (s1, False)
        | (s1, Some pdpt) \<Rightarrow>
      (case level_step paging_split_1g_huge s1 pdpt (pt_index virt 30) (flag_set flags PAGE_USER) of
          (s2, None) \<Rightarrow> (s2, False)
        | (s2, Some pd) \<Rightarrow>
      (case level_step paging_split_2m_huge s2 pd (pt_index virt 21) (flag_set flags PAGE_USER) of
          (s3, None) \<Rightarrow> (s3, False)
        | (s3, Some pt) \<Rightarrow>
            (set_entry s3 pt (pt_index virt 12) (phys OR c2_sanitize_page_flags s flags), True)))))"
  unfolding paging_map_def level_step_def Let_def level_case by (rule refl)

lemma slot_keeps: "keeps_xl s s' Us Rs \<Longrightarrow> slot s Us R p t i \<Longrightarrow> tables s' R p = Some t \<Longrightarrow> slot s' Us R p t i"
  by (simp add: slot_at_def keeps_xl_def)

lemma level_step_spec:
  assumes sp: "space_ok s Us Rs" and sl: "slot s Us R p t i"
    and split: "split = paging_split_1g_huge \<and> length p = 1 \<or> split = paging_split_2m_huge \<and> length p = 2"
    and en: "level_step split s t i w = (s', r)"
  shows "keeps_xl s s' Us Rs" and "r = Some nt \<Longrightarrow> tables s' R (p @ [i]) = Some nt"
proof -
  have p: "length p \<le> 2" using split by auto
  obtain s1 ok where s1: "(if flag_set (pg_mem s t i) PAGE_HUGE then split s t i w else (s, True)) = (s1, ok)"
    by (meson surj_pair)
  have k: "keeps_xl s s1 Us Rs \<and> (ok \<longrightarrow> tables s1 R p = Some t \<and> \<not> flag_set (pg_mem s1 t i) PAGE_HUGE)"
  proof (cases "flag_set (pg_mem s t i) PAGE_HUGE")
    case True
    with s1 have "split s t i w = (s1, ok)" by simp
    with split split_1g_spec [OF sp sl _ True] split_2m_spec [OF sp sl _ True] show ?thesis by metis
  next
    case False
    with s1 keeps_xl_refl [OF sp] slot_desc [OF sl] show ?thesis by auto
  qed
  have "keeps_xl s s' Us Rs \<and> (\<forall>nt. r = Some nt \<longrightarrow> tables s' R (p @ [i]) = Some nt)"
  proof (cases ok)
    case False
    with en s1 k show ?thesis by (simp add: level_step_def)
  next
    case True
    then have e: "ensure_next s1 t i w = (s', r)" using en s1 by (simp add: level_step_def)
    have sl1: "slot s1 Us R p t i" using slot_keeps [OF _ sl] k True by blast
    have sp1: "space_ok s1 Us Rs" using k by (simp add: keeps_xl_def)
    have nh: "\<not> flag_set (pg_mem s1 t i) PAGE_HUGE" using k True by blast
    from ensure_next_spec [OF sp1 sl1 p nh e] keeps_xl_trans k show ?thesis by blast
  qed
  then show "keeps_xl s s' Us Rs" and "r = Some nt \<Longrightarrow> tables s' R (p @ [i]) = Some nt" by auto
qed

text \<open>Everything before the last write keeps all translations; on success the page's own slot
  has been reached.\<close>

definition edits_page :: "paging \<Rightarrow> paging \<Rightarrow> u64 set \<Rightarrow> u64 set \<Rightarrow> u64 \<Rightarrow> u64 \<Rightarrow> u64 \<Rightarrow> bool" where
  "edits_page s s' Us Rs R virt e \<longleftrightarrow>
     (\<exists>s1 p i t. keeps_xl s s1 Us Rs \<and> slot s1 Us R p t i \<and> idx virt = p @ [i]
        \<and> s' = set_entry s1 t i e)"

lemma paging_map_steps:
  assumes sp: "space_ok s Us Rs" and R: "R = as_pml4 (get_as s r)" "R \<in> Us" and low: "pt_index virt 39 < 256"
    and m: "paging_map s r virt phys flags = (s', b)"
  shows "(if b then edits_page s s' Us Rs R virt (phys OR c2_sanitize_page_flags s flags) else keeps_xl s s' Us Rs)"
proof (cases "c2_address_space_ready s r \<and> c2_user_paging_edit_allowed r virt")
  case False
  then have "(s, False) = (s', b)" using m by (cases "c2_address_space_ready s r") (simp_all add: paging_map_levels)
  then show ?thesis using keeps_xl_refl [OF sp] by auto
next
  case en: True
  let ?w = "flag_set flags PAGE_USER"
  let ?a = "pt_index virt 39" and ?b = "pt_index virt 30" and ?c = "pt_index virt 21" and ?d = "pt_index virt 12"
  have sl: "slot s Us R [] R ?a" using R low by (simp add: slot_at_def low_path_def)
  obtain s1 r1 where e1: "ensure_next s R ?a ?w = (s1, r1)" by (meson surj_pair)
  note k1 = ensure_next_spec [OF sp sl _ _ e1, simplified]
  show ?thesis
  proof (cases r1)
    case None
    with m en e1 k1 show ?thesis by (simp add: paging_map_levels R(1))
  next
    case (Some pdpt)
    have sp1: "space_ok s1 Us Rs" using k1(1) by (simp add: keeps_xl_def)
    have sl1: "slot s1 Us R [?a] pdpt ?b"
      using k1(2) Some R(2) low by (simp add: slot_at_def low_path_def tpath_ok_def)
    obtain s2 r2 where e2: "level_step paging_split_1g_huge s1 pdpt ?b ?w = (s2, r2)" by (meson surj_pair)
    note k2 = level_step_spec [OF sp1 sl1 _ e2, simplified]
    have k12: "keeps_xl s s2 Us Rs" using keeps_xl_trans k1(1) k2(1) by blast
    show ?thesis
    proof (cases r2)
      case None
      with m en e1 Some e2 k12 show ?thesis by (simp add: paging_map_levels R(1))
    next
      case Some2: (Some pd)
      have sp2: "space_ok s2 Us Rs" using k2(1) by (simp add: keeps_xl_def)
      have sl2: "slot s2 Us R [?a, ?b] pd ?c"
        using k2(2) Some2 R(2) low by (simp add: slot_at_def low_path_def tpath_ok_def)
      obtain s3 r3 where e3: "level_step paging_split_2m_huge s2 pd ?c ?w = (s3, r3)" by (meson surj_pair)
      note k3 = level_step_spec [OF sp2 sl2 _ e3, simplified]
      have k13: "keeps_xl s s3 Us Rs" using keeps_xl_trans k12 k3(1) by blast
      show ?thesis
      proof (cases r3)
        case None
        with m en e1 Some e2 Some2 e3 k13 show ?thesis by (simp add: paging_map_levels R(1))
      next
        case Some3: (Some pt)
        have "slot s3 Us R [?a, ?b, ?c] pt ?d"
          using k3(2) Some3 R(2) low by (simp add: slot_at_def low_path_def tpath_ok_def)
        moreover have "idx virt = [?a, ?b, ?c] @ [?d]" by (simp add: idx_def)
        moreover have "s' = set_entry s3 pt ?d (phys OR c2_sanitize_page_flags s flags) \<and> b"
          using m en e1 Some e2 Some2 e3 Some3 by (auto simp: paging_map_levels R(1))
        ultimately show ?thesis unfolding edits_page_def using k13 by auto
      qed
    qed
  qed
qed

lemma edits_page_effect:
  assumes ed: "edits_page s s' Us Rs R virt e" and Us: "Us \<subseteq> Rs"
  shows "space_ok s' Us Rs" and "ptotal s' = ptotal s" and "get_as s' r = get_as s r"
    and "walk (ptotal s') (pg_mem s') R (idx virt) = Some (e, 0)"
    and "R' \<in> Rs \<Longrightarrow> xl s' R' w = (if R' = R \<and> idx w = idx virt then translate_of w (Some (e, 0)) else xl s R' w)"
proof -
  obtain s1 p i t where s1: "keeps_xl s s1 Us Rs" "slot s1 Us R p t i" "idx virt = p @ [i]"
      "s' = set_entry s1 t i e"
    using ed by (auto simp: edits_page_def)
  have len: "length p = 3" using idx_split [of virt p i "[]"] s1(3) by simp
  have S: "space_ok s' Us Rs" "tables s' R p = Some t"
      "\<And>R' v. R' \<in> Rs \<Longrightarrow> \<not> passes R p i R' (idx v) \<Longrightarrow> xl s' R' v = xl s1 R' v"
    using same_step [of s1 Us Rs R p t i e] s1(1,2) len unfolding s1(4) by (auto simp: keeps_xl_def)
  show "space_ok s' Us Rs" by (rule S(1))
  show "ptotal s' = ptotal s" "get_as s' r = get_as s r"
    using s1(1) by (simp_all add: s1(4) keeps_xl_def get_as_def split: as_ref.split)
  show w: "walk (ptotal s') (pg_mem s') R (idx virt) = Some (e, 0)"
    unfolding s1(3) using walk_desc [OF S(2), of "[i]"] by (simp add: s1(4))
  show "xl s' R' w = (if R' = R \<and> idx w = idx virt then translate_of w (Some (e, 0)) else xl s R' w)" if "R' \<in> Rs"
  proof (cases "R' = R \<and> idx w = idx virt")
    case True
    with w show ?thesis by (simp add: xl_def)
  next
    case False
    have "\<not> passes R p i R' (idx w)"
    proof
      assume "passes R p i R' (idx w)"
      then obtain rest where "R' = R" "idx w = p @ i # rest" by (auto simp: passes_def)
      then show False using False s1(3) len idx_split [of w p i rest] by auto
    qed
    with False S(3) that s1(1) show ?thesis by (auto simp: keeps_xl_def)
  qed
qed

text \<open>What a lookup returns after a page's entry was written.\<close>

definition page_entry_xl :: "u64 \<Rightarrow> u64 \<Rightarrow> u64" where
  "page_entry_xl e w = (if flag_set e PAGE_PRESENT then (e AND C2_PTE_ADDR_MASK) OR (w AND 0xFFF) else 0)"

definition page_written :: "paging \<Rightarrow> paging \<Rightarrow> u64 set \<Rightarrow> u64 set \<Rightarrow> as_ref \<Rightarrow> u64 \<Rightarrow> u64 \<Rightarrow> bool" where
  "page_written s s' Us Rs r virt e \<longleftrightarrow>
     space_ok s' Us Rs \<and> paging_get_entry s' r virt = e
     \<and> (\<forall>r' w. as_pml4 (get_as s r') \<in> Rs \<longrightarrow> paging_translate s' r' w =
          (if as_pml4 (get_as s r') = as_pml4 (get_as s r) \<and> idx w = idx virt
           then page_entry_xl e w else paging_translate s r' w))"

definition no_page_changed :: "paging \<Rightarrow> paging \<Rightarrow> u64 set \<Rightarrow> u64 set \<Rightarrow> bool" where
  "no_page_changed s s' Us Rs \<longleftrightarrow>
     space_ok s' Us Rs
     \<and> (\<forall>r' w. as_pml4 (get_as s r') \<in> Rs \<longrightarrow> paging_translate s' r' w = paging_translate s r' w)"

lemma ready_cong:
  "ptotal s' = ptotal s \<Longrightarrow> get_as s' r = get_as s r \<Longrightarrow> c2_address_space_ready s' r = c2_address_space_ready s r"
  by (simp add: c2_address_space_ready_def)

lemma ready_root:
  "r \<noteq> NullAS \<Longrightarrow> r' \<noteq> NullAS \<Longrightarrow> as_pml4 (get_as s r) = as_pml4 (get_as s r') \<Longrightarrow>
     c2_address_space_ready s r = c2_address_space_ready s r'"
  by (simp add: c2_address_space_ready_def)

lemma null_not_ready: "c2_address_space_ready s r \<Longrightarrow> as_pml4 (get_as s r) = as_pml4 (get_as s r') \<Longrightarrow> r' \<noteq> NullAS"
  by (auto simp: c2_address_space_ready_def get_as_def c2_dmap_page_table_ptr_valid_def)

lemma page_writtenI:
  assumes ed: "edits_page s s' Us Rs (as_pml4 (get_as s r)) virt e" and Us: "Us \<subseteq> Rs"
    and rd: "c2_address_space_ready s r"
  shows "page_written s s' Us Rs r virt e"
proof -
  note E = edits_page_effect [OF ed Us]
  have rdy: "c2_address_space_ready s' r' = c2_address_space_ready s r'" for r'
    by (rule ready_cong [OF E(2,3)])
  have "paging_get_entry s' r virt = e" using rd E(4) by (simp add: get_entry_walk rdy E(3))
  moreover have "paging_translate s' r' w =
      (if as_pml4 (get_as s r') = as_pml4 (get_as s r) \<and> idx w = idx virt then page_entry_xl e w
       else paging_translate s r' w)" if R': "as_pml4 (get_as s r') \<in> Rs" for r' w
  proof (cases "as_pml4 (get_as s r') = as_pml4 (get_as s r)")
    case True
    have "r' \<noteq> NullAS" by (rule null_not_ready [OF rd True [symmetric]])
    moreover have "r \<noteq> NullAS" by (rule null_not_ready [OF rd refl])
    ultimately have "c2_address_space_ready s r'" using ready_root [OF _ _ True] rd by blast
    with True E(5) [OF R', of w] show ?thesis
      by (simp add: translate_walk rdy E(3)) (simp add: translate_of_def page_entry_xl_def)
  next
    case False
    with E(5) [OF R', of w] show ?thesis by (simp add: translate_walk rdy E(3))
  qed
  ultimately show ?thesis using E(1) by (simp add: page_written_def)
qed

lemma no_page_changedI:
  assumes "keeps_xl s s' Us Rs"
  shows "no_page_changed s s' Us Rs"
proof -
  have g: "get_as s' r = get_as s r" for r
    using assms by (simp add: keeps_xl_def get_as_def split: as_ref.split)
  moreover have "c2_address_space_ready s' r = c2_address_space_ready s r" for r
    using ready_cong [OF _ g] assms by (simp add: keeps_xl_def)
  ultimately show ?thesis using assms by (simp add: no_page_changed_def translate_walk keeps_xl_def)
qed

subsection \<open>Success\<close>

text \<open>An empty entry is linked to an empty table, at the cost of one frame.\<close>

lemma ensure_fresh:
  assumes sp: "space_ok s Us Rs" and sl: "slot s Us R p t i"
    and e: "\<not> flag_set (pg_mem s t i) PAGE_PRESENT" and fr: "free_frames (pg_pmm s) \<noteq> {}"
  shows "\<exists>s' nt. ensure_next s t i w = (s', Some nt) \<and> pg_mem s' nt = (\<lambda>_. 0)
    \<and> card (free_frames (pg_pmm s)) \<le> Suc (card (free_frames (pg_pmm s')))"
proof -
  note D = space_okD [OF sp]
  obtain s1 nt where a: "alloc_page_table s = (s1, nt)" by (meson surj_pair)
  note A = alloc_page_table_spec [OF D(1) a]
  have nz: "nt \<noteq> 0" using A(3) fr by blast
  obtain f P where f: "nt = PHYS_TO_DMAP f" "f \<in> free_frames (pg_pmm s)" "page_addr f"
      "unat f < unat (ptotal s) * 4096" "s1 = s\<lparr> pg_pmm := P, pg_mem := (pg_mem s)(nt := (\<lambda>_. 0)) \<rparr>"
      "g_pmm_total P = ptotal s" "free_frames P = free_frames (pg_pmm s) - {f}"
    using A(2) [OF nz] by blast
  let ?c = "PAGE_PRESENT OR PAGE_WRITABLE OR PAGE_USER"
  have c: "\<And>n. bit ?c n \<Longrightarrow> n < 12" "bit ?c 0" "\<not> bit ?c 7" by (auto simp: link_flags)
  have "next_table s (f OR ?c) = Some nt"
    using link_next(1) [OF f(3,4) pmm_okD(1) [OF D(1)] D(2), of ?c] c f(1) by simp
  moreover have "t \<noteq> nt" using D(4) [of R p t] D(6) sl f(1,2) by (auto simp: slot_at_def)
  moreover have "card (free_frames (pg_pmm s)) \<le> Suc (card (free_frames (pg_pmm s) - {f}))"
    using card_Suc_Diff1 [OF _ f(2)] by (simp add: free_frames_def)
  ultimately show ?thesis
    using e nz a f(1,5,6,7) by (auto simp: ensure_next_def Let_def)
qed

lemma level_step_empty:
  "\<not> flag_set (pg_mem s t i) PAGE_HUGE \<Longrightarrow> level_step split s t i w = ensure_next s t i w"
  by (simp add: level_step_def)

lemma paging_map_fresh:
  assumes sp: "space_ok s Us Rs" and R: "R = as_pml4 (get_as s r)" "R \<in> Us" and low: "pt_index virt 39 < 256"
    and ok: "c2_address_space_ready s r" "c2_user_paging_edit_allowed r virt"
    and e: "\<not> flag_set (pg_mem s R (pt_index virt 39)) PAGE_PRESENT"
    and fr: "3 \<le> card (free_frames (pg_pmm s))"
  shows "snd (paging_map s r virt phys flags)"
proof -
  let ?w = "flag_set flags PAGE_USER"
  let ?a = "pt_index virt 39" and ?b = "pt_index virt 30" and ?c = "pt_index virt 21" and ?d = "pt_index virt 12"
  have sl: "slot s Us R [] R ?a" using R low by (simp add: slot_at_def low_path_def)
  have "free_frames (pg_pmm s) \<noteq> {}" using fr by auto
  from ensure_fresh [OF sp sl e this] obtain s1 pdpt where e1: "ensure_next s R ?a ?w = (s1, Some pdpt)"
      "pg_mem s1 pdpt = (\<lambda>_. 0)" "2 \<le> card (free_frames (pg_pmm s1))" using fr by fastforce
  have k1: "keeps_xl s s1 Us Rs" "tables s1 R [?a] = Some pdpt"
    using ensure_next_spec [OF sp sl _ _ e1(1)] by (simp_all del: desc.simps)
  have sp1: "space_ok s1 Us Rs" using k1(1) by (simp add: keeps_xl_def)
  have sl1: "slot s1 Us R [?a] pdpt ?b" using k1(2) R(2) low by (simp add: slot_at_def low_path_def tpath_ok_def)
  have z1: "\<not> flag_set (pg_mem s1 pdpt ?b) PAGE_PRESENT" "\<not> flag_set (pg_mem s1 pdpt ?b) PAGE_HUGE"
    by (simp_all add: e1(2))
  have "free_frames (pg_pmm s1) \<noteq> {}" using e1(3) by auto
  from ensure_fresh [OF sp1 sl1 z1(1) this] obtain s2 pd where e2: "ensure_next s1 pdpt ?b ?w = (s2, Some pd)"
      "pg_mem s2 pd = (\<lambda>_. 0)" "1 \<le> card (free_frames (pg_pmm s2))" using e1(3) by fastforce
  have k2: "keeps_xl s1 s2 Us Rs" "tables s2 R [?a, ?b] = Some pd"
    using ensure_next_spec [OF sp1 sl1 _ _ e2(1)] z1(2) by (simp_all del: desc.simps)
  have sp2: "space_ok s2 Us Rs" using k2(1) by (simp add: keeps_xl_def)
  have sl2: "slot s2 Us R [?a, ?b] pd ?c"
    using k2(2) R(2) low by (simp add: slot_at_def low_path_def tpath_ok_def)
  have z2: "\<not> flag_set (pg_mem s2 pd ?c) PAGE_PRESENT" "\<not> flag_set (pg_mem s2 pd ?c) PAGE_HUGE"
    by (simp_all add: e2(2))
  have "free_frames (pg_pmm s2) \<noteq> {}" using e2(3) by auto
  from ensure_fresh [OF sp2 sl2 z2(1) this] obtain s3 pt where e3: "ensure_next s2 pd ?c ?w = (s3, Some pt)"
    by blast
  show ?thesis
    using ok e1(1) e2(1) e3 by (simp add: paging_map_levels R(1) [symmetric] level_step_empty z1(2) z2(2))
qed

subsection \<open>Unmapping and rewriting an entry\<close>

text \<open>The page's last-level table, if the walk gets there.\<close>

definition leaf_table :: "paging \<Rightarrow> as_ref \<Rightarrow> u64 \<Rightarrow> u64 option" where
  "leaf_table s r virt = tables s (as_pml4 (get_as s r)) (butlast (idx virt))"

lemma huge_no_next: "flag_set e PAGE_HUGE \<Longrightarrow> nxt tot e = None"
  by (simp add: c2_page_table_from_entry_def)

lemma unmap_leaf:
  "paging_unmap s r virt =
     (if \<not> c2_address_space_ready s r then (s, False)
      else if \<not> c2_user_paging_edit_allowed r virt then (s, False)
      else (case leaf_table s r virt of None \<Rightarrow> (s, False)
        | Some pt \<Rightarrow> (set_entry s pt (pt_index virt 12) 0, True)))"
  by (auto simp: paging_unmap_def Let_def not_present_next huge_no_next leaf_table_def idx_def split: option.split)

lemma set_entry_leaf:
  "paging_set_entry s r virt e =
     (if \<not> c2_address_space_ready s r then (s, False)
      else if \<not> c2_user_paging_edit_allowed r virt then (s, False)
      else (case leaf_table s r virt of None \<Rightarrow> (s, False)
        | Some pt \<Rightarrow> (set_entry s pt (pt_index virt 12) (c2_sanitize_page_flags s e), True)))"
  by (auto simp: paging_set_entry_def Let_def not_present_next huge_no_next leaf_table_def idx_def split: option.split)

lemma leaf_edits:
  assumes sp: "space_ok s Us Rs" and R: "as_pml4 (get_as s r) \<in> Us" and low: "pt_index virt 39 < 256"
    and l: "leaf_table s r virt = Some pt"
  shows "edits_page s (set_entry s pt (pt_index virt 12) e) Us Rs (as_pml4 (get_as s r)) virt e"
proof -
  have "slot s Us (as_pml4 (get_as s r)) (butlast (idx virt)) pt (pt_index virt 12)"
    using l R low by (simp add: leaf_table_def slot_at_def idx_def tpath_ok_def low_path_def)
  moreover have "idx virt = butlast (idx virt) @ [pt_index virt 12]" by (simp add: idx_def)
  ultimately show ?thesis unfolding edits_page_def using keeps_xl_refl [OF sp] by blast
qed

lemma leaf_edit_result:
  assumes sp: "space_ok s Us Rs" and R: "as_pml4 (get_as s r) \<in> Us" and low: "pt_index virt 39 < 256"
    and op: "op = (if \<not> c2_address_space_ready s r then (s, False)
      else if \<not> c2_user_paging_edit_allowed r virt then (s, False)
      else (case leaf_table s r virt of None \<Rightarrow> (s, False)
        | Some pt \<Rightarrow> (set_entry s pt (pt_index virt 12) e, True)))"
  shows "(snd op \<longleftrightarrow> c2_address_space_ready s r \<and> c2_user_paging_edit_allowed r virt \<and> leaf_table s r virt \<noteq> None)
    \<and> (if snd op then page_written s (fst op) Us Rs r virt e else fst op = s)"
  using page_writtenI [OF leaf_edits [OF sp R low] space_okD(6) [OF sp]]
  by (auto simp: op split: option.split)

subsection \<open>Address-space release\<close>

text \<open>The PML4 of every created space was marked as a page-table frame by
  \<open>alloc_page_table\<close>, and \<open>pmm_free_frame\<close> refuses those: destroying the space gives no
  memory back.\<close>

lemma destroy_keeps_frames:
  assumes "pmm_is_page_table_frame (pg_pmm s) (DMAP_TO_PHYS (as_pml4 (g_spaces s k)) AND NOT (PAGE_SIZE - 1))"
  shows "pg_pmm (paging_destroy_address_space s (UserAS k)) = pg_pmm s"
  using pmm_free_refused [OF assms] by (simp add: paging_destroy_address_space_def Let_def)

subsection \<open>A concrete state\<close>

text \<open>One user space with an empty root table at 1 MiB, below the allocation base.\<close>

definition paging_example :: paging where
  "paging_example = \<lparr> pg_pmm = pmm_init pmm_example 0x800000, pg_mem = (\<lambda>_ _. 0),
     g_kernel_as = \<lparr> as_pml4 = 0, as_cr3_phys = 0 \<rparr>,
     g_spaces = (\<lambda>_. \<lparr> as_pml4 = DMAP_BASE + 0x100000, as_cr3_phys = 0x100000 \<rparr>),
     next_space = 1, g_paging_nx_enabled = True \<rparr>"

abbreviation example_root :: u64 where "example_root \<equiv> DMAP_BASE + 0x100000"

lemma pmm_example_ok: "pmm_ok (pmm_init pmm_example 0x800000)"
  by (rule pmm_init_spec(1)) (simp_all add: pmm_example_simps)

lemma desc_zero: "desc tot (\<lambda>_ _. 0) R q = Some t \<Longrightarrow> q = [] \<and> t = R"
  by (cases q) (simp_all add: zero_table)

lemma paging_example_ok:
  assumes "unat (g_pmm_total (pmm_init pmm_example 0x800000)) = 2048"
    and "g_pmm_base (pmm_init pmm_example 0x800000) = 0x200000"
  shows "space_ok paging_example {example_root} {example_root}"
proof -
  let ?p = "pmm_init pmm_example 0x800000"
  have "(0x100000 :: u64) \<notin> free_frames ?p"
  proof
    assume "0x100000 \<in> free_frames ?p"
    then obtain i where i: "0x100000 = frame_addr i" "i \<in> unused ?p" by (auto simp: free_frames_def)
    have "i * 4096 = unat (frame_addr i)"
      using unused_bounds [OF pmm_example_ok i(2)] by (subst unat_frame_addr) simp_all
    then have "i * 4096 = 0x100000" unfolding i(1) [symmetric] by simp
    moreover have "512 \<le> i" using unused_bounds [OF pmm_example_ok i(2)] assms(2) by (simp add: base_idx_def)
    ultimately show False by simp
  qed
  moreover have "ptotal paging_example \<noteq> 0" using assms(1) by (auto simp: paging_example_def)
  ultimately show ?thesis
    using pmm_example_ok
    by (auto simp: space_ok_def unshared_def paging_example_def slot_at_def dest!: desc_zero)
qed

lemma pmm_example_total: "unat (g_pmm_total (pmm_init pmm_example 0x800000)) = 2048"
proof -
  have "g_pmm_memory_limit pmm_example = 0"
    by (simp add: pmm_example_def pmm_add_usable_range_def pmm_set_alloc_base_def pmm_boot_def Let_def)
  then have "g_pmm_total (pmm_init pmm_example 0x800000) = (ucast ((0x800000 :: u64) div PAGE_SIZE) :: u32)"
    by (simp add: pmm_init_def Let_def PAGE_SIZE_def PMM_MAX_PAGES_def split: prod.split)
  then show ?thesis by (simp add: PAGE_SIZE_def)
qed

lemma pmm_example_base: "g_pmm_base (pmm_init pmm_example 0x800000) = 0x200000"
  by (subst pmm_init_spec(2)) (simp_all add: pmm_example_simps)

lemma pmm_example_free: "3 \<le> card (free_frames (pmm_init pmm_example 0x800000))"
proof -
  let ?p = "pmm_init pmm_example 0x800000"
  have "unused ?p = {i. i < unat (g_pmm_total ?p) \<and> base_idx pmm_example \<le> i
      \<and> (g_pmm_usable_ranges pmm_example = [] \<or> (\<exists>r \<in> set (g_pmm_usable_ranges pmm_example). range_covers r i))}"
    by (rule pmm_init_spec(3)) (simp_all add: pmm_example_simps)
  then have "unused ?p = {i. i < 2048 \<and> 512 \<le> i \<and> range_covers (0, 0x400000) i}"
    using pmm_example_total by (simp add: pmm_example_simps base_idx_def)
  then have sub: "{512, 513, 514} \<subseteq> unused ?p" by (auto simp: range_covers_def)
  have "card (free_frames ?p) = card (unused ?p)"
    unfolding free_frames_def
    by (rule card_image, rule inj_on_subset [OF unused_inj [OF pmm_example_ok]]) (auto simp: unused_def)
  moreover have "card {512, 513, 514 :: nat} \<le> card (unused ?p)" by (rule card_mono [OF _ sub]) simp
  ultimately show ?thesis by simp
qed

lemma paging_example_space: "space_ok paging_example {example_root} {example_root}"
  by (rule paging_example_ok [OF pmm_example_total pmm_example_base])

lemma paging_example_root: "as_pml4 (get_as paging_example (UserAS 0)) = example_root"
  by (simp add: get_as_def paging_example_def)

lemma paging_example_ready: "c2_address_space_ready paging_example (UserAS 0)"
proof -
  have "c2_phys_frame_in_range (ptotal paging_example) 0x100000"
  proof -
    have "ptotal paging_example = 2048"
      using pmm_example_total by (simp add: paging_example_def word_unat_eq_iff)
    then show ?thesis by (simp add: c2_phys_frame_in_range_def PAGE_SIZE_def)
  qed
  then show ?thesis
    by (simp add: c2_address_space_ready_def paging_example_root c2_dmap_page_table_ptr_valid_def
        DMAP_BASE_def PAGE_SIZE_def)
qed

text \<open>The address of the examples, its indices, and an entry for a present writable user page.\<close>

lemma example_virt: "pt_index 0x40000000 39 = 0" "c2_user_paging_edit_allowed (UserAS 0) 0x40000000"
  by (simp_all add: pt_index_def drop_bit_eq_div c2_user_paging_edit_allowed_def RIDUX_USER_LOW_SAFE_def)

subsection \<open>Properties\<close>

text \<open>C23: mapping a page below the kernel half of a well-formed user space keeps the spaces
  well formed whatever it returns.  If it returns true, the page's entry is the physical
  address with the sanitised flags, exactly the addresses of that page in that space translate
  by it, and every other address of this and of all other spaces translates as before; huge
  pages on the way are split without any address noticing.  If it returns false, no
  translation in any space has changed.\<close>

theorem paging_map_correct:
  assumes "space_ok s Us Rs" and "as_pml4 (get_as s r) \<in> Us" and "pt_index virt 39 < 256"
    and "paging_map s r virt phys flags = (s', b)"
  shows "if b then page_written s s' Us Rs r virt (phys OR c2_sanitize_page_flags s flags)
         else no_page_changed s s' Us Rs"
proof (cases b)
  case True
  then have "c2_address_space_ready s r" using assms(4) by (auto simp: paging_map_levels split: if_splits)
  with True show ?thesis
    using paging_map_steps [OF assms(1) refl assms(2-4)] page_writtenI space_okD(6) [OF assms(1)] by auto
next
  case False
  then show ?thesis using paging_map_steps [OF assms(1) refl assms(2-4)] no_page_changedI by auto
qed

theorem paging_map_correct_witness:
  "\<exists>s' b. paging_map paging_example (UserAS 0) 0x40000000 0x300000 7 = (s', b)
    \<and> (if b then page_written paging_example s' {example_root} {example_root} (UserAS 0) 0x40000000
          (0x300000 OR c2_sanitize_page_flags paging_example 7)
       else no_page_changed paging_example s' {example_root} {example_root})"
proof -
  obtain s' b where m: "paging_map paging_example (UserAS 0) 0x40000000 0x300000 7 = (s', b)" by (meson surj_pair)
  have "as_pml4 (get_as paging_example (UserAS 0)) \<in> {example_root}" by (simp add: paging_example_root)
  from paging_map_correct [OF paging_example_space this _ m] m show ?thesis by (auto simp: example_virt)
qed

text \<open>When the page's top-level entry is empty and three frames are free, \<open>paging_map\<close>
  succeeds, and a lookup of the page returns the physical address it was given (for a
  page-aligned address and a present entry).\<close>

theorem paging_map_succeeds:
  assumes "space_ok s Us Rs" and "as_pml4 (get_as s r) \<in> Us" and "pt_index virt 39 < 256"
    and "c2_address_space_ready s r" and "c2_user_paging_edit_allowed r virt"
    and "\<not> flag_set (pg_mem s (as_pml4 (get_as s r)) (pt_index virt 39)) PAGE_PRESENT"
    and "3 \<le> card (free_frames (pg_pmm s))"
    and "page_addr phys" and "flag_set flags PAGE_PRESENT" and "flags AND C2_PTE_ADDR_MASK = 0"
  shows "\<exists>s'. paging_map s r virt phys flags = (s', True)
    \<and> paging_translate s' r virt = phys OR (virt AND 0xFFF)"
proof -
  obtain s' b where m: "paging_map s r virt phys flags = (s', b)" by (meson surj_pair)
  have b: b using paging_map_fresh [OF assms(1) refl assms(2-7), of phys flags] m by simp
  let ?e = "phys OR c2_sanitize_page_flags s flags"
  have fl: "\<not> (bit flags n \<and> 12 \<le> n \<and> n < 52)" for n
    using arg_cong [OF assms(10), of "\<lambda>w. bit w n"] by (auto simp: bit_and_iff bit_addr)
  have w: "page_written s s' Us Rs r virt ?e"
    using paging_map_steps [OF assms(1) refl assms(2,3) m] b page_writtenI space_okD(6) [OF assms(1)] assms(4) by auto
  have p: "flag_set ?e PAGE_PRESENT"
    using assms(9) unfolding flag_set_bit by (simp add: bit_or_iff bit_sanitize)
  have "?e AND C2_PTE_ADDR_MASK = phys"
  proof (rule eq_bits64)
    fix n :: nat
    show "bit (?e AND C2_PTE_ADDR_MASK) n \<longleftrightarrow> bit phys n"
      using fl [of n] page_addr_bits [OF assms(8), of n] bit_sanitize_imp [of s flags n]
      by (auto simp: bit_and_iff bit_or_iff bit_addr)
  qed
  then have "page_entry_xl ?e virt = phys OR (virt AND 0xFFF)" using p by (simp add: page_entry_xl_def)
  then have "paging_translate s' r virt = phys OR (virt AND 0xFFF)"
    using w space_okD(6) [OF assms(1)] assms(2) by (auto simp: page_written_def)
  with m b show ?thesis by simp
qed

theorem paging_map_succeeds_witness:
  "\<exists>s'. paging_map paging_example (UserAS 0) 0x40000000 0x300000 7 = (s', True)
    \<and> paging_translate s' (UserAS 0) 0x40000000 = 0x300000 OR (0x40000000 AND 0xFFF)"
proof -
  have "as_pml4 (get_as paging_example (UserAS 0)) \<in> {example_root}" by (simp add: paging_example_root)
  moreover have "\<not> flag_set (pg_mem paging_example (as_pml4 (get_as paging_example (UserAS 0))) (pt_index 0x40000000 39)) PAGE_PRESENT"
    by (simp add: paging_example_def)
  moreover have "3 \<le> card (free_frames (pg_pmm paging_example))" using pmm_example_free by (simp add: paging_example_def)
  moreover have "page_addr 0x300000" by (rule page_addr_unat) simp_all
  ultimately show ?thesis
    by (intro paging_map_succeeds [OF paging_example_space _ _ paging_example_ready example_virt(2)])
       (simp_all add: example_virt PAGE_PRESENT_def C2_PTE_ADDR_MASK_def)
qed

text \<open>C24: \<open>paging_unmap\<close> returns true exactly when the space is usable, the edit is allowed and
  the walk reaches a last-level table; then the page no longer translates and everything else
  is as before.  Otherwise (a missing table or a huge page on the way) the state is unchanged.\<close>

theorem paging_unmap_correct:
  assumes "space_ok s Us Rs" and "as_pml4 (get_as s r) \<in> Us" and "pt_index virt 39 < 256"
    and "paging_unmap s r virt = (s', b)"
  shows "(b \<longleftrightarrow> c2_address_space_ready s r \<and> c2_user_paging_edit_allowed r virt \<and> leaf_table s r virt \<noteq> None)
    \<and> (if b then page_written s s' Us Rs r virt 0 else s' = s)"
  using leaf_edit_result [OF assms(1-3) unmap_leaf [of s r virt]] unfolding assms(4) fst_conv snd_conv .

theorem paging_unmap_correct_witness:
  "\<exists>s' b. paging_unmap paging_example (UserAS 0) 0x40000000 = (s', b)
    \<and> (b \<longleftrightarrow> c2_address_space_ready paging_example (UserAS 0) \<and> c2_user_paging_edit_allowed (UserAS 0) 0x40000000
          \<and> leaf_table paging_example (UserAS 0) 0x40000000 \<noteq> None)
    \<and> (if b then page_written paging_example s' {example_root} {example_root} (UserAS 0) 0x40000000 0
       else s' = paging_example)"
proof -
  obtain s' b where m: "paging_unmap paging_example (UserAS 0) 0x40000000 = (s', b)" by (meson surj_pair)
  have "as_pml4 (get_as paging_example (UserAS 0)) \<in> {example_root}" by (simp add: paging_example_root)
  from paging_unmap_correct [OF paging_example_space this _ m] m show ?thesis by (auto simp: example_virt)
qed

text \<open>\<open>paging_set_entry\<close> succeeds under the same condition, then the page's entry reads
  back as the sanitised value and translates by it, and nothing else changes; otherwise the
  state is unchanged.\<close>

theorem paging_set_entry_correct:
  assumes "space_ok s Us Rs" and "as_pml4 (get_as s r) \<in> Us" and "pt_index virt 39 < 256"
    and "paging_set_entry s r virt e = (s', b)"
  shows "(b \<longleftrightarrow> c2_address_space_ready s r \<and> c2_user_paging_edit_allowed r virt \<and> leaf_table s r virt \<noteq> None)
    \<and> (if b then page_written s s' Us Rs r virt (c2_sanitize_page_flags s e) else s' = s)"
  using leaf_edit_result [OF assms(1-3) set_entry_leaf [of s r virt e]] unfolding assms(4) fst_conv snd_conv .

theorem paging_set_entry_correct_witness:
  "\<exists>s' b. paging_set_entry paging_example (UserAS 0) 0x40000000 0x300007 = (s', b)
    \<and> (b \<longleftrightarrow> c2_address_space_ready paging_example (UserAS 0) \<and> c2_user_paging_edit_allowed (UserAS 0) 0x40000000
          \<and> leaf_table paging_example (UserAS 0) 0x40000000 \<noteq> None)
    \<and> (if b then page_written paging_example s' {example_root} {example_root} (UserAS 0) 0x40000000
            (c2_sanitize_page_flags paging_example 0x300007)
       else s' = paging_example)"
proof -
  obtain s' b where m: "paging_set_entry paging_example (UserAS 0) 0x40000000 0x300007 = (s', b)" by (meson surj_pair)
  have "as_pml4 (get_as paging_example (UserAS 0)) \<in> {example_root}" by (simp add: paging_example_root)
  from paging_set_entry_correct [OF paging_example_space this _ m] m show ?thesis by (auto simp: example_virt)
qed

end
