(* ===== verification/KTask.thy ===== *)
theory KTask
  imports Paging RoundRobin
begin

text \<open>
  Tasks of \<^verbatim>\<open>src/compat/memory_tasks.c\<close>: the task table, per-process descriptor tables and
  the groups that share them (\<^verbatim>\<open>linux_syscalls.c\<close>), waking, exit and the reparenting of
  children.  Serial traces and the trace counters are left out; the code that releases the
  object behind a descriptor (pipe, socket, ...) is another component, so the release is
  recorded in a log in the order the code asks for it.  Process numbers are unbounded
  integers: the C counter overflows after \<open>2 ^ 31\<close> tasks.
\<close>

subsection \<open>Data\<close>

record cpu_context =
  c_rax :: u64  c_rbx :: u64  c_rcx :: u64  c_rdx :: u64  c_rsi :: u64  c_rdi :: u64  c_rbp :: u64
  c_r8 :: u64  c_r9 :: u64  c_r10 :: u64  c_r11 :: u64  c_r12 :: u64  c_r13 :: u64  c_r14 :: u64  c_r15 :: u64
  c_rip :: u64  c_rsp :: u64  c_rflags :: u64  c_cs :: u64  c_ss :: u64  c_fs_base :: u64  c_gs_base :: u64

definition zero_context :: cpu_context where
  "zero_context = \<lparr> c_rax = 0, c_rbx = 0, c_rcx = 0, c_rdx = 0, c_rsi = 0, c_rdi = 0, c_rbp = 0,
     c_r8 = 0, c_r9 = 0, c_r10 = 0, c_r11 = 0, c_r12 = 0, c_r13 = 0, c_r14 = 0, c_r15 = 0,
     c_rip = 0, c_rsp = 0, c_rflags = 0, c_cs = 0, c_ss = 0, c_fs_base = 0, c_gs_base = 0 \<rparr>"

datatype task_state = TASK_FREE | TASK_RUNNABLE | TASK_RUNNING | TASK_SLEEPING | TASK_STOPPED | TASK_ZOMBIE

definition TASK_KERNEL_STACK :: u64 where "TASK_KERNEL_STACK = 32768"
definition TASK_USER_STACK :: nat where "TASK_USER_STACK = 8 * 1024 * 1024"
definition TASK_NAME_LEN :: nat where "TASK_NAME_LEN = 32"
definition TASK_FD_MAX :: nat where "TASK_FD_MAX = 512"
definition NSIG :: nat where "NSIG = 64"

text \<open>Descriptor kinds and flags.\<close>

definition FDKIND_NONE :: nat where "FDKIND_NONE = 0"
definition FDKIND_DEVTTY :: nat where "FDKIND_DEVTTY = 9"
definition FDFL_READABLE :: u16 where "FDFL_READABLE = 0x01"
definition FDFL_WRITABLE :: u16 where "FDFL_WRITABLE = 0x02"

definition EAGAIN :: int where "EAGAIN = 11"
definition EBADF :: int where "EBADF = 9"
definition ECHILD :: int where "ECHILD = 10"
definition EINVAL :: int where "EINVAL = 22"
definition EMFILE :: int where "EMFILE = 24"
definition ESRCH :: int where "ESRCH = 3"
definition EFAULT :: int where "EFAULT = 14"

lemmas errno_defs = EAGAIN_def EBADF_def ECHILD_def EINVAL_def EMFILE_def ESRCH_def EFAULT_def

record real_fd =
  fd_kind :: nat
  fd_flags :: u16
  fd_ref :: int
  fd_offset :: u64
  fd_refcount :: int

definition no_fd :: real_fd where
  "no_fd = \<lparr> fd_kind = FDKIND_NONE, fd_flags = 0, fd_ref = 0, fd_offset = 0, fd_refcount = 0 \<rparr>"

type_synonym fd_table = "nat \<Rightarrow> real_fd"

text \<open>A 128-bit signal set, low word first; \<open>SIG_DFL\<close> is 0 and \<open>SIG_IGN\<close> is 1.\<close>

type_synonym sigset = "u64 \<times> u64"

definition SIG_DFL :: u64 where "SIG_DFL = 0"
definition SIG_IGN :: u64 where "SIG_IGN = 1"

record sigaction_info =
  sa_handler :: u64
  sa_mask :: sigset
  sa_flags :: u32

definition default_action :: sigaction_info where
  "default_action = \<lparr> sa_handler = SIG_DFL, sa_mask = (0, 0), sa_flags = 0 \<rparr>"

record task =
  t_used :: bool
  t_pid :: int
  t_tgid :: int
  t_ppid :: int
  t_pgid :: int
  t_sid :: int
  t_creds :: "int \<times> int \<times> int \<times> int \<times> int \<times> int"
  t_name :: string
  t_fdt_group :: int
  t_state :: task_state
  t_exit_code :: int
  t_nice :: int
  t_ctx :: cpu_context
  t_kernel_stack :: u64
  t_kernel_stack_top :: u64
  t_kernel_rsp_saved :: u64
  t_needs_first_launch :: bool
  t_fpu_used :: bool
  t_addr_space :: as_ref
  t_brk_start :: u64
  t_brk_current :: u64
  t_mmap_base :: u64
  t_fdt :: fd_table
  t_sigactions :: "nat \<Rightarrow> sigaction_info"
  t_sig_blocked :: sigset
  t_sig_pending :: sigset
  t_sig_saved_mask :: sigset
  t_sig_in_handler :: bool
  t_last_signal :: nat
  t_sleep_until :: u64
  t_wait_pid :: int
  t_syscall_preempt_disable :: u32
  t_no_timer_preempt :: bool
  t_syscall_user_frame :: "u64 list"
  t_syscall_user_frame_valid :: bool
  t_clear_child_tid :: u64
  t_robust_list_head :: u64
  t_robust_list_len :: u64
  t_cwd :: string

definition zero_task :: task where
  "zero_task = \<lparr> t_used = False, t_pid = 0, t_tgid = 0, t_ppid = 0, t_pgid = 0, t_sid = 0,
     t_creds = (0, 0, 0, 0, 0, 0), t_name = [], t_fdt_group = 0, t_state = TASK_FREE, t_exit_code = 0, t_nice = 0,
     t_ctx = zero_context, t_kernel_stack = 0, t_kernel_stack_top = 0, t_kernel_rsp_saved = 0,
     t_needs_first_launch = False, t_fpu_used = False, t_addr_space = NullAS, t_brk_start = 0, t_brk_current = 0,
     t_mmap_base = 0, t_fdt = (\<lambda>_. no_fd), t_sigactions = (\<lambda>_. default_action), t_sig_blocked = (0, 0),
     t_sig_pending = (0, 0), t_sig_saved_mask = (0, 0), t_sig_in_handler = False, t_last_signal = 0,
     t_sleep_until = 0, t_wait_pid = 0, t_syscall_preempt_disable = 0, t_no_timer_preempt = False,
     t_syscall_user_frame = [], t_syscall_user_frame_valid = False, t_clear_child_tid = 0,
     t_robust_list_head = 0, t_robust_list_len = 0, t_cwd = [] \<rparr>"

text \<open>The kernel's state.  \<open>g_kstacks\<close> and \<open>clone3_entry\<close> are link-time addresses; \<open>kmem\<close> holds
  the 64-bit words of the kernel stacks, \<open>dmem\<close> the bytes of physical memory seen through the
  direct map (user pages; the page tables are in \<open>pg\<close>).\<close>

record kernel =
  pg :: paging
  dmem :: "u64 \<Rightarrow> u8"
  kmem :: "u64 \<Rightarrow> u64"
  g_kstacks :: u64
  clone3_entry :: u64
  g_tasks :: "nat \<Rightarrow> task"
  g_current_task :: nat
  g_task_next_pid :: int
  g_user_foreground_active :: bool
  g_kernel_preempt_disable :: u32
  released :: "(nat \<times> int) list"

abbreviation tsk :: "kernel \<Rightarrow> nat \<Rightarrow> task" where "tsk s i \<equiv> g_tasks s i"

definition upd_task :: "kernel \<Rightarrow> nat \<Rightarrow> (task \<Rightarrow> task) \<Rightarrow> kernel" where
  "upd_task s i f = s\<lparr> g_tasks := (g_tasks s)(i := f (g_tasks s i)) \<rparr>"

definition kstack :: "kernel \<Rightarrow> nat \<Rightarrow> u64" where
  "kstack s i = g_kstacks s + of_nat i * TASK_KERNEL_STACK"

lemma upd_task_simps [simp]:
  "pg (upd_task s i f) = pg s" "dmem (upd_task s i f) = dmem s" "kmem (upd_task s i f) = kmem s"
  "g_kstacks (upd_task s i f) = g_kstacks s" "clone3_entry (upd_task s i f) = clone3_entry s"
  "g_current_task (upd_task s i f) = g_current_task s" "g_task_next_pid (upd_task s i f) = g_task_next_pid s"
  "g_user_foreground_active (upd_task s i f) = g_user_foreground_active s"
  "g_kernel_preempt_disable (upd_task s i f) = g_kernel_preempt_disable s" "released (upd_task s i f) = released s"
  by (simp_all add: upd_task_def)

lemma tsk_upd: "tsk (upd_task s i f) j = (if j = i then f (tsk s i) else tsk s j)"
  by (simp add: upd_task_def)

subsection \<open>Descriptor tables\<close>

definition fd_valid :: "fd_table \<Rightarrow> int \<Rightarrow> bool" where
  "fd_valid t fd \<longleftrightarrow> 0 \<le> fd \<and> fd < int TASK_FD_MAX \<and> fd_kind (t (nat fd)) \<noteq> FDKIND_NONE"

definition fd_alloc :: "fd_table \<Rightarrow> nat \<Rightarrow> int \<Rightarrow> u16 \<Rightarrow> fd_table \<times> int" where
  "fd_alloc t kind ref flags =
     (case find (\<lambda>i. fd_kind (t i) = FDKIND_NONE) [0..<TASK_FD_MAX] of
        None \<Rightarrow> (t, - EMFILE)
      | Some i \<Rightarrow> (t(i := \<lparr> fd_kind = kind, fd_flags = flags, fd_ref = ref, fd_offset = 0, fd_refcount = 1 \<rparr>), int i))"

definition fd_dup :: "fd_table \<Rightarrow> int \<Rightarrow> fd_table \<times> int" where
  "fd_dup t oldfd =
     (if oldfd < 0 \<or> oldfd \<ge> int TASK_FD_MAX \<or> fd_kind (t (nat oldfd)) = FDKIND_NONE then (t, - EBADF)
      else (let o' = t (nat oldfd)
            in case fd_alloc t (fd_kind o') (fd_ref o') (fd_flags o') of
                 (t', nfd) \<Rightarrow>
                   (if nfd \<ge> 0 then t'(nat nfd := (t' (nat nfd))\<lparr> fd_offset := fd_offset (t' (nat oldfd)) \<rparr>) else t', nfd)))"

definition fd_close :: "fd_table \<Rightarrow> int \<Rightarrow> fd_table" where
  "fd_close t fd =
     (if fd < 0 \<or> fd \<ge> int TASK_FD_MAX then t
      else if fd_kind (t (nat fd)) = FDKIND_NONE then t
      else t(nat fd := no_fd))"

definition fd_dup2 :: "fd_table \<Rightarrow> int \<Rightarrow> int \<Rightarrow> fd_table \<times> int" where
  "fd_dup2 t oldfd newfd =
     (if oldfd < 0 \<or> oldfd \<ge> int TASK_FD_MAX \<or> fd_kind (t (nat oldfd)) = FDKIND_NONE then (t, - EBADF)
      else if newfd < 0 \<or> newfd \<ge> int TASK_FD_MAX then (t, - EBADF)
      else if oldfd = newfd then (t, newfd)
      else (let t1 = (if fd_kind (t (nat newfd)) \<noteq> FDKIND_NONE then fd_close t newfd else t);
                f = t1 (nat oldfd)
            in (t1(nat newfd := f\<lparr> fd_refcount := fd_refcount f + 1 \<rparr>), newfd)))"

subsection \<open>Groups that share descriptors\<close>

definition c3_fd_group_id :: "task \<Rightarrow> int" where
  "c3_fd_group_id t = (if t_fdt_group t \<noteq> 0 then t_fdt_group t else t_pid t)"

definition c3_fd_same_group :: "task \<Rightarrow> task \<Rightarrow> bool" where
  "c3_fd_same_group a b =
     (if c3_fd_group_id a = c3_fd_group_id b then True
      else (let atg = (if t_tgid a \<noteq> 0 then t_tgid a else t_pid a);
                btg = (if t_tgid b \<noteq> 0 then t_tgid b else t_pid b)
            in atg > 0 \<and> atg = btg))"

definition live_state :: "task_state \<Rightarrow> bool" where
  "live_state st \<longleftrightarrow> st \<noteq> TASK_ZOMBIE \<and> st \<noteq> TASK_FREE"

text \<open>The other live members of the owner's group, in table order.\<close>

definition group_peer :: "kernel \<Rightarrow> nat \<Rightarrow> nat \<Rightarrow> bool" where
  "group_peer s owner i \<longleftrightarrow> t_used (tsk s i) \<and> i \<noteq> owner \<and> live_state (t_state (tsk s i))
     \<and> c3_fd_same_group (tsk s i) (tsk s owner)"

definition c3_fd_group_sync_fd :: "kernel \<Rightarrow> nat \<Rightarrow> int \<Rightarrow> kernel" where
  "c3_fd_group_sync_fd s owner fd =
     (if fd < 0 \<or> fd \<ge> int TASK_FD_MAX then s
      else if fd_valid (t_fdt (tsk s owner)) fd then s
      else (case find (\<lambda>i. group_peer s owner i \<and> fd_valid (t_fdt (tsk s i)) fd) [0..<TASK_MAX] of
          None \<Rightarrow> s
        | Some i \<Rightarrow> upd_task s owner (\<lambda>t. t\<lparr> t_fdt := (t_fdt t)(nat fd := t_fdt (tsk s i) (nat fd)) \<rparr>)))"

definition c3_fd_group_slot_used :: "kernel \<Rightarrow> nat \<Rightarrow> int \<Rightarrow> bool" where
  "c3_fd_group_slot_used s owner fd \<longleftrightarrow>
     0 \<le> fd \<and> fd < int TASK_FD_MAX \<and>
     (fd_valid (t_fdt (tsk s owner)) fd
      \<or> list_ex (\<lambda>i. group_peer s owner i \<and> fd_valid (t_fdt (tsk s i)) fd) [0..<TASK_MAX])"

definition map_tasks :: "kernel \<Rightarrow> (nat \<Rightarrow> task \<Rightarrow> task) \<Rightarrow> kernel" where
  "map_tasks s f = s\<lparr> g_tasks := (\<lambda>i. if i < TASK_MAX then f i (g_tasks s i) else g_tasks s i) \<rparr>"

definition c3_fd_group_copy_fd :: "kernel \<Rightarrow> nat \<Rightarrow> int \<Rightarrow> kernel" where
  "c3_fd_group_copy_fd s owner fd =
     (if fd < 0 \<or> fd \<ge> int TASK_FD_MAX then s
      else map_tasks s (\<lambda>i t. if group_peer s owner i
             then t\<lparr> t_fdt := (t_fdt t)(nat fd := t_fdt (tsk s owner) (nat fd)) \<rparr> else t))"

definition c3_fd_group_clear_fd :: "kernel \<Rightarrow> nat \<Rightarrow> int \<Rightarrow> kernel" where
  "c3_fd_group_clear_fd s owner fd =
     (if fd < 0 \<or> fd \<ge> int TASK_FD_MAX then s
      else map_tasks s (\<lambda>i t. if t_used t \<and> c3_fd_same_group t (tsk s owner)
             then t\<lparr> t_fdt := fd_close (t_fdt t) fd \<rparr> else t))"

definition c3_fd_alloc_for_task :: "kernel \<Rightarrow> nat \<Rightarrow> nat \<Rightarrow> int \<Rightarrow> u16 \<Rightarrow> kernel \<times> int" where
  "c3_fd_alloc_for_task s owner kind ref flags =
     (case find (\<lambda>fd. \<not> c3_fd_group_slot_used s owner (int fd)) [0..<TASK_FD_MAX] of
        None \<Rightarrow> (s, - EMFILE)
      | Some fd \<Rightarrow>
          (c3_fd_group_copy_fd
             (upd_task s owner (\<lambda>t. t\<lparr> t_fdt := (t_fdt t)(fd :=
                \<lparr> fd_kind = kind, fd_flags = flags, fd_ref = ref, fd_offset = 0, fd_refcount = 1 \<rparr>) \<rparr>))
             owner (int fd), int fd))"

text \<open>References to a back-end object: one per slot number and sharing group.\<close>

definition fd_seen_before :: "kernel \<Rightarrow> nat \<Rightarrow> int \<Rightarrow> nat \<Rightarrow> nat \<Rightarrow> bool" where
  "fd_seen_before s kind ref ti fi \<longleftrightarrow>
     list_ex (\<lambda>tj. t_used (tsk s tj) \<and> live_state (t_state (tsk s tj)) \<and> c3_fd_same_group (tsk s tj) (tsk s ti)
        \<and> fd_kind (t_fdt (tsk s tj) fi) = kind \<and> fd_ref (t_fdt (tsk s tj) fi) = ref) [0..<ti]"

definition c3_fd_ref_count :: "kernel \<Rightarrow> nat \<Rightarrow> int \<Rightarrow> nat" where
  "c3_fd_ref_count s kind ref =
     (if kind = FDKIND_NONE then 0
      else length (filter (\<lambda>(ti, fi). t_used (tsk s ti) \<and> fd_kind (t_fdt (tsk s ti) fi) = kind
              \<and> fd_ref (t_fdt (tsk s ti) fi) = ref \<and> \<not> fd_seen_before s kind ref ti fi)
            (List.product [0..<TASK_MAX] [0..<TASK_FD_MAX])))"

definition c3_fd_group_has_live_peer :: "kernel \<Rightarrow> nat \<Rightarrow> bool" where
  "c3_fd_group_has_live_peer s owner \<longleftrightarrow> list_ex (group_peer s owner) [0..<TASK_MAX]"

definition c3_close_fd_for_task :: "kernel \<Rightarrow> nat \<Rightarrow> int \<Rightarrow> kernel \<times> int" where
  "c3_close_fd_for_task s0 owner fd =
     (let s = c3_fd_group_sync_fd s0 owner fd
      in if \<not> fd_valid (t_fdt (tsk s owner)) fd then (s, - EBADF)
         else (let f = t_fdt (tsk s owner) (nat fd);
                   last_ref = c3_fd_ref_count s (fd_kind f) (fd_ref f) \<le> 1;
                   s1 = (if last_ref then s\<lparr> released := released s @ [(fd_kind f, fd_ref f)] \<rparr> else s)
               in (c3_fd_group_clear_fd s1 owner fd, 0)))"

fun close_each :: "kernel \<Rightarrow> nat \<Rightarrow> nat list \<Rightarrow> kernel" where
  "close_each s i [] = s"
| "close_each s i (fd # fds) =
     close_each (if fd_kind (t_fdt (tsk s i) fd) = FDKIND_NONE then s
                 else fst (c3_close_fd_for_task s i (int fd))) i fds"

definition compat3_task_close_all_fds :: "kernel \<Rightarrow> nat \<Rightarrow> kernel" where
  "compat3_task_close_all_fds s i =
     (if c3_fd_group_has_live_peer s i
      then upd_task s i (\<lambda>t. t\<lparr> t_fdt := (\<lambda>fd. if fd < TASK_FD_MAX then fd_close (t_fdt t) (int fd) fd else t_fdt t fd) \<rparr>)
      else close_each s i [0..<TASK_FD_MAX])"

subsection \<open>Kernel stacks and waking\<close>

definition task_kernel_text_ret :: "u64 \<Rightarrow> bool" where
  "task_kernel_text_ret ret \<longleftrightarrow> ret \<ge> 0x100000 \<and> ret < 0x4000000"

text \<open>The saved stack pointer must lie in the task's own stack and the return address eight
  words up must be the trampoline (first launch) or kernel text.\<close>

definition task_kernel_rsp_frame_valid :: "kernel \<Rightarrow> task \<Rightarrow> bool" where
  "task_kernel_rsp_frame_valid s t =
     (let rsp = t_kernel_rsp_saved t; ret = kmem s (rsp + 56)
      in if \<not> t_used t \<or> t_kernel_stack t = 0 then False
         else if rsp < t_kernel_stack t \<or> rsp + 64 > t_kernel_stack_top t then False
         else if t_needs_first_launch t then ret = clone3_entry s
         else task_kernel_text_ret ret)"

definition task_schedulable_user_frame :: "kernel \<Rightarrow> nat \<Rightarrow> bool" where
  "task_schedulable_user_frame s i \<longleftrightarrow>
     i < TASK_MAX \<and> t_used (tsk s i) \<and> c_cs (t_ctx (tsk s i)) = 0x28 \<and> task_kernel_rsp_frame_valid s (tsk s i)"

definition task_make_runnable :: "kernel \<Rightarrow> nat \<Rightarrow> kernel \<times> bool" where
  "task_make_runnable s i =
     (if i \<ge> TASK_MAX then (s, False)
      else if \<not> t_used (tsk s i) then (s, False)
      else if t_state (tsk s i) = TASK_ZOMBIE \<or> t_state (tsk s i) = TASK_FREE then (s, False)
      else if c_cs (t_ctx (tsk s i)) = 0x28 \<and> \<not> task_schedulable_user_frame s i then (s, False)
      else (upd_task s i (\<lambda>t. t\<lparr> t_sleep_until := 0, t_state := TASK_RUNNABLE \<rparr>), True))"

subsection \<open>Exit\<close>

text \<open>The scan for surviving threads of the exiting process.\<close>

record survivors =
  shared_user_survivor :: bool
  runnable_user_survivor :: bool
  first_sleeping_survivor :: "nat option"

fun scan_survivors :: "nat \<Rightarrow> nat list \<Rightarrow> kernel \<times> survivors \<Rightarrow> kernel \<times> survivors" where
  "scan_survivors i [] (s, v) = (s, v)"
| "scan_survivors i (si # rest) (s, v) =
     (if si = i \<or> \<not> t_used (tsk s si) \<or> \<not> live_state (t_state (tsk s si)) then scan_survivors i rest (s, v)
      else if t_addr_space (tsk s si) = t_addr_space (tsk s i) \<and> c_cs (t_ctx (tsk s si)) = 0x28
      then (let v1 = v\<lparr> shared_user_survivor := True \<rparr>
            in if t_state (tsk s si) = TASK_RUNNING
               then (if task_schedulable_user_frame s si
                     then scan_survivors i rest (upd_task s si (\<lambda>t. t\<lparr> t_state := TASK_RUNNABLE \<rparr>),
                            v1\<lparr> runnable_user_survivor := True \<rparr>)
                     else scan_survivors i rest (s, v1))
               else if t_state (tsk s si) = TASK_RUNNABLE \<and> task_schedulable_user_frame s si
               then scan_survivors i rest (s, v1\<lparr> runnable_user_survivor := True \<rparr>)
               else if t_state (tsk s si) = TASK_SLEEPING \<and> first_sleeping_survivor v = None
                       \<and> task_schedulable_user_frame s si
               then scan_survivors i rest (s, v1\<lparr> first_sleeping_survivor := Some si \<rparr>)
               else scan_survivors i rest (s, v1))
      else scan_survivors i rest (s, v))"

definition exit_release_siblings :: "kernel \<Rightarrow> nat \<Rightarrow> kernel" where
  "exit_release_siblings s i =
     (case scan_survivors i [0..<TASK_MAX]
         (s, \<lparr> shared_user_survivor = False, runnable_user_survivor = False, first_sleeping_survivor = None \<rparr>) of
        (s1, v) \<Rightarrow>
          (let s2 = (case first_sleeping_survivor v of
                 Some j \<Rightarrow> if shared_user_survivor v \<and> \<not> runnable_user_survivor v
                   then fst (task_make_runnable s1 j) else s1
               | None \<Rightarrow> s1)
           in if shared_user_survivor v then s2 else s2\<lparr> g_user_foreground_active := False \<rparr>))"

text \<open>The parent is woken when it sleeps in \<open>waitpid\<close> for this child.\<close>

definition exit_wake_parent :: "kernel \<Rightarrow> nat \<Rightarrow> int \<Rightarrow> int \<Rightarrow> kernel" where
  "exit_wake_parent s i pid parent_pid =
     (case find (\<lambda>j. t_used (tsk s j) \<and> t_pid (tsk s j) = parent_pid) [0..<TASK_MAX] of
        None \<Rightarrow> s
      | Some j \<Rightarrow>
          if t_state (tsk s j) = TASK_SLEEPING
          then (let want = t_wait_pid (tsk s j)
                in if want = -1 \<or> want = 0 \<or> want = pid \<or> (want < -1 \<and> t_pgid (tsk s i) = - want)
                   then (case task_make_runnable s j of
                       (s1, ok) \<Rightarrow> if ok then upd_task s1 j (\<lambda>t. t\<lparr> t_wait_pid := 0 \<rparr>) else s1)
                   else s)
          else s)"

definition exit_reparent :: "kernel \<Rightarrow> int \<Rightarrow> kernel" where
  "exit_reparent s pid =
     map_tasks s (\<lambda>j t. if t_used t \<and> t_ppid t = pid then t\<lparr> t_ppid := 1 \<rparr> else t)"

definition task_exit :: "kernel \<Rightarrow> int \<Rightarrow> int \<Rightarrow> kernel" where
  "task_exit s pid code =
     (case find (\<lambda>i. t_used (tsk s i) \<and> t_pid (tsk s i) = pid) [0..<TASK_MAX] of
        None \<Rightarrow> s
      | Some i \<Rightarrow>
          (let t = tsk s i;
               auto_reap_thread = (c_cs (t_ctx t) = 0x28 \<and> t_tgid t \<noteq> 0 \<and> t_tgid t \<noteq> t_pid t);
               s1 = (if i = g_current_task s then exit_release_siblings s i else s);
               s2 = upd_task s1 i (\<lambda>t. t\<lparr> t_state := TASK_ZOMBIE, t_exit_code := code \<rparr>);
               s3 = exit_wake_parent s2 i pid (t_ppid t);
               s4 = compat3_task_close_all_fds s3 i;
               s5 = exit_reparent s4 pid
           in if auto_reap_thread then upd_task s5 i (\<lambda>t. t\<lparr> t_state := TASK_FREE, t_used := False \<rparr>) else s5))"

end
