(* ===== verification/KSignal.thy ===== *)
theory KSignal
  imports KTask PagingProps
begin

text \<open>
  Signals of \<^verbatim>\<open>src/compat/memory_tasks.c\<close>: signal sets, sending, the delivery that builds a
  frame on the user stack, and \<open>rt_sigreturn\<close>.  The user stack is reached through the
  task's page tables, page by page, as \<open>c2_user_copy_out_task\<close> does.
\<close>

subsection \<open>Access to user memory\<close>

definition C2_USER_TOP :: u64 where "C2_USER_TOP = 0x0000800000000000"

text \<open>\<open>n\<close> bytes at an address; a list into them.\<close>

fun mem_read :: "(u64 \<Rightarrow> u8) \<Rightarrow> u64 \<Rightarrow> nat \<Rightarrow> u8 list" where
  "mem_read m a 0 = []"
| "mem_read m a (Suc n) = m a # mem_read m (a + 1) n"

fun mem_write :: "(u64 \<Rightarrow> u8) \<Rightarrow> u64 \<Rightarrow> u8 list \<Rightarrow> (u64 \<Rightarrow> u8)" where
  "mem_write m a [] = m"
| "mem_write m a (b # bs) = mem_write (m(a := b)) (a + 1) bs"

text \<open>Bytes from \<open>va\<close> to the end of its page.\<close>

definition page_left :: "u64 \<Rightarrow> nat" where
  "page_left va = 4096 - unat (va AND 0xFFF)"

lemma page_left_pos: "0 < page_left va" "page_left va \<le> 4096"
proof -
  have "unat (va AND mask 12) = take_bit 12 (unat va)" by (metis take_bit_eq_mask unsigned_take_bit_eq)
  then have "unat (va AND 0xFFF) < 4096" unfolding low_mask by (simp add: take_bit_eq_mod)
  then show "0 < page_left va" "page_left va \<le> 4096" by (simp_all add: page_left_def)
qed

definition entry_user_ok :: "bool \<Rightarrow> u64 \<Rightarrow> bool" where
  "entry_user_ok wr e \<longleftrightarrow> flag_set e PAGE_PRESENT \<and> flag_set e PAGE_USER \<and> (wr \<longrightarrow> flag_set e PAGE_WRITABLE)
     \<and> \<not> flag_set e PAGE_HUGE"

definition user_range_ok :: "as_ref \<Rightarrow> u64 \<Rightarrow> nat \<Rightarrow> bool" where
  "user_range_ok as base len \<longleftrightarrow> as \<noteq> NullAS \<and> base \<noteq> 0 \<and>
     (let e = base + of_nat len - 1 in \<not> e < base \<and> base < C2_USER_TOP \<and> e < C2_USER_TOP)"

text \<open>The copy loops, one page chunk per round.  A failed round leaves what was copied before.\<close>

function copy_out_loop :: "paging \<Rightarrow> as_ref \<Rightarrow> u64 \<Rightarrow> u8 list \<Rightarrow> (u64 \<Rightarrow> u8) \<Rightarrow> (u64 \<Rightarrow> u8) \<times> bool" where
  "copy_out_loop p as va src m =
     (if src = [] then (m, True)
      else if \<not> entry_user_ok True (paging_get_entry p as (va AND NOT 0xFFF)) then (m, False)
      else if paging_translate p as va = 0 then (m, False)
      else copy_out_loop p as (va + of_nat (min (page_left va) (length src))) (drop (page_left va) src)
             (mem_write m (PHYS_TO_DMAP (paging_translate p as va)) (take (page_left va) src)))"
  by pat_completeness auto
termination
  by (relation "measure (\<lambda>(p, as, va, src, m). length src)") (simp_all add: page_left_pos)

declare copy_out_loop.simps [simp del]

definition c2_user_copy_out_task :: "kernel \<Rightarrow> nat \<Rightarrow> u64 \<Rightarrow> u8 list \<Rightarrow> kernel \<times> bool" where
  "c2_user_copy_out_task s i dst src =
     (if src = [] then (s, True)
      else if \<not> user_range_ok (t_addr_space (tsk s i)) dst (length src) then (s, False)
      else (case copy_out_loop (pg s) (t_addr_space (tsk s i)) dst src (dmem s) of
          (m, ok) \<Rightarrow> (s\<lparr> dmem := m \<rparr>, ok)))"

function copy_in_loop :: "paging \<Rightarrow> as_ref \<Rightarrow> u64 \<Rightarrow> nat \<Rightarrow> (u64 \<Rightarrow> u8) \<Rightarrow> u8 list option" where
  "copy_in_loop p as va len m =
     (if len = 0 then Some []
      else if \<not> entry_user_ok False (paging_get_entry p as (va AND NOT 0xFFF)) then None
      else if paging_translate p as va = 0 then None
      else (case copy_in_loop p as (va + of_nat (min (page_left va) len)) (len - page_left va) m of
          None \<Rightarrow> None
        | Some rest \<Rightarrow> Some (mem_read m (PHYS_TO_DMAP (paging_translate p as va)) (min (page_left va) len) @ rest)))"
  by pat_completeness auto
termination
  by (relation "measure (\<lambda>(p, as, va, len, m). len)") (simp_all add: page_left_pos)

declare copy_in_loop.simps [simp del]

definition c2_user_copy_in_task :: "kernel \<Rightarrow> nat \<Rightarrow> u64 \<Rightarrow> nat \<Rightarrow> u8 list option" where
  "c2_user_copy_in_task s i src len =
     (if len = 0 then Some []
      else if \<not> user_range_ok (t_addr_space (tsk s i)) src len then None
      else copy_in_loop (pg s) (t_addr_space (tsk s i)) src len (dmem s))"

function bytes_present_loop :: "paging \<Rightarrow> as_ref \<Rightarrow> u64 \<Rightarrow> u64 \<Rightarrow> nat \<Rightarrow> bool" where
  "bytes_present_loop p as va e fuel =
     (if fuel = 0 then False
      else if \<not> entry_user_ok False (paging_get_entry p as va) then False
      else if va AND NOT 0xFFF = e AND NOT 0xFFF then True
      else bytes_present_loop p as ((va AND NOT 0xFFF) + PAGE_SIZE) e (fuel - 1))"
  by pat_completeness auto
termination by (relation "measure (\<lambda>(p, as, va, e, fuel). fuel)") simp_all

declare bytes_present_loop.simps [simp del]

text \<open>The loop visits each page once; \<open>len\<close> pages are more than enough rounds.\<close>

definition c2_user_bytes_present :: "paging \<Rightarrow> as_ref \<Rightarrow> u64 \<Rightarrow> u64 \<Rightarrow> bool" where
  "c2_user_bytes_present p as va n =
     (if as = NullAS \<or> va = 0 \<or> n = 0 then False
      else if va \<ge> C2_USER_TOP \<or> n > C2_USER_TOP - va then False
      else bytes_present_loop p as va (va + n - 1) (unat n + 1))"

subsection \<open>Signal sets\<close>

definition sigset_has :: "sigset \<Rightarrow> nat \<Rightarrow> bool" where
  "sigset_has ss sig =
     (if sig div 64 > 1 then False
      else (if sig div 64 = 0 then fst ss else snd ss) AND push_bit (sig mod 64) 1 \<noteq> 0)"

definition sigset_add :: "sigset \<Rightarrow> nat \<Rightarrow> sigset" where
  "sigset_add ss sig =
     (if sig div 64 > 1 then ss
      else if sig div 64 = 0 then (fst ss OR push_bit (sig mod 64) 1, snd ss)
      else (fst ss, snd ss OR push_bit (sig mod 64) 1))"

definition sigset_del :: "sigset \<Rightarrow> nat \<Rightarrow> sigset" where
  "sigset_del ss sig =
     (if sig div 64 > 1 then ss
      else if sig div 64 = 0 then (fst ss AND NOT (push_bit (sig mod 64) 1), snd ss)
      else (fst ss, snd ss AND NOT (push_bit (sig mod 64) 1)))"

lemma sigset_has_bit:
  "sigset_has ss sig \<longleftrightarrow> sig < 128 \<and> bit (if sig div 64 = 0 then fst ss else snd ss) (sig mod 64)"
  unfolding sigset_has_def and_single64 by (auto simp: less_mult_imp_div_less)

lemma sig_div_mod: "a div 64 = b div 64 \<Longrightarrow> a mod 64 = b mod (64 :: nat) \<Longrightarrow> a = b"
  by (metis div_mult_mod_eq)

lemma sig_word: "sig < 128 \<Longrightarrow> sig div 64 \<noteq> 0 \<Longrightarrow> sig div 64 = (1 :: nat)"
  by auto

lemma sigset_word:
  assumes "sig < 128"
  shows "sigset_add ss sig = (if sig div 64 = 0 then (fst ss OR push_bit (sig mod 64) 1, snd ss)
      else (fst ss, snd ss OR push_bit (sig mod 64) 1))"
    and "sigset_del ss sig = (if sig div 64 = 0 then (fst ss AND NOT (push_bit (sig mod 64) 1), snd ss)
      else (fst ss, snd ss AND NOT (push_bit (sig mod 64) 1)))"
proof -
  have "\<not> sig div 64 > 1" using assms by simp
  then show "sigset_add ss sig = (if sig div 64 = 0 then (fst ss OR push_bit (sig mod 64) 1, snd ss)
      else (fst ss, snd ss OR push_bit (sig mod 64) 1))"
    "sigset_del ss sig = (if sig div 64 = 0 then (fst ss AND NOT (push_bit (sig mod 64) 1), snd ss)
      else (fst ss, snd ss AND NOT (push_bit (sig mod 64) 1)))"
    unfolding sigset_add_def sigset_del_def by (simp_all only: if_False)
qed

lemma bit_or_single: "bit (w OR push_bit k 1 :: u64) n \<longleftrightarrow> bit w n \<or> n = k \<and> k < 64"
  unfolding bit_or_iff bit_single64 ..

lemma bit_and_single: "k < 64 \<Longrightarrow> bit (w AND NOT (push_bit k 1) :: u64) n \<longleftrightarrow> bit w n \<and> n \<noteq> k"
proof (cases "n < 64")
  case True
  then show ?thesis if "k < 64" using that unfolding bit_and_iff bit_not64 [OF True] bit_single64 by blast
next
  case False
  then show ?thesis using bit_imp_le_length [of w n] bit_imp_le_length [of "w AND NOT (push_bit k 1)" n] by auto
qed

lemma sigset_has_add [simp]:
  assumes "sig < 128"
  shows "sigset_has (sigset_add ss sig) s \<longleftrightarrow> s = sig \<or> sigset_has ss s"
proof -
  have m: "sig mod 64 < 64" by simp
  show ?thesis
  proof (cases "s < 128 \<and> s div 64 = sig div 64")
    case True
    then have "s mod 64 = sig mod 64 \<longleftrightarrow> s = sig" using sig_div_mod [of s sig] by auto
    moreover have "sigset_has (sigset_add ss sig) s \<longleftrightarrow>
        bit ((if sig div 64 = 0 then fst ss else snd ss) OR push_bit (sig mod 64) 1) (s mod 64)"
      unfolding sigset_has_bit sigset_word [OF assms] using True
      by (cases "sig div 64 = 0") (simp_all only: if_True if_False fst_conv snd_conv simp_thms)
    ultimately show ?thesis using True m unfolding bit_or_single sigset_has_bit by auto
  next
    case False
    then have "s \<noteq> sig" using assms by auto
    moreover have "sigset_has (sigset_add ss sig) s \<longleftrightarrow> sigset_has ss s"
    proof (cases "s < 128")
      case s: True
      then have other: "s div 64 = 0 \<longleftrightarrow> sig div 64 \<noteq> 0" using False sig_word [OF assms] sig_word [OF s] by auto
      show ?thesis
        unfolding sigset_has_bit sigset_word [OF assms]
        by (cases "sig div 64 = 0") (simp_all only: other if_True if_False fst_conv snd_conv simp_thms)
    qed (simp add: sigset_has_bit)
    ultimately show ?thesis by blast
  qed
qed

lemma sigset_has_del [simp]:
  assumes "sig < 128"
  shows "sigset_has (sigset_del ss sig) s \<longleftrightarrow> s \<noteq> sig \<and> sigset_has ss s"
proof -
  have m: "sig mod 64 < 64" by simp
  show ?thesis
  proof (cases "s < 128 \<and> s div 64 = sig div 64")
    case True
    then have "s mod 64 = sig mod 64 \<longleftrightarrow> s = sig" using sig_div_mod [of s sig] by auto
    moreover have "sigset_has (sigset_del ss sig) s \<longleftrightarrow>
        bit ((if sig div 64 = 0 then fst ss else snd ss) AND NOT (push_bit (sig mod 64) 1)) (s mod 64)"
      unfolding sigset_has_bit sigset_word [OF assms] using True
      by (cases "sig div 64 = 0") (simp_all only: if_True if_False fst_conv snd_conv simp_thms)
    ultimately show ?thesis using True m unfolding bit_and_single [OF m] sigset_has_bit by auto
  next
    case False
    then have "s \<noteq> sig" using assms by auto
    moreover have "sigset_has (sigset_del ss sig) s \<longleftrightarrow> sigset_has ss s"
    proof (cases "s < 128")
      case s: True
      then have other: "s div 64 = 0 \<longleftrightarrow> sig div 64 \<noteq> 0" using False sig_word [OF assms] sig_word [OF s] by auto
      show ?thesis
        unfolding sigset_has_bit sigset_word [OF assms]
        by (cases "sig div 64 = 0") (simp_all only: other if_True if_False fst_conv snd_conv simp_thms)
    qed (simp add: sigset_has_bit)
    ultimately show ?thesis by blast
  qed
qed

subsection \<open>Sending\<close>

definition SIGINT :: nat where "SIGINT = 2"
definition SIGQUIT :: nat where "SIGQUIT = 3"
definition SIGILL :: nat where "SIGILL = 4"
definition SIGABRT :: nat where "SIGABRT = 6"
definition SIGBUS :: nat where "SIGBUS = 7"
definition SIGFPE :: nat where "SIGFPE = 8"
definition SIGKILL :: nat where "SIGKILL = 9"
definition SIGSEGV :: nat where "SIGSEGV = 11"
definition SIGALRM :: nat where "SIGALRM = 14"
definition SIGCHLD :: nat where "SIGCHLD = 17"
definition SIGCONT :: nat where "SIGCONT = 18"
definition SIGSTOP :: nat where "SIGSTOP = 19"
definition SIGTSTP :: nat where "SIGTSTP = 20"
definition SIGTTIN :: nat where "SIGTTIN = 21"
definition SIGTTOU :: nat where "SIGTTOU = 22"
definition SIGURG :: nat where "SIGURG = 23"
definition SIGWINCH :: nat where "SIGWINCH = 28"

lemmas sig_defs = SIGINT_def SIGQUIT_def SIGILL_def SIGABRT_def SIGBUS_def SIGFPE_def SIGKILL_def SIGSEGV_def
  SIGALRM_def SIGCHLD_def SIGCONT_def SIGSTOP_def SIGTSTP_def SIGTTIN_def SIGTTOU_def SIGURG_def SIGWINCH_def

definition sig_default_action :: "kernel \<Rightarrow> nat \<Rightarrow> nat \<Rightarrow> kernel" where
  "sig_default_action s i sig =
     (if sig \<in> {SIGKILL, SIGSEGV, SIGBUS, SIGILL, SIGFPE, SIGABRT} then task_exit s (t_pid (tsk s i)) (128 + int sig)
      else if sig \<in> {SIGSTOP, SIGTSTP, SIGTTIN, SIGTTOU} then upd_task s i (\<lambda>t. t\<lparr> t_state := TASK_STOPPED \<rparr>)
      else if sig = SIGCONT then (if t_state (tsk s i) = TASK_STOPPED then fst (task_make_runnable s i) else s)
      else if sig \<in> {SIGCHLD, SIGURG, SIGWINCH} then s
      else task_exit s (t_pid (tsk s i)) (128 + int sig))"

definition sig_enqueue :: "kernel \<Rightarrow> nat \<Rightarrow> nat \<Rightarrow> kernel" where
  "sig_enqueue s i sig =
     (if sig = 0 \<or> sig \<ge> NSIG then s
      else (let s1 = (if sig = SIGKILL \<or> sig = SIGSTOP
                 then upd_task s i (\<lambda>t. t\<lparr> t_sig_blocked := sigset_del (t_sig_blocked t) sig \<rparr>) else s);
                s2 = upd_task s1 i (\<lambda>t. t\<lparr> t_sig_pending := sigset_add (t_sig_pending t) sig \<rparr>);
                s3 = (if sig = SIGCONT \<and> t_state (tsk s2 i) = TASK_STOPPED then fst (task_make_runnable s2 i) else s2)
            in if t_state (tsk s3 i) = TASK_SLEEPING then fst (task_make_runnable s3 i) else s3))"

definition sig_target_match :: "task \<Rightarrow> int \<Rightarrow> int \<Rightarrow> bool" where
  "sig_target_match t pid caller_pgid =
     (if \<not> t_used t then False
      else if pid > 0 then t_pid t = pid
      else if pid = 0 then t_pgid t = caller_pgid
      else if pid = -1 then t_pid t > 1
      else t_pgid t = - pid)"

text \<open>The loop of \<open>sig_send\<close>; the third value is the early return of the existence check.\<close>

fun sig_send_loop :: "int \<Rightarrow> nat \<Rightarrow> int \<Rightarrow> nat list \<Rightarrow> kernel \<times> nat \<Rightarrow> kernel \<times> nat \<times> bool" where
  "sig_send_loop pid sig cg [] (s, n) = (s, n, False)"
| "sig_send_loop pid sig cg (i # rest) (s, n) =
     (if \<not> sig_target_match (tsk s i) pid cg then sig_send_loop pid sig cg rest (s, n)
      else if sig = 0 then (s, n, True)
      else if sig \<noteq> SIGKILL \<and> sig \<noteq> SIGSTOP \<and> sa_handler (t_sigactions (tsk s i) sig) = SIG_IGN
      then sig_send_loop pid sig cg rest (s, n)
      else sig_send_loop pid sig cg rest (sig_enqueue s i sig, n + 1))"

definition sig_send :: "kernel \<Rightarrow> int \<Rightarrow> int \<Rightarrow> kernel \<times> int" where
  "sig_send s pid sig =
     (let caller_pgid = t_pgid (tsk s (g_current_task s))
      in if sig < 0 \<or> sig \<ge> int NSIG then (s, - EINVAL)
         else if pid = 0 \<and> caller_pgid \<le> 0 then (s, - ESRCH)
         else (case sig_send_loop pid (nat sig) caller_pgid [0..<TASK_MAX] (s, 0) of
             (s1, n, found) \<Rightarrow> if found then (s1, 0) else (s1, if n > 0 then 0 else - ESRCH)))"

subsection \<open>Delivery\<close>

text \<open>The frame as 34 little-endian 64-bit words, in the layout of \<open>sig_frame_t\<close> (272 bytes).
  The fields the kernel leaves zero, padding included, are literal zeros.\<close>

definition SIG_FRAME_SIZE :: nat where "SIG_FRAME_SIZE = 272"

definition sig_frame_words :: "sigset \<Rightarrow> cpu_context \<Rightarrow> nat \<Rightarrow> u64 list" where
  "sig_frame_words bl c sig =
     [fst bl, snd bl, 0, 0, 0, 0, 0, 0,
      c_r8 c, c_r9 c, c_r10 c, c_r11 c, c_r12 c, c_r13 c, c_r14 c, c_r15 c,
      c_rdi c, c_rsi c, c_rbp c, c_rbx c, c_rdx c, c_rax c, c_rcx c,
      c_rsp c, c_rip c, c_rflags c,
      (c_cs c AND 0xFFFF) OR push_bit 48 (c_ss c AND 0xFFFF), 0, 0, 0, 0,
      of_nat sig, 0, 0]"

definition le64 :: "u64 \<Rightarrow> u8 list" where
  "le64 w = map (\<lambda>k. ucast (drop_bit (8 * k) w)) [0..<8]"

definition unle64 :: "u8 list \<Rightarrow> u64" where
  "unle64 bs = fold (\<lambda>k w. w OR push_bit (8 * k) (ucast (bs ! k))) [0..<8] 0"

text \<open>\<open>mov eax, 15; syscall; ret\<close>\<close>

definition sigreturn_tramp :: "u8 list" where
  "sigreturn_tramp = [0xB8, 0x0F, 0x00, 0x00, 0x00, 0x0F, 0x05, 0xC3]"

definition sig_frame_rsp :: "u64 \<Rightarrow> u64" where
  "sig_frame_rsp rsp = (rsp - of_nat SIG_FRAME_SIZE - 8) AND NOT 0xF"

definition sig_deliver :: "kernel \<Rightarrow> nat \<Rightarrow> nat \<Rightarrow> kernel" where
  "sig_deliver s i sig =
     (let t = tsk s i; act = t_sigactions t sig;
          new_rsp = sig_frame_rsp (c_rsp (t_ctx t));
          frame = concat (map le64 (sig_frame_words (t_sig_blocked t) (t_ctx t) sig));
          ret_addr = new_rsp + of_nat SIG_FRAME_SIZE; ret_slot = new_rsp - 8
      in case c2_user_copy_out_task s i new_rsp frame of
           (s1, False) \<Rightarrow> sig_default_action s1 i SIGSEGV
         | (s1, True) \<Rightarrow>
       (case c2_user_copy_out_task s1 i ret_addr sigreturn_tramp of
           (s2, False) \<Rightarrow> sig_default_action s2 i SIGSEGV
         | (s2, True) \<Rightarrow>
       (let s3 = upd_task s2 i (\<lambda>t. t\<lparr> t_ctx := (t_ctx t)\<lparr> c_rip := sa_handler act, c_rsp := new_rsp,
              c_rdi := of_nat sig, c_rsi := new_rsp + 248, c_rdx := new_rsp + 24 \<rparr> \<rparr>)
        in case c2_user_copy_out_task s3 i ret_slot (le64 ret_addr) of
           (s4, False) \<Rightarrow> sig_default_action s4 i SIGSEGV
         | (s4, True) \<Rightarrow>
             upd_task s4 i (\<lambda>t.
               (let b1 = (if sa_flags act AND 0x40000000 = 0 then sigset_add (t_sig_blocked t) sig else t_sig_blocked t)
                in t\<lparr> t_ctx := (t_ctx t)\<lparr> c_rsp := ret_slot \<rparr>,
                      t_last_signal := sig, t_sig_saved_mask := t_sig_blocked t, t_sig_in_handler := True,
                      t_sig_blocked := (fst b1 OR fst (sa_mask act), snd b1 OR snd (sa_mask act)),
                      t_sigactions := (if sa_flags act AND 0x80000000 \<noteq> 0
                        then (t_sigactions t)(sig := act\<lparr> sa_handler := SIG_DFL \<rparr>) else t_sigactions t) \<rparr>)))))"

fun sig_loop :: "nat \<Rightarrow> nat list \<Rightarrow> kernel \<Rightarrow> kernel" where
  "sig_loop i [] s = s"
| "sig_loop i (sig # rest) s =
     (let t = tsk s i
      in if \<not> sigset_has (t_sig_pending t) sig then sig_loop i rest s
         else if sigset_has (t_sig_blocked t) sig then sig_loop i rest s
         else (let s1 = upd_task s i (\<lambda>t. t\<lparr> t_sig_pending := sigset_del (t_sig_pending t) sig \<rparr>)
               in if sa_handler (t_sigactions t sig) = SIG_IGN then sig_loop i rest s1
                  else if sa_handler (t_sigactions t sig) = SIG_DFL
                  then sig_loop i rest (sig_default_action s1 i sig)
                  else sig_deliver s1 i sig))"

definition sig_check_pending :: "kernel \<Rightarrow> nat \<Rightarrow> kernel" where
  "sig_check_pending s i =
     (if \<not> t_used (tsk s i) then s
      else if t_sig_in_handler (tsk s i) then s
      else if c_cs (t_ctx (tsk s i)) \<noteq> 0x28 \<and> c_cs (t_ctx (tsk s i)) \<noteq> 0x23 then s
      else sig_loop i [1..<NSIG] s)"

definition sig_restore_context :: "kernel \<Rightarrow> nat \<Rightarrow> kernel \<times> (int + u64)" where
  "sig_restore_context s i =
     (if \<not> t_used (tsk s i) then (s, Inl (- ESRCH))
      else (case c2_user_copy_in_task s i (c_rsp (t_ctx (tsk s i))) SIG_FRAME_SIZE of
          None \<Rightarrow> (sig_default_action s i SIGSEGV, Inl (- EFAULT))
        | Some bs \<Rightarrow>
            (let w = (\<lambda>k. unle64 (take 8 (drop (8 * k) bs))); flags = w 25 OR 0x202
             in (upd_task s i (\<lambda>t. t\<lparr>
                   t_ctx := (t_ctx t)\<lparr> c_rax := w 21, c_rbx := w 19, c_rcx := w 22, c_rdx := w 20, c_rsi := w 17,
                     c_rdi := w 16, c_rbp := w 18, c_r8 := w 8, c_r9 := w 9, c_r10 := w 10, c_r11 := w 11,
                     c_r12 := w 12, c_r13 := w 13, c_r14 := w 14, c_r15 := w 15,
                     c_rip := w 24, c_rsp := w 23, c_rflags := flags \<rparr>,
                   t_sig_blocked := (w 0, w 1), t_sig_in_handler := False, t_last_signal := 0,
                   t_syscall_user_frame := [w 15, w 14, w 13, w 12, flags, w 10, w 9, w 8, w 18, w 16, w 17, w 20,
                     w 24, w 19, w 21, 0, 0, w 24, 0x2B, flags, w 23, 0x33],
                   t_syscall_user_frame_valid := True \<rparr>), Inr (w 21)))))"

subsection \<open>The bytes behind a user range\<close>

text \<open>The physical bytes a copy visits, in order, and whether every page of the range can be
  written.\<close>

function user_cells :: "paging \<Rightarrow> as_ref \<Rightarrow> u64 \<Rightarrow> nat \<Rightarrow> u64 list" where
  "user_cells p as va len =
     (if len = 0 then []
      else map (\<lambda>k. PHYS_TO_DMAP (paging_translate p as va) + of_nat k) [0..<min (page_left va) len]
        @ user_cells p as (va + of_nat (min (page_left va) len)) (len - page_left va))"
  by pat_completeness auto
termination by (relation "measure (\<lambda>(p, as, va, len). len)") (simp_all add: page_left_pos)

function pages_ok :: "bool \<Rightarrow> paging \<Rightarrow> as_ref \<Rightarrow> u64 \<Rightarrow> nat \<Rightarrow> bool" where
  "pages_ok wr p as va len =
     (if len = 0 then True
      else entry_user_ok wr (paging_get_entry p as (va AND NOT 0xFFF)) \<and> paging_translate p as va \<noteq> 0
        \<and> pages_ok wr p as (va + of_nat (min (page_left va) len)) (len - page_left va))"
  by pat_completeness auto
termination by (relation "measure (\<lambda>(wr, p, as, va, len). len)") (simp_all add: page_left_pos)

declare user_cells.simps [simp del] pages_ok.simps [simp del]

lemma pages_ok_read: "pages_ok wr p as va len \<Longrightarrow> pages_ok False p as va len"
proof (induction wr p as va len rule: pages_ok.induct)
  case (1 wr p as va len)
  from "1.prems" show ?case
    unfolding pages_ok.simps [of wr p as va len] pages_ok.simps [of False p as va len]
    using "1.IH" by (auto simp: entry_user_ok_def split: if_splits)
qed

definition write_cells :: "(u64 \<Rightarrow> u8) \<Rightarrow> u64 list \<Rightarrow> u8 list \<Rightarrow> (u64 \<Rightarrow> u8)" where
  "write_cells m xs bs = fold (\<lambda>(x, b) m. m(x := b)) (zip xs bs) m"

lemma write_cells_Cons [simp]: "write_cells m (x # xs) (b # bs) = write_cells (m(x := b)) xs bs"
  and write_cells_Nil [simp]: "write_cells m [] bs = m" "write_cells m xs [] = m"
  by (simp_all add: write_cells_def)

lemma write_cells_append:
  "length xs = length bs \<Longrightarrow> write_cells m (xs @ ys) (bs @ cs) = write_cells (write_cells m xs bs) ys cs"
  by (simp add: write_cells_def)

lemma write_cells_other: "a \<notin> set xs \<Longrightarrow> write_cells m xs bs a = m a"
proof (induction xs arbitrary: m bs)
  case (Cons x xs)
  then show ?case by (cases bs) auto
qed simp

lemma write_cells_map_other: "set xs \<inter> set ys = {} \<Longrightarrow> map (write_cells m ys bs) xs = map m xs"
  by (rule map_cong) (auto intro!: write_cells_other)

lemma write_cells_read: "distinct xs \<Longrightarrow> length xs = length bs \<Longrightarrow> map (write_cells m xs bs) xs = bs"
proof (induction xs arbitrary: m bs)
  case (Cons x xs)
  then obtain b bs' where bs: "bs = b # bs'" by (cases bs) auto
  with Cons show ?case by (simp add: write_cells_other)
qed simp

lemma map_upt_shift: "map (\<lambda>k. a + of_nat k) [0..<Suc n] = a # map (\<lambda>k. a + 1 + of_nat k) [0..<n]" for a :: u64
  by (simp add: upt_conv_Cons map_Suc_upt [symmetric] o_def add.assoc del: upt_Suc)

lemma mem_write_cells: "mem_write m a bs = write_cells m (map (\<lambda>k. a + of_nat k) [0..<length bs]) bs"
proof (induction bs arbitrary: m a)
  case (Cons b bs)
  show ?case unfolding length_Cons map_upt_shift by (simp only: mem_write.simps Cons.IH write_cells_Cons)
qed simp

lemma mem_read_cells: "mem_read m a n = map m (map (\<lambda>k. a + of_nat k) [0..<n])"
proof (induction n arbitrary: a)
  case (Suc n)
  show ?case unfolding map_upt_shift by (simp add: Suc.IH)
qed simp

lemma length_user_cells [simp]: "length (user_cells p as va len) = len"
proof (induction p as va len rule: user_cells.induct)
  case (1 p as va len)
  show ?case unfolding user_cells.simps [of p as va len] using 1 by auto
qed

lemma copy_out_cells:
  "copy_out_loop p as va src m = (m', ok) \<Longrightarrow> pages_ok True p as va (length src) \<Longrightarrow>
     ok \<and> m' = write_cells m (user_cells p as va (length src)) src"
proof (induction p as va src m rule: copy_out_loop.induct)
  case (1 p as va src m)
  show ?case
  proof (cases "src = []")
    case True
    with "1.prems" show ?thesis by (simp add: copy_out_loop.simps user_cells.simps)
  next
    case False
    let ?n = "page_left va" and ?d = "PHYS_TO_DMAP (paging_translate p as va)"
    have ok: "entry_user_ok True (paging_get_entry p as (va AND NOT 0xFFF))" "paging_translate p as va \<noteq> 0"
        "pages_ok True p as (va + of_nat (min ?n (length src))) (length (drop ?n src))"
      using "1.prems"(2) False by (simp_all add: pages_ok.simps [of True p as va])
    have c: "copy_out_loop p as (va + of_nat (min ?n (length src))) (drop ?n src) (mem_write m ?d (take ?n src)) = (m', ok)"
      using "1.prems"(1) False ok by (simp add: copy_out_loop.simps [of p as va src])
    note IH = "1.IH" [OF False _ _ c ok(3)]
    have cells: "user_cells p as va (length src) = map (\<lambda>k. ?d + of_nat k) [0..<length (take ?n src)]
        @ user_cells p as (va + of_nat (min ?n (length src))) (length (drop ?n src))"
      using False by (simp add: user_cells.simps [of p as va] min.commute)
    have "write_cells m (user_cells p as va (length src)) src
        = write_cells m (user_cells p as va (length src)) (take ?n src @ drop ?n src)" by simp
    also have "\<dots> = write_cells (mem_write m ?d (take ?n src))
        (user_cells p as (va + of_nat (min ?n (length src))) (length (drop ?n src))) (drop ?n src)"
      unfolding cells mem_write_cells by (rule write_cells_append) simp
    finally show ?thesis using IH ok by simp
  qed
qed

lemma copy_in_cells:
  "pages_ok False p as va len \<Longrightarrow> copy_in_loop p as va len m = Some (map m (user_cells p as va len))"
proof (induction p as va len m rule: copy_in_loop.induct)
  case (1 p as va len m)
  show ?case
  proof (cases "len = 0")
    case True
    then show ?thesis by (simp add: copy_in_loop.simps user_cells.simps)
  next
    case False
    have ok: "entry_user_ok False (paging_get_entry p as (va AND NOT 0xFFF))" "paging_translate p as va \<noteq> 0"
        "pages_ok False p as (va + of_nat (min (page_left va) len)) (len - page_left va)"
      using "1.prems" False by (simp_all add: pages_ok.simps [of False p as va])
    show ?thesis
      using "1.IH" [OF False _ _ ok(3)] ok False
      by (simp add: copy_in_loop.simps [of p as va len] user_cells.simps [of p as va len] mem_read_cells)
  qed
qed

text \<open>A range the task can write, as the copy routine checks it.\<close>

definition user_writable :: "paging \<Rightarrow> as_ref \<Rightarrow> u64 \<Rightarrow> nat \<Rightarrow> bool" where
  "user_writable p as va len \<longleftrightarrow> user_range_ok as va len \<and> pages_ok True p as va len"

lemma copy_out_ok:
  assumes "user_writable (pg s) (t_addr_space (tsk s i)) dst (length src)" and "src \<noteq> []"
  shows "c2_user_copy_out_task s i dst src = (s\<lparr> dmem := write_cells (dmem s)
    (user_cells (pg s) (t_addr_space (tsk s i)) dst (length src)) src \<rparr>, True)"
proof -
  obtain m ok where c: "copy_out_loop (pg s) (t_addr_space (tsk s i)) dst src (dmem s) = (m, ok)" by (meson surj_pair)
  from copy_out_cells [OF c] assms c show ?thesis by (simp add: c2_user_copy_out_task_def user_writable_def)
qed

lemma copy_in_ok:
  assumes "user_writable (pg s) (t_addr_space (tsk s i)) src len" and "0 < len"
  shows "c2_user_copy_in_task s i src len = Some (map (dmem s) (user_cells (pg s) (t_addr_space (tsk s i)) src len))"
  using assms copy_in_cells [OF pages_ok_read, of True] by (simp add: c2_user_copy_in_task_def user_writable_def)

subsection \<open>Frame bytes\<close>

lemma length_le64 [simp]: "length (le64 w) = 8"
  by (simp add: le64_def)

lemma bit_fold_or:
  "bit (fold (\<lambda>k x. x OR f k) ks a) n \<longleftrightarrow> bit a n \<or> (\<exists>k \<in> set ks. bit (f k) n)" for a :: u64
  by (induction ks arbitrary: a) (auto simp: bit_or_iff)

lemma unle64_le64 [simp]: "unle64 (le64 w) = w"
proof (rule eq_bits64)
  fix n :: nat assume n: "n < 64"
  have b: "bit (push_bit (8 * k) (ucast (ucast (drop_bit (8 * k) w) :: u8)) :: u64) n \<longleftrightarrow>
      8 * k \<le> n \<and> n < 8 * k + 8 \<and> bit w n" if "k < 8" for k
    using n that unfolding bit_push64 by (auto simp: bit_ucast_iff bit_drop_bit_eq)
  have "unle64 (le64 w) = fold (\<lambda>k x. x OR push_bit (8 * k) (ucast (ucast (drop_bit (8 * k) w) :: u8))) [0..<8] 0"
    unfolding unle64_def by (rule fold_cong) (auto simp: le64_def)
  then have "bit (unle64 (le64 w)) n \<longleftrightarrow> (\<exists>k < 8. bit (push_bit (8 * k) (ucast (ucast (drop_bit (8 * k) w) :: u8)) :: u64) n)"
    by (simp only: bit_fold_or bit_0_eq) auto
  also have "\<dots> \<longleftrightarrow> bit w n"
  proof -
    have "n div 8 < 8" "8 * (n div 8) \<le> n" "n < 8 * (n div 8) + 8" using n by auto
    then show ?thesis using b by blast
  qed
  finally show "bit (unle64 (le64 w)) n = bit w n" .
qed

lemma nth_frame_word:
  "k < length ws \<Longrightarrow> take 8 (drop (8 * k) (concat (map le64 ws))) = le64 (ws ! k)"
proof (induction ws arbitrary: k)
  case (Cons w ws)
  then show ?case by (cases k) auto
qed simp

lemma length_frame [simp]: "length (concat (map le64 ws)) = 8 * length ws"
  by (induction ws) simp_all

subsection \<open>A delivery that succeeds\<close>

definition stack_ready :: "kernel \<Rightarrow> nat \<Rightarrow> bool" where
  "stack_ready s i \<longleftrightarrow>
     (let as = t_addr_space (tsk s i); sp = sig_frame_rsp (c_rsp (t_ctx (tsk s i)))
      in user_writable (pg s) as sp SIG_FRAME_SIZE \<and> user_writable (pg s) as (sp + of_nat SIG_FRAME_SIZE) 8
         \<and> user_writable (pg s) as (sp - 8) 8
         \<and> distinct (user_cells (pg s) as sp SIG_FRAME_SIZE @ user_cells (pg s) as (sp + of_nat SIG_FRAME_SIZE) 8
              @ user_cells (pg s) as (sp - 8) 8))"

definition frame_cells :: "kernel \<Rightarrow> nat \<Rightarrow> u64 list" where
  "frame_cells s i = user_cells (pg s) (t_addr_space (tsk s i)) (sig_frame_rsp (c_rsp (t_ctx (tsk s i)))) SIG_FRAME_SIZE"

lemma length_sig_frame [simp]: "length (sig_frame_words b c sig) = 34"
  by (simp add: sig_frame_words_def)

lemma length_tramp [simp]: "length sigreturn_tramp = 8"
  by (simp add: sigreturn_tramp_def)

lemma tsk_dmem [simp]: "tsk (s\<lparr> dmem := m \<rparr>) i = tsk s i" "pg (s\<lparr> dmem := m \<rparr>) = pg s"
  by simp_all

definition delivered_task :: "task \<Rightarrow> nat \<Rightarrow> task" where
  "delivered_task t sig =
     (let act = t_sigactions t sig; sp = sig_frame_rsp (c_rsp (t_ctx t));
          b1 = (if sa_flags act AND 0x40000000 = 0 then sigset_add (t_sig_blocked t) sig else t_sig_blocked t)
      in t\<lparr> t_ctx := (t_ctx t)\<lparr> c_rip := sa_handler act, c_rdi := of_nat sig,
              c_rsi := sp + 248, c_rdx := sp + 24, c_rsp := sp - 8 \<rparr>,
            t_last_signal := sig, t_sig_saved_mask := t_sig_blocked t, t_sig_in_handler := True,
            t_sig_blocked := (fst b1 OR fst (sa_mask act), snd b1 OR snd (sa_mask act)),
            t_sigactions := (if sa_flags act AND 0x80000000 \<noteq> 0
              then (t_sigactions t)(sig := act\<lparr> sa_handler := SIG_DFL \<rparr>) else t_sigactions t) \<rparr>)"

lemma sig_deliver_ok:
  fixes sig :: nat
  assumes "stack_ready s i"
  defines "frame \<equiv> concat (map le64 (sig_frame_words (t_sig_blocked (tsk s i)) (t_ctx (tsk s i)) sig))"
  shows "\<exists>m. sig_deliver s i sig = upd_task (s\<lparr> dmem := m \<rparr>) i (\<lambda>t. delivered_task (tsk s i) sig)
    \<and> map m (frame_cells s i) = frame
    \<and> map m (user_cells (pg s) (t_addr_space (tsk s i)) (sig_frame_rsp (c_rsp (t_ctx (tsk s i))) - 8) 8)
        = le64 (sig_frame_rsp (c_rsp (t_ctx (tsk s i))) + of_nat SIG_FRAME_SIZE)
    \<and> map m (user_cells (pg s) (t_addr_space (tsk s i))
          (sig_frame_rsp (c_rsp (t_ctx (tsk s i))) + of_nat SIG_FRAME_SIZE) 8) = sigreturn_tramp"
proof -
  let ?as = "t_addr_space (tsk s i)" and ?sp = "sig_frame_rsp (c_rsp (t_ctx (tsk s i)))"
  let ?C = "\<lambda>a n. user_cells (pg s) ?as a n"
  let ?F = "?C ?sp SIG_FRAME_SIZE" and ?T = "?C (?sp + of_nat SIG_FRAME_SIZE) 8" and ?R = "?C (?sp - 8) 8"
  have W: "user_writable (pg s) ?as ?sp SIG_FRAME_SIZE" "user_writable (pg s) ?as (?sp + of_nat SIG_FRAME_SIZE) 8"
      "user_writable (pg s) ?as (?sp - 8) 8" and dist: "distinct (?F @ ?T @ ?R)"
    using assms(1) by (simp_all add: stack_ready_def Let_def)
  let ?ra = "le64 (?sp + of_nat SIG_FRAME_SIZE)"
  let ?m1 = "write_cells (dmem s) ?F frame"
  let ?m2 = "write_cells ?m1 ?T sigreturn_tramp" and ?ctx = "(t_ctx (tsk s i))"
  let ?m3 = "write_cells ?m2 ?R ?ra"
  have lf: "length frame = SIG_FRAME_SIZE" by (simp add: frame_def SIG_FRAME_SIZE_def)
  have c1: "c2_user_copy_out_task s i ?sp frame = (s\<lparr> dmem := ?m1 \<rparr>, True)"
  proof -
    have "frame \<noteq> []" using lf by (auto simp: SIG_FRAME_SIZE_def)
    then show ?thesis using copy_out_ok [of s i ?sp frame] W(1) unfolding lf by blast
  qed
  let ?s1 = "s\<lparr> dmem := ?m1 \<rparr>"
  have c2: "c2_user_copy_out_task ?s1 i (?sp + of_nat SIG_FRAME_SIZE) sigreturn_tramp = (?s1\<lparr> dmem := ?m2 \<rparr>, True)"
  proof -
    have "sigreturn_tramp \<noteq> []" by (simp add: sigreturn_tramp_def)
    then show ?thesis
      using copy_out_ok [of ?s1 i "?sp + of_nat SIG_FRAME_SIZE" sigreturn_tramp] W(2) by simp
  qed
  let ?s3 = "upd_task (?s1\<lparr> dmem := ?m2 \<rparr>) i (\<lambda>t. t\<lparr> t_ctx := (t_ctx t)\<lparr> c_rip := sa_handler (t_sigactions (tsk s i) sig),
      c_rsp := ?sp, c_rdi := of_nat sig, c_rsi := ?sp + 248, c_rdx := ?sp + 24 \<rparr> \<rparr>)"
  have "le64 x \<noteq> []" for x using length_le64 [of x] by (metis length_0_conv zero_neq_numeral)
  then have c3: "c2_user_copy_out_task ?s3 i (?sp - 8) ?ra = (?s3\<lparr> dmem := ?m3 \<rparr>, True)"
    using copy_out_ok [of ?s3 i "?sp - 8" ?ra] W(3) by (simp add: tsk_upd)
  have "sig_deliver s i sig = upd_task (s\<lparr> dmem := ?m3 \<rparr>) i (\<lambda>t. delivered_task (tsk s i) sig)"
    unfolding sig_deliver_def Let_def frame_def [symmetric] c1 c2 c3 prod.case bool.case
    by (simp add: upd_task_def delivered_task_def Let_def)
  moreover have "map ?m3 ?F = frame"
  proof -
    have "map ?m3 ?F = map ?m2 ?F" by (rule write_cells_map_other) (use dist in auto)
    also have "\<dots> = map ?m1 ?F" by (rule write_cells_map_other) (use dist in auto)
    also have "\<dots> = frame" by (rule write_cells_read) (use dist lf in simp_all)
    finally show ?thesis .
  qed
  moreover have "map ?m3 ?T = sigreturn_tramp"
  proof -
    have "map ?m3 ?T = map ?m2 ?T" by (rule write_cells_map_other) (use dist in auto)
    also have "\<dots> = sigreturn_tramp" by (rule write_cells_read) (use dist in simp_all)
    finally show ?thesis .
  qed
  moreover have "map ?m3 ?R = ?ra" by (rule write_cells_read) (use dist in simp_all)
  ultimately show ?thesis unfolding frame_cells_def by blast
qed

text \<open>Signals that are not pending, or blocked, are passed over.\<close>

definition deliverable :: "task \<Rightarrow> nat \<Rightarrow> bool" where
  "deliverable t sig \<longleftrightarrow> sigset_has (t_sig_pending t) sig \<and> \<not> sigset_has (t_sig_blocked t) sig"

lemma sig_loop_skip:
  "\<forall>l \<in> set ls. \<not> deliverable (tsk s i) l \<Longrightarrow> sig_loop i (ls @ rest) s = sig_loop i rest s"
  by (induction ls) (auto simp: deliverable_def Let_def)

lemma sig_check_first:
  assumes "t_used (tsk s i)" and "\<not> t_sig_in_handler (tsk s i)" and "c_cs (t_ctx (tsk s i)) \<in> {0x28, 0x23}"
    and "0 < sig" "sig < NSIG" and "deliverable (tsk s i) sig" and "\<forall>l. 0 < l \<longrightarrow> l < sig \<longrightarrow> \<not> deliverable (tsk s i) l"
    and "sa_handler (t_sigactions (tsk s i) sig) \<notin> {SIG_DFL, SIG_IGN}"
  shows "sig_check_pending s i =
    sig_deliver (upd_task s i (\<lambda>t. t\<lparr> t_sig_pending := sigset_del (t_sig_pending t) sig \<rparr>)) i sig"
proof -
  have "[1..<NSIG] = [1..<sig] @ sig # [Suc sig..<NSIG]"
    using assms(4,5) by (metis One_nat_def Suc_leI less_imp_le_nat upt_add_eq_append le_add_diff_inverse upt_conv_Cons)
  then have "sig_check_pending s i = sig_loop i ([1..<sig] @ sig # [Suc sig..<NSIG]) s"
    using assms(1-3) by (auto simp: sig_check_pending_def)
  also have "\<dots> = sig_loop i (sig # [Suc sig..<NSIG]) s" by (rule sig_loop_skip) (use assms(7) in auto)
  also have "\<dots> = sig_deliver (upd_task s i (\<lambda>t. t\<lparr> t_sig_pending := sigset_del (t_sig_pending t) sig \<rparr>)) i sig"
    using assms(6,8) by (simp add: deliverable_def Let_def)
  finally show ?thesis .
qed

lemma restore_ok:
  assumes u: "t_used (tsk s2 i)" and rsp: "c_rsp (t_ctx (tsk s2 i)) = sp"
    and w: "user_writable (pg s2) (t_addr_space (tsk s2 i)) sp SIG_FRAME_SIZE"
    and m: "map (dmem s2) (user_cells (pg s2) (t_addr_space (tsk s2 i)) sp SIG_FRAME_SIZE)
      = concat (map le64 (sig_frame_words bl c sig))"
  shows "\<exists>s3. sig_restore_context s2 i = (s3, Inr (c_rax c)) \<and> t_sig_blocked (tsk s3 i) = bl
    \<and> \<not> t_sig_in_handler (tsk s3 i)
    \<and> t_ctx (tsk s3 i) = c\<lparr> c_rflags := c_rflags c OR 0x202, c_cs := c_cs (t_ctx (tsk s2 i)),
        c_ss := c_ss (t_ctx (tsk s2 i)), c_fs_base := c_fs_base (t_ctx (tsk s2 i)),
        c_gs_base := c_gs_base (t_ctx (tsk s2 i)) \<rparr>"
proof -
  let ?bs = "concat (map le64 (sig_frame_words bl c sig))"
  have c: "c2_user_copy_in_task s2 i (c_rsp (t_ctx (tsk s2 i))) SIG_FRAME_SIZE = Some ?bs"
    using copy_in_ok [OF w] m by (simp add: rsp SIG_FRAME_SIZE_def)
  have wd: "unle64 (take 8 (drop (8 * k) ?bs)) = sig_frame_words bl c sig ! k" if "k < 34" for k
    using nth_frame_word [of k "sig_frame_words bl c sig"] that by simp
  show ?thesis
    unfolding sig_restore_context_def c using u
    by (simp add: wd Let_def tsk_upd) (simp add: sig_frame_words_def)
qed

subsection \<open>Properties\<close>


subsection \<open>A concrete delivery\<close>

lemma run_cells:
  fixes a :: u64
  assumes "unat a + n < 2 ^ 64"
  shows "distinct (map (\<lambda>k. a + of_nat k) [0..<n])"
    and "x \<in> set (map (\<lambda>k. a + of_nat k) [0..<n]) \<Longrightarrow> unat a \<le> unat x \<and> unat x < unat a + n"
proof -
  have u: "unat (a + of_nat k) = unat a + k" if "k < n" for k
  proof -
    have "unat (of_nat k :: u64) = k" using that assms by (simp add: unat_of_nat)
    then show ?thesis using that assms by (subst unat_add_no_wrap) auto
  qed
  show "distinct (map (\<lambda>k. a + of_nat k) [0..<n])"
    unfolding distinct_map by (auto simp: inj_on_def) (metis u add_left_cancel)
  show "x \<in> set (map (\<lambda>k. a + of_nat k) [0..<n]) \<Longrightarrow> unat a \<le> unat x \<and> unat x < unat a + n"
    using u by auto
qed

lemma run_cells_disjoint:
  fixes a b :: u64
  assumes "unat a + n \<le> unat b" and "unat b + m < 2 ^ 64"
  shows "set (map (\<lambda>k. a + of_nat k) [0..<n]) \<inter> set (map (\<lambda>k. b + of_nat k) [0..<m]) = {}"
proof -
  have "unat x < unat b" if "x \<in> set (map (\<lambda>k. a + of_nat k) [0..<n])" for x
    using run_cells(2) [OF _ that] assms by simp
  moreover have "unat b \<le> unat x" if "x \<in> set (map (\<lambda>k. b + of_nat k) [0..<m])" for x
    using run_cells(2) [OF _ that] assms by simp
  ultimately show ?thesis by (meson disjoint_iff not_le)
qed

definition example_task :: task where
  "example_task = zero_task\<lparr> t_used := True, t_addr_space := UserAS 0,
     t_ctx := zero_context\<lparr> c_cs := 0x28, c_rsp := 0x40001000 \<rparr>, t_sig_pending := (4, 0),
     t_sigactions := (\<lambda>_. default_action)(2 := default_action\<lparr> sa_handler := 0x400000 \<rparr>) \<rparr>"

definition example_kernel :: "paging \<Rightarrow> kernel" where
  "example_kernel p = \<lparr> pg = p, dmem = (\<lambda>_. 0), kmem = (\<lambda>_. 0), g_kstacks = 0, clone3_entry = 0,
     g_tasks = (\<lambda>_. zero_task)(1 := example_task), g_current_task = 1, g_task_next_pid = 2,
     g_user_foreground_active = False, g_kernel_preempt_disable = 0, released = [] \<rparr>"

lemma example_rsp: "sig_frame_rsp 0x40001000 = 0x40000EE0"
  by (simp add: sig_frame_rsp_def SIG_FRAME_SIZE_def)

lemma example_stack:
  "\<exists>p. stack_ready (example_kernel p) 1"
proof -
  obtain p where m: "paging_map paging_example (UserAS 0) 0x40000000 0x300000 7 = (p, True)"
    using paging_map_succeeds_witness by blast
  have r: "as_pml4 (get_as paging_example (UserAS 0)) \<in> {example_root}" by (simp add: paging_example_root)
  have "page_written paging_example p {example_root} {example_root} (UserAS 0) 0x40000000
      (0x300000 OR c2_sanitize_page_flags paging_example 7)"
    using paging_map_steps [OF paging_example_space refl r _ m] page_writtenI [OF _ _ paging_example_ready]
    by (simp add: example_virt(1) paging_example_root)
  moreover have "0x300000 OR c2_sanitize_page_flags paging_example 7 = 0x300007"
    by (simp add: c2_sanitize_page_flags_def paging_example_def)
  ultimately have w: "page_written paging_example p {example_root} {example_root} (UserAS 0) 0x40000000 0x300007" by simp
  have e: "paging_get_entry p (UserAS 0) 0x40000000 = 0x300007" using w by (simp add: page_written_def)
  have t: "paging_translate p (UserAS 0) v = 0x300000 OR (v AND 0xFFF)" if "idx v = idx 0x40000000" for v
    using w r that by (auto simp: page_written_def page_entry_xl_def PAGE_PRESENT_def C2_PTE_ADDR_MASK_def)
  have ix: "idx 0x40000EE0 = idx 0x40000000" "idx 0x40000FF0 = idx 0x40000000" "idx 0x40000ED8 = idx 0x40000000"
    by (simp_all add: idx_def pt_index_def drop_bit_eq_div)
  have ok: "entry_user_ok True 0x300007" by (simp add: entry_user_ok_def page_flags)
  have pl: "page_left 0x40000EE0 = 288" "page_left 0x40000FF0 = 16" "page_left 0x40000ED8 = 296"
    by (simp_all add: page_left_def)
  have tr: "paging_translate p (UserAS 0) 0x40000EE0 = 0x300EE0" "paging_translate p (UserAS 0) 0x40000FF0 = 0x300FF0"
      "paging_translate p (UserAS 0) 0x40000ED8 = 0x300ED8"
    using t [OF ix(1)] t [OF ix(2)] t [OF ix(3)] by simp_all
  let ?A = "\<lambda>a n. map (\<lambda>k. a + of_nat k) [0..<n] :: u64 list"
  have cells: "user_cells p (UserAS 0) 0x40000EE0 272 = ?A (PHYS_TO_DMAP 0x300EE0) 272"
      "user_cells p (UserAS 0) 0x40000FF0 8 = ?A (PHYS_TO_DMAP 0x300FF0) 8"
      "user_cells p (UserAS 0) 0x40000ED8 8 = ?A (PHYS_TO_DMAP 0x300ED8) 8"
    by (simp_all add: user_cells.simps [of p "UserAS 0" "_ :: u64" "Suc _"] user_cells.simps pl tr del: upt.simps)
  have pg: "pages_ok True p (UserAS 0) 0x40000EE0 272" "pages_ok True p (UserAS 0) 0x40000FF0 8"
      "pages_ok True p (UserAS 0) 0x40000ED8 8"
    by (simp_all add: pages_ok.simps pl tr e ok)
  have rg: "user_range_ok (UserAS 0) 0x40000EE0 272" "user_range_ok (UserAS 0) 0x40000FF0 8"
      "user_range_ok (UserAS 0) 0x40000ED8 8"
    by (simp_all add: user_range_ok_def C2_USER_TOP_def)
  have u: "unat (PHYS_TO_DMAP 0x300EE0) = unat DMAP_BASE + 0x300EE0"
      "unat (PHYS_TO_DMAP 0x300FF0) = unat DMAP_BASE + 0x300FF0"
      "unat (PHYS_TO_DMAP 0x300ED8) = unat DMAP_BASE + 0x300ED8"
    by (simp_all add: DMAP_BASE_def)
  have ub: "unat DMAP_BASE = 2 ^ 64 - 2 ^ 47" by (rule unat_dmap)
  have d: "distinct (?A (PHYS_TO_DMAP 0x300EE0) 272 @ ?A (PHYS_TO_DMAP 0x300FF0) 8 @ ?A (PHYS_TO_DMAP 0x300ED8) 8)"
  proof -
    have "set (?A (PHYS_TO_DMAP 0x300EE0) 272) \<inter> set (?A (PHYS_TO_DMAP 0x300FF0) 8) = {}"
      by (rule run_cells_disjoint) (simp_all only: u ub, simp_all)
    moreover have "set (?A (PHYS_TO_DMAP 0x300ED8) 8) \<inter> set (?A (PHYS_TO_DMAP 0x300EE0) 272) = {}"
      by (rule run_cells_disjoint) (simp_all only: u ub, simp_all)
    moreover have "set (?A (PHYS_TO_DMAP 0x300ED8) 8) \<inter> set (?A (PHYS_TO_DMAP 0x300FF0) 8) = {}"
      by (rule run_cells_disjoint) (simp_all only: u ub, simp_all)
    moreover have "distinct (?A (PHYS_TO_DMAP 0x300EE0) 272)" "distinct (?A (PHYS_TO_DMAP 0x300FF0) 8)"
        "distinct (?A (PHYS_TO_DMAP 0x300ED8) 8)"
      by (rule run_cells(1), simp only: u ub, simp)+
    ultimately show ?thesis unfolding distinct_append set_append by blast
  qed
  have "stack_ready (example_kernel p) 1"
    using pg rg d
    by (simp add: stack_ready_def example_kernel_def example_task_def zero_task_def zero_context_def example_rsp
        SIG_FRAME_SIZE_def user_writable_def cells del: upt.simps distinct_append)
  then show ?thesis by blast
qed

end
