(* ===== verification/KSched.thy ===== *)
theory KSched
  imports KSignal
begin

text \<open>
  Creating, waiting for and scheduling tasks (\<^verbatim>\<open>src/compat/memory_tasks.c\<close>).  \<open>task_schedule\<close>
  is modelled up to the stack switch: it returns the task to switch to.  What the resumed
  task does on the way out is \<open>task_schedule_ret\<close>.  The time stamp counter and the stack
  pointer are arguments; copying the user pages in \<open>task_fork\<close> belongs to another component
  (\<^verbatim>\<open>compat3_fork_address_space\<close>) and is an argument too.
\<close>

subsection \<open>Creation\<close>

definition free_slot :: "kernel \<Rightarrow> nat option" where
  "free_slot s = find (\<lambda>i. \<not> t_used (tsk s i)) [1..<TASK_MAX]"

text \<open>Descriptor inheritance: every open slot counts one more reference.\<close>

definition inherit_fds :: "fd_table \<Rightarrow> fd_table" where
  "inherit_fds t = (\<lambda>f. if f < TASK_FD_MAX \<and> fd_kind (t f) \<noteq> FDKIND_NONE
     then (t f)\<lparr> fd_refcount := fd_refcount (t f) + 1 \<rparr> else t f)"

text \<open>The fields that all three creation functions fill in the same way.\<close>

definition new_task :: "kernel \<Rightarrow> nat \<Rightarrow> string \<Rightarrow> task" where
  "new_task s i name =
     (let c = tsk s (g_current_task s); pid = g_task_next_pid s
      in zero_task\<lparr> t_used := True, t_pid := pid, t_tgid := pid, t_ppid := t_pid c, t_fdt_group := pid,
           t_pgid := pid, t_sid := t_sid c, t_state := TASK_RUNNABLE, t_nice := 0, t_creds := t_creds c,
           t_no_timer_preempt := t_no_timer_preempt c, t_name := take (TASK_NAME_LEN - 1) name,
           t_cwd := take 127 (t_cwd c), t_kernel_stack := kstack s i,
           t_kernel_stack_top := kstack s i + TASK_KERNEL_STACK, t_fpu_used := False,
           t_brk_start := 0x800000, t_brk_current := 0x800000, t_mmap_base := 0x40000000,
           t_fdt := inherit_fds (t_fdt c) \<rparr>)"

definition user_ctx :: "u64 \<Rightarrow> u64 \<Rightarrow> cpu_context" where
  "user_ctx entry rsp = zero_context\<lparr> c_cs := 0x28, c_ss := 0x30, c_rflags := 0x200, c_rsp := rsp, c_rip := entry \<rparr>"

definition install_task :: "kernel \<Rightarrow> nat \<Rightarrow> task \<Rightarrow> kernel" where
  "install_task s i t = s\<lparr> g_tasks := (g_tasks s)(i := t), g_task_next_pid := g_task_next_pid s + 1 \<rparr>"

text \<open>The user stack of 2048 pages; a failed allocation leaves a hole.\<close>

definition stack_page :: "as_ref \<Rightarrow> paging \<Rightarrow> nat \<Rightarrow> paging" where
  "stack_page as p pgno =
     (case pmm_alloc_frame (pg_pmm p) of
        (m, f) \<Rightarrow>
          if f = 0 then p\<lparr> pg_pmm := m \<rparr>
          else fst (paging_map (p\<lparr> pg_pmm := m \<rparr>) as
                 (0x7FFFFFFFE000 - of_nat TASK_USER_STACK + of_nat pgno * PAGE_SIZE) f
                 (PAGE_PRESENT OR PAGE_WRITABLE OR PAGE_USER)))"

definition map_user_stack :: "as_ref \<Rightarrow> paging \<Rightarrow> paging" where
  "map_user_stack as p = fold (\<lambda>pgno p. stack_page as p pgno) [0..<TASK_USER_STACK div 4096] p"

definition task_create :: "kernel \<Rightarrow> string \<Rightarrow> u64 \<Rightarrow> bool \<Rightarrow> kernel \<times> int" where
  "task_create s name entry is_user =
     (case free_slot s of
        None \<Rightarrow> (s, - EAGAIN)
      | Some i \<Rightarrow>
          (let t = new_task s i name
           in if is_user
              then (case paging_create_address_space (pg s) of
                  (p, as) \<Rightarrow> (install_task (s\<lparr> pg := map_user_stack as p \<rparr>) i
                     (t\<lparr> t_addr_space := as, t_ctx := user_ctx entry (0x7FFFFFFFE000 - 16) \<rparr>), t_pid t))
              else (install_task s i (t\<lparr> t_addr_space := KernelAS,
                      t_ctx := zero_context\<lparr> c_cs := 0x08, c_ss := 0x10, c_rflags := 0x200,
                        c_rsp := t_kernel_stack_top t - 16, c_rip := entry \<rparr> \<rparr>), t_pid t)))"

definition task_create_user_shell :: "kernel \<Rightarrow> string \<Rightarrow> u64 \<Rightarrow> kernel \<times> int" where
  "task_create_user_shell s name entry =
     (case free_slot s of
        None \<Rightarrow> (s, - EAGAIN)
      | Some i \<Rightarrow>
          (case paging_create_address_space (pg s) of
             (p, as) \<Rightarrow> (install_task (s\<lparr> pg := p \<rparr>) i
                ((new_task s i name)\<lparr> t_addr_space := as, t_ctx := user_ctx entry 0 \<rparr>), t_pid (new_task s i name))))"

definition task_create_user_thread :: "kernel \<Rightarrow> string \<Rightarrow> u64 \<Rightarrow> as_ref \<Rightarrow> kernel \<times> int" where
  "task_create_user_thread s name entry shared_as =
     (if shared_as = NullAS \<or> shared_as = KernelAS then (s, - EINVAL)
      else (case free_slot s of
          None \<Rightarrow> (s, - EAGAIN)
        | Some i \<Rightarrow> (install_task s i ((new_task s i name)\<lparr> t_addr_space := shared_as, t_ctx := user_ctx entry 0 \<rparr>),
                    t_pid (new_task s i name))))"

definition task_index_of_pid :: "kernel \<Rightarrow> int \<Rightarrow> nat option" where
  "task_index_of_pid s pid = find (\<lambda>i. t_used (tsk s i) \<and> t_pid (tsk s i) = pid) [0..<TASK_MAX]"

definition task_fork :: "(kernel \<Rightarrow> nat \<Rightarrow> nat \<Rightarrow> kernel) \<Rightarrow> kernel \<Rightarrow> int \<Rightarrow> kernel \<times> int" where
  "task_fork fork_as s parent_pid =
     (case task_index_of_pid s parent_pid of
        None \<Rightarrow> (s, - ESRCH)
      | Some pi \<Rightarrow>
     (case free_slot s of
        None \<Rightarrow> (s, - EAGAIN)
      | Some ci \<Rightarrow>
          (let p = tsk s pi; pid = g_task_next_pid s; pbase = t_kernel_stack p; cbase = kstack s ci;
               rsp = (if t_kernel_rsp_saved p \<ge> pbase \<and> t_kernel_rsp_saved p < pbase + TASK_KERNEL_STACK
                      then cbase + (t_kernel_rsp_saved p - pbase) else cbase + TASK_KERNEL_STACK);
               c = p\<lparr> t_pid := pid, t_tgid := pid, t_ppid := t_pid p, t_fdt_group := pid, t_state := TASK_RUNNABLE,
                      t_kernel_stack := cbase, t_kernel_stack_top := cbase + TASK_KERNEL_STACK,
                      t_kernel_rsp_saved := rsp \<rparr>;
               s1 = s\<lparr> kmem := (\<lambda>a. if cbase \<le> a \<and> a < cbase + TASK_KERNEL_STACK then kmem s (pbase + (a - cbase))
                                  else kmem s a) \<rparr>
           in case paging_create_address_space (pg s1) of
                (pgn, as0) \<Rightarrow>
                  (let as = (if as0 = NullAS then KernelAS else as0);
                       s2 = install_task (s1\<lparr> pg := pgn \<rparr>) ci (c\<lparr> t_addr_space := as \<rparr>);
                       s3 = (if as \<noteq> KernelAS then fork_as s2 pi ci else s2)
                   in (upd_task s3 ci (\<lambda>t. t\<lparr> t_ctx := (t_ctx t)\<lparr> c_rax := 0 \<rparr>, t_clear_child_tid := 0,
                         t_robust_list_head := 0, t_robust_list_len := 0, t_fdt := inherit_fds (t_fdt t) \<rparr>), pid)))))"

text \<open>The table at boot: the kernel's own task in slot 0, its stdio on the console.\<close>

definition boot_fdt :: fd_table where
  "boot_fdt = (\<lambda>f. if f < 3 then \<lparr> fd_kind = FDKIND_DEVTTY, fd_flags = (if f = 0 then FDFL_READABLE else FDFL_WRITABLE),
     fd_ref = 0, fd_offset = 0, fd_refcount = 1 \<rparr> else no_fd)"

definition task_init :: "kernel \<Rightarrow> kernel" where
  "task_init s = s\<lparr> g_tasks := (\<lambda>_. zero_task)(0 := zero_task\<lparr>
     t_used := True, t_pid := 1, t_tgid := 1, t_ppid := 0, t_pgid := 1, t_sid := 1, t_fdt_group := 1,
     t_state := TASK_RUNNING, t_name := ''kernel'', t_cwd := ''/'', t_kernel_stack := kstack s 0,
     t_kernel_stack_top := kstack s 0 + TASK_KERNEL_STACK,
     t_kernel_rsp_saved := kstack s 0 + TASK_KERNEL_STACK - 64, t_addr_space := KernelAS,
     t_brk_start := 0x800000, t_brk_current := 0x800000, t_mmap_base := 0x40000000, t_fpu_used := True,
     t_fdt := boot_fdt \<rparr>),
     g_current_task := 0, g_task_next_pid := 2, g_user_foreground_active := False \<rparr>"

subsection \<open>The current task\<close>

definition task_current_index_usable :: "kernel \<Rightarrow> nat \<Rightarrow> bool" where
  "task_current_index_usable s ti \<longleftrightarrow> ti < TASK_MAX \<and> t_used (tsk s ti) \<and> live_state (t_state (tsk s ti))"

definition task_index_from_kernel_rsp_value :: "kernel \<Rightarrow> u64 \<Rightarrow> nat option" where
  "task_index_from_kernel_rsp_value s rsp =
     find (\<lambda>i. t_used (tsk s i) \<and> t_kernel_stack (tsk s i) \<noteq> 0 \<and> rsp \<ge> t_kernel_stack (tsk s i)
        \<and> rsp < t_kernel_stack_top (tsk s i)) [0..<TASK_MAX]"

definition task_recover_current_index :: "kernel \<Rightarrow> u64 \<Rightarrow> kernel" where
  "task_recover_current_index s rsp =
     (if task_current_index_usable s (g_current_task s) then s
      else (let ti = (case task_index_from_kernel_rsp_value s rsp of
                 Some i \<Rightarrow> i
               | None \<Rightarrow> (case find (\<lambda>i. t_used (tsk s i) \<and> t_state (tsk s i) = TASK_RUNNING) [0..<TASK_MAX] of
                     Some i \<Rightarrow> i | None \<Rightarrow> 0));
                s1 = s\<lparr> g_current_task := ti \<rparr>
            in if t_used (tsk s1 ti) \<and> t_state (tsk s1 ti) \<noteq> TASK_RUNNING \<and> live_state (t_state (tsk s1 ti))
               then upd_task s1 ti (\<lambda>t. t\<lparr> t_state := TASK_RUNNING \<rparr>) else s1))"

text \<open>The saved user frame of a system call.\<close>

definition task_capture_syscall_user_context :: "kernel \<Rightarrow> u64 list option \<Rightarrow> kernel" where
  "task_capture_syscall_user_context s frame =
     (let cur = g_current_task s
      in if cur \<ge> TASK_MAX \<or> \<not> t_used (tsk s cur) then s
         else (case frame of None \<Rightarrow> s
           | Some f \<Rightarrow> upd_task s cur (\<lambda>t. t\<lparr> t_syscall_user_frame := take 22 f, t_syscall_user_frame_valid := True,
               t_ctx := (t_ctx t)\<lparr> c_rip := f ! 17, c_rflags := f ! 19, c_rsp := f ! 20 \<rparr> \<rparr>)))"

definition task_repair_syscall_return_frame :: "kernel \<Rightarrow> u64 list \<Rightarrow> u64 list" where
  "task_repair_syscall_return_frame s frame =
     (let cur = tsk s (g_current_task s); saved = t_syscall_user_frame cur
      in if \<not> t_used cur \<or> \<not> t_syscall_user_frame_valid cur then frame
         else (let f1 = take 14 saved @ drop 14 frame;
                   f2 = (if saved ! 17 \<noteq> 0 then f1[12 := saved ! 17] else f1);
                   f3 = (if saved ! 19 \<noteq> 0 then f2[4 := saved ! 19 OR 0x202] else f2)
               in if saved ! 20 \<noteq> 0 then f3[20 := saved ! 20] else f3))"

subsection \<open>Waiting\<close>

text \<open>One round of the loop of \<open>task_waitpid\<close>: a child was reaped (its number and status), the
  call returns a value, or the caller sleeps and the next round follows a reschedule.\<close>

datatype wait_round = WaitReaped int int | WaitReturn int | WaitSleep

definition wait_match :: "kernel \<Rightarrow> nat \<Rightarrow> int \<Rightarrow> nat \<Rightarrow> bool" where
  "wait_match s cur pid i \<longleftrightarrow>
     t_used (tsk s i) \<and> t_ppid (tsk s i) = t_pid (tsk s cur) \<and>
     (if pid > 0 then t_pid (tsk s i) = pid
      else if pid = -1 then True
      else if pid = 0 then t_pgid (tsk s i) = t_pgid (tsk s cur)
      else t_pgid (tsk s i) = - pid)"

definition task_waitpid_round :: "kernel \<Rightarrow> int \<Rightarrow> bool \<Rightarrow> kernel \<times> wait_round" where
  "task_waitpid_round s pid wnohang =
     (let cur = g_current_task s
      in case find (\<lambda>i. wait_match s cur pid i \<and> t_state (tsk s i) = TASK_ZOMBIE) [0..<TASK_MAX] of
           Some i \<Rightarrow>
             (upd_task (upd_task s i (\<lambda>t. t\<lparr> t_used := False \<rparr>)) cur (\<lambda>t. t\<lparr> t_wait_pid := 0 \<rparr>),
              WaitReaped (t_pid (tsk s i)) ((t_exit_code (tsk s i) mod 256) * 256))
         | None \<Rightarrow>
             if \<not> list_ex (wait_match s cur pid) [0..<TASK_MAX]
             then (upd_task s cur (\<lambda>t. t\<lparr> t_wait_pid := 0 \<rparr>), WaitReturn (- ECHILD))
             else if wnohang then (upd_task s cur (\<lambda>t. t\<lparr> t_wait_pid := 0 \<rparr>), WaitReturn 0)
             else (upd_task s cur (\<lambda>t. t\<lparr> t_wait_pid := pid, t_state := TASK_SLEEPING \<rparr>), WaitSleep))"

text \<open>After the reschedule: a caller that nobody woke goes on polling.\<close>

definition task_waitpid_resume :: "kernel \<Rightarrow> nat \<Rightarrow> kernel" where
  "task_waitpid_resume s cur =
     (if t_state (tsk s cur) = TASK_SLEEPING then upd_task s cur (\<lambda>t. t\<lparr> t_state := TASK_RUNNING \<rparr>) else s)"

subsection \<open>Scheduling\<close>

fun wake_due :: "u64 \<Rightarrow> nat list \<Rightarrow> kernel \<Rightarrow> kernel" where
  "wake_due now [] s = s"
| "wake_due now (i # is) s =
     wake_due now is (if t_used (tsk s i) \<and> t_state (tsk s i) = TASK_SLEEPING \<and> t_sleep_until (tsk s i) \<noteq> 0
         \<and> now \<ge> t_sleep_until (tsk s i) then fst (task_make_runnable s i) else s)"

definition task_wake_due_sleepers :: "kernel \<Rightarrow> u64 \<Rightarrow> kernel" where
  "task_wake_due_sleepers s now = wake_due now [0..<TASK_MAX] s"

definition task_reject_bad_kstack :: "kernel \<Rightarrow> nat \<Rightarrow> kernel" where
  "task_reject_bad_kstack s i =
     (if i \<ge> TASK_MAX then s else upd_task s i (\<lambda>t. t\<lparr> t_state := TASK_ZOMBIE, t_exit_code := 0x7F \<rparr>))"

text \<open>The table in the order of the scans, from the slot after the current one.\<close>

definition scan_order :: "nat \<Rightarrow> nat list" where
  "scan_order start = map (\<lambda>i. (start + i) mod TASK_MAX) [0..<TASK_MAX]"

definition user_runnable :: "task \<Rightarrow> bool" where
  "user_runnable t \<longleftrightarrow> t_used t \<and> c_cs (t_ctx t) = 0x28 \<and> t_state t = TASK_RUNNABLE"

definition stale_running :: "kernel \<Rightarrow> nat \<Rightarrow> bool" where
  "stale_running s i \<longleftrightarrow> i \<noteq> g_current_task s \<and> c_cs (t_ctx (tsk s i)) = 0x28 \<and> t_used (tsk s i)
     \<and> t_state (tsk s i) = TASK_RUNNING \<and> snd (task_make_runnable s i)"

definition pick_next :: "nat \<Rightarrow> kernel \<Rightarrow> kernel \<times> nat option" where
  "pick_next start s =
     (case find (\<lambda>i. user_runnable (tsk s i) \<and> t_needs_first_launch (tsk s i)) (scan_order start) of
        Some i \<Rightarrow> (s, Some i)
      | None \<Rightarrow>
     (case find (\<lambda>i. user_runnable (tsk s i)) (scan_order start) of
        Some i \<Rightarrow> (s, Some i)
      | None \<Rightarrow>
          if g_current_task s \<ge> TASK_MAX \<or> t_state (tsk s (g_current_task s)) \<noteq> TASK_RUNNING
          then (case find (stale_running s) (scan_order start) of
              Some i \<Rightarrow> (fst (task_make_runnable s i), Some i)
            | None \<Rightarrow> (s, None))
          else (s, None)))"

text \<open>Tasks that a scan could still pick.\<close>

definition candidates :: "kernel \<Rightarrow> nat set" where
  "candidates s = {i. i < TASK_MAX \<and> t_state (tsk s i) \<in> {TASK_RUNNABLE, TASK_RUNNING}}"

lemma scan_order_lt: "i \<in> set (scan_order start) \<Longrightarrow> i < TASK_MAX"
  by (auto simp: scan_order_def TASK_MAX_def)

lemma make_runnable_state: "snd (task_make_runnable s i) \<Longrightarrow> fst (task_make_runnable s i) =
    upd_task s i (\<lambda>t. t\<lparr> t_sleep_until := 0, t_state := TASK_RUNNABLE \<rparr>)"
  by (auto simp: task_make_runnable_def split: if_splits)

lemma pick_next_candidate:
  assumes "pick_next start s = (s1, Some i)"
  shows "i < TASK_MAX \<and> t_state (tsk s1 i) = TASK_RUNNABLE \<and> candidates s1 = candidates s"
proof -
  have lt: "find P (scan_order start) = Some j \<Longrightarrow> j < TASK_MAX \<and> P j" for P j
    by (metis find_SomeD scan_order_lt)
  show ?thesis
    using assms unfolding pick_next_def
    by (auto simp: user_runnable_def stale_running_def candidates_def make_runnable_state tsk_upd
        split: option.splits if_splits dest!: lt)
qed

function sched_select :: "nat \<Rightarrow> kernel \<Rightarrow> kernel \<times> nat option" where
  "sched_select start s =
     (case pick_next start s of
        (s1, None) \<Rightarrow> (s1, None)
      | (s1, Some i) \<Rightarrow>
          if i = g_current_task s1 then (s1, None)
          else if task_kernel_rsp_frame_valid s1 (tsk s1 i) then (s1, Some i)
          else sched_select start (task_reject_bad_kstack s1 i))"
  by pat_completeness auto
termination
proof (relation "measure (\<lambda>(start, s). card (candidates s))")
  fix start s s1 y i
  assume h: "(s1, y) = pick_next start s" "y = Some i"
  then have c: "i < TASK_MAX" "t_state (tsk s1 i) = TASK_RUNNABLE" "candidates s1 = candidates s"
    using pick_next_candidate [of start s s1 i] by simp_all
  then have "candidates (task_reject_bad_kstack s1 i) = candidates s - {i}"
    by (auto simp: candidates_def task_reject_bad_kstack_def tsk_upd)
  moreover have "i \<in> candidates s" using c by (auto simp: candidates_def)
  moreover have "finite (candidates s)" by (simp add: candidates_def)
  ultimately have "card (candidates (task_reject_bad_kstack s1 i)) < card (candidates s)"
    by (metis card_Diff1_less)
  then show "((start, task_reject_bad_kstack s1 i), start, s) \<in> measure (\<lambda>(start, s). card (candidates s))"
    by simp
qed simp

declare sched_select.simps [simp del]

text \<open>Handing the CPU over to \<open>next\<close>, up to the stack switch.\<close>

definition switch_to :: "kernel \<Rightarrow> nat \<Rightarrow> kernel" where
  "switch_to s nx =
     (let prev = g_current_task s;
          s1 = upd_task s prev (\<lambda>t. t\<lparr> t_syscall_preempt_disable := g_kernel_preempt_disable s, t_fpu_used := True \<rparr>);
          s2 = (if t_state (tsk s1 prev) = TASK_RUNNING
                then upd_task s1 prev (\<lambda>t. t\<lparr> t_state := (if c_cs (t_ctx t) = 0x28 then TASK_RUNNABLE else TASK_SLEEPING) \<rparr>)
                else s1);
          s3 = upd_task (s2\<lparr> g_current_task := nx \<rparr>) nx (\<lambda>t. t\<lparr> t_state := TASK_RUNNING \<rparr>);
          s4 = s3\<lparr> g_kernel_preempt_disable := t_syscall_preempt_disable (tsk s3 nx) \<rparr>;
          s5 = sig_check_pending s4 nx
      in upd_task s5 nx (\<lambda>t. t\<lparr> t_fpu_used := True \<rparr>))"

definition task_schedule :: "kernel \<Rightarrow> u64 \<Rightarrow> u64 \<Rightarrow> kernel \<times> nat option" where
  "task_schedule s rsp now =
     (let s1 = task_recover_current_index s rsp;
          start = (g_current_task s1 + 1) mod TASK_MAX;
          s2 = task_wake_due_sleepers s1 now
      in case sched_select start s2 of
           (s3, None) \<Rightarrow> (s3, None)
         | (s3, Some i) \<Rightarrow> (switch_to s3 i, Some i))"

definition task_schedule_ret :: "kernel \<Rightarrow> u64 \<Rightarrow> kernel" where
  "task_schedule_ret s rsp = task_recover_current_index (task_recover_current_index s rsp) rsp"


subsection \<open>Invariant of the task table\<close>

text \<open>Used slots have a state and a number of their own below the counter, and only the current
  task is running.\<close>

definition tasks_ok :: "kernel \<Rightarrow> bool" where
  "tasks_ok s \<longleftrightarrow>
     g_current_task s < TASK_MAX \<and> 0 < g_task_next_pid s
     \<and> (\<forall>i < TASK_MAX. t_used (tsk s i) \<longrightarrow> t_state (tsk s i) \<noteq> TASK_FREE \<and> 0 < t_pid (tsk s i)
          \<and> t_pid (tsk s i) < g_task_next_pid s)
     \<and> (\<forall>i < TASK_MAX. \<forall>j < TASK_MAX. t_used (tsk s i) \<longrightarrow> t_used (tsk s j) \<longrightarrow>
          t_pid (tsk s i) = t_pid (tsk s j) \<longrightarrow> i = j)
     \<and> (\<forall>i < TASK_MAX. t_used (tsk s i) \<longrightarrow> t_state (tsk s i) = TASK_RUNNING \<longrightarrow> i = g_current_task s)"

text \<open>What every operation but creation and the switch itself does to the table: it frees slots,
  keeps numbers, and makes no task running.\<close>

definition calm :: "kernel \<Rightarrow> kernel \<Rightarrow> bool" where
  "calm s s' \<longleftrightarrow>
     g_current_task s' = g_current_task s \<and> g_task_next_pid s' = g_task_next_pid s
     \<and> (\<forall>i. t_pid (tsk s' i) = t_pid (tsk s i) \<and> (t_used (tsk s' i) \<longrightarrow> t_used (tsk s i))
          \<and> (t_state (tsk s' i) = TASK_RUNNING \<longrightarrow> t_state (tsk s i) = TASK_RUNNING)
          \<and> (t_used (tsk s' i) \<longrightarrow> t_state (tsk s' i) = TASK_FREE \<longrightarrow> t_state (tsk s i) = TASK_FREE))"

named_theorems calm_intros \<open>operations that are calm\<close>

lemma calm_refl [calm_intros, simp]: "calm s s"
  by (simp add: calm_def)

lemma calm_trans: "calm s s1 \<Longrightarrow> calm s1 s2 \<Longrightarrow> calm s s2"
  by (simp add: calm_def)

lemma calm_ok: "tasks_ok s \<Longrightarrow> calm s s' \<Longrightarrow> tasks_ok s'"
proof -
  assume t: "tasks_ok s" and c: "calm s s'"
  have f: "t_pid (tsk s' i) = t_pid (tsk s i)" "t_used (tsk s' i) \<Longrightarrow> t_used (tsk s i)"
    "t_state (tsk s' i) = TASK_RUNNING \<Longrightarrow> t_state (tsk s i) = TASK_RUNNING"
    "t_used (tsk s' i) \<Longrightarrow> t_state (tsk s' i) = TASK_FREE \<Longrightarrow> t_state (tsk s i) = TASK_FREE" for i
    using c unfolding calm_def by blast+
  have g: "g_current_task s' = g_current_task s" "g_task_next_pid s' = g_task_next_pid s"
    using c unfolding calm_def by blast+
  show "tasks_ok s'"
    unfolding tasks_ok_def g f(1)
  proof (intro conjI allI impI)
    show "g_current_task s < TASK_MAX" "0 < g_task_next_pid s" using t unfolding tasks_ok_def by blast+
    fix i assume i: "i < TASK_MAX" "t_used (tsk s' i)"
    show "t_state (tsk s' i) \<noteq> TASK_FREE" "0 < t_pid (tsk s i)" "t_pid (tsk s i) < g_task_next_pid s"
      using t i f(2,4) [of i] unfolding tasks_ok_def by blast+
    show "i = j" if "j < TASK_MAX" "t_used (tsk s' j)" "t_pid (tsk s i) = t_pid (tsk s j)" for j
      using t i that f(2) [of i] f(2) [of j] unfolding tasks_ok_def by blast
    show "i = g_current_task s" if "t_state (tsk s' i) = TASK_RUNNING"
      using t i that f(2,3) [of i] unfolding tasks_ok_def by blast
  qed
qed

lemma calm_fields [simp]: "g_current_task s' = g_current_task s \<Longrightarrow> g_task_next_pid s' = g_task_next_pid s \<Longrightarrow>
    g_tasks s' = g_tasks s \<Longrightarrow> calm s s'"
  by (simp add: calm_def)

text \<open>Changing one task, or all of them, without touching number and use.\<close>

definition calm_task :: "task \<Rightarrow> task \<Rightarrow> bool" where
  "calm_task t t' \<longleftrightarrow> t_pid t' = t_pid t \<and> (t_used t' \<longrightarrow> t_used t)
     \<and> (t_state t' = TASK_RUNNING \<longrightarrow> t_state t = TASK_RUNNING)
     \<and> (t_used t' \<longrightarrow> t_state t' = TASK_FREE \<longrightarrow> t_state t = TASK_FREE)"

lemma calm_upd: "calm_task (tsk s i) (f (tsk s i)) \<Longrightarrow> calm s (upd_task s i f)"
  by (simp add: calm_def calm_task_def tsk_upd)

lemma calm_map: "(\<And>i. calm_task (tsk s i) (f i (tsk s i))) \<Longrightarrow> calm s (map_tasks s f)"
  by (auto simp: calm_def calm_task_def map_tasks_def)

lemma calm_make_runnable [calm_intros]: "calm s (fst (task_make_runnable s i))"
  by (auto simp: task_make_runnable_def calm_task_def intro!: calm_upd)

lemma calm_group_sync [calm_intros]: "calm s (c3_fd_group_sync_fd s owner fd)"
  by (auto simp: c3_fd_group_sync_fd_def calm_task_def intro!: calm_upd split: option.split)

lemma calm_group_clear [calm_intros]: "calm s (c3_fd_group_clear_fd s owner fd)"
  by (auto simp: c3_fd_group_clear_fd_def calm_task_def intro!: calm_map)

lemma calm_close_fd [calm_intros]: "calm s (fst (c3_close_fd_for_task s owner fd))"
proof -
  let ?s = "c3_fd_group_sync_fd s owner fd"
  have "calm ?s (c3_fd_group_clear_fd (?s\<lparr> released := r \<rparr>) owner fd)" for r
    by (rule calm_trans [of _ "?s\<lparr> released := r \<rparr>"]) (simp, rule calm_group_clear)
  then have "calm ?s (fst (c3_close_fd_for_task s owner fd))"
    by (auto simp: c3_close_fd_for_task_def Let_def calm_group_clear)
  with calm_group_sync show ?thesis by (rule calm_trans)
qed

lemma calm_close_each: "calm s (close_each s i fds)"
proof (induction fds arbitrary: s)
  case (Cons fd fds)
  show ?case using Cons.IH calm_close_fd calm_trans by (auto simp: Let_def) blast
qed simp

lemma calm_close_all [calm_intros]: "calm s (compat3_task_close_all_fds s i)"
  by (auto simp: compat3_task_close_all_fds_def calm_task_def calm_close_each intro!: calm_upd)

lemma calm_scan: "calm s (fst (scan_survivors i xs (s, v)))"
proof (induction xs arbitrary: s v)
  case (Cons si rest)
  have w: "calm s (upd_task s si (\<lambda>t. t\<lparr> t_state := TASK_RUNNABLE \<rparr>))" by (rule calm_upd) (simp add: calm_task_def)
  have r: "calm s (fst (scan_survivors i rest (upd_task s si (\<lambda>t. t\<lparr> t_state := TASK_RUNNABLE \<rparr>), v1)))" for v1
    by (rule calm_trans [OF w Cons.IH])
  show ?case unfolding scan_survivors.simps Let_def by (simp add: Cons.IH r)
qed simp

lemma calm_release_siblings [calm_intros]: "calm s (exit_release_siblings s i)"
proof -
  obtain s1 v where r: "scan_survivors i [0..<TASK_MAX] (s, \<lparr> shared_user_survivor = False,
      runnable_user_survivor = False, first_sleeping_survivor = None \<rparr>) = (s1, v)" by (meson surj_pair)
  have "calm s s1" using calm_scan [of s i "[0..<TASK_MAX]"] r by (metis fst_conv)
  moreover have "calm s1 (fst (task_make_runnable s1 j))" for j by (rule calm_make_runnable)
  moreover have "calm s2 (s2\<lparr> g_user_foreground_active := False \<rparr>)" for s2 by simp
  ultimately show ?thesis
    unfolding exit_release_siblings_def r using calm_trans by (auto simp: Let_def split: option.split)
qed

lemma calm_wake_parent [calm_intros]: "calm s (exit_wake_parent s i pid pp)"
proof -
  have "calm s (upd_task (fst (task_make_runnable s j)) j (\<lambda>t. t\<lparr> t_wait_pid := 0 \<rparr>))" for j
    by (rule calm_trans [OF calm_make_runnable]) (rule calm_upd, simp add: calm_task_def)
  then show ?thesis
    unfolding exit_wake_parent_def
    using calm_make_runnable by (auto simp: Let_def split: option.split prod.split) (metis fst_conv)+
qed

lemma calm_reparent [calm_intros]: "calm s (exit_reparent s pid)"
  by (auto simp: exit_reparent_def calm_task_def intro!: calm_map)

lemma calm_exit [calm_intros]: "calm s (task_exit s pid code)"
proof (cases "find (\<lambda>i. t_used (tsk s i) \<and> t_pid (tsk s i) = pid) [0..<TASK_MAX]")
  case None
  then show ?thesis by (simp add: task_exit_def)
next
  case (Some i)
  have z: "calm s2 (upd_task s2 i (\<lambda>t. t\<lparr> t_state := TASK_ZOMBIE, t_exit_code := code \<rparr>))" for s2
    by (rule calm_upd) (simp add: calm_task_def)
  have fr: "calm s2 (upd_task s2 i (\<lambda>t. t\<lparr> t_state := TASK_FREE, t_used := False \<rparr>))" for s2
    by (rule calm_upd) (simp add: calm_task_def)
  define s1 where "s1 = (if i = g_current_task s then exit_release_siblings s i else s)"
  define s2 where "s2 = upd_task s1 i (\<lambda>t. t\<lparr> t_state := TASK_ZOMBIE, t_exit_code := code \<rparr>)"
  define s3 where "s3 = exit_wake_parent s2 i pid (t_ppid (tsk s i))"
  define s5 where "s5 = exit_reparent (compat3_task_close_all_fds s3 i) pid"
  have "calm s s1" by (simp add: s1_def calm_release_siblings)
  then have "calm s s2" unfolding s2_def using z by (rule calm_trans)
  then have "calm s s3" unfolding s3_def using calm_wake_parent by (rule calm_trans)
  then have "calm s (compat3_task_close_all_fds s3 i)" using calm_close_all by (rule calm_trans)
  then have s5: "calm s s5" unfolding s5_def using calm_reparent by (rule calm_trans)
  have "task_exit s pid code = s5 \<or> task_exit s pid code = upd_task s5 i (\<lambda>t. t\<lparr> t_state := TASK_FREE, t_used := False \<rparr>)"
    unfolding task_exit_def Some option.case Let_def s5_def s3_def s2_def s1_def by presburger
  with s5 calm_trans [OF s5 fr] show ?thesis by metis
qed

lemma calm_default_action [calm_intros]: "calm s (sig_default_action s i sig)"
  by (auto simp: sig_default_action_def calm_exit calm_make_runnable calm_task_def intro!: calm_upd)

lemma calm_copy_out [calm_intros]: "c2_user_copy_out_task s i a bs = (s1, ok) \<Longrightarrow> calm s s1"
  by (auto simp: c2_user_copy_out_task_def split: if_splits prod.splits)

lemma calm_deliver [calm_intros]: "calm s (sig_deliver s i sig)"
proof -
  let ?nr = "sig_frame_rsp (c_rsp (t_ctx (tsk s i)))"
  obtain s1 ok1 where c1: "c2_user_copy_out_task s i ?nr (concat (map le64 (sig_frame_words
      (t_sig_blocked (tsk s i)) (t_ctx (tsk s i)) sig))) = (s1, ok1)" by fastforce
  obtain s2 ok2 where c2: "c2_user_copy_out_task s1 i (?nr + of_nat SIG_FRAME_SIZE) sigreturn_tramp = (s2, ok2)" by fastforce
  have k1: "calm s s1" by (rule calm_copy_out [OF c1])
  have k2: "calm s s2" by (rule calm_trans [OF k1 calm_copy_out [OF c2]])
  have u: "calm s' (upd_task s' i f)" if "\<And>t. calm_task t (f t)" for s' f using that by (rule calm_upd)
  have d: "calm s (sig_default_action s' i SIGSEGV)" if "calm s s'" for s'
    using that calm_default_action by (rule calm_trans)
  define s3 where "s3 = upd_task s2 i (\<lambda>t. t\<lparr> t_ctx := (t_ctx t)\<lparr> c_rip := sa_handler (t_sigactions (tsk s i) sig),
      c_rsp := ?nr, c_rdi := of_nat sig, c_rsi := ?nr + 248, c_rdx := ?nr + 24 \<rparr> \<rparr>)"
  obtain s4 ok4 where c4: "c2_user_copy_out_task s3 i (?nr - 8) (le64 (?nr + of_nat SIG_FRAME_SIZE)) = (s4, ok4)" by fastforce
  have "calm s s3" unfolding s3_def by (rule calm_trans [OF k2 u]) (simp add: calm_task_def)
  then have k4: "calm s s4" using calm_copy_out [OF c4] by (rule calm_trans)
  have k5: "calm s (upd_task s4 i f)" if "\<And>t. calm_task t (f t)" for f by (rule calm_trans [OF k4 u [OF that]])
  show ?thesis
  proof (cases "ok1 \<and> ok2 \<and> ok4")
    case True
    then show ?thesis
      unfolding sig_deliver_def Let_def c1 prod.case
      apply (simp only: bool.case c2 prod.case s3_def [symmetric] c4)
      apply (rule k5)
      apply (simp add: calm_task_def)
      done
  next
    case False
    then show ?thesis
      unfolding sig_deliver_def Let_def c1 prod.case
      by (cases ok1; cases ok2) (simp_all only: bool.case c2 prod.case s3_def [symmetric] c4 d k1 k2 k4 simp_thms)
  qed
qed


lemma calm_sig_loop: "calm s (sig_loop i sigs s)"
proof (induction sigs arbitrary: s)
  case (Cons sig rest)
  let ?s1 = "upd_task s i (\<lambda>t. t\<lparr> t_sig_pending := sigset_del (t_sig_pending t) sig \<rparr>)"
  have u: "calm s ?s1" by (rule calm_upd) (simp add: calm_task_def)
  have "calm s (sig_loop i rest ?s1)" by (rule calm_trans [OF u Cons.IH])
  moreover have "calm s (sig_loop i rest (sig_default_action ?s1 i sig))"
    by (rule calm_trans [OF u calm_trans [OF calm_default_action Cons.IH]])
  moreover have "calm s (sig_deliver ?s1 i sig)" by (rule calm_trans [OF u calm_deliver])
  ultimately show ?case unfolding sig_loop.simps Let_def using Cons.IH [of s] by presburger
qed simp

lemma calm_check_pending [calm_intros]: "calm s (sig_check_pending s i)"
  by (simp add: sig_check_pending_def calm_sig_loop)

lemma calm_enqueue [calm_intros]: "calm s (sig_enqueue s i sig)"
proof -
  have mr: "calm s (if P then fst (task_make_runnable s' i) else s')" if "calm s s'" for P s'
    using that calm_make_runnable calm_trans by auto
  have u: "calm s (upd_task s' i f)" if "calm s s'" "\<And>t. calm_task t (f t)" for s' f
    using that calm_upd calm_trans by blast
  show ?thesis
    unfolding sig_enqueue_def Let_def
    by (cases "sig = 0 \<or> sig \<ge> NSIG") (simp, simp only: if_False, rule mr, rule mr, rule u,
      auto intro!: calm_upd simp: calm_task_def)
qed

lemma calm_send_loop: "calm s (fst (sig_send_loop pid sig cg is (s, n)))"
proof (induction "is" arbitrary: s n)
  case (Cons i rest)
  have "calm s (fst (sig_send_loop pid sig cg rest (sig_enqueue s i sig, m)))" for m
    by (rule calm_trans [OF calm_enqueue Cons.IH])
  then show ?case using Cons.IH by simp
qed simp

lemma calm_send [calm_intros]: "calm s (fst (sig_send s pid sig))"
proof -
  obtain s1 n f where "sig_send_loop pid (nat sig) (t_pgid (tsk s (g_current_task s))) [0..<TASK_MAX] (s, 0) = (s1, n, f)"
    by (metis prod_cases3)
  then show ?thesis
    using calm_send_loop [of s pid "nat sig" "t_pgid (tsk s (g_current_task s))" "[0..<TASK_MAX]" 0]
    by (simp add: sig_send_def Let_def)
qed

lemma calm_wake_due: "calm s (wake_due now is s)"
proof (induction "is" arbitrary: s)
  case (Cons i rest)
  have "calm s (wake_due now rest (fst (task_make_runnable s i)))" by (rule calm_trans [OF calm_make_runnable Cons.IH])
  then show ?case using Cons.IH by simp
qed simp

lemma calm_wake_sleepers [calm_intros]: "calm s (task_wake_due_sleepers s now)"
  by (simp add: task_wake_due_sleepers_def calm_wake_due)

lemma calm_reject [calm_intros]: "calm s (task_reject_bad_kstack s i)"
  by (auto simp: task_reject_bad_kstack_def calm_task_def intro!: calm_upd)

lemma calm_pick_next: "calm s (fst (pick_next start s))"
  by (auto simp: pick_next_def calm_make_runnable split: option.split)

lemma calm_sched_select: "calm s (fst (sched_select start s))"
proof (induction start s rule: sched_select.induct)
  case (1 start s)
  obtain s1 r where p: "pick_next start s = (s1, r)" by fastforce
  have c: "calm s s1" using calm_pick_next [of s start] by (simp add: p)
  show ?case
  proof (cases r)
    case None
    then show ?thesis using c by (simp add: sched_select.simps [of start s] p)
  next
    case (Some i)
    have "calm s1 (fst (sched_select start (task_reject_bad_kstack s1 i)))"
      if "i \<noteq> g_current_task s1" "\<not> task_kernel_rsp_frame_valid s1 (tsk s1 i)"
      by (rule calm_trans [OF calm_reject]) (rule 1 [OF p [symmetric] Some that])
    with c calm_trans Some show ?thesis by (auto simp: sched_select.simps [of start s] p)
  qed
qed

lemma calm_waitpid_round [calm_intros]: "calm s (fst (task_waitpid_round s pid wnohang))"
proof -
  have u: "calm s (upd_task s' i f)" if "calm s s'" "\<And>t. calm_task t (f t)" for s' i f
    using that calm_upd calm_trans by blast
  show ?thesis
    unfolding task_waitpid_round_def Let_def
    by (auto split: option.split intro!: u simp: calm_task_def)
qed


subsection \<open>Every operation keeps the invariant\<close>

lemma tasks_ok_init: "tasks_ok (task_init s)"
  by (auto simp: tasks_ok_def task_init_def zero_task_def TASK_MAX_def)

lemma free_slotD: "free_slot s = Some i \<Longrightarrow> 1 \<le> i \<and> i < TASK_MAX \<and> \<not> t_used (tsk s i)"
  unfolding free_slot_def by (drule find_SomeD) auto

lemma tasks_ok_same_table:
  "tasks_ok s \<Longrightarrow> g_tasks s' = g_tasks s \<Longrightarrow> g_current_task s' = g_current_task s \<Longrightarrow>
     g_task_next_pid s' = g_task_next_pid s \<Longrightarrow> tasks_ok s'"
  by (simp add: tasks_ok_def)

lemma tasks_ok_install:
  assumes "tasks_ok s" "\<not> t_used (tsk s i)" "t_pid t = g_task_next_pid s" "t_state t = TASK_RUNNABLE"
  shows "tasks_ok (install_task s i t)"
proof -
  have lt: "t_used (tsk s j) \<Longrightarrow> j < TASK_MAX \<Longrightarrow> t_pid (tsk s j) < g_task_next_pid s" for j
    using assms(1) unfolding tasks_ok_def by blast
  have pos: "g_current_task s < TASK_MAX" "0 < g_task_next_pid s"
    using assms(1) unfolding tasks_ok_def by blast+
  have used: "t_state (tsk s j) \<noteq> TASK_FREE \<and> 0 < t_pid (tsk s j)" if "t_used (tsk s j)" "j < TASK_MAX" for j
    using assms(1) that unfolding tasks_ok_def by blast
  have inj: "j = k" if "t_used (tsk s j)" "t_used (tsk s k)" "j < TASK_MAX" "k < TASK_MAX" "t_pid (tsk s j) = t_pid (tsk s k)" for j k
    using assms(1) that unfolding tasks_ok_def by blast
  have run: "j = g_current_task s" if "t_used (tsk s j)" "j < TASK_MAX" "t_state (tsk s j) = TASK_RUNNING" for j
    using assms(1) that unfolding tasks_ok_def by blast
  let ?s' = "install_task s i t"
  have tk: "tsk ?s' j = (if j = i then t else tsk s j)" for j by (simp add: install_task_def)
  have g: "g_current_task ?s' = g_current_task s" "g_task_next_pid ?s' = g_task_next_pid s + 1"
    by (simp_all add: install_task_def)
  show ?thesis
    unfolding tasks_ok_def g
  proof (intro conjI allI impI)
    show "g_current_task s < TASK_MAX" "0 < g_task_next_pid s + 1" using pos by simp_all
    fix j assume j: "j < TASK_MAX" "t_used (tsk ?s' j)"
    show "t_state (tsk ?s' j) \<noteq> TASK_FREE" "0 < t_pid (tsk ?s' j)" "t_pid (tsk ?s' j) < g_task_next_pid s + 1"
      using j used [of j] lt [of j] pos assms(3,4) by (cases "j = i"; simp add: tk)+
    show "j = k" if "k < TASK_MAX" "t_used (tsk ?s' k)" "t_pid (tsk ?s' j) = t_pid (tsk ?s' k)" for k
      using j that inj [of j k] lt [of j] lt [of k] assms(3) by (cases "j = i"; cases "k = i") (auto simp: tk)
    show "j = g_current_task s" if "t_state (tsk ?s' j) = TASK_RUNNING"
      using j that run [of j] assms(4) by (cases "j = i") (auto simp: tk)
  qed
qed

lemma new_task_fields: "t_pid (new_task s i n) = g_task_next_pid s" "t_state (new_task s i n) = TASK_RUNNABLE"
  by (simp_all add: new_task_def Let_def)

lemma tasks_ok_create: "tasks_ok s \<Longrightarrow> tasks_ok (fst (task_create s n e u))"
  by (auto simp: task_create_def Let_def new_task_fields split: option.split prod.split dest!: free_slotD
      intro!: tasks_ok_install intro: tasks_ok_same_table)

lemma tasks_ok_shell: "tasks_ok s \<Longrightarrow> tasks_ok (fst (task_create_user_shell s n e))"
  by (auto simp: task_create_user_shell_def Let_def new_task_fields split: option.split prod.split dest!: free_slotD
      intro!: tasks_ok_install intro: tasks_ok_same_table)

lemma tasks_ok_thread: "tasks_ok s \<Longrightarrow> tasks_ok (fst (task_create_user_thread s n e as))"
  by (auto simp: task_create_user_thread_def Let_def new_task_fields split: option.split dest!: free_slotD
      intro!: tasks_ok_install)

lemma tasks_ok_fork:
  assumes "tasks_ok s" "\<forall>s pi ci. calm s (fork_as s pi ci)"
  shows "tasks_ok (fst (task_fork fork_as s pid))"
proof (cases "task_index_of_pid s pid")
  case None
  then show ?thesis using assms by (simp add: task_fork_def)
next
  case pi: (Some pi)
  show ?thesis
  proof (cases "free_slot s")
    case None
    then show ?thesis using assms pi by (simp add: task_fork_def)
  next
    case (Some ci)
    note f = free_slotD [OF Some]
    have ins: "tasks_ok (install_task (s\<lparr> kmem := k, pg := p \<rparr>) ci t)"
      if "t_pid t = g_task_next_pid s" "t_state t = TASK_RUNNABLE" for k p t
      using that f by (intro tasks_ok_install) (auto intro: tasks_ok_same_table [OF assms(1)])
    have c: "calm s1 (upd_task (if P then fork_as s1 pi ci else s1) ci g)" if g: "\<And>t. calm_task t (g t)" for s1 g P
    proof -
      have "calm s1 (if P then fork_as s1 pi ci else s1)" using assms(2) by simp
      then show ?thesis by (rule calm_trans) (rule calm_upd, rule g)
    qed
    show ?thesis
      unfolding task_fork_def pi Some option.case Let_def
      by (simp split: prod.split) (intro allI impI conjI, auto intro!: calm_ok [OF ins c [where P = True, simplified]]
          calm_ok [OF ins c [where P = False, simplified]] simp: calm_task_def)
  qed
qed

lemma tasks_ok_switch:
  assumes "tasks_ok s" "nx < TASK_MAX"
  shows "tasks_ok (switch_to s nx)"
proof -
  let ?prev = "g_current_task s"
  define s2 where "s2 = (let s1 = upd_task s ?prev (\<lambda>t. t\<lparr> t_syscall_preempt_disable := g_kernel_preempt_disable s, t_fpu_used := True \<rparr>)
      in if t_state (tsk s1 ?prev) = TASK_RUNNING
         then upd_task s1 ?prev (\<lambda>t. t\<lparr> t_state := (if c_cs (t_ctx t) = 0x28 then TASK_RUNNABLE else TASK_SLEEPING) \<rparr>) else s1)"
  define s3 where "s3 = upd_task (s2\<lparr> g_current_task := nx \<rparr>) nx (\<lambda>t. t\<lparr> t_state := TASK_RUNNING \<rparr>)"
  define s4 where "s4 = s3\<lparr> g_kernel_preempt_disable := t_syscall_preempt_disable (tsk s3 nx) \<rparr>"
  have "tasks_ok s2"
    unfolding s2_def Let_def
    by (rule calm_ok [OF assms(1)]) (auto simp: calm_def tsk_upd)
  moreover have "g_current_task s2 = ?prev" by (simp add: s2_def Let_def)
  moreover have "t_state (tsk s2 ?prev) \<noteq> TASK_RUNNING" by (simp add: s2_def Let_def tsk_upd)
  ultimately have "tasks_ok s3"
    using assms(2) unfolding s3_def tasks_ok_def by (simp add: tsk_upd) metis
  then have "tasks_ok s4" unfolding s4_def by (rule tasks_ok_same_table) simp_all
  then have "tasks_ok (sig_check_pending s4 nx)" using calm_check_pending by (rule calm_ok)
  then have "tasks_ok (upd_task (sig_check_pending s4 nx) nx (\<lambda>t. t\<lparr> t_fpu_used := True \<rparr>))"
    by (rule calm_ok) (rule calm_upd, simp add: calm_task_def)
  then show ?thesis unfolding switch_to_def Let_def s4_def s3_def s2_def .
qed

lemma tasks_ok_recover: "tasks_ok s \<Longrightarrow> tasks_ok (task_recover_current_index s rsp)"
proof -
  assume ok: "tasks_ok s"
  have lt: "(case task_index_from_kernel_rsp_value s rsp of Some i \<Rightarrow> i
      | None \<Rightarrow> (case find (\<lambda>i. t_used (tsk s i) \<and> t_state (tsk s i) = TASK_RUNNING) [0..<TASK_MAX] of
                  Some i \<Rightarrow> i | None \<Rightarrow> 0)) < TASK_MAX" (is "?ti < _")
    by (auto simp: task_index_from_kernel_rsp_value_def TASK_MAX_def split: option.split dest!: find_SomeD)
  show ?thesis
  proof (cases "task_current_index_usable s (g_current_task s)")
    case False
    have nr: "t_used (tsk s i) \<Longrightarrow> i < TASK_MAX \<Longrightarrow> t_state (tsk s i) \<noteq> TASK_RUNNING" for i
      using ok False unfolding tasks_ok_def task_current_index_usable_def live_state_def by fastforce
    then show ?thesis
      using ok lt False unfolding tasks_ok_def task_recover_current_index_def
      by (auto simp: Let_def tsk_upd)
  qed (use ok in \<open>simp add: task_recover_current_index_def\<close>)
qed

lemma sched_select_lt:
  "sched_select start s = (s', Some i) \<Longrightarrow> i < TASK_MAX"
proof (induction start s rule: sched_select.induct)
  case (1 start s)
  obtain s1 r where p: "pick_next start s = (s1, r)" by fastforce
  then show ?case
    using 1 pick_next_candidate [of start s s1] by (cases r) (auto simp: sched_select.simps [of start s] split: if_splits)
qed

lemma tasks_ok_schedule: "tasks_ok s \<Longrightarrow> tasks_ok (fst (task_schedule s rsp now))"
proof -
  assume ok: "tasks_ok s"
  let ?s1 = "task_recover_current_index s rsp"
  let ?s2 = "task_wake_due_sleepers ?s1 now"
  obtain s3 r where r: "sched_select ((g_current_task ?s1 + 1) mod TASK_MAX) ?s2 = (s3, r)" by fastforce
  have "tasks_ok ?s2" by (rule calm_ok [OF tasks_ok_recover [OF ok] calm_wake_sleepers])
  moreover have "calm ?s2 s3" using calm_sched_select r by (metis fst_conv)
  ultimately have "tasks_ok s3" by (rule calm_ok)
  then show ?thesis
    using r sched_select_lt tasks_ok_switch by (cases r) (auto simp: task_schedule_def Let_def)
qed

lemma tasks_ok_resume: "tasks_ok s \<Longrightarrow> tasks_ok (task_waitpid_resume s (g_current_task s))"
  by (auto simp: tasks_ok_def task_waitpid_resume_def tsk_upd)

lemma calm_restore [calm_intros]: "calm s (fst (sig_restore_context s i))"
  by (auto simp: sig_restore_context_def Let_def calm_default_action calm_task_def split: option.split intro!: calm_upd)

lemma calm_capture [calm_intros]: "calm s (task_capture_syscall_user_context s f)"
  by (auto simp: task_capture_syscall_user_context_def Let_def calm_task_def split: option.split intro!: calm_upd)


subsection \<open>Reachable task tables\<close>

text \<open>Everything the kernel does to the table, in any order.  The clone of the user pages in
  \<open>task_fork\<close> is only required to be calm; \<open>memory\<close> stands for the rest of the system, which
  changes memory and page tables but not the table.\<close>

inductive task_step :: "kernel \<Rightarrow> kernel \<Rightarrow> bool" where
  create: "task_step s (fst (task_create s name entry is_user))"
| shell: "task_step s (fst (task_create_user_shell s name entry))"
| thread: "task_step s (fst (task_create_user_thread s name entry as))"
| fork: "\<forall>s pi ci. calm s (fork_as s pi ci) \<Longrightarrow> task_step s (fst (task_fork fork_as s pid))"
| exit: "task_step s (task_exit s pid code)"
| send: "task_step s (fst (sig_send s pid sig))"
| check: "task_step s (sig_check_pending s i)"
| sigreturn: "task_step s (fst (sig_restore_context s i))"
| wait_round: "task_step s (fst (task_waitpid_round s pid wnohang))"
| wait_resume: "task_step s (task_waitpid_resume s (g_current_task s))"
| schedule: "task_step s (fst (task_schedule s rsp now))"
| schedule_ret: "task_step s (task_schedule_ret s rsp)"
| syscall_entry: "task_step s (task_capture_syscall_user_context s frame)"
| memory: "task_step s (s\<lparr> pg := p, dmem := d, kmem := k \<rparr>)"

inductive task_reachable :: "kernel \<Rightarrow> bool" where
  boot: "task_reachable (task_init s)"
| step: "task_reachable s \<Longrightarrow> task_step s s' \<Longrightarrow> task_reachable s'"

lemma task_step_ok: "task_step s s' \<Longrightarrow> tasks_ok s \<Longrightarrow> tasks_ok s'"
proof (induction rule: task_step.induct)
  case (memory s p d k)
  then show ?case by (rule tasks_ok_same_table) simp_all
next
  case (fork fork_as s pid)
  then show ?case by (rule tasks_ok_fork [rotated])
next
  case (schedule_ret s rsp)
  then show ?case by (simp add: task_schedule_ret_def tasks_ok_recover)
qed (simp_all add: tasks_ok_create tasks_ok_shell tasks_ok_thread tasks_ok_resume tasks_ok_schedule
  calm_ok [OF _ calm_exit] calm_ok [OF _ calm_send] calm_ok [OF _ calm_check_pending] calm_ok [OF _ calm_restore]
  calm_ok [OF _ calm_waitpid_round] calm_ok [OF _ calm_capture])


lemma upt_task_max: "[0..<TASK_MAX] = 0 # [1..<TASK_MAX]" "[1..<TASK_MAX] = 1 # [2..<TASK_MAX]"
  by (subst upt_conv_Cons; simp add: TASK_MAX_def numeral_2_eq_2 del: upt_Suc)+

lemma boot_free_slot: "free_slot (task_init s) = Some 1"
  unfolding free_slot_def upt_task_max(2) by (simp add: task_init_def zero_task_def)


subsection \<open>What the scheduler picks\<close>

text \<open>The reference: in table order from the slot after the current task, the first task that can
  run and waits for its first launch, else the first that can run.\<close>

definition next_ok :: "kernel \<Rightarrow> nat \<Rightarrow> bool" where
  "next_ok s i \<longleftrightarrow> user_runnable (tsk s i) \<and> task_kernel_rsp_frame_valid s (tsk s i)"

definition spec_next :: "kernel \<Rightarrow> nat list \<Rightarrow> nat option" where
  "spec_next s order =
     (case find (\<lambda>i. next_ok s i \<and> t_needs_first_launch (tsk s i)) order of
        Some i \<Rightarrow> Some i
      | None \<Rightarrow> find (next_ok s) order)"

lemma frame_valid_reject [simp]:
  "task_kernel_rsp_frame_valid (task_reject_bad_kstack s i) = task_kernel_rsp_frame_valid s"
  by (auto simp: fun_eq_iff task_kernel_rsp_frame_valid_def task_reject_bad_kstack_def Let_def)

lemma find_cong_idx: "(\<And>i. i \<in> set xs \<Longrightarrow> P i = Q i) \<Longrightarrow> find P xs = find Q xs"
  by (rule find_cong) simp_all

lemma next_ok_reject:
  assumes "\<not> task_kernel_rsp_frame_valid s (tsk s i)"
  shows "next_ok (task_reject_bad_kstack s i) j = next_ok s j"
    and "t_needs_first_launch (tsk (task_reject_bad_kstack s i) j) = t_needs_first_launch (tsk s j)"
  using assms
  by (auto simp: next_ok_def user_runnable_def task_reject_bad_kstack_def tsk_upd task_kernel_rsp_frame_valid_def Let_def)

lemma spec_next_reject:
  "\<not> task_kernel_rsp_frame_valid s (tsk s i) \<Longrightarrow> spec_next (task_reject_bad_kstack s i) xs = spec_next s xs"
proof -
  assume "\<not> task_kernel_rsp_frame_valid s (tsk s i)"
  note r = next_ok_reject [OF this]
  have "next_ok (task_reject_bad_kstack s i) = next_ok s" by (rule ext) (rule r)
  then show ?thesis unfolding spec_next_def r by simp
qed

text \<open>A pick of the scans that may be switched to is the reference's.\<close>

lemma find_first_ok: "find P xs = Some i \<Longrightarrow> Q i \<Longrightarrow> (\<And>j. Q j \<Longrightarrow> P j) \<Longrightarrow> find Q xs = Some i"
  by (induction xs) (auto split: if_splits)

lemma find_none_ok: "find P xs = None \<Longrightarrow> (\<And>j. Q j \<Longrightarrow> P j) \<Longrightarrow> find Q xs = None"
  by (induction xs) (auto split: if_splits)

lemma pick_next_spec:
  assumes "t_state (tsk s (g_current_task s)) = TASK_RUNNING" "g_current_task s < TASK_MAX"
      "pick_next start s = (s1, r)"
  shows "s1 = s"
    and "r = None \<Longrightarrow> spec_next s (scan_order start) = None"
    and "r = Some i \<Longrightarrow> i \<noteq> g_current_task s"
    and "r = Some i \<Longrightarrow> task_kernel_rsp_frame_valid s (tsk s i) \<Longrightarrow> spec_next s (scan_order start) = Some i"
proof -
  show "s1 = s" using assms by (auto simp: pick_next_def split: option.splits if_splits)
  show "i \<noteq> g_current_task s" if "r = Some i"
    using assms that by (auto simp: pick_next_def user_runnable_def split: option.splits if_splits dest!: find_SomeD)
  show "spec_next s (scan_order start) = None" if "r = None"
  proof -
    have n: "find (\<lambda>i. user_runnable (tsk s i)) (scan_order start) = None"
      using assms that by (auto simp: pick_next_def split: option.splits if_splits)
    have "find (next_ok s) (scan_order start) = None"
      "find (\<lambda>i. next_ok s i \<and> t_needs_first_launch (tsk s i)) (scan_order start) = None"
      by (rule find_none_ok [OF n], simp add: next_ok_def)+
    then show ?thesis by (simp add: spec_next_def)
  qed
  show "spec_next s (scan_order start) = Some i" if "r = Some i" "task_kernel_rsp_frame_valid s (tsk s i)"
  proof (cases "find (\<lambda>i. user_runnable (tsk s i) \<and> t_needs_first_launch (tsk s i)) (scan_order start)")
    case None
    then have "find (\<lambda>i. next_ok s i \<and> t_needs_first_launch (tsk s i)) (scan_order start) = None"
      by (rule find_none_ok) (simp add: next_ok_def)
    moreover have f: "find (\<lambda>i. user_runnable (tsk s i)) (scan_order start) = Some i"
      using None assms that by (auto simp: pick_next_def split: option.splits if_splits)
    have "find (next_ok s) (scan_order start) = Some i"
      using find_SomeD [OF f] that by (intro find_first_ok [OF f]) (auto simp: next_ok_def)
    ultimately show ?thesis by (simp add: spec_next_def)
  next
    case (Some j)
    then have "j = i" using assms that by (simp add: pick_next_def)
    then have "find (\<lambda>i. next_ok s i \<and> t_needs_first_launch (tsk s i)) (scan_order start) = Some i"
      using find_SomeD [OF Some] that by (intro find_first_ok [OF Some [unfolded \<open>j = i\<close>]]) (auto simp: next_ok_def)
    then show ?thesis by (simp add: spec_next_def)
  qed
qed


lemma sched_select_spec:
  assumes "t_state (tsk s (g_current_task s)) = TASK_RUNNING" "g_current_task s < TASK_MAX"
      "sched_select start s = (s', r)"
  shows "r = spec_next s (scan_order start)
    \<and> (\<forall>i. tsk s' i = tsk s i
         \<or> user_runnable (tsk s i) \<and> \<not> task_kernel_rsp_frame_valid s (tsk s i)
           \<and> tsk s' i = (tsk s i)\<lparr> t_state := TASK_ZOMBIE, t_exit_code := 0x7F \<rparr>)
    \<and> g_current_task s' = g_current_task s \<and> kmem s' = kmem s \<and> clone3_entry s' = clone3_entry s"
  using assms
proof (induction start s rule: sched_select.induct)
  case (1 start s)
  obtain s1 r1 where p: "pick_next start s = (s1, r1)" by fastforce
  note sp = pick_next_spec [OF 1(2,3) p]
  have s1: "s1 = s" by (rule sp(1))
  show ?case
  proof (cases r1)
    case None
    then show ?thesis using 1(4) sp(2) by (simp add: sched_select.simps [of start s] p s1)
  next
    case (Some i)
    note ne = sp(3) [OF Some]
    have i: "i < TASK_MAX" "t_state (tsk s i) = TASK_RUNNABLE"
      using pick_next_candidate [of start s s1 i] p Some s1 by auto
    show ?thesis
    proof (cases "task_kernel_rsp_frame_valid s (tsk s i)")
      case True
      then show ?thesis using 1(4) sp(4) [OF Some] Some ne by (simp add: sched_select.simps [of start s] p s1)
    next
      case False
      let ?s2 = "task_reject_bad_kstack s i"
      have ur: "user_runnable (tsk s i)"
        using p Some 1(2,3) by (auto simp: pick_next_def split: option.splits if_splits dest!: find_SomeD)
      have t2: "tsk ?s2 j = (if j = i then (tsk s i)\<lparr> t_state := TASK_ZOMBIE, t_exit_code := 0x7F \<rparr> else tsk s j)" for j
        using i by (simp add: task_reject_bad_kstack_def tsk_upd)
      have g2: "g_current_task ?s2 = g_current_task s" "kmem ?s2 = kmem s" "clone3_entry ?s2 = clone3_entry s"
        using i by (simp_all add: task_reject_bad_kstack_def)
      have sel: "sched_select start ?s2 = (s', r)"
        using 1(4) Some False ne by (simp add: sched_select.simps [of start s] p s1)
      have "r = spec_next ?s2 (scan_order start)
          \<and> (\<forall>j. tsk s' j = tsk ?s2 j
               \<or> user_runnable (tsk ?s2 j) \<and> \<not> task_kernel_rsp_frame_valid ?s2 (tsk ?s2 j)
                 \<and> tsk s' j = (tsk ?s2 j)\<lparr> t_state := TASK_ZOMBIE, t_exit_code := 0x7F \<rparr>)
          \<and> g_current_task s' = g_current_task ?s2 \<and> kmem s' = kmem ?s2 \<and> clone3_entry s' = clone3_entry ?s2"
        by (rule 1(1) [OF p [unfolded s1, symmetric] Some ne False]) (use 1(2,3) ne t2 g2 sel in simp_all)
      note ih = this [unfolded g2 frame_valid_reject spec_next_reject [OF False]]
      show ?thesis
      proof (intro conjI allI)
        fix j
        show "tsk s' j = tsk s j
          \<or> user_runnable (tsk s j) \<and> \<not> task_kernel_rsp_frame_valid s (tsk s j)
            \<and> tsk s' j = (tsk s j)\<lparr> t_state := TASK_ZOMBIE, t_exit_code := 0x7F \<rparr>"
        proof (cases "j = i")
          case True
          have "\<not> user_runnable (tsk ?s2 i)" by (simp add: t2 user_runnable_def)
          then have "tsk s' i = tsk ?s2 i" using ih by blast
          then show ?thesis using True ur False by (simp add: t2)
        next
          case ji: False
          have "tsk ?s2 j = tsk s j" using ji by (simp add: t2)
          then show ?thesis using ih by metis
        qed
      qed (use ih in blast)+
    qed
  qed
qed

text \<open>Without a pending signal the switch leaves the new task running.\<close>

lemma sig_loop_none: "t_sig_pending (tsk s i) = (0, 0) \<Longrightarrow> sig_loop i sigs s = s"
  by (induction sigs) (simp_all add: Let_def sigset_has_bit)

lemma check_pending_none: "t_sig_pending (tsk s i) = (0, 0) \<Longrightarrow> sig_check_pending s i = s"
  by (simp add: sig_check_pending_def sig_loop_none)

lemma switch_running:
  assumes "t_sig_pending (tsk s nx) = (0, 0)" "nx \<noteq> g_current_task s"
  shows "t_state (tsk (switch_to s nx) nx) = TASK_RUNNING"
  using assms by (simp add: switch_to_def Let_def tsk_upd check_pending_none)

lemma switch_current: "g_current_task (switch_to s nx) = nx"
proof -
  have "g_current_task (upd_task (sig_check_pending s4 nx) nx f) = g_current_task s4" for s4 f
    using calm_check_pending [of s4 nx] by (simp add: calm_def)
  then show ?thesis by (simp add: switch_to_def Let_def)
qed


lemma set_scan_order: "set (scan_order start) = {..<TASK_MAX}"
proof -
  have "i \<in> set (scan_order start)" if "i < TASK_MAX" for i
  proof -
    have "(start + (i + (TASK_MAX - start mod TASK_MAX)) mod TASK_MAX) mod TASK_MAX
        = (start mod TASK_MAX + (i + (TASK_MAX - start mod TASK_MAX))) mod TASK_MAX" by (simp add: mod_simps)
    also have "start mod TASK_MAX + (i + (TASK_MAX - start mod TASK_MAX)) = i + TASK_MAX"
      using mod_less_divisor [of TASK_MAX start] by (simp add: TASK_MAX_def)
    finally have "i = (start + (i + (TASK_MAX - start mod TASK_MAX)) mod TASK_MAX) mod TASK_MAX" using that by simp
    then show ?thesis
      unfolding scan_order_def by (auto intro!: image_eqI [of _ _ "(i + (TASK_MAX - start mod TASK_MAX)) mod TASK_MAX"]
        simp: TASK_MAX_def)
  qed
  then show ?thesis using scan_order_lt by blast
qed

lemma wake_due_keeps: "t_state (tsk s i) \<noteq> TASK_SLEEPING \<Longrightarrow> tsk (wake_due now js s) i = tsk s i"
  by (induction js arbitrary: s) (auto simp: task_make_runnable_def tsk_upd)

lemma spec_next_sound: "spec_next s order = Some i \<Longrightarrow> i \<in> set order \<and> next_ok s i"
  by (auto simp: spec_next_def split: option.splits dest!: find_SomeD)

lemma spec_next_none: "spec_next s order = None \<Longrightarrow> i \<in> set order \<Longrightarrow> \<not> next_ok s i"
  by (auto simp: spec_next_def find_None_iff split: option.splits)


definition two_task_kernel :: "paging \<Rightarrow> kernel" where
  "two_task_kernel p = (task_init (example_kernel p))\<lparr> kmem := (\<lambda>_. 0x200000),
     g_tasks := (\<lambda>i. if i = 0 then zero_task\<lparr> t_used := True, t_pid := 1, t_state := TASK_RUNNING \<rparr>
       else if i = 1 then zero_task\<lparr> t_used := True, t_pid := 2, t_state := TASK_RUNNABLE, t_ctx := user_ctx 0 0,
              t_kernel_stack := 0x8000, t_kernel_stack_top := 0x10000, t_kernel_rsp_saved := 0x9000 \<rparr>
       else zero_task) \<rparr>"


end
