(* ===== verification/KWait.thy ===== *)
theory KWait
  imports KSched
begin

text \<open>
  Exit and wait together: the status of a child that ended reaches its parent once
  (\<open>task_exit\<close> and \<open>task_waitpid\<close> of \<^verbatim>\<open>src/compat/memory_tasks.c\<close>).
\<close>

subsection \<open>What the rest of \<open>task_exit\<close> leaves of the zombie\<close>

text \<open>The fields \<open>task_waitpid\<close> looks at.\<close>

definition wait_view :: "task \<Rightarrow> bool \<times> int \<times> int \<times> int \<times> task_state \<times> int" where
  "wait_view t = (t_used t, t_pid t, t_ppid t, t_pgid t, t_state t, t_exit_code t)"

lemma view_upd_other: "j \<noteq> i \<Longrightarrow> tsk (upd_task s j f) i = tsk s i"
  by (simp add: tsk_upd)

lemma view_close_fd: "wait_view (tsk (fst (c3_close_fd_for_task s i fd)) j) = wait_view (tsk s j)"
  by (auto simp: c3_close_fd_for_task_def Let_def c3_fd_group_clear_fd_def map_tasks_def c3_fd_group_sync_fd_def
      tsk_upd wait_view_def split: option.split)

lemma view_close_each: "wait_view (tsk (close_each s i fds) j) = wait_view (tsk s j)"
  by (induction fds arbitrary: s) (auto simp: view_close_fd)

lemma view_close_all: "wait_view (tsk (compat3_task_close_all_fds s i) j) = wait_view (tsk s j)"
proof (cases "c3_fd_group_has_live_peer s i")
  case True
  then show ?thesis by (simp add: compat3_task_close_all_fds_def tsk_upd wait_view_def)
next
  case False
  then show ?thesis by (simp add: compat3_task_close_all_fds_def view_close_each)
qed

lemma tsk_make_runnable: "j \<noteq> i \<Longrightarrow> tsk (fst (task_make_runnable s i)) j = tsk s j"
  by (auto simp: task_make_runnable_def tsk_upd)

lemma wake_parent_keeps:
  assumes "t_pid (tsk s i) \<noteq> pp"
  shows "tsk (exit_wake_parent s k pid pp) i = tsk s i"
proof -
  have "tsk (exit_wake_parent s k pid pp) i = tsk s i"
    if "find (\<lambda>j. t_used (tsk s j) \<and> t_pid (tsk s j) = pp) [0..<TASK_MAX] = Some j" for j
  proof -
    have ij: "i \<noteq> j" using find_SomeD [OF that] assms by auto
    obtain s1 ok where m: "task_make_runnable s j = (s1, ok)" by fastforce
    have "tsk s1 i = tsk s i" using tsk_make_runnable [OF ij, of s] by (simp add: m)
    then show ?thesis using ij by (simp add: exit_wake_parent_def that Let_def m tsk_upd)
  qed
  then show ?thesis by (cases "find (\<lambda>j. t_used (tsk s j) \<and> t_pid (tsk s j) = pp) [0..<TASK_MAX]")
    (simp_all add: exit_wake_parent_def)
qed

text \<open>Who a task is, and what it needs to run, survives the exit of another.\<close>

definition same_identity :: "task \<Rightarrow> task \<Rightarrow> bool" where
  "same_identity t t' \<longleftrightarrow> t_used t' = t_used t \<and> t_pid t' = t_pid t \<and> t_ppid t' = t_ppid t \<and> t_pgid t' = t_pgid t
     \<and> t_wait_pid t' = t_wait_pid t \<and> t_ctx t' = t_ctx t \<and> t_kernel_stack t' = t_kernel_stack t
     \<and> t_kernel_stack_top t' = t_kernel_stack_top t \<and> t_kernel_rsp_saved t' = t_kernel_rsp_saved t
     \<and> t_needs_first_launch t' = t_needs_first_launch t
     \<and> (t_state t' = t_state t \<or> t_state t' = TASK_RUNNABLE)"

definition same_tasks :: "kernel \<Rightarrow> kernel \<Rightarrow> bool" where
  "same_tasks s s' \<longleftrightarrow> kmem s' = kmem s \<and> clone3_entry s' = clone3_entry s
     \<and> (\<forall>i. same_identity (tsk s i) (tsk s' i))"

lemma same_refl [simp]: "same_tasks s s" by (simp add: same_tasks_def same_identity_def)

lemma same_trans: "same_tasks s s1 \<Longrightarrow> same_tasks s1 s2 \<Longrightarrow> same_tasks s s2"
proof -
  assume h: "same_tasks s s1" "same_tasks s1 s2"
  have i: "same_identity t t2" if "same_identity t t1" "same_identity t1 t2" for t t1 t2
    using that by (auto simp: same_identity_def)
  have "same_identity (tsk s j) (tsk s2 j)" for j
    by (rule i [of _ "tsk s1 j"]) (use h in \<open>simp_all add: same_tasks_def\<close>)
  with h show ?thesis by (simp add: same_tasks_def)
qed

lemma same_runnable: "same_tasks s (upd_task s i (\<lambda>t. t\<lparr> t_state := TASK_RUNNABLE \<rparr>))"
  by (simp add: same_tasks_def same_identity_def tsk_upd)

lemma same_make_runnable: "same_tasks s (fst (task_make_runnable s i))"
  by (auto simp: task_make_runnable_def same_tasks_def same_identity_def tsk_upd)

lemma same_scan: "same_tasks s (fst (scan_survivors i xs (s, v)))"
proof (induction xs arbitrary: s v)
  case (Cons si rest)
  have "same_tasks s (fst (scan_survivors i rest (upd_task s si (\<lambda>t. t\<lparr> t_state := TASK_RUNNABLE \<rparr>), w)))" for w
    by (rule same_trans [OF same_runnable Cons.IH])
  then show ?case unfolding scan_survivors.simps Let_def by (simp add: Cons.IH)
qed simp

lemma same_release: "same_tasks s (exit_release_siblings s i)"
proof -
  obtain s1 v where r: "scan_survivors i [0..<TASK_MAX] (s, \<lparr> shared_user_survivor = False,
      runnable_user_survivor = False, first_sleeping_survivor = None \<rparr>) = (s1, v)" by (meson surj_pair)
  have 1: "same_tasks s s1" using same_scan [of s i "[0..<TASK_MAX]"] r by (metis fst_conv)
  have 2: "same_tasks s (fst (task_make_runnable s1 j))" for j by (rule same_trans [OF 1 same_make_runnable])
  have "same_tasks s (s2\<lparr> g_user_foreground_active := False \<rparr>)" if "same_tasks s s2" for s2
    using that by (simp add: same_tasks_def)
  with 1 2 show ?thesis unfolding exit_release_siblings_def r by (auto simp: Let_def split: option.split)
qed

lemma same_frame: "same_tasks s s' \<Longrightarrow> task_schedulable_user_frame s' i = task_schedulable_user_frame s i"
  by (simp add: same_tasks_def same_identity_def task_schedulable_user_frame_def task_kernel_rsp_frame_valid_def Let_def)

lemma schedulable_cong:
  "tsk s' i = tsk s i \<Longrightarrow> kmem s' = kmem s \<Longrightarrow> clone3_entry s' = clone3_entry s \<Longrightarrow>
     task_schedulable_user_frame s' i = task_schedulable_user_frame s i"
  by (simp add: task_schedulable_user_frame_def task_kernel_rsp_frame_valid_def)

text \<open>The numbers of the used slots are positive and distinct.\<close>

definition pids_ok :: "kernel \<Rightarrow> bool" where
  "pids_ok s \<longleftrightarrow> (\<forall>i < TASK_MAX. t_used (tsk s i) \<longrightarrow> 0 < t_pid (tsk s i)
     \<and> (\<forall>j < TASK_MAX. t_used (tsk s j) \<longrightarrow> t_pid (tsk s i) = t_pid (tsk s j) \<longrightarrow> i = j))"

lemma tasks_pids_ok: "tasks_ok s \<Longrightarrow> pids_ok s"
  unfolding tasks_ok_def pids_ok_def by blast

subsection \<open>The parent gets the status\<close>

lemma find_unique: "P i \<Longrightarrow> i \<in> set xs \<Longrightarrow> (\<And>j. j \<in> set xs \<Longrightarrow> P j \<Longrightarrow> j = i) \<Longrightarrow> find P xs = Some i"
proof (cases "find P xs")
  case (Some j)
  assume "\<And>j. j \<in> set xs \<Longrightarrow> P j \<Longrightarrow> j = i"
  with find_SomeD [OF Some] Some show ?thesis by blast
next
  case None
  assume "P i" "i \<in> set xs"
  with None show ?thesis unfolding find_None_iff by blast
qed

lemma unique_pid:
  assumes "tasks_ok s" "i < TASK_MAX" "t_used (tsk s i)"
  shows "find (\<lambda>j. t_used (tsk s j) \<and> t_pid (tsk s j) = t_pid (tsk s i)) [0..<TASK_MAX] = Some i"
  using assms by (intro find_unique) (auto simp: tasks_ok_def)

text \<open>What \<open>task_exit\<close> leaves of a child that is no auto-reaped thread, and of its parent.\<close>

lemma exit_zombie:
  assumes "tasks_ok s" "c < TASK_MAX" "t_used (tsk s c)" "t_ppid (tsk s c) \<noteq> t_pid (tsk s c)"
    and "\<not> (c_cs (t_ctx (tsk s c)) = 0x28 \<and> t_tgid (tsk s c) \<noteq> 0 \<and> t_tgid (tsk s c) \<noteq> t_pid (tsk s c))"
  shows "wait_view (tsk (task_exit s (t_pid (tsk s c)) code) c) =
    (True, t_pid (tsk s c), t_ppid (tsk s c), t_pgid (tsk s c), TASK_ZOMBIE, code)"
proof -
  define s1 where "s1 = (if c = g_current_task s then exit_release_siblings s c else s)"
  define s2 where "s2 = upd_task s1 c (\<lambda>t. t\<lparr> t_state := TASK_ZOMBIE, t_exit_code := code \<rparr>)"
  define s3 where "s3 = exit_wake_parent s2 c (t_pid (tsk s c)) (t_ppid (tsk s c))"
  define s4 where "s4 = compat3_task_close_all_fds s3 c"
  have ex: "task_exit s (t_pid (tsk s c)) code = exit_reparent s4 (t_pid (tsk s c))"
    unfolding task_exit_def unique_pid [OF assms(1-3)] option.case Let_def s4_def s3_def s2_def s1_def
    using assms(5) by presburger
  have "same_tasks s s1" by (simp add: s1_def same_release)
  then have w2: "wait_view (tsk s2 c) = (True, t_pid (tsk s c), t_ppid (tsk s c), t_pgid (tsk s c), TASK_ZOMBIE, code)"
    using assms(3) by (simp add: s2_def tsk_upd wait_view_def same_tasks_def same_identity_def)
  then have "tsk s3 c = tsk s2 c"
    unfolding s3_def using assms(4) by (intro wake_parent_keeps) (simp add: wait_view_def)
  then have "wait_view (tsk s4 c) = wait_view (tsk s2 c)" by (simp add: s4_def view_close_all)
  then show ?thesis
    unfolding ex using w2 assms(4) by (simp add: exit_reparent_def map_tasks_def wait_view_def)
qed


lemma exit_wakes_parent:
  assumes ok: "tasks_ok s" and c: "c < TASK_MAX" "t_used (tsk s c)" and p: "p < TASK_MAX" "t_used (tsk s p)" "p \<noteq> c"
    and pp: "t_ppid (tsk s c) = t_pid (tsk s p)" and sl: "t_state (tsk s p) = TASK_SLEEPING"
    and w: "t_wait_pid (tsk s p) = -1 \<or> t_wait_pid (tsk s p) = t_pid (tsk s c)"
    and fr: "c_cs (t_ctx (tsk s p)) = 0x28 \<longrightarrow> task_schedulable_user_frame s p"
  shows "t_state (tsk (task_exit s (t_pid (tsk s c)) code) p) = TASK_RUNNABLE"
proof -
  define s1 where "s1 = (if c = g_current_task s then exit_release_siblings s c else s)"
  define s2 where "s2 = upd_task s1 c (\<lambda>t. t\<lparr> t_state := TASK_ZOMBIE, t_exit_code := code \<rparr>)"
  define s3 where "s3 = exit_wake_parent s2 c (t_pid (tsk s c)) (t_ppid (tsk s c))"
  define s4 where "s4 = compat3_task_close_all_fds s3 c"
  define s5 where "s5 = exit_reparent s4 (t_pid (tsk s c))"
  have ex: "task_exit s (t_pid (tsk s c)) code = s5 \<or> task_exit s (t_pid (tsk s c)) code =
      upd_task s5 c (\<lambda>t. t\<lparr> t_state := TASK_FREE, t_used := False \<rparr>)"
    unfolding task_exit_def unique_pid [OF ok c] option.case Let_def s5_def s4_def s3_def s2_def s1_def by presburger
  have st: "same_tasks s s1" by (simp add: s1_def same_release)
  have pc: "t_pid (tsk s p) \<noteq> t_pid (tsk s c)" using ok c p unfolding tasks_ok_def by blast
  have id: "t_used (tsk s1 i) = t_used (tsk s i)" "t_pid (tsk s1 i) = t_pid (tsk s i)" for i
    using st by (simp_all add: same_tasks_def same_identity_def)
  have id2: "t_used (tsk s2 i) = t_used (tsk s i)" "t_pid (tsk s2 i) = t_pid (tsk s i)" for i
    by (simp_all add: s2_def tsk_upd id)
  have p2: "tsk s2 p = tsk s1 p" using p by (simp add: s2_def tsk_upd)
  have p1: "same_identity (tsk s p) (tsk s1 p)" using st by (simp add: same_tasks_def)
  have find: "find (\<lambda>j. t_used (tsk s2 j) \<and> t_pid (tsk s2 j) = t_ppid (tsk s c)) [0..<TASK_MAX] = Some p"
    unfolding id2 pp by (rule unique_pid [OF ok p(1,2)])
  have "task_schedulable_user_frame s2 p = task_schedulable_user_frame s1 p"
    by (rule schedulable_cong [OF p2]) (simp_all add: s2_def)
  also have "\<dots> = task_schedulable_user_frame s p" by (rule same_frame [OF st])
  finally have mr: "task_make_runnable s2 p = (upd_task s2 p (\<lambda>t. t\<lparr> t_sleep_until := 0, t_state := TASK_RUNNABLE \<rparr>), True)"
    using p p1 sl fr by (auto simp: task_make_runnable_def p2 same_identity_def)
  have "t_state (tsk s3 p) = TASK_RUNNABLE"
    using p1 sl w unfolding s3_def exit_wake_parent_def find option.case
    by (auto simp: Let_def mr p2 same_identity_def tsk_upd)
  then have "t_state (tsk s4 p) = TASK_RUNNABLE"
    using view_close_all [of s3 c p] by (simp add: s4_def wait_view_def)
  then have "t_state (tsk s5 p) = TASK_RUNNABLE" by (simp add: s5_def exit_reparent_def map_tasks_def)
  with ex p show ?thesis by (auto simp: tsk_upd)
qed

text \<open>One round of the wait, when the child is a zombie and the numbers are distinct.\<close>

lemma wait_reaps:
  assumes ok: "pids_ok s" and c: "c < TASK_MAX" "t_used (tsk s c)" "t_state (tsk s c) = TASK_ZOMBIE"
    and p: "t_ppid (tsk s c) = t_pid (tsk s (g_current_task s))" "c \<noteq> g_current_task s"
  shows "\<exists>s'. task_waitpid_round s (t_pid (tsk s c)) h = (s', WaitReaped (t_pid (tsk s c)) ((t_exit_code (tsk s c) mod 256) * 256))
    \<and> \<not> t_used (tsk s' c) \<and> snd (task_waitpid_round s' (t_pid (tsk s c)) h') = WaitReturn (- ECHILD)"
proof -
  let ?pid = "t_pid (tsk s c)"
  let ?cur = "g_current_task s"
  have pos: "0 < ?pid" using ok c unfolding pids_ok_def by blast
  have only: "j = c" if "j < TASK_MAX" "t_used (tsk s j)" "t_pid (tsk s j) = ?pid" for j
    using ok c that unfolding pids_ok_def by blast
  have f: "find (\<lambda>i. wait_match s ?cur ?pid i \<and> t_state (tsk s i) = TASK_ZOMBIE) [0..<TASK_MAX] = Some c"
    using c p pos only by (intro find_unique) (auto simp: wait_match_def)
  let ?s' = "upd_task (upd_task s c (\<lambda>t. t\<lparr> t_used := False \<rparr>)) ?cur (\<lambda>t. t\<lparr> t_wait_pid := 0 \<rparr>)"
  have "\<not> wait_match ?s' ?cur ?pid i" if "i < TASK_MAX" for i
    using that only [of i] pos p by (auto simp: wait_match_def tsk_upd split: if_splits)
  then have "find (\<lambda>i. wait_match ?s' ?cur ?pid i \<and> t_state (tsk ?s' i) = TASK_ZOMBIE) [0..<TASK_MAX] = None"
      "\<not> list_ex (wait_match ?s' ?cur ?pid) [0..<TASK_MAX]"
    by (auto simp: find_None_iff list_ex_iff)
  then have "snd (task_waitpid_round ?s' ?pid h') = WaitReturn (- ECHILD)"
    by (simp add: task_waitpid_round_def Let_def)
  moreover have "task_waitpid_round s ?pid h = (?s', WaitReaped ?pid ((t_exit_code (tsk s c) mod 256) * 256))"
    by (simp add: task_waitpid_round_def Let_def f)
  moreover have "\<not> t_used (tsk ?s' c)" using p by (simp add: tsk_upd)
  ultimately show ?thesis by blast
qed

text \<open>C3: when a child process ends with \<open>task_exit\<close>, a parent asleep in \<open>waitpid\<close> for it becomes
  runnable; and as soon as the parent is the current task again, one round of \<open>task_waitpid\<close> for the
  child's number returns that number with the low byte of the exit code in the second byte of the
  status, and frees the slot; a second wait for the same number fails with \<open>ECHILD\<close>.\<close>

theorem exit_status_reaches_parent_once:
  assumes "tasks_ok s" "c < TASK_MAX" "t_used (tsk s c)" "p < TASK_MAX" "t_used (tsk s p)" "p \<noteq> c"
    and "t_ppid (tsk s c) = t_pid (tsk s p)"
    and "\<not> (c_cs (t_ctx (tsk s c)) = 0x28 \<and> t_tgid (tsk s c) \<noteq> 0 \<and> t_tgid (tsk s c) \<noteq> t_pid (tsk s c))"
  shows "let pid = t_pid (tsk s c);
             s1 = task_exit s pid code;
             (s2, r) = task_waitpid_round (s1\<lparr> g_current_task := p \<rparr>) pid wnohang
         in (t_state (tsk s p) = TASK_SLEEPING \<and> t_wait_pid (tsk s p) \<in> {-1, pid}
               \<and> (c_cs (t_ctx (tsk s p)) = 0x28 \<longrightarrow> task_schedulable_user_frame s p)
             \<longrightarrow> t_state (tsk s1 p) = TASK_RUNNABLE)
            \<and> r = WaitReaped pid ((code mod 256) * 256)
            \<and> \<not> t_used (tsk s2 c)
            \<and> snd (task_waitpid_round s2 pid wnohang') = WaitReturn (- ECHILD)"
proof -
  let ?pid = "t_pid (tsk s c)"
  let ?s1 = "task_exit s ?pid code"
  let ?s1p = "?s1\<lparr> g_current_task := p \<rparr>"
  have pc: "t_pid (tsk s p) \<noteq> ?pid" using assms unfolding tasks_ok_def by blast
  then have z: "wait_view (tsk ?s1 c) = (True, ?pid, t_ppid (tsk s c), t_pgid (tsk s c), TASK_ZOMBIE, code)"
    using assms by (intro exit_zombie) auto
  have calm1: "calm s ?s1" by (rule calm_exit)
  have ok1: "pids_ok ?s1p"
    using tasks_pids_ok [OF calm_ok [OF assms(1) calm1]] by (simp add: pids_ok_def)
  have pp: "t_pid (tsk ?s1 p) = t_pid (tsk s p)" using calm1 by (simp add: calm_def)
  have c1: "t_used (tsk ?s1p c)" "t_state (tsk ?s1p c) = TASK_ZOMBIE" "t_pid (tsk ?s1p c) = ?pid"
      "t_exit_code (tsk ?s1p c) = code" "t_ppid (tsk ?s1p c) = t_pid (tsk ?s1p (g_current_task ?s1p))"
    using z pp assms(7) by (simp_all add: wait_view_def)
  have ne: "c \<noteq> g_current_task ?s1p" using assms(6) by simp
  have wake: "t_state (tsk s p) = TASK_SLEEPING \<and> t_wait_pid (tsk s p) \<in> {-1, ?pid}
      \<and> (c_cs (t_ctx (tsk s p)) = 0x28 \<longrightarrow> task_schedulable_user_frame s p) \<longrightarrow> t_state (tsk ?s1 p) = TASK_RUNNABLE"
    using exit_wakes_parent [OF assms(1-7), of code] by blast
  obtain s2 where r: "task_waitpid_round ?s1p ?pid wnohang = (s2, WaitReaped ?pid ((code mod 256) * 256))"
      "\<not> t_used (tsk s2 c)" "snd (task_waitpid_round s2 ?pid wnohang') = WaitReturn (- ECHILD)"
    using wait_reaps [OF ok1 assms(2) c1(1,2,5) ne, of wnohang wnohang'] unfolding c1 by blast
  show ?thesis unfolding Let_def r(1) prod.case using wake r(2,3) by blast
qed

text \<open>A parent asleep in the wait, and its child.\<close>

definition family_kernel :: "paging \<Rightarrow> kernel" where
  "family_kernel p = (task_init (example_kernel p))\<lparr> g_current_task := 1,
     g_tasks := (\<lambda>i. if i = 0 then zero_task\<lparr> t_used := True, t_pid := 1, t_state := TASK_SLEEPING, t_wait_pid := 2 \<rparr>
       else if i = 1 then zero_task\<lparr> t_used := True, t_pid := 2, t_tgid := 2, t_ppid := 1, t_state := TASK_RUNNING \<rparr>
       else zero_task), g_task_next_pid := 3 \<rparr>"

theorem exit_status_reaches_parent_once_witness:
  "\<forall>p. let s1 = task_exit (family_kernel p) 2 300
       in t_state (tsk s1 0) = TASK_RUNNABLE
          \<and> snd (task_waitpid_round (s1\<lparr> g_current_task := 0 \<rparr>) 2 True) = WaitReaped 2 (44 * 256)"
proof (intro allI)
  fix p
  let ?s = "family_kernel p"
  have t: "tsk ?s 0 = zero_task\<lparr> t_used := True, t_pid := 1, t_state := TASK_SLEEPING, t_wait_pid := 2 \<rparr>"
      "tsk ?s 1 = zero_task\<lparr> t_used := True, t_pid := 2, t_tgid := 2, t_ppid := 1, t_state := TASK_RUNNING \<rparr>"
    by (simp_all add: family_kernel_def)
  have ok: "tasks_ok ?s"
    by (auto simp: tasks_ok_def family_kernel_def zero_task_def TASK_MAX_def)
  show "let s1 = task_exit ?s 2 300
       in t_state (tsk s1 0) = TASK_RUNNABLE
          \<and> snd (task_waitpid_round (s1\<lparr> g_current_task := 0 \<rparr>) 2 True) = WaitReaped 2 (44 * 256)"
    using exit_status_reaches_parent_once [OF ok, of 1 0 300 True True] t
    by (auto simp: TASK_MAX_def zero_task_def zero_context_def Let_def split: prod.splits)
qed

end
