(* ===== verification/KPipe.thy ===== *)
theory KPipe
  imports KTask
begin

text \<open>
  Pipes: the buffers of \<^verbatim>\<open>src/compat/base.c\<close> (\<open>g_pipes\<close>, \<open>pipe_create\<close>, \<open>pipe_read\<close>,
  \<open>pipe_write\<close>, the two closes) and the blocking system calls on them of
  \<^verbatim>\<open>src/compat/linux_syscalls.c\<close> (\<open>c3_pipe_read_wait\<close>, \<open>c3_pipe_write_wait\<close> with
  \<open>c3_wake_fd_waiters\<close>), one round of whose wait loops is one function.  \<open>head\<close> and \<open>tail\<close> are
  C \<open>int\<close>s that only grow: their wrap-around at 32 bits is written out, and an access in front of
  the buffer, which a negative remainder gives, is the outcome \<open>None\<close>.
\<close>

subsection \<open>C arithmetic on int\<close>

definition wrap32 :: "int \<Rightarrow> int" where
  "wrap32 z = (z + 2147483648) mod 4294967296 - 2147483648"

text \<open>The remainder takes the sign of the dividend.\<close>

definition crem :: "int \<Rightarrow> int \<Rightarrow> int" where
  "crem a n = (if 0 \<le> a then a mod n else - ((- a) mod n))"

lemma wrap32_id: "- 2147483648 \<le> z \<Longrightarrow> z < 2147483648 \<Longrightarrow> wrap32 z = z"
  by (simp add: wrap32_def)

lemma crem_pos: "0 \<le> a \<Longrightarrow> crem a n = a mod n"
  by (simp add: crem_def)

subsection \<open>The buffers\<close>

definition PIPE_BUF_SIZE :: nat where "PIPE_BUF_SIZE = 4096"
definition PIPE_MAX :: nat where "PIPE_MAX = 16"
definition ENOMEM :: int where "ENOMEM = 12"
definition EPIPE :: int where "EPIPE = 32"
definition EINTR :: int where "EINTR = 4"

record pipe =
  p_used :: bool
  p_buf :: "u8 list"
  p_head :: int
  p_tail :: int
  p_readers :: int
  p_writers :: int

definition fresh_pipe :: pipe where
  "fresh_pipe = \<lparr> p_used = True, p_buf = replicate PIPE_BUF_SIZE 0, p_head = 0, p_tail = 0,
     p_readers = 1, p_writers = 1 \<rparr>"

text \<open>The number of bytes in the buffer, as the C expression computes it.\<close>

definition pipe_used_bytes :: "pipe \<Rightarrow> int" where
  "pipe_used_bytes p = crem (wrap32 (wrap32 (p_head p - p_tail p) + 4096)) 4096"

definition pipe_create :: "(nat \<Rightarrow> pipe) \<Rightarrow> (nat \<Rightarrow> pipe) \<times> (int + int \<times> int)" where
  "pipe_create g =
     (case find (\<lambda>i. \<not> p_used (g i)) [0..<PIPE_MAX] of
        None \<Rightarrow> (g, Inl (- ENOMEM))
      | Some i \<Rightarrow> (g(i := fresh_pipe), Inr (int i + 500, int i + 600)))"

text \<open>The copy loops; \<open>None\<close> is an access outside the buffer.\<close>

fun pop_bytes :: "nat \<Rightarrow> pipe \<Rightarrow> (pipe \<times> u8 list) option" where
  "pop_bytes 0 p = Some (p, [])"
| "pop_bytes (Suc n) p =
     (let i = crem (p_tail p) 4096
      in if i < 0 then None
         else (case pop_bytes n (p\<lparr> p_tail := wrap32 (p_tail p + 1) \<rparr>) of
             None \<Rightarrow> None
           | Some (p', bs) \<Rightarrow> Some (p', p_buf p ! nat i # bs)))"

fun push_bytes :: "u8 list \<Rightarrow> pipe \<Rightarrow> pipe option" where
  "push_bytes [] p = Some p"
| "push_bytes (b # bs) p =
     (let i = crem (p_head p) 4096
      in if i < 0 then None
         else push_bytes bs (p\<lparr> p_buf := (p_buf p)[nat i := b], p_head := wrap32 (p_head p + 1) \<rparr>))"

text \<open>\<open>size_t\<close> of an int expression.\<close>

definition size_of_int :: "int \<Rightarrow> nat" where
  "size_of_int z = nat (z mod 2 ^ 64)"

definition read_some :: "pipe \<Rightarrow> nat \<Rightarrow> (pipe \<times> u8 list) option" where
  "read_some p cnt = pop_bytes (min cnt (size_of_int (pipe_used_bytes p))) p"

definition pipe_room :: "pipe \<Rightarrow> nat" where
  "pipe_room p = size_of_int (4096 - pipe_used_bytes p - 1)"

definition write_some :: "pipe \<Rightarrow> u8 list \<Rightarrow> (pipe \<times> nat) option" where
  "write_some p bs =
     (let n = min (length bs) (pipe_room p)
      in case push_bytes (take n bs) p of None \<Rightarrow> None | Some p' \<Rightarrow> Some (p', n))"

definition pipe_ref_ok :: "(nat \<Rightarrow> pipe) \<Rightarrow> int \<Rightarrow> bool" where
  "pipe_ref_ok g pid \<longleftrightarrow> 0 \<le> pid \<and> pid < int PIPE_MAX \<and> p_used (g (nat pid))"

definition pipe_read :: "(nat \<Rightarrow> pipe) \<Rightarrow> int \<Rightarrow> nat \<Rightarrow> ((nat \<Rightarrow> pipe) \<times> (int + u8 list)) option" where
  "pipe_read g pid cnt =
     (if \<not> pipe_ref_ok g pid then Some (g, Inl (- EBADF))
      else map_option (\<lambda>(p, bs). (g(nat pid := p), Inr bs)) (read_some (g (nat pid)) cnt))"

definition pipe_write :: "(nat \<Rightarrow> pipe) \<Rightarrow> int \<Rightarrow> u8 list \<Rightarrow> ((nat \<Rightarrow> pipe) \<times> int) option" where
  "pipe_write g pid bs =
     (if \<not> pipe_ref_ok g pid then Some (g, - EBADF)
      else map_option (\<lambda>(p, n). (g(nat pid := p), int n)) (write_some (g (nat pid)) bs))"

definition drop_unused :: "pipe \<Rightarrow> pipe" where
  "drop_unused p = (if p_readers p \<le> 0 \<and> p_writers p \<le> 0 then p\<lparr> p_used := False \<rparr> else p)"

definition pipe_close_read :: "(nat \<Rightarrow> pipe) \<Rightarrow> int \<Rightarrow> (nat \<Rightarrow> pipe)" where
  "pipe_close_read g pid =
     (if pipe_ref_ok g pid
      then g(nat pid := drop_unused ((g (nat pid))\<lparr> p_readers := p_readers (g (nat pid)) - 1 \<rparr>)) else g)"

definition pipe_close_write :: "(nat \<Rightarrow> pipe) \<Rightarrow> int \<Rightarrow> (nat \<Rightarrow> pipe)" where
  "pipe_close_write g pid =
     (if pipe_ref_ok g pid
      then g(nat pid := drop_unused ((g (nat pid))\<lparr> p_writers := p_writers (g (nat pid)) - 1 \<rparr>)) else g)"

subsection \<open>The blocking calls\<close>

definition FDKIND_PIPE_R :: nat where "FDKIND_PIPE_R = 3"
definition FDKIND_PIPE_W :: nat where "FDKIND_PIPE_W = 4"
definition FDKIND_EPOLL :: nat where "FDKIND_EPOLL = 12"

definition c3_task_has_unblocked_signal :: "task \<Rightarrow> bool" where
  "c3_task_has_unblocked_signal t \<longleftrightarrow>
     ((fst (t_sig_pending t) AND NOT (fst (t_sig_blocked t))) OR (snd (t_sig_pending t) AND NOT (snd (t_sig_blocked t)))) \<noteq> 0"

definition waits_on :: "task \<Rightarrow> nat \<Rightarrow> int \<Rightarrow> bool" where
  "waits_on t kind ref \<longleftrightarrow>
     list_ex (\<lambda>fd. let f = t_fdt t fd in fd_kind f \<noteq> FDKIND_NONE
        \<and> (fd_kind f = kind \<and> (ref < 0 \<or> fd_ref f = ref) \<or> fd_kind f = FDKIND_EPOLL)) [0..<TASK_FD_MAX]"

fun wake_each :: "nat \<Rightarrow> int \<Rightarrow> nat list \<Rightarrow> kernel \<times> nat \<Rightarrow> kernel \<times> nat" where
  "wake_each kind ref [] sn = sn"
| "wake_each kind ref (i # is) (s, n) =
     (if t_used (tsk s i) \<and> t_state (tsk s i) = TASK_SLEEPING \<and> waits_on (tsk s i) kind ref
      then (case task_make_runnable s i of (s1, ok) \<Rightarrow> wake_each kind ref is (s1, if ok then n + 1 else n))
      else wake_each kind ref is (s, n))"

definition c3_wake_fd_waiters :: "kernel \<Rightarrow> nat \<Rightarrow> int \<Rightarrow> kernel \<times> nat" where
  "c3_wake_fd_waiters s kind ref = wake_each kind ref [0..<TASK_MAX] (s, 0)"

record pipe_state =
  pk :: kernel
  g_pipes :: "nat \<Rightarrow> pipe"

text \<open>A round ends the call or asks for a wait slice, after which the loop starts over.\<close>

datatype 'a io_round = IoDone 'a | IoErr int | IoWait

definition c3_pipe_read_wait :: "pipe_state \<Rightarrow> int \<Rightarrow> nat \<Rightarrow> bool \<Rightarrow> (pipe_state \<times> u8 list io_round) option" where
  "c3_pipe_read_wait s ref count dontwait =
     (if count = 0 then Some (s, IoDone [])
      else if \<not> pipe_ref_ok (g_pipes s) ref then Some (s, IoErr (- EBADF))
      else (let p = g_pipes s (nat ref)
            in if size_of_int (pipe_used_bytes p) \<noteq> 0
               then (case read_some p count of
                   None \<Rightarrow> None
                 | Some (p', bs) \<Rightarrow>
                     Some (s\<lparr> g_pipes := (g_pipes s)(nat ref := p'),
                              pk := fst (c3_wake_fd_waiters (pk s) FDKIND_PIPE_W ref) \<rparr>, IoDone bs))
               else if p_writers p \<le> 0 then Some (s, IoDone [])
               else if dontwait then Some (s, IoErr (- EAGAIN))
               else if c3_task_has_unblocked_signal (tsk (pk s) (g_current_task (pk s))) then Some (s, IoErr (- EINTR))
               else Some (s, IoWait)))"

definition c3_pipe_write_wait :: "pipe_state \<Rightarrow> int \<Rightarrow> u8 list \<Rightarrow> bool \<Rightarrow> (pipe_state \<times> nat io_round) option" where
  "c3_pipe_write_wait s ref bs dontwait =
     (if bs = [] then Some (s, IoDone 0)
      else if \<not> pipe_ref_ok (g_pipes s) ref then Some (s, IoErr (- EBADF))
      else (let p = g_pipes s (nat ref)
            in if p_readers p \<le> 0 then Some (s, IoErr (- EPIPE))
               else if pipe_room p \<noteq> 0
               then (case write_some p bs of
                   None \<Rightarrow> None
                 | Some (p', n) \<Rightarrow>
                     Some (s\<lparr> g_pipes := (g_pipes s)(nat ref := p'),
                              pk := fst (c3_wake_fd_waiters (pk s) FDKIND_PIPE_R ref) \<rparr>, IoDone n))
               else if dontwait then Some (s, IoErr (- EAGAIN))
               else if c3_task_has_unblocked_signal (tsk (pk s) (g_current_task (pk s))) then Some (s, IoErr (- EINTR))
               else Some (s, IoWait)))"


subsection \<open>Byte streams\<close>

text \<open>The contract of a bounded byte stream.  \<open>ok b s\<close> allows \<open>b\<close> more elements to be written.\<close>

locale byte_stream =
  fixes ok :: "nat \<Rightarrow> 's \<Rightarrow> bool"
    and abs :: "'s \<Rightarrow> 'a list"
    and put :: "'s \<Rightarrow> 'a list \<Rightarrow> ('s \<times> nat) option"
    and get :: "'s \<Rightarrow> nat \<Rightarrow> ('s \<times> 'a list) option"
    and cap :: nat
  assumes put_spec: "ok (b + length xs) s \<Longrightarrow>
      \<exists>s' n. put s xs = Some (s', n) \<and> n = min (length xs) (cap - length (abs s)) \<and> abs s' = abs s @ take n xs \<and> ok b s'"
    and get_spec: "ok b s \<Longrightarrow> \<exists>s'. get s n = Some (s', take n (abs s)) \<and> abs s' = drop n (abs s) \<and> ok b s'"
    and ok_mono: "ok b s \<Longrightarrow> b' \<le> b \<Longrightarrow> ok b' s"
    and bounded: "ok b s \<Longrightarrow> length (abs s) \<le> cap"

text \<open>A run of writes and reads: everything accepted, everything handed out.\<close>

datatype 'a stream_op = SPut "'a list" | SGet nat

context byte_stream
begin

primrec stream_run :: "'s \<Rightarrow> 'a stream_op list \<Rightarrow> ('s \<times> 'a list \<times> 'a list) option" where
  "stream_run s [] = Some (s, [], [])"
| "stream_run s (a # as) =
     (case a of
        SPut xs \<Rightarrow> (case put s xs of
            None \<Rightarrow> None
          | Some (s1, n) \<Rightarrow> map_option (\<lambda>(s2, inp, out). (s2, take n xs @ inp, out)) (stream_run s1 as))
      | SGet n \<Rightarrow> (case get s n of
            None \<Rightarrow> None
          | Some (s1, ys) \<Rightarrow> map_option (\<lambda>(s2, inp, out). (s2, inp, ys @ out)) (stream_run s1 as)))"

end

primrec put_total :: "'a stream_op list \<Rightarrow> nat" where
  "put_total [] = 0"
| "put_total (a # as) = (case a of SPut xs \<Rightarrow> length xs | SGet _ \<Rightarrow> 0) + put_total as"

context byte_stream
begin

lemma run_integrity:
  "ok (b + put_total as) s \<Longrightarrow>
     \<exists>s' inp out. stream_run s as = Some (s', inp, out) \<and> abs s @ inp = out @ abs s' \<and> ok b s' \<and> length (abs s') \<le> cap"
proof (induction as arbitrary: s)
  case Nil
  then show ?case using bounded by auto
next
  case (Cons a as)
  show ?case
  proof (cases a)
    case (SPut xs)
    then have "ok ((b + put_total as) + length xs) s" using Cons.prems by (simp add: ac_simps)
    then obtain s1 n where p: "put s xs = Some (s1, n)" "abs s1 = abs s @ take n xs" "ok (b + put_total as) s1"
      using put_spec by blast
    obtain s' inp out where r: "stream_run s1 as = Some (s', inp, out)" "abs s1 @ inp = out @ abs s'" "ok b s'"
        "length (abs s') \<le> cap"
      using Cons.IH [OF p(3)] by blast
    then show ?thesis using SPut p by simp
  next
    case (SGet n)
    then have "ok (b + put_total as) s" using Cons.prems by simp
    then obtain s1 where g: "get s n = Some (s1, take n (abs s))" "abs s1 = drop n (abs s)" "ok (b + put_total as) s1"
      using get_spec by blast
    obtain s' inp out where r: "stream_run s1 as = Some (s', inp, out)" "abs s1 @ inp = out @ abs s'" "ok b s'"
        "length (abs s') \<le> cap"
      using Cons.IH [OF g(3)] by blast
    have "abs s @ inp = take n (abs s) @ abs s1 @ inp" using g(2) by simp
    also have "\<dots> = (take n (abs s) @ out) @ abs s'" using r(2) by simp
    finally show ?thesis using SGet g(1) r by auto
  qed
qed

end

subsection \<open>A pipe is a byte stream\<close>

definition pipe_ok :: "nat \<Rightarrow> pipe \<Rightarrow> bool" where
  "pipe_ok b p \<longleftrightarrow> length (p_buf p) = 4096 \<and> 0 \<le> p_tail p \<and> p_tail p \<le> p_head p \<and> p_head p - p_tail p \<le> 4095
     \<and> p_head p + int b < 2147483648"

definition pipe_len :: "pipe \<Rightarrow> nat" where "pipe_len p = nat (p_head p - p_tail p)"

definition pipe_abs :: "pipe \<Rightarrow> u8 list" where
  "pipe_abs p = map (\<lambda>i. p_buf p ! ((nat (p_tail p) + i) mod 4096)) [0..<pipe_len p]"

lemma length_pipe_abs [simp]: "length (pipe_abs p) = pipe_len p"
  by (simp add: pipe_abs_def)

lemma pipe_used_bytes: "pipe_ok b p \<Longrightarrow> pipe_used_bytes p = int (pipe_len p)"
  by (simp add: pipe_ok_def pipe_used_bytes_def wrap32_id crem_pos pipe_len_def)

lemma size_of_nat: "n < 4294967296 \<Longrightarrow> size_of_int (int n) = n"
  by (simp add: size_of_int_def)

lemma pipe_len_le: "pipe_ok b p \<Longrightarrow> pipe_len p \<le> 4095"
  by (simp add: pipe_ok_def pipe_len_def nat_le_iff)

lemma pipe_room: "pipe_ok b p \<Longrightarrow> pipe_room p = 4095 - pipe_len p"
  using pipe_len_le [of b p]
  by (simp add: pipe_room_def pipe_used_bytes size_of_int_def)

lemma pop_step:
  assumes "pipe_ok b p" "0 < pipe_len p"
  shows "crem (p_tail p) 4096 = int (nat (p_tail p) mod 4096)"
    and "pipe_ok b (p\<lparr> p_tail := wrap32 (p_tail p + 1) \<rparr>)"
    and "pipe_abs p = p_buf p ! (nat (p_tail p) mod 4096) # pipe_abs (p\<lparr> p_tail := wrap32 (p_tail p + 1) \<rparr>)"
proof -
  have t: "0 \<le> p_tail p" "p_tail p + 1 \<le> p_head p" "p_head p < 2147483648"
    using assms by (auto simp: pipe_ok_def pipe_len_def)
  then have w: "wrap32 (p_tail p + 1) = p_tail p + 1" by (intro wrap32_id) simp_all
  show "crem (p_tail p) 4096 = int (nat (p_tail p) mod 4096)" using t by (simp add: crem_pos zmod_int)
  show "pipe_ok b (p\<lparr> p_tail := wrap32 (p_tail p + 1) \<rparr>)" using assms t by (simp add: w pipe_ok_def)
  have n: "[0..<pipe_len p] = 0 # map Suc [0..<pipe_len p - 1]"
    using assms(2) by (metis Suc_diff_1 map_Suc_upt upt_conv_Cons)
  have l: "pipe_len (p\<lparr> p_tail := p_tail p + 1 \<rparr>) = pipe_len p - 1" using t by (simp add: pipe_len_def)
  have s: "nat (p_tail p + 1) = Suc (nat (p_tail p))" using t by simp
  show "pipe_abs p = p_buf p ! (nat (p_tail p) mod 4096) # pipe_abs (p\<lparr> p_tail := wrap32 (p_tail p + 1) \<rparr>)"
    unfolding w by (simp add: pipe_abs_def n l s)
qed

lemma pop_spec:
  "pipe_ok b p \<Longrightarrow> n \<le> pipe_len p \<Longrightarrow>
     \<exists>t. pop_bytes n p = Some (p\<lparr> p_tail := t \<rparr>, take n (pipe_abs p)) \<and> pipe_abs (p\<lparr> p_tail := t \<rparr>) = drop n (pipe_abs p)
       \<and> pipe_ok b (p\<lparr> p_tail := t \<rparr>)"
proof (induction n arbitrary: p)
  case 0
  show ?case by (rule exI [of _ "p_tail p"]) (use 0 in simp)
next
  case (Suc n)
  let ?p1 = "p\<lparr> p_tail := wrap32 (p_tail p + 1) \<rparr>"
  have "0 < pipe_len p" using Suc.prems by simp
  note st = pop_step [OF Suc.prems(1) this]
  have "pipe_len p = Suc (pipe_len ?p1)" using arg_cong [OF st(3), of length] by simp
  then obtain t where t: "pop_bytes n ?p1 = Some (?p1\<lparr> p_tail := t \<rparr>, take n (pipe_abs ?p1))"
      "pipe_abs (?p1\<lparr> p_tail := t \<rparr>) = drop n (pipe_abs ?p1)" "pipe_ok b (?p1\<lparr> p_tail := t \<rparr>)"
    using Suc.IH [OF st(2)] Suc.prems(2) by auto
  then show ?case by (intro exI [of _ t]) (simp add: st(1) st(3) Let_def)
qed

lemma push_step:
  assumes "pipe_ok (Suc b) p" "pipe_len p < 4095"
  shows "crem (p_head p) 4096 = int (nat (p_head p) mod 4096)"
    and "pipe_ok b (p\<lparr> p_buf := (p_buf p)[nat (p_head p) mod 4096 := x], p_head := wrap32 (p_head p + 1) \<rparr>)"
    and "pipe_abs (p\<lparr> p_buf := (p_buf p)[nat (p_head p) mod 4096 := x], p_head := wrap32 (p_head p + 1) \<rparr>) = pipe_abs p @ [x]"
proof -
  have h: "0 \<le> p_tail p" "p_tail p \<le> p_head p" "p_head p + 1 + int b < 2147483648" "p_head p - p_tail p < 4095"
      "length (p_buf p) = 4096"
    using assms by (auto simp: pipe_ok_def pipe_len_def)
  then have w: "wrap32 (p_head p + 1) = p_head p + 1" by (intro wrap32_id) simp_all
  show "crem (p_head p) 4096 = int (nat (p_head p) mod 4096)" using h by (simp add: crem_pos zmod_int)
  let ?i = "nat (p_head p) mod 4096"
  let ?p = "p\<lparr> p_buf := (p_buf p)[?i := x], p_head := p_head p + 1 \<rparr>"
  show "pipe_ok b (p\<lparr> p_buf := (p_buf p)[?i := x], p_head := wrap32 (p_head p + 1) \<rparr>)"
    unfolding w using h by (simp add: pipe_ok_def)
  have l: "pipe_len ?p = Suc (pipe_len p)" using h by (simp add: pipe_len_def)
  have hd: "nat (p_tail p) + pipe_len p = nat (p_head p)" using h by (simp add: pipe_len_def nat_add_distrib [symmetric])
  have other: "?i \<noteq> (nat (p_tail p) + i) mod 4096" if "i < pipe_len p" for i
  proof
    assume "?i = (nat (p_tail p) + i) mod 4096"
    then have "4096 dvd (nat (p_tail p) + pipe_len p) - (nat (p_tail p) + i)"
      unfolding hd [symmetric] by (metis mod_eq_dvd_iff_nat that add_le_cancel_left less_imp_le)
    then show False using that assms(2) by (simp add: dvd_imp_le nat_dvd_not_less)
  qed
  have "pipe_abs ?p = map (\<lambda>i. (p_buf p)[?i := x] ! ((nat (p_tail p) + i) mod 4096)) [0..<pipe_len p] @ [x]"
    using h by (simp add: pipe_abs_def l hd)
  also have "map (\<lambda>i. (p_buf p)[?i := x] ! ((nat (p_tail p) + i) mod 4096)) [0..<pipe_len p] = pipe_abs p"
    unfolding pipe_abs_def by (rule map_cong [OF refl]) (simp add: nth_list_update_neq [OF other])
  finally show "pipe_abs (p\<lparr> p_buf := (p_buf p)[?i := x], p_head := wrap32 (p_head p + 1) \<rparr>) = pipe_abs p @ [x]"
    unfolding w .
qed

lemma push_spec:
  "pipe_ok (b + length xs) p \<Longrightarrow> pipe_len p + length xs \<le> 4095 \<Longrightarrow>
     \<exists>bf h. push_bytes xs p = Some (p\<lparr> p_buf := bf, p_head := h \<rparr>)
       \<and> pipe_abs (p\<lparr> p_buf := bf, p_head := h \<rparr>) = pipe_abs p @ xs \<and> pipe_ok b (p\<lparr> p_buf := bf, p_head := h \<rparr>)"
proof (induction xs arbitrary: p)
  case Nil
  show ?case by (rule exI [of _ "p_buf p"], rule exI [of _ "p_head p"]) (use Nil in simp)
next
  case (Cons x xs)
  let ?p1 = "p\<lparr> p_buf := (p_buf p)[nat (p_head p) mod 4096 := x], p_head := wrap32 (p_head p + 1) \<rparr>"
  have "pipe_ok (Suc (b + length xs)) p" "pipe_len p < 4095" using Cons.prems by simp_all
  note st = push_step(1) [OF this] push_step(2,3) [OF this, of x]
  have "pipe_len ?p1 = Suc (pipe_len p)" using arg_cong [OF st(3), of length] by simp
  then obtain bf h where i: "push_bytes xs ?p1 = Some (?p1\<lparr> p_buf := bf, p_head := h \<rparr>)"
      "pipe_abs (?p1\<lparr> p_buf := bf, p_head := h \<rparr>) = pipe_abs ?p1 @ xs" "pipe_ok b (?p1\<lparr> p_buf := bf, p_head := h \<rparr>)"
    using Cons.IH [OF st(2)] Cons.prems(2) by auto
  then show ?case by (intro exI [of _ bf] exI [of _ h]) (simp add: st(1,3) Let_def)
qed


lemma pipe_write_spec:
  assumes "pipe_ok (b + length xs) p"
  shows "\<exists>bf h n. write_some p xs = Some (p\<lparr> p_buf := bf, p_head := h \<rparr>, n) \<and> n = min (length xs) (4095 - pipe_len p)
    \<and> pipe_abs (p\<lparr> p_buf := bf, p_head := h \<rparr>) = pipe_abs p @ take n xs \<and> pipe_ok b (p\<lparr> p_buf := bf, p_head := h \<rparr>)"
proof -
  let ?n = "min (length xs) (4095 - pipe_len p)"
  have r: "pipe_room p = 4095 - pipe_len p" by (rule pipe_room [OF assms])
  have "pipe_ok (b + length (take ?n xs)) p" using assms by (auto simp: pipe_ok_def min_def)
  moreover have "pipe_len p + length (take ?n xs) \<le> 4095" using pipe_len_le [OF assms] by simp
  ultimately obtain bf h where "push_bytes (take ?n xs) p = Some (p\<lparr> p_buf := bf, p_head := h \<rparr>)"
      "pipe_abs (p\<lparr> p_buf := bf, p_head := h \<rparr>) = pipe_abs p @ take ?n xs" "pipe_ok b (p\<lparr> p_buf := bf, p_head := h \<rparr>)"
    using push_spec by blast
  then show ?thesis by (intro exI [of _ bf] exI [of _ h] exI [of _ ?n]) (simp add: write_some_def r)
qed

lemma pipe_read_spec:
  assumes "pipe_ok b p"
  shows "\<exists>t. read_some p n = Some (p\<lparr> p_tail := t \<rparr>, take n (pipe_abs p))
    \<and> pipe_abs (p\<lparr> p_tail := t \<rparr>) = drop n (pipe_abs p) \<and> pipe_ok b (p\<lparr> p_tail := t \<rparr>)"
proof -
  have u: "size_of_int (pipe_used_bytes p) = pipe_len p"
    using pipe_len_le [OF assms] by (simp add: pipe_used_bytes [OF assms] size_of_nat)
  obtain t where t: "pop_bytes (min n (pipe_len p)) p = Some (p\<lparr> p_tail := t \<rparr>, take (min n (pipe_len p)) (pipe_abs p))"
      "pipe_abs (p\<lparr> p_tail := t \<rparr>) = drop (min n (pipe_len p)) (pipe_abs p)" "pipe_ok b (p\<lparr> p_tail := t \<rparr>)"
    using pop_spec [OF assms, of "min n (pipe_len p)"] by auto
  have m: "take (min n (pipe_len p)) (pipe_abs p) = take n (pipe_abs p)"
      "drop (min n (pipe_len p)) (pipe_abs p) = drop n (pipe_abs p)"
    by (cases "n \<le> pipe_len p"; simp)+
  show ?thesis using t unfolding m by (intro exI [of _ t]) (simp add: read_some_def u)
qed

interpretation ps: byte_stream pipe_ok pipe_abs write_some read_some 4095
proof
  show "\<exists>s' n. write_some s xs = Some (s', n) \<and> n = min (length xs) (4095 - length (pipe_abs s))
      \<and> pipe_abs s' = pipe_abs s @ take n xs \<and> pipe_ok b s'" if "pipe_ok (b + length xs) s" for b xs s
    using pipe_write_spec [OF that] unfolding length_pipe_abs by blast
  show "\<exists>s'. read_some s n = Some (s', take n (pipe_abs s)) \<and> pipe_abs s' = drop n (pipe_abs s) \<and> pipe_ok b s'"
    if "pipe_ok b s" for b s n using pipe_read_spec [OF that] by blast
qed (auto simp: pipe_ok_def pipe_len_le pipe_len_def nat_le_iff)

lemma fresh_pipe_ok: "b < 2147483648 \<Longrightarrow> pipe_ok b fresh_pipe" "pipe_abs fresh_pipe = []"
  by (simp_all add: pipe_ok_def fresh_pipe_def PIPE_BUF_SIZE_def pipe_abs_def pipe_len_def)

text \<open>C32: a pipe is a byte stream: after \<open>pipe_create\<close>, whatever sequence of writes and reads of
  any sizes follows, with fewer than \<open>2 ^ 31\<close> bytes offered to writes in total, no access leaves
  the buffer, the bytes read are exactly the bytes accepted by the writes, in order, and the rest,
  at most 4095 bytes, is still in the buffer.\<close>

theorem pipe_stream_integrity:
  assumes "pipe_create g = (g', Inr (r, w))" "put_total ops < 2147483648"
  shows "\<exists>p accepted delivered. ps.stream_run (g' (nat (r - 500))) ops = Some (p, accepted, delivered)
    \<and> accepted = delivered @ pipe_abs p \<and> length (pipe_abs p) \<le> 4095"
proof -
  have "g' (nat (r - 500)) = fresh_pipe" using assms(1) by (auto simp: pipe_create_def split: option.splits)
  then show ?thesis
    using ps.run_integrity [of 0 ops fresh_pipe] assms(2) fresh_pipe_ok by auto
qed

theorem pipe_stream_integrity_witness:
  "\<exists>p accepted delivered. ps.stream_run (fst (pipe_create (\<lambda>_. fresh_pipe\<lparr> p_used := False \<rparr>)) 0)
       [SPut [1, 2, 3], SGet 2, SPut [4], SGet 9] = Some (p, accepted, delivered) \<and> accepted = delivered @ pipe_abs p"
proof -
  let ?g = "\<lambda>_ :: nat. fresh_pipe\<lparr> p_used := False \<rparr>"
  let ?ops = "[SPut [1, 2, 3], SGet 2, SPut [4], SGet 9] :: u8 stream_op list"
  have u: "[0..<16] = 0 # [1..<16 :: nat]" by (subst upt_conv_Cons) simp_all
  have c: "pipe_create ?g = (?g(0 := fresh_pipe), Inr (500, 600))"
    by (simp add: pipe_create_def PIPE_MAX_def u del: upt_Suc)
  have "\<exists>p acc del. ps.stream_run ((?g(0 := fresh_pipe)) (nat (500 - 500))) ?ops = Some (p, acc, del) \<and> acc = del @ pipe_abs p
      \<and> length (pipe_abs p) \<le> 4095"
    by (rule pipe_stream_integrity [OF c]) simp
  then show ?thesis unfolding c by auto
qed

subsection \<open>Blocked readers and writers are woken\<close>

lemma wake_each_other:
  "\<not> (t_used (tsk s j) \<and> t_state (tsk s j) = TASK_SLEEPING) \<Longrightarrow> tsk (fst (wake_each kind ref is (s, n))) j = tsk s j"
proof (induction "is" arbitrary: s n)
  case (Cons i rest)
  show ?case
  proof (cases "t_used (tsk s i) \<and> t_state (tsk s i) = TASK_SLEEPING \<and> waits_on (tsk s i) kind ref")
    case True
    then have "j \<noteq> i" using Cons.prems by blast
    then have e: "tsk (fst (task_make_runnable s i)) j = tsk s j" by (auto simp: task_make_runnable_def tsk_upd)
    then show ?thesis using Cons.IH [of "fst (task_make_runnable s i)"] Cons.prems True
      by (auto split: prod.splits)
  qed (use Cons in auto)
qed simp

lemma frame_make_runnable [simp]:
  "task_schedulable_user_frame (fst (task_make_runnable s i)) j = task_schedulable_user_frame s j"
  by (auto simp: task_make_runnable_def task_schedulable_user_frame_def task_kernel_rsp_frame_valid_def tsk_upd Let_def)

lemma wake_each_wakes:
  "j \<in> set is \<Longrightarrow> j < TASK_MAX \<Longrightarrow> t_used (tsk s j) \<Longrightarrow> t_state (tsk s j) = TASK_SLEEPING \<Longrightarrow> waits_on (tsk s j) kind ref \<Longrightarrow>
     (c_cs (t_ctx (tsk s j)) = 0x28 \<Longrightarrow> task_schedulable_user_frame s j) \<Longrightarrow>
     t_state (tsk (fst (wake_each kind ref is (s, n))) j) = TASK_RUNNABLE"
proof (induction "is" arbitrary: s n)
  case (Cons i rest)
  obtain s1 ok where m: "task_make_runnable s i = (s1, ok)" by fastforce
  show ?case
  proof (cases "i = j")
    case True
    have "t_state (tsk s1 j) = TASK_RUNNABLE"
      using m True Cons.prems by (auto simp: task_make_runnable_def tsk_upd split: if_splits)
    then show ?thesis using Cons.prems True m wake_each_other [of s1 j kind ref rest] by simp
  next
    case False
    have e: "tsk s1 j = tsk s j" using m False by (auto simp: task_make_runnable_def tsk_upd split: if_splits)
    have f: "task_schedulable_user_frame s1 j = task_schedulable_user_frame s j"
      using frame_make_runnable [of s i j] m by simp
    show ?thesis
      using Cons.IH [of s1] Cons.IH [of s] Cons.prems False m e f by auto
  qed
qed simp

text \<open>A write that puts bytes into a pipe makes every task runnable that sleeps with the read
  end open and whose kernel frame is usable, and the bytes are then there to be read: no wake-up
  is lost.\<close>

theorem pipe_write_wakes_readers:
  assumes "pipe_ref_ok (g_pipes s) ref" "pipe_ok (length bs) (g_pipes s (nat ref))"
    and "bs \<noteq> []" "0 < p_readers (g_pipes s (nat ref))" "length (pipe_abs (g_pipes s (nat ref))) < 4095"
  shows "\<exists>s' n. c3_pipe_write_wait s ref bs dontwait = Some (s', IoDone n) \<and> 0 < n
    \<and> pipe_abs (g_pipes s' (nat ref)) = pipe_abs (g_pipes s (nat ref)) @ take n bs
    \<and> (\<forall>j < TASK_MAX. t_used (tsk (pk s) j) \<and> t_state (tsk (pk s) j) = TASK_SLEEPING
         \<and> (\<exists>fd < TASK_FD_MAX. fd_kind (t_fdt (tsk (pk s) j) fd) = FDKIND_PIPE_R \<and> fd_ref (t_fdt (tsk (pk s) j) fd) = ref)
         \<and> (c_cs (t_ctx (tsk (pk s) j)) = 0x28 \<longrightarrow> task_schedulable_user_frame (pk s) j)
         \<longrightarrow> t_state (tsk (pk s') j) = TASK_RUNNABLE)"
proof -
  let ?p = "g_pipes s (nat ref)"
  obtain bf h n where w: "write_some ?p bs = Some (?p\<lparr> p_buf := bf, p_head := h \<rparr>, n)"
      "n = min (length bs) (4095 - pipe_len ?p)" "pipe_abs (?p\<lparr> p_buf := bf, p_head := h \<rparr>) = pipe_abs ?p @ take n bs"
    using pipe_write_spec [of 0 bs ?p] assms(2) by auto
  let ?s' = "s\<lparr> g_pipes := (g_pipes s)(nat ref := ?p\<lparr> p_buf := bf, p_head := h \<rparr>),
      pk := fst (c3_wake_fd_waiters (pk s) FDKIND_PIPE_R ref) \<rparr>"
  have n: "0 < n" using w(2) assms(3,5) by simp
  have room: "pipe_room ?p \<noteq> 0" using pipe_room [OF assms(2)] assms(5) by simp
  have e: "c3_pipe_write_wait s ref bs dontwait = Some (?s', IoDone n)"
    using assms room w(1) by (simp add: c3_pipe_write_wait_def Let_def)
  have "t_state (tsk (pk ?s') j) = TASK_RUNNABLE"
    if "j < TASK_MAX" "t_used (tsk (pk s) j)" "t_state (tsk (pk s) j) = TASK_SLEEPING" "fd < TASK_FD_MAX"
      "fd_kind (t_fdt (tsk (pk s) j) fd) = FDKIND_PIPE_R" "fd_ref (t_fdt (tsk (pk s) j) fd) = ref"
      "c_cs (t_ctx (tsk (pk s) j)) = 0x28 \<longrightarrow> task_schedulable_user_frame (pk s) j" for j fd
  proof -
    have "waits_on (tsk (pk s) j) FDKIND_PIPE_R ref"
      unfolding waits_on_def list_ex_iff Let_def using that
      by (intro bexI [of _ fd]) (auto simp: FDKIND_PIPE_R_def FDKIND_NONE_def)
    then show ?thesis using that by (auto simp: c3_wake_fd_waiters_def intro!: wake_each_wakes)
  qed
  then show ?thesis using e n w(3) by auto
qed


text \<open>One task asleep on the read end of pipe 0.\<close>

definition sleeper_state :: "kernel \<Rightarrow> pipe_state" where
  "sleeper_state k = \<lparr> pk = k\<lparr> g_tasks := (\<lambda>i. if i = 1 then zero_task\<lparr> t_used := True, t_pid := 2,
       t_state := TASK_SLEEPING, t_fdt := (\<lambda>_. no_fd)(0 := no_fd\<lparr> fd_kind := FDKIND_PIPE_R, fd_ref := 0 \<rparr>) \<rparr>
       else zero_task) \<rparr>, g_pipes = (\<lambda>_. fresh_pipe) \<rparr>"

theorem pipe_write_wakes_readers_witness:
  "\<forall>k. \<exists>s' n. c3_pipe_write_wait (sleeper_state k) 0 [7] False = Some (s', IoDone n) \<and> 0 < n
     \<and> t_state (tsk (pk s') 1) = TASK_RUNNABLE"
proof (intro allI)
  fix k
  let ?s = "sleeper_state k"
  have g: "g_pipes ?s (nat 0) = fresh_pipe" "pipe_ref_ok (g_pipes ?s) 0"
    by (simp_all add: sleeper_state_def pipe_ref_ok_def fresh_pipe_def PIPE_MAX_def)
  have t: "t_used (tsk (pk ?s) 1)" "t_state (tsk (pk ?s) 1) = TASK_SLEEPING" "c_cs (t_ctx (tsk (pk ?s) 1)) \<noteq> 0x28"
      "fd_kind (t_fdt (tsk (pk ?s) 1) 0) = FDKIND_PIPE_R \<and> fd_ref (t_fdt (tsk (pk ?s) 1) 0) = 0"
    by (simp_all add: sleeper_state_def zero_task_def zero_context_def)
  have m: "1 < TASK_MAX" "0 < TASK_FD_MAX" by (simp_all add: TASK_MAX_def TASK_FD_MAX_def)
  have r: "0 < p_readers fresh_pipe" by (simp add: fresh_pipe_def)
  have l: "pipe_len fresh_pipe = 0" by (simp add: pipe_len_def fresh_pipe_def)
  obtain s' n where "c3_pipe_write_wait ?s 0 [7] False = Some (s', IoDone n)" "0 < n"
      "\<forall>j < TASK_MAX. t_used (tsk (pk ?s) j) \<and> t_state (tsk (pk ?s) j) = TASK_SLEEPING
         \<and> (\<exists>fd < TASK_FD_MAX. fd_kind (t_fdt (tsk (pk ?s) j) fd) = FDKIND_PIPE_R \<and> fd_ref (t_fdt (tsk (pk ?s) j) fd) = 0)
         \<and> (c_cs (t_ctx (tsk (pk ?s) j)) = 0x28 \<longrightarrow> task_schedulable_user_frame (pk ?s) j)
         \<longrightarrow> t_state (tsk (pk s') j) = TASK_RUNNABLE"
    using pipe_write_wakes_readers [of ?s 0 "[7]" False] g fresh_pipe_ok r l by auto
  then show "\<exists>s' n. c3_pipe_write_wait ?s 0 [7] False = Some (s', IoDone n) \<and> 0 < n
     \<and> t_state (tsk (pk s') 1) = TASK_RUNNABLE"
    using t m by blast
qed

text \<open>Without the bound the index leaves the buffer: the byte counter of a long-lived pipe wraps.\<close>

lemma pipe_counter_wraps:
  "push_bytes [a, b, c] (fresh_pipe\<lparr> p_head := 2147483647, p_tail := 2147483647 \<rparr>) = None"
  by (simp add: crem_def wrap32_def fresh_pipe_def)

end
