(* ===== verification/KBytes.thy ===== *)
theory KBytes
  imports Prelude
begin

text \<open>
  Numbers as byte strings, little-endian (the memory order of the machine, on-disk structures) and
  big-endian (network order).
\<close>

primrec le_bytes :: "nat \<Rightarrow> nat \<Rightarrow> u8 list" where
  "le_bytes 0 n = []"
| "le_bytes (Suc k) n = of_nat n # le_bytes k (n div 256)"

primrec of_le :: "u8 list \<Rightarrow> nat" where
  "of_le [] = 0"
| "of_le (b # bs) = unat b + 256 * of_le bs"

definition be_bytes :: "nat \<Rightarrow> nat \<Rightarrow> u8 list" where "be_bytes k n = rev (le_bytes k n)"

definition of_be :: "u8 list \<Rightarrow> nat" where "of_be bs = of_le (rev bs)"

lemma length_le_bytes [simp]: "length (le_bytes k n) = k"
  by (induction k arbitrary: n) auto

lemma length_be_bytes [simp]: "length (be_bytes k n) = k"
  by (simp add: be_bytes_def)

lemma of_le_bytes: "of_le (le_bytes k n) = n mod 256 ^ k"
proof (induction k arbitrary: n)
  case (Suc k)
  have "unat (of_nat n :: u8) = n mod 256" by (simp add: unat_of_nat)
  then have "of_le (le_bytes (Suc k) n) = n mod 256 + 256 * (n div 256 mod 256 ^ k)" by (simp add: Suc)
  also have "\<dots> = n mod (256 * 256 ^ k)" by (simp add: mod_mult2_eq)
  finally show ?case by simp
qed simp

lemma of_le_bytes_id [simp]: "n < 256 ^ k \<Longrightarrow> of_le (le_bytes k n) = n"
  by (simp add: of_le_bytes)

lemma of_be_bytes [simp]: "n < 256 ^ k \<Longrightarrow> of_be (be_bytes k n) = n"
  by (simp add: of_be_def be_bytes_def)

lemma of_le_lt: "of_le bs < 256 ^ length bs"
proof (induction bs)
  case (Cons b bs)
  have b: "unat b < 256" using unsigned_less [of b] by simp
  have "unat b + 256 * of_le bs < 256 + 256 * of_le bs" using b by simp
  also have "\<dots> = 256 * (of_le bs + 1)" by simp
  also have "\<dots> \<le> 256 * 256 ^ length bs" using Cons by (intro mult_le_mono2) simp
  finally show ?case by simp
qed simp

lemma of_be_lt: "of_be bs < 256 ^ length bs"
  using of_le_lt [of "rev bs"] by (simp add: of_be_def)

text \<open>The machine's 16 and 32 bit accesses.\<close>

definition le32 :: "u32 \<Rightarrow> u8 list" where "le32 w = le_bytes 4 (unat w)"
definition le16 :: "u16 \<Rightarrow> u8 list" where "le16 w = le_bytes 2 (unat w)"
definition rd32 :: "u8 list \<Rightarrow> u32" where "rd32 bs = of_nat (of_le (take 4 bs))"
definition rd16 :: "u8 list \<Rightarrow> u16" where "rd16 bs = of_nat (of_le (take 2 bs))"
definition be16 :: "u16 \<Rightarrow> u8 list" where "be16 w = be_bytes 2 (unat w)"
definition be32 :: "u32 \<Rightarrow> u8 list" where "be32 w = be_bytes 4 (unat w)"

lemma length_words [simp]: "length (le32 w) = 4" "length (le16 h) = 2" "length (be16 h) = 2" "length (be32 w) = 4"
  by (simp_all add: le32_def le16_def be16_def be32_def)

lemma rd32_le32 [simp]: "rd32 (le32 w @ r) = w"
proof -
  have "unat w < 256 ^ 4" by (rule order_less_le_trans [OF unsigned_less]) simp
  then show ?thesis unfolding rd32_def le32_def by simp
qed

lemma rd16_le16 [simp]: "rd16 (le16 w @ r) = w"
proof -
  have "unat w < 256 ^ 2" by (rule order_less_le_trans [OF unsigned_less]) simp
  then show ?thesis unfolding rd16_def le16_def by simp
qed

end
