(* ===== verification/KTty.thy ===== *)
theory KTty
  imports KPipe KSched KBytes
begin

text \<open>
  The terminal and the timers of \<^verbatim>\<open>src/compat/memory_tasks.c\<close>: the line discipline
  (\<open>tty_input_char\<close>, \<open>tty_read\<close>), the control calls (\<open>tty_ioctl\<close>) on a byte memory, and the
  interval timers (\<open>timer_create_entry\<close>, \<open>timer_tick\<close>, \<open>sys_alarm\<close>) that turn ticks into signals.
\<close>

subsection \<open>The device\<close>

definition NCCS :: nat where "NCCS = 32"
definition ICRNL :: u32 where "ICRNL = 0x100"
definition IXON :: u32 where "IXON = 0x400"
definition OPOST :: u32 where "OPOST = 0x01"
definition ONLCR :: u32 where "ONLCR = 0x04"
definition CS8 :: u32 where "CS8 = 0x30"
definition CREAD :: u32 where "CREAD = 0x80"
definition ISIG :: u32 where "ISIG = 0x01"
definition ICANON :: u32 where "ICANON = 0x02"
definition ECHO :: u32 where "ECHO = 0x08"
definition ECHOE :: u32 where "ECHOE = 0x10"
definition ECHOK :: u32 where "ECHOK = 0x20"
definition IEXTEN :: u32 where "IEXTEN = 0x8000"
definition VINTR :: nat where "VINTR = 0"
definition VQUIT :: nat where "VQUIT = 1"
definition VERASE :: nat where "VERASE = 2"
definition VKILL :: nat where "VKILL = 3"
definition VEOF :: nat where "VEOF = 4"
definition VTIME :: nat where "VTIME = 5"
definition VMIN :: nat where "VMIN = 6"
definition VSTART :: nat where "VSTART = 8"
definition VSTOP :: nat where "VSTOP = 9"
definition VSUSP :: nat where "VSUSP = 10"

lemmas tty_consts = NCCS_def ICRNL_def IXON_def OPOST_def ONLCR_def CS8_def CREAD_def ISIG_def ICANON_def ECHO_def
  ECHOE_def ECHOK_def IEXTEN_def VINTR_def VQUIT_def VERASE_def VKILL_def VEOF_def VTIME_def VMIN_def VSTART_def
  VSTOP_def VSUSP_def

record termios =
  c_iflag :: u32
  c_oflag :: u32
  c_cflag :: u32
  c_lflag :: u32
  c_cc :: "u8 list"
  c_ispeed :: u32
  c_ospeed :: u32

record tty_device =
  tio :: termios
  input_buf :: "u8 list"
  input_head :: nat
  input_tail :: nat
  line_buf :: "u8 list"
  line_len :: nat
  fg_pgid :: int
  tty_rows :: u16
  tty_cols :: u16

definition tty_init :: tty_device where
  "tty_init = \<lparr> tio = \<lparr> c_iflag = ICRNL OR IXON, c_oflag = OPOST OR ONLCR, c_cflag = CS8 OR CREAD,
       c_lflag = ISIG OR ICANON OR ECHO OR ECHOE OR ECHOK OR IEXTEN,
       c_cc = (replicate NCCS 0)[VINTR := 3, VQUIT := 28, VERASE := 127, VKILL := 21, VEOF := 4, VMIN := 1,
         VTIME := 0, VSTART := 17, VSTOP := 19, VSUSP := 26], c_ispeed = 38400, c_ospeed = 38400 \<rparr>,
     input_buf = replicate 4096 0, input_head = 0, input_tail = 0, line_buf = replicate 4096 0, line_len = 0,
     fg_pgid = 1, tty_rows = 25, tty_cols = 80 \<rparr>"

subsection \<open>Input\<close>

text \<open>One byte into the input ring; a full ring drops it and reports that.\<close>

definition tty_put :: "tty_device \<Rightarrow> u8 \<Rightarrow> tty_device \<times> bool" where
  "tty_put t b =
     (let next = (input_head t + 1) mod 4096
      in if next = input_tail t then (t, False)
         else (t\<lparr> input_buf := (input_buf t)[input_head t := b], input_head := next \<rparr>, True))"

text \<open>The flush loop stops at the first byte that does not fit.\<close>

fun tty_flush :: "tty_device \<Rightarrow> u8 list \<Rightarrow> tty_device" where
  "tty_flush t [] = t"
| "tty_flush t (b # bs) = (case tty_put t b of (t', True) \<Rightarrow> tty_flush t' bs | (t', False) \<Rightarrow> t')"

definition cc :: "tty_device \<Rightarrow> nat \<Rightarrow> u8" where "cc t k = c_cc (tio t) ! k"

definition has_flag :: "u32 \<Rightarrow> u32 \<Rightarrow> bool" where "has_flag w f \<longleftrightarrow> w AND f \<noteq> 0"

definition tty_input_char :: "kernel \<times> tty_device \<Rightarrow> u8 \<Rightarrow> kernel \<times> tty_device" where
  "tty_input_char st c0 =
     (let s = fst st; t = snd st; sg = has_flag (c_lflag (tio t)) ISIG
      in if sg \<and> c0 = cc t VINTR then (fst (sig_send s (- fg_pgid t) (int SIGINT)), t)
         else if sg \<and> c0 = cc t VQUIT then (fst (sig_send s (- fg_pgid t) (int SIGQUIT)), t)
         else if sg \<and> c0 = cc t VSUSP then (fst (sig_send s (- fg_pgid t) (int SIGTSTP)), t)
         else
          (let c = (if has_flag (c_iflag (tio t)) ICRNL \<and> c0 = 13 then 10 else c0)
           in if has_flag (c_lflag (tio t)) ICANON
              then (if c = cc t VERASE then (s, if line_len t > 0 then t\<lparr> line_len := line_len t - 1 \<rparr> else t)
                    else if c = cc t VKILL then (s, t\<lparr> line_len := 0 \<rparr>)
                    else if c = 10 \<or> c = cc t VEOF
                    then (let t1 = tty_flush t (take (line_len t) (line_buf t));
                              t2 = (if c = 10 then fst (tty_put t1 10) else t1)
                          in (s, t2\<lparr> line_len := 0 \<rparr>))
                    else (s, if line_len t < 4095
                             then t\<lparr> line_buf := (line_buf t)[line_len t := c], line_len := line_len t + 1 \<rparr> else t))
              else (s, fst (tty_put t c))))"

function tty_read :: "tty_device \<Rightarrow> nat \<Rightarrow> tty_device \<times> u8 list" where
  "tty_read t count =
     (if count = 0 \<or> input_tail t = input_head t then (t, [])
      else (case tty_read (t\<lparr> input_tail := (input_tail t + 1) mod 4096 \<rparr>) (count - 1) of
          (t', bs) \<Rightarrow> (t', input_buf t ! input_tail t # bs)))"
  by pat_completeness auto
termination by (relation "measure (\<lambda>(t, n). n)") auto

declare tty_read.simps [simp del]

definition tty_write :: "tty_device \<Rightarrow> u8 list \<Rightarrow> nat" where
  "tty_write t bs = length bs"


subsection \<open>The input ring is a byte stream\<close>

definition tty_ok :: "tty_device \<Rightarrow> bool" where
  "tty_ok t \<longleftrightarrow> length (input_buf t) = 4096 \<and> input_head t < 4096 \<and> input_tail t < 4096
     \<and> length (line_buf t) = 4096 \<and> line_len t \<le> 4095 \<and> length (c_cc (tio t)) = NCCS"

definition tty_len :: "tty_device \<Rightarrow> nat" where
  "tty_len t = (input_head t + 4096 - input_tail t) mod 4096"

definition tty_abs :: "tty_device \<Rightarrow> u8 list" where
  "tty_abs t = map (\<lambda>i. input_buf t ! ((input_tail t + i) mod 4096)) [0..<tty_len t]"

lemma length_tty_abs [simp]: "length (tty_abs t) = tty_len t"
  by (simp add: tty_abs_def)

lemma tty_init_ok: "tty_ok tty_init" "tty_abs tty_init = []" "line_len tty_init = 0"
  by (simp_all add: tty_ok_def tty_init_def tty_abs_def tty_len_def NCCS_def)

lemma tty_len_lt: "tty_len t \<le> 4095"
  using mod_less_divisor [of 4096 "input_head t + 4096 - input_tail t"] by (simp add: tty_len_def del: mod_less_divisor)

lemma tty_head: "tty_ok t \<Longrightarrow> (input_tail t + tty_len t) mod 4096 = input_head t"
  by (cases "input_tail t \<le> input_head t") (auto simp: tty_ok_def tty_len_def mod_if)

lemma tty_full: "tty_ok t \<Longrightarrow> (input_head t + 1) mod 4096 = input_tail t \<longleftrightarrow> tty_len t = 4095"
  by (cases "input_head t = 4095"; cases "input_tail t \<le> input_head t") (auto simp: tty_ok_def tty_len_def mod_if)

text \<open>A put keeps everything but the ring.\<close>

lemma tty_put_keeps:
  "tio (fst (tty_put t b)) = tio t" "line_buf (fst (tty_put t b)) = line_buf t"
  "line_len (fst (tty_put t b)) = line_len t" "fg_pgid (fst (tty_put t b)) = fg_pgid t"
  by (simp_all add: tty_put_def Let_def)

lemma tty_put_spec:
  assumes ok: "tty_ok t"
  shows "tty_ok (fst (tty_put t b))" "snd (tty_put t b) \<longleftrightarrow> tty_len t < 4095"
    and "tty_abs (fst (tty_put t b)) = (if tty_len t < 4095 then tty_abs t @ [b] else tty_abs t)"
proof -
  show "tty_ok (fst (tty_put t b))" using ok by (auto simp: tty_ok_def tty_put_def Let_def)
  show "snd (tty_put t b) \<longleftrightarrow> tty_len t < 4095"
    using tty_full [OF ok] tty_len_lt [of t] by (auto simp: tty_put_def Let_def)
  show "tty_abs (fst (tty_put t b)) = (if tty_len t < 4095 then tty_abs t @ [b] else tty_abs t)"
  proof (cases "tty_len t < 4095")
    case False
    then have "tty_len t = 4095" using tty_len_lt [of t] by simp
    then show ?thesis using tty_full [OF ok] by (simp add: tty_put_def)
  next
    case True
    let ?h = "input_head t" and ?n = "tty_len t"
    define t' where "t' = t\<lparr> input_buf := (input_buf t)[?h := b], input_head := (?h + 1) mod 4096 \<rparr>"
    have put: "fst (tty_put t b) = t'"
      using True tty_full [OF ok] by (simp add: tty_put_def t'_def Let_def)
    have n': "tty_len t' = Suc ?n"
      using ok True unfolding t'_def tty_len_def tty_ok_def
      by (cases "?h = 4095"; cases "input_tail t \<le> ?h") (auto simp: mod_if split: if_splits)
    have other: "?h \<noteq> (input_tail t + i) mod 4096" if "i < ?n" for i
    proof
      assume "?h = (input_tail t + i) mod 4096"
      then have "4096 dvd (input_tail t + ?n) - (input_tail t + i)"
        unfolding tty_head [OF ok, symmetric] by (metis mod_eq_dvd_iff_nat that add_le_cancel_left less_imp_le)
      then show False using that True by (simp add: dvd_imp_le nat_dvd_not_less)
    qed
    have "tty_abs t' = map (\<lambda>i. (input_buf t)[?h := b] ! ((input_tail t + i) mod 4096)) [0..<?n] @ [b]"
      using tty_head [OF ok] ok by (simp add: tty_abs_def n') (simp add: t'_def tty_ok_def)
    also have "map (\<lambda>i. (input_buf t)[?h := b] ! ((input_tail t + i) mod 4096)) [0..<?n] = tty_abs t"
      unfolding tty_abs_def by (rule map_cong [OF refl]) (simp add: nth_list_update_neq [OF other])
    finally show ?thesis using True by (simp add: put)
  qed
qed

lemma tty_flush_keeps:
  "tio (tty_flush t bs) = tio t" "line_buf (tty_flush t bs) = line_buf t"
  "line_len (tty_flush t bs) = line_len t" "fg_pgid (tty_flush t bs) = fg_pgid t"
  by (induction t bs rule: tty_flush.induct)
    (auto split: prod.splits bool.splits simp: tty_put_def Let_def split: if_splits)

lemma tty_flush_spec:
  "tty_ok t \<Longrightarrow> tty_ok (tty_flush t bs) \<and> tty_abs (tty_flush t bs) = tty_abs t @ take (4095 - tty_len t) bs"
proof (induction bs arbitrary: t)
  case (Cons b bs)
  obtain t1 r where p: "tty_put t b = (t1, r)" by fastforce
  note sp = tty_put_spec [OF Cons.prems, of b, unfolded p fst_conv snd_conv]
  show ?case
  proof (cases r)
    case True
    then have l: "tty_len t < 4095" and a: "tty_abs t1 = tty_abs t @ [b]" using sp by auto
    then have "tty_len t1 = Suc (tty_len t)" by (metis length_tty_abs length_append_singleton)
    then show ?thesis using Cons.IH [OF sp(1)] True p a l by (auto simp: take_Cons' Suc_diff_Suc)
  next
    case False
    then have "tty_len t = 4095" using sp(2) tty_len_lt [of t] by simp
    then show ?thesis using False p sp by simp
  qed
qed simp

lemma tty_read_spec:
  "tty_ok t \<Longrightarrow> \<exists>k. tty_read t n = (t\<lparr> input_tail := k \<rparr>, take n (tty_abs t))
     \<and> tty_abs (t\<lparr> input_tail := k \<rparr>) = drop n (tty_abs t) \<and> tty_ok (t\<lparr> input_tail := k \<rparr>)"
proof (induction n arbitrary: t)
  case 0
  show ?case by (rule exI [of _ "input_tail t"]) (use 0 in \<open>simp add: tty_read.simps\<close>)
next
  case (Suc n)
  show ?case
  proof (cases "tty_len t")
    case 0
    then have "input_tail t = input_head t" using tty_head [OF Suc.prems] Suc.prems by (simp add: tty_ok_def)
    then have r: "tty_read t (Suc n) = (t, [])" by (simp add: tty_read.simps [of t])
    have a: "tty_abs t = []" using 0 by (simp add: tty_abs_def)
    show ?thesis
      using Suc.prems by (intro exI [of _ "input_tail t"]) (simp only: r a take_Nil drop_Nil tty_device.surjective, simp add: a)
  next
    case (Suc m)
    let ?t1 = "t\<lparr> input_tail := (input_tail t + 1) mod 4096 \<rparr>"
    have ne: "input_tail t \<noteq> input_head t" using Suc by (auto simp: tty_len_def)
    have ok1: "tty_ok ?t1" using Suc.prems by (simp add: tty_ok_def)
    have l1: "tty_len ?t1 = m"
      using Suc Suc.prems ne unfolding tty_len_def tty_ok_def
      by (cases "input_tail t = 4095"; cases "input_tail t \<le> input_head t") (auto simp: mod_if split: if_splits)
    have "[0..<Suc m] = 0 # map Suc [0..<m]" by (metis map_Suc_upt upt_conv_Cons zero_less_Suc)
    then have a: "tty_abs t = input_buf t ! input_tail t # tty_abs ?t1"
      using Suc.prems l1 by (simp add: tty_abs_def Suc mod_simps tty_ok_def o_def del: upt_Suc)
    obtain k where k: "tty_read ?t1 n = (?t1\<lparr> input_tail := k \<rparr>, take n (tty_abs ?t1))"
        "tty_abs (?t1\<lparr> input_tail := k \<rparr>) = drop n (tty_abs ?t1)" "tty_ok (?t1\<lparr> input_tail := k \<rparr>)"
      using Suc.IH [OF ok1] by blast
    then show ?thesis
      using ne by (intro exI [of _ k]) (simp add: tty_read.simps [of t] a)
  qed
qed

interpretation ts: byte_stream "\<lambda>_ :: nat. tty_ok" tty_abs
    "\<lambda>t bs. Some (tty_flush t bs, min (length bs) (4095 - tty_len t))" "\<lambda>t n. Some (tty_read t n)" 4095
proof
  show "\<exists>s' n. Some (tty_flush s xs, min (length xs) (4095 - tty_len s)) = Some (s', n)
      \<and> n = min (length xs) (4095 - length (tty_abs s)) \<and> tty_abs s' = tty_abs s @ take n xs \<and> tty_ok s'"
    if "tty_ok s" for xs s
  proof -
    have "take (min (length xs) (4095 - tty_len s)) xs = take (4095 - tty_len s) xs"
      by (cases "length xs \<le> 4095 - tty_len s") simp_all
    then show ?thesis using tty_flush_spec [OF that, of xs] by simp
  qed
  show "\<exists>s'. Some (tty_read s n) = Some (s', take n (tty_abs s)) \<and> tty_abs s' = drop n (tty_abs s) \<and> tty_ok s'"
    if "tty_ok s" for s n using tty_read_spec [OF that, of n] by auto
qed (auto simp: tty_len_lt)


subsection \<open>Line editing\<close>

text \<open>The reference editor works on the line as a list.\<close>

definition edit :: "tty_device \<Rightarrow> u8 list \<Rightarrow> u8 \<Rightarrow> u8 list" where
  "edit t line c =
     (if c = cc t VERASE then butlast line
      else if c = cc t VKILL then []
      else if length line < 4095 then line @ [c] else line)"

definition tty_line :: "tty_device \<Rightarrow> u8 list" where
  "tty_line t = take (line_len t) (line_buf t)"

text \<open>Characters that end no line and raise no signal.\<close>

definition plain_char :: "tty_device \<Rightarrow> u8 \<Rightarrow> bool" where
  "plain_char t c \<longleftrightarrow> c \<noteq> 10 \<and> c \<noteq> 13 \<and> c \<noteq> cc t VEOF
     \<and> (has_flag (c_lflag (tio t)) ISIG \<longrightarrow> c \<noteq> cc t VINTR \<and> c \<noteq> cc t VQUIT \<and> c \<noteq> cc t VSUSP)"

lemma input_plain:
  assumes "tty_ok t" "has_flag (c_lflag (tio t)) ICANON" "plain_char t c"
  shows "\<exists>t'. tty_input_char (s, t) c = (s, t') \<and> tty_ok t' \<and> tio t' = tio t \<and> tty_abs t' = tty_abs t
    \<and> tty_line t' = edit t (tty_line t) c"
proof -
  have b: "line_len t \<le> 4095" "length (line_buf t) = 4096" using assms(1) by (auto simp: tty_ok_def)
  have ab: "tty_abs (t\<lparr> line_len := n \<rparr>) = tty_abs t" "tty_abs (t\<lparr> line_buf := l, line_len := n \<rparr>) = tty_abs t" for l n
    by (simp_all add: tty_abs_def tty_len_def)
  have nosig: "tty_input_char (s, t) c =
      (if c = cc t VERASE then (s, if line_len t > 0 then t\<lparr> line_len := line_len t - 1 \<rparr> else t)
       else if c = cc t VKILL then (s, t\<lparr> line_len := 0 \<rparr>)
       else (s, if line_len t < 4095 then t\<lparr> line_buf := (line_buf t)[line_len t := c], line_len := line_len t + 1 \<rparr> else t))"
  proof -
    have n: "\<not> (has_flag (c_lflag (tio t)) ISIG \<and> c = cc t VINTR)" "\<not> (has_flag (c_lflag (tio t)) ISIG \<and> c = cc t VQUIT)"
      "\<not> (has_flag (c_lflag (tio t)) ISIG \<and> c = cc t VSUSP)" "\<not> (has_flag (c_iflag (tio t)) ICRNL \<and> c = 13)"
      "\<not> (c = 10 \<or> c = cc t VEOF)"
      using assms(3) unfolding plain_char_def by blast+
    show ?thesis
      unfolding tty_input_char_def Let_def fst_conv snd_conv using assms(2) n by (simp only: if_False if_True)
  qed
  consider (e) "c = cc t VERASE" | (k) "c \<noteq> cc t VERASE" "c = cc t VKILL" | (o) "c \<noteq> cc t VERASE" "c \<noteq> cc t VKILL" by blast
  then show ?thesis
  proof cases
    case e
    have "butlast (take (line_len t) (line_buf t)) = take (line_len t - 1) (line_buf t)" using b by (simp add: butlast_take)
    moreover have "tty_input_char (s, t) c = (s, if line_len t > 0 then t\<lparr> line_len := line_len t - 1 \<rparr> else t)"
      unfolding nosig using e by simp
    moreover have "edit t (tty_line t) c = butlast (tty_line t)" using e by (simp add: edit_def)
    ultimately show ?thesis using assms(1) by (auto simp: tty_line_def ab tty_ok_def)
  next
    case k
    then have "tty_input_char (s, t) c = (s, t\<lparr> line_len := 0 \<rparr>)" unfolding nosig by simp
    moreover have "edit t (tty_line t) c = []" using k by (simp add: edit_def)
    ultimately show ?thesis using assms(1) by (simp add: tty_line_def ab tty_ok_def)
  next
    case o
    have tk: "take (Suc n) ((line_buf t)[n := c]) = take n (line_buf t) @ [c]" if "n < 4095" for n
      using that b by (simp add: take_Suc_conv_app_nth)
    have "tty_input_char (s, t) c = (s, if line_len t < 4095
        then t\<lparr> line_buf := (line_buf t)[line_len t := c], line_len := line_len t + 1 \<rparr> else t)"
      unfolding nosig using o by simp
    moreover have "edit t (tty_line t) c = (if line_len t < 4095 then tty_line t @ [c] else tty_line t)"
      using o b by (simp add: edit_def tty_line_def)
    ultimately show ?thesis using assms(1) tk by (simp add: tty_line_def ab tty_ok_def)
  qed
qed

definition feed :: "kernel \<times> tty_device \<Rightarrow> u8 list \<Rightarrow> kernel \<times> tty_device" where
  "feed st cs = fold (\<lambda>c st. tty_input_char st c) cs st"

lemma feed_plain:
  "tty_ok t \<Longrightarrow> has_flag (c_lflag (tio t)) ICANON \<Longrightarrow> \<forall>c \<in> set cs. plain_char t c \<Longrightarrow>
     \<exists>t'. feed (s, t) cs = (s, t') \<and> tty_ok t' \<and> tio t' = tio t \<and> tty_abs t' = tty_abs t
       \<and> tty_line t' = foldl (edit t) (tty_line t) cs"
proof (induction cs arbitrary: t)
  case Nil
  then show ?case by (auto simp: feed_def)
next
  case (Cons c cs)
  obtain t1 where t1: "tty_input_char (s, t) c = (s, t1)" "tty_ok t1" "tio t1 = tio t" "tty_abs t1 = tty_abs t"
      "tty_line t1 = edit t (tty_line t) c"
    using input_plain [OF Cons.prems(1,2), of c s] Cons.prems(3) by auto
  have same: "plain_char t1 = plain_char t" "edit t1 = edit t"
    by (simp_all add: fun_eq_iff plain_char_def edit_def cc_def t1(3))
  obtain t' where "feed (s, t1) cs = (s, t')" "tty_ok t'" "tio t' = tio t" "tty_abs t' = tty_abs t"
      "tty_line t' = foldl (edit t) (tty_line t1) cs"
    using Cons.IH [OF t1(2)] Cons.prems(2,3) t1(3,4) same by auto
  then show ?case using t1 by (simp add: feed_def)
qed

lemma input_newline:
  assumes "tty_ok t" "has_flag (c_lflag (tio t)) ICANON" "has_flag (c_lflag (tio t)) ISIG \<longrightarrow> 10 \<notin> {cc t VINTR, cc t VQUIT, cc t VSUSP}"
    and "10 \<noteq> cc t VERASE" "10 \<noteq> cc t VKILL"
  shows "\<exists>t'. tty_input_char (s, t) 10 = (s, t') \<and> tty_ok t' \<and> line_len t' = 0
    \<and> tty_abs t' = tty_abs t @ take (4095 - tty_len t) (tty_line t @ [10])"
proof -
  let ?t1 = "tty_flush t (tty_line t)"
  let ?t2 = "fst (tty_put ?t1 10)"
  have f: "tty_ok ?t1" "tty_abs ?t1 = tty_abs t @ take (4095 - tty_len t) (tty_line t)"
    using tty_flush_spec [OF assms(1)] by blast+
  have len1: "tty_len ?t1 = tty_len t + min (4095 - tty_len t) (length (tty_line t))"
    using arg_cong [OF f(2), of length] by simp
  have e: "tty_input_char (s, t) 10 = (s, ?t2\<lparr> line_len := 0 \<rparr>)"
    using assms(2-5) by (auto simp: tty_input_char_def tty_line_def Let_def)
  have "tty_abs ?t2 = tty_abs t @ take (4095 - tty_len t) (tty_line t @ [10])"
    using tty_put_spec(3) [OF f(1), of 10] tty_len_lt [of t] by (auto simp: f(2) len1 min_def split: if_splits)
  moreover have "tty_ok ?t2" by (rule tty_put_spec(1) [OF f(1)])
  ultimately show ?thesis
    unfolding e by (intro exI [of _ "?t2\<lparr> line_len := 0 \<rparr>"]) (simp add: tty_ok_def tty_abs_def tty_len_def)
qed



text \<open>The terminal starts with the process group 1, and the interrupt character is sent to the group
  \<open>- fg_pgid\<close>: as \<open>-1\<close> that addresses every process except the first.\<close>

lemma interrupt_hits_everyone:
  "tty_input_char (s, tty_init) 3 = (fst (sig_send s (- 1) (int SIGINT)), tty_init)"
  "sig_target_match t (- 1) cg \<longleftrightarrow> t_used t \<and> t_pid t > 1"
  by (simp_all add: tty_input_char_def tty_init_def has_flag_def cc_def tty_consts sig_target_match_def)


subsection \<open>Control calls\<close>

definition ENOTTY :: int where "ENOTTY = 25"
definition TCGETS :: u32 where "TCGETS = 0x5401"
definition TCSETS :: u32 where "TCSETS = 0x5402"
definition TCSETSW :: u32 where "TCSETSW = 0x5403"
definition TCSETSF :: u32 where "TCSETSF = 0x5404"
definition TIOCSCTTY :: u32 where "TIOCSCTTY = 0x540E"
definition TIOCGPGRP :: u32 where "TIOCGPGRP = 0x540F"
definition TIOCSPGRP :: u32 where "TIOCSPGRP = 0x5410"
definition TIOCGWINSZ :: u32 where "TIOCGWINSZ = 0x5413"
definition TIOCSWINSZ :: u32 where "TIOCSWINSZ = 0x5414"
definition TIOCNOTTY :: u32 where "TIOCNOTTY = 0x5422"
definition KDSETMODE :: u32 where "KDSETMODE = 0x4B3A"
definition KDGETMODE :: u32 where "KDGETMODE = 0x4B3B"
definition KDGKBMODE :: u32 where "KDGKBMODE = 0x4B44"
definition KDSKBMODE :: u32 where "KDSKBMODE = 0x4B45"
definition VT_OPENQRY :: u32 where "VT_OPENQRY = 0x5600"
definition VT_GETMODE :: u32 where "VT_GETMODE = 0x5601"
definition VT_SETMODE :: u32 where "VT_SETMODE = 0x5602"
definition VT_GETSTATE :: u32 where "VT_GETSTATE = 0x5603"
definition VT_RELDISP :: u32 where "VT_RELDISP = 0x5605"
definition VT_ACTIVATE :: u32 where "VT_ACTIVATE = 0x5606"
definition VT_WAITACTIVE :: u32 where "VT_WAITACTIVE = 0x5607"
definition LINUX_B38400 :: u32 where "LINUX_B38400 = 15"

lemmas ioctl_consts = TCGETS_def TCSETS_def TCSETSW_def TCSETSF_def TIOCSCTTY_def TIOCGPGRP_def TIOCSPGRP_def
  TIOCGWINSZ_def TIOCSWINSZ_def TIOCNOTTY_def KDSETMODE_def KDGETMODE_def KDGKBMODE_def KDSKBMODE_def VT_OPENQRY_def
  VT_GETMODE_def VT_SETMODE_def VT_GETSTATE_def VT_RELDISP_def VT_ACTIVATE_def VT_WAITACTIVE_def

text \<open>The device with the console state beside it.\<close>

record tty_sys =
  dev :: tty_device
  g_tty_kd_mode :: int
  g_tty_kbd_mode :: int
  g_tty_active_vt :: u16
  g_tty_vt_mode :: "u8 list"

text \<open>The 36 bytes of \<open>linux_termios_abi_t\<close>.\<close>

definition tty_export_linux_termios :: "termios \<Rightarrow> u8 list" where
  "tty_export_linux_termios t = le32 (c_iflag t) @ le32 (c_oflag t) @ le32 (c_cflag t OR LINUX_B38400) @ le32 (c_lflag t)
     @ [0] @ take 19 (c_cc t)"

definition tty_import_linux_termios :: "termios \<Rightarrow> u8 list \<Rightarrow> termios" where
  "tty_import_linux_termios t bs = t\<lparr> c_iflag := rd32 bs, c_oflag := rd32 (drop 4 bs),
     c_cflag := rd32 (drop 8 bs) AND NOT LINUX_B38400, c_lflag := rd32 (drop 12 bs),
     c_cc := take 19 (drop 17 bs) @ drop 19 (c_cc t) \<rparr>"

definition int_arg :: "u64 \<Rightarrow> int" where "int_arg a = sint (ucast a :: u32)"

definition le_int :: "int \<Rightarrow> u8 list" where "le_int z = le32 (word_of_int z)"
definition rd_int :: "u8 list \<Rightarrow> int" where "rd_int bs = sint (rd32 bs)"

definition tty_ioctl :: "tty_sys \<Rightarrow> (u64 \<Rightarrow> u8) \<Rightarrow> u64 \<Rightarrow> u64 \<Rightarrow> tty_sys \<times> (u64 \<Rightarrow> u8) \<times> int" where
  "tty_ioctl s m req64 arg =
     (let req = (ucast req64 :: u32); d = dev s;
          out = (\<lambda>bs. if arg \<noteq> 0 then mem_write m arg bs else m)
      in if req = TCGETS then (s, out (tty_export_linux_termios (tio d)), 0)
         else if req = TCSETS \<or> req = TCSETSW \<or> req = TCSETSF
         then (if arg \<noteq> 0 then s\<lparr> dev := d\<lparr> tio := tty_import_linux_termios (tio d) (mem_read m arg 36) \<rparr> \<rparr> else s, m, 0)
         else if req = TIOCSCTTY \<or> req = TIOCNOTTY then (s, m, 0)
         else if req = TIOCGPGRP then (s, out (le_int (fg_pgid d)), 0)
         else if req = TIOCSPGRP
         then (if arg \<noteq> 0 then s\<lparr> dev := d\<lparr> fg_pgid := rd_int (mem_read m arg 4) \<rparr> \<rparr> else s, m, 0)
         else if req = TIOCGWINSZ then (s, out (le16 (tty_rows d) @ le16 (tty_cols d) @ [0, 0, 0, 0]), 0)
         else if req = TIOCSWINSZ
         then (if arg \<noteq> 0 then s\<lparr> dev := d\<lparr> tty_rows := rd16 (mem_read m arg 2),
                 tty_cols := rd16 (mem_read m (arg + 2) 2) \<rparr> \<rparr> else s, m, 0)
         else if req = KDGETMODE then (s, out (le_int (g_tty_kd_mode s)), 0)
         else if req = KDSETMODE
         then (s\<lparr> g_tty_kd_mode := (if int_arg arg = 0 \<or> int_arg arg = 1 then int_arg arg else 0) \<rparr>, m, 0)
         else if req = KDGKBMODE then (s, out (le_int (g_tty_kbd_mode s)), 0)
         else if req = KDSKBMODE then (s\<lparr> g_tty_kbd_mode := int_arg arg \<rparr>, m, 0)
         else if req = VT_OPENQRY then (s, out (le_int 1), 0)
         else if req = VT_GETMODE then (s, out (g_tty_vt_mode s), 0)
         else if req = VT_SETMODE
         then (if arg \<noteq> 0
               then (let v = mem_read m arg 8
                     in s\<lparr> g_tty_vt_mode := (if hd v = 0 \<or> hd v = 1 then v else 0 # tl v) \<rparr>)
               else s, m, 0)
         else if req = VT_GETSTATE
         then (s, out (le16 (g_tty_active_vt s) @ [0, 0] @ le16 (ucast (push_bit (unat (g_tty_active_vt s)) 1 :: u32))), 0)
         else if req = VT_ACTIVATE
         then (if 0 < arg \<and> arg < 16 then s\<lparr> g_tty_active_vt := ucast arg \<rparr> else s, m, 0)
         else if req = VT_WAITACTIVE \<or> req = VT_RELDISP then (s, m, 0)
         else (s, m, - ENOTTY))"

lemma mem_write_other: "unat a + length bs \<le> 2 ^ 64 \<Longrightarrow> b < a \<Longrightarrow> mem_write m a bs b = m b"
proof (induction bs arbitrary: a m)
  case (Cons x bs)
  show ?case
  proof (cases bs)
    case Nil
    then show ?thesis using Cons.prems by (auto simp: fun_upd_def)
  next
    case (Cons y ys)
    then have "unat a + 1 < 2 ^ 64" using Cons.prems by simp
    then have u: "unat (a + 1) = unat a + 1" by (simp add: unat_word_ariths)
    then have "b < a + 1" using Cons.prems(2) by (simp add: word_less_nat_alt)
    then show ?thesis using Cons.IH [of "a + 1"] Cons.prems u by auto
  qed
qed simp

lemma mem_read_write: "unat a + length bs \<le> 2 ^ 64 \<Longrightarrow> mem_read (mem_write m a bs) a (length bs) = bs"
proof (induction bs arbitrary: a m)
  case (Cons x bs)
  show ?case
  proof (cases bs)
    case Nil
    then show ?thesis by simp
  next
    case (Cons y ys)
    then have "unat a + 1 < 2 ^ 64" using Cons.prems by simp
    then have u: "unat (a + 1) = unat a + 1" by (simp add: unat_word_ariths)
    then have "a < a + 1" by (simp add: word_less_nat_alt)
    then show ?thesis using Cons.IH [of "a + 1"] mem_write_other [of "a + 1" bs a] Cons.prems u by auto
  qed
qed simp

lemma import_export:
  assumes "c_cflag t AND LINUX_B38400 = 0" "length (c_cc t) = NCCS" "length (c_cc t') = NCCS"
  shows "tty_import_linux_termios t' (tty_export_linux_termios t) = t'\<lparr> c_iflag := c_iflag t, c_oflag := c_oflag t,
    c_cflag := c_cflag t, c_lflag := c_lflag t, c_cc := take 19 (c_cc t) @ drop 19 (c_cc t') \<rparr>"
proof -
  have cf: "(c_cflag t OR LINUX_B38400) AND NOT LINUX_B38400 = c_cflag t"
  proof (rule bit_eqI)
    fix n :: nat assume "possible_bit TYPE(u32) n"
    then show "bit ((c_cflag t OR LINUX_B38400) AND NOT LINUX_B38400) n = bit (c_cflag t) n"
      using arg_cong [OF assms(1), of "\<lambda>w. bit w n"] by (auto simp: bit_simps)
  qed
  show ?thesis
    using assms(2,3) cf rd32_le32 [of "c_lflag t" "0 # take 19 (c_cc t)"]
    by (simp add: tty_import_linux_termios_def tty_export_linux_termios_def NCCS_def)
qed


text \<open>What \<open>TCGETS\<close> stores is a faithful copy of the terminal settings: after any later
  changes of the terminal, \<open>TCSETS\<close> (or \<open>TCSETSW\<close>, \<open>TCSETSF\<close>) from the same 36 bytes brings back
  the four flag words and the 19 control characters of the Linux structure, and leaves the rest of
  the device as it was.\<close>

theorem tty_settings_roundtrip:
  assumes "length (c_cc (tio (dev s))) = NCCS" "c_cflag (tio (dev s)) AND LINUX_B38400 = 0"
    and "length (c_cc (tio (dev s2))) = NCCS" "a \<noteq> 0" "unat a + 36 \<le> 2 ^ 64"
    and "req \<in> {TCSETS, TCSETSW, TCSETSF}"
  shows "case tty_ioctl s m (ucast TCGETS) a of (s1, m1, r1) \<Rightarrow>
    case tty_ioctl s2 m1 (ucast req) a of (s3, m3, r3) \<Rightarrow>
      r1 = 0 \<and> r3 = 0 \<and> s1 = s \<and> m3 = m1
      \<and> s3 = s2\<lparr> dev := (dev s2)\<lparr> tio := (tio (dev s2))\<lparr> c_iflag := c_iflag (tio (dev s)),
          c_oflag := c_oflag (tio (dev s)), c_cflag := c_cflag (tio (dev s)), c_lflag := c_lflag (tio (dev s)),
          c_cc := take 19 (c_cc (tio (dev s))) @ drop 19 (c_cc (tio (dev s2))) \<rparr> \<rparr> \<rparr>"
proof -
  let ?bs = "tty_export_linux_termios (tio (dev s))"
  have len: "length ?bs = 36" using assms(1) by (simp add: tty_export_linux_termios_def NCCS_def)
  have g: "tty_ioctl s m (ucast TCGETS) a = (s, mem_write m a ?bs, 0)"
    using assms(4) by (simp add: tty_ioctl_def Let_def ioctl_consts)
  have r: "mem_read (mem_write m a ?bs) a 36 = ?bs" using mem_read_write [of a ?bs m] assms(5) len by simp
  have "tty_ioctl s2 (mem_write m a ?bs) (ucast req) a =
      (s2\<lparr> dev := (dev s2)\<lparr> tio := tty_import_linux_termios (tio (dev s2)) ?bs \<rparr> \<rparr>, mem_write m a ?bs, 0)"
  proof -
    consider "req = TCSETS" | "req = TCSETSW" | "req = TCSETSF" using assms(6) by blast
    then show ?thesis by cases (use assms(4) r in \<open>simp_all add: tty_ioctl_def Let_def ioctl_consts\<close>)
  qed
  then show ?thesis using import_export [OF assms(2,1,3)] by (simp add: g)
qed

definition example_tty :: tty_sys where
  "example_tty = \<lparr> dev = tty_init, g_tty_kd_mode = 0, g_tty_kbd_mode = 0, g_tty_active_vt = 1,
     g_tty_vt_mode = replicate 8 0 \<rparr>"

definition raw_tty :: tty_sys where
  "raw_tty = example_tty\<lparr> dev := tty_init\<lparr> tio := (tio tty_init)\<lparr> c_lflag := 0 \<rparr> \<rparr> \<rparr>"

text \<open>A program that saves the settings, switches the terminal to raw mode and restores them.\<close>

theorem tty_settings_roundtrip_witness:
  "\<forall>m. let (s1, m1, r1) = tty_ioctl example_tty m (ucast TCGETS) 0x1000;
          (s3, m3, r3) = tty_ioctl raw_tty m1 (ucast TCSETS) 0x1000
      in has_flag (c_lflag (tio (dev s3))) ICANON \<and> \<not> has_flag (c_lflag (tio (dev raw_tty))) ICANON"
proof (intro allI)
  fix m
  have "case tty_ioctl example_tty m (ucast TCGETS) 0x1000 of (s1, m1, r1) \<Rightarrow>
    case tty_ioctl raw_tty m1 (ucast TCSETS) 0x1000 of (s3, m3, r3) \<Rightarrow>
      r1 = 0 \<and> r3 = 0 \<and> s1 = example_tty \<and> m3 = m1
      \<and> s3 = raw_tty\<lparr> dev := (dev raw_tty)\<lparr> tio := (tio (dev raw_tty))\<lparr> c_iflag := c_iflag (tio (dev example_tty)),
          c_oflag := c_oflag (tio (dev example_tty)), c_cflag := c_cflag (tio (dev example_tty)),
          c_lflag := c_lflag (tio (dev example_tty)),
          c_cc := take 19 (c_cc (tio (dev example_tty))) @ drop 19 (c_cc (tio (dev raw_tty))) \<rparr> \<rparr> \<rparr>"
    by (rule tty_settings_roundtrip) (simp_all add: raw_tty_def example_tty_def tty_init_def tty_consts LINUX_B38400_def)
  then show "let (s1, m1, r1) = tty_ioctl example_tty m (ucast TCGETS) 0x1000;
          (s3, m3, r3) = tty_ioctl raw_tty m1 (ucast TCSETS) 0x1000
      in has_flag (c_lflag (tio (dev s3))) ICANON \<and> \<not> has_flag (c_lflag (tio (dev raw_tty))) ICANON"
    by (auto simp: has_flag_def raw_tty_def example_tty_def tty_init_def tty_consts split: prod.splits)
qed

subsection \<open>Process groups\<close>

definition task_setpgid :: "kernel \<Rightarrow> int \<Rightarrow> int \<Rightarrow> kernel \<times> int" where
  "task_setpgid s pid pgid =
     (case task_index_of_pid s pid of
        None \<Rightarrow> (s, - ESRCH)
      | Some i \<Rightarrow> (upd_task s i (\<lambda>t. t\<lparr> t_pgid := (if pgid \<noteq> 0 then pgid else pid) \<rparr>), 0))"

definition task_getpgid :: "kernel \<Rightarrow> int \<Rightarrow> int" where
  "task_getpgid s pid = (case task_index_of_pid s pid of None \<Rightarrow> - ESRCH | Some i \<Rightarrow> t_pgid (tsk s i))"

definition task_setsid :: "kernel \<Rightarrow> int \<Rightarrow> kernel \<times> int" where
  "task_setsid s pid =
     (case task_index_of_pid s pid of
        None \<Rightarrow> (s, - ESRCH)
      | Some i \<Rightarrow> (upd_task s i (\<lambda>t. t\<lparr> t_pgid := pid, t_sid := pid \<rparr>), pid))"

definition task_getsid :: "kernel \<Rightarrow> int \<Rightarrow> int" where
  "task_getsid s pid = (case task_index_of_pid s pid of None \<Rightarrow> - ESRCH | Some i \<Rightarrow> t_sid (tsk s i))"

subsection \<open>Timers\<close>

definition TIMER_MAX :: nat where "TIMER_MAX = 32"

record timer_entry =
  tm_armed :: bool
  tm_expire_tick :: u64
  tm_interval :: u64
  tm_sig :: int
  tm_pid :: int

record timer_state =
  tk :: kernel
  g_timers :: "nat \<Rightarrow> timer_entry"
  g_tick_counter :: u64

definition timer_create_entry :: "timer_state \<Rightarrow> int \<Rightarrow> u64 \<Rightarrow> u64 \<Rightarrow> int \<Rightarrow> timer_state \<times> int" where
  "timer_create_entry s pid expire interval sig =
     (case find (\<lambda>i. \<not> tm_armed (g_timers s i)) [0..<TIMER_MAX] of
        None \<Rightarrow> (s, - ENOMEM)
      | Some i \<Rightarrow> (s\<lparr> g_timers := (g_timers s)(i := \<lparr> tm_armed = True, tm_expire_tick = expire,
                     tm_interval = interval, tm_sig = sig, tm_pid = pid \<rparr>) \<rparr>, int i))"

fun timer_loop :: "u64 \<Rightarrow> nat list \<Rightarrow> timer_state \<Rightarrow> timer_state" where
  "timer_loop now [] s = s"
| "timer_loop now (i # is) s =
     (let e = g_timers s i
      in if \<not> tm_armed e \<or> now < tm_expire_tick e then timer_loop now is s
         else timer_loop now is (s\<lparr> tk := fst (sig_send (tk s) (tm_pid e) (tm_sig e)),
                g_timers := (g_timers s)(i := (if tm_interval e \<noteq> 0
                  then e\<lparr> tm_expire_tick := now + tm_interval e \<rparr> else e\<lparr> tm_armed := False \<rparr>)) \<rparr>))"

definition timer_tick :: "timer_state \<Rightarrow> u64 \<Rightarrow> u64 \<Rightarrow> timer_state" where
  "timer_tick s now tsc =
     (let s1 = timer_loop now [0..<TIMER_MAX] (s\<lparr> g_tick_counter := now \<rparr>)
      in s1\<lparr> tk := task_wake_due_sleepers (tk s1) tsc \<rparr>)"

definition sys_alarm :: "timer_state \<Rightarrow> u32 \<Rightarrow> timer_state \<times> int" where
  "sys_alarm s seconds =
     (let pid = t_pid (tsk (tk s) (g_current_task (tk s)));
          s1 = s\<lparr> g_timers := (\<lambda>i. if i < TIMER_MAX \<and> tm_armed (g_timers s i) \<and> tm_pid (g_timers s i) = pid
                   \<and> tm_sig (g_timers s i) = int SIGALRM then (g_timers s i)\<lparr> tm_armed := False \<rparr> else g_timers s i) \<rparr>
      in if seconds = 0 then (s1, 0)
         else (fst (timer_create_entry s1 pid (g_tick_counter s1 + ucast seconds * 100) 0 (int SIGALRM)), 0))"

lemma timer_loop_timers:
  "distinct is \<Longrightarrow> g_timers (timer_loop now is s) j = (let e = g_timers s j in
     if j \<in> set is \<and> tm_armed e \<and> tm_expire_tick e \<le> now
     then (if tm_interval e \<noteq> 0 then e\<lparr> tm_expire_tick := now + tm_interval e \<rparr> else e\<lparr> tm_armed := False \<rparr>) else e)"
  by (induction "is" arbitrary: s) (auto simp: Let_def not_less)

text \<open>After a tick no one-shot timer is overdue.\<close>

lemma tick_disarms:
  "j < TIMER_MAX \<Longrightarrow> tm_interval (g_timers s j) = 0 \<Longrightarrow> tm_armed (g_timers (timer_tick s now tsc) j) \<Longrightarrow>
     now < tm_expire_tick (g_timers (timer_tick s now tsc) j)"
  by (auto simp: timer_tick_def Let_def timer_loop_timers split: if_splits)

text \<open>A process has at most one alarm.\<close>

definition alarms :: "timer_state \<Rightarrow> int \<Rightarrow> nat set" where
  "alarms s pid = {i. i < TIMER_MAX \<and> tm_armed (g_timers s i) \<and> tm_pid (g_timers s i) = pid \<and> tm_sig (g_timers s i) = int SIGALRM}"

lemma alarm_unique:
  "a \<in> alarms (fst (sys_alarm s n)) (t_pid (tsk (tk s) (g_current_task (tk s)))) \<Longrightarrow>
     b \<in> alarms (fst (sys_alarm s n)) (t_pid (tsk (tk s) (g_current_task (tk s)))) \<Longrightarrow> a = b"
  by (auto simp: alarms_def sys_alarm_def timer_create_entry_def Let_def split: if_splits option.splits)

end
