(* ===== verification/KBignum.thy ===== *)
theory KBignum
  imports KBytes
begin

text \<open>
  The multi-precision arithmetic of \<^verbatim>\<open>src/compat/display_wayland.c\<close> (\<open>c7_bn_*\<close>), on which the RSA
  operations of the TLS client rest.  A number \<open>c7_bn_t\<close> is the list of its \<open>n\<close> used bytes, least
  significant first; no operation reads a byte at or above \<open>n\<close>.  Operations that can fail return an
  option, and the loops whose end depends on the numbers are partial functions, so that the outer
  \<open>None\<close> is a call that does not return.
\<close>

type_synonym bn = "u8 list"

definition TLS7_RSA_MAX_BYTES :: nat where "TLS7_RSA_MAX_BYTES = 512"

subsection \<open>Numbers and byte strings\<close>

function c7_bn_trim :: "bn \<Rightarrow> bn" where
  "c7_bn_trim a = (if a \<noteq> [] \<and> last a = 0 then c7_bn_trim (butlast a) else a)"
  by pat_completeness auto
termination by (relation "measure length") auto

declare c7_bn_trim.simps [simp del]

definition c7_bn_from_be :: "u8 list \<Rightarrow> bn option" where
  "c7_bn_from_be be =
     (if be = [] \<or> length be > TLS7_RSA_MAX_BYTES then None else Some (c7_bn_trim (rev be)))"

definition c7_bn_to_be_fixed :: "bn \<Rightarrow> nat \<Rightarrow> u8 list option" where
  "c7_bn_to_be_fixed a out_len =
     (if out_len = 0 then None
      else if length a > out_len then None
      else Some (replicate (out_len - length a) 0 @ rev a))"

subsection \<open>Comparison, subtraction, halving\<close>

text \<open>The loop over the digits of two numbers of one length, from the most significant one.\<close>

fun cmp_digits :: "u8 list \<Rightarrow> u8 list \<Rightarrow> int" where
  "cmp_digits (a # as) (b # bs) = (if b < a then 1 else if a < b then - 1 else cmp_digits as bs)"
| "cmp_digits _ _ = 0"

definition c7_bn_cmp :: "bn \<Rightarrow> bn \<Rightarrow> int" where
  "c7_bn_cmp a b =
     (if length a > length b then 1 else if length a < length b then - 1 else cmp_digits (rev a) (rev b))"

fun sub_loop :: "bn \<Rightarrow> bn \<Rightarrow> int \<Rightarrow> bn" where
  "sub_loop [] b borrow = []"
| "sub_loop (x # xs) b borrow =
     (let t = uint x - (case b of [] \<Rightarrow> 0 | y # _ \<Rightarrow> uint y) - borrow
      in if t < 0 then word_of_int (t + 256) # sub_loop xs (tl b) 1
         else word_of_int t # sub_loop xs (tl b) 0)"

definition c7_bn_sub_inplace :: "bn \<Rightarrow> bn \<Rightarrow> bn" where
  "c7_bn_sub_inplace a b = c7_bn_trim (sub_loop a b 0)"

definition c7_bn_is_zero :: "bn \<Rightarrow> bool" where "c7_bn_is_zero a \<longleftrightarrow> a = []"

definition c7_bn_is_odd :: "bn \<Rightarrow> bool" where
  "c7_bn_is_odd a \<longleftrightarrow> a \<noteq> [] \<and> hd a AND 1 \<noteq> 0"

text \<open>The digits from the most significant one, with the bit shifted out of the one before.\<close>

fun shr_loop :: "u8 list \<Rightarrow> u8 \<Rightarrow> u8 list" where
  "shr_loop [] carry = []"
| "shr_loop (cur # ds) carry = (drop_bit 1 cur OR push_bit 7 carry) # shr_loop ds (cur AND 1)"

definition c7_bn_shr1 :: "bn \<Rightarrow> bn" where
  "c7_bn_shr1 a = (if a = [] then a else c7_bn_trim (rev (shr_loop (rev a) 0)))"

subsection \<open>Arithmetic modulo a number\<close>

text \<open>The digit loop of the addition, over \<open>n\<close> places: the digits and the last carry.\<close>

fun add_loop :: "nat \<Rightarrow> bn \<Rightarrow> bn \<Rightarrow> u16 \<Rightarrow> bn \<times> u16" where
  "add_loop 0 a b carry = ([], carry)"
| "add_loop (Suc n) a b carry =
     (let s = (case a of [] \<Rightarrow> 0 | x # _ \<Rightarrow> ucast x) + (case b of [] \<Rightarrow> 0 | y # _ \<Rightarrow> ucast y) + carry;
          (ds, c) = add_loop n (tl a) (tl b) (drop_bit 8 s)
      in (ucast s # ds, c))"

text \<open>\<open>while (c7_bn_cmp (x, m) >= 0) c7_bn_sub_inplace (x, m)\<close>\<close>

partial_function (option) reduce :: "bn \<Rightarrow> bn \<Rightarrow> bn option" where
  "reduce x m = (if c7_bn_cmp x m \<ge> 0 then reduce (c7_bn_sub_inplace x m) m else Some x)"

definition c7_bn_add_mod :: "bn \<Rightarrow> bn \<Rightarrow> bn \<Rightarrow> bn option option" where
  "c7_bn_add_mod a b m =
     (let n = max (length a) (length b)
      in if n + 1 > TLS7_RSA_MAX_BYTES then Some None
         else (case add_loop n a b 0 of (t, carry) \<Rightarrow>
             if carry \<noteq> 0
             then (if length t \<ge> TLS7_RSA_MAX_BYTES then Some None
                   else map_option Some (reduce (t @ [ucast carry]) m))
             else map_option Some (reduce t m)))"

partial_function (option) mul_loop :: "bn \<Rightarrow> bn \<Rightarrow> bn \<Rightarrow> bn \<Rightarrow> bn option option" where
  "mul_loop x y res m =
     (if c7_bn_is_zero y then Some (Some res)
      else Option.bind (if c7_bn_is_odd y then c7_bn_add_mod res x m else Some (Some res)) (\<lambda>r.
        (case r of
           None \<Rightarrow> Some None
         | Some res' \<Rightarrow> Option.bind (c7_bn_add_mod x x m) (\<lambda>d.
             (case d of None \<Rightarrow> Some None | Some x' \<Rightarrow> mul_loop x' (c7_bn_shr1 y) res' m)))))"

definition c7_bn_mod_mul :: "bn \<Rightarrow> bn \<Rightarrow> bn \<Rightarrow> bn option option" where
  "c7_bn_mod_mul a b m =
     (if c7_bn_is_zero m then Some None
      else Option.bind (reduce a m) (\<lambda>x. mul_loop x b [] m))"

partial_function (option) exp_loop :: "bn \<Rightarrow> bn \<Rightarrow> bn \<Rightarrow> bn \<Rightarrow> bn option option" where
  "exp_loop b e res m =
     (if c7_bn_is_zero e then Some (Some res)
      else Option.bind (if c7_bn_is_odd e then c7_bn_mod_mul res b m else Some (Some res)) (\<lambda>r.
        (case r of
           None \<Rightarrow> Some None
         | Some res' \<Rightarrow>
             (let e' = c7_bn_shr1 e
              in if c7_bn_is_zero e' then exp_loop b e' res' m
                 else Option.bind (c7_bn_mod_mul b b m) (\<lambda>d.
                   (case d of None \<Rightarrow> Some None | Some b' \<Rightarrow> exp_loop b' e' res' m))))))"

definition c7_bn_mod_exp :: "bn \<Rightarrow> bn \<Rightarrow> bn \<Rightarrow> bn option option" where
  "c7_bn_mod_exp base e m =
     (if c7_bn_is_zero m then Some None
      else Option.bind (reduce base m) (\<lambda>b. exp_loop b e [1] m))"

subsection \<open>Digits and values\<close>

text \<open>\<open>of_le\<close> is the value of a number; numbers have no leading zero digit.\<close>

definition bn_norm :: "bn \<Rightarrow> bool" where "bn_norm a \<longleftrightarrow> a = [] \<or> last a \<noteq> 0"

lemma of_le_append: "of_le (a @ b) = of_le a + 256 ^ length a * of_le b"
  by (induction a) (simp_all add: algebra_simps)

lemma of_le_snoc: "of_le (a @ [x]) = of_le a + 256 ^ length a * unat x"
  by (simp add: of_le_append)

lemma of_le_zeros [simp]: "of_le (replicate n 0) = 0"
  by (induction n) simp_all

lemma trim_spec: "of_le (c7_bn_trim a) = of_le a \<and> bn_norm (c7_bn_trim a) \<and> length (c7_bn_trim a) \<le> length a"
proof (induction a rule: c7_bn_trim.induct)
  case (1 a)
  show ?case
  proof (cases "a \<noteq> [] \<and> last a = 0")
    case True
    then obtain b where a: "a = b @ [0]" by (metis append_butlast_last_id)
    with 1 show ?thesis by (simp add: c7_bn_trim.simps [of "b @ [0]"] of_le_append)
  next
    case False
    then show ?thesis by (subst (1 2 3) c7_bn_trim.simps) (auto simp: bn_norm_def)
  qed
qed

lemmas of_le_trim [simp] = trim_spec [THEN conjunct1]
lemmas norm_trim [simp] = trim_spec [THEN conjunct2, THEN conjunct1]
lemmas length_trim = trim_spec [THEN conjunct2, THEN conjunct2]

lemma norm_snoc: "bn_norm a \<Longrightarrow> a \<noteq> [] \<Longrightarrow> \<exists>b x. a = b @ [x] \<and> 0 < unat x"
  by (metis append_butlast_last_id bn_norm_def unat_gt_0)

lemma norm_ge: "bn_norm a \<Longrightarrow> a \<noteq> [] \<Longrightarrow> 256 ^ (length a - 1) \<le> of_le a"
proof -
  assume "bn_norm a" "a \<noteq> []"
  then obtain b x where a: "a = b @ [x]" and x: "0 < unat x" using norm_snoc by blast
  then show ?thesis by (simp add: of_le_snoc trans_le_add2)
qed

lemma norm_zero: "bn_norm a \<Longrightarrow> of_le a = 0 \<longleftrightarrow> a = []"
  by (metis le_zero_eq norm_ge of_le.simps(1) power_not_zero zero_neq_numeral)

lemma norm_length_less:
  assumes "bn_norm b" "length a < length b"
  shows "of_le a < of_le b"
proof -
  have "of_le a < 256 ^ length a" by (rule of_le_lt)
  also have "\<dots> \<le> 256 ^ (length b - 1)" using assms(2) by (intro power_increasing) simp_all
  also have "\<dots> \<le> of_le b" using assms by (intro norm_ge) auto
  finally show ?thesis .
qed

lemma norm_length_le: "bn_norm a \<Longrightarrow> of_le a < of_le b \<Longrightarrow> length a \<le> length b"
  by (metis leI norm_length_less less_asym)

lemma top_digit_less:
  assumes "of_le a < 256 ^ n" "unat x < unat (y :: u8)"
  shows "of_le a + 256 ^ n * unat (x :: u8) < of_le c + 256 ^ n * unat y"
proof -
  have "256 ^ n * (unat x + 1) \<le> 256 ^ n * unat y" using assms(2) by (intro mult_le_mono2) simp
  with assms(1) show ?thesis by simp
qed

lemma cmp_digits_spec:
  "length a = length b \<Longrightarrow> cmp_digits (rev a) (rev b) = (if of_le a > of_le b then 1 else if of_le a < of_le b then - 1 else 0)"
proof (induction a arbitrary: b rule: rev_induct)
  case Nil
  then show ?case by simp
next
  case (snoc x a)
  then obtain c y where b: "b = c @ [y]" and l: "length a = length c"
    by (metis append_butlast_last_id length_append_singleton length_butlast diff_Suc_1 length_0_conv nat.distinct(1))
  have lt: "of_le a < 256 ^ length a" "of_le c < 256 ^ length a" using of_le_lt l by metis+
  show ?case
  proof (cases "x = y")
    case True
    then show ?thesis using snoc.IH [OF l] l by (simp add: b of_le_snoc)
  next
    case False
    then consider "unat x < unat y" | "unat y < unat x" by (meson linorder_neqE_nat word_unat_eq_iff)
    then show ?thesis
    proof cases
      case 1
      with top_digit_less [OF lt(1) 1, of c] l show ?thesis by (simp add: b of_le_snoc word_less_nat_alt)
    next
      case 2
      with top_digit_less [OF lt(2) 2, of a] l show ?thesis by (simp add: b of_le_snoc word_less_nat_alt)
    qed
  qed
qed

lemma cmp_spec:
  assumes "bn_norm a" "bn_norm b"
  shows "c7_bn_cmp a b = (if of_le a > of_le b then 1 else if of_le a < of_le b then - 1 else 0)"
  using norm_length_less [OF assms(1), of b] norm_length_less [OF assms(2), of a] cmp_digits_spec [of a b]
  by (auto simp: c7_bn_cmp_def)

lemma unat_u8_less: "unat (x :: u8) < 256"
  using unsigned_less [of x, where 'a = nat] by simp

lemma uint_u8_less: "uint (x :: u8) < 256"
  using uint_lt2p [of x] by simp

lemma sub_loop_spec:
  assumes "length b \<le> length a" "borrow = 0 \<or> borrow = 1"
  shows "int (of_le (sub_loop a b borrow)) = (int (of_le a) - int (of_le b) - borrow) mod 256 ^ length a"
  using assms
proof (induction a arbitrary: b borrow)
  case Nil
  then show ?case by auto
next
  case (Cons x xs)
  define y where "y = (case b of [] \<Rightarrow> 0 | y # _ \<Rightarrow> uint y)"
  have y: "0 \<le> y" "y < 256" by (auto simp: y_def uint_u8_less split: list.split)
  have b: "int (of_le b) = y + 256 * int (of_le (tl b))"
    by (cases b) (simp_all add: y_def)
  define t where "t = uint x - y - borrow"
  define c where "c = (if t < 0 then 1 else 0 :: int)"
  have t: "- 256 \<le> t" "t < 256" "t + 256 * c \<ge> 0" "t + 256 * c < 256"
  proof -
    define xv where "xv = uint x"
    have "0 \<le> xv" "xv < 256" by (simp_all add: xv_def uint_u8_less)
    with y Cons.prems(2) show "- 256 \<le> t" "t < 256" "t + 256 * c \<ge> 0" "t + 256 * c < 256"
      by (auto simp: t_def c_def simp flip: xv_def)
  qed
  have loop: "sub_loop (x # xs) b borrow = word_of_int (t + 256 * c) # sub_loop xs (tl b) c"
    by (simp only: sub_loop.simps Let_def flip: y_def t_def) (simp add: c_def)
  have d: "int (unat (word_of_int (t + 256 * c) :: u8)) = t + 256 * c"
  proof -
    have "uint (word_of_int (t + 256 * c) :: u8) = t + 256 * c"
      unfolding uint_word_of_int using t(3,4) by (intro mod_pos_pos_trivial) simp_all
    then show ?thesis by (simp only: uint_nat)
  qed
  define R where "R = int (of_le xs) - int (of_le (tl b)) - c"
  have IH: "int (of_le (sub_loop xs (tl b) c)) = R mod 256 ^ length xs"
    unfolding R_def using Cons.prems by (intro Cons.IH) (auto simp: c_def)
  have v: "int (of_le (x # xs)) - int (of_le b) - borrow = 256 * R + (t + 256 * c)"
    by (simp add: b R_def t_def algebra_simps)
  have "(int (of_le (x # xs)) - int (of_le b) - borrow) mod 256 ^ length (x # xs)
      = (256 * R + (t + 256 * c)) mod (256 * 256 ^ length xs)"
    unfolding v by simp
  also have "\<dots> = 256 * (((256 * R + (t + 256 * c)) div 256) mod 256 ^ length xs) + (256 * R + (t + 256 * c)) mod 256"
    by (rule zmod_zmult2_eq) simp
  also have "\<dots> = 256 * (R mod 256 ^ length xs) + (t + 256 * c)"
  proof -
    define u where "u = t + 256 * c"
    have "0 \<le> u" "u < 256" using t(3,4) by (simp_all add: u_def)
    then have "(256 * R + u) div 256 = R" "(256 * R + u) mod 256 = u" by simp_all
    then show ?thesis by (simp only: u_def)
  qed
  finally have "(int (of_le (x # xs)) - int (of_le b) - borrow) mod 256 ^ length (x # xs)
      = 256 * (R mod 256 ^ length xs) + (t + 256 * c)" .
  moreover have "int (of_le (sub_loop (x # xs) b borrow)) = (t + 256 * c) + 256 * (R mod 256 ^ length xs)"
    unfolding loop of_le.simps of_nat_add of_nat_mult d IH by simp
  ultimately show ?case by (simp only: add.commute)
qed

lemma length_sub_loop [simp]: "length (sub_loop a b c) = length a"
  by (induction a b c rule: sub_loop.induct) (simp_all add: Let_def)

lemma sub_spec:
  assumes "bn_norm a" "bn_norm b" "of_le b \<le> of_le a"
  shows "of_le (c7_bn_sub_inplace a b) = of_le a - of_le b" and "bn_norm (c7_bn_sub_inplace a b)"
proof -
  have l: "length b \<le> length a"
    using norm_length_less [OF assms(2), of a] assms(3) by (meson leI not_le)
  have "int (of_le (sub_loop a b 0)) = (int (of_le a) - int (of_le b)) mod 256 ^ length a"
    using sub_loop_spec [OF l, of 0] by simp
  also have "\<dots> = int (of_le a) - int (of_le b)"
  proof (rule mod_pos_pos_trivial)
    have "int (of_le a) - int (of_le b) \<le> int (of_le a)" by simp
    also have "\<dots> < int (256 ^ length a)" using of_le_lt [of a] by (simp only: of_nat_less_iff)
    also have "\<dots> = 256 ^ length a" by simp
    finally show "int (of_le a) - int (of_le b) < 256 ^ length a" .
  qed (use assms(3) in simp)
  finally show "of_le (c7_bn_sub_inplace a b) = of_le a - of_le b"
    using assms(3) by (simp add: c7_bn_sub_inplace_def)
qed (simp add: c7_bn_sub_inplace_def)

text \<open>Reduction by repeated subtraction ends for every modulus but zero.\<close>

lemma reduce_spec:
  assumes m: "bn_norm m" "m \<noteq> []"
  shows "bn_norm x \<Longrightarrow> \<exists>r. reduce x m = Some r \<and> bn_norm r \<and> of_le r = of_le x mod of_le m"
proof (induction "of_le x" arbitrary: x rule: less_induct)
  case less
  have pos: "0 < of_le m" using m by (simp add: norm_zero flip: neq0_conv)
  show ?case
  proof (cases "of_le m \<le> of_le x")
    case True
    note sub = sub_spec [OF less.prems m(1) True]
    have "of_le (c7_bn_sub_inplace x m) < of_le x" using sub(1) pos True by simp
    from less.hyps [OF this sub(2)] obtain r where "reduce (c7_bn_sub_inplace x m) m = Some r" "bn_norm r"
      "of_le r = of_le (c7_bn_sub_inplace x m) mod of_le m" by blast
    moreover have "c7_bn_cmp x m \<ge> 0" using True by (simp add: cmp_spec less.prems m)
    ultimately show ?thesis using True by (subst reduce.simps) (simp add: sub le_mod_geq)
  next
    case False
    then show ?thesis using less.prems by (subst reduce.simps) (simp add: cmp_spec m)
  qed
qed

lemma shr_loop_spec:
  assumes "carry \<le> 1"
  shows "length (shr_loop ds carry) = length ds
     \<and> of_be (shr_loop ds carry) = (unat carry * 256 ^ length ds + of_be ds) div 2"
  using assms
proof (induction ds arbitrary: carry)
  case Nil
  then have "unat carry < 2" by (simp add: word_le_nat_alt)
  then show ?case by (simp add: of_be_def)
next
  case (Cons cur ds)
  have cb: "cur AND 1 \<le> 1" by (rule word_and_le1)
  have be: "of_be (x # xs) = unat x * 256 ^ length xs + of_be xs" for x xs
    by (simp add: of_be_def of_le_snoc)
  have c01: "carry = 0 \<or> carry = 1"
  proof -
    have "unat carry = 0 \<or> unat carry = 1" using Cons.prems by (auto simp: word_le_nat_alt)
    then show ?thesis by (metis unat_0 unat_1 word_unat_eq_iff)
  qed
  have hd: "unat (drop_bit 1 cur OR push_bit 7 carry) = unat carry * 128 + unat cur div 2"
  proof -
    have "drop_bit 1 cur OR push_bit 7 carry = drop_bit 1 cur + push_bit 7 carry"
    proof (rule disjunctive_add [symmetric])
      fix n show "\<not> bit (drop_bit 1 cur) n \<or> \<not> bit (push_bit 7 carry) n"
        using c01 by (auto simp: bit_simps dest: bit_imp_le_length)
    qed
    moreover have "unat (drop_bit 1 cur) = unat cur div 2" by (simp add: drop_bit_eq_div unat_div)
    moreover have "unat (push_bit 7 carry) = unat carry * 128" using c01 by auto
    moreover have "unat cur div 2 < 128" using unat_u8_less [of cur] by simp
    moreover have "unat carry \<le> 1" using c01 by auto
    ultimately show ?thesis by (simp only: unat_word_ariths) simp
  qed
  have lo: "unat (cur AND 1) = unat cur mod 2"
    by (simp add: and_one_eq unat_mod)
  define N where "N = (256::nat) ^ length ds"
  define v where "v = of_be ds"
  have "of_be (shr_loop (cur # ds) carry) = (unat carry * 128 + unat cur div 2) * N + (unat cur mod 2 * N + v) div 2"
    unfolding shr_loop.simps be hd using Cons.IH [OF cb] lo by (simp add: N_def v_def)
  also have "\<dots> = (unat carry * 256 * N + unat cur * N + v) div 2"
  proof -
    have "unat carry * 256 * N + unat cur * N + v
        = 2 * ((unat carry * 128 + unat cur div 2) * N) + (unat cur mod 2 * N + v)"
    proof -
      have "unat cur = 2 * (unat cur div 2) + unat cur mod 2" by simp
      then have "unat cur * N = 2 * (unat cur div 2) * N + unat cur mod 2 * N" by (metis add_mult_distrib)
      then show ?thesis by (simp add: algebra_simps)
    qed
    then show ?thesis by simp
  qed
  also have "\<dots> = (unat carry * 256 ^ length (cur # ds) + of_be (cur # ds)) div 2"
    by (simp add: be N_def v_def algebra_simps)
  finally show ?case using Cons.IH [OF cb] by simp
qed

lemma shr1_spec: "of_le (c7_bn_shr1 a) = of_le a div 2" "bn_norm a \<Longrightarrow> bn_norm (c7_bn_shr1 a)"
  using shr_loop_spec [of 0 "rev a"] by (auto simp: c7_bn_shr1_def of_be_def)

lemma odd_spec: "c7_bn_is_odd a \<longleftrightarrow> odd (of_le a)"
proof (cases a)
  case (Cons x xs)
  have "unat (x AND 1) = unat x mod 2" by (simp add: and_one_eq unat_mod)
  then have "x AND 1 \<noteq> 0 \<longleftrightarrow> odd (unat x)"
    by (metis odd_iff_mod_2_eq_one unat_eq_zero even_iff_mod_2_eq_zero)
  then show ?thesis by (simp add: c7_bn_is_odd_def Cons)
qed (simp add: c7_bn_is_odd_def)

lemma add_loop_spec:
  assumes "length a \<le> n" "length b \<le> n" "carry \<le> 1" "add_loop n a b carry = (ds, c)"
  shows "length ds = n \<and> c \<le> 1 \<and> of_le ds + 256 ^ n * unat c = of_le a + of_le b + unat carry"
  using assms
proof (induction n arbitrary: a b carry ds)
  case 0
  then show ?case by auto
next
  case (Suc n)
  define x :: u16 where "x = (case a of [] \<Rightarrow> 0 | x # _ \<Rightarrow> ucast x)"
  define y :: u16 where "y = (case b of [] \<Rightarrow> 0 | y # _ \<Rightarrow> ucast y)"
  define s where "s = x + y + carry"
  note b8 = unat_u8_less
  have u8: "unat (ucast w :: u16) = unat w" for w :: u8
    using b8 [of w] by (simp add: unsigned_ucast_eq take_bit_nat_eq_self)
  have a: "of_le a = unat x + 256 * of_le (tl a)" by (cases a) (simp_all add: x_def u8)
  have b: "of_le b = unat y + 256 * of_le (tl b)" by (cases b) (simp_all add: y_def u8)
  have xl: "unat x < 256" "unat y < 256" by (auto simp: x_def y_def u8 b8 split: list.split)
  have cl: "unat carry \<le> 1" using Suc.prems(3) by (simp add: word_le_nat_alt)
  have us: "unat s = unat x + unat y + unat carry"
    using xl cl by (simp add: s_def unat_word_ariths)
  have lo: "unat (ucast s :: u8) = unat s mod 256" by (simp add: unsigned_ucast_eq take_bit_eq_mod)
  have hi: "unat (drop_bit 8 s) = unat s div 256" by (simp add: drop_bit_eq_div unat_div)
  have hl: "drop_bit 8 s \<le> 1" using xl cl by (simp add: word_le_nat_alt hi us)
  obtain ds' where r: "add_loop n (tl a) (tl b) (drop_bit 8 s) = (ds', c)" and ds: "ds = ucast s # ds'"
    using Suc.prems(4) by (auto simp: x_def y_def s_def Let_def split: prod.splits)
  have IH: "length ds' = n \<and> c \<le> 1 \<and> of_le ds' + 256 ^ n * unat c = of_le (tl a) + of_le (tl b) + unat s div 256"
    unfolding hi [symmetric] using Suc.prems(1,2) by (intro Suc.IH [OF _ _ hl r]) auto
  have "of_le ds + 256 ^ Suc n * unat c = unat s mod 256 + 256 * (of_le ds' + 256 ^ n * unat c)"
    by (simp add: ds lo algebra_simps)
  also have "\<dots> = unat s mod 256 + 256 * (unat s div 256) + 256 * of_le (tl a) + 256 * of_le (tl b)"
    using IH by (simp add: algebra_simps)
  also have "\<dots> = of_le a + of_le b + unat carry" by (simp add: a b us)
  finally show ?case using IH by (simp add: ds)
qed

subsection \<open>Arithmetic modulo a number is that of the natural numbers\<close>

definition bn_modulus :: "bn \<Rightarrow> bool" where
  "bn_modulus m \<longleftrightarrow> bn_norm m \<and> m \<noteq> []"

lemma bn_modulusD: "bn_modulus m \<Longrightarrow> bn_norm m" "bn_modulus m \<Longrightarrow> m \<noteq> []" "bn_modulus m \<Longrightarrow> 0 < of_le m"
  by (auto simp: bn_modulus_def norm_zero simp flip: neq0_conv)

text \<open>The results of the operations: reduced and without leading zeros.\<close>

definition bn_is :: "bn \<Rightarrow> nat \<Rightarrow> bool" where "bn_is r v \<longleftrightarrow> bn_norm r \<and> of_le r = v"

text \<open>An operation returns, with the right value or with the refusal of a modulus of 512 bytes (the
  addition wants room for one more digit).\<close>

definition bn_op :: "bn \<Rightarrow> bn option option \<Rightarrow> nat \<Rightarrow> bool" where
  "bn_op m res v \<longleftrightarrow>
     (\<exists>r. res = Some r \<and> (case r of None \<Rightarrow> TLS7_RSA_MAX_BYTES \<le> length m | Some x \<Rightarrow> bn_is x v))"

lemma bn_opE:
  assumes "bn_op m res v"
  obtains "res = Some None" "TLS7_RSA_MAX_BYTES \<le> length m" | x where "res = Some (Some x)" "bn_is x v"
proof -
  from assms obtain r where r: "res = Some r" "case r of None \<Rightarrow> TLS7_RSA_MAX_BYTES \<le> length m | Some x \<Rightarrow> bn_is x v"
    unfolding bn_op_def by blast
  then show thesis using that by (cases r) simp_all
qed

lemma bn_op_Some [simp]: "bn_op m (Some (Some x)) v \<longleftrightarrow> bn_is x v"
  and bn_op_None [simp]: "bn_op m (Some None) v \<longleftrightarrow> TLS7_RSA_MAX_BYTES \<le> length m"
  by (simp_all add: bn_op_def)

lemma reduce_is: "bn_modulus m \<Longrightarrow> bn_norm x \<Longrightarrow> \<exists>r. reduce x m = Some r \<and> bn_is r (of_le x mod of_le m)"
  using reduce_spec [of m x] by (auto simp: bn_is_def bn_modulus_def)

lemma norm_top:
  assumes "256 ^ n \<le> of_le t" "length t = Suc n"
  shows "bn_norm t"
proof (rule ccontr)
  assume "\<not> bn_norm t"
  then have t: "t \<noteq> []" "last t = 0" by (auto simp: bn_norm_def)
  then have "of_le t = of_le (butlast t)"
    using of_le_snoc [of "butlast t" "last t"] append_butlast_last_id [of t] by simp
  also have "\<dots> < 256 ^ n" using of_le_lt [of "butlast t"] assms(2) by simp
  finally show False using assms(1) by simp
qed

lemma add_mod_is:
  assumes m: "bn_modulus m" and a: "bn_norm a" "of_le a < of_le m" and b: "bn_norm b" "of_le b < of_le m"
  shows "bn_op m (c7_bn_add_mod a b m) ((of_le a + of_le b) mod of_le m)"
proof (cases "max (length a) (length b) + 1 \<le> TLS7_RSA_MAX_BYTES")
  case False
  then have "TLS7_RSA_MAX_BYTES \<le> length m"
    using norm_length_le [OF a] norm_length_le [OF b] by linarith
  with False show ?thesis by (simp add: c7_bn_add_mod_def Let_def)
next
  case True
  define n where "n = max (length a) (length b)"
  have n: "n + 1 \<le> TLS7_RSA_MAX_BYTES" using True by (simp add: n_def)
  obtain t c where tc: "add_loop n a b 0 = (t, c)" by force
  have spec: "length t = n" "c \<le> 1" "of_le t + 256 ^ n * unat c = of_le a + of_le b"
    using add_loop_spec [OF _ _ _ tc] by (auto simp: n_def)
  have c: "c = 0 \<or> c = 1"
    using spec(2) by (metis le_less word_less_1)
  define t' where "t' = (if c \<noteq> 0 then t @ [ucast c] else t)"
  have val: "of_le t' = of_le a + of_le b" using spec c by (auto simp: t'_def of_le_snoc)
  have "bn_norm t'"
  proof (cases "c = 0")
    case True
    show ?thesis
    proof (cases n)
      case 0
      then show ?thesis using spec True by (simp add: t'_def bn_norm_def)
    next
      case (Suc k)
      have "256 ^ k \<le> of_le a + of_le b"
      proof (cases "length a \<le> length b")
        case True
        then have "length b = Suc k" using Suc by (simp add: n_def)
        then have "256 ^ k \<le> of_le b" using norm_ge [OF b(1)] by fastforce
        then show ?thesis by simp
      next
        case False
        then have "length a = Suc k" using Suc by (simp add: n_def)
        then have "256 ^ k \<le> of_le a" using norm_ge [OF a(1)] by fastforce
        then show ?thesis by simp
      qed
      then show ?thesis using Suc spec True val by (intro norm_top [of k]) (simp_all add: t'_def)
    qed
  next
    case False
    then show ?thesis using c by (auto simp: t'_def bn_norm_def)
  qed
  from reduce_is [OF m this] obtain r where r: "reduce t' m = Some r" "bn_is r (of_le t' mod of_le m)" by blast
  have "c7_bn_add_mod a b m = map_option Some (reduce t' m)"
    using n spec(1) by (simp add: c7_bn_add_mod_def tc t'_def flip: n_def)
  with r show ?thesis by (simp add: val)
qed

lemma mul_loop_is:
  assumes m: "bn_modulus m"
  shows "bn_norm y \<Longrightarrow> bn_norm x \<Longrightarrow> of_le x < of_le m \<Longrightarrow> bn_norm res \<Longrightarrow> of_le res < of_le m
    \<Longrightarrow> bn_op m (mul_loop x y res m) ((of_le res + of_le x * of_le y) mod of_le m)"
proof (induction "of_le y" arbitrary: x y res rule: less_induct)
  case less
  note pos = bn_modulusD(3) [OF m]
  show ?case
  proof (cases "y = []")
    case True
    then show ?thesis using less.prems by (subst mul_loop.simps) (simp add: c7_bn_is_zero_def bn_is_def)
  next
    case False
    define y' where "y' = c7_bn_shr1 y"
    have y': "bn_norm y'" "of_le y' = of_le y div 2" using less.prems(1) by (simp_all add: y'_def shr1_spec)
    have y0: "0 < of_le y" using norm_zero [OF less.prems(1)] False by (simp flip: neq0_conv)
    have "bn_op m (if c7_bn_is_odd y then c7_bn_add_mod res x m else Some (Some res))
        ((of_le res + of_le x * (of_le y mod 2)) mod of_le m)"
      using add_mod_is [OF m less.prems(4,5,2,3)] less.prems(4,5) by (auto simp: odd_spec bn_is_def odd_iff_mod_2_eq_one)
    then show ?thesis
    proof (cases rule: bn_opE)
      case 1
      then show ?thesis using False by (subst mul_loop.simps) (simp add: c7_bn_is_zero_def)
    next
      case (2 res')
      note res' = 2
      have "bn_op m (c7_bn_add_mod x x m) ((of_le x + of_le x) mod of_le m)"
        by (rule add_mod_is [OF m less.prems(2,3,2,3)])
      then show ?thesis
      proof (cases rule: bn_opE)
        case 1
        then show ?thesis using False res' by (subst mul_loop.simps) (simp add: c7_bn_is_zero_def)
      next
        case (2 x')
        note x' = 2
        have "of_le y' < of_le y" using y0 y'(2) by simp
        moreover have "bn_norm x'" "of_le x' < of_le m" "bn_norm res'" "of_le res' < of_le m"
          using x'(2) res'(2) pos by (simp_all add: bn_is_def)
        ultimately have r: "bn_op m (mul_loop x' y' res' m) ((of_le res' + of_le x' * of_le y') mod of_le m)"
          using less.hyps y'(1) by blast
        have "mul_loop x y res m = mul_loop x' y' res' m"
          using False by (subst mul_loop.simps) (simp add: c7_bn_is_zero_def res'(1) x'(1) y'_def)
        moreover have "(of_le res' + of_le x' * of_le y') mod of_le m = (of_le res + of_le x * of_le y) mod of_le m"
        proof -
          have "(of_le res' + of_le x' * of_le y') mod of_le m
              = (of_le res + of_le x * (of_le y mod 2) + (of_le x + of_le x) * (of_le y div 2)) mod of_le m"
            using res'(2) x'(2) by (simp add: bn_is_def y'(2)) (metis mod_add_cong mod_mod_trivial mod_mult_left_eq)
          also have "of_le res + of_le x * (of_le y mod 2) + (of_le x + of_le x) * (of_le y div 2)
              = of_le res + of_le x * (of_le y mod 2 + 2 * (of_le y div 2))" by (simp only: algebra_simps)
          finally show ?thesis by simp
        qed
        ultimately show ?thesis using r by simp
      qed
    qed
  qed
qed

lemma mod_mul_is:
  assumes m: "bn_modulus m" and a: "bn_norm a" and b: "bn_norm b"
  shows "bn_op m (c7_bn_mod_mul a b m) (of_le a * of_le b mod of_le m)"
proof -
  obtain x where x: "reduce a m = Some x" "bn_is x (of_le a mod of_le m)" using reduce_is [OF m a] by blast
  have "bn_op m (mul_loop x b [] m) ((of_le [] + of_le x * of_le b) mod of_le m)"
    using x(2) bn_modulusD(3) [OF m] by (intro mul_loop_is [OF m b]) (simp_all add: bn_is_def, simp add: bn_norm_def)
  then show ?thesis
    using x bn_modulusD(2) [OF m] by (auto simp: c7_bn_mod_mul_def c7_bn_is_zero_def bn_is_def mod_mult_left_eq)
qed

lemma power_split: "b ^ e = b ^ (e mod 2) * (b * b) ^ (e div 2)" for b e :: nat
  by (metis mod_mult_div_eq mult.commute power2_eq_square power_add power_mult)

lemma exp_loop_is:
  assumes m: "bn_modulus m"
  shows "bn_norm e \<Longrightarrow> bn_norm b \<Longrightarrow> bn_norm res
    \<Longrightarrow> bn_op m (exp_loop b e res m)
          (if of_le e = 0 then of_le res else (of_le res * of_le b ^ of_le e) mod of_le m)"
proof (induction "of_le e" arbitrary: b e res rule: less_induct)
  case less
  note pos = bn_modulusD(3) [OF m]
  show ?case
  proof (cases "e = []")
    case True
    then show ?thesis using less.prems by (subst exp_loop.simps) (simp add: c7_bn_is_zero_def bn_is_def)
  next
    case False
    define e' where "e' = c7_bn_shr1 e"
    have e': "bn_norm e'" "of_le e' = of_le e div 2" using less.prems(1) by (simp_all add: e'_def shr1_spec)
    have e0: "0 < of_le e" using norm_zero [OF less.prems(1)] False by (simp flip: neq0_conv)
    have "bn_op m (if c7_bn_is_odd e then c7_bn_mod_mul res b m else Some (Some res))
        (if odd (of_le e) then of_le res * of_le b mod of_le m else of_le res)"
      using mod_mul_is [OF m less.prems(3,2)] less.prems(3) by (simp add: odd_spec bn_is_def)
    then show ?thesis
    proof (cases rule: bn_opE)
      case 1
      then show ?thesis using False by (subst exp_loop.simps) (simp add: c7_bn_is_zero_def)
    next
      case (2 res')
      note res' = 2
      have lt: "of_le e' < of_le e" using e0 e'(2) by simp
      show ?thesis
      proof (cases "e' = []")
        case True
        then have "of_le e div 2 = 0" using e'(2) by simp
        then have e1: "of_le e = 1" using e0 by linarith
        moreover have "exp_loop b e res m = exp_loop b e' res' m"
          using False True by (subst exp_loop.simps) (simp add: c7_bn_is_zero_def res'(1) Let_def flip: e'_def)
        moreover have "exp_loop b e' res' m = Some (Some res')" using True by (subst exp_loop.simps) (simp add: c7_bn_is_zero_def)
        ultimately show ?thesis using res'(2) by simp
      next
        case e'ne: False
        have "bn_op m (c7_bn_mod_mul b b m) (of_le b * of_le b mod of_le m)"
          by (rule mod_mul_is [OF m less.prems(2,2)])
        then show ?thesis
        proof (cases rule: bn_opE)
          case 1
          then show ?thesis using False e'ne res'
            by (subst exp_loop.simps) (simp add: c7_bn_is_zero_def Let_def flip: e'_def)
        next
          case (2 b')
          note b' = 2
          have n': "bn_norm b'" "bn_norm res'" "of_le e' \<noteq> 0"
            using b'(2) res'(2) e'(1) e'ne by (simp_all add: bn_is_def norm_zero)
          with less.hyps [OF lt e'(1)]
          have r: "bn_op m (exp_loop b' e' res' m) ((of_le res' * of_le b' ^ of_le e') mod of_le m)" by auto
          have "exp_loop b e res m = exp_loop b' e' res' m"
            using False e'ne by (subst exp_loop.simps) (simp add: c7_bn_is_zero_def res'(1) b'(1) Let_def flip: e'_def)
          moreover have "(of_le res' * of_le b' ^ of_le e') mod of_le m
              = (of_le res * of_le b ^ (of_le e mod 2) * (of_le b * of_le b) ^ (of_le e div 2)) mod of_le m"
          proof (cases "odd (of_le e)")
            case True
            then show ?thesis using res'(2) b'(2) by (simp add: bn_is_def e'(2) odd_iff_mod_2_eq_one) (metis mod_mult_eq power_mod mod_mod_trivial)
          next
            case False
            then show ?thesis using res'(2) b'(2) by (simp add: bn_is_def e'(2) even_iff_mod_2_eq_zero) (metis mod_mult_right_eq power_mod)
          qed
          moreover have "of_le res * of_le b ^ (of_le e mod 2) * (of_le b * of_le b) ^ (of_le e div 2) = of_le res * of_le b ^ of_le e"
            by (subst (2) power_split) (simp only: mult.assoc)
          ultimately show ?thesis using r e0 by simp
        qed
      qed
    qed
  qed
qed

text \<open>The result of the exponentiation; with the exponent zero it is not reduced, so that it is 1 even
  for the modulus 1.\<close>

definition bn_pow :: "nat \<Rightarrow> nat \<Rightarrow> nat \<Rightarrow> nat" where "bn_pow b e n = (if e = 0 then 1 else b ^ e mod n)"

lemma bn_pow_eq: "1 < n \<Longrightarrow> bn_pow b e n = b ^ e mod n"
  by (simp add: bn_pow_def)

lemma mod_exp_is:
  assumes m: "bn_modulus m" and b: "bn_norm b" and e: "bn_norm e"
  shows "bn_op m (c7_bn_mod_exp b e m) (bn_pow (of_le b) (of_le e) (of_le m))"
proof -
  obtain x where x: "reduce b m = Some x" "bn_is x (of_le b mod of_le m)" using reduce_is [OF m b] by blast
  have "bn_op m (exp_loop x e [1] m) (if of_le e = 0 then of_le [1] else (of_le [1] * of_le x ^ of_le e) mod of_le m)"
    using x(2) by (intro exp_loop_is [OF m e]) (simp_all add: bn_is_def, simp add: bn_norm_def)
  then show ?thesis
    using x bn_modulusD(2) [OF m] by (auto simp: c7_bn_mod_exp_def c7_bn_is_zero_def bn_is_def bn_pow_def power_mod)
qed

end
