(* ===== verification/KRsa.thy ===== *)
theory KRsa
  imports KBignum
begin

text \<open>
  The RSA operations of the TLS client (\<^verbatim>\<open>src/compat/display_wayland.c\<close>): the packed key, the public
  operation, the encryption of the premaster secret and the verification of PKCS 1 version 1.5
  signatures over SHA-256 digests.  A result is an option: \<open>None\<close> would be a call that does not
  return, \<open>Some None\<close> is the C function returning false.
\<close>

subsection \<open>Keys\<close>

text \<open>The blob is \<open>be16 (mod_len) @ be16 (exp_len) @ mod @ exp\<close>; the length argument is its length.\<close>

definition c7_pubkey_unpack_rsa :: "u8 list \<Rightarrow> (u8 list \<times> u8 list) option" where
  "c7_pubkey_unpack_rsa blob =
     (if length blob < 6 then None
      else (let ml = of_be (take 2 blob); el = of_be (take 2 (drop 2 blob))
            in if ml = 0 \<or> el = 0 \<or> ml > TLS7_RSA_MAX_BYTES \<or> el > 8 then None
               else if 4 + ml + el > length blob then None
               else Some (take ml (drop 4 blob), take el (drop (4 + ml) blob))))"

definition c7_rsa_public_op :: "u8 list \<Rightarrow> u8 list \<Rightarrow> nat \<Rightarrow> u8 list option option" where
  "c7_rsa_public_op inp blob out_len =
     (case c7_pubkey_unpack_rsa blob of
        None \<Rightarrow> Some None
      | Some (mod_be, exp_be) \<Rightarrow>
          if out_len < length mod_be then Some None
          else if length inp > length mod_be then Some None
          else (case (c7_bn_from_be (replicate (length mod_be - length inp) 0 @ inp), c7_bn_from_be mod_be, c7_bn_from_be exp_be) of
              (Some m, Some n, Some e) \<Rightarrow>
                if c7_bn_cmp m n \<ge> 0 then Some None
                else map_option (\<lambda>r. case r of None \<Rightarrow> None | Some c \<Rightarrow> c7_bn_to_be_fixed c (length mod_be)) (c7_bn_mod_exp m e n)
            | _ \<Rightarrow> Some None))"

text \<open>The encryption block of the premaster secret; \<open>ps\<close> are the non-zero random bytes the loops over
  \<open>ulibc_arc4random\<close> end with.\<close>

definition pkcs1_pms_block :: "u8 list \<Rightarrow> u8 list \<Rightarrow> u8 list" where
  "pkcs1_pms_block ps pms = [0x00, 0x02] @ ps @ [0x00] @ pms"

definition c7_rsa_pkcs1_encrypt_pms :: "nat \<Rightarrow> u8 list \<Rightarrow> u8 list \<Rightarrow> u8 list \<Rightarrow> u8 list option option" where
  "c7_rsa_pkcs1_encrypt_pms pubkey_type blob ps pms =
     (if pubkey_type \<noteq> 0 then Some None
      else (case c7_pubkey_unpack_rsa blob of
          None \<Rightarrow> Some None
        | Some (mod_be, exp_be) \<Rightarrow>
            if length mod_be < 64 \<or> length mod_be > TLS7_RSA_MAX_BYTES then Some None
            else if length mod_be < 48 + 11 then Some None
            else (let em = pkcs1_pms_block (take (length mod_be - 48 - 3) ps) pms
                  in case (c7_bn_from_be em, c7_bn_from_be mod_be, c7_bn_from_be exp_be) of
                       (Some m, Some n, Some e) \<Rightarrow>
                         if c7_bn_cmp m n \<ge> 0 then Some None
                         else map_option (\<lambda>r. case r of None \<Rightarrow> None | Some c \<Rightarrow> c7_bn_to_be_fixed c (length mod_be))
                                (c7_bn_mod_exp m e n)
                     | _ \<Rightarrow> Some None)))"

subsection \<open>Signatures\<close>

definition di_prefix :: "u8 list" where
  "di_prefix = [0x30, 0x31, 0x30, 0x0D, 0x06, 0x09, 0x60, 0x86, 0x48, 0x01, 0x65, 0x03, 0x04, 0x02, 0x01, 0x05,
     0x00, 0x04, 0x20]"

text \<open>The test of the decrypted block.  The loop over the filling bytes stops at the first byte that
  is not \<open>FF\<close>.  (With a modulus of one byte the code looks at an unset byte of its buffer; whatever
  it holds, the call then fails at the comparison of \<open>pos\<close> with the length.)\<close>

definition pkcs1_block_ok :: "u8 list \<Rightarrow> u8 list \<Rightarrow> bool" where
  "pkcs1_block_ok em hash =
     (if length em < 2 \<or> em ! 0 \<noteq> 0x00 \<or> em ! 1 \<noteq> 0x01 then False
      else (let pos = 2 + length (takeWhile (\<lambda>b. b = 0xFF) (drop 2 em))
            in if pos < 10 \<or> pos \<ge> length em \<or> em ! pos \<noteq> 0x00 then False
               else if pos + 1 + length di_prefix + 32 > length em then False
               else take (length di_prefix) (drop (pos + 1) em) = di_prefix
                  \<and> take 32 (drop (pos + 1 + length di_prefix) em) = take 32 hash))"

definition c7_pkcs1_verify_sha256 :: "u8 list \<Rightarrow> u8 list \<Rightarrow> u8 list \<Rightarrow> bool option" where
  "c7_pkcs1_verify_sha256 sig hash issuer_key =
     (case c7_pubkey_unpack_rsa issuer_key of
        None \<Rightarrow> Some False
      | Some (mod_be, exp_be) \<Rightarrow>
          if length mod_be > TLS7_RSA_MAX_BYTES then Some False
          else if length sig > length mod_be then Some False
          else map_option (\<lambda>r. case r of None \<Rightarrow> False | Some em \<Rightarrow> pkcs1_block_ok em hash)
                 (c7_rsa_public_op sig issuer_key TLS7_RSA_MAX_BYTES))"

subsection \<open>Numbers behind the byte strings\<close>

lemma of_be_append: "of_be (a @ b) = of_be a * 256 ^ length b + of_be b"
  by (simp add: of_be_def of_le_append)

lemma of_be_zeros [simp]: "of_be (replicate n 0) = 0"
  by (simp add: of_be_def)

lemma from_be_SomeD: "c7_bn_from_be be = Some a \<Longrightarrow> bn_is a (of_be be) \<and> length a \<le> length be"
  using trim_spec [of "rev be"] by (auto simp: c7_bn_from_be_def bn_is_def of_be_def split: if_splits)

lemma from_be_Some: "be \<noteq> [] \<Longrightarrow> length be \<le> TLS7_RSA_MAX_BYTES \<Longrightarrow> \<exists>a. c7_bn_from_be be = Some a"
  by (auto simp: c7_bn_from_be_def)

lemma to_be_fixed_spec:
  assumes "bn_is c v" "v < 256 ^ n" "0 < n"
  shows "\<exists>out. c7_bn_to_be_fixed c n = Some out \<and> length out = n \<and> of_be out = v"
proof -
  have c: "bn_norm c" "of_le c = v" using assms(1) by (simp_all add: bn_is_def)
  have "length c \<le> n"
  proof (rule ccontr)
    assume "\<not> length c \<le> n"
    then have "(256::nat) ^ n \<le> 256 ^ (length c - 1)" "c \<noteq> []" by (intro power_increasing, simp_all) auto
    with norm_ge [OF c(1)] c(2) assms(2) show False by (metis leD le_trans)
  qed
  then show ?thesis using assms(3) c(2) by (simp add: c7_bn_to_be_fixed_def of_be_append) (simp add: of_be_def)
qed

lemma unpack_SomeD:
  assumes "c7_pubkey_unpack_rsa blob = Some (mod_be, exp_be)"
  shows "mod_be \<noteq> [] \<and> exp_be \<noteq> [] \<and> length mod_be \<le> TLS7_RSA_MAX_BYTES \<and> length exp_be \<le> 8"
  using assms by (auto simp: c7_pubkey_unpack_rsa_def Let_def split: if_splits)

lemma pubkey_unpack_blob:
  assumes "of_be [a, b] = length m" "of_be [c, d] = length e" "m \<noteq> []" "e \<noteq> []"
    and "length m \<le> TLS7_RSA_MAX_BYTES" "length e \<le> 8"
  shows "c7_pubkey_unpack_rsa ([a, b, c, d] @ m @ e) = Some (m, e)"
proof -
  have h: "take 2 ([a, b, c, d] @ m @ e) = [a, b]" "take 2 (drop 2 ([a, b, c, d] @ m @ e)) = [c, d]"
    and h4: "drop 4 ([a, b, c, d] @ m @ e) = m @ e"
    by simp_all
  have h5: "drop (4 + length m) ([a, b, c, d] @ m @ e) = e"
  proof -
    have "drop (4 + length m) ([a, b, c, d] @ m @ e) = drop (length m) (drop 4 ([a, b, c, d] @ m @ e))"
      by (simp only: drop_drop add.commute)
    then show ?thesis by (simp only: h4) simp
  qed
  have l: "length ([a, b, c, d] @ m @ e) = 4 + length m + length e" by simp
  obtain x m' y e' where me: "m = x # m'" "e = y # e'" using assms(3,4) by (auto simp: neq_Nil_conv)
  show ?thesis
    unfolding c7_pubkey_unpack_rsa_def h h4 h5 assms(1,2) Let_def l using assms(5,6) by (simp add: me)
qed

text \<open>The common core of the two RSA operations: \<open>m\<close> to the power \<open>e\<close> modulo \<open>n\<close> as a block of the
  length of the modulus.\<close>

lemma rsa_core:
  assumes lm: "length m_be = length n_be" and n: "n_be \<noteq> []" "length n_be \<le> TLS7_RSA_MAX_BYTES" "0 < of_be n_be"
    and e: "e_be \<noteq> []" "length e_be \<le> TLS7_RSA_MAX_BYTES"
  shows "\<exists>m n e r. c7_bn_from_be m_be = Some m \<and> c7_bn_from_be n_be = Some n \<and> c7_bn_from_be e_be = Some e
      \<and> (c7_bn_cmp m n \<ge> 0 \<longleftrightarrow> of_be n_be \<le> of_be m_be)
      \<and> map_option (\<lambda>r. case r of None \<Rightarrow> None | Some c \<Rightarrow> c7_bn_to_be_fixed c (length n_be)) (c7_bn_mod_exp m e n) = Some r
      \<and> (case r of None \<Rightarrow> length n_be = TLS7_RSA_MAX_BYTES
         | Some out \<Rightarrow> length out = length n_be \<and> of_be out = bn_pow (of_be m_be) (of_be e_be) (of_be n_be))"
proof -
  obtain bm bn be where b: "c7_bn_from_be m_be = Some bm" "c7_bn_from_be n_be = Some bn" "c7_bn_from_be e_be = Some be"
    using from_be_Some [OF n(1,2)] from_be_Some [OF e] from_be_Some [of m_be] lm n by (metis length_0_conv)
  note d = b [THEN from_be_SomeD]
  have md: "bn_modulus bn" using d(2) n(3) by (auto simp: bn_modulus_def bn_is_def)
  have cmp: "c7_bn_cmp bm bn \<ge> 0 \<longleftrightarrow> of_be n_be \<le> of_be m_be"
    using d by (auto simp: bn_is_def cmp_spec)
  have "bn_op bn (c7_bn_mod_exp bm be bn) (bn_pow (of_le bm) (of_le be) (of_le bn))"
    using d by (intro mod_exp_is [OF md]) (simp_all add: bn_is_def)
  then have op: "bn_op bn (c7_bn_mod_exp bm be bn) (bn_pow (of_be m_be) (of_be e_be) (of_be n_be))"
    using d by (simp add: bn_is_def)
  have lt: "bn_pow (of_be m_be) (of_be e_be) (of_be n_be) < 256 ^ length n_be"
  proof (cases "of_be e_be = 0")
    case True
    have "(1::nat) < 256 ^ length n_be" using n(1) by (intro one_less_power) auto
    with True show ?thesis by (simp add: bn_pow_def)
  next
    case False
    have "of_be m_be ^ of_be e_be mod of_be n_be < of_be n_be" using n(3) by simp
    also have "\<dots> < 256 ^ length n_be" by (rule of_be_lt)
    finally show ?thesis using False by (simp add: bn_pow_def)
  qed
  from op show ?thesis
  proof (cases rule: bn_opE)
    case 1
    then show ?thesis using b cmp d(2) n(2) by (intro exI [of _ bm] exI [of _ bn] exI [of _ be] exI [of _ None]) auto
  next
    case (2 x)
    from to_be_fixed_spec [OF 2(2) lt] n(1) obtain out where
      "c7_bn_to_be_fixed x (length n_be) = Some out" "length out = length n_be"
      "of_be out = bn_pow (of_be m_be) (of_be e_be) (of_be n_be)" by auto
    then show ?thesis using b cmp 2 by (intro exI [of _ bm] exI [of _ bn] exI [of _ be] exI [of _ "Some out"]) auto
  qed
qed

lemma rsa_public_op:
  assumes key: "c7_pubkey_unpack_rsa blob = Some (n_be, e_be)" "0 < of_be n_be"
    and inp: "length inp \<le> length n_be" and out: "length n_be \<le> out_len"
  shows "\<exists>r. c7_rsa_public_op inp blob out_len = Some r
    \<and> (r = None \<longrightarrow> of_be n_be \<le> of_be inp \<or> length n_be = TLS7_RSA_MAX_BYTES)
    \<and> (\<forall>block. r = Some block \<longrightarrow> length block = length n_be \<and> of_be inp < of_be n_be
        \<and> of_be block = bn_pow (of_be inp) (of_be e_be) (of_be n_be))"
proof -
  note u = unpack_SomeD [OF key(1)]
  define m_be where "m_be = replicate (length n_be - length inp) 0 @ inp"
  have m: "length m_be = length n_be" "of_be m_be = of_be inp" using inp by (simp_all add: m_be_def of_be_append)
  obtain bm bn be r where c: "c7_bn_from_be m_be = Some bm" "c7_bn_from_be n_be = Some bn" "c7_bn_from_be e_be = Some be"
      "c7_bn_cmp bm bn \<ge> 0 \<longleftrightarrow> of_be n_be \<le> of_be m_be"
      "map_option (\<lambda>r. case r of None \<Rightarrow> None | Some c \<Rightarrow> c7_bn_to_be_fixed c (length n_be)) (c7_bn_mod_exp bm be bn) = Some r"
      "case r of None \<Rightarrow> length n_be = TLS7_RSA_MAX_BYTES
         | Some out \<Rightarrow> length out = length n_be \<and> of_be out = bn_pow (of_be m_be) (of_be e_be) (of_be n_be)"
    using rsa_core [OF m(1) _ _ key(2), of e_be] u by (auto simp: TLS7_RSA_MAX_BYTES_def)
  have "c7_rsa_public_op inp blob out_len = (if c7_bn_cmp bm bn \<ge> 0 then Some None else Some r)"
    using inp out by (simp add: c7_rsa_public_op_def key c flip: m_be_def)
  then show ?thesis using c(4,6) m(2) by (cases r) auto
qed


text \<open>Toy keys of 64 and 62 bytes with exponent 1, for concrete instances.\<close>

definition toy_key :: "u8 list" where
  "toy_key = [0, 62, 0, 1] @ replicate 62 0xFF @ [1]"

lemma toy_key_unpack: "c7_pubkey_unpack_rsa toy_key = Some (replicate 62 0xFF, [1])"
  unfolding toy_key_def
  by (rule pubkey_unpack_blob) (simp_all add: of_be_def TLS7_RSA_MAX_BYTES_def)

lemma of_be_Cons: "of_be (x # xs) = unat x * 256 ^ length xs + of_be xs"
  by (simp add: of_be_def of_le_snoc)

lemma toy_key_big: "x < 256 ^ 61 \<Longrightarrow> x < of_be (replicate 62 0xFF)"
proof -
  assume "x < 256 ^ 61"
  also have "(256::nat) ^ 61 \<le> unat (0xFF :: u8) * 256 ^ 61" by simp
  also have "\<dots> \<le> of_be ((0xFF :: u8) # replicate 61 0xFF)"
    unfolding of_be_Cons length_replicate by simp
  finally show ?thesis by (simp add: numeral_eq_Suc)
qed


subsection \<open>What the signature check accepts\<close>

text \<open>The encoded digest with \<open>k\<close> filling bytes and what may follow it.\<close>

definition pkcs1_encoding :: "nat \<Rightarrow> u8 list \<Rightarrow> u8 list \<Rightarrow> u8 list" where
  "pkcs1_encoding k hash rest = [0x00, 0x01] @ replicate k 0xFF @ [0x00] @ di_prefix @ hash @ rest"

lemma of_le_inj: "length a = length b \<Longrightarrow> of_le a = of_le b \<Longrightarrow> a = b"
proof (induction a arbitrary: b)
  case (Cons x xs)
  then obtain y ys where b: "b = y # ys" by (cases b) auto
  have m: "of_le (z # zs) mod 256 = unat z" for z zs using unat_u8_less [of z] by simp
  have "unat x = unat y" using Cons.prems(2) m b by metis
  moreover from this have "of_le xs = of_le ys" using Cons.prems(2) by (simp add: b)
  ultimately show ?case using Cons by (simp add: b word_unat_eq_iff)
qed simp

lemma of_be_inj: "length a = length b \<Longrightarrow> of_be a = of_be b \<Longrightarrow> a = b"
  using of_le_inj [of "rev a" "rev b"] by (simp add: of_be_def)

lemma pkcs1_block_ok_iff:
  assumes h: "length hash = 32"
  shows "pkcs1_block_ok em hash \<longleftrightarrow> (\<exists>k rest. 8 \<le> k \<and> em = pkcs1_encoding k hash rest)"
proof
  assume ok: "pkcs1_block_ok em hash"
  define k where "k = length (takeWhile (\<lambda>b. b = 0xFF) (drop 2 em))"
  have tw: "takeWhile (\<lambda>b. b = 0xFF) (drop 2 em) = replicate k 0xFF"
    unfolding k_def by (intro replicate_eqI) (auto dest: set_takeWhileD)
  have l19: "length di_prefix = 19" by (simp add: di_prefix_def)
  have if_False: "(if P then False else Q) \<longleftrightarrow> \<not> P \<and> Q" for P Q by simp
  have "\<not> (length em < 2 \<or> em ! 0 \<noteq> 0 \<or> em ! 1 \<noteq> 1) \<and> \<not> (2 + k < 10 \<or> 2 + k \<ge> length em \<or> em ! (2 + k) \<noteq> 0)
      \<and> take 19 (drop (2 + k + 1) em) = di_prefix \<and> take 32 (drop (2 + k + 1 + 19) em) = take 32 hash"
    using ok unfolding pkcs1_block_ok_def Let_def k_def [symmetric] if_False l19 by blast
  then have c: "2 \<le> length em" "em ! 0 = 0" "em ! 1 = 1" "8 \<le> k" "2 + k < length em" "em ! (2 + k) = 0"
    "take 19 (drop (2 + k + 1) em) = di_prefix" "take 32 (drop (2 + k + 1 + 19) em) = hash"
    using h by (linarith, blast, blast, linarith, linarith, blast, blast, simp only: take_all le_refl)
  define r3 where "r3 = drop (2 + k + 1) em"
  have E1: "em = take 2 em @ drop 2 em" by simp
  have E2: "take 2 em = [0, 1]" using c(1-3) by (intro nth_equalityI) (auto simp: less_2_cases_iff)
  have E3: "drop 2 em = replicate k 0xFF @ drop (2 + k) em"
  proof -
    have "dropWhile (\<lambda>b. b = 0xFF) (drop 2 em) = drop k (drop 2 em)" by (simp only: dropWhile_eq_drop k_def)
    also have "\<dots> = drop (2 + k) em" by (simp only: drop_drop add.commute)
    finally show ?thesis using takeWhile_dropWhile_id [of "\<lambda>b. b = 0xFF" "drop 2 em"] tw by simp
  qed
  have E4: "drop (2 + k) em = 0 # r3" using c(5,6) by (simp add: r3_def Cons_nth_drop_Suc [symmetric])
  have E5: "r3 = di_prefix @ drop 19 r3" using c(7) unfolding r3_def by (metis append_take_drop_id)
  have E6: "drop 19 r3 = hash @ drop 32 (drop 19 r3)"
  proof -
    have "drop 19 r3 = drop (2 + k + 1 + 19) em" unfolding r3_def by (simp only: drop_drop add.commute)
    with c(8) have "take 32 (drop 19 r3) = hash" by simp
    then show ?thesis using append_take_drop_id [of 32 "drop 19 r3"] by simp
  qed
  have em: "em = [0, 1] @ replicate k 0xFF @ 0 # r3" using E1 E2 E3 E4 by simp
  obtain y where "r3 = di_prefix @ hash @ y" using E5 E6 by metis
  with em have "em = pkcs1_encoding k hash y" by (simp add: pkcs1_encoding_def)
  with c(4) show "\<exists>k rest. 8 \<le> k \<and> em = pkcs1_encoding k hash rest" by blast
next
  assume "\<exists>k rest. 8 \<le> k \<and> em = pkcs1_encoding k hash rest"
  then obtain k rest where k: "8 \<le> k" and em: "em = pkcs1_encoding k hash rest" by blast
  have tw: "takeWhile (\<lambda>b. b = 0xFF) (replicate k 0xFF @ (0 :: u8) # y) = replicate k 0xFF" for y
    by (induction k) simp_all
  have n: "([0, 1] @ replicate k 0xFF @ (0 :: u8) # y) ! (2 + k) = 0" for y
    by (simp add: nth_append)
  have d: "drop (2 + k + 1) ([0, 1] @ replicate k 0xFF @ (0 :: u8) # y) = y" for y
    by simp
  have l: "length di_prefix = 19" by (simp add: di_prefix_def)
  define y where "y = di_prefix @ hash @ rest"
  have em': "em = [0, 1] @ replicate k 0xFF @ 0 # y" by (simp add: em pkcs1_encoding_def y_def)
  have y: "take 19 y = di_prefix" "take 32 (drop 19 y) = hash" "length y \<ge> 51"
    using h by (simp_all add: y_def l)
  have "drop (2 + k + 1 + 19) em = drop 19 y"
  proof -
    have "drop (2 + k + 1 + 19) em = drop 19 (drop (2 + k + 1) em)" by (simp only: drop_drop add.commute)
    then show ?thesis by (simp only: em' d)
  qed
  then show "pkcs1_block_ok em hash"
    unfolding pkcs1_block_ok_def Let_def using k y d [of y] n [of y] tw [of y] h
    by (simp add: em' l)
qed

lemma pkcs1_verify_is:
  assumes key: "c7_pubkey_unpack_rsa key = Some (n_be, e_be)" "0 < of_be n_be"
    and sig: "length sig \<le> length n_be" and hash: "length hash = 32"
  shows "\<exists>b. c7_pkcs1_verify_sha256 sig hash key = Some b
    \<and> (length n_be < TLS7_RSA_MAX_BYTES \<or> b \<longrightarrow> (b \<longleftrightarrow> of_be sig < of_be n_be
      \<and> (\<exists>k rest. 8 \<le> k \<and> length (pkcs1_encoding k hash rest) = length n_be
          \<and> bn_pow (of_be sig) (of_be e_be) (of_be n_be) = of_be (pkcs1_encoding k hash rest))))"
proof -
  obtain r where r: "c7_rsa_public_op sig key TLS7_RSA_MAX_BYTES = Some r"
      "r = None \<Longrightarrow> of_be n_be \<le> of_be sig \<or> length n_be = TLS7_RSA_MAX_BYTES"
      "\<And>em. r = Some em \<Longrightarrow> length em = length n_be \<and> of_be sig < of_be n_be
        \<and> of_be em = bn_pow (of_be sig) (of_be e_be) (of_be n_be)"
    using rsa_public_op [OF key(1,2) sig, of TLS7_RSA_MAX_BYTES] unpack_SomeD [OF key(1)] by auto
  have v: "c7_pkcs1_verify_sha256 sig hash key = Some (case r of None \<Rightarrow> False | Some em \<Rightarrow> pkcs1_block_ok em hash)"
    using key sig r(1) unpack_SomeD [OF key(1)] by (simp add: c7_pkcs1_verify_sha256_def)
  show ?thesis
  proof (cases r)
    case None
    then have "c7_pkcs1_verify_sha256 sig hash key = Some False" using v by simp
    moreover have "length n_be < TLS7_RSA_MAX_BYTES \<Longrightarrow> \<not> of_be sig < of_be n_be" using r(2) [OF None] by linarith
    ultimately show ?thesis by blast
  next
    case (Some em)
    from r(3) [OF Some] have "pkcs1_block_ok em hash \<longleftrightarrow> (\<exists>k rest. 8 \<le> k \<and> length (pkcs1_encoding k hash rest) = length n_be
        \<and> bn_pow (of_be sig) (of_be e_be) (of_be n_be) = of_be (pkcs1_encoding k hash rest))"
      unfolding pkcs1_block_ok_iff [OF hash] by (metis of_be_inj)
    moreover have "c7_pkcs1_verify_sha256 sig hash key = Some (pkcs1_block_ok em hash)" using v Some by simp
    ultimately show ?thesis using r(3) [OF Some] by blast
  qed
qed

text \<open>C38: The signature check of the certificate code returns, and it accepts exactly the signatures
  whose value is below the modulus and whose power by the public exponent, modulo the modulus, is the
  PKCS 1 block of the digest with at least eight filling bytes.  The block may go on after the digest:
  nothing is asked of the bytes that follow it.\<close>

theorem c7_pkcs1_verify_sha256_iff:
  assumes key: "c7_pubkey_unpack_rsa key = Some (n_be, e_be)" "1 < of_be n_be" "length n_be < TLS7_RSA_MAX_BYTES"
    and sig: "length sig \<le> length n_be" and hash: "length hash = 32"
  shows "c7_pkcs1_verify_sha256 sig hash key = Some (of_be sig < of_be n_be
    \<and> (\<exists>k rest. 8 \<le> k \<and> length (pkcs1_encoding k hash rest) = length n_be
        \<and> of_be sig ^ of_be e_be mod of_be n_be = of_be (pkcs1_encoding k hash rest)))"
proof -
  have "0 < of_be n_be" using key(2) by simp
  from pkcs1_verify_is [OF key(1) this sig hash] obtain b where
    "c7_pkcs1_verify_sha256 sig hash key = Some b"
    "b \<longleftrightarrow> of_be sig < of_be n_be
      \<and> (\<exists>k rest. 8 \<le> k \<and> length (pkcs1_encoding k hash rest) = length n_be
          \<and> bn_pow (of_be sig) (of_be e_be) (of_be n_be) = of_be (pkcs1_encoding k hash rest))"
    using key(3) by metis
  then show ?thesis by (simp only: bn_pow_eq [OF key(2)])
qed

lemma pkcs1_encoding_below_toy_key:
  assumes "length (pkcs1_encoding k hash rest) = 62"
  shows "of_be (pkcs1_encoding k hash rest) < of_be (replicate 62 0xFF)"
proof (rule toy_key_big)
  obtain xs where xs: "pkcs1_encoding k hash rest = 0 # xs" by (simp add: pkcs1_encoding_def)
  have "of_be (pkcs1_encoding k hash rest) = of_be xs" by (simp add: xs of_be_Cons)
  also have "\<dots> < 256 ^ length xs" by (rule of_be_lt)
  finally show "of_be (pkcs1_encoding k hash rest) < 256 ^ 61" using assms xs by simp
qed

theorem c7_pkcs1_verify_sha256_iff_witness:
  "c7_pkcs1_verify_sha256 (pkcs1_encoding 8 (replicate 32 7) []) (replicate 32 7) toy_key = Some True"
proof -
  have l: "length (pkcs1_encoding 8 (replicate 32 7) []) = length (replicate 62 (0xFF :: u8))"
    by (simp add: pkcs1_encoding_def di_prefix_def)
  then have below: "of_be (pkcs1_encoding 8 (replicate 32 7) []) < of_be (replicate 62 0xFF)"
    using pkcs1_encoding_below_toy_key [of 8 "replicate 32 7" "[]"] by simp
  have "1 < of_be (replicate 62 (0xFF :: u8))" by (rule toy_key_big) simp
  from c7_pkcs1_verify_sha256_iff [OF toy_key_unpack this, of "pkcs1_encoding 8 (replicate 32 7) []" "replicate 32 7"]
  have "c7_pkcs1_verify_sha256 (pkcs1_encoding 8 (replicate 32 7) []) (replicate 32 7) toy_key
      = Some (of_be (pkcs1_encoding 8 (replicate 32 7) []) < of_be (replicate 62 0xFF)
        \<and> (\<exists>k rest. 8 \<le> k \<and> length (pkcs1_encoding k (replicate 32 7) rest) = length (replicate 62 (0xFF :: u8))
          \<and> of_be (pkcs1_encoding 8 (replicate 32 7) []) ^ of_be [1] mod of_be (replicate 62 0xFF)
              = of_be (pkcs1_encoding k (replicate 32 7) rest)))"
    using l by (simp add: TLS7_RSA_MAX_BYTES_def)
  moreover have "of_be [1] = 1" by (simp add: of_be_def)
  ultimately show ?thesis using below l by (auto intro!: exI [of _ "8::nat"] exI [of _ "[]"])
qed

text \<open>A signature for the toy key, for concrete certificates; the block may go on after the digest.\<close>

lemma toy_signature:
  assumes "length hash = 32" "8 \<le> k" "length (pkcs1_encoding k hash rest) = 62"
  shows "c7_pkcs1_verify_sha256 (pkcs1_encoding k hash rest) hash toy_key = Some True"
proof -
  have l: "length (pkcs1_encoding k hash rest) = length (replicate 62 (0xFF :: u8))" using assms(3) by simp
  have below: "of_be (pkcs1_encoding k hash rest) < of_be (replicate 62 0xFF)"
    by (rule pkcs1_encoding_below_toy_key [OF assms(3)])
  have "0 < of_be (replicate 62 (0xFF :: u8))" using below by simp
  from pkcs1_verify_is [OF toy_key_unpack this, of "pkcs1_encoding k hash rest" hash]
  obtain b where b: "c7_pkcs1_verify_sha256 (pkcs1_encoding k hash rest) hash toy_key = Some b"
    "b \<longleftrightarrow> of_be (pkcs1_encoding k hash rest) < of_be (replicate 62 0xFF)
      \<and> (\<exists>j r. 8 \<le> j \<and> length (pkcs1_encoding j hash r) = length (replicate 62 (0xFF :: u8))
          \<and> bn_pow (of_be (pkcs1_encoding k hash rest)) (of_be [1]) (of_be (replicate 62 0xFF)) = of_be (pkcs1_encoding j hash r))"
    using l assms(1) by (auto simp: TLS7_RSA_MAX_BYTES_def)
  have "bn_pow (of_be (pkcs1_encoding k hash rest)) (of_be [1]) (of_be (replicate 62 0xFF)) = of_be (pkcs1_encoding k hash rest)"
    using below by (simp add: bn_pow_def of_be_def [of "[1]"])
  then have b using b(2) below l assms(2) by blast
  with b(1) show ?thesis by simp
qed

subsection \<open>The premaster secret\<close>

lemma encrypt_pms_spec:
  assumes key: "c7_pubkey_unpack_rsa blob = Some (n_be, e_be)" "1 < of_be n_be" "64 \<le> length n_be"
      "length n_be < TLS7_RSA_MAX_BYTES"
    and ps: "length ps = length n_be - 51" and pms: "length pms = 48"
  shows "\<exists>r. c7_rsa_pkcs1_encrypt_pms 0 blob ps pms = Some r
    \<and> (r = None \<longleftrightarrow> of_be n_be \<le> of_be (pkcs1_pms_block ps pms))
    \<and> (\<forall>out. r = Some out \<longrightarrow> length out = length n_be
        \<and> of_be out = of_be (pkcs1_pms_block ps pms) ^ of_be e_be mod of_be n_be)"
proof -
  note u = unpack_SomeD [OF key(1)]
  define m_be where "m_be = pkcs1_pms_block (take (length n_be - 51) ps) pms"
  have m: "m_be = pkcs1_pms_block ps pms" using ps by (simp add: m_be_def)
  have l: "length m_be = length n_be" using ps pms key(3) by (simp add: m pkcs1_pms_block_def)
  obtain bm bn be r where c: "c7_bn_from_be m_be = Some bm" "c7_bn_from_be n_be = Some bn" "c7_bn_from_be e_be = Some be"
      "c7_bn_cmp bm bn \<ge> 0 \<longleftrightarrow> of_be n_be \<le> of_be m_be"
      "map_option (\<lambda>r. case r of None \<Rightarrow> None | Some c \<Rightarrow> c7_bn_to_be_fixed c (length n_be)) (c7_bn_mod_exp bm be bn) = Some r"
      "case r of None \<Rightarrow> length n_be = TLS7_RSA_MAX_BYTES
         | Some out \<Rightarrow> length out = length n_be \<and> of_be out = bn_pow (of_be m_be) (of_be e_be) (of_be n_be)"
    using rsa_core [OF l _ _ _, of e_be] u key(2) by (auto simp: TLS7_RSA_MAX_BYTES_def)
  have "c7_rsa_pkcs1_encrypt_pms 0 blob ps pms = (if c7_bn_cmp bm bn \<ge> 0 then Some None else Some r)"
    using key u by (simp add: c7_rsa_pkcs1_encrypt_pms_def c Let_def flip: m_be_def)
  then show ?thesis using c(4,6) key(4) by (cases r) (auto simp: m bn_pow_eq [OF key(2)])
qed

end
