(* ===== verification/KSha.thy ===== *)
theory KSha
  imports KBytes
begin

text \<open>
  SHA-256 and HMAC of \<^verbatim>\<open>src/compat/display_wayland.c\<close>: the incremental context
  (\<open>sha256_init\<close>, \<open>sha256_update\<close>, \<open>sha256_final\<close>) against the one-shot definition of the hash,
  whatever the sizes of the pieces, and the two contexts of \<open>hmac_sha256\<close>.
\<close>

subsection \<open>The compression function\<close>

text \<open>The constants are written by halves, \<open>(high, low)\<close>.\<close>

definition word_of_halves :: "u32 \<times> u32 \<Rightarrow> u32" where
  "word_of_halves hl = push_bit 16 (fst hl) OR snd hl"

definition g_sha256_k :: "u32 list" where
  "g_sha256_k = map word_of_halves
    [(0x428a, 0x2f98), (0x7137, 0x4491), (0xb5c0, 0xfbcf), (0xe9b5, 0xdba5),
     (0x3956, 0xc25b), (0x59f1, 0x11f1), (0x923f, 0x82a4), (0xab1c, 0x5ed5),
     (0xd807, 0xaa98), (0x1283, 0x5b01), (0x2431, 0x85be), (0x550c, 0x7dc3),
     (0x72be, 0x5d74), (0x80de, 0xb1fe), (0x9bdc, 0x06a7), (0xc19b, 0xf174),
     (0xe49b, 0x69c1), (0xefbe, 0x4786), (0x0fc1, 0x9dc6), (0x240c, 0xa1cc),
     (0x2de9, 0x2c6f), (0x4a74, 0x84aa), (0x5cb0, 0xa9dc), (0x76f9, 0x88da),
     (0x983e, 0x5152), (0xa831, 0xc66d), (0xb003, 0x27c8), (0xbf59, 0x7fc7),
     (0xc6e0, 0x0bf3), (0xd5a7, 0x9147), (0x06ca, 0x6351), (0x1429, 0x2967),
     (0x27b7, 0x0a85), (0x2e1b, 0x2138), (0x4d2c, 0x6dfc), (0x5338, 0x0d13),
     (0x650a, 0x7354), (0x766a, 0x0abb), (0x81c2, 0xc92e), (0x9272, 0x2c85),
     (0xa2bf, 0xe8a1), (0xa81a, 0x664b), (0xc24b, 0x8b70), (0xc76c, 0x51a3),
     (0xd192, 0xe819), (0xd699, 0x0624), (0xf40e, 0x3585), (0x106a, 0xa070),
     (0x19a4, 0xc116), (0x1e37, 0x6c08), (0x2748, 0x774c), (0x34b0, 0xbcb5),
     (0x391c, 0x0cb3), (0x4ed8, 0xaa4a), (0x5b9c, 0xca4f), (0x682e, 0x6ff3),
     (0x748f, 0x82ee), (0x78a5, 0x636f), (0x84c8, 0x7814), (0x8cc7, 0x0208),
     (0x90be, 0xfffa), (0xa450, 0x6ceb), (0xbef9, 0xa3f7), (0xc671, 0x78f2)]"

definition SHA_ROTR :: "u32 \<Rightarrow> nat \<Rightarrow> u32" where
  "SHA_ROTR x n = drop_bit n x OR push_bit (32 - n) x"

definition SHA_CH :: "u32 \<Rightarrow> u32 \<Rightarrow> u32 \<Rightarrow> u32" where
  "SHA_CH x y z = (x AND y) XOR (NOT x AND z)"

definition SHA_MAJ :: "u32 \<Rightarrow> u32 \<Rightarrow> u32 \<Rightarrow> u32" where
  "SHA_MAJ x y z = (x AND y) XOR (x AND z) XOR (y AND z)"

definition SHA_EP0 :: "u32 \<Rightarrow> u32" where "SHA_EP0 x = SHA_ROTR x 2 XOR SHA_ROTR x 13 XOR SHA_ROTR x 22"
definition SHA_EP1 :: "u32 \<Rightarrow> u32" where "SHA_EP1 x = SHA_ROTR x 6 XOR SHA_ROTR x 11 XOR SHA_ROTR x 25"
definition SHA_SIG0 :: "u32 \<Rightarrow> u32" where "SHA_SIG0 x = SHA_ROTR x 7 XOR SHA_ROTR x 18 XOR drop_bit 3 x"
definition SHA_SIG1 :: "u32 \<Rightarrow> u32" where "SHA_SIG1 x = SHA_ROTR x 17 XOR SHA_ROTR x 19 XOR drop_bit 10 x"

fun schedule :: "nat \<Rightarrow> u32 list \<Rightarrow> u32 list" where
  "schedule 0 w = w"
| "schedule (Suc n) w =
     (let i = length w in schedule n (w @ [SHA_SIG1 (w ! (i - 2)) + w ! (i - 7) + SHA_SIG0 (w ! (i - 15)) + w ! (i - 16)]))"

fun sha_rounds :: "(u32 \<times> u32) list \<Rightarrow> u32 \<times> u32 \<times> u32 \<times> u32 \<times> u32 \<times> u32 \<times> u32 \<times> u32
    \<Rightarrow> u32 \<times> u32 \<times> u32 \<times> u32 \<times> u32 \<times> u32 \<times> u32 \<times> u32" where
  "sha_rounds [] v = v"
| "sha_rounds ((k, w) # kws) (a, b, c, d, e, f, g, h) =
     (let t1 = h + SHA_EP1 e + SHA_CH e f g + k + w; t2 = SHA_EP0 a + SHA_MAJ a b c
      in sha_rounds kws (t1 + t2, a, b, c, d + t1, e, f, g))"

definition sha256_transform :: "u32 list \<Rightarrow> u8 list \<Rightarrow> u32 list" where
  "sha256_transform st blk =
     (let w = schedule 48 (map (\<lambda>i. of_nat (of_be (take 4 (drop (4 * i) blk)))) [0..<16])
      in case sha_rounds (zip g_sha256_k w) (st ! 0, st ! 1, st ! 2, st ! 3, st ! 4, st ! 5, st ! 6, st ! 7) of
           (a, b, c, d, e, f, g, h) \<Rightarrow>
             [st ! 0 + a, st ! 1 + b, st ! 2 + c, st ! 3 + d, st ! 4 + e, st ! 5 + f, st ! 6 + g, st ! 7 + h])"

subsection \<open>The context\<close>

record sha256_ctx =
  sha_state :: "u32 list"
  sha_count :: u64
  sha_buf :: "u8 list"

definition sha256_init :: sha256_ctx where
  "sha256_init = \<lparr> sha_state = map word_of_halves
       [(0x6a09, 0xe667), (0xbb67, 0xae85), (0x3c6e, 0xf372), (0xa54f, 0xf53a),
        (0x510e, 0x527f), (0x9b05, 0x688c), (0x1f83, 0xd9ab), (0x5be0, 0xcd19)],
     
     sha_count = 0, sha_buf = replicate 64 0 \<rparr>"

text \<open>\<open>memcpy (buf + off, bs)\<close>\<close>

definition buf_put :: "u8 list \<Rightarrow> nat \<Rightarrow> u8 list \<Rightarrow> u8 list" where
  "buf_put buf off bs = take off buf @ bs @ drop (off + length bs) buf"

text \<open>The loop over whole blocks; what remains is copied to the front of the buffer.\<close>

function sha_blocks :: "u32 list \<Rightarrow> u8 list \<Rightarrow> u32 list \<times> u8 list" where
  "sha_blocks st p = (if length p \<ge> 64 then sha_blocks (sha256_transform st (take 64 p)) (drop 64 p) else (st, p))"
  by pat_completeness auto
termination by (relation "measure (\<lambda>(st, p). length p)") auto

declare sha_blocks.simps [simp del]

definition sha256_update :: "sha256_ctx \<Rightarrow> u8 list \<Rightarrow> sha256_ctx" where
  "sha256_update ctx p =
     (let used = unat (sha_count ctx mod 64); cnt = sha_count ctx + of_nat (length p); avail = 64 - used
      in if used \<noteq> 0 \<and> length p < avail
         then ctx\<lparr> sha_count := cnt, sha_buf := buf_put (sha_buf ctx) used p \<rparr>
         else (let b1 = (if used \<noteq> 0 then buf_put (sha_buf ctx) used (take avail p) else sha_buf ctx);
                   st1 = (if used \<noteq> 0 then sha256_transform (sha_state ctx) b1 else sha_state ctx);
                   p1 = (if used \<noteq> 0 then drop avail p else p)
               in case sha_blocks st1 p1 of
                    (st2, r) \<Rightarrow> ctx\<lparr> sha_count := cnt, sha_state := st2, sha_buf := buf_put b1 0 r \<rparr>))"

definition sha256_final :: "sha256_ctx \<Rightarrow> u8 list" where
  "sha256_final ctx =
     (let bits = sha_count ctx * 8; used = unat (sha_count ctx mod 64);
          b0 = buf_put (sha_buf ctx) used [0x80]; used0 = used + 1;
          (st1, b1, used1) = (if used0 > 56
             then (sha256_transform (sha_state ctx) (buf_put b0 used0 (replicate (64 - used0) 0)),
                   buf_put b0 used0 (replicate (64 - used0) 0), 0)
             else (sha_state ctx, b0, used0));
          b2 = buf_put b1 used1 (replicate (56 - used1) 0);
          b3 = buf_put b2 56 (be_bytes 8 (unat bits));
          st2 = sha256_transform st1 b3
      in concat (map (\<lambda>i. be32 (st2 ! i)) [0..<8]))"

definition sha256 :: "u8 list \<Rightarrow> u8 list" where
  "sha256 data = sha256_final (sha256_update sha256_init data)"

subsection \<open>HMAC\<close>

record hmac_sha256_ctx =
  inner :: sha256_ctx
  outer :: sha256_ctx

definition hmac_key :: "u8 list \<Rightarrow> u8 list" where
  "hmac_key key = buf_put (replicate 64 0) 0 (if length key > 64 then sha256 key else key)"

definition hmac_sha256_init :: "u8 list \<Rightarrow> hmac_sha256_ctx" where
  "hmac_sha256_init key =
     \<lparr> inner = sha256_update sha256_init (map (\<lambda>i. hmac_key key ! i XOR 0x36) [0..<64]),
       outer = sha256_update sha256_init (map (\<lambda>i. hmac_key key ! i XOR 0x5c) [0..<64]) \<rparr>"

definition hmac_sha256_update :: "hmac_sha256_ctx \<Rightarrow> u8 list \<Rightarrow> hmac_sha256_ctx" where
  "hmac_sha256_update ctx d = ctx\<lparr> inner := sha256_update (inner ctx) d \<rparr>"

definition hmac_sha256_final :: "hmac_sha256_ctx \<Rightarrow> u8 list" where
  "hmac_sha256_final ctx = sha256_final (sha256_update (outer ctx) (sha256_final (inner ctx)))"

text \<open>The pseudo random function of TLS 1.2; \<open>n\<close> bytes are still wanted.\<close>

definition hmac3 :: "u8 list \<Rightarrow> u8 list list \<Rightarrow> u8 list" where
  "hmac3 key ds = hmac_sha256_final (fold (\<lambda>d c. hmac_sha256_update c d) ds (hmac_sha256_init key))"

function prf_loop :: "u8 list \<Rightarrow> u8 list \<Rightarrow> u8 list \<Rightarrow> nat \<Rightarrow> u8 list" where
  "prf_loop secret seed a n =
     (if n = 0 then []
      else take n (hmac3 secret [a, seed]) @ prf_loop secret seed (hmac3 secret [a]) (n - min n 32))"
  by pat_completeness auto
termination by (relation "measure (\<lambda>(s, d, a, n). n)") auto

declare prf_loop.simps [simp del]

definition tls7_prf :: "u8 list \<Rightarrow> u8 list \<Rightarrow> u8 list \<Rightarrow> nat \<Rightarrow> u8 list" where
  "tls7_prf secret label seed outlen =
     prf_loop secret (label @ seed) (hmac3 secret [label @ seed]) outlen"

subsection \<open>The hash of a whole message\<close>

text \<open>The one-shot reference: the message is padded, cut into blocks and the compression function
  is folded over them.\<close>

definition chunks64 :: "u8 list \<Rightarrow> u8 list list" where
  "chunks64 p = map (\<lambda>i. take 64 (drop (64 * i) p)) [0..<length p div 64]"

definition digest_state :: "u32 list \<Rightarrow> u8 list \<Rightarrow> u32 list" where
  "digest_state st p = foldl sha256_transform st (chunks64 p)"

definition sha_pad :: "u8 list \<Rightarrow> u8 list" where
  "sha_pad m = m @ [0x80] @ replicate ((119 - length m mod 64) mod 64) 0 @ be_bytes 8 (8 * length m mod 2 ^ 64)"

definition sha256_reference :: "u8 list \<Rightarrow> u8 list" where
  "sha256_reference m = (let st = digest_state (sha_state sha256_init) (sha_pad m) in concat (map (\<lambda>i. be32 (st ! i)) [0..<8]))"

lemma chunks64_short: "length p < 64 \<Longrightarrow> chunks64 p = []"
  by (simp add: chunks64_def)

lemma chunks64_step:
  assumes "64 \<le> length p"
  shows "chunks64 p = take 64 p # chunks64 (drop 64 p)"
proof -
  have d: "length p div 64 = Suc (length (drop 64 p) div 64)"
    using assms by (simp add: div_if [of "length p"])
  have "[0..<Suc (length (drop 64 p) div 64)] = 0 # map Suc [0..<length (drop 64 p) div 64]"
    by (subst upt_conv_Cons) (simp_all add: map_Suc_upt)
  then show ?thesis
    unfolding chunks64_def d by (simp add: o_def add.commute del: upt_Suc)
qed

lemma digest_state_append:
  assumes "64 dvd length a"
  shows "digest_state st (a @ b) = digest_state (digest_state st a) b"
proof -
  obtain n where "length a = 64 * n" using assms by (elim dvdE)
  then show ?thesis
  proof (induction n arbitrary: a st)
    case 0
    then show ?case by (simp add: digest_state_def chunks64_short)
  next
    case (Suc n)
    then have "digest_state (sha256_transform st (take 64 a)) (drop 64 a @ b)
        = digest_state (digest_state (sha256_transform st (take 64 a)) (drop 64 a)) b"
      by (intro Suc.IH) simp
    with Suc.prems show ?case
      by (simp add: digest_state_def chunks64_step)
  qed
qed

lemma digest_state_block: "length b = 64 \<Longrightarrow> digest_state st b = sha256_transform st b"
  by (simp add: digest_state_def chunks64_step chunks64_short)

lemma sha_blocks_eq:
  "sha_blocks st p = (digest_state st p, drop (64 * (length p div 64)) p)"
proof (induction st p rule: sha_blocks.induct)
  case (1 st p)
  show ?case
  proof (cases "64 \<le> length p")
    case True
    then have "length p div 64 = Suc (length (drop 64 p) div 64)"
      by (simp add: div_if [of "length p"])
    with True show ?thesis
      by (subst sha_blocks.simps) (simp add: 1 digest_state_def chunks64_step add.commute)
  next
    case False
    then show ?thesis
      by (subst sha_blocks.simps) (simp add: digest_state_def chunks64_short)
  qed
qed

subsection \<open>The context follows the message\<close>

lemma length_buf_put [simp]: "off + length bs \<le> length buf \<Longrightarrow> length (buf_put buf off bs) = length buf"
  by (simp add: buf_put_def)

lemma take_buf_put: "off + length bs \<le> length buf \<Longrightarrow> take (off + length bs) (buf_put buf off bs) = take off buf @ bs"
  by (simp add: buf_put_def)

definition sha_tracks :: "sha256_ctx \<Rightarrow> u8 list \<Rightarrow> bool" where
  "sha_tracks ctx m \<longleftrightarrow>
     sha_count ctx = of_nat (length m) \<and> length (sha_buf ctx) = 64 \<and>
     (\<exists>a. a @ take (length m mod 64) (sha_buf ctx) = m \<and> 64 dvd length a
        \<and> sha_state ctx = digest_state (sha_state sha256_init) a)"

lemma sha_tracksI:
  assumes "sha_count ctx = of_nat (length m)" and "length (sha_buf ctx) = 64" and m: "m = a @ x"
    and x: "length x < 64" "take (length x) (sha_buf ctx) = x"
    and a: "64 dvd length a" and "sha_state ctx = digest_state (sha_state sha256_init) a"
  shows "sha_tracks ctx m"
proof -
  have "length m mod 64 = length x"
    using a x(1) by (auto simp: m elim!: dvdE)
  then show ?thesis using assms unfolding sha_tracks_def by auto
qed

lemma sha_tracks_init: "sha_tracks sha256_init []"
  by (simp add: sha_tracks_def sha256_init_def digest_state_def chunks64_short)

lemma unat_count_mod: "unat ((of_nat n :: u64) mod 64) = n mod 64"
proof -
  have "(n mod 2 ^ 64) mod 64 = n mod (64::nat)" by (rule mod_mod_cancel) simp
  then show ?thesis by (simp add: unat_mod unat_of_nat take_bit_eq_mod)
qed

lemma sha_tracks_update:
  assumes "sha_tracks ctx m"
  shows "sha_tracks (sha256_update ctx p) (m @ p)"
proof -
  define used where "used = length m mod 64"
  define H where "H = sha_state sha256_init"
  obtain a where cnt: "sha_count ctx = of_nat (length m)" and lb: "length (sha_buf ctx) = 64"
    and m: "a @ take used (sha_buf ctx) = m" and a: "64 dvd length a" and st: "sha_state ctx = digest_state H a"
    using assms unfolding sha_tracks_def used_def H_def by blast
  have u: "used < 64" by (simp add: used_def)
  have uu: "unat (sha_count ctx mod 64) = used" by (simp add: cnt unat_count_mod used_def)
  have lm: "length m = length a + used" using m lb u by (metis length_append length_take min.absorb2 less_imp_le)
  show ?thesis
  proof (cases "used \<noteq> 0 \<and> length p < 64 - used")
    case True
    have lp: "used + length p < 64" using True by linarith
    have tk: "take (used + length p) (buf_put (sha_buf ctx) used p) = take used (sha_buf ctx) @ p"
      using lp lb by (intro take_buf_put) linarith
    have lx: "length (take used (sha_buf ctx) @ p) = used + length p"
      using u lb by simp
    have up: "sha256_update ctx p
        = ctx\<lparr> sha_count := of_nat (length (m @ p)), sha_buf := buf_put (sha_buf ctx) used p \<rparr>"
      using True unfolding sha256_update_def uu Let_def by (simp add: cnt)
    show ?thesis unfolding up
    proof (rule sha_tracksI [where a = a and x = "take used (sha_buf ctx) @ p"])
      show "m @ p = a @ take used (sha_buf ctx) @ p" using m by simp
    qed (use lp lx tk a st lb in \<open>simp_all add: H_def del: length_append length_take\<close>)
  next
    case False
    define b1 where "b1 = (if used \<noteq> 0 then buf_put (sha_buf ctx) used (take (64 - used) p) else sha_buf ctx)"
    define p1 where "p1 = (if used \<noteq> 0 then drop (64 - used) p else p)"
    define a1 where "a1 = (if used \<noteq> 0 then m @ take (64 - used) p else m)"
    have b1: "length b1 = 64" using lb u False by (auto simp: b1_def)
    have a1: "64 dvd length a1"
    proof (cases "used = 0")
      case True
      then show ?thesis using lm a by (simp add: a1_def)
    next
      case used: False
      then have "length a1 = length a + 64" using False u lm by (simp add: a1_def)
      then show ?thesis using a by simp
    qed
    have st1: "(if used \<noteq> 0 then sha256_transform (sha_state ctx) b1 else sha_state ctx) = digest_state H a1"
    proof (cases "used = 0")
      case True
      then show ?thesis using m [symmetric] st by (simp add: a1_def)
    next
      case used: False
      have "used + length (take (64 - used) p) = 64" using used False u by auto
      then have "take 64 b1 = take used (sha_buf ctx) @ take (64 - used) p"
        using take_buf_put [of used "take (64 - used) p" "sha_buf ctx"] used lb by (simp add: b1_def)
      then have "a1 = a @ b1" using used m [symmetric] b1 by (simp add: a1_def)
      then show ?thesis using used st a b1 by (simp add: digest_state_append digest_state_block)
    qed
    have mp: "m @ p = a1 @ p1" by (simp add: a1_def p1_def)
    define q where "q = 64 * (length p1 div 64)"
    have q: "q \<le> length p1" "64 dvd q" by (simp_all add: q_def)
    have lr: "length (drop q p1) < 64" by (simp add: q_def minus_mult_div_eq_mod)
    have up: "sha256_update ctx p
        = ctx\<lparr> sha_count := of_nat (length (m @ p)), sha_state := digest_state (digest_state H a1) p1,
               sha_buf := buf_put b1 0 (drop q p1) \<rparr>"
    proof -
      have "sha256_update ctx p = (case sha_blocks (digest_state H a1) p1 of
          (st2, r) \<Rightarrow> ctx\<lparr> sha_count := sha_count ctx + of_nat (length p), sha_state := st2, sha_buf := buf_put b1 0 r \<rparr>)"
        unfolding sha256_update_def uu Let_def if_not_P [OF False] st1 [symmetric] b1_def p1_def ..
      then show ?thesis by (simp add: sha_blocks_eq cnt q_def)
    qed
    have split: "m @ p = (a1 @ take q p1) @ drop q p1" by (simp add: mp)
    have dv: "64 dvd length (a1 @ take q p1)" using a1 q by simp
    have tk: "take (length (drop q p1)) (buf_put b1 0 (drop q p1)) = drop q p1"
      by (simp add: buf_put_def)
    have "digest_state (digest_state H a1) p1 = digest_state H (a1 @ take q p1)"
    proof -
      have "digest_state H ((a1 @ take q p1) @ drop q p1) = digest_state (digest_state H (a1 @ take q p1)) (drop q p1)"
        by (rule digest_state_append [OF dv])
      moreover have "digest_state (digest_state H (a1 @ take q p1)) (drop q p1) = digest_state H (a1 @ take q p1)"
        using lr by (simp add: digest_state_def chunks64_short)
      ultimately show ?thesis using digest_state_append [OF a1, of H p1] by simp
    qed
    then show ?thesis unfolding up
      using dv lr b1 tk q by (intro sha_tracksI [OF _ _ split]) (simp_all add: H_def)
  qed
qed

lemma buf_put_at: "length y = off \<Longrightarrow> buf_put (y @ z) off bs = y @ bs @ drop (length bs) z"
  by (simp add: buf_put_def)

lemma sha_tracks_final:
  assumes "sha_tracks ctx m"
  shows "sha256_final ctx = sha256_reference m"
proof -
  define used where "used = length m mod 64"
  define H where "H = sha_state sha256_init"
  define E where "E = be_bytes 8 (8 * length m mod 2 ^ 64)"
  obtain a where cnt: "sha_count ctx = of_nat (length m)" and lb: "length (sha_buf ctx) = 64"
    and m: "a @ take used (sha_buf ctx) = m" and a: "64 dvd length a" and st: "sha_state ctx = digest_state H a"
    using assms unfolding sha_tracks_def used_def H_def by blast
  obtain x z where buf: "sha_buf ctx = x @ z" and lx: "length x = used" and lz: "length z = 64 - used"
    using that [of "take used (sha_buf ctx)" "drop used (sha_buf ctx)"] lb by (simp add: used_def min_def)
  have ma: "m = a @ x" using m by (simp add: buf lx)
  have u: "used < 64" by (simp add: used_def)
  have uu: "unat (sha_count ctx mod 64) = used" by (simp add: cnt unat_count_mod used_def)
  have bits: "be_bytes 8 (unat (sha_count ctx * 8)) = E"
  proof -
    have "sha_count ctx * 8 = of_nat (8 * length m)" by (simp add: cnt mult.commute)
    then have "unat (sha_count ctx * 8) = 8 * length m mod 2 ^ 64"
      by (simp only: unat_of_nat) (simp add: take_bit_eq_mod)
    then show ?thesis by (simp add: E_def)
  qed
  have lE: "length E = 8" by (simp add: E_def)
  define b0 where "b0 = x @ 0x80 # drop 1 z"
  have b0: "buf_put (x @ z) used [0x80] = b0"
    by (simp add: b0_def buf_put_at lx)
  define st2 where "st2 = digest_state H (sha_pad m)"
  have ref: "sha256_reference m = concat (map (\<lambda>i. be32 (st2 ! i)) [0..<8])"
    by (simp add: sha256_reference_def st2_def H_def)
  have pad: "sha_pad m = a @ x @ [0x80] @ replicate ((119 - used) mod 64) 0 @ E"
    by (simp add: sha_pad_def ma used_def E_def)
  show ?thesis
  proof (cases "used + 1 > 56")
    case True
    define c where "c = x @ 0x80 # replicate (63 - used) (0::u8)"
    define l where "l = replicate 56 0 @ E"
    have lc: "length c = 64" and ll: "length l = 64"
      using u lx lE by (simp_all add: c_def l_def)
    have "buf_put ((x @ [0x80]) @ drop 1 z) (used + 1) (replicate (64 - (used + 1)) 0) = c"
      using lx lz u by (subst buf_put_at) (simp_all add: c_def)
    then have c: "buf_put b0 (used + 1) (replicate (64 - (used + 1)) 0) = c" by (simp add: b0_def)
    have "buf_put ([] @ c) 0 (replicate (56 - 0) 0) = replicate 56 0 @ drop 56 c"
      by (subst buf_put_at) simp_all
    then have z0: "buf_put c 0 (replicate (56 - 0) 0) = replicate 56 0 @ drop 56 c" by simp
    have l: "buf_put (replicate 56 0 @ drop 56 c) 56 E = l"
      using lc lE by (subst buf_put_at) (simp_all add: l_def)
    have r: "(119 - used) mod 64 = (63 - used) + 56" using True u by simp
    have "sha_pad m = a @ c @ l"
      by (simp add: pad r c_def l_def replicate_add)
    then have "st2 = sha256_transform (sha256_transform (sha_state ctx) c) l"
      using a lc ll by (simp add: st2_def st digest_state_append digest_state_block)
    then show ?thesis
      using True unfolding ref sha256_final_def Let_def uu buf b0 bits
      by (simp only: if_True c z0 l prod.case split: if_splits)
  next
    case False
    define l where "l = x @ 0x80 # replicate (55 - used) 0 @ E"
    have ll: "length l = 64" using False lx lE by (simp add: l_def)
    define b2 where "b2 = (x @ 0x80 # replicate (55 - used) 0) @ drop (Suc (55 - used)) z"
    have "buf_put ((x @ [0x80]) @ drop 1 z) (used + 1) (replicate (56 - (used + 1)) 0) = b2"
      using lx False by (subst buf_put_at) (simp_all add: b2_def)
    then have z0: "buf_put b0 (used + 1) (replicate (56 - (used + 1)) 0) = b2" by (simp add: b0_def)
    have l: "buf_put b2 56 E = l"
      unfolding b2_def using lx lz lE False by (subst buf_put_at) (simp_all add: l_def)
    have r: "(119 - used) mod 64 = 55 - used" using False by (simp add: mod_if)
    have "sha_pad m = a @ l"
      by (simp add: pad r l_def)
    then have "st2 = sha256_transform (sha_state ctx) l"
      using a ll by (simp add: st2_def st digest_state_append digest_state_block)
    then show ?thesis
      using False unfolding ref sha256_final_def Let_def uu buf b0 bits
      by (simp only: if_False z0 l prod.case)
  qed
qed

lemma sha_tracks_fold: "sha_tracks ctx m \<Longrightarrow> sha_tracks (fold (\<lambda>p c. sha256_update c p) ps ctx) (m @ concat ps)"
proof (induction ps arbitrary: ctx m)
  case (Cons p ps)
  then show ?case using Cons.IH [OF sha_tracks_update [OF Cons.prems, of p]] by simp
qed simp

lemma sha256_eq: "sha256 m = sha256_reference m"
  unfolding sha256_def using sha_tracks_final [OF sha_tracks_update [OF sha_tracks_init, of m]] by simp

text \<open>C35: Hashing a message piece by piece, with \<open>sha256_init\<close>, any number of \<open>sha256_update\<close> calls
  of any sizes (empty ones and ones that end inside a block included) and \<open>sha256_final\<close>, gives the
  SHA-256 digest of the concatenated message: the compression function folded over the blocks of the
  padded message, whose last eight bytes are the bit count.\<close>

theorem sha256_any_split:
  "sha256_final (fold (\<lambda>p c. sha256_update c p) ps sha256_init) = sha256_reference (concat ps)"
  using sha_tracks_final [OF sha_tracks_fold [OF sha_tracks_init]] by simp

subsection \<open>HMAC and the key expansion of TLS\<close>

definition hmac_reference :: "u8 list \<Rightarrow> u8 list \<Rightarrow> u8 list" where
  "hmac_reference key m =
     (let k = (if length key > 64 then sha256_reference key else key); k64 = k @ replicate (64 - length k) 0
      in sha256_reference (map (\<lambda>b. b XOR 0x5c) k64 @ sha256_reference (map (\<lambda>b. b XOR 0x36) k64 @ m)))"

lemma length_sha256_reference [simp]: "length (sha256_reference m) = 32"
proof -
  have "length (concat (map (\<lambda>i. be32 (st ! i)) [0..<8])) = 32" for st
    by (simp add: length_concat o_def sum_list_triv)
  then show ?thesis by (simp add: sha256_reference_def Let_def)
qed

lemma hmac_key_eq: "hmac_key key = (let k = (if length key > 64 then sha256_reference key else key) in k @ replicate (64 - length k) 0)"
  by (simp add: hmac_key_def sha256_eq buf_put_def)

lemma hmac_any_split:
  "hmac_sha256_final (fold (\<lambda>d c. hmac_sha256_update c d) ds (hmac_sha256_init key)) = hmac_reference key (concat ds)"
proof -
  define k where "k = hmac_key key"
  have lk: "length k = 64" by (auto simp: k_def hmac_key_eq Let_def)
  have mp: "map (\<lambda>i. k ! i XOR c) [0..<64] = map (\<lambda>b. b XOR c) k" for c
    by (rule nth_equalityI) (simp_all add: lk)
  define c0 where "c0 = hmac_sha256_init key"
  have i0: "sha_tracks (inner c0) (map (\<lambda>b. b XOR 0x36) k)" and o0: "sha_tracks (outer c0) (map (\<lambda>b. b XOR 0x5c) k)"
    using sha_tracks_update [OF sha_tracks_init] by (simp_all add: c0_def hmac_sha256_init_def mp flip: k_def)
  have "sha_tracks (inner (fold (\<lambda>d c. hmac_sha256_update c d) ds c)) (m @ concat ds)
      \<and> outer (fold (\<lambda>d c. hmac_sha256_update c d) ds c) = outer c" if "sha_tracks (inner c) m" for c m
    using that
  proof (induction ds arbitrary: c m)
    case (Cons d ds)
    have "sha_tracks (inner (hmac_sha256_update c d)) (m @ d)"
      using sha_tracks_update [OF Cons.prems] by (simp add: hmac_sha256_update_def)
    from Cons.IH [OF this] show ?case by (simp add: hmac_sha256_update_def)
  qed simp
  note * = this [OF i0]
  have "sha256_final (sha256_update (outer c0) h) = sha256_reference (map (\<lambda>b. b XOR 0x5c) k @ h)" for h
    by (rule sha_tracks_final [OF sha_tracks_update [OF o0]])
  then show ?thesis
    using * sha_tracks_final [OF conjunct1 [OF *]]
    by (simp add: hmac_sha256_final_def hmac_reference_def Let_def k_def hmac_key_eq flip: c0_def)
qed

text \<open>\<open>P_hash\<close> of RFC 5246: \<open>A(i)\<close> and the concatenated outputs.\<close>

primrec prf_a :: "u8 list \<Rightarrow> u8 list \<Rightarrow> nat \<Rightarrow> u8 list" where
  "prf_a secret seed 0 = seed"
| "prf_a secret seed (Suc i) = hmac_reference secret (prf_a secret seed i)"

definition p_hash :: "u8 list \<Rightarrow> u8 list \<Rightarrow> nat \<Rightarrow> u8 list" where
  "p_hash secret seed n = concat (map (\<lambda>i. hmac_reference secret (prf_a secret seed i @ seed)) [1..<Suc n])"

lemma hmac3_eq: "hmac3 key ds = hmac_reference key (concat ds)"
  by (simp add: hmac3_def hmac_any_split)

lemma length_hmac_reference [simp]: "length (hmac_reference key m) = 32"
  by (simp add: hmac_reference_def Let_def)

lemma prf_loop_eq:
  assumes "n \<le> 32 * k"
  shows "prf_loop secret seed (prf_a secret seed (Suc i)) n
    = take n (concat (map (\<lambda>j. hmac_reference secret (prf_a secret seed (Suc i + j) @ seed)) [0..<k]))"
  using assms
proof (induction k arbitrary: i n)
  case 0
  then show ?case by (simp add: prf_loop.simps)
next
  case (Suc k)
  define B where "B = hmac_reference secret (prf_a secret seed (Suc i) @ seed)"
  have lB: "length B = 32" by (simp add: B_def)
  have up: "[0..<Suc k] = 0 # map Suc [0..<k]" by (subst upt_conv_Cons) (simp_all add: map_Suc_upt)
  define R where "R = concat (map (\<lambda>j. hmac_reference secret (prf_a secret seed (Suc (Suc i) + j) @ seed)) [0..<k])"
  have R: "concat (map (\<lambda>j. hmac_reference secret (prf_a secret seed (Suc i + j) @ seed)) [0..<Suc k]) = B @ R"
    unfolding up R_def B_def by (simp add: o_def del: prf_a.simps upt_Suc)
  have "n - min n 32 \<le> 32 * k" using Suc.prems by (cases "n \<le> 32") simp_all
  then have IH: "prf_loop secret seed (prf_a secret seed (Suc (Suc i))) (n - min n 32) = take (n - min n 32) R"
    unfolding R_def by (rule Suc.IH)
  show ?case
  proof (cases "n = 0")
    case False
    have "prf_loop secret seed (prf_a secret seed (Suc i)) n = take n B @ take (n - min n 32) R"
      using False IH by (subst prf_loop.simps) (simp add: hmac3_eq B_def del: prf_a.simps, simp)
    also have "\<dots> = take n (B @ R)" by (simp add: lB min_def)
    finally show ?thesis by (simp only: R)
  qed (simp add: prf_loop.simps)
qed

text \<open>C36: The key expansion of the TLS client, \<open>tls7_prf\<close>, gives exactly the number of bytes asked
  for, and they are the first ones of \<open>P_SHA256(secret, label + seed)\<close> of RFC 5246, where every
  HMAC is the nested hash of the padded key, computed here in pieces through the two contexts.\<close>

theorem tls7_prf_correct:
  "length (tls7_prf secret label seed n) = n
     \<and> tls7_prf secret label seed n = take n (p_hash secret (label @ seed) (n div 32 + 1))"
proof -
  define S where "S = label @ seed"
  define k where "k = n div 32 + 1"
  have nk: "n \<le> 32 * k" unfolding k_def by (simp add: less_mult_imp_div_less dividend_less_times_div less_imp_le)
  have "map (\<lambda>j. hmac_reference secret (prf_a secret S (Suc 0 + j) @ S)) [0..<k]
      = map (\<lambda>i. hmac_reference secret (prf_a secret S i @ S)) (map Suc [0..<k])"
    by (simp del: prf_a.simps upt_Suc)
  then have "prf_loop secret S (prf_a secret S (Suc 0)) n = take n (p_hash secret S k)"
    using prf_loop_eq [OF nk, of secret S 0] by (simp only: p_hash_def map_Suc_upt One_nat_def)
  then have eq: "tls7_prf secret label seed n = take n (p_hash secret S k)"
    by (simp add: tls7_prf_def hmac3_eq S_def)
  have "length (p_hash secret S k) = 32 * k"
    unfolding p_hash_def by (simp add: length_concat o_def sum_list_triv del: upt_Suc)
  with eq nk show ?thesis by (simp add: S_def k_def)
qed

end
