(* ===== verification/KCert.thy ===== *)
theory KCert
  imports KRsa KSha
begin

text \<open>
  Certificates in the TLS client (\<^verbatim>\<open>src/compat/display_wayland.c\<close>): the DER reader, the X.509 fields the
  client uses, the store of authorities, host names and the verification of a chain.
\<close>

subsection \<open>Text\<close>

text \<open>C strings are the bytes before the terminating zero.\<close>

definition c7_ascii_tolower :: "u8 \<Rightarrow> u8" where
  "c7_ascii_tolower ch = (if 65 \<le> ch \<and> ch \<le> 90 then ch - 65 + 97 else ch)"

fun c7_strcasecmp :: "u8 list \<Rightarrow> u8 list \<Rightarrow> int" where
  "c7_strcasecmp (a # as) (b # bs) =
     (if c7_ascii_tolower a \<noteq> c7_ascii_tolower b then uint (c7_ascii_tolower a) - uint (c7_ascii_tolower b)
      else c7_strcasecmp as bs)"
| "c7_strcasecmp [] (b # bs) = - uint (c7_ascii_tolower b)"
| "c7_strcasecmp (a # as) [] = uint (c7_ascii_tolower a)"
| "c7_strcasecmp [] [] = 0"

text \<open>The bytes of a fixed field that \<open>c7_strnlen_u8\<close> counts.\<close>

definition c7_strn_u8 :: "u8 list \<Rightarrow> nat \<Rightarrow> u8 list" where
  "c7_strn_u8 s maxn = takeWhile (\<lambda>b. b \<noteq> 0) (take maxn s)"

definition tls7_field_equals :: "u8 list \<Rightarrow> u8 list \<Rightarrow> bool" where
  "tls7_field_equals a b \<longleftrightarrow> c7_strcasecmp (take 127 a) (take 127 b) = 0"

subsection \<open>DER\<close>

definition c7_asn1_read_len :: "u8 list \<Rightarrow> (nat \<times> nat) option" where
  "c7_asn1_read_len p =
     (case p of
        [] \<Rightarrow> None
      | b # _ \<Rightarrow>
          if b AND 0x80 = 0 then Some (unat b, 1)
          else (let n = unat (b AND 0x7F)
                in if n = 0 \<or> n > 4 \<or> length p < 1 + n then None
                   else Some (of_be (take n (drop 1 p)), 1 + n)))"

text \<open>The value and the number of bytes consumed.\<close>

definition c7_asn1_read_tlv :: "u8 list \<Rightarrow> u8 \<Rightarrow> (u8 list \<times> nat) option" where
  "c7_asn1_read_tlv p tag =
     (if length p < 2 \<or> p ! 0 \<noteq> tag then None
      else (case c7_asn1_read_len (drop 1 p) of
          None \<Rightarrow> None
        | Some (len, len_len) \<Rightarrow>
            (let sz = 1 + len_len + len
             in if sz > length p then None else Some (take len (drop (1 + len_len) p), sz))))"

definition c7_find_oid :: "u8 list \<Rightarrow> u8 list \<Rightarrow> nat option" where
  "c7_find_oid p oid =
     (if oid = [] \<or> length p < length oid then None
      else find (\<lambda>i. take (length oid) (drop i p) = oid) [0..<length p - length oid + 1])"

subsection \<open>Public keys\<close>

definition rsa_oid :: "u8 list" where
  "rsa_oid = [0x2A, 0x86, 0x48, 0x86, 0xF7, 0x0D, 0x01, 0x01, 0x01]"

text \<open>\<open>while (l > 1 && v[0] == 0) { ++v; --l; }\<close>\<close>

fun skip_zeros :: "u8 list \<Rightarrow> u8 list" where
  "skip_zeros (a # b # r) = (if a = 0 then skip_zeros (b # r) else a # b # r)"
| "skip_zeros r = r"

text \<open>One turn of the search loop: \<open>None\<close> is \<open>continue\<close>.\<close>

definition rsa_key_at :: "u8 list \<Rightarrow> nat \<Rightarrow> u8 list option" where
  "rsa_key_at der i =
     (if der ! i \<noteq> 0x03 then None
      else (case c7_asn1_read_tlv (drop i der) 0x03 of None \<Rightarrow> None | Some (bit_v, _) \<Rightarrow>
        if length bit_v < 2 \<or> bit_v ! 0 \<noteq> 0x00 then None
        else (case c7_asn1_read_tlv (drop 1 bit_v) 0x30 of None \<Rightarrow> None | Some (rsa_v, _) \<Rightarrow>
          (case c7_asn1_read_tlv rsa_v 0x02 of None \<Rightarrow> None | Some (mod0, mc) \<Rightarrow>
            (case c7_asn1_read_tlv (drop mc rsa_v) 0x02 of None \<Rightarrow> None | Some (exp0, _) \<Rightarrow>
              (let mod_v = skip_zeros mod0; exp_v = skip_zeros exp0
               in if mod_v = [] \<or> length mod_v > TLS7_RSA_MAX_BYTES \<or> exp_v = [] \<or> length exp_v > 8 then None
                  else if 4 + length mod_v + length exp_v > 512 then None
                  else Some (be16 (of_nat (length mod_v)) @ be16 (of_nat (length exp_v)) @ mod_v @ exp_v)))))))"

fun first_key :: "u8 list \<Rightarrow> nat list \<Rightarrow> u8 list option" where
  "first_key der [] = None"
| "first_key der (i # is) = (case rsa_key_at der i of None \<Rightarrow> first_key der is | Some k \<Rightarrow> Some k)"

definition c7_extract_rsa_pubkey_blob :: "u8 list \<Rightarrow> u8 list option" where
  "c7_extract_rsa_pubkey_blob der =
     (case c7_find_oid der rsa_oid of
        None \<Rightarrow> None
      | Some oid_pos \<Rightarrow> first_key der [oid_pos + length rsa_oid..<length der - 4])"

subsection \<open>Certificates\<close>

record x509_cert =
  issuer :: "u8 list"
  subject :: "u8 list"
  pubkey_type :: nat
  pubkey_data :: "u8 list"
  sig_type :: nat
  sig_data :: "u8 list"
  tbs_hash :: "u8 list"
  cert_valid :: bool

definition empty_cert :: x509_cert where
  "empty_cert = \<lparr> issuer = replicate 128 0, subject = replicate 128 0, pubkey_type = 0, pubkey_data = [],
     sig_type = 0, sig_data = [], tbs_hash = replicate 32 0, cert_valid = False \<rparr>"

text \<open>A common name copied into a cleared field of 128 bytes.\<close>

definition name_field :: "u8 list \<Rightarrow> u8 list" where
  "name_field bs = take 127 bs @ replicate (128 - length (take 127 bs)) 0"

text \<open>The scan for common names (OID 2.5.4.3): the first is the issuer's, the second the subject's.\<close>

function scan_names :: "u8 list \<Rightarrow> nat \<Rightarrow> nat \<Rightarrow> x509_cert \<Rightarrow> x509_cert" where
  "scan_names tbs i seen c =
     (if i + 5 < length tbs
      then if tbs ! i \<noteq> 0x55 \<or> tbs ! (i + 1) \<noteq> 0x04 \<or> tbs ! (i + 2) \<noteq> 0x03 then scan_names tbs (i + 1) seen c
           else if i + 3 + 1 \<ge> length tbs then c
           else if tbs ! (i + 3) \<noteq> 0x0C \<and> tbs ! (i + 3) \<noteq> 0x13 \<and> tbs ! (i + 3) \<noteq> 0x16
           then scan_names tbs (i + 4) seen c
           else (let slen = unat (tbs ! (i + 4))
                 in if i + 5 + slen > length tbs then c
                    else (let f = name_field (take slen (drop (i + 5) tbs));
                              c' = (if seen = 0 then c\<lparr> issuer := f \<rparr>
                                    else if seen = 1 then c\<lparr> subject := f \<rparr> else c)
                          in if seen + 1 \<ge> 2 then c' else scan_names tbs (i + 6) (seen + 1) c'))
      else c)"
  by pat_completeness auto
termination by (relation "measure (\<lambda>(tbs, i, seen, c). length tbs - i)") auto

declare scan_names.simps [simp del]

definition sig_oid_sha256_rsa :: "u8 list" where
  "sig_oid_sha256_rsa = [0x2A, 0x86, 0x48, 0x86, 0xF7, 0x0D, 0x01, 0x01, 0x0B]"

text \<open>The result code and the certificate left in the output.\<close>

definition x509_parse_der :: "u8 list \<Rightarrow> int \<times> x509_cert" where
  "x509_parse_der der =
     (if length der < 16 then (- 1, empty_cert)
      else (case c7_asn1_read_tlv der 0x30 of None \<Rightarrow> (- 1, empty_cert) | Some (cert_v, _) \<Rightarrow>
        (case c7_asn1_read_tlv cert_v 0x30 of None \<Rightarrow> (- 1, empty_cert) | Some (tbs_v, tbs_c) \<Rightarrow>
          (let c0 = empty_cert\<lparr> tbs_hash := sha256 (take tbs_c cert_v) \<rparr>
           in case c7_asn1_read_tlv (drop tbs_c cert_v) 0x30 of None \<Rightarrow> (- 1, c0) | Some (sigalg_v, sigalg_c) \<Rightarrow>
             (case c7_asn1_read_tlv (drop (tbs_c + sigalg_c) cert_v) 0x03 of None \<Rightarrow> (- 1, c0) | Some (sigbit_v, _) \<Rightarrow>
               if length sigbit_v < 1 \<or> sigbit_v ! 0 \<noteq> 0x00 then (- 1, c0)
               else (let c1 = c0\<lparr> sig_data := take 512 (drop 1 sigbit_v),
                           sig_type := (if c7_find_oid sigalg_v sig_oid_sha256_rsa \<noteq> None then 1 else 0) \<rparr>;
                         c2 = scan_names tbs_v 0 0 c1;
                         c3 = (if subject c2 ! 0 = 0 \<and> issuer c2 ! 0 \<noteq> 0 then c2\<lparr> subject := issuer c2 \<rparr> else c2)
                     in case c7_extract_rsa_pubkey_blob tbs_v of
                          None \<Rightarrow> (- 1, c3)
                        | Some key \<Rightarrow>
                            (let c4 = c3\<lparr> pubkey_data := key, pubkey_type := 0, cert_valid := sig_type c3 = 1 \<rparr>
                             in (if cert_valid c4 then 0 else - 1, c4))))))))"

subsection \<open>Authorities and chains\<close>

definition TLS7_MAX_CA :: nat where "TLS7_MAX_CA = 8"

record ca7_entry =
  ca_subject :: "u8 list"
  ca_pubkey_data :: "u8 list"
  ca_pubkey_type :: nat
  ca_trusted :: bool

definition ca7_load :: "ca7_entry list \<Rightarrow> u8 list \<Rightarrow> ca7_entry list \<times> int" where
  "ca7_load store der =
     (if length store \<ge> TLS7_MAX_CA then (store, - 1)
      else (case x509_parse_der der of
          (rc, cert) \<Rightarrow>
            if rc < 0 \<or> \<not> cert_valid cert \<or> pubkey_type cert \<noteq> 0 \<or> pubkey_data cert = [] then (store, - 1)
            else (store @ [\<lparr> ca_subject = subject cert, ca_pubkey_data = pubkey_data cert,
                             ca_pubkey_type = pubkey_type cert, ca_trusted = True \<rparr>], 0)))"

definition c7_verify_cert_signature_with_key :: "x509_cert \<Rightarrow> u8 list \<Rightarrow> bool option" where
  "c7_verify_cert_signature_with_key cert key =
     (if sig_type cert \<noteq> 1 \<or> sig_data cert = [] then Some False
      else c7_pkcs1_verify_sha256 (sig_data cert) (tbs_hash cert) key)"

definition name_of :: "u8 list \<Rightarrow> u8 list" where "name_of f = c7_strn_u8 f 128"

text \<open>Every certificate but the last is signed by the next one.\<close>

fun check_links :: "x509_cert list \<Rightarrow> bool option" where
  "check_links (c # d # cs) =
     (if name_of (issuer c) = [] \<or> name_of (subject d) = [] then Some False
      else if \<not> tls7_field_equals (name_of (issuer c)) (name_of (subject d)) then Some False
      else Option.bind (c7_verify_cert_signature_with_key c (pubkey_data d)) (\<lambda>ok.
             if \<not> ok then Some False else check_links (d # cs)))"
| "check_links _ = Some True"

text \<open>The last one is signed by a trusted authority, found by the name of the issuer or of the subject.\<close>

fun check_anchor :: "x509_cert \<Rightarrow> ca7_entry list \<Rightarrow> bool option" where
  "check_anchor c [] = Some False"
| "check_anchor c (a # as) =
     (if \<not> ca_trusted a \<or> ca_pubkey_type a \<noteq> 0 \<or> ca_pubkey_data a = [] \<or> name_of (ca_subject a) = []
      then check_anchor c as
      else Option.bind
        (if name_of (issuer c) \<noteq> [] \<and> tls7_field_equals (name_of (issuer c)) (name_of (ca_subject a))
         then c7_verify_cert_signature_with_key c (ca_pubkey_data a) else Some False) (\<lambda>ok1.
           if ok1 then Some True
           else Option.bind
             (if name_of (subject c) \<noteq> [] \<and> tls7_field_equals (name_of (subject c)) (name_of (ca_subject a))
              then c7_verify_cert_signature_with_key c (ca_pubkey_data a) else Some False) (\<lambda>ok2.
                if ok2 then Some True else check_anchor c as)))"

definition ca7_verify_cert_chain :: "ca7_entry list \<Rightarrow> x509_cert list \<Rightarrow> bool option" where
  "ca7_verify_cert_chain store chain =
     (if chain = [] \<or> store = [] then Some False
      else if \<exists>c \<in> set chain. \<not> cert_valid c \<or> pubkey_type c \<noteq> 0 \<or> pubkey_data c = [] then Some False
      else Option.bind (check_links chain) (\<lambda>ok.
             if \<not> ok then Some False else check_anchor (last chain) store))"

subsection \<open>Host names\<close>

definition tls7_hostname_match :: "x509_cert \<Rightarrow> u8 list \<Rightarrow> bool" where
  "tls7_hostname_match cert hostname =
     (if hostname = [] then False
      else (let slen = length (name_of (subject cert))
            in if slen = 0 then False
               else (let subj_s = take 127 (name_of (subject cert)); host_s = take 127 hostname
                     in if c7_strcasecmp subj_s host_s = 0 then True
                        else if length subj_s \<ge> 2 \<and> subj_s ! 0 = 42 \<and> subj_s ! 1 = 46
                        then (let dot = dropWhile (\<lambda>c. c \<noteq> 46) host_s
                              in length dot \<ge> 2 \<and> c7_strcasecmp (drop 1 subj_s) dot = 0)
                        else False)))"

subsection \<open>The reader stays inside its input\<close>

lemma read_len_bounds: "c7_asn1_read_len p = Some (n, k) \<Longrightarrow> 1 \<le> k \<and> k \<le> 5 \<and> k \<le> length p"
  by (auto simp: c7_asn1_read_len_def Let_def split: list.splits if_splits)

lemma read_tlv_bounds:
  assumes "c7_asn1_read_tlv p tag = Some (v, c)"
  shows "c \<le> length p \<and> length v + 2 \<le> c \<and> v = drop (c - length v) (take c p) \<and> p ! 0 = tag"
proof -
  obtain n k where r: "c7_asn1_read_len (drop 1 p) = Some (n, k)" and c: "c = 1 + k + n" "c \<le> length p"
    and v: "v = take n (drop (1 + k) p)" and t: "p ! 0 = tag"
    using assms by (auto simp: c7_asn1_read_tlv_def Let_def split: if_splits option.splits)
  have k: "1 \<le> k" using read_len_bounds [OF r] by simp
  have lv: "length v = n" using c by (simp add: v)
  have "v = drop (1 + k) (take c p)" unfolding v c(1) by (simp add: drop_take)
  with c k lv t show ?thesis by simp
qed

text \<open>The blob built from a certificate is one that \<open>c7_pubkey_unpack_rsa\<close> takes apart again.\<close>

lemma skip_zeros_nonempty: "skip_zeros v = [] \<longleftrightarrow> v = []"
  by (induction v rule: skip_zeros.induct) auto

lemma of_be_skip_zeros: "of_be (skip_zeros v) = of_be v"
  by (induction v rule: skip_zeros.induct) (auto simp: of_be_Cons)

lemma rsa_key_at_unpack:
  assumes "rsa_key_at der i = Some blob"
  shows "\<exists>n e. c7_pubkey_unpack_rsa blob = Some (n, e) \<and> 4 + length n + length e \<le> 512"
proof -
  obtain n e where b: "blob = be16 (of_nat (length n)) @ be16 (of_nat (length e)) @ n @ e"
    and l: "n \<noteq> []" "e \<noteq> []" "length n \<le> TLS7_RSA_MAX_BYTES" "length e \<le> 8" "4 + length n + length e \<le> 512"
    using assms by (auto simp: rsa_key_at_def Let_def not_less split: if_splits option.splits)
  have be: "\<exists>a b. be16 (of_nat k) = [a, b] \<and> of_be [a, b] = k" if "k \<le> 512" for k
  proof -
    have "length (be16 (of_nat k)) = 2" by simp
    then obtain a b where ab: "be16 (of_nat k) = [a, b]" by (metis (no_types) length_0_conv length_Suc_conv numeral_2_eq_2)
    have "unat (of_nat k :: u16) = k" using that by (simp add: unat_of_nat)
    then have "of_be (be16 (of_nat k)) = k" using that by (simp add: be16_def)
    with ab show ?thesis by auto
  qed
  obtain a1 b1 a2 b2 where "be16 (of_nat (length n)) = [a1, b1]" "of_be [a1, b1] = length n"
    "be16 (of_nat (length e)) = [a2, b2]" "of_be [a2, b2] = length e"
    using be [of "length n"] be [of "length e"] l by auto
  then show ?thesis
    using pubkey_unpack_blob [of a1 b1 n a2 b2 e] l by (auto simp: b)
qed

lemma first_key_SomeD: "first_key der is = Some k \<Longrightarrow> \<exists>i\<in>set is. rsa_key_at der i = Some k"
  by (induction der "is" rule: first_key.induct) (auto split: option.splits)

lemma extract_unpack:
  "c7_extract_rsa_pubkey_blob der = Some blob
    \<Longrightarrow> \<exists>n e. c7_pubkey_unpack_rsa blob = Some (n, e) \<and> 4 + length n + length e \<le> 512"
  by (auto simp: c7_extract_rsa_pubkey_blob_def dest!: first_key_SomeD rsa_key_at_unpack split: option.splits)

lemma scan_names_keeps:
  "tbs_hash (scan_names tbs i k c) = tbs_hash c \<and> sig_data (scan_names tbs i k c) = sig_data c
   \<and> sig_type (scan_names tbs i k c) = sig_type c"
proof (induction tbs i k c rule: scan_names.induct)
  case (1 tbs i seen c)
  show ?case by (subst (1 2 3) scan_names.simps) (use 1 in \<open>auto simp: Let_def\<close>)
qed

text \<open>What a certificate that parses holds: the digest of its signed part, a usable key, a signature.\<close>

lemma x509_parse_der_ok:
  assumes "x509_parse_der der = (0, c)"
  shows "length (tbs_hash c) = 32 \<and> cert_valid c \<and> sig_type c = 1 \<and> pubkey_type c = 0 \<and> length (sig_data c) \<le> 512
    \<and> (\<exists>n e. c7_pubkey_unpack_rsa (pubkey_data c) = Some (n, e))
    \<and> (\<exists>cert_v k tbs_v tbs_c. c7_asn1_read_tlv der 0x30 = Some (cert_v, k) \<and> c7_asn1_read_tlv cert_v 0x30 = Some (tbs_v, tbs_c)
        \<and> tbs_hash c = sha256_reference (take tbs_c cert_v))"
  using assms
  by (auto simp: x509_parse_der_def Let_def scan_names_keeps sha256_eq dest!: extract_unpack
      split: if_splits option.splits)

subsection \<open>Names\<close>

lemma tolower_zero: "c7_ascii_tolower c = 0 \<longleftrightarrow> c = 0"
proof
  assume "c7_ascii_tolower c = 0"
  moreover have "c - 65 + 97 \<noteq> 0" if "65 \<le> c" "c \<le> 90"
  proof -
    have "65 \<le> unat c" "unat c \<le> 90" using that by (simp_all add: word_le_nat_alt)
    then have "unat (c - 65 + 97) = unat c - 65 + 97"
      using that by (simp add: unat_word_ariths unat_sub)
    then show ?thesis by (metis add_eq_0_iff_both_eq_0 unat_0 zero_neq_numeral)
  qed
  ultimately show "c = 0" by (auto simp: c7_ascii_tolower_def split: if_splits)
qed (simp add: c7_ascii_tolower_def)

lemma strcasecmp_zero:
  "0 \<notin> set a \<Longrightarrow> 0 \<notin> set b \<Longrightarrow> c7_strcasecmp a b = 0 \<longleftrightarrow> map c7_ascii_tolower a = map c7_ascii_tolower b"
  by (induction a b rule: c7_strcasecmp.induct) (auto simp: tolower_zero uint_0_iff simp flip: word_uint_eq_iff)

lemma name_no_zero: "0 \<notin> set (take n (name_of f))"
  by (auto simp: name_of_def c7_strn_u8_def dest!: in_set_takeD set_takeWhileD)

definition same_name :: "u8 list \<Rightarrow> u8 list \<Rightarrow> bool" where
  "same_name a b \<longleftrightarrow> map c7_ascii_tolower (take 127 (name_of a)) = map c7_ascii_tolower (take 127 (name_of b))"

lemma field_equals: "tls7_field_equals (name_of a) (name_of b) \<longleftrightarrow> same_name a b"
  by (simp add: tls7_field_equals_def same_name_def strcasecmp_zero name_no_zero)

subsection \<open>What an accepted chain shows\<close>

lemma ex_False [simp]: "\<exists>b. \<not> b" "\<exists>b. \<not> b \<and> (b \<longrightarrow> P)"
  by blast+

definition cert_signed_by :: "x509_cert \<Rightarrow> u8 list \<Rightarrow> bool" where
  "cert_signed_by c key \<longleftrightarrow>
     (\<exists>n e k rest. c7_pubkey_unpack_rsa key = Some (n, e) \<and> 1 < of_be n \<and> of_be (sig_data c) < of_be n \<and> 8 \<le> k
        \<and> length (pkcs1_encoding k (tbs_hash c) rest) = length n
        \<and> of_be (sig_data c) ^ of_be e mod of_be n = of_be (pkcs1_encoding k (tbs_hash c) rest))"

lemma encoding_large: "256 \<le> of_be (pkcs1_encoding k hash rest)"
proof -
  define xs where "xs = replicate k 0xFF @ [0x00] @ di_prefix @ hash @ rest"
  have "1 \<le> length xs" by (simp add: xs_def)
  then have "(256::nat) ^ 1 \<le> 256 ^ length xs" by (rule power_increasing) simp
  also have "\<dots> \<le> of_be (0 # 1 # xs)" by (simp add: of_be_Cons)
  finally show ?thesis by (simp add: pkcs1_encoding_def xs_def)
qed

lemma verify_zero_modulus:
  assumes key: "c7_pubkey_unpack_rsa key = Some (n, e)" "of_be n = 0" and sig: "length sig \<le> length n"
  shows "c7_pkcs1_verify_sha256 sig hash key = Some False"
proof -
  note u = unpack_SomeD [OF key(1)]
  obtain bn where bn: "c7_bn_from_be n = Some bn" using from_be_Some u by blast
  obtain be where be: "c7_bn_from_be e = Some be" using from_be_Some [of e] u by (auto simp: TLS7_RSA_MAX_BYTES_def)
  obtain bm where bm: "c7_bn_from_be (replicate (length n - length sig) 0 @ sig) = Some bm"
    using from_be_Some [of "replicate (length n - length sig) 0 @ sig"] u sig by fastforce
  have "c7_bn_cmp bm bn \<ge> 0"
    using from_be_SomeD [OF bn] from_be_SomeD [OF bm] key(2) by (simp add: bn_is_def cmp_spec)
  then have "c7_rsa_public_op sig key TLS7_RSA_MAX_BYTES = Some None"
    using u sig by (simp add: c7_rsa_public_op_def key(1) bn be bm)
  then show ?thesis using u sig by (simp add: c7_pkcs1_verify_sha256_def key(1))
qed

lemma verify_total_sound:
  assumes "length (tbs_hash c) = 32"
  shows "\<exists>b. c7_verify_cert_signature_with_key c key = Some b \<and> (b \<longrightarrow> cert_signed_by c key)"
proof (cases "sig_type c \<noteq> 1 \<or> sig_data c = []")
  case True
  then show ?thesis by (simp add: c7_verify_cert_signature_with_key_def)
next
  case False
  then have v: "c7_verify_cert_signature_with_key c key = c7_pkcs1_verify_sha256 (sig_data c) (tbs_hash c) key"
    by (simp add: c7_verify_cert_signature_with_key_def)
  show ?thesis
  proof (cases "c7_pubkey_unpack_rsa key")
    case None
    then show ?thesis by (simp add: v c7_pkcs1_verify_sha256_def)
  next
    case (Some p)
    obtain n e where k: "c7_pubkey_unpack_rsa key = Some (n, e)" using Some by (cases p) auto
    show ?thesis
    proof (cases "length (sig_data c) \<le> length n")
      case False
      then show ?thesis by (simp add: v c7_pkcs1_verify_sha256_def k)
    next
      case l: True
      show ?thesis
      proof (cases "of_be n = 0")
        case True
        then show ?thesis using verify_zero_modulus [OF k _ l] by (simp add: v)
      next
        case False
        then have "0 < of_be n" by simp
        from pkcs1_verify_is [OF k this l assms] obtain b where
          b: "c7_pkcs1_verify_sha256 (sig_data c) (tbs_hash c) key = Some b"
          "b \<Longrightarrow> of_be (sig_data c) < of_be n \<and> (\<exists>k rest. 8 \<le> k \<and> length (pkcs1_encoding k (tbs_hash c) rest) = length n
             \<and> bn_pow (of_be (sig_data c)) (of_be e) (of_be n) = of_be (pkcs1_encoding k (tbs_hash c) rest))"
          by metis
        have "cert_signed_by c key" if b1: b
        proof -
          from b(2) [OF b1] obtain j rest where j: "of_be (sig_data c) < of_be n" "8 \<le> j"
            "length (pkcs1_encoding j (tbs_hash c) rest) = length n"
            "bn_pow (of_be (sig_data c)) (of_be e) (of_be n) = of_be (pkcs1_encoding j (tbs_hash c) rest)" by blast
          have "bn_pow (of_be (sig_data c)) (of_be e) (of_be n) \<noteq> 0" "bn_pow (of_be (sig_data c)) (of_be e) (of_be n) \<noteq> 1"
            using encoding_large [of j "tbs_hash c" rest] unfolding j(4) by linarith+
          then have "1 < of_be n" using \<open>0 < of_be n\<close> by (cases "of_be n = 1") (auto simp: bn_pow_def split: if_splits)
          with j k show ?thesis unfolding cert_signed_by_def bn_pow_eq [OF \<open>1 < of_be n\<close>] by blast
        qed
        with b(1) show ?thesis by (simp add: v)
      qed
    qed
  qed
qed

lemma check_links_sound:
  "\<forall>c\<in>set cs. length (tbs_hash c) = 32 \<Longrightarrow>
   \<exists>b. check_links cs = Some b \<and> (b \<longrightarrow> (\<forall>i. Suc i < length cs \<longrightarrow>
      cert_signed_by (cs ! i) (pubkey_data (cs ! Suc i)) \<and> same_name (issuer (cs ! i)) (subject (cs ! Suc i))))"
proof (induction cs rule: check_links.induct)
  case (1 c d cs)
  show ?case
  proof (cases "name_of (issuer c) = [] \<or> name_of (subject d) = [] \<or> \<not> tls7_field_equals (name_of (issuer c)) (name_of (subject d))")
    case True
    then show ?thesis by auto
  next
    case False
    then have sn: "same_name (issuer c) (subject d)" by (simp add: field_equals)
    obtain b where b: "c7_verify_cert_signature_with_key c (pubkey_data d) = Some b" "b \<Longrightarrow> cert_signed_by c (pubkey_data d)"
      using verify_total_sound [of c "pubkey_data d"] "1.prems" by auto
    show ?thesis
    proof (cases b)
      case True
      have bT: "c7_verify_cert_signature_with_key c (pubkey_data d) = Some True" using b(1) True by simp
      have "\<exists>b. check_links (d # cs) = Some b \<and> (b \<longrightarrow> (\<forall>i. Suc i < length (d # cs) \<longrightarrow>
          cert_signed_by ((d # cs) ! i) (pubkey_data ((d # cs) ! Suc i)) \<and> same_name (issuer ((d # cs) ! i)) (subject ((d # cs) ! Suc i))))"
        using False bT "1.prems" by (intro "1.IH") auto
      then obtain b' where b': "check_links (d # cs) = Some b'" "b' \<Longrightarrow> \<forall>i. Suc i < length (d # cs) \<longrightarrow>
          cert_signed_by ((d # cs) ! i) (pubkey_data ((d # cs) ! Suc i)) \<and> same_name (issuer ((d # cs) ! i)) (subject ((d # cs) ! Suc i))"
        by blast
      have "check_links (c # d # cs) = Some b'" using False bT b'(1) by simp
      moreover have "b' \<longrightarrow> (\<forall>i. Suc i < length (c # d # cs) \<longrightarrow>
          cert_signed_by ((c # d # cs) ! i) (pubkey_data ((c # d # cs) ! Suc i))
          \<and> same_name (issuer ((c # d # cs) ! i)) (subject ((c # d # cs) ! Suc i)))"
      proof (intro impI allI)
        fix i assume "b'" "Suc i < length (c # d # cs)"
        then show "cert_signed_by ((c # d # cs) ! i) (pubkey_data ((c # d # cs) ! Suc i))
          \<and> same_name (issuer ((c # d # cs) ! i)) (subject ((c # d # cs) ! Suc i))"
          using b(2) [OF True] sn b'(2) by (cases i) auto
      qed
      ultimately show ?thesis by blast
    next
      case nb: False
      then have "c7_verify_cert_signature_with_key c (pubkey_data d) = Some False" using b(1) by simp
      then have "check_links (c # d # cs) = Some False" using False by simp
      then show ?thesis by blast
    qed
  qed
qed auto

lemma check_anchor_sound:
  assumes "length (tbs_hash c) = 32"
  shows "\<exists>b. check_anchor c as = Some b \<and> (b \<longrightarrow> (\<exists>a\<in>set as. ca_trusted a \<and> cert_signed_by c (ca_pubkey_data a)
      \<and> (same_name (issuer c) (ca_subject a) \<or> same_name (subject c) (ca_subject a))))"
proof (induction "as")
  case (Cons a "as")
  obtain b where b: "c7_verify_cert_signature_with_key c (ca_pubkey_data a) = Some b" "b \<Longrightarrow> cert_signed_by c (ca_pubkey_data a)"
    using verify_total_sound [OF assms, of "ca_pubkey_data a"] by auto
  show ?case
    using Cons b by (cases b) (auto simp: field_equals)
qed simp

text \<open>C37: The verification of a certificate chain always returns, and when it accepts a chain, every
  certificate but the last carries a signature that is right under the RSA key of the next one, whose
  subject it names as its issuer, and the last one is signed by a trusted authority of the store with
  its issuer's or its own name.  (A right signature is a number below the modulus whose power by the
  public exponent is the PKCS 1 block of the SHA-256 digest of the certificate's signed part.)\<close>

theorem ca7_verify_cert_chain_sound:
  assumes "\<forall>c\<in>set chain. length (tbs_hash c) = 32"
  shows "\<exists>accepted. ca7_verify_cert_chain store chain = Some accepted
    \<and> (accepted \<longrightarrow> chain \<noteq> []
        \<and> (\<forall>i. Suc i < length chain \<longrightarrow> cert_signed_by (chain ! i) (pubkey_data (chain ! Suc i))
              \<and> same_name (issuer (chain ! i)) (subject (chain ! Suc i)))
        \<and> (\<exists>a\<in>set store. ca_trusted a \<and> cert_signed_by (last chain) (ca_pubkey_data a)
              \<and> (same_name (issuer (last chain)) (ca_subject a) \<or> same_name (subject (last chain)) (ca_subject a))))"
proof (cases "chain = [] \<or> store = [] \<or> (\<exists>c \<in> set chain. \<not> cert_valid c \<or> pubkey_type c \<noteq> 0 \<or> pubkey_data c = [])")
  case True
  then show ?thesis by (auto simp: ca7_verify_cert_chain_def)
next
  case False
  obtain b where b: "check_links chain = Some b"
    "b \<Longrightarrow> \<forall>i. Suc i < length chain \<longrightarrow> cert_signed_by (chain ! i) (pubkey_data (chain ! Suc i))
              \<and> same_name (issuer (chain ! i)) (subject (chain ! Suc i))"
    using check_links_sound [OF assms] by blast
  have "length (tbs_hash (last chain)) = 32" using assms False by simp
  from check_anchor_sound [OF this, of store] obtain b' where b': "check_anchor (last chain) store = Some b'"
    "b' \<Longrightarrow> \<exists>a\<in>set store. ca_trusted a \<and> cert_signed_by (last chain) (ca_pubkey_data a)
      \<and> (same_name (issuer (last chain)) (ca_subject a) \<or> same_name (subject (last chain)) (ca_subject a))"
    by blast
  have "ca7_verify_cert_chain store chain = Some (b \<and> b')"
    using False b(1) b'(1) by (simp add: ca7_verify_cert_chain_def)
  with b(2) b'(2) False show ?thesis by blast
qed

text \<open>A self-signed toy certificate and the authority that trusts it.\<close>

definition toy_cert :: x509_cert where
  "toy_cert = \<lparr> issuer = name_field [65], subject = name_field [97], pubkey_type = 0, pubkey_data = toy_key,
     sig_type = 1, sig_data = pkcs1_encoding 8 (replicate 32 7) [], tbs_hash = replicate 32 7, cert_valid = True \<rparr>"

definition toy_store :: "ca7_entry list" where
  "toy_store = [\<lparr> ca_subject = name_field [65], ca_pubkey_data = toy_key, ca_pubkey_type = 0, ca_trusted = True \<rparr>]"

theorem ca7_verify_cert_chain_sound_witness:
  "ca7_verify_cert_chain toy_store [toy_cert, toy_cert] = Some True \<and> cert_signed_by toy_cert toy_key"
proof -
  have sig: "c7_verify_cert_signature_with_key toy_cert toy_key = Some True"
    using toy_signature [of "replicate 32 7" 8 "[]"]
    by (simp add: c7_verify_cert_signature_with_key_def toy_cert_def pkcs1_encoding_def di_prefix_def)
  have n: "name_of (name_field [65]) = [65]" "name_of (name_field [97]) = [97]"
    by (simp_all add: name_of_def name_field_def c7_strn_u8_def)
  have links: "check_links [toy_cert, toy_cert] = Some True"
    using sig n by (simp add: toy_cert_def tls7_field_equals_def c7_ascii_tolower_def)
  have anchor: "check_anchor toy_cert toy_store = Some True"
    using sig n by (simp add: toy_cert_def toy_store_def toy_key_def tls7_field_equals_def c7_ascii_tolower_def)
  have acc: "ca7_verify_cert_chain toy_store [toy_cert, toy_cert] = Some True"
    using links anchor by (simp add: ca7_verify_cert_chain_def toy_store_def toy_cert_def toy_key_def)
  have "\<forall>c\<in>set [toy_cert, toy_cert]. length (tbs_hash c) = 32" by (simp add: toy_cert_def)
  from ca7_verify_cert_chain_sound [OF this, of toy_store] acc
  have "\<forall>i. Suc i < length [toy_cert, toy_cert] \<longrightarrow>
      cert_signed_by ([toy_cert, toy_cert] ! i) (pubkey_data ([toy_cert, toy_cert] ! Suc i))"
    by (metis option.inject)
  then have "cert_signed_by ([toy_cert, toy_cert] ! 0) (pubkey_data ([toy_cert, toy_cert] ! Suc 0))"
    by (rule allE [of _ 0]) simp
  then have "cert_signed_by toy_cert toy_key" by (simp add: toy_cert_def)
  with acc show ?thesis by blast
qed

subsection \<open>Host names\<close>

lemma dropWhile_dot:
  "dropWhile (\<lambda>c. c \<noteq> 46) h = 46 # r \<longleftrightarrow> (\<exists>l. h = l @ 46 # r \<and> 46 \<notin> set l)" for h :: "u8 list"
proof
  assume "dropWhile (\<lambda>c. c \<noteq> 46) h = 46 # r"
  then have "h = takeWhile (\<lambda>c. c \<noteq> 46) h @ 46 # r" by (simp only: dropWhile_eq_Cons_conv)
  moreover have "46 \<notin> set (takeWhile (\<lambda>c. c \<noteq> 46) h)" by (auto dest: set_takeWhileD)
  ultimately show "\<exists>l. h = l @ 46 # r \<and> 46 \<notin> set l" by blast
next
  assume "\<exists>l. h = l @ 46 # r \<and> 46 \<notin> set l"
  then obtain l where "h = l @ 46 # r" "46 \<notin> set l" by blast
  then show "dropWhile (\<lambda>c. c \<noteq> 46) h = 46 # r" by (induction l arbitrary: h) auto
qed

lemma dropWhile_dot_cases: "dropWhile (\<lambda>c. c \<noteq> 46) h = [] \<or> (\<exists>r. dropWhile (\<lambda>c. c \<noteq> 46) h = 46 # r)" for h :: "u8 list"
  by (induction h) auto

text \<open>The name matches ignoring case, or is a pattern that stands for one leading label.\<close>

lemma hostname_match_iff:
  assumes h: "0 \<notin> set host" "length host \<le> 127" and n: "length (name_of (subject c)) \<le> 127"
  shows "tls7_hostname_match c host \<longleftrightarrow> host \<noteq> [] \<and> name_of (subject c) \<noteq> []
    \<and> (map c7_ascii_tolower (name_of (subject c)) = map c7_ascii_tolower host
       \<or> (\<exists>d l r. name_of (subject c) = [42, 46] @ d \<and> host = l @ [46] @ r \<and> 46 \<notin> set l \<and> r \<noteq> []
            \<and> map c7_ascii_tolower d = map c7_ascii_tolower r))"
proof -
  define nm where "nm = name_of (subject c)"
  have z: "0 \<notin> set nm" using name_no_zero [of 127 "subject c"] n by (simp add: nm_def)
  have t: "take 127 nm = nm" "take 127 host = host" using h n by (simp_all add: nm_def)
  define dot where "dot = dropWhile (\<lambda>c. c \<noteq> 46) host"
  have zd: "0 \<notin> set dot" using h(1) unfolding dot_def by (metis set_dropWhileD)
  have zn: "0 \<notin> set (drop 1 nm)" using z by (metis in_set_dropD)
  have e: "c7_strcasecmp nm host = 0 \<longleftrightarrow> map c7_ascii_tolower nm = map c7_ascii_tolower host"
    by (rule strcasecmp_zero [OF z h(1)])
  have w: "length nm \<ge> 2 \<and> nm ! 0 = 42 \<and> nm ! 1 = 46 \<longleftrightarrow> (\<exists>d. nm = [42, 46] @ d)"
  proof
    assume a: "length nm \<ge> 2 \<and> nm ! 0 = 42 \<and> nm ! 1 = 46"
    then obtain x y d where "nm = x # y # d" by (metis Suc_le_length_iff numeral_2_eq_2)
    with a show "\<exists>d. nm = [42, 46] @ d" by auto
  qed auto
  have dd: "dot = 46 # r \<longleftrightarrow> (\<exists>l. host = l @ [46] @ r \<and> 46 \<notin> set l)" for r
    using dropWhile_dot [of host r] by (simp add: dot_def)
  have hd46: "dot = [] \<or> (\<exists>r. dot = 46 # r)"
    using dropWhile_dot_cases [of host] by (simp add: dot_def)
  have p: "length dot \<ge> 2 \<and> c7_strcasecmp (drop 1 nm) dot = 0
      \<longleftrightarrow> (\<exists>l r. host = l @ [46] @ r \<and> 46 \<notin> set l \<and> r \<noteq> [] \<and> map c7_ascii_tolower d = map c7_ascii_tolower r)"
    if "nm = [42, 46] @ d" for d
  proof -
    have "c7_strcasecmp (drop 1 nm) dot = 0 \<longleftrightarrow> map c7_ascii_tolower (46 # d) = map c7_ascii_tolower dot"
      using strcasecmp_zero [OF zn zd] that by simp
    moreover have "length dot \<ge> 2 \<and> map c7_ascii_tolower (46 # d) = map c7_ascii_tolower dot
        \<longleftrightarrow> (\<exists>r. dot = 46 # r \<and> r \<noteq> [] \<and> map c7_ascii_tolower d = map c7_ascii_tolower r)"
      using hd46 by (auto simp: Suc_le_length_iff neq_Nil_conv)
    ultimately show ?thesis using dd by blast
  qed
  have "tls7_hostname_match c host \<longleftrightarrow> host \<noteq> [] \<and> nm \<noteq> []
      \<and> (c7_strcasecmp nm host = 0 \<or> (length nm \<ge> 2 \<and> nm ! 0 = 42 \<and> nm ! 1 = 46)
          \<and> length dot \<ge> 2 \<and> c7_strcasecmp (drop 1 nm) dot = 0)"
    using t unfolding tls7_hostname_match_def nm_def [symmetric] Let_def dot_def by auto
  also have "\<dots> \<longleftrightarrow> host \<noteq> [] \<and> nm \<noteq> [] \<and> (map c7_ascii_tolower nm = map c7_ascii_tolower host
       \<or> (\<exists>d l r. nm = [42, 46] @ d \<and> host = l @ [46] @ r \<and> 46 \<notin> set l \<and> r \<noteq> []
            \<and> map c7_ascii_tolower d = map c7_ascii_tolower r))"
    unfolding e w using p by blast
  finally show ?thesis by (simp only: nm_def)
qed

text \<open>A name with an embedded zero byte counts only up to it.\<close>

lemma embedded_zero_matches:
  "tls7_hostname_match (toy_cert\<lparr> subject := name_field ([97, 0] @ [46, 98]) \<rparr>) [97]"
  by (simp add: tls7_hostname_match_def name_of_def name_field_def c7_strn_u8_def c7_ascii_tolower_def)

end
