(* ===== verification/KAes.thy ===== *)
theory KAes
  imports Prelude
begin

text \<open>
  The AES block cipher of \<^verbatim>\<open>src/compat/display_wayland.c\<close>, which the TLS layer uses: key
  schedule, encryption and decryption of a block, cipher block chaining.  The 16 bytes of the
  state are a list; the in-place swaps of the row shifts are written as the list they produce.
\<close>

subsection \<open>Tables\<close>

definition g_aes_sbox :: "u8 list" where
  "g_aes_sbox =
    [0x63, 0x7c, 0x77, 0x7b, 0xf2, 0x6b, 0x6f, 0xc5, 0x30, 0x01, 0x67, 0x2b, 0xfe, 0xd7, 0xab, 0x76,
     0xca, 0x82, 0xc9, 0x7d, 0xfa, 0x59, 0x47, 0xf0, 0xad, 0xd4, 0xa2, 0xaf, 0x9c, 0xa4, 0x72, 0xc0,
     0xb7, 0xfd, 0x93, 0x26, 0x36, 0x3f, 0xf7, 0xcc, 0x34, 0xa5, 0xe5, 0xf1, 0x71, 0xd8, 0x31, 0x15,
     0x04, 0xc7, 0x23, 0xc3, 0x18, 0x96, 0x05, 0x9a, 0x07, 0x12, 0x80, 0xe2, 0xeb, 0x27, 0xb2, 0x75,
     0x09, 0x83, 0x2c, 0x1a, 0x1b, 0x6e, 0x5a, 0xa0, 0x52, 0x3b, 0xd6, 0xb3, 0x29, 0xe3, 0x2f, 0x84,
     0x53, 0xd1, 0x00, 0xed, 0x20, 0xfc, 0xb1, 0x5b, 0x6a, 0xcb, 0xbe, 0x39, 0x4a, 0x4c, 0x58, 0xcf,
     0xd0, 0xef, 0xaa, 0xfb, 0x43, 0x4d, 0x33, 0x85, 0x45, 0xf9, 0x02, 0x7f, 0x50, 0x3c, 0x9f, 0xa8,
     0x51, 0xa3, 0x40, 0x8f, 0x92, 0x9d, 0x38, 0xf5, 0xbc, 0xb6, 0xda, 0x21, 0x10, 0xff, 0xf3, 0xd2,
     0xcd, 0x0c, 0x13, 0xec, 0x5f, 0x97, 0x44, 0x17, 0xc4, 0xa7, 0x7e, 0x3d, 0x64, 0x5d, 0x19, 0x73,
     0x60, 0x81, 0x4f, 0xdc, 0x22, 0x2a, 0x90, 0x88, 0x46, 0xee, 0xb8, 0x14, 0xde, 0x5e, 0x0b, 0xdb,
     0xe0, 0x32, 0x3a, 0x0a, 0x49, 0x06, 0x24, 0x5c, 0xc2, 0xd3, 0xac, 0x62, 0x91, 0x95, 0xe4, 0x79,
     0xe7, 0xc8, 0x37, 0x6d, 0x8d, 0xd5, 0x4e, 0xa9, 0x6c, 0x56, 0xf4, 0xea, 0x65, 0x7a, 0xae, 0x08,
     0xba, 0x78, 0x25, 0x2e, 0x1c, 0xa6, 0xb4, 0xc6, 0xe8, 0xdd, 0x74, 0x1f, 0x4b, 0xbd, 0x8b, 0x8a,
     0x70, 0x3e, 0xb5, 0x66, 0x48, 0x03, 0xf6, 0x0e, 0x61, 0x35, 0x57, 0xb9, 0x86, 0xc1, 0x1d, 0x9e,
     0xe1, 0xf8, 0x98, 0x11, 0x69, 0xd9, 0x8e, 0x94, 0x9b, 0x1e, 0x87, 0xe9, 0xce, 0x55, 0x28, 0xdf,
     0x8c, 0xa1, 0x89, 0x0d, 0xbf, 0xe6, 0x42, 0x68, 0x41, 0x99, 0x2d, 0x0f, 0xb0, 0x54, 0xbb, 0x16]"

definition g_aes_inv_sbox :: "u8 list" where
  "g_aes_inv_sbox =
    [0x52, 0x09, 0x6a, 0xd5, 0x30, 0x36, 0xa5, 0x38, 0xbf, 0x40, 0xa3, 0x9e, 0x81, 0xf3, 0xd7, 0xfb,
     0x7c, 0xe3, 0x39, 0x82, 0x9b, 0x2f, 0xff, 0x87, 0x34, 0x8e, 0x43, 0x44, 0xc4, 0xde, 0xe9, 0xcb,
     0x54, 0x7b, 0x94, 0x32, 0xa6, 0xc2, 0x23, 0x3d, 0xee, 0x4c, 0x95, 0x0b, 0x42, 0xfa, 0xc3, 0x4e,
     0x08, 0x2e, 0xa1, 0x66, 0x28, 0xd9, 0x24, 0xb2, 0x76, 0x5b, 0xa2, 0x49, 0x6d, 0x8b, 0xd1, 0x25,
     0x72, 0xf8, 0xf6, 0x64, 0x86, 0x68, 0x98, 0x16, 0xd4, 0xa4, 0x5c, 0xcc, 0x5d, 0x65, 0xb6, 0x92,
     0x6c, 0x70, 0x48, 0x50, 0xfd, 0xed, 0xb9, 0xda, 0x5e, 0x15, 0x46, 0x57, 0xa7, 0x8d, 0x9d, 0x84,
     0x90, 0xd8, 0xab, 0x00, 0x8c, 0xbc, 0xd3, 0x0a, 0xf7, 0xe4, 0x58, 0x05, 0xb8, 0xb3, 0x45, 0x06,
     0xd0, 0x2c, 0x1e, 0x8f, 0xca, 0x3f, 0x0f, 0x02, 0xc1, 0xaf, 0xbd, 0x03, 0x01, 0x13, 0x8a, 0x6b,
     0x3a, 0x91, 0x11, 0x41, 0x4f, 0x67, 0xdc, 0xea, 0x97, 0xf2, 0xcf, 0xce, 0xf0, 0xb4, 0xe6, 0x73,
     0x96, 0xac, 0x74, 0x22, 0xe7, 0xad, 0x35, 0x85, 0xe2, 0xf9, 0x37, 0xe8, 0x1c, 0x75, 0xdf, 0x6e,
     0x47, 0xf1, 0x1a, 0x71, 0x1d, 0x29, 0xc5, 0x89, 0x6f, 0xb7, 0x62, 0x0e, 0xaa, 0x18, 0xbe, 0x1b,
     0xfc, 0x56, 0x3e, 0x4b, 0xc6, 0xd2, 0x79, 0x20, 0x9a, 0xdb, 0xc0, 0xfe, 0x78, 0xcd, 0x5a, 0xf4,
     0x1f, 0xdd, 0xa8, 0x33, 0x88, 0x07, 0xc7, 0x31, 0xb1, 0x12, 0x10, 0x59, 0x27, 0x80, 0xec, 0x5f,
     0x60, 0x51, 0x7f, 0xa9, 0x19, 0xb5, 0x4a, 0x0d, 0x2d, 0xe5, 0x7a, 0x9f, 0x93, 0xc9, 0x9c, 0xef,
     0xa0, 0xe0, 0x3b, 0x4d, 0xae, 0x2a, 0xf5, 0xb0, 0xc8, 0xeb, 0xbb, 0x3c, 0x83, 0x53, 0x99, 0x61,
     0x17, 0x2b, 0x04, 0x7e, 0xba, 0x77, 0xd6, 0x26, 0xe1, 0x69, 0x14, 0x63, 0x55, 0x21, 0x0c, 0x7d]"

definition g_aes_rcon :: "u8 list" where
  "g_aes_rcon = [0x00, 0x01, 0x02, 0x04, 0x08, 0x10, 0x20, 0x40, 0x80, 0x1b, 0x36]"

subsection \<open>Key schedule\<close>

record aes7_ctx =
  rk :: "u32 list"
  nr :: nat

definition byte_of :: "u32 \<Rightarrow> nat \<Rightarrow> u8" where
  "byte_of w k = ucast (drop_bit (8 * k) w)"

definition word_of_bytes :: "u8 \<Rightarrow> u8 \<Rightarrow> u8 \<Rightarrow> u8 \<Rightarrow> u32" where
  "word_of_bytes a b c d = push_bit 24 (ucast a) OR push_bit 16 (ucast b) OR push_bit 8 (ucast c) OR ucast d"

definition aes_sub_word :: "u32 \<Rightarrow> u32" where
  "aes_sub_word w = word_of_bytes (g_aes_sbox ! unat (byte_of w 3)) (g_aes_sbox ! unat (byte_of w 2))
     (g_aes_sbox ! unat (byte_of w 1)) (g_aes_sbox ! unat (byte_of w 0))"

definition aes_rot_word :: "u32 \<Rightarrow> u32" where
  "aes_rot_word w = push_bit 8 w OR drop_bit 24 w"

text \<open>The loop appends word \<open>i\<close>; \<open>n\<close> words are still to come.\<close>

fun expand_key :: "nat \<Rightarrow> nat \<Rightarrow> u32 list \<Rightarrow> u32 list" where
  "expand_key nk 0 w = w"
| "expand_key nk (Suc n) w =
     (let i = length w; t = w ! (i - 1);
          t1 = (if i mod nk = 0 then aes_sub_word (aes_rot_word t) XOR push_bit 24 (ucast (g_aes_rcon ! (i div nk)))
                else if nk > 6 \<and> i mod nk = 4 then aes_sub_word t else t)
      in expand_key nk n (w @ [w ! (i - nk) XOR t1]))"

definition aes7_key_setup :: "u8 list \<Rightarrow> nat \<Rightarrow> aes7_ctx" where
  "aes7_key_setup key bits =
     (let nk = bits div 32; n = (if bits = 128 then 10 else if bits = 192 then 12 else 14);
          w0 = map (\<lambda>i. word_of_bytes (key ! (4 * i)) (key ! (4 * i + 1)) (key ! (4 * i + 2)) (key ! (4 * i + 3))) [0..<nk]
      in \<lparr> rk = expand_key nk (4 * (n + 1) - nk) w0, nr = n \<rparr>)"

subsection \<open>The round functions\<close>

text \<open>\<open>off\<close> is the distance of the round's keys from the start of the schedule.\<close>

definition aes_add_round_key :: "u32 list \<Rightarrow> nat \<Rightarrow> u8 list \<Rightarrow> u8 list" where
  "aes_add_round_key k off s = map (\<lambda>i. s ! i XOR byte_of (k ! (off + i div 4)) (3 - i mod 4)) [0..<16]"

definition aes_sub_bytes :: "u8 list \<Rightarrow> u8 list" where
  "aes_sub_bytes s = map (\<lambda>i. g_aes_sbox ! unat (s ! i)) [0..<16]"

definition aes_inv_sub_bytes :: "u8 list \<Rightarrow> u8 list" where
  "aes_inv_sub_bytes s = map (\<lambda>i. g_aes_inv_sbox ! unat (s ! i)) [0..<16]"

definition aes_shift_rows :: "u8 list \<Rightarrow> u8 list" where
  "aes_shift_rows s = [s ! 0, s ! 5, s ! 10, s ! 15, s ! 4, s ! 9, s ! 14, s ! 3,
     s ! 8, s ! 13, s ! 2, s ! 7, s ! 12, s ! 1, s ! 6, s ! 11]"

definition aes_inv_shift_rows :: "u8 list \<Rightarrow> u8 list" where
  "aes_inv_shift_rows s = [s ! 0, s ! 13, s ! 10, s ! 7, s ! 4, s ! 1, s ! 14, s ! 11,
     s ! 8, s ! 5, s ! 2, s ! 15, s ! 12, s ! 9, s ! 6, s ! 3]"

fun mul_loop :: "nat \<Rightarrow> u8 \<Rightarrow> u8 \<Rightarrow> u8 \<Rightarrow> u8" where
  "mul_loop 0 a b p = p"
| "mul_loop (Suc n) a b p =
     mul_loop n (if a AND 0x80 \<noteq> 0 then push_bit 1 a XOR 0x1b else push_bit 1 a) (drop_bit 1 b)
       (if b AND 1 \<noteq> 0 then p XOR a else p)"

definition aes_mul :: "u8 \<Rightarrow> u8 \<Rightarrow> u8" where "aes_mul a b = mul_loop 8 a b 0"

definition mix_column :: "u8 \<Rightarrow> u8 \<Rightarrow> u8 \<Rightarrow> u8 \<Rightarrow> u8 list" where
  "mix_column a0 a1 a2 a3 =
     [aes_mul 2 a0 XOR aes_mul 3 a1 XOR a2 XOR a3,
      a0 XOR aes_mul 2 a1 XOR aes_mul 3 a2 XOR a3,
      a0 XOR a1 XOR aes_mul 2 a2 XOR aes_mul 3 a3,
      aes_mul 3 a0 XOR a1 XOR a2 XOR aes_mul 2 a3]"

definition inv_mix_column :: "u8 \<Rightarrow> u8 \<Rightarrow> u8 \<Rightarrow> u8 \<Rightarrow> u8 list" where
  "inv_mix_column a0 a1 a2 a3 =
     [aes_mul 0x0e a0 XOR aes_mul 0x0b a1 XOR aes_mul 0x0d a2 XOR aes_mul 0x09 a3,
      aes_mul 0x09 a0 XOR aes_mul 0x0e a1 XOR aes_mul 0x0b a2 XOR aes_mul 0x0d a3,
      aes_mul 0x0d a0 XOR aes_mul 0x09 a1 XOR aes_mul 0x0e a2 XOR aes_mul 0x0b a3,
      aes_mul 0x0b a0 XOR aes_mul 0x0d a1 XOR aes_mul 0x09 a2 XOR aes_mul 0x0e a3]"

definition on_columns :: "(u8 \<Rightarrow> u8 \<Rightarrow> u8 \<Rightarrow> u8 \<Rightarrow> u8 list) \<Rightarrow> u8 list \<Rightarrow> u8 list" where
  "on_columns f s = concat (map (\<lambda>c. f (s ! (4 * c)) (s ! (4 * c + 1)) (s ! (4 * c + 2)) (s ! (4 * c + 3))) [0..<4])"

definition aes_mix_columns :: "u8 list \<Rightarrow> u8 list" where
  "aes_mix_columns = on_columns mix_column"

definition aes_inv_mix_columns :: "u8 list \<Rightarrow> u8 list" where
  "aes_inv_mix_columns = on_columns inv_mix_column"

subsection \<open>Blocks\<close>

definition enc_round :: "u32 list \<Rightarrow> nat \<Rightarrow> u8 list \<Rightarrow> u8 list" where
  "enc_round k r s = aes_add_round_key k (r * 4) (aes_mix_columns (aes_shift_rows (aes_sub_bytes s)))"

definition dec_round :: "u32 list \<Rightarrow> nat \<Rightarrow> u8 list \<Rightarrow> u8 list" where
  "dec_round k r s = aes_inv_mix_columns (aes_add_round_key k (r * 4) (aes_inv_sub_bytes (aes_inv_shift_rows s)))"

definition aes7_encrypt :: "aes7_ctx \<Rightarrow> u8 list \<Rightarrow> u8 list" where
  "aes7_encrypt ctx inp =
     (let s = fold (enc_round (rk ctx)) [1..<nr ctx] (aes_add_round_key (rk ctx) 0 inp)
      in aes_add_round_key (rk ctx) (nr ctx * 4) (aes_shift_rows (aes_sub_bytes s)))"

definition aes7_decrypt :: "aes7_ctx \<Rightarrow> u8 list \<Rightarrow> u8 list" where
  "aes7_decrypt ctx inp =
     (let s = fold (dec_round (rk ctx)) (rev [1..<nr ctx]) (aes_add_round_key (rk ctx) (nr ctx * 4) inp)
      in aes_add_round_key (rk ctx) 0 (aes_inv_sub_bytes (aes_inv_shift_rows s)))"

subsection \<open>Cipher block chaining\<close>

definition xor_blocks :: "u8 list \<Rightarrow> u8 list \<Rightarrow> u8 list" where
  "xor_blocks a b = map (\<lambda>j. a ! j XOR b ! j) [0..<16]"

function aes7_cbc_encrypt :: "aes7_ctx \<Rightarrow> u8 list \<Rightarrow> u8 list \<Rightarrow> u8 list" where
  "aes7_cbc_encrypt ctx prev inp =
     (if inp = [] then []
      else (let blk = aes7_encrypt ctx (xor_blocks (take 16 inp) prev)
            in blk @ aes7_cbc_encrypt ctx blk (drop 16 inp)))"
  by pat_completeness auto
termination by (relation "measure (\<lambda>(ctx, prev, inp). length inp)") auto

function aes7_cbc_decrypt :: "aes7_ctx \<Rightarrow> u8 list \<Rightarrow> u8 list \<Rightarrow> u8 list" where
  "aes7_cbc_decrypt ctx prev inp =
     (if inp = [] then []
      else xor_blocks (aes7_decrypt ctx (take 16 inp)) prev @ aes7_cbc_decrypt ctx (take 16 inp) (drop 16 inp))"
  by pat_completeness auto
termination by (relation "measure (\<lambda>(ctx, prev, inp). length inp)") auto

declare aes7_cbc_encrypt.simps [simp del] aes7_cbc_decrypt.simps [simp del]


subsection \<open>Multiplication in the field is linear\<close>

lemma odd_xor: "(b XOR c) AND 1 \<noteq> (0 :: u8) \<longleftrightarrow> (b AND 1 \<noteq> 0) \<noteq> (c AND 1 \<noteq> 0)"
  by (simp add: and_one_eq mod_2_eq_odd even_xor_iff)

lemma mul_loop_xor: "mul_loop n a (b XOR c) (p XOR q) = mul_loop n a b p XOR mul_loop n a c q"
proof (induction n arbitrary: a b c p q)
  case (Suc n)
  let ?a = "if a AND 0x80 \<noteq> 0 then push_bit 1 a XOR 0x1b else push_bit 1 a"
  have "(if (b XOR c) AND 1 \<noteq> 0 then (p XOR q) XOR a else p XOR q)
      = (if b AND 1 \<noteq> 0 then p XOR a else p) XOR (if c AND 1 \<noteq> 0 then q XOR a else q)"
    unfolding odd_xor by (cases "b AND 1 \<noteq> 0"; cases "c AND 1 \<noteq> 0") (simp_all only: if_True if_False simp_thms, simp_all add: ac_simps)
  moreover have "drop_bit 1 (b XOR c) = drop_bit 1 b XOR drop_bit 1 c" by (rule drop_bit_xor)
  ultimately show ?case unfolding mul_loop.simps by (simp only: Suc.IH)
qed simp

lemma aes_mul_xor: "aes_mul a (b XOR c) = aes_mul a b XOR aes_mul a c"
  using mul_loop_xor [of 8 a b c 0 0] by (simp add: aes_mul_def)

text \<open>A property of bytes that is closed under exclusive or holds when it holds of the powers of two.\<close>

lemma byte_basis:
  fixes x :: u8
  assumes "P 0" "\<And>i. i < 8 \<Longrightarrow> P (2 ^ i)" "\<And>x y. P x \<Longrightarrow> P y \<Longrightarrow> P (x XOR y)"
  shows "P x"
proof -
  have "P (take_bit n x)" if "n \<le> 8" for n
    using that
  proof (induction n)
    case (Suc n)
    have "take_bit (Suc n) x = take_bit n x XOR (if bit x n then 2 ^ n else 0)"
    proof (rule bit_eqI)
      fix m
      show "bit (take_bit (Suc n) x) m = bit (take_bit n x XOR (if bit x n then 2 ^ n else 0)) m"
        using Suc.prems by (auto simp: bit_simps less_Suc_eq)
    qed
    then show ?case using Suc assms by auto
  qed (use assms in simp)
  from this [of 8] take_bit_length_eq [of x] show ?thesis by simp
qed

lemma mul_loop_num: "mul_loop (numeral k) a b p =
     mul_loop (pred_numeral k) (if a AND 0x80 \<noteq> 0 then push_bit 1 a XOR 0x1b else push_bit 1 a) (drop_bit 1 b)
       (if b AND 1 \<noteq> 0 then p XOR a else p)"
  by (simp add: numeral_eq_Suc)

lemma below8: "i < 8 \<Longrightarrow> i = 0 \<or> i = 1 \<or> i = 2 \<or> i = 3 \<or> i = 4 \<or> i = 5 \<or> i = 6 \<or> i = (7 :: nat)"
  by auto

text \<open>The four products that make the column matrices inverse to each other.\<close>

definition gf_row :: "u8 \<Rightarrow> u8 \<Rightarrow> u8 \<Rightarrow> u8 \<Rightarrow> u8 \<Rightarrow> u8 \<Rightarrow> u8 \<Rightarrow> u8 \<Rightarrow> u8 \<Rightarrow> u8" where
  "gf_row a a' b b' c c' d d' x =
     aes_mul a (aes_mul a' x) XOR aes_mul b (aes_mul b' x) XOR aes_mul c (aes_mul c' x) XOR aes_mul d (aes_mul d' x)"

lemma gf_row_xor: "gf_row a a' b b' c c' d d' (x XOR y) = gf_row a a' b b' c c' d d' x XOR gf_row a a' b b' c c' d d' y"
  unfolding gf_row_def aes_mul_xor by (simp only: ac_simps)

lemma gf_row_id:
  assumes "gf_row a a' b b' c c' d d' 0 = 0" "\<And>i. i < 8 \<Longrightarrow> gf_row a a' b b' c c' d d' (2 ^ i) = 2 ^ i"
  shows "gf_row a a' b b' c c' d d' x = x"
  by (rule byte_basis [of "\<lambda>x. gf_row a a' b b' c c' d d' x = x"]) (simp_all add: assms gf_row_xor)

lemma gf_row_zero:
  assumes "gf_row a a' b b' c c' d d' 0 = 0" "\<And>i. i < 8 \<Longrightarrow> gf_row a a' b b' c c' d d' (2 ^ i) = 0"
  shows "gf_row a a' b b' c c' d d' x = 0"
  by (rule byte_basis [of "\<lambda>x. gf_row a a' b b' c c' d d' x = 0"]) (simp_all add: assms gf_row_xor)

lemma aes_mul_1 [simp]: "aes_mul a 0 = 0"
  by (simp add: aes_mul_def mul_loop_num)

lemma gf_identity: "gf_row 14 2 11 1 13 1 9 3 x = x"
proof (rule gf_row_id)
  show "gf_row 14 2 11 1 13 1 9 3 (2 ^ i) = 2 ^ i" if "i < 8" for i
    using below8 [OF that] by (elim disjE) (simp_all add: gf_row_def aes_mul_def mul_loop_num)
qed (simp add: gf_row_def)


lemma gf_zero1: "gf_row 14 3 11 2 13 1 9 1 x = 0"
proof (rule gf_row_zero)
  show "gf_row 14 3 11 2 13 1 9 1 (2 ^ i) = 0" if "i < 8" for i
    using below8 [OF that] by (elim disjE) (simp_all add: gf_row_def aes_mul_def mul_loop_num)
qed (simp add: gf_row_def)

lemma gf_zero2: "gf_row 14 1 11 3 13 2 9 1 x = 0"
proof (rule gf_row_zero)
  show "gf_row 14 1 11 3 13 2 9 1 (2 ^ i) = 0" if "i < 8" for i
    using below8 [OF that] by (elim disjE) (simp_all add: gf_row_def aes_mul_def mul_loop_num)
qed (simp add: gf_row_def)

lemma gf_zero3: "gf_row 14 1 11 1 13 3 9 2 x = 0"
proof (rule gf_row_zero)
  show "gf_row 14 1 11 1 13 3 9 2 (2 ^ i) = 0" if "i < 8" for i
    using below8 [OF that] by (elim disjE) (simp_all add: gf_row_def aes_mul_def mul_loop_num)
qed (simp add: gf_row_def)

lemma aes_mul_one: "aes_mul 1 x = x"
proof (rule byte_basis [of "\<lambda>x. aes_mul 1 x = x"])
  show "aes_mul 1 (2 ^ i) = 2 ^ i" if "i < 8" for i
    using below8 [OF that] by (elim disjE) (simp_all add: aes_mul_def mul_loop_num)
qed (simp_all add: aes_mul_xor)

lemma gf_rotate: "gf_row a a' b b' c c' d d' x = gf_row d d' a a' b b' c c' x"
  unfolding gf_row_def by (simp only: ac_simps)

lemmas gf_i1 = gf_rotate [symmetric, THEN trans, OF gf_identity]
lemmas gf_i2 = gf_rotate [symmetric, THEN trans, OF gf_i1]
lemmas gf_i3 = gf_rotate [symmetric, THEN trans, OF gf_i2]
lemmas gf_z1 = gf_rotate [symmetric, THEN trans, OF gf_zero1]
lemmas gf_z2 = gf_rotate [symmetric, THEN trans, OF gf_z1]
lemmas gf_z3 = gf_rotate [symmetric, THEN trans, OF gf_z2]
lemmas gf_y1 = gf_rotate [symmetric, THEN trans, OF gf_zero2]
lemmas gf_y2 = gf_rotate [symmetric, THEN trans, OF gf_y1]
lemmas gf_y3 = gf_rotate [symmetric, THEN trans, OF gf_y2]
lemmas gf_w1 = gf_rotate [symmetric, THEN trans, OF gf_zero3]
lemmas gf_w2 = gf_rotate [symmetric, THEN trans, OF gf_w1]
lemmas gf_w3 = gf_rotate [symmetric, THEN trans, OF gf_w2]
lemmas gf_all = gf_identity gf_i1 gf_i2 gf_i3 gf_zero1 gf_z1 gf_z2 gf_z3 gf_zero2 gf_y1 gf_y2 gf_y3 gf_zero3 gf_w1 gf_w2 gf_w3

lemma inv_mix_column:
  "inv_mix_column (mix_column a0 a1 a2 a3 ! 0) (mix_column a0 a1 a2 a3 ! 1) (mix_column a0 a1 a2 a3 ! 2) (mix_column a0 a1 a2 a3 ! 3)
     = [a0, a1, a2, a3]"
proof -
  let ?m = "mix_column a0 a1 a2 a3"
  have m: "?m ! 0 = aes_mul 2 a0 XOR aes_mul 3 a1 XOR aes_mul 1 a2 XOR aes_mul 1 a3"
      "?m ! 1 = aes_mul 1 a0 XOR aes_mul 2 a1 XOR aes_mul 3 a2 XOR aes_mul 1 a3"
      "?m ! 2 = aes_mul 1 a0 XOR aes_mul 1 a1 XOR aes_mul 2 a2 XOR aes_mul 3 a3"
      "?m ! 3 = aes_mul 3 a0 XOR aes_mul 1 a1 XOR aes_mul 1 a2 XOR aes_mul 2 a3"
    by (simp_all add: mix_column_def aes_mul_one)
  have "aes_mul p (?m ! 0) XOR aes_mul q (?m ! 1) XOR aes_mul r (?m ! 2) XOR aes_mul t (?m ! 3) =
      gf_row p 2 q 1 r 1 t 3 a0 XOR gf_row p 3 q 2 r 1 t 1 a1 XOR gf_row p 1 q 3 r 2 t 1 a2 XOR gf_row p 1 q 1 r 3 t 2 a3"
    for p q r t
    unfolding m gf_row_def aes_mul_xor by (simp only: ac_simps)
  then show ?thesis by (simp only: inv_mix_column_def gf_all xor.right_neutral xor.left_neutral)
qed


subsection \<open>Every step has an inverse\<close>

lemma upt16: "[0..<16] = [0, 1, 2, 3, 4, 5, 6, 7, 8, 9, 10, 11, 12, 13, 14, 15 :: nat]"
  by (simp add: upt_rec)

lemma upt4: "[0..<4] = [0, 1, 2, 3 :: nat]"
  by (simp add: upt_rec)

lemma nth16: "length s = 16 \<Longrightarrow> [s ! 0, s ! 1, s ! 2, s ! 3, s ! 4, s ! 5, s ! 6, s ! 7, s ! 8, s ! 9, s ! 10, s ! 11,
    s ! 12, s ! 13, s ! 14, s ! 15] = s"
  using map_nth [of s] by (simp add: upt16)

lemma length_steps [simp]:
  "length (aes_add_round_key k off s) = 16" "length (aes_sub_bytes s) = 16" "length (aes_inv_sub_bytes s) = 16"
  "length (aes_shift_rows s) = 16" "length (aes_inv_shift_rows s) = 16" "length (aes_mix_columns s) = 16"
  "length (aes_inv_mix_columns s) = 16"
  by (simp_all add: aes_add_round_key_def aes_sub_bytes_def aes_inv_sub_bytes_def aes_shift_rows_def
      aes_inv_shift_rows_def aes_mix_columns_def aes_inv_mix_columns_def on_columns_def mix_column_def
      inv_mix_column_def upt4)

lemma inv_shift: "length s = 16 \<Longrightarrow> aes_inv_shift_rows (aes_shift_rows s) = s"
  using nth16 [of s] by (simp add: aes_inv_shift_rows_def aes_shift_rows_def)

lemma inv_mix: "length s = 16 \<Longrightarrow> aes_inv_mix_columns (aes_mix_columns s) = s"
proof -
  assume l: "length s = 16"
  let ?c = "\<lambda>c. mix_column (s ! (4 * c)) (s ! (4 * c + 1)) (s ! (4 * c + 2)) (s ! (4 * c + 3))"
  have len: "length (mix_column a b c d) = 4" for a b c d by (simp add: mix_column_def)
  have m: "aes_mix_columns s = ?c 0 @ ?c 1 @ ?c 2 @ ?c 3"
    unfolding aes_mix_columns_def on_columns_def upt4 by simp
  have n: "aes_mix_columns s ! (4 * c + k) = ?c c ! k" if "c < 4" "k < 4" for c k
  proof -
    have "c = 0 \<or> c = 1 \<or> c = 2 \<or> c = 3" using that(1) by auto
    then show ?thesis unfolding m using that(2) by (elim disjE) (simp_all add: nth_append len)
  qed
  have c: "inv_mix_column (aes_mix_columns s ! (4 * c)) (aes_mix_columns s ! (4 * c + 1)) (aes_mix_columns s ! (4 * c + 2))
      (aes_mix_columns s ! (4 * c + 3)) = [s ! (4 * c), s ! (4 * c + 1), s ! (4 * c + 2), s ! (4 * c + 3)]" if "c < 4" for c
    using n [OF that, of 0] n [OF that, of 1] n [OF that, of 2] n [OF that, of 3] inv_mix_column by simp
  show ?thesis
    unfolding aes_inv_mix_columns_def on_columns_def upt4 list.map c [of 0, simplified] c [of 1, simplified]
    using c [of 0] c [of 1] c [of 2] c [of 3] nth16 [OF l] by (simp add: numeral_2_eq_2)
qed

lemma add_key_twice: "length s = 16 \<Longrightarrow> aes_add_round_key k off (aes_add_round_key k off s) = s"
  by (rule nth_equalityI) (simp_all add: aes_add_round_key_def xor.assoc)

lemma sbox_table: "list_all (\<lambda>n. g_aes_inv_sbox ! unat (g_aes_sbox ! n) = of_nat n) [0..<256]"
  by code_simp

lemma sbox_inverse: "g_aes_inv_sbox ! unat (g_aes_sbox ! unat (x :: u8)) = x"
proof -
  have "unat x < 256" by (rule order_less_le_trans [OF unsigned_less]) simp
  then have "g_aes_inv_sbox ! unat (g_aes_sbox ! unat x) = of_nat (unat x)"
    using sbox_table unfolding list_all_iff by (metis atLeastLessThan_iff le0 set_upt)
  then show ?thesis by simp
qed

lemma inv_sub: "length s = 16 \<Longrightarrow> aes_inv_sub_bytes (aes_sub_bytes s) = s"
  by (rule nth_equalityI) (simp_all add: aes_inv_sub_bytes_def aes_sub_bytes_def sbox_inverse)

text \<open>The substitution and the row shift in front of a round key, undone.\<close>

lemma unround: "length s = 16 \<Longrightarrow> aes_inv_sub_bytes (aes_inv_shift_rows (aes_shift_rows (aes_sub_bytes s))) = s"
  by (simp add: inv_shift inv_sub)

lemma dec_round_step:
  "length s = 16 \<Longrightarrow> dec_round k r (aes_shift_rows (aes_sub_bytes (enc_round k r s))) = aes_shift_rows (aes_sub_bytes s)"
  by (simp add: dec_round_def enc_round_def unround add_key_twice inv_mix)

lemma length_enc_rounds: "length s = 16 \<Longrightarrow> length (fold (enc_round k) rs s) = 16"
  by (induction rs arbitrary: s) (simp_all add: enc_round_def)

lemma dec_rounds:
  "length s = 16 \<Longrightarrow> fold (dec_round k) (rev rs) (aes_shift_rows (aes_sub_bytes (fold (enc_round k) rs s)))
     = aes_shift_rows (aes_sub_bytes s)"
proof (induction rs rule: rev_induct)
  case (snoc r rs)
  then show ?case by (simp add: dec_round_step length_enc_rounds)
qed simp

lemma aes7_decrypt_encrypt_block: "length blk = 16 \<Longrightarrow> aes7_decrypt ctx (aes7_encrypt ctx blk) = blk"
  by (simp add: aes7_decrypt_def aes7_encrypt_def Let_def add_key_twice dec_rounds unround)

text \<open>C34: decryption inverts encryption: for every key schedule, whatever its round keys and number
  of rounds, and every block of 16 bytes.\<close>

theorem aes7_decrypt_encrypt:
  "length blk = 16 \<Longrightarrow> aes7_decrypt ctx (aes7_encrypt ctx blk) = blk"
  by (rule aes7_decrypt_encrypt_block)

theorem aes7_decrypt_encrypt_witness:
  "aes7_decrypt (aes7_key_setup (replicate 16 7) 128) (aes7_encrypt (aes7_key_setup (replicate 16 7) 128) (map of_nat [0..<16]))
     = map of_nat [0..<16]"
  by (rule aes7_decrypt_encrypt) simp

lemma length_encrypt [simp]: "length (aes7_encrypt ctx b) = 16"
  by (simp add: aes7_encrypt_def Let_def)

lemma xor_blocks_twice: "length a = 16 \<Longrightarrow> xor_blocks (xor_blocks a b) b = a"
  by (rule nth_equalityI) (simp_all add: xor_blocks_def xor.assoc)

lemma length_xor_blocks [simp]: "length (xor_blocks a b) = 16"
  by (simp add: xor_blocks_def)

text \<open>Chained decryption inverts chained encryption on every message of whole blocks, for every key
  schedule and initial vector.\<close>

lemma aes7_cbc_roundtrip:
  "16 dvd length msg \<Longrightarrow> aes7_cbc_decrypt ctx iv (aes7_cbc_encrypt ctx iv msg) = msg"
proof (induction "length msg" arbitrary: msg iv rule: less_induct)
  case less
  show ?case
  proof (cases "msg = []")
    case True
    then show ?thesis by (simp add: aes7_cbc_encrypt.simps aes7_cbc_decrypt.simps)
  next
    case False
    then have l: "16 \<le> length msg" using less.prems by (simp add: dvd_imp_le)
    let ?b = "aes7_encrypt ctx (xor_blocks (take 16 msg) iv)"
    have e: "aes7_cbc_encrypt ctx iv msg = ?b @ aes7_cbc_encrypt ctx ?b (drop 16 msg)"
      using False by (simp add: aes7_cbc_encrypt.simps [of ctx iv msg] Let_def)
    have ne: "?b \<noteq> []" by (metis length_encrypt list.size(3) zero_neq_numeral)
    have "aes7_cbc_decrypt ctx ?b (aes7_cbc_encrypt ctx ?b (drop 16 msg)) = drop 16 msg"
      using l less.prems by (intro less.hyps) (auto simp: dvd_diff_nat)
    moreover have "xor_blocks (aes7_decrypt ctx ?b) iv = take 16 msg"
      using l by (simp add: aes7_decrypt_encrypt_block xor_blocks_twice)
    ultimately show ?thesis
      unfolding e aes7_cbc_decrypt.simps [of ctx iv "?b @ _"] using ne by simp
  qed
qed

lemma length_cbc_encrypt: "16 dvd length msg \<Longrightarrow> length (aes7_cbc_encrypt ctx iv msg) = length msg"
proof (induction "length msg" arbitrary: msg iv rule: less_induct)
  case less
  show ?case
  proof (cases "msg = []")
    case False
    then have l: "16 \<le> length msg" using less.prems by (simp add: dvd_imp_le)
    have "length (aes7_cbc_encrypt ctx b (drop 16 msg)) = length msg - 16" for b
      using less.hyps [of "drop 16 msg" b] l less.prems by (auto simp: dvd_diff_nat)
    then show ?thesis using False l by (subst aes7_cbc_encrypt.simps) (simp add: Let_def)
  qed (simp add: aes7_cbc_encrypt.simps)
qed

end
