(* ===== verification/KTls.thy ===== *)
theory KTls
  imports KCert KAes
begin

text \<open>
  The TLS client of \<^verbatim>\<open>src/compat/display_wayland.c\<close> above its ciphers: the ClientHello, the key block, and
  the records of application data.  The handshake itself (\<open>tls7_connect\<close>) is a sequence of socket
  calls and is not modelled.
\<close>

definition TLS7_MAX_FRAG :: nat where "TLS7_MAX_FRAG = 16384"
definition TLS7_APPLICATION_DATA :: u8 where "TLS7_APPLICATION_DATA = 23"
definition TLS7_HS_CLIENT_HELLO :: u8 where "TLS7_HS_CLIENT_HELLO = 1"

record tls7_session =
  client_random :: "u8 list"
  server_random :: "u8 list"
  master_secret :: "u8 list"
  client_write_key :: "u8 list"
  server_write_key :: "u8 list"
  client_write_iv :: "u8 list"
  server_write_iv :: "u8 list"
  client_write_mac_key :: "u8 list"
  server_write_mac_key :: "u8 list"
  client_enc :: aes7_ctx
  client_dec :: aes7_ctx
  server_enc :: aes7_ctx
  server_dec :: aes7_ctx
  client_seq :: u64
  server_seq :: u64
  sni_hostname :: "u8 list"
  alpn_protocol :: "u8 list"

subsection \<open>ClientHello\<close>

definition put16 :: "nat \<Rightarrow> u8 list" where "put16 n = be_bytes 2 n"

definition hello_sni :: "u8 list \<Rightarrow> u8 list" where
  "hello_sni h = (if h = [] then []
     else [0x00, 0x00] @ put16 (length h + 5) @ put16 (length h + 3) @ [0x00] @ put16 (length h) @ h)"

definition hello_alpn :: "u8 list \<Rightarrow> u8 list" where
  "hello_alpn a = (if a = [] then []
     else [0x00, 0x10] @ put16 (length a + 3) @ put16 (length a + 1) @ [of_nat (length a)] @ a)"

definition hello_sig_algs :: "u8 list" where
  "hello_sig_algs = [0x00, 0x0D] @ put16 8 @ put16 (8 - 2) @ [0x04, 0x01] @ [0x05, 0x01]"

text \<open>The tests \<open>TLS7_NEED\<close> in their order, with the positions they are made at.\<close>

definition tls7_build_client_hello :: "tls7_session \<Rightarrow> nat \<Rightarrow> u8 list option" where
  "tls7_build_client_hello s outmax =
     (let sni = sni_hostname s; alpn = alpn_protocol s;
          pos1 = 49; pos2 = pos1 + length (hello_sni sni); pos3 = pos2 + length (hello_alpn alpn);
          exts = hello_sni sni @ hello_alpn alpn @ hello_sig_algs;
          body = [0x03, 0x03] @ client_random s @ [0] @ [0, 4, 0x00, 0x3C, 0x00, 0x3D] @ [1, 0]
      in if 4 > outmax \<or> 6 > outmax \<or> 38 > outmax \<or> 39 > outmax \<or> 47 > outmax \<or> 49 > outmax then None
         else if sni \<noteq> [] \<and> pos1 + (length sni + 9) > outmax then None
         else if alpn \<noteq> [] \<and> pos2 + (length alpn + 8) > outmax then None
         else if pos3 + 12 > outmax then None
         else Some ([TLS7_HS_CLIENT_HELLO] @ be_bytes 3 (length body + 2 + length exts) @ body @ put16 (length exts) @ exts))"

subsection \<open>The key block\<close>

definition tls7_derive_keys :: "tls7_session \<Rightarrow> tls7_session" where
  "tls7_derive_keys s =
     (let kb = tls7_prf (master_secret s) (map (of_nat \<circ> of_char) ''key expansion'') (client_random s @ server_random s) 160;
          s1 = s\<lparr> client_write_mac_key := take 32 kb, server_write_mac_key := take 32 (drop 32 kb),
                  client_write_key := take 32 (drop 64 kb), server_write_key := take 32 (drop 96 kb),
                  client_write_iv := take 16 (drop 128 kb), server_write_iv := take 16 (drop 144 kb) \<rparr>
      in s1\<lparr> client_enc := aes7_key_setup (client_write_key s1) 128, client_dec := aes7_key_setup (server_write_key s1) 128,
             server_enc := aes7_key_setup (server_write_key s1) 128, server_dec := aes7_key_setup (client_write_key s1) 128 \<rparr>)"

subsection \<open>Application data\<close>

definition tls7_record :: "u8 \<Rightarrow> u8 list \<Rightarrow> u8 list" where
  "tls7_record type payload = [type, 0x03, 0x03] @ put16 (length payload) @ payload"

text \<open>The body of one record: a random initial vector, then the encrypted fragment with its padding.\<close>

definition app_record :: "aes7_ctx \<Rightarrow> u8 list \<Rightarrow> u8 list \<Rightarrow> u8 list" where
  "app_record ctx iv frag =
     (let pad0 = 16 - (16 + length frag) mod 16; pad = (if pad0 = 0 then 16 else pad0)
      in iv @ aes7_cbc_encrypt ctx iv (frag @ replicate pad (of_nat (pad - 1))))"

text \<open>The records sent for some data; \<open>ivs\<close> are the random vectors drawn, one for every fragment.\<close>

function tls7_send_appdata :: "tls7_session \<Rightarrow> u8 list list \<Rightarrow> u8 list \<Rightarrow> tls7_session \<times> u8 list list" where
  "tls7_send_appdata s ivs data =
     (if data = [] then (s, [])
      else (let frag = take TLS7_MAX_FRAG data;
                r = tls7_record TLS7_APPLICATION_DATA (app_record (client_enc s) (hd ivs) frag);
                (s', rs) = tls7_send_appdata (s\<lparr> client_seq := client_seq s + 1 \<rparr>) (tl ivs) (drop TLS7_MAX_FRAG data)
            in (s', r # rs)))"
  by pat_completeness auto
termination by (relation "measure (\<lambda>(s, ivs, data). length data)") (auto simp: TLS7_MAX_FRAG_def)

text \<open>The length test of \<open>tls7_recv_record\<close> on a header: the bytes of the body, or a failure.\<close>

definition record_body_len :: "u8 list \<Rightarrow> nat option" where
  "record_body_len hdr = (let len = of_be (take 2 (drop 3 hdr)) in if len > TLS7_MAX_FRAG then None else Some len)"

text \<open>A receive call on a record of application data that has arrived whole.  \<open>None\<close>: the block loop
  writes past the end of the buffer allocated for the plain text.\<close>

datatype recv_result = RecvAgain | RecvData "u8 list"

definition tls7_recv_appdata :: "tls7_session \<Rightarrow> u8 list \<Rightarrow> nat \<Rightarrow> (tls7_session \<times> recv_result) option" where
  "tls7_recv_appdata s rec len =
     (if length rec < 32 then Some (s, RecvAgain)
      else if (length rec - 16) mod 16 \<noteq> 0 then None
      else (let dec = aes7_cbc_decrypt (server_dec s) (take 16 rec) (drop 16 rec);
                enc_len = length rec - 16; pad = unat (dec ! (enc_len - 1));
                plain_len = (if pad < enc_len then enc_len - (pad + 1) else enc_len)
            in Some (s\<lparr> server_seq := server_seq s + 1 \<rparr>, RecvData (take (min plain_len len) dec))))"

subsection \<open>Application data comes back\<close>

definition padded_len :: "nat \<Rightarrow> nat" where "padded_len n = 16 * (n div 16 + 1)"

lemma app_pad:
  fixes n :: nat
  defines "pad0 \<equiv> 16 - (16 + n) mod 16"
  shows "(if pad0 = 0 then 16 else pad0) = padded_len n - n" "0 < padded_len n - n" "padded_len n - n \<le> 16"
proof -
  define q r where "q = n div 16" and "r = n mod 16"
  have n: "n = 16 * q + r" "r < 16" by (simp_all add: q_def r_def)
  have p: "pad0 = 16 - r" by (simp add: pad0_def r_def)
  have m: "padded_len n = 16 * q + 16" by (simp add: padded_len_def q_def)
  show "(if pad0 = 0 then 16 else pad0) = padded_len n - n" unfolding p m using n by simp
  show "0 < padded_len n - n" "padded_len n - n \<le> 16" unfolding m using n by simp_all
qed

definition app_plain :: "u8 list \<Rightarrow> u8 list" where
  "app_plain frag = frag @ replicate (padded_len (length frag) - length frag) (of_nat (padded_len (length frag) - length frag - 1))"

lemma app_record_eq: "app_record ctx iv frag = iv @ aes7_cbc_encrypt ctx iv (app_plain frag)"
  unfolding app_record_def Let_def app_plain_def app_pad(1) ..

lemma length_app_plain: "length (app_plain frag) = padded_len (length frag)" "16 dvd length (app_plain frag)"
  using app_pad(2) [of "length frag"] by (simp_all add: app_plain_def padded_len_def)

lemma length_app_record: "length iv = 16 \<Longrightarrow> length (app_record ctx iv frag) = 16 + padded_len (length frag)"
  using length_cbc_encrypt [OF length_app_plain(2)] by (simp add: app_record_eq length_app_plain(1))

lemma derive_keys_match: "server_dec (tls7_derive_keys s) = client_enc (tls7_derive_keys s)"
  by (simp add: tls7_derive_keys_def Let_def)

lemma appdata_roundtrip:
  assumes s: "s = tls7_derive_keys s0" and iv: "length iv = 16" and frag: "frag \<noteq> []" "length frag < 16368"
    and len: "length frag \<le> len"
  shows "record_body_len (take 5 (tls7_record TLS7_APPLICATION_DATA (app_record (client_enc s) iv frag)))
      = Some (length (app_record (client_enc s) iv frag))"
    and "tls7_recv_appdata s (app_record (client_enc s) iv frag) len
      = Some (s\<lparr> server_seq := server_seq s + 1 \<rparr>, RecvData frag)"
proof -
  define n where "n = length frag"
  define body where "body = app_record (client_enc s) iv frag"
  have lb: "length body = 16 + padded_len n" by (simp add: body_def length_app_record iv n_def)
  have small: "length body \<le> TLS7_MAX_FRAG"
  proof -
    have "n div 16 \<le> 1022" using frag(2) by (simp add: n_def)
    then show ?thesis by (simp add: lb padded_len_def TLS7_MAX_FRAG_def)
  qed
  then show "record_body_len (take 5 (tls7_record TLS7_APPLICATION_DATA (app_record (client_enc s) iv frag)))
      = Some (length (app_record (client_enc s) iv frag))"
    unfolding body_def [symmetric] by (simp add: record_body_len_def tls7_record_def put16_def Let_def TLS7_MAX_FRAG_def)
  have dec: "aes7_cbc_decrypt (server_dec s) (take 16 body) (drop 16 body) = app_plain frag"
    using iv length_app_plain(2) [of frag]
    by (simp add: body_def app_record_eq s derive_keys_match aes7_cbc_roundtrip)
  have n0: "0 < n" using frag(1) by (simp add: n_def)
  define k where "k = padded_len n - n"
  have k: "0 < k" "k \<le> 16" "padded_len n = n + k" using app_pad(2,3) [of n] by (simp_all add: k_def)
  have lastb: "unat (app_plain frag ! (padded_len n - 1)) = k - 1"
  proof -
    have "app_plain frag ! (padded_len n - 1) = of_nat (k - 1)"
    proof -
      have i: "padded_len n - 1 = length frag + (k - 1)" using k by (simp add: n_def)
      have "(frag @ replicate k x) ! (length frag + (k - 1)) = x" for x :: u8
        unfolding nth_append_length_plus using k by simp
      then show ?thesis unfolding i app_plain_def n_def [symmetric] k_def [symmetric] by (simp only: n_def)
    qed
    moreover have "unat (of_nat (k - 1) :: u8) = k - 1" unfolding unat_of_nat using k by (intro mod_less) simp
    ultimately show ?thesis by simp
  qed
  have tk: "take n (app_plain frag) = frag" by (simp add: app_plain_def n_def)
  have "16 \<le> padded_len n" "16 dvd padded_len n" by (simp_all add: padded_len_def)
  then have "tls7_recv_appdata s body len = Some (s\<lparr> server_seq := server_seq s + 1 \<rparr>,
      RecvData (take (min (if k - 1 < padded_len n then padded_len n - (k - 1 + 1) else padded_len n) len) (app_plain frag)))"
    by (simp add: tls7_recv_appdata_def lb dec lastb [simplified] Let_def)
  moreover have "min (if k - 1 < padded_len n then padded_len n - (k - 1 + 1) else padded_len n) len = n"
    using k len n0 by (simp add: n_def)
  ultimately show "tls7_recv_appdata s (app_record (client_enc s) iv frag) len
      = Some (s\<lparr> server_seq := server_seq s + 1 \<rparr>, RecvData frag)"
    by (simp only: body_def tk)
qed



text \<open>A fragment of the full size the sender cuts at gives a record the receiving code refuses.\<close>

lemma full_fragment_refused:
  assumes "length iv = 16" "length frag = TLS7_MAX_FRAG"
  shows "record_body_len (take 5 (tls7_record TLS7_APPLICATION_DATA (app_record ctx iv frag))) = None"
  using length_app_record [OF assms(1), of ctx frag] assms(2)
  by (simp add: record_body_len_def tls7_record_def put16_def Let_def TLS7_MAX_FRAG_def padded_len_def)

text \<open>A record of application data that is not a whole number of blocks overruns the plain text buffer.\<close>

lemma odd_record_overruns: "length rec = 40 \<Longrightarrow> tls7_recv_appdata s rec len = None"
  by (simp add: tls7_recv_appdata_def)

subsection \<open>The extensions of the ClientHello\<close>

text \<open>A reader of extension lists: type, length, contents.\<close>

function parse_exts :: "u8 list \<Rightarrow> (nat \<times> u8 list) list option" where
  "parse_exts p =
     (if p = [] then Some []
      else if length p < 4 then None
      else (let l = of_be (take 2 (drop 2 p))
            in if 4 + l > length p then None
               else map_option (\<lambda>r. (of_be (take 2 p), take l (drop 4 p)) # r) (parse_exts (drop (4 + l) p))))"
  by pat_completeness auto
termination by (relation "measure length") auto

declare parse_exts.simps [simp del]

lemma parse_exts_cons:
  assumes "length c < 65536"
  shows "parse_exts ([a, b] @ put16 (length c) @ c @ r) = map_option (\<lambda>x. (of_be [a, b], c) # x) (parse_exts r)"
proof -
  have l: "length (put16 (length c)) = 2" by (simp add: put16_def)
  have h: "take 2 (drop 2 ([a, b] @ put16 (length c) @ c @ r)) = put16 (length c)" using l by simp
  have v: "of_be (put16 (length c)) = length c" using assms by (simp add: put16_def)
  have d: "drop 4 ([a, b] @ put16 (length c) @ c @ r) = c @ r" using l by simp
  have d2: "drop (4 + length c) ([a, b] @ put16 (length c) @ c @ r) = r"
  proof -
    have "drop (4 + length c) ([a, b] @ put16 (length c) @ c @ r) = drop (length c) (drop 4 ([a, b] @ put16 (length c) @ c @ r))"
      by (simp only: drop_drop add.commute)
    then show ?thesis by (simp only: d) simp
  qed
  show ?thesis
    by (subst parse_exts.simps) (simp only: h v d d2 Let_def, simp add: l)
qed

lemma put16_8: "put16 8 = [0, 8]" "put16 6 = [0, 6]"
  by (simp_all add: put16_def be_bytes_def numeral_2_eq_2)

text \<open>The list every ClientHello carries cannot be read: the last extension declares eight bytes and
  holds six.\<close>

lemma hello_extensions_malformed:
  assumes "length sni \<le> 127" "length alpn \<le> 31"
  shows "parse_exts (hello_sni sni @ hello_alpn alpn @ hello_sig_algs) = None"
proof -
  have sig: "parse_exts hello_sig_algs = None"
    by (subst parse_exts.simps) (simp add: hello_sig_algs_def put16_8 of_be_def)
  have alpn: "parse_exts (hello_alpn alpn @ r) = None" if "parse_exts r = None" for r
  proof (cases "alpn = []")
    case False
    define c where "c = put16 (length alpn + 1) @ [of_nat (length alpn)] @ alpn"
    have "hello_alpn alpn @ r = [0x00, 0x10] @ put16 (length c) @ c @ r"
      using False by (simp add: hello_alpn_def c_def put16_def numeral_3_eq_3)
    moreover have "length c < 65536" using assms by (simp add: c_def put16_def)
    ultimately show ?thesis using that by (simp only: parse_exts_cons) simp
  qed (simp add: hello_alpn_def that)
  have sni: "parse_exts (hello_sni sni @ r) = None" if "parse_exts r = None" for r
  proof (cases "sni = []")
    case False
    define c where "c = put16 (length sni + 3) @ [0x00] @ put16 (length sni) @ sni"
    have "hello_sni sni @ r = [0x00, 0x00] @ put16 (length c) @ c @ r"
      using False by (simp add: hello_sni_def c_def put16_def numeral_eq_Suc)
    moreover have "length c < 65536" using assms by (simp add: c_def put16_def)
    ultimately show ?thesis using that by (simp only: parse_exts_cons) simp
  qed (simp add: hello_sni_def that)
  show ?thesis by (intro sni alpn sig)
qed

end
