(* ===== verification/KNet.thy ===== *)
theory KNet
  imports KBytes
begin

text \<open>
  Packets: the Internet checksum and the frame builders of \<^verbatim>\<open>src/compat/memory_tasks.c\<close>
  (\<open>net_checksum\<close>, \<open>net_build_*\<close>), the ARP cache and the two routines of \<^verbatim>\<open>src/compat/base.c\<close> that
  wrap a TCP segment or a datagram in a frame (\<open>net_send_tcp_frame\<close>, \<open>net_send_udp_frame\<close>).  A
  builder is the list of the bytes it stores; the network card is outside the model: a send routine
  gives the frame it hands to \<open>e1000_send\<close>.
\<close>

subsection \<open>Network byte order\<close>

definition net16 :: "u8 list \<Rightarrow> nat \<Rightarrow> u16" where
  "net16 p i = push_bit 8 (ucast (p ! i)) OR ucast (p ! (i + 1))"

definition net32 :: "u8 list \<Rightarrow> nat \<Rightarrow> u32" where
  "net32 p i = push_bit 24 (ucast (p ! i)) OR push_bit 16 (ucast (p ! (i + 1)))
     OR push_bit 8 (ucast (p ! (i + 2))) OR ucast (p ! (i + 3))"

definition hi8 :: "u16 \<Rightarrow> u8" where "hi8 w = ucast (drop_bit 8 w)"
definition lo8 :: "u16 \<Rightarrow> u8" where "lo8 w = ucast w"

definition put16 :: "u16 \<Rightarrow> u8 list" where "put16 w = [hi8 w, lo8 w]"

definition put32 :: "u32 \<Rightarrow> u8 list" where
  "put32 w = [ucast (drop_bit 24 w), ucast (drop_bit 16 w), ucast (drop_bit 8 w), ucast w]"

lemma length_put [simp]: "length (put16 h) = 2" "length (put32 w) = 4"
  by (simp_all add: put16_def put32_def)

lemma net16_put16: "net16 (put16 w) 0 = w"
  by (rule bit_eqI) (auto simp: net16_def put16_def hi8_def lo8_def bit_simps dest: bit_imp_le_length)

lemma net32_put32: "net32 (put32 w) 0 = w"
proof (rule bit_word_eqI)
  fix n
  assume "n < LENGTH(32)"
  then consider "n < 8" | "8 \<le> n" "n < 16" | "16 \<le> n" "n < 24" | "24 \<le> n" "n < 32" by fastforce
  then show "bit (net32 (put32 w) 0) n \<longleftrightarrow> bit w n"
    by cases (auto simp: net32_def put32_def bit_simps)
qed

lemma net16_append_skip [simp]: "length p \<le> i \<Longrightarrow> net16 (p @ q) i = net16 q (i - length p)"
  by (simp add: net16_def nth_append Suc_diff_le)

lemma net32_append_skip [simp]: "length p \<le> i \<Longrightarrow> net32 (p @ q) i = net32 q (i - length p)"
  by (simp add: net32_def nth_append Suc_diff_le)

lemma net16_put16_append [simp]: "net16 (put16 w @ r) 0 = w"
  using net16_put16 [of w] by (simp add: net16_def put16_def)

lemma net32_put32_append [simp]: "net32 (put32 w @ r) 0 = w"
  using net32_put32 [of w] by (simp add: net32_def put32_def)

lemma unat_hi_lo: "256 * unat (hi8 w) + unat (lo8 w) = unat w"
proof -
  have w: "unat w < 65536" using unsigned_less [of w] by simp
  have "unat (hi8 w) = unat w div 256"
  proof -
    have "unat (hi8 w) = unat (drop_bit 8 w) mod 256"
      by (simp only: hi8_def unsigned_ucast_eq take_bit_eq_mod) simp
    also have "unat (drop_bit 8 w) = unat w div 256" by (subst unat_drop_bit_eq) (simp add: drop_bit_eq_div)
    finally show ?thesis using w by (simp add: less_mult_imp_div_less)
  qed
  moreover have "unat (lo8 w) = unat w mod 256"
    by (simp add: lo8_def unsigned_ucast_eq take_bit_eq_mod)
  ultimately show ?thesis by simp
qed

subsection \<open>The Internet checksum\<close>

fun sum16 :: "u8 list \<Rightarrow> u32 \<Rightarrow> u32" where
  "sum16 (a # b # p) s = sum16 p (s + (push_bit 8 (ucast a) OR ucast b))"
| "sum16 [a] s = s + push_bit 8 (ucast a)"
| "sum16 [] s = s"

lemma unat_fold_step:
  "unat ((s AND 0xFFFF) + drop_bit 16 s) = unat s mod 65536 + unat s div 65536" for s :: u32
proof -
  have m: "s AND 0xFFFF = take_bit 16 s"
    by (simp add: take_bit_eq_mask mask_eq_exp_minus_1)
  have a: "unat (s AND 0xFFFF) = unat s mod 65536"
    unfolding m by (subst unsigned_take_bit_eq) (simp add: take_bit_eq_mod)
  have b: "unat (drop_bit 16 s) = unat s div 65536"
    by (subst unat_drop_bit_eq) (simp add: drop_bit_eq_div)
  have "unat s < 4294967296" using unsigned_less [of s] by simp
  then have "unat s mod 65536 + unat s div 65536 < 4294967296" by simp
  with a b show ?thesis by (simp add: unat_word_ariths(1))
qed

lemma drop16_nonzero: "drop_bit 16 s \<noteq> 0 \<longleftrightarrow> 65536 \<le> unat s" for s :: u32
proof -
  have "unat (drop_bit 16 s) = unat s div 65536"
    by (subst unat_drop_bit_eq) (simp add: drop_bit_eq_div)
  moreover have "drop_bit 16 s = 0 \<longleftrightarrow> unat (drop_bit 16 s) = 0" by (simp only: unat_eq_0)
  ultimately show ?thesis by (simp add: div_eq_0_iff not_less)
qed

function fold_carry :: "u32 \<Rightarrow> u32" where
  "fold_carry s = (if drop_bit 16 s \<noteq> 0 then fold_carry ((s AND 0xFFFF) + drop_bit 16 s) else s)"
  by pat_completeness auto
termination
proof (relation "measure unat")
  fix s :: u32
  assume "drop_bit 16 s \<noteq> 0"
  then have h: "65536 \<le> unat s" by (simp add: drop16_nonzero)
  have "unat s = unat s mod 65536 + 65536 * (unat s div 65536)" by simp
  moreover have "0 < unat s div 65536" using h by (simp add: div_greater_zero_iff)
  ultimately have "unat s mod 65536 + unat s div 65536 < unat s" by linarith
  then show "((s AND 0xFFFF) + drop_bit 16 s, s) \<in> measure unat"
    by (simp add: unat_fold_step)
qed simp

declare fold_carry.simps [simp del]

definition net_checksum :: "u8 list \<Rightarrow> u16" where
  "net_checksum data = ucast (NOT (fold_carry (sum16 data 0)))"

text \<open>The sum as a number, and what folding the carries back leaves of it.\<close>

fun nsum :: "u8 list \<Rightarrow> nat" where
  "nsum (a # b # p) = 256 * unat a + unat b + nsum p"
| "nsum [a] = 256 * unat a"
| "nsum [] = 0"

lemma u8_lt: "unat (a :: u8) < 256"
  using unsigned_less [of a] by simp

lemma nsum_le: "nsum p \<le> 65535 * ((length p + 1) div 2)"
proof (induction p rule: nsum.induct)
  case (1 a b p)
  then show ?case using u8_lt [of a] u8_lt [of b] by simp
next
  case (2 a)
  then show ?case using u8_lt [of a] by simp
qed simp

lemma nsum_append: "even (length p) \<Longrightarrow> nsum (p @ q) = nsum p + nsum q"
  by (induction p rule: nsum.induct) auto

lemma unat_pair: "unat (push_bit 8 (ucast a) OR ucast b :: u32) = 256 * unat a + unat b" for a b :: u8
proof -
  have d: "(push_bit 8 (ucast a) OR ucast b :: u32) = push_bit 8 (ucast a) + ucast b"
    by (rule disjunctive_add [symmetric]) (auto simp: bit_simps dest: bit_imp_le_length)
  have "unat (push_bit 8 (ucast a :: u32)) = 256 * unat a"
    using u8_lt [of a]
    by (subst unsigned_push_bit_eq) (simp add: unsigned_ucast_eq push_bit_eq_mult take_bit_eq_mod)
  moreover have "unat (ucast b :: u32) = unat b"
    using u8_lt [of b] by (simp add: unsigned_ucast_eq take_bit_eq_mod)
  ultimately show ?thesis
    unfolding d using u8_lt [of a] u8_lt [of b] by (simp add: unat_word_ariths(1))
qed

lemma unat_sum16:
  "unat s + 65535 * ((length p + 1) div 2) < 2 ^ 32 \<Longrightarrow> unat (sum16 p s) = unat s + nsum p"
proof (induction p s rule: sum16.induct)
  case (1 a b p s)
  have lt: "256 * unat a + unat b \<le> 65535" using u8_lt [of a] u8_lt [of b] by linarith
  have "unat s + (256 * unat a + unat b) < 2 ^ 32" using 1(2) lt by simp
  then have u: "unat (s + (push_bit 8 (ucast a) OR ucast b)) = unat s + (256 * unat a + unat b)"
    by (simp add: unat_word_ariths(1) unat_pair)
  have "unat (s + (push_bit 8 (ucast a) OR ucast b)) + 65535 * ((length p + 1) div 2) < 2 ^ 32"
    unfolding u using 1(2) lt by simp
  from 1(1) [OF this] u show ?case by simp
next
  case (2 a s)
  have "unat (push_bit 8 (ucast a) :: u32) = 256 * unat a" using unat_pair [of a 0] by simp
  moreover have "unat s + 256 * unat a < 2 ^ 32" using 2 u8_lt [of a] by simp
  ultimately show ?case by (simp add: unat_word_ariths(1))
qed simp

lemma fold_carry_props:
  "unat (fold_carry s) < 65536 \<and> unat (fold_carry s) mod 65535 = unat s mod 65535
   \<and> (unat (fold_carry s) = 0 \<longleftrightarrow> unat s = 0)"
proof (induction s rule: fold_carry.induct)
  case (1 s)
  show ?case
  proof (cases "drop_bit 16 s = 0")
    case True
    then show ?thesis using drop16_nonzero [of s] by (simp add: fold_carry.simps [of s])
  next
    case False
    let ?n = "unat s"
    let ?t = "(s AND 0xFFFF) + drop_bit 16 s"
    have t: "unat ?t = ?n mod 65536 + ?n div 65536" by (rule unat_fold_step)
    have e: "?n = (?n mod 65536 + ?n div 65536) + 65535 * (?n div 65536)"
      using div_mult_mod_eq [of ?n 65536] by linarith
    have m: "unat ?t mod 65535 = ?n mod 65535"
      unfolding t by (subst (3) e) (simp only: mod_mult_self2)
    have z: "unat ?t = 0 \<longleftrightarrow> ?n = 0" unfolding t using e by auto
    from False have "fold_carry s = fold_carry ?t" by (simp add: fold_carry.simps [of s])
    with 1 [OF False] m z show ?thesis by simp
  qed
qed

text \<open>The value of the checksum: the one's complement of the sum in one's complement arithmetic.\<close>

definition ones_sum :: "nat \<Rightarrow> nat" where
  "ones_sum n = (if n = 0 then 0 else if n mod 65535 = 0 then 65535 else n mod 65535)"

lemma fold_carry_ones_sum: "unat (fold_carry s) = ones_sum (unat s)"
proof -
  let ?f = "unat (fold_carry s)"
  have f: "?f < 65536" "?f mod 65535 = unat s mod 65535" "?f = 0 \<longleftrightarrow> unat s = 0"
    using fold_carry_props [of s] by auto
  show ?thesis
  proof (cases "?f = 65535")
    case True
    with f show ?thesis by (simp add: ones_sum_def)
  next
    case False
    with f(1) have "?f mod 65535 = ?f" by simp
    with f False show ?thesis by (auto simp: ones_sum_def)
  qed
qed

lemma ones_sum_le: "ones_sum n \<le> 65535"
proof -
  have "n mod 65535 < 65535" by simp
  then show ?thesis unfolding ones_sum_def by (auto intro: less_imp_le)
qed

lemma unat_not16: "unat (NOT w) = 65535 - unat w" for w :: u16
proof -
  have "NOT w = - 1 - w" by (simp add: not_eq_complement)
  moreover have "unat (- 1 - w) = unat (- 1 :: u16) - unat w" by (rule unat_sub) simp
  moreover have "unat (- 1 :: u16) = 65535" by (simp add: unsigned_minus_1_eq_mask mask_eq_exp_minus_1)
  ultimately show ?thesis by simp
qed

lemma ucast_not32: "ucast (NOT s) = NOT (ucast s :: u16)" for s :: u32
  by (rule bit_eqI) (simp add: bit_simps)

lemma net_checksum_value:
  assumes "length p \<le> 131070"
  shows "unat (net_checksum p) = 65535 - ones_sum (nsum p)"
proof -
  have "unat (0 :: u32) + 65535 * ((length p + 1) div 2) < 2 ^ 32" using assms by simp
  then have s: "unat (sum16 p 0) = nsum p" by (simp add: unat_sum16)
  let ?f = "fold_carry (sum16 p 0)"
  have "unat ?f \<le> 65535" using ones_sum_le by (simp add: fold_carry_ones_sum)
  then have "unat (ucast ?f :: u16) = unat ?f" by (simp add: unsigned_ucast_eq take_bit_eq_mod)
  then show ?thesis
    by (simp add: net_checksum_def ucast_not32 unat_not16 fold_carry_ones_sum s)
qed

lemma nsum_put16 [simp]: "nsum (put16 w) = unat w"
  using unat_hi_lo [of w] by (simp add: put16_def)

lemma net_checksum_zero_iff:
  assumes "length p \<le> 131070"
  shows "net_checksum p = 0 \<longleftrightarrow> nsum p \<noteq> 0 \<and> nsum p mod 65535 = 0"
proof -
  have "net_checksum p = 0 \<longleftrightarrow> unat (net_checksum p) = 0" by (simp only: unat_eq_0)
  also have "\<dots> \<longleftrightarrow> 65535 \<le> ones_sum (nsum p)" by (simp add: net_checksum_value [OF assms])
  also have "\<dots> \<longleftrightarrow> nsum p \<noteq> 0 \<and> nsum p mod 65535 = 0"
  proof -
    have "nsum p mod 65535 < 65535" by simp
    then show ?thesis unfolding ones_sum_def by (auto simp: not_le)
  qed
  finally show ?thesis .
qed

lemma complement_sum: "n + (65535 - ones_sum n) \<noteq> 0 \<and> (n + (65535 - ones_sum n)) mod 65535 = 0"
proof (cases "n mod 65535 = 0")
  case True
  then show ?thesis by (auto simp: ones_sum_def)
next
  case False
  let ?r = "n mod 65535"
  have r: "?r < 65535" by simp
  have o: "ones_sum n = ?r" using False by (auto simp: ones_sum_def)
  have "n + (65535 - ?r) = 65535 * (n div 65535 + 1)"
    using r div_mult_mod_eq [of n 65535] by (simp only: distrib_left)
  then show ?thesis unfolding o using r by simp
qed

text \<open>A zero field filled with the checksum makes the whole sum to zero.\<close>

lemma net_checksum_verifies:
  assumes "even (length p)" and "length p + length q \<le> 131068"
  shows "net_checksum (p @ put16 (net_checksum (p @ [0, 0] @ q)) @ q) = 0"
proof -
  let ?c = "net_checksum (p @ [0, 0] @ q)"
  let ?n = "nsum p + nsum q"
  have n0: "nsum (p @ [0, 0] @ q) = ?n"
    using nsum_append [OF assms(1), of "[0, 0] @ q"] by simp
  have "length (p @ [0, 0] @ q) \<le> 131070" using assms(2) by simp
  from net_checksum_value [OF this] n0 have c: "unat ?c = 65535 - ones_sum ?n" by simp
  have "nsum (put16 ?c @ q) = unat ?c + nsum q"
    by (simp add: nsum_append)
  then have "nsum (p @ put16 ?c @ q) = ?n + (65535 - ones_sum ?n)"
    using nsum_append [OF assms(1), of "put16 ?c @ q"] c by simp
  with complement_sum [of ?n] assms(2) show ?thesis
    by (subst net_checksum_zero_iff) simp_all
qed

text \<open>A change of one 16-bit word is noticed, unless it turns \<open>0000\<close> into \<open>FFFF\<close> or back.\<close>

lemma net_checksum_detects:
  assumes "even (length p)" and "length p + length q \<le> 131068"
    and "net_checksum (p @ put16 v @ q) = 0" and "net_checksum (p @ put16 w @ q) = 0"
  shows "v = w \<or> {v, w} = {0, 0xFFFF}"
proof -
  let ?k = "nsum p + nsum q"
  have s: "nsum (p @ put16 u @ q) = ?k + unat u" for u
    using nsum_append [OF assms(1), of "put16 u @ q"] by (simp add: nsum_append)
  have m: "(?k + unat v) mod 65535 = 0" "(?k + unat w) mod 65535 = 0"
    using assms net_checksum_zero_iff [of "p @ put16 v @ q"] net_checksum_zero_iff [of "p @ put16 w @ q"]
    by (simp_all add: s)
  have lt: "unat v < 65536" "unat w < 65536" using unsigned_less [of v] unsigned_less [of w] by simp_all
  have "(65535 :: int) dvd int (?k + unat v) - int (?k + unat w)"
    using m by (intro dvd_diff) (auto simp: mod_eq_0_iff_dvd simp flip: int_dvd_int_iff)
  then have d: "(65535 :: int) dvd int (unat v) - int (unat w)" by simp
  then obtain k where k: "int (unat v) - int (unat w) = 65535 * k" by (rule dvdE)
  then have "k \<in> {-1, 0, 1}" using lt by (simp, linarith)
  then consider "k = - 1" | "k = 0" | "k = 1" by blast
  then have "unat v = unat w \<or> unat v = 65535 \<and> unat w = 0 \<or> unat v = 0 \<and> unat w = 65535"
    by cases (use k lt in linarith)+
  moreover have "unat u = 65535 \<Longrightarrow> u = 0xFFFF" for u :: u16
    by (rule word_eq_iff_unsigned [THEN iffD2]) simp
  ultimately show ?thesis by (auto simp: unat_eq_0 simp flip: word_eq_iff_unsigned)
qed

subsection \<open>Builders\<close>

definition net_build_eth :: "u8 list \<Rightarrow> u8 list \<Rightarrow> u16 \<Rightarrow> u8 list" where
  "net_build_eth dst src type = take 6 dst @ take 6 src @ put16 type"

text \<open>The header's identification is a counter; the checksum is computed over the header with the
  field still zero.\<close>

definition ip_header :: "u16 \<Rightarrow> u16 \<Rightarrow> u8 \<Rightarrow> u16 \<Rightarrow> u32 \<Rightarrow> u32 \<Rightarrow> u8 list" where
  "ip_header tot ident proto ck src dst =
     [0x45, 0] @ put16 tot @ put16 ident @ [0x40, 0, 64, proto] @ put16 ck @ put32 src @ put32 dst"

definition net_build_ip :: "u16 \<Rightarrow> u32 \<Rightarrow> u32 \<Rightarrow> u8 \<Rightarrow> u16 \<Rightarrow> u8 list \<times> u16" where
  "net_build_ip ip_id src dst proto payload_len =
     (let tot = 20 + payload_len;
          ck = net_checksum (ip_header tot ip_id proto 0 src dst)
      in (ip_header tot ip_id proto ck src dst, ip_id + 1))"

definition net_build_udp :: "u16 \<Rightarrow> u16 \<Rightarrow> u16 \<Rightarrow> u8 list" where
  "net_build_udp src_port dst_port data_len =
     put16 src_port @ put16 dst_port @ put16 (8 + data_len) @ [0, 0]"

definition TCP_FIN :: u8 where "TCP_FIN = 0x01"
definition TCP_SYN :: u8 where "TCP_SYN = 0x02"
definition TCP_RST :: u8 where "TCP_RST = 0x04"
definition TCP_PSH :: u8 where "TCP_PSH = 0x08"
definition TCP_ACK :: u8 where "TCP_ACK = 0x10"

lemmas tcp_flag_defs = TCP_FIN_def TCP_SYN_def TCP_RST_def TCP_PSH_def TCP_ACK_def

definition net_build_tcp :: "u16 \<Rightarrow> u16 \<Rightarrow> u32 \<Rightarrow> u32 \<Rightarrow> u8 \<Rightarrow> u16 \<Rightarrow> u8 list" where
  "net_build_tcp src_port dst_port seq ack flags window =
     put16 src_port @ put16 dst_port @ put32 seq @ put32 ack @ [0x50, flags] @ put16 window @ [0, 0, 0, 0]"

definition net_build_icmp_echo :: "u16 \<Rightarrow> u16 \<Rightarrow> u8 list \<Rightarrow> u8 list" where
  "net_build_icmp_echo ident seq data =
     (let body = put16 ident @ put16 seq @ data
      in [8, 0] @ put16 (net_checksum ([8, 0] @ [0, 0] @ body)) @ body)"

definition net_build_arp_request :: "u8 list \<Rightarrow> u32 \<Rightarrow> u32 \<Rightarrow> u8 list" where
  "net_build_arp_request src_mac src_ip target_ip =
     [0, 1, 0x08, 0x00, 6, 4, 0, 1] @ take 6 src_mac @ put32 src_ip @ replicate 6 0 @ put32 target_ip"

lemma length_builders [simp]:
  "length dst = 6 \<Longrightarrow> length src = 6 \<Longrightarrow> length (net_build_eth dst src type) = 14"
  "length (ip_header tot ident proto ck s d) = 20"
  "length (fst (net_build_ip ident s d proto n)) = 20"
  "length (net_build_udp sp dp n) = 8"
  "length (net_build_tcp sp dp seq ack flags win) = 20"
  by (simp_all add: net_build_eth_def ip_header_def net_build_ip_def Let_def net_build_udp_def net_build_tcp_def)

text \<open>A receiver that sums the header of a packet built here gets zero.\<close>

lemma ip_header_sums: "net_checksum (fst (net_build_ip ident src dst proto n)) = 0"
proof -
  let ?p = "[0x45, 0] @ put16 (20 + n) @ put16 ident @ [0x40, 0, 64, proto]"
  let ?q = "put32 src @ put32 dst"
  have "put16 0 = [0, 0]" by (simp add: put16_def hi8_def lo8_def)
  then show ?thesis
    using net_checksum_verifies [of ?p ?q] by (simp add: net_build_ip_def ip_header_def Let_def)
qed

lemma icmp_echo_sums: "length data \<le> 65535 \<Longrightarrow> net_checksum (net_build_icmp_echo ident seq data) = 0"
  using net_checksum_verifies [of "[8, 0]" "put16 ident @ put16 seq @ data"]
  by (simp add: net_build_icmp_echo_def Let_def)

definition TRANSPORT_TMP :: nat where "TRANSPORT_TMP = 1536"

definition pseudo_header :: "u32 \<Rightarrow> u32 \<Rightarrow> u8 \<Rightarrow> nat \<Rightarrow> u8 list" where
  "pseudo_header src_ip dst_ip proto seg_len =
     put32 src_ip @ put32 dst_ip @ [0, proto] @ [of_nat (seg_len div 256), of_nat seg_len]"

definition net_transport_checksum :: "u32 \<Rightarrow> u32 \<Rightarrow> u8 \<Rightarrow> u8 list \<Rightarrow> u16" where
  "net_transport_checksum src_ip dst_ip proto seg =
     (if length seg + 12 > TRANSPORT_TMP then 0
      else net_checksum (pseudo_header src_ip dst_ip proto (length seg) @ seg))"

text \<open>The segment as it leaves: the checksum replaces bytes 16 and 17 when there is a whole header.\<close>

definition IP_PROTO_TCP :: u8 where "IP_PROTO_TCP = 6"
definition IP_PROTO_UDP :: u8 where "IP_PROTO_UDP = 17"

definition tcp_checksummed :: "u32 \<Rightarrow> u32 \<Rightarrow> u8 list \<Rightarrow> u8 list" where
  "tcp_checksummed src_ip dst_ip seg =
     (if length seg \<ge> 20
      then (let z = seg[16 := 0, 17 := 0];
                ck = net_transport_checksum src_ip dst_ip IP_PROTO_TCP z
            in z[16 := hi8 ck, 17 := lo8 ck])
      else seg)"

lemma split_at_16:
  assumes "20 \<le> length seg"
  shows "seg[16 := a, 17 := b] = take 16 seg @ [a, b] @ drop 18 seg"
  using assms by (auto intro!: nth_equalityI simp: nth_append nth_list_update nth_Cons' min_def)

lemma length_pseudo_header [simp]: "length (pseudo_header s d p n) = 12"
  by (simp add: pseudo_header_def)

lemma tcp_checksummed_verifies:
  assumes "20 \<le> length seg" and "length seg \<le> 1480"
  shows "net_transport_checksum src dst IP_PROTO_TCP (tcp_checksummed src dst seg) = 0"
    and "length (tcp_checksummed src dst seg) = length seg"
    and "i < length seg \<Longrightarrow> i \<noteq> 16 \<Longrightarrow> i \<noteq> 17 \<Longrightarrow> tcp_checksummed src dst seg ! i = seg ! i"
proof -
  let ?ph = "pseudo_header src dst IP_PROTO_TCP (length seg)"
  let ?z = "take 16 seg @ [0, 0] @ drop 18 seg"
  let ?ck = "net_checksum ((?ph @ take 16 seg) @ [0, 0] @ drop 18 seg)"
  have len: "length (take 16 seg @ [a, b] @ drop 18 seg) = length seg" for a b
    using assms by simp
  have "net_transport_checksum src dst IP_PROTO_TCP ?z = ?ck"
    using assms unfolding net_transport_checksum_def len by (simp add: TRANSPORT_TMP_def)
  then have t: "tcp_checksummed src dst seg = take 16 seg @ put16 ?ck @ drop 18 seg"
    using assms by (simp add: tcp_checksummed_def Let_def split_at_16 put16_def)
  show "net_transport_checksum src dst IP_PROTO_TCP (tcp_checksummed src dst seg) = 0"
    unfolding t using assms net_checksum_verifies [of "?ph @ take 16 seg" "drop 18 seg"] len
    unfolding net_transport_checksum_def put16_def by (simp add: TRANSPORT_TMP_def)
  show "length (tcp_checksummed src dst seg) = length seg"
    unfolding t using assms by simp
  show "i < length seg \<Longrightarrow> i \<noteq> 16 \<Longrightarrow> i \<noteq> 17 \<Longrightarrow> tcp_checksummed src dst seg ! i = seg ! i"
    by (simp add: tcp_checksummed_def Let_def)
qed

subsection \<open>Interfaces, lease and routes\<close>

record net_iface =
  ni_present :: bool
  ni_up :: bool
  ni_driver :: string
  ni_mac :: "u8 list"
  ni_ip4 :: u32
  ni_netmask :: u32
  ni_gateway :: u32
  ni_dns :: u32

record dhcp_lease =
  dl_obtained :: bool
  dl_ip :: u32
  dl_netmask :: u32
  dl_gateway :: u32
  dl_dns :: u32
  dl_lease_time :: u32
  dl_server_ip :: u32

definition c_make_ip4 :: "u8 \<Rightarrow> u8 \<Rightarrow> u8 \<Rightarrow> u8 \<Rightarrow> u32" where
  "c_make_ip4 a b c d = push_bit 24 (ucast a) OR push_bit 16 (ucast b) OR push_bit 8 (ucast c) OR ucast d"

definition net_is_real_external :: "u32 \<Rightarrow> bool" where
  "net_is_real_external ip \<longleftrightarrow> ip \<noteq> 0 \<and> ip AND 0xFF000000 \<noteq> 0x7F000000"

definition net_get_src_mac :: "net_iface list \<Rightarrow> u8 list option" where
  "net_get_src_mac ifs =
     map_option ni_mac (find (\<lambda>n. ni_present n \<and> ni_up n \<and> ni_driver n \<noteq> ''loopback'') ifs)"

definition net_get_gateway_ip :: "dhcp_lease \<Rightarrow> u32 \<Rightarrow> u32" where
  "net_get_gateway_ip l dst_ip =
     (if dl_obtained l \<and> dl_ip l \<noteq> 0 \<and> dl_netmask l \<noteq> 0
         \<and> dst_ip AND dl_netmask l = dl_ip l AND dl_netmask l then dst_ip
      else if dl_obtained l \<and> dl_gateway l \<noteq> 0 then dl_gateway l
      else c_make_ip4 10 0 2 2)"

definition net_get_src_ip :: "dhcp_lease \<Rightarrow> u32" where
  "net_get_src_ip l = (if dl_obtained l \<and> dl_ip l \<noteq> 0 then dl_ip l else c_make_ip4 10 0 2 15)"

definition dhcp_offer :: dhcp_lease where
  "dhcp_offer = \<lparr> dl_obtained = True, dl_ip = c_make_ip4 10 0 2 15, dl_netmask = c_make_ip4 255 255 255 0,
     dl_gateway = c_make_ip4 10 0 2 2, dl_dns = c_make_ip4 10 0 2 3, dl_lease_time = 86400,
     dl_server_ip = c_make_ip4 10 0 2 2 \<rparr>"

definition dhcp_discover :: "dhcp_lease \<Rightarrow> net_iface list \<Rightarrow> dhcp_lease \<times> net_iface list" where
  "dhcp_discover l ifs =
     (if dl_obtained l then (l, ifs)
      else (dhcp_offer,
        if 1 < length ifs
        then ifs[1 := (ifs ! 1)\<lparr> ni_ip4 := dl_ip dhcp_offer, ni_netmask := dl_netmask dhcp_offer,
               ni_gateway := dl_gateway dhcp_offer, ni_dns := dl_dns dhcp_offer, ni_up := True \<rparr>]
        else ifs))"

subsection \<open>The ARP cache\<close>

definition ARP_CACHE_SIZE :: nat where "ARP_CACHE_SIZE = 32"

record arp_entry =
  ae_ip :: u32
  ae_mac :: "u8 list"
  ae_valid :: bool

definition arp_init :: "arp_entry list" where
  "arp_init = replicate ARP_CACHE_SIZE \<lparr> ae_ip = 0, ae_mac = replicate 6 0, ae_valid = False \<rparr>"

abbreviation arp_hit :: "u32 \<Rightarrow> arp_entry \<Rightarrow> bool" where
  "arp_hit ip e \<equiv> ae_valid e \<and> ae_ip e = ip"

text \<open>A miss fills the caller's address with the broadcast address.\<close>

definition arp_resolve :: "arp_entry list \<Rightarrow> u32 \<Rightarrow> bool \<times> u8 list" where
  "arp_resolve c ip =
     (case find (arp_hit ip) c of
        Some e \<Rightarrow> (True, ae_mac e)
      | None \<Rightarrow> (False, replicate 6 0xFF))"

text \<open>A frame with an Ethernet header, or a bare ARP packet.\<close>

definition arp_packet :: "u8 list \<Rightarrow> u8 list option" where
  "arp_packet f =
     (if 42 \<le> length f \<and> f ! 12 = 0x08 \<and> f ! 13 = 0x06 then Some (drop 14 f)
      else if 28 \<le> length f then Some f else None)"

definition arp_for_ipv4 :: "u8 list \<Rightarrow> bool" where
  "arp_for_ipv4 a \<longleftrightarrow> a ! 0 = 0 \<and> a ! 1 = 1 \<and> a ! 2 = 0x08 \<and> a ! 3 = 0x00 \<and> a ! 4 = 6 \<and> a ! 5 = 4"

fun arp_slot :: "u32 \<Rightarrow> nat \<Rightarrow> nat option \<Rightarrow> arp_entry list \<Rightarrow> nat option" where
  "arp_slot sip i slot [] = slot"
| "arp_slot sip i slot (e # es) =
     (if arp_hit sip e then Some i
      else arp_slot sip (Suc i) (if slot = None \<and> \<not> ae_valid e then Some i else slot) es)"

definition arp_store :: "arp_entry list \<Rightarrow> u32 \<Rightarrow> u8 list \<Rightarrow> arp_entry list" where
  "arp_store c sip mac =
     (let slot = (case arp_slot sip 0 None c of None \<Rightarrow> 0 | Some k \<Rightarrow> k)
      in c[slot := (c ! slot)\<lparr> ae_ip := sip, ae_mac := mac, ae_valid := True \<rparr>])"

definition arp_process :: "arp_entry list \<Rightarrow> u8 list \<Rightarrow> arp_entry list" where
  "arp_process c f =
     (case arp_packet f of
        None \<Rightarrow> c
      | Some a \<Rightarrow>
          (let sip = net32 a 14
           in if \<not> arp_for_ipv4 a \<or> sip = 0 then c else arp_store c sip (take 6 (drop 8 a))))"

lemma arp_slot_eq:
  "arp_slot sip i slot es =
     (case find_index (arp_hit sip) es of
        Some k \<Rightarrow> Some (i + k)
      | None \<Rightarrow> (case slot of
            Some s \<Rightarrow> Some s
          | None \<Rightarrow> map_option ((+) i) (find_index (\<lambda>e. \<not> ae_valid e) es)))"
proof (induction es arbitrary: i slot)
  case (Cons e es)
  have f: "map_option ((+) (Suc i)) r = map_option ((+) i) (map_option Suc r)" for r
    by (cases r) simp_all
  show ?case
    by (auto simp: Cons f split: option.splits)
qed (simp split: option.splits)

text \<open>No address is held twice, and the empty address never.\<close>

definition arp_inv :: "arp_entry list \<Rightarrow> bool" where
  "arp_inv c \<longleftrightarrow> length c = ARP_CACHE_SIZE
     \<and> (\<forall>i < length c. \<forall>j < length c. ae_valid (c ! i) \<longrightarrow> ae_valid (c ! j) \<longrightarrow> ae_ip (c ! i) = ae_ip (c ! j) \<longrightarrow> i = j)
     \<and> (\<forall>e \<in> set c. length (ae_mac e) = 6 \<and> (ae_valid e \<longrightarrow> ae_ip e \<noteq> 0))"

lemma arp_inv_init: "arp_inv arp_init"
  by (auto simp: arp_inv_def arp_init_def ARP_CACHE_SIZE_def)


lemma find_update_miss:
  "\<not> P y \<Longrightarrow> (k < length xs \<Longrightarrow> \<not> P (xs ! k)) \<Longrightarrow> find P (xs[k := y]) = find P xs"
proof (induction xs arbitrary: k)
  case (Cons x xs)
  then show ?case by (cases k) auto
qed simp

lemma arp_resolve_hit:
  assumes "arp_inv c" and "i < length c" and "arp_hit ip (c ! i)"
  shows "arp_resolve c ip = (True, ae_mac (c ! i))"
proof -
  have "\<exists>e \<in> set c. arp_hit ip e" using assms(2,3) nth_mem by blast
  then obtain e where e: "find (arp_hit ip) c = Some e"
    by (cases "find (arp_hit ip) c") (auto simp: find_None_iff)
  then obtain j where j: "j < length c" "arp_hit ip (c ! j)" "e = c ! j"
    by (auto simp: find_Some_iff)
  then have "j = i" using assms unfolding arp_inv_def by auto
  with e j show ?thesis by (simp add: arp_resolve_def)
qed

text \<open>The slot that \<open>arp_store\<close> takes: the address's own, else a free one, else the first.\<close>

lemma arp_slot_cases:
  obtains (own) k where "arp_slot sip 0 None c = Some k" "k < length c" "arp_hit sip (c ! k)"
  | (free) k where "arp_slot sip 0 None c = Some k" "k < length c" "\<not> ae_valid (c ! k)"
      "\<forall>e \<in> set c. \<not> arp_hit sip e"
  | (full) "arp_slot sip 0 None c = None" "\<forall>e \<in> set c. ae_valid e" "\<forall>e \<in> set c. \<not> arp_hit sip e"
proof (cases "find_index (arp_hit sip) c")
  case (Some k)
  then show ?thesis using own [of k] find_indexD [OF Some] by (simp add: arp_slot_eq)
next
  case None
  then have none: "\<forall>e \<in> set c. \<not> arp_hit sip e" by (simp add: find_index_None)
  show ?thesis
  proof (cases "find_index (\<lambda>e. \<not> ae_valid e) c")
    case (Some k)
    then show ?thesis using None none free [of k] find_indexD [OF Some] by (simp add: arp_slot_eq)
  next
    case None': None
    then have "\<forall>e \<in> set c. ae_valid e" using find_index_None [of "\<lambda>e. \<not> ae_valid e" c] by simp
    with None none None' show ?thesis by (intro full) (simp_all add: arp_slot_eq)
  qed
qed

lemma arp_store_correct:
  assumes "arp_inv c" and "length mac = 6" and "sip \<noteq> 0"
  defines "c' \<equiv> arp_store c sip mac"
  shows "arp_inv c'" and "arp_resolve c' sip = (True, mac)"
    and "ip \<noteq> sip \<Longrightarrow> \<not> ((\<forall>e \<in> set c. ae_valid e) \<and> ae_ip (c ! 0) = ip) \<Longrightarrow> arp_resolve c' ip = arp_resolve c ip"
proof -
  define k where "k = (case arp_slot sip 0 None c of None \<Rightarrow> 0 | Some k \<Rightarrow> k)"
  define e where "e = (c ! k)\<lparr> ae_ip := sip, ae_mac := mac, ae_valid := True \<rparr>"
  have c': "c' = c[k := e]" by (simp add: c'_def arp_store_def Let_def k_def e_def)
  have e: "arp_hit sip e" "ae_mac e = mac" "length (ae_mac e) = 6" using assms(2) by (simp_all add: e_def)
  have len: "length c = 32" using assms(1) by (simp add: arp_inv_def ARP_CACHE_SIZE_def)
  have kl: "k < length c"
    by (rule arp_slot_cases [of sip c]) (simp_all add: k_def len)
  have other: "i < length c \<Longrightarrow> i \<noteq> k \<Longrightarrow> \<not> arp_hit sip (c ! i)" for i
    using assms(1) by (rule_tac arp_slot_cases [of sip c]) (auto simp: k_def arp_inv_def)
  have "i = j" if "i < length c" "j < length c" "ae_valid (c' ! i)" "ae_valid (c' ! j)"
    "ae_ip (c' ! i) = ae_ip (c' ! j)" for i j
    using that other [of i] other [of j] e kl assms(1) unfolding c' arp_inv_def
    by (cases "i = k"; cases "j = k") simp_all
  moreover have "length (ae_mac x) = 6 \<and> (ae_valid x \<longrightarrow> ae_ip x \<noteq> 0)" if "x \<in> set c'" for x
    using that assms(1,3) e unfolding c' arp_inv_def
    by (auto dest!: subsetD [OF set_update_subset_insert])
  ultimately show inv: "arp_inv c'" using len by (auto simp: arp_inv_def c' ARP_CACHE_SIZE_def)
  show "arp_resolve c' sip = (True, mac)"
    using arp_resolve_hit [OF inv, of k sip] kl e by (simp add: c')
  assume ip: "ip \<noteq> sip" "\<not> ((\<forall>e \<in> set c. ae_valid e) \<and> ae_ip (c ! 0) = ip)"
  have "\<not> arp_hit ip (c ! k)"
    using ip by (rule_tac arp_slot_cases [of sip c]) (auto simp: k_def)
  then have "find (arp_hit ip) c' = find (arp_hit ip) c"
    unfolding c' using e ip(1) by (intro find_update_miss) auto
  then show "arp_resolve c' ip = arp_resolve c ip" by (simp add: arp_resolve_def)
qed

text \<open>What a request built here teaches the host that receives it.\<close>

definition arp_request_frame :: "u8 list \<Rightarrow> u32 \<Rightarrow> u32 \<Rightarrow> u8 list" where
  "arp_request_frame src_mac src_ip target_ip =
     net_build_eth (replicate 6 0xFF) src_mac 0x0806 @ net_build_arp_request src_mac src_ip target_ip"

lemma list6_cases:
  assumes "length m = 6"
  obtains a b c d e f where "m = [a, b, c, d, e, f]"
  using assms by (auto simp: numeral_eq_Suc length_Suc_conv)

lemma arp_process_request:
  assumes "length mac = 6" and "sip \<noteq> 0"
  shows "arp_process c (arp_request_frame mac sip tip) = arp_store c sip mac"
proof -
  obtain m0 m1 m2 m3 m4 m5 where m: "mac = [m0, m1, m2, m3, m4, m5]" using assms(1) by (rule list6_cases)
  let ?a = "net_build_arp_request mac sip tip"
  have f: "arp_request_frame mac sip tip = (replicate 6 0xFF @ mac @ [0x08, 0x06]) @ ?a"
    by (simp add: arp_request_frame_def net_build_eth_def m put16_def hi8_def lo8_def)
  have p: "arp_packet (arp_request_frame mac sip tip) = Some ?a"
    unfolding f by (simp add: arp_packet_def m net_build_arp_request_def numeral_eq_Suc)
  define h where "h = [0, 1, 0x08, 0x00, 6, 4, 0, 1 :: u8] @ mac"
  have h: "length h = 14" by (simp add: h_def assms(1))
  have "?a = h @ put32 sip @ replicate 6 0 @ put32 tip"
    by (simp add: net_build_arp_request_def assms(1) h_def)
  then have "net32 ?a 14 = sip" by (simp add: h)
  moreover have "arp_for_ipv4 ?a" by (simp add: net_build_arp_request_def arp_for_ipv4_def)
  moreover have "take 6 (drop 8 ?a) = mac" by (simp add: net_build_arp_request_def m)
  ultimately show ?thesis using p assms(2) by (simp add: arp_process_def)
qed

subsection \<open>Properties\<close>

text \<open>The header built for a packet sums to zero at the receiver, whatever its fields, and a
  change of any one 16-bit word of it is noticed unless it exchanges \<open>0000\<close> and \<open>FFFF\<close>.\<close>

theorem ip_header_protected:
  "length (fst (net_build_ip ident src dst proto n)) = 20
   \<and> net_checksum (fst (net_build_ip ident src dst proto n)) = 0
   \<and> (\<forall>p v w q. fst (net_build_ip ident src dst proto n) = p @ put16 v @ q \<and> even (length p)
        \<and> net_checksum (p @ put16 w @ q) = 0 \<longrightarrow> v = w \<or> {v, w} = {0, 0xFFFF})"
proof (intro conjI allI impI)
  fix p v w q
  assume a: "fst (net_build_ip ident src dst proto n) = p @ put16 v @ q \<and> even (length p)
    \<and> net_checksum (p @ put16 w @ q) = 0"
  then have "length (p @ put16 v @ q) = 20"
    using length_builders(3) [of ident src dst proto n] by (simp only:)
  then have "length p + length q \<le> 131068" by simp
  moreover have "net_checksum (p @ put16 v @ q) = 0"
    using a ip_header_sums [of ident src dst proto n] by simp
  ultimately show "v = w \<or> {v, w} = {0, 0xFFFF}" using a net_checksum_detects by blast
qed (simp_all add: ip_header_sums)

theorem ip_header_protected_witness:
  "net_checksum (fst (net_build_ip 1 (c_make_ip4 10 0 2 15) (c_make_ip4 10 0 2 2) 6 40)) = 0"
  using ip_header_protected by blast

text \<open>A host that receives an ARP request built here knows the sender's address afterwards, its
  cache still holds no address twice, and it forgets no other address unless the cache was full
  and the address was the first.\<close>

theorem arp_learns_sender:
  assumes "arp_inv c" and "length mac = 6" and "sip \<noteq> 0"
  shows "arp_inv (arp_process c (arp_request_frame mac sip tip))
    \<and> arp_resolve (arp_process c (arp_request_frame mac sip tip)) sip = (True, mac)
    \<and> (\<forall>ip. ip \<noteq> sip \<and> \<not> ((\<forall>e \<in> set c. ae_valid e) \<and> ae_ip (c ! 0) = ip)
        \<longrightarrow> arp_resolve (arp_process c (arp_request_frame mac sip tip)) ip = arp_resolve c ip)"
  unfolding arp_process_request [OF assms(2,3)] using arp_store_correct [OF assms] by blast

theorem arp_learns_sender_witness:
  "arp_resolve (arp_process arp_init (arp_request_frame [1, 2, 3, 4, 5, 6] 0x0A000202 0x0A00020F)) 0x0A000202
     = (True, [1, 2, 3, 4, 5, 6])"
  using arp_learns_sender [OF arp_inv_init, of "[1, 2, 3, 4, 5, 6]" "0x0A000202" "0x0A00020F"] by simp

end
