(* ===== verification/KDns.thy ===== *)
theory KDns
  imports KNet KString KTask
begin

text \<open>
  Name resolution of \<^verbatim>\<open>src/compat/base.c\<close>: dotted addresses (\<open>dns_parse_ipv4\<close>, \<open>c_append_ip4\<close>), the
  names of a query (\<open>dns_read_qname\<close>), the built-in resolver and its cache (\<open>dns_resolve\<close>) and the
  reply the kernel makes up when no name server answers (\<open>dns_build_response\<close>).
\<close>

definition ENOSPC :: int where "ENOSPC = 28"

subsection \<open>Dotted addresses\<close>

definition c_append_ch :: "nat \<Rightarrow> string \<Rightarrow> char \<Rightarrow> string" where
  "c_append_ch cap d ch = (if length d + 1 < cap then d @ [ch] else d)"

fun append_digits :: "nat \<Rightarrow> string \<Rightarrow> string \<Rightarrow> string" where
  "append_digits cap d [] = d"
| "append_digits cap d (c # cs) = append_digits cap (c_append_ch cap d c) cs"

definition c_append_u32 :: "nat \<Rightarrow> string \<Rightarrow> u32 \<Rightarrow> string" where
  "c_append_u32 cap d v =
     (if v = 0 then c_append_ch cap d (CHR ''0'') else append_digits cap d (rev (dec_loop 12 (unat v))))"

definition c_append_ip4 :: "nat \<Rightarrow> string \<Rightarrow> u32 \<Rightarrow> string" where
  "c_append_ip4 cap d ip =
     (let d1 = c_append_ch cap (c_append_u32 cap d (drop_bit 24 ip AND 0xFF)) (CHR ''.'');
          d2 = c_append_ch cap (c_append_u32 cap d1 (drop_bit 16 ip AND 0xFF)) (CHR ''.'');
          d3 = c_append_ch cap (c_append_u32 cap d2 (drop_bit 8 ip AND 0xFF)) (CHR ''.'')
      in c_append_u32 cap d3 (ip AND 0xFF))"

text \<open>One run of digits: the value, the number of digits and what follows; a value above 255 is refused.\<close>

fun octet_loop :: "nat \<Rightarrow> nat \<Rightarrow> string \<Rightarrow> (nat \<times> nat \<times> string) option" where
  "octet_loop v digs [] = Some (v, digs, [])"
| "octet_loop v digs (c # s) =
     (if is_dec_digit c
      then (let v' = v * 10 + nat (uchar c - 48)
            in if 255 < v' then None else octet_loop v' (digs + 1) s)
      else Some (v, digs, c # s))"

fun ipv4_loop :: "nat \<Rightarrow> string \<Rightarrow> nat list \<Rightarrow> (nat list \<times> string) option" where
  "ipv4_loop 0 s p = Some (p, s)"
| "ipv4_loop (Suc n) [] p = Some (p, [])"
| "ipv4_loop (Suc n) (c # s) p =
     (case octet_loop 0 0 (c # s) of
        None \<Rightarrow> None
      | Some (v, digs, s') \<Rightarrow>
          if digs = 0 then None
          else (case s' of
                  [] \<Rightarrow> Some (p @ [v], [])
                | d # s'' \<Rightarrow> if d = CHR ''.'' then ipv4_loop n s'' (p @ [v]) else None))"

definition dns_parse_ipv4 :: "string \<Rightarrow> u32 option" where
  "dns_parse_ipv4 s =
     (case ipv4_loop 4 s [] of
        None \<Rightarrow> None
      | Some (p, r) \<Rightarrow>
          if length p \<noteq> 4 \<or> r \<noteq> [] then None
          else Some (c_make_ip4 (of_nat (p ! 0)) (of_nat (p ! 1)) (of_nat (p ! 2)) (of_nat (p ! 3))))"

definition octet_text :: "u32 \<Rightarrow> string" where
  "octet_text v = (if v = 0 then ''0'' else rev (dec_loop 12 (unat v)))"

lemma append_digits_fits: "length d + length cs < cap \<Longrightarrow> append_digits cap d cs = d @ cs"
  by (induction cap d cs rule: append_digits.induct) (auto simp: c_append_ch_def)

lemma length_octet_text: "unat v < 256 \<Longrightarrow> length (octet_text v) \<le> 3"
  using length_dec_loop_10 [of "unat v" 3 12] by (simp add: octet_text_def)

lemma c_append_u32_octet:
  "unat v < 256 \<Longrightarrow> length d + 3 < cap \<Longrightarrow> c_append_u32 cap d v = d @ octet_text v"
  using length_octet_text [of v]
  by (auto simp: c_append_u32_def octet_text_def c_append_ch_def append_digits_fits)

lemma octet_loop_digit:
  "d < 10 \<Longrightarrow> v * 10 + d \<le> 255 \<Longrightarrow> octet_loop v n (digit_char d # s) = octet_loop (v * 10 + d) (n + 1) s"
  by (simp add: is_dec_digit_char uchar_digit_char)

lemma octet_loop_dec:
  assumes "v \<le> 255" and "v < 10 ^ fuel"
  shows "octet_loop 0 n (rev (dec_loop fuel v) @ s) = octet_loop v (n + length (dec_loop fuel v)) s"
  using assms
proof (induction fuel arbitrary: v n s)
  case (Suc fuel)
  show ?case
  proof (cases "v = 0")
    case False
    have "v div 10 < 10 ^ fuel" using Suc.prems(2) by auto
    moreover have "v div 10 \<le> 255" using Suc.prems(1) by simp
    ultimately have "octet_loop 0 n (rev (dec_loop fuel (v div 10)) @ digit_char (v mod 10) # s)
        = octet_loop (v div 10) (n + length (dec_loop fuel (v div 10))) (digit_char (v mod 10) # s)"
      by (rule Suc.IH [rotated])
    also have "\<dots> = octet_loop v (n + length (dec_loop fuel (v div 10)) + 1) s"
      using Suc.prems(1) octet_loop_digit [of "v mod 10" "v div 10"] by simp
    finally show ?thesis using False by simp
  qed simp
qed simp

lemma octet_loop_text:
  assumes "unat v < 256" and "s = [] \<or> hd s = CHR ''.''"
  shows "\<exists>k. 0 < k \<and> octet_loop 0 0 (octet_text v @ s) = Some (unat v, k, s)"
proof -
  have stop: "octet_loop w k s = Some (w, k, s)" for w k
    using assms(2) by (cases s) (auto simp: is_dec_digit_def uchar_def)
  show ?thesis
  proof (cases "v = 0")
    case True
    have "octet_loop 0 0 (CHR ''0'' # s) = octet_loop 0 1 s"
    proof -
      have "digit_char 0 = CHR ''0''" by (simp add: digit_char_def char_of_def bit_0)
      then show ?thesis using octet_loop_digit [of 0 0 0 s] by (simp del: octet_loop.simps)
    qed
    with True stop show ?thesis by (auto simp: octet_text_def simp del: octet_loop.simps)
  next
    case False
    then have nz: "unat v \<noteq> 0" by (simp add: unat_eq_0)
    have "octet_loop 0 0 (octet_text v @ s) = Some (unat v, length (dec_loop 12 (unat v)), s)"
    proof -
      have "unat v \<le> 255" "unat v < 10 ^ 12" using assms(1) by simp_all
      from octet_loop_dec [OF this, of 0 s] show ?thesis
        by (simp only: octet_text_def False if_False stop add_0)
    qed
    moreover have "0 < length (dec_loop 12 (unat v))" using dec_loop_nonempty [of "unat v" 12] nz by simp
    ultimately show ?thesis by blast
  qed
qed

lemma octet_text_Cons: "octet_text v \<noteq> []"
proof (cases "v = 0")
  case False
  then have "0 < unat v" by (simp add: unat_gt_0)
  with False dec_loop_nonempty [of "unat v" 12] show ?thesis unfolding octet_text_def by simp
qed (simp add: octet_text_def)

lemma ipv4_loop_octet:
  assumes "unat v < 256" and "s = [] \<or> hd s = CHR ''.''"
  shows "ipv4_loop (Suc n) (octet_text v @ s) p
    = (if s = [] then Some (p @ [unat v], []) else ipv4_loop n (tl s) (p @ [unat v]))"
proof -
  obtain k where k: "0 < k" "octet_loop 0 0 (octet_text v @ s) = Some (unat v, k, s)"
    using octet_loop_text [OF assms] by blast
  obtain c r where c: "octet_text v @ s = c # r" using octet_text_Cons [of v] by (cases "octet_text v @ s") auto
  have "ipv4_loop (Suc n) (c # r) p = (if s = [] then Some (p @ [unat v], []) else ipv4_loop n (tl s) (p @ [unat v]))"
    using k(1) assms(2) k(2) [unfolded c] by (cases s) (simp_all del: octet_loop.simps)
  then show ?thesis by (simp only: c)
qed

lemma unat_and_ff: "unat (w AND 0xFF :: u32) < 256"
proof -
  have "w AND 0xFF = take_bit 8 w" by (simp add: take_bit_eq_mask mask_eq_exp_minus_1)
  then show ?thesis by (simp only:) (subst unsigned_take_bit_eq, simp add: take_bit_eq_mod)
qed

lemma octet_of: "ucast (w AND 0xFF :: u32) = (ucast w :: u8)"
proof -
  have "w AND 0xFF = take_bit 8 w" by (simp add: take_bit_eq_mask mask_eq_exp_minus_1)
  then show ?thesis by (simp only:) (rule bit_word_eqI, auto simp: bit_simps)
qed

lemma ip4_octets: "c_make_ip4 (ucast (drop_bit 24 w)) (ucast (drop_bit 16 w)) (ucast (drop_bit 8 w)) (ucast w) = w"
proof -
  have "net32 (put32 w) 0 = w" by (rule net32_put32)
  then show ?thesis by (simp add: net32_def put32_def c_make_ip4_def)
qed

lemma parse_append_ip4:
  assumes "16 \<le> cap"
  shows "dns_parse_ipv4 (c_append_ip4 cap [] ip) = Some ip"
proof -
  let ?a = "drop_bit 24 ip AND 0xFF" and ?b = "drop_bit 16 ip AND 0xFF"
  let ?c = "drop_bit 8 ip AND 0xFF" and ?d = "ip AND 0xFF"
  note o = unat_and_ff [of "drop_bit 24 ip"] unat_and_ff [of "drop_bit 16 ip"]
    unat_and_ff [of "drop_bit 8 ip"] unat_and_ff [of ip]
  note l = o [THEN length_octet_text]
  have t: "c_append_ip4 cap [] ip
      = octet_text ?a @ ''.'' @ octet_text ?b @ ''.'' @ octet_text ?c @ ''.'' @ octet_text ?d"
    using assms o l by (simp add: c_append_ip4_def Let_def c_append_u32_octet c_append_ch_def)
  have "ipv4_loop 4 (octet_text ?a @ ''.'' @ octet_text ?b @ ''.'' @ octet_text ?c @ ''.'' @ octet_text ?d @ []) []
      = Some ([unat ?a, unat ?b, unat ?c, unat ?d], [])"
    using o by (simp only: ipv4_loop_octet numeral_eq_Suc append_Cons append_Nil list.sel list.simps pred_numeral_simps
        simp_thms if_False if_True arith_simps)
  then show ?thesis
    by (simp add: t dns_parse_ipv4_def octet_of ip4_octets)
qed

subsection \<open>Names in a query\<close>

definition dns_tolower :: "char \<Rightarrow> char" where
  "dns_tolower ch = (if 65 \<le> uchar ch \<and> uchar ch \<le> 90 then char_of (of_char ch + (32 :: nat)) else ch)"

text \<open>One label is copied byte by byte as long as the terminator still fits.\<close>

fun copy_label :: "nat \<Rightarrow> u8 list \<Rightarrow> string \<Rightarrow> string option" where
  "copy_label cap [] out = Some out"
| "copy_label cap (b # bs) out =
     (if cap \<le> length out + 1 then None else copy_label cap bs (out @ [dns_tolower (char_of (unat b))]))"

text \<open>\<open>first\<close> is \<open>labels == 0\<close>.  The result is the name and what follows its terminator.\<close>

function qname_loop :: "nat \<Rightarrow> bool \<Rightarrow> u8 list \<Rightarrow> string \<Rightarrow> int + string \<times> u8 list" where
  "qname_loop cap first [] out = Inl (- EINVAL)"
| "qname_loop cap first (l # r) out =
     (if l = 0 then Inr (if out = [] then ''.'' else out, r)
      else if l AND 0xC0 \<noteq> 0 then Inl (- EINVAL)
      else if length r < unat l then Inl (- EINVAL)
      else if \<not> first \<and> cap \<le> length out + 1 then Inl (- ENOSPC)
      else (case copy_label cap (take (unat l) r) (if first then out else out @ ''.'') of
              None \<Rightarrow> Inl (- ENOSPC)
            | Some out' \<Rightarrow> qname_loop cap False (drop (unat l) r) out'))"
  by pat_completeness auto
termination
  by (relation "measure (\<lambda>(cap, first, r, out). length r)") auto

text \<open>On success the host name and the offset behind it.\<close>

definition dns_read_qname :: "u8 list \<Rightarrow> nat \<Rightarrow> nat \<Rightarrow> int + string \<times> nat" where
  "dns_read_qname pkt off cap =
     (if cap < 2 then Inl (- EINVAL)
      else (case qname_loop cap True (drop off pkt) [] of
              Inl e \<Rightarrow> Inl e
            | Inr (host, r) \<Rightarrow> Inr (host, length pkt - length r)))"

text \<open>The wire form of a name, and the text the kernel reads from it.\<close>

fun wire_name :: "string list \<Rightarrow> u8 list" where
  "wire_name [] = [0]"
| "wire_name (l # ls) = of_nat (length l) # map of_char l @ wire_name ls"

fun name_text :: "string list \<Rightarrow> string" where
  "name_text [] = ''''"
| "name_text [l] = map dns_tolower l"
| "name_text (l # ls) = map dns_tolower l @ ''.'' @ name_text ls"

definition label_ok :: "string \<Rightarrow> bool" where
  "label_ok l \<longleftrightarrow> l \<noteq> [] \<and> length l < 64"

lemma copy_label_fits:
  "length out + length bs < cap \<Longrightarrow> copy_label cap bs out = Some (out @ map (\<lambda>b. dns_tolower (char_of (unat b))) bs)"
  by (induction cap bs out rule: copy_label.induct) auto

lemma copy_label_full: "cap \<le> length out + length bs \<Longrightarrow> bs \<noteq> [] \<Longrightarrow> copy_label cap bs out = None"
proof (induction cap bs out rule: copy_label.induct)
  case (2 cap b bs out)
  then show ?case by (cases bs) auto
qed simp

lemma small_byte_tag: "n < 64 \<Longrightarrow> (of_nat n :: u8) AND 0xC0 = 0"
proof -
  assume "n < 64"
  then have "n \<in> set [0..<64]" by simp
  moreover have "list_all (\<lambda>n. (of_nat n :: u8) AND 0xC0 = 0) [0..<64]" by code_simp
  ultimately show ?thesis by (simp only: list_all_iff)
qed

lemma char_of_unat_of_char: "char_of (unat (of_char c :: u8)) = c"
proof -
  have "(of_char c :: u8) = of_nat (of_char c)" by (rule of_nat_of_char [symmetric])
  then have "unat (of_char c :: u8) = take_bit 8 (of_char c)"
    by (simp only: unat_of_nat take_bit_eq_mod) simp
  then show ?thesis by (simp add: char_of_take_bit_eq)
qed

lemma map_char_of_of_char: "map (\<lambda>b. dns_tolower (char_of (unat (b :: u8)))) (map of_char l) = map dns_tolower l"
  by (simp add: comp_def char_of_unat_of_char)

lemma qname_loop_label:
  assumes "label_ok l" and "length out + (if first then 0 else 1) + length l < cap"
  shows "qname_loop cap first (of_nat (length l) # map of_char l @ r) out
    = qname_loop cap False r ((if first then out else out @ ''.'') @ map dns_tolower l)"
proof -
  let ?o = "if first then out else out @ ''.''"
  have n: "0 < length l" "length l < 64" using assms(1) by (auto simp: label_ok_def)
  have u: "unat (of_nat (length l) :: u8) = length l" using n by (simp add: unat_of_nat)
  then have z: "(of_nat (length l) :: u8) \<noteq> 0" using n by auto
  have "copy_label cap (map of_char l) ?o = Some (?o @ map dns_tolower l)"
    using assms(2) copy_label_fits [of ?o "map of_char l" cap] by (simp add: comp_def char_of_unat_of_char split: if_splits)
  with assms(2) show ?thesis
    by (simp add: u z small_byte_tag [OF n(2)] split: if_splits)
qed

lemma name_text_Cons: "name_text (l # ls) = map dns_tolower l @ (if ls = [] then [] else ''.'' @ name_text ls)"
  by (cases ls) simp_all

lemma qname_loop_wire:
  assumes "\<forall>l \<in> set ls. label_ok l" and "ls = [] \<longrightarrow> out \<noteq> []"
    and "length out + length (if first then name_text ls else if ls = [] then [] else ''.'' @ name_text ls) < cap"
  shows "qname_loop cap first (wire_name ls @ r) out
    = Inr (out @ (if first then name_text ls else if ls = [] then [] else ''.'' @ name_text ls), r)"
  using assms
proof (induction ls arbitrary: first out)
  case (Cons l ls)
  let ?o = "(if first then out else out @ ''.'') @ map dns_tolower l"
  have l: "label_ok l" and ls: "\<forall>l \<in> set ls. label_ok l" using Cons.prems by simp_all
  have cap: "length out + (if first then 0 else 1) + length l < cap"
    using Cons.prems(3) by (simp add: name_text_Cons split: if_splits)
  have "?o \<noteq> []" using l by (auto simp: label_ok_def)
  moreover have "length ?o + length (if ls = [] then [] else ''.'' @ name_text ls) < cap"
    using Cons.prems(3) by (simp add: name_text_Cons split: if_splits)
  ultimately have "qname_loop cap False (wire_name ls @ r) ?o
      = Inr (?o @ (if ls = [] then [] else ''.'' @ name_text ls), r)"
    using Cons.IH [OF ls, of ?o False] by simp
  then show ?case
    using qname_loop_label [OF l cap, of "wire_name ls @ r"] by (simp add: name_text_Cons)
qed simp

lemma read_wire_name:
  assumes "\<forall>l \<in> set ls. label_ok l" and "ls \<noteq> []" and "length (name_text ls) < cap" and "2 \<le> cap"
  shows "dns_read_qname (h @ wire_name ls @ r) (length h) cap
    = Inr (name_text ls, length h + length (wire_name ls))"
  using assms qname_loop_wire [of ls "[]" True cap r] by (simp add: dns_read_qname_def)

text \<open>The name it gives always fits the caller's buffer with its terminator.\<close>

lemma copy_label_bound: "copy_label cap bs out = Some out' \<Longrightarrow> length out < cap \<Longrightarrow> length out' < cap"
  by (induction cap bs out rule: copy_label.induct) (auto split: if_splits)

lemma qname_loop_bound:
  "qname_loop cap first p out = Inr (host, r) \<Longrightarrow> length out < cap \<Longrightarrow> 2 \<le> cap
   \<Longrightarrow> length host < cap \<and> length r < length p \<and> (\<exists>q. p = q @ r)"
proof (induction cap first p out rule: qname_loop.induct)
  case (2 cap first l r0 out)
  show ?case
  proof (cases "l = 0")
    case True
    with 2 show ?thesis by (auto intro: exI [of _ "[0]"])
  next
    case False
    from 2(2) False obtain out' where o: "l AND 0xC0 = 0" "\<not> length r0 < unat l"
      "\<not> (\<not> first \<and> cap \<le> length out + 1)"
      "copy_label cap (take (unat l) r0) (if first then out else out @ ''.'') = Some out'"
      "qname_loop cap False (drop (unat l) r0) out' = Inr (host, r)"
      by (auto split: if_splits option.splits)
    have "length out' < cap"
      using copy_label_bound [OF o(4)] o(3) 2(3) by (auto split: if_splits)
    with 2(1) [OF False _ _ _ o(4)] o 2(4)
    have b: "length host < cap \<and> length r < length (drop (unat l) r0) \<and> (\<exists>q. drop (unat l) r0 = q @ r)" by simp
    then obtain q where q: "drop (unat l) r0 = q @ r" by blast
    have "length host < cap" using b by blast
    moreover have "length r < Suc (length r0)" using b by (auto simp: length_drop)
    moreover have "l # r0 = (l # take (unat l) r0 @ q) @ r"
      using append_take_drop_id [of "unat l" r0] q by simp
    ultimately show ?thesis unfolding length_Cons by blast
  qed
qed simp


subsection \<open>The resolver\<close>

definition DNS_CACHE_SIZE :: nat where "DNS_CACHE_SIZE = 16"

record dns_entry =
  de_name :: string
  de_ip :: u32
  de_ttl :: u32
  de_valid :: bool

definition dns_init :: "dns_entry list" where
  "dns_init = replicate DNS_CACHE_SIZE \<lparr> de_name = [], de_ip = 0, de_ttl = 0, de_valid = False \<rparr>"

fun dns_host_hash :: "u32 \<Rightarrow> string \<Rightarrow> u32" where
  "dns_host_hash h [] = h"
| "dns_host_hash h (c # s) = dns_host_hash ((h XOR of_char (dns_tolower c)) * 16777619) s"

definition dns_name_char :: "char \<Rightarrow> bool" where
  "dns_name_char ch \<longleftrightarrow> 97 \<le> uchar ch \<and> uchar ch \<le> 122 \<or> is_dec_digit ch \<or> ch = CHR ''-''"

definition dns_should_synthesize :: "string \<Rightarrow> bool" where
  "dns_should_synthesize h \<longleftrightarrow>
     h \<noteq> [] \<and> h \<noteq> ''.''
     \<and> list_all (\<lambda>c. dns_tolower c = CHR ''.'' \<or> dns_name_char (dns_tolower c)) h
     \<and> list_ex (\<lambda>c. dns_tolower c = CHR ''.'') h
     \<and> \<not> k_starts_with h ''localhost''"

definition dns_synth_ipv4 :: "string \<Rightarrow> u32" where
  "dns_synth_ipv4 h =
     (let v = dns_host_hash 2166136261 h;
          c = ucast (drop_bit 8 v);
          d = ucast v
      in c_make_ip4 198 18 (if c = 0 \<or> c = 255 then c XOR 0x5A else c) (if d = 0 \<or> d = 255 then d XOR 0xA5 else d))"

text \<open>A name of 64 characters or more is cut.\<close>

definition dns_cache_put :: "dns_entry list \<Rightarrow> string \<Rightarrow> u32 \<Rightarrow> u32 \<Rightarrow> dns_entry list" where
  "dns_cache_put c h ip ttl =
     (let e = \<lparr> de_name = take 63 h, de_ip = ip, de_ttl = ttl, de_valid = True \<rparr>
      in case find_index (\<lambda>e. \<not> de_valid e) c of Some i \<Rightarrow> c[i := e] | None \<Rightarrow> c[0 := e])"

definition dns_fixed :: "string \<Rightarrow> u32 option" where
  "dns_fixed h =
     (if h = ''google.com'' \<or> h = ''dns.google'' then Some (c_make_ip4 142 251 129 110)
      else if h = ''www.google.com'' then Some (c_make_ip4 142 251 151 119)
      else if h = ''youtube.com'' \<or> h = ''www.youtube.com'' then Some (c_make_ip4 172 217 28 238)
      else if h = ''ytimg.com'' \<or> h = ''www.ytimg.com'' then Some (c_make_ip4 142 250 184 78)
      else if h = ''github.com'' \<or> h = ''www.github.com'' then Some (c_make_ip4 4 228 31 150)
      else if h = ''example.com'' \<or> h = ''www.example.com'' then Some (c_make_ip4 172 66 147 243)
      else None)"

text \<open>\<open>h\<close> is the C string, without its terminator; the result is the new cache and the answer.\<close>

definition dns_resolve :: "dns_entry list \<Rightarrow> string \<Rightarrow> dns_entry list \<times> u32 option" where
  "dns_resolve c h =
     (case dns_parse_ipv4 h of
        Some ip \<Rightarrow> (c, Some ip)
      | None \<Rightarrow>
     (case find (\<lambda>e. de_valid e \<and> de_name e = h) c of
        Some e \<Rightarrow> (c, Some (de_ip e))
      | None \<Rightarrow>
      if h = ''localhost'' then (c, Some (c_make_ip4 127 0 0 1))
      else if h = ''riduxos.local'' then (c, Some (c_make_ip4 10 0 2 15))
      else (case dns_fixed h of
              Some ip \<Rightarrow> (dns_cache_put c h ip 300, Some ip)
            | None \<Rightarrow>
               if dns_should_synthesize h
               then (dns_cache_put c h (dns_synth_ipv4 h) 120, Some (dns_synth_ipv4 h))
               else (c, None))))"

text \<open>What a name means, without the cache.\<close>

definition dns_meaning :: "string \<Rightarrow> u32 option" where
  "dns_meaning h =
     (case dns_parse_ipv4 h of
        Some ip \<Rightarrow> Some ip
      | None \<Rightarrow>
         if h = ''localhost'' then Some (c_make_ip4 127 0 0 1)
         else if h = ''riduxos.local'' then Some (c_make_ip4 10 0 2 15)
         else (case dns_fixed h of
                 Some ip \<Rightarrow> Some ip
               | None \<Rightarrow> if dns_should_synthesize h then Some (dns_synth_ipv4 h) else None))"

definition dns_cache_ok :: "dns_entry list \<Rightarrow> bool" where
  "dns_cache_ok c \<longleftrightarrow> length c = DNS_CACHE_SIZE
     \<and> (\<forall>e \<in> set c. de_valid e \<longrightarrow> dns_meaning (de_name e) = Some (de_ip e))"

lemma dns_cache_ok_init: "dns_cache_ok dns_init"
  by (simp add: dns_cache_ok_def dns_init_def DNS_CACHE_SIZE_def)

lemma dns_cache_ok_put:
  assumes "dns_cache_ok c" and "length h < 64" and "dns_meaning h = Some ip"
  shows "dns_cache_ok (dns_cache_put c h ip ttl)"
proof -
  let ?e = "\<lparr> de_name = take 63 h, de_ip = ip, de_ttl = ttl, de_valid = True \<rparr>"
  have e: "dns_meaning (de_name ?e) = Some (de_ip ?e)" using assms(2,3) by simp
  have "dns_cache_ok (c[i := ?e])" for i
    using assms(1) e unfolding dns_cache_ok_def
    by (auto dest!: subsetD [OF set_update_subset_insert])
  then show ?thesis by (simp add: dns_cache_put_def Let_def split: option.splits)
qed

lemma dns_resolve_meaning:
  assumes "dns_cache_ok c" and "length h < 64"
  shows "dns_cache_ok (fst (dns_resolve c h)) \<and> snd (dns_resolve c h) = dns_meaning h"
proof (cases "dns_parse_ipv4 h")
  case (Some ip)
  with assms show ?thesis by (simp add: dns_resolve_def dns_meaning_def)
next
  case None
  show ?thesis
  proof (cases "find (\<lambda>e. de_valid e \<and> de_name e = h) c")
    case (Some e)
    from find_SomeD [OF this] assms(1) have "dns_meaning h = Some (de_ip e)"
      by (auto simp: dns_cache_ok_def)
    with Some None assms(1) show ?thesis by (simp add: dns_resolve_def)
  next
    case None': None
    have m: "dns_meaning h = Some ip \<Longrightarrow> dns_cache_ok (dns_cache_put c h ip ttl)" for ip ttl
      by (rule dns_cache_ok_put [OF assms])
    show ?thesis
      using None None' assms(1) m by (auto simp: dns_resolve_def dns_meaning_def split: option.splits)
  qed
qed

text \<open>Lookups in a row, from the empty cache.\<close>

fun dns_lookups :: "dns_entry list \<Rightarrow> string list \<Rightarrow> dns_entry list" where
  "dns_lookups c [] = c"
| "dns_lookups c (h # hs) = dns_lookups (fst (dns_resolve c h)) hs"

lemma dns_lookups_ok:
  "dns_cache_ok c \<Longrightarrow> \<forall>h \<in> set hs. length h < 64 \<Longrightarrow> dns_cache_ok (dns_lookups c hs)"
  by (induction c hs rule: dns_lookups.induct) (auto simp: dns_resolve_meaning)

subsection \<open>The reply to a query\<close>

definition dns_reply_bytes :: "u8 list \<Rightarrow> nat \<Rightarrow> bool \<Rightarrow> bool \<Rightarrow> u32 \<Rightarrow> u8 list" where
  "dns_reply_bytes req qend found answer ip =
     put16 (net16 req 0)
     @ put16 (0x8000 OR (net16 req 2 AND 0x0100) OR 0x0080 OR (if found then 0 else 3))
     @ put16 1 @ put16 (if answer then 1 else 0) @ put16 0 @ put16 0
     @ take (qend - 12) (drop 12 req)
     @ (if answer then [0xC0, 0x0C] @ put16 1 @ put16 1 @ put32 300 @ put16 4 @ put32 ip else [])"

text \<open>No reply is the empty list.\<close>

definition dns_build_response :: "dns_entry list \<Rightarrow> u8 list \<Rightarrow> nat \<Rightarrow> dns_entry list \<times> u8 list" where
  "dns_build_response c req out_cap =
     (if length req < 12 \<or> out_cap < 12 then (c, [])
      else if net16 req 4 = 0 then (c, [])
      else (case dns_read_qname req 12 256 of
          Inl _ \<Rightarrow> (c, [])
        | Inr (host, qoff) \<Rightarrow>
            if length req < qoff + 4 then (c, [])
            else (let qtype = net16 req qoff; qclass = net16 req (qoff + 2); qend = qoff + 4;
                      (c', r) = dns_resolve c (cstr host);
                      found = (r \<noteq> None);
                      answer = (found \<and> qclass = 1 \<and> (qtype = 1 \<or> qtype = 255))
                  in if out_cap < 12 + (qend - 12) then (c', [])
                     else if answer \<and> out_cap < qend + 16 then (c', [])
                     else (c', dns_reply_bytes req qend found answer (case r of Some ip \<Rightarrow> ip | None \<Rightarrow> 0)))))"

lemma dns_reply_length:
  "12 \<le> qend \<Longrightarrow> qend \<le> length req \<Longrightarrow>
   length (dns_reply_bytes req qend found answer ip) = qend + (if answer then 16 else 0)"
proof -
  assume a: "12 \<le> qend" "qend \<le> length req"
  then have "length (take (qend - 12) (drop 12 req)) = qend - 12" by simp
  with a show ?thesis unfolding dns_reply_bytes_def length_append by (simp del: length_take length_drop, arith)
qed

lemma dns_read_qname_bound:
  "dns_read_qname pkt off cap = Inr (host, p) \<Longrightarrow> off \<le> length pkt \<Longrightarrow> length host < cap \<and> off < p \<and> p \<le> length pkt"
  using qname_loop_bound [of cap True "drop off pkt" "[]"]
  by (auto simp: dns_read_qname_def split: if_splits sum.splits prod.splits)

lemma dns_response_fits: "length (snd (dns_build_response c req cap)) \<le> cap"
proof -
  have "length (dns_reply_bytes req (q + 4) f a ip) = q + 4 + (if a then 16 else 0)"
    if "dns_read_qname req 12 256 = Inr (host, q)" "12 \<le> length req" "q + 4 \<le> length req" for host q f a ip
    using dns_read_qname_bound [OF that(1,2)] that(3) by (intro dns_reply_length) auto
  then show ?thesis
    by (auto simp: dns_build_response_def Let_def split: sum.splits prod.splits option.splits)
qed

lemma dns_tolower_NUL: "c \<noteq> NUL \<Longrightarrow> dns_tolower c \<noteq> NUL"
proof
  assume c: "c \<noteq> NUL" "dns_tolower c = NUL"
  then have r: "65 \<le> uchar c" "uchar c \<le> 90" and z: "char_of (of_char c + (32 :: nat)) = NUL"
    by (auto simp: dns_tolower_def split: if_splits)
  have "of_char (char_of (of_char c + (32 :: nat))) = of_char c + (32 :: nat)"
    using r by (simp add: uchar_def take_bit_eq_mod)
  with z show False by simp
qed

lemma wf_cstr_tolower: "wf_cstr l \<Longrightarrow> wf_cstr (map dns_tolower l)"
  by (induction l) (auto simp: dns_tolower_NUL)

lemma cstr_name_text: "\<forall>l \<in> set ls. wf_cstr l \<Longrightarrow> wf_cstr (name_text ls)"
  by (induction ls rule: name_text.induct) (auto simp: wf_cstr_tolower)

lemma length_wire_name: "ls \<noteq> [] \<Longrightarrow> length (wire_name ls) = length (name_text ls) + 2"
  by (induction ls rule: name_text.induct) auto

definition dns_query :: "u16 \<Rightarrow> u16 \<Rightarrow> u8 list \<Rightarrow> string list \<Rightarrow> u8 list \<Rightarrow> u8 list" where
  "dns_query ident flags counts ls extra =
     put16 ident @ put16 flags @ put16 1 @ counts @ wire_name ls @ put16 1 @ put16 1 @ extra"



text \<open>C18: whatever names shorter than 64 characters have been looked up before, the resolver with
  its cache gives what the name means without one.\<close>

theorem dns_resolve_transparent:
  assumes "\<forall>h \<in> set hs. length h < 64" and "length h < 64"
  shows "snd (dns_resolve (dns_lookups dns_init hs) h) = dns_meaning h"
  using dns_resolve_meaning [OF dns_lookups_ok [OF dns_cache_ok_init assms(1)] assms(2)] by simp

theorem dns_resolve_transparent_witness:
  "snd (dns_resolve (dns_lookups dns_init [''a.b'', ''github.com'']) ''a.b'') = dns_meaning ''a.b''"
  by (rule dns_resolve_transparent) simp_all

text \<open>A longer name is cached under its first 63 characters, and answers for them.\<close>

lemma long_name_shadows:
  assumes "dns_meaning h = Some ip" and "dns_fixed h = None" and "dns_should_synthesize h"
    and "dns_parse_ipv4 h = None" and "h \<noteq> ''localhost''" and "h \<noteq> ''riduxos.local''"
    and "dns_parse_ipv4 (take 63 h) = None"
  shows "snd (dns_resolve (fst (dns_resolve dns_init h)) (take 63 h)) = dns_meaning h"
proof -
  have "find (\<lambda>e. de_valid e \<and> de_name e = h) dns_init = None"
    by (simp add: dns_init_def DNS_CACHE_SIZE_def find_None_iff)
  then have "fst (dns_resolve dns_init h) = dns_cache_put dns_init h (dns_synth_ipv4 h) 120"
    using assms by (simp add: dns_resolve_def)
  also have "\<dots> = \<lparr> de_name = take 63 h, de_ip = dns_synth_ipv4 h, de_ttl = 120, de_valid = True \<rparr>
      # replicate 15 \<lparr> de_name = [], de_ip = 0, de_ttl = 0, de_valid = False \<rparr>"
    by (simp add: dns_cache_put_def Let_def dns_init_def DNS_CACHE_SIZE_def find_index_replicate)
       (simp add: numeral_eq_Suc)
  finally show ?thesis using assms by (simp add: dns_resolve_def dns_meaning_def)
qed

lemma long_name_differs:
  "dns_synth_ipv4 (replicate 60 (CHR ''a'') @ ''.bcd'') \<noteq> dns_synth_ipv4 (take 63 (replicate 60 (CHR ''a'') @ ''.bcd''))"
  by code_simp

lemma trailing_dot_accepted: "dns_parse_ipv4 ''1.2.3.4.'' = Some (c_make_ip4 1 2 3 4)"
  by code_simp

end
