(* ===== verification/KSock.thy ===== *)
theory KSock
  imports KDns KPipe
begin

text \<open>
  Sockets of \<^verbatim>\<open>src/compat/base.c\<close>: the table \<open>g_sockets\<close> with the connection blocks of
  \<^verbatim>\<open>src/compat/display_wayland.c\<close> beside it, the receive rings (\<open>sock_push_rx\<close>), the datagram queue laid over
  them (\<open>sock_push_udp\<close>, \<open>sock_pop_udp\<close>), the accept queue, the ancillary queue for passed
  descriptors, the lookups by address, and the sending of a frame through a socket.  A buffer of
  \<open>SOCK_BUF_SIZE\<close> = 65536 bytes is a function on 16-bit indices; head and tail are free-running
  32-bit counters, as in the code.  The network card is a queue of received frames and an oracle
  for the outcome of each send.
\<close>

definition SOCK_MAX :: nat where "SOCK_MAX = 384"
definition SOCK_BUF_SIZE :: nat where "SOCK_BUF_SIZE = 65536"
definition SOCK_ACCEPTQ :: nat where "SOCK_ACCEPTQ = 16"
definition SOCK_DGRAMQ :: nat where "SOCK_DGRAMQ = 32"
definition SOCK_ANCQ :: nat where "SOCK_ANCQ = 64"
definition FDKIND_SOCKET :: nat where "FDKIND_SOCKET = 2"
definition EADDRINUSE :: int where "EADDRINUSE = 98"
definition EISCONN :: int where "EISCONN = 106"
definition ENOTCONN :: int where "ENOTCONN = 107"
definition ETIMEDOUT :: int where "ETIMEDOUT = 110"
definition ECONNREFUSED :: int where "ECONNREFUSED = 111"
definition EINPROGRESS :: int where "EINPROGRESS = 115"

lemmas sock_size_defs = SOCK_MAX_def SOCK_BUF_SIZE_def SOCK_ACCEPTQ_def SOCK_DGRAMQ_def SOCK_ANCQ_def
lemmas sock_errno_defs = EADDRINUSE_def EISCONN_def ENOTCONN_def ETIMEDOUT_def ECONNREFUSED_def EINPROGRESS_def
  EAGAIN_def EBADF_def EINVAL_def ENOMEM_def EPIPE_def

datatype tcp_state = TCP_CLOSED | TCP_LISTEN | TCP_SYN_SENT | TCP_SYN_RCVD | TCP_ESTABLISHED | TCP_FIN_WAIT_1
  | TCP_FIN_WAIT_2 | TCP_CLOSE_WAIT | TCP_CLOSING | TCP_LAST_ACK | TCP_TIME_WAIT

type_synonym ring = "u16 \<Rightarrow> u8"

record dgram_slot =
  dg_len :: u16
  dg_ip :: u32
  dg_port :: u16

record socket =
  sk_used :: bool
  sk_domain :: int
  sk_type :: int
  sk_protocol :: int
  sk_peer :: int
  sk_state :: tcp_state
  sk_local_ip :: u32
  sk_local_port :: u16
  sk_remote_ip :: u32
  sk_remote_port :: u16
  sk_tcp_seq :: u32
  sk_tcp_ack :: u32
  sk_tcp_window :: u16
  sk_rx_buf :: ring
  sk_rx_head :: u32
  sk_rx_tail :: u32
  sk_tx_buf :: ring
  sk_tx_head :: u32
  sk_tx_tail :: u32
  sk_anc_fds :: "nat \<Rightarrow> int"
  sk_anc_pos :: "nat \<Rightarrow> u32"
  sk_anc_head :: nat
  sk_anc_tail :: nat
  sk_rx_msg :: "nat \<Rightarrow> dgram_slot"
  sk_rx_msg_head :: nat
  sk_rx_msg_tail :: nat
  sk_accept_q :: "nat \<Rightarrow> int"
  sk_accept_head :: nat
  sk_accept_tail :: nat
  sk_non_blocking :: bool
  sk_backlog :: int
  sk_error :: int
  sk_virt_service :: nat
  sk_shutdown_rx :: bool
  sk_shutdown_tx :: bool

definition zero_socket :: socket where
  "zero_socket = \<lparr> sk_used = False, sk_domain = 0, sk_type = 0, sk_protocol = 0, sk_peer = 0,
     sk_state = TCP_CLOSED, sk_local_ip = 0, sk_local_port = 0, sk_remote_ip = 0, sk_remote_port = 0,
     sk_tcp_seq = 0, sk_tcp_ack = 0, sk_tcp_window = 0, sk_rx_buf = (\<lambda>_. 0), sk_rx_head = 0,
     sk_rx_tail = 0, sk_tx_buf = (\<lambda>_. 0), sk_tx_head = 0, sk_tx_tail = 0, sk_anc_fds = (\<lambda>_. 0),
     sk_anc_pos = (\<lambda>_. 0), sk_anc_head = 0, sk_anc_tail = 0,
     sk_rx_msg = (\<lambda>_. \<lparr> dg_len = 0, dg_ip = 0, dg_port = 0 \<rparr>), sk_rx_msg_head = 0, sk_rx_msg_tail = 0,
     sk_accept_q = (\<lambda>_. 0), sk_accept_head = 0, sk_accept_tail = 0, sk_non_blocking = False,
     sk_backlog = 0, sk_error = 0, sk_virt_service = 0, sk_shutdown_rx = False, sk_shutdown_tx = False \<rparr>"

text \<open>\<open>tcp7_tcb_t\<close>; the urgent pointer, the window update marks and the reassembly buffer are never used.\<close>

datatype cc_state = CC_SLOW_START | CC_AVOIDANCE | CC_FAST_RECOVER

record tcb =
  tb_fd :: int
  tb_state :: tcp_state
  snd_una :: u32
  snd_nxt :: u32
  snd_wnd :: u32
  rcv_nxt :: u32
  rcv_wnd :: u32
  tb_cc :: cc_state
  cwnd :: u32
  ssthresh :: u32
  dup_acks :: u32
  rto :: u32
  srtt :: u32
  rttvar :: u32
  rto_count :: u32
  rto_max :: u32
  rto_expire :: u64
  time_wait_expire :: u64
  delack_expire :: u64
  delack_pending :: bool
  mss :: u32
  iss :: u32
  irs :: u32

definition zero_tcb :: tcb where
  "zero_tcb = \<lparr> tb_fd = 0, tb_state = TCP_CLOSED, snd_una = 0, snd_nxt = 0, snd_wnd = 0, rcv_nxt = 0,
     rcv_wnd = 0, tb_cc = CC_SLOW_START, cwnd = 0, ssthresh = 0, dup_acks = 0, rto = 0, srtt = 0, rttvar = 0,
     rto_count = 0, rto_max = 0, rto_expire = 0, time_wait_expire = 0, delack_expire = 0,
     delack_pending = False, mss = 0, iss = 0, irs = 0 \<rparr>"

record nstate =
  ns_k :: kernel
  ns_sock :: "nat \<Rightarrow> socket"
  ns_tcb :: "nat \<Rightarrow> tcb"
  ns_eph :: u16
  ns_lease :: dhcp_lease
  ns_ifs :: "net_iface list"
  ns_arp :: "arp_entry list"
  ns_dns :: "dns_entry list"
  ns_ip_id :: u16
  ns_rxq :: "u8 list list"
  ns_nic :: "nat \<Rightarrow> bool"
  ns_sends :: nat
  ns_tx :: "u8 list list"

abbreviation sk :: "nstate \<Rightarrow> nat \<Rightarrow> socket" where "sk s i \<equiv> ns_sock s i"

definition upd_sock :: "nstate \<Rightarrow> nat \<Rightarrow> (socket \<Rightarrow> socket) \<Rightarrow> nstate" where
  "upd_sock s i f = s\<lparr> ns_sock := (ns_sock s)(i := f (ns_sock s i)) \<rparr>"

lemma sk_upd [simp]: "sk (upd_sock s i f) j = (if j = i then f (sk s i) else sk s j)"
  by (simp add: upd_sock_def)

lemma upd_sock_fields [simp]:
  "ns_k (upd_sock s i f) = ns_k s" "ns_tcb (upd_sock s i f) = ns_tcb s" "ns_eph (upd_sock s i f) = ns_eph s"
  "ns_lease (upd_sock s i f) = ns_lease s" "ns_ifs (upd_sock s i f) = ns_ifs s" "ns_arp (upd_sock s i f) = ns_arp s"
  "ns_dns (upd_sock s i f) = ns_dns s" "ns_ip_id (upd_sock s i f) = ns_ip_id s" "ns_rxq (upd_sock s i f) = ns_rxq s"
  "ns_nic (upd_sock s i f) = ns_nic s" "ns_sends (upd_sock s i f) = ns_sends s" "ns_tx (upd_sock s i f) = ns_tx s"
  by (simp_all add: upd_sock_def)

definition sock_ok :: "nstate \<Rightarrow> int \<Rightarrow> bool" where
  "sock_ok s fd \<longleftrightarrow> 0 \<le> fd \<and> fd < int SOCK_MAX \<and> sk_used (sk s (nat fd))"

subsection \<open>The byte rings\<close>

text \<open>The copy loops of the push and the receive; the index is the counter modulo the size.\<close>

fun ring_put :: "ring \<Rightarrow> u32 \<Rightarrow> u8 list \<Rightarrow> ring \<times> u32" where
  "ring_put b h [] = (b, h)"
| "ring_put b h (x # xs) = ring_put (b(ucast h := x)) (h + 1) xs"

primrec ring_get :: "nat \<Rightarrow> ring \<Rightarrow> u32 \<Rightarrow> u8 list \<times> u32" where
  "ring_get 0 b t = ([], t)"
| "ring_get (Suc n) b t = (case ring_get n b (t + 1) of (bs, t') \<Rightarrow> (b (ucast t) # bs, t'))"

definition ring_used :: "u32 \<Rightarrow> u32 \<Rightarrow> nat" where
  "ring_used h t = min (unat (h - t)) SOCK_BUF_SIZE"

definition rx_push :: "socket \<Rightarrow> u8 list \<Rightarrow> socket \<times> nat" where
  "rx_push s src =
     (let n = min (length src) (SOCK_BUF_SIZE - ring_used (sk_rx_head s) (sk_rx_tail s))
      in case ring_put (sk_rx_buf s) (sk_rx_head s) (take n src) of
           (b, h) \<Rightarrow> (s\<lparr> sk_rx_buf := b, sk_rx_head := h \<rparr>, n))"

definition rx_pop :: "socket \<Rightarrow> nat \<Rightarrow> socket \<times> u8 list" where
  "rx_pop s cnt =
     (case ring_get (min cnt (ring_used (sk_rx_head s) (sk_rx_tail s))) (sk_rx_buf s) (sk_rx_tail s) of
        (bs, t) \<Rightarrow> (s\<lparr> sk_rx_tail := t \<rparr>, bs))"

definition sock_sleeper :: "task \<Rightarrow> bool" where
  "sock_sleeper t \<longleftrightarrow> t_used t \<and> t_state t = TASK_SLEEPING
     \<and> list_ex (\<lambda>fd. fd_kind (t_fdt t fd) = FDKIND_SOCKET \<or> fd_kind (t_fdt t fd) = FDKIND_EPOLL) [0..<TASK_FD_MAX]"

definition sock_wake_socket_sleepers :: "kernel \<Rightarrow> kernel" where
  "sock_wake_socket_sleepers k =
     fold (\<lambda>ti k. if sock_sleeper (tsk k ti) then fst (task_make_runnable k ti) else k) [0..<TASK_MAX] k"

definition sock_push_rx :: "nstate \<Rightarrow> nat \<Rightarrow> u8 list \<Rightarrow> nstate \<times> nat" where
  "sock_push_rx s i src =
     (case rx_push (sk s i) src of
        (d, n) \<Rightarrow>
          let s1 = upd_sock s i (\<lambda>_. d)
          in (if n \<noteq> 0 then s1\<lparr> ns_k := sock_wake_socket_sleepers (ns_k s1) \<rparr> else s1, n))"

text \<open>What a ring holds.\<close>

definition ring_abs :: "ring \<Rightarrow> u32 \<Rightarrow> u32 \<Rightarrow> u8 list" where
  "ring_abs b h t = map (\<lambda>i. b (ucast (t + of_nat i))) [0..<unat (h - t)]"

definition ring_ok :: "u32 \<Rightarrow> u32 \<Rightarrow> bool" where
  "ring_ok h t \<longleftrightarrow> unat (h - t) \<le> SOCK_BUF_SIZE"

abbreviation rx_abs :: "socket \<Rightarrow> u8 list" where
  "rx_abs s \<equiv> ring_abs (sk_rx_buf s) (sk_rx_head s) (sk_rx_tail s)"

abbreviation rx_ok :: "socket \<Rightarrow> bool" where
  "rx_ok s \<equiv> ring_ok (sk_rx_head s) (sk_rx_tail s)"

lemma length_ring_abs [simp]: "length (ring_abs b h t) = unat (h - t)"
  by (simp add: ring_abs_def)

lemma ring_used_ok: "ring_ok h t \<Longrightarrow> ring_used h t = unat (h - t)"
  by (simp add: ring_ok_def ring_used_def)

lemma slot_eq_iff:
  fixes t :: u32
  shows "(ucast (t + of_nat i) :: u16) = ucast (t + of_nat j) \<longleftrightarrow> i mod 65536 = j mod 65536"
proof -
  have u: "unat (ucast (t + of_nat k) :: u16) = (unat t + k) mod 65536" for k
  proof -
    have "unat (t + of_nat k) = (unat t + k) mod 2 ^ 32"
      by (simp add: unat_word_ariths(1) unat_of_nat mod_add_right_eq)
    moreover have "(65536 :: nat) dvd 2 ^ 32" by simp
    ultimately show ?thesis
      by (simp add: unsigned_ucast_eq take_bit_eq_mod mod_mod_cancel)
  qed
  have "(ucast (t + of_nat i) :: u16) = ucast (t + of_nat j)
      \<longleftrightarrow> (unat t + i) mod 65536 = (unat t + j) mod 65536"
    by (simp only: word_unat_eq_iff u)
  also have "\<dots> \<longleftrightarrow> i mod 65536 = j mod 65536"
    by (simp add: nat_mod_eq_iff add.assoc)
  finally show ?thesis .
qed


lemma slot_distinct:
  fixes t :: u32
  shows "i < 65536 \<Longrightarrow> j < 65536 \<Longrightarrow> (ucast (t + of_nat i) :: u16) = ucast (t + of_nat j) \<longleftrightarrow> i = j"
  by (simp add: slot_eq_iff)

lemma ring_put_head: "snd (ring_put b h xs) = h + of_nat (length xs)"
  by (induction xs arbitrary: b h) (simp_all add: add.assoc)

lemma ring_put_other:
  "(\<And>i. i < length xs \<Longrightarrow> j \<noteq> ucast (h + of_nat i)) \<Longrightarrow> fst (ring_put b h xs) j = b j"
proof (induction xs arbitrary: b h)
  case (Cons x xs)
  have "j \<noteq> ucast h" using Cons(2) [of 0] by simp
  moreover have "i < length xs \<Longrightarrow> j \<noteq> ucast (h + 1 + of_nat i)" for i
    using Cons(2) [of "Suc i"] by (simp add: add.assoc)
  ultimately show ?case using Cons(1) by simp
qed simp

lemma ring_put_nth:
  "length xs \<le> 65536 \<Longrightarrow> i < length xs \<Longrightarrow> fst (ring_put b h xs) (ucast (h + of_nat i)) = xs ! i"
proof (induction xs arbitrary: b h i)
  case (Cons x xs)
  show ?case
  proof (cases i)
    case 0
    have "ucast h \<noteq> (ucast (h + 1 + of_nat k) :: u16)" if "k < length xs" for k
      using slot_distinct [of 0 "Suc k" h] that Cons(2) by (simp add: add.assoc)
    then show ?thesis using 0 by (simp add: ring_put_other)
  next
    case (Suc k)
    have e: "h + of_nat (Suc k) = h + 1 + of_nat k" by (simp add: add.assoc)
    have "fst (ring_put (b(ucast h := x)) (h + 1) xs) (ucast (h + 1 + of_nat k)) = xs ! k"
      by (rule Cons.IH) (use Cons.prems Suc in simp_all)
    then show ?thesis by (simp only: Suc ring_put.simps e nth_Cons_Suc)
  qed
qed simp

lemma ring_put_abs:
  assumes "ring_ok h t" and "unat (h - t) + length xs \<le> SOCK_BUF_SIZE"
  shows "ring_abs (fst (ring_put b h xs)) (snd (ring_put b h xs)) t = ring_abs b h t @ xs"
    and "ring_ok (snd (ring_put b h xs)) t"
    and "unat (snd (ring_put b h xs) - t) = unat (h - t) + length xs"
proof -
  let ?u = "unat (h - t)"
  have le: "?u + length xs \<le> 65536" using assms(2) by (simp add: SOCK_BUF_SIZE_def)
  have "h + of_nat (length xs) - t = (h - t) + of_nat (length xs)" by simp
  also have "unat \<dots> = ?u + length xs"
    using le by (simp add: unat_word_ariths(1) unat_of_nat)
  finally show u: "unat (snd (ring_put b h xs) - t) = ?u + length xs" by (simp add: ring_put_head)
  show "ring_ok (snd (ring_put b h xs)) t" using u assms(2) by (simp add: ring_ok_def)
  have h: "h + of_nat k = t + of_nat (?u + k)" for k by simp
  show "ring_abs (fst (ring_put b h xs)) (snd (ring_put b h xs)) t = ring_abs b h t @ xs"
  proof (rule nth_equalityI)
    fix i
    assume "i < length (ring_abs (fst (ring_put b h xs)) (snd (ring_put b h xs)) t)"
    then have i: "i < ?u + length xs" by (simp add: u)
    show "ring_abs (fst (ring_put b h xs)) (snd (ring_put b h xs)) t ! i = (ring_abs b h t @ xs) ! i"
    proof (cases "i < ?u")
      case True
      have "ucast (t + of_nat i) \<noteq> (ucast (h + of_nat k) :: u16)" if "k < length xs" for k
        unfolding h using slot_distinct [of i "?u + k" t] True that le by simp
      then show ?thesis using True i by (simp add: ring_abs_def u nth_append ring_put_other)
    next
      case False
      then obtain k where k: "i = ?u + k" "k < length xs" using i by (metis le_Suc_ex less_add_eq_less linorder_not_le nat_add_left_cancel_less)
      have "fst (ring_put b h xs) (ucast (h + of_nat k)) = xs ! k" using ring_put_nth k(2) le by simp
      then show ?thesis unfolding h using k by (simp add: ring_abs_def u nth_append)
    qed
  qed (simp add: u)
qed

lemma ring_get_eq: "ring_get n b t = (map (\<lambda>i. b (ucast (t + of_nat i))) [0..<n], t + of_nat n)"
proof (induction n arbitrary: t)
  case (Suc n)
  have "map (\<lambda>i. b (ucast (t + 1 + of_nat i))) [0..<n] = map (\<lambda>i. b (ucast (t + of_nat i))) [Suc 0..<Suc n]"
    by (subst map_Suc_upt [symmetric]) (simp add: comp_def add.assoc del: map_Suc_upt upt_Suc)
  moreover have "[0..<Suc n] = 0 # [Suc 0..<Suc n]" by (rule upt_rec [THEN trans]) simp
  ultimately show ?case by (simp add: Suc add.assoc del: upt_Suc)
qed simp

lemma ring_get_abs:
  assumes "n \<le> unat (h - t)"
  shows "fst (ring_get n b t) = take n (ring_abs b h t)"
    and "ring_abs b h (snd (ring_get n b t)) = drop n (ring_abs b h t)"
    and "unat (h - snd (ring_get n b t)) = unat (h - t) - n"
proof -
  have n: "n < 2 ^ 32" using assms unat_less_2p [of "h - t"] by simp
  show "fst (ring_get n b t) = take n (ring_abs b h t)"
    using assms by (simp add: ring_get_eq ring_abs_def take_map)
  have "h - (t + of_nat n) = (h - t) - of_nat n" by simp
  also have "unat \<dots> = unat (h - t) - n"
    using assms n by (subst unat_sub) (simp_all add: unat_of_nat word_le_nat_alt)
  finally show u: "unat (h - snd (ring_get n b t)) = unat (h - t) - n" by (simp add: ring_get_eq)
  show "ring_abs b h (snd (ring_get n b t)) = drop n (ring_abs b h t)"
    by (rule nth_equalityI) (use u assms in \<open>auto simp: ring_abs_def ring_get_eq add.assoc\<close>)
qed

lemma rx_push_spec:
  assumes "rx_ok s"
  shows "\<exists>b h. rx_push s xs = (s\<lparr> sk_rx_buf := b, sk_rx_head := h \<rparr>, min (length xs) (SOCK_BUF_SIZE - length (rx_abs s)))
     \<and> ring_abs b h (sk_rx_tail s) = rx_abs s @ take (SOCK_BUF_SIZE - length (rx_abs s)) xs
     \<and> ring_ok h (sk_rx_tail s)"
proof -
  let ?h = "sk_rx_head s" and ?t = "sk_rx_tail s"
  let ?n = "min (length xs) (SOCK_BUF_SIZE - unat (?h - ?t))"
  have u: "unat (?h - ?t) \<le> SOCK_BUF_SIZE" using assms by (simp add: ring_ok_def)
  have t: "take ?n xs = take (SOCK_BUF_SIZE - unat (?h - ?t)) xs" by (simp add: min_def)
  have le: "unat (?h - ?t) + length (take ?n xs) \<le> SOCK_BUF_SIZE" using u by simp
  note p = ring_put_abs [OF assms le]
  obtain b h where bh: "ring_put (sk_rx_buf s) ?h (take ?n xs) = (b, h)" by fastforce
  have "rx_push s xs = (s\<lparr> sk_rx_buf := b, sk_rx_head := h \<rparr>, ?n)"
    using bh by (simp add: rx_push_def Let_def ring_used_ok [OF assms])
  then show ?thesis using p(1) [of "sk_rx_buf s"] p(2) [of "sk_rx_buf s"] bh t
    by (intro exI [of _ b] exI [of _ h]) simp
qed

lemma rx_pop_spec:
  assumes "rx_ok s"
  shows "\<exists>t. rx_pop s n = (s\<lparr> sk_rx_tail := t \<rparr>, take n (rx_abs s))
     \<and> ring_abs (sk_rx_buf s) (sk_rx_head s) t = drop n (rx_abs s) \<and> ring_ok (sk_rx_head s) t"
proof -
  let ?h = "sk_rx_head s" and ?t = "sk_rx_tail s"
  let ?n = "min n (unat (?h - ?t))"
  have "?n \<le> unat (?h - ?t)" by simp
  note g = ring_get_abs [OF this, of "sk_rx_buf s"]
  obtain bs t where bt: "ring_get ?n (sk_rx_buf s) ?t = (bs, t)" by fastforce
  have "take ?n (rx_abs s) = take n (rx_abs s)" "drop ?n (rx_abs s) = drop n (rx_abs s)"
    by (simp_all add: min_def)
  moreover have "ring_ok ?h t" using g(3) bt assms by (simp add: ring_ok_def)
  ultimately show ?thesis using g bt
    by (intro exI [of _ t]) (simp add: rx_pop_def ring_used_ok [OF assms])
qed

text \<open>A socket's receive ring is a bounded byte stream of 65536 bytes.\<close>

interpretation rx: byte_stream "\<lambda>_. rx_ok" rx_abs "\<lambda>s xs. Some (rx_push s xs)" "\<lambda>s n. Some (rx_pop s n)" SOCK_BUF_SIZE
proof unfold_locales
  fix b s n
  fix xs :: "u8 list"
  show "rx_ok s \<Longrightarrow> \<exists>s' n. Some (rx_push s xs) = Some (s', n) \<and> n = min (length xs) (SOCK_BUF_SIZE - length (rx_abs s))
      \<and> rx_abs s' = rx_abs s @ take n xs \<and> rx_ok s'"
    using rx_push_spec [of s xs] by (auto simp: min_def)
  show "rx_ok s \<Longrightarrow> \<exists>s'. Some (rx_pop s n) = Some (s', take n (rx_abs s)) \<and> rx_abs s' = drop n (rx_abs s) \<and> rx_ok s'"
    using rx_pop_spec [of s n] by auto
qed (simp_all add: ring_ok_def)

subsection \<open>Circular queues\<close>

text \<open>Three queues of a socket are arrays with a head and a tail index; one slot stays free.\<close>

definition circ :: "nat \<Rightarrow> (nat \<Rightarrow> 'a) \<Rightarrow> nat \<Rightarrow> nat \<Rightarrow> 'a list" where
  "circ N f h t = map (\<lambda>i. f ((t + i) mod N)) [0..<(h + N - t) mod N]"

lemma length_circ [simp]: "length (circ N f h t) = (h + N - t) mod N"
  by (simp add: circ_def)

lemma circ_index:
  fixes h t N :: nat
  assumes "h < N" and "t < N"
  shows "(h + N - t) mod N = (if t \<le> h then h - t else h + N - t)"
proof (cases "t \<le> h")
  case True
  then have "(h + N - t) mod N = ((h - t) + N) mod N" by (metis Nat.diff_add_assoc2)
  also have "\<dots> = h - t" using assms(1) by (simp only: mod_add_self2) simp
  finally show ?thesis using True by simp
qed (use assms in simp)

lemma circ_next: "h < N \<Longrightarrow> (h + 1) mod N = (if h + 1 = N then 0 else h + 1)" for h :: nat
  by auto

lemma circ_pos: "t < N \<Longrightarrow> i < N \<Longrightarrow> (t + i) mod N = (if t + i < N then t + i else t + i - N)" for t :: nat
  by (simp add: mod_if)

lemma circ_Nil_iff: "h < N \<Longrightarrow> t < N \<Longrightarrow> circ N f h t = [] \<longleftrightarrow> h = t"
  by (simp add: circ_def circ_index)

lemma circ_push:
  assumes "h < N" and "t < N" and "(h + 1) mod N \<noteq> t"
  shows "circ N (f(h := x)) ((h + 1) mod N) t = circ N f h t @ [x]"
proof -
  have "N \<noteq> 1" using assms by auto
  let ?n = "(h + N - t) mod N"
  have len: "((h + 1) mod N + N - t) mod N = Suc ?n"
  proof -
    have "(h + 1) mod N < N" using assms(1) by simp
    note c = circ_index [OF this assms(2)] circ_index [OF assms(1,2)] circ_next [OF assms(1)]
    show ?thesis using assms c(1) unfolding c(2) unfolding c(3) by (auto split: if_splits)
  qed
  have nN: "?n < N" using assms(1) by simp
  have last: "(t + ?n) mod N = h"
    unfolding circ_pos [OF assms(2) nN] unfolding circ_index [OF assms(1,2)] using assms by auto
  have "(t + i) mod N \<noteq> h" if "i < ?n" for i
  proof -
    have "i < N" using that nN by simp
    show ?thesis
      unfolding circ_pos [OF assms(2) \<open>i < N\<close>]
      using that assms unfolding circ_index [OF assms(1,2)] by (auto split: if_splits)
  qed
  then have "map (\<lambda>i. (f(h := x)) ((t + i) mod N)) [0..<?n] = map (\<lambda>i. f ((t + i) mod N)) [0..<?n]" by simp
  then show ?thesis unfolding circ_def len by (simp add: last)
qed

lemma circ_pop:
  assumes "h < N" and "t < N" and "h \<noteq> t"
  shows "circ N f h t = f t # circ N f h ((t + 1) mod N)"
proof -
  let ?n = "(h + N - t) mod N" and ?m = "(h + N - (t + 1) mod N) mod N"
  have n: "?n = Suc ?m"
  proof -
    have "(t + 1) mod N < N" using assms(1) by simp
    note c = circ_index [OF assms(1) this] circ_index [OF assms(1,2)] circ_next [OF assms(2)]
    show ?thesis using assms unfolding c(1,2) unfolding c(3) by (auto split: if_splits)
  qed
  have "[0..<Suc ?m] = 0 # map Suc [0..<?m]" by (simp only: map_Suc_upt) (rule upt_rec [THEN trans], simp)
  moreover have "((t + 1) mod N + i) mod N = (t + Suc i) mod N" for i by (simp add: mod_add_left_eq)
  ultimately show ?thesis using assms(2) by (simp add: circ_def n comp_def del: upt_Suc)
qed

lemma circ_full: "h < N \<Longrightarrow> t < N \<Longrightarrow> (h + 1) mod N = t \<longleftrightarrow> length (circ N f h t) = N - 1"
proof -
  assume a: "h < N" "t < N"
  show ?thesis
    unfolding length_circ circ_next [OF a(1)] circ_index [OF a] using a by auto
qed

subsection \<open>Datagrams\<close>

definition sock_push_udp :: "nstate \<Rightarrow> nat \<Rightarrow> u8 list \<Rightarrow> u32 \<Rightarrow> u16 \<Rightarrow> nstate \<times> int" where
  "sock_push_udp s i data src_ip src_port =
     (let src = take 65535 data;
          d = sk s i;
          av = SOCK_BUF_SIZE - ring_used (sk_rx_head d) (sk_rx_tail d);
          nq = (sk_rx_msg_head d + 1) mod SOCK_DGRAMQ
      in if av < length src then (s, - EAGAIN)
         else if nq = sk_rx_msg_tail d then (s, - EAGAIN)
         else (case sock_push_rx s i src of
             (s1, n) \<Rightarrow>
               if n \<noteq> length src then (s1, - EAGAIN)
               else (upd_sock s1 i (\<lambda>d. d\<lparr> sk_rx_msg := (sk_rx_msg d)(sk_rx_msg_head d :=
                         \<lparr> dg_len = of_nat (length src), dg_ip = src_ip, dg_port = src_port \<rparr>),
                       sk_rx_msg_head := nq \<rparr>), int (length src))))"

text \<open>\<open>dontwait\<close> is the flag \<open>0x40\<close>.  What does not fit the caller's buffer is dropped.\<close>

definition sock_pop_udp :: "socket \<Rightarrow> nat \<Rightarrow> bool \<Rightarrow> socket \<times> (int + u8 list)" where
  "sock_pop_udp d cnt dontwait =
     (if sk_rx_msg_head d = sk_rx_msg_tail d
      then (d, if sk_non_blocking d \<or> dontwait then Inl (- EAGAIN) else Inr [])
      else (let m = sk_rx_msg d (sk_rx_msg_tail d);
                plen = unat (dg_len m);
                cp = min cnt plen
            in case ring_get cp (sk_rx_buf d) (sk_rx_tail d) of
                 (bs, t) \<Rightarrow>
                   (d\<lparr> sk_rx_tail := t + of_nat (plen - cp), sk_remote_ip := dg_ip m, sk_remote_port := dg_port m,
                       sk_rx_msg_tail := (sk_rx_msg_tail d + 1) mod SOCK_DGRAMQ \<rparr>, Inr bs)))"

abbreviation dg_slots :: "socket \<Rightarrow> dgram_slot list" where
  "dg_slots d \<equiv> circ SOCK_DGRAMQ (sk_rx_msg d) (sk_rx_msg_head d) (sk_rx_msg_tail d)"

text \<open>The datagrams a socket holds: the byte ring cut at the recorded lengths.\<close>

fun dg_split :: "dgram_slot list \<Rightarrow> u8 list \<Rightarrow> (u8 list \<times> u32 \<times> u16) list" where
  "dg_split [] bs = []"
| "dg_split (m # ms) bs =
     (take (unat (dg_len m)) bs, dg_ip m, dg_port m) # dg_split ms (drop (unat (dg_len m)) bs)"

definition dg_abs :: "socket \<Rightarrow> (u8 list \<times> u32 \<times> u16) list" where
  "dg_abs d = dg_split (dg_slots d) (rx_abs d)"

abbreviation dg_total :: "dgram_slot list \<Rightarrow> nat" where
  "dg_total ms \<equiv> sum_list (map (\<lambda>m. unat (dg_len m)) ms)"

definition dg_inv :: "socket \<Rightarrow> bool" where
  "dg_inv d \<longleftrightarrow> rx_ok d \<and> sk_rx_msg_head d < SOCK_DGRAMQ \<and> sk_rx_msg_tail d < SOCK_DGRAMQ
     \<and> dg_total (dg_slots d) = length (rx_abs d)"

lemma dg_split_snoc:
  "dg_total ms = length bs \<Longrightarrow> unat (dg_len m) = length xs \<Longrightarrow>
   dg_split (ms @ [m]) (bs @ xs) = dg_split ms bs @ [(xs, dg_ip m, dg_port m)]"
proof (induction ms arbitrary: bs)
  case (Cons m' ms)
  then have "unat (dg_len m') \<le> length bs" by simp
  then show ?case using Cons by simp
qed simp

lemma length_dg_split [simp]: "length (dg_split ms bs) = length ms"
  by (induction ms arbitrary: bs) auto

lemma length_dg_abs: "length (dg_abs d) = length (dg_slots d)"
  by (simp only: dg_abs_def length_dg_split)

text \<open>Pushing appends one datagram, or leaves the socket as it was.\<close>

lemma sock_push_rx_sock:
  "sock_push_rx s i xs = (s', n) \<Longrightarrow> sk s' j = (if j = i then fst (rx_push (sk s i) xs) else sk s j) \<and> n = snd (rx_push (sk s i) xs)"
  by (auto simp: sock_push_rx_def Let_def split: prod.splits if_splits)

lemma sock_push_udp_refines:
  assumes "dg_inv (sk s i)" and "sock_push_udp s i data ip port = (s', r)"
  shows "if length (take 65535 data) + length (rx_abs (sk s i)) \<le> SOCK_BUF_SIZE \<and> length (dg_abs (sk s i)) < 31
         then r = int (length (take 65535 data)) \<and> dg_abs (sk s' i) = dg_abs (sk s i) @ [(take 65535 data, ip, port)]
              \<and> dg_inv (sk s' i)
         else r = - EAGAIN \<and> s' = s"
proof -
  let ?d = "sk s i" and ?src = "take 65535 data"
  let ?nq = "(sk_rx_msg_head ?d + 1) mod SOCK_DGRAMQ"
  have ok: "rx_ok ?d" and hd: "sk_rx_msg_head ?d < SOCK_DGRAMQ" "sk_rx_msg_tail ?d < SOCK_DGRAMQ"
    and tot: "dg_total (dg_slots ?d) = length (rx_abs ?d)" using assms(1) by (auto simp: dg_inv_def)
  have av: "ring_used (sk_rx_head ?d) (sk_rx_tail ?d) = length (rx_abs ?d)" by (simp add: ring_used_ok [OF ok])
  have len: "length (rx_abs ?d) \<le> SOCK_BUF_SIZE" using ok by (simp add: ring_ok_def)
  have full: "?nq = sk_rx_msg_tail ?d \<longleftrightarrow> length (dg_abs ?d) = 31"
    using circ_full [OF hd, of "sk_rx_msg ?d"] by (simp add: length_dg_abs SOCK_DGRAMQ_def)
  have bnd: "length (dg_abs ?d) \<le> 31" by (simp add: length_dg_abs SOCK_DGRAMQ_def less_Suc_eq_le [symmetric])
  show ?thesis
  proof (cases "length ?src + length (rx_abs ?d) \<le> SOCK_BUF_SIZE \<and> length (dg_abs ?d) < 31")
    case False
    then have "SOCK_BUF_SIZE - length (rx_abs ?d) < length ?src \<or> ?nq = sk_rx_msg_tail ?d"
      using full bnd len by auto
    then have "(s', r) = (s, - EAGAIN)"
      using assms(2) unfolding sock_push_udp_def Let_def av by (auto split: if_splits)
    then show ?thesis unfolding if_not_P [OF False] by simp
  next
    case True
    obtain b h where p: "rx_push ?d ?src = (?d\<lparr> sk_rx_buf := b, sk_rx_head := h \<rparr>, length ?src)"
      and ab: "ring_abs b h (sk_rx_tail ?d) = rx_abs ?d @ ?src" and okh: "ring_ok h (sk_rx_tail ?d)"
    proof -
      have m: "min (length ?src) (SOCK_BUF_SIZE - length (rx_abs ?d)) = length ?src"
        "take (SOCK_BUF_SIZE - length (rx_abs ?d)) ?src = ?src"
      proof -
        have "length ?src \<le> SOCK_BUF_SIZE - length (rx_abs ?d)" using True by linarith
        then show "min (length ?src) (SOCK_BUF_SIZE - length (rx_abs ?d)) = length ?src"
          and "take (SOCK_BUF_SIZE - length (rx_abs ?d)) ?src = ?src"
          by (rule min.absorb1) (rule take_all, fact)
      qed
      show ?thesis using rx_push_spec [OF ok, of ?src] that unfolding m by blast
    qed
    obtain s1 n where s1: "sock_push_rx s i ?src = (s1, n)" by fastforce
    from sock_push_rx_sock [OF this] p
    have k1: "sk s1 i = ?d\<lparr> sk_rx_buf := b, sk_rx_head := h \<rparr>" and n: "n = length ?src" by simp_all
    let ?m = "\<lparr> dg_len = of_nat (length ?src), dg_ip = ip, dg_port = port \<rparr>"
    have ne: "?nq \<noteq> sk_rx_msg_tail ?d" using full True by simp
    have "\<not> SOCK_BUF_SIZE - length (rx_abs ?d) < length ?src" using True by linarith
    then have e: "r = int (length ?src)" "sk s' i = ?d\<lparr> sk_rx_buf := b, sk_rx_head := h,
        sk_rx_msg := (sk_rx_msg ?d)(sk_rx_msg_head ?d := ?m), sk_rx_msg_head := ?nq \<rparr>"
      using assms(2) ne unfolding sock_push_udp_def Let_def av s1 by (auto simp: n k1)
    have "length ?src < 65536" by simp
    then have ml: "unat (dg_len ?m) = length ?src" by (simp add: unat_of_nat)
    have sl: "dg_slots (sk s' i) = dg_slots ?d @ [?m]"
      using circ_push [OF hd ne, of "sk_rx_msg ?d" ?m] e(2) by simp
    have rx: "rx_abs (sk s' i) = rx_abs ?d @ ?src" using e(2) ab by simp
    have "dg_abs (sk s' i) = dg_abs ?d @ [(?src, ip, port)]"
      using dg_split_snoc [OF tot ml] unfolding dg_abs_def sl rx by simp
    moreover have "dg_total (dg_slots (sk s' i)) = length (rx_abs (sk s' i))"
      unfolding sl rx using tot ml by simp
    moreover have "sk_rx_msg_head (sk s' i) < SOCK_DGRAMQ" using e(2) by (simp add: SOCK_DGRAMQ_def)
    ultimately have "dg_abs (sk s' i) = dg_abs ?d @ [(?src, ip, port)] \<and> dg_inv (sk s' i)"
      using e(2) hd okh by (simp add: dg_inv_def)
    then show ?thesis unfolding if_P [OF True] using e(1) by simp
  qed
qed

lemma sock_pop_udp_refines:
  assumes "dg_inv d" and "sock_pop_udp d cnt dontwait = (d', r)"
  shows "case dg_abs d of
      [] \<Rightarrow> d' = d \<and> r = (if sk_non_blocking d \<or> dontwait then Inl (- EAGAIN) else Inr [])
    | (bs, ip, port) # ms \<Rightarrow> r = Inr (take cnt bs) \<and> dg_abs d' = ms \<and> dg_inv d'
        \<and> sk_remote_ip d' = ip \<and> sk_remote_port d' = port"
proof -
  have ok: "rx_ok d" and hd: "sk_rx_msg_head d < SOCK_DGRAMQ" "sk_rx_msg_tail d < SOCK_DGRAMQ"
    and tot: "dg_total (dg_slots d) = length (rx_abs d)" using assms(1) by (auto simp: dg_inv_def)
  show ?thesis
  proof (cases "sk_rx_msg_head d = sk_rx_msg_tail d")
    case True
    then have "dg_slots d = []" using circ_Nil_iff [OF hd, of "sk_rx_msg d"] by blast
    then have "dg_abs d = []" by (simp only: dg_abs_def dg_split.simps)
    then show ?thesis using True assms(2) by (auto simp: sock_pop_udp_def)
  next
    case False
    let ?t = "sk_rx_msg_tail d" and ?m = "sk_rx_msg d (sk_rx_msg_tail d)"
    let ?p = "unat (dg_len ?m)" and ?c = "min cnt (unat (dg_len ?m))"
    let ?ms = "circ SOCK_DGRAMQ (sk_rx_msg d) (sk_rx_msg_head d) ((?t + 1) mod SOCK_DGRAMQ)"
    have sl: "dg_slots d = ?m # ?ms" by (rule circ_pop [OF hd False])
    then have p: "?p + dg_total ?ms = length (rx_abs d)" using tot by simp
    have c: "?c \<le> unat (sk_rx_head d - sk_rx_tail d)" and pl: "?p \<le> unat (sk_rx_head d - sk_rx_tail d)" using p by simp_all
    have g: "fst (ring_get ?c (sk_rx_buf d) (sk_rx_tail d)) = take ?c (rx_abs d)" by (rule ring_get_abs(1) [OF c])
    have t: "snd (ring_get ?c (sk_rx_buf d) (sk_rx_tail d)) + of_nat (?p - ?c)
        = snd (ring_get ?p (sk_rx_buf d) (sk_rx_tail d))"
    proof -
      have "(of_nat ?c :: u32) + of_nat (?p - ?c) = of_nat (?c + (?p - ?c))" by (simp only: of_nat_add)
      also have "?c + (?p - ?c) = ?p" by simp
      finally show ?thesis by (simp add: ring_get_eq add.assoc)
    qed
    have e: "r = Inr (take ?c (rx_abs d))" "d' = d\<lparr> sk_rx_tail := snd (ring_get ?p (sk_rx_buf d) (sk_rx_tail d)),
        sk_remote_ip := dg_ip ?m, sk_remote_port := dg_port ?m, sk_rx_msg_tail := (?t + 1) mod SOCK_DGRAMQ \<rparr>"
      using assms(2) False g t by (auto simp: sock_pop_udp_def Let_def split: prod.splits)
    note a = ring_get_abs(2,3) [OF pl, of "sk_rx_buf d"]
    have rx: "rx_abs d' = drop ?p (rx_abs d)" using e(2) a(1) by simp
    have sl': "dg_slots d' = ?ms" using e(2) by simp
    have ab: "dg_abs d = (take ?p (rx_abs d), dg_ip ?m, dg_port ?m) # dg_split ?ms (drop ?p (rx_abs d))"
      unfolding dg_abs_def sl by simp
    have d': "dg_abs d' = dg_split ?ms (drop ?p (rx_abs d))" unfolding dg_abs_def sl' rx ..
    have "take cnt (take ?p (rx_abs d)) = take ?c (rx_abs d)" by (simp add: min.commute)
    moreover have "dg_inv d'"
    proof -
      have "dg_total (dg_slots d') = length (rx_abs d')" unfolding sl' rx using p by simp
      moreover have "rx_ok d'" using e(2) a(2) ok by (simp add: ring_ok_def)
      ultimately show ?thesis using e(2) hd by (simp add: dg_inv_def SOCK_DGRAMQ_def)
    qed
    ultimately show ?thesis unfolding ab using e d' by simp
  qed
qed

subsection \<open>Pending connections and passed descriptors\<close>

definition sock_acceptq_len :: "socket \<Rightarrow> nat" where
  "sock_acceptq_len l = (sk_accept_head l + SOCK_ACCEPTQ - sk_accept_tail l) mod SOCK_ACCEPTQ"

definition sock_acceptq_push :: "nstate \<Rightarrow> nat \<Rightarrow> int \<Rightarrow> nstate \<times> int" where
  "sock_acceptq_push s i sfd =
     (let l = sk s i; n = (sk_accept_head l + 1) mod SOCK_ACCEPTQ
      in if 0 < sk_backlog l \<and> sk_backlog l \<le> int (sock_acceptq_len l) then (s, - EAGAIN)
         else if n = sk_accept_tail l then (s, - EAGAIN)
         else (let s1 = upd_sock s i (\<lambda>l. l\<lparr> sk_accept_q := (sk_accept_q l)(sk_accept_head l := sfd), sk_accept_head := n \<rparr>)
               in (s1\<lparr> ns_k := sock_wake_socket_sleepers (ns_k s1) \<rparr>, 0)))"

definition sock_acceptq_pop :: "socket \<Rightarrow> socket \<times> int" where
  "sock_acceptq_pop l =
     (if sk_accept_head l = sk_accept_tail l then (l, - EAGAIN)
      else (l\<lparr> sk_accept_tail := (sk_accept_tail l + 1) mod SOCK_ACCEPTQ \<rparr>, sk_accept_q l (sk_accept_tail l)))"

abbreviation accept_abs :: "socket \<Rightarrow> int list" where
  "accept_abs l \<equiv> circ SOCK_ACCEPTQ (sk_accept_q l) (sk_accept_head l) (sk_accept_tail l)"

definition accept_inv :: "socket \<Rightarrow> bool" where
  "accept_inv l \<longleftrightarrow> sk_accept_head l < SOCK_ACCEPTQ \<and> sk_accept_tail l < SOCK_ACCEPTQ"

lemma acceptq_push_refines:
  assumes "accept_inv (sk s i)" and "sock_acceptq_push s i fd = (s', r)"
  shows "if length (accept_abs (sk s i)) < 15
            \<and> (sk_backlog (sk s i) \<le> 0 \<or> int (length (accept_abs (sk s i))) < sk_backlog (sk s i))
         then r = 0 \<and> accept_abs (sk s' i) = accept_abs (sk s i) @ [fd] \<and> accept_inv (sk s' i)
         else r = - EAGAIN \<and> s' = s"
proof -
  let ?l = "sk s i"
  have hd: "sk_accept_head ?l < SOCK_ACCEPTQ" "sk_accept_tail ?l < SOCK_ACCEPTQ"
    using assms(1) by (auto simp: accept_inv_def)
  have len: "length (accept_abs ?l) = sock_acceptq_len ?l" by (simp add: sock_acceptq_len_def)
  have bnd: "sock_acceptq_len ?l < 16" by (simp add: sock_acceptq_len_def SOCK_ACCEPTQ_def)
  have full: "(sk_accept_head ?l + 1) mod SOCK_ACCEPTQ = sk_accept_tail ?l \<longleftrightarrow> sock_acceptq_len ?l = 15"
    using circ_full [OF hd, of "sk_accept_q ?l"] unfolding len by (simp add: SOCK_ACCEPTQ_def)
  show ?thesis
  proof (cases "sock_acceptq_len ?l < 15 \<and> (sk_backlog ?l \<le> 0 \<or> int (sock_acceptq_len ?l) < sk_backlog ?l)")
    case True
    then have "(sk_accept_head ?l + 1) mod SOCK_ACCEPTQ \<noteq> sk_accept_tail ?l" using full by simp
    then show ?thesis
      using True assms(2) circ_push [OF hd, of "sk_accept_q ?l" fd] hd unfolding len sock_acceptq_push_def Let_def
      by (auto simp: accept_inv_def SOCK_ACCEPTQ_def split: if_splits)
  next
    case False
    then have "0 < sk_backlog ?l \<and> sk_backlog ?l \<le> int (sock_acceptq_len ?l)
        \<or> (sk_accept_head ?l + 1) mod SOCK_ACCEPTQ = sk_accept_tail ?l" using full bnd by auto
    then show ?thesis
      using assms(2) unfolding len if_not_P [OF False] sock_acceptq_push_def Let_def by (auto split: if_splits)
  qed
qed

lemma acceptq_pop_refines:
  assumes "accept_inv l" and "sock_acceptq_pop l = (l', r)"
  shows "case accept_abs l of
      [] \<Rightarrow> l' = l \<and> r = - EAGAIN
    | fd # fds \<Rightarrow> r = fd \<and> accept_abs l' = fds \<and> accept_inv l'"
proof -
  have hd: "sk_accept_head l < SOCK_ACCEPTQ" "sk_accept_tail l < SOCK_ACCEPTQ"
    using assms(1) by (auto simp: accept_inv_def)
  show ?thesis
  proof (cases "sk_accept_head l = sk_accept_tail l")
    case True
    then have "accept_abs l = []" using circ_Nil_iff [OF hd, of "sk_accept_q l"] by blast
    then show ?thesis using True assms(2) by (simp add: sock_acceptq_pop_def)
  next
    case False
    show ?thesis unfolding circ_pop [OF hd False, of "sk_accept_q l"]
      using False assms(2) hd by (auto simp: sock_acceptq_pop_def accept_inv_def SOCK_ACCEPTQ_def)
  qed
qed

text \<open>A passed descriptor is bound to the position in the byte stream at which it was sent.\<close>

definition sock_pos_after :: "u32 \<Rightarrow> u32 \<Rightarrow> bool" where
  "sock_pos_after a b \<longleftrightarrow> 0 < sint (a - b)"

definition sock_send_right :: "nstate \<Rightarrow> int \<Rightarrow> int \<Rightarrow> nstate \<times> int" where
  "sock_send_right s fd pass_fd =
     (if \<not> sock_ok s fd then (s, - EBADF)
      else if \<not> sock_ok s (sk_peer (sk s (nat fd))) then (s, - EINVAL)
      else (let pi = nat (sk_peer (sk s (nat fd)));
                p = sk s pi;
                n = (sk_anc_head p + 1) mod SOCK_ANCQ
            in if n = sk_anc_tail p then (s, - EAGAIN)
               else (let s1 = upd_sock s pi (\<lambda>p. p\<lparr> sk_anc_fds := (sk_anc_fds p)(sk_anc_head p := pass_fd),
                            sk_anc_pos := (sk_anc_pos p)(sk_anc_head p := sk_rx_head p), sk_anc_head := n \<rparr>)
                     in (s1\<lparr> ns_k := sock_wake_socket_sleepers (ns_k s1) \<rparr>, 0))))"

definition sock_recv_right :: "nstate \<Rightarrow> int \<Rightarrow> nstate \<times> (int + int)" where
  "sock_recv_right s fd =
     (if \<not> sock_ok s fd then (s, Inl (- EBADF))
      else (let d = sk s (nat fd)
            in if sk_anc_head d = sk_anc_tail d then (s, Inl (- EAGAIN))
               else if sock_pos_after (sk_anc_pos d (sk_anc_tail d)) (sk_rx_tail d) then (s, Inl (- EAGAIN))
               else (upd_sock s (nat fd) (\<lambda>d. d\<lparr> sk_anc_tail := (sk_anc_tail d + 1) mod SOCK_ANCQ \<rparr>),
                     Inr (sk_anc_fds d (sk_anc_tail d)))))"

definition sock_recv_limit_before_right :: "nstate \<Rightarrow> int \<Rightarrow> nat \<Rightarrow> nat" where
  "sock_recv_limit_before_right s fd cap =
     (if \<not> sock_ok s fd then cap
      else (let d = sk s (nat fd)
            in if sk_type d \<noteq> 1 \<or> sk_anc_head d = sk_anc_tail d then cap
               else (let dist = sk_anc_pos d (sk_anc_tail d) - sk_rx_tail d
                     in if sint dist \<le> 0 then cap
                        else (let used = ring_used (sk_rx_head d) (sk_rx_tail d)
                              in if used < unat dist then min used cap else min (unat dist) cap))))"

lemma sint_small: "unat (w :: u32) < 2 ^ 31 \<Longrightarrow> sint w = int (unat w)"
proof -
  assume a: "unat w < 2 ^ 31"
  obtain n where n: "unat w = n" by blast
  have e: "uint w = int n" unfolding n [symmetric] by (rule uint_nat)
  have u: "uint w < 2 ^ 31" using a unfolding n e by simp
  have "sint w = signed_take_bit 31 (uint w)" by (simp add: sint_uint)
  also have "\<dots> = uint w" using u e by (intro signed_take_bit_int_eq_self) simp_all
  finally show ?thesis unfolding e n .
qed

text \<open>A read cut at the limit never passes the position of the next descriptor; a read that may
  reach it does, and the descriptor can be taken then and not before.\<close>

lemma right_barrier:
  assumes "sock_ok s fd" and "sk_type (sk s (nat fd)) = 1" and "rx_ok (sk s (nat fd))"
    and "sk_anc_head (sk s (nat fd)) \<noteq> sk_anc_tail (sk s (nat fd))"
    and "dist = unat (sk_anc_pos (sk s (nat fd)) (sk_anc_tail (sk s (nat fd))) - sk_rx_tail (sk s (nat fd)))"
    and "0 < dist" and "dist \<le> length (rx_abs (sk s (nat fd)))"
  shows "sock_recv_limit_before_right s fd cap = min dist cap"
    and "sock_recv_right s fd = (s, Inl (- EAGAIN))"
    and "snd (sock_recv_right (upd_sock s (nat fd) (\<lambda>d. fst (rx_pop d dist))) fd)
           = Inr (sk_anc_fds (sk s (nat fd)) (sk_anc_tail (sk s (nat fd))))"
proof -
  let ?d = "sk s (nat fd)"
  have u: "ring_used (sk_rx_head ?d) (sk_rx_tail ?d) = length (rx_abs ?d)" by (simp add: ring_used_ok [OF assms(3)])
  have l: "length (rx_abs ?d) \<le> 65536" using assms(3) by (simp add: ring_ok_def SOCK_BUF_SIZE_def)
  have si: "sint (sk_anc_pos ?d (sk_anc_tail ?d) - sk_rx_tail ?d) = int dist"
    using sint_small assms(5,7) l by simp
  show "sock_recv_limit_before_right s fd cap = min dist cap"
    unfolding sock_recv_limit_before_right_def Let_def si u assms(5) [symmetric]
    using assms(1,2,4,6,7) by simp
  show "sock_recv_right s fd = (s, Inl (- EAGAIN))"
    using assms(1,4,6) si by (simp add: sock_recv_right_def Let_def sock_pos_after_def)
  have "fst (rx_pop ?d dist) = ?d\<lparr> sk_rx_tail := sk_rx_tail ?d + of_nat dist \<rparr>"
    using assms(7) by (simp add: rx_pop_def u ring_get_eq split: prod.splits)
  moreover have "sk_rx_tail ?d + of_nat dist = sk_anc_pos ?d (sk_anc_tail ?d)"
    unfolding assms(5) by simp
  ultimately show "snd (sock_recv_right (upd_sock s (nat fd) (\<lambda>d. fst (rx_pop d dist))) fd)
      = Inr (sk_anc_fds ?d (sk_anc_tail ?d))"
    using assms(1,4) by (simp add: sock_recv_right_def Let_def sock_ok_def sock_pos_after_def)
qed

subsection \<open>Lookups\<close>

definition sock_is_loopback_ip :: "u32 \<Rightarrow> bool" where
  "sock_is_loopback_ip ip \<longleftrightarrow> ip = 0 \<or> ip AND 0xFF000000 = 0x7F000000"

definition sock_ip_match :: "u32 \<Rightarrow> u32 \<Rightarrow> bool" where
  "sock_ip_match bind_ip target_ip \<longleftrightarrow>
     bind_ip = 0 \<or> target_ip = 0 \<or> bind_ip = target_ip
     \<or> sock_is_loopback_ip bind_ip \<and> sock_is_loopback_ip target_ip"

definition alloc_eph :: "nstate \<Rightarrow> nstate \<times> u16" where
  "alloc_eph s =
     (let p = ns_eph s; n = p + 1
      in (s\<lparr> ns_eph := (if 65500 < n then 49152 else n) \<rparr>, p))"

definition listener_matches :: "socket \<Rightarrow> int \<Rightarrow> u32 \<Rightarrow> u16 \<Rightarrow> bool" where
  "listener_matches l domain addr port \<longleftrightarrow>
     sk_used l \<and> sk_domain l = domain \<and> sk_type l = 1 \<and> sk_state l = TCP_LISTEN
     \<and> sk_local_port l = port \<and> sock_ip_match (sk_local_ip l) addr"

definition sock_find_listener :: "nstate \<Rightarrow> int \<Rightarrow> u32 \<Rightarrow> u16 \<Rightarrow> nat option" where
  "sock_find_listener s domain addr port =
     find (\<lambda>i. listener_matches (sk s i) domain addr port) [0..<SOCK_MAX]"

definition sock_find_udp_bound :: "nstate \<Rightarrow> int \<Rightarrow> int \<Rightarrow> u32 \<Rightarrow> u16 \<Rightarrow> nat option" where
  "sock_find_udp_bound s domain except_fd addr port =
     find (\<lambda>i. int i \<noteq> except_fd \<and> sk_used (sk s i) \<and> sk_domain (sk s i) = domain \<and> sk_type (sk s i) = 2
        \<and> sk_local_port (sk s i) = port \<and> sock_ip_match (sk_local_ip (sk s i)) addr) [0..<SOCK_MAX]"

definition sock_bind_conflict :: "nstate \<Rightarrow> int \<Rightarrow> int \<Rightarrow> int \<Rightarrow> u32 \<Rightarrow> u16 \<Rightarrow> bool" where
  "sock_bind_conflict s fd domain type addr port \<longleftrightarrow>
     port \<noteq> 0 \<and> list_ex (\<lambda>i. int i \<noteq> fd \<and> sk_used (sk s i) \<and> sk_domain (sk s i) = domain \<and> sk_type (sk s i) = type
        \<and> sk_local_port (sk s i) = port \<and> sock_ip_match (sk_local_ip (sk s i)) addr) [0..<SOCK_MAX]"

subsection \<open>Frames through a socket\<close>

text \<open>The card takes a frame of 1 to 2048 bytes when its ring has room, which is the oracle's answer.\<close>

definition e1000_send :: "nstate \<Rightarrow> u8 list \<Rightarrow> nstate \<times> int" where
  "e1000_send s frame =
     (if frame = [] \<or> 2048 < length frame then (s, - 1)
      else if ns_nic s (ns_sends s)
      then (s\<lparr> ns_sends := ns_sends s + 1, ns_tx := ns_tx s @ [frame] \<rparr>, int (length frame))
      else (s\<lparr> ns_sends := ns_sends s + 1 \<rparr>, - 1))"

definition net_send_arp_request :: "nstate \<Rightarrow> u32 \<Rightarrow> nstate \<times> int" where
  "net_send_arp_request s target_ip =
     (case net_get_src_mac (ns_ifs s) of
        None \<Rightarrow> (s, - 1)
      | Some mac \<Rightarrow> e1000_send s (arp_request_frame mac (net_get_src_ip (ns_lease s)) target_ip))"

definition net_tcp_frame :: "u8 list \<Rightarrow> u8 list \<Rightarrow> u16 \<Rightarrow> u32 \<Rightarrow> u32 \<Rightarrow> u8 list \<Rightarrow> u8 list" where
  "net_tcp_frame src_mac dst_mac ip_id src_ip dst_ip seg =
     net_build_eth dst_mac src_mac 0x0800
     @ fst (net_build_ip ip_id src_ip dst_ip IP_PROTO_TCP (of_nat (length seg)))
     @ tcp_checksummed src_ip dst_ip seg"

definition net_send_tcp_frame :: "nstate \<Rightarrow> int \<Rightarrow> u8 list \<Rightarrow> nstate \<times> int" where
  "net_send_tcp_frame s fd seg =
     (if \<not> sock_ok s fd then (s, - 1)
      else if seg = [] \<or> 1480 < length seg then (s, - 1)
      else (case net_get_src_mac (ns_ifs s) of
          None \<Rightarrow> (s, - 1)
        | Some src_mac \<Rightarrow>
            (let d = sk s (nat fd);
                 src_ip = (if sk_local_ip d \<noteq> 0 then sk_local_ip d else net_get_src_ip (ns_lease s));
                 gw_ip = net_get_gateway_ip (ns_lease s) (sk_remote_ip d)
             in case arp_resolve (ns_arp s) gw_ip of
                  (False, _) \<Rightarrow> (fst (net_send_arp_request s gw_ip), - 1)
                | (True, dst_mac) \<Rightarrow>
                    e1000_send (s\<lparr> ns_ip_id := ns_ip_id s + 1 \<rparr>)
                      (net_tcp_frame src_mac dst_mac (ns_ip_id s) src_ip (sk_remote_ip d) seg))))"

definition net_send_udp_frame :: "nstate \<Rightarrow> int \<Rightarrow> u8 list \<Rightarrow> nstate \<times> int" where
  "net_send_udp_frame s fd payload =
     (if \<not> sock_ok s fd then (s, - 1)
      else if payload = [] \<or> 1400 < length payload then (s, - 1)
      else (case net_get_src_mac (ns_ifs s) of
          None \<Rightarrow> (s, - 1)
        | Some src_mac \<Rightarrow>
            (let d = sk s (nat fd);
                 src_ip = (if sk_local_ip d \<noteq> 0 then sk_local_ip d else net_get_src_ip (ns_lease s));
                 gw_ip = net_get_gateway_ip (ns_lease s) (sk_remote_ip d);
                 udp_len = 8 + length payload
             in case arp_resolve (ns_arp s) gw_ip of
                  (False, _) \<Rightarrow> (fst (net_send_arp_request s gw_ip), - 1)
                | (True, dst_mac) \<Rightarrow>
                    e1000_send (s\<lparr> ns_ip_id := ns_ip_id s + 1 \<rparr>)
                      (net_build_eth dst_mac src_mac 0x0800
                       @ fst (net_build_ip (ns_ip_id s) src_ip (sk_remote_ip d) IP_PROTO_UDP (of_nat udp_len))
                       @ net_build_udp (sk_local_port d) (sk_remote_port d) (of_nat (length payload))
                       @ payload))))"

subsection \<open>Properties\<close>

lemma sock_sleeper_iff:
  "sock_sleeper t \<longleftrightarrow> t_used t \<and> t_state t = TASK_SLEEPING \<and> waits_on t FDKIND_SOCKET (- 1)"
proof -
  have "(fd_kind f \<noteq> FDKIND_NONE \<and> (fd_kind f = FDKIND_SOCKET \<and> (- 1 < (0 :: int) \<or> fd_ref f = - 1) \<or> fd_kind f = FDKIND_EPOLL))
      = (fd_kind f = FDKIND_SOCKET \<or> fd_kind f = FDKIND_EPOLL)" for f :: real_fd
    by (auto simp: FDKIND_SOCKET_def FDKIND_EPOLL_def FDKIND_NONE_def)
  then show ?thesis by (simp only: sock_sleeper_def waits_on_def Let_def)
qed

lemma sock_wake_eq: "sock_wake_socket_sleepers k = fst (wake_each FDKIND_SOCKET (- 1) [0..<TASK_MAX] (k, n))"
proof -
  have "fold (\<lambda>ti k. if sock_sleeper (tsk k ti) then fst (task_make_runnable k ti) else k) is k
      = fst (wake_each FDKIND_SOCKET (- 1) is (k, n))" for "is" n
    by (induction "is" arbitrary: k n) (auto simp: sock_sleeper_iff split: prod.splits)
  then show ?thesis by (simp only: sock_wake_socket_sleepers_def)
qed

lemma sock_wakes:
  assumes "j < TASK_MAX" and "sock_sleeper (tsk k j)"
    and "c_cs (t_ctx (tsk k j)) = 0x28 \<Longrightarrow> task_schedulable_user_frame k j"
  shows "t_state (tsk (sock_wake_socket_sleepers k) j) = TASK_RUNNABLE"
  unfolding sock_wake_eq [of k 0] using assms by (intro wake_each_wakes) (auto simp: sock_sleeper_iff)

lemma sock_push_udp_wakes:
  assumes "sock_push_udp s i data ip port = (s', r)" and "0 < r"
  shows "ns_k s' = sock_wake_socket_sleepers (ns_k s)"
proof -
  obtain s1 n where s1: "sock_push_rx s i (take 65535 data) = (s1, n)" by fastforce
  have "n \<noteq> 0 \<and> s' = upd_sock s1 i (\<lambda>d. d\<lparr> sk_rx_msg := (sk_rx_msg d)(sk_rx_msg_head d :=
            \<lparr> dg_len = of_nat (length (take 65535 data)), dg_ip = ip, dg_port = port \<rparr>),
          sk_rx_msg_head := (sk_rx_msg_head (sk s i) + 1) mod SOCK_DGRAMQ \<rparr>)"
    using assms unfolding sock_push_udp_def Let_def s1 by (auto simp: EAGAIN_def split: if_splits)
  moreover have "n \<noteq> 0 \<Longrightarrow> ns_k s1 = sock_wake_socket_sleepers (ns_k s)"
    using s1 by (auto simp: sock_push_rx_def Let_def split: prod.splits if_splits)
  ultimately show ?thesis by simp
qed


definition one_socket :: "kernel \<Rightarrow> socket \<Rightarrow> nstate" where
  "one_socket k d = \<lparr> ns_k = k, ns_sock = (\<lambda>i. if i = 0 then d else zero_socket), ns_tcb = (\<lambda>_. zero_tcb\<lparr> tb_fd := - 1 \<rparr>),
     ns_eph = 49152, ns_lease = dhcp_offer, ns_ifs = [], ns_arp = arp_init, ns_dns = dns_init, ns_ip_id = 1,
     ns_rxq = [], ns_nic = (\<lambda>_. True), ns_sends = 0, ns_tx = [] \<rparr>"

lemma dg_inv_zero: "dg_inv zero_socket"
  by (simp add: dg_inv_def zero_socket_def ring_ok_def circ_def SOCK_DGRAMQ_def)


text \<open>Pending connections are taken in the order in which they were queued, never more than
  the backlog and never more than 15.\<close>

theorem accept_queue_fifo:
  assumes "accept_inv (sk s i)"
  shows "(case sock_acceptq_push s i fd of (s', r) \<Rightarrow>
      if length (accept_abs (sk s i)) < 15
         \<and> (sk_backlog (sk s i) \<le> 0 \<or> int (length (accept_abs (sk s i))) < sk_backlog (sk s i))
      then r = 0 \<and> accept_abs (sk s' i) = accept_abs (sk s i) @ [fd] \<and> accept_inv (sk s' i)
      else r = - EAGAIN \<and> s' = s)
    \<and> (case sock_acceptq_pop (sk s i) of (l', r) \<Rightarrow>
        (case accept_abs (sk s i) of
           [] \<Rightarrow> l' = sk s i \<and> r = - EAGAIN
         | fd # fds \<Rightarrow> r = fd \<and> accept_abs l' = fds \<and> accept_inv l'))"
proof -
  obtain s' r where p: "sock_acceptq_push s i fd = (s', r)" by fastforce
  obtain l' q where q: "sock_acceptq_pop (sk s i) = (l', q)" by fastforce
  show ?thesis
    using acceptq_push_refines [OF assms p] acceptq_pop_refines [OF assms q] unfolding p q by (simp only: prod.case)
qed

theorem accept_queue_fifo_witness:
  "\<forall>k. \<exists>s'. sock_acceptq_push (one_socket k zero_socket) 0 7 = (s', 0) \<and> accept_abs (sk s' 0) = [7]"
proof (intro allI)
  fix k
  let ?s = "one_socket k zero_socket"
  have z: "sk ?s 0 = zero_socket" by (simp add: one_socket_def)
  have i: "accept_inv (sk ?s 0)" unfolding z by (simp add: accept_inv_def zero_socket_def SOCK_ACCEPTQ_def)
  have a: "accept_abs (sk ?s 0) = []" "sk_backlog (sk ?s 0) = 0"
    unfolding z by (simp_all add: zero_socket_def circ_def SOCK_ACCEPTQ_def)
  obtain s' r where p: "sock_acceptq_push ?s 0 7 = (s', r)" by fastforce
  show "\<exists>s'. sock_acceptq_push ?s 0 7 = (s', 0) \<and> accept_abs (sk s' 0) = [7]"
    using accept_queue_fifo [OF i, where fd = 7] unfolding p a by simp
qed

end
