(* ===== verification/KTcp.thy ===== *)
theory KTcp
  imports KSock
begin

text \<open>
  The TCP of \<^verbatim>\<open>src/compat/display_wayland.c\<close> (\<open>tcp7_*\<close>) and the demultiplexing of received frames of
  \<^verbatim>\<open>src/compat/base.c\<close> (\<open>net_process_frame\<close>, \<open>e1000_poll_rx\<close>).  A connection block is an index into
  \<open>ns_tcb\<close>.  The initial sequence number (\<open>ulibc_arc4random\<close>) and the clock (\<open>rdtsc\<close>) are arguments.
  A loop that need not end is a partial function.
\<close>

definition TCP7_MAX_CONNECTIONS :: nat where "TCP7_MAX_CONNECTIONS = 128"
definition TCP7_MSS_DEFAULT :: u32 where "TCP7_MSS_DEFAULT = 1460"
definition TCP7_INITIAL_CWND :: u32 where "TCP7_INITIAL_CWND = 10"
definition TCP7_INITIAL_SSTHRESH :: u32 where "TCP7_INITIAL_SSTHRESH = 65535"
definition TCP7_RTO_MIN :: u32 where "TCP7_RTO_MIN = 200"
definition TCP7_RTO_MAX :: u32 where "TCP7_RTO_MAX = 60000"
definition TCP7_RTO_INITIAL :: u32 where "TCP7_RTO_INITIAL = 1000"
definition TCP7_MAX_RETRANSMITS :: u32 where "TCP7_MAX_RETRANSMITS = 15"

lemmas tcp7_const_defs = TCP7_MSS_DEFAULT_def TCP7_INITIAL_CWND_def TCP7_INITIAL_SSTHRESH_def TCP7_RTO_MIN_def
  TCP7_RTO_MAX_def TCP7_RTO_INITIAL_def TCP7_MAX_RETRANSMITS_def

subsection \<open>Connection blocks\<close>

definition upd_tcb :: "nstate \<Rightarrow> nat \<Rightarrow> (tcb \<Rightarrow> tcb) \<Rightarrow> nstate" where
  "upd_tcb s i f = s\<lparr> ns_tcb := (ns_tcb s)(i := f (ns_tcb s i)) \<rparr>"

definition tcp7_alloc :: "nstate \<Rightarrow> nstate \<times> nat option" where
  "tcp7_alloc s =
     (case find (\<lambda>i. tb_fd (ns_tcb s i) < 0) [0..<TCP7_MAX_CONNECTIONS] of
        None \<Rightarrow> (s, None)
      | Some i \<Rightarrow> (upd_tcb s i (\<lambda>_. zero_tcb\<lparr> tb_fd := - 1, tb_state := TCP_CLOSED \<rparr>), Some i))"

definition tcp7_find :: "nstate \<Rightarrow> int \<Rightarrow> nat option" where
  "tcp7_find s fd = find (\<lambda>i. tb_fd (ns_tcb s i) = fd) [0..<TCP7_MAX_CONNECTIONS]"

definition tcp7_release_tcb :: "tcb \<Rightarrow> tcb" where
  "tcp7_release_tcb t = t\<lparr> tb_fd := - 1, tb_state := TCP_CLOSED, delack_pending := False,
     time_wait_expire := 0, delack_expire := 0 \<rparr>"

definition tcp7_drop_socket :: "nstate \<Rightarrow> int \<Rightarrow> nstate" where
  "tcp7_drop_socket s fd =
     s\<lparr> ns_tcb := (\<lambda>i. if i < TCP7_MAX_CONNECTIONS \<and> tb_fd (ns_tcb s i) = fd
                      then tcp7_release_tcb (ns_tcb s i) else ns_tcb s i) \<rparr>"

definition tcp7_rtt_update :: "u32 \<Rightarrow> tcb \<Rightarrow> tcb" where
  "tcp7_rtt_update rtt_ms t =
     (let t1 = (if srtt t = 0 then t\<lparr> srtt := rtt_ms, rttvar := rtt_ms div 2 \<rparr>
                else t\<lparr> rttvar := (3 * rttvar t + (if rtt_ms < srtt t then srtt t - rtt_ms else rtt_ms - srtt t)) div 4,
                        srtt := (7 * srtt t + rtt_ms) div 8 \<rparr>);
          r1 = srtt t1 + 4 * rttvar t1;
          r2 = (if r1 < TCP7_RTO_MIN then TCP7_RTO_MIN else r1);
          r3 = (if TCP7_RTO_MAX < r2 then TCP7_RTO_MAX else r2)
      in t1\<lparr> rto := r3 \<rparr>)"

subsection \<open>Sending\<close>

text \<open>\<open>sock_send\<close> on a stream whose remote address is local: the peer's ring, or the socket's own
  transmit ring when there is none.\<close>

definition tx_push :: "socket \<Rightarrow> u8 list \<Rightarrow> socket \<times> nat" where
  "tx_push d data =
     (let n = min (length data) (SOCK_BUF_SIZE - ring_used (sk_tx_head d) (sk_tx_tail d))
      in case ring_put (sk_tx_buf d) (sk_tx_head d) (take n data) of
           (b, h) \<Rightarrow> (d\<lparr> sk_tx_buf := b, sk_tx_head := h \<rparr>, n))"

definition sock_send_stream :: "nstate \<Rightarrow> int \<Rightarrow> u8 list \<Rightarrow> nstate \<times> int" where
  "sock_send_stream s fd data =
     (if \<not> sock_ok s fd then (s, - EBADF)
      else (let i = nat fd; d = sk s i
            in if sk_state d \<noteq> TCP_ESTABLISHED then (s, - ENOTCONN)
               else if sk_shutdown_tx d then (s, - EPIPE)
               else if sock_ok s (sk_peer d)
               then (if sk_shutdown_rx (sk s (nat (sk_peer d))) then (s, - EPIPE)
                     else (case sock_push_rx s (nat (sk_peer d)) data of
                         (s1, n) \<Rightarrow> (upd_sock s1 i (\<lambda>d. d\<lparr> sk_tcp_seq := sk_tcp_seq d + of_nat n \<rparr>), int n)))
               else (case tx_push d data of
                   (d1, n) \<Rightarrow> (upd_sock s i (\<lambda>_. d1\<lparr> sk_tcp_seq := sk_tcp_seq d1 + of_nat n \<rparr>), int n))))"

definition tcp_emit :: "nstate \<Rightarrow> int \<Rightarrow> u8 list \<Rightarrow> nstate \<times> int" where
  "tcp_emit s fd seg =
     (if net_is_real_external (sk_remote_ip (sk s (nat fd))) then net_send_tcp_frame s fd seg
      else sock_send_stream s fd seg)"

text \<open>A header and, for the opening segments, the option that announces the segment size.\<close>

definition tcp_header :: "nstate \<Rightarrow> int \<Rightarrow> tcb \<Rightarrow> u32 \<Rightarrow> u32 \<Rightarrow> u8 \<Rightarrow> u8 list" where
  "tcp_header s fd t seq ack flags =
     net_build_tcp (sk_local_port (sk s (nat fd))) (sk_remote_port (sk s (nat fd))) seq ack flags (ucast (rcv_wnd t))"

definition tcp_open_segment :: "nstate \<Rightarrow> int \<Rightarrow> tcb \<Rightarrow> u32 \<Rightarrow> u8 \<Rightarrow> u8 list" where
  "tcp_open_segment s fd t ack flags =
     (tcp_header s fd t (iss t) ack flags)[12 := 0x60] @ [2, 4, ucast (drop_bit 8 (mss t)), ucast (mss t)]"

definition tcp7_send_syn :: "nstate \<Rightarrow> int \<Rightarrow> nat \<Rightarrow> nstate" where
  "tcp7_send_syn s fd ti =
     upd_tcb (fst (tcp_emit s fd (tcp_open_segment s fd (ns_tcb s ti) 0 TCP_SYN))) ti
       (\<lambda>t. t\<lparr> snd_nxt := iss t + 1, snd_una := iss t \<rparr>)"

definition tcp7_send_synack :: "nstate \<Rightarrow> int \<Rightarrow> nat \<Rightarrow> nstate" where
  "tcp7_send_synack s fd ti =
     upd_tcb (fst (tcp_emit s fd (tcp_open_segment s fd (ns_tcb s ti) (irs (ns_tcb s ti) + 1) (TCP_SYN OR TCP_ACK)))) ti
       (\<lambda>t. t\<lparr> snd_nxt := iss t + 1, snd_una := iss t \<rparr>)"

definition tcp7_send_ack :: "nstate \<Rightarrow> int \<Rightarrow> nat \<Rightarrow> nstate" where
  "tcp7_send_ack s fd ti =
     (let t = ns_tcb s ti
      in upd_tcb (fst (tcp_emit s fd (tcp_header s fd t (snd_nxt t) (rcv_nxt t) TCP_ACK))) ti
           (\<lambda>t. t\<lparr> delack_pending := False \<rparr>))"

definition tcp7_send_fin :: "nstate \<Rightarrow> int \<Rightarrow> nat \<Rightarrow> nstate" where
  "tcp7_send_fin s fd ti =
     (let t = ns_tcb s ti
      in upd_tcb (fst (tcp_emit s fd (tcp_header s fd t (snd_nxt t) (rcv_nxt t) (TCP_FIN OR TCP_ACK)))) ti
           (\<lambda>t. t\<lparr> snd_nxt := snd_nxt t + 1 \<rparr>))"

definition tcp7_connect :: "nstate \<Rightarrow> int \<Rightarrow> u32 \<Rightarrow> u16 \<Rightarrow> u32 \<Rightarrow> u64 \<Rightarrow> nstate \<times> int" where
  "tcp7_connect s fd dst_ip dst_port isn now =
     (case tcp7_alloc s of
        (s1, None) \<Rightarrow> (s1, - ENOMEM)
      | (s1, Some ti) \<Rightarrow>
          (let s2 = upd_tcb s1 ti (\<lambda>t. t\<lparr> tb_fd := fd, tb_state := TCP_SYN_SENT, iss := isn, irs := 0,
                  snd_nxt := isn, snd_una := isn, rcv_nxt := 0, rcv_wnd := 65535, snd_wnd := 65535,
                  cwnd := TCP7_INITIAL_CWND * TCP7_MSS_DEFAULT, ssthresh := TCP7_INITIAL_SSTHRESH,
                  tb_cc := CC_SLOW_START, dup_acks := 0, rto := TCP7_RTO_INITIAL, srtt := 0, rttvar := 0,
                  rto_count := 0, rto_max := TCP7_MAX_RETRANSMITS, mss := TCP7_MSS_DEFAULT,
                  delack_pending := False, delack_expire := 2, time_wait_expire := 0 \<rparr>);
               s3 = upd_sock s2 (nat fd) (\<lambda>d. d\<lparr> sk_remote_ip := dst_ip, sk_remote_port := dst_port,
                  sk_state := TCP_SYN_SENT, sk_tcp_seq := isn, sk_tcp_ack := 0 \<rparr>);
               s4 = tcp7_send_syn s3 fd ti
           in (upd_tcb s4 ti (\<lambda>t. t\<lparr> rto_expire := now + ucast (rto t) \<rparr>), 0)))"

definition tcp_window_room :: "tcb \<Rightarrow> nat" where
  "tcp_window_room t =
     (let win = (if snd_wnd t < cwnd t then snd_wnd t else cwnd t); fl = snd_nxt t - snd_una t
      in if fl < win then unat (win - fl) else 0)"

text \<open>The loop over the segments of one send; \<open>Inl\<close> is its early return.  It does not end when the
  segment size is zero.\<close>

partial_function (option) send_loop ::
  "nstate \<Rightarrow> int \<Rightarrow> nat \<Rightarrow> u8 list \<Rightarrow> nat \<Rightarrow> (nstate \<times> (int + nat)) option" where
  "send_loop s fd ti p sent =
     (if length p \<le> sent then Some (s, Inr sent)
      else (let t = ns_tcb s ti;
                seg = min (length p - sent) (unat (mss t));
                pkt = tcp_header s fd t (snd_nxt t) (rcv_nxt t) (TCP_ACK OR TCP_PSH) @ take seg (drop sent p)
            in case tcp_emit s fd pkt of
                 (s1, rc) \<Rightarrow>
                   if rc < 0
                   then Some (s1, Inl (if net_is_real_external (sk_remote_ip (sk s (nat fd)))
                                       then (if sent \<noteq> 0 then int sent else - EAGAIN) else rc))
                   else send_loop (upd_tcb s1 ti (\<lambda>t. t\<lparr> snd_nxt := snd_nxt t + of_nat seg \<rparr>)) fd ti p (sent + seg)))"

definition tcp7_send :: "nstate \<Rightarrow> int \<Rightarrow> u8 list \<Rightarrow> (nstate \<times> int) option" where
  "tcp7_send s fd buf =
     (case tcp7_find s fd of
        None \<Rightarrow> Some (s, - ENOTCONN)
      | Some ti \<Rightarrow>
          (let t = ns_tcb s ti
           in if tb_state t \<noteq> TCP_ESTABLISHED \<and> tb_state t \<noteq> TCP_CLOSE_WAIT then Some (s, - ENOTCONN)
              else (let p = take (tcp_window_room t) buf
                    in if p = [] then Some (s, - EAGAIN)
                       else (case send_loop s fd ti p 0 of
                           None \<Rightarrow> None
                         | Some (s1, Inl rc) \<Rightarrow> Some (s1, rc)
                         | Some (s1, Inr sent) \<Rightarrow>
                             Some (upd_tcb s1 ti (\<lambda>t. t\<lparr> cwnd := cwnd t +
                                 (if tb_cc t = CC_SLOW_START then of_nat sent
                                  else of_nat sent * TCP7_MSS_DEFAULT div cwnd t) \<rparr>), int sent)))))"

definition tcp7_close :: "nstate \<Rightarrow> int \<Rightarrow> nstate \<times> int" where
  "tcp7_close s fd =
     (case tcp7_find s fd of
        None \<Rightarrow> (s, - ENOTCONN)
      | Some ti \<Rightarrow>
          (let st = tb_state (ns_tcb s ti);
               s1 = (if st = TCP_ESTABLISHED
                     then tcp7_send_fin (upd_tcb s ti (\<lambda>t. t\<lparr> tb_state := TCP_FIN_WAIT_1 \<rparr>)) fd ti
                     else if st = TCP_CLOSE_WAIT
                     then tcp7_send_fin (upd_tcb s ti (\<lambda>t. t\<lparr> tb_state := TCP_LAST_ACK \<rparr>)) fd ti
                     else upd_tcb s ti (\<lambda>t. t\<lparr> tb_state := TCP_CLOSED \<rparr>));
               s2 = upd_sock s1 (nat fd) (\<lambda>d. d\<lparr> sk_state := TCP_CLOSED \<rparr>)
           in (if tb_state (ns_tcb s2 ti) = TCP_CLOSED then upd_tcb s2 ti tcp7_release_tcb else s2, 0)))"

subsection \<open>Received segments\<close>

definition has_flag :: "u8 \<Rightarrow> u8 \<Rightarrow> bool" where
  "has_flag flags f \<longleftrightarrow> flags AND f \<noteq> 0"

definition seg_hdr_len :: "u8 list \<Rightarrow> nat" where
  "seg_hdr_len seg = unat (drop_bit 4 (seg ! 12)) * 4"

text \<open>The options of an opening segment; only a smaller segment size of at least 536 is taken.\<close>

function mss_scan :: "u8 list \<Rightarrow> nat \<Rightarrow> nat \<Rightarrow> u32 \<Rightarrow> u32" where
  "mss_scan seg hdr_len off m =
     (if hdr_len \<le> off then m
      else if seg ! off = 0 then m
      else if seg ! off = 1 then mss_scan seg hdr_len (off + 1) m
      else if hdr_len \<le> off + 1 then m
      else if unat (seg ! (off + 1)) < 2 \<or> hdr_len < off + unat (seg ! (off + 1)) then m
      else mss_scan seg hdr_len (off + unat (seg ! (off + 1)))
             (if seg ! off = 2 \<and> seg ! (off + 1) = 4
              then (let v = ucast (net16 seg (off + 2)) in if 536 \<le> v \<and> v < m then v else m)
              else m))"
  by pat_completeness auto
termination
  by (relation "measure (\<lambda>(seg, hdr_len, off, m). hdr_len - off)") auto

declare mss_scan.simps [simp del]

definition set_sock_state :: "nstate \<Rightarrow> int \<Rightarrow> tcp_state \<Rightarrow> nstate" where
  "set_sock_state s fd st = upd_sock s (nat fd) (\<lambda>d. d\<lparr> sk_state := st \<rparr>)"

definition step_syn_sent :: "nstate \<Rightarrow> int \<Rightarrow> nat \<Rightarrow> u8 \<Rightarrow> u32 \<Rightarrow> u32 \<Rightarrow> nstate" where
  "step_syn_sent s fd ti flags seq ack =
     (if has_flag flags TCP_SYN \<and> has_flag flags TCP_ACK
      then (let s1 = upd_tcb s ti (\<lambda>t. (tcp7_rtt_update 100 (t\<lparr> irs := seq, rcv_nxt := seq + 1, snd_una := ack,
                         tb_state := TCP_ESTABLISHED, rto_expire := 0 \<rparr>))\<lparr> tb_cc := CC_SLOW_START \<rparr>);
                s2 = upd_sock s1 (nat fd) (\<lambda>d. d\<lparr> sk_state := TCP_ESTABLISHED,
                         sk_tcp_seq := snd_nxt (ns_tcb s1 ti), sk_tcp_ack := rcv_nxt (ns_tcb s1 ti) \<rparr>)
            in tcp7_send_ack s2 fd ti)
      else s)"

definition step_syn_rcvd :: "nstate \<Rightarrow> int \<Rightarrow> nat \<Rightarrow> u8 \<Rightarrow> u32 \<Rightarrow> nstate" where
  "step_syn_rcvd s fd ti flags ack =
     (if has_flag flags TCP_ACK
      then set_sock_state (upd_tcb s ti (\<lambda>t. t\<lparr> snd_una := ack, tb_state := TCP_ESTABLISHED \<rparr>)) fd TCP_ESTABLISHED
      else s)"

text \<open>What an acknowledgement does to the window: a new one lets it grow, the third duplicate
  starts fast recovery.\<close>

definition ack_step :: "u32 \<Rightarrow> tcb \<Rightarrow> tcb" where
  "ack_step ack t =
     (if snd_una t < ack
      then (let t1 = t\<lparr> snd_una := ack, dup_acks := 0 \<rparr>;
                t2 = (if tb_cc t1 = CC_SLOW_START
                      then (let c = cwnd t1 + (ack - snd_una t)
                            in t1\<lparr> cwnd := c, tb_cc := (if ssthresh t1 \<le> c then CC_AVOIDANCE else CC_SLOW_START) \<rparr>)
                      else t1\<lparr> cwnd := cwnd t1 + TCP7_MSS_DEFAULT * TCP7_MSS_DEFAULT div cwnd t1 \<rparr>)
            in t2\<lparr> rto_count := 0 \<rparr>)
      else if ack = snd_una t
      then (let t1 = t\<lparr> dup_acks := dup_acks t + 1 \<rparr>
            in if 3 \<le> dup_acks t1
               then (let h = cwnd t1 div 2; th = (if h < 2 * TCP7_MSS_DEFAULT then 2 * TCP7_MSS_DEFAULT else h)
                     in t1\<lparr> ssthresh := th, cwnd := th + 3 * TCP7_MSS_DEFAULT, tb_cc := CC_FAST_RECOVER \<rparr>)
               else t1)
      else t)"

definition step_established :: "nstate \<Rightarrow> int \<Rightarrow> nat \<Rightarrow> u8 \<Rightarrow> u32 \<Rightarrow> u32 \<Rightarrow> nat \<Rightarrow> nstate \<times> bool" where
  "step_established s fd ti flags seq ack plen =
     (let accept = (0 < plen \<and> seq = rcv_nxt (ns_tcb s ti));
          s1 = (if 0 < plen
                then tcp7_send_ack (if accept then upd_tcb s ti (\<lambda>t. t\<lparr> rcv_nxt := rcv_nxt t + of_nat plen \<rparr>) else s) fd ti
                else s);
          s2 = (if has_flag flags TCP_FIN \<and> seq + of_nat plen = rcv_nxt (ns_tcb s1 ti)
                then tcp7_send_ack (set_sock_state (upd_tcb s1 ti (\<lambda>t. t\<lparr> rcv_nxt := rcv_nxt t + 1,
                        tb_state := TCP_CLOSE_WAIT \<rparr>)) fd TCP_CLOSE_WAIT) fd ti
                else s1);
          s3 = (if has_flag flags TCP_ACK then upd_tcb s2 ti (ack_step ack) else s2)
      in (s3, accept))"

definition to_time_wait :: "tcb \<Rightarrow> tcb" where
  "to_time_wait t = t\<lparr> rcv_nxt := rcv_nxt t + 1, tb_state := TCP_TIME_WAIT, time_wait_expire := 200 \<rparr>"

definition step_fin_wait_1 :: "nstate \<Rightarrow> int \<Rightarrow> nat \<Rightarrow> u8 \<Rightarrow> nstate" where
  "step_fin_wait_1 s fd ti flags =
     (if has_flag flags TCP_ACK \<and> has_flag flags TCP_FIN then tcp7_send_ack (upd_tcb s ti to_time_wait) fd ti
      else if has_flag flags TCP_ACK then upd_tcb s ti (\<lambda>t. t\<lparr> tb_state := TCP_FIN_WAIT_2 \<rparr>)
      else if has_flag flags TCP_FIN
      then tcp7_send_ack (upd_tcb s ti (\<lambda>t. t\<lparr> rcv_nxt := rcv_nxt t + 1, tb_state := TCP_CLOSING \<rparr>)) fd ti
      else s)"

definition step_fin_wait_2 :: "nstate \<Rightarrow> int \<Rightarrow> nat \<Rightarrow> u8 \<Rightarrow> nstate" where
  "step_fin_wait_2 s fd ti flags =
     (if has_flag flags TCP_FIN then tcp7_send_ack (upd_tcb s ti to_time_wait) fd ti else s)"

definition step_closing :: "nstate \<Rightarrow> nat \<Rightarrow> u8 \<Rightarrow> nstate" where
  "step_closing s ti flags =
     (if has_flag flags TCP_ACK
      then upd_tcb s ti (\<lambda>t. t\<lparr> tb_state := TCP_TIME_WAIT, time_wait_expire := 200 \<rparr>) else s)"

definition step_last_ack :: "nstate \<Rightarrow> int \<Rightarrow> nat \<Rightarrow> u8 \<Rightarrow> nstate" where
  "step_last_ack s fd ti flags =
     (if has_flag flags TCP_ACK then upd_tcb (set_sock_state s fd TCP_CLOSED) ti tcp7_release_tcb else s)"

definition tcp_step :: "nstate \<Rightarrow> int \<Rightarrow> nat \<Rightarrow> u8 \<Rightarrow> u32 \<Rightarrow> u32 \<Rightarrow> nat \<Rightarrow> nstate \<times> bool" where
  "tcp_step s fd ti flags seq ack plen =
     (case tb_state (ns_tcb s ti) of
        TCP_SYN_SENT \<Rightarrow> (step_syn_sent s fd ti flags seq ack, False)
      | TCP_SYN_RCVD \<Rightarrow> (step_syn_rcvd s fd ti flags ack, False)
      | TCP_ESTABLISHED \<Rightarrow> step_established s fd ti flags seq ack plen
      | TCP_FIN_WAIT_1 \<Rightarrow> (step_fin_wait_1 s fd ti flags, False)
      | TCP_FIN_WAIT_2 \<Rightarrow> (step_fin_wait_2 s fd ti flags, False)
      | TCP_CLOSING \<Rightarrow> (step_closing s ti flags, False)
      | TCP_LAST_ACK \<Rightarrow> (step_last_ack s fd ti flags, False)
      | _ \<Rightarrow> (s, False))"

definition tcp7_incoming_segment :: "nstate \<Rightarrow> int \<Rightarrow> u8 list \<Rightarrow> nstate \<times> bool" where
  "tcp7_incoming_segment s fd seg =
     (case tcp7_find s fd of
        None \<Rightarrow> (s, False)
      | Some ti \<Rightarrow>
          if length seg < 20 \<or> seg_hdr_len seg < 20 \<or> length seg < seg_hdr_len seg then (s, False)
          else (let flags = seg ! 13; hdr_len = seg_hdr_len seg; wnd = net16 seg 14;
                    s1 = upd_tcb s ti (\<lambda>t. t\<lparr> snd_wnd := (if wnd \<noteq> 0 then ucast wnd else snd_wnd t),
                           mss := (if has_flag flags TCP_SYN \<and> 20 < hdr_len then mss_scan seg hdr_len 20 (mss t) else mss t) \<rparr>)
                in if has_flag flags TCP_RST
                   then (upd_tcb (upd_sock s1 (nat fd) (\<lambda>d. d\<lparr> sk_state := TCP_CLOSED, sk_error := ECONNREFUSED \<rparr>)) ti
                           tcp7_release_tcb, False)
                   else tcp_step s1 fd ti flags (net32 seg 4) (net32 seg 8) (length seg - hdr_len)))"

subsection \<open>Received frames\<close>

definition frame_matches :: "socket \<Rightarrow> u8 \<Rightarrow> u32 \<Rightarrow> u32 \<Rightarrow> u16 \<Rightarrow> u16 \<Rightarrow> bool" where
  "frame_matches d proto src_ip dst_ip src_port dst_port \<longleftrightarrow>
     sk_used d \<and> sk_domain d = 2 \<and> (proto = 6 \<longrightarrow> sk_type d = 1) \<and> (proto = 17 \<longrightarrow> sk_type d = 2)
     \<and> (sk_protocol d \<noteq> 0 \<longrightarrow> sk_protocol d = int (unat proto))
     \<and> sock_ip_match (sk_local_ip d) dst_ip
     \<and> (sk_local_port d \<noteq> 0 \<longrightarrow> sk_local_port d = dst_port)
     \<and> (proto = 6 \<and> sk_remote_ip d \<noteq> 0 \<longrightarrow> sk_remote_ip d = src_ip)
     \<and> (proto = 6 \<and> sk_remote_port d \<noteq> 0 \<longrightarrow> sk_remote_port d = src_port)"

text \<open>A segment for socket \<open>i\<close>: TCP decides whether the payload is the next in order, and then the
  bytes go to the ring.\<close>

definition deliver_tcp :: "nstate \<Rightarrow> nat \<Rightarrow> u8 list \<Rightarrow> nstate" where
  "deliver_tcp s i tp =
     (let payload = drop (seg_hdr_len tp) tp
      in case tcp7_incoming_segment s (int i) tp of
           (s1, accept) \<Rightarrow>
             if accept \<and> payload \<noteq> [] \<and> length payload \<le> SOCK_BUF_SIZE
             then fst (sock_push_rx s1 i payload) else s1)"

text \<open>A datagram goes to the ring first; its record is lost when the queue of records is full.\<close>

definition deliver_udp :: "nstate \<Rightarrow> nat \<Rightarrow> u8 list \<Rightarrow> u32 \<Rightarrow> u16 \<Rightarrow> nstate" where
  "deliver_udp s i payload src_ip src_port =
     (if payload \<noteq> [] \<and> length payload \<le> SOCK_BUF_SIZE
      then (case sock_push_rx s i payload of
          (s1, pushed) \<Rightarrow>
            let nq = (sk_rx_msg_head (sk s1 i) + 1) mod SOCK_DGRAMQ
            in if pushed = length payload \<and> nq \<noteq> sk_rx_msg_tail (sk s1 i)
               then upd_sock s1 i (\<lambda>d. d\<lparr> sk_rx_msg := (sk_rx_msg d)(sk_rx_msg_head d :=
                      \<lparr> dg_len = of_nat (length payload), dg_ip = src_ip, dg_port = src_port \<rparr>), sk_rx_msg_head := nq \<rparr>)
               else s1)
      else s)"

text \<open>\<open>tp\<close> is the transport part within the length the header gives; \<open>raw\<close> is all that follows the
  IP header in the frame, from which the fields are read.  \<open>None\<close> is a read past the frame.\<close>

definition net_demux :: "nstate \<Rightarrow> u8 \<Rightarrow> u32 \<Rightarrow> u32 \<Rightarrow> u8 list \<Rightarrow> u8 list \<Rightarrow> nstate option" where
  "net_demux s proto src_ip dst_ip raw tp =
     (if length tp < 4 then Some s
      else (let src_port = net16 raw 0; dst_port = net16 raw 2
            in case find (\<lambda>i. frame_matches (sk s i) proto src_ip dst_ip src_port dst_port) [0..<SOCK_MAX] of
                 None \<Rightarrow> Some s
               | Some i \<Rightarrow>
                   if proto = 6 \<and> length raw \<le> 12 then None
                   else (let hdr_size = (if proto = 6 then seg_hdr_len raw else 8)
                         in if (proto = 6 \<and> hdr_size < 20) \<or> length tp < hdr_size then Some s
                            else if proto = 6 then Some (deliver_tcp s i tp)
                            else Some (deliver_udp s i (drop 8 tp) src_ip src_port))))"

definition net_process_ip :: "nstate \<Rightarrow> u8 list \<Rightarrow> nstate option" where
  "net_process_ip s p =
     (if length p < 20 \<or> drop_bit 4 (p ! 0) \<noteq> 4 then Some s
      else (let ihl = unat (p ! 0 AND 0x0F) * 4; tot = unat (net16 p 2)
            in if ihl < 20 \<or> length p < ihl \<or> tot < ihl then Some s
               else if p ! 9 = 6 \<or> p ! 9 = 17
               then net_demux s (p ! 9) (net32 p 12) (net32 p 16) (drop ihl p) (drop ihl (take tot p))
               else Some s))"

definition net_process_frame :: "nstate \<Rightarrow> u8 list \<Rightarrow> nstate option" where
  "net_process_frame s frame =
     (if length frame < 14 then Some s
      else if net16 frame 12 = 0x0806 then Some (s\<lparr> ns_arp := arp_process (ns_arp s) frame \<rparr>)
      else if net16 frame 12 \<noteq> 0x0800 then Some s
      else net_process_ip s (drop 14 frame))"

text \<open>All frames the card holds, cut at 2048 bytes; an empty one stops the loop.\<close>

fun poll_frames :: "nstate \<Rightarrow> u8 list list \<Rightarrow> nstate option" where
  "poll_frames s [] = Some (s\<lparr> ns_rxq := [] \<rparr>)"
| "poll_frames s (f # fs) =
     (if f = [] then Some (s\<lparr> ns_rxq := fs \<rparr>)
      else (case net_process_frame (s\<lparr> ns_arp := arp_process (ns_arp s) (take 2048 f) \<rparr>) (take 2048 f) of
              None \<Rightarrow> None
            | Some s1 \<Rightarrow> poll_frames s1 fs))"

definition e1000_poll_rx :: "nstate \<Rightarrow> nstate option" where
  "e1000_poll_rx s = poll_frames s (ns_rxq s)"

subsection \<open>What a send leaves alone\<close>

lemma tcb_upd [simp]: "ns_tcb (upd_tcb s i f) j = (if j = i then f (ns_tcb s i) else ns_tcb s j)"
  by (simp add: upd_tcb_def)

lemma upd_tcb_fields [simp]:
  "ns_sock (upd_tcb s i f) = ns_sock s" "ns_k (upd_tcb s i f) = ns_k s" "ns_eph (upd_tcb s i f) = ns_eph s"
  "ns_lease (upd_tcb s i f) = ns_lease s" "ns_ifs (upd_tcb s i f) = ns_ifs s" "ns_arp (upd_tcb s i f) = ns_arp s"
  "ns_dns (upd_tcb s i f) = ns_dns s" "ns_ip_id (upd_tcb s i f) = ns_ip_id s" "ns_rxq (upd_tcb s i f) = ns_rxq s"
  "ns_nic (upd_tcb s i f) = ns_nic s" "ns_sends (upd_tcb s i f) = ns_sends s" "ns_tx (upd_tcb s i f) = ns_tx s"
  by (simp_all add: upd_tcb_def)

text \<open>\<open>same_core s s'\<close>: sockets, connection blocks and tables are equal; only frames went out.\<close>

definition same_core :: "nstate \<Rightarrow> nstate \<Rightarrow> bool" where
  "same_core s s' \<longleftrightarrow> ns_sock s' = ns_sock s \<and> ns_tcb s' = ns_tcb s \<and> ns_k s' = ns_k s \<and> ns_lease s' = ns_lease s
     \<and> ns_ifs s' = ns_ifs s \<and> ns_arp s' = ns_arp s \<and> ns_dns s' = ns_dns s \<and> ns_eph s' = ns_eph s
     \<and> ns_rxq s' = ns_rxq s \<and> ns_nic s' = ns_nic s"

lemma same_core_e1000 [simp]: "same_core s (fst (e1000_send s f))"
  by (simp add: same_core_def e1000_send_def)

lemma same_core_trans: "same_core s s1 \<Longrightarrow> same_core s1 s2 \<Longrightarrow> same_core s s2"
  by (simp add: same_core_def)

lemma same_core_arp [simp]: "same_core s (fst (net_send_arp_request s ip))"
  by (simp add: net_send_arp_request_def same_core_def e1000_send_def split: option.splits)

lemma same_core_frame: "same_core s (fst (net_send_tcp_frame s fd seg))"
proof -
  have "same_core s (fst (e1000_send (s\<lparr> ns_ip_id := n \<rparr>) f))" for n f
    by (rule same_core_trans [OF _ same_core_e1000]) (simp add: same_core_def)
  moreover have "same_core s s" by (simp add: same_core_def)
  ultimately show ?thesis
    by (auto simp: net_send_tcp_frame_def Let_def split: option.splits prod.splits bool.splits)
qed

abbreviation ext_sock :: "nstate \<Rightarrow> nat \<Rightarrow> bool" where
  "ext_sock s i \<equiv> net_is_real_external (sk_remote_ip (sk s i))"

lemma same_core_emit: "ext_sock s (nat fd) \<Longrightarrow> same_core s (fst (tcp_emit s fd seg))"
  by (simp add: tcp_emit_def same_core_frame)

text \<open>An acknowledgement through an external connection changes only the block's delayed mark.\<close>

lemma send_ack_frame:
  assumes "ext_sock s (nat fd)"
  shows "ns_sock (tcp7_send_ack s fd ti) = ns_sock s"
    and "ns_tcb (tcp7_send_ack s fd ti) = (ns_tcb s)(ti := (ns_tcb s ti)\<lparr> delack_pending := False \<rparr>)"
    and "ns_k (tcp7_send_ack s fd ti) = ns_k s"
  using same_core_emit [OF assms, of "tcp_header s fd (ns_tcb s ti) (snd_nxt (ns_tcb s ti)) (rcv_nxt (ns_tcb s ti)) TCP_ACK"]
  by (simp_all add: tcp7_send_ack_def Let_def upd_tcb_def same_core_def)

subsection \<open>Delivery in order\<close>

text \<open>\<open>conn s i ti\<close>: socket \<open>i\<close> is used, its peer is on the network and block \<open>ti\<close> belongs to it.\<close>

definition conn :: "nstate \<Rightarrow> nat \<Rightarrow> nat \<Rightarrow> bool" where
  "conn s i ti \<longleftrightarrow> tcp7_find s (int i) = Some ti \<and> ext_sock s i \<and> rx_ok (sk s i)"

lemma tcp7_find_cong: "(\<And>j. tb_fd (ns_tcb s' j) = tb_fd (ns_tcb s j)) \<Longrightarrow> tcp7_find s' fd = tcp7_find s fd"
  by (simp add: tcp7_find_def)

text \<open>A segment of the stream \<open>B\<close> whose first byte has sequence number \<open>base\<close>: any piece of it, with
  \<open>FIN\<close> only at its end.\<close>

definition seg_of :: "u8 list \<Rightarrow> u32 \<Rightarrow> u8 list \<Rightarrow> bool" where
  "seg_of B base seg \<longleftrightarrow> 20 \<le> length seg \<and> 20 \<le> seg_hdr_len seg \<and> seg_hdr_len seg \<le> length seg
     \<and> \<not> has_flag (seg ! 13) TCP_RST
     \<and> (\<exists>off. off + (length seg - seg_hdr_len seg) \<le> length B \<and> net32 seg 4 = base + of_nat off
          \<and> drop (seg_hdr_len seg) seg = take (length seg - seg_hdr_len seg) (drop off B)
          \<and> (has_flag (seg ! 13) TCP_FIN \<longrightarrow> off + (length seg - seg_hdr_len seg) = length B))"

text \<open>\<open>n\<close> bytes of the stream have been taken, of which \<open>got\<close> have been read.\<close>

definition stream_at :: "nstate \<Rightarrow> nat \<Rightarrow> nat \<Rightarrow> u8 list \<Rightarrow> u32 \<Rightarrow> u8 list \<Rightarrow> nat \<Rightarrow> bool" where
  "stream_at s i ti B base got n \<longleftrightarrow> conn s i ti \<and> n \<le> length B \<and> got @ rx_abs (sk s i) = take n B
     \<and> (tb_state (ns_tcb s ti) = TCP_ESTABLISHED \<and> rcv_nxt (ns_tcb s ti) = base + of_nat n
        \<or> tb_state (ns_tcb s ti) = TCP_CLOSE_WAIT \<and> n = length B)"

lemma of_nat_inj32: "i < 2 ^ 32 \<Longrightarrow> j < 2 ^ 32 \<Longrightarrow> base + of_nat i = base + (of_nat j :: u32) \<longleftrightarrow> i = j"
  unfolding add_left_cancel by (simp add: word_unat_eq_iff unat_of_nat)

text \<open>The fields by which a frame finds its socket.\<close>

definition sk_addr :: "socket \<Rightarrow> bool \<times> int \<times> int \<times> int \<times> u32 \<times> u16 \<times> u32 \<times> u16" where
  "sk_addr d = (sk_used d, sk_domain d, sk_type d, sk_protocol d, sk_local_ip d, sk_local_port d,
     sk_remote_ip d, sk_remote_port d)"

lemma sk_addr_simps [simp]:
  "sk_addr (d\<lparr> sk_state := st \<rparr>) = sk_addr d" "sk_addr (d\<lparr> sk_rx_buf := b, sk_rx_head := h \<rparr>) = sk_addr d"
  "sk_addr (d\<lparr> sk_rx_tail := t \<rparr>) = sk_addr d"
  by (simp_all add: sk_addr_def)

lemma frame_matches_cong: "sk_addr d = sk_addr d' \<Longrightarrow> frame_matches d = frame_matches d'"
  by (intro ext) (auto simp: sk_addr_def frame_matches_def)

lemma ack_step_fields:
  "tb_fd (ack_step a t) = tb_fd t" "tb_state (ack_step a t) = tb_state t" "rcv_nxt (ack_step a t) = rcv_nxt t"
  by (simp_all add: ack_step_def Let_def)

text \<open>What one segment does to an established connection.\<close>

lemma step_established_effect:
  assumes "ext_sock s (nat fd)" and "step_established s fd ti flags seq ack plen = (s', acc)"
  defines "t \<equiv> ns_tcb s ti" and "t' \<equiv> ns_tcb s' ti"
  shows "acc \<longleftrightarrow> 0 < plen \<and> seq = rcv_nxt t"
    and "\<exists>st. sk s' j = (sk s j)\<lparr> sk_state := st \<rparr>"
    and "tb_fd (ns_tcb s' j) = tb_fd (ns_tcb s j)"
    and "let r = rcv_nxt t + (if acc then of_nat plen else 0);
             fin = has_flag flags TCP_FIN \<and> seq + of_nat plen = r
         in tb_state t' = (if fin then TCP_CLOSE_WAIT else tb_state t) \<and> rcv_nxt t' = r + (if fin then 1 else 0)"
proof -
  let ?acc = "0 < plen \<and> seq = rcv_nxt (ns_tcb s ti)"
  define s1 where "s1 = (if 0 < plen
      then tcp7_send_ack (if ?acc then upd_tcb s ti (\<lambda>t. t\<lparr> rcv_nxt := rcv_nxt t + of_nat plen \<rparr>) else s) fd ti else s)"
  define s2 where "s2 = (if has_flag flags TCP_FIN \<and> seq + of_nat plen = rcv_nxt (ns_tcb s1 ti)
      then tcp7_send_ack (set_sock_state (upd_tcb s1 ti (\<lambda>t. t\<lparr> rcv_nxt := rcv_nxt t + 1, tb_state := TCP_CLOSE_WAIT \<rparr>)) fd
             TCP_CLOSE_WAIT) fd ti
      else s1)"
  have e: "s' = (if has_flag flags TCP_ACK then upd_tcb s2 ti (ack_step ack) else s2)" "acc = ?acc"
    using assms(2) unfolding step_established_def Let_def s2_def s1_def by auto
  have k1: "ns_sock s1 = ns_sock s" "rcv_nxt (ns_tcb s1 ti) = rcv_nxt t + (if acc then of_nat plen else 0)"
    "tb_state (ns_tcb s1 ti) = tb_state t" "tb_fd (ns_tcb s1 j) = tb_fd (ns_tcb s j)" for j
    using assms(1) by (auto simp: s1_def send_ack_frame e(2) t_def)
  have x1: "ext_sock (set_sock_state (upd_tcb s1 ti f) fd st) (nat fd)" for f st
    using assms(1) k1(1) by (simp add: set_sock_state_def)
  show "acc \<longleftrightarrow> 0 < plen \<and> seq = rcv_nxt t" by (simp add: e(2) t_def)
  have nc: "sk s j = (sk s j)\<lparr> sk_state := sk_state (sk s j) \<rparr>" by simp
  show "\<exists>st. sk s' j = (sk s j)\<lparr> sk_state := st \<rparr>"
  proof (cases "ns_sock s' = ns_sock s")
    case True
    then show ?thesis using nc by metis
  next
    case False
    then have "ns_sock s' = ns_sock (set_sock_state s fd TCP_CLOSE_WAIT)"
      unfolding e(1) s2_def using k1(1) x1
      by (simp add: send_ack_frame split: if_splits) (simp_all add: set_sock_state_def upd_sock_def)
    then show ?thesis using nc by (cases "j = nat fd") (auto simp: set_sock_state_def intro: exI [of _ "sk_state (sk s j)"])
  qed
  show "tb_fd (ns_tcb s' j) = tb_fd (ns_tcb s j)"
    unfolding e(1) s2_def using k1 x1 by (simp add: send_ack_frame ack_step_fields) (simp add: set_sock_state_def ack_step_fields)
  show "let r = rcv_nxt t + (if acc then of_nat plen else 0);
             fin = has_flag flags TCP_FIN \<and> seq + of_nat plen = r
         in tb_state t' = (if fin then TCP_CLOSE_WAIT else tb_state t) \<and> rcv_nxt t' = r + (if fin then 1 else 0)"
    unfolding t'_def e(1) s2_def Let_def using k1 x1
    by (simp add: send_ack_frame ack_step_fields) (simp add: set_sock_state_def ack_step_fields)
qed


text \<open>The step of \<open>deliver_tcp\<close> on a segment of the stream while the ring has room for it.\<close>

definition ready_tcb :: "nstate \<Rightarrow> nat \<Rightarrow> u8 list \<Rightarrow> nstate" where
  "ready_tcb s ti seg = upd_tcb s ti (\<lambda>t. t\<lparr> snd_wnd := (if net16 seg 14 \<noteq> 0 then ucast (net16 seg 14) else snd_wnd t),
     mss := (if has_flag (seg ! 13) TCP_SYN \<and> 20 < seg_hdr_len seg then mss_scan seg (seg_hdr_len seg) 20 (mss t) else mss t) \<rparr>)"

lemma incoming_seg_of:
  assumes "tcp7_find s (int i) = Some ti" and "seg_of B base seg"
  shows "tcp7_incoming_segment s (int i) seg
    = tcp_step (ready_tcb s ti seg) (int i) ti (seg ! 13) (net32 seg 4) (net32 seg 8) (length seg - seg_hdr_len seg)"
  using assms by (auto simp: tcp7_incoming_segment_def seg_of_def ready_tcb_def Let_def)

lemma stream_step:
  assumes at: "stream_at s i ti B base got n" and sg: "seg_of B base seg" and B: "length B < 2 ^ 32"
    and room: "length (rx_abs (sk s i)) + (length seg - seg_hdr_len seg) \<le> SOCK_BUF_SIZE"
  shows "\<exists>m \<ge> n. stream_at (deliver_tcp s i seg) i ti B base got m
    \<and> (tb_state (ns_tcb s ti) = TCP_ESTABLISHED \<and> net32 seg 4 = base + of_nat n \<longrightarrow> m = n + (length seg - seg_hdr_len seg))
    \<and> (\<not> has_flag (seg ! 13) TCP_FIN \<longrightarrow> tb_state (ns_tcb (deliver_tcp s i seg) ti) = tb_state (ns_tcb s ti))
    \<and> (\<forall>k. sk_addr (sk (deliver_tcp s i seg) k) = sk_addr (sk s k))"
proof -
  let ?l = "length seg - seg_hdr_len seg" and ?p = "drop (seg_hdr_len seg) seg"
  let ?s0 = "ready_tcb s ti seg"
  have find: "tcp7_find s (int i) = Some ti" and ext: "ext_sock s i" and rx: "rx_ok (sk s i)"
    using at by (auto simp: stream_at_def conn_def)
  have inc: "tcp7_incoming_segment s (int i) seg
      = tcp_step ?s0 (int i) ti (seg ! 13) (net32 seg 4) (net32 seg 8) ?l"
    by (rule incoming_seg_of [OF find sg])
  have s0: "ns_sock ?s0 = ns_sock s" "tb_state (ns_tcb ?s0 ti) = tb_state (ns_tcb s ti)"
    "rcv_nxt (ns_tcb ?s0 ti) = rcv_nxt (ns_tcb s ti)" "tb_fd (ns_tcb ?s0 j) = tb_fd (ns_tcb s j)" for j
    by (simp_all add: ready_tcb_def)
  have f0: "tcp7_find ?s0 fd = tcp7_find s fd" for fd by (rule tcp7_find_cong) (rule s0(4))
  have lp: "length ?p = ?l" by simp
  show ?thesis
  proof (cases "tb_state (ns_tcb s ti) = TCP_ESTABLISHED")
    case False
    then have cw: "tb_state (ns_tcb s ti) = TCP_CLOSE_WAIT" "n = length B" using at by (auto simp: stream_at_def)
    then have "deliver_tcp s i seg = ?s0" using inc s0(2) by (simp add: deliver_tcp_def tcp_step_def)
    then have "stream_at (deliver_tcp s i seg) i ti B base got n"
      "tb_state (ns_tcb (deliver_tcp s i seg) ti) = tb_state (ns_tcb s ti)" "ns_sock (deliver_tcp s i seg) = ns_sock s"
      using at cw s0 f0 by (simp_all add: stream_at_def conn_def)
    then show ?thesis using False by (intro exI [of _ n]) simp
  next
    case True
    have rn: "rcv_nxt (ns_tcb s ti) = base + of_nat n" and n: "n \<le> length B" and gt: "got @ rx_abs (sk s i) = take n B"
      using at True by (auto simp: stream_at_def)
    obtain off where off: "off + ?l \<le> length B" "net32 seg 4 = base + of_nat off" "?p = take ?l (drop off B)"
      and fin: "has_flag (seg ! 13) TCP_FIN \<Longrightarrow> off + ?l = length B" using sg unfolding seg_of_def by blast
    obtain s1 acc where st: "step_established ?s0 (int i) ti (seg ! 13) (net32 seg 4) (net32 seg 8) ?l = (s1, acc)" by fastforce
    have x0: "ext_sock ?s0 (nat (int i))" using ext s0(1) by simp
    note eff = step_established_effect [OF x0 st]
    have lt: "off < 2 ^ 32" "n < 2 ^ 32" "off + ?l < 2 ^ 32" using off(1) n B by simp_all
    have acc: "acc \<longleftrightarrow> 0 < ?l \<and> off = n"
      using eff(1) unfolding s0(3) rn off(2) of_nat_inj32 [OF lt(1,2)] .
    define m where "m = n + (if acc then ?l else 0)"
    have m: "m \<le> length B" "m < 2 ^ 32" using acc off(1) n B by (auto simp: m_def)
    have r: "rcv_nxt (ns_tcb ?s0 ti) + (if acc then of_nat ?l else 0) = base + of_nat m"
      unfolding s0(3) rn by (simp add: m_def)
    have fm: "net32 seg 4 + of_nat ?l = base + of_nat m \<longleftrightarrow> off + ?l = m"
      using of_nat_inj32 [OF lt(3) m(2), of base] unfolding off(2) by (simp add: add.assoc)
    have st1: "tb_state (ns_tcb s1 ti) = TCP_ESTABLISHED \<and> rcv_nxt (ns_tcb s1 ti) = base + of_nat m
        \<or> tb_state (ns_tcb s1 ti) = TCP_CLOSE_WAIT \<and> m = length B"
      using eff(4) fin True s0(2) unfolding Let_def r fm by (auto split: if_splits)
    obtain st' where "sk s1 i = (sk s i)\<lparr> sk_state := st' \<rparr>" using eff(2) [of i] s0(1) by auto
    then have rb: "rx_abs (sk s1 i) = rx_abs (sk s i)" "rx_ok (sk s1 i)" "ext_sock s1 i" using rx ext by simp_all
    have ad1: "sk_addr (sk s1 k) = sk_addr (sk s k)" for k using eff(2) [of k] s0(1) by auto
    have es1: "\<not> has_flag (seg ! 13) TCP_FIN \<Longrightarrow> tb_state (ns_tcb s1 ti) = tb_state (ns_tcb s ti)"
      using eff(4) s0(2) by (simp add: Let_def)
    have f1: "tcp7_find s1 (int i) = Some ti"
      using tcp7_find_cong [of s1 ?s0] eff(3) f0 find by simp
    have d: "deliver_tcp s i seg = (if acc \<and> ?p \<noteq> [] \<and> length ?p \<le> SOCK_BUF_SIZE then fst (sock_push_rx s1 i ?p) else s1)"
      using inc True s0(2) st by (simp add: deliver_tcp_def tcp_step_def Let_def)
    have "stream_at (deliver_tcp s i seg) i ti B base got m \<and> ns_tcb (deliver_tcp s i seg) = ns_tcb s1
        \<and> (\<forall>k. sk_addr (sk (deliver_tcp s i seg) k) = sk_addr (sk s1 k))"
    proof (cases acc)
      case False
      then show ?thesis using d f1 rb st1 m gt by (simp add: stream_at_def conn_def m_def)
    next
      case True
      then have l: "0 < ?l" "off = n" using acc by simp_all
      have "?p \<noteq> []" "length ?p \<le> SOCK_BUF_SIZE" using l(1) room by auto
      with True d have d': "deliver_tcp s i seg = fst (sock_push_rx s1 i ?p)" by simp
      obtain b h where p: "fst (rx_push (sk s1 i) ?p) = (sk s1 i)\<lparr> sk_rx_buf := b, sk_rx_head := h \<rparr>"
        "ring_abs b h (sk_rx_tail (sk s1 i)) = rx_abs (sk s1 i) @ ?p" "ring_ok h (sk_rx_tail (sk s1 i))"
      proof -
        have "take (SOCK_BUF_SIZE - length (rx_abs (sk s1 i))) ?p = ?p"
        proof (rule take_all)
          show "length ?p \<le> SOCK_BUF_SIZE - length (rx_abs (sk s1 i))" using room unfolding rb(1) lp by linarith
        qed
        then show ?thesis using rx_push_spec [OF rb(2), of ?p] that by auto
      qed
      obtain s2 k where s2: "sock_push_rx s1 i ?p = (s2, k)" by fastforce
      have sk2: "sk s2 i = (sk s1 i)\<lparr> sk_rx_buf := b, sk_rx_head := h \<rparr>"
        using sock_push_rx_sock [OF s2, of i] p(1) by simp
      have tc: "ns_tcb s2 = ns_tcb s1"
        using s2 by (auto simp: sock_push_rx_def Let_def split: prod.splits if_splits)
      have "got @ rx_abs (sk s2 i) = take n B @ take ?l (drop n B)"
        using sk2 p(2) rb(1) gt off(3) l(2) by simp
      also have "\<dots> = take m B" using True by (simp add: m_def take_add)
      finally have "got @ rx_abs (sk s2 i) = take m B" .
      moreover have "tcp7_find s2 (int i) = Some ti" using f1 tc by (simp add: tcp7_find_def)
      moreover have "sk_addr (sk s2 k) = sk_addr (sk s1 k)" for k
        using sock_push_rx_sock [OF s2, of k] p(1) by simp
      ultimately show ?thesis
        unfolding d' s2 fst_conv using sk2 p(3) rb(3) tc st1 m by (simp add: stream_at_def conn_def)
    qed
    moreover have "net32 seg 4 = base + of_nat n \<Longrightarrow> m = n + ?l"
      unfolding off(2) of_nat_inj32 [OF lt(1,2)] by (auto simp: m_def acc)
    moreover have "n \<le> m" by (simp add: m_def)
    ultimately show ?thesis using es1 ad1 by (intro exI [of _ m]) auto
  qed
qed

text \<open>Segments and reads in any order; the last component says that no segment found the ring too full.\<close>

datatype tcp_op = TSeg "u8 list" | TRead nat

fun tcp_run :: "nstate \<Rightarrow> nat \<Rightarrow> tcp_op list \<Rightarrow> nstate \<times> u8 list \<times> bool" where
  "tcp_run s i [] = (s, [], True)"
| "tcp_run s i (TSeg seg # ops) =
     (case tcp_run (deliver_tcp s i seg) i ops of
        (s', bs, ok) \<Rightarrow> (s', bs, ok \<and> length (rx_abs (sk s i)) + (length seg - seg_hdr_len seg) \<le> SOCK_BUF_SIZE))"
| "tcp_run s i (TRead n # ops) =
     (case rx_pop (sk s i) n of
        (d, bs) \<Rightarrow> (case tcp_run (upd_sock s i (\<lambda>_. d)) i ops of (s', bs', ok) \<Rightarrow> (s', bs @ bs', ok)))"

lemma stream_read:
  assumes "stream_at s i ti B base got n" and "rx_pop (sk s i) k = (d, bs)"
  shows "stream_at (upd_sock s i (\<lambda>_. d)) i ti B base (got @ bs) n"
proof -
  have rx: "rx_ok (sk s i)" using assms(1) by (simp add: stream_at_def conn_def)
  obtain t where t: "d = (sk s i)\<lparr> sk_rx_tail := t \<rparr>" "bs = take k (rx_abs (sk s i))"
    "ring_abs (sk_rx_buf (sk s i)) (sk_rx_head (sk s i)) t = drop k (rx_abs (sk s i))" "ring_ok (sk_rx_head (sk s i)) t"
    using rx_pop_spec [OF rx, of k] assms(2) by auto
  have "bs @ rx_abs d = rx_abs (sk s i)" using t by simp
  then show ?thesis
    using assms(1) t by (simp add: stream_at_def conn_def tcp7_find_def)
qed

lemma tcp_run_stream:
  "stream_at s i ti B base got n \<Longrightarrow> \<forall>seg. TSeg seg \<in> set ops \<longrightarrow> seg_of B base seg \<Longrightarrow> length B < 2 ^ 32 \<Longrightarrow>
   tcp_run s i ops = (s', bs, True) \<Longrightarrow> \<exists>m. stream_at s' i ti B base (got @ bs) m"
proof (induction ops arbitrary: s got n bs)
  case Nil
  then show ?case by auto
next
  case (Cons a ops)
  show ?case
  proof (cases a)
    case (TSeg seg)
    obtain s1 b ok where r: "tcp_run (deliver_tcp s i seg) i ops = (s1, b, ok)" by (cases "tcp_run (deliver_tcp s i seg) i ops")
    have e: "s1 = s'" "b = bs" "ok" and room: "length (rx_abs (sk s i)) + (length seg - seg_hdr_len seg) \<le> SOCK_BUF_SIZE"
      using Cons.prems(4) r TSeg by auto
    have "seg_of B base seg" using Cons.prems(2) TSeg by simp
    from stream_step [OF Cons.prems(1) this Cons.prems(3) room] obtain m
      where "stream_at (deliver_tcp s i seg) i ti B base got m" by blast
    from Cons.IH [OF this _ Cons.prems(3)] r e Cons.prems(2) show ?thesis by simp
  next
    case (TRead k)
    obtain d c where p: "rx_pop (sk s i) k = (d, c)" by fastforce
    obtain s1 b ok where r: "tcp_run (upd_sock s i (\<lambda>_. d)) i ops = (s1, b, ok)" by (cases "tcp_run (upd_sock s i (\<lambda>_. d)) i ops")
    have e: "s1 = s'" "bs = c @ b" "ok" using Cons.prems(4) r p TRead by auto
    from Cons.IH [OF stream_read [OF Cons.prems(1) p] _ Cons.prems(3)] r e Cons.prems(2) show ?thesis by simp
  qed
qed

subsection \<open>Cutting a send into segments\<close>

function chunks :: "nat \<Rightarrow> 'a list \<Rightarrow> 'a list list" where
  "chunks m p = (if p = [] \<or> m = 0 then [] else take m p # chunks m (drop m p))"
  by pat_completeness auto
termination
  by (relation "measure (\<lambda>(m, p). length p)") auto

declare chunks.simps [simp del]

lemma concat_chunks: "0 < m \<Longrightarrow> concat (chunks m p) = p"
  by (induction m p rule: chunks.induct) (simp add: chunks.simps)

lemma chunks_bounds: "c \<in> set (chunks m p) \<Longrightarrow> 0 < length c \<and> length c \<le> m"
proof (induction m p rule: chunks.induct)
  case (1 m p)
  then show ?case by (cases "p = [] \<or> m = 0") (auto simp: chunks.simps [of m p])
qed

fun data_frames :: "(u16 \<Rightarrow> u32 \<Rightarrow> u8 list \<Rightarrow> u8 list) \<Rightarrow> u16 \<Rightarrow> u32 \<Rightarrow> u8 list list \<Rightarrow> u8 list list" where
  "data_frames mk ident seq [] = []"
| "data_frames mk ident seq (c # cs) = mk ident seq c # data_frames mk (ident + 1) (seq + of_nat (length c)) cs"

text \<open>\<open>link s fd sm dm\<close>: the socket's frames go out through an interface with address \<open>sm\<close> to the host
  with address \<open>dm\<close>, and the card takes them.\<close>

definition link :: "nstate \<Rightarrow> int \<Rightarrow> u8 list \<Rightarrow> u8 list \<Rightarrow> bool" where
  "link s fd sm dm \<longleftrightarrow> sock_ok s fd \<and> ext_sock s (nat fd) \<and> net_get_src_mac (ns_ifs s) = Some sm
     \<and> arp_resolve (ns_arp s) (net_get_gateway_ip (ns_lease s) (sk_remote_ip (sk s (nat fd)))) = (True, dm)
     \<and> length sm = 6 \<and> length dm = 6 \<and> (\<forall>n. ns_nic s n)"

definition link_src :: "nstate \<Rightarrow> int \<Rightarrow> u32" where
  "link_src s fd = (if sk_local_ip (sk s (nat fd)) \<noteq> 0 then sk_local_ip (sk s (nat fd)) else net_get_src_ip (ns_lease s))"

definition data_frame :: "nstate \<Rightarrow> int \<Rightarrow> nat \<Rightarrow> u8 list \<Rightarrow> u8 list \<Rightarrow> u16 \<Rightarrow> u32 \<Rightarrow> u8 list \<Rightarrow> u8 list" where
  "data_frame s fd ti sm dm ident seq c =
     net_tcp_frame sm dm ident (link_src s fd) (sk_remote_ip (sk s (nat fd)))
       (tcp_header s fd (ns_tcb s ti) seq (rcv_nxt (ns_tcb s ti)) (TCP_ACK OR TCP_PSH) @ c)"

lemma length_tcp_header [simp]: "length (tcp_header s fd t seq ack flags) = 20"
  by (simp add: tcp_header_def)

lemma length_net_tcp_frame:
  "length sm = 6 \<Longrightarrow> length dm = 6 \<Longrightarrow> length (net_tcp_frame sm dm ident src dst seg) = 34 + length seg"
  by (simp add: net_tcp_frame_def tcp_checksummed_def Let_def)

lemma emit_link:
  assumes "link s fd sm dm" and "seg \<noteq> []" and "length seg \<le> 1480"
  shows "tcp_emit s fd seg = (s\<lparr> ns_ip_id := ns_ip_id s + 1, ns_sends := ns_sends s + 1,
           ns_tx := ns_tx s @ [net_tcp_frame sm dm (ns_ip_id s) (link_src s fd) (sk_remote_ip (sk s (nat fd))) seg] \<rparr>,
         34 + int (length seg))"
proof -
  let ?f = "net_tcp_frame sm dm (ns_ip_id s) (link_src s fd) (sk_remote_ip (sk s (nat fd))) seg"
  have l: "length ?f = 34 + length seg" using assms(1) by (simp add: link_def length_net_tcp_frame)
  then have "?f \<noteq> []" "length ?f \<le> 2048" using assms(3) by auto
  then show ?thesis
    using assms l by (auto simp: tcp_emit_def link_def net_send_tcp_frame_def Let_def link_src_def e1000_send_def)
qed

lemma link_cong:
  "ns_sock s' = ns_sock s \<Longrightarrow> ns_ifs s' = ns_ifs s \<Longrightarrow> ns_arp s' = ns_arp s \<Longrightarrow> ns_lease s' = ns_lease s \<Longrightarrow> ns_nic s' = ns_nic s
   \<Longrightarrow> link s' fd sm dm = link s fd sm dm"
  by (simp add: link_def sock_ok_def)

text \<open>Over a link, the loop sends the data in pieces of the segment size, numbered in sequence.\<close>

lemma send_loop_link:
  assumes "link s fd sm dm" and "0 < unat (mss (ns_tcb s ti))" and "unat (mss (ns_tcb s ti)) \<le> 1460" and "sent \<le> length p"
  shows "\<exists>s'. send_loop s fd ti p sent = Some (s', Inr (length p)) \<and> ns_sock s' = ns_sock s
    \<and> ns_tcb s' = (ns_tcb s)(ti := (ns_tcb s ti)\<lparr> snd_nxt := snd_nxt (ns_tcb s ti) + of_nat (length p - sent) \<rparr>)
    \<and> ns_tx s' = ns_tx s @ data_frames (data_frame s fd ti sm dm) (ns_ip_id s) (snd_nxt (ns_tcb s ti))
         (chunks (unat (mss (ns_tcb s ti))) (drop sent p))"
  using assms
proof (induction "length p - sent" arbitrary: s sent rule: less_induct)
  case less
  let ?t = "ns_tcb s ti"
  let ?m = "unat (mss ?t)"
  show ?case
  proof (cases "length p \<le> sent")
    case True
    then show ?thesis using less.prems(4) by (simp add: send_loop.simps chunks.simps)
  next
    case False
    let ?c = "take ?m (drop sent p)"
    let ?seg = "min (length p - sent) ?m"
    let ?pkt = "tcp_header s fd ?t (snd_nxt ?t) (rcv_nxt ?t) (TCP_ACK OR TCP_PSH) @ ?c"
    have c: "take ?seg (drop sent p) = ?c" "length ?c = ?seg" by (simp_all add: min_def)
    have "20 \<le> length ?pkt" by simp
    then have pk: "?pkt \<noteq> []" "length ?pkt \<le> 1480" using less.prems(3) by (force, auto)
    define s1 where "s1 = s\<lparr> ns_ip_id := ns_ip_id s + 1, ns_sends := ns_sends s + 1,
        ns_tx := ns_tx s @ [data_frame s fd ti sm dm (ns_ip_id s) (snd_nxt ?t) ?c] \<rparr>"
    have em: "tcp_emit s fd ?pkt = (s1, 34 + int (length ?pkt))"
      using emit_link [OF less.prems(1) pk] by (simp add: s1_def data_frame_def)
    define s2 where "s2 = upd_tcb s1 ti (\<lambda>t. t\<lparr> snd_nxt := snd_nxt t + of_nat ?seg \<rparr>)"
    have loop: "send_loop s fd ti p sent = send_loop s2 fd ti p (sent + ?seg)"
      using False em c by (subst send_loop.simps) (simp add: Let_def s2_def)
    have f: "ns_sock s2 = ns_sock s" "ns_ifs s2 = ns_ifs s" "ns_arp s2 = ns_arp s" "ns_lease s2 = ns_lease s"
      "ns_nic s2 = ns_nic s" "ns_ip_id s2 = ns_ip_id s + 1"
      "ns_tcb s2 = (ns_tcb s)(ti := ?t\<lparr> snd_nxt := snd_nxt ?t + of_nat ?seg \<rparr>)"
      "ns_tx s2 = ns_tx s @ [data_frame s fd ti sm dm (ns_ip_id s) (snd_nxt ?t) ?c]"
      by (simp_all add: s2_def s1_def upd_tcb_def)
    have lk: "link s2 fd sm dm" using link_cong [OF f(1-5)] less.prems(1) by simp
    have lt: "length p - (sent + ?seg) < length p - sent" and le: "sent + ?seg \<le> length p"
      using False less.prems(2) by auto
    have df: "data_frame s2 fd ti sm dm = data_frame s fd ti sm dm"
      by (intro ext) (simp add: data_frame_def tcp_header_def link_src_def f)
    have ch: "chunks ?m (drop sent p) = ?c # chunks ?m (drop (sent + ?seg) p)"
      using False less.prems(2) by (subst chunks.simps) (auto simp: min_def add.commute)
    have sm: "unat (mss (ns_tcb s2 ti)) = ?m" by (simp add: f)
    have sq: "of_nat ?seg + of_nat (length p - (sent + ?seg)) = (of_nat (length p - sent) :: u32)"
    proof -
      have "?seg + (length p - (sent + ?seg)) = length p - sent" using le by linarith
      then show ?thesis by (metis of_nat_add)
    qed
    obtain s' where s': "send_loop s2 fd ti p (sent + ?seg) = Some (s', Inr (length p))" "ns_sock s' = ns_sock s2"
      "ns_tcb s' = (ns_tcb s2)(ti := (ns_tcb s2 ti)\<lparr> snd_nxt := snd_nxt (ns_tcb s2 ti) + of_nat (length p - (sent + ?seg)) \<rparr>)"
      "ns_tx s' = ns_tx s2 @ data_frames (data_frame s2 fd ti sm dm) (ns_ip_id s2) (snd_nxt (ns_tcb s2 ti))
         (chunks ?m (drop (sent + ?seg) p))"
      using less.hyps [OF lt lk _ _ le] less.prems(2,3) unfolding sm by blast
    have "ns_tx s' = ns_tx s @ data_frames (data_frame s fd ti sm dm) (ns_ip_id s) (snd_nxt ?t) (chunks ?m (drop sent p))"
      unfolding s'(4) df ch f(6,8) by (simp add: f(7) c(2))
    moreover have "ns_tcb s' = (ns_tcb s)(ti := ?t\<lparr> snd_nxt := snd_nxt ?t + of_nat (length p - sent) \<rparr>)"
      unfolding s'(3) f(7) using sq by (simp add: add.assoc)
    ultimately show ?thesis using s'(1,2) loop f(1) by auto
  qed
qed


subsection \<open>From frame to socket\<close>

lemma checksummed_header:
  "\<exists>ck. tcp_checksummed src dst (net_build_tcp sp dp seq ack flags win @ c)
     = put16 sp @ put16 dp @ put32 seq @ put32 ack @ [0x50, flags] @ put16 win @ put16 ck @ [0, 0] @ c"
proof -
  let ?h = "put16 sp @ put16 dp @ put32 seq @ put32 ack @ [0x50, flags] @ put16 win"
  let ?seg = "net_build_tcp sp dp seq ack flags win @ c"
  have h: "length ?h = 16" by simp
  have seg: "?seg = ?h @ [0, 0, 0, 0] @ c" by (simp add: net_build_tcp_def)
  have u: "(?h @ [x, y, 0, 0] @ c)[16 := a, 17 := b] = ?h @ [a, b, 0, 0] @ c" for x y a b
  proof -
    have "(?h @ [x, y, 0, 0] @ c)[16 := a] = ?h @ [a, y, 0, 0] @ c"
      unfolding list_update_append h by simp
    moreover have "(?h @ [a, y, 0, 0] @ c)[17 := b] = ?h @ [a, b, 0, 0] @ c"
      unfolding list_update_append h by simp
    ultimately show ?thesis by simp
  qed
  have "20 \<le> length ?seg" by (simp add: seg)
  then have "\<exists>ck. tcp_checksummed src dst ?seg = ?h @ [hi8 ck, lo8 ck, 0, 0] @ c"
    unfolding tcp_checksummed_def Let_def seg u by auto
  then show ?thesis by (simp add: put16_def)
qed

lemma ip_header_parse:
  "net_process_ip s (ip_header tot ident proto ck src dst @ p) =
     (if unat tot < 20 then Some s
      else if proto = 6 \<or> proto = 17 then net_demux s proto src dst p (take (unat tot - 20) p)
      else Some s)"
proof -
  let ?h = "ip_header tot ident proto ck src dst"
  have len: "length ?h = 20" by simp
  define a where "a = [0x45, 0] @ put16 tot @ put16 ident @ [0x40, 0, 64, proto] @ put16 ck"
  define b where "b = a @ put32 src"
  have ab: "length a = 12" "length b = 16" by (simp_all add: a_def b_def)
  have ha: "?h @ p = a @ put32 src @ put32 dst @ p" and hb: "?h @ p = b @ put32 dst @ p"
    by (simp_all add: ip_header_def a_def b_def)
  have "net32 (?h @ p) 12 = src" "net32 (?h @ p) 16 = dst" by (simp add: ha ab, simp add: hb ab)
  moreover have "(?h @ p) ! 0 = 0x45" "(?h @ p) ! 9 = proto" by (simp_all add: ip_header_def put16_def)
  moreover have "net16 (?h @ p) 2 = tot"
    using net16_append_skip [of "[0x45, 0]" 2] by (simp add: ip_header_def)
  ultimately have n: "(?h @ p) ! 0 = 0x45" "(?h @ p) ! 9 = proto" "net16 (?h @ p) 2 = tot" "net32 (?h @ p) 12 = src" "net32 (?h @ p) 16 = dst"
    by simp_all
  have v: "drop_bit 4 (0x45 :: u8) = 4" "unat ((0x45 :: u8) AND 0x0F) = 5" by code_simp+
  show ?thesis
    unfolding net_process_ip_def Let_def n v using len by (simp add: take_append)
qed


lemma process_tcp_frame:
  assumes "length sm = 6" and "length dm = 6" and "length seg \<le> 1480"
  shows "net_process_frame s (net_tcp_frame sm dm ident src dst seg)
    = net_demux s 6 src dst (tcp_checksummed src dst seg) (tcp_checksummed src dst seg)"
proof -
  let ?seg = "tcp_checksummed src dst seg" and ?tot = "20 + of_nat (length seg) :: u16"
  have l: "length ?seg = length seg" by (simp add: tcp_checksummed_def Let_def)
  obtain ck where h: "fst (net_build_ip ident src dst IP_PROTO_TCP (of_nat (length seg))) = ip_header ?tot ident 6 ck src dst"
    by (simp add: net_build_ip_def Let_def IP_PROTO_TCP_def)
  define e where "e = dm @ sm"
  have e: "length e = 12" by (simp add: e_def assms)
  have f: "net_tcp_frame sm dm ident src dst seg = e @ put16 0x0800 @ ip_header ?tot ident 6 ck src dst @ ?seg"
    by (simp add: net_tcp_frame_def net_build_eth_def assms h e_def)
  have n: "net16 (net_tcp_frame sm dm ident src dst seg) 12 = 0x0800" unfolding f by (simp add: e)
  have d: "drop 14 (net_tcp_frame sm dm ident src dst seg) = ip_header ?tot ident 6 ck src dst @ ?seg"
    unfolding f by (simp add: e)
  have "unat ?tot = 20 + length seg" using assms(3) by (simp add: unat_word_ariths(1) unat_of_nat)
  then show ?thesis
    unfolding net_process_frame_def n d ip_header_parse using l by (simp add: length_net_tcp_frame assms)
qed

text \<open>A data segment from a peer, at the host whose table the frame's addresses select socket \<open>j\<close> in.\<close>

definition peer_frame :: "u8 list \<Rightarrow> u8 list \<Rightarrow> u32 \<Rightarrow> u32 \<Rightarrow> u16 \<Rightarrow> u16 \<Rightarrow> u32 \<Rightarrow> u16 \<Rightarrow> u16 \<Rightarrow> u32 \<Rightarrow> u8 list \<Rightarrow> u8 list" where
  "peer_frame sm dm src dst sp dp ack win ident seq c =
     net_tcp_frame sm dm ident src dst (net_build_tcp sp dp seq ack (TCP_ACK OR TCP_PSH) win @ c)"

definition selects :: "nstate \<Rightarrow> u32 \<Rightarrow> u32 \<Rightarrow> u16 \<Rightarrow> u16 \<Rightarrow> nat \<Rightarrow> bool" where
  "selects s src dst sp dp j \<longleftrightarrow> find (\<lambda>i. frame_matches (sk s i) 6 src dst sp dp) [0..<SOCK_MAX] = Some j"

lemma selects_cong:
  assumes "\<And>k. sk_addr (sk s' k) = sk_addr (sk s k)"
  shows "selects s' src dst sp dp j = selects s src dst sp dp j"
proof -
  have "frame_matches (sk s' i) = frame_matches (sk s i)" for i by (rule frame_matches_cong) (rule assms)
  then show ?thesis by (simp only: selects_def)
qed

lemma data_segment:
  assumes "off + length c \<le> length B" and "c = take (length c) (drop off B)"
  shows "\<exists>seg. tcp_checksummed src dst (net_build_tcp sp dp (base + of_nat off) ack (TCP_ACK OR TCP_PSH) win @ c) = seg
    \<and> seg_of B base seg \<and> length seg = 20 + length c \<and> seg_hdr_len seg = 20 \<and> net16 seg 0 = sp \<and> net16 seg 2 = dp
    \<and> net32 seg 4 = base + of_nat off \<and> \<not> has_flag (seg ! 13) TCP_FIN"
proof -
  let ?fl = "TCP_ACK OR TCP_PSH"
  obtain ck where t: "tcp_checksummed src dst (net_build_tcp sp dp (base + of_nat off) ack ?fl win @ c)
      = put16 sp @ put16 dp @ put32 (base + of_nat off) @ put32 ack @ [0x50, ?fl] @ put16 win @ put16 ck @ [0, 0] @ c"
    using checksummed_header by blast
  define seg where "seg = put16 sp @ put16 dp @ put32 (base + of_nat off) @ put32 ack @ [0x50, ?fl] @ put16 win @ put16 ck @ [0, 0] @ c"
  have len: "length seg = 20 + length c" by (simp add: seg_def)
  have f: "seg ! 12 = 0x50" "seg ! 13 = ?fl" by (simp_all add: seg_def put16_def put32_def)
  have v: "unat (drop_bit 4 (0x50 :: u8)) = 5" "\<not> has_flag ?fl TCP_RST" "\<not> has_flag ?fl TCP_FIN" by code_simp+
  have h: "seg_hdr_len seg = 20" by (simp add: seg_hdr_len_def f v)
  have n: "net16 seg 0 = sp" "net16 seg 2 = dp" "net32 seg 4 = base + of_nat off" by (simp_all add: seg_def)
  have "drop 20 seg = c" by (simp add: seg_def put16_def put32_def)
  then have "seg_of B base seg"
    unfolding seg_of_def h f len using v assms(1) assms(2) [symmetric] n(3)
    by (intro conjI exI [of _ off]) simp_all
  then show ?thesis using t seg_def len h n f v by auto
qed

lemma stream_at_arp [simp]: "stream_at (s\<lparr> ns_arp := a \<rparr>) i ti B base got n = stream_at s i ti B base got n"
  by (simp add: stream_at_def conn_def tcp7_find_def)

lemma poll_data_frames:
  assumes "stream_at r j tj B base got n" and "length B < 2 ^ 32" and "tb_state (ns_tcb r tj) = TCP_ESTABLISHED"
    and "n + length (concat cs) \<le> length B" and "concat cs = take (length (concat cs)) (drop n B)"
    and "\<forall>c \<in> set cs. length c \<le> 1460" and "selects r src dst sp dp j"
    and "length (rx_abs (sk r j)) + length (concat cs) \<le> SOCK_BUF_SIZE" and "length sm = 6" and "length dm = 6"
  shows "\<exists>r'. poll_frames r (data_frames (peer_frame sm dm src dst sp dp ack win) ident (base + of_nat n) cs) = Some r'
    \<and> stream_at r' j tj B base got (n + length (concat cs)) \<and> tb_state (ns_tcb r' tj) = TCP_ESTABLISHED"
  using assms(1,3-8)
proof (induction cs arbitrary: r n ident)
  case Nil
  then show ?case by (auto simp: stream_at_def conn_def tcp7_find_def)
next
  case (Cons c cs)
  let ?f = "peer_frame sm dm src dst sp dp ack win ident (base + of_nat n) c"
  let ?r0 = "r\<lparr> ns_arp := arp_process (ns_arp r) ?f \<rparr>"
  have lc: "n + length c \<le> length B" "length c \<le> 1460" using Cons.prems by simp_all
  have cc: "c @ concat cs = take (length c + length (concat cs)) (drop n B)" using Cons.prems(4) by simp
  have "c = take (length c) (c @ concat cs)" by simp
  also have "\<dots> = take (length c) (drop n B)" unfolding cc by simp
  finally have c: "c = take (length c) (drop n B)" .
  have "concat cs = drop (length c) (c @ concat cs)" by simp
  also have "\<dots> = take (length (concat cs)) (drop (n + length c) B)" unfolding cc by (simp add: drop_take add.commute)
  finally have rest: "concat cs = take (length (concat cs)) (drop (n + length c) B)" .
  obtain seg where seg: "tcp_checksummed src dst (net_build_tcp sp dp (base + of_nat n) ack (TCP_ACK OR TCP_PSH) win @ c) = seg"
    "seg_of B base seg" "length seg = 20 + length c" "seg_hdr_len seg = 20" "net16 seg 0 = sp" "net16 seg 2 = dp"
    "net32 seg 4 = base + of_nat n" "\<not> has_flag (seg ! 13) TCP_FIN"
    using data_segment [OF lc(1) c] by blast
  have lf: "length ?f = 54 + length c" using assms(9,10) by (simp add: peer_frame_def length_net_tcp_frame)
  have t: "take 2048 ?f = ?f" using lf lc(2) by simp
  have ne: "?f \<noteq> []" using lf by auto
  have sel: "selects ?r0 src dst sp dp j" using Cons.prems(6) by (simp add: selects_def)
  have "net_process_frame ?r0 ?f = net_demux ?r0 6 src dst seg seg"
    unfolding peer_frame_def seg(1) [symmetric] using lc(2) by (intro process_tcp_frame assms(9,10)) simp
  also have "\<dots> = Some (deliver_tcp ?r0 j seg)"
    using sel seg by (simp add: net_demux_def Let_def selects_def)
  finally have pf: "net_process_frame ?r0 ?f = Some (deliver_tcp ?r0 j seg)" .
  have at0: "stream_at ?r0 j tj B base got n" using Cons.prems(1) by simp
  have room: "length (rx_abs (sk ?r0 j)) + (length seg - seg_hdr_len seg) \<le> SOCK_BUF_SIZE"
    using Cons.prems(7) seg(3,4) by simp
  obtain m where m: "stream_at (deliver_tcp ?r0 j seg) j tj B base got m" "m = n + length c"
    "tb_state (ns_tcb (deliver_tcp ?r0 j seg) tj) = TCP_ESTABLISHED"
    "\<And>k. sk_addr (sk (deliver_tcp ?r0 j seg) k) = sk_addr (sk ?r0 k)"
    using stream_step [OF at0 seg(2) assms(2) room] Cons.prems(2) seg by auto
  have sel1: "selects (deliver_tcp ?r0 j seg) src dst sp dp j" using selects_cong [OF m(4)] sel by simp
  have lr: "length (rx_abs (sk (deliver_tcp ?r0 j seg) j)) = length (rx_abs (sk r j)) + length c"
  proof -
    have "length (got @ rx_abs (sk (deliver_tcp ?r0 j seg) j)) = m" "length (got @ rx_abs (sk r j)) = n"
      using m(1) Cons.prems(1) unfolding stream_at_def by simp_all
    then show ?thesis using m(2) by simp
  qed
  have seq: "base + of_nat n + of_nat (length c) = base + of_nat m" using m(2) by (simp add: add.assoc)
  have "\<exists>r'. poll_frames (deliver_tcp ?r0 j seg) (data_frames (peer_frame sm dm src dst sp dp ack win) (ident + 1) (base + of_nat m) cs) = Some r'
      \<and> stream_at r' j tj B base got (m + length (concat cs)) \<and> tb_state (ns_tcb r' tj) = TCP_ESTABLISHED"
    by (rule Cons.IH [OF m(1,3) _ _ _ sel1]) (use Cons.prems m(2) rest lr in simp_all)
  then show ?case using pf t ne seq m(2) by (simp add: add.assoc)
qed

text \<open>A send on one host, and its frames polled in by the other.\<close>

lemma tcp7_send_link:
  assumes "link a fd sm dm" and "tcp7_find a fd = Some ti" and "tb_state (ns_tcb a ti) = TCP_ESTABLISHED"
    and "0 < unat (mss (ns_tcb a ti))" and "unat (mss (ns_tcb a ti)) \<le> 1460" and "take (tcp_window_room (ns_tcb a ti)) data \<noteq> []"
  defines "p \<equiv> take (tcp_window_room (ns_tcb a ti)) data"
  shows "\<exists>a'. tcp7_send a fd data = Some (a', int (length p))
    \<and> snd_nxt (ns_tcb a' ti) = snd_nxt (ns_tcb a ti) + of_nat (length p)
    \<and> ns_tx a' = ns_tx a @ data_frames (data_frame a fd ti sm dm) (ns_ip_id a) (snd_nxt (ns_tcb a ti))
         (chunks (unat (mss (ns_tcb a ti))) p)"
proof -
  obtain s' where s': "send_loop a fd ti p 0 = Some (s', Inr (length p))"
    "ns_tcb s' = (ns_tcb a)(ti := (ns_tcb a ti)\<lparr> snd_nxt := snd_nxt (ns_tcb a ti) + of_nat (length p) \<rparr>)"
    "ns_tx s' = ns_tx a @ data_frames (data_frame a fd ti sm dm) (ns_ip_id a) (snd_nxt (ns_tcb a ti))
         (chunks (unat (mss (ns_tcb a ti))) p)"
    using send_loop_link [OF assms(1,4,5), of 0 p] by auto
  then show ?thesis using assms(2,3,6) by (simp add: tcp7_send_def Let_def p_def)
qed

lemma data_frame_peer:
  "data_frame a fd ti sm dm = peer_frame sm dm (link_src a fd) (sk_remote_ip (sk a (nat fd)))
     (sk_local_port (sk a (nat fd))) (sk_remote_port (sk a (nat fd))) (rcv_nxt (ns_tcb a ti)) (ucast (rcv_wnd (ns_tcb a ti)))"
  by (intro ext) (simp add: data_frame_def peer_frame_def tcp_header_def)

text \<open>C10: what one host sends, the other gets: the frames of a send, polled in order by a host whose
  connection expects the sender's next sequence number and whose ring has room, put exactly the
  bytes the send reports into that connection's ring, and both ends agree on the next number.\<close>

theorem tcp_send_reaches_peer:
  assumes "link a fd sm dm" and "tcp7_find a fd = Some ti" and "tb_state (ns_tcb a ti) = TCP_ESTABLISHED"
    and "0 < unat (mss (ns_tcb a ti))" and "unat (mss (ns_tcb a ti)) \<le> 1460"
    and "data \<noteq> []" and "0 < tcp_window_room (ns_tcb a ti)"
    and "conn r j tj" and "tb_state (ns_tcb r tj) = TCP_ESTABLISHED" and "rcv_nxt (ns_tcb r tj) = snd_nxt (ns_tcb a ti)"
    and "selects r (link_src a fd) (sk_remote_ip (sk a (nat fd))) (sk_local_port (sk a (nat fd))) (sk_remote_port (sk a (nat fd))) j"
    and "length (rx_abs (sk r j)) + min (tcp_window_room (ns_tcb a ti)) (length data) \<le> SOCK_BUF_SIZE"
  shows "\<exists>a' r'. tcp7_send a fd data = Some (a', int (min (tcp_window_room (ns_tcb a ti)) (length data)))
    \<and> poll_frames r (drop (length (ns_tx a)) (ns_tx a')) = Some r'
    \<and> rx_abs (sk r' j) = rx_abs (sk r j) @ take (tcp_window_room (ns_tcb a ti)) data
    \<and> tb_state (ns_tcb r' tj) = TCP_ESTABLISHED \<and> rcv_nxt (ns_tcb r' tj) = snd_nxt (ns_tcb a' ti)"
proof -
  define p where "p = take (tcp_window_room (ns_tcb a ti)) data"
  let ?m = "unat (mss (ns_tcb a ti))" and ?n = "length (rx_abs (sk r j))"
  let ?B = "rx_abs (sk r j) @ p" and ?base = "snd_nxt (ns_tcb a ti) - of_nat (length (rx_abs (sk r j)))"
  let ?peer = "peer_frame sm dm (link_src a fd) (sk_remote_ip (sk a (nat fd)))
     (sk_local_port (sk a (nat fd))) (sk_remote_port (sk a (nat fd))) (rcv_nxt (ns_tcb a ti)) (ucast (rcv_wnd (ns_tcb a ti)))"
  have ne: "p \<noteq> []" using assms(6,7) by (simp add: p_def)
  have lp: "length p = min (tcp_window_room (ns_tcb a ti)) (length data)" by (simp add: p_def min.commute)
  obtain a' where a': "tcp7_send a fd data = Some (a', int (length p))"
    "snd_nxt (ns_tcb a' ti) = snd_nxt (ns_tcb a ti) + of_nat (length p)"
    "ns_tx a' = ns_tx a @ data_frames ?peer (ns_ip_id a) (?base + of_nat ?n) (chunks ?m p)"
    using tcp7_send_link [OF assms(1-5), of data] ne unfolding p_def [symmetric] data_frame_peer by auto
  have cc: "concat (chunks ?m p) = p" by (rule concat_chunks [OF assms(4)])
  have at: "stream_at r j tj ?B ?base [] ?n" using assms(8-10) by (simp add: stream_at_def)
  have lb: "length ?B < 2 ^ 32" and room: "length (rx_abs (sk r j)) + length (concat (chunks ?m p)) \<le> SOCK_BUF_SIZE"
    using assms(12) unfolding cc by (simp_all add: lp SOCK_BUF_SIZE_def)
  have le: "?n + length (concat (chunks ?m p)) \<le> length ?B" unfolding cc by simp
  have eq: "concat (chunks ?m p) = take (length (concat (chunks ?m p))) (drop ?n ?B)" unfolding cc by simp
  have sz: "\<forall>c \<in> set (chunks ?m p). length c \<le> 1460" using chunks_bounds assms(5) le_trans by blast
  have mac: "length sm = 6" "length dm = 6" using assms(1) by (simp_all add: link_def)
  obtain r' where r': "poll_frames r (data_frames ?peer (ns_ip_id a) (?base + of_nat ?n) (chunks ?m p)) = Some r'"
    "stream_at r' j tj ?B ?base [] (?n + length p)" "tb_state (ns_tcb r' tj) = TCP_ESTABLISHED"
    using poll_data_frames [OF at lb assms(9) le eq sz assms(11) room mac] unfolding cc by blast
  have tx: "drop (length (ns_tx a)) (ns_tx a') = data_frames ?peer (ns_ip_id a) (?base + of_nat ?n) (chunks ?m p)"
    unfolding a'(3) by simp
  have "rx_abs (sk r' j) = ?B" using r'(2) unfolding stream_at_def by simp
  moreover have "rcv_nxt (ns_tcb r' tj) = ?base + of_nat (?n + length p)" using r'(2,3) by (simp add: stream_at_def)
  ultimately show ?thesis using a' r' unfolding tx lp [symmetric] p_def [symmetric] by simp
qed

text \<open>C11: a connection hands its reader a prefix of the stream the peer sends, whatever segments of
  it arrive, lost, repeated or out of order, as long as no segment finds the ring without room for
  it; and it takes the end of the stream only after all of it.\<close>

theorem tcp_delivers_prefix:
  assumes "conn s i ti" and "rx_abs (sk s i) = []" and "tb_state (ns_tcb s ti) = TCP_ESTABLISHED"
    and "rcv_nxt (ns_tcb s ti) = base" and "length B < 2 ^ 32"
    and "\<forall>seg. TSeg seg \<in> set ops \<longrightarrow> seg_of B base seg" and "tcp_run s i ops = (s', got, True)"
  shows "\<exists>n \<le> length B. got @ rx_abs (sk s' i) = take n B
    \<and> (tb_state (ns_tcb s' ti) = TCP_ESTABLISHED \<and> rcv_nxt (ns_tcb s' ti) = base + of_nat n
       \<or> tb_state (ns_tcb s' ti) = TCP_CLOSE_WAIT \<and> n = length B)"
proof -
  have "stream_at s i ti B base [] 0" using assms(1-4) by (simp add: stream_at_def)
  from tcp_run_stream [OF this assms(6,5,7)] show ?thesis by (auto simp: stream_at_def)
qed

text \<open>Two hosts on one network with a connection between port 4000 of each.\<close>

definition demo_host :: "kernel \<Rightarrow> u32 \<Rightarrow> u32 \<Rightarrow> nstate" where
  "demo_host k me peer = (one_socket k (zero_socket\<lparr> sk_used := True, sk_domain := 2, sk_type := 1, sk_protocol := 6,
       sk_peer := - 1, sk_state := TCP_ESTABLISHED, sk_local_ip := me, sk_local_port := 4000, sk_remote_ip := peer,
       sk_remote_port := 4000 \<rparr>))
     \<lparr> ns_tcb := (\<lambda>i. if i = 0 then zero_tcb\<lparr> tb_state := TCP_ESTABLISHED, snd_una := 1000, snd_nxt := 1000, snd_wnd := 65535,
         rcv_nxt := 1000, rcv_wnd := 65535, cwnd := 14600, ssthresh := 65535, mss := 1460 \<rparr> else zero_tcb\<lparr> tb_fd := - 1 \<rparr>),
       ns_ifs := [\<lparr> ni_present = True, ni_up = True, ni_driver = ''e1000'', ni_mac = [1, 2, 3, 4, 5, 6], ni_ip4 = me,
         ni_netmask = 0, ni_gateway = 0, ni_dns = 0 \<rparr>],
       ns_arp := arp_store arp_init peer [6, 5, 4, 3, 2, 1] \<rparr>"

lemma demo_host_fields:
  "sk (demo_host k me peer) 0 = zero_socket\<lparr> sk_used := True, sk_domain := 2, sk_type := 1, sk_protocol := 6,
     sk_peer := - 1, sk_state := TCP_ESTABLISHED, sk_local_ip := me, sk_local_port := 4000, sk_remote_ip := peer,
     sk_remote_port := 4000 \<rparr>"
  "ns_tcb (demo_host k me peer) 0 = zero_tcb\<lparr> tb_state := TCP_ESTABLISHED, snd_una := 1000, snd_nxt := 1000, snd_wnd := 65535,
     rcv_nxt := 1000, rcv_wnd := 65535, cwnd := 14600, ssthresh := 65535, mss := 1460 \<rparr>"
  "ns_lease (demo_host k me peer) = dhcp_offer" "ns_arp (demo_host k me peer) = arp_store arp_init peer [6, 5, 4, 3, 2, 1]"
  "net_get_src_mac (ns_ifs (demo_host k me peer)) = Some [1, 2, 3, 4, 5, 6]" "ns_nic (demo_host k me peer) = (\<lambda>_. True)"
  by (simp_all add: demo_host_def one_socket_def net_get_src_mac_def)

lemma first_index: "P (0 :: nat) \<Longrightarrow> 0 < n \<Longrightarrow> find P [0..<n] = Some 0"
  by (subst upt_conv_Cons) simp_all

lemma demo_host_conn:
  assumes "net_is_real_external peer"
  shows "conn (demo_host k me peer) 0 0" and "rx_abs (sk (demo_host k me peer) 0) = []"
    and "tcp7_find (demo_host k me peer) 0 = Some 0"
proof -
  show f: "tcp7_find (demo_host k me peer) 0 = Some 0"
    unfolding tcp7_find_def by (rule first_index) (simp_all add: demo_host_fields zero_tcb_def TCP7_MAX_CONNECTIONS_def)
  show "rx_abs (sk (demo_host k me peer) 0) = []" unfolding demo_host_fields by (simp add: zero_socket_def ring_abs_def)
  show "conn (demo_host k me peer) 0 0"
    using f assms unfolding conn_def demo_host_fields by (simp add: zero_socket_def ring_ok_def)
qed

theorem tcp_send_reaches_peer_witness:
  "\<forall>k. \<exists>a' r'. tcp7_send (demo_host k 0x0A00020F 0x0A000202) 0 [1, 2, 3] = Some (a', 3)
     \<and> poll_frames (demo_host k 0x0A000202 0x0A00020F) (ns_tx a') = Some r' \<and> rx_abs (sk r' 0) = [1, 2, 3]"
proof (intro allI)
  fix k
  let ?a = "demo_host k 0x0A00020F 0x0A000202" and ?r = "demo_host k 0x0A000202 0x0A00020F"
  have x: "net_is_real_external 0x0A000202" "net_is_real_external 0x0A00020F" by code_simp+
  have gw: "net_get_gateway_ip dhcp_offer 0x0A000202 = 0x0A000202" by code_simp
  have ar: "arp_resolve (arp_store arp_init 0x0A000202 [6, 5, 4, 3, 2, 1]) 0x0A000202 = (True, [6, 5, 4, 3, 2, 1])"
    by (rule arp_store_correct(2)) (simp_all add: arp_inv_init)
  have l: "link ?a 0 [1, 2, 3, 4, 5, 6] [6, 5, 4, 3, 2, 1]"
    unfolding link_def sock_ok_def by (simp add: demo_host_fields x gw ar SOCK_MAX_def zero_socket_def)
  have w: "tcp_window_room (ns_tcb ?a 0) = 14600"
    unfolding demo_host_fields by (simp add: tcp_window_room_def Let_def tcp7_const_defs zero_tcb_def)
  have sl: "selects ?r (link_src ?a 0) (sk_remote_ip (sk ?a (nat 0))) (sk_local_port (sk ?a (nat 0))) (sk_remote_port (sk ?a (nat 0))) 0"
    unfolding selects_def
  proof (rule first_index)
    show "frame_matches (sk ?r 0) 6 (link_src ?a 0) (sk_remote_ip (sk ?a (nat 0))) (sk_local_port (sk ?a (nat 0))) (sk_remote_port (sk ?a (nat 0)))"
      unfolding link_src_def by (simp add: demo_host_fields frame_matches_def zero_socket_def sock_ip_match_def)
  qed (simp add: SOCK_MAX_def)
  have tx: "ns_tx ?a = []" by (simp add: demo_host_def one_socket_def)
  have t: "tb_state (ns_tcb ?a 0) = TCP_ESTABLISHED" "unat (mss (ns_tcb ?a 0)) = 1460" "tb_state (ns_tcb ?r 0) = TCP_ESTABLISHED"
    "rcv_nxt (ns_tcb ?r 0) = snd_nxt (ns_tcb ?a 0)" unfolding demo_host_fields by simp_all
  have "length (rx_abs (sk ?r 0)) + min (tcp_window_room (ns_tcb ?a 0)) (length [1, 2, 3 :: u8]) \<le> SOCK_BUF_SIZE"
    using demo_host_conn(2) [OF x(2)] unfolding w by (simp add: SOCK_BUF_SIZE_def)
  from tcp_send_reaches_peer [OF l demo_host_conn(3) [OF x(1)] t(1) _ _ _ _ demo_host_conn(1) [OF x(2)] t(3,4) sl this]
  show "\<exists>a' r'. tcp7_send ?a 0 [1, 2, 3] = Some (a', 3) \<and> poll_frames ?r (ns_tx a') = Some r' \<and> rx_abs (sk r' 0) = [1, 2, 3]"
    unfolding tx demo_host_conn(2) [OF x(2)] w t(2) by (simp, blast)
qed

theorem tcp_delivers_prefix_witness:
  "\<forall>k. \<exists>s'. tcp_run (demo_host k 0x0A00020F 0x0A000202) 0 [TSeg (net_build_tcp 4000 4000 1000 1000 0x18 100 @ [1, 2])] = (s', [], True)
     \<and> (\<exists>n \<le> 3. rx_abs (sk s' 0) = take n [1, 2, 3])"
proof (intro allI)
  fix k
  let ?s = "demo_host k 0x0A00020F 0x0A000202" and ?g = "net_build_tcp 4000 4000 1000 1000 0x18 100 @ [1, 2 :: u8]"
  have x: "net_is_real_external 0x0A000202" by code_simp
  have g: "length ?g = 22" "seg_hdr_len ?g = 20" "\<not> has_flag (?g ! 13) TCP_RST" "\<not> has_flag (?g ! 13) TCP_FIN"
    "net32 ?g 4 = 1000" "drop 20 ?g = [1, 2]" by code_simp+
  have sg: "seg_of [1, 2, 3] 1000 ?g"
    unfolding seg_of_def g using g by (intro conjI exI [of _ 0]) simp_all
  have run: "tcp_run ?s 0 [TSeg ?g] = (deliver_tcp ?s 0 ?g, [], True)"
    unfolding tcp_run.simps prod.case g demo_host_conn(2) [OF x] by (simp add: SOCK_BUF_SIZE_def)
  have t: "tb_state (ns_tcb ?s 0) = TCP_ESTABLISHED" "rcv_nxt (ns_tcb ?s 0) = 1000" unfolding demo_host_fields by simp_all
  have l3: "length [1, 2, 3 :: u8] = 3" by simp
  have "\<exists>n \<le> length [1, 2, 3 :: u8]. [] @ rx_abs (sk (deliver_tcp ?s 0 ?g) 0) = take n [1, 2, 3]
      \<and> (tb_state (ns_tcb (deliver_tcp ?s 0 ?g) 0) = TCP_ESTABLISHED \<and> rcv_nxt (ns_tcb (deliver_tcp ?s 0 ?g) 0) = 1000 + of_nat n
         \<or> tb_state (ns_tcb (deliver_tcp ?s 0 ?g) 0) = TCP_CLOSE_WAIT \<and> n = length [1, 2, 3 :: u8])"
    by (rule tcp_delivers_prefix [OF demo_host_conn(1,2) [OF x] t _ _ run]) (simp_all add: sg)
  then obtain n where "n \<le> 3" "rx_abs (sk (deliver_tcp ?s 0 ?g) 0) = take n [1, 2, 3]"
    unfolding l3 append_Nil by blast
  then show "\<exists>s'. tcp_run ?s 0 [TSeg ?g] = (s', [], True) \<and> (\<exists>n \<le> 3. rx_abs (sk s' 0) = take n [1, 2, 3])"
    using run by blast
qed

subsection \<open>The window never becomes a zero divisor\<close>

text \<open>Outside slow start the window is divided by; \<open>cc_inv\<close> is what keeps that safe, and what makes
  the send loop end.\<close>

definition cc_inv :: "tcb \<Rightarrow> bool" where
  "cc_inv t \<longleftrightarrow> (tb_cc t \<noteq> CC_SLOW_START \<longrightarrow> 2920 \<le> cwnd t) \<and> 2920 \<le> ssthresh t \<and> snd_wnd t \<le> 65535
     \<and> 536 \<le> mss t \<and> mss t \<le> 1460"

lemma word_div_le: "a div b \<le> a" for a b :: "'a :: len word"
  by (simp add: word_le_nat_alt unat_div)

text \<open>Growth by at most the old window, or by nothing when the window is large, cannot wrap.\<close>

lemma cwnd_grow:
  fixes c x :: u32
  assumes "2920 \<le> c" and "unat x \<le> 100000000"
  shows "2920 \<le> c + x div c"
proof -
  have c: "2920 \<le> unat c" using assms(1) by (simp add: word_le_nat_alt)
  have cl: "unat c < 4294967296" using unsigned_less [of c] by simp
  have q: "unat (x div c) = unat x div unat c" by (simp add: unat_div)
  have "unat c + unat (x div c) < 4294967296"
  proof (cases "unat c \<le> 100000000")
    case True
    have "unat (x div c) \<le> unat x" unfolding q by simp
    then show ?thesis using True assms(2) by linarith
  next
    case False
    then have "unat x div unat c = 0" using assms(2) by simp
    then show ?thesis using q cl by simp
  qed
  then have "unat (c + x div c) = unat c + unat (x div c)" by (simp add: unat_word_ariths(1))
  then show ?thesis using c by (simp add: word_le_nat_alt)
qed

lemma cc_inv_ack_step: "cc_inv t \<Longrightarrow> cc_inv (ack_step ack t)"
proof -
  assume inv: "cc_inv t"
  have g: "2920 \<le> cwnd t \<Longrightarrow> 2920 \<le> cwnd t + TCP7_MSS_DEFAULT * TCP7_MSS_DEFAULT div cwnd t"
    by (rule cwnd_grow) (simp_all add: TCP7_MSS_DEFAULT_def)
  have th: "2920 \<le> max (2 * TCP7_MSS_DEFAULT) (cwnd t div 2) + 3 * TCP7_MSS_DEFAULT"
    "2920 \<le> max (2 * TCP7_MSS_DEFAULT) (cwnd t div 2)"
  proof -
    have u: "unat (cwnd t) < 4294967296" using unsigned_less [of "cwnd t"] by simp
    have h: "unat (cwnd t div 2) = unat (cwnd t) div 2" by (simp add: unat_div)
    show "2920 \<le> max (2 * TCP7_MSS_DEFAULT) (cwnd t div 2)"
      by (simp add: TCP7_MSS_DEFAULT_def le_max_iff_disj)
    have m: "2920 \<le> unat (max (2920 :: u32) (cwnd t div 2))" "unat (max (2920 :: u32) (cwnd t div 2)) \<le> 2147483647 + 2920"
      using u h by (auto simp: max_def word_le_nat_alt)
    have "unat (max (2920 :: u32) (cwnd t div 2) + 4380) = unat (max (2920 :: u32) (cwnd t div 2)) + 4380"
      using m(2) by (simp add: unat_word_ariths(1))
    then show "2920 \<le> max (2 * TCP7_MSS_DEFAULT) (cwnd t div 2) + 3 * TCP7_MSS_DEFAULT"
      using m(1) by (simp add: TCP7_MSS_DEFAULT_def word_le_nat_alt)
  qed
  have mx: "(if cwnd t div 2 < 2 * TCP7_MSS_DEFAULT then 2 * TCP7_MSS_DEFAULT else cwnd t div 2)
      = max (2 * TCP7_MSS_DEFAULT) (cwnd t div 2)" by (auto simp: max_def dest: leD)
  show ?thesis
    using inv g th unfolding ack_step_def Let_def cc_inv_def mx by (auto elim: order_trans)
qed


definition cc_all :: "nstate \<Rightarrow> bool" where
  "cc_all s \<longleftrightarrow> (\<forall>i. 0 \<le> tb_fd (ns_tcb s i) \<longrightarrow> cc_inv (ns_tcb s i))"

lemma cc_all_upd: "cc_all s \<Longrightarrow> (0 \<le> tb_fd (f (ns_tcb s ti)) \<Longrightarrow> cc_inv (f (ns_tcb s ti))) \<Longrightarrow> cc_all (upd_tcb s ti f)"
  by (simp add: cc_all_def)

lemma cc_all_cong: "ns_tcb s' = ns_tcb s \<Longrightarrow> cc_all s' = cc_all s"
  by (simp add: cc_all_def)

lemma cc_all_sock [simp]: "cc_all (upd_sock s i f) = cc_all s" "cc_all (set_sock_state s fd st) = cc_all s"
  by (simp_all add: cc_all_def set_sock_state_def)

lemma push_rx_tcb: "ns_tcb (fst (sock_push_rx s i xs)) = ns_tcb s"
  by (simp add: sock_push_rx_def Let_def split: prod.splits)

lemma emit_tcb: "ns_tcb (fst (tcp_emit s fd seg)) = ns_tcb s"
  using same_core_frame [of s fd seg] push_rx_tcb [of s "nat (sk_peer (sk s (nat fd)))" seg]
  by (auto simp: tcp_emit_def same_core_def sock_send_stream_def Let_def split: prod.splits)

lemma send_ack_tcb: "ns_tcb (tcp7_send_ack s fd ti) = (ns_tcb s)(ti := (ns_tcb s ti)\<lparr> delack_pending := False \<rparr>)"
  by (simp add: tcp7_send_ack_def Let_def upd_tcb_def emit_tcb)

lemma cc_all_send_ack: "cc_all s \<Longrightarrow> cc_all (tcp7_send_ack s fd ti)"
  by (simp add: cc_all_def send_ack_tcb cc_inv_def)

lemma mss_scan_bounds: "536 \<le> m \<Longrightarrow> 536 \<le> mss_scan seg h off m \<and> mss_scan seg h off m \<le> m"
proof (induction seg h off m rule: mss_scan.induct)
  case (1 seg h off m)
  show ?case
  proof (cases "h \<le> off \<or> seg ! off = 0")
    case True
    then show ?thesis using 1(3) by (subst (1 2) mss_scan.simps) auto
  next
    case F: False
    show ?thesis
    proof (cases "seg ! off = 1")
      case True
      then show ?thesis using 1(1) 1(3) F by (subst (1 2) mss_scan.simps) auto
    next
      case False
      show ?thesis
      proof (cases "h \<le> off + 1 \<or> unat (seg ! (off + 1)) < 2 \<or> h < off + unat (seg ! (off + 1))")
        case True
        then show ?thesis using 1(3) F False by (subst (1 2) mss_scan.simps) auto
      next
        case G: False
        let ?m = "if seg ! off = 2 \<and> seg ! (off + 1) = 4
              then (let v = ucast (net16 seg (off + 2)) in if 536 \<le> v \<and> v < m then v else m) else m"
        have m: "536 \<le> ?m" "?m \<le> m" using 1(3) by (auto simp: Let_def)
        have "mss_scan seg h off m = mss_scan seg h (off + unat (seg ! (off + 1))) ?m"
          using F False G by (subst mss_scan.simps) auto
        moreover have "536 \<le> mss_scan seg h (off + unat (seg ! (off + 1))) ?m
            \<and> mss_scan seg h (off + unat (seg ! (off + 1))) ?m \<le> ?m"
          using 1(2) F False G m(1) by auto
        ultimately show ?thesis using m(2) by auto
      qed
    qed
  qed
qed

lemma cc_inv_rtt: "cc_inv (tcp7_rtt_update x t) = cc_inv t" "tb_fd (tcp7_rtt_update x t) = tb_fd t"
  by (simp_all add: tcp7_rtt_update_def Let_def cc_inv_def)

lemma cc_all_step:
  assumes "cc_all s" and "0 \<le> tb_fd (ns_tcb s ti)"
  shows "cc_all (fst (tcp_step s fd ti flags seq ack plen))"
proof -
  have inv: "cc_inv (ns_tcb s ti)" using assms by (simp add: cc_all_def)
  have u: "cc_all (upd_tcb s ti f)" if "cc_inv (f (ns_tcb s ti))" for f using cc_all_upd [OF assms(1)] that by blast
  have ss: "cc_all (step_syn_sent s fd ti flags seq ack)"
    unfolding step_syn_sent_def Let_def using assms(1) inv
    by (auto intro!: cc_all_send_ack u simp: cc_inv_def tcp7_rtt_update_def Let_def)
  have se: "cc_all (fst (step_established s fd ti flags seq ack plen))"
  proof -
    have tt: "cc_all x \<Longrightarrow> cc_all (upd_tcb x ti (ack_step ack))" for x
      by (rule cc_all_upd) (auto simp: cc_all_def ack_step_fields intro: cc_inv_ack_step)
    have f: "cc_all x \<Longrightarrow> cc_all (upd_tcb x ti (\<lambda>t. t\<lparr> rcv_nxt := r t, tb_state := st \<rparr>))" for x r st
      by (rule cc_all_upd) (auto simp: cc_all_def cc_inv_def)
    have g: "cc_all x \<Longrightarrow> cc_all (upd_tcb x ti (\<lambda>t. t\<lparr> rcv_nxt := r t \<rparr>))" for x r
      by (rule cc_all_upd) (auto simp: cc_all_def cc_inv_def)
    show ?thesis unfolding step_established_def Let_def fst_conv using assms(1) by (auto intro!: tt cc_all_send_ack f g)
  qed
  show ?thesis
    unfolding tcp_step_def using ss se assms(1) inv
    by (cases "tb_state (ns_tcb s ti)")
       (auto simp: step_syn_rcvd_def step_fin_wait_1_def step_fin_wait_2_def step_closing_def step_last_ack_def
          to_time_wait_def cc_inv_def tcp7_release_tcb_def intro!: cc_all_upd cc_all_send_ack)
qed

lemma tcp7_find_fd: "tcp7_find s fd = Some ti \<Longrightarrow> tb_fd (ns_tcb s ti) = fd"
  unfolding tcp7_find_def by (drule find_SomeD) simp

lemma cc_all_incoming:
  assumes "cc_all s" and "0 \<le> fd"
  shows "cc_all (fst (tcp7_incoming_segment s fd seg))"
proof (cases "tcp7_find s fd")
  case (Some ti)
  have fd: "0 \<le> tb_fd (ns_tcb s ti)" using tcp7_find_fd [OF Some] assms(2) by simp
  have inv: "cc_inv (ns_tcb s ti)" using assms(1) fd by (simp add: cc_all_def)
  define s1 where "s1 = ready_tcb s ti seg"
  have w: "(ucast (net16 seg 14) :: u32) \<le> 65535"
    using unat_less_2p [of "net16 seg 14"] by (simp add: word_le_nat_alt unsigned_ucast_eq take_bit_eq_mod)
  have m: "536 \<le> mss_scan seg h o' (mss (ns_tcb s ti))" "mss_scan seg h o' (mss (ns_tcb s ti)) \<le> 1460" for h o'
    using mss_scan_bounds [of "mss (ns_tcb s ti)" seg h o'] inv by (auto simp: cc_inv_def)
  have c1: "cc_all s1" unfolding s1_def ready_tcb_def
    by (rule cc_all_upd [OF assms(1)]) (use inv w m in \<open>simp add: cc_inv_def\<close>)
  have fd1: "0 \<le> tb_fd (ns_tcb s1 ti)" using fd by (simp add: s1_def ready_tcb_def)
  have rel: "cc_all (upd_tcb (upd_sock s1 i f) ti tcp7_release_tcb)" for i f
    by (rule cc_all_upd) (simp_all add: c1 tcp7_release_tcb_def)
  show ?thesis
    using Some assms(1) cc_all_step [OF c1 fd1] rel
    unfolding tcp7_incoming_segment_def Let_def s1_def ready_tcb_def by simp
qed (simp add: tcp7_incoming_segment_def assms)


text \<open>Every send returns.\<close>

lemma send_loop_returns:
  assumes "cc_all s" and "0 \<le> tb_fd (ns_tcb s ti)" and "sent \<le> length p"
  shows "\<exists>s' r. send_loop s fd ti p sent = Some (s', r) \<and> (\<forall>n. r = Inr n \<longrightarrow> n = length p)
    \<and> (\<exists>q. ns_tcb s' = (ns_tcb s)(ti := (ns_tcb s ti)\<lparr> snd_nxt := q \<rparr>))"
  using assms
proof (induction "length p - sent" arbitrary: s sent rule: less_induct)
  case less
  let ?t = "ns_tcb s ti"
  have same: "ns_tcb s = (ns_tcb s)(ti := ?t\<lparr> snd_nxt := snd_nxt ?t \<rparr>)" by simp
  have ms: "536 \<le> mss ?t" using less.prems(1,2) by (simp add: cc_all_def cc_inv_def)
  then have m0: "0 < unat (mss ?t)" by (simp add: word_le_nat_alt)
  show ?case
  proof (cases "length p \<le> sent")
    case True
    have "send_loop s fd ti p sent = Some (s, Inr sent)" using True by (simp add: send_loop.simps)
    then show ?thesis using True less.prems(3) same by (metis le_antisym sum.inject(2))
  next
    case False
    let ?seg = "min (length p - sent) (unat (mss ?t))"
    obtain s1 rc where em: "tcp_emit s fd (tcp_header s fd ?t (snd_nxt ?t) (rcv_nxt ?t) (TCP_ACK OR TCP_PSH)
        @ take ?seg (drop sent p)) = (s1, rc)" by fastforce
    have t1: "ns_tcb s1 = ns_tcb s" using emit_tcb [of s fd] em by (metis fst_conv)
    show ?thesis
    proof (cases "rc < 0")
      case True
      then have "\<exists>e. send_loop s fd ti p sent = Some (s1, Inl e)"
        using False em by (subst send_loop.simps) (simp add: Let_def)
      then show ?thesis using t1 same by (metis Inl_Inr_False)
    next
      case F: False
      define s2 where "s2 = upd_tcb s1 ti (\<lambda>t. t\<lparr> snd_nxt := snd_nxt t + of_nat ?seg \<rparr>)"
      have loop: "send_loop s fd ti p sent = send_loop s2 fd ti p (sent + ?seg)"
        using False F em by (subst send_loop.simps) (simp add: Let_def s2_def)
      have t2: "ns_tcb s2 = (ns_tcb s)(ti := ?t\<lparr> snd_nxt := snd_nxt ?t + of_nat ?seg \<rparr>)"
        by (simp add: s2_def upd_tcb_def t1)
      have c2: "cc_all s2" using less.prems(1) unfolding cc_all_def t2 by (simp add: cc_inv_def)
      have lt: "length p - (sent + ?seg) < length p - sent" "sent + ?seg \<le> length p" using False m0 by auto
      have fd2: "0 \<le> tb_fd (ns_tcb s2 ti)" using less.prems(2) by (simp add: t2)
      from less.hyps [OF lt(1) c2 fd2 lt(2)] obtain s' r q where
        "send_loop s2 fd ti p (sent + ?seg) = Some (s', r)" "\<forall>n. r = Inr n \<longrightarrow> n = length p"
        "ns_tcb s' = (ns_tcb s2)(ti := (ns_tcb s2 ti)\<lparr> snd_nxt := q \<rparr>)" by blast
      then show ?thesis unfolding loop by (intro exI [of _ s'] exI [of _ r]) (auto simp: t2)
    qed
  qed
qed

lemma window_room_le: "tcp_window_room t \<le> unat (snd_wnd t)"
proof -
  have "unat (w - f) \<le> unat w" if "f < w" for w f :: u32
    using that by (subst unat_sub) (auto simp: word_less_nat_alt word_le_nat_alt)
  then show ?thesis
    unfolding tcp_window_room_def Let_def by (auto simp: not_less word_less_nat_alt word_le_nat_alt split: if_splits intro: order_trans)
qed

lemma tcp7_send_returns:
  assumes "cc_all s" and "0 \<le> fd"
  shows "\<exists>s' rc. tcp7_send s fd data = Some (s', rc) \<and> cc_all s'"
proof (cases "tcp7_find s fd")
  case None
  then show ?thesis using assms by (simp add: tcp7_send_def)
next
  case (Some ti)
  let ?t = "ns_tcb s ti"
  define p where "p = take (tcp_window_room ?t) data"
  have fd: "0 \<le> tb_fd ?t" using tcp7_find_fd [OF Some] assms(2) by simp
  have inv: "cc_inv ?t" using assms(1) fd by (simp add: cc_all_def)
  obtain s' r q where l: "send_loop s fd ti p 0 = Some (s', r)" "\<forall>n. r = Inr n \<longrightarrow> n = length p"
    "ns_tcb s' = (ns_tcb s)(ti := ?t\<lparr> snd_nxt := q \<rparr>)"
    using send_loop_returns [OF assms(1) fd, of 0 p fd] by auto
  have c': "cc_all s'" using assms(1) unfolding cc_all_def l(3) by (simp add: cc_inv_def)
  have lp: "length p \<le> 65535"
  proof -
    have "unat (snd_wnd ?t) \<le> 65535" using inv by (simp add: cc_inv_def word_le_nat_alt)
    then show ?thesis using window_room_le [of ?t] by (simp add: p_def)
  qed
  have "unat (of_nat (length p) * TCP7_MSS_DEFAULT) = length p * 1460"
    using lp by (simp add: unat_word_ariths(2) unat_of_nat TCP7_MSS_DEFAULT_def)
  then have x: "unat (of_nat (length p) * TCP7_MSS_DEFAULT) \<le> 100000000" using lp by simp
  have g: "cc_all (upd_tcb s' ti (\<lambda>t. t\<lparr> cwnd := cwnd t + (if tb_cc t = CC_SLOW_START then of_nat (length p)
                                  else of_nat (length p) * TCP7_MSS_DEFAULT div cwnd t) \<rparr>))"
    using inv cwnd_grow [OF _ x, of "cwnd ?t"] by (intro cc_all_upd [OF c']) (simp add: l(3) cc_inv_def)
  show ?thesis
  proof (cases r)
    case (Inl e)
    then show ?thesis using Some assms(1) l(1) c' by (auto simp: tcp7_send_def Let_def p_def [symmetric])
  next
    case (Inr n)
    then have n: "n = length p" using l(2) by simp
    show ?thesis using Some assms(1) l(1) Inr g unfolding n by (auto simp: tcp7_send_def Let_def p_def [symmetric])
  qed
qed

lemma cc_all_connect: "cc_all s \<Longrightarrow> cc_all (fst (tcp7_connect s fd ip port isn now))"
proof -
  assume inv: "cc_all s"
  have c: "cc_inv (t\<lparr> tb_fd := fd, tb_state := TCP_SYN_SENT, iss := isn, irs := 0,
      snd_nxt := isn, snd_una := isn, rcv_nxt := 0, rcv_wnd := 65535, snd_wnd := 65535,
      cwnd := TCP7_INITIAL_CWND * TCP7_MSS_DEFAULT, ssthresh := TCP7_INITIAL_SSTHRESH,
      tb_cc := CC_SLOW_START, dup_acks := 0, rto := TCP7_RTO_INITIAL, srtt := 0, rttvar := 0,
      rto_count := 0, rto_max := TCP7_MAX_RETRANSMITS, mss := TCP7_MSS_DEFAULT,
      delack_pending := False, delack_expire := 2, time_wait_expire := 0 \<rparr>)" for t
    by (simp add: cc_inv_def tcp7_const_defs)
  have syn: "cc_all x \<Longrightarrow> cc_all (tcp7_send_syn x fd ti)" for x ti
    unfolding tcp7_send_syn_def by (rule cc_all_upd) (auto simp: cc_all_def emit_tcb cc_inv_def)
  have last: "cc_all x \<Longrightarrow> cc_all (upd_tcb x ti (\<lambda>t. t\<lparr> rto_expire := now + ucast (rto t) \<rparr>))" for x ti
    by (rule cc_all_upd) (auto simp: cc_all_def cc_inv_def)
  show ?thesis
  proof (cases "tcp7_alloc s")
    case (Pair s1 o1)
    have s1: "cc_all s1"
      using Pair inv by (auto simp: tcp7_alloc_def intro!: cc_all_upd split: option.splits)
    show ?thesis
    proof (cases o1)
      case None
      then show ?thesis using Pair s1 by (simp add: tcp7_connect_def)
    next
      case (Some ti)
      show ?thesis unfolding tcp7_connect_def Pair Some prod.case option.case Let_def fst_conv
        by (intro last syn) (simp only: cc_all_sock, rule cc_all_upd [OF s1], rule c)
    qed
  qed
qed

text \<open>For any peer, on every connection, the congestion window that the code divides by outside
  slow start stays at least two segments, and the segment size stays between 536 and 1460: opening a
  connection and every received segment, well formed or not, keep this, and under it every send
  returns.\<close>

theorem tcp_window_safe:
  assumes "cc_all s" and "0 \<le> fd"
  shows "cc_all (fst (tcp7_connect s fd ip port isn now)) \<and> cc_all (fst (tcp7_incoming_segment s fd seg))
    \<and> (\<exists>s' rc. tcp7_send s fd data = Some (s', rc) \<and> cc_all s')"
  using cc_all_connect cc_all_incoming tcp7_send_returns assms by blast

lemma cc_all_demo: "cc_all (demo_host k me peer)"
  by (simp add: cc_all_def demo_host_def cc_inv_def zero_tcb_def)

theorem tcp_window_safe_witness:
  "\<forall>k. \<exists>s' rc. tcp7_send (demo_host k 1 2) 0 [1, 2, 3] = Some (s', rc) \<and> cc_all s'"
proof
  fix k
  show "\<exists>s' rc. tcp7_send (demo_host k 1 2) 0 [1, 2, 3] = Some (s', rc) \<and> cc_all s'"
    using tcp_window_safe [OF cc_all_demo, of 0 k 1 2 0 0 0 0 "[]" "[1, 2, 3]"] by simp
qed

subsection \<open>Timers\<close>

definition tick_handshake :: "u64 \<Rightarrow> nat \<Rightarrow> nstate \<Rightarrow> nstate \<times> bool" where
  "tick_handshake now i s =
     (let t = ns_tcb s i; fd = tb_fd t
      in if tb_state t \<noteq> TCP_SYN_SENT \<and> tb_state t \<noteq> TCP_SYN_RCVD then (s, False)
         else if rto_expire t \<noteq> 0 \<and> now < rto_expire t then (s, True)
         else (let s1 = upd_tcb s i (\<lambda>t. t\<lparr> rto_count := rto_count t + 1 \<rparr>)
               in if rto_max t \<le> rto_count (ns_tcb s1 i)
                  then (upd_tcb (upd_sock s1 (nat fd) (\<lambda>d. d\<lparr> sk_state := TCP_CLOSED, sk_error := ETIMEDOUT \<rparr>)) i tcp7_release_tcb, True)
                  else (let s2 = (if tb_state t = TCP_SYN_SENT then tcp7_send_syn s1 fd i else tcp7_send_synack s1 fd i)
                        in (upd_tcb s2 i (\<lambda>t. t\<lparr> rto_expire := now + ucast (rto t),
                              rto := (if TCP7_RTO_MAX < rto t * 2 then TCP7_RTO_MAX else rto t * 2) \<rparr>), False))))"

definition tick_time_wait :: "nat \<Rightarrow> nstate \<Rightarrow> nstate" where
  "tick_time_wait i s =
     (let t = ns_tcb s i
      in if tb_state t \<noteq> TCP_TIME_WAIT then s
         else (let e = (if time_wait_expire t = 0 then 200 else time_wait_expire t - 1)
               in upd_tcb s i (\<lambda>t. if e = 0 then tcp7_release_tcb (t\<lparr> time_wait_expire := e \<rparr>) else t\<lparr> time_wait_expire := e \<rparr>)))"

definition tick_delack :: "nat \<Rightarrow> nstate \<Rightarrow> nstate" where
  "tick_delack i s =
     (let t = ns_tcb s i
      in if \<not> (delack_pending t \<and> tb_state t = TCP_ESTABLISHED) then s
         else (let e = (if delack_expire t = 0 then 2 else delack_expire t - 1);
                   s1 = upd_tcb s i (\<lambda>t. t\<lparr> delack_expire := e \<rparr>)
               in if e = 0 then tcp7_send_ack s1 (tb_fd t) i else s1))"

definition tick_block :: "u64 \<Rightarrow> nat \<Rightarrow> nstate \<Rightarrow> nstate" where
  "tick_block now i s =
     (if tb_fd (ns_tcb s i) < 0 then s
      else (case tick_handshake now i s of
          (s1, next_block) \<Rightarrow> if next_block then s1 else tick_delack i (tick_time_wait i s1)))"

definition tcp7_tick :: "nstate \<Rightarrow> u64 \<Rightarrow> nstate option" where
  "tcp7_tick s now = map_option (fold (tick_block now) [0..<TCP7_MAX_CONNECTIONS]) (e1000_poll_rx s)"

definition tcp7_get_state :: "nstate \<Rightarrow> int \<Rightarrow> tcp_state option" where
  "tcp7_get_state s fd = map_option (\<lambda>ti. tb_state (ns_tcb s ti)) (tcp7_find s fd)"

definition tcp7_get_rtt :: "nstate \<Rightarrow> int \<Rightarrow> u32" where
  "tcp7_get_rtt s fd = (case tcp7_find s fd of None \<Rightarrow> 0 | Some ti \<Rightarrow> srtt (ns_tcb s ti))"

text \<open>A handshake after \<open>c\<close> timeouts: the wait has doubled each time up to a minute.\<close>

definition handshake :: "nstate \<Rightarrow> nat \<Rightarrow> int \<Rightarrow> nat \<Rightarrow> bool" where
  "handshake s i fd c \<longleftrightarrow> tb_fd (ns_tcb s i) = fd \<and> 0 \<le> fd \<and> ext_sock s (nat fd) \<and> tb_state (ns_tcb s i) = TCP_SYN_SENT
     \<and> c < 15 \<and> rto_count (ns_tcb s i) = of_nat c \<and> rto_max (ns_tcb s i) = TCP7_MAX_RETRANSMITS
     \<and> unat (rto (ns_tcb s i)) = min 60000 (1000 * 2 ^ c)"

definition fires :: "u64 \<Rightarrow> nat \<Rightarrow> nstate \<Rightarrow> bool" where
  "fires now i s \<longleftrightarrow> \<not> (rto_expire (ns_tcb s i) \<noteq> 0 \<and> now < rto_expire (ns_tcb s i))"

definition timed_out :: "nstate \<Rightarrow> nat \<Rightarrow> int \<Rightarrow> bool" where
  "timed_out s i fd \<longleftrightarrow> tb_fd (ns_tcb s i) = - 1 \<and> tb_state (ns_tcb s i) = TCP_CLOSED
     \<and> sk_state (sk s (nat fd)) = TCP_CLOSED \<and> sk_error (sk s (nat fd)) = ETIMEDOUT"

lemma tick_block_fires:
  assumes "handshake s i fd c" and "fires now i s"
  shows "if c = 14 then timed_out (tick_block now i s) i fd
         else handshake (tick_block now i s) i fd (Suc c)
              \<and> rto_expire (ns_tcb (tick_block now i s) i) = now + ucast (rto (ns_tcb s i))"
proof -
  let ?t = "ns_tcb s i"
  define s1 where "s1 = upd_tcb s i (\<lambda>t. t\<lparr> rto_count := rto_count t + 1 \<rparr>)"
  have h: "tb_fd ?t = fd" "0 \<le> fd" "ext_sock s (nat fd)" "tb_state ?t = TCP_SYN_SENT" "c < 15" "rto_count ?t = of_nat c"
    "rto_max ?t = 15" "unat (rto ?t) = min 60000 (1000 * 2 ^ c)"
    using assms(1) by (simp_all add: handshake_def TCP7_MAX_RETRANSMITS_def)
  have rc: "rto_count (ns_tcb s1 i) = of_nat (Suc c)" by (simp add: s1_def h(6))
  have le: "rto_max ?t \<le> rto_count (ns_tcb s1 i) \<longleftrightarrow> 14 \<le> c"
    unfolding rc h(7) using h(5) by (simp only: word_le_nat_alt unat_of_nat) simp
  show ?thesis
  proof (cases "c = 14")
    case True
    then have "tick_block now i s = upd_tcb (upd_sock s1 (nat fd) (\<lambda>d. d\<lparr> sk_state := TCP_CLOSED, sk_error := ETIMEDOUT \<rparr>)) i tcp7_release_tcb"
      using h assms(2) le by (auto simp: tick_block_def tick_handshake_def Let_def fires_def s1_def)
    then show ?thesis using True by (simp add: timed_out_def tcp7_release_tcb_def)
  next
    case False
    define s2 where "s2 = tcp7_send_syn s1 fd i"
    have x1: "ext_sock s1 (nat fd)" by (simp add: s1_def h(3))
    have t2: "ns_sock s2 = ns_sock s"
      "ns_tcb s2 i = (ns_tcb s1 i)\<lparr> snd_nxt := iss (ns_tcb s1 i) + 1, snd_una := iss (ns_tcb s1 i) \<rparr>"
      using same_core_emit [OF x1, of "tcp_open_segment s1 fd (ns_tcb s1 i) 0 TCP_SYN"]
      by (simp_all add: s2_def tcp7_send_syn_def same_core_def s1_def)
    define s3 where "s3 = upd_tcb s2 i (\<lambda>t. t\<lparr> rto_expire := now + ucast (rto t),
        rto := (if TCP7_RTO_MAX < rto t * 2 then TCP7_RTO_MAX else rto t * 2) \<rparr>)"
    have "tick_handshake now i s = (s3, False)"
      using h assms(2) le False by (simp add: tick_handshake_def Let_def fires_def s1_def s2_def s3_def)
    moreover have st3: "tb_state (ns_tcb s3 i) = TCP_SYN_SENT" by (simp add: s3_def t2 s1_def h(4))
    ultimately have tb: "tick_block now i s = s3"
      using h(1,2) by (simp add: tick_block_def tick_time_wait_def tick_delack_def Let_def)
    have r2: "unat (rto ?t * 2) = 2 * unat (rto ?t)" using h(8) by (simp add: unat_word_ariths(2))
    have ex: "rto_expire (ns_tcb s3 i) = now + ucast (rto ?t)" by (simp add: s3_def t2 s1_def)
    have r3: "rto (ns_tcb s3 i) = (if TCP7_RTO_MAX < rto ?t * 2 then TCP7_RTO_MAX else rto ?t * 2)"
      by (simp add: s3_def t2 s1_def)
    have "unat (rto (ns_tcb s3 i)) = min 60000 (1000 * 2 ^ Suc c)"
      using r2 h(8) unfolding r3 by (simp add: TCP7_RTO_MAX_def word_less_nat_alt min_def)
    moreover have "tb_fd (ns_tcb s3 i) = fd" "rto_count (ns_tcb s3 i) = of_nat (Suc c)" "rto_max (ns_tcb s3 i) = TCP7_MAX_RETRANSMITS"
      using h rc by (simp_all add: s3_def t2 s1_def TCP7_MAX_RETRANSMITS_def)
    moreover have "ext_sock s3 (nat fd)" using h(3) t2(1) by (simp add: s3_def)
    ultimately show ?thesis using False h(2,5) st3 ex unfolding tb by (simp add: handshake_def)
  qed
qed

fun tick_run :: "nat \<Rightarrow> u64 list \<Rightarrow> nstate \<Rightarrow> nstate \<times> bool" where
  "tick_run i [] s = (s, True)"
| "tick_run i (now # nows) s = (case tick_run i nows (tick_block now i s) of (s', ok) \<Rightarrow> (s', ok \<and> (tb_fd (ns_tcb s i) < 0 \<or> fires now i s)))"

lemma tick_run_closed: "timed_out s i fd \<Longrightarrow> timed_out (fst (tick_run i nows s)) i fd"
  by (induction nows arbitrary: s) (auto simp: tick_block_def timed_out_def split: prod.splits)

lemma tick_run_handshake:
  "handshake s i fd c \<Longrightarrow> tick_run i nows s = (s', True) \<Longrightarrow> 15 \<le> c + length nows \<Longrightarrow> timed_out s' i fd"
proof (induction nows arbitrary: s c)
  case Nil
  then show ?case by (simp add: handshake_def)
next
  case (Cons now nows)
  obtain ok where r: "tick_run i nows (tick_block now i s) = (s', ok)" "ok" "fires now i s"
    using Cons.prems(1,2) by (auto simp: handshake_def split: prod.splits)
  note f = tick_block_fires [OF Cons.prems(1) r(3)]
  show ?case
  proof (cases "c = 14")
    case True
    then show ?thesis using f tick_run_closed [of "tick_block now i s" i fd nows] r(1) by simp
  next
    case False
    then have "handshake (tick_block now i s) i fd (Suc c)" using f by simp
    from Cons.IH [OF this] r Cons.prems(3) show ?thesis by simp
  qed
qed



text \<open>A block in its handshake for socket 0, and fifteen ticks a minute apart.\<close>

definition syn_host :: "kernel \<Rightarrow> nstate" where
  "syn_host k = (demo_host k 0x0A00020F 0x0A000202)\<lparr> ns_tcb := (\<lambda>i. if i = 0
     then zero_tcb\<lparr> tb_state := TCP_SYN_SENT, rto := 1000, rto_max := 15, mss := 1460 \<rparr> else zero_tcb\<lparr> tb_fd := - 1 \<rparr>) \<rparr>"

lemma tick_run_last:
  "handshake s i fd c \<Longrightarrow> c + length nows \<le> 15 \<Longrightarrow> (nows \<noteq> [] \<longrightarrow> fires (hd nows) i s) \<Longrightarrow>
   (\<forall>j. Suc j < length nows \<longrightarrow> nows ! Suc j = nows ! j + 60000) \<Longrightarrow> (\<forall>j < length nows. nows ! j \<le> 1000000) \<Longrightarrow>
   snd (tick_run i nows s)"
proof (induction nows arbitrary: s c)
  case (Cons now nows)
  note f = tick_block_fires [OF Cons.prems(1)]
  have fi: "fires now i s" using Cons.prems(3) by simp
  show ?case
  proof (cases "c = 14")
    case True
    then have "nows = []" using Cons.prems(2) by (cases nows) auto
    then show ?thesis using fi by simp
  next
    case False
    then have h: "handshake (tick_block now i s) i fd (Suc c)"
      and e: "rto_expire (ns_tcb (tick_block now i s) i) = now + ucast (rto (ns_tcb s i))" using f [OF fi] by simp_all
    have r: "unat (rto (ns_tcb s i)) \<le> 60000" using Cons.prems(1) by (simp add: handshake_def)
    have "fires (hd nows) i (tick_block now i s)" if "nows \<noteq> []"
    proof -
      have n: "hd nows = now + 60000" using Cons.prems(4) [rule_format, of 0] that by (simp add: hd_conv_nth)
      have "unat now \<le> 1000000" using Cons.prems(5) [rule_format, of 0] by (simp add: word_le_nat_alt)
      then have "unat (now + ucast (rto (ns_tcb s i))) \<le> unat (now + 60000)"
        using r by (simp add: unat_word_ariths(1) unsigned_ucast_eq take_bit_eq_mod)
      then show ?thesis unfolding fires_def e n by (simp add: word_less_nat_alt)
    qed
    moreover have "\<forall>j. Suc j < length nows \<longrightarrow> nows ! Suc j = nows ! j + 60000"
      using Cons.prems(4) by (metis Suc_less_eq length_Cons nth_Cons_Suc)
    moreover have "\<forall>j < length nows. nows ! j \<le> 1000000"
      using Cons.prems(5) by (metis Suc_less_eq length_Cons nth_Cons_Suc)
    ultimately have "snd (tick_run i nows (tick_block now i s))" using Cons.IH [OF h] Cons.prems(2) by simp
    then show ?thesis using fi by (simp split: prod.splits)
  qed
qed simp



subsection \<open>Where the protocol is left incomplete\<close>

text \<open>A segment that finds the ring full is acknowledged and its bytes are gone.\<close>

lemma full_ring_loses:
  assumes "conn s i ti" and "tb_state (ns_tcb s ti) = TCP_ESTABLISHED" and "seg_of B base seg"
    and "net32 seg 4 = rcv_nxt (ns_tcb s ti)" and "seg_hdr_len seg < length seg" and "\<not> has_flag (seg ! 13) TCP_FIN"
    and "length (rx_abs (sk s i)) = SOCK_BUF_SIZE"
  shows "rcv_nxt (ns_tcb (deliver_tcp s i seg) ti) = rcv_nxt (ns_tcb s ti) + of_nat (length seg - seg_hdr_len seg)"
    and "rx_abs (sk (deliver_tcp s i seg) i) = rx_abs (sk s i)"
proof -
  let ?s0 = "ready_tcb s ti seg" and ?l = "length seg - seg_hdr_len seg"
  have inc: "tcp7_incoming_segment s (int i) seg = tcp_step ?s0 (int i) ti (seg ! 13) (net32 seg 4) (net32 seg 8) ?l"
    using assms(1,3) by (intro incoming_seg_of) (auto simp: conn_def)
  have s0: "ns_sock ?s0 = ns_sock s" "tb_state (ns_tcb ?s0 ti) = TCP_ESTABLISHED" "rcv_nxt (ns_tcb ?s0 ti) = rcv_nxt (ns_tcb s ti)"
    using assms(2) by (simp_all add: ready_tcb_def)
  obtain s1 acc where st: "step_established ?s0 (int i) ti (seg ! 13) (net32 seg 4) (net32 seg 8) ?l = (s1, acc)" by fastforce
  have x0: "ext_sock ?s0 (nat (int i))" using assms(1) s0(1) by (simp add: conn_def)
  note eff = step_established_effect [OF x0 st]
  have acc: acc using eff(1) assms(4,5) s0(3) by simp
  have rn: "rcv_nxt (ns_tcb s1 ti) = rcv_nxt (ns_tcb s ti) + of_nat ?l" using eff(4) acc assms(6) s0(3) by (simp add: Let_def)
  obtain st' where "sk s1 i = (sk s i)\<lparr> sk_state := st' \<rparr>" using eff(2) [of i] s0(1) by auto
  then have rx: "rx_abs (sk s1 i) = rx_abs (sk s i)" "rx_ok (sk s1 i)" using assms(1) by (simp_all add: conn_def)
  have d: "deliver_tcp s i seg = s1 \<or> deliver_tcp s i seg = fst (sock_push_rx s1 i (drop (seg_hdr_len seg) seg))"
    using inc s0(2) st by (auto simp: deliver_tcp_def tcp_step_def Let_def)
  show "rcv_nxt (ns_tcb (deliver_tcp s i seg) ti) = rcv_nxt (ns_tcb s ti) + of_nat ?l"
    using d rn push_rx_tcb [of s1 i] by (metis (no_types))
  obtain s2 n where s2: "sock_push_rx s1 i (drop (seg_hdr_len seg) seg) = (s2, n)" by fastforce
  have "rx_abs (sk s2 i) = rx_abs (sk s1 i)"
    using rx_push_spec [OF rx(2), of "drop (seg_hdr_len seg) seg"] sock_push_rx_sock [OF s2, of i] assms(7) rx(1) by auto
  then show "rx_abs (sk (deliver_tcp s i seg) i) = rx_abs (sk s i)" using d rx(1) s2 by auto
qed

text \<open>A stream socket that is neither bound nor connected matches every TCP frame.\<close>

lemma fresh_socket_takes_all:
  assumes "sk_used d" and "sk_domain d = 2" and "sk_type d = 1" and "sk_protocol d = 6" and "sk_local_ip d = 0"
    and "sk_local_port d = 0" and "sk_remote_ip d = 0" and "sk_remote_port d = 0"
  shows "frame_matches d 6 src dst sp dp"
  using assms by (simp add: frame_matches_def sock_ip_match_def)

text \<open>Acknowledgements are compared as plain numbers: once the sequence numbers have wrapped, new
  ones are ignored; and one for data that was never sent shuts the window.\<close>

lemma wrapped_ack_ignored: "ack < snd_una t \<Longrightarrow> ack_step ack t = t"
  by (auto simp: ack_step_def)

lemma bogus_ack_blocks:
  assumes "snd_una t = snd_nxt t" and "ack = snd_nxt t + 1" and "snd_nxt t < ack"
  shows "tcp_window_room (ack_step ack t) = 0"
proof -
  let ?t = "ack_step ack t"
  have "snd_una ?t = ack" "snd_nxt ?t = snd_nxt t" "snd_wnd ?t = snd_wnd t"
    using assms by (simp_all add: ack_step_def Let_def)
  then have "snd_nxt ?t - snd_una ?t = - 1" using assms(2) by simp
  then show ?thesis by (simp add: tcp_window_room_def Let_def)
qed

text \<open>Data that was sent is never sent again: the timer does nothing for an established connection.\<close>

lemma no_retransmission:
  "tb_state (ns_tcb s i) = TCP_ESTABLISHED \<Longrightarrow> \<not> delack_pending (ns_tcb s i) \<Longrightarrow> tick_block now i s = s"
  by (simp add: tick_block_def tick_handshake_def tick_time_wait_def tick_delack_def Let_def)

text \<open>A closing advertisement of the receiver's window is not taken over.\<close>

lemma zero_window_ignored: "net16 seg 14 = 0 \<Longrightarrow> snd_wnd (ns_tcb (ready_tcb s ti seg) ti) = snd_wnd (ns_tcb s ti)"
  by (simp add: ready_tcb_def)

text \<open>A datagram that finds the record queue full leaves its bytes in the ring without a record.\<close>

lemma datagram_desync:
  assumes "dg_inv (sk s i)" and "length (dg_abs (sk s i)) = 31" and "payload \<noteq> []"
    and "length (rx_abs (sk s i)) + length payload \<le> SOCK_BUF_SIZE"
  shows "\<not> dg_inv (sk (deliver_udp s i payload ip port) i)"
proof -
  let ?d = "sk s i"
  have ok: "rx_ok ?d" and hd: "sk_rx_msg_head ?d < SOCK_DGRAMQ" "sk_rx_msg_tail ?d < SOCK_DGRAMQ"
    and tot: "dg_total (dg_slots ?d) = length (rx_abs ?d)" using assms(1) by (auto simp: dg_inv_def)
  have full: "(sk_rx_msg_head ?d + 1) mod SOCK_DGRAMQ = sk_rx_msg_tail ?d"
    using circ_full [OF hd, of "sk_rx_msg ?d"] assms(2) by (simp add: length_dg_abs SOCK_DGRAMQ_def)
  obtain b h where p: "fst (rx_push ?d payload) = ?d\<lparr> sk_rx_buf := b, sk_rx_head := h \<rparr>"
    "ring_abs b h (sk_rx_tail ?d) = rx_abs ?d @ payload"
  proof -
    have "take (SOCK_BUF_SIZE - length (rx_abs ?d)) payload = payload"
      by (rule take_all) (use assms(4) in linarith)
    then show ?thesis using rx_push_spec [OF ok, of payload] that by auto
  qed
  obtain s1 n where s1: "sock_push_rx s i payload = (s1, n)" by fastforce
  have k1: "sk s1 i = ?d\<lparr> sk_rx_buf := b, sk_rx_head := h \<rparr>" using sock_push_rx_sock [OF s1, of i] p(1) by simp
  have "sk (deliver_udp s i payload ip port) i = sk s1 i"
    using assms(3,4) full k1 by (simp add: deliver_udp_def s1 Let_def)
  then have d: "sk (deliver_udp s i payload ip port) i = ?d\<lparr> sk_rx_buf := b, sk_rx_head := h \<rparr>" using k1 by simp
  have "dg_total (dg_slots ?d) \<noteq> length (rx_abs ?d @ payload)" using tot assms(3) by simp
  then show ?thesis unfolding dg_inv_def d using p(2) by simp
qed

text \<open>The TCP header's length byte is read although only four bytes of the segment are known to be there.\<close>

lemma short_tcp_read_past:
  assumes "selects s src dst (net16 raw 0) (net16 raw 2) j" and "4 \<le> length tp" and "length raw \<le> 12"
  shows "net_demux s 6 src dst raw tp = None"
  using assms by (simp add: net_demux_def Let_def selects_def)

end
