(* ===== verification/KSockApi.thy ===== *)
theory KSockApi
  imports KTcp
begin

text \<open>
  The socket calls of \<^verbatim>\<open>src/compat/base.c\<close>: \<open>sock_create\<close> to \<open>sock_close\<close>.  Sockets of this model are
  those of user programs; the kernel's own servers that \<open>sock_virtual_classify\<close> puts behind some ports
  (X11, Wayland, D-Bus) are outside it, and a call that would enter one gives \<open>None\<close>.  Waiting
  loops take the frames that arrive before each round as an argument.
\<close>

definition SOCK_VIRT_NONE :: nat where "SOCK_VIRT_NONE = 0"
definition SOCK_VIRT_HTTP :: nat where "SOCK_VIRT_HTTP = 1"
definition SOCK_VIRT_HTTPS :: nat where "SOCK_VIRT_HTTPS = 2"
definition SOCK_VIRT_X11 :: nat where "SOCK_VIRT_X11 = 3"
definition SOCK_VIRT_WL :: nat where "SOCK_VIRT_WL = 4"
definition SOCK_VIRT_DBUS :: nat where "SOCK_VIRT_DBUS = 5"

lemmas virt_defs = SOCK_VIRT_NONE_def SOCK_VIRT_HTTP_def SOCK_VIRT_HTTPS_def SOCK_VIRT_X11_def SOCK_VIRT_WL_def SOCK_VIRT_DBUS_def

definition sock_is_http_port :: "u16 \<Rightarrow> bool" where
  "sock_is_http_port port \<longleftrightarrow> port \<in> {80, 8080, 8000, 3000, 5000, 9222}"

definition sock_is_https_port :: "u16 \<Rightarrow> bool" where
  "sock_is_https_port port \<longleftrightarrow> port \<in> {443, 8443, 9443}"

definition sock_virtual_classify :: "u32 \<Rightarrow> u16 \<Rightarrow> nat" where
  "sock_virtual_classify addr port =
     (if sock_is_loopback_ip addr
      then (if 6000 \<le> port \<and> port < 6064 then SOCK_VIRT_X11
            else if 39010 \<le> port \<and> port \<le> 39019 \<or> port = 39099 then SOCK_VIRT_WL
            else if port = 39020 \<or> port = 39021 \<or> port = 39022 then SOCK_VIRT_DBUS
            else SOCK_VIRT_NONE)
      else if sock_is_http_port port then SOCK_VIRT_HTTP
      else if sock_is_https_port port then SOCK_VIRT_HTTPS
      else SOCK_VIRT_NONE)"

text \<open>Whether a socket speaks to one of the kernel's servers, and whether its closing tells one of them.\<close>

definition kernel_served :: "socket \<Rightarrow> bool" where
  "kernel_served d \<longleftrightarrow> sk_virt_service d \<in> {SOCK_VIRT_X11, SOCK_VIRT_WL, SOCK_VIRT_DBUS}"

definition close_tells_server :: "nstate \<Rightarrow> int \<Rightarrow> bool" where
  "close_tells_server s fd \<longleftrightarrow>
     sk_virt_service (sk s (nat fd)) \<in> {SOCK_VIRT_WL, SOCK_VIRT_DBUS}
     \<or> sk_virt_service (sk s (nat fd)) = SOCK_VIRT_X11 \<and> sock_ok s (sk_peer (sk s (nat fd)))"

subsection \<open>Start-up\<close>

text \<open>\<open>tcp_ip_init\<close> and the line of the start-up code that clears the connection blocks; these then
  all claim socket 0, and the creation of that socket is what frees them.\<close>

definition tcp_ip_init :: "nstate \<Rightarrow> nstate" where
  "tcp_ip_init s = s\<lparr> ns_sock := (\<lambda>_. zero_socket),
     ns_lease := \<lparr> dl_obtained = False, dl_ip = 0, dl_netmask = 0, dl_gateway = 0, dl_dns = 0, dl_lease_time = 0, dl_server_ip = 0 \<rparr>,
     ns_dns := dns_init, ns_arp := arp_init, ns_eph := 49152 \<rparr>"

definition tcp7_clear :: "nstate \<Rightarrow> nstate" where
  "tcp7_clear s = s\<lparr> ns_tcb := (\<lambda>_. zero_tcb) \<rparr>"

subsection \<open>Creation, binding, listening\<close>

definition sock_create :: "nstate \<Rightarrow> int \<Rightarrow> int \<Rightarrow> int \<Rightarrow> nstate \<times> int" where
  "sock_create s domain type0 protocol =
     (if domain \<noteq> 1 \<and> domain \<noteq> 2 \<and> domain \<noteq> 16 then (s, - EINVAL)
      else (let type1 = (if type0 = 5 then 1 else type0);
                type = (if type1 = 3 \<and> domain = 16 then 2 else type1)
            in if type \<noteq> 1 \<and> type \<noteq> 2 then (s, - EINVAL)
               else (case find (\<lambda>i. \<not> sk_used (sk s i)) [0..<SOCK_MAX] of
                   None \<Rightarrow> (s, - ENOMEM)
                 | Some i \<Rightarrow>
                     (upd_sock (tcp7_drop_socket s (int i)) i (\<lambda>_. zero_socket\<lparr> sk_used := True, sk_domain := domain,
                        sk_type := type,
                        sk_protocol := (if domain = 2 \<and> protocol = 0 then (if type = 1 then 6 else 17) else protocol),
                        sk_peer := - 1, sk_state := TCP_CLOSED, sk_tcp_window := 65535 \<rparr>), int i))))"

definition sock_bind :: "nstate \<Rightarrow> int \<Rightarrow> u32 \<Rightarrow> u16 \<Rightarrow> nstate \<times> int" where
  "sock_bind s fd a p =
     (if \<not> sock_ok s fd then (s, - EBADF)
      else if sock_bind_conflict s fd (sk_domain (sk s (nat fd))) (sk_type (sk s (nat fd))) a p then (s, - EADDRINUSE)
      else (upd_sock s (nat fd) (\<lambda>d. d\<lparr> sk_local_ip := a, sk_local_port := p \<rparr>), 0))"

definition sock_listen :: "nstate \<Rightarrow> int \<Rightarrow> int \<Rightarrow> nstate \<times> int" where
  "sock_listen s fd bl0 =
     (if \<not> sock_ok s fd then (s, - EBADF)
      else if sk_type (sk s (nat fd)) \<noteq> 1 then (s, - EINVAL)
      else (let bl1 = (if bl0 < 1 then 1 else bl0);
                bl = (if int SOCK_ACCEPTQ - 1 < bl1 then int SOCK_ACCEPTQ - 1 else bl1)
            in (upd_sock s (nat fd) (\<lambda>d. d\<lparr> sk_state := TCP_LISTEN, sk_backlog := bl,
                  sk_accept_head := 0, sk_accept_tail := 0 \<rparr>), 0)))"

subsection \<open>Closing\<close>

text \<open>The end of \<open>sock_close\<close>: the peer is told, the connection blocks are freed and the slot is zeroed.\<close>

definition close_finish :: "nstate \<Rightarrow> int \<Rightarrow> nstate" where
  "close_finish s fd =
     (let d = sk s (nat fd);
          s1 = (if sock_ok s (sk_peer d) \<and> sk_peer (sk s (nat (sk_peer d))) = fd
                then (let s' = upd_sock s (nat (sk_peer d)) (\<lambda>p. p\<lparr> sk_shutdown_rx := True, sk_peer := - 1,
                             sk_state := (if sk_type p = 1 then TCP_CLOSED else sk_state p) \<rparr>)
                      in s'\<lparr> ns_k := sock_wake_socket_sleepers (ns_k s') \<rparr>)
                else s);
          s2 = (if sk_type (sk s1 (nat fd)) = 1 then tcp7_drop_socket s1 fd else s1)
      in upd_sock s2 (nat fd) (\<lambda>_. zero_socket))"

text \<open>The loop over the connections still in the accept queue; each one is closed first.\<close>

partial_function (option) close_drain :: "nstate \<Rightarrow> int \<Rightarrow> nstate option" where
  "close_drain s fd =
     (let d = sk s (nat fd)
      in if sk_accept_head d = sk_accept_tail d then Some (close_finish s fd)
         else (let qfd = sk_accept_q d (sk_accept_tail d);
                   s1 = upd_sock s (nat fd) (\<lambda>d. d\<lparr> sk_accept_tail := (sk_accept_tail d + 1) mod SOCK_ACCEPTQ \<rparr>)
               in if \<not> sock_ok s1 qfd then close_drain s1 fd
                  else if close_tells_server s1 qfd then None
                  else Option.bind (close_drain s1 qfd) (\<lambda>s2. close_drain s2 fd)))"

definition sock_close :: "nstate \<Rightarrow> int \<Rightarrow> (nstate \<times> int) option" where
  "sock_close s fd =
     (if \<not> sock_ok s fd then Some (s, - EBADF)
      else if close_tells_server s fd then None
      else (case close_drain s fd of None \<Rightarrow> None | Some s1 \<Rightarrow> Some (s1, 0)))"

subsection \<open>Accepting\<close>

text \<open>On success the new socket with its peer's address and port.\<close>

definition sock_accept :: "nstate \<Rightarrow> int \<Rightarrow> nstate \<times> (int + int \<times> u32 \<times> u16)" where
  "sock_accept s fd =
     (if \<not> sock_ok s fd then (s, Inl (- EBADF))
      else if sk_state (sk s (nat fd)) \<noteq> TCP_LISTEN then (s, Inl (- EINVAL))
      else (case sock_acceptq_pop (sk s (nat fd)) of
          (l, nsfd) \<Rightarrow>
            let s1 = upd_sock s (nat fd) (\<lambda>_. l)
            in if nsfd < 0 then (s1, Inl nsfd)
               else (s1, Inr (nsfd, sk_remote_ip (sk s1 (nat nsfd)), sk_remote_port (sk s1 (nat nsfd))))))"

definition tcp7_accept :: "nstate \<Rightarrow> int \<Rightarrow> u32 \<Rightarrow> (nstate \<times> (int + int \<times> u32 \<times> u16)) option" where
  "tcp7_accept s fd isn =
     (case sock_accept s fd of
        (s1, Inl e) \<Rightarrow> Some (s1, Inl e)
      | (s1, Inr (nsfd, ip, port)) \<Rightarrow>
          (case tcp7_alloc s1 of
             (s2, None) \<Rightarrow>
               (case sock_close s2 nsfd of None \<Rightarrow> None | Some (s3, _) \<Rightarrow> Some (s3, Inl (- ENOMEM)))
           | (s2, Some ti) \<Rightarrow>
               (let a = sk_tcp_ack (sk s2 (nat nsfd));
                    s3 = upd_tcb s2 ti (\<lambda>t. t\<lparr> tb_fd := nsfd, tb_state := TCP_ESTABLISHED, iss := isn, irs := a,
                        snd_nxt := isn + 1, snd_una := isn, rcv_nxt := a + 1, rcv_wnd := 65535, snd_wnd := 65535,
                        cwnd := TCP7_INITIAL_CWND * TCP7_MSS_DEFAULT, ssthresh := TCP7_INITIAL_SSTHRESH,
                        tb_cc := CC_SLOW_START, dup_acks := 0, rto := TCP7_RTO_INITIAL, mss := TCP7_MSS_DEFAULT,
                        delack_expire := 2, time_wait_expire := 0 \<rparr>);
                    s4 = upd_sock s3 (nat nsfd) (\<lambda>d. d\<lparr> sk_state := TCP_ESTABLISHED, sk_tcp_seq := isn + 1, sk_tcp_ack := a + 1 \<rparr>)
                in Some (tcp7_send_ack s4 nsfd ti, Inr (nsfd, ip, port)))))"

subsection \<open>Connecting\<close>

definition poll_with :: "nstate \<Rightarrow> u8 list list \<Rightarrow> nstate option" where
  "poll_with s fs = e1000_poll_rx (s\<lparr> ns_rxq := ns_rxq s @ fs \<rparr>)"

text \<open>The 200 rounds that wait for the handshake; \<open>arr\<close> are the frames that arrive before a round,
  \<open>clk\<close> is the clock.\<close>

fun connect_wait :: "nat \<Rightarrow> nstate \<Rightarrow> int \<Rightarrow> (nat \<Rightarrow> u8 list list) \<Rightarrow> (nat \<Rightarrow> u64) \<Rightarrow> nstate option" where
  "connect_wait 0 s fd arr clk = Some s"
| "connect_wait (Suc n) s fd arr clk =
     (case poll_with s (arr (199 - n)) of
        None \<Rightarrow> None
      | Some s1 \<Rightarrow>
          if sk_state (sk s1 (nat fd)) = TCP_ESTABLISHED then Some s1
          else if (199 - n) mod 24 = 23
          then (case tcp7_tick s1 (clk (199 - n)) of None \<Rightarrow> None | Some s2 \<Rightarrow> connect_wait n s2 fd arr clk)
          else connect_wait n s1 fd arr clk)"

definition set_err :: "nstate \<Rightarrow> int \<Rightarrow> int \<Rightarrow> nstate" where
  "set_err s fd e = upd_sock s (nat fd) (\<lambda>d. d\<lparr> sk_error := e \<rparr>)"

definition set_established :: "nstate \<Rightarrow> int \<Rightarrow> int \<Rightarrow> nstate" where
  "set_established s fd peer = upd_sock s (nat fd) (\<lambda>d. d\<lparr> sk_peer := peer, sk_state := TCP_ESTABLISHED,
     sk_tcp_seq := 1, sk_tcp_ack := 1, sk_tcp_window := 65535 \<rparr>)"

text \<open>The new socket \<open>nsfd\<close> of the server's side takes the addresses the other way round, and both
  ends are established.\<close>

definition connect_offer :: "nstate \<Rightarrow> int \<Rightarrow> int \<Rightarrow> nat \<Rightarrow> u32 \<Rightarrow> nstate" where
  "connect_offer s fd nsfd lst addr =
     (let l = sk s lst; c = sk s (nat fd)
      in set_established (set_established (upd_sock s (nat nsfd) (\<lambda>n. n\<lparr>
             sk_local_ip := (if sk_local_ip l \<noteq> 0 then sk_local_ip l else addr),
             sk_local_port := sk_local_port l,
             sk_remote_ip := (if sk_local_ip c \<noteq> 0 then sk_local_ip c else 0x7F000001),
             sk_remote_port := sk_local_port c, sk_virt_service := SOCK_VIRT_NONE \<rparr>)) nsfd fd) fd nsfd)"

definition connect_local :: "nstate \<Rightarrow> int \<Rightarrow> nat \<Rightarrow> u32 \<Rightarrow> (nstate \<times> int) option" where
  "connect_local s fd lst addr =
     (case sock_create s (sk_domain (sk s (nat fd))) 1 (sk_protocol (sk s (nat fd))) of
        (s1, nsfd) \<Rightarrow>
          if nsfd < 0 then Some (s1, nsfd)
          else (case sock_acceptq_push (connect_offer s1 fd nsfd lst addr) lst nsfd of
              (s4, rc) \<Rightarrow>
                if rc < 0
                then (case sock_close (upd_sock s4 (nat fd) (\<lambda>d. d\<lparr> sk_peer := - 1, sk_state := TCP_CLOSED \<rparr>)) nsfd of
                        None \<Rightarrow> None | Some (s5, _) \<Rightarrow> Some (s5, rc))
                else Some (s4, 0)))"

definition connect_prepare :: "nstate \<Rightarrow> int \<Rightarrow> u32 \<Rightarrow> u16 \<Rightarrow> nstate" where
  "connect_prepare s fd addr port =
     (let s1 = upd_sock s (nat fd) (\<lambda>d. d\<lparr> sk_remote_ip := addr, sk_remote_port := port,
                  sk_virt_service := sock_virtual_classify addr port \<rparr>);
          s2 = (if sk_local_port (sk s1 (nat fd)) = 0
                then (case alloc_eph s1 of (s', p) \<Rightarrow> upd_sock s' (nat fd) (\<lambda>d. d\<lparr> sk_local_port := p \<rparr>)) else s1)
      in if sk_local_ip (sk s2 (nat fd)) = 0
         then upd_sock s2 (nat fd) (\<lambda>d. d\<lparr> sk_local_ip :=
                (if sock_is_loopback_ip addr then 0x7F000001 else net_get_src_ip (ns_lease s2)) \<rparr>)
         else s2)"

definition sock_connect :: "nstate \<Rightarrow> int \<Rightarrow> u32 \<Rightarrow> u16 \<Rightarrow> u32 \<Rightarrow> (nat \<Rightarrow> u8 list list) \<Rightarrow> (nat \<Rightarrow> u64) \<Rightarrow> (nstate \<times> int) option" where
  "sock_connect s fd addr port isn arr clk =
     (if \<not> sock_ok s fd then Some (s, - EBADF)
      else if sk_type (sk s (nat fd)) = 1 \<and> sk_state (sk s (nat fd)) = TCP_ESTABLISHED then Some (s, - EISCONN)
      else (let s1 = connect_prepare s fd addr port; c = sk s1 (nat fd)
            in if sk_type c = 2 then Some (s1, 0)
               else if \<not> sock_is_loopback_ip addr \<and> sk_type c \<noteq> 1
               then Some (set_err (set_sock_state s1 fd TCP_CLOSED) fd ECONNREFUSED, - ECONNREFUSED)
               else if \<not> sock_is_loopback_ip addr
               then (case tcp7_connect s1 fd addr port isn (clk 200) of
                   (s2, rc) \<Rightarrow>
                     if rc < 0 then Some (set_err (set_sock_state s2 fd TCP_CLOSED) fd ECONNREFUSED, rc)
                     else (case connect_wait 200 s2 fd arr clk of
                         None \<Rightarrow> None
                       | Some s3 \<Rightarrow>
                           if sk_state (sk s3 (nat fd)) = TCP_ESTABLISHED then Some (set_err s3 fd 0, 0)
                           else if sk_non_blocking (sk s3 (nat fd)) then Some (s3, - EINPROGRESS)
                           else Some (set_err s3 fd ETIMEDOUT, - ETIMEDOUT)))
               else (case sock_find_listener s1 (sk_domain c) addr port of
                   None \<Rightarrow>
                     if kernel_served c then None
                     else if sk_domain c = 1
                     then Some (set_err (set_sock_state s1 fd TCP_CLOSED) fd ECONNREFUSED, - ECONNREFUSED)
                     else Some (set_err (set_established s1 fd (sk_peer c)) fd 0, 0)
                 | Some lst \<Rightarrow>
                     connect_local (upd_sock s1 (nat fd) (\<lambda>d. d\<lparr> sk_virt_service := SOCK_VIRT_NONE \<rparr>)) fd lst addr)))"

definition sock_pair_create :: "nstate \<Rightarrow> int \<Rightarrow> int \<Rightarrow> int \<Rightarrow> (nstate \<times> (int + int \<times> int)) option" where
  "sock_pair_create s domain type protocol =
     (case sock_create s domain type protocol of
        (s1, a) \<Rightarrow>
          if a < 0 then Some (s1, Inl a)
          else (case sock_create s1 domain type protocol of
              (s2, b) \<Rightarrow>
                if b < 0
                then (case sock_close s2 a of None \<Rightarrow> None | Some (s3, _) \<Rightarrow> Some (s3, Inl b))
                else (case alloc_eph s2 of
                    (s3, pa) \<Rightarrow> (case alloc_eph s3 of
                        (s4, pb) \<Rightarrow>
                          (let st = (\<lambda>d. if type = 1 then d\<lparr> sk_state := TCP_ESTABLISHED \<rparr> else d);
                               s5 = upd_sock s4 (nat a) (\<lambda>d. st (d\<lparr> sk_peer := b, sk_local_ip := 0x7F000001,
                                 sk_remote_ip := 0x7F000001, sk_local_port := pa, sk_remote_port := pb \<rparr>));
                               s6 = upd_sock s5 (nat b) (\<lambda>d. st (d\<lparr> sk_peer := a, sk_local_ip := 0x7F000001,
                                 sk_remote_ip := 0x7F000001, sk_local_port := pb, sk_remote_port := pa \<rparr>))
                           in Some (s6, Inr (a, b)))))))"

subsection \<open>Transfer\<close>

definition sock_dns_reply :: "nstate \<Rightarrow> nat \<Rightarrow> u8 list \<Rightarrow> nstate \<times> int" where
  "sock_dns_reply s i data =
     (case dns_build_response (ns_dns s) data 512 of
        (c, resp) \<Rightarrow>
          let s1 = s\<lparr> ns_dns := c \<rparr>;
              sip = (if sk_remote_ip (sk s i) \<noteq> 0 then sk_remote_ip (sk s i)
                     else if dl_dns (ns_lease s) \<noteq> 0 then dl_dns (ns_lease s)
                     else c_make_ip4 10 0 2 3)
          in if resp = [] then (s1, int (length data)) else sock_push_udp s1 i resp sip 53)"

text \<open>The two loops of a query to a name server on the network: 24 attempts to send, and 240 polls for
  an answer.  \<open>arr k\<close> are the frames that arrive before poll \<open>k\<close>.\<close>

fun dns_try_send :: "nat \<Rightarrow> nstate \<Rightarrow> int \<Rightarrow> u8 list \<Rightarrow> (nat \<Rightarrow> u8 list list) \<Rightarrow> (nstate \<times> bool) option" where
  "dns_try_send 0 s fd p arr = Some (s, False)"
| "dns_try_send (Suc n) s fd p arr =
     (case net_send_udp_frame s fd p of
        (s1, rc) \<Rightarrow>
          (case poll_with s1 (arr (23 - n)) of
             None \<Rightarrow> None
           | Some s2 \<Rightarrow> if 0 < rc then Some (s2, True) else dns_try_send n s2 fd p arr))"

fun dns_wait_reply :: "nat \<Rightarrow> nstate \<Rightarrow> int \<Rightarrow> u32 \<Rightarrow> (nat \<Rightarrow> u8 list list) \<Rightarrow> (nstate \<times> bool) option" where
  "dns_wait_reply 0 s fd rx0 arr = Some (s, False)"
| "dns_wait_reply (Suc n) s fd rx0 arr =
     (case poll_with s (arr (24 + (239 - n))) of
        None \<Rightarrow> None
      | Some s1 \<Rightarrow> if sk_rx_head (sk s1 (nat fd)) - sk_rx_tail (sk s1 (nat fd)) \<noteq> rx0 then Some (s1, True)
                  else dns_wait_reply n s1 fd rx0 arr)"

definition dns_ask :: "nstate \<Rightarrow> int \<Rightarrow> u8 list \<Rightarrow> (nat \<Rightarrow> u8 list list) \<Rightarrow> (nstate \<times> bool) option" where
  "dns_ask s fd p arr =
     (let rx0 = sk_rx_head (sk s (nat fd)) - sk_rx_tail (sk s (nat fd))
      in if \<not> net_is_real_external (sk_remote_ip (sk s (nat fd))) then Some (s, False)
         else (case dns_try_send 24 s fd p arr of
             None \<Rightarrow> None
           | Some (s1, False) \<Rightarrow> Some (s1, False)
           | Some (s1, True) \<Rightarrow> dns_wait_reply 240 s1 fd rx0 arr))"

text \<open>The part of a datagram send after the ports are fixed; the number is what the call returns.\<close>

definition send_dgram_to :: "nstate \<Rightarrow> int \<Rightarrow> u8 list \<Rightarrow> u32 \<Rightarrow> (nat \<Rightarrow> u8 list list) \<Rightarrow> (nstate \<times> int) option" where
  "send_dgram_to s fd p sip arr =
     (let d = sk s (nat fd); len = int (length p)
      in if sock_ok s (sk_peer d) then Some (sock_push_udp s (nat (sk_peer d)) p sip (sk_local_port d))
         else if sk_remote_port d = 53
         then (case dns_ask s fd p arr of
             None \<Rightarrow> None
           | Some (s1, True) \<Rightarrow> Some (s1, len)
           | Some (s1, False) \<Rightarrow>
               (case sock_dns_reply s1 (nat fd) p of (s2, rc) \<Rightarrow> Some (s2, if rc < 0 then rc else len)))
         else if sock_is_loopback_ip (sk_remote_ip d)
         then (case sock_find_udp_bound s (sk_domain d) fd (sk_remote_ip d) (sk_remote_port d) of
             None \<Rightarrow> Some (s, len)
           | Some dst \<Rightarrow> Some (sock_push_udp s dst p sip (sk_local_port d)))
         else if net_is_real_external (sk_remote_ip d) then Some (fst (net_send_udp_frame s fd p), len)
         else Some (s, len))"

definition add_seq :: "nstate \<Rightarrow> int \<Rightarrow> int \<Rightarrow> nstate" where
  "add_seq s fd n = upd_sock s (nat fd) (\<lambda>d. d\<lparr> sk_tcp_seq := sk_tcp_seq d + of_int n \<rparr>)"

definition sock_send_dgram :: "nstate \<Rightarrow> int \<Rightarrow> u8 list \<Rightarrow> (nat \<Rightarrow> u8 list list) \<Rightarrow> (nstate \<times> int) option" where
  "sock_send_dgram s fd p arr =
     (if sk_remote_port (sk s (nat fd)) = 0 then Some (s, - ENOTCONN)
      else (let s1 = (if sk_local_port (sk s (nat fd)) = 0
                      then (case alloc_eph s of (s', e) \<Rightarrow> upd_sock s' (nat fd) (\<lambda>d. d\<lparr> sk_local_port := e \<rparr>)) else s);
                sip = (if sk_local_ip (sk s1 (nat fd)) \<noteq> 0 then sk_local_ip (sk s1 (nat fd))
                       else if sock_is_loopback_ip (sk_remote_ip (sk s1 (nat fd))) then 0x7F000001
                       else net_get_src_ip (ns_lease s1));
                s2 = upd_sock s1 (nat fd) (\<lambda>d. d\<lparr> sk_local_ip := sip \<rparr>)
            in case send_dgram_to s2 fd p sip arr of
                 None \<Rightarrow> None
               | Some (s3, rc) \<Rightarrow> if rc < 0 then Some (s3, rc) else Some (add_seq s3 fd rc, rc)))"

text \<open>A stream whose peer the kernel itself serves would enter one of its servers here.\<close>

definition enters_server :: "nstate \<Rightarrow> int \<Rightarrow> bool" where
  "enters_server s fd \<longleftrightarrow>
     (let d = sk s (nat fd)
      in sk_state d = TCP_ESTABLISHED \<and> \<not> sk_shutdown_tx d
         \<and> (if sock_ok s (sk_peer d)
            then \<not> sk_shutdown_rx (sk s (nat (sk_peer d))) \<and> sk_virt_service d \<in> {SOCK_VIRT_X11, SOCK_VIRT_WL}
            else sk_virt_service d \<noteq> SOCK_VIRT_NONE))"

definition sock_send :: "nstate \<Rightarrow> int \<Rightarrow> u8 list \<Rightarrow> (nat \<Rightarrow> u8 list list) \<Rightarrow> (nstate \<times> int) option" where
  "sock_send s fd p arr =
     (if \<not> sock_ok s fd then Some (s, - EBADF)
      else (let d = sk s (nat fd)
            in if sk_type d = 2 then sock_send_dgram s fd p arr
               else if net_is_real_external (sk_remote_ip d)
               then (if sk_state d \<noteq> TCP_ESTABLISHED then Some (s, - ENOTCONN)
                     else if sk_shutdown_tx d then Some (s, - EPIPE)
                     else (case tcp7_send s fd p of
                         None \<Rightarrow> None
                       | Some (s1, rc) \<Rightarrow> if rc < 0 then Some (s1, rc) else Some (add_seq s1 fd rc, rc)))
               else if enters_server s fd then None
               else Some (sock_send_stream s fd p)))"

definition add_ack :: "nstate \<Rightarrow> int \<Rightarrow> nat \<Rightarrow> nstate" where
  "add_ack s fd n = upd_sock s (nat fd) (\<lambda>d. d\<lparr> sk_tcp_ack := sk_tcp_ack d + of_nat n \<rparr>)"

text \<open>\<open>fs\<close> are the frames that have arrived; only a socket with a remote peer looks at them.\<close>

definition sock_recv :: "nstate \<Rightarrow> int \<Rightarrow> nat \<Rightarrow> bool \<Rightarrow> u8 list list \<Rightarrow> (nstate \<times> (int + u8 list)) option" where
  "sock_recv s0 fd cnt dontwait fs =
     (if \<not> sock_ok s0 fd then Some (s0, Inl (- EBADF))
      else (case (if net_is_real_external (sk_remote_ip (sk s0 (nat fd))) then poll_with s0 fs
                  else Some (s0\<lparr> ns_rxq := ns_rxq s0 @ fs \<rparr>)) of
          None \<Rightarrow> None
        | Some s \<Rightarrow>
            let d = sk s (nat fd)
            in if sk_type d = 2
               then (case sock_pop_udp d cnt dontwait of
                   (d1, Inl e) \<Rightarrow> Some (upd_sock s (nat fd) (\<lambda>_. d1), Inl e)
                 | (d1, Inr bs) \<Rightarrow> Some (add_ack (upd_sock s (nat fd) (\<lambda>_. d1)) fd (length bs), Inr bs))
               else if ring_used (sk_rx_head d) (sk_rx_tail d) = 0
               then Some (s, if sk_type d = 1 \<and> (sk_state d = TCP_CLOSED \<or> sk_shutdown_rx d) then Inr []
                             else if sk_non_blocking d \<or> dontwait then Inl (- EAGAIN) else Inr [])
               else (case rx_pop d cnt of
                   (d1, bs) \<Rightarrow> Some (add_ack (upd_sock s (nat fd) (\<lambda>_. d1)) fd (length bs), Inr bs))))"

definition tcp7_recv :: "nstate \<Rightarrow> int \<Rightarrow> nat \<Rightarrow> u8 list list \<Rightarrow> (nstate \<times> (int + u8 list)) option" where
  "tcp7_recv s fd cnt fs =
     (case tcp7_find s fd of
        None \<Rightarrow> Some (s, Inl (- ENOTCONN))
      | Some ti \<Rightarrow>
          (let st = tb_state (ns_tcb s ti)
           in if st \<notin> {TCP_ESTABLISHED, TCP_FIN_WAIT_1, TCP_FIN_WAIT_2, TCP_CLOSE_WAIT}
              then Some (s, if st = TCP_TIME_WAIT \<or> st = TCP_CLOSED then Inr [] else Inl (- ENOTCONN))
              else sock_recv s fd cnt False fs))"

definition sock_shutdown :: "nstate \<Rightarrow> int \<Rightarrow> int \<Rightarrow> nstate \<times> int" where
  "sock_shutdown s fd how =
     (if \<not> sock_ok s fd then (s, - EBADF)
      else if how < 0 \<or> 2 < how then (s, - EINVAL)
      else if sk_type (sk s (nat fd)) \<noteq> 1 then (s, - ENOTCONN)
      else (let s1 = (if how = 0 \<or> how = 2
                      then upd_sock s (nat fd) (\<lambda>d. d\<lparr> sk_shutdown_rx := True, sk_rx_tail := sk_rx_head d \<rparr>) else s);
                peer = sk_peer (sk s1 (nat fd));
                s2 = (if how = 1 \<or> how = 2
                      then (let s' = upd_sock s1 (nat fd) (\<lambda>d. d\<lparr> sk_shutdown_tx := True \<rparr>)
                            in if sock_ok s' peer \<and> sk_peer (sk s' (nat peer)) = fd
                               then upd_sock s' (nat peer) (\<lambda>p. p\<lparr> sk_shutdown_rx := True \<rparr>) else s')
                      else s1)
            in (s2\<lparr> ns_k := sock_wake_socket_sleepers (ns_k s2) \<rparr>, 0)))"

definition sock_setsockopt :: "nstate \<Rightarrow> int \<Rightarrow> int" where
  "sock_setsockopt s fd = (if \<not> sock_ok s fd then - EBADF else 0)"

subsection \<open>Closing ends\<close>

text \<open>\<open>closed_by s s'\<close>: each slot is as it was, as far as closing looks at it, or zeroed together with
  every connection that was waiting in it and its connection blocks.\<close>

definition close_view :: "socket \<Rightarrow> bool \<times> int \<times> nat \<times> (nat \<Rightarrow> int) \<times> nat \<times> nat" where
  "close_view d = (sk_used d, sk_type d, sk_virt_service d, sk_accept_q d, sk_accept_head d, sk_accept_tail d)"

definition gone :: "nstate \<Rightarrow> nstate \<Rightarrow> nat \<Rightarrow> bool" where
  "gone s s' j \<longleftrightarrow> close_view (sk s' j) = close_view zero_socket \<and> (\<forall>q \<in> set (accept_abs (sk s j)). \<not> sock_ok s' q)
     \<and> (sk_type (sk s j) = 1 \<longrightarrow> (\<forall>ti < TCP7_MAX_CONNECTIONS. tb_fd (ns_tcb s' ti) \<noteq> int j))"

definition closed_by :: "nstate \<Rightarrow> nstate \<Rightarrow> bool" where
  "closed_by s s' \<longleftrightarrow> (\<forall>j. close_view (sk s' j) = close_view (sk s j) \<or> gone s s' j)
     \<and> (\<forall>ti. tb_fd (ns_tcb s' ti) = tb_fd (ns_tcb s ti) \<or> tb_fd (ns_tcb s' ti) = - 1)"

definition close_ok :: "nstate \<Rightarrow> bool" where
  "close_ok s \<longleftrightarrow> (\<forall>j. accept_inv (sk s j) \<and> \<not> kernel_served (sk s j))"

definition queued :: "nstate \<Rightarrow> nat" where
  "queued s = sum_list (map (\<lambda>j. length (accept_abs (sk s j))) [0..<SOCK_MAX])"

lemma accept_abs_zero [simp]: "accept_abs zero_socket = []"
  by (simp add: zero_socket_def circ_def SOCK_ACCEPTQ_def)

lemma close_view_eq:
  assumes "close_view d = close_view d'"
  shows "sk_used d = sk_used d'" "sk_type d = sk_type d'" "accept_abs d = accept_abs d'"
    "accept_inv d = accept_inv d'" "kernel_served d = kernel_served d'"
  using assms by (auto simp: close_view_def accept_inv_def kernel_served_def)

lemma sock_ok_cong: "(\<And>j. sk_used (sk s' j) \<Longrightarrow> sk_used (sk s j)) \<Longrightarrow> sock_ok s' q \<Longrightarrow> sock_ok s q"
  by (auto simp: sock_ok_def)

lemma zero_close: "\<not> sk_used zero_socket" "accept_inv zero_socket" "\<not> kernel_served zero_socket"
  by (simp_all add: zero_socket_def accept_inv_def kernel_served_def SOCK_ACCEPTQ_def virt_defs)

lemma closed_by_cases:
  assumes "closed_by s s'"
  obtains "close_view (sk s' j) = close_view (sk s j)" | "close_view (sk s' j) = close_view zero_socket" "gone s s' j"
  using assms unfolding closed_by_def gone_def by blast

lemma closed_by_used: "closed_by s s' \<Longrightarrow> sk_used (sk s' j) \<Longrightarrow> sk_used (sk s j)"
  by (erule closed_by_cases [of s s' j]) (auto dest: close_view_eq(1) simp: zero_close)

lemma closed_by_sock_ok: "closed_by s s' \<Longrightarrow> sock_ok s' q \<Longrightarrow> sock_ok s q"
  by (rule sock_ok_cong [OF closed_by_used])

lemma closed_by_close_ok: "closed_by s s' \<Longrightarrow> close_ok s \<Longrightarrow> close_ok s'"
  unfolding close_ok_def
proof
  fix j
  assume "closed_by s s'" "\<forall>j. accept_inv (sk s j) \<and> \<not> kernel_served (sk s j)"
  then show "accept_inv (sk s' j) \<and> \<not> kernel_served (sk s' j)"
    by (elim closed_by_cases [of s s' j]) (auto dest: close_view_eq(4,5) simp: zero_close)
qed

lemma closed_by_queued: "closed_by s s' \<Longrightarrow> queued s' \<le> queued s"
proof -
  assume c: "closed_by s s'"
  have "length (accept_abs (sk s' j)) \<le> length (accept_abs (sk s j))" for j
  proof (rule closed_by_cases [OF c, of j])
    assume "close_view (sk s' j) = close_view (sk s j)"
    then have "accept_abs (sk s' j) = accept_abs (sk s j)" by (rule close_view_eq(3))
    then show ?thesis by (simp only: order_refl)
  next
    assume "close_view (sk s' j) = close_view zero_socket"
    then have "accept_abs (sk s' j) = accept_abs zero_socket" by (rule close_view_eq(3))
    then show ?thesis by (simp only: accept_abs_zero list.size le0)
  qed
  then show ?thesis unfolding queued_def by (intro sum_list_mono)
qed

lemma tb_fd_gone:
  "\<forall>ti. tb_fd (ns_tcb s' ti) = tb_fd (ns_tcb s ti) \<or> tb_fd (ns_tcb s' ti) = - 1
   \<Longrightarrow> tb_fd (ns_tcb s ti) \<noteq> int j \<Longrightarrow> tb_fd (ns_tcb s' ti) \<noteq> int j"
  by (drule spec [of _ ti]) auto

lemma gone_mono:
  assumes "closed_by s1 s2" and "gone s s1 j"
  shows "gone s s2 j"
proof -
  have "close_view (sk s2 j) = close_view zero_socket"
    by (rule closed_by_cases [OF assms(1), of j]) (use assms(2) in \<open>simp_all add: gone_def\<close>)
  moreover have "tb_fd (ns_tcb s1 ti) \<noteq> int j \<Longrightarrow> tb_fd (ns_tcb s2 ti) \<noteq> int j" for ti
    by (rule tb_fd_gone [of s2 s1]) (use assms(1) in \<open>auto simp: closed_by_def\<close>)
  ultimately show ?thesis
    using assms(2) closed_by_sock_ok [OF assms(1)] unfolding gone_def by blast
qed

lemma closed_by_trans:
  assumes "closed_by s s1" and "closed_by s1 s2"
  shows "closed_by s s2"
proof -
  have "close_view (sk s2 j) = close_view (sk s j) \<or> gone s s2 j" for j
  proof (rule closed_by_cases [OF assms(1), of j])
    assume v: "close_view (sk s1 j) = close_view (sk s j)"
    show ?thesis
    proof (rule closed_by_cases [OF assms(2), of j])
      assume "gone s1 s2 j"
      then show ?thesis using close_view_eq(2,3) [OF v] by (simp add: gone_def)
    qed (use v in simp)
  qed (use gone_mono [OF assms(2)] in blast)
  moreover have "tb_fd (ns_tcb s2 ti) = tb_fd (ns_tcb s ti) \<or> tb_fd (ns_tcb s2 ti) = - 1" for ti
    using assms unfolding closed_by_def by metis
  ultimately show ?thesis unfolding closed_by_def by blast
qed

lemma close_finish_spec:
  assumes "0 \<le> fd" and "accept_abs (sk s (nat fd)) = []"
  shows "closed_by s (close_finish s fd)" and "sk (close_finish s fd) (nat fd) = zero_socket"
    and "gone s (close_finish s fd) (nat fd)"
proof -
  let ?s = "close_finish s fd"
  show z: "sk ?s (nat fd) = zero_socket" by (simp add: close_finish_def Let_def)
  have v: "close_view (sk ?s j) = close_view (sk s j)" if "j \<noteq> nat fd" for j
    using that by (simp add: close_finish_def Let_def tcp7_drop_socket_def close_view_def)
  have t: "tb_fd (ns_tcb ?s ti) = tb_fd (ns_tcb s ti) \<or> tb_fd (ns_tcb ?s ti) = - 1" for ti
    by (simp add: close_finish_def Let_def tcp7_drop_socket_def tcp7_release_tcb_def)
  have "tb_fd (ns_tcb ?s ti) \<noteq> fd" if "sk_type (sk s (nat fd)) = 1" "ti < TCP7_MAX_CONNECTIONS" for ti
    using that assms(1) by (simp add: close_finish_def Let_def tcp7_drop_socket_def tcp7_release_tcb_def)
  then show g: "gone s ?s (nat fd)" using z assms unfolding gone_def by (simp del: One_nat_def)
  show "closed_by s ?s" unfolding closed_by_def using v g t by metis
qed

text \<open>Taking the oldest waiting connection off the queue.\<close>

definition advance :: "nstate \<Rightarrow> int \<Rightarrow> nstate" where
  "advance s fd = upd_sock s (nat fd) (\<lambda>d. d\<lparr> sk_accept_tail := (sk_accept_tail d + 1) mod SOCK_ACCEPTQ \<rparr>)"

lemma advance_spec:
  assumes "close_ok s" and "0 \<le> fd" "fd < int SOCK_MAX"
    and "sk_accept_head (sk s (nat fd)) \<noteq> sk_accept_tail (sk s (nat fd))"
  shows "accept_abs (sk s (nat fd)) = sk_accept_q (sk s (nat fd)) (sk_accept_tail (sk s (nat fd))) # accept_abs (sk (advance s fd) (nat fd))"
    and "close_ok (advance s fd)" and "queued (advance s fd) < queued s"
    and "\<And>j. j \<noteq> nat fd \<Longrightarrow> sk (advance s fd) j = sk s j" and "ns_tcb (advance s fd) = ns_tcb s"
    and "sk_type (sk (advance s fd) (nat fd)) = sk_type (sk s (nat fd))"
proof -
  let ?d = "sk s (nat fd)" and ?s1 = "advance s fd"
  have hd: "sk_accept_head ?d < SOCK_ACCEPTQ" "sk_accept_tail ?d < SOCK_ACCEPTQ"
    using assms(1) by (simp_all add: close_ok_def accept_inv_def)
  show p: "accept_abs ?d = sk_accept_q ?d (sk_accept_tail ?d) # accept_abs (sk ?s1 (nat fd))"
    using circ_pop [OF hd assms(4), of "sk_accept_q ?d"] by (simp add: advance_def)
  show o: "\<And>j. j \<noteq> nat fd \<Longrightarrow> sk ?s1 j = sk s j" by (simp add: advance_def)
  show "ns_tcb ?s1 = ns_tcb s" "sk_type (sk ?s1 (nat fd)) = sk_type ?d" by (simp_all add: advance_def)
  show "close_ok ?s1" using assms(1) by (simp add: close_ok_def advance_def accept_inv_def kernel_served_def SOCK_ACCEPTQ_def)
  have fd: "nat fd \<in> {0..<SOCK_MAX}" using assms(2,3) by auto
  have lt: "length (accept_abs (sk ?s1 (nat fd))) < length (accept_abs ?d)" unfolding p by simp
  have "length (accept_abs (sk ?s1 j)) \<le> length (accept_abs (sk s j))" for j
    using lt o by (cases "j = nat fd") (simp_all del: length_circ)
  then have "(\<Sum>j = 0..<SOCK_MAX. length (accept_abs (sk ?s1 j))) < (\<Sum>j = 0..<SOCK_MAX. length (accept_abs (sk s j)))"
    using lt fd by (intro sum_strict_mono_ex1) (auto simp del: length_circ)
  then show "queued ?s1 < queued s" unfolding queued_def by (simp add: interv_sum_list_conv_sum_set_nat)
qed

lemma closed_by_advance:
  assumes "close_ok s" and "0 \<le> fd" "fd < int SOCK_MAX"
    and ne: "sk_accept_head (sk s (nat fd)) \<noteq> sk_accept_tail (sk s (nat fd))"
    and c: "closed_by (advance s fd) s'" and g: "gone (advance s fd) s' (nat fd)"
    and q: "\<not> sock_ok s' (sk_accept_q (sk s (nat fd)) (sk_accept_tail (sk s (nat fd))))"
  shows "closed_by s s' \<and> gone s s' (nat fd)"
proof -
  note a = advance_spec [OF assms(1-3) ne]
  have gf: "gone s s' (nat fd)"
    using g q unfolding gone_def a(1) a(6) by simp
  have "close_view (sk s' j) = close_view (sk s j) \<or> gone s s' j" for j
  proof (cases "j = nat fd")
    case False
    then have e: "sk (advance s fd) j = sk s j" by (rule a(4))
    have "close_view (sk s' j) = close_view (sk (advance s fd) j) \<or> gone (advance s fd) s' j"
      using c unfolding closed_by_def by blast
    then show ?thesis unfolding gone_def e .
  qed (use gf in simp)
  then show ?thesis using gf c a(5) unfolding closed_by_def by simp
qed

theorem close_drain_total:
  "close_ok s \<Longrightarrow> 0 \<le> fd \<Longrightarrow> fd < int SOCK_MAX \<Longrightarrow>
   \<exists>s'. close_drain s fd = Some s' \<and> closed_by s s' \<and> sk s' (nat fd) = zero_socket \<and> gone s s' (nat fd)"
proof (induction "queued s" arbitrary: s fd rule: less_induct)
  case less
  let ?d = "sk s (nat fd)" and ?s1 = "advance s fd"
  let ?q = "sk_accept_q ?d (sk_accept_tail ?d)"
  show ?case
  proof (cases "sk_accept_head ?d = sk_accept_tail ?d")
    case True
    then have "accept_abs ?d = []"
      using less.prems(1) by (simp add: circ_Nil_iff close_ok_def accept_inv_def)
    then show ?thesis using True close_finish_spec [OF less.prems(2)] by (subst close_drain.simps) (simp add: Let_def)
  next
    case False
    note a = advance_spec [OF less.prems False]
    note adv = closed_by_advance [OF less.prems False]
    show ?thesis
    proof (cases "sock_ok ?s1 ?q")
      case nq: False
      obtain s' where s': "close_drain ?s1 fd = Some s'" "closed_by ?s1 s'" "sk s' (nat fd) = zero_socket" "gone ?s1 s' (nat fd)"
        using less.hyps [OF a(3,2) less.prems(2,3)] by blast
      have "close_drain s fd = Some s'"
        using False nq s'(1) by (subst close_drain.simps) (simp add: Let_def advance_def)
      then show ?thesis using adv [OF s'(2,4)] s'(3) nq closed_by_sock_ok [OF s'(2)] by blast
    next
      case qok: True
      then have qr: "0 \<le> ?q" "?q < int SOCK_MAX" by (simp_all add: sock_ok_def)
      obtain s2 where s2: "close_drain ?s1 ?q = Some s2" "closed_by ?s1 s2" "sk s2 (nat ?q) = zero_socket"
        using less.hyps [OF a(3,2) qr] by blast
      have "queued s2 < queued s" using closed_by_queued [OF s2(2)] a(3) by simp
      from less.hyps [OF this closed_by_close_ok [OF s2(2) a(2)] less.prems(2,3)]
      obtain s' where s': "close_drain s2 fd = Some s'" "closed_by s2 s'" "sk s' (nat fd) = zero_socket" "gone s2 s' (nat fd)"
        by blast
      have "\<not> close_tells_server ?s1 ?q"
        using a(2) by (auto simp: close_ok_def close_tells_server_def kernel_served_def)
      then have e: "close_drain s fd = Some s'"
        using False qok s2(1) s'(1) by (subst close_drain.simps) (simp add: Let_def advance_def)
      have c: "closed_by ?s1 s'" by (rule closed_by_trans [OF s2(2) s'(2)])
      have g: "gone ?s1 s' (nat fd)"
      proof (rule closed_by_cases [OF s2(2), of "nat fd"])
        assume "close_view (sk s2 (nat fd)) = close_view (sk ?s1 (nat fd))"
        from close_view_eq(2,3) [OF this] show ?thesis using s'(4) unfolding gone_def by simp
      qed (rule gone_mono [OF s'(2)])
      have "\<not> sock_ok s2 ?q" using s2(3) by (simp add: sock_ok_def zero_close)
      then have "\<not> sock_ok s' ?q" using closed_by_sock_ok [OF s'(2)] by blast
      then show ?thesis using adv [OF c g] e s'(3) by blast
    qed
  qed
qed

end
