(* ===== verification/KSockLocal.thy ===== *)
theory KSockLocal
  imports KSockApi
begin

text \<open>
  Connections between two sockets of this machine: what a connect to a local listener leaves, what passes
  between the two ends, socket pairs, and the closing of an end.
\<close>

subsection \<open>Local connections\<close>

text \<open>Two stream sockets of this machine that are each other's peer.\<close>

definition half :: "nstate \<Rightarrow> int \<Rightarrow> int \<Rightarrow> bool" where
  "half s a b \<longleftrightarrow> sock_ok s a \<and> sk_type (sk s (nat a)) = 1 \<and> sk_state (sk s (nat a)) = TCP_ESTABLISHED
     \<and> sk_peer (sk s (nat a)) = b \<and> \<not> net_is_real_external (sk_remote_ip (sk s (nat a)))
     \<and> sk_virt_service (sk s (nat a)) = SOCK_VIRT_NONE \<and> \<not> sk_shutdown_tx (sk s (nat a))
     \<and> \<not> sk_shutdown_rx (sk s (nat a)) \<and> rx_ok (sk s (nat a))"

definition linked :: "nstate \<Rightarrow> int \<Rightarrow> int \<Rightarrow> bool" where
  "linked s a b \<longleftrightarrow> a \<noteq> b \<and> half s a b \<and> half s b a"

lemma linked_sym: "linked s a b \<Longrightarrow> linked s b a"
  by (auto simp: linked_def)

lemma linked_nat: "linked s a b \<Longrightarrow> nat a \<noteq> nat b"
  by (auto simp: linked_def half_def sock_ok_def)

lemma send_linked:
  fixes data :: "u8 list"
  assumes "linked s a b"
  defines "n \<equiv> min (length data) (SOCK_BUF_SIZE - length (rx_abs (sk s (nat b))))"
  shows "\<exists>s'. sock_send s a data arr = Some (s', int n) \<and> linked s' a b
     \<and> rx_abs (sk s' (nat b)) = rx_abs (sk s (nat b)) @ take n data \<and> rx_abs (sk s' (nat a)) = rx_abs (sk s (nat a))"
proof -
  have ab: "half s a b" "half s b a" "a \<noteq> b" and nn: "nat a \<noteq> nat b"
    using assms(1) linked_nat by (auto simp: linked_def)
  have ok: "sock_ok s a" "sock_ok s b" "sk_peer (sk s (nat a)) = b" "sk_shutdown_rx (sk s (nat b)) = False"
    "sk_state (sk s (nat a)) = TCP_ESTABLISHED" "\<not> sk_shutdown_tx (sk s (nat a))" using ab by (auto simp: half_def)
  have rx: "rx_ok (sk s (nat b))" using ab by (simp add: half_def)
  obtain bf h where p: "rx_push (sk s (nat b)) data = ((sk s (nat b))\<lparr> sk_rx_buf := bf, sk_rx_head := h \<rparr>, n)"
    and r: "ring_abs bf h (sk_rx_tail (sk s (nat b))) = rx_abs (sk s (nat b)) @ take n data" "ring_ok h (sk_rx_tail (sk s (nat b)))"
    using rx_push_spec [OF rx, of data] unfolding n_def by (auto simp: min_def)
  obtain s1 where s1: "sock_push_rx s (nat b) data = (s1, n)"
    using p by (auto simp: sock_push_rx_def Let_def)
  note k = sock_push_rx_sock [OF s1]
  define s' where "s' = upd_sock s1 (nat a) (\<lambda>d. d\<lparr> sk_tcp_seq := sk_tcp_seq d + of_nat n \<rparr>)"
  have st: "sock_send_stream s a data = (s', int n)"
    using ok s1 by (simp add: sock_send_stream_def Let_def s'_def)
  have "\<not> enters_server s a" using ab ok by (simp add: enters_server_def Let_def half_def virt_defs)
  then have e: "sock_send s a data arr = Some (s', int n)"
    using ab st by (simp add: sock_send_def Let_def half_def)
  have ka: "sk s' (nat a) = (sk s (nat a))\<lparr> sk_tcp_seq := sk_tcp_seq (sk s (nat a)) + of_nat n \<rparr>"
    using k [of "nat a"] nn by (simp add: s'_def)
  have kb: "sk s' (nat b) = (sk s (nat b))\<lparr> sk_rx_buf := bf, sk_rx_head := h \<rparr>"
    using k [of "nat b"] nn p by (simp add: s'_def)
  have "linked s' a b" using ab r(2) unfolding linked_def half_def sock_ok_def ka kb by simp
  moreover have "rx_abs (sk s' (nat a)) = rx_abs (sk s (nat a))" "rx_abs (sk s' (nat b)) = rx_abs (sk s (nat b)) @ take n data"
    using r(1) unfolding ka kb by simp_all
  ultimately show ?thesis using e by blast
qed

lemma recv_linked:
  assumes "linked s a b" and "rx_abs (sk s (nat a)) \<noteq> []"
  shows "\<exists>s'. sock_recv s a cnt dontwait fs = Some (s', Inr (take cnt (rx_abs (sk s (nat a))))) \<and> linked s' a b
     \<and> rx_abs (sk s' (nat a)) = drop cnt (rx_abs (sk s (nat a))) \<and> rx_abs (sk s' (nat b)) = rx_abs (sk s (nat b))"
proof -
  have ab: "half s a b" "half s b a" "a \<noteq> b" and nn: "nat a \<noteq> nat b"
    using assms(1) linked_nat by (auto simp: linked_def)
  have rx: "rx_ok (sk s (nat a))" using ab by (simp add: half_def)
  obtain t where p: "rx_pop (sk s (nat a)) cnt = ((sk s (nat a))\<lparr> sk_rx_tail := t \<rparr>, take cnt (rx_abs (sk s (nat a))))"
    and r: "ring_abs (sk_rx_buf (sk s (nat a))) (sk_rx_head (sk s (nat a))) t = drop cnt (rx_abs (sk s (nat a)))"
      "ring_ok (sk_rx_head (sk s (nat a))) t"
    using rx_pop_spec [OF rx, of cnt] by blast
  let ?s0 = "s\<lparr> ns_rxq := ns_rxq s @ fs \<rparr>" and ?bs = "take cnt (rx_abs (sk s (nat a)))"
  define s' where "s' = add_ack (upd_sock ?s0 (nat a) (\<lambda>_. (sk s (nat a))\<lparr> sk_rx_tail := t \<rparr>)) a (length ?bs)"
  have "ring_used (sk_rx_head (sk s (nat a))) (sk_rx_tail (sk s (nat a))) \<noteq> 0"
    using assms(2) unfolding ring_used_ok [OF rx] by (metis length_0_conv length_ring_abs)
  then have e: "sock_recv s a cnt dontwait fs = Some (s', Inr ?bs)"
    using ab p by (simp add: sock_recv_def half_def Let_def s'_def)
  have ka: "sk s' (nat a) = (sk s (nat a))\<lparr> sk_rx_tail := t, sk_tcp_ack := sk_tcp_ack (sk s (nat a)) + of_nat (length ?bs) \<rparr>"
    by (simp add: s'_def add_ack_def)
  have kb: "sk s' (nat b) = sk s (nat b)" using nn by (simp add: s'_def add_ack_def)
  have "linked s' a b" using ab r(2) unfolding linked_def half_def sock_ok_def ka kb by simp
  moreover have "rx_abs (sk s' (nat a)) = drop cnt (rx_abs (sk s (nat a)))" "rx_abs (sk s' (nat b)) = rx_abs (sk s (nat b))"
    using r(1) unfolding ka kb by simp_all
  ultimately show ?thesis using e by blast
qed

subsection \<open>Connecting to a listener of this machine\<close>

lemma connect_prepare_spec:
  assumes "0 \<le> fd"
  shows "\<And>j. j \<noteq> nat fd \<Longrightarrow> sk (connect_prepare s fd addr port) j = sk s j"
    and "\<exists>ip p. sk (connect_prepare s fd addr port) (nat fd) = (sk s (nat fd))\<lparr> sk_remote_ip := addr, sk_remote_port := port,
           sk_virt_service := sock_virtual_classify addr port, sk_local_ip := ip, sk_local_port := p \<rparr>
         \<and> (sock_is_loopback_ip addr \<longrightarrow> ip = (if sk_local_ip (sk s (nat fd)) = 0 then 0x7F000001 else sk_local_ip (sk s (nat fd))))
         \<and> p = (if sk_local_port (sk s (nat fd)) = 0 then ns_eph s else sk_local_port (sk s (nat fd)))"
    and "ns_k (connect_prepare s fd addr port) = ns_k s" "ns_tcb (connect_prepare s fd addr port) = ns_tcb s"
proof -
  let ?e = "(if sk_local_port (sk s (nat fd)) = 0 then ns_eph s else sk_local_port (sk s (nat fd)))"
  let ?i = "(if sk_local_ip (sk s (nat fd)) = 0 then if sock_is_loopback_ip addr then 0x7F000001 else net_get_src_ip (ns_lease s)
             else sk_local_ip (sk s (nat fd)))"
  show "\<And>j. j \<noteq> nat fd \<Longrightarrow> sk (connect_prepare s fd addr port) j = sk s j"
    "ns_k (connect_prepare s fd addr port) = ns_k s" "ns_tcb (connect_prepare s fd addr port) = ns_tcb s"
    by (simp_all add: connect_prepare_def Let_def alloc_eph_def)
  have "sk (connect_prepare s fd addr port) (nat fd) = (sk s (nat fd))\<lparr> sk_remote_ip := addr, sk_remote_port := port,
      sk_virt_service := sock_virtual_classify addr port, sk_local_ip := ?i, sk_local_port := ?e \<rparr>"
    by (simp add: connect_prepare_def Let_def alloc_eph_def)
  then show "\<exists>ip p. sk (connect_prepare s fd addr port) (nat fd) = (sk s (nat fd))\<lparr> sk_remote_ip := addr, sk_remote_port := port,
           sk_virt_service := sock_virtual_classify addr port, sk_local_ip := ip, sk_local_port := p \<rparr>
         \<and> (sock_is_loopback_ip addr \<longrightarrow> ip = (if sk_local_ip (sk s (nat fd)) = 0 then 0x7F000001 else sk_local_ip (sk s (nat fd))))
         \<and> p = ?e"
    by (intro exI [of _ ?i] exI [of _ ?e]) simp
qed

lemma find_cong_pred: "(\<And>x. x \<in> set xs \<Longrightarrow> P x = Q x) \<Longrightarrow> find P xs = find Q xs"
  by (induction xs) auto

text \<open>What a client must be for a local connection.\<close>

definition client_ok :: "nstate \<Rightarrow> int \<Rightarrow> bool" where
  "client_ok s fd \<longleftrightarrow> sock_ok s fd \<and> sk_domain (sk s (nat fd)) \<in> {1, 2, 16} \<and> sk_type (sk s (nat fd)) = 1
     \<and> sk_state (sk s (nat fd)) \<notin> {TCP_ESTABLISHED, TCP_LISTEN} \<and> sock_is_loopback_ip (sk_local_ip (sk s (nat fd)))
     \<and> \<not> sk_shutdown_tx (sk s (nat fd)) \<and> \<not> sk_shutdown_rx (sk s (nat fd)) \<and> rx_ok (sk s (nat fd))"

lemma sock_create_stream:
  assumes "domain \<in> {1, 2, 16}" and "find (\<lambda>i. \<not> sk_used (sk s i)) [0..<SOCK_MAX] = Some n"
  shows "\<exists>p. sock_create s domain 1 protocol = (upd_sock (tcp7_drop_socket s (int n)) n (\<lambda>_. zero_socket\<lparr> sk_used := True,
     sk_domain := domain, sk_type := 1, sk_protocol := p, sk_peer := - 1, sk_state := TCP_CLOSED, sk_tcp_window := 65535 \<rparr>), int n)"
  using assms by (intro exI [of _ "if domain = 2 \<and> protocol = 0 then 6 else protocol"]) (auto simp: sock_create_def Let_def)

lemma tcp7_drop_fields [simp]: "ns_sock (tcp7_drop_socket s fd) = ns_sock s" "ns_k (tcp7_drop_socket s fd) = ns_k s"
  by (simp_all add: tcp7_drop_socket_def)

lemma not_external_loopback: "sock_is_loopback_ip ip \<Longrightarrow> \<not> net_is_real_external ip"
  by (auto simp: sock_is_loopback_ip_def net_is_real_external_def)

definition accept_room :: "socket \<Rightarrow> bool" where
  "accept_room l \<longleftrightarrow> length (accept_abs l) < 15 \<and> (sk_backlog l \<le> 0 \<or> int (length (accept_abs l)) < sk_backlog l)"

lemma acceptq_push_room:
  assumes "accept_inv (sk s i)" and "accept_room (sk s i)" and "sock_acceptq_push s i q = (s', r)"
  shows "r = 0" and "accept_abs (sk s' i) = accept_abs (sk s i) @ [q]" and "accept_inv (sk s' i)"
    and "\<And>j. j \<noteq> i \<Longrightarrow> sk s' j = sk s j"
    and "sk s' i = (sk s i)\<lparr> sk_accept_q := (sk_accept_q (sk s i))(sk_accept_head (sk s i) := q),
           sk_accept_head := (sk_accept_head (sk s i) + 1) mod SOCK_ACCEPTQ \<rparr>"
proof -
  note p = acceptq_push_refines [OF assms(1,3), unfolded if_P [OF assms(2) [unfolded accept_room_def]]]
  show r: "r = 0" and "accept_abs (sk s' i) = accept_abs (sk s i) @ [q]" and "accept_inv (sk s' i)" using p by simp_all
  show "\<And>j. j \<noteq> i \<Longrightarrow> sk s' j = sk s j"
    and "sk s' i = (sk s i)\<lparr> sk_accept_q := (sk_accept_q (sk s i))(sk_accept_head (sk s i) := q),
           sk_accept_head := (sk_accept_head (sk s i) + 1) mod SOCK_ACCEPTQ \<rparr>"
    using assms(3) r by (auto simp: sock_acceptq_push_def Let_def EAGAIN_def split: if_splits)
qed

text \<open>The state in which \<open>connect_local\<close> offers the new socket \<open>n\<close> to the listener.\<close>

lemma connect_local_offer:
  assumes dom: "sk_domain (sk s (nat fd)) \<in> {1, 2, 16}" and free: "find (\<lambda>i. \<not> sk_used (sk s i)) [0..<SOCK_MAX] = Some n"
    and ok: "sock_ok s fd" and l: "sk_used (sk s l)" "l \<noteq> nat fd"
  shows "\<exists>s3. connect_local s fd l addr = (case sock_acceptq_push s3 l (int n) of (s4, rc) \<Rightarrow>
         if rc < 0 then (case sock_close (upd_sock s4 (nat fd) (\<lambda>d. d\<lparr> sk_peer := - 1, sk_state := TCP_CLOSED \<rparr>)) (int n) of
             None \<Rightarrow> None | Some (s5, _) \<Rightarrow> Some (s5, rc))
         else Some (s4, 0))
     \<and> sk s3 (nat fd) = (sk s (nat fd))\<lparr> sk_peer := int n, sk_state := TCP_ESTABLISHED, sk_tcp_seq := 1, sk_tcp_ack := 1, sk_tcp_window := 65535 \<rparr>
     \<and> (\<exists>p ip. sk s3 n = zero_socket\<lparr> sk_used := True, sk_domain := sk_domain (sk s (nat fd)), sk_type := 1, sk_protocol := p, sk_peer := fd,
          sk_state := TCP_ESTABLISHED, sk_local_ip := ip, sk_local_port := sk_local_port (sk s l),
          sk_remote_ip := (if sk_local_ip (sk s (nat fd)) \<noteq> 0 then sk_local_ip (sk s (nat fd)) else 0x7F000001),
          sk_remote_port := sk_local_port (sk s (nat fd)), sk_tcp_seq := 1, sk_tcp_ack := 1, sk_tcp_window := 65535 \<rparr>)
     \<and> (\<forall>j. j \<noteq> nat fd \<longrightarrow> j \<noteq> n \<longrightarrow> sk s3 j = sk s j)"
proof -
  obtain p where c: "sock_create s (sk_domain (sk s (nat fd))) 1 (sk_protocol (sk s (nat fd)))
      = (upd_sock (tcp7_drop_socket s (int n)) n (\<lambda>_. zero_socket\<lparr> sk_used := True, sk_domain := sk_domain (sk s (nat fd)), sk_type := 1,
           sk_protocol := p, sk_peer := - 1, sk_state := TCP_CLOSED, sk_tcp_window := 65535 \<rparr>), int n)"
    using sock_create_stream [OF dom free] by blast
  have n: "n < SOCK_MAX" "\<not> sk_used (sk s n)" using free by (auto simp: find_Some_iff)
  then have nn: "n \<noteq> nat fd" "n \<noteq> l" "nat fd \<noteq> n" "l \<noteq> n" using ok l by (auto simp: sock_ok_def)
  show ?thesis
    by (rule exI [of _ "connect_offer (fst (sock_create s (sk_domain (sk s (nat fd))) 1 (sk_protocol (sk s (nat fd))))) fd (int n) l addr"])
      (use nn l in \<open>auto simp: connect_local_def c connect_offer_def set_established_def zero_socket_def SOCK_VIRT_NONE_def Let_def\<close>)
qed

text \<open>The state in which a local connect looks for its listener, and what the search finds there.\<close>

lemma sock_connect_local:
  assumes c: "client_ok s fd" and lo: "sock_is_loopback_ip addr"
    and l: "sock_find_listener s (sk_domain (sk s (nat fd))) addr port = Some l"
    and free: "find (\<lambda>i. \<not> sk_used (sk s i)) [0..<SOCK_MAX] = Some n"
  shows "\<exists>s2. sock_connect s fd addr port isn arr clk = connect_local s2 fd l addr \<and> client_ok s2 fd
     \<and> sk_virt_service (sk s2 (nat fd)) = SOCK_VIRT_NONE \<and> sock_is_loopback_ip (sk_remote_ip (sk s2 (nat fd)))
     \<and> sk_local_ip (sk s2 (nat fd)) \<noteq> 0
     \<and> find (\<lambda>i. \<not> sk_used (sk s2 i)) [0..<SOCK_MAX] = Some n
     \<and> (\<forall>j. j \<noteq> nat fd \<longrightarrow> sk s2 j = sk s j) \<and> l \<noteq> nat fd \<and> sk_used (sk s l) \<and> sk_state (sk s l) = TCP_LISTEN \<and> l < SOCK_MAX"
proof -
  have fd: "0 \<le> fd" and st: "sk_state (sk s (nat fd)) \<noteq> TCP_LISTEN" "sk_state (sk s (nat fd)) \<noteq> TCP_ESTABLISHED"
    "sk_type (sk s (nat fd)) = 1" "sock_ok s fd" using c by (auto simp: client_ok_def sock_ok_def)
  let ?s1 = "connect_prepare s fd addr port"
  note p = connect_prepare_spec [OF fd, where s = s and addr = addr and port = port]
  obtain ip pt where k: "sk ?s1 (nat fd) = (sk s (nat fd))\<lparr> sk_remote_ip := addr, sk_remote_port := port,
           sk_virt_service := sock_virtual_classify addr port, sk_local_ip := ip, sk_local_port := pt \<rparr>"
    "ip = (if sk_local_ip (sk s (nat fd)) = 0 then 0x7F000001 else sk_local_ip (sk s (nat fd)))"
    using p(2) lo by blast
  have lp: "sock_is_loopback_ip ip" using c unfolding k(2) by (auto simp: client_ok_def sock_is_loopback_ip_def)
  have "listener_matches (sk ?s1 i) d addr port = listener_matches (sk s i) d addr port" for i d
    using p(1) [of i] k(1) st(1) by (cases "i = nat fd") (simp_all add: listener_matches_def)
  then have l1: "sock_find_listener ?s1 d addr port = sock_find_listener s d addr port" for d
    unfolding sock_find_listener_def by simp
  let ?s2 = "upd_sock ?s1 (nat fd) (\<lambda>d. d\<lparr> sk_virt_service := SOCK_VIRT_NONE \<rparr>)"
  have "sock_connect s fd addr port isn arr clk = connect_local ?s2 fd l addr"
    using st lo l k(1) by (simp add: sock_connect_def Let_def l1)
  moreover have "client_ok ?s2 fd" using c lp by (simp add: client_ok_def k sock_ok_def)
  moreover have "sk_used (sk ?s2 i) = sk_used (sk s i)" for i
    using p(1) [of i] k(1) by (cases "i = nat fd") simp_all
  moreover have "ip \<noteq> 0" unfolding k(2) by simp
  moreover have "l < SOCK_MAX" "listener_matches (sk s l) (sk_domain (sk s (nat fd))) addr port"
    using l unfolding sock_find_listener_def by (auto simp: find_Some_iff)
  ultimately show ?thesis
    using free p(1) k(1) lo st(1) by (intro exI [of _ ?s2]) (auto simp: listener_matches_def)
qed

lemma sock_accept_linked:
  assumes "linked s a b" and "sock_ok s (int l)" and "sk_state (sk s l) = TCP_LISTEN" and "accept_inv (sk s l)"
    and "accept_abs (sk s l) = q # qs" and "0 \<le> q"
  shows "\<exists>s'. sock_accept s (int l) = (s', Inr (q, sk_remote_ip (sk s' (nat q)), sk_remote_port (sk s' (nat q))))
     \<and> linked s' a b \<and> (\<forall>j. j \<noteq> l \<longrightarrow> sk s' j = sk s j) \<and> accept_abs (sk s' l) = qs"
proof -
  obtain d r where p: "sock_acceptq_pop (sk s l) = (d, r)" by fastforce
  have q: "r = q" "accept_abs d = qs" using acceptq_pop_refines [OF assms(4) p] assms(5) by simp_all
  define s' where "s' = upd_sock s l (\<lambda>_. d)"
  have l: "nat a \<noteq> l" "nat b \<noteq> l" using assms(1,3) by (auto simp: linked_def half_def)
  have "sock_accept s (int l) = (s', Inr (q, sk_remote_ip (sk s' (nat q)), sk_remote_port (sk s' (nat q))))"
    using assms(2,3,6) p q by (simp add: sock_accept_def Let_def s'_def)
  moreover have "sk_used d = sk_used (sk s l)" using p by (auto simp: sock_acceptq_pop_def split: if_splits)
  moreover have "linked s' a b" using assms(1) l by (simp add: linked_def half_def sock_ok_def s'_def)
  ultimately show ?thesis using q(2) by (intro exI [of _ s']) (simp add: s'_def)
qed

text \<open>The two ways a connect to a local listener ends, for the new socket \<open>n\<close> that the listener offers.\<close>

abbreviation offered :: "socket \<Rightarrow> int \<Rightarrow> int \<Rightarrow> u32 \<Rightarrow> u16 \<Rightarrow> socket" where
  "offered c p fd ip lp \<equiv> zero_socket\<lparr> sk_used := True, sk_domain := sk_domain c, sk_type := 1, sk_protocol := p, sk_peer := fd,
     sk_state := TCP_ESTABLISHED, sk_local_ip := ip, sk_local_port := lp,
     sk_remote_ip := (if sk_local_ip c \<noteq> 0 then sk_local_ip c else 0x7F000001),
     sk_remote_port := sk_local_port c, sk_tcp_seq := 1, sk_tcp_ack := 1, sk_tcp_window := 65535 \<rparr>"

lemma offered_linked:
  assumes c: "client_ok s2 fd" "sk_virt_service (sk s2 (nat fd)) = SOCK_VIRT_NONE" "sock_is_loopback_ip (sk_remote_ip (sk s2 (nat fd)))"
    and n: "n < SOCK_MAX" "n \<noteq> nat fd"
    and kf: "sk s (nat fd) = (sk s2 (nat fd))\<lparr> sk_peer := int n, sk_state := TCP_ESTABLISHED, sk_tcp_seq := 1, sk_tcp_ack := 1, sk_tcp_window := 65535 \<rparr>"
    and kn: "sk s n = offered (sk s2 (nat fd)) p fd ip lp"
  shows "linked s fd (int n)" and "rx_abs (sk s n) = []"
proof -
  have fd: "sock_ok s2 fd" "sock_is_loopback_ip (sk_local_ip (sk s2 (nat fd)))" using c(1) by (simp_all add: client_ok_def)
  have x: "\<not> net_is_real_external (if sk_local_ip (sk s2 (nat fd)) \<noteq> 0 then sk_local_ip (sk s2 (nat fd)) else 0x7F000001)"
    using fd(2) by (intro not_external_loopback) (auto simp: sock_is_loopback_ip_def)
  have "half s fd (int n)"
    using c not_external_loopback [OF c(3)] unfolding half_def sock_ok_def kf client_ok_def by simp
  moreover have "half s (int n) fd"
    using x n(1) unfolding half_def sock_ok_def nat_int kn by (simp add: zero_socket_def SOCK_VIRT_NONE_def ring_ok_def)
  ultimately show "linked s fd (int n)" using n(2) fd(1) by (auto simp: linked_def sock_ok_def)
  show "rx_abs (sk s n) = []" unfolding kn by (simp add: zero_socket_def ring_abs_def)
qed

lemma offered_close:
  assumes n: "n < SOCK_MAX" and kn: "sk s n = offered c p fd ip lp" and peer: "sk_peer (sk s (nat fd)) \<noteq> int n"
  shows "\<exists>t. sock_close s (int n) = Some (t, 0) \<and> (\<forall>j. sk t j = (if j = n then zero_socket else sk s j))"
proof -
  have "close_drain s (int n) = Some (close_finish s (int n))"
    by (subst close_drain.simps) (simp only: Let_def nat_int kn, simp add: zero_socket_def)
  moreover have "sock_ok s (int n)" "\<not> close_tells_server s (int n)"
    unfolding sock_ok_def close_tells_server_def nat_int kn using n by (simp_all add: zero_socket_def virt_defs)
  ultimately have "sock_close s (int n) = Some (close_finish s (int n), 0)" by (simp add: sock_close_def)
  moreover have "sk (close_finish s (int n)) j = (if j = n then zero_socket else sk s j)" for j
    unfolding close_finish_def Let_def nat_int kn using peer by (simp add: zero_socket_def)
  ultimately show ?thesis by blast
qed

text \<open>C12: connecting to a listener of this machine with room in its queue makes a new socket, links both ends,
  queues the new end behind those that wait, and accepting it from an otherwise empty queue gives it with
  the client's address; with a full queue the client is closed again, the new socket is gone and the listener is as before.\<close>

theorem loopback_connection:
  assumes c: "client_ok s fd" and lo: "sock_is_loopback_ip addr"
    and l: "sock_find_listener s (sk_domain (sk s (nat fd))) addr port = Some l"
    and free: "find (\<lambda>i. \<not> sk_used (sk s i)) [0..<SOCK_MAX] = Some n"
    and inv: "accept_inv (sk s l)"
  shows "if accept_room (sk s l)
    then \<exists>s1. sock_connect s fd addr port isn arr clk = Some (s1, 0) \<and> linked s1 fd (int n) \<and> rx_abs (sk s1 n) = []
       \<and> accept_abs (sk s1 l) = accept_abs (sk s l) @ [int n]
       \<and> (accept_abs (sk s l) = [] \<longrightarrow>
            (\<exists>s2. sock_accept s1 (int l) = (s2, Inr (int n, sk_local_ip (sk s2 (nat fd)), sk_local_port (sk s2 (nat fd))))
               \<and> linked s2 fd (int n) \<and> rx_abs (sk s2 n) = []))
    else \<exists>s1. sock_connect s fd addr port isn arr clk = Some (s1, - EAGAIN) \<and> sk_state (sk s1 (nat fd)) = TCP_CLOSED
       \<and> sk_peer (sk s1 (nat fd)) = - 1 \<and> \<not> sk_used (sk s1 n) \<and> sk s1 l = sk s l"
proof -
  obtain s2 where s2: "sock_connect s fd addr port isn arr clk = connect_local s2 fd l addr" "client_ok s2 fd"
    "sk_virt_service (sk s2 (nat fd)) = SOCK_VIRT_NONE" "sock_is_loopback_ip (sk_remote_ip (sk s2 (nat fd)))"
    and ip0: "sk_local_ip (sk s2 (nat fd)) \<noteq> 0"
    and s2': "find (\<lambda>i. \<not> sk_used (sk s2 i)) [0..<SOCK_MAX] = Some n" "\<And>j. j \<noteq> nat fd \<Longrightarrow> sk s2 j = sk s j"
    and lf: "l \<noteq> nat fd" "sk_used (sk s l)" "sk_state (sk s l) = TCP_LISTEN" "l < SOCK_MAX"
    using sock_connect_local [OF c lo l free] by metis
  have n: "n < SOCK_MAX" "\<not> sk_used (sk s2 n)" using s2'(1) by (auto simp: find_Some_iff)
  have fd: "sock_ok s2 fd" "sk_domain (sk s2 (nat fd)) \<in> {1, 2, 16}" using s2(2) by (auto simp: client_ok_def)
  have l2: "sk s2 l = sk s l" using s2'(2) lf(1) by simp
  then have nn: "n \<noteq> nat fd" "n \<noteq> l" using n(2) fd(1) lf(2) by (auto simp: sock_ok_def)
  obtain s3 p ip where s3: "connect_local s2 fd l addr = (case sock_acceptq_push s3 l (int n) of (s4, rc) \<Rightarrow>
         if rc < 0 then (case sock_close (upd_sock s4 (nat fd) (\<lambda>d. d\<lparr> sk_peer := - 1, sk_state := TCP_CLOSED \<rparr>)) (int n) of
             None \<Rightarrow> None | Some (s5, _) \<Rightarrow> Some (s5, rc))
         else Some (s4, 0))"
    and kf: "sk s3 (nat fd) = (sk s2 (nat fd))\<lparr> sk_peer := int n, sk_state := TCP_ESTABLISHED, sk_tcp_seq := 1, sk_tcp_ack := 1, sk_tcp_window := 65535 \<rparr>"
    and kn: "sk s3 n = zero_socket\<lparr> sk_used := True, sk_domain := sk_domain (sk s2 (nat fd)), sk_type := 1, sk_protocol := p, sk_peer := fd,
          sk_state := TCP_ESTABLISHED, sk_local_ip := ip, sk_local_port := sk_local_port (sk s2 l),
          sk_remote_ip := (if sk_local_ip (sk s2 (nat fd)) \<noteq> 0 then sk_local_ip (sk s2 (nat fd)) else 0x7F000001),
          sk_remote_port := sk_local_port (sk s2 (nat fd)), sk_tcp_seq := 1, sk_tcp_ack := 1, sk_tcp_window := 65535 \<rparr>"
    and ko: "\<And>j. j \<noteq> nat fd \<Longrightarrow> j \<noteq> n \<Longrightarrow> sk s3 j = sk s2 j"
    using connect_local_offer [OF fd(2) s2'(1) fd(1) lf(2) [folded l2] lf(1), of addr] by blast
  have k3: "sk s3 l = sk s l" using ko lf(1) nn(2) l2 by metis
  obtain s4 rc where s4: "sock_acceptq_push s3 l (int n) = (s4, rc)" by fastforce
  show ?thesis
  proof (cases "accept_room (sk s l)")
    case True
    note pr = acceptq_push_room [OF inv [folded k3] True [folded k3] s4]
    have co: "sock_connect s fd addr port isn arr clk = Some (s4, 0)" using s2(1) s3 s4 pr(1) by simp
    have kf4: "sk s4 (nat fd) = sk s3 (nat fd)" and kn4: "sk s4 n = sk s3 n" using pr(4) lf(1) nn(2) by metis+
    note lk = offered_linked(1) [OF s2(2-4) n(1) nn(1) kf [folded kf4] kn [folded kn4]]
      and rn = offered_linked(2) [OF s2(2-4) n(1) nn(1) kf [folded kf4] kn [folded kn4]]
    have ab: "accept_abs (sk s4 l) = accept_abs (sk s l) @ [int n]" and iv: "accept_inv (sk s4 l)" using pr(2,3) k3 by simp_all
    have ls: "sock_ok s4 (int l)" "sk_state (sk s4 l) = TCP_LISTEN"
      using pr(5) k3 lf(2-4) by (simp_all add: sock_ok_def)
    have "\<exists>s5. sock_accept s4 (int l) = (s5, Inr (int n, sk_local_ip (sk s5 (nat fd)), sk_local_port (sk s5 (nat fd))))
         \<and> linked s5 fd (int n) \<and> rx_abs (sk s5 n) = []" if e: "accept_abs (sk s l) = []"
    proof -
      have "accept_abs (sk s4 l) = int n # []" using ab e by simp
      from sock_accept_linked [OF lk ls iv this] obtain s5 where
        s5: "sock_accept s4 (int l) = (s5, Inr (int n, sk_remote_ip (sk s5 n), sk_remote_port (sk s5 n)))"
          "linked s5 fd (int n)" "\<And>j. j \<noteq> l \<Longrightarrow> sk s5 j = sk s4 j" by auto
      have "sk s5 n = sk s4 n" "sk s5 (nat fd) = sk s4 (nat fd)" using s5(3) nn(2) lf(1) by metis+
      moreover have "sk_remote_ip (sk s4 n) = sk_local_ip (sk s4 (nat fd))" "sk_remote_port (sk s4 n) = sk_local_port (sk s4 (nat fd))"
        unfolding kn4 kn kf4 kf using ip0 by (simp_all add: zero_socket_def)
      ultimately show ?thesis using s5(1,2) rn by (intro exI [of _ s5]) simp
    qed
    then show ?thesis using True co lk rn ab by (intro if_P [THEN iffD2]) auto
  next
    case False
    have r: "rc = - EAGAIN" "s4 = s3"
      using acceptq_push_refines [OF inv [folded k3] s4] False unfolding accept_room_def k3 by simp_all
    let ?s = "upd_sock s3 (nat fd) (\<lambda>d. d\<lparr> sk_peer := - 1, sk_state := TCP_CLOSED \<rparr>)"
    obtain t where t: "sock_close ?s (int n) = Some (t, 0)" "\<And>j. sk t j = (if j = n then zero_socket else sk ?s j)"
      using offered_close [OF n(1), where s = ?s and c = "sk s2 (nat fd)" and p = p and fd = fd and ip = ip] nn(1) kn by auto
    show ?thesis
      using False s2(1) s3 s4 r nn lf(1) k3 t by (simp add: EAGAIN_def zero_socket_def)
  qed
qed

subsection \<open>Traffic over a local connection\<close>

lemma recv_linked_empty:
  assumes "linked s a b" and "rx_abs (sk s (nat a)) = []"
  shows "\<exists>s'. sock_recv s a cnt True fs = Some (s', Inl (- EAGAIN)) \<and> linked s' a b
     \<and> rx_abs (sk s' (nat a)) = [] \<and> rx_abs (sk s' (nat b)) = rx_abs (sk s (nat b))"
proof -
  have ab: "half s a b" using assms(1) by (simp add: linked_def)
  moreover have "unat (sk_rx_head (sk s (nat a)) - sk_rx_tail (sk s (nat a))) = 0"
    using assms(2) by (metis length_ring_abs list.size(3))
  ultimately have "ring_used (sk_rx_head (sk s (nat a))) (sk_rx_tail (sk s (nat a))) = 0"
    by (simp add: half_def ring_used_ok)
  then have "sock_recv s a cnt True fs = Some (s\<lparr> ns_rxq := ns_rxq s @ fs \<rparr>, Inl (- EAGAIN))"
    using ab by (simp add: sock_recv_def half_def Let_def)
  then show ?thesis using assms by (intro exI [of _ "s\<lparr> ns_rxq := ns_rxq s @ fs \<rparr>"]) (simp add: linked_def half_def sock_ok_def)
qed

datatype link_op = LSend bool "u8 list" | LRecv bool nat

text \<open>\<open>True\<close> is the end \<open>a\<close>.  \<open>sent e\<close> and \<open>got e\<close> are what end \<open>e\<close> has sent, as far as the calls took it,
  and received.\<close>

fun link_run :: "nstate \<Rightarrow> int \<Rightarrow> int \<Rightarrow> link_op list \<Rightarrow> (bool \<Rightarrow> u8 list) \<Rightarrow> (bool \<Rightarrow> u8 list)
    \<Rightarrow> (nstate \<times> (bool \<Rightarrow> u8 list) \<times> (bool \<Rightarrow> u8 list)) option" where
  "link_run s a b [] sent got = Some (s, sent, got)"
| "link_run s a b (LSend e p # ops) sent got =
     (case sock_send s (if e then a else b) p (\<lambda>_. []) of
        None \<Rightarrow> None
      | Some (s1, n) \<Rightarrow> link_run s1 a b ops (if 0 \<le> n then sent(e := sent e @ take (nat n) p) else sent) got)"
| "link_run s a b (LRecv e cnt # ops) sent got =
     (case sock_recv s (if e then a else b) cnt True [] of
        None \<Rightarrow> None
      | Some (s1, Inl _) \<Rightarrow> link_run s1 a b ops sent got
      | Some (s1, Inr bs) \<Rightarrow> link_run s1 a b ops sent (got(e := got e @ bs)))"

abbreviation end_rx :: "nstate \<Rightarrow> int \<Rightarrow> int \<Rightarrow> bool \<Rightarrow> u8 list" where
  "end_rx s a b e \<equiv> rx_abs (sk s (nat (if e then a else b)))"

lemma linked_end: "linked s a b \<Longrightarrow> linked s (if e then a else b) (if e then b else a)"
  using linked_sym by simp

lemma link_send:
  assumes "linked s a b"
  shows "\<exists>s1 n. sock_send s (if e then a else b) p arr = Some (s1, int n) \<and> linked s1 a b
     \<and> end_rx s1 a b (\<not> e) = end_rx s a b (\<not> e) @ take n p \<and> end_rx s1 a b e = end_rx s a b e"
  using send_linked [OF linked_end [OF assms, of e], of p arr] linked_sym by (cases e) auto

lemma link_recv:
  assumes "linked s a b"
  shows "\<exists>s1 r. sock_recv s (if e then a else b) cnt True fs = Some (s1, r) \<and> linked s1 a b
     \<and> (case r of Inl _ \<Rightarrow> [] | Inr bs \<Rightarrow> bs) @ end_rx s1 a b e = end_rx s a b e
     \<and> end_rx s1 a b (\<not> e) = end_rx s a b (\<not> e)"
proof (cases "end_rx s a b e = []")
  case True
  then show ?thesis
    using recv_linked_empty [OF linked_end [OF assms, of e], of cnt fs] linked_sym by (cases e) fastforce+
next
  case False
  then show ?thesis
    using recv_linked [OF linked_end [OF assms, of e], of cnt True fs] linked_sym by (cases e) fastforce+
qed

lemma link_run_fifo:
  "linked s a b \<Longrightarrow> (\<And>e. got e @ end_rx s a b e = init e @ sent (\<not> e)) \<Longrightarrow>
   \<exists>s' sent' got'. link_run s a b ops sent got = Some (s', sent', got') \<and> linked s' a b
     \<and> (\<forall>e. got' e @ end_rx s' a b e = init e @ sent' (\<not> e))"
proof (induction ops arbitrary: s sent got)
  case (Cons op ops)
  show ?case
  proof (cases op)
    case (LSend e p)
    obtain s1 n where s1: "sock_send s (if e then a else b) p (\<lambda>_. []) = Some (s1, int n)" "linked s1 a b"
      "end_rx s1 a b (\<not> e) = end_rx s a b (\<not> e) @ take n p" "end_rx s1 a b e = end_rx s a b e"
      using link_send [OF Cons.prems(1)] by blast
    have "got f @ end_rx s1 a b f = init f @ (sent(e := sent e @ take n p)) (\<not> f)" for f
      using Cons.prems(2) [of f] s1(3,4) by (cases "f = e") auto
    moreover have "link_run s a b (op # ops) sent got = link_run s1 a b ops (sent(e := sent e @ take n p)) got"
      using s1(1) LSend by simp
    ultimately show ?thesis using Cons.IH [OF s1(2), of got "sent(e := sent e @ take n p)"] by (simp only:)
  next
    case (LRecv e cnt)
    obtain s1 r where s1: "sock_recv s (if e then a else b) cnt True [] = Some (s1, r)" "linked s1 a b"
      "(case r of Inl _ \<Rightarrow> [] | Inr bs \<Rightarrow> bs) @ end_rx s1 a b e = end_rx s a b e"
      "end_rx s1 a b (\<not> e) = end_rx s a b (\<not> e)"
      using link_recv [OF Cons.prems(1)] by blast
    show ?thesis
    proof (cases r)
      case (Inl x)
      have "got f @ end_rx s1 a b f = init f @ sent (\<not> f)" for f
        using Cons.prems(2) [of f] s1(3,4) Inl by (cases "f = e") auto
      from Cons.IH [OF s1(2) this] show ?thesis using s1(1) LRecv Inl by simp
    next
      case (Inr bs)
      have "(got(e := got e @ bs)) f @ end_rx s1 a b f = init f @ sent (\<not> f)" for f
        using Cons.prems(2) [of f] s1(3,4) Inr by (cases "f = e") auto
      moreover have "link_run s a b (op # ops) sent got = link_run s1 a b ops sent (got(e := got e @ bs))"
        using s1(1) LRecv Inr by simp
      ultimately show ?thesis using Cons.IH [OF s1(2), of "got(e := got e @ bs)" sent] by (simp only:)
    qed
  qed
qed auto

text \<open>C13: between the two ends of a local connection, whatever the order and sizes of sends and receives,
  each end receives the bytes the other end sent, in order and without loss: what it has read and what its ring
  holds is what it held at first and then everything the other end's calls reported as sent.\<close>

theorem local_stream_fifo:
  assumes "linked s a b"
  shows "\<exists>s' sent got. link_run s a b ops (\<lambda>_. []) (\<lambda>_. []) = Some (s', sent, got) \<and> linked s' a b
     \<and> (\<forall>e. got e @ end_rx s' a b e = end_rx s a b e @ sent (\<not> e))"
  by (rule link_run_fifo [OF assms]) simp


text \<open>A socket pair of streams is such a connection; one asked for as type 5 is not, although its two sockets
  are streams: they stay closed and nothing can be sent.\<close>

definition fresh_stream :: "int \<Rightarrow> int \<Rightarrow> socket" where
  "fresh_stream domain protocol = zero_socket\<lparr> sk_used := True, sk_domain := domain, sk_type := 1, sk_protocol := protocol,
     sk_peer := - 1, sk_state := TCP_CLOSED, sk_tcp_window := 65535 \<rparr>"

lemma two_free:
  assumes "\<not> sk_used (sk s i)" "\<not> sk_used (sk s j)" "i < SOCK_MAX" "j < SOCK_MAX" "i \<noteq> j" and "domain \<in> {1, 2, 16}"
  shows "\<exists>s1 s2 a b p q. a \<noteq> b \<and> a < SOCK_MAX \<and> b < SOCK_MAX
     \<and> sock_create s domain 1 protocol = (s1, int a) \<and> sock_create s1 domain 1 protocol = (s2, int b)
     \<and> sk s2 a = fresh_stream domain p \<and> sk s2 b = fresh_stream domain q"
proof -
  have "find (\<lambda>i. \<not> sk_used (sk s i)) [0..<SOCK_MAX] \<noteq> None" using assms(1,3) by (auto simp: find_None_iff)
  then obtain a where a: "find (\<lambda>i. \<not> sk_used (sk s i)) [0..<SOCK_MAX] = Some a" by blast
  note mk = sock_create_stream [OF assms(6), folded fresh_stream_def]
  from mk [OF a, of protocol] obtain p where p: "sock_create s domain 1 protocol
      = (upd_sock (tcp7_drop_socket s (int a)) a (\<lambda>_. fresh_stream domain p), int a)" by blast
  let ?s1 = "upd_sock (tcp7_drop_socket s (int a)) a (\<lambda>_. fresh_stream domain p)"
  have "\<exists>k < SOCK_MAX. \<not> sk_used (sk ?s1 k)"
    using assms(1-5) by (cases "i = a") (auto intro: exI [of _ i] exI [of _ j])
  then have "find (\<lambda>i. \<not> sk_used (sk ?s1 i)) [0..<SOCK_MAX] \<noteq> None" by (auto simp: find_None_iff)
  then obtain b where b: "find (\<lambda>i. \<not> sk_used (sk ?s1 i)) [0..<SOCK_MAX] = Some b" by blast
  from mk [OF b, of protocol] obtain q where q: "sock_create ?s1 domain 1 protocol
      = (upd_sock (tcp7_drop_socket ?s1 (int b)) b (\<lambda>_. fresh_stream domain q), int b)" by blast
  have u: "\<not> sk_used (sk ?s1 b)" "a < SOCK_MAX" "b < SOCK_MAX" using a b by (auto simp: find_Some_iff)
  then have "a \<noteq> b" by (auto simp: fresh_stream_def)
  then show ?thesis using p q u(2,3)
    by (intro exI [of _ ?s1] exI [of _ "upd_sock (tcp7_drop_socket ?s1 (int b)) b (\<lambda>_. fresh_stream domain q)"]
        exI [of _ a] exI [of _ b] exI [of _ p] exI [of _ q]) simp
qed

lemma stream_pair_linked:
  assumes "\<not> sk_used (sk s i)" "\<not> sk_used (sk s j)" "i < SOCK_MAX" "j < SOCK_MAX" "i \<noteq> j" and "domain \<in> {1, 2, 16}"
  shows "\<exists>s' a b. sock_pair_create s domain 1 protocol = Some (s', Inr (a, b)) \<and> linked s' a b
     \<and> rx_abs (sk s' (nat a)) = [] \<and> rx_abs (sk s' (nat b)) = []"
proof -
  from two_free [OF assms, of protocol] obtain s1 s2 a b p q where ab: "a \<noteq> b" "a < SOCK_MAX" "b < SOCK_MAX"
    and c: "sock_create s domain 1 protocol = (s1, int a)" "sock_create s1 domain 1 protocol = (s2, int b)"
    and ka: "sk s2 a = fresh_stream domain p" and kb: "sk s2 b = fresh_stream domain q"
    by blast
  have ext: "\<not> net_is_real_external 0x7F000001" by (rule not_external_loopback) (simp add: sock_is_loopback_ip_def)
  obtain s3 pa where e1: "alloc_eph s2 = (s3, pa)" by fastforce
  obtain s4 pb where e2: "alloc_eph s3 = (s4, pb)" by fastforce
  have k: "ns_sock s4 = ns_sock s2" using e1 e2 by (auto simp: alloc_eph_def Let_def)
  let ?f = "\<lambda>d p x y. (d\<lparr> sk_peer := p, sk_local_ip := 0x7F000001, sk_remote_ip := 0x7F000001, sk_local_port := x,
      sk_remote_port := y \<rparr>)\<lparr> sk_state := TCP_ESTABLISHED \<rparr>"
  let ?s = "upd_sock (upd_sock s4 a (\<lambda>d. ?f d (int b) pa pb)) b (\<lambda>d. ?f d (int a) pb pa)"
  have r: "sock_pair_create s domain 1 protocol = Some (?s, Inr (int a, int b))"
    using c e1 e2 by (simp add: sock_pair_create_def Let_def)
  have sa: "sk ?s a = ?f (sk s2 a) (int b) pa pb" and sb: "sk ?s b = ?f (sk s2 b) (int a) pb pa" using ab(1) k by simp_all
  have "half ?s (int a) (int b)" "half ?s (int b) (int a)"
    unfolding half_def sock_ok_def nat_int sa sb ka kb using ab ext
    by (simp_all add: fresh_stream_def zero_socket_def ring_ok_def SOCK_VIRT_NONE_def)
  moreover have "rx_abs (sk ?s a) = []" "rx_abs (sk ?s b) = []"
    unfolding sa sb ka kb by (simp_all add: fresh_stream_def zero_socket_def ring_abs_def)
  ultimately have "linked ?s (int a) (int b) \<and> rx_abs (sk ?s (nat (int a))) = [] \<and> rx_abs (sk ?s (nat (int b))) = []"
    using ab(1) by (simp add: linked_def)
  with r show ?thesis by blast
qed

lemma odd_pair_is_dead:
  assumes "\<not> sk_used (sk s i)" "\<not> sk_used (sk s j)" "i < SOCK_MAX" "j < SOCK_MAX" "i \<noteq> j" and "domain \<in> {1, 2, 16}"
  shows "\<exists>s' a b. sock_pair_create s domain 5 protocol = Some (s', Inr (a, b)) \<and> sk_type (sk s' (nat a)) = 1
     \<and> (\<forall>p arr. sock_send s' a p arr = Some (s', - ENOTCONN))"
proof -
  have c5: "sock_create s d 5 protocol = sock_create s d 1 protocol" for s d by (auto simp: sock_create_def Let_def)
  from two_free [OF assms, of protocol] obtain s1 s2 a b p q where ab: "a \<noteq> b" "a < SOCK_MAX" "b < SOCK_MAX"
    and c: "sock_create s domain 1 protocol = (s1, int a)" "sock_create s1 domain 1 protocol = (s2, int b)"
    and ka: "sk s2 a = fresh_stream domain p"
    by blast
  have ext: "\<not> net_is_real_external 0x7F000001" by (rule not_external_loopback) (simp add: sock_is_loopback_ip_def)
  obtain s3 pa where e1: "alloc_eph s2 = (s3, pa)" by fastforce
  obtain s4 pb where e2: "alloc_eph s3 = (s4, pb)" by fastforce
  have k: "ns_sock s4 = ns_sock s2" using e1 e2 by (auto simp: alloc_eph_def Let_def)
  let ?f = "\<lambda>d p x y. d\<lparr> sk_peer := p, sk_local_ip := 0x7F000001, sk_remote_ip := 0x7F000001, sk_local_port := x,
      sk_remote_port := y \<rparr>"
  let ?s = "upd_sock (upd_sock s4 a (\<lambda>d. ?f d (int b) pa pb)) b (\<lambda>d. ?f d (int a) pb pa)"
  have r: "sock_pair_create s domain 5 protocol = Some (?s, Inr (int a, int b))"
    using c e1 e2 by (simp add: sock_pair_create_def Let_def c5)
  have sa: "sk ?s a = ?f (fresh_stream domain p) (int b) pa pb" using ab(1) k ka by simp
  have "sock_send ?s (int a) p arr = Some (?s, - ENOTCONN)" for p arr
    unfolding sock_send_def enters_server_def sock_send_stream_def sock_ok_def Let_def nat_int sa
    using ab ext by (simp add: fresh_stream_def zero_socket_def)
  moreover have "sk_type (sk ?s (nat (int a))) = 1" unfolding nat_int sa by (simp add: fresh_stream_def)
  ultimately show ?thesis using r by blast
qed

subsection \<open>Witnesses\<close>

definition api_host :: "kernel \<Rightarrow> nstate" where
  "api_host k = (one_socket k zero_socket)\<lparr> ns_sock := (\<lambda>i.
     if i = 0 then (fresh_stream 2 6)\<lparr> sk_state := TCP_LISTEN, sk_local_port := 7, sk_backlog := 5 \<rparr>
     else if i = 1 then fresh_stream 2 6 else zero_socket) \<rparr>"

definition link_host :: "kernel \<Rightarrow> nstate" where
  "link_host k = (one_socket k zero_socket)\<lparr> ns_sock := (\<lambda>i.
     if i = 0 then (fresh_stream 2 6)\<lparr> sk_peer := 1, sk_state := TCP_ESTABLISHED, sk_remote_ip := 0x7F000001 \<rparr>
     else if i = 1 then (fresh_stream 2 6)\<lparr> sk_peer := 0, sk_state := TCP_ESTABLISHED, sk_remote_ip := 0x7F000001 \<rparr>
     else zero_socket) \<rparr>"

lemma api_host_sk: "sk (api_host k) 0 = (fresh_stream 2 6)\<lparr> sk_state := TCP_LISTEN, sk_local_port := 7, sk_backlog := 5 \<rparr>"
  "sk (api_host k) 1 = fresh_stream 2 6" "1 < i \<Longrightarrow> sk (api_host k) i = zero_socket"
  by (simp_all add: api_host_def)

lemma link_host_linked: "linked (link_host k) 0 1" "rx_abs (sk (link_host k) 0) = []" "rx_abs (sk (link_host k) 1) = []"
proof -
  have "\<not> net_is_real_external 0x7F000001" by (rule not_external_loopback) (simp add: sock_is_loopback_ip_def)
  then show "linked (link_host k) 0 1"
    by (simp add: linked_def half_def sock_ok_def link_host_def fresh_stream_def zero_socket_def SOCK_MAX_def SOCK_VIRT_NONE_def ring_ok_def)
  show "rx_abs (sk (link_host k) 0) = []" "rx_abs (sk (link_host k) 1) = []"
    by (simp_all add: link_host_def fresh_stream_def zero_socket_def ring_abs_def)
qed

theorem loopback_connection_witness:
  "\<forall>k. \<exists>s1 s2 ip p. sock_connect (api_host k) 1 0x7F000001 7 0 (\<lambda>_. []) (\<lambda>_. 0) = Some (s1, 0)
     \<and> sock_accept s1 0 = (s2, Inr (2, ip, p)) \<and> linked s2 1 2"
proof (intro allI)
  fix k
  let ?s = "api_host k"
  have lo: "sock_is_loopback_ip 0x7F000001" by (simp add: sock_is_loopback_ip_def)
  have c: "client_ok ?s 1"
    unfolding client_ok_def sock_ok_def nat_one_as_int [symmetric] nat_1 One_nat_def [symmetric] api_host_sk
    by (simp add: fresh_stream_def zero_socket_def SOCK_MAX_def sock_is_loopback_ip_def ring_ok_def)
  have l: "sock_find_listener ?s (sk_domain (sk ?s (nat 1))) 0x7F000001 7 = Some 0"
    unfolding sock_find_listener_def
    by (rule first_index) (simp_all add: listener_matches_def api_host_def fresh_stream_def zero_socket_def sock_ip_match_def SOCK_MAX_def)
  have free: "find (\<lambda>i. \<not> sk_used (sk ?s i)) [0..<SOCK_MAX] = Some 2"
    unfolding find_Some_iff by (rule exI [of _ 2]) (auto simp: api_host_def fresh_stream_def zero_socket_def SOCK_MAX_def less_2_cases_iff)
  have inv: "accept_inv (sk ?s 0)" "accept_abs (sk ?s 0) = []" "accept_room (sk ?s 0)"
    unfolding accept_room_def accept_inv_def api_host_sk by (simp_all add: fresh_stream_def zero_socket_def SOCK_ACCEPTQ_def circ_def)
  show "\<exists>s1 s2 ip p. sock_connect ?s 1 0x7F000001 7 0 (\<lambda>_. []) (\<lambda>_. 0) = Some (s1, 0)
      \<and> sock_accept s1 0 = (s2, Inr (2, ip, p)) \<and> linked s2 1 2"
    using loopback_connection [OF c lo l free inv(1), of 0 "\<lambda>_. []" "\<lambda>_. 0"] inv(2,3) by auto
qed

theorem local_stream_fifo_witness:
  "\<forall>k. \<exists>s' sent got. link_run (link_host k) 0 1 [LSend True [1, 2, 3], LRecv False 2, LSend False [9]] (\<lambda>_. []) (\<lambda>_. [])
       = Some (s', sent, got) \<and> got False @ rx_abs (sk s' 1) = sent True \<and> got True @ rx_abs (sk s' 0) = sent False"
proof (intro allI)
  fix k
  from local_stream_fifo [OF link_host_linked(1) [of k], of "[LSend True [1, 2, 3], LRecv False 2, LSend False [9]]"]
  obtain s' sent got where r: "link_run (link_host k) 0 1 [LSend True [1, 2, 3], LRecv False 2, LSend False [9]] (\<lambda>_. []) (\<lambda>_. [])
       = Some (s', sent, got)" and e: "\<And>e. got e @ end_rx s' 0 1 e = end_rx (link_host k) 0 1 e @ sent (\<not> e)" by blast
  show "\<exists>s' sent got. link_run (link_host k) 0 1 [LSend True [1, 2, 3], LRecv False 2, LSend False [9]] (\<lambda>_. []) (\<lambda>_. [])
       = Some (s', sent, got) \<and> got False @ rx_abs (sk s' 1) = sent True \<and> got True @ rx_abs (sk s' 0) = sent False"
    using r e [of True] e [of False] link_host_linked(2,3) [of k] by (intro exI [of _ s'] exI [of _ sent] exI [of _ got]) simp
qed


end
