(* ===== verification/KFrames.thy ===== *)
theory KFrames
  imports PagingProps KPipe KString
begin

text \<open>
  Physical frames of user memory, from \<^verbatim>\<open>src/compat/linux_syscalls.c\<close>: the reference counts
  (\<open>c3_phys_ref_*\<close>), the quarantine ring that delays the reuse of a released frame, the cache
  of file pages (\<open>c3_file_page_*\<close>) with its hash look-aside table, and the frame allocator that
  reclaims from both.  Serial traces are left out.  The file has its own copies of \<open>strcmp\<close>,
  \<open>strlcpy\<close> and \<open>starts_with\<close>, which do what those of the kernel core do.
\<close>

subsection \<open>State\<close>

definition C3_PMM_BASE :: u64 where "C3_PMM_BASE = 0x200000"
definition C3_PHYS_QUARANTINE_MAX :: nat where "C3_PHYS_QUARANTINE_MAX = 4096"
definition C3_FILEPAGE_MAX :: nat where "C3_FILEPAGE_MAX = 65536"
definition C3_FILEPAGE_LOOKUP_MAX :: u64 where "C3_FILEPAGE_LOOKUP_MAX = 8192"
definition VFS_PATH_MAX :: nat where "VFS_PATH_MAX = 256"
definition C3_MEMFD_PREFIX :: string where "C3_MEMFD_PREFIX = ''/memfd/''"
definition C3_DELETED_PREFIX :: string where "C3_DELETED_PREFIX = ''/tmp/.ridux-deleted-''"

record file_page =
  fp_used :: bool
  fp_path :: string
  fp_page_off :: u64
  fp_phys :: u64
  fp_hash :: u64

definition no_file_page :: "file_page \<Rightarrow> file_page" where
  "no_file_page f = f\<lparr> fp_used := False, fp_path := [], fp_page_off := 0, fp_phys := 0, fp_hash := 0 \<rparr>"

text \<open>\<open>fr_data\<close> holds the bytes of every frame, by its page-aligned address.\<close>

record frames =
  fr_pg :: paging
  fr_refcnt :: "nat \<Rightarrow> u16"
  fr_quar :: "nat \<Rightarrow> u64"
  fr_qhead :: u32
  fr_qcount :: u32
  fr_pages :: "nat \<Rightarrow> file_page"
  fr_lookup :: "nat \<Rightarrow> u32"
  fr_data :: "u64 \<Rightarrow> nat \<Rightarrow> u8"
  fr_cow_copies :: u32
  fr_cow_shared :: u32

abbreviation fr_pmm :: "'a frames_scheme \<Rightarrow> pmm" where "fr_pmm s \<equiv> pg_pmm (fr_pg s)"

abbreviation set_pmm :: "pmm \<Rightarrow> 'a frames_scheme \<Rightarrow> 'a frames_scheme" where
  "set_pmm p s \<equiv> s\<lparr> fr_pg := (fr_pg s)\<lparr> pg_pmm := p \<rparr> \<rparr>"

abbreviation page_floor :: "u64 \<Rightarrow> u64" where "page_floor a \<equiv> a AND NOT 0xFFF"

subsection \<open>Reference counts\<close>

definition c3_phys_ref_index :: "u64 \<Rightarrow> nat option" where
  "c3_phys_ref_index phys0 =
     (let phys = page_floor phys0; i = (phys - C3_PMM_BASE) div PAGE_SIZE
      in if phys0 = 0 then None
         else if phys < C3_PMM_BASE then None
         else if i \<ge> of_nat PMM_MAX_PAGES then None
         else Some (unat i))"

definition c3_phys_ref_set_initial :: "'a frames_scheme \<Rightarrow> u64 \<Rightarrow> 'a frames_scheme" where
  "c3_phys_ref_set_initial s phys =
     (case c3_phys_ref_index phys of
        None \<Rightarrow> s
      | Some i \<Rightarrow> if fr_refcnt s i = 0 then s\<lparr> fr_refcnt := (fr_refcnt s)(i := 1) \<rparr> else s)"

definition c3_phys_ref_retain :: "'a frames_scheme \<Rightarrow> u64 \<Rightarrow> 'a frames_scheme" where
  "c3_phys_ref_retain s phys =
     (case c3_phys_ref_index phys of
        None \<Rightarrow> s
      | Some i \<Rightarrow>
          if fr_refcnt s i = 0 then s\<lparr> fr_refcnt := (fr_refcnt s)(i := 1) \<rparr>
          else if fr_refcnt s i < 0xFFFF then s\<lparr> fr_refcnt := (fr_refcnt s)(i := fr_refcnt s i + 1) \<rparr>
          else s)"

subsection \<open>Quarantine\<close>

fun c3_phys_quarantine_drain :: "nat \<Rightarrow> 'a frames_scheme \<Rightarrow> 'a frames_scheme" where
  "c3_phys_quarantine_drain 0 s = s"
| "c3_phys_quarantine_drain (Suc n) s =
     (if fr_qcount s = 0 then s
      else (let h = unat (fr_qhead s); phys = fr_quar s h;
                s1 = s\<lparr> fr_quar := (fr_quar s)(h := 0),
                        fr_qhead := (fr_qhead s + 1) mod of_nat C3_PHYS_QUARANTINE_MAX,
                        fr_qcount := fr_qcount s - 1 \<rparr>;
                s2 = (if phys \<noteq> 0 then set_pmm (pmm_free_frame (fr_pmm s1) (page_floor phys)) s1 else s1)
            in c3_phys_quarantine_drain n s2))"

definition c3_phys_quarantine_frame :: "'a frames_scheme \<Rightarrow> u64 \<Rightarrow> 'a frames_scheme" where
  "c3_phys_quarantine_frame s0 phys =
     (if phys = 0 then s0
      else (let s = (if pmm_free_count (fr_pmm s0) < 256 then c3_phys_quarantine_drain 256 s0 else s0)
            in if fr_qcount s < of_nat C3_PHYS_QUARANTINE_MAX
               then s\<lparr> fr_quar := (fr_quar s)
                         (unat ((fr_qhead s + fr_qcount s) mod of_nat C3_PHYS_QUARANTINE_MAX) := page_floor phys),
                       fr_qcount := fr_qcount s + 1 \<rparr>
               else (let h = unat (fr_qhead s); old = fr_quar s h;
                         s1 = (if old \<noteq> 0 then set_pmm (pmm_free_frame (fr_pmm s) (page_floor old)) s else s)
                     in s1\<lparr> fr_quar := (fr_quar s1)(h := page_floor phys),
                            fr_qhead := (fr_qhead s1 + 1) mod of_nat C3_PHYS_QUARANTINE_MAX \<rparr>)))"

text \<open>
  \<open>c3_file_page_invalidate_phys\<close> and \<open>c3_phys_ref_release\<close> call each other.  The first drops
  every cached page of the frame and releases it if it still has a reference; the second calls
  it only after the count was set to 0.
\<close>

definition invalidate_slot :: "('a frames_scheme \<Rightarrow> u64 \<Rightarrow> 'a frames_scheme) \<Rightarrow> nat \<Rightarrow>
    'a frames_scheme \<Rightarrow> 'a frames_scheme" where
  "invalidate_slot release i s =
     (let phys = fp_phys (fr_pages s i);
          s1 = (case c3_phys_ref_index phys of
                  None \<Rightarrow> s
                | Some r \<Rightarrow> if fr_refcnt s r > 0 then release s (page_floor phys) else s)
      in s1\<lparr> fr_pages := (fr_pages s1)(i := no_file_page (fr_pages s1 i)) \<rparr>)"

definition c3_file_page_invalidate_phys :: "('a frames_scheme \<Rightarrow> u64 \<Rightarrow> 'a frames_scheme) \<Rightarrow>
    'a frames_scheme \<Rightarrow> u64 \<Rightarrow> 'a frames_scheme" where
  "c3_file_page_invalidate_phys release s phys =
     fold (\<lambda>i s. if fp_used (fr_pages s i) \<and> page_floor (fp_phys (fr_pages s i)) = page_floor phys
                 then invalidate_slot release i s else s) [0..<C3_FILEPAGE_MAX] s"

fun ref_release_depth :: "nat \<Rightarrow> 'a frames_scheme \<Rightarrow> u64 \<Rightarrow> 'a frames_scheme" where
  "ref_release_depth 0 s phys = s"
| "ref_release_depth (Suc n) s phys0 =
     (let phys = page_floor phys0
      in case c3_phys_ref_index phys0 of
           None \<Rightarrow> s
         | Some i \<Rightarrow>
             if phys = 0 then s
             else if fr_refcnt s i = 0 then s
             else if fr_refcnt s i > 1 then s\<lparr> fr_refcnt := (fr_refcnt s)(i := fr_refcnt s i - 1) \<rparr>
             else (let s1 = s\<lparr> fr_refcnt := (fr_refcnt s)(i := 0) \<rparr>;
                       s2 = c3_file_page_invalidate_phys (ref_release_depth n) s1 phys
                   in c3_phys_quarantine_frame s2 phys))"

text \<open>The inner call is never made (\<open>release_depth\<close> below), so one level is the recursion.\<close>

definition c3_phys_ref_release :: "'a frames_scheme \<Rightarrow> u64 \<Rightarrow> 'a frames_scheme" where
  "c3_phys_ref_release = ref_release_depth 1"

subsection \<open>Cache of file pages\<close>

definition c3_file_page_invalidate_path :: "'a frames_scheme \<Rightarrow> string \<Rightarrow> 'a frames_scheme" where
  "c3_file_page_invalidate_path s path =
     (if cstr path = [] then s
      else fold (\<lambda>i s. if fp_used (fr_pages s i) \<and> k_strcmp (fp_path (fr_pages s i)) path = 0
                       then invalidate_slot c3_phys_ref_release i s else s) [0..<C3_FILEPAGE_MAX] s)"

fun fnv_path :: "u64 \<Rightarrow> string \<Rightarrow> u64" where
  "fnv_path h [] = h"
| "fnv_path h (c # cs) = (if c = NUL then h else fnv_path ((h XOR of_char c) * 1099511628211) cs)"

definition c3_file_page_hash_for :: "string \<Rightarrow> u64 \<Rightarrow> u64" where
  "c3_file_page_hash_for path page_off =
     (fnv_path 1469598103934665603 path XOR page_off) * 1099511628211"

definition c3_file_page_cache_slot :: "'a frames_scheme \<Rightarrow> nat \<Rightarrow> 'a frames_scheme" where
  "c3_file_page_cache_slot s sl =
     (let f = fr_pages s sl
      in if sl \<ge> C3_FILEPAGE_MAX then s
         else if \<not> fp_used f \<or> fp_hash f = 0 then s
         else s\<lparr> fr_lookup := (fr_lookup s)(unat (fp_hash f AND (C3_FILEPAGE_LOOKUP_MAX - 1)) := of_nat sl + 1) \<rparr>)"

definition c3_file_page_rename_path :: "'a frames_scheme \<Rightarrow> string \<Rightarrow> string \<Rightarrow> 'a frames_scheme" where
  "c3_file_page_rename_path s old_path new_path =
     (if cstr old_path = [] \<or> cstr new_path = [] then s
      else fold (\<lambda>i s. if \<not> fp_used (fr_pages s i) then s
             else if k_strcmp (fp_path (fr_pages s i)) old_path \<noteq> 0 then s
             else (let f = fr_pages s i;
                       f1 = f\<lparr> fp_path := k_strlcpy (fp_path f) new_path VFS_PATH_MAX,
                               fp_hash := c3_file_page_hash_for new_path (fp_page_off f) \<rparr>
                   in c3_file_page_cache_slot (s\<lparr> fr_pages := (fr_pages s)(i := f1) \<rparr>) i)) [0..<C3_FILEPAGE_MAX] s)"

text \<open>The look-aside entry is tried first; the scan refreshes it.\<close>

definition c3_file_page_find_slot :: "'a frames_scheme \<Rightarrow> string \<Rightarrow> u64 \<Rightarrow> 'a frames_scheme \<times> nat option" where
  "c3_file_page_find_slot s path page_off =
     (let h = c3_file_page_hash_for path page_off;
          bucket = unat (ucast (h AND (C3_FILEPAGE_LOOKUP_MAX - 1)) :: u32);
          cached = fr_lookup s bucket;
          sl = unat cached - 1; f = fr_pages s sl
      in if cstr path = [] then (s, None)
         else if cached \<noteq> 0 \<and> sl < C3_FILEPAGE_MAX \<and> fp_used f \<and> fp_hash f = h
              \<and> fp_page_off f = page_off \<and> k_strcmp (fp_path f) path = 0
         then (s, Some sl)
         else (case find (\<lambda>i. fp_used (fr_pages s i) \<and> fp_page_off (fr_pages s i) = page_off
                        \<and> k_strcmp (fp_path (fr_pages s i)) path = 0) [0..<C3_FILEPAGE_MAX] of
                 None \<Rightarrow> (s, None)
               | Some i \<Rightarrow> (s\<lparr> fr_lookup := (fr_lookup s)(bucket := of_nat i + 1) \<rparr>, Some i)))"

definition c3_file_page_must_keep :: "string \<Rightarrow> bool" where
  "c3_file_page_must_keep path \<longleftrightarrow>
     k_starts_with path C3_MEMFD_PREFIX \<or> k_starts_with path C3_DELETED_PREFIX \<or> k_starts_with path ''/dev/shm/''"

definition c3_file_page_alloc_slot :: "'a frames_scheme \<Rightarrow> string \<Rightarrow> 'a frames_scheme \<times> nat option" where
  "c3_file_page_alloc_slot s path =
     (case find (\<lambda>i. \<not> fp_used (fr_pages s i)) [0..<C3_FILEPAGE_MAX] of
        Some i \<Rightarrow> (s, Some i)
      | None \<Rightarrow>
          if c3_file_page_must_keep path
          then (case find (\<lambda>i. fp_used (fr_pages s i) \<and> \<not> c3_file_page_must_keep (fp_path (fr_pages s i)))
                       [0..<C3_FILEPAGE_MAX] of
                  None \<Rightarrow> (s, None)
                | Some i \<Rightarrow> (invalidate_slot c3_phys_ref_release i s, Some i))
          else (s, None))"

definition reclaimable :: "'a frames_scheme \<Rightarrow> nat \<Rightarrow> bool" where
  "reclaimable s i \<longleftrightarrow>
     fp_used (fr_pages s i) \<and> \<not> c3_file_page_must_keep (fp_path (fr_pages s i))
     \<and> (case c3_phys_ref_index (page_floor (fp_phys (fr_pages s i))) of
          None \<Rightarrow> False | Some r \<Rightarrow> fr_refcnt s r = 1)"

definition c3_file_page_reclaim_one :: "'a frames_scheme \<Rightarrow> 'a frames_scheme \<times> bool" where
  "c3_file_page_reclaim_one s =
     (case find (reclaimable s) [0..<C3_FILEPAGE_MAX] of
        None \<Rightarrow> (s, False)
      | Some i \<Rightarrow>
          (let phys = page_floor (fp_phys (fr_pages s i));
               s1 = s\<lparr> fr_pages := (fr_pages s)(i := no_file_page (fr_pages s i)),
                       fr_refcnt := (case c3_phys_ref_index phys of None \<Rightarrow> fr_refcnt s
                                       | Some r \<Rightarrow> (fr_refcnt s)(r := 0)) \<rparr>
           in (set_pmm (pmm_free_frame (fr_pmm s1) phys) s1, True)))"

fun c3_file_page_reclaim :: "nat \<Rightarrow> 'a frames_scheme \<Rightarrow> 'a frames_scheme" where
  "c3_file_page_reclaim 0 s = s"
| "c3_file_page_reclaim (Suc n) s =
     (case c3_file_page_reclaim_one s of (s1, b) \<Rightarrow> if b then c3_file_page_reclaim n s1 else s1)"

text \<open>Three attempts, with more and more reclaimed between them.\<close>

definition pmm_take :: "'a frames_scheme \<Rightarrow> 'a frames_scheme \<times> u64" where
  "pmm_take s = (case pmm_alloc_frame (fr_pmm s) of (p, f) \<Rightarrow> (set_pmm p s, f))"

definition c3_alloc_user_frame :: "'a frames_scheme \<Rightarrow> 'a frames_scheme \<times> u64" where
  "c3_alloc_user_frame s0 =
     (let s = (if pmm_free_count (fr_pmm s0) < 256
               then c3_phys_quarantine_drain 128 (c3_file_page_reclaim 128 s0) else s0)
      in case pmm_take s of
           (s1, f) \<Rightarrow> if f \<noteq> 0 then (s1, f)
             else (case pmm_take (c3_phys_quarantine_drain 512 (c3_file_page_reclaim 512 s1)) of
                     (s2, f2) \<Rightarrow> if f2 \<noteq> 0 then (s2, f2)
                       else pmm_take (c3_phys_quarantine_drain 2048 (c3_file_page_reclaim 2048 s2))))"

text \<open>A fresh page: zeros, then the file's bytes from \<open>page_off\<close> on.\<close>

definition page_bytes :: "u8 list option \<Rightarrow> u64 \<Rightarrow> nat \<Rightarrow> u8" where
  "page_bytes file_data page_off k =
     (case file_data of
        None \<Rightarrow> 0
      | Some d \<Rightarrow> if k < 4096 \<and> unat page_off + k < length d then d ! (unat page_off + k) else 0)"

definition c3_file_page_get_frame :: "'a frames_scheme \<Rightarrow> string \<Rightarrow> u8 list option \<Rightarrow> u64 \<Rightarrow>
    'a frames_scheme \<times> u64" where
  "c3_file_page_get_frame s0 path file_data page_off =
     (case c3_file_page_find_slot s0 path page_off of
        (s1, hit) \<Rightarrow>
          (let cached = (case hit of None \<Rightarrow> 0 | Some i \<Rightarrow> page_floor (fp_phys (fr_pages s1 i)))
           in if cached \<noteq> 0
              then ((c3_phys_ref_retain s1 cached)\<lparr> fr_cow_shared := fr_cow_shared s1 + 1 \<rparr>, cached)
              else (let s2 = (case hit of None \<Rightarrow> s1
                        | Some i \<Rightarrow> s1\<lparr> fr_pages := (fr_pages s1)
                            (i := (fr_pages s1 i)\<lparr> fp_used := False, fp_hash := 0 \<rparr>) \<rparr>)
                    in case c3_alloc_user_frame s2 of
                         (s3, frame) \<Rightarrow>
                           if frame = 0 then (s3, 0)
                           else (let s4 = c3_phys_ref_set_initial s3 frame;
                                     s5 = s4\<lparr> fr_data := (fr_data s4)(frame := page_bytes file_data page_off) \<rparr>
                                 in case c3_file_page_alloc_slot s5 path of
                                      (s6, None) \<Rightarrow>
                                        if c3_file_page_must_keep path then (c3_phys_ref_release s6 frame, 0)
                                        else (s6, frame)
                                    | (s6, Some i) \<Rightarrow>
                                        (let f = (fr_pages s6 i)\<lparr> fp_used := True, fp_page_off := page_off, fp_phys := frame,
                                                   fp_path := k_strlcpy (fp_path (fr_pages s6 i)) path VFS_PATH_MAX,
                                                   fp_hash := c3_file_page_hash_for path page_off \<rparr>;
                                             s7 = s6\<lparr> fr_pages := (fr_pages s6)(i := f) \<rparr>
                                         in (c3_phys_ref_retain (c3_file_page_cache_slot s7 i) frame, frame)))))) "

subsection \<open>Indices\<close>

definition refs :: "'a frames_scheme \<Rightarrow> u64 \<Rightarrow> nat" where
  "refs s a = (case c3_phys_ref_index a of None \<Rightarrow> 0 | Some i \<Rightarrow> unat (fr_refcnt s i))"

lemma page_floor_unat: "unat (page_floor a) = unat a div 4096 * 4096" "unat (a AND - 4096) = unat a div 4096 * 4096"
proof -
  show "unat (page_floor a) = unat a div 4096 * 4096" using unat_and_not_mask [of a 12] by (simp only: low_mask) simp
  then show "unat (a AND - 4096) = unat a div 4096 * 4096" by simp
qed

lemma page_floor_idem [simp]: "page_floor (page_floor a) = page_floor a"
  by (simp add: and.assoc)

lemma index_some:
  assumes "c3_phys_ref_index a = Some i"
  shows "unat a div 4096 * 4096 = 0x200000 + i * 4096" and "a \<noteq> 0" and "page_floor a \<noteq> 0" and "i < PMM_MAX_PAGES"
proof -
  have le: "C3_PMM_BASE \<le> page_floor a" and lt: "(page_floor a - C3_PMM_BASE) div PAGE_SIZE < of_nat PMM_MAX_PAGES"
    and i: "i = unat ((page_floor a - C3_PMM_BASE) div PAGE_SIZE)" and "a \<noteq> 0"
    using assms by (auto simp: c3_phys_ref_index_def Let_def split: if_splits)
  then show "a \<noteq> 0" by simp
  show "page_floor a \<noteq> 0"
  proof
    assume "page_floor a = 0"
    with le show False by (simp add: C3_PMM_BASE_def)
  qed
  have "unat (page_floor a - C3_PMM_BASE) = unat (page_floor a) - 0x200000"
    using le by (simp add: unat_sub C3_PMM_BASE_def)
  then have "i = (unat a div 4096 * 4096 - 0x200000) div 4096"
    unfolding page_floor_unat using i by (simp only: unat_div PAGE_SIZE_def) simp
  moreover have "0x200000 \<le> unat a div 4096 * 4096"
    using le unfolding word_le_nat_alt page_floor_unat by (simp add: C3_PMM_BASE_def)
  moreover have "q * 4096 = 0x200000 + (q * 4096 - 0x200000) div 4096 * 4096" if "0x200000 \<le> q * 4096" for q :: nat
  proof -
    have "q * 4096 - 0x200000 = (q - 512) * 4096" by (simp add: diff_mult_distrib)
    with that show ?thesis by simp
  qed
  ultimately show "unat a div 4096 * 4096 = 0x200000 + i * 4096" by blast
  show "i < PMM_MAX_PAGES" using lt i by (simp add: word_less_nat_alt PMM_MAX_PAGES_def)
qed

lemma index_floor [simp]: "c3_phys_ref_index (page_floor a) = c3_phys_ref_index a"
proof -
  have "page_floor a = 0 \<Longrightarrow> c3_phys_ref_index a = None"
    by (simp add: c3_phys_ref_index_def Let_def C3_PMM_BASE_def)
  moreover have "c3_phys_ref_index 0 = None" by (simp add: c3_phys_ref_index_def)
  moreover have "a = 0 \<Longrightarrow> page_floor a = 0" by simp
  ultimately show ?thesis
    by (cases "page_floor a = 0") (auto simp: c3_phys_ref_index_def Let_def)
qed

lemma index_floor' [simp]: "c3_phys_ref_index (a AND - 4096) = c3_phys_ref_index a"
  using index_floor [of a] by simp

lemma index_inj:
  assumes "c3_phys_ref_index a = Some i" and "c3_phys_ref_index b = Some i"
  shows "page_floor a = page_floor b"
  using index_some(1) [OF assms(1)] index_some(1) [OF assms(2)]
  by (intro word_unat_eq_iff [THEN iffD2]) (simp add: page_floor_unat)

text \<open>Frames of the physical allocator have an index.\<close>

lemma managed_index:
  assumes ok: "pmm_ok p" and a: "a \<in> managed_frames p"
  shows "\<exists>i. c3_phys_ref_index a = Some i" and "page_floor a = a"
proof -
  obtain k where k: "base_idx p \<le> k" "k < unat (g_pmm_total p)" "a = frame_addr k"
    using a by (auto simp: managed_frames_def)
  note D = pmm_okD [OF ok]
  have lt: "k < 2097152" using D(1) k(2) by simp
  have u: "unat a = k * 4096" using k(3) lt by (simp add: unat_frame_addr)
  have b: "512 \<le> k" using D(3) k(1) by simp
  show fl: "page_floor a = a"
    by (rule word_unat_eq_iff [THEN iffD2]) (simp add: page_floor_unat u)
  have "a \<noteq> 0" using u b by auto
  moreover have le: "C3_PMM_BASE \<le> a" using u b by (simp add: word_le_nat_alt C3_PMM_BASE_def)
  moreover have "unat ((a - C3_PMM_BASE) div PAGE_SIZE) = k - 512"
  proof -
    have "unat (a - C3_PMM_BASE) = k * 4096 - 0x200000" using le u by (simp add: unat_sub C3_PMM_BASE_def)
    moreover have "k * 4096 - 0x200000 = (k - 512) * 4096" by (simp add: diff_mult_distrib)
    ultimately show ?thesis by (simp add: unat_div PAGE_SIZE_def)
  qed
  ultimately show "\<exists>i. c3_phys_ref_index a = Some i"
    using lt fl by (auto simp: c3_phys_ref_index_def Let_def word_le_nat_alt word_less_nat_alt PMM_MAX_PAGES_def)
qed

lemma refs_upd:
  assumes "c3_phys_ref_index a = Some i" and "page_floor a = a" and "page_floor b = b"
  shows "refs (s\<lparr> fr_refcnt := (fr_refcnt s)(i := v) \<rparr>) b = (if b = a then unat v else refs s b)"
proof (cases "c3_phys_ref_index b")
  case None
  then show ?thesis using assms(1) by (auto simp: refs_def)
next
  case (Some j)
  have "j = i \<longleftrightarrow> b = a"
  proof
    assume "j = i"
    with Some index_inj [OF assms(1)] have "page_floor a = page_floor b" by blast
    with assms(2,3) show "b = a" by metis
  qed (use Some assms(1) in simp)
  with Some assms(1) show ?thesis by (simp add: refs_def)
qed

subsection \<open>The quarantine as a queue\<close>

definition quar_list :: "'a frames_scheme \<Rightarrow> u64 list" where
  "quar_list s = map (\<lambda>k. fr_quar s ((unat (fr_qhead s) + k) mod 4096)) [0..<unat (fr_qcount s)]"

definition quar_ok :: "'a frames_scheme \<Rightarrow> bool" where
  "quar_ok s \<longleftrightarrow> unat (fr_qhead s) < 4096 \<and> unat (fr_qcount s) \<le> 4096"

lemma succ_mod: "unat (h :: u32) < 4096 \<Longrightarrow> unat ((h + 1) mod of_nat C3_PHYS_QUARANTINE_MAX) = (unat h + 1) mod 4096"
proof -
  assume "unat h < 4096"
  then have "unat (h + 1) = unat h + 1" by (subst unat_add_no_wrap) auto
  then show ?thesis by (simp add: C3_PHYS_QUARANTINE_MAX_def unat_mod)
qed

lemma ring_pos_inj: "h < 4096 \<Longrightarrow> j < 4096 \<Longrightarrow> k < 4096 \<Longrightarrow> (h + j) mod 4096 = (h + k) mod (4096 :: nat) \<longleftrightarrow> j = k"
  by (cases "h + j < 4096"; cases "h + k < 4096") (auto simp: mod_if)

lemma upt_head: "[0..<Suc n] = 0 # map Suc [0..<n]"
  by (simp add: upt_conv_Cons map_Suc_upt)

text \<open>Taking the head off, and putting a frame at the end or, when full, in the place of the head.\<close>

lemma quar_pop:
  assumes ok: "quar_ok s" and c: "fr_qcount s \<noteq> 0"
  shows "quar_list s = fr_quar s (unat (fr_qhead s)) # quar_list (s\<lparr> fr_quar := (fr_quar s)(unat (fr_qhead s) := v),
        fr_qhead := (fr_qhead s + 1) mod of_nat C3_PHYS_QUARANTINE_MAX, fr_qcount := fr_qcount s - 1 \<rparr>)"
proof -
  let ?h = "unat (fr_qhead s)"
  have b: "?h < 4096" "unat (fr_qcount s) \<le> 4096" using ok by (auto simp: quar_ok_def)
  obtain n where n: "unat (fr_qcount s) = Suc n"
    using c unat_eq_zero [of "fr_qcount s"] by (cases "unat (fr_qcount s)") auto
  then have n1: "unat (fr_qcount s - 1) = n" using unat_minus_one [OF c] by simp
  have "fr_quar s ((?h + Suc k) mod 4096)
      = ((fr_quar s)(?h := v)) (((?h + 1) mod 4096 + k) mod 4096)" if "k < n" for k
  proof -
    have "(?h + Suc k) mod 4096 \<noteq> (?h + 0) mod 4096"
      using ring_pos_inj [of ?h "Suc k" 0] b n that by simp
    then have "(?h + Suc k) mod 4096 \<noteq> ?h" using b by simp
    moreover have "((?h + 1) mod 4096 + k) mod 4096 = (?h + Suc k) mod 4096" by (simp add: mod_add_left_eq)
    ultimately show ?thesis by simp
  qed
  then show ?thesis
    unfolding quar_list_def n upt_head using b n1 succ_mod [OF b(1)]
    by (simp del: upt_Suc fun_upd_apply add: comp_def)
qed

lemma quar_push:
  assumes ok: "quar_ok s" and c: "fr_qcount s < of_nat C3_PHYS_QUARANTINE_MAX"
  shows "quar_list (s\<lparr> fr_quar := (fr_quar s)
            (unat ((fr_qhead s + fr_qcount s) mod of_nat C3_PHYS_QUARANTINE_MAX) := a),
          fr_qcount := fr_qcount s + 1 \<rparr>) = quar_list s @ [a]"
proof -
  let ?h = "unat (fr_qhead s)" let ?n = "unat (fr_qcount s)"
  have b: "?h < 4096" "?n < 4096" using ok c by (auto simp: quar_ok_def C3_PHYS_QUARANTINE_MAX_def word_less_nat_alt)
  have u: "unat (fr_qhead s + fr_qcount s) = ?h + ?n" using b by (subst unat_add_no_wrap) auto
  have p: "unat ((fr_qhead s + fr_qcount s) mod of_nat C3_PHYS_QUARANTINE_MAX) = (?h + ?n) mod 4096"
    by (simp add: C3_PHYS_QUARANTINE_MAX_def unat_mod u)
  have n1: "unat (fr_qcount s + 1) = Suc ?n" using b by (subst unat_add_no_wrap) auto
  have "(?h + k) mod 4096 \<noteq> (?h + ?n) mod 4096" if "k < ?n" for k
    using ring_pos_inj [of ?h k ?n] b that by simp
  then show ?thesis unfolding quar_list_def by (simp add: p n1)
qed

lemma quar_replace:
  assumes ok: "quar_ok s" and c: "unat (fr_qcount s) = 4096"
  shows "quar_list (s\<lparr> fr_quar := (fr_quar s)(unat (fr_qhead s) := a),
          fr_qhead := (fr_qhead s + 1) mod of_nat C3_PHYS_QUARANTINE_MAX \<rparr>) = tl (quar_list s) @ [a]"
    and "hd (quar_list s) = fr_quar s (unat (fr_qhead s))" and "quar_list s \<noteq> []"
proof -
  let ?h = "unat (fr_qhead s)"
  have b: "?h < 4096" using ok by (simp add: quar_ok_def)
  have l: "[0..<4096] = [0..<4095] @ [4095 :: nat]" using upt_Suc_append [of 0 4095] by simp
  have l2: "[0..<4096] = 0 # map Suc [0..<4095 :: nat]" using upt_head [of 4095] by simp
  have e: "(Suc ?h mod 4096 + k) mod 4096 = (?h + Suc k) mod 4096" for k by (simp add: mod_add_left_eq mod_Suc_eq)
  have ne: "(?h + Suc k) mod 4096 \<noteq> ?h" if "k < 4095" for k
    using ring_pos_inj [of ?h "Suc k" 0] b that by simp
  have "(?h + Suc 4095) mod 4096 = ?h" using b by simp
  then have "map (\<lambda>k. ((fr_quar s)(?h := a)) ((?h + Suc k) mod 4096)) [0..<4096]
      = map (\<lambda>k. fr_quar s ((?h + Suc k) mod 4096)) [0..<4095] @ [a]"
    unfolding l using ne by simp
  moreover have "tl (quar_list s) = map (\<lambda>k. fr_quar s ((?h + Suc k) mod 4096)) [0..<4095]"
    unfolding quar_list_def c l2 by simp
  ultimately show "quar_list (s\<lparr> fr_quar := (fr_quar s)(?h := a),
          fr_qhead := (fr_qhead s + 1) mod of_nat C3_PHYS_QUARANTINE_MAX \<rparr>) = tl (quar_list s) @ [a]"
    unfolding quar_list_def using succ_mod [OF b] c e by simp
  show "hd (quar_list s) = fr_quar s ?h" "quar_list s \<noteq> []"
    unfolding quar_list_def c l2 using b by auto
qed

subsection \<open>Invariant\<close>

text \<open>
  A frame in the quarantine is one of the allocator's, is not free, is there once and has no
  reference; a free frame has no reference.  \<open>cache_inv s h\<close>: the count of each frame is the
  number of its users \<open>h\<close> plus the number of cached file pages that live in it.
\<close>

abbreviation managed :: "'a frames_scheme \<Rightarrow> u64 set" where "managed s \<equiv> managed_frames (fr_pmm s)"
abbreviation free_set :: "'a frames_scheme \<Rightarrow> u64 set" where "free_set s \<equiv> free_frames (fr_pmm s)"

definition cache_at :: "'a frames_scheme \<Rightarrow> u64 \<Rightarrow> nat set" where
  "cache_at s a = {i. i < C3_FILEPAGE_MAX \<and> fp_used (fr_pages s i) \<and> fp_phys (fr_pages s i) = a}"

definition quar_inv :: "'a frames_scheme \<Rightarrow> bool" where
  "quar_inv s \<longleftrightarrow> pmm_ok (fr_pmm s) \<and> quar_ok s \<and> distinct (quar_list s)
     \<and> (\<forall>a \<in> set (quar_list s). a \<in> managed s \<and> a \<notin> free_set s \<and> refs s a = 0)
     \<and> (\<forall>a \<in> free_set s. refs s a = 0)"

definition cache_inv :: "'a frames_scheme \<Rightarrow> (u64 \<Rightarrow> nat) \<Rightarrow> bool" where
  "cache_inv s h \<longleftrightarrow> (\<forall>i < C3_FILEPAGE_MAX. fp_used (fr_pages s i) \<longrightarrow> fp_phys (fr_pages s i) \<in> managed s)
     \<and> (\<forall>a \<in> managed s. refs s a = h a + card (cache_at s a))"

lemma finite_cache_at [simp]: "finite (cache_at s a)"
  by (simp add: cache_at_def)

lemma refs_cong: "fr_refcnt s' = fr_refcnt s \<Longrightarrow> refs s' a = refs s a"
  by (simp add: refs_def split: option.split)

lemma cache_at_cong: "fr_pages s' = fr_pages s \<Longrightarrow> cache_at s' a = cache_at s a"
  by (simp add: cache_at_def)

lemma cache_inv_cong:
  "fr_refcnt s' = fr_refcnt s \<Longrightarrow> fr_pages s' = fr_pages s \<Longrightarrow> managed s' = managed s \<Longrightarrow> cache_inv s' h = cache_inv s h"
  by (simp add: cache_inv_def refs_cong [of s' s] cache_at_cong [of s' s])

lemma pmm_free_cases:
  assumes ok: "pmm_ok p" and a: "a \<in> managed_frames p"
  shows "pmm_ok (pmm_free_frame p a) \<and> managed_frames (pmm_free_frame p a) = managed_frames p
    \<and> free_frames p \<subseteq> free_frames (pmm_free_frame p a) \<and> free_frames (pmm_free_frame p a) \<subseteq> insert a (free_frames p)"
proof (cases "a \<in> pinned_frames p")
  case True
  with fa.release_pinned [OF ok a] ok show ?thesis by auto
next
  case False
  with fa.release_back [OF ok a] show ?thesis by auto
qed

text \<open>Steps that only move frames from the quarantine to the allocator.\<close>

definition quiet :: "'a frames_scheme \<Rightarrow> 'a frames_scheme \<Rightarrow> bool" where
  "quiet s s' \<longleftrightarrow> fr_refcnt s' = fr_refcnt s \<and> fr_pages s' = fr_pages s \<and> fr_data s' = fr_data s
     \<and> managed s' = managed s \<and> set (quar_list s') \<subseteq> set (quar_list s)
     \<and> free_set s' \<subseteq> free_set s \<union> set (quar_list s) \<and> free_set s \<subseteq> free_set s'"

lemma quiet_refl: "quiet s s"
  by (simp add: quiet_def)

lemma quiet_trans: "quiet s s1 \<Longrightarrow> quiet s1 s2 \<Longrightarrow> quiet s s2"
  unfolding quiet_def by auto

lemma quar_list_cong:
  "fr_quar s' = fr_quar s \<Longrightarrow> fr_qhead s' = fr_qhead s \<Longrightarrow> fr_qcount s' = fr_qcount s \<Longrightarrow> quar_list s' = quar_list s"
  by (simp add: quar_list_def)

lemma quar_pop_step:
  assumes inv: "quar_inv s" and q: "quar_list s = a # quar_list t" and ok: "quar_ok t"
    and same: "fr_refcnt t = fr_refcnt s" "fr_pages t = fr_pages s" "fr_data t = fr_data s"
    and pm: "fr_pmm t = pmm_free_frame (fr_pmm s) (page_floor a)"
  shows "quar_inv t" and "quiet s t"
proof -
  have I: "pmm_ok (fr_pmm s)" "distinct (quar_list s)" "\<And>b. b \<in> free_set s \<Longrightarrow> refs s b = 0"
    and Q: "\<And>b. b \<in> set (quar_list s) \<Longrightarrow> b \<in> managed s \<and> b \<notin> free_set s \<and> refs s b = 0"
    using inv by (auto simp: quar_inv_def)
  have a: "a \<in> managed s" "refs s a = 0" "a \<notin> set (quar_list t)" using Q [of a] I(2) q by auto
  have fl: "page_floor a = a" using managed_index(2) [OF I(1) a(1)] .
  have F: "pmm_ok (fr_pmm t)" "managed t = managed s" "free_set s \<subseteq> free_set t" "free_set t \<subseteq> insert a (free_set s)"
    using pmm_free_cases [OF I(1) a(1)] unfolding pm fl by auto
  have r: "refs t b = refs s b" for b by (rule refs_cong [OF same(1)])
  have 1: "b \<in> managed t \<and> b \<notin> free_set t \<and> refs t b = 0" if "b \<in> set (quar_list t)" for b
    using that Q [of b] q a(3) F by (auto simp: r)
  have 2: "refs t b = 0" if "b \<in> free_set t" for b using that I(3) [of b] F(4) a(2) by (auto simp: r)
  show "quar_inv t" using F(1) ok I(2) q 1 2 by (simp add: quar_inv_def)
  show "quiet s t" using F q by (auto simp: quiet_def same)
qed

lemma quar_nonzero:
  assumes "quar_inv s" and "a \<in> set (quar_list s)"
  shows "a \<noteq> 0"
proof -
  have "pmm_ok (fr_pmm s)" "a \<in> managed s" using assms by (auto simp: quar_inv_def)
  with fa.zero_not_managed show ?thesis by metis
qed

lemma quar_ok_pop:
  "quar_ok s \<Longrightarrow> fr_qcount s \<noteq> 0 \<Longrightarrow> quar_ok (s\<lparr> fr_quar := q,
        fr_qhead := (fr_qhead s + 1) mod of_nat C3_PHYS_QUARANTINE_MAX, fr_qcount := fr_qcount s - 1 \<rparr>)"
  using unat_minus_one [of "fr_qcount s"] succ_mod [of "fr_qhead s"] by (auto simp: quar_ok_def)

lemma drain_quiet: "quar_inv s \<Longrightarrow> quar_inv (c3_phys_quarantine_drain n s) \<and> quiet s (c3_phys_quarantine_drain n s)"
proof (induction n s rule: c3_phys_quarantine_drain.induct)
  case (1 s)
  then show ?case by (simp add: quiet_refl)
next
  case (2 n s)
  show ?case
  proof (cases "fr_qcount s = 0")
    case True
    with 2 show ?thesis by (simp add: quiet_refl)
  next
    case False
    let ?h = "unat (fr_qhead s)"
    let ?s1 = "s\<lparr> fr_quar := (fr_quar s)(?h := 0), fr_qhead := (fr_qhead s + 1) mod of_nat C3_PHYS_QUARANTINE_MAX,
                   fr_qcount := fr_qcount s - 1 \<rparr>"
    have ok: "quar_ok s" using 2(2) by (simp add: quar_inv_def)
    note q = quar_pop [OF ok False, of 0]
    have nz: "fr_quar s ?h \<noteq> 0" using quar_nonzero [OF 2(2)] unfolding q by simp
    let ?t = "set_pmm (pmm_free_frame (fr_pmm s) (page_floor (fr_quar s ?h))) ?s1"
    have "quar_list ?t = quar_list ?s1" by (rule quar_list_cong) simp_all
    with q have q': "quar_list s = fr_quar s ?h # quar_list ?t" by simp
    have S: "quar_inv ?t \<and> quiet s ?t"
      using quar_ok_pop [OF ok False, of "(fr_quar s)(?h := 0)"]
      by (intro conjI quar_pop_step [OF 2(2) q']) (simp_all add: quar_ok_def)
    have d: "c3_phys_quarantine_drain (Suc n) s
        = c3_phys_quarantine_drain n (set_pmm (pmm_free_frame (fr_pmm s) (page_floor (fr_quar s ?h))) ?s1)"
      using False nz by (simp add: Let_def)
    show ?thesis unfolding d
      using 2(1) [OF False refl refl refl refl] S nz by (simp add: Let_def) (blast intro: quiet_trans)
  qed
qed

text \<open>A frame that goes into the quarantine.\<close>

definition parks :: "'a frames_scheme \<Rightarrow> 'a frames_scheme \<Rightarrow> u64 \<Rightarrow> bool" where
  "parks s s' a \<longleftrightarrow> fr_refcnt s' = fr_refcnt s \<and> fr_pages s' = fr_pages s \<and> fr_data s' = fr_data s
     \<and> managed s' = managed s \<and> set (quar_list s') \<subseteq> insert a (set (quar_list s))
     \<and> free_set s' \<subseteq> free_set s \<union> set (quar_list s) \<and> free_set s \<subseteq> free_set s'"

definition idle_frame :: "'a frames_scheme \<Rightarrow> u64 \<Rightarrow> bool" where
  "idle_frame s a \<longleftrightarrow> a \<in> managed s \<and> a \<notin> free_set s \<and> refs s a = 0 \<and> a \<notin> set (quar_list s)"

lemma quar_push_step:
  assumes inv: "quar_inv u" and q: "quar_list t = quar_list u @ [a]" and ok: "quar_ok t"
    and same: "fr_refcnt t = fr_refcnt u" "fr_pages t = fr_pages u" "fr_data t = fr_data u" "fr_pmm t = fr_pmm u"
    and a: "idle_frame u a"
  shows "quar_inv t" and "parks u t a"
proof -
  have r: "refs t b = refs u b" for b by (rule refs_cong [OF same(1)])
  show "quar_inv t" using inv ok a by (auto simp: quar_inv_def q r same(4) idle_frame_def)
  show "parks u t a" by (simp add: parks_def q same)
qed

lemma quiet_idle: "quiet s s' \<Longrightarrow> idle_frame s a \<Longrightarrow> idle_frame s' a"
  using refs_cong [of s' s a] by (auto simp: quiet_def idle_frame_def)

lemma quiet_parks: "quiet s u \<Longrightarrow> parks u t a \<Longrightarrow> parks s t a"
  unfolding quiet_def parks_def by auto

lemma quarantine_parks:
  assumes inv: "quar_inv s0" and a0: "idle_frame s0 a"
  shows "quar_inv (c3_phys_quarantine_frame s0 a) \<and> parks s0 (c3_phys_quarantine_frame s0 a) a"
proof -
  have p0: "pmm_ok (fr_pmm s0)" using inv by (simp add: quar_inv_def)
  have m: "a \<in> managed s0" using a0 by (simp add: idle_frame_def)
  have fl: "page_floor a = a" and nz: "a \<noteq> 0"
    using managed_index(2) [OF p0 m] fa.zero_not_managed [OF p0] m by metis+
  let ?s = "if pmm_free_count (fr_pmm s0) < 256 then c3_phys_quarantine_drain 256 s0 else s0"
  define s where "s = ?s"
  have S: "quar_inv s" "quiet s0 s" using drain_quiet [OF inv, of 256] inv by (auto simp: s_def quiet_refl)
  then have a: "idle_frame s a" using quiet_idle a0 by blast
  have ok: "quar_ok s" using S(1) by (simp add: quar_inv_def)
  let ?t = "c3_phys_quarantine_frame s0 a"
  have "quar_inv ?t \<and> parks s ?t a"
  proof (cases "fr_qcount s < of_nat C3_PHYS_QUARANTINE_MAX")
    case True
    then have t: "?t = s\<lparr> fr_quar := (fr_quar s)
         (unat ((fr_qhead s + fr_qcount s) mod of_nat C3_PHYS_QUARANTINE_MAX) := a), fr_qcount := fr_qcount s + 1 \<rparr>"
      using nz by (simp only: c3_phys_quarantine_frame_def fl s_def [symmetric] Let_def if_True if_False)
    have "unat (fr_qcount s + 1) \<le> 4096"
      using True by (subst unat_add_no_wrap) (auto simp: C3_PHYS_QUARANTINE_MAX_def word_less_nat_alt)
    then have "quar_ok ?t" using ok unfolding t by (simp add: quar_ok_def)
    moreover have "quar_list ?t = quar_list s @ [a]" unfolding t by (rule quar_push [OF ok True])
    moreover have "fr_refcnt ?t = fr_refcnt s" "fr_pages ?t = fr_pages s" "fr_data ?t = fr_data s" "fr_pmm ?t = fr_pmm s"
      by (simp_all add: t)
    ultimately show ?thesis using quar_push_step [OF S(1) _ _ _ _ _ _ a] by blast
  next
    case False
    then have c: "unat (fr_qcount s) = 4096"
      using ok by (simp add: quar_ok_def C3_PHYS_QUARANTINE_MAX_def word_less_nat_alt)
    then have c0: "fr_qcount s \<noteq> 0" by auto
    let ?h = "unat (fr_qhead s)"
    let ?u1 = "s\<lparr> fr_quar := (fr_quar s)(?h := 0), fr_qhead := (fr_qhead s + 1) mod of_nat C3_PHYS_QUARANTINE_MAX,
                   fr_qcount := fr_qcount s - 1 \<rparr>"
    let ?u = "set_pmm (pmm_free_frame (fr_pmm s) (page_floor (fr_quar s ?h))) ?u1"
    note q = quar_pop [OF ok c0, of 0]
    have "quar_list ?u = quar_list ?u1" by (rule quar_list_cong) simp_all
    with q have q': "quar_list s = fr_quar s ?h # quar_list ?u" by simp
    have U: "quar_inv ?u" "quiet s ?u"
      using quar_pop_step [OF S(1) q'] quar_ok_pop [OF ok c0, of "(fr_quar s)(?h := 0)"] by (simp_all add: quar_ok_def)
    have h: "fr_quar s ?h \<noteq> 0" using quar_nonzero [OF S(1)] unfolding q' by simp
    let ?t1 = "s\<lparr> fr_quar := (fr_quar s)(?h := a), fr_qhead := (fr_qhead s + 1) mod of_nat C3_PHYS_QUARANTINE_MAX \<rparr>"
    have t: "?t = set_pmm (pmm_free_frame (fr_pmm s) (page_floor (fr_quar s ?h))) ?t1"
      using nz False h fl by (simp add: c3_phys_quarantine_frame_def s_def [symmetric] Let_def)
    have "quar_list ?t = quar_list ?t1" unfolding t by (rule quar_list_cong) simp_all
    then have "quar_list ?t = quar_list ?u @ [a]" using quar_replace(1) [OF ok c, of a] q' by simp
    moreover have "quar_ok ?t" using ok succ_mod [of "fr_qhead s"] unfolding t by (simp add: quar_ok_def)
    moreover have "fr_refcnt ?t = fr_refcnt ?u" "fr_pages ?t = fr_pages ?u" "fr_data ?t = fr_data ?u" "fr_pmm ?t = fr_pmm ?u"
      by (simp_all add: t)
    ultimately have "quar_inv ?t \<and> parks ?u ?t a"
      using quar_push_step [OF U(1) _ _ _ _ _ _ quiet_idle [OF U(2) a]] by blast
    then show ?thesis using quiet_parks [OF U(2)] by blast
  qed
  then show ?thesis using quiet_parks [OF S(2)] by blast
qed

subsection \<open>Release\<close>

lemma fold_slots:
  assumes "\<And>i s. i < n \<Longrightarrow> fr_refcnt s = R \<Longrightarrow>
      step i s = (if P (fr_pages s i) then s\<lparr> fr_pages := (fr_pages s)(i := f (fr_pages s i)) \<rparr> else s)"
    and "fr_refcnt s = R"
  shows "fold step [0..<n] s = s\<lparr> fr_pages := (\<lambda>i. if i < n \<and> P (fr_pages s i) then f (fr_pages s i) else fr_pages s i) \<rparr>"
  using assms
proof (induction n)
  case 0
  then show ?case by simp
next
  case (Suc n)
  have "fold step [0..<n] s = s\<lparr> fr_pages := (\<lambda>i. if i < n \<and> P (fr_pages s i) then f (fr_pages s i) else fr_pages s i) \<rparr>"
    using Suc.IH Suc.prems by simp
  then show ?case
    using Suc.prems(1) [of n] Suc.prems(2) by (simp del: fun_upd_apply) (auto simp: fun_eq_iff less_Suc_eq)
qed

text \<open>Dropping every cached page of a frame, when the count is 0.\<close>

definition clear_frame :: "'a frames_scheme \<Rightarrow> u64 \<Rightarrow> 'a frames_scheme" where
  "clear_frame s a = s\<lparr> fr_pages := (\<lambda>i. if i < C3_FILEPAGE_MAX \<and> fp_used (fr_pages s i)
       \<and> page_floor (fp_phys (fr_pages s i)) = page_floor a then no_file_page (fr_pages s i) else fr_pages s i) \<rparr>"

lemma invalidate_phys_clear:
  assumes i: "c3_phys_ref_index a = Some r" and z: "fr_refcnt s r = 0"
  shows "c3_file_page_invalidate_phys release s a = clear_frame s a"
proof -
  have "invalidate_slot release k t = t\<lparr> fr_pages := (fr_pages t)(k := no_file_page (fr_pages t k)) \<rparr>"
    if "fr_refcnt t = fr_refcnt s" "page_floor (fp_phys (fr_pages t k)) = page_floor a" for k and t :: "'a frames_scheme"
  proof -
    have "c3_phys_ref_index (fp_phys (fr_pages t k)) = Some r" using that(2) i index_floor by metis
    then show ?thesis using that(1) z by (simp add: invalidate_slot_def Let_def)
  qed
  then show ?thesis
    unfolding c3_file_page_invalidate_phys_def clear_frame_def
    by (intro fold_slots [where R = "fr_refcnt s" and P = "\<lambda>f. fp_used f \<and> page_floor (fp_phys f) = page_floor a", THEN trans])
       auto
qed

text \<open>The recursion ends at its first level.\<close>

lemma release_depth:
  "ref_release_depth (Suc n) s a0 =
     (case c3_phys_ref_index a0 of None \<Rightarrow> s
      | Some i \<Rightarrow>
          if fr_refcnt s i = 0 then s
          else if fr_refcnt s i > 1 then s\<lparr> fr_refcnt := (fr_refcnt s)(i := fr_refcnt s i - 1) \<rparr>
          else c3_phys_quarantine_frame (clear_frame (s\<lparr> fr_refcnt := (fr_refcnt s)(i := 0) \<rparr>) a0) (page_floor a0))"
proof (cases "c3_phys_ref_index a0")
  case (Some i)
  have "c3_file_page_invalidate_phys (ref_release_depth n) (s\<lparr> fr_refcnt := (fr_refcnt s)(i := 0) \<rparr>) (page_floor a0)
      = clear_frame (s\<lparr> fr_refcnt := (fr_refcnt s)(i := 0) \<rparr>) (page_floor a0)"
    by (rule invalidate_phys_clear [of _ i]) (simp_all only: index_floor Some, simp)
  moreover have "clear_frame t (page_floor a0) = clear_frame t a0" for t :: "'a frames_scheme" by (simp add: clear_frame_def)
  ultimately show ?thesis using index_some(3) [OF Some] Some by (simp add: Let_def del: word_of_int_numeral)
qed (simp add: Let_def)

lemma set_refs_inv:
  assumes inv: "quar_inv s" and i: "c3_phys_ref_index a = Some i" and fl: "page_floor a = a"
    and a: "a \<notin> free_set s" "a \<notin> set (quar_list s) \<or> v = 0"
  shows "quar_inv (s\<lparr> fr_refcnt := (fr_refcnt s)(i := v) \<rparr>)"
proof -
  let ?s = "s\<lparr> fr_refcnt := (fr_refcnt s)(i := v) \<rparr>"
  have I: "pmm_ok (fr_pmm s)" "quar_ok s" "distinct (quar_list s)" "\<And>b. b \<in> free_set s \<Longrightarrow> refs s b = 0"
    "\<And>b. b \<in> set (quar_list s) \<Longrightarrow> b \<in> managed s \<and> b \<notin> free_set s \<and> refs s b = 0"
    using inv by (auto simp: quar_inv_def)
  have ql: "quar_list ?s = quar_list s" by (rule quar_list_cong) simp_all
  have q: "quar_ok ?s" using I(2) by (simp add: quar_ok_def)
  have r: "refs ?s b = (if b = a then unat v else refs s b)" if "b \<in> managed s" for b
    by (rule refs_upd [OF i fl managed_index(2) [OF I(1) that]])
  have fm: "b \<in> managed s" if "b \<in> free_set s" for b using fa.free_managed [OF I(1)] that by auto
  have 1: "refs ?s b = 0" if "b \<in> free_set s" for b using r [OF fm [OF that]] I(4) that a(1) by auto
  have 2: "refs ?s b = 0" if "b \<in> set (quar_list s)" for b using r [of b] I(5) [OF that] that a(2) by auto
  show ?thesis using I q 1 2 unfolding quar_inv_def ql by simp
qed

lemma not_free: "quar_inv s \<Longrightarrow> 0 < refs s a \<Longrightarrow> a \<notin> free_set s \<and> a \<notin> set (quar_list s)"
  by (force simp: quar_inv_def)

lemma quar_inv_pages: "quar_inv (s\<lparr> fr_pages := f \<rparr>) = quar_inv s"
  using quar_list_cong [of "s\<lparr> fr_pages := f \<rparr>" s] refs_cong [of "s\<lparr> fr_pages := f \<rparr>" s]
  by (simp add: quar_inv_def quar_ok_def)

lemma release_effect:
  assumes inv: "quar_inv s" and a: "a \<in> managed s" and pos: "0 < refs s a"
  defines "t \<equiv> c3_phys_ref_release s a"
  shows "quar_inv t" and "managed t = managed s" and "fr_data t = fr_data s"
    and "page_floor b = b \<Longrightarrow> refs t b = (if b = a then refs s a - 1 else refs s b)"
    and "set (quar_list t) \<subseteq> insert a (set (quar_list s))" and "free_set t \<subseteq> free_set s \<union> set (quar_list s)"
    and "fr_pages t = (if refs s a = 1 then fr_pages (clear_frame s a) else fr_pages s)"
proof -
  have ok: "pmm_ok (fr_pmm s)" using inv by (simp add: quar_inv_def)
  obtain i where i: "c3_phys_ref_index a = Some i" using managed_index(1) [OF ok a] by blast
  note fl = managed_index(2) [OF ok a]
  have v: "refs s a = unat (fr_refcnt s i)" by (simp add: refs_def i)
  have nf: "a \<notin> free_set s" "a \<notin> set (quar_list s)" using not_free [OF inv pos] by auto
  have "quar_inv t \<and> managed t = managed s \<and> fr_data t = fr_data s
    \<and> (\<forall>b. page_floor b = b \<longrightarrow> refs t b = (if b = a then refs s a - 1 else refs s b))
    \<and> set (quar_list t) \<subseteq> insert a (set (quar_list s)) \<and> free_set t \<subseteq> free_set s \<union> set (quar_list s)
    \<and> fr_pages t = (if refs s a = 1 then fr_pages (clear_frame s a) else fr_pages s)"
  proof (cases "fr_refcnt s i > 1")
    case True
    then have nz: "fr_refcnt s i \<noteq> 0" and n1: "refs s a \<noteq> 1" by (auto simp: v word_less_nat_alt)
    let ?t = "s\<lparr> fr_refcnt := (fr_refcnt s)(i := fr_refcnt s i - 1) \<rparr>"
    have t: "t = ?t" unfolding t_def c3_phys_ref_release_def using i True nz release_depth [of 0 s a] by simp
    have "refs ?t b = (if b = a then refs s a - 1 else refs s b)" if "page_floor b = b" for b
      using refs_upd [OF i fl that, of s "fr_refcnt s i - 1"] unat_minus_one [OF nz] v by simp
    moreover have "quar_inv ?t" using set_refs_inv [OF inv i fl nf(1)] nf(2) by blast
    moreover have "quar_list ?t = quar_list s" by (rule quar_list_cong) simp_all
    ultimately show ?thesis using n1 unfolding t by auto
  next
    case False
    have nz: "fr_refcnt s i \<noteq> 0" using pos v by auto
    then have one: "refs s a = 1" using False pos by (simp add: v word_less_nat_alt)
    let ?s0 = "s\<lparr> fr_refcnt := (fr_refcnt s)(i := 0) \<rparr>"
    let ?s1 = "clear_frame ?s0 a"
    have t: "t = c3_phys_quarantine_frame ?s1 a"
      unfolding t_def c3_phys_ref_release_def using i False nz release_depth [of 0 s a] by (simp only: fl) simp
    have q0: "quar_inv ?s0" using set_refs_inv [OF inv i fl nf(1)] by blast
    then have q1: "quar_inv ?s1" by (simp add: clear_frame_def quar_inv_pages)
    have r0: "refs ?s0 b = (if b = a then 0 else refs s b)" if "page_floor b = b" for b
      using refs_upd [OF i fl that, of s 0] by simp
    have r1: "refs ?s1 b = refs ?s0 b" for b by (rule refs_cong) (simp add: clear_frame_def)
    have ql: "quar_list ?s1 = quar_list s" by (rule quar_list_cong) (simp_all add: clear_frame_def)
    have "idle_frame ?s1 a"
      using a nf r0 [OF fl] r1 [of a] unfolding idle_frame_def ql by (simp add: clear_frame_def)
    then have P: "quar_inv t \<and> parks ?s1 t a" unfolding t by (rule quarantine_parks [OF q1])
    have "refs t b = refs ?s1 b" for b using P by (intro refs_cong) (simp add: parks_def)
    then have "refs t b = (if b = a then refs s a - 1 else refs s b)" if "page_floor b = b" for b
      using r0 [OF that] r1 [of b] one by simp
    moreover have "fr_pages ?s1 = fr_pages (clear_frame s a)" by (simp add: clear_frame_def cong: if_cong)
    moreover have "managed ?s1 = managed s" "free_set ?s1 = free_set s" "fr_data ?s1 = fr_data s"
      by (simp_all add: clear_frame_def)
    ultimately show ?thesis using P one ql by (simp add: parks_def)
  qed
  then show "quar_inv t" "managed t = managed s" "fr_data t = fr_data s"
    "page_floor b = b \<Longrightarrow> refs t b = (if b = a then refs s a - 1 else refs s b)"
    "set (quar_list t) \<subseteq> insert a (set (quar_list s))" "free_set t \<subseteq> free_set s \<union> set (quar_list s)"
    "fr_pages t = (if refs s a = 1 then fr_pages (clear_frame s a) else fr_pages s)" by auto
qed

lemma cache_used:
  assumes "cache_inv s h" and "i < C3_FILEPAGE_MAX" and "fp_used (fr_pages s i)"
  shows "fp_phys (fr_pages s i) \<in> managed s" and "i \<in> cache_at s (fp_phys (fr_pages s i))"
    and "0 < refs s (fp_phys (fr_pages s i))"
proof -
  show m: "fp_phys (fr_pages s i) \<in> managed s" using assms by (simp add: cache_inv_def)
  show c: "i \<in> cache_at s (fp_phys (fr_pages s i))" using assms by (simp add: cache_at_def)
  then have "0 < card (cache_at s (fp_phys (fr_pages s i)))" by (auto simp: card_gt_0_iff)
  with m assms(1) show "0 < refs s (fp_phys (fr_pages s i))" by (simp add: cache_inv_def)
qed

lemma cleared_pages:
  assumes "cache_inv s h" and "pmm_ok (fr_pmm s)" and a: "a \<in> managed s"
  shows "fr_pages (clear_frame s a) = (\<lambda>i. if i \<in> cache_at s a then no_file_page (fr_pages s i) else fr_pages s i)"
proof -
  have "page_floor (fp_phys (fr_pages s i)) = page_floor a \<longleftrightarrow> fp_phys (fr_pages s i) = a"
    if "i < C3_FILEPAGE_MAX" "fp_used (fr_pages s i)" for i
    using managed_index(2) [OF assms(2) cache_used(1) [OF assms(1) that]] managed_index(2) [OF assms(2) a] by metis
  then show ?thesis by (auto simp: clear_frame_def cache_at_def fun_eq_iff)
qed

lemma release_user:
  assumes inv: "quar_inv s" "cache_inv s h" and a: "a \<in> managed s" and h: "0 < h a"
  shows "cache_inv (c3_phys_ref_release s a) (h(a := h a - 1))"
proof -
  have ok: "pmm_ok (fr_pmm s)" using inv by (simp add: quar_inv_def)
  have r: "refs s b = h b + card (cache_at s b)" if "b \<in> managed s" for b using inv(2) that by (simp add: cache_inv_def)
  have pos: "0 < refs s a" using r [OF a] h by simp
  note E = release_effect [OF inv(1) a pos]
  have "cache_at s a = {}" if "refs s a = 1"
  proof -
    have "card (cache_at s a) = 0" using r [OF a] h that by linarith
    then show ?thesis by simp
  qed
  then have p: "fr_pages (c3_phys_ref_release s a) = fr_pages s"
    using E(7) cleared_pages [OF inv(2) ok a] by auto
  have c: "cache_at (c3_phys_ref_release s a) b = cache_at s b" for b by (rule cache_at_cong [OF p])
  have "refs (c3_phys_ref_release s a) b = (if b = a then refs s a - 1 else refs s b)" if "b \<in> managed s" for b
    by (rule E(4) [OF managed_index(2) [OF ok that]])
  then show ?thesis using inv(2) E(2) r h by (auto simp: cache_inv_def p c)
qed

lemma cache_at_clear:
  "cache_at (s\<lparr> fr_pages := (fr_pages s)(i := no_file_page f) \<rparr>) b = cache_at s b - {i}"
  by (auto simp: cache_at_def no_file_page_def)

lemma invalidate_slot_inv:
  assumes inv: "quar_inv s" "cache_inv s h" and i: "i < C3_FILEPAGE_MAX" and u: "fp_used (fr_pages s i)"
  defines "t \<equiv> invalidate_slot c3_phys_ref_release i s"
  shows "quar_inv t" and "cache_inv t h" and "managed t = managed s" and "fr_data t = fr_data s"
    and "fr_pages t = (fr_pages s)(i := no_file_page (fr_pages s i))"
    and "b \<in> managed s \<Longrightarrow> refs t b \<le> refs s b"
proof -
  have ok: "pmm_ok (fr_pmm s)" using inv by (simp add: quar_inv_def)
  let ?a = "fp_phys (fr_pages s i)"
  note C = cache_used [OF inv(2) i u]
  have fl: "page_floor ?a = ?a" using managed_index(2) [OF ok C(1)] .
  obtain r where r: "c3_phys_ref_index ?a = Some r" using managed_index(1) [OF ok C(1)] by blast
  have "0 < unat (fr_refcnt s r)" using C(3) by (simp add: refs_def r)
  then have pos: "fr_refcnt s r > 0" by (simp add: word_less_nat_alt)
  let ?u = "c3_phys_ref_release s ?a"
  note E = release_effect [OF inv(1) C(1) C(3)]
  have cnt: "refs s b = h b + card (cache_at s b)" if "b \<in> managed s" for b using inv(2) that by (simp add: cache_inv_def)
  have nn: "no_file_page (no_file_page f) = no_file_page f" for f by (simp add: no_file_page_def)
  have one: "cache_at s ?a = {i}" if "refs s ?a = 1"
  proof -
    have "card (cache_at s ?a) \<le> 1" using cnt [OF C(1)] that by simp
    then show ?thesis using C(2) finite_cache_at [of s ?a] by (metis card_le_Suc0_iff_eq One_nat_def is_singletonI' singletonD is_singleton_def insertI1 empty_iff)
  qed
  have up: "(fr_pages ?u)(i := no_file_page (fr_pages ?u i)) = (fr_pages s)(i := no_file_page (fr_pages s i))"
    using E(7) cleared_pages [OF inv(2) ok C(1)] one by (auto simp: fun_eq_iff nn)
  have t: "t = ?u\<lparr> fr_pages := (fr_pages s)(i := no_file_page (fr_pages s i)) \<rparr>"
    using pos unfolding t_def invalidate_slot_def Let_def by (simp only: fl r option.case if_True up)
  show p: "fr_pages t = (fr_pages s)(i := no_file_page (fr_pages s i))" by (simp add: t)
  show "quar_inv t" using E(1) by (simp add: t quar_inv_pages)
  show m: "managed t = managed s" and "fr_data t = fr_data s" using E(2,3) by (simp_all add: t)
  have rt: "refs t b = (if b = ?a then refs s ?a - 1 else refs s b)" if "b \<in> managed s" for b
    using E(4) [OF managed_index(2) [OF ok that]] refs_cong [of t ?u b] by (simp add: t)
  then show "b \<in> managed s \<Longrightarrow> refs t b \<le> refs s b" by auto
  have ct: "cache_at t b = cache_at s b - {i}" for b
    using cache_at_clear [of s i "fr_pages s i" b] cache_at_cong [of t "s\<lparr> fr_pages := (fr_pages s)(i := no_file_page (fr_pages s i)) \<rparr>"]
    by (simp add: t)
  have "refs t b = h b + card (cache_at t b)" if "b \<in> managed s" for b
  proof (cases "b = ?a")
    case True
    then show ?thesis using rt [OF that] cnt [OF that] C(2,3) card_Diff_singleton [OF C(2)]
      card_gt_0_iff [of "cache_at s ?a"] by (auto simp: ct)
  next
    case False
    then have "i \<notin> cache_at s b" by (auto simp: cache_at_def)
    then show ?thesis using rt [OF that] cnt [OF that] False by (simp add: ct)
  qed
  then show "cache_inv t h" using inv(2) by (auto simp: cache_inv_def m p no_file_page_def)
qed

subsection \<open>Allocation\<close>

definition frames_inv :: "'a frames_scheme \<Rightarrow> (u64 \<Rightarrow> nat) \<Rightarrow> bool" where
  "frames_inv s h \<longleftrightarrow> quar_inv s \<and> cache_inv s h"

text \<open>Steps that may give up references of the cache, but touch no user's frame.\<close>

definition settles :: "'a frames_scheme \<Rightarrow> 'a frames_scheme \<Rightarrow> (u64 \<Rightarrow> nat) \<Rightarrow> bool" where
  "settles s t h \<longleftrightarrow> frames_inv t h \<and> managed t = managed s \<and> fr_data t = fr_data s
     \<and> (\<forall>b \<in> managed s. refs t b \<le> refs s b)
     \<and> (\<forall>j. fp_used (fr_pages t j) \<longrightarrow> fr_pages t j = fr_pages s j)"

lemma settles_refl: "frames_inv s h \<Longrightarrow> settles s s h"
  by (simp add: settles_def)

lemma settles_trans: "settles s t h \<Longrightarrow> settles t u h \<Longrightarrow> settles s u h"
  unfolding settles_def by (metis order_trans)

lemma settlesD: "settles s t h \<Longrightarrow> frames_inv t h"
  by (simp add: settles_def)

lemma frames_invD:
  assumes "frames_inv s h"
  shows "quar_inv s" and "cache_inv s h" and "pmm_ok (fr_pmm s)"
    and "b \<in> managed s \<Longrightarrow> refs s b = h b + card (cache_at s b)"
  using assms by (auto simp: frames_inv_def quar_inv_def cache_inv_def)

lemma drain_settles:
  assumes "frames_inv s h"
  shows "settles s (c3_phys_quarantine_drain n s) h"
proof -
  let ?t = "c3_phys_quarantine_drain n s"
  have Q: "quar_inv ?t" "quiet s ?t" using drain_quiet frames_invD(1) [OF assms] by blast+
  then have c: "cache_inv ?t h" using cache_inv_cong [of ?t s h] frames_invD(2) [OF assms] by (simp add: quiet_def)
  have "refs ?t b = refs s b" for b using Q(2) by (intro refs_cong) (simp add: quiet_def)
  with Q c show ?thesis by (simp add: settles_def frames_inv_def quiet_def)
qed

lemma reclaim_one_settles:
  assumes inv: "frames_inv s h"
  shows "settles s (fst (c3_file_page_reclaim_one s)) h"
proof (cases "find (reclaimable s) [0..<C3_FILEPAGE_MAX]")
  case None
  then show ?thesis using settles_refl [OF inv] by (simp add: c3_file_page_reclaim_one_def)
next
  case (Some i)
  note I = frames_invD [OF inv]
  have i: "i < C3_FILEPAGE_MAX" and u: "fp_used (fr_pages s i)" and rc: "reclaimable s i"
    using find_SomeD [OF Some] by (auto simp: reclaimable_def)
  let ?a = "fp_phys (fr_pages s i)"
  note C = cache_used [OF I(2) i u]
  have fl: "page_floor ?a = ?a" using managed_index(2) [OF I(3) C(1)] .
  obtain r where r: "c3_phys_ref_index ?a = Some r" using managed_index(1) [OF I(3) C(1)] by blast
  have "fr_refcnt s r = 1" using rc r by (simp add: reclaimable_def)
  then have one: "refs s ?a = 1" by (simp add: refs_def r)
  have nf: "?a \<notin> free_set s" "?a \<notin> set (quar_list s)" using not_free [OF I(1) C(3)] by auto
  let ?s0 = "s\<lparr> fr_refcnt := (fr_refcnt s)(r := 0) \<rparr>"
  let ?s1 = "?s0\<lparr> fr_pages := (fr_pages s)(i := no_file_page (fr_pages s i)) \<rparr>"
  let ?t = "set_pmm (pmm_free_frame (fr_pmm s) ?a) ?s1"
  have t: "fst (c3_file_page_reclaim_one s) = ?t"
    unfolding c3_file_page_reclaim_one_def by (simp only: Some option.case Let_def fl r fst_conv) simp
  have q0: "quar_inv ?s0" using set_refs_inv [OF I(1) r fl nf(1)] by blast
  have r0: "refs ?s0 b = (if b = ?a then 0 else refs s b)" if "b \<in> managed s" for b
    using refs_upd [OF r fl managed_index(2) [OF I(3) that], of s 0] by simp
  have rt: "refs ?t b = refs ?s0 b" for b by (rule refs_cong) simp
  have ql: "quar_list ?t = quar_list s" by (rule quar_list_cong) simp_all
  have F: "pmm_ok (fr_pmm ?t)" "managed ?t = managed s" "free_set s \<subseteq> free_set ?t" "free_set ?t \<subseteq> insert ?a (free_set s)"
    using pmm_free_cases [OF I(3) C(1)] by simp_all
  have Q: "b \<in> managed s \<and> b \<notin> free_set s \<and> refs s b = 0" if "b \<in> set (quar_list s)" for b
    using I(1) that by (simp add: quar_inv_def)
  have 1: "b \<in> managed ?t \<and> b \<notin> free_set ?t \<and> refs ?t b = 0" if "b \<in> set (quar_list ?t)" for b
    using Q [of b] that r0 [of b] rt [of b] F nf(2) unfolding ql by auto
  have 2: "refs ?t b = 0" if "b \<in> free_set ?t" for b
  proof (cases "b = ?a")
    case True
    then show ?thesis using r0 [OF C(1)] rt [of b] by simp
  next
    case False
    then have f: "b \<in> free_set s" using that F(4) by blast
    then have "b \<in> managed s" "refs s b = 0" using fa.free_managed [OF I(3)] I(1) by (auto simp: quar_inv_def)
    then show ?thesis using r0 [of b] rt [of b] False by simp
  qed
  have "quar_ok ?t" "distinct (quar_list s)" using I(1) by (simp_all add: quar_inv_def quar_ok_def)
  then have qi: "quar_inv ?t" using F(1) 1 2 unfolding quar_inv_def ql by blast
  have ct: "cache_at ?t b = cache_at s b - {i}" for b
    using cache_at_clear [of s i "fr_pages s i" b] by (simp add: cache_at_def)
  have cnt: "refs ?t b = h b + card (cache_at ?t b)" if "b \<in> managed s" for b
  proof (cases "b = ?a")
    case True
    have "card (cache_at s ?a) \<noteq> 0" using C(2) by auto
    then have z: "h ?a = 0" and c1: "card (cache_at s ?a) = 1" using I(4) [OF C(1)] one by linarith+
    have "card (cache_at ?t b) = 0" unfolding ct True card_Diff_singleton [OF C(2)] c1 by simp
    then show ?thesis using True r0 [OF that] rt [of b] z by simp
  next
    case False
    then have "i \<notin> cache_at s b" by (auto simp: cache_at_def)
    then show ?thesis using r0 [OF that] rt [of b] I(4) [OF that] False unfolding ct by simp
  qed
  have "cache_inv ?t h" using I(2) cnt F(2) by (auto simp: cache_inv_def no_file_page_def)
  moreover have "refs ?t b \<le> refs s b" if "b \<in> managed s" for b using r0 [OF that] rt [of b] by simp
  moreover have "fr_pages ?t = (fr_pages s)(i := no_file_page (fr_pages s i))" "fr_data ?t = fr_data s" by simp_all
  ultimately show ?thesis using qi F(2) unfolding t settles_def frames_inv_def by (simp add: no_file_page_def)
qed

lemma reclaim_settles: "frames_inv s h \<Longrightarrow> settles s (c3_file_page_reclaim n s) h"
proof (induction n s rule: c3_file_page_reclaim.induct)
  case (1 s)
  then show ?case by (simp add: settles_refl)
next
  case (2 n s)
  obtain s1 b where b: "c3_file_page_reclaim_one s = (s1, b)" by (meson surj_pair)
  have S: "settles s s1 h" using reclaim_one_settles [OF 2(2)] b by simp
  show ?case
  proof (cases b)
    case True
    have "settles s1 (c3_file_page_reclaim n s1) h" using 2(1) [OF b [symmetric] True settlesD [OF S]] .
    with S True b show ?thesis by (simp add: settles_trans)
  qed (use S b in simp)
qed

lemma pmm_take_spec:
  assumes inv: "frames_inv s h" and t: "pmm_take s = (t, f)"
  shows "settles s t h" and "f \<noteq> 0 \<Longrightarrow> idle_frame t f" and "f = 0 \<longleftrightarrow> free_set s = {}"
proof -
  note I = frames_invD [OF inv]
  obtain p where p: "pmm_alloc_frame (fr_pmm s) = (p, f)" and tt: "t = set_pmm p s"
    using t by (auto simp: pmm_take_def split: prod.splits)
  show z: "f = 0 \<longleftrightarrow> free_set s = {}" by (rule fa.alloc_zero_iff [OF I(3) p])
  have ql: "quar_list t = quar_list s" by (rule quar_list_cong) (simp_all add: tt)
  have r: "refs t b = refs s b" for b by (rule refs_cong) (simp add: tt)
  have qo: "quar_ok t" using I(1) by (simp add: tt quar_inv_def quar_ok_def)
  have P: "pmm_ok p \<and> managed_frames p = managed s \<and> free_frames p = free_set s - {f} \<and> (f \<noteq> 0 \<longrightarrow> f \<in> free_set s)"
  proof (cases "free_set s = {}")
    case True
    then show ?thesis using fa.alloc_none [OF I(3) True] p I(3) z by auto
  next
    case False
    then show ?thesis using fa.alloc_some [OF I(3) False] p by auto
  qed
  have pm: "fr_pmm t = p" "fr_data t = fr_data s" "fr_pages t = fr_pages s" by (simp_all add: tt)
  have "quar_inv t" using I(1) qo P unfolding quar_inv_def ql pm by (auto simp: r)
  moreover have "cache_inv t h" using I(2) P cache_inv_cong [of t s h] by (simp add: tt)
  ultimately show "settles s t h" using P by (simp add: settles_def frames_inv_def r pm)
  show "idle_frame t f" if "f \<noteq> 0"
  proof -
    have f: "f \<in> free_set s" using P that by blast
    then have "f \<in> managed s" using fa.free_managed [OF I(3)] by blast
    moreover have "f \<notin> set (quar_list s)" "refs s f = 0" using I(1) f by (auto simp: quar_inv_def)
    ultimately show ?thesis using P by (simp add: idle_frame_def ql r pm)
  qed
qed

lemma alloc_user_frame_spec:
  assumes inv: "frames_inv s h" and t: "c3_alloc_user_frame s = (t, f)"
  shows "settles s t h" and "f \<noteq> 0 \<Longrightarrow> idle_frame t f" and "f = 0 \<Longrightarrow> free_set t = {}"
proof -
  have more: "settles u (c3_phys_quarantine_drain n (c3_file_page_reclaim n u)) h" if "frames_inv u h" for u :: "'a frames_scheme" and n
    using settles_trans [OF reclaim_settles [OF that] drain_settles [OF settlesD [OF reclaim_settles [OF that]]]] .
  define s0 where "s0 = (if pmm_free_count (fr_pmm s) < 256
               then c3_phys_quarantine_drain 128 (c3_file_page_reclaim 128 s) else s)"
  have S0: "settles s s0 h" using more [OF inv] settles_refl [OF inv] by (simp add: s0_def)
  obtain s1 f1 where 1: "pmm_take s0 = (s1, f1)" by (meson surj_pair)
  note T1 = pmm_take_spec [OF settlesD [OF S0] 1]
  have S1: "settles s s1 h" by (rule settles_trans [OF S0 T1(1)])
  define u1 where "u1 = c3_phys_quarantine_drain 512 (c3_file_page_reclaim 512 s1)"
  have U1: "settles s u1 h" unfolding u1_def by (rule settles_trans [OF S1 more [OF settlesD [OF S1]]])
  obtain s2 f2 where 2: "pmm_take u1 = (s2, f2)" by (meson surj_pair)
  note T2 = pmm_take_spec [OF settlesD [OF U1] 2]
  have S2: "settles s s2 h" by (rule settles_trans [OF U1 T2(1)])
  define u2 where "u2 = c3_phys_quarantine_drain 2048 (c3_file_page_reclaim 2048 s2)"
  have U2: "settles s u2 h" unfolding u2_def by (rule settles_trans [OF S2 more [OF settlesD [OF S2]]])
  obtain s3 f3 where 3: "pmm_take u2 = (s3, f3)" by (meson surj_pair)
  note T3 = pmm_take_spec [OF settlesD [OF U2] 3]
  have S3: "settles s s3 h" by (rule settles_trans [OF U2 T3(1)])
  have "c3_alloc_user_frame s = (if f1 \<noteq> 0 then (s1, f1) else if f2 \<noteq> 0 then (s2, f2) else (s3, f3))"
    by (simp add: c3_alloc_user_frame_def Let_def s0_def [symmetric] 1 u1_def [symmetric] 2 u2_def [symmetric] 3)
  then have c: "t = s1 \<and> f = f1 \<and> f \<noteq> 0 \<or> t = s2 \<and> f = f2 \<and> f \<noteq> 0 \<or> t = s3 \<and> f = f3"
    using t by (auto split: if_splits)
  then show "settles s t h" using S1 S2 S3 by blast
  show "f \<noteq> 0 \<Longrightarrow> idle_frame t f" using c T1(2) T2(2) T3(2) by blast
  show "free_set t = {}" if "f = 0"
  proof -
    have t3: "t = s3" "free_set u2 = {}" using c that T3(3) by auto
    then have "fr_pmm s3 = fr_pmm u2"
      using fa.alloc_none [OF frames_invD(3) [OF settlesD [OF U2]]] 3 by (auto simp: pmm_take_def)
    with t3 show ?thesis by simp
  qed
qed

subsection \<open>References taken and given up\<close>

lemma frames_inv_upd:
  assumes inv: "frames_inv s h" and i: "c3_phys_ref_index a = Some i" and a: "a \<in> managed s"
    and nf: "a \<notin> free_set s" "a \<notin> set (quar_list s)" and v: "unat v = h' a + card (cache_at s a)"
    and h': "\<And>b. b \<noteq> a \<Longrightarrow> h' b = h b"
  shows "frames_inv (s\<lparr> fr_refcnt := (fr_refcnt s)(i := v) \<rparr>) h'"
proof -
  note I = frames_invD [OF inv]
  let ?t = "s\<lparr> fr_refcnt := (fr_refcnt s)(i := v) \<rparr>"
  have fl: "page_floor b = b" if "b \<in> managed s" for b using managed_index(2) [OF I(3) that] .
  have c: "cache_at ?t b = cache_at s b" for b by (rule cache_at_cong) simp
  have "refs ?t b = (if b = a then unat v else refs s b)" if "b \<in> managed s" for b
    by (rule refs_upd [OF i fl [OF a] fl [OF that]])
  then have "cache_inv ?t h'" using I(2,4) v h' unfolding cache_inv_def c by simp
  moreover have "quar_inv ?t" using set_refs_inv [OF I(1) i fl [OF a] nf(1)] nf(2) by blast
  ultimately show ?thesis by (simp add: frames_inv_def)
qed

lemma idle_count: "frames_inv s h \<Longrightarrow> idle_frame s a \<Longrightarrow> h a = 0 \<and> cache_at s a = {}"
  using frames_invD(4) [of s h a] by (auto simp: idle_frame_def)

lemma set_initial_inv:
  assumes inv: "frames_inv s h" and a: "idle_frame s a"
  shows "frames_inv (c3_phys_ref_set_initial s a) (h(a := h a + 1))" and "refs (c3_phys_ref_set_initial s a) a = 1"
proof -
  note I = frames_invD [OF inv]
  have m: "a \<in> managed s" using a by (simp add: idle_frame_def)
  obtain i where i: "c3_phys_ref_index a = Some i" using managed_index(1) [OF I(3) m] by blast
  have "unat (fr_refcnt s i) = 0" using a i by (simp add: idle_frame_def refs_def)
  then have t: "c3_phys_ref_set_initial s a = s\<lparr> fr_refcnt := (fr_refcnt s)(i := 1) \<rparr>"
    using i by (simp add: c3_phys_ref_set_initial_def unat_eq_zero)
  note C = idle_count [OF inv a]
  show "frames_inv (c3_phys_ref_set_initial s a) (h(a := h a + 1))"
    unfolding t using a C by (intro frames_inv_upd [OF inv i m]) (auto simp: idle_frame_def)
  show "refs (c3_phys_ref_set_initial s a) a = 1" unfolding t by (simp add: refs_def i)
qed

lemma retain_refs:
  assumes i: "c3_phys_ref_index a = Some i" and "0 < refs s a" and "refs s a < 65535"
  shows "c3_phys_ref_retain s a = s\<lparr> fr_refcnt := (fr_refcnt s)(i := fr_refcnt s i + 1) \<rparr>"
    and "unat (fr_refcnt s i + 1) = refs s a + 1"
proof -
  have v: "refs s a = unat (fr_refcnt s i)" by (simp add: refs_def i)
  then show "c3_phys_ref_retain s a = s\<lparr> fr_refcnt := (fr_refcnt s)(i := fr_refcnt s i + 1) \<rparr>"
    using assms(2,3) by (auto simp: c3_phys_ref_retain_def i word_less_nat_alt)
  show "unat (fr_refcnt s i + 1) = refs s a + 1" using assms(3) v by (subst unat_add_no_wrap) auto
qed

lemma retain_inv:
  assumes inv: "frames_inv s h" and a: "a \<in> managed s" and pos: "0 < refs s a" and room: "refs s a < 65535"
  shows "frames_inv (c3_phys_ref_retain s a) (h(a := h a + 1))"
proof -
  note I = frames_invD [OF inv]
  obtain i where i: "c3_phys_ref_index a = Some i" using managed_index(1) [OF I(3) a] by blast
  note R = retain_refs [OF i pos room]
  show ?thesis unfolding R(1) using R(2) I(4) [OF a] not_free [OF I(1) pos]
    by (intro frames_inv_upd [OF inv i a]) auto
qed

lemma release_inv:
  assumes inv: "frames_inv s h" and a: "0 < h a" "a \<in> managed s"
  shows "frames_inv (c3_phys_ref_release s a) (h(a := h a - 1))" and "managed (c3_phys_ref_release s a) = managed s"
    and "fr_data (c3_phys_ref_release s a) = fr_data s"
proof -
  note I = frames_invD [OF inv]
  have "0 < refs s a" using I(4) [OF a(2)] a(1) by simp
  note E = release_effect [OF I(1) a(2) this]
  show "frames_inv (c3_phys_ref_release s a) (h(a := h a - 1))"
    using E(1) release_user [OF I(1,2) a(2,1)] by (simp add: frames_inv_def)
  show "managed (c3_phys_ref_release s a) = managed s" "fr_data (c3_phys_ref_release s a) = fr_data s" using E(2,3) .
qed

text \<open>Only these fields matter to the invariant.\<close>

lemma frames_inv_cong:
  assumes "fr_refcnt t = fr_refcnt s" and "fr_quar t = fr_quar s" "fr_qhead t = fr_qhead s" "fr_qcount t = fr_qcount s"
    and pm: "fr_pmm t = fr_pmm s"
    and pg: "\<And>i. fp_used (fr_pages t i) = fp_used (fr_pages s i)" "\<And>i. fp_used (fr_pages s i) \<Longrightarrow> fp_phys (fr_pages t i) = fp_phys (fr_pages s i)"
  shows "frames_inv t h = frames_inv s h"
proof -
  have "quar_list t = quar_list s" by (rule quar_list_cong [OF assms(2-4)])
  moreover have "refs t b = refs s b" for b by (rule refs_cong [OF assms(1)])
  moreover have "cache_at t b = cache_at s b" for b using pg by (auto simp: cache_at_def)
  moreover have "quar_ok t = quar_ok s" using assms(3,4) by (simp add: quar_ok_def)
  ultimately show ?thesis using pg by (simp add: frames_inv_def quar_inv_def cache_inv_def pm)
qed

subsection \<open>Operations of the cache\<close>

lemma lookup_same: "s = s\<lparr> fr_lookup := fr_lookup s \<rparr>"
  by simp

lemma find_slot_spec:
  assumes "c3_file_page_find_slot s path off = (t, r)"
  shows "\<exists>l. t = s\<lparr> fr_lookup := l \<rparr>"
    and "r = Some i \<Longrightarrow> i < C3_FILEPAGE_MAX \<and> fp_used (fr_pages s i) \<and> fp_page_off (fr_pages s i) = off
      \<and> cstr (fp_path (fr_pages s i)) = cstr path"
proof -
  have "t = s \<or> (\<exists>m. t = s\<lparr> fr_lookup := m \<rparr>)" using assms
    by (auto simp: c3_file_page_find_slot_def Let_def split: if_splits option.splits)
  then show "\<exists>l. t = s\<lparr> fr_lookup := l \<rparr>" using lookup_same [of s] by blast
  show "r = Some i \<Longrightarrow> i < C3_FILEPAGE_MAX \<and> fp_used (fr_pages s i) \<and> fp_page_off (fr_pages s i) = off
      \<and> cstr (fp_path (fr_pages s i)) = cstr path" using assms
    by (auto simp: c3_file_page_find_slot_def Let_def k_strcmp_eq_iff split: if_splits option.splits dest: find_SomeD)
qed

lemma alloc_slot_spec:
  assumes inv: "frames_inv s h" and t: "c3_file_page_alloc_slot s path = (t, r)"
  shows "settles s t h" and "r = Some i \<Longrightarrow> i < C3_FILEPAGE_MAX \<and> \<not> fp_used (fr_pages t i)"
proof -
  note I = frames_invD [OF inv]
  consider j where "j < C3_FILEPAGE_MAX" "\<not> fp_used (fr_pages s j)" "t = s" "r = Some j"
    | "t = s" "r = None"
    | j where "j < C3_FILEPAGE_MAX" "fp_used (fr_pages s j)" "t = invalidate_slot c3_phys_ref_release j s" "r = Some j"
  proof (cases "find (\<lambda>i. \<not> fp_used (fr_pages s i)) [0..<C3_FILEPAGE_MAX]")
    case (Some j)
    have "s = t" "r = Some j" using t by (auto simp: c3_file_page_alloc_slot_def Some)
    moreover have "j < C3_FILEPAGE_MAX" "\<not> fp_used (fr_pages s j)" using find_SomeD [OF Some] by auto
    ultimately show ?thesis by (intro that(1)) simp_all
  next
    case None
    show ?thesis
    proof (cases "find (\<lambda>i. fp_used (fr_pages s i) \<and> \<not> c3_file_page_must_keep (fp_path (fr_pages s i))) [0..<C3_FILEPAGE_MAX]")
      case (Some j)
      have "s = t \<and> r = None \<or> invalidate_slot c3_phys_ref_release j s = t \<and> r = Some j"
        using t by (auto simp: c3_file_page_alloc_slot_def None Some split: if_splits)
      moreover have "j < C3_FILEPAGE_MAX" "fp_used (fr_pages s j)" using find_SomeD [OF Some] by auto
      ultimately show ?thesis using that(2) that(3) [of j] by blast
    qed (use None t that(2) in \<open>auto simp: c3_file_page_alloc_slot_def split: if_splits\<close>)
  qed
  then have "settles s t h \<and> (r = Some i \<longrightarrow> i < C3_FILEPAGE_MAX \<and> \<not> fp_used (fr_pages t i))"
  proof cases
    case (3 j)
    note V = invalidate_slot_inv [OF I(1,2) 3(1,2)]
    have "settles s t h" unfolding 3(3) settles_def frames_inv_def using V by (simp add: no_file_page_def)
    moreover have "\<not> fp_used (fr_pages t j)" unfolding 3(3) V(5) by (simp add: no_file_page_def)
    ultimately show ?thesis using 3(1) unfolding 3(4) by auto
  qed (use settles_refl [OF inv] in auto)
  then show "settles s t h" "r = Some i \<Longrightarrow> i < C3_FILEPAGE_MAX \<and> \<not> fp_used (fr_pages t i)" by auto
qed

lemma invalidate_path_settles: "frames_inv s h \<Longrightarrow> settles s (c3_file_page_invalidate_path s path) h"
proof (cases "cstr path = []")
  case False
  assume inv: "frames_inv s h"
  let ?step = "\<lambda>i s. if fp_used (fr_pages s i) \<and> k_strcmp (fp_path (fr_pages s i)) path = 0
                       then invalidate_slot c3_phys_ref_release i s else s"
  have step: "settles u (?step i u) h" if "frames_inv u h" "i < C3_FILEPAGE_MAX" for i and u :: "'a frames_scheme"
  proof (cases "fp_used (fr_pages u i)")
    case True
    note V = invalidate_slot_inv [OF frames_invD(1,2) [OF that(1)] that(2) True]
    have "settles u (invalidate_slot c3_phys_ref_release i u) h"
      unfolding settles_def frames_inv_def using V by (simp add: no_file_page_def)
    then show ?thesis using settles_refl [OF that(1)] by simp
  qed (use settles_refl [OF that(1)] in simp)
  have "settles s (fold ?step xs s) h" if "\<forall>i \<in> set xs. i < C3_FILEPAGE_MAX" for xs
    using that inv
  proof (induction xs arbitrary: s)
    case (Cons i xs)
    have "i < C3_FILEPAGE_MAX" and xs: "\<forall>i \<in> set xs. i < C3_FILEPAGE_MAX" using Cons.prems(1) by simp_all
    then have S: "settles s (?step i s) h" by (intro step [OF Cons.prems(2)])
    have "settles (?step i s) (fold ?step xs (?step i s)) h" by (rule Cons.IH [OF xs settlesD [OF S]])
    with S show ?case unfolding fold_simps by (rule settles_trans)
  qed (simp add: settles_refl)
  then show ?thesis using False by (simp add: c3_file_page_invalidate_path_def)
qed (simp add: c3_file_page_invalidate_path_def settles_refl)

lemma cache_slot_lookup: "\<exists>l. c3_file_page_cache_slot s i = s\<lparr> fr_lookup := l \<rparr>"
  using lookup_same [of s] unfolding c3_file_page_cache_slot_def Let_def by (metis (full_types))

lemma rename_inv: "frames_inv s h \<Longrightarrow> frames_inv (c3_file_page_rename_path s p q) h"
proof (cases "cstr p = [] \<or> cstr q = []")
  case False
  assume inv: "frames_inv s h"
  let ?step = "\<lambda>i s. if \<not> fp_used (fr_pages s i) then s
             else if k_strcmp (fp_path (fr_pages s i)) p \<noteq> 0 then s
             else (let f = fr_pages s i;
                       f1 = f\<lparr> fp_path := k_strlcpy (fp_path f) q VFS_PATH_MAX,
                               fp_hash := c3_file_page_hash_for q (fp_page_off f) \<rparr>
                   in c3_file_page_cache_slot (s\<lparr> fr_pages := (fr_pages s)(i := f1) \<rparr>) i)"
  have "frames_inv (?step i u) h" if "frames_inv u h" for i and u :: "'a frames_scheme"
  proof -
    let ?u = "u\<lparr> fr_pages := (fr_pages u)(i := (fr_pages u i)\<lparr> fp_path := k_strlcpy (fp_path (fr_pages u i)) q VFS_PATH_MAX,
                               fp_hash := c3_file_page_hash_for q (fp_page_off (fr_pages u i)) \<rparr>) \<rparr>"
    obtain l where l: "c3_file_page_cache_slot ?u i = ?u\<lparr> fr_lookup := l \<rparr>" using cache_slot_lookup by blast
    have "frames_inv (?u\<lparr> fr_lookup := l \<rparr>) h = frames_inv u h" by (rule frames_inv_cong) simp_all
    then show ?thesis using that by (simp add: Let_def l)
  qed
  then have "frames_inv (fold ?step xs s) h" for xs using inv
    by (induction xs arbitrary: s) (simp_all only: fold_simps)
  then show ?thesis using False by (simp add: c3_file_page_rename_path_def)
qed (simp add: c3_file_page_rename_path_def)

lemma rename_managed: "managed (c3_file_page_rename_path s p q) = managed s"
proof -
  have "managed (fold (\<lambda>i s. if \<not> fp_used (fr_pages s i) then s
             else if k_strcmp (fp_path (fr_pages s i)) p \<noteq> 0 then s
             else (let f = fr_pages s i;
                       f1 = f\<lparr> fp_path := k_strlcpy (fp_path f) q VFS_PATH_MAX,
                               fp_hash := c3_file_page_hash_for q (fp_page_off f) \<rparr>
                   in c3_file_page_cache_slot (s\<lparr> fr_pages := (fr_pages s)(i := f1) \<rparr>) i)) xs s) = managed s" for xs
    by (induction xs arbitrary: s) (simp_all add: Let_def c3_file_page_cache_slot_def)
  then show ?thesis by (simp add: c3_file_page_rename_path_def)
qed

text \<open>A frame that enters the cache gets one reference for it.\<close>

lemma enter_cache_inv:
  assumes inv: "frames_inv s h" and i: "i < C3_FILEPAGE_MAX" "\<not> fp_used (fr_pages s i)"
    and a: "a \<in> managed s" "0 < refs s a" "refs s a < 65535" and f: "fp_used f" "fp_phys f = a"
  shows "frames_inv (c3_phys_ref_retain (c3_file_page_cache_slot (s\<lparr> fr_pages := (fr_pages s)(i := f) \<rparr>) i) a) h"
    and "managed (c3_phys_ref_retain (c3_file_page_cache_slot (s\<lparr> fr_pages := (fr_pages s)(i := f) \<rparr>) i) a) = managed s"
    and "fr_data (c3_phys_ref_retain (c3_file_page_cache_slot (s\<lparr> fr_pages := (fr_pages s)(i := f) \<rparr>) i) a) = fr_data s"
proof -
  note I = frames_invD [OF inv]
  let ?s1 = "s\<lparr> fr_pages := (fr_pages s)(i := f) \<rparr>"
  obtain l where l: "c3_file_page_cache_slot ?s1 i = ?s1\<lparr> fr_lookup := l \<rparr>" using cache_slot_lookup by blast
  let ?s2 = "?s1\<lparr> fr_lookup := l \<rparr>"
  obtain r where r: "c3_phys_ref_index a = Some r" using managed_index(1) [OF I(3) a(1)] by blast
  have e: "refs ?s2 a = refs s a" by (rule refs_cong) simp
  note R = retain_refs [OF r, of ?s2, unfolded e, OF a(2,3)]
  let ?t = "?s2\<lparr> fr_refcnt := (fr_refcnt ?s2)(r := fr_refcnt ?s2 r + 1) \<rparr>"
  have t: "c3_phys_ref_retain (c3_file_page_cache_slot ?s1 i) a = ?t" unfolding l by (rule R(1))
  have fl: "page_floor b = b" if "b \<in> managed s" for b using managed_index(2) [OF I(3) that] .
  have r2: "refs ?t b = (if b = a then refs s a + 1 else refs s b)" if "b \<in> managed s" for b
    using refs_upd [OF r fl [OF a(1)] fl [OF that], of ?s2 "fr_refcnt ?s2 r + 1"] R(2) refs_cong [of ?s2 s b] by simp
  have c: "cache_at ?t b = (if b = a then insert i (cache_at s b) else cache_at s b)" for b
    using i f by (auto simp: cache_at_def split: if_splits)
  have "i \<notin> cache_at s a" using i(2) by (simp add: cache_at_def)
  then have "refs ?t b = h b + card (cache_at ?t b)" if "b \<in> managed s" for b
    using r2 [OF that] I(4) [OF that] unfolding c by (cases "b = a") simp_all
  then have ci: "cache_inv ?t h" using I(2) a(1) f(2) unfolding cache_inv_def by simp
  have "quar_inv ?s1" using I(1) quar_inv_pages by blast
  then have "quar_inv ?s2" using quar_list_cong [of ?s2 ?s1] refs_cong [of ?s2 ?s1] by (simp add: quar_inv_def quar_ok_def)
  moreover have "a \<notin> free_set ?s2" "a \<notin> set (quar_list ?s2)"
    using not_free [OF I(1) a(2)] quar_list_cong [of ?s2 s] by simp_all
  ultimately have "quar_inv ?t" using set_refs_inv [of ?s2 a r "fr_refcnt ?s2 r + 1"] r fl [OF a(1)] by blast
  then show "frames_inv (c3_phys_ref_retain (c3_file_page_cache_slot ?s1 i) a) h"
    unfolding t using ci by (simp only: frames_inv_def)
  show "managed (c3_phys_ref_retain (c3_file_page_cache_slot ?s1 i) a) = managed s"
    "fr_data (c3_phys_ref_retain (c3_file_page_cache_slot ?s1 i) a) = fr_data s" unfolding t by simp_all
qed

text \<open>
  A page of a file: a cached one gets another reference, a new one is filled and entered.  The
  frames in use keep their bytes.
\<close>

lemma get_frame_spec:
  assumes inv: "frames_inv s h" and room: "\<And>b. b \<in> managed s \<Longrightarrow> refs s b < 65535"
    and g: "c3_file_page_get_frame s path data off = (t, f)"
  shows "frames_inv t (if f = 0 then h else h(f := h f + 1))" and "managed t = managed s"
    and "b \<in> managed s \<Longrightarrow> 0 < h b \<Longrightarrow> fr_data t b = fr_data s b" and "f \<noteq> 0 \<Longrightarrow> f \<in> managed s"
proof -
  obtain s1 hit where fs: "c3_file_page_find_slot s path off = (s1, hit)" by (meson surj_pair)
  obtain l where l: "s1 = s\<lparr> fr_lookup := l \<rparr>" using find_slot_spec(1) [OF fs] by blast
  have inv1: "frames_inv s1 h" using inv frames_inv_cong [of s1 s h] by (simp add: l)
  note I1 = frames_invD [OF inv1]
  have "frames_inv t (if f = 0 then h else h(f := h f + 1)) \<and> managed t = managed s
    \<and> (b \<in> managed s \<longrightarrow> 0 < h b \<longrightarrow> fr_data t b = fr_data s b) \<and> (f \<noteq> 0 \<longrightarrow> f \<in> managed s)"
  proof (cases hit)
    case (Some i)
    have i: "i < C3_FILEPAGE_MAX" "fp_used (fr_pages s1 i)" using find_slot_spec(2) [OF fs Some] by (simp_all add: l)
    let ?a = "fp_phys (fr_pages s1 i)"
    note C = cache_used [OF I1(2) i]
    have fl: "page_floor ?a = ?a" using managed_index(2) [OF I1(3) C(1)] .
    have nz: "?a \<noteq> 0" using fa.zero_not_managed [OF I1(3)] C(1) by metis
    have rm: "refs s1 ?a < 65535" using room [of ?a] C(1) refs_cong [of s1 s ?a] by (simp add: l)
    have e: "t = (c3_phys_ref_retain s1 ?a)\<lparr> fr_cow_shared := fr_cow_shared s1 + 1 \<rparr>" "f = ?a"
      using g nz by (auto simp: c3_file_page_get_frame_def fs Some Let_def fl [simplified])
    have R: "frames_inv (c3_phys_ref_retain s1 ?a) (h(?a := h ?a + 1))" by (rule retain_inv [OF inv1 C(1,3) rm])
    have "frames_inv t (h(?a := h ?a + 1))" using R frames_inv_cong [of t "c3_phys_ref_retain s1 ?a"] by (simp add: e)
    moreover obtain r where r: "c3_phys_ref_index ?a = Some r" using managed_index(1) [OF I1(3) C(1)] by blast
    moreover note retain_refs(1) [OF r C(3) rm]
    ultimately show ?thesis using nz C(1) by (simp add: e(1,2)) (simp add: l)
  next
    case None
    obtain s3 fr where al: "c3_alloc_user_frame s1 = (s3, fr)" by (meson surj_pair)
    note A = alloc_user_frame_spec [OF inv1 al]
    have m3: "managed s3 = managed s" "fr_data s3 = fr_data s" using A(1) by (simp_all add: settles_def l)
    show ?thesis
    proof (cases "fr = 0")
      case True
      then have "t = s3" "f = 0" using g by (auto simp: c3_file_page_get_frame_def fs None al)
      then show ?thesis using m3 settlesD [OF A(1)] by simp
    next
      case False
      note idle = A(2) [OF False]
      define s4 where "s4 = c3_phys_ref_set_initial s3 fr"
      let ?h = "h(fr := h fr + 1)"
      note S4 = set_initial_inv [OF settlesD [OF A(1)] idle, folded s4_def]
      have s4: "managed s4 = managed s" "fr_data s4 = fr_data s"
        unfolding s4_def c3_phys_ref_set_initial_def using m3 by (simp_all split: option.split)
      define s5 where "s5 = s4\<lparr> fr_data := (fr_data s4)(fr := page_bytes data off) \<rparr>"
      have inv5: "frames_inv s5 ?h" using S4(1) frames_inv_cong [of s5 s4 ?h] by (simp add: s5_def)
      have r5: "refs s5 fr = 1" using S4(2) refs_cong [of s5 s4 fr] by (simp add: s5_def)
      have fm: "fr \<in> managed s" using idle m3 by (simp add: idle_frame_def)
      have h0: "h fr = 0" using idle_count [OF settlesD [OF A(1)] idle] by simp
      have d5: "fr_data s5 b = fr_data s b" if "0 < h b" using that h0 s4(2) by (auto simp: s5_def)
      obtain s6 r where sl: "c3_file_page_alloc_slot s5 path = (s6, r)" by (meson surj_pair)
      note L = alloc_slot_spec [OF inv5 sl]
      have m6: "managed s6 = managed s" "fr_data s6 = fr_data s5" "refs s6 fr \<le> 1"
        using L(1) fm r5 s4(1) by (auto simp: settles_def s5_def)
      note I6 = settlesD [OF L(1)]
      have g': "(t, f) = (case (s6, r) of (s6, None) \<Rightarrow>
            if c3_file_page_must_keep path then (c3_phys_ref_release s6 fr, 0) else (s6, fr)
          | (s6, Some i) \<Rightarrow>
            (let f = (fr_pages s6 i)\<lparr> fp_used := True, fp_page_off := off, fp_phys := fr,
                       fp_path := k_strlcpy (fp_path (fr_pages s6 i)) path VFS_PATH_MAX,
                       fp_hash := c3_file_page_hash_for path off \<rparr>;
                 s7 = s6\<lparr> fr_pages := (fr_pages s6)(i := f) \<rparr>
             in (c3_phys_ref_retain (c3_file_page_cache_slot s7 i) fr, fr)))"
        using g False by (simp add: c3_file_page_get_frame_def fs None al Let_def s4_def [symmetric] s5_def [symmetric] sl)
      show ?thesis
      proof (cases r)
        case None
        show ?thesis
        proof (cases "c3_file_page_must_keep path")
          case True
          then have e: "t = c3_phys_ref_release s6 fr" "f = 0" using g' None by simp_all
          have "?h(fr := ?h fr - 1) = h" by simp
          then show ?thesis using release_inv [OF I6, of fr] fm m6 d5 e by simp
        next
          case False
          then have "t = s6" "f = fr" using g' None by simp_all
          then show ?thesis using I6 m6 d5 fm \<open>fr \<noteq> 0\<close> by simp
        qed
      next
        case (Some i)
        let ?f = "(fr_pages s6 i)\<lparr> fp_used := True, fp_page_off := off, fp_phys := fr,
                       fp_path := k_strlcpy (fp_path (fr_pages s6 i)) path VFS_PATH_MAX,
                       fp_hash := c3_file_page_hash_for path off \<rparr>"
        have e: "t = c3_phys_ref_retain (c3_file_page_cache_slot (s6\<lparr> fr_pages := (fr_pages s6)(i := ?f) \<rparr>) i) fr" "f = fr"
          using g' Some by (simp_all add: Let_def)
        have i: "i < C3_FILEPAGE_MAX" "\<not> fp_used (fr_pages s6 i)" using L(2) [OF Some] by simp_all
        have "0 < refs s6 fr" using frames_invD(4) [OF I6, of fr] fm m6 by simp
        note E = enter_cache_inv [OF I6 i _ this, of ?f]
        have "frames_inv t ?h \<and> managed t = managed s \<and> fr_data t = fr_data s5"
          unfolding e using E fm m6 by simp
        then show ?thesis using e(2) False fm d5 by simp
      qed
    qed
  qed
  then show "frames_inv t (if f = 0 then h else h(f := h f + 1))" "managed t = managed s"
    "b \<in> managed s \<Longrightarrow> 0 < h b \<Longrightarrow> fr_data t b = fr_data s b" "f \<noteq> 0 \<Longrightarrow> f \<in> managed s" by auto
qed

end
