(* ===== verification/KMmap.thy ===== *)
theory KMmap
  imports KFrames
begin

text \<open>
  The table of user memory regions of \<^verbatim>\<open>src/compat/linux_syscalls.c\<close> (\<open>g_mmap_table\<close>): its
  entries and predicates, the searches over it, merging of neighbours, and the cuts that
  \<open>munmap\<close> and \<open>mprotect\<close> make.  The table is abstracted to a map from pages to attributes, one
  map per address space; well-formed tables hold page-aligned, disjoint regions of user space.
\<close>

subsection \<open>Entries\<close>

definition MMAP_REGION_MAX :: nat where "MMAP_REGION_MAX = 16384"
definition C3_USER_TOP :: u64 where "C3_USER_TOP = 0x0000800000000000"
definition C3_PROT_READ :: u32 where "C3_PROT_READ = 1"
definition C3_PROT_WRITE :: u32 where "C3_PROT_WRITE = 2"
definition C3_PROT_EXEC :: u32 where "C3_PROT_EXEC = 4"
definition C3_MAP_SHARED :: u32 where "C3_MAP_SHARED = 1"
definition C3_MAP_PRIVATE :: u32 where "C3_MAP_PRIVATE = 2"
definition C3_MAP_FIXED :: u32 where "C3_MAP_FIXED = 0x10"
definition C3_MAP_ANONYMOUS :: u32 where "C3_MAP_ANONYMOUS = 0x20"
definition C3_MAP_FIXED_NOREPLACE :: u32 where "C3_MAP_FIXED_NOREPLACE = 0x100000"

record region =
  mm_used :: bool
  mm_as :: as_ref
  mm_virt :: u64
  mm_size :: u64
  mm_prot :: u32
  mm_flags :: u32
  mm_fd :: int
  mm_offset :: u64
  mm_drm_handle :: u32
  mm_resident_pages :: u32
  mm_backing_kind :: nat
  mm_no_free_phys :: bool
  mm_backing_path :: string

type_synonym mmap_table = "nat \<Rightarrow> region"

abbreviation slots :: "nat list" where "slots \<equiv> [0..<MMAP_REGION_MAX]"

definition c3_mmap_is_anon :: "u32 \<Rightarrow> bool" where "c3_mmap_is_anon flags \<longleftrightarrow> flags AND C3_MAP_ANONYMOUS \<noteq> 0"
definition c3_mmap_is_private :: "u32 \<Rightarrow> bool" where "c3_mmap_is_private flags \<longleftrightarrow> flags AND C3_MAP_PRIVATE \<noteq> 0"
definition c3_mmap_is_shared :: "u32 \<Rightarrow> bool" where "c3_mmap_is_shared flags \<longleftrightarrow> flags AND C3_MAP_SHARED \<noteq> 0"

definition c3_mmap_is_lazy_anon :: "region \<Rightarrow> bool" where
  "c3_mmap_is_lazy_anon m \<longleftrightarrow> mm_used m \<and> mm_fd m < 0 \<and> c3_mmap_is_anon (mm_flags m)"

definition c3_mmap_is_lazy_private_file :: "region \<Rightarrow> bool" where
  "c3_mmap_is_lazy_private_file m \<longleftrightarrow> mm_used m \<and> cstr (mm_backing_path m) \<noteq> []
     \<and> c3_mmap_is_private (mm_flags m) \<and> \<not> c3_mmap_is_anon (mm_flags m)"

definition c3_mmap_owns_phys :: "region \<Rightarrow> bool" where
  "c3_mmap_owns_phys m \<longleftrightarrow> \<not> (mm_used m \<and> mm_no_free_phys m)"

definition c3_mmap_pages_u32 :: "u64 \<Rightarrow> u32" where
  "c3_mmap_pages_u32 len =
     (let pages = (len + PAGE_SIZE - 1) div PAGE_SIZE in if pages > 0xFFFFFFFF then 0xFFFFFFFF else ucast pages)"

definition c3_mmap_resident_add :: "region \<Rightarrow> u64 \<Rightarrow> region" where
  "c3_mmap_resident_add m pages =
     (if \<not> mm_used m \<or> pages = 0 then m
      else (let cur = ucast (mm_resident_pages m) + pages
            in m\<lparr> mm_resident_pages := (if cur > 0xFFFFFFFF then 0xFFFFFFFF else ucast cur) \<rparr>))"

definition c3_mmap_resident_clamp :: "region \<Rightarrow> region" where
  "c3_mmap_resident_clamp m =
     (if \<not> mm_used m then m
      else (let max_pages = c3_mmap_pages_u32 (mm_size m)
            in if mm_resident_pages m > max_pages then m\<lparr> mm_resident_pages := max_pages \<rparr> else m))"

text \<open>The four characters of a line of \<open>/proc/self/maps\<close>.\<close>

definition c3_mmap_perm_text :: "u32 \<Rightarrow> u32 \<Rightarrow> string" where
  "c3_mmap_perm_text prot flags =
     [if prot AND C3_PROT_READ \<noteq> 0 then CHR ''r'' else CHR ''-'', if prot AND C3_PROT_WRITE \<noteq> 0 then CHR ''w'' else CHR ''-'',
      if prot AND C3_PROT_EXEC \<noteq> 0 then CHR ''x'' else CHR ''-'', if c3_mmap_is_private flags then CHR ''p'' else CHR ''s'']"

definition c3_mmap_pte_flags_from_prot :: "u32 \<Rightarrow> u64" where
  "c3_mmap_pte_flags_from_prot prot =
     (let p0 = PAGE_PRESENT;
          p1 = (if prot AND (C3_PROT_READ OR C3_PROT_WRITE OR C3_PROT_EXEC) \<noteq> 0 then p0 OR PAGE_USER else p0);
          p2 = (if prot AND C3_PROT_WRITE \<noteq> 0 then p1 OR PAGE_WRITABLE else p1)
      in if prot AND C3_PROT_EXEC = 0 then p2 OR PAGE_NX else p2)"

subsection \<open>Searches\<close>

definition c3_mmap_backing_path_used_anywhere :: "mmap_table \<Rightarrow> string \<Rightarrow> bool" where
  "c3_mmap_backing_path_used_anywhere g path \<longleftrightarrow>
     cstr path \<noteq> [] \<and> list_ex (\<lambda>i. mm_used (g i) \<and> cstr (mm_backing_path (g i)) \<noteq> []
        \<and> k_strcmp (mm_backing_path (g i)) path = 0) slots"

definition c3_mmap_rename_backing_path :: "mmap_table \<Rightarrow> string \<Rightarrow> string \<Rightarrow> mmap_table" where
  "c3_mmap_rename_backing_path g old_path new_path =
     (if cstr old_path = [] \<or> cstr new_path = [] then g
      else fold (\<lambda>i g. if \<not> mm_used (g i) then g
             else if k_strcmp (mm_backing_path (g i)) old_path \<noteq> 0 then g
             else g(i := (g i)\<lparr> mm_backing_path := k_strlcpy (mm_backing_path (g i)) new_path VFS_PATH_MAX \<rparr>)) slots g)"

definition c3_exec_clear_mmap_for_as :: "mmap_table \<Rightarrow> as_ref \<Rightarrow> mmap_table" where
  "c3_exec_clear_mmap_for_as g r =
     (if r = NullAS \<or> r = KernelAS then g
      else fold (\<lambda>i g. if \<not> mm_used (g i) \<or> mm_as (g i) \<noteq> r then g else g(i := (g i)\<lparr> mm_used := False \<rparr>)) slots g)"

definition c3_mmap_alloc_slot :: "mmap_table \<Rightarrow> nat option" where
  "c3_mmap_alloc_slot g = find (\<lambda>i. \<not> mm_used (g i)) slots"

definition c3_mmap_alloc_slot_except :: "mmap_table \<Rightarrow> nat \<Rightarrow> nat option" where
  "c3_mmap_alloc_slot_except g skip = find (\<lambda>i. i \<noteq> skip \<and> \<not> mm_used (g i)) slots"

definition c3_mmap_overlap_as :: "mmap_table \<Rightarrow> as_ref \<Rightarrow> u64 \<Rightarrow> u64 \<Rightarrow> int \<Rightarrow> bool" where
  "c3_mmap_overlap_as g r s e skip_idx \<longleftrightarrow>
     list_ex (\<lambda>i. int i \<noteq> skip_idx \<and> mm_used (g i) \<and> mm_as (g i) = r
        \<and> \<not> (e \<le> mm_virt (g i) \<or> s \<ge> mm_virt (g i) + mm_size (g i))) slots"

text \<open>The page after the last region that overlaps, and whether there was one.\<close>

definition c3_mmap_next_gap_after_overlap :: "mmap_table \<Rightarrow> as_ref \<Rightarrow> u64 \<Rightarrow> u64 \<Rightarrow> int \<Rightarrow> bool \<times> u64" where
  "c3_mmap_next_gap_after_overlap g r s e skip_idx =
     fold (\<lambda>i (hit, n).
        let rs = mm_virt (g i); re = rs + mm_size (g i); candidate = (re + PAGE_SIZE - 1) AND NOT (PAGE_SIZE - 1)
        in if int i = skip_idx \<or> \<not> mm_used (g i) then (hit, n)
           else if mm_as (g i) \<noteq> r then (hit, n)
           else if e \<le> rs \<or> s \<ge> re then (hit, n)
           else (True, if candidate > n then candidate else n)) slots (False, s + PAGE_SIZE)"

text \<open>The smallest region that holds the address, the last of several of that size.\<close>

definition region_find_step :: "mmap_table \<Rightarrow> as_ref \<Rightarrow> u64 \<Rightarrow> nat \<Rightarrow> int \<times> u64 \<Rightarrow> int \<times> u64" where
  "region_find_step g r addr i acc =
     (case acc of (best, best_size) \<Rightarrow>
        let s = mm_virt (g i); e = s + mm_size (g i)
        in if \<not> mm_used (g i) \<or> mm_as (g i) \<noteq> r then acc
           else if addr \<ge> s \<and> addr < e
                then if mm_size (g i) < best_size \<or> (mm_size (g i) = best_size \<and> int i > best)
                     then (int i, mm_size (g i)) else acc
                else acc)"

definition c3_mmap_region_find :: "mmap_table \<Rightarrow> as_ref \<Rightarrow> u64 \<Rightarrow> int" where
  "c3_mmap_region_find g r addr = fst (fold (region_find_step g r addr) slots (- 1, NOT 0))"

function range_covered_loop :: "mmap_table \<Rightarrow> as_ref \<Rightarrow> u64 \<Rightarrow> u64 \<Rightarrow> bool" where
  "range_covered_loop g r ue cur =
     (if \<not> cur < ue then True
      else (let idx = c3_mmap_region_find g r cur; m = g (nat idx); e = mm_virt m + mm_size m
            in if idx < 0 then False
               else if e \<le> cur then False
               else range_covered_loop g r ue (if e < ue then e else ue)))"
  by pat_completeness auto
termination
  by (relation "measure (\<lambda>(g, r, ue, cur). unat ue - unat cur)") (auto simp: word_less_nat_alt word_le_nat_alt Let_def)

definition c3_mmap_range_fully_covered :: "mmap_table \<Rightarrow> as_ref \<Rightarrow> u64 \<Rightarrow> u64 \<Rightarrow> bool" where
  "c3_mmap_range_fully_covered g r us ue = range_covered_loop g r ue us"

subsection \<open>Merging\<close>

definition c3_mmap_can_merge :: "region \<Rightarrow> region \<Rightarrow> bool" where
  "c3_mmap_can_merge a b \<longleftrightarrow>
     mm_used a \<and> mm_used b \<and> mm_as a = mm_as b \<and> mm_prot a = mm_prot b \<and> mm_flags a = mm_flags b
     \<and> mm_fd a = mm_fd b \<and> mm_backing_kind a = mm_backing_kind b \<and> mm_no_free_phys a = mm_no_free_phys b
     \<and> k_strcmp (mm_backing_path a) (mm_backing_path b) = 0 \<and> mm_virt a + mm_size a = mm_virt b
     \<and> (c3_mmap_is_anon (mm_flags a) \<and> c3_mmap_is_anon (mm_flags b) \<or> mm_offset a + mm_size a = mm_offset b)"

text \<open>Slot \<open>i\<close> takes in slot \<open>j\<close> behind it.\<close>

definition merge_behind :: "mmap_table \<Rightarrow> nat \<Rightarrow> nat \<Rightarrow> mmap_table" where
  "merge_behind g i j =
     (let a = c3_mmap_resident_add (g i) (ucast (mm_resident_pages (g j)))
      in g(i := a\<lparr> mm_size := mm_size a + mm_size (g j) \<rparr>, j := (g j)\<lparr> mm_used := False \<rparr>))"

definition c3_mmap_merge_adjacent :: "mmap_table \<Rightarrow> as_ref \<Rightarrow> mmap_table" where
  "c3_mmap_merge_adjacent g r =
     fold (\<lambda>i g. if \<not> mm_used (g i) \<or> mm_as (g i) \<noteq> r then g
        else fold (\<lambda>j g. if i = j \<or> \<not> mm_used (g j) \<or> mm_as (g j) \<noteq> r then g
             else if c3_mmap_can_merge (g i) (g j) then merge_behind g i j else g) slots g) slots g"

text \<open>Slot \<open>i\<close> takes in slot \<open>j\<close> in front of it.\<close>

definition merge_front :: "mmap_table \<Rightarrow> nat \<Rightarrow> nat \<Rightarrow> mmap_table" where
  "merge_front g i j =
     (let a = c3_mmap_resident_add (g i) (ucast (mm_resident_pages (g j)))
      in g(i := a\<lparr> mm_virt := mm_virt (g j), mm_offset := mm_offset (g j), mm_size := mm_size a + mm_size (g j) \<rparr>,
           j := (g j)\<lparr> mm_used := False \<rparr>))"

definition mergeable :: "mmap_table \<Rightarrow> nat \<Rightarrow> nat \<Rightarrow> bool" where
  "mergeable g i j \<longleftrightarrow> j \<noteq> i \<and> mm_used (g j) \<and> (c3_mmap_can_merge (g i) (g j) \<or> c3_mmap_can_merge (g j) (g i))"

definition used_count :: "mmap_table \<Rightarrow> nat" where
  "used_count g = card {i. i < MMAP_REGION_MAX \<and> mm_used (g i)}"

lemma used_count_drop:
  assumes "j < MMAP_REGION_MAX" and "mm_used (g j)" and "\<And>k. mm_used (g' k) \<Longrightarrow> mm_used (g k) \<and> k \<noteq> j"
  shows "used_count g' < used_count g"
  unfolding used_count_def by (rule psubset_card_mono) (use assms in auto)

lemma merge_used:
  "mm_used (merge_behind g i j k) \<longleftrightarrow> mm_used (g k) \<and> k \<noteq> j"
  "mm_used (merge_front g i j k) \<longleftrightarrow> mm_used (g k) \<and> k \<noteq> j"
  by (auto simp: merge_behind_def merge_front_def Let_def c3_mmap_resident_add_def)

function merge_slot_loop :: "mmap_table \<Rightarrow> nat \<Rightarrow> mmap_table" where
  "merge_slot_loop g i =
     (case find (mergeable g i) slots of
        None \<Rightarrow> g
      | Some j \<Rightarrow> merge_slot_loop (if c3_mmap_can_merge (g i) (g j) then merge_behind g i j else merge_front g i j) i)"
  by pat_completeness auto
termination
proof (relation "measure (\<lambda>(g, i). used_count g)", simp, goal_cases)
  case (1 g i j)
  have j: "j < MMAP_REGION_MAX" "mm_used (g j)" using find_SomeD [OF 1] by (auto simp: mergeable_def)
  have "used_count (if c3_mmap_can_merge (g i) (g j) then merge_behind g i j else merge_front g i j) < used_count g"
    by (rule used_count_drop [of j g, OF j]) (auto simp: merge_used split: if_splits)
  then show ?case by simp
qed

definition c3_mmap_merge_slot :: "mmap_table \<Rightarrow> int \<Rightarrow> mmap_table" where
  "c3_mmap_merge_slot g sl =
     (if sl < 0 \<or> sl \<ge> int MMAP_REGION_MAX then g
      else if \<not> mm_used (g (nat sl)) then g
      else merge_slot_loop g (nat sl))"

subsection \<open>Cuts\<close>

text \<open>What \<open>munmap\<close> leaves of slot \<open>i\<close>, \<open>[rs, re)\<close>, when \<open>[os, oe)\<close> goes.\<close>

definition munmap_cut :: "mmap_table \<Rightarrow> nat \<Rightarrow> u64 \<Rightarrow> u64 \<Rightarrow> mmap_table" where
  "munmap_cut g i os oe =
     (let m = g i; rs = mm_virt m; re = rs + mm_size m
      in if os = rs \<and> oe = re then g(i := m\<lparr> mm_used := False \<rparr>)
         else if os = rs
         then g(i := c3_mmap_resident_clamp (m\<lparr> mm_virt := oe, mm_size := re - oe, mm_offset := mm_offset m + (oe - rs) \<rparr>))
         else if oe = re then g(i := c3_mmap_resident_clamp (m\<lparr> mm_size := os - rs \<rparr>))
         else (case c3_mmap_alloc_slot g of
                 Some ns \<Rightarrow> g(i := c3_mmap_resident_clamp (m\<lparr> mm_size := os - rs \<rparr>),
                              ns := c3_mmap_resident_clamp
                                (m\<lparr> mm_virt := oe, mm_size := re - oe, mm_offset := mm_offset m + (oe - rs) \<rparr>))
               | None \<Rightarrow> g(i := c3_mmap_resident_clamp (m\<lparr> mm_size := os - rs \<rparr>))))"

text \<open>How \<open>mprotect\<close> gives \<open>[os, oe)\<close> of slot \<open>i\<close> its new protection.\<close>

definition mprotect_split :: "mmap_table \<Rightarrow> nat \<Rightarrow> u64 \<Rightarrow> u64 \<Rightarrow> u32 \<Rightarrow> mmap_table" where
  "mprotect_split g i os oe prot =
     (let m = g i; rs = mm_virt m; re = rs + mm_size m; whole = g(i := m\<lparr> mm_prot := prot \<rparr>);
          right = m\<lparr> mm_virt := oe, mm_size := re - oe, mm_offset := mm_offset m + (oe - rs) \<rparr>;
          mid = m\<lparr> mm_virt := os, mm_size := oe - os, mm_offset := mm_offset m + (os - rs), mm_prot := prot \<rparr>
      in if os = rs \<and> oe = re then whole
         else if os = rs
         then (case c3_mmap_alloc_slot g of
                 Some ns \<Rightarrow> g(ns := right, i := m\<lparr> mm_size := oe - rs, mm_prot := prot \<rparr>)
               | None \<Rightarrow> whole)
         else if oe = re
         then (case c3_mmap_alloc_slot g of
                 Some ns \<Rightarrow> g(ns := mid, i := m\<lparr> mm_size := os - rs \<rparr>)
               | None \<Rightarrow> whole)
         else (case c3_mmap_alloc_slot g of
                 None \<Rightarrow> whole
               | Some ms \<Rightarrow> (case c3_mmap_alloc_slot_except g ms of
                   None \<Rightarrow> whole
                 | Some rt \<Rightarrow> g(ms := mid, rt := right, i := m\<lparr> mm_size := os - rs \<rparr>))))"

subsection \<open>Well-formed tables and the map they stand for\<close>

definition lo :: "region \<Rightarrow> nat" where "lo m = unat (mm_virt m)"
definition hi :: "region \<Rightarrow> nat" where "hi m = unat (mm_virt m) + unat (mm_size m)"

definition wf_region :: "region \<Rightarrow> bool" where
  "wf_region m \<longleftrightarrow> 4096 dvd unat (mm_virt m) \<and> 4096 dvd unat (mm_size m) \<and> mm_size m \<noteq> 0 \<and> hi m \<le> 2 ^ 47"

definition apart :: "region \<Rightarrow> region \<Rightarrow> bool" where
  "apart a b \<longleftrightarrow> mm_as a \<noteq> mm_as b \<or> hi a \<le> lo b \<or> hi b \<le> lo a"

definition table_ok :: "mmap_table \<Rightarrow> bool" where
  "table_ok g \<longleftrightarrow> (\<forall>i < MMAP_REGION_MAX. mm_used (g i) \<longrightarrow> wf_region (g i))
     \<and> (\<forall>i < MMAP_REGION_MAX. \<forall>j < MMAP_REGION_MAX. i \<noteq> j \<longrightarrow> mm_used (g i) \<longrightarrow> mm_used (g j) \<longrightarrow> apart (g i) (g j))"

text \<open>The region holds the byte address \<open>p\<close> of the space.\<close>

definition holds :: "region \<Rightarrow> as_ref \<Rightarrow> nat \<Rightarrow> bool" where
  "holds m r p \<longleftrightarrow> mm_used m \<and> mm_as m = r \<and> lo m \<le> p \<and> p < hi m"

text \<open>What a region says of an address; the position in an anonymous mapping means nothing.\<close>

record page_attrs =
  pa_prot :: u32
  pa_flags :: u32
  pa_fd :: int
  pa_kind :: nat
  pa_no_free :: bool
  pa_path :: string
  pa_pos :: u64

definition attrs_at :: "region \<Rightarrow> nat \<Rightarrow> page_attrs" where
  "attrs_at m p = \<lparr> pa_prot = mm_prot m, pa_flags = mm_flags m, pa_fd = mm_fd m, pa_kind = mm_backing_kind m,
     pa_no_free = mm_no_free_phys m, pa_path = cstr (mm_backing_path m),
     pa_pos = (if c3_mmap_is_anon (mm_flags m) then 0 else mm_offset m + (of_nat p - mm_virt m)) \<rparr>"

definition mapped :: "mmap_table \<Rightarrow> as_ref \<Rightarrow> nat \<Rightarrow> page_attrs option" where
  "mapped g r p = map_option (\<lambda>i. attrs_at (g i) p) (find (\<lambda>i. holds (g i) r p) slots)"

lemma wf_region_bounds:
  assumes "wf_region m"
  shows "unat (mm_virt m + mm_size m) = hi m" and "lo m < hi m" and "hi m \<le> 2 ^ 47" and "0 < unat (mm_size m)"
proof -
  show h: "hi m \<le> 2 ^ 47" using assms by (simp add: wf_region_def)
  then show "unat (mm_virt m + mm_size m) = hi m" by (subst unat_add_no_wrap) (simp_all add: hi_def)
  show "0 < unat (mm_size m)" using assms by (simp add: wf_region_def unat_gt_0)
  then show "lo m < hi m" by (simp add: lo_def hi_def)
qed

lemma table_okD:
  assumes "table_ok g"
  shows "i < MMAP_REGION_MAX \<Longrightarrow> mm_used (g i) \<Longrightarrow> wf_region (g i)"
    and "i < MMAP_REGION_MAX \<Longrightarrow> j < MMAP_REGION_MAX \<Longrightarrow> i \<noteq> j \<Longrightarrow> mm_used (g i) \<Longrightarrow> mm_used (g j) \<Longrightarrow> apart (g i) (g j)"
  using assms by (auto simp: table_ok_def)

lemma holds_unique:
  assumes ok: "table_ok g" and i: "i < MMAP_REGION_MAX" "holds (g i) r p" and j: "j < MMAP_REGION_MAX" "holds (g j) r p"
  shows "i = j"
proof (rule ccontr)
  assume "i \<noteq> j"
  then have "apart (g i) (g j)" using table_okD(2) [OF ok i(1) j(1)] i(2) j(2) by (simp add: holds_def)
  then show False using i(2) j(2) by (auto simp: apart_def holds_def)
qed

lemma mapped_at: "table_ok g \<Longrightarrow> i < MMAP_REGION_MAX \<Longrightarrow> holds (g i) r p \<Longrightarrow> mapped g r p = Some (attrs_at (g i) p)"
proof -
  assume ok: "table_ok g" and i: "i < MMAP_REGION_MAX" "holds (g i) r p"
  then have "find (\<lambda>i. holds (g i) r p) slots \<noteq> None" by (auto simp: find_None_iff)
  then obtain j where j: "find (\<lambda>i. holds (g i) r p) slots = Some j" by blast
  with find_SomeD [OF j] holds_unique [OF ok _ _ i] show ?thesis by (auto simp: mapped_def)
qed

lemma mapped_none: "mapped g r p = None \<longleftrightarrow> (\<forall>i < MMAP_REGION_MAX. \<not> holds (g i) r p)"
  by (auto simp: mapped_def find_None_iff)

lemma mapped_cases:
  obtains "mapped g r p = None" "\<And>i. i < MMAP_REGION_MAX \<Longrightarrow> \<not> holds (g i) r p"
  | i where "i < MMAP_REGION_MAX" "holds (g i) r p"
proof (cases "mapped g r p = None")
  case True
  show thesis by (rule that(1) [OF True]) (use True in \<open>simp add: mapped_none\<close>)
next
  case False
  then show thesis using that(2) by (auto simp: mapped_none)
qed

lemma find_unused: "find (\<lambda>i. \<not> mm_used (g i)) slots = Some k \<Longrightarrow> k < MMAP_REGION_MAX \<and> \<not> mm_used (g k)"
  by (drule find_SomeD) simp

text \<open>One region becomes several inside it, in its slot and in free ones.\<close>

lemma subdivide:
  assumes ok: "table_ok g" and i: "i < MMAP_REGION_MAX" "mm_used (g i)"
    and K: "\<And>k. k \<in> K \<Longrightarrow> k < MMAP_REGION_MAX \<and> (k = i \<or> \<not> mm_used (g k))" and iK: "i \<in> K"
    and same: "\<And>k. k \<notin> K \<Longrightarrow> g' k = g k"
    and piece: "\<And>k. k \<in> K \<Longrightarrow> mm_used (g' k) \<Longrightarrow>
        mm_as (g' k) = mm_as (g i) \<and> wf_region (g' k) \<and> lo (g i) \<le> lo (g' k) \<and> hi (g' k) \<le> hi (g i)"
    and disj: "\<And>k l. k \<in> K \<Longrightarrow> l \<in> K \<Longrightarrow> k < l \<Longrightarrow> mm_used (g' k) \<Longrightarrow> mm_used (g' l) \<Longrightarrow> apart (g' k) (g' l)"
  shows "table_ok g'"
    and "\<not> holds (g i) r p \<Longrightarrow> mapped g' r p = mapped g r p"
    and "k \<in> K \<Longrightarrow> holds (g' k) r p \<Longrightarrow> mapped g' r p = Some (attrs_at (g' k) p)"
    and "holds (g i) r p \<Longrightarrow> (\<And>k. k \<in> K \<Longrightarrow> \<not> holds (g' k) r p) \<Longrightarrow> mapped g' r p = None"
proof -
  have sym: "apart a b = apart b a" for a b by (auto simp: apart_def)
  have out: "apart (g' k) (g l)" if "k \<in> K" "mm_used (g' k)" "l \<notin> K" "l < MMAP_REGION_MAX" "mm_used (g l)" for k l
  proof -
    have "apart (g i) (g l)" using table_okD(2) [OF ok i(1) that(4) _ i(2) that(5)] iK that(3) by blast
    then show ?thesis using piece [OF that(1,2)] by (auto simp: apart_def)
  qed
  show ok': "table_ok g'"
    unfolding table_ok_def
  proof (intro conjI allI impI)
    fix k assume "k < MMAP_REGION_MAX" "mm_used (g' k)"
    then show "wf_region (g' k)" using piece same table_okD(1) [OF ok] by (cases "k \<in> K") auto
  next
    fix k l assume a: "k < MMAP_REGION_MAX" "l < MMAP_REGION_MAX" "k \<noteq> l" "mm_used (g' k)" "mm_used (g' l)"
    show "apart (g' k) (g' l)"
    proof (cases "k \<in> K"; cases "l \<in> K")
      assume "k \<in> K" "l \<in> K"
      then show ?thesis using disj [of k l] disj [of l k] a sym by (cases "k < l") auto
    next
      assume "k \<in> K" "l \<notin> K"
      then show ?thesis using out [of k l] same [of l] a by simp
    next
      assume "k \<notin> K" "l \<in> K"
      then show ?thesis using out [of l k] same [of k] a sym by simp
    next
      assume "k \<notin> K" "l \<notin> K"
      then show ?thesis using same table_okD(2) [OF ok a(1,2,3)] a by simp
    qed
  qed
  have inside: "holds (g i) r p" if "k \<in> K" "holds (g' k) r p" for k
    using piece [OF that(1)] that(2) i(2) by (auto simp: holds_def)
  show "mapped g' r p = mapped g r p" if n: "\<not> holds (g i) r p"
  proof (cases rule: mapped_cases [of g r p])
    case 1
    then have "\<not> holds (g' k) r p" if "k < MMAP_REGION_MAX" for k using that inside n same by (cases "k \<in> K") auto
    then have "mapped g' r p = None" by (simp add: mapped_none)
    with 1(1) show ?thesis by simp
  next
    case (2 k)
    then have "k \<notin> K" using K [of k] n by (auto simp: holds_def)
    then have "holds (g' k) r p" "g' k = g k" using 2 same by auto
    then show ?thesis using mapped_at [OF ok 2] mapped_at [OF ok' 2(1)] by simp
  qed
  show "k \<in> K \<Longrightarrow> holds (g' k) r p \<Longrightarrow> mapped g' r p = Some (attrs_at (g' k) p)"
    using mapped_at [OF ok'] K by blast
  show "mapped g' r p = None" if h: "holds (g i) r p" and no: "\<And>k. k \<in> K \<Longrightarrow> \<not> holds (g' k) r p"
  proof -
    have "\<not> holds (g' k) r p" if "k < MMAP_REGION_MAX" for k
    proof (cases "k \<in> K")
      case False
      then have "k \<noteq> i" "g' k = g k" using iK same by auto
      then show ?thesis using holds_unique [OF ok that _ i(1) h] by auto
    qed (use no in blast)
    then show ?thesis by (simp add: mapped_none)
  qed
qed

subsection \<open>Pieces of a region\<close>

definition sub_region :: "region \<Rightarrow> u64 \<Rightarrow> u64 \<Rightarrow> region" where
  "sub_region m a b = m\<lparr> mm_virt := a, mm_size := b - a, mm_offset := mm_offset m + (a - mm_virt m) \<rparr>"

lemma sub_left: "m\<lparr> mm_size := b - mm_virt m \<rparr> = sub_region m (mm_virt m) b"
  by (simp add: sub_region_def)

lemma sub_region_spec:
  assumes "wf_region m" and "lo m \<le> unat a" "unat a < unat b" "unat b \<le> hi m" and "4096 dvd unat a" "4096 dvd unat b"
  shows "wf_region (sub_region m a b)" and "lo (sub_region m a b) = unat a" and "hi (sub_region m a b) = unat b"
proof -
  have u: "unat (b - a) = unat b - unat a" using assms(3) by (simp add: unat_sub word_le_nat_alt)
  show l: "lo (sub_region m a b) = unat a" by (simp add: lo_def sub_region_def)
  show h: "hi (sub_region m a b) = unat b" using assms(3) by (simp add: hi_def sub_region_def u)
  have "b - a \<noteq> 0" using u assms(3) by (metis unat_0 zero_less_diff less_numeral_extra(3))
  moreover have "hi m \<le> 2 ^ 47" using assms(1) by (simp add: wf_region_def)
  ultimately show "wf_region (sub_region m a b)"
    using assms(4-6) h u by (simp add: wf_region_def sub_region_def dvd_diff_nat)
qed

lemma sub_region_same [simp]:
  "mm_as (sub_region m a b) = mm_as m" "mm_used (sub_region m a b) = mm_used m" "attrs_at (sub_region m a b) p = attrs_at m p"
  by (simp_all add: sub_region_def attrs_at_def)

lemma sub_holds:
  "wf_region m \<Longrightarrow> lo m \<le> unat a \<Longrightarrow> unat a < unat b \<Longrightarrow> unat b \<le> hi m \<Longrightarrow> 4096 dvd unat a \<Longrightarrow> 4096 dvd unat b \<Longrightarrow>
     holds (sub_region m a b) r p \<longleftrightarrow> mm_used m \<and> mm_as m = r \<and> unat a \<le> p \<and> p < unat b"
  by (simp add: holds_def sub_region_spec)

text \<open>Counting resident pages does not change what a region stands for.\<close>

lemma clamp_same [simp]:
  "lo (c3_mmap_resident_clamp m) = lo m" "hi (c3_mmap_resident_clamp m) = hi m"
  "wf_region (c3_mmap_resident_clamp m) = wf_region m" "mm_as (c3_mmap_resident_clamp m) = mm_as m"
  "mm_used (c3_mmap_resident_clamp m) = mm_used m" "attrs_at (c3_mmap_resident_clamp m) p = attrs_at m p"
  "holds (c3_mmap_resident_clamp m) r p = holds m r p"
  by (simp_all add: c3_mmap_resident_clamp_def Let_def lo_def hi_def wf_region_def attrs_at_def holds_def)

lemma add_same [simp]:
  "lo (c3_mmap_resident_add m n) = lo m" "hi (c3_mmap_resident_add m n) = hi m"
  "mm_virt (c3_mmap_resident_add m n) = mm_virt m" "mm_size (c3_mmap_resident_add m n) = mm_size m"
  "mm_as (c3_mmap_resident_add m n) = mm_as m" "mm_used (c3_mmap_resident_add m n) = mm_used m"
  "attrs_at (c3_mmap_resident_add m n) p = attrs_at m p"
  "mm_prot (c3_mmap_resident_add m n) = mm_prot m" "mm_flags (c3_mmap_resident_add m n) = mm_flags m"
  "mm_fd (c3_mmap_resident_add m n) = mm_fd m" "mm_offset (c3_mmap_resident_add m n) = mm_offset m"
  "mm_backing_kind (c3_mmap_resident_add m n) = mm_backing_kind m" "mm_no_free_phys (c3_mmap_resident_add m n) = mm_no_free_phys m"
  "mm_backing_path (c3_mmap_resident_add m n) = mm_backing_path m"
  by (simp_all add: c3_mmap_resident_add_def Let_def lo_def hi_def attrs_at_def)

lemma wf_virt: "wf_region m \<Longrightarrow> 4096 dvd lo m \<and> 4096 dvd hi m"
  by (simp add: wf_region_def lo_def hi_def)

text \<open>The cut of \<open>munmap\<close> removes exactly the part it is given.\<close>

lemma munmap_cut_spec:
  assumes ok: "table_ok g" and i: "i < MMAP_REGION_MAX" "mm_used (g i)"
    and r: "lo (g i) \<le> unat os" "unat os < unat oe" "unat oe \<le> hi (g i)" and al: "4096 dvd unat os" "4096 dvd unat oe"
    and free: "unat os = lo (g i) \<or> unat oe = hi (g i) \<or> c3_mmap_alloc_slot g \<noteq> None"
  shows "table_ok (munmap_cut g i os oe)"
    and "mapped (munmap_cut g i os oe) r p = (if r = mm_as (g i) \<and> unat os \<le> p \<and> p < unat oe then None else mapped g r p)"
proof -
  let ?m = "g i" let ?rs = "mm_virt (g i)" let ?re = "mm_virt (g i) + mm_size (g i)" let ?g = "munmap_cut g i os oe"
  have wf: "wf_region ?m" using table_okD(1) [OF ok i] .
  note B = wf_region_bounds [OF wf]
  have re: "unat ?re = hi ?m" by (rule B(1))
  have rs: "unat ?rs = lo ?m" by (simp add: lo_def)
  have al': "4096 dvd unat ?rs" "4096 dvd unat ?re" using wf_virt [OF wf] re rs by simp_all
  have eqs: "os = ?rs \<longleftrightarrow> unat os = lo ?m" "oe = ?re \<longleftrightarrow> unat oe = hi ?m"
    using rs re by (simp_all add: word_unat_eq_iff)
  have sp: "?m\<lparr> mm_size := os - ?rs \<rparr> = sub_region ?m ?rs os"
     "?m\<lparr> mm_virt := oe, mm_size := ?re - oe, mm_offset := mm_offset ?m + (oe - ?rs) \<rparr> = sub_region ?m oe ?re"
    by (simp_all add: sub_region_def)
  have H: "holds ?m r p \<longleftrightarrow> mm_as ?m = r \<and> lo ?m \<le> p \<and> p < hi ?m" using i(2) by (simp add: holds_def)
  have at: "holds ?m r p \<Longrightarrow> mapped g r p = Some (attrs_at ?m p)" by (rule mapped_at [OF ok i(1)])
  have L: "unat os \<noteq> lo ?m \<Longrightarrow> wf_region (sub_region ?m ?rs os) \<and> lo (sub_region ?m ?rs os) = lo ?m \<and> hi (sub_region ?m ?rs os) = unat os
      \<and> (holds (sub_region ?m ?rs os) r p \<longleftrightarrow> mm_as ?m = r \<and> lo ?m \<le> p \<and> p < unat os)"
    using sub_region_spec [OF wf, of ?rs os] sub_holds [OF wf, of ?rs os r p] al al' rs r i(2) by simp
  have R: "unat oe \<noteq> hi ?m \<Longrightarrow> wf_region (sub_region ?m oe ?re) \<and> lo (sub_region ?m oe ?re) = unat oe \<and> hi (sub_region ?m oe ?re) = hi ?m
      \<and> (holds (sub_region ?m oe ?re) r p \<longleftrightarrow> mm_as ?m = r \<and> unat oe \<le> p \<and> p < hi ?m)"
    using sub_region_spec [OF wf, of oe ?re] sub_holds [OF wf, of oe ?re r p] al al' re r i(2) by simp
  have "table_ok ?g \<and> mapped ?g r p = (if r = mm_as ?m \<and> unat os \<le> p \<and> p < unat oe then None else mapped g r p)"
  proof -
    consider (all) "unat os = lo ?m" "unat oe = hi ?m" | (front) "unat os = lo ?m" "unat oe \<noteq> hi ?m"
      | (rear) "unat os \<noteq> lo ?m" "unat oe = hi ?m" | (mid) ns where "unat os \<noteq> lo ?m" "unat oe \<noteq> hi ?m" "c3_mmap_alloc_slot g = Some ns"
      using free by fastforce
    then show ?thesis
    proof cases
      case all
      have g: "?g = g(i := ?m\<lparr> mm_used := False \<rparr>)" using all by (simp add: munmap_cut_def Let_def eqs)
      note S = subdivide [OF ok i, of "{i}" ?g]
      have "table_ok ?g" by (rule S(1)) (simp_all add: i g)
      moreover have "\<not> holds ?m r p \<Longrightarrow> mapped ?g r p = mapped g r p" by (rule S(2)) (simp_all add: i g)
      moreover have "holds ?m r p \<Longrightarrow> mapped ?g r p = None" by (rule S(4)) (simp_all add: i g holds_def)
      ultimately show ?thesis using H all by auto
    next
      case front
      have g: "?g = g(i := c3_mmap_resident_clamp (sub_region ?m oe ?re))"
        using front by (simp add: munmap_cut_def Let_def eqs sp)
      note S = subdivide [OF ok i, of "{i}" ?g]
      note R' = R [OF front(2)]
      have "table_ok ?g" by (rule S(1)) (use R' r in \<open>simp_all add: i g\<close>)
      moreover have "\<not> holds ?m r p \<Longrightarrow> mapped ?g r p = mapped g r p" by (rule S(2)) (use R' r in \<open>simp_all add: i g\<close>)
      moreover have "holds (?g i) r p \<Longrightarrow> mapped ?g r p = Some (attrs_at (?g i) p)"
        by (rule S(3)) (use R' r in \<open>simp_all add: i g\<close>)
      moreover have "holds ?m r p \<Longrightarrow> \<not> holds (?g i) r p \<Longrightarrow> mapped ?g r p = None"
        by (rule S(4)) (use R' r in \<open>simp_all add: i g\<close>)
      ultimately show ?thesis using H R' front at r by (auto simp: g)
    next
      case rear
      have g: "?g = g(i := c3_mmap_resident_clamp (sub_region ?m ?rs os))"
        using rear by (simp add: munmap_cut_def Let_def eqs sp)
      note S = subdivide [OF ok i, of "{i}" ?g]
      note L' = L [OF rear(1)]
      have "table_ok ?g" by (rule S(1)) (use L' r in \<open>simp_all add: i g\<close>)
      moreover have "\<not> holds ?m r p \<Longrightarrow> mapped ?g r p = mapped g r p" by (rule S(2)) (use L' r in \<open>simp_all add: i g\<close>)
      moreover have "holds (?g i) r p \<Longrightarrow> mapped ?g r p = Some (attrs_at (?g i) p)"
        by (rule S(3)) (use L' r in \<open>simp_all add: i g\<close>)
      moreover have "holds ?m r p \<Longrightarrow> \<not> holds (?g i) r p \<Longrightarrow> mapped ?g r p = None"
        by (rule S(4)) (use L' r in \<open>simp_all add: i g\<close>)
      ultimately show ?thesis using H L' rear at r by (auto simp: g)
    next
      case (mid ns)
      have ns: "ns < MMAP_REGION_MAX" "\<not> mm_used (g ns)" "ns \<noteq> i"
        using find_unused [of g ns] mid(3) i(2) by (auto simp: c3_mmap_alloc_slot_def)
      have g: "?g = g(i := c3_mmap_resident_clamp (sub_region ?m ?rs os), ns := c3_mmap_resident_clamp (sub_region ?m oe ?re))"
        using mid by (simp add: munmap_cut_def Let_def eqs sp)
      note S = subdivide [OF ok i, of "{i, ns}" ?g]
      note L' = L [OF mid(1)] and R' = R [OF mid(2)]
      have ap: "apart (sub_region ?m ?rs os) (sub_region ?m oe ?re)" "apart (sub_region ?m oe ?re) (sub_region ?m ?rs os)"
        using L' R' r by (auto simp: apart_def)
      have gi: "?g i = c3_mmap_resident_clamp (sub_region ?m ?rs os)" and gn: "?g ns = c3_mmap_resident_clamp (sub_region ?m oe ?re)"
        and go: "k \<notin> {i, ns} \<Longrightarrow> ?g k = g k" for k
        using ns(3) by (simp_all add: g)
      have f: "k < MMAP_REGION_MAX \<and> (k = i \<or> \<not> mm_used (g k))" if "k \<in> {i, ns}" for k using that i ns by auto
      have pc: "mm_as (?g k) = mm_as ?m \<and> wf_region (?g k) \<and> lo ?m \<le> lo (?g k) \<and> hi (?g k) \<le> hi ?m" if "k \<in> {i, ns}" for k
        using that L' R' r gi gn by (elim insertE emptyE) simp_all
      have ap2: "apart (?g k) (?g l)" if "k \<in> {i, ns}" "l \<in> {i, ns}" "k < l" for k l
      proof -
        have "k = i \<and> l = ns \<or> k = ns \<and> l = i" using that by auto
        then show ?thesis using ap by (elim disjE conjE) (simp_all add: gi gn apart_def)
      qed
      have ii: "i \<in> {i, ns}" by simp
      note prem = f ii go pc ap2
      have "table_ok ?g" by (rule S(1)) (use prem in blast)+
      moreover have "\<not> holds ?m r p \<Longrightarrow> mapped ?g r p = mapped g r p" by (rule S(2)) (use prem in blast)+
      moreover have "k \<in> {i, ns} \<Longrightarrow> holds (?g k) r p \<Longrightarrow> mapped ?g r p = Some (attrs_at (?g k) p)" for k
        by (rule S(3)) (use prem in blast)+
      moreover have "holds ?m r p \<Longrightarrow> \<not> holds (?g i) r p \<Longrightarrow> \<not> holds (?g ns) r p \<Longrightarrow> mapped ?g r p = None"
        by (rule S(4)) (use prem in blast)+
      ultimately have A: "table_ok ?g" "\<not> holds ?m r p \<Longrightarrow> mapped ?g r p = mapped g r p"
        "holds (?g i) r p \<Longrightarrow> mapped ?g r p = Some (attrs_at (?g i) p)"
        "holds (?g ns) r p \<Longrightarrow> mapped ?g r p = Some (attrs_at (?g ns) p)"
        "holds ?m r p \<Longrightarrow> \<not> holds (?g i) r p \<Longrightarrow> \<not> holds (?g ns) r p \<Longrightarrow> mapped ?g r p = None" by blast+
      have hi: "holds (?g i) r p \<longleftrightarrow> mm_as ?m = r \<and> lo ?m \<le> p \<and> p < unat os"
        and hn: "holds (?g ns) r p \<longleftrightarrow> mm_as ?m = r \<and> unat oe \<le> p \<and> p < hi ?m" using L' R' by (simp_all add: gi gn)
      have ai: "attrs_at (?g i) p = attrs_at ?m p" "attrs_at (?g ns) p = attrs_at ?m p" by (simp_all add: gi gn)
      show ?thesis
      proof (cases "holds ?m r p")
        case False
        then show ?thesis using A(1,2) H r by auto
      next
        case True
        then consider "p < unat os" | "unat os \<le> p" "p < unat oe" | "unat oe \<le> p" by linarith
        then show ?thesis using A(1,3,4,5) True H at [OF True] hi hn ai r by cases auto
      qed
    qed
  qed
  then show "table_ok ?g" "mapped ?g r p = (if r = mm_as ?m \<and> unat os \<le> p \<and> p < unat oe then None else mapped g r p)" by auto
qed

text \<open>A region that is only divided, its pieces covering it.\<close>

lemma repartition:
  assumes ok: "table_ok g" and i: "i < MMAP_REGION_MAX" "mm_used (g i)"
    and K: "\<And>k. k \<in> K \<Longrightarrow> k < MMAP_REGION_MAX \<and> (k = i \<or> \<not> mm_used (g k))" and iK: "i \<in> K"
    and same: "\<And>k. k \<notin> K \<Longrightarrow> g' k = g k"
    and piece: "\<And>k. k \<in> K \<Longrightarrow> mm_used (g' k) \<and> mm_as (g' k) = mm_as (g i) \<and> wf_region (g' k) \<and> lo (g i) \<le> lo (g' k) \<and> hi (g' k) \<le> hi (g i)"
    and disj: "\<And>k l. k \<in> K \<Longrightarrow> l \<in> K \<Longrightarrow> k \<noteq> l \<Longrightarrow> hi (g' k) \<le> lo (g' l) \<or> hi (g' l) \<le> lo (g' k)"
    and cover: "lo (g i) \<le> p \<Longrightarrow> p < hi (g i) \<Longrightarrow> \<exists>k \<in> K. lo (g' k) \<le> p \<and> p < hi (g' k) \<and> attrs_at (g' k) p = a"
  shows "table_ok g'" and "mapped g' r p = (if holds (g i) r p then Some a else mapped g r p)"
proof -
  have disj': "\<And>k l. k \<in> K \<Longrightarrow> l \<in> K \<Longrightarrow> k < l \<Longrightarrow> apart (g' k) (g' l)" using disj by (fastforce simp: apart_def)
  note S = subdivide [OF ok i K iK same _ disj']
  show "table_ok g'" by (rule S(1)) (use piece in blast)+
  have 2: "\<not> holds (g i) r p \<Longrightarrow> mapped g' r p = mapped g r p" by (rule S(2)) (use piece in blast)+
  have 3: "k \<in> K \<Longrightarrow> holds (g' k) r p \<Longrightarrow> mapped g' r p = Some (attrs_at (g' k) p)" for k
    by (rule S(3)) (use piece in blast)+
  show "mapped g' r p = (if holds (g i) r p then Some a else mapped g r p)"
  proof (cases "holds (g i) r p")
    case True
    then obtain k where k: "k \<in> K" "lo (g' k) \<le> p" "p < hi (g' k)" "attrs_at (g' k) p = a"
      using cover by (auto simp: holds_def)
    have "holds (g' k) r p" using k(2,3) piece [OF k(1)] True by (simp add: holds_def)
    from 3 [OF k(1) this] True k(4) show ?thesis by simp
  qed (use 2 in simp)
qed

lemma attrs_prot [simp]: "attrs_at (m\<lparr> mm_prot := v \<rparr>) p = (attrs_at m p)\<lparr> pa_prot := v \<rparr>"
  by (simp add: attrs_at_def)

lemma prot_same [simp]:
  "lo (m\<lparr> mm_prot := v \<rparr>) = lo m" "hi (m\<lparr> mm_prot := v \<rparr>) = hi m" "wf_region (m\<lparr> mm_prot := v \<rparr>) = wf_region m"
  by (simp_all add: lo_def hi_def wf_region_def)

text \<open>With enough free slots, \<open>mprotect\<close> changes the protection of exactly the part it is given.\<close>

definition split_room :: "mmap_table \<Rightarrow> nat \<Rightarrow> u64 \<Rightarrow> u64 \<Rightarrow> bool" where
  "split_room g i os oe \<longleftrightarrow>
     (let m = g i; rs = mm_virt m; re = rs + mm_size m
      in os = rs \<and> oe = re
         \<or> (case c3_mmap_alloc_slot g of None \<Rightarrow> False
            | Some ms \<Rightarrow> os = rs \<or> oe = re \<or> c3_mmap_alloc_slot_except g ms \<noteq> None))"

lemma mprotect_split_spec:
  assumes ok: "table_ok g" and i: "i < MMAP_REGION_MAX" "mm_used (g i)"
    and b: "lo (g i) \<le> unat os" "unat os < unat oe" "unat oe \<le> hi (g i)" and al: "4096 dvd unat os" "4096 dvd unat oe"
    and room: "split_room g i os oe"
  shows "table_ok (mprotect_split g i os oe prot)"
    and "mapped (mprotect_split g i os oe prot) r p =
      (if r = mm_as (g i) \<and> unat os \<le> p \<and> p < unat oe then map_option (\<lambda>a. a\<lparr> pa_prot := prot \<rparr>) (mapped g r p)
       else mapped g r p)"
proof -
  let ?m = "g i" let ?rs = "mm_virt (g i)" let ?re = "mm_virt (g i) + mm_size (g i)" let ?g = "mprotect_split g i os oe prot"
  have wf: "wf_region ?m" using table_okD(1) [OF ok i] .
  have re: "unat ?re = hi ?m" by (rule wf_region_bounds(1) [OF wf])
  have rs: "unat ?rs = lo ?m" by (simp add: lo_def)
  have al': "4096 dvd unat ?rs" "4096 dvd unat ?re" using wf_virt [OF wf] re rs by simp_all
  have eqs: "os = ?rs \<longleftrightarrow> unat os = lo ?m" "oe = ?re \<longleftrightarrow> unat oe = hi ?m"
    using rs re by (simp_all add: word_unat_eq_iff)
  let ?L = "sub_region ?m ?rs os" and ?M = "(sub_region ?m os oe)\<lparr> mm_prot := prot \<rparr>" and ?R = "sub_region ?m oe ?re"
    and ?F = "(sub_region ?m ?rs oe)\<lparr> mm_prot := prot \<rparr>"
  have sp: "?m\<lparr> mm_size := os - ?rs \<rparr> = ?L" "?m\<lparr> mm_size := oe - ?rs, mm_prot := prot \<rparr> = ?F"
     "?m\<lparr> mm_virt := oe, mm_size := ?re - oe, mm_offset := mm_offset ?m + (oe - ?rs) \<rparr> = ?R"
     "?m\<lparr> mm_virt := os, mm_size := oe - os, mm_offset := mm_offset ?m + (os - ?rs), mm_prot := prot \<rparr> = ?M"
    by (simp_all add: sub_region_def)
  define a where "a = (if unat os \<le> p \<and> p < unat oe then (attrs_at ?m p)\<lparr> pa_prot := prot \<rparr> else attrs_at ?m p)"
  have mp: "holds ?m r p \<Longrightarrow> mapped g r p = Some (attrs_at ?m p)" by (rule mapped_at [OF ok i(1)])
  have H: "holds ?m r p \<longleftrightarrow> mm_as ?m = r \<and> lo ?m \<le> p \<and> p < hi ?m" using i(2) by (simp add: holds_def)
  have M: "wf_region ?M" "lo ?M = unat os" "hi ?M = unat oe"
    using sub_region_spec [OF wf b al] by simp_all
  have L: "wf_region ?L" "lo ?L = lo ?m" "hi ?L = unat os" if "unat os \<noteq> lo ?m"
    using sub_region_spec [OF wf, of ?rs os] al al' rs b that by simp_all
  have R: "wf_region ?R" "lo ?R = unat oe" "hi ?R = hi ?m" if "unat oe \<noteq> hi ?m"
    using sub_region_spec [OF wf, of oe ?re] al al' re b that by simp_all
  have ai: "attrs_at ?L p = attrs_at ?m p" "attrs_at ?R p = attrs_at ?m p" "attrs_at ?M p = (attrs_at ?m p)\<lparr> pa_prot := prot \<rparr>"
    by simp_all
  have us: "mm_used ?L" "mm_used ?R" "mm_used ?M" "mm_as ?L = mm_as ?m" "mm_as ?R = mm_as ?m" "mm_as ?M = mm_as ?m"
    using i(2) by simp_all
  have "table_ok ?g \<and> mapped ?g r p = (if holds ?m r p then Some a else mapped g r p)"
  proof -
    consider (all) "unat os = lo ?m" "unat oe = hi ?m"
      | (front) ns where "unat os = lo ?m" "unat oe \<noteq> hi ?m" "c3_mmap_alloc_slot g = Some ns"
      | (rear) ns where "unat os \<noteq> lo ?m" "unat oe = hi ?m" "c3_mmap_alloc_slot g = Some ns"
      | (mid) ms rt where "unat os \<noteq> lo ?m" "unat oe \<noteq> hi ?m" "c3_mmap_alloc_slot g = Some ms" "c3_mmap_alloc_slot_except g ms = Some rt"
      using room unfolding split_room_def Let_def eqs by (fastforce split: option.splits)
    then show ?thesis
    proof cases
      case all
      have g: "?g = g(i := ?m\<lparr> mm_prot := prot \<rparr>)" using all by (simp add: mprotect_split_def Let_def eqs)
      note S = repartition [OF ok i, of "{i}" ?g p a]
      have "table_ok ?g" by (rule S(1)) (use i wf all in \<open>simp_all add: g a_def\<close>)
      moreover have "mapped ?g r p = (if holds ?m r p then Some a else mapped g r p)"
        by (rule S(2)) (use i wf all in \<open>simp_all add: g a_def\<close>)
      ultimately show ?thesis ..
    next
      case (front ns)
      have ns: "ns < MMAP_REGION_MAX" "\<not> mm_used (g ns)" "ns \<noteq> i"
        using find_unused [of g ns] front(3) i(2) by (auto simp: c3_mmap_alloc_slot_def)
      have "?F = ?M" using front(1) rs by (simp add: eqs [THEN iffD2])
      then have gs: "?g i = ?M" "?g ns = ?R" "k \<notin> {i, ns} \<Longrightarrow> ?g k = g k" for k
        using front ns(3) by (simp_all add: mprotect_split_def Let_def eqs sp)
      note F = R [OF front(2)] M us
      have K: "k \<in> {i, ns} \<Longrightarrow> k < MMAP_REGION_MAX \<and> (k = i \<or> \<not> mm_used (g k))" for k using i ns by auto
      have pc: "k \<in> {i, ns} \<Longrightarrow> mm_used (?g k) \<and> mm_as (?g k) = mm_as ?m \<and> wf_region (?g k) \<and> lo ?m \<le> lo (?g k) \<and> hi (?g k) \<le> hi ?m" for k
        using F b by (elim insertE emptyE) (simp_all add: gs front)
      have dj: "k \<in> {i, ns} \<Longrightarrow> l \<in> {i, ns} \<Longrightarrow> k \<noteq> l \<Longrightarrow> hi (?g k) \<le> lo (?g l) \<or> hi (?g l) \<le> lo (?g k)" for k l
        using F by (elim insertE emptyE) (simp_all add: gs)
      have cv: "lo ?m \<le> p \<Longrightarrow> p < hi ?m \<Longrightarrow> \<exists>k \<in> {i, ns}. lo (?g k) \<le> p \<and> p < hi (?g k) \<and> attrs_at (?g k) p = a"
        using F front b by (cases "p < unat oe") (simp_all add: gs ai a_def)
      note S = repartition [OF ok i, of "{i, ns}" ?g p a]
      have "table_ok ?g" by (rule S(1)) (use K gs(3) pc dj cv in blast)+
      moreover have "mapped ?g r p = (if holds ?m r p then Some a else mapped g r p)"
        by (rule S(2)) (use K gs(3) pc dj cv in blast)+
      ultimately show ?thesis ..
    next
      case (rear ns)
      have ns: "ns < MMAP_REGION_MAX" "\<not> mm_used (g ns)" "ns \<noteq> i"
        using find_unused [of g ns] rear(3) i(2) by (auto simp: c3_mmap_alloc_slot_def)
      have gs: "?g i = ?L" "?g ns = ?M" "k \<notin> {i, ns} \<Longrightarrow> ?g k = g k" for k
        using rear ns(3) by (simp_all add: mprotect_split_def Let_def eqs sp)
      note F = L [OF rear(1)] M us
      have K: "k \<in> {i, ns} \<Longrightarrow> k < MMAP_REGION_MAX \<and> (k = i \<or> \<not> mm_used (g k))" for k using i ns by auto
      have pc: "k \<in> {i, ns} \<Longrightarrow> mm_used (?g k) \<and> mm_as (?g k) = mm_as ?m \<and> wf_region (?g k) \<and> lo ?m \<le> lo (?g k) \<and> hi (?g k) \<le> hi ?m" for k
        using F b by (elim insertE emptyE) (simp_all add: gs rear)
      have dj: "k \<in> {i, ns} \<Longrightarrow> l \<in> {i, ns} \<Longrightarrow> k \<noteq> l \<Longrightarrow> hi (?g k) \<le> lo (?g l) \<or> hi (?g l) \<le> lo (?g k)" for k l
        using F by (elim insertE emptyE) (simp_all add: gs)
      have cv: "lo ?m \<le> p \<Longrightarrow> p < hi ?m \<Longrightarrow> \<exists>k \<in> {i, ns}. lo (?g k) \<le> p \<and> p < hi (?g k) \<and> attrs_at (?g k) p = a"
        using F rear b by (cases "p < unat os") (simp_all add: gs ai a_def)
      note S = repartition [OF ok i, of "{i, ns}" ?g p a]
      have "table_ok ?g" by (rule S(1)) (use K gs(3) pc dj cv in blast)+
      moreover have "mapped ?g r p = (if holds ?m r p then Some a else mapped g r p)"
        by (rule S(2)) (use K gs(3) pc dj cv in blast)+
      ultimately show ?thesis ..
    next
      case (mid ms rt)
      have ms: "ms < MMAP_REGION_MAX" "\<not> mm_used (g ms)" "ms \<noteq> i"
        using find_unused [of g ms] mid(3) i(2) by (auto simp: c3_mmap_alloc_slot_def)
      have rt: "rt < MMAP_REGION_MAX" "\<not> mm_used (g rt)" "rt \<noteq> ms" "rt \<noteq> i"
        using mid(4) i(2) by (auto simp: c3_mmap_alloc_slot_except_def dest!: find_SomeD)
      have gs: "?g i = ?L" "?g ms = ?M" "?g rt = ?R" "k \<notin> {i, ms, rt} \<Longrightarrow> ?g k = g k" for k
        using mid ms(3) rt(3,4) by (simp_all add: mprotect_split_def Let_def eqs sp)
      note F = L [OF mid(1)] R [OF mid(2)] M us
      have K: "k \<in> {i, ms, rt} \<Longrightarrow> k < MMAP_REGION_MAX \<and> (k = i \<or> \<not> mm_used (g k))" for k using i ms rt by auto
      have pc: "k \<in> {i, ms, rt} \<Longrightarrow> mm_used (?g k) \<and> mm_as (?g k) = mm_as ?m \<and> wf_region (?g k) \<and> lo ?m \<le> lo (?g k) \<and> hi (?g k) \<le> hi ?m" for k
        using F b by (elim insertE emptyE) (simp_all add: gs)
      have dj: "k \<in> {i, ms, rt} \<Longrightarrow> l \<in> {i, ms, rt} \<Longrightarrow> k \<noteq> l \<Longrightarrow> hi (?g k) \<le> lo (?g l) \<or> hi (?g l) \<le> lo (?g k)" for k l
        using F b by (elim insertE emptyE) (simp_all add: gs)
      have cv: "lo ?m \<le> p \<Longrightarrow> p < hi ?m \<Longrightarrow> \<exists>k \<in> {i, ms, rt}. lo (?g k) \<le> p \<and> p < hi (?g k) \<and> attrs_at (?g k) p = a"
        using F b by (cases "p < unat os"; cases "p < unat oe") (simp_all add: gs ai a_def)
      note S = repartition [OF ok i, of "{i, ms, rt}" ?g p a]
      have "table_ok ?g" by (rule S(1)) (use K gs(4) pc dj cv in blast)+
      moreover have "mapped ?g r p = (if holds ?m r p then Some a else mapped g r p)"
        by (rule S(2)) (use K gs(4) pc dj cv in blast)+
      ultimately show ?thesis ..
    qed
  qed
  then show "table_ok ?g" and "mapped ?g r p =
      (if r = mm_as ?m \<and> unat os \<le> p \<and> p < unat oe then map_option (\<lambda>a. a\<lparr> pa_prot := prot \<rparr>) (mapped g r p)
       else mapped g r p)"
    using mp H b by (auto simp: a_def)
qed

subsection \<open>Merging keeps the map\<close>

lemma merge_attrs:
  assumes "c3_mmap_can_merge a b"
  shows "attrs_at a p = attrs_at b p"
proof -
  have pos: "mm_offset a + (of_nat p - mm_virt a) = mm_offset b + (of_nat p - mm_virt b)"
    if "mm_offset a + mm_size a = mm_offset b" "mm_virt a + mm_size a = mm_virt b"
    by (simp add: that [symmetric] algebra_simps)
  have "cstr (mm_backing_path a) = cstr (mm_backing_path b)" using assms by (simp add: c3_mmap_can_merge_def k_strcmp_eq_iff)
  then show ?thesis using assms pos by (auto simp: c3_mmap_can_merge_def attrs_at_def)
qed

lemma merge_table:
  assumes ok: "table_ok g" and i: "i < MMAP_REGION_MAX" and j: "j < MMAP_REGION_MAX" and ij: "i \<noteq> j"
    and ab: "a = g i \<and> b = g j \<or> a = g j \<and> b = g i" and cm: "c3_mmap_can_merge a b"
    and x: "mm_used x" "mm_as x = mm_as a" "mm_virt x = mm_virt a" "mm_size x = mm_size a + mm_size b"
    and at: "\<And>p. attrs_at x p = attrs_at a p"
    and g': "g' i = x" "\<not> mm_used (g' j)" "\<And>k. k \<noteq> i \<Longrightarrow> k \<noteq> j \<Longrightarrow> g' k = g k"
  shows "table_ok g'" and "mapped g' = mapped g"
proof -
  have u: "mm_used (g i)" "mm_used (g j)" "mm_as (g i) = mm_as x" "mm_as (g j) = mm_as x"
    using cm ab x(2) by (auto simp: c3_mmap_can_merge_def)
  have wa: "wf_region a" and wb: "wf_region b" using ab table_okD(1) [OF ok i u(1)] table_okD(1) [OF ok j u(2)] by auto
  have ua: "mm_used a" "mm_used b" using ab u by auto
  have eq: "hi a = lo b"
    using cm wf_region_bounds(1) [OF wa] by (simp add: c3_mmap_can_merge_def lo_def)
  have "hi b \<le> 2 ^ 47" by (rule wf_region_bounds(3) [OF wb])
  then have sz: "unat (mm_size a + mm_size b) = unat (mm_size a) + unat (mm_size b)"
    using eq by (subst unat_add_no_wrap) (simp_all add: hi_def lo_def)
  have X: "lo x = lo a" "hi x = hi b" using eq by (simp_all add: lo_def hi_def x sz)
  have wx: "wf_region x"
    using wa wb sz X(2) x by (auto simp: wf_region_def unat_eq_zero [symmetric])
  have other: "apart x (g k)" if "k < MMAP_REGION_MAX" "k \<noteq> i" "k \<noteq> j" "mm_used (g k)" for k
  proof -
    have "apart (g i) (g k)" "apart (g j) (g k)"
      using table_okD(2) [OF ok i that(1) _ u(1) that(4)] table_okD(2) [OF ok j that(1) _ u(2) that(4)] that(2,3) by auto
    then have "apart a (g k)" "apart b (g k)" using ab by auto
    moreover have "lo (g k) < hi (g k)" by (rule wf_region_bounds(2) [OF table_okD(1) [OF ok that(1,4)]])
    moreover have "mm_as a = mm_as x" "mm_as b = mm_as x" using ab u by auto
    ultimately show ?thesis using X eq wf_region_bounds(2) [OF wa] wf_region_bounds(2) [OF wb] by (auto simp: apart_def)
  qed
  show ok': "table_ok g'"
    unfolding table_ok_def
  proof (intro conjI allI impI)
    fix k assume "k < MMAP_REGION_MAX" "mm_used (g' k)"
    then show "wf_region (g' k)" using wx g' table_okD(1) [OF ok] by (cases "k = i"; cases "k = j") auto
  next
    fix k l assume a: "k < MMAP_REGION_MAX" "l < MMAP_REGION_MAX" "k \<noteq> l" "mm_used (g' k)" "mm_used (g' l)"
    then have nj: "k \<noteq> j" "l \<noteq> j" using g'(2) by auto
    show "apart (g' k) (g' l)"
    proof (cases "k = i"; cases "l = i")
      assume "k = i" "l \<noteq> i"
      then show ?thesis using other [of l] a nj g'(3) [of l] by (simp add: g'(1))
    next
      assume "k \<noteq> i" "l = i"
      then show ?thesis using other [of k] a nj g'(3) [of k] by (auto simp: g'(1) apart_def)
    next
      assume "k \<noteq> i" "l \<noteq> i"
      then show ?thesis using table_okD(2) [OF ok a(1-3)] a nj g'(3) [of k] g'(3) [of l] by simp
    qed (use a in simp)
  qed
  show "mapped g' = mapped g"
  proof (intro ext)
    fix r p
    have xh: "holds x r p \<longleftrightarrow> holds a r p \<or> holds b r p"
      using X eq ua x ab u wf_region_bounds(2) [OF wa] wf_region_bounds(2) [OF wb] by (auto simp: holds_def)
    show "mapped g' r p = mapped g r p"
    proof (cases rule: mapped_cases [of g r p])
      case 1
      then have "\<not> holds (g' k) r p" if "k < MMAP_REGION_MAX" for k
        using that xh ab i j g' by (cases "k = i"; cases "k = j") (auto simp: holds_def)
      then have "mapped g' r p = None" by (simp add: mapped_none)
      with 1(1) show ?thesis by simp
    next
      case (2 k)
      show ?thesis
      proof (cases "k = i \<or> k = j")
        case True
        then have "holds x r p" using 2(2) ab xh by auto
        then have "mapped g' r p = Some (attrs_at a p)" using mapped_at [OF ok' i, of r p] g'(1) at by simp
        moreover have "attrs_at (g k) p = attrs_at a p" using True ab merge_attrs [OF cm] by auto
        ultimately show ?thesis using mapped_at [OF ok 2] by simp
      next
        case False
        then show ?thesis using mapped_at [OF ok 2] mapped_at [OF ok' 2(1)] 2(2) g'(3) [of k] by simp
      qed
    qed
  qed
qed

lemma merge_behind_spec:
  assumes "table_ok g" and "i < MMAP_REGION_MAX" "j < MMAP_REGION_MAX" "i \<noteq> j" and "c3_mmap_can_merge (g i) (g j)"
  shows "table_ok (merge_behind g i j) \<and> mapped (merge_behind g i j) = mapped g"
proof -
  let ?a = "c3_mmap_resident_add (g i) (ucast (mm_resident_pages (g j)))"
  let ?x = "?a\<lparr> mm_size := mm_size ?a + mm_size (g j) \<rparr>"
  have u: "mm_used (g i)" using assms(5) by (simp add: c3_mmap_can_merge_def)
  have at: "attrs_at ?x p = attrs_at (g i) p" for p by (simp add: attrs_at_def)
  have e: "merge_behind g i j i = ?x" "\<not> mm_used (merge_behind g i j j)" "k \<noteq> i \<Longrightarrow> k \<noteq> j \<Longrightarrow> merge_behind g i j k = g k" for k
    using assms(4) by (simp_all add: merge_behind_def Let_def)
  note M = merge_table [OF assms(1-4), of "g i" "g j" ?x "merge_behind g i j"]
  show ?thesis using M assms(5) u at e by simp
qed

lemma merge_front_spec:
  assumes "table_ok g" and "i < MMAP_REGION_MAX" "j < MMAP_REGION_MAX" "i \<noteq> j" and "c3_mmap_can_merge (g j) (g i)"
  shows "table_ok (merge_front g i j) \<and> mapped (merge_front g i j) = mapped g"
proof -
  let ?a = "c3_mmap_resident_add (g i) (ucast (mm_resident_pages (g j)))"
  let ?x = "?a\<lparr> mm_virt := mm_virt (g j), mm_offset := mm_offset (g j), mm_size := mm_size ?a + mm_size (g j) \<rparr>"
  have u: "mm_used (g i)" "mm_as (g i) = mm_as (g j)" using assms(5) by (simp_all add: c3_mmap_can_merge_def)
  have at: "attrs_at ?x p = attrs_at (g j) p" for p
    using merge_attrs [OF assms(5), of p] by (auto simp: attrs_at_def)
  have e: "merge_front g i j i = ?x" "\<not> mm_used (merge_front g i j j)" "k \<noteq> i \<Longrightarrow> k \<noteq> j \<Longrightarrow> merge_front g i j k = g k" for k
    using assms(4) by (simp_all add: merge_front_def Let_def)
  note M = merge_table [OF assms(1-4), of "g j" "g i" ?x "merge_front g i j"]
  show ?thesis using M assms(5) u at e by simp
qed

text \<open>Both merging passes leave every page mapped as it was.\<close>

lemma merge_slot_loop_spec:
  "table_ok g \<Longrightarrow> i < MMAP_REGION_MAX \<Longrightarrow> mm_used (g i) \<Longrightarrow>
     table_ok (merge_slot_loop g i) \<and> mapped (merge_slot_loop g i) = mapped g"
proof (induction g i rule: merge_slot_loop.induct)
  case (1 g i)
  show ?case
  proof (cases "find (mergeable g i) slots")
    case None
    then show ?thesis using 1 by (simp add: merge_slot_loop.simps)
  next
    case (Some j)
    have j: "j < MMAP_REGION_MAX" "mergeable g i j" using find_SomeD [OF Some] by simp_all
    let ?g = "if c3_mmap_can_merge (g i) (g j) then merge_behind g i j else merge_front g i j"
    have m: "table_ok ?g \<and> mapped ?g = mapped g"
      using merge_behind_spec [OF 1(2,3) j(1)] merge_front_spec [OF 1(2,3) j(1)] j(2) by (auto simp: mergeable_def)
    have "mm_used (?g i)" using 1(4) j(2) by (auto simp: merge_used mergeable_def)
    then have "table_ok (merge_slot_loop ?g i) \<and> mapped (merge_slot_loop ?g i) = mapped ?g"
      using 1(1) [OF Some] m 1(3) by blast
    then show ?thesis using m Some by (subst (1 2) merge_slot_loop.simps) simp
  qed
qed

lemma merge_slot_spec:
  "table_ok g \<Longrightarrow> table_ok (c3_mmap_merge_slot g sl) \<and> mapped (c3_mmap_merge_slot g sl) = mapped g"
  using merge_slot_loop_spec [of g "nat sl"] by (auto simp: c3_mmap_merge_slot_def nat_less_iff)

lemma merge_adjacent_spec:
  assumes "table_ok g"
  shows "table_ok (c3_mmap_merge_adjacent g r) \<and> mapped (c3_mmap_merge_adjacent g r) = mapped g"
proof -
  define inner where "inner = (\<lambda>i j g. if i = j \<or> \<not> mm_used (g j) \<or> mm_as (g j) \<noteq> r then g
             else if c3_mmap_can_merge (g i) (g j) then merge_behind g i j else g)"
  have keep: "table_ok h \<Longrightarrow> i < MMAP_REGION_MAX \<Longrightarrow> j < MMAP_REGION_MAX \<Longrightarrow> table_ok (inner i j h) \<and> mapped (inner i j h) = mapped h" for h i j
    using merge_behind_spec [of h i j] by (simp add: inner_def)
  have row: "table_ok h \<Longrightarrow> i < MMAP_REGION_MAX \<Longrightarrow> \<forall>j \<in> set js. j < MMAP_REGION_MAX \<Longrightarrow>
      table_ok (fold (inner i) js h) \<and> mapped (fold (inner i) js h) = mapped h" for h i js
  proof (induction js arbitrary: h)
    case (Cons j js)
    have "table_ok (inner i j h) \<and> mapped (inner i j h) = mapped h" using keep [OF Cons.prems(1,2)] Cons.prems(3) by simp
    with Cons.IH [of "inner i j h"] Cons.prems(2,3) show ?case by simp
  qed simp
  define outer where "outer = (\<lambda>i g. if \<not> mm_used (g i) \<or> mm_as (g i) \<noteq> r then g else fold (inner i) slots g)"
  have step: "table_ok h \<Longrightarrow> i < MMAP_REGION_MAX \<Longrightarrow> table_ok (outer i h) \<and> mapped (outer i h) = mapped h" for h i
    using row [of h i slots] by (simp add: outer_def)
  have all: "table_ok h \<Longrightarrow> \<forall>i \<in> set is. i < MMAP_REGION_MAX \<Longrightarrow> table_ok (fold outer is h) \<and> mapped (fold outer is h) = mapped h" for h "is"
  proof (induction "is" arbitrary: h)
    case (Cons i "is")
    have "table_ok (outer i h) \<and> mapped (outer i h) = mapped h" using step [OF Cons.prems(1)] Cons.prems(2) by simp
    with Cons.IH [of "outer i h"] Cons.prems(2) show ?case by simp
  qed simp
  have "c3_mmap_merge_adjacent g r = fold outer slots g"
    unfolding c3_mmap_merge_adjacent_def outer_def inner_def ..
  then show ?thesis using all [OF assms, of slots] by simp
qed

end
