(* ===== verification/KMmapOps.thy ===== *)
theory KMmapOps
  imports KMmap KVfs
begin

text \<open>
  The memory calls of \<^verbatim>\<open>src/compat/linux_syscalls.c\<close> over the region table, the page tables and
  the user frames: the page loops, faulting pages in, \<open>munmap\<close>, \<open>mprotect\<close>, \<open>madvise\<close>, \<open>msync\<close>,
  \<open>brk\<close>, the choice of an address and anonymous \<open>mmap\<close>.  Files are the map from normalised paths
  to contents that the file table refines (\<open>vfs_abs\<close> of the file operations); whether a write to
  a file succeeds, which paths are memory files and whether the current task is a browser or a
  desktop client (decided from its name) are fields of the state.  Traces are left out.
\<close>

subsection \<open>State\<close>

record vtask =
  vt_used :: bool
  vt_as :: as_ref
  vt_brk_start :: u64
  vt_brk_current :: u64
  vt_mmap_base :: u64

record vm = frames +
  vm_table :: mmap_table
  vm_tasks :: "nat \<Rightarrow> vtask"
  vm_files :: "string \<Rightarrow> u8 list option"
  vm_write_ok :: "string \<Rightarrow> bool"
  vm_memfd :: "string \<Rightarrow> bool"
  vm_browser :: bool
  vm_desktop :: bool
  vm_drm_released :: "u32 list"
  vm_anon_seq :: u32

definition C3_PAGE_SOFT_COW :: u64 where "C3_PAGE_SOFT_COW = 0x200"
definition C3_PTE_KEEP_MASK :: u64 where "C3_PTE_KEEP_MASK = NOT C2_PTE_ADDR_MASK"
definition C3_USER_HEAP_GAP :: u64 where "C3_USER_HEAP_GAP = 2 * 1024 * 1024"
definition C3_USER_HEAP_RESERVE :: u64 where "C3_USER_HEAP_RESERVE = 256 * 1024 * 1024"
definition C3_VFS_FILE_MAX :: u64 where "C3_VFS_FILE_MAX = 65536"
definition FDKIND_VFSFILE :: nat where "FDKIND_VFSFILE = 1"
definition FDKIND_DEVFB :: nat where "FDKIND_DEVFB = 8"
definition ENOENT :: int where "ENOENT = 2"
definition EIO :: int where "EIO = 5"
definition EACCES :: int where "EACCES = 13"
definition EEXIST :: int where "EEXIST = 17"

text \<open>Page loops run over the page numbers of a range.\<close>

definition page_list :: "u64 \<Rightarrow> u64 \<Rightarrow> u64 list" where
  "page_list s e = map (\<lambda>k. s + of_nat (k * 4096)) [0..<(unat e - unat s + 4095) div 4096]"

abbreviation user_small :: "u64 \<Rightarrow> bool" where
  "user_small e \<equiv> flag_set e PAGE_PRESENT \<and> flag_set e PAGE_USER \<and> \<not> flag_set e PAGE_HUGE"

definition c3_browser_memory_reserve_ok :: "vm \<Rightarrow> bool" where
  "c3_browser_memory_reserve_ok s \<longleftrightarrow> (if \<not> vm_browser s then True else pmm_free_count (fr_pmm s) > 1024)"

subsection \<open>Page loops\<close>

definition unmap_one :: "as_ref \<Rightarrow> bool \<Rightarrow> u64 \<Rightarrow> vm \<Rightarrow> vm" where
  "unmap_one r free_phys va s =
     (let entry = paging_get_entry (fr_pg s) r va; phys = entry AND C2_PTE_ADDR_MASK
      in if \<not> flag_set entry PAGE_PRESENT then s
         else if \<not> flag_set entry PAGE_USER then s
         else if flag_set entry PAGE_HUGE then s
         else (case paging_unmap (fr_pg s) r va of
                 (p, b) \<Rightarrow> let s1 = s\<lparr> fr_pg := p \<rparr>
                   in if \<not> b then s1
                      else if free_phys \<and> phys \<noteq> 0 then c3_phys_ref_release s1 phys else s1))"

definition c3_mmap_unmap_pages :: "vm \<Rightarrow> as_ref \<Rightarrow> u64 \<Rightarrow> u64 \<Rightarrow> bool \<Rightarrow> vm" where
  "c3_mmap_unmap_pages s r va len free_phys = fold (unmap_one r free_phys) (map (\<lambda>page. va + page) (page_list 0 len)) s"

definition c3_mmap_pages_present :: "vm \<Rightarrow> as_ref \<Rightarrow> u64 \<Rightarrow> u64 \<Rightarrow> bool" where
  "c3_mmap_pages_present s r a0 e0 \<longleftrightarrow>
     r = NullAS \<or> e0 < a0
     \<or> list_ex (\<lambda>page. let entry = paging_get_entry (fr_pg s) r page in flag_set entry PAGE_PRESENT \<and> flag_set entry PAGE_USER)
         (page_list (a0 AND NOT (PAGE_SIZE - 1)) ((e0 + PAGE_SIZE - 1) AND NOT (PAGE_SIZE - 1)))"

definition c3_mmap_force_unmapped_pages :: "vm \<Rightarrow> as_ref \<Rightarrow> u64 \<Rightarrow> u64 \<Rightarrow> vm" where
  "c3_mmap_force_unmapped_pages s r a0 e0 =
     (let a = a0 AND NOT (PAGE_SIZE - 1); e = (e0 + PAGE_SIZE - 1) AND NOT (PAGE_SIZE - 1)
      in if r = NullAS \<or> e0 < a0 then s
         else if e \<le> RIDUX_USER_LOW_SAFE then s
         else fold (\<lambda>page s. s\<lparr> fr_pg := fst (paging_unmap (fst (paging_map (fr_pg s) r page 0 PAGE_PRESENT)) r page) \<rparr>)
                (page_list (if a < RIDUX_USER_LOW_SAFE then RIDUX_USER_LOW_SAFE else a) e) s)"

text \<open>Taking back the pages that a failed loop had mapped.\<close>

definition rollback_one :: "as_ref \<Rightarrow> u64 \<Rightarrow> vm \<Rightarrow> vm" where
  "rollback_one r va s =
     (let phys = paging_translate (fr_pg s) r va; s1 = s\<lparr> fr_pg := fst (paging_unmap (fr_pg s) r va) \<rparr>
      in if phys \<noteq> 0 then c3_phys_ref_release s1 (page_floor phys) else s1)"

fun map_pages_loop :: "as_ref \<Rightarrow> u64 \<Rightarrow> bool \<Rightarrow> u64 list \<Rightarrow> u64 list \<Rightarrow> vm \<Rightarrow> vm \<times> int" where
  "map_pages_loop r pflags zero mapped_so_far [] s = (s, 0)"
| "map_pages_loop r pflags zero mapped_so_far (va # rest) s =
     (let entry = paging_get_entry (fr_pg s) r va
      in if flag_set entry PAGE_PRESENT \<and> flag_set entry PAGE_USER
         then (fold (rollback_one r) mapped_so_far s, - EEXIST)
         else (case c3_alloc_user_frame s of
                 (s1, frame) \<Rightarrow>
                   if frame = 0 then (fold (rollback_one r) mapped_so_far s1, - ENOMEM)
                   else (let s2 = c3_phys_ref_set_initial s1 frame;
                             s3 = (if zero then s2\<lparr> fr_data := (fr_data s2)(frame := (\<lambda>_. 0)) \<rparr> else s2)
                         in case paging_map (fr_pg s3) r va frame pflags of
                              (p, b) \<Rightarrow> let s4 = s3\<lparr> fr_pg := p \<rparr>
                                in if \<not> b
                                   then (fold (rollback_one r) mapped_so_far (c3_phys_ref_release s4 frame), - ENOMEM)
                                   else map_pages_loop r pflags zero (mapped_so_far @ [va]) rest s4)))"

definition c3_mmap_map_pages :: "vm \<Rightarrow> as_ref \<Rightarrow> u64 \<Rightarrow> u64 \<Rightarrow> u64 \<Rightarrow> bool \<Rightarrow> vm \<times> int" where
  "c3_mmap_map_pages s r va len pflags zero_pages =
     map_pages_loop r pflags zero_pages [] (map (\<lambda>page. va + page) (page_list 0 len)) s"

subsection \<open>Writing a shared mapping back to its file\<close>

definition user_byte :: "vm \<Rightarrow> as_ref \<Rightarrow> u64 \<Rightarrow> u8" where
  "user_byte s r a = fr_data s (page_floor (paging_translate (fr_pg s) r a)) (unat (a AND 0xFFF))"

lemma page_rest: "0 < unat (PAGE_SIZE - (va - (va AND NOT (PAGE_SIZE - 1))))"
proof -
  have f: "unat (va AND NOT (PAGE_SIZE - 1)) = unat va div 4096 * 4096" by (rule unat_page_floor)
  then have "(va AND NOT (PAGE_SIZE - 1)) \<le> va" by (simp add: word_le_nat_alt)
  then have "unat (va - (va AND NOT (PAGE_SIZE - 1))) = unat va - unat va div 4096 * 4096" unfolding f [symmetric] by (rule unat_sub)
  then have m: "unat (va - (va AND NOT (PAGE_SIZE - 1))) = unat va mod 4096" by (simp add: minus_div_mult_eq_mod)
  have p: "unat PAGE_SIZE = 4096" by (simp add: PAGE_SIZE_def)
  have "unat (PAGE_SIZE - (va - (va AND NOT (PAGE_SIZE - 1)))) = 4096 - unat va mod 4096"
  proof (subst unat_sub)
    show "va - (va AND NOT (PAGE_SIZE - 1)) \<le> PAGE_SIZE"
      unfolding word_le_nat_alt m p by (simp add: less_imp_le)
  qed (simp only: m p)
  moreover have "unat va mod 4096 < 4096" by simp
  ultimately show ?thesis by linarith
qed

function writeback_loop :: "vm \<Rightarrow> as_ref \<Rightarrow> u64 \<Rightarrow> u64 \<Rightarrow> u64 \<Rightarrow> u64 \<Rightarrow> u64 \<Rightarrow> u8 list \<Rightarrow> u8 list" where
  "writeback_loop s r region_end file_end va len file_start out =
     (if \<not> (va < region_end \<and> file_start < file_end \<and> len > 0) then out
      else (let page = va AND NOT (PAGE_SIZE - 1); in_pg = va - page; c0 = PAGE_SIZE - in_pg;
                c1 = (if c0 > len then len else c0);
                chunk = (if file_start + c1 > file_end then file_end - file_start else c1);
                o0 = unat file_start;
                out1 = (if flag_set (paging_get_entry (fr_pg s) r page) PAGE_PRESENT
                  then take o0 out @ map (\<lambda>k. user_byte s r (va + of_nat k)) [0..<unat chunk] @ drop (o0 + unat chunk) out
                  else out)
            in writeback_loop s r region_end file_end (va + chunk) (len - chunk) (file_start + chunk) out1))"
  by pat_completeness auto
termination
proof (relation "measure (\<lambda>(s, r, re, fe, va, len, fs, out). unat len)", simp, goal_cases)
  case (1 s r re fe va len fs out page in_pg c0 c1 chunk o0 out1)
  have c0: "0 < unat c0" unfolding 1(2-4) by (rule page_rest)
  have c1: "0 < unat c1" "unat c1 \<le> unat len"
    unfolding 1(5) using c0 1(1) by (auto simp: word_less_nat_alt word_le_nat_alt)
  have "0 < unat chunk \<and> unat chunk \<le> unat len"
  proof (cases "fs + c1 > fe")
    case True
    have lt: "unat fs < unat fe" using 1(1) by (simp add: word_less_nat_alt)
    have "unat fs + unat c1 < 2 ^ 64"
    proof (rule ccontr)
      assume "\<not> unat fs + unat c1 < 2 ^ 64"
      then have "unat (fs + c1) = unat fs + unat c1 - 2 ^ 64"
        using unat_less_2p [of fs] unat_less_2p [of c1] by (simp add: unat_word_ariths(1) mod_if)
      moreover have "unat c1 < 2 ^ 64" using unat_less_2p [of c1] by simp
      ultimately have "unat (fs + c1) < unat fs" using \<open>\<not> unat fs + unat c1 < 2 ^ 64\<close> by linarith
      then show False using True lt by (simp add: word_less_nat_alt)
    qed
    then have "unat (fs + c1) = unat fs + unat c1" by (subst unat_add_no_wrap) simp_all
    then have "unat fe < unat fs + unat c1" using True by (simp add: word_less_nat_alt)
    moreover have "unat (fe - fs) = unat fe - unat fs" using lt by (simp add: unat_sub word_le_nat_alt)
    ultimately show ?thesis using True lt c1 unfolding 1(6) by simp
  next
    case False
    then show ?thesis using c1 unfolding 1(6) by simp
  qed
  then have "unat (len - chunk) < unat len" by (simp add: unat_sub word_le_nat_alt)
  then show ?case by simp
qed

text \<open>The file keeps its length up to the end of the range; pages that are not present stay as they were.\<close>

definition c3_mmap_writeback_vfs_range :: "vm \<Rightarrow> as_ref \<Rightarrow> region \<Rightarrow> u64 \<Rightarrow> u64 \<Rightarrow> vm \<times> int" where
  "c3_mmap_writeback_vfs_range s r m va len =
     (let path = mm_backing_path m; file_start = mm_offset m + (va - mm_virt m); end0 = file_start + len;
          file_end = (if end0 > C3_VFS_FILE_MAX - 1 then C3_VFS_FILE_MAX - 1 else end0);
          want = unat (ucast file_end :: u32)
      in if \<not> mm_used m \<or> cstr path = [] then (s, 0)
         else if \<not> c3_mmap_is_shared (mm_flags m) \<or> mm_prot m AND C3_PROT_WRITE = 0 then (s, 0)
         else if mm_backing_kind m \<noteq> FDKIND_VFSFILE then (s, 0)
         else if vm_memfd s path then (s, 0)
         else if va < mm_virt m then (s, - EINVAL)
         else if end0 < file_start then (s, - EINVAL)
         else if file_start \<ge> C3_VFS_FILE_MAX - 1 then (s, 0)
         else (let old = (case vm_files s (norm_path path) of None \<Rightarrow> [] | Some d \<Rightarrow> take want d);
                   out = writeback_loop s r (mm_virt m + mm_size m) file_end va len file_start
                           (old @ replicate (want - length old) 0);
                   s1 = c3_file_page_invalidate_path s path
               in if \<not> vm_write_ok s path then (s1, - EIO)
                  else (s1\<lparr> vm_files := (vm_files s1)(norm_path path \<mapsto> take (VFS_RW_MAX - 1) out) \<rparr>, 0)))"

subsection \<open>Protection of a page; faulting a page in\<close>

text \<open>A page shared by copy-on-write is copied before it becomes writable.\<close>

definition c3_mprotect_apply_page :: "vm \<Rightarrow> as_ref \<Rightarrow> u64 \<Rightarrow> u64 \<Rightarrow> vm \<times> int" where
  "c3_mprotect_apply_page s r page pf =
     (let entry = paging_get_entry (fr_pg s) r page; phys0 = entry AND C2_PTE_ADDR_MASK; keep0 = entry AND C3_PTE_KEEP_MASK;
          cow = (flag_set pf PAGE_WRITABLE \<and> flag_set keep0 C3_PAGE_SOFT_COW);
          shared = (cow \<and> (case c3_phys_ref_index phys0 of None \<Rightarrow> False | Some i \<Rightarrow> fr_refcnt s i > 1))
      in if \<not> flag_set entry PAGE_PRESENT then (s, - ENOENT)
         else (case (if shared then c3_alloc_user_frame s else (s, phys0)) of
           (s1, phys) \<Rightarrow>
             if shared \<and> phys = 0 then (s1, - ENOMEM)
             else (let s2 = (if shared
                     then (c3_phys_ref_release
                            ((c3_phys_ref_set_initial s1 phys)\<lparr> fr_data := (fr_data s1)(phys := fr_data s1 phys0) \<rparr>) phys0)
                            \<lparr> fr_cow_copies := fr_cow_copies s1 + 1 \<rparr>
                     else s1);
                   keep1 = (if cow then keep0 AND NOT C3_PAGE_SOFT_COW else keep0);
                   k2 = (keep1 AND NOT (PAGE_WRITABLE OR PAGE_NX OR PAGE_USER))
                        OR (pf AND (PAGE_WRITABLE OR PAGE_NX OR PAGE_USER)) OR PAGE_PRESENT;
                   keep = (if flag_set k2 PAGE_WRITABLE then k2 AND NOT C3_PAGE_SOFT_COW else k2)
                 in (s2\<lparr> fr_pg := fst (paging_set_entry (fr_pg s2) r page (phys OR keep)) \<rparr>, 0))))"

definition promote_at :: "paging \<Rightarrow> u64 \<Rightarrow> nat \<Rightarrow> paging" where
  "promote_at p t i = (if flag_set (pg_mem p t i) PAGE_USER then p else set_entry p t i (pg_mem p t i OR PAGE_USER))"

definition c3_pf_promote_user_parents :: "paging \<Rightarrow> as_ref \<Rightarrow> u64 \<Rightarrow> paging" where
  "c3_pf_promote_user_parents p r virt =
     (let t4 = as_pml4 (get_as p r); i4 = pt_index virt 39; i3 = pt_index virt 30; i2 = pt_index virt 21
      in if r = NullAS \<or> t4 = 0 then p
         else if \<not> flag_set (pg_mem p t4 i4) PAGE_PRESENT then p
         else (let p1 = promote_at p t4 i4; t3 = PHYS_TO_DMAP (page_floor (pg_mem p1 t4 i4)) in
           if flag_set (pg_mem p1 t3 i3) PAGE_HUGE then p1
           else if \<not> flag_set (pg_mem p1 t3 i3) PAGE_PRESENT then p1
           else (let p2 = promote_at p1 t3 i3; t2 = PHYS_TO_DMAP (page_floor (pg_mem p2 t3 i3)) in
             if flag_set (pg_mem p2 t2 i2) PAGE_HUGE then p2
             else if \<not> flag_set (pg_mem p2 t2 i2) PAGE_PRESENT then p2
             else promote_at p2 t2 i2)))"

definition fresh_frame :: "vm \<Rightarrow> (nat \<Rightarrow> u8) \<Rightarrow> vm \<times> u64" where
  "fresh_frame s bytes =
     (case c3_alloc_user_frame s of
        (s1, frame) \<Rightarrow>
          if frame = 0 then (s1, 0)
          else (let s2 = c3_phys_ref_set_initial s1 frame in (s2\<lparr> fr_data := (fr_data s2)(frame := bytes) \<rparr>, frame)))"

definition c3_mmap_alloc_lazy_frame_for_page :: "vm \<Rightarrow> region option \<Rightarrow> u64 \<Rightarrow> vm \<times> u64" where
  "c3_mmap_alloc_lazy_frame_for_page s mo page =
     (if \<not> c3_browser_memory_reserve_ok s then (s, 0)
      else case mo of
        Some m \<Rightarrow> if c3_mmap_is_shared (mm_flags m) \<and> cstr (mm_backing_path m) \<noteq> [] \<and> page \<ge> mm_virt m
                  then c3_file_page_get_frame s (mm_backing_path m) None (mm_offset m + (page - mm_virt m))
                  else fresh_frame s (\<lambda>_. 0)
      | None \<Rightarrow> fresh_frame s (\<lambda>_. 0))"

definition c3_mmap_alloc_lazy_file_frame_for_page :: "vm \<Rightarrow> region \<Rightarrow> u64 \<Rightarrow> vm \<times> u64" where
  "c3_mmap_alloc_lazy_file_frame_for_page s m page =
     (let file_off = mm_offset m + (page - mm_virt m); data = vm_files s (norm_path (mm_backing_path m))
      in if \<not> c3_mmap_is_lazy_private_file m \<or> page < mm_virt m then (s, 0)
         else if data \<noteq> None \<and> mm_prot m AND (C3_PROT_WRITE OR C3_PROT_EXEC) = 0
         then (case c3_file_page_find_slot s (mm_backing_path m) file_off of
                 (s1, hit) \<Rightarrow>
                   if hit = None \<and> \<not> c3_browser_memory_reserve_ok s1 then (s1, 0)
                   else c3_file_page_get_frame s1 (mm_backing_path m) data file_off)
         else if \<not> c3_browser_memory_reserve_ok s then (s, 0)
         else fresh_frame s (page_bytes data file_off))"

definition add_resident :: "vm \<Rightarrow> int \<Rightarrow> vm" where
  "add_resident s midx =
     (if midx < 0 then s
      else s\<lparr> vm_table := (vm_table s)(nat midx := c3_mmap_resident_add (vm_table s (nat midx)) 1) \<rparr>)"

definition c3_mmap_materialize_zero_page :: "vm \<Rightarrow> as_ref \<Rightarrow> u64 \<Rightarrow> u32 \<Rightarrow> vm \<times> int" where
  "c3_mmap_materialize_zero_page s r page prot =
     (let entry = paging_get_entry (fr_pg s) r page; midx = c3_mmap_region_find (vm_table s) r page; m = vm_table s (nat midx)
      in if r = NullAS then (s, - EINVAL)
         else if user_small entry then c3_mprotect_apply_page s r page (c3_mmap_pte_flags_from_prot prot)
         else (case (if midx \<ge> 0 \<and> c3_mmap_is_lazy_private_file m then c3_mmap_alloc_lazy_file_frame_for_page s m page
                     else c3_mmap_alloc_lazy_frame_for_page s (if midx \<ge> 0 \<and> c3_mmap_is_lazy_anon m then Some m else None) page) of
           (s1, frame) \<Rightarrow>
             if frame = 0 then (s1, - ENOMEM)
             else (case paging_map (fr_pg s1) r page frame (c3_mmap_pte_flags_from_prot prot) of
               (p, b) \<Rightarrow> let s2 = s1\<lparr> fr_pg := p \<rparr>
                 in if \<not> b then (c3_phys_ref_release s2 frame, - ENOMEM)
                    else (let s3 = add_resident s2 midx
                          in (s3\<lparr> fr_pg := c3_pf_promote_user_parents (fr_pg s3) r page \<rparr>, 0)))))"

definition c3_pf_mmap_access_allowed :: "u32 \<Rightarrow> u64 \<Rightarrow> bool" where
  "c3_pf_mmap_access_allowed prot err_code \<longleftrightarrow>
     (if flag_set err_code 0x10 then prot AND C3_PROT_EXEC \<noteq> 0
      else if flag_set err_code 0x2 then prot AND C3_PROT_WRITE \<noteq> 0
      else prot AND (C3_PROT_READ OR C3_PROT_WRITE OR C3_PROT_EXEC) \<noteq> 0)"

text \<open>A fault in a reserved region, for an allowed access.\<close>

definition pf_install :: "vm \<Rightarrow> as_ref \<Rightarrow> int \<Rightarrow> u64 \<Rightarrow> u64 \<Rightarrow> u64 \<Rightarrow> vm \<times> bool" where
  "pf_install s r midx page frame pflags =
     (case paging_map (fr_pg s) r page frame pflags of
        (p, b) \<Rightarrow> let s2 = s\<lparr> fr_pg := p \<rparr>
          in if \<not> b then (c3_phys_ref_release s2 frame, False)
             else (let s3 = add_resident s2 midx
                   in (s3\<lparr> fr_pg := c3_pf_promote_user_parents (fr_pg s3) r page \<rparr>, True)))"

definition c3_pf_materialize_lazy_anon :: "vm \<Rightarrow> as_ref \<Rightarrow> int \<Rightarrow> u64 \<Rightarrow> u64 \<Rightarrow> vm \<times> bool" where
  "c3_pf_materialize_lazy_anon s r midx page err_code =
     (let m = vm_table s (nat midx)
      in if midx < 0 \<or> midx \<ge> int MMAP_REGION_MAX then (s, False)
         else if \<not> c3_mmap_is_lazy_anon m then (s, False)
         else if \<not> c3_pf_mmap_access_allowed (mm_prot m) err_code then (s, False)
         else (case c3_mmap_alloc_lazy_frame_for_page s (Some m) page of
                 (s1, frame) \<Rightarrow>
                   if frame = 0 then (s1, False)
                   else pf_install s1 r midx page frame
                     (if mm_prot m AND C3_PROT_WRITE = 0 then c3_mmap_pte_flags_from_prot (mm_prot m) OR C3_PAGE_SOFT_COW
                      else c3_mmap_pte_flags_from_prot (mm_prot m))))"

definition c3_pf_materialize_lazy_file :: "vm \<Rightarrow> as_ref \<Rightarrow> int \<Rightarrow> u64 \<Rightarrow> u64 \<Rightarrow> vm \<times> bool" where
  "c3_pf_materialize_lazy_file s r midx page err_code =
     (let m = vm_table s (nat midx)
      in if midx < 0 \<or> midx \<ge> int MMAP_REGION_MAX then (s, False)
         else if \<not> c3_mmap_is_lazy_private_file m then (s, False)
         else if \<not> c3_pf_mmap_access_allowed (mm_prot m) err_code then (s, False)
         else (case c3_mmap_alloc_lazy_file_frame_for_page s m page of
                 (s1, frame) \<Rightarrow>
                   if frame = 0 then (s1, False)
                   else pf_install s1 r midx page frame (c3_mmap_pte_flags_from_prot (mm_prot m))))"

subsection \<open>munmap\<close>

definition region_end :: "region \<Rightarrow> u64" where "region_end m = mm_virt m + mm_size m"

definition munmap_step :: "as_ref \<Rightarrow> u64 \<Rightarrow> u64 \<Rightarrow> nat \<Rightarrow> vm \<Rightarrow> vm" where
  "munmap_step r us ue i s =
     (let m = vm_table s i; rs = mm_virt m; re = region_end m;
          os = (if us > rs then us else rs); oe = (if ue < re then ue else re)
      in if \<not> mm_used m \<or> mm_as m \<noteq> r then s
         else if ue \<le> rs \<or> us \<ge> re then s
         else if oe \<le> os then s
         else (let s1 = (if (c3_mmap_is_lazy_anon m \<or> c3_mmap_is_lazy_private_file m) \<and> mm_resident_pages m = 0 then s
                 else c3_mmap_unmap_pages (fst (c3_mmap_writeback_vfs_range s r m os (oe - os))) r os (oe - os) (c3_mmap_owns_phys m));
               s2 = (if os = rs \<and> oe = re \<and> mm_backing_kind m = FDKIND_DEVFB \<and> mm_drm_handle m \<noteq> 0
                     then s1\<lparr> vm_drm_released := vm_drm_released s1 @ [mm_drm_handle m] \<rparr> else s1)
               in s2\<lparr> vm_table := munmap_cut (vm_table s2) i os oe \<rparr>))"

definition real_sys_munmap :: "vm \<Rightarrow> as_ref \<Rightarrow> u64 \<Rightarrow> u64 \<Rightarrow> vm \<times> int" where
  "real_sys_munmap s r addr len =
     (let raw_end = addr + len; ue = (raw_end + PAGE_SIZE - 1) AND NOT (PAGE_SIZE - 1)
      in if r = NullAS then (s, - ESRCH)
         else if len = 0 \<or> addr AND (PAGE_SIZE - 1) \<noteq> 0 then (s, - EINVAL)
         else if addr \<ge> C3_USER_TOP \<or> len > C3_USER_TOP - addr then (s, - EINVAL)
         else if ue < raw_end \<or> ue > C3_USER_TOP then (s, - EINVAL)
         else (fold (munmap_step r addr ue) slots s, 0))"

subsection \<open>mprotect\<close>

definition c3_mmap_fd_perms_ok :: "fd_table \<Rightarrow> int \<Rightarrow> u32 \<Rightarrow> u32 \<Rightarrow> bool" where
  "c3_mmap_fd_perms_ok fdt fd prot flags \<longleftrightarrow>
     \<not> (fd < 0 \<or> \<not> fd_valid fdt fd)
     \<and> fd_flags (fdt (nat fd)) AND FDFL_READABLE \<noteq> 0
     \<and> \<not> (prot AND C3_PROT_WRITE \<noteq> 0 \<and> c3_mmap_is_shared flags \<and> fd_flags (fdt (nat fd)) AND FDFL_WRITABLE = 0)"

text \<open>The pages of a part of a region; the first error ends the call.\<close>

fun mprotect_pages :: "as_ref \<Rightarrow> u32 \<Rightarrow> bool \<Rightarrow> bool \<Rightarrow> u64 list \<Rightarrow> vm \<Rightarrow> vm \<times> int" where
  "mprotect_pages r prot lazy_mapping materialize [] s = (s, 0)"
| "mprotect_pages r prot lazy_mapping materialize (page # rest) s =
     (let entry = paging_get_entry (fr_pg s) r page;
          fill = (\<lambda>s. if materialize
             then (case c3_mmap_materialize_zero_page s r page prot of
                     (s1, e) \<Rightarrow> if e < 0 then (s1, e) else mprotect_pages r prot lazy_mapping materialize rest s1)
             else mprotect_pages r prot lazy_mapping materialize rest s)
      in if lazy_mapping \<and> \<not> user_small entry then fill s
         else (case c3_mprotect_apply_page s r page (c3_mmap_pte_flags_from_prot prot) of
                 (s1, e) \<Rightarrow>
                   if e = - ENOENT \<and> lazy_mapping then fill s1
                   else if e < 0 then (s1, e)
                   else mprotect_pages r prot lazy_mapping materialize rest s1))"

text \<open>All regions in slot order; the second component says whether one was touched.\<close>

fun mprotect_loop :: "fd_table \<Rightarrow> as_ref \<Rightarrow> u64 \<Rightarrow> u64 \<Rightarrow> u32 \<Rightarrow> nat list \<Rightarrow> bool \<Rightarrow> vm \<Rightarrow> vm \<times> bool \<times> int" where
  "mprotect_loop fdt r us ue prot [] any_hit s = (s, any_hit, 0)"
| "mprotect_loop fdt r us ue prot (i # rest) any_hit s =
     (let m = vm_table s i; rs = mm_virt m; re = region_end m;
          lazy_mapping = (c3_mmap_is_lazy_anon m \<or> c3_mmap_is_lazy_private_file m);
          os = (if us > rs then us else rs); oe = (if ue < re then ue else re);
          materialize = (lazy_mapping \<and> prot AND C3_PROT_WRITE \<noteq> 0 \<and> oe - os \<le> 2 * 1024 * 1024)
      in if \<not> mm_used m \<or> mm_as m \<noteq> r then mprotect_loop fdt r us ue prot rest any_hit s
         else if ue \<le> rs \<or> us \<ge> re then mprotect_loop fdt r us ue prot rest any_hit s
         else if prot AND C3_PROT_WRITE \<noteq> 0 \<and> c3_mmap_is_shared (mm_flags m) \<and> mm_fd m \<ge> 0
              \<and> \<not> c3_mmap_fd_perms_ok fdt (mm_fd m) prot (mm_flags m) then (s, any_hit, - EACCES)
         else if oe \<le> os then mprotect_loop fdt r us ue prot rest any_hit s
         else (case (if lazy_mapping \<and> \<not> materialize \<and> oe - os > 64 * 1024 * 1024 then (s, 0)
                     else mprotect_pages r prot lazy_mapping materialize (page_list os oe) s) of
                 (s1, e) \<Rightarrow>
                   if e < 0 then (s1, any_hit, e)
                   else mprotect_loop fdt r us ue prot rest True (s1\<lparr> vm_table := mprotect_split (vm_table s1) i os oe prot \<rparr>)))"

fun apply_pages :: "as_ref \<Rightarrow> u64 \<Rightarrow> u64 list \<Rightarrow> vm \<Rightarrow> vm \<times> int" where
  "apply_pages r pf [] s = (s, 0)"
| "apply_pages r pf (page # rest) s =
     (case c3_mprotect_apply_page s r page pf of (s1, e) \<Rightarrow> if e < 0 then (s1, e) else apply_pages r pf rest s1)"

definition real_sys_mprotect :: "vm \<Rightarrow> fd_table \<Rightarrow> as_ref \<Rightarrow> u64 \<Rightarrow> u64 \<Rightarrow> u32 \<Rightarrow> vm \<times> int" where
  "real_sys_mprotect s fdt r addr len prot =
     (let ue = (addr + len + PAGE_SIZE - 1) AND NOT (PAGE_SIZE - 1); pf = c3_mmap_pte_flags_from_prot prot
      in if r = NullAS then (s, - ESRCH)
         else if prot AND NOT (C3_PROT_READ OR C3_PROT_WRITE OR C3_PROT_EXEC) \<noteq> 0 then (s, - EINVAL)
         else if len = 0 \<or> addr AND (PAGE_SIZE - 1) \<noteq> 0 then (s, - EINVAL)
         else if \<not> c3_mmap_range_fully_covered (vm_table s) r addr ue
         then (if list_ex (\<lambda>page. \<not> flag_set (paging_get_entry (fr_pg s) r page) PAGE_PRESENT) (page_list addr ue) then (s, - ENOMEM)
               else apply_pages r pf (page_list addr ue) s)
         else (case mprotect_loop fdt r addr ue prot slots False s of
                 (s1, any_hit, e) \<Rightarrow>
                   if e < 0 then (s1, e)
                   else if any_hit then (s1\<lparr> vm_table := c3_mmap_merge_adjacent (vm_table s1) r \<rparr>, 0)
                   else (s1, - ENOMEM)))"

subsection \<open>madvise and msync\<close>

definition discard_step :: "as_ref \<Rightarrow> u64 \<Rightarrow> u64 \<Rightarrow> nat \<Rightarrow> vm \<Rightarrow> vm" where
  "discard_step r us ue i s =
     (let m = vm_table s i; rs = mm_virt m; re = region_end m;
          os = (if us > rs then us else rs); oe = (if ue < re then ue else re)
      in if \<not> mm_used m \<or> mm_as m \<noteq> r then s
         else if \<not> c3_mmap_is_lazy_anon m then s
         else if \<not> c3_mmap_is_private (mm_flags m) then s
         else if ue \<le> rs \<or> us \<ge> re then s
         else fold (\<lambda>page s. if user_small (paging_get_entry (fr_pg s) r page)
                             then c3_mmap_unmap_pages s r page PAGE_SIZE True else s) (page_list os oe) s)"

definition c3_madvise_discard_anon :: "vm \<Rightarrow> as_ref \<Rightarrow> u64 \<Rightarrow> u64 \<Rightarrow> vm \<times> int" where
  "c3_madvise_discard_anon s r us ue = (if r = NullAS then (s, - ESRCH) else (fold (discard_step r us ue) slots s, 0))"

definition real_sys_madvise :: "vm \<Rightarrow> as_ref \<Rightarrow> u64 \<Rightarrow> u64 \<Rightarrow> int \<Rightarrow> vm \<times> int" where
  "real_sys_madvise s r addr len advice =
     (if r = NullAS then (s, - ESRCH)
      else if len = 0 then (s, 0)
      else if addr AND (PAGE_SIZE - 1) \<noteq> 0 then (s, - EINVAL)
      else if addr \<ge> C3_USER_TOP then (s, - ENOMEM)
      else if len > C3_USER_TOP - addr then (s, - ENOMEM)
      else if advice = 4 then c3_madvise_discard_anon s r addr ((addr + len + PAGE_SIZE - 1) AND NOT (PAGE_SIZE - 1))
      else if advice \<in> {8, 0, 1, 2, 3, 10, 11, 12, 13, 14, 15, 16, 17, 18, 19, 20, 21} then (s, 0)
      else (s, - EINVAL))"

definition msync_step :: "as_ref \<Rightarrow> u64 \<Rightarrow> u64 \<Rightarrow> nat \<Rightarrow> vm \<times> bool \<Rightarrow> vm \<times> bool" where
  "msync_step r us ue i acc =
     (case acc of (s, any_hit) \<Rightarrow>
        let m = vm_table s i; rs = mm_virt m; re = region_end m;
            os = (if us > rs then us else rs); oe = (if ue < re then ue else re)
        in if \<not> mm_used m \<or> mm_as m \<noteq> r then acc
           else if ue \<le> rs \<or> us \<ge> re then acc
           else if oe \<le> os then acc
           else (fst (c3_mmap_writeback_vfs_range s r m os (oe - os)), True))"

definition real_sys_msync :: "vm \<Rightarrow> as_ref \<Rightarrow> u64 \<Rightarrow> u64 \<Rightarrow> vm \<times> int" where
  "real_sys_msync s r a l =
     (if r = NullAS then (s, - ESRCH)
      else if l = 0 \<or> a AND (PAGE_SIZE - 1) \<noteq> 0 then (s, - EINVAL)
      else (case fold (msync_step r a ((a + l + PAGE_SIZE - 1) AND NOT (PAGE_SIZE - 1))) slots (s, False) of
              (s1, any_hit) \<Rightarrow> (s1, if any_hit then 0 else - ENOMEM)))"

subsection \<open>The layout of an address space\<close>

text \<open>Tasks that share an address space (threads) keep the same break and mapping base.\<close>

definition layout_peer :: "vm \<Rightarrow> nat \<Rightarrow> nat \<Rightarrow> bool" where
  "layout_peer s cur i \<longleftrightarrow> vt_used (vm_tasks s i) \<and> i \<noteq> cur \<and> vt_as (vm_tasks s i) = vt_as (vm_tasks s cur)"

definition pull_step :: "vm \<Rightarrow> nat \<Rightarrow> nat \<Rightarrow> u64 \<times> u64 \<times> u64 \<Rightarrow> u64 \<times> u64 \<times> u64" where
  "pull_step s cur i acc =
     (case acc of (bs, bc, mb) \<Rightarrow>
        if \<not> layout_peer s cur i then acc
        else (let t = vm_tasks s i
              in (if vt_brk_start t \<ge> RIDUX_USER_LOW_SAFE \<and> (bs < RIDUX_USER_LOW_SAFE \<or> vt_brk_start t < bs) then vt_brk_start t else bs,
                  if vt_brk_current t > bc then vt_brk_current t else bc,
                  if vt_mmap_base t > mb then vt_mmap_base t else mb)))"

definition c3_vm_layout_pull_shared :: "vm \<Rightarrow> nat \<Rightarrow> vm" where
  "c3_vm_layout_pull_shared s cur =
     (let t = vm_tasks s cur
      in if vt_as t = NullAS \<or> vt_as t = KernelAS then s
         else (case fold (pull_step s cur) [0..<TASK_MAX] (vt_brk_start t, vt_brk_current t, vt_mmap_base t) of
           (bs, bc, mb) \<Rightarrow>
             let t1 = (if bs \<ge> RIDUX_USER_LOW_SAFE then t\<lparr> vt_brk_start := bs \<rparr> else t);
                 t2 = (if bc \<ge> vt_brk_start t1 then t1\<lparr> vt_brk_current := bc \<rparr> else t1);
                 t3 = (if mb \<ge> RIDUX_USER_LOW_SAFE then t2\<lparr> vt_mmap_base := mb \<rparr> else t2)
             in s\<lparr> vm_tasks := (vm_tasks s)(cur := t3) \<rparr>))"

definition c3_vm_layout_push_shared :: "vm \<Rightarrow> nat \<Rightarrow> vm" where
  "c3_vm_layout_push_shared s cur =
     (let t = vm_tasks s cur
      in if vt_as t = NullAS \<or> vt_as t = KernelAS then s
         else s\<lparr> vm_tasks := (\<lambda>i. if i < TASK_MAX \<and> layout_peer s cur i
                then (vm_tasks s i)\<lparr> vt_brk_start := vt_brk_start t, vt_brk_current := vt_brk_current t, vt_mmap_base := vt_mmap_base t \<rparr>
                else vm_tasks s i) \<rparr>)"

definition c3_align_up_page :: "u64 \<Rightarrow> u64" where
  "c3_align_up_page v = (v + PAGE_SIZE - 1) AND NOT (PAGE_SIZE - 1)"

definition c3_place_user_heap :: "vtask \<Rightarrow> vtask \<times> bool" where
  "c3_place_user_heap t0 =
     (let base0 = c3_align_up_page (vt_brk_start t0);
          t = (if vt_mmap_base t0 < RIDUX_USER_LOW_SAFE then t0\<lparr> vt_mmap_base := RIDUX_USER_LOW_SAFE \<rparr> else t0);
          base1 = (if base0 = 0 \<or> base0 < RIDUX_USER_LOW_SAFE \<or> base0 < vt_mmap_base t + C3_USER_HEAP_GAP
                   then c3_align_up_page (vt_mmap_base t + C3_USER_HEAP_GAP) else base0);
          base = (if base1 < RIDUX_USER_LOW_SAFE then RIDUX_USER_LOW_SAFE else base1);
          limit = base + C3_USER_HEAP_RESERVE; next_mmap = c3_align_up_page (limit + C3_USER_HEAP_GAP)
      in if base \<ge> C3_USER_TOP \<or> C3_USER_HEAP_RESERVE > C3_USER_TOP - base then (t, False)
         else if C3_USER_HEAP_GAP > C3_USER_TOP - limit then (t, False)
         else (let t1 = t\<lparr> vt_brk_start := base \<rparr>;
                   t2 = (if vt_brk_current t1 < base \<or> vt_brk_current t1 \<ge> limit then t1\<lparr> vt_brk_current := base \<rparr> else t1);
                   t3 = (if vt_mmap_base t2 < next_mmap then t2\<lparr> vt_mmap_base := next_mmap \<rparr> else t2)
               in (t3, True)))"

subsection \<open>brk\<close>

text \<open>Growing maps zeroed pages one by one and stops at the first that fails.\<close>

fun brk_grow :: "as_ref \<Rightarrow> u64 list \<Rightarrow> vm \<Rightarrow> vm \<times> bool" where
  "brk_grow r [] s = (s, True)"
| "brk_grow r (page # rest) s =
     (if \<not> c3_browser_memory_reserve_ok s then (s, False)
      else (case c3_alloc_user_frame s of
        (s1, frame) \<Rightarrow>
          if frame = 0 then (s1, False)
          else (let s2 = c3_phys_ref_set_initial s1 frame
                in case paging_map (fr_pg s2) r page frame (c3_mmap_pte_flags_from_prot (C3_PROT_READ OR C3_PROT_WRITE)) of
                     (p, b) \<Rightarrow> let s3 = s2\<lparr> fr_pg := p \<rparr>
                       in if \<not> b then (c3_phys_ref_release s3 frame, False)
                          else brk_grow r rest (s3\<lparr> fr_data := (fr_data s3)(frame := (\<lambda>_. 0)) \<rparr>))))"

definition set_task :: "vm \<Rightarrow> nat \<Rightarrow> vtask \<Rightarrow> vm" where
  "set_task s i t = s\<lparr> vm_tasks := (vm_tasks s)(i := t) \<rparr>"

definition real_sys_brk :: "vm \<Rightarrow> nat option \<Rightarrow> u64 \<Rightarrow> vm \<times> int" where
  "real_sys_brk s0 curo addr =
     (case curo of None \<Rightarrow> (s0, - ESRCH)
      | Some cur \<Rightarrow>
     (if vt_as (vm_tasks s0 cur) = NullAS then (s0, - ESRCH)
      else (let sp = c3_vm_layout_pull_shared s0 cur; tp = vm_tasks sp cur;
                misplaced = (vt_brk_start tp < RIDUX_USER_LOW_SAFE \<or> vt_brk_current tp < vt_brk_start tp);
                placed = c3_place_user_heap tp;
                s = (if misplaced then set_task sp cur (fst placed) else sp)
            in if misplaced \<and> \<not> snd placed then (s, sint (vt_brk_current (vm_tasks s cur)))
               else (let s1 = (if misplaced then c3_vm_layout_push_shared s cur else s); t = vm_tasks s1 cur; r = vt_as t;
                         now = sint (vt_brk_current t);
                         old_end = (vt_brk_current t + PAGE_SIZE - 1) AND NOT (PAGE_SIZE - 1);
                         new_end = (addr + PAGE_SIZE - 1) AND NOT (PAGE_SIZE - 1)
                     in if addr = 0 then (s1, now)
                        else if addr \<ge> C3_USER_TOP \<or> addr > C3_USER_TOP - PAGE_SIZE then (s1, now)
                        else if addr < vt_brk_start t then (s1, now)
                        else if new_end > C3_USER_TOP - C3_USER_HEAP_GAP then (s1, now)
                        else if vt_mmap_base t \<noteq> 0 \<and> new_end + C3_USER_HEAP_GAP \<ge> vt_mmap_base t then (s1, now)
                        else (case (if new_end > old_end then brk_grow r (page_list old_end new_end) s1
                                    else if new_end < old_end then (fold (rollback_one r) (page_list new_end old_end) s1, True)
                                    else (s1, True)) of
                                (s2, ok) \<Rightarrow>
                                  if \<not> ok then (s2, now)
                                  else (c3_vm_layout_push_shared (set_task s2 cur (t\<lparr> vt_brk_current := addr \<rparr>)) cur, sint addr))))))"

subsection \<open>Choosing an address\<close>

definition range_free :: "vm \<Rightarrow> as_ref \<Rightarrow> u64 \<Rightarrow> u64 \<Rightarrow> bool" where
  "range_free s r a e \<longleftrightarrow> \<not> c3_mmap_overlap_as (vm_table s) r a e (- 1) \<and> \<not> c3_mmap_pages_present s r a e"

text \<open>At most \<open>guard\<close> tries, each past the regions in the way.\<close>

fun pick_search :: "vm \<Rightarrow> as_ref \<Rightarrow> u64 \<Rightarrow> nat \<Rightarrow> u64 \<Rightarrow> u64 option" where
  "pick_search s r len 0 try_addr = None"
| "pick_search s r len (Suc guard) try_addr =
     (if try_addr \<ge> C3_USER_TOP \<or> len > C3_USER_TOP - try_addr then None
      else if range_free s r try_addr (try_addr + len) then Some try_addr
      else (case c3_mmap_next_gap_after_overlap (vm_table s) r try_addr (try_addr + len) (- 1) of
              (hit, after) \<Rightarrow> pick_search s r len guard
                 (if hit \<and> after > try_addr \<and> after < C3_USER_TOP then after else try_addr + PAGE_SIZE)))"

definition low_or :: "u64 \<Rightarrow> u64 \<Rightarrow> u64" where
  "low_or base len = (if base < 0x40000000 \<or> base \<ge> C3_USER_TOP \<or> len > C3_USER_TOP - base then 0x40000000 else base)"

definition c3_mmap_pick_addr :: "vm \<Rightarrow> nat \<Rightarrow> u64 \<Rightarrow> u64 \<Rightarrow> u32 \<Rightarrow> vm \<times> (int + u64)" where
  "c3_mmap_pick_addr s0 cur hint len flags =
     (if len = 0 then (s0, Inl (- EINVAL))
      else (let s = c3_vm_layout_pull_shared s0 cur; t = vm_tasks s cur; r = vt_as t; fixed = hint AND NOT (PAGE_SIZE - 1);
                up = (vt_mmap_base t + PAGE_SIZE - 1) AND NOT (PAGE_SIZE - 1);
                first = low_or (if hint \<noteq> 0 then fixed else up) len; again = low_or up len;
                found = (case pick_search s r len 8192 first of
                           Some a \<Rightarrow> Some a
                         | None \<Rightarrow> if hint \<noteq> 0 then pick_search s r len 8192 again else None)
            in if len \<ge> C3_USER_TOP then (s, Inl (- ENOMEM))
               else if flags AND (C3_MAP_FIXED OR C3_MAP_FIXED_NOREPLACE) \<noteq> 0
               then (if fixed \<ge> C3_USER_TOP \<or> len > C3_USER_TOP - fixed then (s, Inl (- ENOMEM))
                     else if fixed < RIDUX_USER_LOW_SAFE then (s, Inl (- ENOMEM))
                     else (s, Inr fixed))
               else (case found of
                       None \<Rightarrow> (s, Inl (- ENOMEM))
                     | Some a \<Rightarrow>
                         (let e = a + len
                          in (if e > vt_mmap_base t \<and> e < C3_USER_TOP
                              then c3_vm_layout_push_shared (set_task s cur (t\<lparr> vt_mmap_base := e \<rparr>)) cur else s, Inr a)))))"

subsection \<open>Anonymous mmap\<close>

definition c3_shared_anon_make_path :: "u32 \<Rightarrow> u32 \<times> string" where
  "c3_shared_anon_make_path seq0 =
     (let seq = (if seq0 = 0 then 1 else seq0)
      in (seq + 1, k_append_u32 VFS_PATH_MAX (k_append_str VFS_PATH_MAX (k_append_str VFS_PATH_MAX [] C3_MEMFD_PREFIX) ''.shanon-'') seq))"

definition new_region :: "as_ref \<Rightarrow> u64 \<Rightarrow> u64 \<Rightarrow> u32 \<Rightarrow> u32 \<Rightarrow> u64 \<Rightarrow> u32 \<Rightarrow> string \<Rightarrow> region" where
  "new_region r virt sz prot flags off resident path =
     \<lparr> mm_used = True, mm_as = r, mm_virt = virt, mm_size = sz, mm_prot = prot, mm_flags = flags, mm_fd = - 1,
       mm_offset = off, mm_drm_handle = 0, mm_resident_pages = resident, mm_backing_kind = 0, mm_no_free_phys = False,
       mm_backing_path = path \<rparr>"

text \<open>The last part of the call: a slot (merging when there is none), the entry, its neighbours.\<close>

definition mmap_register :: "vm \<Rightarrow> as_ref \<Rightarrow> u64 \<Rightarrow> u64 \<Rightarrow> u32 \<Rightarrow> u32 \<Rightarrow> u64 \<Rightarrow> u32 \<Rightarrow> vm \<times> int" where
  "mmap_register s r vaddr len prot flags off resident =
     (let g0 = vm_table s;
          g = (if c3_mmap_alloc_slot g0 = None then c3_mmap_merge_adjacent g0 r else g0)
      in case c3_mmap_alloc_slot g of
           None \<Rightarrow> (c3_mmap_unmap_pages (s\<lparr> vm_table := g \<rparr>) r vaddr len True, - ENOMEM)
         | Some i \<Rightarrow>
             (let (seq, path) = (if c3_mmap_is_shared flags then c3_shared_anon_make_path (vm_anon_seq s) else (vm_anon_seq s, []));
                  g1 = g(i := new_region r vaddr len prot flags off resident path)
              in (s\<lparr> vm_anon_seq := seq, vm_table := c3_mmap_merge_slot g1 (int i) \<rparr>, sint vaddr)))"

definition mmap_anon :: "vm \<Rightarrow> nat option \<Rightarrow> u64 \<Rightarrow> u64 \<Rightarrow> u32 \<Rightarrow> u32 \<Rightarrow> u64 \<Rightarrow> vm \<times> int" where
  "mmap_anon s0 curo addr len prot flags off =
     (case curo of None \<Rightarrow> (s0, - ESRCH)
      | Some cur \<Rightarrow>
     (let r = vt_as (vm_tasks s0 cur); al = (len + PAGE_SIZE - 1) AND NOT (PAGE_SIZE - 1);
          is_fixed = (flags AND (C3_MAP_FIXED OR C3_MAP_FIXED_NOREPLACE) \<noteq> 0)
      in if r = NullAS then (s0, - ESRCH)
         else if len = 0 then (s0, - EINVAL)
         else if prot AND NOT (C3_PROT_READ OR C3_PROT_WRITE OR C3_PROT_EXEC) \<noteq> 0 then (s0, - EINVAL)
         else if len > C3_USER_TOP then (s0, - ENOMEM)
         else if al < len \<or> al \<ge> C3_USER_TOP then (s0, - ENOMEM)
         else if flags AND (C3_MAP_PRIVATE OR C3_MAP_SHARED) = 0 then (s0, - EINVAL)
         else if c3_mmap_is_private flags \<and> c3_mmap_is_shared flags then (s0, - EINVAL)
         else if addr \<noteq> 0 \<and> addr AND (PAGE_SIZE - 1) \<noteq> 0 \<and> is_fixed then (s0, - EINVAL)
         else (case c3_mmap_pick_addr s0 cur addr al flags of
                 (s1, Inl e) \<Rightarrow> (s1, - ENOMEM)
               | (s1, Inr vaddr) \<Rightarrow>
                   (let has_overlap = (\<not> range_free s1 r vaddr (vaddr + al));
                        s2 = (if flags AND C3_MAP_FIXED \<noteq> 0 \<and> has_overlap
                          then c3_mmap_unmap_pages (fst (real_sys_munmap s1 r vaddr al)) r vaddr al True else s1);
                        u0 = vaddr + al; u1 = (if u0 < vaddr \<or> u0 > 0x100000000 then 0x100000000 else u0);
                        s3 = (if vaddr < 0x100000000 then c3_mmap_force_unmapped_pages s2 r vaddr u1 else s2);
                        eager = (vm_desktop s3 \<and> prot AND (C3_PROT_READ OR C3_PROT_WRITE) \<noteq> 0 \<and> al > 0 \<and> al \<le> 2 * 1024 * 1024)
                    in if vaddr \<ge> C3_USER_TOP \<or> al > C3_USER_TOP - vaddr then (s1, - ENOMEM)
                       else if flags AND C3_MAP_FIXED_NOREPLACE \<noteq> 0 \<and> has_overlap then (s1, - EEXIST)
                       else if \<not> (flags AND C3_MAP_FIXED \<noteq> 0) \<and> has_overlap then (s1, - ENOMEM)
                       else (case (if eager then c3_mmap_map_pages s3 r vaddr al (c3_mmap_pte_flags_from_prot prot) True else (s3, 0)) of
                               (s4, e) \<Rightarrow>
                                 if e < 0 then (s4, e)
                                 else mmap_register s4 r vaddr al prot flags off (if eager then c3_mmap_pages_u32 al else 0))))))"

end
