(* ===== verification/KFrameProps.thy ===== *)
theory KFrameProps
  imports KFrames "HOL-Library.Multiset"
begin

text \<open>
  What the reference counts of user frames give: runs of the frame operations with a ghost
  multiset of the references that mappings hold, the safety of allocation over them, and the
  sharing of file pages.
\<close>

subsection \<open>Runs\<close>

text \<open>
  A holder takes a fresh frame, a page of a file, or another reference to a frame that is held;
  it gives up a reference it has; a file is invalidated or renamed in the cache; page tables
  take frames of their own.  The counts are 16 bits wide and stay there once full, so a run
  keeps them below.
\<close>

definition counts_fit :: "frames \<Rightarrow> bool" where
  "counts_fit s \<longleftrightarrow> (\<forall>b \<in> managed s. refs s b < 65535)"

inductive frame_run :: "frames \<Rightarrow> frames \<Rightarrow> u64 multiset \<Rightarrow> bool" for s0 where
  start: "frame_run s0 s0 {#}"
| fresh: "frame_run s0 s held \<Longrightarrow> c3_alloc_user_frame s = (s', a) \<Longrightarrow> a \<noteq> 0 \<Longrightarrow>
    frame_run s0 (c3_phys_ref_set_initial s' a) (add_mset a held)"
| no_memory: "frame_run s0 s held \<Longrightarrow> c3_alloc_user_frame s = (s', 0) \<Longrightarrow> frame_run s0 s' held"
| file_page: "frame_run s0 s held \<Longrightarrow> counts_fit s \<Longrightarrow> c3_file_page_get_frame s path data off = (s', a) \<Longrightarrow>
    frame_run s0 s' (if a = 0 then held else add_mset a held)"
| share: "frame_run s0 s held \<Longrightarrow> counts_fit s \<Longrightarrow> a \<in># held \<Longrightarrow>
    frame_run s0 (c3_phys_ref_retain s a) (add_mset a held)"
| give_up: "frame_run s0 s held \<Longrightarrow> a \<in># held \<Longrightarrow> frame_run s0 (c3_phys_ref_release s a) (held - {#a#})"
| invalidate: "frame_run s0 s held \<Longrightarrow> frame_run s0 (c3_file_page_invalidate_path s path) held"
| rename_file: "frame_run s0 s held \<Longrightarrow> frame_run s0 (c3_file_page_rename_path s path path') held"
| page_table: "frame_run s0 s held \<Longrightarrow> frame_run s0 (s\<lparr> fr_pg := fst (alloc_page_table (fr_pg s)) \<rparr>) held"

lemma page_table_inv:
  assumes inv: "frames_inv s h"
  shows "frames_inv (s\<lparr> fr_pg := fst (alloc_page_table (fr_pg s)) \<rparr>) h"
    and "managed (s\<lparr> fr_pg := fst (alloc_page_table (fr_pg s)) \<rparr>) = managed s"
proof -
  note I = frames_invD [OF inv]
  let ?t = "s\<lparr> fr_pg := fst (alloc_page_table (fr_pg s)) \<rparr>"
  obtain p f where p: "pmm_alloc_frame (fr_pmm s) = (p, f)" by (meson surj_pair)
  have pm: "fr_pmm ?t = (if f = 0 then p else pmm_mark_page_table_frame p f)"
    by (simp add: alloc_page_table_def p)
  have P: "pmm_ok (fr_pmm ?t) \<and> managed ?t = managed s \<and> free_set ?t \<subseteq> free_set s"
  proof (cases "free_set s = {}")
    case True
    then have "p = fr_pmm s" "f = 0" using fa.alloc_none [OF I(3) True] p by auto
    then show ?thesis using I(3) unfolding pm by simp
  next
    case False
    then have A: "f \<in> free_set s" "pmm_ok p" "free_frames p = free_set s - {f}" "managed_frames p = managed s"
      using fa.alloc_some [OF I(3) False] p by auto
    have "f \<in> managed_frames p" using A(1,4) fa.free_managed [OF I(3)] by blast
    then show ?thesis using fa.pin_keeps [OF A(2), of f] A unfolding pm by auto
  qed
  then show "managed ?t = managed s" by blast
  have ql: "quar_list ?t = quar_list s" by (rule quar_list_cong) simp_all
  have r: "refs ?t b = refs s b" for b by (rule refs_cong) simp
  have "quar_ok ?t" using I(1) by (simp add: quar_inv_def quar_ok_def)
  then have "quar_inv ?t" using I(1) P unfolding quar_inv_def ql r by blast
  moreover have "cache_inv ?t h" using I(2) P cache_inv_cong [of ?t s h] by simp
  ultimately show "frames_inv ?t h" by (simp add: frames_inv_def)
qed

lemma runI: "frames_inv s (count M) \<Longrightarrow> (\<And>a. a \<in># M \<Longrightarrow> a \<in> managed s) \<Longrightarrow>
    frames_inv s (count M) \<and> (\<forall>a. a \<in># M \<longrightarrow> a \<in> managed s)"
  by blast

text \<open>Along a run every count is the number of references held plus those of the cache.\<close>

lemma frame_run_inv:
  assumes "frame_run s0 s held" and "frames_inv s0 (\<lambda>_. 0)"
  shows "frames_inv s (count held) \<and> (\<forall>a. a \<in># held \<longrightarrow> a \<in> managed s)"
  using assms
proof (induction rule: frame_run.induct)
  case start
  have "count {#} = (\<lambda>_ :: u64. 0 :: nat)" by (simp add: fun_eq_iff)
  with start show ?case by simp
next
  case (fresh s held s' a)
  note I = conjunct1 [OF fresh.IH [OF fresh.prems]] and H = conjunct2 [OF fresh.IH [OF fresh.prems]]
  note A = alloc_user_frame_spec [OF I fresh.hyps(2)]
  note S = set_initial_inv [OF settlesD [OF A(1)] A(2) [OF fresh.hyps(3)]]
  have m: "managed (c3_phys_ref_set_initial s' a) = managed s"
    using A(1) by (simp add: c3_phys_ref_set_initial_def settles_def split: option.split)
  have e: "count (add_mset a held) = (count held)(a := count held a + 1)" by (simp add: fun_eq_iff)
  have "a \<in> managed s" using A(1) A(2) [OF fresh.hyps(3)] by (simp add: settles_def idle_frame_def)
  then have "x \<in> managed (c3_phys_ref_set_initial s' a)" if "x \<in># add_mset a held" for x using that H m by auto
  moreover have "frames_inv (c3_phys_ref_set_initial s' a) (count (add_mset a held))" unfolding e by (rule S(1))
  ultimately show ?case by (intro runI)
next
  case (no_memory s held s')
  note I = conjunct1 [OF no_memory.IH [OF no_memory.prems]] and H = conjunct2 [OF no_memory.IH [OF no_memory.prems]]
  show ?case using alloc_user_frame_spec(1) [OF I no_memory.hyps(2)] H by (simp add: settles_def)
next
  case (file_page s held path data off s' a)
  note I = conjunct1 [OF file_page.IH [OF file_page.prems]] and H = conjunct2 [OF file_page.IH [OF file_page.prems]]
  have "\<And>b. b \<in> managed s \<Longrightarrow> refs s b < 65535" using file_page.hyps(2) by (simp add: counts_fit_def)
  note G = get_frame_spec [OF I this file_page.hyps(3)]
  have e: "count (add_mset a held) = (count held)(a := count held a + 1)" by (simp add: fun_eq_iff)
  have "frames_inv s' (count (if a = 0 then held else add_mset a held))"
  proof (cases "a = 0")
    case True
    with G(1) show ?thesis by simp
  next
    case False
    with G(1) have "frames_inv s' ((count held)(a := count held a + 1))" by simp
    then show ?thesis using False by (simp only: e if_False)
  qed
  moreover have "x \<in> managed s'" if "x \<in># (if a = 0 then held else add_mset a held)" for x
    using that G(2,4) H by (auto split: if_splits)
  ultimately show ?case by (intro runI)
next
  case (share s held a)
  note I = conjunct1 [OF share.IH [OF share.prems]] and H = conjunct2 [OF share.IH [OF share.prems]]
  have a: "a \<in> managed s" using H share.hyps(3) by blast
  have "0 < refs s a" using frames_invD(4) [OF I a] share.hyps(3) by simp
  moreover have "refs s a < 65535" using share.hyps(2) a by (simp add: counts_fit_def)
  ultimately have "frames_inv (c3_phys_ref_retain s a) ((count held)(a := count held a + 1))"
    by (rule retain_inv [OF I a])
  moreover have "count (add_mset a held) = (count held)(a := count held a + 1)" by (simp add: fun_eq_iff)
  ultimately have "frames_inv (c3_phys_ref_retain s a) (count (add_mset a held))" by (simp only:)
  moreover
  have "managed (c3_phys_ref_retain s a) = managed s" by (simp add: c3_phys_ref_retain_def split: option.split)
  then have "x \<in> managed (c3_phys_ref_retain s a)" if "x \<in># add_mset a held" for x using that H a by auto
  ultimately show ?case by (intro runI)
next
  case (give_up s held a)
  note I = conjunct1 [OF give_up.IH [OF give_up.prems]] and H = conjunct2 [OF give_up.IH [OF give_up.prems]]
  have "0 < count held a" "a \<in> managed s" using H give_up.hyps(2) by auto
  note R = release_inv [OF I this]
  have e: "count (held - {#a#}) = (count held)(a := count held a - 1)" by (simp add: fun_eq_iff)
  have "frames_inv (c3_phys_ref_release s a) (count (held - {#a#}))" unfolding e by (rule R(1))
  moreover have "x \<in> managed (c3_phys_ref_release s a)" if "x \<in># held - {#a#}" for x
    using R(2) H in_diffD [OF that] by simp
  ultimately show ?case by (intro runI)
next
  case (invalidate s held path)
  note I = conjunct1 [OF invalidate.IH [OF invalidate.prems]] and H = conjunct2 [OF invalidate.IH [OF invalidate.prems]]
  show ?case using invalidate_path_settles [OF I, of path] H by (simp add: settles_def)
next
  case (rename_file s held path path')
  note I = conjunct1 [OF rename_file.IH [OF rename_file.prems]] and H = conjunct2 [OF rename_file.IH [OF rename_file.prems]]
  show ?case using rename_inv [OF I, of path path'] H rename_managed [of s path path'] by simp
next
  case (page_table s held)
  note I = conjunct1 [OF page_table.IH [OF page_table.prems]] and H = conjunct2 [OF page_table.IH [OF page_table.prems]]
  show ?case using page_table_inv [OF I] H by simp
qed

subsection \<open>Looking a file page up again\<close>

definition page_matches :: "'a frames_scheme \<Rightarrow> string \<Rightarrow> u64 \<Rightarrow> nat \<Rightarrow> bool" where
  "page_matches s path off i \<longleftrightarrow> fp_used (fr_pages s i) \<and> fp_page_off (fr_pages s i) = off
     \<and> k_strcmp (fp_path (fr_pages s i)) path = 0"

abbreviation scan :: "'a frames_scheme \<Rightarrow> string \<Rightarrow> u64 \<Rightarrow> nat option" where
  "scan s path off \<equiv> find (page_matches s path off) [0..<C3_FILEPAGE_MAX]"

definition bucket_of :: "string \<Rightarrow> u64 \<Rightarrow> nat" where
  "bucket_of path off = unat (ucast (c3_file_page_hash_for path off AND (C3_FILEPAGE_LOOKUP_MAX - 1)) :: u32)"

text \<open>The look-aside entry, when it is used, names a match.\<close>

definition aside :: "'a frames_scheme \<Rightarrow> string \<Rightarrow> u64 \<Rightarrow> nat option" where
  "aside s path off =
     (let c = fr_lookup s (bucket_of path off); i = unat c - 1
      in if c \<noteq> 0 \<and> i < C3_FILEPAGE_MAX \<and> fp_hash (fr_pages s i) = c3_file_page_hash_for path off
            \<and> page_matches s path off i then Some i else None)"

lemma find_slot_aside:
  "c3_file_page_find_slot s path off =
     (if cstr path = [] then (s, None)
      else case aside s path off of Some i \<Rightarrow> (s, Some i)
        | None \<Rightarrow> (case scan s path off of None \<Rightarrow> (s, None)
            | Some i \<Rightarrow> (s\<lparr> fr_lookup := (fr_lookup s)(bucket_of path off := of_nat i + 1) \<rparr>, Some i)))"
proof -
  have e: "(fp_used f \<and> fp_hash f = h \<and> fp_page_off f = off \<and> k_strcmp (fp_path f) path = 0)
      = (fp_hash f = h \<and> fp_used f \<and> fp_page_off f = off \<and> k_strcmp (fp_path f) path = 0)" for f h by blast
  show ?thesis
    unfolding c3_file_page_find_slot_def aside_def page_matches_def bucket_of_def Let_def e
    by (simp split: option.split)
qed

lemma asideD: "aside s path off = Some i \<Longrightarrow> i < C3_FILEPAGE_MAX \<and> page_matches s path off i"
  by (auto simp: aside_def Let_def split: if_splits)

lemma scanD: "scan s path off = Some i \<Longrightarrow> i < C3_FILEPAGE_MAX \<and> page_matches s path off i"
  by (drule find_SomeD) simp

lemma find_slot_again:
  assumes r: "c3_file_page_find_slot s path off = (t, Some i)" and u: "fr_pages u = fr_pages s" "fr_lookup u = fr_lookup t"
  shows "snd (c3_file_page_find_slot u path off) = Some i"
proof -
  have ne: "cstr path \<noteq> []" using r by (auto simp: find_slot_aside)
  have m: "page_matches u path off = page_matches s path off" by (simp add: page_matches_def fun_eq_iff u)
  show ?thesis
  proof (cases "aside s path off")
    case (Some j)
    then have "t = s" "j = i" using r ne by (auto simp: find_slot_aside)
    then have "aside u path off = Some i" using Some u m by (simp add: aside_def)
    then show ?thesis using ne by (simp add: find_slot_aside)
  next
    case None
    then have sc: "scan s path off = Some i" and t: "fr_lookup t = (fr_lookup s)(bucket_of path off := of_nat i + 1)"
      using r ne by (auto simp: find_slot_aside split: option.splits)
    have i: "i < 65536" using scanD [OF sc] by (simp add: C3_FILEPAGE_MAX_def)
    then have un: "unat (of_nat i + 1 :: u32) = i + 1" by (subst unat_add_no_wrap) (simp_all add: unat_of_nat take_bit_nat_eq_self)
    then have "(of_nat i + 1 :: u32) \<noteq> 0" by (metis add_is_0 one_neq_zero unat_0)
    then have "aside u path off = Some i \<or> aside u path off = None"
      unfolding aside_def Let_def u(2) t using un by simp
    then show ?thesis using ne sc by (auto simp: find_slot_aside m)
  qed
qed

lemma find_slot_only:
  assumes "cstr path \<noteq> []" and i: "i < C3_FILEPAGE_MAX" "page_matches u path off i"
    and only: "\<And>j. j < C3_FILEPAGE_MAX \<Longrightarrow> page_matches u path off j \<Longrightarrow> j = i"
  shows "snd (c3_file_page_find_slot u path off) = Some i"
proof -
  have "scan u path off \<noteq> None" using i by (auto simp: find_None_iff)
  then have "scan u path off = Some i" using scanD [of u path off] only by blast
  moreover have "aside u path off = None \<or> aside u path off = Some i" using asideD [of u path off] only by (cases "aside u path off") auto
  ultimately show ?thesis using assms(1) by (auto simp: find_slot_aside)
qed

lemma get_frame_hit:
  assumes inv: "frames_inv s h" and hit: "snd (c3_file_page_find_slot s path off) = Some i" and room: "refs s (fp_phys (fr_pages s i)) < 65535"
  defines "a \<equiv> fp_phys (fr_pages s i)"
  shows "\<exists>t. c3_file_page_get_frame s path data off = (t, a) \<and> refs t a = refs s a + 1 \<and> fr_data t = fr_data s
    \<and> fr_pg t = fr_pg s \<and> fr_pages t = fr_pages s \<and> fr_lookup t = fr_lookup (fst (c3_file_page_find_slot s path off))"
proof -
  obtain s1 where fs: "c3_file_page_find_slot s path off = (s1, Some i)" using hit by (metis prod.collapse)
  obtain l where l: "s1 = s\<lparr> fr_lookup := l \<rparr>" using find_slot_spec(1) [OF fs] by blast
  note I = frames_invD [OF inv]
  have i: "i < C3_FILEPAGE_MAX" "fp_used (fr_pages s i)" using find_slot_spec(2) [OF fs refl] by simp_all
  note C = cache_used [OF I(2) i, folded a_def]
  have fl: "page_floor a = a" using managed_index(2) [OF I(3) C(1)] .
  have nz: "a \<noteq> 0" using fa.zero_not_managed [OF I(3)] C(1) by metis
  obtain r where r: "c3_phys_ref_index a = Some r" using managed_index(1) [OF I(3) C(1)] by blast
  have e1: "refs s1 a = refs s a" by (rule refs_cong) (simp add: l)
  note R = retain_refs [OF r, of s1, unfolded e1, OF C(3) room [folded a_def]]
  let ?u = "s1\<lparr> fr_refcnt := (fr_refcnt s1)(r := fr_refcnt s1 r + 1) \<rparr>"
  have "c3_file_page_get_frame s path data off = (?u\<lparr> fr_cow_shared := fr_cow_shared s1 + 1 \<rparr>, a)"
    using nz fl R(1) by (simp add: c3_file_page_get_frame_def fs Let_def l a_def [symmetric])
  moreover have "refs (?u\<lparr> fr_cow_shared := fr_cow_shared s1 + 1 \<rparr>) a = refs s a + 1"
    using R(2) by (simp add: refs_def r)
  ultimately show ?thesis by (auto simp: fs l)
qed

lemma get_frame_miss:
  assumes inv: "frames_inv s h" and miss: "snd (c3_file_page_find_slot s path off) = None"
    and g: "c3_file_page_get_frame s path data off = (t, f)" and f: "f \<noteq> 0"
  shows "(\<forall>j. fp_used (fr_pages t j) \<longrightarrow> fr_pages t j = fr_pages s j \<and> (j < C3_FILEPAGE_MAX \<longrightarrow> fp_phys (fr_pages t j) \<noteq> f))
    \<or> (\<exists>i < C3_FILEPAGE_MAX. (\<forall>j. j \<noteq> i \<longrightarrow> fp_used (fr_pages t j) \<longrightarrow> fr_pages t j = fr_pages s j)
        \<and> fp_used (fr_pages t i) \<and> fp_page_off (fr_pages t i) = off \<and> fp_phys (fr_pages t i) = f
        \<and> fp_path (fr_pages t i) = take 255 (cstr path))"
proof -
  obtain s1 where fs: "c3_file_page_find_slot s path off = (s1, None)" using miss by (metis prod.collapse)
  obtain l where l: "s1 = s\<lparr> fr_lookup := l \<rparr>" using find_slot_spec(1) [OF fs] by blast
  have inv1: "frames_inv s1 h" using inv frames_inv_cong [of s1 s h] by (simp add: l)
  obtain s3 fr where al: "c3_alloc_user_frame s1 = (s3, fr)" by (meson surj_pair)
  note A = alloc_user_frame_spec [OF inv1 al]
  have fr: "fr \<noteq> 0" using g f by (auto simp: c3_file_page_get_frame_def fs al)
  note S = set_initial_inv [OF settlesD [OF A(1)] A(2) [OF fr]]
  define s4 where "s4 = c3_phys_ref_set_initial s3 fr"
  define s5 where "s5 = s4\<lparr> fr_data := (fr_data s4)(fr := page_bytes data off) \<rparr>"
  have p5: "fr_pages s5 = fr_pages s3"
    by (simp add: s5_def s4_def c3_phys_ref_set_initial_def split: option.split)
  have inv5: "frames_inv s5 (h(fr := h fr + 1))" using S(1) frames_inv_cong [of s5 s4] by (simp add: s5_def s4_def)
  obtain s6 r where sl: "c3_file_page_alloc_slot s5 path = (s6, r)" by (meson surj_pair)
  note L = alloc_slot_spec [OF inv5 sl]
  have keep: "fr_pages s6 j = fr_pages s3 j \<and> fr_pages s6 j = fr_pages s j" if "fp_used (fr_pages s6 j)" for j
  proof -
    have e: "fr_pages s6 j = fr_pages s3 j" using L(1) that by (simp add: settles_def p5)
    then have "fr_pages s3 j = fr_pages s1 j" using A(1) that unfolding settles_def by metis
    with e show ?thesis by (simp add: l)
  qed
  have none: "fp_phys (fr_pages s6 j) \<noteq> fr" if "fp_used (fr_pages s6 j)" "j < C3_FILEPAGE_MAX" for j
    using keep [OF that(1)] that idle_count [OF settlesD [OF A(1)] A(2) [OF fr]] by (auto simp: cache_at_def)
  have g': "(t, f) = (case (s6, r) of (s6, None) \<Rightarrow>
        if c3_file_page_must_keep path then (c3_phys_ref_release s6 fr, 0) else (s6, fr)
      | (s6, Some i) \<Rightarrow>
        (let f = (fr_pages s6 i)\<lparr> fp_used := True, fp_page_off := off, fp_phys := fr,
                   fp_path := k_strlcpy (fp_path (fr_pages s6 i)) path VFS_PATH_MAX,
                   fp_hash := c3_file_page_hash_for path off \<rparr>;
             s7 = s6\<lparr> fr_pages := (fr_pages s6)(i := f) \<rparr>
         in (c3_phys_ref_retain (c3_file_page_cache_slot s7 i) fr, fr)))"
    using g fr by (simp add: c3_file_page_get_frame_def fs al Let_def s4_def [symmetric] s5_def [symmetric] sl)
  show ?thesis
  proof (cases r)
    case None
    then have "t = s6" "f = fr" using g' f by (auto split: if_splits)
    then show ?thesis using keep none by blast
  next
    case (Some i)
    let ?f = "(fr_pages s6 i)\<lparr> fp_used := True, fp_page_off := off, fp_phys := fr,
                   fp_path := k_strlcpy (fp_path (fr_pages s6 i)) path VFS_PATH_MAX,
                   fp_hash := c3_file_page_hash_for path off \<rparr>"
    have e: "t = c3_phys_ref_retain (c3_file_page_cache_slot (s6\<lparr> fr_pages := (fr_pages s6)(i := ?f) \<rparr>) i) fr" "f = fr"
      using g' Some by (simp_all add: Let_def)
    have "fr_pages (c3_phys_ref_retain u fr) = fr_pages u" for u :: "'a frames_scheme"
      by (simp add: c3_phys_ref_retain_def split: option.split)
    moreover have "fr_pages (c3_file_page_cache_slot u i) = fr_pages u" for u :: "'a frames_scheme"
      using cache_slot_lookup [of u i] by auto
    ultimately have p: "fr_pages t = (fr_pages s6)(i := ?f)" unfolding e by simp
    have "i < C3_FILEPAGE_MAX" using L(2) [OF Some] by blast
    moreover have "fp_path ?f = take 255 (cstr path)" by (simp add: k_strlcpy_take VFS_PATH_MAX_def)
    ultimately show ?thesis using keep unfolding p e(2) by (intro disjI2 exI [of _ i]) auto
  qed
qed

subsection \<open>The properties\<close>

text \<open>C26: However the users of physical memory interleave their operations, the frame that
  \<open>c3_alloc_user_frame\<close> hands out is one that nobody refers to: no mapping holds it, no cached
  file page lives in it, it is not waiting in the quarantine and its count is 0.
\<close>

theorem user_frame_exclusive:
  assumes "frames_inv s0 (\<lambda>_. 0)" and "frame_run s0 s held"
    and "c3_alloc_user_frame s = (s', a)" and "a \<noteq> 0"
  shows "a \<notin># held \<and> refs s' a = 0 \<and> a \<notin> set (quar_list s') \<and> a \<notin> free_set s'
    \<and> (\<forall>i < C3_FILEPAGE_MAX. fp_used (fr_pages s' i) \<longrightarrow> fp_phys (fr_pages s' i) \<noteq> a)"
proof -
  have I: "frames_inv s (count held)" using frame_run_inv [OF assms(2,1)] by blast
  note A = alloc_user_frame_spec [OF I assms(3)]
  note C = idle_count [OF settlesD [OF A(1)] A(2) [OF assms(4)]]
  have "a \<notin># held" using C by (simp add: not_in_iff)
  moreover have "\<forall>i < C3_FILEPAGE_MAX. fp_used (fr_pages s' i) \<longrightarrow> fp_phys (fr_pages s' i) \<noteq> a"
    using C by (auto simp: cache_at_def)
  ultimately show ?thesis using A(2) [OF assms(4)] by (simp add: idle_frame_def)
qed

text \<open>A state with two thousand frames, none in use.\<close>

definition frames_example :: frames where
  "frames_example = \<lparr> fr_pg = paging_example, fr_refcnt = (\<lambda>_. 0), fr_quar = (\<lambda>_. 0), fr_qhead = 0, fr_qcount = 0,
     fr_pages = (\<lambda>_. \<lparr> fp_used = False, fp_path = [], fp_page_off = 0, fp_phys = 0, fp_hash = 0 \<rparr>),
     fr_lookup = (\<lambda>_. 0), fr_data = (\<lambda>_ _. 0), fr_cow_copies = 0, fr_cow_shared = 0 \<rparr>"

lemma frames_example_inv: "frames_inv frames_example (\<lambda>_. 0)"
proof -
  have "pmm_ok (fr_pmm frames_example)" using pmm_example_ok by (simp add: frames_example_def paging_example_def)
  moreover have "quar_list frames_example = []" by (simp add: quar_list_def frames_example_def)
  moreover have "refs frames_example a = 0" for a by (simp add: refs_def frames_example_def split: option.split)
  moreover have "cache_at frames_example a = {}" for a by (simp add: cache_at_def frames_example_def)
  ultimately show ?thesis by (simp add: frames_inv_def quar_inv_def cache_inv_def) (simp add: quar_ok_def frames_example_def)
qed

lemma nothing_to_reclaim: "(\<And>i. \<not> fp_used (fr_pages s i)) \<Longrightarrow> c3_file_page_reclaim n s = s"
proof -
  assume "\<And>i. \<not> fp_used (fr_pages s i)"
  then have "find (reclaimable s) [0..<C3_FILEPAGE_MAX] = None" by (simp add: find_None_iff reclaimable_def)
  then show ?thesis by (cases n) (simp_all add: c3_file_page_reclaim_one_def)
qed

lemma nothing_to_drain: "fr_qcount s = 0 \<Longrightarrow> c3_phys_quarantine_drain n s = s"
  by (cases n) simp_all

lemma example_alloc: "\<exists>s' a. c3_alloc_user_frame frames_example = (s', a) \<and> a \<noteq> 0"
proof -
  have e: "c3_file_page_reclaim n frames_example = frames_example" for n
    by (rule nothing_to_reclaim) (simp add: frames_example_def)
  have d: "c3_phys_quarantine_drain n frames_example = frames_example" for n
    by (rule nothing_to_drain) (simp add: frames_example_def)
  obtain s' a where t: "pmm_take frames_example = (s', a)" by (meson surj_pair)
  have "fr_pmm frames_example = pmm_init pmm_example 0x800000" by (simp add: frames_example_def paging_example_def)
  then have "free_set frames_example \<noteq> {}" using pmm_example_free by auto
  then have "a \<noteq> 0" using pmm_take_spec(3) [OF frames_example_inv t] by simp
  moreover have "c3_alloc_user_frame frames_example = (s', a)"
    using \<open>a \<noteq> 0\<close> by (simp add: c3_alloc_user_frame_def e d t)
  ultimately show ?thesis by blast
qed

theorem user_frame_exclusive_witness:
  "\<exists>s a s' b. c3_alloc_user_frame frames_example = (s, a) \<and> a \<noteq> 0
    \<and> (c3_alloc_user_frame (c3_phys_ref_set_initial s a) = (s', b) \<and> (b \<noteq> 0 \<longrightarrow> b \<noteq> a \<and> refs s' b = 0))"
proof -
  obtain s a where a: "c3_alloc_user_frame frames_example = (s, a)" "a \<noteq> 0" using example_alloc by blast
  obtain s' b where b: "c3_alloc_user_frame (c3_phys_ref_set_initial s a) = (s', b)" by (meson surj_pair)
  have run: "frame_run frames_example (c3_phys_ref_set_initial s a) {#a#}"
    using frame_run.fresh [OF frame_run.start a] by simp
  have "b \<noteq> 0 \<longrightarrow> b \<noteq> a \<and> refs s' b = 0"
    using user_frame_exclusive [OF frames_example_inv run b] by auto
  with a b show ?thesis by blast
qed

text \<open>C27: Two lookups of the same page of a file give the same physical frame: when the first leaves
  the page in the cache, a second one, whatever it offers as the file's contents, returns that
  frame with one more reference and allocates, copies and evicts nothing.  The path must fit
  the 255 characters that a cache entry keeps.
\<close>

theorem file_page_shared:
  assumes "frames_inv s h" and "\<And>b. b \<in> managed s \<Longrightarrow> refs s b < 65535"
    and "cstr path \<noteq> []" and "length (cstr path) < 256"
    and "c3_file_page_get_frame s path data off = (s1, f)" and "f \<noteq> 0"
    and "i < C3_FILEPAGE_MAX" and "fp_used (fr_pages s1 i)" and "fp_phys (fr_pages s1 i) = f" and "refs s1 f < 65535"
  shows "\<exists>s2. c3_file_page_get_frame s1 path data' off = (s2, f) \<and> refs s2 f = refs s1 f + 1
    \<and> fr_data s2 = fr_data s1 \<and> fr_pg s2 = fr_pg s1 \<and> fr_pages s2 = fr_pages s1"
proof -
  have I1: "frames_inv s1 (h(f := h f + 1))" using get_frame_spec(1) [OF assms(1,2,5)] assms(6) by simp
  have "\<exists>k. snd (c3_file_page_find_slot s1 path off) = Some k \<and> fp_phys (fr_pages s1 k) = f"
  proof (cases "snd (c3_file_page_find_slot s path off)")
    case (Some k)
    obtain t where fs: "c3_file_page_find_slot s path off = (t, Some k)" using Some by (metis prod.collapse)
    have k: "k < C3_FILEPAGE_MAX" "fp_used (fr_pages s k)" using find_slot_spec(2) [OF fs refl] by simp_all
    have "refs s (fp_phys (fr_pages s k)) < 65535"
      using assms(2) cache_used(1) [OF frames_invD(2) [OF assms(1)] k] by blast
    from get_frame_hit [OF assms(1) Some this, of data] assms(5)
    have "f = fp_phys (fr_pages s k)" "fr_pages s1 = fr_pages s" "fr_lookup s1 = fr_lookup t" by (auto simp: fs)
    then show ?thesis using find_slot_again [OF fs] by auto
  next
    case None
    have nm: "\<not> page_matches s path off j" if "j < C3_FILEPAGE_MAX" for j
      using None assms(3) that by (auto simp: find_slot_aside find_None_iff split: option.splits)
    obtain k where k: "k < C3_FILEPAGE_MAX" "\<And>j. j \<noteq> k \<Longrightarrow> fp_used (fr_pages s1 j) \<Longrightarrow> fr_pages s1 j = fr_pages s j"
        "fp_used (fr_pages s1 k)" "fp_page_off (fr_pages s1 k) = off" "fp_phys (fr_pages s1 k) = f"
        "fp_path (fr_pages s1 k) = take 255 (cstr path)"
      using get_frame_miss [OF assms(1) None assms(5,6)] assms(7-9) by blast
    have "page_matches s1 path off k" using k assms(4) by (simp add: page_matches_def k_strcmp_eq_iff)
    moreover have "j = k" if "j < C3_FILEPAGE_MAX" "page_matches s1 path off j" for j
      using nm [OF that(1)] k(2) [of j] that(2) by (cases "j = k") (auto simp: page_matches_def)
    ultimately have "snd (c3_file_page_find_slot s1 path off) = Some k" using find_slot_only [OF assms(3) k(1)] by blast
    with k(5) show ?thesis by blast
  qed
  then obtain k where k: "snd (c3_file_page_find_slot s1 path off) = Some k" "fp_phys (fr_pages s1 k) = f" by blast
  show ?thesis using get_frame_hit [OF I1 k(1), of data'] assms(10) unfolding k(2) by blast
qed

lemma example_page:
  "\<exists>s1 f. c3_file_page_get_frame frames_example ''/a'' None 0 = (s1, f) \<and> f \<noteq> 0
    \<and> fp_used (fr_pages s1 0) \<and> fp_phys (fr_pages s1 0) = f \<and> refs s1 f = 2"
proof -
  let ?e = frames_example
  have un: "\<not> fp_used (fr_pages ?e j)" for j by (simp add: frames_example_def)
  have "scan ?e ''/a'' 0 = None" by (simp add: find_None_iff page_matches_def un)
  moreover have "aside ?e ''/a'' 0 = None" by (simp add: aside_def frames_example_def)
  ultimately have fs: "c3_file_page_find_slot ?e ''/a'' 0 = (?e, None)"
    by (simp add: find_slot_aside cstr_def)
  obtain s3 a where al: "c3_alloc_user_frame ?e = (s3, a)" "a \<noteq> 0" using example_alloc by blast
  note A = alloc_user_frame_spec [OF frames_example_inv al(1)]
  define s4 where "s4 = c3_phys_ref_set_initial s3 a"
  define s5 where "s5 = s4\<lparr> fr_data := (fr_data s4)(a := page_bytes None 0) \<rparr>"
  note S = set_initial_inv [OF settlesD [OF A(1)] A(2) [OF al(2)], folded s4_def]
  have u5: "\<not> fp_used (fr_pages s5 0)"
  proof -
    have "fr_pages s5 = fr_pages s3" by (simp add: s5_def s4_def c3_phys_ref_set_initial_def split: option.split)
    moreover have "\<not> fp_used (fr_pages s3 0)" using A(1) un unfolding settles_def by metis
    ultimately show ?thesis by simp
  qed
  have "0 < C3_FILEPAGE_MAX" by (simp add: C3_FILEPAGE_MAX_def)
  from upt_conv_Cons [OF this] have sl: "c3_file_page_alloc_slot s5 ''/a'' = (s5, Some 0)"
    using u5 by (simp add: c3_file_page_alloc_slot_def)
  have "a \<in> managed s3" using A(2) [OF al(2)] by (simp add: idle_frame_def)
  then obtain r where r: "c3_phys_ref_index a = Some r" using managed_index(1) [OF frames_invD(3) [OF settlesD [OF A(1)]]] by blast
  let ?f = "(fr_pages s5 0)\<lparr> fp_used := True, fp_page_off := 0, fp_phys := a,
                   fp_path := k_strlcpy (fp_path (fr_pages s5 0)) ''/a'' VFS_PATH_MAX,
                   fp_hash := c3_file_page_hash_for ''/a'' 0 \<rparr>"
  let ?s7 = "s5\<lparr> fr_pages := (fr_pages s5)(0 := ?f) \<rparr>"
  obtain l where l: "c3_file_page_cache_slot ?s7 0 = ?s7\<lparr> fr_lookup := l \<rparr>" using cache_slot_lookup by blast
  let ?s8 = "?s7\<lparr> fr_lookup := l \<rparr>"
  have g: "c3_file_page_get_frame ?e ''/a'' None 0 = (c3_phys_ref_retain ?s8 a, a)"
    using al(2) by (simp add: c3_file_page_get_frame_def fs al(1) Let_def s4_def [symmetric] s5_def [symmetric] sl l)
  have "refs ?s8 a = 1" using S(2) refs_cong [of ?s8 s4 a] by (simp add: s5_def)
  then have R: "c3_phys_ref_retain ?s8 a = ?s8\<lparr> fr_refcnt := (fr_refcnt ?s8)(r := fr_refcnt ?s8 r + 1) \<rparr>"
      "unat (fr_refcnt ?s8 r + 1) = 2"
    using retain_refs [OF r, of ?s8] by simp_all
  have "refs (c3_phys_ref_retain ?s8 a) a = 2" unfolding R(1) using R(2) by (simp add: refs_def r)
  moreover have "fr_pages (c3_phys_ref_retain ?s8 a) 0 = ?f" unfolding R(1) by simp
  ultimately show ?thesis using g al(2) by auto
qed

theorem file_page_shared_witness:
  "\<exists>s1 f s2. c3_file_page_get_frame frames_example ''/a'' None 0 = (s1, f) \<and> f \<noteq> 0
    \<and> c3_file_page_get_frame s1 ''/a'' None 0 = (s2, f) \<and> refs s2 f = 3 \<and> fr_pages s2 = fr_pages s1"
proof -
  obtain s1 f where 1: "c3_file_page_get_frame frames_example ''/a'' None 0 = (s1, f)" "f \<noteq> 0"
      "fp_used (fr_pages s1 0)" "fp_phys (fr_pages s1 0) = f" "refs s1 f = 2"
    using example_page by blast
  have "refs frames_example b < 65535" for b by (simp add: refs_def frames_example_def split: option.split)
  then have "\<exists>s2. c3_file_page_get_frame s1 ''/a'' None 0 = (s2, f) \<and> refs s2 f = refs s1 f + 1
      \<and> fr_data s2 = fr_data s1 \<and> fr_pg s2 = fr_pg s1 \<and> fr_pages s2 = fr_pages s1"
    by (intro file_page_shared [OF frames_example_inv _ _ _ 1(1,2) _ 1(3,4)])
      (simp_all add: cstr_def C3_FILEPAGE_MAX_def 1(5))
  with 1 show ?thesis by auto
qed

end
