(* ===== verification/KMmapProps.thy ===== *)
theory KMmapProps
  imports KMmapOps KFrameProps
begin

text \<open>
  What the memory calls do to the table of regions and to the pages of a space: \<open>munmap\<close> and
  \<open>mprotect\<close> change exactly the pages of their range, and unmapping a range revokes its pages.
\<close>

subsection \<open>Frames and files do not touch the rest of the state\<close>

abbreviation rest :: "'a frames_scheme \<Rightarrow> 'a" where "rest \<equiv> frames.more"

lemma vm_cong:
  assumes "rest s' = rest s"
  shows "vm_table s' = vm_table s" and "vm_files s' = vm_files s" and "vm_tasks s' = vm_tasks s"
  using assms by (cases s; cases s'; simp)+

lemma fold_keeps: "(\<And>x s. f (h x s) = f s) \<Longrightarrow> f (fold h xs s) = f s"
  by (induction xs arbitrary: s) auto

lemma rest_drain [simp]: "rest (c3_phys_quarantine_drain n s) = rest s"
  by (induction n arbitrary: s) (simp_all add: Let_def)

lemma rest_quarantine [simp]: "rest (c3_phys_quarantine_frame s a) = rest s"
  by (simp add: c3_phys_quarantine_frame_def Let_def)

lemma rest_release_depth: "rest (ref_release_depth n s a) = rest s"
proof (induction n arbitrary: s a)
  case (Suc n)
  have "rest (invalidate_slot (ref_release_depth n) i s) = rest s" for i and s :: "'a frames_scheme"
    by (simp add: invalidate_slot_def Let_def Suc.IH split: option.split)
  then have "rest (c3_file_page_invalidate_phys (ref_release_depth n) s a) = rest s" for a and s :: "'a frames_scheme"
    unfolding c3_file_page_invalidate_phys_def by (intro fold_keeps) simp
  then show ?case by (simp add: Let_def split: option.split)
qed simp

lemma rest_release [simp]: "rest (c3_phys_ref_release s a) = rest s"
  by (simp only: c3_phys_ref_release_def rest_release_depth)

lemma rest_invalidate_path [simp]: "rest (c3_file_page_invalidate_path s p) = rest s"
proof -
  have "rest (invalidate_slot c3_phys_ref_release i s) = rest s" for i and s :: "'a frames_scheme"
    by (simp add: invalidate_slot_def Let_def split: option.split)
  then show ?thesis unfolding c3_file_page_invalidate_path_def by (simp add: fold_keeps)
qed

lemma table_pg [simp]: "vm_table (s\<lparr> fr_pg := p \<rparr>) = vm_table s" by (rule vm_cong) simp

lemma table_release [simp]: "vm_table (c3_phys_ref_release s a) = vm_table s" by (rule vm_cong) simp

lemma table_unmap_pages [simp]: "vm_table (c3_mmap_unmap_pages s r va len fp) = vm_table s"
proof -
  have "vm_table (unmap_one r fp v s) = vm_table s" for v s by (simp add: unmap_one_def Let_def split: prod.split)
  then show ?thesis unfolding c3_mmap_unmap_pages_def by (simp add: fold_keeps)
qed

lemma table_writeback [simp]: "vm_table (fst (c3_mmap_writeback_vfs_range s r m va len)) = vm_table s"
  using vm_cong(1) [OF rest_invalidate_path [of s "mm_backing_path m"]]
  by (simp add: c3_mmap_writeback_vfs_range_def Let_def del: writeback_loop.simps)

subsection \<open>munmap\<close>

lemma scan_slots:
  assumes "Q 0 s" and "\<And>k t. k < MMAP_REGION_MAX \<Longrightarrow> Q k t \<Longrightarrow> Q (Suc k) (f k t)"
  shows "Q MMAP_REGION_MAX (fold f slots s)"
proof -
  have "n \<le> MMAP_REGION_MAX \<Longrightarrow> Q n (fold f [0..<n] s)" for n
    by (induction n) (simp_all add: assms)
  then show ?thesis by simp
qed

text \<open>The part of \<open>[us, ue)\<close> in a region, as both calls compute it.\<close>

definition clip_lo :: "region \<Rightarrow> u64 \<Rightarrow> u64" where "clip_lo m us = (if us > mm_virt m then us else mm_virt m)"
definition clip_hi :: "region \<Rightarrow> u64 \<Rightarrow> u64" where "clip_hi m ue = (if ue < region_end m then ue else region_end m)"
definition outside :: "region \<Rightarrow> as_ref \<Rightarrow> u64 \<Rightarrow> u64 \<Rightarrow> bool" where
  "outside m r us ue \<longleftrightarrow> \<not> mm_used m \<or> mm_as m \<noteq> r \<or> ue \<le> mm_virt m \<or> us \<ge> region_end m"

lemma clip:
  assumes wf: "wf_region m" and lt: "us < ue" and al: "4096 dvd unat us" "4096 dvd unat ue" and "mm_used m"
  shows "outside m r us ue \<longleftrightarrow> mm_as m \<noteq> r \<or> unat ue \<le> lo m \<or> hi m \<le> unat us"
    and "unat (clip_lo m us) = max (unat us) (lo m)" and "unat (clip_hi m ue) = min (unat ue) (hi m)"
    and "\<not> outside m r us ue \<Longrightarrow> clip_lo m us < clip_hi m ue"
    and "4096 dvd unat (clip_lo m us)" and "4096 dvd unat (clip_hi m ue)"
proof -
  have e: "unat (region_end m) = hi m" using wf_region_bounds(1) [OF wf] by (simp add: region_end_def)
  have l: "unat (mm_virt m) = lo m" by (simp add: lo_def)
  show 1: "outside m r us ue \<longleftrightarrow> mm_as m \<noteq> r \<or> unat ue \<le> lo m \<or> hi m \<le> unat us"
    using assms(5) by (simp add: outside_def word_le_nat_alt e l)
  show 2: "unat (clip_lo m us) = max (unat us) (lo m)" by (simp add: clip_lo_def word_less_nat_alt l)
  show 3: "unat (clip_hi m ue) = min (unat ue) (hi m)" by (simp add: clip_hi_def word_less_nat_alt e)
  show "4096 dvd unat (clip_lo m us)" "4096 dvd unat (clip_hi m ue)"
    unfolding 2 3 using al wf_virt [OF wf] by (simp_all add: max_def min_def)
  show "clip_lo m us < clip_hi m ue" if "\<not> outside m r us ue"
    using that lt wf_region_bounds(2) [OF wf] unfolding word_less_nat_alt 1 2 3 by simp
qed

lemma munmap_step_table:
  assumes ok: "table_ok (vm_table s)" and i: "i < MMAP_REGION_MAX" and lt: "us < ue"
    and al: "4096 dvd unat us" "4096 dvd unat ue"
  defines "m \<equiv> vm_table s i"
  shows "vm_table (munmap_step r us ue i s) =
    (if outside m r us ue then vm_table s else munmap_cut (vm_table s) i (clip_lo m us) (clip_hi m ue))"
proof (cases "outside m r us ue")
  case True
  then show ?thesis by (auto simp: munmap_step_def Let_def m_def outside_def)
next
  case False
  then have u: "mm_used m" "mm_as m = r" "\<not> (ue \<le> mm_virt m \<or> us \<ge> region_end m)" by (auto simp: outside_def)
  have "clip_lo m us < clip_hi m ue"
    by (rule clip(4) [OF table_okD(1) [OF ok i] lt al _ False [unfolded m_def], folded m_def]) (use u in \<open>simp_all add: m_def\<close>)
  then have "\<not> clip_hi m ue \<le> clip_lo m us" by simp
  with False u show ?thesis
    by (simp add: munmap_step_def Let_def m_def [symmetric] clip_lo_def [symmetric] clip_hi_def [symmetric])
qed

text \<open>Where the slots of a cut table lie: nothing new inside the region, except beside the cut.\<close>

lemma cut_slots:
  assumes wf: "wf_region (g i)" and b: "lo (g i) \<le> unat os" "unat os < unat oe" "unat oe \<le> hi (g i)"
    and h: "holds (munmap_cut g i os oe j) r p"
  shows "(p < unat os \<and> lo (g i) < unat os) \<or> (unat oe \<le> p \<and> unat oe < hi (g i)) \<or> (j \<noteq> i \<and> holds (g j) r p)"
proof -
  let ?m = "g i" let ?re = "mm_virt ?m + mm_size ?m"
  have re: "unat ?re = hi ?m" by (rule wf_region_bounds(1) [OF wf])
  have rs: "unat (mm_virt ?m) = lo ?m" by (simp add: lo_def)
  have eqs: "os = mm_virt ?m \<longleftrightarrow> unat os = lo ?m" "oe = ?re \<longleftrightarrow> unat oe = hi ?m"
    using rs re by (simp_all add: word_unat_eq_iff)
  let ?L = "?m\<lparr> mm_size := os - mm_virt ?m \<rparr>"
  let ?R = "?m\<lparr> mm_virt := oe, mm_size := ?re - oe, mm_offset := mm_offset ?m + (oe - mm_virt ?m) \<rparr>"
  have "hi ?L = unat os" using b(1) rs by (simp add: hi_def unat_sub word_le_nat_alt)
  then have L: "holds ?L r p \<Longrightarrow> p < unat os" by (simp add: holds_def)
  have R: "holds ?R r p \<Longrightarrow> unat oe \<le> p" by (simp add: holds_def lo_def)
  consider (all) "unat os = lo ?m" "unat oe = hi ?m" | (front) "unat os = lo ?m" "unat oe < hi ?m"
    | (rear) "lo ?m < unat os" "unat oe = hi ?m" | (mid) "lo ?m < unat os" "unat oe < hi ?m"
    using b by linarith
  then show ?thesis
  proof cases
    case all
    then show ?thesis using h by (auto simp: munmap_cut_def Let_def eqs holds_def split: if_splits)
  next
    case front
    then show ?thesis using h R by (cases "j = i") (simp_all add: munmap_cut_def Let_def eqs)
  next
    case rear
    then show ?thesis using h L by (cases "j = i") (simp_all add: munmap_cut_def Let_def eqs)
  next
    case mid
    then show ?thesis using h L R by (auto simp: munmap_cut_def Let_def eqs split: option.splits if_splits)
  qed
qed

definition in_range :: "u64 \<Rightarrow> u64 \<Rightarrow> nat \<Rightarrow> bool" where "in_range us ue p \<longleftrightarrow> unat us \<le> p \<and> p < unat ue"

text \<open>A free slot, or no region that would be cut in the middle.\<close>

definition cut_room :: "mmap_table \<Rightarrow> as_ref \<Rightarrow> u64 \<Rightarrow> u64 \<Rightarrow> bool" where
  "cut_room g r us ue \<longleftrightarrow> c3_mmap_alloc_slot g \<noteq> None
     \<or> (\<forall>i < MMAP_REGION_MAX. mm_used (g i) \<longrightarrow> mm_as (g i) = r \<longrightarrow> \<not> (lo (g i) < unat us \<and> unat ue < hi (g i)))"

definition munmap_inv :: "mmap_table \<Rightarrow> as_ref \<Rightarrow> u64 \<Rightarrow> u64 \<Rightarrow> nat \<Rightarrow> mmap_table \<Rightarrow> bool" where
  "munmap_inv g0 r us ue k g \<longleftrightarrow> table_ok g \<and> cut_room g r us ue
     \<and> (\<forall>r' p. mapped g r' p = mapped g0 r' p \<or> (r' = r \<and> in_range us ue p \<and> mapped g r' p = None))
     \<and> (\<forall>i < k. \<forall>p. in_range us ue p \<longrightarrow> \<not> holds (g i) r p)"

lemma munmap_cut_inv:
  assumes I: "munmap_inv g0 r us ue k g" and k: "k < MMAP_REGION_MAX" and lt: "us < ue"
    and al: "4096 dvd unat us" "4096 dvd unat ue"
  shows "munmap_inv g0 r us ue (Suc k) (if outside (g k) r us ue then g else munmap_cut g k (clip_lo (g k) us) (clip_hi (g k) ue))"
proof (cases "mm_used (g k)")
  case False
  then show ?thesis using I by (auto simp: munmap_inv_def outside_def holds_def less_Suc_eq)
next
  case u: True
  have ok: "table_ok g" and room: "cut_room g r us ue" using I by (simp_all add: munmap_inv_def)
  have wf: "wf_region (g k)" by (rule table_okD(1) [OF ok k u])
  note C = clip [OF wf lt al u]
  show ?thesis
  proof (cases "outside (g k) r us ue")
    case True
    then have "\<not> holds (g k) r p" if "in_range us ue p" for p using that by (auto simp: C(1) holds_def in_range_def)
    with True I show ?thesis by (auto simp: munmap_inv_def less_Suc_eq)
  next
    case False
    let ?os = "clip_lo (g k) us" and ?oe = "clip_hi (g k) ue"
    let ?g = "munmap_cut g k ?os ?oe"
    have as: "mm_as (g k) = r" using False by (simp add: outside_def)
    have lt': "unat ?os < unat ?oe" using C(4) [OF False] by (simp add: word_less_nat_alt)
    have b: "lo (g k) \<le> unat ?os" "unat ?oe \<le> hi (g k)" by (simp_all add: C(2,3))
    have "unat ?os = lo (g k) \<or> unat ?oe = hi (g k) \<or> c3_mmap_alloc_slot g \<noteq> None"
      using room u as k unfolding cut_room_def C(2,3) by fastforce
    note S = munmap_cut_spec [OF ok k u b(1) lt' b(2) C(5,6) this]
    have inr: "in_range us ue p" if "unat ?os \<le> p" "p < unat ?oe" for p using that C(2,3) by (simp add: in_range_def)
    have m: "mapped ?g r' p = mapped g r' p \<or> (r' = r \<and> in_range us ue p \<and> mapped ?g r' p = None)" for r' p
      using S(2) [of r' p] inr [of p] as by auto
    then have 1: "mapped ?g r' p = mapped g0 r' p \<or> (r' = r \<and> in_range us ue p \<and> mapped ?g r' p = None)" for r' p
      using I unfolding munmap_inv_def by metis
    have no: "mapped ?g r (unat ?os) = None" using S(2) [of r "unat ?os"] lt' as by simp
    have 2: "cut_room ?g r us ue"
      unfolding cut_room_def
    proof (intro disjI2 allI impI notI)
      fix j assume j: "j < MMAP_REGION_MAX" "mm_used (?g j)" "mm_as (?g j) = r" "lo (?g j) < unat us \<and> unat ue < hi (?g j)"
      then have "holds (?g j) r (unat ?os)" using inr [OF order_refl lt'] by (simp add: holds_def in_range_def)
      then show False using no j(1) by (auto simp: mapped_none)
    qed
    have 3: "\<not> holds (?g j) r p" if "j < Suc k" "in_range us ue p" for j p
    proof
      assume "holds (?g j) r p"
      from cut_slots [OF wf b(1) lt' b(2) this]
      have "j \<noteq> k \<and> holds (g j) r p" using that(2) C(2,3) by (auto simp: in_range_def)
      then show False using I that by (auto simp: munmap_inv_def less_Suc_eq)
    qed
    from S(1) 1 2 3 False show ?thesis by (simp add: munmap_inv_def)
  qed
qed

lemma page_up:
  assumes "unat a < 2 ^ 63"
  shows "unat ((a + PAGE_SIZE - 1) AND NOT (PAGE_SIZE - 1)) = (unat a + 4095) div 4096 * 4096"
proof -
  have "a + PAGE_SIZE - 1 = a + 4095" by (simp add: PAGE_SIZE_def)
  moreover have "unat (a + 4095) = unat a + 4095" using assms by (subst unat_add_no_wrap) simp_all
  ultimately show ?thesis by (simp only: unat_page_floor)
qed

definition round_end :: "u64 \<Rightarrow> u64 \<Rightarrow> u64" where
  "round_end a l = (a + l + PAGE_SIZE - 1) AND NOT (PAGE_SIZE - 1)"

text \<open>The arguments of a range that the calls accept, and what they make of it.\<close>

definition range_args :: "u64 \<Rightarrow> u64 \<Rightarrow> bool" where
  "range_args a l \<longleftrightarrow> l \<noteq> 0 \<and> a AND (PAGE_SIZE - 1) = 0 \<and> a < C3_USER_TOP \<and> l \<le> C3_USER_TOP - a"

lemma range_args_end:
  assumes "range_args a l"
  shows "unat (a + l) = unat a + unat l" and "unat (round_end a l) = (unat a + unat l + 4095) div 4096 * 4096"
    and "4096 dvd unat a" and "unat a < unat (round_end a l)" and "unat (round_end a l) \<le> 2 ^ 47" and "a + l \<le> round_end a l"
proof -
  have "unat (C3_USER_TOP - a) = 2 ^ 47 - unat a"
    using assms by (subst unat_sub) (simp_all add: range_args_def C3_USER_TOP_def less_imp_le)
  then have le: "unat a + unat l \<le> 2 ^ 47" using assms by (auto simp: range_args_def word_le_nat_alt word_less_nat_alt C3_USER_TOP_def)
  then show s: "unat (a + l) = unat a + unat l" by (subst unat_add_no_wrap) simp_all
  then show e: "unat (round_end a l) = (unat a + unat l + 4095) div 4096 * 4096"
    using le page_up [of "a + l"] by (simp add: round_end_def)
  have "a AND mask 12 = 0" using assms unfolding range_args_def page_mask by simp
  then have "take_bit 12 (unat a) = 0" by (metis take_bit_eq_mask unsigned_take_bit_eq unat_0)
  then have a: "unat a mod 4096 = 0" by (simp add: take_bit_eq_mod)
  then show "4096 dvd unat a" by auto
  have l: "0 < unat l" using assms by (simp add: range_args_def unat_gt_0)
  have up: "x \<le> (x + 4095) div 4096 * 4096" for x :: nat by linarith
  show "unat a < unat (round_end a l)" unfolding e using up [of "unat a + unat l"] l by linarith
  show "a + l \<le> round_end a l" unfolding word_le_nat_alt e s using up [of "unat a + unat l"] by simp
  have "(x + 4095) div 4096 \<le> 34359738368" if "x \<le> 2 ^ 47" for x :: nat using that by simp
  then show "unat (round_end a l) \<le> 2 ^ 47" unfolding e using le by simp
qed

lemma munmap_fold:
  assumes ok: "table_ok (vm_table s)" and room: "cut_room (vm_table s) r us ue" and lt: "us < ue"
    and al: "4096 dvd unat us" "4096 dvd unat ue"
  shows "munmap_inv (vm_table s) r us ue MMAP_REGION_MAX (vm_table (fold (munmap_step r us ue) slots s))"
proof (rule scan_slots [where Q = "\<lambda>k t. munmap_inv (vm_table s) r us ue k (vm_table t)"])
  show "munmap_inv (vm_table s) r us ue 0 (vm_table s)" using ok room by (simp add: munmap_inv_def)
  fix k and t :: vm assume k: "k < MMAP_REGION_MAX" and I: "munmap_inv (vm_table s) r us ue k (vm_table t)"
  then have "table_ok (vm_table t)" by (simp add: munmap_inv_def)
  from munmap_step_table [OF this k lt al, of r] munmap_cut_inv [OF I k lt al]
  show "munmap_inv (vm_table s) r us ue (Suc k) (vm_table (munmap_step r us ue k t))" by simp
qed


text \<open>A space with one anonymous region of three pages, one of them resident.\<close>

definition example_region :: region where
  "example_region = new_region (UserAS 0) 0x40000000 0x3000 3 0x22 0 1 []"

definition vm_example :: vm where
  "vm_example = frames.extend frames_example
     (vm.fields (\<lambda>i. if i = 0 then example_region else example_region\<lparr> mm_used := False \<rparr>)
        (\<lambda>_. \<lparr> vt_used = True, vt_as = UserAS 0, vt_brk_start = 0x40000000, vt_brk_current = 0x40000000, vt_mmap_base = 0x50000000 \<rparr>)
        (\<lambda>_. None) (\<lambda>_. True) (\<lambda>_. False) False False [] 0)"

lemma vm_example_table: "vm_table vm_example = (\<lambda>i. if i = 0 then example_region else example_region\<lparr> mm_used := False \<rparr>)"
  and vm_example_frames: "frames.truncate vm_example = frames_example"
  by (simp_all add: vm_example_def frames.defs vm.defs)

lemma example_region_holds: "holds example_region r p \<longleftrightarrow> r = UserAS 0 \<and> 0x40000000 \<le> p \<and> p < 0x40003000"
  by (auto simp: holds_def example_region_def new_region_def lo_def hi_def)

lemma vm_example_ok: "table_ok (vm_table vm_example)" and vm_example_room: "cut_room (vm_table vm_example) r us ue"
proof -
  show "table_ok (vm_table vm_example)"
    by (simp add: table_ok_def vm_example_table wf_region_def hi_def example_region_def new_region_def)
  have "c3_mmap_alloc_slot (vm_table vm_example) \<noteq> None"
    unfolding c3_mmap_alloc_slot_def find_None_iff
    by (auto simp: vm_example_table MMAP_REGION_MAX_def intro!: exI [of _ 1])
  then show "cut_room (vm_table vm_example) r us ue" by (simp add: cut_room_def)
qed


end
