(* ===== verification/KMmapRevoke.thy ===== *)
theory KMmapRevoke
  imports KMmapProps
begin

text \<open>
  Revocation: what unmapping pages of a user space does to translation, to the page tables and
  to the reference counts of the frames.  \<open>pages_inv\<close> joins the invariant of the page tables
  with that of the frames: no table lies in a counted or quarantined frame.
\<close>

subsection \<open>Releasing a frame touches no page table\<close>

definition shape :: "paging \<Rightarrow> ptmem \<times> address_space \<times> (nat \<Rightarrow> address_space) \<times> bool \<times> u32" where
  "shape p = (pg_mem p, g_kernel_as p, g_spaces p, g_paging_nx_enabled p, ptotal p)"

lemma free_total [simp]: "g_pmm_total (pmm_free_frame p a) = g_pmm_total p"
  by (simp add: pmm_free_frame_def Let_def split: option.split)

lemma shape_pmm [simp]: "g_pmm_total P = ptotal p \<Longrightarrow> shape (p\<lparr> pg_pmm := P \<rparr>) = shape p"
  by (simp add: shape_def)

lemma shape_drain [simp]: "shape (fr_pg (c3_phys_quarantine_drain n s)) = shape (fr_pg s)"
  by (induction n arbitrary: s) (simp_all add: Let_def)

lemma shape_quarantine [simp]: "shape (fr_pg (c3_phys_quarantine_frame s a)) = shape (fr_pg s)"
  by (simp add: c3_phys_quarantine_frame_def Let_def)

lemma shape_release [simp]: "shape (fr_pg (c3_phys_ref_release s a)) = shape (fr_pg s)"
proof -
  have "shape (fr_pg (ref_release_depth n s a)) = shape (fr_pg s)" for n a and s :: "'a frames_scheme"
  proof (induction n arbitrary: s a)
    case (Suc n)
    have "shape (fr_pg (invalidate_slot (ref_release_depth n) i s)) = shape (fr_pg s)" for i and s :: "'a frames_scheme"
      by (simp add: invalidate_slot_def Let_def Suc.IH split: option.split)
    then have "shape (fr_pg (c3_file_page_invalidate_phys (ref_release_depth n) s a)) = shape (fr_pg s)" for a and s :: "'a frames_scheme"
      unfolding c3_file_page_invalidate_phys_def by (intro fold_keeps [where f = "\<lambda>s. shape (fr_pg s)"]) simp
    then show ?case by (simp add: Let_def split: option.split)
  qed simp
  then show ?thesis by (simp only: c3_phys_ref_release_def)
qed

lemma shapeD:
  assumes "shape p = shape q"
  shows "pg_mem p = pg_mem q" and "ptotal p = ptotal q" and "get_as p r = get_as q r"
    and "c2_address_space_ready p r = c2_address_space_ready q r"
  using assms by (auto simp: shape_def get_as_def c2_address_space_ready_def split: as_ref.split)

subsection \<open>The joint invariant\<close>

definition pages_inv :: "'a frames_scheme \<Rightarrow> u64 set \<Rightarrow> u64 set \<Rightarrow> bool" where
  "pages_inv s Us Rs \<longleftrightarrow> space_ok (fr_pg s) Us Rs \<and> quar_inv s
     \<and> (\<forall>R \<in> Rs. \<forall>q t. tpath_ok q \<longrightarrow> tables (fr_pg s) R q = Some t \<longrightarrow>
          DMAP_TO_PHYS t \<notin> set (quar_list s) \<and> refs s (DMAP_TO_PHYS t) = 0)
     \<and> (\<forall>a. page_floor a = a \<longrightarrow> 0 < refs s a \<longrightarrow> a \<in> managed s)"

lemma space_ok_frames:
  assumes sp: "space_ok p Us Rs" and sh: "shape p' = shape p" and ok: "pmm_ok (pg_pmm p')"
    and no: "\<And>R q t. R \<in> Rs \<Longrightarrow> tpath_ok q \<Longrightarrow> tables p R q = Some t \<Longrightarrow> DMAP_TO_PHYS t \<notin> free_frames (pg_pmm p')"
  shows "space_ok p' Us Rs"
  using space_okD [OF sp] ok no unfolding space_ok_def shapeD(1,2) [OF sh] by blast

lemma release_none:
  assumes "refs s a = 0"
  shows "c3_phys_ref_release s a = s"
proof -
  have "c3_phys_ref_index a = None \<or> (\<exists>i. c3_phys_ref_index a = Some i \<and> fr_refcnt s i = 0)"
    using assms by (auto simp: refs_def unat_eq_zero split: option.splits)
  then show ?thesis by (auto simp: c3_phys_ref_release_def Let_def)
qed

text \<open>Releasing a frame once: one reference less, if it had one.\<close>

lemma release_pages:
  assumes I: "pages_inv s Us Rs" and a: "page_floor a = a"
  defines "t \<equiv> c3_phys_ref_release s a"
  shows "pages_inv t Us Rs" and "fr_data t = fr_data s"
    and "page_floor b = b \<Longrightarrow> refs t b = refs s b - (if b = a then 1 else 0)"
proof -
  have "pages_inv t Us Rs \<and> fr_data t = fr_data s \<and> (\<forall>b. page_floor b = b \<longrightarrow> refs t b = refs s b - (if b = a then 1 else 0))"
  proof (cases "refs s a = 0")
    case True
    then show ?thesis using I release_none [OF True] by (auto simp: t_def)
  next
    case False
    have q: "quar_inv s" and m: "a \<in> managed s" using I a False by (auto simp: pages_inv_def)
    have p: "0 < refs s a" using False by simp
    note E = release_effect [OF q m p, folded t_def]
    have sh: "shape (fr_pg t) = shape (fr_pg s)" by (simp add: t_def)
    have refs_le: "refs t b \<le> refs s b" for b
    proof -
      have "refs t (page_floor b) \<le> refs s (page_floor b)" using E(4) [of "page_floor b"] by simp
      then show ?thesis by (simp add: refs_def)
    qed
    have T: "DMAP_TO_PHYS u \<notin> set (quar_list t) \<and> refs t (DMAP_TO_PHYS u) = 0 \<and> DMAP_TO_PHYS u \<notin> free_set t"
      if h: "R \<in> Rs" "tpath_ok r" "tables (fr_pg s) R r = Some u" for R r u
    proof -
      have u: "DMAP_TO_PHYS u \<notin> set (quar_list s)" "refs s (DMAP_TO_PHYS u) = 0"
        using I h unfolding pages_inv_def by blast+
      moreover have "DMAP_TO_PHYS u \<notin> free_set s"
        using I space_okD(4) [of "fr_pg s" Us Rs R r u] h by (auto simp: pages_inv_def)
      moreover have "DMAP_TO_PHYS u \<noteq> a" using u(2) p by auto
      ultimately show ?thesis using E(5,6) refs_le [of "DMAP_TO_PHYS u"] by auto
    qed
    have "space_ok (fr_pg t) Us Rs"
      by (rule space_ok_frames [of "fr_pg s"]) (use I T sh E(1) in \<open>auto simp: pages_inv_def quar_inv_def\<close>)
    moreover have "b \<in> managed t" if "page_floor b = b" "0 < refs t b" for b
      using I that refs_le [of b] E(2) by (auto simp: pages_inv_def)
    ultimately have "pages_inv t Us Rs"
      using E(1) T unfolding pages_inv_def shapeD(1,2) [OF sh] by blast
    moreover have "refs t b = refs s b - (if b = a then 1 else 0)" if "page_floor b = b" for b
      using E(4) [OF that] by simp
    ultimately show ?thesis using E(3) by simp
  qed
  then show "pages_inv t Us Rs" "fr_data t = fr_data s"
    "page_floor b = b \<Longrightarrow> refs t b = refs s b - (if b = a then 1 else 0)" by blast+
qed

subsection \<open>Unmapping a page\<close>

text \<open>The entry a space has for an address, and whether it lets user code in.\<close>

definition leaf :: "paging \<Rightarrow> u64 \<Rightarrow> u64 \<Rightarrow> (u64 \<times> nat) option" where
  "leaf p R w = walk (ptotal p) (pg_mem p) R (idx w)"

definition user_page :: "paging \<Rightarrow> u64 \<Rightarrow> u64 \<Rightarrow> u64 option" where
  "user_page p R w = (case leaf p R w of None \<Rightarrow> None | Some (e, l) \<Rightarrow> if user_small e then Some (e AND C2_PTE_ADDR_MASK) else None)"

lemma walk_huge:
  "walk tot m t q = Some (e, l) \<Longrightarrow> 0 < l \<Longrightarrow> flag_set e PAGE_HUGE"
  by (induction tot m t q rule: walk.induct) (auto split: if_splits option.splits)

lemma walk_leaf:
  "walk tot m t q = Some (e, 0) \<Longrightarrow> length q \<le> 4 \<Longrightarrow> \<exists>u. desc tot m t (butlast q) = Some u \<and> e = m u (last q)"
  by (induction tot m t q rule: walk.induct) (auto split: if_splits option.splits)

lemma get_entry_user:
  assumes "c2_address_space_ready p r"
  shows "user_small (paging_get_entry p r w) \<longleftrightarrow> user_page p (as_pml4 (get_as p r)) w \<noteq> None"
    and "user_small (paging_get_entry p r w) \<Longrightarrow>
      user_page p (as_pml4 (get_as p r)) w = Some (paging_get_entry p r w AND C2_PTE_ADDR_MASK)"
  using assms by (auto simp: get_entry_walk user_page_def leaf_def split: option.splits)

lemma not_ready_entry: "\<not> c2_address_space_ready p r \<Longrightarrow> paging_get_entry p r w = 0"
  by (simp add: get_entry_walk)

definition user_va :: "u64 \<Rightarrow> bool" where
  "user_va w \<longleftrightarrow> RIDUX_USER_LOW_SAFE \<le> w \<and> w < C3_USER_TOP"

lemma user_va_low: "user_va w \<Longrightarrow> pt_index w 39 < 256 \<and> c2_user_paging_edit_allowed r w"
proof -
  assume w: "user_va w"
  have "unat w < 2 ^ 47" using w by (simp add: user_va_def word_less_nat_alt C3_USER_TOP_def)
  moreover have "unat (drop_bit 39 w) = unat w div 2 ^ 39" by (simp only: unat_drop_bit_eq) (simp only: drop_bit_eq_div)
  ultimately have "unat (drop_bit 39 w) < 256" by (simp add: less_mult_imp_div_less)
  moreover have "unat (drop_bit 39 w AND 0x1FF) \<le> unat (drop_bit 39 w)" by (metis word_and_le2 word_le_nat_alt)
  ultimately have "pt_index w 39 < 256" unfolding pt_index_def by linarith
  then show ?thesis using w by (simp add: c2_user_paging_edit_allowed_def user_va_def)
qed

lemma user_va_unat: "user_va w \<longleftrightarrow> 0x40000000 \<le> unat w \<and> unat w < 2 ^ 47"
  by (simp add: user_va_def word_less_nat_alt word_le_nat_alt C3_USER_TOP_def RIDUX_USER_LOW_SAFE_def)

text \<open>Writing 0 over a leaf: the invariant stays, that page is gone, every other is as it was.\<close>

lemma unmap_page:
  assumes I: "pages_inv s Us Rs" and R: "as_pml4 (get_as (fr_pg s) r) \<in> Us" and va: "user_va w"
    and rd: "c2_address_space_ready (fr_pg s) r" and u: "user_small (paging_get_entry (fr_pg s) r w)"
    and m: "paging_unmap (fr_pg s) r w = (p, b)"
  defines "root \<equiv> as_pml4 (get_as (fr_pg s) r)"
  shows "b" and "pages_inv (s\<lparr> fr_pg := p \<rparr>) Us Rs" and "get_as p r' = get_as (fr_pg s) r'"
    and "c2_address_space_ready p r' = c2_address_space_ready (fr_pg s) r'"
    and "R' \<in> Rs \<Longrightarrow> user_page p R' v = (if R' = root \<and> idx v = idx w then None else user_page (fr_pg s) R' v)"
proof -
  let ?p = "fr_pg s"
  have sp: "space_ok ?p Us Rs" using I by (simp add: pages_inv_def)
  have low: "pt_index w 39 < 256" and ed: "c2_user_paging_edit_allowed r w" using user_va_low [OF va] by auto
  obtain e l where wl: "walk (ptotal ?p) (pg_mem ?p) root (idx w) = Some (e, l)" "user_small e"
    using u rd by (auto simp: get_entry_walk root_def split: option.splits)
  have "l = 0" using walk_huge [OF wl(1)] wl(2) by auto
  then obtain t where lt: "leaf_table ?p r w = Some t"
    using walk_leaf [of "ptotal ?p" "pg_mem ?p" root "idx w" e] wl(1) by (auto simp: leaf_table_def root_def)
  have pb: "p = set_entry ?p t (pt_index w 12) 0" "b" using m lt rd ed by (simp_all add: unmap_leaf)
  show b by (rule pb(2))
  have sl: "slot ?p Us root (butlast (idx w)) t (pt_index w 12)"
    using lt R low unfolding leaf_table_def slot_at_def idx_def root_def by (simp add: tpath_ok_def low_path_def)
  have len: "length (butlast (idx w)) = 3" by simp
  note un = space_okD(3) [OF sp]
  have desc: "tables p R' q = tables ?p R' q" if "R' \<in> Rs" "tpath_ok q" for R' q
    using same_next(1) [OF un sl _ that, of 0] len by (simp add: pb(1))
  have same: "ptotal p = ptotal ?p" "pg_pmm p = pg_pmm ?p" by (simp_all add: pb(1))
  show g: "get_as p r' = get_as ?p r'" by (simp add: pb(1) get_as_def split: as_ref.split)
  show "c2_address_space_ready p r' = c2_address_space_ready ?p r'" by (rule ready_cong [OF same(1) g])
  have sp': "space_ok p Us Rs" unfolding pb(1) by (rule same_step(1) [OF sp sl]) (use len in simp_all)
  have ql: "quar_list (s\<lparr> fr_pg := p \<rparr>) = quar_list s" by (rule quar_list_cong) simp_all
  have rf: "refs (s\<lparr> fr_pg := p \<rparr>) a = refs s a" for a by (rule refs_cong) simp
  have qi: "quar_inv (s\<lparr> fr_pg := p \<rparr>)"
    using I unfolding pages_inv_def quar_inv_def ql rf by (simp add: same quar_ok_def)
  show "pages_inv (s\<lparr> fr_pg := p \<rparr>) Us Rs"
    using I sp' qi desc unfolding pages_inv_def ql rf by (simp add: same)
  show "user_page p R' v = (if R' = root \<and> idx v = idx w then None else user_page ?p R' v)" if R': "R' \<in> Rs"
  proof (cases "R' = root \<and> idx v = idx w")
    case True
    have "edits_page ?p p Us Rs root w 0" unfolding pb(1) root_def by (rule leaf_edits [OF sp R low lt])
    from edits_page_effect(4) [OF this space_okD(6) [OF sp]] True show ?thesis by (simp add: user_page_def leaf_def)
  next
    case False
    have "\<not> passes root (butlast (idx w)) (pt_index w 12) R' (idx v)"
    proof
      assume "passes root (butlast (idx w)) (pt_index w 12) R' (idx v)"
      then obtain rest where v: "R' = root" "idx v = butlast (idx w) @ pt_index w 12 # rest" by (auto simp: passes_def)
      then have "rest = []" using idx_split [OF v(2)] len by simp
      with v False show False by (simp add: idx_def)
    qed
    then have "walk (ptotal ?p) (pg_mem p) R' (idx v) = walk (ptotal ?p) (pg_mem ?p) R' (idx v)"
      using same_next(3) [OF un sl _ R' _ _, of 0 "idx v"] len idx_lt by (simp add: pb(1))
    with False show ?thesis by (auto simp: user_page_def leaf_def same)
  qed
qed

lemma floor_addr: "page_floor (e AND C2_PTE_ADDR_MASK) = e AND C2_PTE_ADDR_MASK"
  using addr_no_low by (simp only: and.assoc low_mask)

lemma refs_0 [simp]: "refs s 0 = 0"
  by (simp add: refs_def c3_phys_ref_index_def)

lemma unmap_one_spec:
  fixes fp :: bool
  assumes I: "pages_inv s Us Rs" and R: "as_pml4 (get_as (fr_pg s) r) \<in> Us" and va: "user_va w"
    and rd: "c2_address_space_ready (fr_pg s) r"
  defines "root \<equiv> as_pml4 (get_as (fr_pg s) r)" and "t \<equiv> unmap_one r fp w s"
  shows "pages_inv t Us Rs" and "get_as (fr_pg t) r' = get_as (fr_pg s) r'"
    and "c2_address_space_ready (fr_pg t) r' = c2_address_space_ready (fr_pg s) r'"
    and "R' \<in> Rs \<Longrightarrow> user_page (fr_pg t) R' v = (if R' = root \<and> idx v = idx w then None else user_page (fr_pg s) R' v)"
    and "fr_data t = fr_data s"
    and "page_floor a = a \<Longrightarrow> refs t a = refs s a - (if fp \<and> user_page (fr_pg s) root w = Some a then 1 else 0)"
proof -
  let ?e = "paging_get_entry (fr_pg s) r w" let ?phys = "?e AND C2_PTE_ADDR_MASK"
  have "pages_inv t Us Rs \<and> (\<forall>r'. get_as (fr_pg t) r' = get_as (fr_pg s) r')
    \<and> (\<forall>r'. c2_address_space_ready (fr_pg t) r' = c2_address_space_ready (fr_pg s) r')
    \<and> (\<forall>R' \<in> Rs. \<forall>v. user_page (fr_pg t) R' v = (if R' = root \<and> idx v = idx w then None else user_page (fr_pg s) R' v))
    \<and> fr_data t = fr_data s
    \<and> (\<forall>a. page_floor a = a \<longrightarrow> refs t a = refs s a - (if fp \<and> user_page (fr_pg s) root w = Some a then 1 else 0))"
  proof (cases "user_small ?e")
    case False
    then have t: "t = s" by (auto simp: t_def unmap_one_def Let_def)
    have n: "user_page (fr_pg s) root w = None" using get_entry_user(1) [OF rd, of w] False by (auto simp: root_def)
    then have "user_page (fr_pg s) root v = None" if "idx v = idx w" for v using that by (simp add: user_page_def leaf_def)
    then show ?thesis using I n by (simp add: t)
  next
    case True
    obtain p b where m: "paging_unmap (fr_pg s) r w = (p, b)" by (meson surj_pair)
    note U = unmap_page [OF I R va rd True m, folded root_def]
    let ?s = "s\<lparr> fr_pg := p \<rparr>"
    have up: "user_page (fr_pg s) root w = Some ?phys" using get_entry_user(2) [OF rd True] by (simp add: root_def)
    have "t = (if fp \<and> ?phys \<noteq> 0 then c3_phys_ref_release ?s ?phys else ?s)"
      using True U(1) m by (simp add: t_def unmap_one_def Let_def)
    moreover have "c3_phys_ref_release ?s 0 = ?s" by (rule release_none) simp
    ultimately have t: "t = (if fp then c3_phys_ref_release ?s ?phys else ?s)" by auto
    have sh: "shape (fr_pg t) = shape p" unfolding t by simp
    have rf: "refs ?s a = refs s a" for a by (rule refs_cong) simp
    have L: "pages_inv t Us Rs" "fr_data t = fr_data s"
      "page_floor a = a \<Longrightarrow> refs t a = refs ?s a - (if fp \<and> a = ?phys then 1 else 0)" for a
      using release_pages [OF U(2) floor_addr [of ?e]] U(2) by (auto simp: t)
    have "user_page (fr_pg t) R' v = user_page p R' v" for R' v
      by (simp add: user_page_def leaf_def shapeD(1,2) [OF sh])
    moreover have "refs t a = refs s a - (if fp \<and> user_page (fr_pg s) root w = Some a then 1 else 0)" if "page_floor a = a" for a
      using L(3) [OF that] up by (auto simp: rf)
    ultimately show ?thesis using L(1,2) U(3,4,5) shapeD(3,4) [OF sh] by auto
  qed
  then show "pages_inv t Us Rs" "get_as (fr_pg t) r' = get_as (fr_pg s) r'"
    "c2_address_space_ready (fr_pg t) r' = c2_address_space_ready (fr_pg s) r'"
    "R' \<in> Rs \<Longrightarrow> user_page (fr_pg t) R' v = (if R' = root \<and> idx v = idx w then None else user_page (fr_pg s) R' v)"
    "fr_data t = fr_data s"
    "page_floor a = a \<Longrightarrow> refs t a = refs s a - (if fp \<and> user_page (fr_pg s) root w = Some a then 1 else 0)"
    by blast+
qed

text \<open>A list of pages, one after the other.\<close>

lemma unmap_list:
  fixes fp :: bool
  assumes "pages_inv s Us Rs" and "as_pml4 (get_as (fr_pg s) r) \<in> Us" and "\<forall>w \<in> set vs. user_va w"
    and "c2_address_space_ready (fr_pg s) r"
  defines "t \<equiv> fold (unmap_one r fp) vs s"
  shows "pages_inv t Us Rs \<and> (\<forall>r'. get_as (fr_pg t) r' = get_as (fr_pg s) r')
    \<and> (\<forall>r'. c2_address_space_ready (fr_pg t) r' = c2_address_space_ready (fr_pg s) r')
    \<and> (\<forall>R' \<in> Rs. \<forall>v. user_page (fr_pg t) R' v =
          (if R' = as_pml4 (get_as (fr_pg s) r) \<and> (\<exists>w \<in> set vs. idx v = idx w) then None else user_page (fr_pg s) R' v))
    \<and> fr_data t = fr_data s
    \<and> (fp \<longrightarrow> distinct (map idx vs) \<longrightarrow> (\<forall>a. page_floor a = a \<longrightarrow> refs t a = refs s a
          - length (filter (\<lambda>w. user_page (fr_pg s) (as_pml4 (get_as (fr_pg s) r)) w = Some a) vs)))"
  unfolding t_def using assms(1-4)
proof (induction vs arbitrary: s)
  case (Cons w vs)
  let ?root = "as_pml4 (get_as (fr_pg s) r)" let ?s = "unmap_one r fp w s"
  note O = unmap_one_spec [OF Cons.prems(1,2) _ Cons.prems(4), of w]
  have wv: "user_va w" using Cons.prems(3) by simp
  have Rs: "?root \<in> Rs" using Cons.prems(1,2) space_okD(6) by (auto simp: pages_inv_def)
  note IH = Cons.IH [of ?s, unfolded O(2,3) [OF wv], OF O(1) [OF wv] Cons.prems(2) _ Cons.prems(4)]
  have len: "length (filter (\<lambda>v. user_page (fr_pg ?s) ?root v = Some a) vs) = length (filter (\<lambda>v. user_page (fr_pg s) ?root v = Some a) vs)"
    if "distinct (map idx (w # vs))" for a
  proof -
    have "idx v \<noteq> idx w" if "v \<in> set vs" for v
      using that \<open>distinct (map idx (w # vs))\<close> by (metis distinct.simps(2) image_eqI list.simps(9) set_map)
    then show ?thesis using O(4) [OF wv Rs] by (intro arg_cong [where f = length] filter_cong) auto
  qed
  show ?case
    using IH O(4,5,6) [OF wv] Rs len Cons.prems(3) by (auto simp: O(2,3) [OF wv])
qed simp

subsection \<open>Ranges of pages\<close>

definition canonical :: "u64 \<Rightarrow> bool" where
  "canonical v \<longleftrightarrow> v < C3_USER_TOP \<or> DMAP_BASE \<le> v"

lemma bit_unat: "bit (v :: u64) n \<longleftrightarrow> odd (unat v div 2 ^ n)"
proof -
  have "bit (unat v) n \<longleftrightarrow> bit v n" by (simp add: bit_unsigned_iff)
  then show ?thesis by (simp only: bit_iff_odd [of "unat v"])
qed

lemma canonical_low:
  assumes "canonical v" and "\<not> bit v 47"
  shows "unat v < 2 ^ 47"
proof (rule ccontr)
  assume "\<not> unat v < 2 ^ 47"
  then have "2 ^ 64 - 2 ^ 47 \<le> unat v"
    using assms(1) unat_dmap by (auto simp: canonical_def word_le_nat_alt word_less_nat_alt C3_USER_TOP_def)
  moreover have "unat v < 2 ^ 64" using unat_less_2p [of v] by simp
  ultimately have "unat v div 2 ^ 47 = 131071" by (simp add: div_nat_eqI)
  then show False using assms(2) by (simp add: bit_unat)
qed

lemma low_bits: "unat (v :: u64) < 2 ^ 47 \<Longrightarrow> 47 \<le> n \<Longrightarrow> \<not> bit v n"
proof -
  assume v: "unat v < 2 ^ 47" and n: "47 \<le> n"
  have "(2 :: nat) ^ 47 \<le> 2 ^ n" using n by (rule power_increasing) simp
  with v have "unat v div 2 ^ n = 0" by simp
  then show ?thesis by (simp add: bit_unat)
qed

lemma bit_floor: "bit (page_floor v) n \<longleftrightarrow> bit v n \<and> 12 \<le> n"
proof (cases "bit v n")
  case True
  then have "n < 64" using bit_imp_le_length by fastforce
  then have "bit (page_floor v) n \<longleftrightarrow> bit v n \<and> \<not> n < 12"
    unfolding low_mask by (simp add: bit_and_iff bit_not_iff bit_mask_iff)
  with True show ?thesis by (simp add: not_less)
qed (simp add: bit_and_iff)

lemma idx_page:
  assumes w: "user_va w" and v: "canonical v"
  shows "idx v = idx w \<longleftrightarrow> unat v div 4096 = unat w div 4096"
proof -
  have wl: "unat w < 2 ^ 47" using w by (simp add: user_va_def word_less_nat_alt C3_USER_TOP_def)
  have pf: "page_floor v = page_floor w \<longleftrightarrow> unat v div 4096 = unat w div 4096"
    by (simp add: word_unat_eq_iff page_floor_unat)
  have "idx v = idx w \<longleftrightarrow> page_floor v = page_floor w"
  proof
    assume eq: "idx v = idx w"
    have b: "bit v (sh + n) = bit w (sh + n)" if "sh \<in> {39, 30, 21, 12}" "n < 9" for sh n
    proof -
      have "pt_index v sh = pt_index w sh" using eq that(1) by (auto simp: idx_def)
      then show ?thesis using bit_pt_index [of v sh n] bit_pt_index [of w sh n] that(2) by simp
    qed
    have "\<not> bit v 47" using b [of 39 8] low_bits [OF wl, of 47] by simp
    then have vl: "unat v < 2 ^ 47" by (rule canonical_low [OF v])
    have "bit v n = bit w n" if n: "12 \<le> n" for n
    proof (cases "47 \<le> n")
      case True
      then show ?thesis using low_bits [OF wl] low_bits [OF vl] by simp
    next
      case False
      consider "12 \<le> n" "n < 21" | "21 \<le> n" "n < 30" | "30 \<le> n" "n < 39" | "39 \<le> n" "n < 48"
        using n False by linarith
      then show ?thesis using b [of 12 "n - 12"] b [of 21 "n - 21"] b [of 30 "n - 30"] b [of 39 "n - 39"] by cases auto
    qed
    then show "page_floor v = page_floor w" by (intro bit_eqI) (auto simp only: bit_floor)
  next
    assume eq: "page_floor v = page_floor w"
    have "bit v n = bit w n" if "12 \<le> n" for n using arg_cong [OF eq, of "\<lambda>x. bit x n"] that by (simp only: bit_floor) simp
    then have "pt_index v sh = pt_index w sh" if "12 \<le> sh" for sh
      using that unfolding pt_index_def by (intro arg_cong [where f = unat] bit_eqI) (simp add: bit_and_iff bit_drop_bit_eq)
    then show "idx v = idx w" by (simp add: idx_def)
  qed
  with pf show ?thesis by simp
qed

abbreviation pages_of :: "u64 \<Rightarrow> u64 \<Rightarrow> u64 list" where
  "pages_of va len \<equiv> map (\<lambda>page. va + page) (page_list 0 len)"

lemma pages_of_spec:
  assumes a: "range_args va len" and lo: "RIDUX_USER_LOW_SAFE \<le> va"
  shows "\<forall>w \<in> set (pages_of va len). user_va w" and "distinct (map idx (pages_of va len))"
    and "canonical v \<Longrightarrow> (\<exists>w \<in> set (pages_of va len). idx v = idx w) \<longleftrightarrow> in_range va (round_end va len) (unat v)"
    and "set (pages_of va len) = {w. page_floor w = w \<and> in_range va (round_end va len) (unat w)}"
proof -
  note A = range_args_end [OF a]
  let ?n = "(unat len + 4095) div 4096"
  define f :: "nat \<Rightarrow> u64" where "f = (\<lambda>k. va + of_nat (k * 4096))"
  obtain q where q: "unat va = q * 4096" using A(3) by (metis dvd_def mult.commute)
  have L: "pages_of va len = map f [0..<?n]" by (simp add: page_list_def f_def)
  have re: "unat (round_end va len) = (q + ?n) * 4096"
  proof -
    have "(unat va + unat len + 4095) div 4096 = q + ?n" by (simp add: q add.assoc)
    then show ?thesis by (simp only: A(2))
  qed
  have u: "unat (f k) = (q + k) * 4096" if "k < ?n" for k
  proof -
    have le: "(q + k) * 4096 < 2 ^ 47" using that A(5) unfolding re by (meson add_less_cancel_left less_le_trans mult_less_mono1 zero_less_numeral)
    then have "k * 4096 < 2 ^ LENGTH(64)" by simp
    then have o: "unat (of_nat (k * 4096) :: u64) = k * 4096" by (simp only: unat_of_nat mod_less)
    have "unat va + unat (of_nat (k * 4096) :: u64) < 2 ^ LENGTH(64)" unfolding o q using le by simp
    then have "unat (f k) = unat va + unat (of_nat (k * 4096) :: u64)" unfolding f_def by (rule unat_add_no_wrap)
    also have "\<dots> = (q + k) * 4096" unfolding o q by (simp only: add_mult_distrib)
    finally show ?thesis .
  qed
  have lt: "(q + k) * 4096 < 2 ^ 47" if "k < ?n" for k
    using that A(5) unfolding re by (meson add_less_cancel_left less_le_trans mult_less_mono1 zero_less_numeral)
  have uv: "user_va (f k)" if "k < ?n" for k
  proof -
    have "0x40000000 \<le> q * 4096" using lo by (simp add: word_le_nat_alt RIDUX_USER_LOW_SAFE_def q)
    then have "0x40000000 \<le> unat (f k)" "unat (f k) < 2 ^ 47" using lt [OF that] unfolding u [OF that] by simp_all
    then show ?thesis by (simp only: user_va_unat)
  qed
  show 1: "\<forall>w \<in> set (pages_of va len). user_va w" unfolding L using uv by auto
  have pg: "unat (f k) div 4096 = q + k" if "k < ?n" for k by (simp add: u [OF that])
  have "inj_on (\<lambda>k. idx (f k)) {0..<?n}"
  proof (rule inj_onI)
    fix j k assume h: "j \<in> {0..<?n}" "k \<in> {0..<?n}" "idx (f j) = idx (f k)"
    have "canonical (f j)" using uv [of j] h(1) by (simp add: canonical_def user_va_def)
    with idx_page [OF uv, of k "f j"] h pg show "j = k" by simp
  qed
  then show "distinct (map idx (pages_of va len))" unfolding L by (simp add: distinct_map comp_def)
  have rng: "in_range va (round_end va len) x \<longleftrightarrow> q \<le> x div 4096 \<and> x div 4096 < q + ?n" for x
    unfolding in_range_def re q by (simp add: less_eq_div_iff_mult_less_eq div_less_iff_less_mult)
  show "(\<exists>w \<in> set (pages_of va len). idx v = idx w) \<longleftrightarrow> in_range va (round_end va len) (unat v)" if "canonical v"
  proof -
    have "(\<exists>w \<in> set (pages_of va len). idx v = idx w) \<longleftrightarrow> (\<exists>k < ?n. unat v div 4096 = q + k)"
      unfolding L using idx_page [OF uv that] pg by auto
    then show ?thesis unfolding rng by (auto simp: le_iff_add)
  qed
  show "set (pages_of va len) = {w. page_floor w = w \<and> in_range va (round_end va len) (unat w)}"
  proof (intro equalityI subsetI)
    fix w assume "w \<in> set (pages_of va len)"
    then obtain k where k: "k < ?n" "w = f k" unfolding L by auto
    have "unat (page_floor w) = unat w" unfolding page_floor_unat k(2) u [OF k(1)] by simp
    then have "page_floor w = w" by (rule word_unat_eq_iff [THEN iffD2])
    then show "w \<in> {w. page_floor w = w \<and> in_range va (round_end va len) (unat w)}" using k pg [OF k(1)] by (simp add: rng)
  next
    fix w assume "w \<in> {w. page_floor w = w \<and> in_range va (round_end va len) (unat w)}"
    then have w: "page_floor w = w" "q \<le> unat w div 4096" "unat w div 4096 < q + ?n" by (simp_all add: rng)
    have e: "unat w = unat w div 4096 * 4096" using page_floor_unat(1) [of w] w(1) by simp
    let ?k = "unat w div 4096 - q"
    have k: "?k < ?n" using w by simp
    have "unat (f ?k) = unat w" unfolding u [OF k] using w(2) e by simp
    then have "w = f ?k" by (simp only: word_unat_eq_iff)
    with k show "w \<in> set (pages_of va len)" unfolding L by auto
  qed
qed

subsection \<open>Revocation\<close>

text \<open>The frame that user code reaches at an address of a space.\<close>

definition user_frame :: "paging \<Rightarrow> as_ref \<Rightarrow> u64 \<Rightarrow> u64 option" where
  "user_frame p r w = (let e = paging_get_entry p r w in if user_small e then Some (e AND C2_PTE_ADDR_MASK) else None)"

lemma user_frame_page:
  "user_frame p r w = (if c2_address_space_ready p r then user_page p (as_pml4 (get_as p r)) w else None)"
proof (cases "c2_address_space_ready p r")
  case True
  show ?thesis
  proof (cases "user_small (paging_get_entry p r w)")
    case u: True
    show ?thesis unfolding user_frame_def Let_def get_entry_user(2) [OF True u] using True u by (simp only: not_False_eq_True simp_thms if_True)
  next
    case u: False
    then have "user_page p (as_pml4 (get_as p r)) w = None" using get_entry_user(1) [OF True, of w] by blast
    then show ?thesis unfolding user_frame_def Let_def using u by (simp only: if_False if_cancel simp_thms)
  qed
qed (simp add: user_frame_def not_ready_entry)

lemma unmap_pages_fold: "c3_mmap_unmap_pages s r va len True = fold (unmap_one r True) (pages_of va len) s"
  by (simp add: c3_mmap_unmap_pages_def)

text \<open>C30: unmapping a range of pages of a user space, in a state whose page tables and frame counts
  are consistent, leaves no page of the range that user code can reach and takes nothing else
  away: every other page of this and of every other space, the kernel's half included, leads to
  the same frame as before.  Each frame loses exactly one reference for each page that led to
  it, no byte of memory changes, and the state stays consistent: no frame that is still counted
  is free or quarantined, and no page table lies in a frame that may be handed out.\<close>

theorem unmap_pages_revokes:
  assumes "pages_inv s Us Rs" and "as_pml4 (get_as (fr_pg s) r) \<in> Us" and "c2_address_space_ready (fr_pg s) r"
    and "range_args va len" and "RIDUX_USER_LOW_SAFE \<le> va" and "c3_mmap_unmap_pages s r va len True = t"
  shows "pages_inv t Us Rs \<and> fr_data t = fr_data s
    \<and> (as_pml4 (get_as (fr_pg s) r') \<in> Rs \<longrightarrow> canonical w \<longrightarrow> user_frame (fr_pg t) r' w =
          (if as_pml4 (get_as (fr_pg s) r') = as_pml4 (get_as (fr_pg s) r) \<and> in_range va (round_end va len) (unat w) then None
           else user_frame (fr_pg s) r' w))
    \<and> (page_floor a = a \<longrightarrow> refs t a = refs s a
          - card {v. page_floor v = v \<and> in_range va (round_end va len) (unat v) \<and> user_frame (fr_pg s) r v = Some a})"
proof -
  let ?root = "as_pml4 (get_as (fr_pg s) r)"
  define vs where "vs = pages_of va len"
  note P = pages_of_spec [OF assms(4,5), folded vs_def]
  note U = unmap_list [OF assms(1,2) P(1) assms(3), where fp = True, unfolded assms(6) [unfolded unmap_pages_fold, folded vs_def]]
  have "user_frame (fr_pg t) r' w = (if as_pml4 (get_as (fr_pg s) r') = ?root \<and> in_range va (round_end va len) (unat w) then None
      else user_frame (fr_pg s) r' w)" if "as_pml4 (get_as (fr_pg s) r') \<in> Rs" "canonical w"
    using U that(1) P(3) [OF that(2)] by (auto simp add: user_frame_page)
  moreover have "length (filter (\<lambda>v. user_page (fr_pg s) ?root v = Some a) vs)
      = card {v. page_floor v = v \<and> in_range va (round_end va len) (unat v) \<and> user_frame (fr_pg s) r v = Some a}"
  proof -
    have d: "distinct vs" using P(2) by (simp add: distinct_map)
    then have "length (filter (\<lambda>v. user_page (fr_pg s) ?root v = Some a) vs) = card {v \<in> set vs. user_page (fr_pg s) ?root v = Some a}"
      using distinct_card [OF distinct_filter [OF d], of "\<lambda>v. user_page (fr_pg s) ?root v = Some a"] by (simp only: set_filter)
    then show ?thesis unfolding P(4) by (simp add: user_frame_page assms(3) conj_assoc)
  qed
  ultimately show ?thesis using U P(2) by simp
qed

text \<open>A space with one page mapped by hand, unmapped again.\<close>

lemma example_mapped:
  obtains p where "space_ok p {example_root} {example_root}" and "c2_address_space_ready p (UserAS 0)"
    and "as_pml4 (get_as p (UserAS 0)) = example_root" and "user_frame p (UserAS 0) 0x40000000 = Some 0x300000"
proof -
  let ?s = paging_example
  obtain p b where m: "paging_map ?s (UserAS 0) 0x40000000 0x300000 7 = (p, b)" by (meson surj_pair)
  have root: "as_pml4 (get_as ?s (UserAS 0)) \<in> {example_root}" by (simp add: paging_example_root)
  have e: "\<not> flag_set (pg_mem ?s (as_pml4 (get_as ?s (UserAS 0))) (pt_index 0x40000000 39)) PAGE_PRESENT"
    by (simp add: paging_example_def)
  have c: "3 \<le> card (free_frames (pg_pmm ?s))" using pmm_example_free by (simp add: paging_example_def)
  have low: "pt_index 0x40000000 39 < 256" by (simp add: example_virt)
  have b: b
    using paging_map_fresh [OF paging_example_space refl root low paging_example_ready example_virt(2) e c, of "0x300000" "7"] m by simp
  note st = paging_map_steps [OF paging_example_space refl root low m]
  have ed: "edits_page ?s p {example_root} {example_root} example_root 0x40000000 (0x300000 OR c2_sanitize_page_flags ?s 7)"
    using st b by (simp add: paging_example_root)
  note E = edits_page_effect [OF ed subset_refl]
  have rd: "c2_address_space_ready p (UserAS 0)" using ready_cong [OF E(2,3)] paging_example_ready by simp
  have rt: "as_pml4 (get_as p (UserAS 0)) = example_root" by (simp add: E(3) paging_example_root)
  have "c2_sanitize_page_flags ?s 7 = 7" by (simp add: c2_sanitize_page_flags_def paging_example_def)
  then have "user_page p example_root 0x40000000 = Some 0x300000"
    using E(4) by (simp add: user_page_def leaf_def page_flags C2_PTE_ADDR_MASK_def)
  then have "user_frame p (UserAS 0) 0x40000000 = Some 0x300000" by (simp add: user_frame_page rd rt)
  then show thesis by (rule that [OF E(1) rd rt])
qed

lemma example_state:
  obtains s :: vm where "pages_inv s {example_root} {example_root}" and "c2_address_space_ready (fr_pg s) (UserAS 0)"
    and "as_pml4 (get_as (fr_pg s) (UserAS 0)) = example_root" and "user_frame (fr_pg s) (UserAS 0) 0x40000000 = Some 0x300000"
    and "vm_table s = vm_table vm_example"
proof -
  obtain p where p: "space_ok p {example_root} {example_root}" "c2_address_space_ready p (UserAS 0)"
    "as_pml4 (get_as p (UserAS 0)) = example_root" "user_frame p (UserAS 0) 0x40000000 = Some 0x300000"
    by (rule example_mapped)
  let ?s = "vm_example\<lparr> fr_pg := p \<rparr>"
  have f: "fr_refcnt ?s = (\<lambda>_. 0)" "fr_qcount ?s = 0" "fr_qhead ?s = 0" "fr_pg ?s = p"
    by (simp_all add: vm_example_def frames.defs vm.defs frames_example_def)
  have r0: "refs ?s a = 0" for a by (simp add: refs_def f(1) split: option.split)
  have q0: "quar_list ?s = []" by (simp add: quar_list_def f(2))
  have "pmm_ok (pg_pmm p)" by (rule space_okD(1) [OF p(1)])
  then have "quar_inv ?s" by (simp add: quar_inv_def quar_ok_def q0 r0 f)
  then have "pages_inv ?s {example_root} {example_root}" using p(1) by (simp add: pages_inv_def q0 r0)
  then show thesis using that [of ?s] p(2-4) by simp
qed

lemma example_range: "range_args 0x40000000 0x2000" "in_range 0x40000000 (round_end 0x40000000 0x2000) (unat (0x40000000 :: u64))"
  by (simp_all add: range_args_def C3_USER_TOP_def PAGE_SIZE_def in_range_def round_end_def)

theorem unmap_pages_revokes_witness:
  "\<exists>s :: vm. user_frame (fr_pg s) (UserAS 0) 0x40000000 = Some 0x300000
    \<and> user_frame (fr_pg (c3_mmap_unmap_pages s (UserAS 0) 0x40000000 0x2000 True)) (UserAS 0) 0x40000000 = None"
proof -
  obtain s :: vm where s: "pages_inv s {example_root} {example_root}" "c2_address_space_ready (fr_pg s) (UserAS 0)"
    "as_pml4 (get_as (fr_pg s) (UserAS 0)) = example_root" "user_frame (fr_pg s) (UserAS 0) 0x40000000 = Some 0x300000"
    by (rule example_state)
  note R = unmap_pages_revokes [OF s(1) _ s(2) example_range(1) _ refl, of "UserAS 0" "0x40000000"]
  have "user_frame (fr_pg (c3_mmap_unmap_pages s (UserAS 0) 0x40000000 0x2000 True)) (UserAS 0) 0x40000000 = None"
    using R s(3) example_range(2) by (simp add: RIDUX_USER_LOW_SAFE_def canonical_def C3_USER_TOP_def)
  with s(4) show ?thesis by blast
qed

subsection \<open>madvise with MADV_DONTNEED\<close>

lemma table_unmap_one [simp]: "vm_table (unmap_one r fp v s) = vm_table s"
  by (simp add: unmap_one_def Let_def split: prod.split)

definition discards :: "mmap_table \<Rightarrow> as_ref \<Rightarrow> u64 \<Rightarrow> u64 \<Rightarrow> nat \<Rightarrow> u64 list" where
  "discards g r us ue i =
     (if outside (g i) r us ue \<or> \<not> c3_mmap_is_lazy_anon (g i) \<or> \<not> c3_mmap_is_private (mm_flags (g i)) then []
      else page_list (clip_lo (g i) us) (clip_hi (g i) ue))"

lemma discard_page:
  "(if user_small (paging_get_entry (fr_pg s) r v) then c3_mmap_unmap_pages s r v PAGE_SIZE True else s) = unmap_one r True v s"
proof -
  have "page_list 0 PAGE_SIZE = [0]" by (simp add: page_list_def PAGE_SIZE_def)
  then have "c3_mmap_unmap_pages s r v PAGE_SIZE True = unmap_one r True v s" by (simp add: c3_mmap_unmap_pages_def)
  then show ?thesis by (auto simp: unmap_one_def Let_def)
qed

lemma discard_step_list: "discard_step r us ue i s = fold (unmap_one r True) (discards (vm_table s) r us ue i) s"
  unfolding discard_step_def Let_def discard_page by (auto simp: discards_def outside_def clip_lo_def clip_hi_def)

lemma discard_fold:
  "fold (discard_step r us ue) is s = fold (unmap_one r True) (concat (map (discards (vm_table s) r us ue) is)) s"
proof (induction "is" arbitrary: s)
  case (Cons i "is")
  have "vm_table (fold (unmap_one r True) xs s) = vm_table s" for xs by (rule fold_keeps) simp
  with Cons show ?case by (simp add: discard_step_list)
qed simp

lemma page_list_range:
  assumes "unat a < unat b" and "unat b \<le> 2 ^ 47" and "4096 dvd unat a" "4096 dvd unat b"
  shows "page_list a b = pages_of a (b - a)" and "range_args a (b - a)" and "unat (round_end a (b - a)) = unat b"
proof -
  have u: "unat (b - a) = unat b - unat a" using assms(1) by (simp add: unat_sub word_le_nat_alt)
  show "page_list a b = pages_of a (b - a)" by (simp add: page_list_def u)
  have "a AND (PAGE_SIZE - 1) = 0"
  proof -
    have "take_bit 12 (unat a) = 0" using assms(3) by (simp add: take_bit_eq_mod)
    then have "unat (a AND mask 12) = 0" by (metis take_bit_eq_mask unsigned_take_bit_eq)
    then have "a AND mask 12 = 0" by (metis unat_eq_zero)
    then show ?thesis by (simp only: page_mask)
  qed
  moreover have "a < C3_USER_TOP" using assms(1,2) by (simp add: word_less_nat_alt C3_USER_TOP_def)
  moreover have "b - a \<le> C3_USER_TOP - a"
  proof -
    have "unat (C3_USER_TOP - a) = 2 ^ 47 - unat a"
      using assms(1,2) by (subst unat_sub) (simp_all add: word_le_nat_alt C3_USER_TOP_def)
    then show ?thesis using assms(2) by (simp add: word_le_nat_alt u)
  qed
  moreover have "b - a \<noteq> 0" using assms(1) by auto
  ultimately show ra: "range_args a (b - a)" by (simp add: range_args_def)
  obtain k where k: "unat b = k * 4096" using assms(4) by (metis dvd_def mult.commute)
  show "unat (round_end a (b - a)) = unat b"
    using assms(1) unfolding range_args_end(2) [OF ra] u by (simp add: k)
qed

text \<open>The page is in a private anonymous region of the space.\<close>

definition discardable :: "mmap_table \<Rightarrow> as_ref \<Rightarrow> u64 \<Rightarrow> bool" where
  "discardable g r w \<longleftrightarrow> (\<exists>i < MMAP_REGION_MAX. holds (g i) r (unat w) \<and> c3_mmap_is_lazy_anon (g i) \<and> c3_mmap_is_private (mm_flags (g i)))"

lemma discards_spec:
  assumes ok: "table_ok g" and i: "i < MMAP_REGION_MAX" and lt: "us < ue" and al: "4096 dvd unat us" "4096 dvd unat ue"
    and lo: "RIDUX_USER_LOW_SAFE \<le> us"
  shows "\<forall>w \<in> set (discards g r us ue i). user_va w"
    and "canonical v \<Longrightarrow> (\<exists>w \<in> set (discards g r us ue i). idx v = idx w) \<longleftrightarrow>
      in_range us ue (unat v) \<and> holds (g i) r (unat v) \<and> c3_mmap_is_lazy_anon (g i) \<and> c3_mmap_is_private (mm_flags (g i))"
proof -
  have "(\<forall>w \<in> set (discards g r us ue i). user_va w) \<and> (canonical v \<longrightarrow> ((\<exists>w \<in> set (discards g r us ue i). idx v = idx w) \<longleftrightarrow>
      in_range us ue (unat v) \<and> holds (g i) r (unat v) \<and> c3_mmap_is_lazy_anon (g i) \<and> c3_mmap_is_private (mm_flags (g i))))"
  proof (cases "outside (g i) r us ue \<or> \<not> c3_mmap_is_lazy_anon (g i) \<or> \<not> c3_mmap_is_private (mm_flags (g i))")
    case True
    have "\<not> holds (g i) r (unat v)" if "outside (g i) r us ue" "in_range us ue (unat v)"
    proof (cases "mm_used (g i)")
      case u: True
      show ?thesis using that clip(1) [OF table_okD(1) [OF ok i u] lt al u, of r] by (auto simp: holds_def in_range_def)
    qed (simp add: holds_def)
    with True show ?thesis by (auto simp: discards_def)
  next
    case False
    then have u: "mm_used (g i)" "mm_as (g i) = r" "\<not> outside (g i) r us ue" by (auto simp: outside_def)
    have wf: "wf_region (g i)" by (rule table_okD(1) [OF ok i u(1)])
    note C = clip [OF wf lt al u(1)]
    let ?a = "clip_lo (g i) us" and ?b = "clip_hi (g i) ue"
    have ab: "unat ?a < unat ?b" using C(4) [OF u(3)] by (simp add: word_less_nat_alt)
    have b: "unat ?b \<le> 2 ^ 47" using C(3) wf_region_bounds(3) [OF wf] by simp
    note L = page_list_range [OF ab b C(5,6)]
    have lo': "RIDUX_USER_LOW_SAFE \<le> ?a" using lo by (simp add: word_le_nat_alt C(2))
    have d: "discards g r us ue i = pages_of ?a (?b - ?a)" using False L(1) by (simp add: discards_def)
    note P = pages_of_spec [OF L(2) lo', folded d]
    have "in_range ?a (round_end ?a (?b - ?a)) (unat v) \<longleftrightarrow> in_range us ue (unat v) \<and> holds (g i) r (unat v)"
      using u by (auto simp: in_range_def L(3) C(2,3) holds_def)
    with P(1) P(3) [of v] False show ?thesis by simp
  qed
  then show "\<forall>w \<in> set (discards g r us ue i). user_va w"
    and "canonical v \<Longrightarrow> (\<exists>w \<in> set (discards g r us ue i). idx v = idx w) \<longleftrightarrow>
      in_range us ue (unat v) \<and> holds (g i) r (unat v) \<and> c3_mmap_is_lazy_anon (g i) \<and> c3_mmap_is_private (mm_flags (g i))"
    by blast+
qed

text \<open>\<open>madvise\<close> with advice 4 on a valid range drops exactly the pages of the range that lie in private
  anonymous regions (the next access faults in a zeroed page); pages of files and of shared
  memory, and all other addresses of all spaces, lead to the same frames as before, and the
  table of regions is unchanged.\<close>

theorem madvise_discards:
  assumes "pages_inv s Us Rs" and "as_pml4 (get_as (fr_pg s) r) \<in> Us" and "c2_address_space_ready (fr_pg s) r"
    and "table_ok (vm_table s)" and "range_args addr len" and "RIDUX_USER_LOW_SAFE \<le> addr"
    and "real_sys_madvise s r addr len 4 = (t, e)"
  shows "e = 0 \<and> pages_inv t Us Rs \<and> vm_table t = vm_table s \<and> fr_data t = fr_data s
    \<and> (as_pml4 (get_as (fr_pg s) r') \<in> Rs \<longrightarrow> canonical w \<longrightarrow> user_frame (fr_pg t) r' w =
          (if as_pml4 (get_as (fr_pg s) r') = as_pml4 (get_as (fr_pg s) r) \<and> in_range addr (round_end addr len) (unat w)
              \<and> discardable (vm_table s) r w then None
           else user_frame (fr_pg s) r' w))"
proof -
  note A = range_args_end [OF assms(5)]
  let ?ue = "round_end addr len" let ?root = "as_pml4 (get_as (fr_pg s) r)"
  have lt: "addr < ?ue" using A(4) by (simp add: word_less_nat_alt)
  have al: "4096 dvd unat ?ue" by (simp add: A(2))
  define vs where "vs = concat (map (discards (vm_table s) r addr ?ue) slots)"
  have r: "r \<noteq> NullAS" using assms(3) by (auto simp: c2_address_space_ready_def)
  have "real_sys_madvise s r addr len 4 = (fold (discard_step r addr ?ue) slots s, 0)"
    using assms(5) r by (auto simp: real_sys_madvise_def range_args_def round_end_def c3_madvise_discard_anon_def not_le not_less)
  then have t: "t = fold (unmap_one r True) vs s" "e = 0" using assms(7) by (auto simp: discard_fold vs_def)
  note D = discards_spec [OF assms(4) _ lt A(3) al assms(6)]
  have va: "\<forall>w \<in> set vs. user_va w" using D(1) by (auto simp: vs_def)
  note U = unmap_list [OF assms(1,2) va assms(3), where fp = True, folded t(1)]
  have ex: "(\<exists>v \<in> set vs. idx w = idx v) \<longleftrightarrow> in_range addr ?ue (unat w) \<and> discardable (vm_table s) r w" if "canonical w"
    using D(2) [OF _ that, of _ r] by (auto simp: vs_def discardable_def)
  have "vm_table t = vm_table s" unfolding t by (rule fold_keeps) simp
  moreover have "user_frame (fr_pg t) r' w = (if as_pml4 (get_as (fr_pg s) r') = ?root \<and> in_range addr ?ue (unat w)
              \<and> discardable (vm_table s) r w then None else user_frame (fr_pg s) r' w)"
    if "as_pml4 (get_as (fr_pg s) r') \<in> Rs" "canonical w"
    using U that(1) ex [OF that(2)] by (auto simp: user_frame_page)
  ultimately show ?thesis using U t(2) by simp
qed

theorem madvise_discards_witness:
  "\<exists>s t e. user_frame (fr_pg s) (UserAS 0) 0x40000000 = Some 0x300000
    \<and> real_sys_madvise s (UserAS 0) 0x40000000 0x2000 4 = (t, e)
    \<and> e = 0 \<and> user_frame (fr_pg t) (UserAS 0) 0x40000000 = None"
proof -
  obtain s :: vm where s: "pages_inv s {example_root} {example_root}" "c2_address_space_ready (fr_pg s) (UserAS 0)"
    "as_pml4 (get_as (fr_pg s) (UserAS 0)) = example_root" "user_frame (fr_pg s) (UserAS 0) 0x40000000 = Some 0x300000"
    "vm_table s = vm_table vm_example"
    by (rule example_state)
  obtain t e where m: "real_sys_madvise s (UserAS 0) 0x40000000 0x2000 4 = (t, e)" by (meson surj_pair)
  have "discardable (vm_table s) (UserAS 0) 0x40000000"
    unfolding discardable_def s(5) vm_example_table
    by (rule exI [of _ 0]) (simp add: example_region_holds MMAP_REGION_MAX_def c3_mmap_is_lazy_anon_def c3_mmap_is_anon_def
        c3_mmap_is_private_def C3_MAP_ANONYMOUS_def C3_MAP_PRIVATE_def example_region_def new_region_def holds_def lo_def hi_def)
  then have "e = 0 \<and> user_frame (fr_pg t) (UserAS 0) 0x40000000 = None"
    using madvise_discards [OF s(1) _ s(2) _ example_range(1) _ m, of "UserAS 0" "0x40000000"] s(3,5) vm_example_ok example_range(2)
    by (simp add: RIDUX_USER_LOW_SAFE_def canonical_def C3_USER_TOP_def)
  with s(4) m show ?thesis by blast
qed

end
