(* ===== verification/KMmapCalls.thy ===== *)
theory KMmapCalls
  imports KMmapRevoke
begin

text \<open>
  \<open>munmap\<close> on both levels at once: the pages that a call takes away are those whose regions it
  removes from the table.  A region that counts no resident page is skipped by the code, so its
  count must be honest.
\<close>

subsection \<open>Writing back keeps pages\<close>

lemma user_page_cong: "shape p = shape q \<Longrightarrow> user_page p R w = user_page q R w"
  by (simp add: user_page_def leaf_def shapeD(1,2) [of p q])

lemma pages_inv_cong:
  assumes "fr_pg s' = fr_pg s" "fr_refcnt s' = fr_refcnt s" "fr_quar s' = fr_quar s" "fr_qhead s' = fr_qhead s" "fr_qcount s' = fr_qcount s"
  shows "pages_inv s' Us Rs = pages_inv s Us Rs"
proof -
  have "quar_list s' = quar_list s" by (rule quar_list_cong [OF assms(3-5)])
  moreover have "refs s' a = refs s a" for a by (rule refs_cong [OF assms(2)])
  ultimately show ?thesis by (simp add: pages_inv_def quar_inv_def quar_ok_def assms)
qed

definition keeps_pages :: "'a frames_scheme \<Rightarrow> 'a frames_scheme \<Rightarrow> u64 set \<Rightarrow> u64 set \<Rightarrow> bool" where
  "keeps_pages s t Us Rs \<longleftrightarrow> (pages_inv s Us Rs \<longrightarrow> pages_inv t Us Rs) \<and> shape (fr_pg t) = shape (fr_pg s)"

lemma vm_keeps_refl: "keeps_pages s s Us Rs" by (simp add: keeps_pages_def)
lemma vm_keeps_trans: "keeps_pages s t Us Rs \<Longrightarrow> keeps_pages t u Us Rs \<Longrightarrow> keeps_pages s u Us Rs" by (simp add: keeps_pages_def)

lemma keeps_fold: "(\<And>x s. keeps_pages s (f x s) Us Rs) \<Longrightarrow> keeps_pages s (fold f xs s) Us Rs"
  by (induction xs arbitrary: s) (auto intro: vm_keeps_refl vm_keeps_trans)

lemma keeps_invalidate_slot: "keeps_pages s (invalidate_slot c3_phys_ref_release i s) Us Rs"
proof -
  have r: "keeps_pages s (c3_phys_ref_release s (page_floor a)) Us Rs" for a
    using release_pages(1) [of s Us Rs "page_floor a"] by (simp add: keeps_pages_def)
  have p: "keeps_pages u (u\<lparr> fr_pages := f \<rparr>) Us Rs" for u :: "'a frames_scheme" and f
    using pages_inv_cong [of "u\<lparr> fr_pages := f \<rparr>" u Us Rs] by (simp add: keeps_pages_def)
  show ?thesis unfolding invalidate_slot_def Let_def
    by (rule vm_keeps_trans [OF _ p]) (auto split: option.split intro: r [simplified] vm_keeps_refl)
qed

lemma keeps_writeback: "keeps_pages s (fst (c3_mmap_writeback_vfs_range s r m va len)) Us Rs"
proof -
  have i: "keeps_pages s (c3_file_page_invalidate_path s p) Us Rs" for p
    unfolding c3_file_page_invalidate_path_def
    by (auto intro!: keeps_fold keeps_invalidate_slot simp: vm_keeps_refl)
  have f: "keeps_pages u (u\<lparr> vm_files := x \<rparr>) Us Rs" for u x
    using pages_inv_cong [of "u\<lparr> vm_files := x \<rparr>" u Us Rs] by (simp add: keeps_pages_def)
  show ?thesis
    using i vm_keeps_trans [OF i f] by (simp add: c3_mmap_writeback_vfs_range_def Let_def vm_keeps_refl del: writeback_loop.simps)
qed

subsection \<open>Honest counts of resident pages\<close>

abbreviation is_lazy :: "region \<Rightarrow> bool" where
  "is_lazy m \<equiv> c3_mmap_is_lazy_anon m \<or> c3_mmap_is_lazy_private_file m"

text \<open>A lazy region of the space that counts no resident page has none.\<close>

definition honest :: "mmap_table \<Rightarrow> paging \<Rightarrow> as_ref \<Rightarrow> bool" where
  "honest g p r \<longleftrightarrow> (\<forall>i < MMAP_REGION_MAX. \<forall>w. canonical w \<longrightarrow> holds (g i) r (unat w) \<longrightarrow> is_lazy (g i)
      \<longrightarrow> mm_resident_pages (g i) = 0 \<longrightarrow> user_page p (as_pml4 (get_as p r)) w = None)"

lemma pages_u32_nz:
  assumes "4096 dvd unat n" and "n \<noteq> 0" and "unat n \<le> 2 ^ 47"
  shows "c3_mmap_pages_u32 n \<noteq> 0"
proof -
  have "0 < unat n" using assms(2) by (simp add: unat_gt_0)
  have "unat (n + PAGE_SIZE - 1) = unat n + 4095"
  proof -
    have "n + PAGE_SIZE - 1 = n + 4095" by (simp add: PAGE_SIZE_def)
    then have "unat (n + PAGE_SIZE - 1) = unat (n + 4095)" by (simp only:)
    also have "\<dots> = unat n + 4095" using assms(3) by (subst unat_add_no_wrap) simp_all
    finally show ?thesis .
  qed
  then have u: "unat ((n + PAGE_SIZE - 1) div PAGE_SIZE) = (unat n + 4095) div 4096" by (simp only: unat_div_page)
  then have pos: "0 < unat ((n + PAGE_SIZE - 1) div PAGE_SIZE)" using \<open>0 < unat n\<close> by (simp add: div_greater_zero_iff)
  show ?thesis
  proof (cases "(n + PAGE_SIZE - 1) div PAGE_SIZE > 0xFFFFFFFF")
    case True
    then show ?thesis by (simp add: c3_mmap_pages_u32_def Let_def)
  next
    case False
    then have le: "unat ((n + PAGE_SIZE - 1) div PAGE_SIZE) < 2 ^ 32" by (simp add: word_less_nat_alt)
    have "unat (ucast ((n + PAGE_SIZE - 1) div PAGE_SIZE) :: u32) = unat ((n + PAGE_SIZE - 1) div PAGE_SIZE)"
      using le by (simp add: unsigned_ucast_eq take_bit_nat_eq_self)
    with pos have "(ucast ((n + PAGE_SIZE - 1) div PAGE_SIZE) :: u32) \<noteq> 0" by (metis less_numeral_extra(3) unat_0)
    with False show ?thesis by (simp add: c3_mmap_pages_u32_def Let_def)
  qed
qed

lemma clamp_resident:
  assumes "wf_region m"
  shows "mm_resident_pages (c3_mmap_resident_clamp m) = 0 \<longleftrightarrow> mm_resident_pages m = 0"
    and "is_lazy (c3_mmap_resident_clamp m) = is_lazy m"
proof -
  have "c3_mmap_pages_u32 (mm_size m) \<noteq> 0"
    by (rule pages_u32_nz) (use assms in \<open>simp_all add: wf_region_def hi_def\<close>)
  then show "mm_resident_pages (c3_mmap_resident_clamp m) = 0 \<longleftrightarrow> mm_resident_pages m = 0"
    by (auto simp: c3_mmap_resident_clamp_def Let_def)
  show "is_lazy (c3_mmap_resident_clamp m) = is_lazy m"
    by (simp add: c3_mmap_resident_clamp_def Let_def c3_mmap_is_lazy_anon_def c3_mmap_is_lazy_private_file_def)
qed

lemma sub_lazy: "is_lazy (sub_region m a b) = is_lazy m" "mm_resident_pages (sub_region m a b) = mm_resident_pages m"
  by (simp_all add: sub_region_def c3_mmap_is_lazy_anon_def c3_mmap_is_lazy_private_file_def)

text \<open>What a cut leaves lies in a region it was cut from, with the same count of 0 or not.\<close>

lemma cut_source:
  assumes ok: "table_ok g" and i: "i < MMAP_REGION_MAX" "mm_used (g i)" and j: "j < MMAP_REGION_MAX"
    and b: "lo (g i) \<le> unat os" "unat os < unat oe" "unat oe \<le> hi (g i)" and al: "4096 dvd unat os" "4096 dvd unat oe"
    and h: "holds (munmap_cut g i os oe j) r p"
  shows "\<exists>k < MMAP_REGION_MAX. holds (g k) r p \<and> is_lazy (munmap_cut g i os oe j) = is_lazy (g k)
    \<and> (mm_resident_pages (munmap_cut g i os oe j) = 0 \<longleftrightarrow> mm_resident_pages (g k) = 0)"
proof -
  let ?m = "g i" let ?rs = "mm_virt ?m" let ?re = "mm_virt ?m + mm_size ?m"
  have wf: "wf_region ?m" by (rule table_okD(1) [OF ok i])
  have re: "unat ?re = hi ?m" and rs: "unat ?rs = lo ?m" using wf_region_bounds(1) [OF wf] by (simp_all add: lo_def)
  have al': "4096 dvd unat ?rs" "4096 dvd unat ?re" using wf_virt [OF wf] re rs by simp_all
  have eqs: "os = ?rs \<longleftrightarrow> unat os = lo ?m" "oe = ?re \<longleftrightarrow> unat oe = hi ?m" using rs re by (simp_all add: word_unat_eq_iff)
  have sp: "?m\<lparr> mm_size := os - ?rs \<rparr> = sub_region ?m ?rs os"
     "?m\<lparr> mm_virt := oe, mm_size := ?re - oe, mm_offset := mm_offset ?m + (oe - ?rs) \<rparr> = sub_region ?m oe ?re"
    by (simp_all add: sub_region_def)
  have piece: "holds ?m r p \<and> is_lazy x = is_lazy ?m \<and> (mm_resident_pages x = 0 \<longleftrightarrow> mm_resident_pages ?m = 0)"
    if x: "x = c3_mmap_resident_clamp (sub_region ?m a c)" "holds x r p"
      and ac: "lo ?m \<le> unat a" "unat a < unat c" "unat c \<le> hi ?m" "4096 dvd unat a" "4096 dvd unat c" for x a c
  proof -
    note S = sub_region_spec [OF wf ac]
    have "holds ?m r p" using x S(2,3) ac by (auto simp: holds_def)
    then show ?thesis using clamp_resident [OF S(1)] by (simp add: x(1) sub_lazy)
  qed
  have L: "lo ?m < unat os \<Longrightarrow> munmap_cut g i os oe j = c3_mmap_resident_clamp (sub_region ?m ?rs os) \<Longrightarrow> ?thesis"
    using piece [of "munmap_cut g i os oe j" ?rs os] h b al al' rs i(1) by auto
  have R: "unat oe < hi ?m \<Longrightarrow> munmap_cut g i os oe j = c3_mmap_resident_clamp (sub_region ?m oe ?re) \<Longrightarrow> ?thesis"
    using piece [of "munmap_cut g i os oe j" oe ?re] h b al al' re i(1) by auto
  have same: "munmap_cut g i os oe j = g j \<Longrightarrow> ?thesis" using h j by auto
  consider "munmap_cut g i os oe j = g j" | "j = i" "\<not> mm_used (munmap_cut g i os oe j)"
    | "lo ?m < unat os" "munmap_cut g i os oe j = c3_mmap_resident_clamp (sub_region ?m ?rs os)"
    | "unat oe < hi ?m" "munmap_cut g i os oe j = c3_mmap_resident_clamp (sub_region ?m oe ?re)"
    using b unfolding munmap_cut_def Let_def eqs sp by (fastforce split: option.splits if_splits)
  then show ?thesis
  proof cases
    case 2
    then show ?thesis using h by (simp add: holds_def)
  qed (use L R same in blast)+
qed

subsection \<open>One slot\<close>

lemma munmap_step_pages:
  assumes I: "pages_inv s Us Rs" and R: "as_pml4 (get_as (fr_pg s) r) \<in> Us" and rd: "c2_address_space_ready (fr_pg s) r"
    and ok: "table_ok (vm_table s)" and i: "i < MMAP_REGION_MAX" and hon: "honest (vm_table s) (fr_pg s) r"
    and lt: "us < ue" and al: "4096 dvd unat us" "4096 dvd unat ue" and lo: "RIDUX_USER_LOW_SAFE \<le> us"
  defines "t \<equiv> munmap_step r us ue i s" and "m \<equiv> vm_table s i"
  shows "pages_inv t Us Rs \<and> (\<forall>r'. get_as (fr_pg t) r' = get_as (fr_pg s) r')
    \<and> (\<forall>r'. c2_address_space_ready (fr_pg t) r' = c2_address_space_ready (fr_pg s) r')
    \<and> (\<forall>R' \<in> Rs. \<forall>v. canonical v \<longrightarrow> user_page (fr_pg t) R' v =
          (if R' = as_pml4 (get_as (fr_pg s) r) \<and> \<not> outside m r us ue \<and> in_range (clip_lo m us) (clip_hi m ue) (unat v)
           then None else user_page (fr_pg s) R' v))"
proof (cases "outside m r us ue")
  case True
  then have "t = s" by (auto simp: t_def munmap_step_def Let_def m_def outside_def)
  then show ?thesis using I True by simp
next
  case False
  let ?a = "clip_lo m us" and ?b = "clip_hi m ue" let ?root = "as_pml4 (get_as (fr_pg s) r)"
  have u: "mm_used m" "mm_as m = r" using False by (auto simp: outside_def)
  have wf: "wf_region m" using table_okD(1) [OF ok i] u(1) by (simp add: m_def)
  note C = clip [OF wf lt al u(1)]
  have ab: "unat ?a < unat ?b" using C(4) [OF False] by (simp add: word_less_nat_alt)
  have b: "unat ?b \<le> 2 ^ 47" using C(3) wf_region_bounds(3) [OF wf] by simp
  note L = page_list_range [OF ab b C(5,6)]
  have lo': "RIDUX_USER_LOW_SAFE \<le> ?a" using lo by (simp add: word_le_nat_alt C(2))
  note P = pages_of_spec [OF L(2) lo']
  have rng: "in_range ?a (round_end ?a (?b - ?a)) x = in_range ?a ?b x" for x by (simp add: in_range_def L(3))
  define skip where "skip \<longleftrightarrow> is_lazy m \<and> mm_resident_pages m = 0"
  define w where "w = fst (c3_mmap_writeback_vfs_range s r m ?a (?b - ?a))"
  define s1 where "s1 = (if skip then s else c3_mmap_unmap_pages w r ?a (?b - ?a) (c3_mmap_owns_phys m))"
  have "\<exists>d g. t = s1\<lparr> vm_drm_released := d, vm_table := g \<rparr>"
  proof -
    have n: "\<not> ?b \<le> ?a" using ab by (simp add: word_le_nat_alt)
    have c: "(if us > mm_virt m then us else mm_virt m) = ?a" "(if ue < region_end m then ue else region_end m) = ?b"
      by (simp_all add: clip_lo_def clip_hi_def)
    have "t = (let s2 = (if ?a = mm_virt m \<and> ?b = region_end m \<and> mm_backing_kind m = FDKIND_DEVFB \<and> mm_drm_handle m \<noteq> 0
        then s1\<lparr> vm_drm_released := vm_drm_released s1 @ [mm_drm_handle m] \<rparr> else s1)
        in s2\<lparr> vm_table := munmap_cut (vm_table s2) i ?a ?b \<rparr>)"
      unfolding t_def munmap_step_def Let_def m_def [symmetric] c s1_def skip_def w_def
      using False n u by (auto simp: outside_def)
    then show ?thesis by (cases s1) (auto simp: Let_def)
  qed
  then obtain d g where t: "t = s1\<lparr> vm_drm_released := d, vm_table := g \<rparr>" by blast
  have pt: "pages_inv t Us Rs = pages_inv s1 Us Rs" by (rule pages_inv_cong) (simp_all add: t)
  have ft: "fr_pg t = fr_pg s1" by (simp add: t)
  show ?thesis
  proof (cases skip)
    case True
    have "user_page (fr_pg s) ?root v = None" if "canonical v" "in_range ?a ?b (unat v)" for v
    proof -
      have "holds (vm_table s i) r (unat v)"
        using that(2) u by (auto simp: in_range_def C(2,3) holds_def m_def [symmetric])
      with hon that(1) i True show ?thesis unfolding honest_def skip_def m_def by blast
    qed
    with True I show ?thesis unfolding pt ft by (auto simp: s1_def)
  next
    case nskip: False
    have k: "pages_inv w Us Rs" "shape (fr_pg w) = shape (fr_pg s)"
      using keeps_writeback [of s r m ?a "?b - ?a" Us Rs] I by (simp_all add: keeps_pages_def w_def)
    have Rw: "as_pml4 (get_as (fr_pg w) r) \<in> Us" and rdw: "c2_address_space_ready (fr_pg w) r"
      using R rd by (simp_all add: shapeD(3,4) [OF k(2)])
    have s1: "s1 = fold (unmap_one r (c3_mmap_owns_phys m)) (pages_of ?a (?b - ?a)) w"
      using nskip by (simp add: s1_def c3_mmap_unmap_pages_def)
    note U = unmap_list [OF k(1) Rw P(1) rdw, of "c3_mmap_owns_phys m", folded s1]
    show ?thesis
      unfolding pt ft using U P(3) False
      by (auto simp: shapeD(3,4) [OF k(2)] user_page_cong [OF k(2)] rng)
  qed
qed

subsection \<open>The whole call\<close>

definition munmap_pages_inv :: "vm \<Rightarrow> as_ref \<Rightarrow> u64 set \<Rightarrow> u64 set \<Rightarrow> u64 \<Rightarrow> u64 \<Rightarrow> nat \<Rightarrow> vm \<Rightarrow> bool" where
  "munmap_pages_inv s r Us Rs us ue k t \<longleftrightarrow>
     munmap_inv (vm_table s) r us ue k (vm_table t) \<and> pages_inv t Us Rs \<and> honest (vm_table t) (fr_pg t) r
     \<and> (\<forall>r'. get_as (fr_pg t) r' = get_as (fr_pg s) r')
     \<and> (\<forall>r'. c2_address_space_ready (fr_pg t) r' = c2_address_space_ready (fr_pg s) r')
     \<and> (\<forall>R' \<in> Rs. \<forall>v. canonical v \<longrightarrow> user_page (fr_pg t) R' v =
          (if R' = as_pml4 (get_as (fr_pg s) r) \<and> mapped (vm_table s) r (unat v) \<noteq> None \<and> mapped (vm_table t) r (unat v) = None
           then None else user_page (fr_pg s) R' v))"

lemma munmap_pages_step:
  assumes Q: "munmap_pages_inv s r Us Rs us ue k t" and k: "k < MMAP_REGION_MAX"
    and R: "as_pml4 (get_as (fr_pg s) r) \<in> Us" and rd: "c2_address_space_ready (fr_pg s) r"
    and lt: "us < ue" and al: "4096 dvd unat us" "4096 dvd unat ue" and lo: "RIDUX_USER_LOW_SAFE \<le> us"
  shows "munmap_pages_inv s r Us Rs us ue (Suc k) (munmap_step r us ue k t)"
proof -
  let ?t = "munmap_step r us ue k t" let ?g = "vm_table t" and ?root = "as_pml4 (get_as (fr_pg s) r)"
  let ?a = "clip_lo (?g k) us" and ?b = "clip_hi (?g k) ue"
  have I: "munmap_inv (vm_table s) r us ue k ?g" and pg: "pages_inv t Us Rs" and hon: "honest ?g (fr_pg t) r"
    and as: "\<And>r'. get_as (fr_pg t) r' = get_as (fr_pg s) r'"
    and rdy: "\<And>r'. c2_address_space_ready (fr_pg t) r' = c2_address_space_ready (fr_pg s) r'"
    and up: "\<And>R' v. R' \<in> Rs \<Longrightarrow> canonical v \<Longrightarrow> user_page (fr_pg t) R' v =
          (if R' = ?root \<and> mapped (vm_table s) r (unat v) \<noteq> None \<and> mapped ?g r (unat v) = None then None else user_page (fr_pg s) R' v)"
    using Q by (auto simp: munmap_pages_inv_def)
  have ok: "table_ok ?g" using I by (simp add: munmap_inv_def)
  have Rt: "as_pml4 (get_as (fr_pg t) r) \<in> Us" "c2_address_space_ready (fr_pg t) r" using R rd as rdy by simp_all
  note S = munmap_step_pages [OF pg Rt ok k hon lt al lo]
  have tab: "vm_table ?t = (if outside (?g k) r us ue then ?g else munmap_cut ?g k ?a ?b)" by (rule munmap_step_table [OF ok k lt al])
  have I': "munmap_inv (vm_table s) r us ue (Suc k) (vm_table ?t)" unfolding tab by (rule munmap_cut_inv [OF I k lt al])
  have keep: "munmap_pages_inv s r Us Rs us ue (Suc k) ?t" if "outside (?g k) r us ue"
  proof -
    have "?t = t" using that by (auto simp: munmap_step_def Let_def outside_def)
    then show ?thesis using Q I' by (simp add: munmap_pages_inv_def)
  qed
  show ?thesis
  proof (cases "outside (?g k) r us ue")
    case False
    have u: "mm_used (?g k)" "mm_as (?g k) = r" using False by (auto simp: outside_def)
    have wf: "wf_region (?g k)" by (rule table_okD(1) [OF ok k u(1)])
    note C = clip [OF wf lt al u(1)]
    have ab: "unat ?a < unat ?b" using C(4) [OF False] by (simp add: word_less_nat_alt)
    have b: "lo (?g k) \<le> unat ?a" "unat ?b \<le> hi (?g k)" by (simp_all add: C(2,3))
    have tab': "vm_table ?t = munmap_cut ?g k ?a ?b" using tab False by simp
    have fr: "unat ?a = lo (?g k) \<or> unat ?b = hi (?g k) \<or> c3_mmap_alloc_slot ?g \<noteq> None"
      using I u k unfolding munmap_inv_def cut_room_def C(2,3) by fastforce
    have mp: "mapped (vm_table ?t) r x = (if in_range ?a ?b x then None else mapped ?g r x)" for x
      using munmap_cut_spec(2) [OF ok k u(1) b(1) ab b(2) C(5,6) fr, of r x] u(2) by (simp add: tab' in_range_def)
    have was: "mapped (vm_table s) r x \<noteq> None" if "in_range ?a ?b x" for x
    proof -
      have "holds (?g k) r x" using that u by (auto simp: in_range_def C(2,3) holds_def)
      then have "mapped ?g r x \<noteq> None" using k by (auto simp: mapped_none)
      then show ?thesis using I unfolding munmap_inv_def by metis
    qed
    have gone: "user_page (fr_pg ?t) ?root w = None" if "canonical w" "user_page (fr_pg t) ?root w = None" for w
      using S that R pg space_okD(6) [of "fr_pg t" Us Rs] by (auto simp: pages_inv_def as)
    have "honest (vm_table ?t) (fr_pg ?t) r"
      unfolding honest_def
    proof (intro allI impI)
      fix j w assume j: "j < MMAP_REGION_MAX" and h: "canonical w" "holds (vm_table ?t j) r (unat w)" "is_lazy (vm_table ?t j)"
        "mm_resident_pages (vm_table ?t j) = 0"
      obtain l where "l < MMAP_REGION_MAX" "holds (?g l) r (unat w)" "is_lazy (?g l)" "mm_resident_pages (?g l) = 0"
        using cut_source [OF ok k u(1) j b(1) ab b(2) C(5,6), of r "unat w"] h unfolding tab' by blast
      then have "user_page (fr_pg t) ?root w = None" using hon h(1) as unfolding honest_def by metis
      then show "user_page (fr_pg ?t) (as_pml4 (get_as (fr_pg ?t) r)) w = None" using gone [OF h(1)] S as by simp
    qed
    moreover have "user_page (fr_pg ?t) R' v =
        (if R' = ?root \<and> mapped (vm_table s) r (unat v) \<noteq> None \<and> mapped (vm_table ?t) r (unat v) = None then None
         else user_page (fr_pg s) R' v)" if "R' \<in> Rs" "canonical v" for R' v
      using S that up [OF that] False was [of "unat v"] unfolding mp by (auto simp: as)
    ultimately show ?thesis using I' S as rdy unfolding munmap_pages_inv_def by auto
  qed (rule keep)
qed

text \<open>The state that \<open>munmap\<close> relies on: consistent page tables and counts, a well-formed table, honest
  counts of resident pages, and for a cut in the middle of a region a free slot.\<close>

definition munmap_pre :: "vm \<Rightarrow> as_ref \<Rightarrow> u64 set \<Rightarrow> u64 set \<Rightarrow> u64 \<Rightarrow> u64 \<Rightarrow> bool" where
  "munmap_pre s r Us Rs addr len \<longleftrightarrow> pages_inv s Us Rs \<and> as_pml4 (get_as (fr_pg s) r) \<in> Us
     \<and> c2_address_space_ready (fr_pg s) r \<and> table_ok (vm_table s) \<and> honest (vm_table s) (fr_pg s) r
     \<and> range_args addr len \<and> RIDUX_USER_LOW_SAFE \<le> addr \<and> cut_room (vm_table s) r addr (round_end addr len)"

text \<open>C29: in such a state \<open>munmap\<close> returns 0, and on return no page of the range that belonged to a
  region can be reached by user code; every other page of the space, and every page of every
  other space, leads to the frame it led to before.  The page tables, the counts of frames and
  the table of regions are consistent again, so the next call starts from such a state.\<close>

theorem munmap_revokes:
  assumes "munmap_pre s r Us Rs addr len" and "real_sys_munmap s r addr len = (t, e)"
  shows "e = 0 \<and> pages_inv t Us Rs \<and> table_ok (vm_table t) \<and> honest (vm_table t) (fr_pg t) r
    \<and> (as_pml4 (get_as (fr_pg s) r') \<in> Rs \<longrightarrow> canonical w \<longrightarrow> user_frame (fr_pg t) r' w =
          (if as_pml4 (get_as (fr_pg s) r') = as_pml4 (get_as (fr_pg s) r) \<and> in_range addr (round_end addr len) (unat w)
              \<and> mapped (vm_table s) r (unat w) \<noteq> None then None
           else user_frame (fr_pg s) r' w))"
proof -
  have pre: "pages_inv s Us Rs" "as_pml4 (get_as (fr_pg s) r) \<in> Us" "c2_address_space_ready (fr_pg s) r" "table_ok (vm_table s)"
    "honest (vm_table s) (fr_pg s) r" "range_args addr len" "RIDUX_USER_LOW_SAFE \<le> addr" "cut_room (vm_table s) r addr (round_end addr len)"
    using assms(1) by (simp_all add: munmap_pre_def)
  note A = range_args_end [OF pre(6)]
  let ?ue = "round_end addr len"
  have lt: "addr < ?ue" using A(4) by (simp add: word_less_nat_alt)
  have al: "4096 dvd unat ?ue" by (simp add: A(2))
  have r: "r \<noteq> NullAS" using pre(3) by (auto simp: c2_address_space_ready_def)
  have "?ue \<le> C3_USER_TOP" using A(5) by (simp add: word_le_nat_alt C3_USER_TOP_def)
  then have "real_sys_munmap s r addr len = (fold (munmap_step r addr ?ue) slots s, 0)"
    using pre(6) r A(6) by (auto simp: real_sys_munmap_def Let_def round_end_def [symmetric] range_args_def not_less not_le)
  then have t: "t = fold (munmap_step r addr ?ue) slots s" "e = 0" using assms(2) by auto
  have "munmap_pages_inv s r Us Rs addr ?ue MMAP_REGION_MAX t"
    unfolding t(1)
  proof (rule scan_slots [where Q = "munmap_pages_inv s r Us Rs addr ?ue"])
    show "munmap_pages_inv s r Us Rs addr ?ue 0 s" using pre by (auto simp: munmap_pages_inv_def munmap_inv_def)
  qed (rule munmap_pages_step [OF _ _ pre(2,3) lt A(3) al pre(7)])
  then have Q: "munmap_inv (vm_table s) r addr ?ue MMAP_REGION_MAX (vm_table t)" "pages_inv t Us Rs" "honest (vm_table t) (fr_pg t) r"
    "\<And>r'. get_as (fr_pg t) r' = get_as (fr_pg s) r'"
    "\<And>r'. c2_address_space_ready (fr_pg t) r' = c2_address_space_ready (fr_pg s) r'"
    "\<And>R' v. R' \<in> Rs \<Longrightarrow> canonical v \<Longrightarrow> user_page (fr_pg t) R' v =
        (if R' = as_pml4 (get_as (fr_pg s) r) \<and> mapped (vm_table s) r (unat v) \<noteq> None \<and> mapped (vm_table t) r (unat v) = None
         then None else user_page (fr_pg s) R' v)"
    by (simp_all add: munmap_pages_inv_def)
  have rng: "mapped (vm_table s) r x \<noteq> None \<and> mapped (vm_table t) r x = None \<longleftrightarrow> in_range addr ?ue x \<and> mapped (vm_table s) r x \<noteq> None" for x
    using Q(1) unfolding munmap_inv_def mapped_none [of "vm_table t"] by (metis mapped_none)
  have "user_frame (fr_pg t) r' w = (if as_pml4 (get_as (fr_pg s) r') = as_pml4 (get_as (fr_pg s) r) \<and> in_range addr ?ue (unat w)
              \<and> mapped (vm_table s) r (unat w) \<noteq> None then None else user_frame (fr_pg s) r' w)"
    if "as_pml4 (get_as (fr_pg s) r') \<in> Rs" "canonical w"
    using Q(6) [OF that] rng [of "unat w"] by (auto simp: user_frame_page Q(4,5))
  then show ?thesis using Q(1-3) t(2) by (simp add: munmap_inv_def)
qed

theorem munmap_revokes_witness:
  "\<exists>s t e. user_frame (fr_pg s) (UserAS 0) 0x40000000 = Some 0x300000
    \<and> real_sys_munmap s (UserAS 0) 0x40000000 0x2000 = (t, e)
    \<and> e = 0 \<and> user_frame (fr_pg t) (UserAS 0) 0x40000000 = None"
proof -
  obtain s :: vm where s: "pages_inv s {example_root} {example_root}" "c2_address_space_ready (fr_pg s) (UserAS 0)"
    "as_pml4 (get_as (fr_pg s) (UserAS 0)) = example_root" "user_frame (fr_pg s) (UserAS 0) 0x40000000 = Some 0x300000"
    "vm_table s = vm_table vm_example"
    by (rule example_state)
  obtain t e where m: "real_sys_munmap s (UserAS 0) 0x40000000 0x2000 = (t, e)" by (meson surj_pair)
  have "honest (vm_table s) (fr_pg s) (UserAS 0)"
    by (simp add: honest_def s(5) vm_example_table holds_def example_region_def new_region_def)
  then have "munmap_pre s (UserAS 0) {example_root} {example_root} 0x40000000 0x2000"
    using s example_range(1) vm_example_ok vm_example_room by (simp add: munmap_pre_def RIDUX_USER_LOW_SAFE_def)
  note M = munmap_revokes [OF this m, of "UserAS 0" "0x40000000"]
  have "mapped (vm_table s) (UserAS 0) (unat (0x40000000 :: u64)) \<noteq> None"
    by (auto simp: mapped_none s(5) vm_example_table example_region_holds MMAP_REGION_MAX_def intro!: exI [of _ 0])
  then have "e = 0 \<and> user_frame (fr_pg t) (UserAS 0) 0x40000000 = None"
    using M s(3) example_range(2) by (simp add: canonical_def C3_USER_TOP_def)
  with s(4) m show ?thesis by blast
qed

end
