(* ===== verification/KMmapProtect.thy ===== *)
theory KMmapProtect
  imports KMmapProps
begin

text \<open>
  \<open>mprotect\<close> and the table of regions: when it succeeds on a range that regions cover, it gives
  exactly the pages of the range the new protection.  Faulting pages in on the way only counts
  resident pages.
\<close>

subsection \<open>Frames do not touch the rest of the state\<close>

lemma rest_reclaim_one: "c3_file_page_reclaim_one s = (t, b) \<Longrightarrow> rest t = rest s"
  by (auto simp: c3_file_page_reclaim_one_def Let_def split: option.splits)

lemma rest_reclaim [simp]: "rest (c3_file_page_reclaim n s) = rest s"
  by (induction n arbitrary: s) (auto split: prod.split dest: rest_reclaim_one)

lemma rest_take [simp]: "rest (fst (pmm_take s)) = rest s"
  by (simp add: pmm_take_def split: prod.split)

lemma rest_alloc: "c3_alloc_user_frame s = (s', a) \<Longrightarrow> rest s' = rest s"
proof -
  have t: "pmm_take u = (v, f) \<Longrightarrow> rest v = rest u" for u v :: "'a frames_scheme" and f using rest_take [of u] by simp
  show "c3_alloc_user_frame s = (s', a) \<Longrightarrow> rest s' = rest s"
    unfolding c3_alloc_user_frame_def Let_def by (auto split: prod.splits if_splits dest!: t)
qed

lemma rest_set_initial [simp]: "rest (c3_phys_ref_set_initial s a) = rest s"
  by (simp add: c3_phys_ref_set_initial_def split: option.split)

lemma rest_retain [simp]: "rest (c3_phys_ref_retain s a) = rest s"
  by (simp add: c3_phys_ref_retain_def split: option.split)

lemma rest_cache_slot [simp]: "rest (c3_file_page_cache_slot s i) = rest s"
  by (simp add: c3_file_page_cache_slot_def Let_def)

lemma rest_find_slot: "c3_file_page_find_slot s p off = (s', h) \<Longrightarrow> rest s' = rest s"
  by (auto simp: c3_file_page_find_slot_def Let_def split: if_splits option.splits)

lemma rest_invalidate_slot [simp]: "rest (invalidate_slot c3_phys_ref_release i s) = rest s"
  by (simp add: invalidate_slot_def Let_def split: option.split)

lemma rest_alloc_slot: "c3_file_page_alloc_slot s p = (s', h) \<Longrightarrow> rest s' = rest s"
  by (auto simp: c3_file_page_alloc_slot_def split: option.splits if_splits)

lemma rest_get_frame: "c3_file_page_get_frame s p d off = (s', a) \<Longrightarrow> rest s' = rest s"
  unfolding c3_file_page_get_frame_def Let_def
  by (auto split: prod.splits if_splits option.splits dest!: rest_find_slot rest_alloc rest_alloc_slot)

subsection \<open>Tables that differ in the counts of resident pages\<close>

definition same_regions :: "mmap_table \<Rightarrow> mmap_table \<Rightarrow> bool" where
  "same_regions g h \<longleftrightarrow> (\<forall>i. \<exists>n. h i = (g i)\<lparr> mm_resident_pages := n \<rparr>)"

lemma same_regionsD:
  assumes "same_regions g h"
  shows "mm_used (h i) = mm_used (g i)" and "mm_as (h i) = mm_as (g i)" and "mm_virt (h i) = mm_virt (g i)"
    and "mm_size (h i) = mm_size (g i)" and "lo (h i) = lo (g i)" and "hi (h i) = hi (g i)" and "wf_region (h i) = wf_region (g i)"
    and "attrs_at (h i) p = attrs_at (g i) p" and "holds (h i) r p = holds (g i) r p" and "mm_prot (h i) = mm_prot (g i)"
proof -
  obtain n where "h i = (g i)\<lparr> mm_resident_pages := n \<rparr>" using assms by (auto simp: same_regions_def)
  then show "mm_used (h i) = mm_used (g i)" "mm_as (h i) = mm_as (g i)" "mm_virt (h i) = mm_virt (g i)"
    "mm_size (h i) = mm_size (g i)" "lo (h i) = lo (g i)" "hi (h i) = hi (g i)" "wf_region (h i) = wf_region (g i)"
    "attrs_at (h i) p = attrs_at (g i) p" "holds (h i) r p = holds (g i) r p" "mm_prot (h i) = mm_prot (g i)"
    by (simp_all add: lo_def hi_def wf_region_def attrs_at_def holds_def)
qed

lemma same_regions_refl [simp]: "same_regions g g"
proof -
  have "g i = (g i)\<lparr> mm_resident_pages := mm_resident_pages (g i) \<rparr>" for i by simp
  then show ?thesis unfolding same_regions_def by blast
qed

lemma same_regions_trans: "same_regions g h \<Longrightarrow> same_regions h k \<Longrightarrow> same_regions g k"
proof -
  assume a: "same_regions g h" "same_regions h k"
  have "\<exists>n. k i = (g i)\<lparr> mm_resident_pages := n \<rparr>" for i
  proof -
    obtain n m where "h i = (g i)\<lparr> mm_resident_pages := n \<rparr>" "k i = (h i)\<lparr> mm_resident_pages := m \<rparr>"
      using a unfolding same_regions_def by blast
    then have "k i = (g i)\<lparr> mm_resident_pages := m \<rparr>" by simp
    then show ?thesis ..
  qed
  then show ?thesis by (simp add: same_regions_def)
qed

lemma same_regions_add: "same_regions g (g(i := c3_mmap_resident_add (g i) n))"
proof -
  have "\<exists>k. c3_mmap_resident_add m n = m\<lparr> mm_resident_pages := k \<rparr>" for m
  proof -
    have "m = m\<lparr> mm_resident_pages := mm_resident_pages m \<rparr>" by simp
    then show ?thesis unfolding c3_mmap_resident_add_def Let_def by metis
  qed
  moreover have "\<exists>k. g j = (g j)\<lparr> mm_resident_pages := k \<rparr>" for j
    using same_regions_refl [of g] unfolding same_regions_def by blast
  ultimately show ?thesis by (simp add: same_regions_def)
qed

abbreviation keeps_regions :: "vm \<Rightarrow> vm \<Rightarrow> bool" where
  "keeps_regions s t \<equiv> same_regions (vm_table s) (vm_table t)"

lemma rest_regions: "rest t = rest s \<Longrightarrow> keeps_regions s t"
  using vm_cong(1) [of t s] by simp

lemma apply_page_regions: "c3_mprotect_apply_page s r page pf = (t, e) \<Longrightarrow> rest t = rest s"
proof -
  assume m: "c3_mprotect_apply_page s r page pf = (t, e)"
  let ?entry = "paging_get_entry (fr_pg s) r page"
  define phys0 where "phys0 = ?entry AND C2_PTE_ADDR_MASK"
  define shared where "shared \<longleftrightarrow> (flag_set pf PAGE_WRITABLE \<and> flag_set (?entry AND C3_PTE_KEEP_MASK) C3_PAGE_SOFT_COW)
      \<and> (case c3_phys_ref_index phys0 of None \<Rightarrow> False | Some i \<Rightarrow> fr_refcnt s i > 1)"
  obtain s1 phys where s1: "(if shared then c3_alloc_user_frame s else (s, phys0)) = (s1, phys)" by (meson surj_pair)
  then have r: "rest s1 = rest s" using rest_alloc [of s] by (auto split: if_splits)
  have "t = s \<or> t = s1 \<or> (\<exists>u x. t = u\<lparr> fr_pg := x \<rparr> \<and> rest u = rest s1)"
    using m s1 unfolding c3_mprotect_apply_page_def Let_def phys0_def [symmetric] shared_def [symmetric]
    by (cases shared) (auto split: if_splits)
  then show ?thesis using r by auto
qed

lemma fresh_rest: "fresh_frame s b = (t, a) \<Longrightarrow> rest t = rest s"
  by (auto simp: fresh_frame_def Let_def split: prod.splits if_splits dest!: rest_alloc)

lemma lazy_frame_rest: "c3_mmap_alloc_lazy_frame_for_page s mo page = (t, a) \<Longrightarrow> rest t = rest s"
  by (auto simp: c3_mmap_alloc_lazy_frame_for_page_def split: if_splits option.splits dest!: fresh_rest rest_get_frame)

lemma lazy_file_rest: "c3_mmap_alloc_lazy_file_frame_for_page s m page = (t, a) \<Longrightarrow> rest t = rest s"
  by (auto simp: c3_mmap_alloc_lazy_file_frame_for_page_def Let_def split: if_splits prod.splits
      dest!: fresh_rest rest_get_frame rest_find_slot)

lemma materialize_regions: "c3_mmap_materialize_zero_page s r page prot = (t, e) \<Longrightarrow> keeps_regions s t"
proof -
  assume m: "c3_mmap_materialize_zero_page s r page prot = (t, e)"
  have add: "keeps_regions s (add_resident u i)" if "rest u = rest s" for u i
    using vm_cong(1) [OF that] same_regions_add [of "vm_table s"] by (simp add: add_resident_def)
  let ?i = "c3_mmap_region_find (vm_table s) r page" let ?m = "vm_table s (nat ?i)"
  obtain s1 a where f: "(if ?i \<ge> 0 \<and> c3_mmap_is_lazy_private_file ?m then c3_mmap_alloc_lazy_file_frame_for_page s ?m page
      else c3_mmap_alloc_lazy_frame_for_page s (if ?i \<ge> 0 \<and> c3_mmap_is_lazy_anon ?m then Some ?m else None) page) = (s1, a)"
    by (meson surj_pair)
  then have r1: "rest s1 = rest s" by (auto split: if_splits dest: lazy_frame_rest lazy_file_rest)
  obtain p b where mp: "paging_map (fr_pg s1) r page a (c3_mmap_pte_flags_from_prot prot) = (p, b)" by (meson surj_pair)
  have "rest t = rest s \<or> (\<exists>u q. rest u = rest s \<and> t = (add_resident u ?i)\<lparr> fr_pg := q \<rparr>)"
  proof -
    have "t = s \<or> c3_mprotect_apply_page s r page (c3_mmap_pte_flags_from_prot prot) = (t, e) \<or> t = s1
      \<or> t = c3_phys_ref_release (s1\<lparr> fr_pg := p \<rparr>) a \<or> (\<exists>q. t = (add_resident (s1\<lparr> fr_pg := p \<rparr>) ?i)\<lparr> fr_pg := q \<rparr>)"
      using m unfolding c3_mmap_materialize_zero_page_def Let_def f by (auto simp: mp split: if_splits)
    then show ?thesis using r1 apply_page_regions by force
  qed
  then show ?thesis using add rest_regions by auto
qed

lemma mprotect_pages_regions: "mprotect_pages r prot lz mat ps s = (t, e) \<Longrightarrow> keeps_regions s t"
proof (induction ps arbitrary: s)
  case (Cons page ps)
  have fill: "keeps_regions s t"
    if f: "(if mat then (case c3_mmap_materialize_zero_page u r page prot of
              (u1, e1) \<Rightarrow> if e1 < 0 then (u1, e1) else mprotect_pages r prot lz mat ps u1)
            else mprotect_pages r prot lz mat ps u) = (t, e)" and u: "rest u = rest s" for u
  proof (cases mat)
    case True
    obtain u1 e1 where m: "c3_mmap_materialize_zero_page u r page prot = (u1, e1)" by (meson surj_pair)
    have "keeps_regions u t"
      using f True m materialize_regions [OF m] Cons.IH [of u1] same_regions_trans by (auto split: if_splits)
    then show ?thesis using rest_regions [OF u] same_regions_trans by blast
  next
    case False
    then show ?thesis using f Cons.IH [of u] rest_regions [OF u] same_regions_trans by auto
  qed
  obtain s1 e1 where a: "c3_mprotect_apply_page s r page (c3_mmap_pte_flags_from_prot prot) = (s1, e1)" by (meson surj_pair)
  have r1: "rest s1 = rest s" by (rule apply_page_regions [OF a])
  have next1: "mprotect_pages r prot lz mat ps s1 = (t, e) \<Longrightarrow> keeps_regions s t"
    using Cons.IH [of s1] rest_regions [OF r1] same_regions_trans by blast
  show ?case
    using Cons.prems fill [of s] fill [OF _ r1] next1 rest_regions [OF r1]
    unfolding mprotect_pages.simps Let_def a by (simp split: if_splits) 
qed simp

subsection \<open>Room for the cuts\<close>

definition nfree :: "mmap_table \<Rightarrow> nat" where
  "nfree g = card {i. i < MMAP_REGION_MAX \<and> \<not> mm_used (g i)}"

text \<open>Whether a region of the space has the address strictly inside, so that a cut there needs a slot.\<close>

definition pending :: "mmap_table \<Rightarrow> as_ref \<Rightarrow> u64 \<Rightarrow> nat" where
  "pending g r b = (if \<exists>i < MMAP_REGION_MAX. mm_used (g i) \<and> mm_as (g i) = r \<and> lo (g i) < unat b \<and> unat b < hi (g i) then 1 else 0)"

lemma alloc_nfree: "0 < nfree g \<longleftrightarrow> c3_mmap_alloc_slot g \<noteq> None"
  by (auto simp: nfree_def c3_mmap_alloc_slot_def find_None_iff card_gt_0_iff)

lemma alloc_except_nfree:
  assumes "2 \<le> nfree g"
  shows "c3_mmap_alloc_slot_except g k \<noteq> None"
proof -
  have "0 < card ({i. i < MMAP_REGION_MAX \<and> \<not> mm_used (g i)} - {k})"
    using assms card_Diff1_le [of "{i. i < MMAP_REGION_MAX \<and> \<not> mm_used (g i)}" k]
    by (simp add: nfree_def card_Diff_singleton_if)
  then obtain i where "i < MMAP_REGION_MAX" "\<not> mm_used (g i)" "i \<noteq> k" by (auto simp: card_gt_0_iff)
  then show ?thesis by (auto simp: c3_mmap_alloc_slot_except_def find_None_iff)
qed

lemma nfree_fill: "k < MMAP_REGION_MAX \<Longrightarrow> \<not> mm_used (g k) \<Longrightarrow> mm_used x \<Longrightarrow> nfree g = Suc (nfree (g(k := x)))"
proof -
  assume k: "k < MMAP_REGION_MAX" "\<not> mm_used (g k)" "mm_used x"
  have "{i. i < MMAP_REGION_MAX \<and> \<not> mm_used (g i)} = insert k {i. i < MMAP_REGION_MAX \<and> \<not> mm_used ((g(k := x)) i)}"
    using k by auto
  then show ?thesis using k by (simp add: nfree_def)
qed

lemma nfree_same: "mm_used x = mm_used (g k) \<Longrightarrow> nfree (g(k := x)) = nfree g"
  by (auto simp: nfree_def intro!: arg_cong [where f = card])

text \<open>The pieces of a split: left of the part, the part with its new protection, right of it.\<close>

lemma split_slots:
  fixes prot :: u32
  assumes wf: "wf_region (g i)" and u: "mm_used (g i)"
    and b: "lo (g i) \<le> unat os" "unat os < unat oe" "unat oe \<le> hi (g i)" and al: "4096 dvd unat os" "4096 dvd unat oe"
    and room: "split_room g i os oe"
  defines "g' \<equiv> mprotect_split g i os oe prot"
  shows "(j \<noteq> i \<and> g' j = g j) \<or> (mm_used (g' j) \<and> mm_as (g' j) = mm_as (g i) \<and> lo (g i) \<le> lo (g' j) \<and> hi (g' j) \<le> hi (g i)
      \<and> (hi (g' j) \<le> unat os \<or> unat oe \<le> lo (g' j) \<or> (unat os \<le> lo (g' j) \<and> hi (g' j) \<le> unat oe \<and> mm_prot (g' j) = prot)))"
    and "nfree g = nfree g' + (if lo (g i) < unat os then 1 else 0) + (if unat oe < hi (g i) then 1 else 0)"
proof -
  let ?m = "g i" let ?rs = "mm_virt ?m" let ?re = "mm_virt ?m + mm_size ?m"
  have re: "unat ?re = hi ?m" and rs: "unat ?rs = lo ?m" using wf_region_bounds(1) [OF wf] by (simp_all add: lo_def)
  have al': "4096 dvd unat ?rs" "4096 dvd unat ?re" using wf_virt [OF wf] re rs by simp_all
  have eqs: "os = ?rs \<longleftrightarrow> unat os = lo ?m" "oe = ?re \<longleftrightarrow> unat oe = hi ?m" using rs re by (simp_all add: word_unat_eq_iff)
  let ?L = "sub_region ?m ?rs os" and ?M = "(sub_region ?m os oe)\<lparr> mm_prot := prot \<rparr>" and ?R = "sub_region ?m oe ?re"
    and ?F = "(sub_region ?m ?rs oe)\<lparr> mm_prot := prot \<rparr>"
  have sp: "?m\<lparr> mm_size := os - ?rs \<rparr> = ?L" "?m\<lparr> mm_size := oe - ?rs, mm_prot := prot \<rparr> = ?F"
     "?m\<lparr> mm_virt := oe, mm_size := ?re - oe, mm_offset := mm_offset ?m + (oe - ?rs) \<rparr> = ?R"
     "?m\<lparr> mm_virt := os, mm_size := oe - os, mm_offset := mm_offset ?m + (os - ?rs), mm_prot := prot \<rparr> = ?M"
    by (simp_all add: sub_region_def)
  have M: "lo ?M = unat os" "hi ?M = unat oe" using sub_region_spec [OF wf b al] by simp_all
  have L: "lo ?L = lo ?m" "hi ?L = unat os" if "unat os \<noteq> lo ?m"
    using sub_region_spec [OF wf, of ?rs os] al al' rs b that by simp_all
  have R: "lo ?R = unat oe" "hi ?R = hi ?m" if "unat oe \<noteq> hi ?m"
    using sub_region_spec [OF wf, of oe ?re] al al' re b that by simp_all
  have us: "mm_used ?L" "mm_used ?R" "mm_used ?M" "mm_as ?L = mm_as ?m" "mm_as ?R = mm_as ?m" "mm_as ?M = mm_as ?m"
    using u by simp_all
  have "((j \<noteq> i \<and> g' j = g j) \<or> (mm_used (g' j) \<and> mm_as (g' j) = mm_as ?m \<and> lo ?m \<le> lo (g' j) \<and> hi (g' j) \<le> hi ?m
      \<and> (hi (g' j) \<le> unat os \<or> unat oe \<le> lo (g' j) \<or> (unat os \<le> lo (g' j) \<and> hi (g' j) \<le> unat oe \<and> mm_prot (g' j) = prot))))
    \<and> nfree g = nfree g' + (if lo ?m < unat os then 1 else 0) + (if unat oe < hi ?m then 1 else 0)"
  proof -
    consider (all) "unat os = lo ?m" "unat oe = hi ?m"
      | (front) ns where "unat os = lo ?m" "unat oe \<noteq> hi ?m" "c3_mmap_alloc_slot g = Some ns"
      | (rear) ns where "unat os \<noteq> lo ?m" "unat oe = hi ?m" "c3_mmap_alloc_slot g = Some ns"
      | (mid) ms rt where "unat os \<noteq> lo ?m" "unat oe \<noteq> hi ?m" "c3_mmap_alloc_slot g = Some ms" "c3_mmap_alloc_slot_except g ms = Some rt"
      using room unfolding split_room_def Let_def eqs by (fastforce split: option.splits)
    then show ?thesis
    proof cases
      case all
      have g: "g' = g(i := ?m\<lparr> mm_prot := prot \<rparr>)" using all by (simp add: g'_def mprotect_split_def Let_def eqs)
      have "nfree g' = nfree g" unfolding g by (rule nfree_same) simp
      then show ?thesis using all u b by (cases "j = i") (simp_all add: g)
    next
      case (front ns)
      have ns: "ns < MMAP_REGION_MAX" "\<not> mm_used (g ns)" "ns \<noteq> i"
        using find_unused [of g ns] front(3) u by (auto simp: c3_mmap_alloc_slot_def)
      have "?F = ?M" using front(1) rs by (simp add: eqs [THEN iffD2])
      then have g: "g' = g(ns := ?R, i := ?M)" using front by (simp add: g'_def mprotect_split_def Let_def eqs sp)
      have "nfree g' = nfree (g(ns := ?R))" unfolding g by (rule nfree_same) (use ns u us in simp)
      then have "nfree g = Suc (nfree g')" using nfree_fill [where g = g, OF ns(1,2) us(2)] by simp
      then show ?thesis using front b us M R [OF front(2)] ns(3) by (cases "j = i"; cases "j = ns") (simp_all add: g)
    next
      case (rear ns)
      have ns: "ns < MMAP_REGION_MAX" "\<not> mm_used (g ns)" "ns \<noteq> i"
        using find_unused [of g ns] rear(3) u by (auto simp: c3_mmap_alloc_slot_def)
      have g: "g' = g(ns := ?M, i := ?L)" using rear by (simp add: g'_def mprotect_split_def Let_def eqs sp)
      have "nfree g' = nfree (g(ns := ?M))" unfolding g by (rule nfree_same) (use ns u us in simp)
      then have "nfree g = Suc (nfree g')" using nfree_fill [where g = g, OF ns(1,2) us(3)] by simp
      then show ?thesis using rear b us M L [OF rear(1)] ns(3) by (cases "j = i"; cases "j = ns") (simp_all add: g)
    next
      case (mid ms rt)
      have ms: "ms < MMAP_REGION_MAX" "\<not> mm_used (g ms)" "ms \<noteq> i"
        using find_unused [of g ms] mid(3) u by (auto simp: c3_mmap_alloc_slot_def)
      have rt: "rt < MMAP_REGION_MAX" "\<not> mm_used (g rt)" "rt \<noteq> ms" "rt \<noteq> i"
        using mid(4) u by (auto simp: c3_mmap_alloc_slot_except_def dest!: find_SomeD)
      have g: "g' = g(ms := ?M, rt := ?R, i := ?L)" using mid by (simp add: g'_def mprotect_split_def Let_def eqs sp)
      have "nfree g' = nfree (g(ms := ?M, rt := ?R))" unfolding g by (rule nfree_same) (use ms rt u us in simp)
      moreover have "nfree (g(ms := ?M)) = Suc (nfree (g(ms := ?M, rt := ?R)))" by (rule nfree_fill) (use rt us in simp_all)
      ultimately have "nfree g = Suc (Suc (nfree g'))" using nfree_fill [where g = g, OF ms(1,2) us(3)] by simp
      then show ?thesis using mid b us M L [OF mid(1)] R [OF mid(2)] ms(3) rt(3,4)
        by (cases "j = i"; cases "j = ms"; cases "j = rt") (simp_all add: g)
    qed
  qed
  then show "(j \<noteq> i \<and> g' j = g j) \<or> (mm_used (g' j) \<and> mm_as (g' j) = mm_as ?m \<and> lo ?m \<le> lo (g' j) \<and> hi (g' j) \<le> hi ?m
      \<and> (hi (g' j) \<le> unat os \<or> unat oe \<le> lo (g' j) \<or> (unat os \<le> lo (g' j) \<and> hi (g' j) \<le> unat oe \<and> mm_prot (g' j) = prot)))"
    and "nfree g = nfree g' + (if lo ?m < unat os then 1 else 0) + (if unat oe < hi ?m then 1 else 0)" by blast+
qed

subsection \<open>The scan over the slots\<close>

abbreviation with_prot :: "u32 \<Rightarrow> page_attrs option \<Rightarrow> page_attrs option" where
  "with_prot prot \<equiv> map_option (\<lambda>a. a\<lparr> pa_prot := prot \<rparr>)"

definition protect_inv :: "mmap_table \<Rightarrow> as_ref \<Rightarrow> u64 \<Rightarrow> u64 \<Rightarrow> u32 \<Rightarrow> nat \<Rightarrow> mmap_table \<Rightarrow> bool" where
  "protect_inv g0 r us ue prot k g \<longleftrightarrow> table_ok g \<and> pending g r us + pending g r ue \<le> nfree g
     \<and> (\<forall>r' p. mapped g r' p = mapped g0 r' p \<or> (r' = r \<and> in_range us ue p \<and> mapped g r' p = with_prot prot (mapped g0 r' p)))
     \<and> (\<forall>i < k. \<forall>p. in_range us ue p \<longrightarrow> holds (g i) r p \<longrightarrow> mm_prot (g i) = prot)"

lemma protect_inv_same:
  assumes "same_regions g h"
  shows "protect_inv g0 r us ue prot k h = protect_inv g0 r us ue prot k g"
proof -
  note S = same_regionsD [OF assms]
  have "mapped h r p = mapped g r p" for r p by (simp add: mapped_def S)
  moreover have "table_ok h = table_ok g" by (simp add: table_ok_def apart_def S)
  moreover have "nfree h = nfree g" "pending h r b = pending g r b" for b by (simp_all add: nfree_def pending_def S)
  ultimately show ?thesis by (simp add: protect_inv_def S)
qed

lemma protect_outside:
  assumes I: "protect_inv g0 r us ue prot k g" and k: "k < MMAP_REGION_MAX" and lt: "us < ue"
    and al: "4096 dvd unat us" "4096 dvd unat ue" and out: "outside (g k) r us ue"
  shows "protect_inv g0 r us ue prot (Suc k) g"
proof -
  have "\<not> holds (g k) r p" if "in_range us ue p" for p
  proof (cases "mm_used (g k)")
    case True
    have "table_ok g" using I by (simp add: protect_inv_def)
    from clip(1) [OF table_okD(1) [OF this k True] lt al True, of r] out that
    show ?thesis by (auto simp: holds_def in_range_def)
  qed (simp add: holds_def)
  with I show ?thesis by (auto simp: protect_inv_def less_Suc_eq)
qed

lemma protect_step:
  assumes I: "protect_inv g0 r us ue prot k g" and k: "k < MMAP_REGION_MAX" and lt: "us < ue"
    and al: "4096 dvd unat us" "4096 dvd unat ue" and out: "\<not> outside (g k) r us ue"
  shows "protect_inv g0 r us ue prot (Suc k) (mprotect_split g k (clip_lo (g k) us) (clip_hi (g k) ue) prot)"
proof -
  let ?os = "clip_lo (g k) us" and ?oe = "clip_hi (g k) ue" let ?g = "mprotect_split g k ?os ?oe prot"
  have ok: "table_ok g" and room: "pending g r us + pending g r ue \<le> nfree g"
    and mp: "\<And>r' p. mapped g r' p = mapped g0 r' p \<or> (r' = r \<and> in_range us ue p \<and> mapped g r' p = with_prot prot (mapped g0 r' p))"
    and dn: "\<And>i p. i < k \<Longrightarrow> in_range us ue p \<Longrightarrow> holds (g i) r p \<Longrightarrow> mm_prot (g i) = prot"
    using I by (auto simp: protect_inv_def)
  have u: "mm_used (g k)" "mm_as (g k) = r" using out by (auto simp: outside_def)
  have wf: "wf_region (g k)" by (rule table_okD(1) [OF ok k u(1)])
  note C = clip [OF wf lt al u(1)]
  have in': "unat us < hi (g k)" "lo (g k) < unat ue" using C(1) [of r] out u(2) by auto
  have lt': "unat ?os < unat ?oe" using C(4) [OF out] by (simp add: word_less_nat_alt)
  have b: "lo (g k) \<le> unat ?os" "unat ?oe \<le> hi (g k)" by (simp_all add: C(2,3))
  have cut: "lo (g k) < unat ?os \<longleftrightarrow> lo (g k) < unat us" "unat ?oe < hi (g k) \<longleftrightarrow> unat ue < hi (g k)"
    by (auto simp: C(2,3))
  have pu: "lo (g k) < unat us \<Longrightarrow> pending g r us = 1" "unat ue < hi (g k) \<Longrightarrow> pending g r ue = 1"
    using k u in' by (auto simp: pending_def)
  have re: "unat (mm_virt (g k) + mm_size (g k)) = hi (g k)" by (rule wf_region_bounds(1) [OF wf])
  have sroom: "split_room g k ?os ?oe"
  proof -
    have "?os = mm_virt (g k) \<longleftrightarrow> \<not> lo (g k) < unat us" "?oe = mm_virt (g k) + mm_size (g k) \<longleftrightarrow> \<not> unat ue < hi (g k)"
      unfolding cut [symmetric] using b by (auto simp: word_unat_eq_iff re) (simp_all add: lo_def)
    then show ?thesis
      using room pu alloc_nfree [of g] alloc_except_nfree [of g]
      by (cases "lo (g k) < unat us"; cases "unat ue < hi (g k)") (auto simp: split_room_def Let_def split: option.split)
  qed
  note P = split_slots [OF wf u(1) b(1) lt' b(2) C(5,6) sroom, where prot = prot]
  note S = mprotect_split_spec [OF ok k u(1) b(1) lt' b(2) C(5,6) sroom, where prot = prot]
  have alone: "j = k" if "j < MMAP_REGION_MAX" "mm_used (g j)" "mm_as (g j) = r" "lo (g j) < x" "x < hi (g j)" "lo (g k) < x" "x < hi (g k)" for j x
    using holds_unique [OF ok that(1) _ k, of r x] that u by (simp add: holds_def)
  have pend: "pending ?g r x + (if lo (g k) < unat x \<and> unat x < hi (g k) then 1 else 0) \<le> pending g r x"
    if x: "x = us \<or> x = ue" for x
  proof (cases "\<exists>j < MMAP_REGION_MAX. mm_used (?g j) \<and> mm_as (?g j) = r \<and> lo (?g j) < unat x \<and> unat x < hi (?g j)")
    case False
    then have "pending ?g r x = 0" unfolding pending_def by (rule if_not_P)
    moreover have "lo (g k) < unat x \<and> unat x < hi (g k) \<Longrightarrow> pending g r x = 1" using k u by (auto simp: pending_def)
    ultimately show ?thesis by simp
  next
    case True
    then obtain j where j: "j < MMAP_REGION_MAX" "mm_used (?g j)" "mm_as (?g j) = r" "lo (?g j) < unat x" "unat x < hi (?g j)" by blast
    have "j \<noteq> k \<and> ?g j = g j" using P(1) [of j] j(4,5) x C(2,3) lt' by auto
    then have gj: "mm_used (g j)" "mm_as (g j) = r" "lo (g j) < unat x" "unat x < hi (g j)" "j \<noteq> k" using j by auto
    then have "\<not> (lo (g k) < unat x \<and> unat x < hi (g k))" using alone [OF j(1)] by blast
    moreover have "pending g r x = 1" using j(1) gj by (auto simp: pending_def)
    moreover have "pending ?g r x \<le> 1" by (simp add: pending_def)
    ultimately show ?thesis by auto
  qed
  have "pending ?g r us + pending ?g r ue \<le> nfree ?g"
    using pend [of us] pend [of ue] room P(2) in' unfolding cut by (simp split: if_splits)
  moreover have "mapped ?g r' p = mapped g0 r' p \<or> (r' = r \<and> in_range us ue p \<and> mapped ?g r' p = with_prot prot (mapped g0 r' p))" for r' p
  proof (cases "r' = r \<and> unat ?os \<le> p \<and> p < unat ?oe")
    case True
    then have "mapped ?g r' p = with_prot prot (mapped g r' p)" using S(2) [of r' p] u(2) by simp
    moreover have "in_range us ue p" using True by (auto simp: in_range_def C(2,3))
    ultimately show ?thesis using mp [of r' p] True by (auto simp: option.map_comp comp_def)
  next
    case False
    then have "mapped ?g r' p = mapped g r' p" using S(2) [of r' p] u(2) by (simp only: if_False)
    then show ?thesis using mp [of r' p] by simp
  qed
  moreover have "mm_prot (?g j) = prot" if "j < Suc k" "in_range us ue p" "holds (?g j) r p" for j p
    using P(1) [of j] that dn [of j p] C(2,3) by (auto simp: holds_def in_range_def less_Suc_eq)
  ultimately show ?thesis using S(1) by (simp add: protect_inv_def)
qed

lemma mprotect_loop_outside:
  assumes "outside (vm_table s i) r us ue"
  shows "mprotect_loop fdt r us ue prot (i # xs) hit s = mprotect_loop fdt r us ue prot xs hit s"
  using assms unfolding mprotect_loop.simps Let_def outside_def by (elim disjE) simp_all

lemma protect_loop:
  assumes "protect_inv g0 r us ue prot k (vm_table s)" and "k \<le> MMAP_REGION_MAX" and lt: "us < ue"
    and al: "4096 dvd unat us" "4096 dvd unat ue"
    and "mprotect_loop fdt r us ue prot [k..<MMAP_REGION_MAX] hit s = (t, hit', e)" and "\<not> e < 0"
  shows "protect_inv g0 r us ue prot MMAP_REGION_MAX (vm_table t)"
  using assms(1,2,6,7)
proof (induction "MMAP_REGION_MAX - k" arbitrary: k s hit)
  case 0
  then have "k = MMAP_REGION_MAX" by simp
  with 0 show ?case by simp
next
  case (Suc n)
  let ?m = "vm_table s k" let ?us = "clip_lo ?m us" and ?ue = "clip_hi ?m ue"
  have k: "k < MMAP_REGION_MAX" using Suc.hyps(2) by simp
  have n: "n = MMAP_REGION_MAX - Suc k" using Suc.hyps(2) by simp
  have up: "[k..<MMAP_REGION_MAX] = k # [Suc k..<MMAP_REGION_MAX]" by (rule upt_conv_Cons [OF k])
  note IH = Suc.hyps(1) [OF n]
  show ?case
  proof (cases "outside ?m r us ue")
    case True
    then have "mprotect_loop fdt r us ue prot [Suc k..<MMAP_REGION_MAX] hit s = (t, hit', e)"
      using Suc.prems(3) unfolding up mprotect_loop_outside [OF True] by simp
    with IH [OF protect_outside [OF Suc.prems(1) k lt al True]] k Suc.prems(4) show ?thesis by simp
  next
    case False
    have ok: "table_ok (vm_table s)" using Suc.prems(1) by (simp add: protect_inv_def)
    have u: "mm_used ?m" "mm_as ?m = r" using False by (auto simp: outside_def)
    have nle: "\<not> ?ue \<le> ?us" using clip(4) [OF table_okD(1) [OF ok k u(1)] lt al u(1) False] by simp
    have c: "(if us > mm_virt ?m then us else mm_virt ?m) = ?us" "(if ue < region_end ?m then ue else region_end ?m) = ?ue"
      by (simp_all add: clip_lo_def clip_hi_def)
    let ?lz = "c3_mmap_is_lazy_anon ?m \<or> c3_mmap_is_lazy_private_file ?m"
    let ?mat = "?lz \<and> prot AND C3_PROT_WRITE \<noteq> 0 \<and> ?ue - ?us \<le> 2 * 1024 * 1024"
    obtain s1 e1 where p: "(if ?lz \<and> \<not> ?mat \<and> ?ue - ?us > 64 * 1024 * 1024 then (s, 0)
        else mprotect_pages r prot ?lz ?mat (page_list ?us ?ue) s) = (s1, e1)" by (meson surj_pair)
    have same: "keeps_regions s s1" using p mprotect_pages_regions by (auto split: if_splits)
    have L: "mprotect_loop fdt r us ue prot [Suc k..<MMAP_REGION_MAX] True
        (s1\<lparr> vm_table := mprotect_split (vm_table s1) k ?us ?ue prot \<rparr>) = (t, hit', e)"
      using Suc.prems(3,4) False u nle unfolding up mprotect_loop.simps Let_def c p by (auto simp: outside_def EACCES_def split: if_splits)
    have I1: "protect_inv g0 r us ue prot k (vm_table s1)" using Suc.prems(1) protect_inv_same [OF same] by simp
    have e: "clip_lo (vm_table s1 k) us = ?us" "clip_hi (vm_table s1 k) ue = ?ue" "\<not> outside (vm_table s1 k) r us ue"
      using False by (simp_all add: clip_lo_def clip_hi_def outside_def region_end_def same_regionsD [OF same])
    have "protect_inv g0 r us ue prot (Suc k) (mprotect_split (vm_table s1) k ?us ?ue prot)"
      using protect_step [OF I1 k lt al e(3)] unfolding e .
    with IH [OF _ _ L Suc.prems(4)] k show ?thesis by simp
  qed
qed


text \<open>The first of three pages becomes read-only: the region is cut in two.\<close>

abbreviation "ex_table \<equiv> vm_table vm_example"

lemma example_slots: "slots = 0 # [1..<MMAP_REGION_MAX]" "[1..<MMAP_REGION_MAX] = 1 # [2..<MMAP_REGION_MAX]"
proof -
  have "0 < MMAP_REGION_MAX" "1 < MMAP_REGION_MAX" by (simp_all add: MMAP_REGION_MAX_def)
  note U = this [THEN upt_conv_Cons]
  show "slots = 0 # [1..<MMAP_REGION_MAX]" using U(1) by simp
  show "[1..<MMAP_REGION_MAX] = 1 # [2..<MMAP_REGION_MAX]" using U(2) by (simp add: numeral_2_eq_2)
qed

lemma fold_skip: "(\<And>x. x \<in> set xs \<Longrightarrow> f x a = a) \<Longrightarrow> fold f xs a = a"
  by (induction xs) simp_all

lemma example_covered: "c3_mmap_range_fully_covered ex_table (UserAS 0) 0x40000000 0x40001000"
proof -
  have "fold (region_find_step ex_table (UserAS 0) 0x40000000) [1..<MMAP_REGION_MAX] a = a" for a
    by (rule fold_skip) (auto simp: region_find_step_def vm_example_table split: prod.split)
  then have "c3_mmap_region_find ex_table (UserAS 0) 0x40000000 = 0"
    unfolding c3_mmap_region_find_def example_slots(1)
    by (simp add: region_find_step_def vm_example_table example_region_def new_region_def)
  then show ?thesis
    unfolding c3_mmap_range_fully_covered_def
    by (subst range_covered_loop.simps) (simp add: Let_def vm_example_table example_region_def new_region_def)
qed

lemma mprotect_loop_skip:
  "(\<And>i. i \<in> set xs \<Longrightarrow> outside (vm_table s i) r us ue) \<Longrightarrow> mprotect_loop fdt r us ue prot xs hit s = (s, hit, 0)"
proof (induction xs)
  case (Cons i xs)
  then show ?case using mprotect_loop_outside [of s i r us ue fdt prot xs hit] by simp
qed simp

lemma example_no_page: "paging_get_entry (fr_pg vm_example) r v = 0"
proof -
  have "fr_pg vm_example = paging_example" by (simp add: vm_example_def frames.defs vm.defs frames_example_def)
  then show ?thesis by (simp add: paging_get_entry_def Let_def paging_example_def PAGE_PRESENT_def)
qed

lemma example_protect: "\<exists>t. real_sys_mprotect vm_example fdt (UserAS 0) 0x40000000 0x1000 1 = (t, 0)"
proof -
  have a: "c3_mmap_alloc_slot ex_table = Some 1"
    unfolding c3_mmap_alloc_slot_def example_slots(1) example_slots(2)
    by (simp add: vm_example_table) (simp add: example_region_def new_region_def)
  let ?g = "mprotect_split ex_table 0 0x40000000 0x40001000 1"
  have v: "vm_table vm_example 0 = example_region" by (simp add: vm_example_table)
  have upd: "?g = ex_table(1 := ?g 1, 0 := ?g 0)" and g1: "mm_virt (?g 1) = 0x40001000"
    by (auto simp: mprotect_split_def Let_def v a example_region_def new_region_def)
  have g: "\<not> mm_used (?g i)" if "i > 1" for i
  proof -
    have "?g i = (ex_table(1 := ?g 1, 0 := ?g 0)) i" by (rule fun_cong [OF upd])
    also have "\<dots> = example_region\<lparr> mm_used := False \<rparr>" using that by (simp add: vm_example_table)
    finally show ?thesis by simp
  qed
  have o: "outside (?g i) (UserAS 0) 0x40000000 0x40001000" if "i \<in> set [1..<MMAP_REGION_MAX]" for i
    using that g1 g [of i] by (cases "i = 1") (auto simp: outside_def)
  have lz: "c3_mmap_is_lazy_anon example_region" "\<not> c3_mmap_is_shared (mm_flags example_region)"
    by (simp_all add: c3_mmap_is_lazy_anon_def c3_mmap_is_anon_def c3_mmap_is_shared_def C3_MAP_ANONYMOUS_def C3_MAP_SHARED_def
      example_region_def new_region_def)
  have b: "mm_used example_region" "mm_as example_region = UserAS 0" "mm_virt example_region = 0x40000000"
    "region_end example_region = 0x40003000" by (simp_all add: example_region_def new_region_def region_end_def)
  have p: "page_list 0x40000000 0x40001000 = [0x40000000]" by (simp add: page_list_def)
  have "mprotect_pages (UserAS 0) 1 True False (page_list 0x40000000 0x40001000) vm_example = (vm_example, 0)"
    by (simp add: p Let_def example_no_page PAGE_PRESENT_def)
  then have "mprotect_loop fdt (UserAS 0) 0x40000000 0x40001000 1 slots False vm_example = (vm_example\<lparr> vm_table := ?g \<rparr>, True, 0)"
    unfolding example_slots(1) mprotect_loop.simps Let_def v b
    using mprotect_loop_skip [of "[1..<MMAP_REGION_MAX]" "vm_example\<lparr> vm_table := ?g \<rparr>"] o lz
    by (simp add: C3_PROT_WRITE_def b)
  then show ?thesis
    by (simp add: real_sys_mprotect_def Let_def PAGE_SIZE_def example_covered C3_PROT_READ_def C3_PROT_WRITE_def C3_PROT_EXEC_def)
qed


end
