(* ===== verification/Spec2Isabelle.thy ===== *)
theory Spec2Isabelle
  imports KString KHeap KVfsOps KInitrd KElf KProc KRings PagingProps KFdProps KWait KTty KTls KSockLocal KMmapCalls KMmapProtect
begin

text \<open>
  \<^bold>\<open>RiduxOS: a model of the kernel's core and the properties that make it correct.\<close>

  RiduxOS is a 64-bit hobby operating system in C: a kernel core (\<^verbatim>\<open>src/kernel\<close>: memory, file table, ELF
  loader, windowing) and a Linux compatibility layer (\<^verbatim>\<open>src/compat\<close>: physical memory, paging, tasks,
  signals, descriptors, pipes, terminal, sockets, TLS).  Every definition here is translated from the
  source; machine integers are words of their width (or integers with the wrap-around written out),
  structs are records, and a call that can panic, read outside its buffer or run for ever has that
  outcome as a value.  Traces on the serial line and statistics no code reads are left out.

  \<^bold>\<open>Theories and the code they model\<close>

  \<^item> \<open>Prelude\<close>, \<open>KMem\<close>, \<open>KBytes\<close>, \<open>RoundRobin\<close>: word types, searches in tables, byte memory
    (\<open>k_memset\<close>, \<open>k_memcpy\<close>), numbers as byte strings, and the reference round robin scan.
  \<^item> \<open>KString\<close>: the \<open>k_\<close> text and number helpers of \<^verbatim>\<open>kernel/core_runtime.c\<close>.
  \<^item> \<open>KHeap\<close>: the heap (\<open>kmalloc\<close>, \<open>kfree\<close>, \<open>kcalloc\<close>) of \<^verbatim>\<open>kernel/core_runtime.c\<close>.  The state is the
    chain of block headers; a panic is a value of \<open>kresult\<close>.
  \<^item> \<open>KVfs\<close>, \<open>KVfsOps\<close>, \<open>KInitrd\<close>: the file table, its operations and the tar archive it is filled
    from (\<^verbatim>\<open>kernel/vfs_sched.c\<close>).  \<open>KElf\<close>: the ELF32 loader.  \<open>KProc\<close>: the process table and tick of
    the same file.
  \<^item> \<open>KRings\<close>: keyboard, mouse and log rings of \<^verbatim>\<open>kernel/core_runtime.c\<close>.
  \<^item> \<open>Pmm\<close>: the bitmap of physical frames (\<open>pmm_*\<close> of \<^verbatim>\<open>compat/memory_tasks.c\<close>).
  \<^item> \<open>Paging\<close>, \<open>PagingBits\<close>, \<open>PagingTree\<close>, \<open>PagingProps\<close>: the four-level page tables (\<open>paging_*\<close> and
    \<open>c2_*\<close> of \<^verbatim>\<open>compat/memory_tasks.c\<close>); the tables are a map from frame and index to entries.
  \<^item> \<open>KFrames\<close>, \<open>KFrameProps\<close>: frames of user memory (\<^verbatim>\<open>compat/linux_syscalls.c\<close>): reference counts
    (\<open>c3_phys_ref_*\<close>), the quarantine ring, the cache of file pages (\<open>c3_file_page_*\<close>) and the allocator
    that reclaims from both.  The record \<open>frames\<close> extends the paging state with the contents of frames.
  \<^item> \<open>KMmap\<close>: the table of user memory regions (\<open>g_mmap_table\<close>), its searches, merging and cuts.
    \<open>KMmapOps\<close>, \<open>KMmapProps\<close>: the calls over it (\<open>real_sys_munmap\<close>, \<open>real_sys_mprotect\<close>, \<open>real_sys_brk\<close>,
    \<open>real_sys_madvise\<close>, \<open>real_sys_msync\<close>, anonymous \<open>real_sys_mmap\<close>, lazy faults), over the record \<open>vm\<close>,
    which adds the table, the layout of the tasks and the files to \<open>frames\<close>.
    \<open>KMmapProtect\<close>: what \<open>mprotect\<close> does to the attributes of pages, through splits and merges.
    \<open>KMmapRevoke\<close>, \<open>KMmapCalls\<close>: the same calls at the level of page tables and frames: which pages user
    code can still reach, and how the counts of frames follow, under the joint invariant \<open>pages_inv\<close>
    of page tables, counts, quarantine and free frames.
  \<^item> \<open>KTask\<close>, \<open>KSignal\<close>, \<open>KSched\<close>, \<open>KFdProps\<close>, \<open>KWait\<close>: task table, descriptors, exit, signals with
    their frames in user memory, creation, \<open>fork\<close>, \<open>waitpid\<close> and \<open>task_schedule\<close>
    (\<^verbatim>\<open>compat/memory_tasks.c\<close>, and the descriptor sharing of \<^verbatim>\<open>compat/linux_syscalls.c\<close>).
  \<^item> \<open>KPipe\<close>: pipes of \<^verbatim>\<open>compat/base.c\<close> and the blocking reads and writes of \<^verbatim>\<open>compat/linux_syscalls.c\<close>.
    \<open>KTty\<close>: the terminal, its ioctls, process groups and timers of \<^verbatim>\<open>compat/memory_tasks.c\<close>.
  \<^item> \<open>KAes\<close>, \<open>KSha\<close>, \<open>KBignum\<close>, \<open>KRsa\<close>, \<open>KCert\<close>, \<open>KTls\<close>: the cryptography of the TLS client in
    \<^verbatim>\<open>compat/display_wayland.c\<close>: block cipher, digest and key expansion, multi-precision numbers, RSA,
    certificates and chains, records.
  \<^item> \<open>KNet\<close>: packet builders and checksum (\<open>net_build_*\<close> of \<^verbatim>\<open>compat/memory_tasks.c\<close>), routes and the
    address cache (\<open>arp_*\<close>, \<^verbatim>\<open>compat/base.c\<close>).  \<open>KDns\<close>: the resolver and its local answers.
  \<^item> \<open>KSock\<close>: a socket as a record, its byte rings and queues, lookups and frames through a socket.  The
    record \<open>nstate\<close> gathers the tables of sockets, connection blocks, interfaces, addresses and names,
    the task table that wake-ups change, and the frames in and out of the card.
  \<^item> \<open>KTcp\<close>: the connection blocks of \<^verbatim>\<open>compat/display_wayland.c\<close> (\<open>tcp7_*\<close>) and the path of a received
    frame to its socket (\<open>net_process_frame\<close>, \<^verbatim>\<open>compat/base.c\<close>).
  \<^item> \<open>KSockApi\<close>, \<open>KSockLocal\<close>: the calls \<open>sock_create\<close> to \<open>sock_close\<close> and what they do between two
    sockets of one machine.

  \<^bold>\<open>What the lemmas show\<close>

  \<^item> Invariants over every reachable state: heap chain, file table, process and task tables, frames;
    for user frames, that their count is that of their holders and cached pages, and free ones have none.
  \<^item> Revocation and protection of user memory: after \<open>munmap\<close> user code reaches none of the pages given back,
    each frame has lost one reference per page, and \<open>mprotect\<close> changes the pages it names and no other.
  \<^item> Refinement of abstract machines: files as a map from names to contents, rings and pipes as bounded
    queues (\<open>byte_stream\<close>, an interface that pipes, the terminal and the rings of sockets provide), the terminal as a
    line editor, page tables as a translation function, the scheduler as a round robin, the table of
    regions as a map from addresses of a space to attributes.
  \<^item> Equivalence with references: incremental hashing with the one-shot digest, the bignum loops with
    arithmetic on the natural numbers, and with it the meaning of an accepted certificate chain.
  \<^item> Round trips: allocation and release, printing and parsing, signal delivery and return, encryption
    and decryption, terminal settings.
  \<^item> Wake-ups: a write to a pipe, an exit and a signal make the tasks waiting for them runnable, and
    so does a datagram or a pending connection.
  \<^item> End to end: the bytes one host sends are those the other host's socket holds after polling the
    frames; segments that are lost, repeated or out of order never change the prefix that is delivered;
    a connect to a listener, the accept and the transfer between the two ends compose.

  \<^bold>\<open>Bounds\<close>

  The loops of the code are recursions that end by a measure, so there is no fuel.  The loops whose end
  depends on the state are partial functions whose results are proved to exist: the reductions of the
  bignum code, the segments of one send (a segment size of zero would not end) and the recursive closing
  of waiting connections.  Table sizes are those of the code (256 tasks, 384 files, 2 MiB frames
  and so on).  Blocking system calls are modelled round by round.  What comes from outside is an argument:
  the frames that arrive before each poll, whether the card takes a frame, the clock in milliseconds and
  the initial sequence numbers.  The waiting loops have the code's own bounds (200 polls for a connect, 24
  attempts and 240 polls for a query).

  \<^bold>\<open>Not modelled\<close>

  Code that mostly drives devices or draws: the windowing and application code
  (\<^verbatim>\<open>kernel/wm_apps_ui.c\<close>, \<^verbatim>\<open>kernel/shell_input.c\<close>), the X11 and Wayland servers of
  \<^verbatim>\<open>compat/display_wayland.c\<close>, the user interface in \<^verbatim>\<open>ridux-ui\<close> with its generated fonts and images,
  boot code in assembly, build tools.  A socket whose peer is one of the kernel's own servers (X11, Wayland,
  D-Bus, the built-in HTTP pages) leaves the model: a call that would enter one is \<open>None\<close>.  Of
  \<^verbatim>\<open>compat/linux_syscalls.c\<close> only descriptor sharing, pipes, wake-ups and user memory are here; of the
  latter not \<open>mremap\<close>, mappings of files and devices, copy on write and the copy of a space by \<open>fork\<close>.
  Futexes, epoll and the remaining system calls are open, as are the handshake of TLS (its pieces are
  here, its polling loop is not), the disk drivers and the file systems of \<^verbatim>\<open>compat/base.c\<close>.  Of the network
  card only the queues of frames are modelled, not its descriptor rings.
\<close>

end
